(* ===== verification/Prelude.thy ===== *)
theory Prelude
  imports Main "HOL-Library.Word" "HOL-Library.List_Lexorder" "HOL-Library.Multiset"
begin

text \<open>
  Shared vocabulary of the development: bytes and machine words, the return codes of
  \<^verbatim>\<open>src/src/util/macros.h\<close>, the byte-string order of \<^verbatim>\<open>key_cmp\<close>, the little-endian layout
  that \<^verbatim>\<open>memcpy\<close> of an integer produces on the supported hosts, and the interfaces
  (locales) that the components state their contracts with: a keyed store, a
  self-delimiting byte codec and \<^verbatim>\<open>qsort\<close>.
  A pointer with a length, such as \<^verbatim>\<open>(key, key_len)\<close>, is the list of the bytes it
  delimits; a null pointer with length 0 is the empty list.
\<close>

section \<open>Types\<close>

type_synonym byte = "8 word"
type_synonym bytes = "byte list"
type_synonym u16 = "16 word"
type_synonym u32 = "32 word"
type_synonym u64 = "64 word"

named_theorems codec_simps \<open>encoding and decoding of fixed-width integers\<close>
named_theorems cmp_simps \<open>key comparison as the lexicographic order\<close>

text \<open>The return codes of \<^verbatim>\<open>macros.h\<close>.\<close>

datatype rc =
    KANBUDB_OK
  | KANBUDB_ERR_OOM
  | KANBUDB_ERR_NOTFOUND
  | KANBUDB_ERR_EXISTS
  | KANBUDB_ERR_CORRUPT
  | KANBUDB_ERR_IO
  | KANBUDB_ERR_INVAL
  | KANBUDB_ERR_BUSY

section \<open>Byte strings: \<open>memcmp\<close> and \<open>key_cmp\<close>\<close>

text \<open>
  \<^verbatim>\<open>memcmp\<close> looks at the first byte where the two buffers differ, as unsigned char. C
  fixes only the sign of its result; the model returns -1, 0 or 1.
\<close>

fun memcmp :: "bytes \<Rightarrow> bytes \<Rightarrow> nat \<Rightarrow> int" where
  "memcmp (a # as) (b # bs) n =
     (if n = 0 then 0 else if a < b then - 1 else if b < a then 1 else memcmp as bs (n - 1))"
| "memcmp _ _ _ = 0"

text \<open>
  \<^verbatim>\<open>key_cmp\<close> is defined twice in the source, once in \<^verbatim>\<open>lsm.c\<close> and once in \<^verbatim>\<open>btree.c\<close>,
  with the same text; \<^verbatim>\<open>sstable.c\<close> and \<^verbatim>\<open>compaction.c\<close> inline it.
\<close>

definition key_cmp :: "bytes \<Rightarrow> bytes \<Rightarrow> int" where
  "key_cmp a b =
     (let alen = length a; blen = length b;
          m = (if alen < blen then alen else blen);
          r = memcmp a b m
      in if r \<noteq> 0 then r else if alen < blen then - 1 else if alen > blen then 1 else 0)"

lemma key_cmp_Nil [simp]:
  "key_cmp [] [] = 0" "key_cmp [] (y # ys) = - 1" "key_cmp (x # xs) [] = 1"
  by (simp_all add: key_cmp_def)

lemma key_cmp_Cons [simp]:
  "key_cmp (x # xs) (y # ys) = (if x < y then - 1 else if y < x then 1 else key_cmp xs ys)"
  by (auto simp: key_cmp_def Let_def)

text \<open>The comparison is the lexicographic order of the library on byte lists.\<close>

lemma key_cmp_spec: "key_cmp a b = (if a < b then - 1 else if b < a then 1 else 0)"
proof (induction a arbitrary: b)
  case Nil
  then show ?case by (cases b) auto
next
  case (Cons x xs)
  then show ?case by (cases b) auto
qed

lemma key_cmp_iffs [cmp_simps]:
  "key_cmp a b < 0 \<longleftrightarrow> a < b"
  "key_cmp a b \<ge> 0 \<longleftrightarrow> b \<le> a"
  "key_cmp a b > 0 \<longleftrightarrow> b < a"
  "key_cmp a b \<le> 0 \<longleftrightarrow> a \<le> b"
  "key_cmp a b = 0 \<longleftrightarrow> a = b"
  by (auto simp: key_cmp_spec not_less)

section \<open>Little-endian integers\<close>

fun le_enc :: "nat \<Rightarrow> nat \<Rightarrow> bytes" where
  "le_enc 0 x = []"
| "le_enc (Suc n) x = word_of_nat x # le_enc n (x div 256)"

fun le_dec :: "bytes \<Rightarrow> nat" where
  "le_dec [] = 0"
| "le_dec (b # bs) = unat b + 256 * le_dec bs"

lemma length_le_enc [simp, codec_simps]: "length (le_enc n x) = n"
  by (induction n arbitrary: x) auto

lemma unat_word_of_nat_byte [simp]: "unat (word_of_nat x :: byte) = x mod 256"
  by (simp add: unat_of_nat)

lemma le_dec_enc_mod [codec_simps]: "le_dec (le_enc n x) = x mod 256 ^ n"
proof (induction n arbitrary: x)
  case 0
  then show ?case by simp
next
  case (Suc n)
  then show ?case by (simp add: mod_mult2_eq algebra_simps)
qed

lemma le_dec_bound: "le_dec bs < 256 ^ length bs"
proof (induction bs)
  case Nil
  then show ?case by simp
next
  case (Cons b bs)
  have "unat b < 256" using unsigned_less [of b] by simp
  moreover have "le_dec bs + 1 \<le> 256 ^ length bs" using Cons by simp
  then have "256 * (le_dec bs + 1) \<le> 256 * 256 ^ length bs" by (rule mult_le_mono2)
  ultimately show ?case by simp
qed

lemma le_enc_dec: "le_enc (length bs) (le_dec bs) = bs"
proof (induction bs)
  case Nil
  then show ?case by simp
next
  case (Cons b bs)
  have lt: "unat b < 256" using unsigned_less [of b] by simp
  then have "(unat b + 256 * le_dec bs) div 256 = le_dec bs" by simp
  moreover have "(word_of_nat (unat b + 256 * le_dec bs) :: byte) = b"
  proof -
    have "(word_of_nat 256 :: byte) = 0" by (simp add: of_nat_eq_0_iff)
    then have "(word_of_nat (256 * le_dec bs) :: byte) = 0" by (simp only: of_nat_mult mult_zero_left)
    then show ?thesis by (simp only: of_nat_add) simp
  qed
  ultimately show ?case using Cons by simp
qed

definition put_u32 :: "u32 \<Rightarrow> bytes" where
  "put_u32 w = le_enc 4 (unat w)"

definition put_u64 :: "u64 \<Rightarrow> bytes" where
  "put_u64 w = le_enc 8 (unat w)"

definition get_u32 :: "bytes \<Rightarrow> u32" where
  "get_u32 bs = word_of_nat (le_dec (take 4 bs))"

definition get_u64 :: "bytes \<Rightarrow> u64" where
  "get_u64 bs = word_of_nat (le_dec (take 8 bs))"

lemma length_put_u32 [simp, codec_simps]: "length (put_u32 w) = 4"
  by (simp add: put_u32_def)

lemma length_put_u64 [simp, codec_simps]: "length (put_u64 w) = 8"
  by (simp add: put_u64_def)

lemma get_put_u32 [simp, codec_simps]: "get_u32 (put_u32 w @ rest) = w"
proof -
  have "unat w < 256 ^ 4" using unsigned_less [of w] by simp
  then show ?thesis by (simp add: get_u32_def put_u32_def le_dec_enc_mod)
qed

lemma get_put_u64 [simp, codec_simps]: "get_u64 (put_u64 w @ rest) = w"
proof -
  have "unat w < 256 ^ 8" using unsigned_less [of w] by simp
  then show ?thesis by (simp add: get_u64_def put_u64_def le_dec_enc_mod)
qed

lemma unat_bounds:
  "unat (b :: byte) < 256" "unat (w :: u32) < 4294967296" "unat (v :: u64) < 18446744073709551616"
  using unsigned_less [where 'a = nat and w = b] unsigned_less [where 'a = nat and w = w]
    unsigned_less [where 'a = nat and w = v] by simp_all

lemma unat_of_nat_u64: "n < 2 ^ 64 \<Longrightarrow> unat (word_of_nat n :: u64) = n"
  by (simp add: unat_of_nat)

lemma unat_of_nat_u32: "n < 2 ^ 32 \<Longrightarrow> unat (word_of_nat n :: u32) = n"
  by (simp add: unat_of_nat)

lemma get_u64_exact [simp, codec_simps]: "get_u64 (put_u64 w) = w"
  using get_put_u64 [of w "[]"] by simp

lemma get_u32_exact [simp, codec_simps]: "get_u32 (put_u32 w) = w"
  using get_put_u32 [of w "[]"] by simp

lemma put_get_u64 [codec_simps]: "length bs = 8 \<Longrightarrow> put_u64 (get_u64 bs) = bs"
  using le_enc_dec [of bs] le_dec_bound [of bs]
  by (simp add: put_u64_def get_u64_def unat_of_nat_u64)

lemma put_get_u32 [codec_simps]: "length bs = 4 \<Longrightarrow> put_u32 (get_u32 bs) = bs"
  using le_enc_dec [of bs] le_dec_bound [of bs]
  by (simp add: put_u32_def get_u32_def unat_of_nat_u32)

text \<open>\<^verbatim>\<open>fread(&x, n, 1, f)\<close> at the current position: fails when fewer than \<open>n\<close> bytes are left.\<close>

definition fread :: "nat \<Rightarrow> bytes \<Rightarrow> (bytes \<times> bytes) option" where
  "fread n bs = (if length bs < n then None else Some (take n bs, drop n bs))"

lemma fread_append [simp, codec_simps]: "length xs = n \<Longrightarrow> fread n (xs @ ys) = Some (xs, ys)"
  by (simp add: fread_def)

lemma fread_Some:
  "fread n bs = Some (xs, ys) \<longleftrightarrow> bs = xs @ ys \<and> length xs = n"
  by (auto simp: fread_def split: if_splits)

lemma fread_None: "fread n bs = None \<longleftrightarrow> length bs < n"
  by (auto simp: fread_def)

section \<open>Sorted association lists\<close>

text \<open>
  The abstract view of a table is a list of key/value pairs in strictly ascending key
  order; \<open>upd_list\<close> and \<open>del_list\<close> are its insert-or-update and its delete.
\<close>

abbreviation keys_of :: "('a \<times> 'b) list \<Rightarrow> 'a list" where
  "keys_of ps \<equiv> map fst ps"

abbreviation ssorted :: "'a::linorder list \<Rightarrow> bool" where
  "ssorted \<equiv> sorted_wrt (<)"

fun upd_list :: "'a::linorder \<Rightarrow> 'b \<Rightarrow> ('a \<times> 'b) list \<Rightarrow> ('a \<times> 'b) list" where
  "upd_list k v [] = [(k, v)]"
| "upd_list k v (p # ps) =
     (if k < fst p then (k, v) # p # ps
      else if k = fst p then (k, v) # ps
      else p # upd_list k v ps)"

fun del_list :: "'a \<Rightarrow> ('a \<times> 'b) list \<Rightarrow> ('a \<times> 'b) list" where
  "del_list k [] = []"
| "del_list k (p # ps) = (if k = fst p then ps else p # del_list k ps)"

lemma set_keys_upd_list [simp]: "fst ` set (upd_list k v ps) = insert k (fst ` set ps)"
  by (induction ps) auto

lemma keys_upd_list [simp]: "set (keys_of (upd_list k v ps)) = insert k (set (keys_of ps))"
  by simp

lemma ssorted_upd_list: "ssorted (keys_of ps) \<Longrightarrow> ssorted (keys_of (upd_list k v ps))"
proof (induction ps)
  case Nil
  then show ?case by simp
next
  case (Cons p ps)
  have "ssorted (keys_of (upd_list k v ps))" using Cons by simp
  moreover have "\<forall>x\<in>set (keys_of (upd_list k v ps)). x = k \<or> fst p < x"
    unfolding keys_upd_list using Cons.prems by auto
  ultimately show ?case using Cons.prems by (auto simp del: set_map)
qed

lemma map_of_upd_list: "map_of (upd_list k v ps) = (map_of ps)(k \<mapsto> v)"
  by (induction ps) (auto simp: fun_eq_iff)

lemma set_del_list: "set (del_list k ps) \<subseteq> set ps"
  by (induction ps) auto

lemma ssorted_del_list: "ssorted (keys_of ps) \<Longrightarrow> ssorted (keys_of (del_list k ps))"
  by (induction ps) (use set_del_list in fastforce)+

lemma map_of_del_list:
  "ssorted (keys_of ps) \<Longrightarrow> map_of (del_list k ps) = (map_of ps)(k := None)"
  by (induction ps) (auto simp: fun_eq_iff map_of_eq_None_iff)

text \<open>How the two operations distribute over a concatenation, given where the key falls.\<close>

lemma upd_list_append_left:
  "\<forall>p\<in>set qs. k < fst p \<Longrightarrow> upd_list k v (ps @ qs) = upd_list k v ps @ qs"
  by (induction ps) (cases qs; auto)+

lemma upd_list_append_right:
  "\<forall>p\<in>set ps. fst p < k \<Longrightarrow> upd_list k v (ps @ qs) = ps @ upd_list k v qs"
  by (induction ps) auto

lemma del_list_absent: "k \<notin> fst ` set ps \<Longrightarrow> del_list k ps = ps"
  by (induction ps) auto

lemma del_list_append:
  "del_list k (ps @ qs) = (if k \<in> fst ` set ps then del_list k ps @ qs else ps @ del_list k qs)"
  by (induction ps) auto

lemma map_of_append_absent:
  "k \<notin> fst ` set ps \<Longrightarrow> map_of (ps @ qs) k = map_of qs k"
  "k \<notin> fst ` set qs \<Longrightarrow> map_of (ps @ qs) k = map_of ps k"
  by (auto simp: map_add_def dest: map_of_SomeD split: option.splits)
    (metis fst_conv image_eqI map_of_SomeD not_None_eq)+

lemma map_of_rev_distinct: "distinct (keys_of ps) \<Longrightarrow> map_of (rev ps) = map_of ps"
proof (induction ps)
  case (Cons p ps)
  then have "map_of (rev ps) (fst p) = None" by (simp add: map_of_eq_None_iff)
  with Cons show ?case by (auto simp: fun_eq_iff map_add_def split: option.splits)
qed simp

lemma map_of_middle:
  "k \<notin> fst ` set ps \<Longrightarrow> k \<notin> fst ` set rs \<Longrightarrow> map_of (ps @ qs @ rs) k = map_of qs k"
  by (metis map_of_append_absent)

lemma upd_list_middle:
  assumes "\<forall>p\<in>set ps. fst p < k" and "\<forall>p\<in>set rs. k < fst p"
  shows "upd_list k v (ps @ qs @ rs) = ps @ upd_list k v qs @ rs"
  using assms by (simp add: upd_list_append_left upd_list_append_right)

text \<open>A binary search has found the length of the prefix satisfying \<open>P\<close> when it knows this much.\<close>

lemma length_takeWhileI:
  assumes "n \<le> length xs" and "\<And>i. i < n \<Longrightarrow> P (xs ! i)" and "n < length xs \<Longrightarrow> \<not> P (xs ! n)"
  shows "length (takeWhile P xs) = n"
  using takeWhile_eq_take_P_nth [of n xs P] assms by simp

lemma ssorted_keys_nth_less:
  "ssorted (keys_of xs) \<Longrightarrow> i < j \<Longrightarrow> j < length xs \<Longrightarrow> fst (xs ! i) < fst (xs ! j)"
  by (auto simp: sorted_wrt_iff_nth_less)

section \<open>Interfaces\<close>

text \<open>
  A keyed store: \<open>put\<close> overwrites one key and leaves every other key alone, on the states
  and keys for which the store promises it. The memtable, the B+tree and the term
  dictionary all provide this contract.
\<close>

locale keyed_store =
  fixes get :: "'s \<Rightarrow> 'k \<Rightarrow> 'v option"
    and put :: "'s \<Rightarrow> 'k \<Rightarrow> 'v \<Rightarrow> 's"
    and inv :: "'s \<Rightarrow> bool"
    and ok :: "'s \<Rightarrow> 'k \<Rightarrow> bool"
  assumes put_get: "inv s \<Longrightarrow> ok s k \<Longrightarrow> get (put s k v) = (get s)(k \<mapsto> v)"
    and put_inv: "inv s \<Longrightarrow> ok s k \<Longrightarrow> inv (put s k v)"
begin

primrec put_all :: "'s \<Rightarrow> ('k \<times> 'v) list \<Rightarrow> 's" where
  "put_all s [] = s"
| "put_all s (p # ps) = put_all (put s (fst p) (snd p)) ps"

primrec oks :: "'s \<Rightarrow> ('k \<times> 'v) list \<Rightarrow> bool" where
  "oks s [] = True"
| "oks s (p # ps) = (ok s (fst p) \<and> oks (put s (fst p) (snd p)) ps)"

lemma put_all_inv: "inv s \<Longrightarrow> oks s ps \<Longrightarrow> inv (put_all s ps)"
  by (induction ps arbitrary: s) (auto intro: put_inv)

text \<open>After a sequence of writes every key holds the last value written to it.\<close>

lemma put_all_get: "inv s \<Longrightarrow> oks s ps \<Longrightarrow> get (put_all s ps) = get s ++ map_of (rev ps)"
proof (induction ps arbitrary: s)
  case Nil
  then show ?case by simp
next
  case (Cons p ps)
  then have "get (put_all s (p # ps)) = get (put s (fst p) (snd p)) ++ map_of (rev ps)"
    using put_inv by simp
  also have "\<dots> = (get s)(fst p \<mapsto> snd p) ++ map_of (rev ps)"
    using Cons.prems put_get by simp
  also have "\<dots> = get s ++ map_of (rev (p # ps))"
    by (cases p) (simp add: map_add_assoc [symmetric] map_add_upd_left fun_eq_iff map_add_def split: option.splits)
  finally show ?case .
qed

lemma put_same: "inv s \<Longrightarrow> ok s k \<Longrightarrow> get (put s k v) k = Some v"
  by (simp add: put_get)

lemma put_other: "inv s \<Longrightarrow> ok s k \<Longrightarrow> k' \<noteq> k \<Longrightarrow> get (put s k v) k' = get s k'"
  by (simp add: put_get)

end

text \<open>A self-delimiting encoding: a decoder that reads one record off the front of the input.\<close>

locale byte_codec =
  fixes enc :: "'a \<Rightarrow> bytes"
    and dec :: "bytes \<Rightarrow> ('a \<times> bytes) option"
    and ok :: "'a \<Rightarrow> bool"
  assumes dec_enc: "ok x \<Longrightarrow> dec (enc x @ rest) = Some (x, rest)"
begin

primrec dec_n :: "nat \<Rightarrow> bytes \<Rightarrow> ('a list \<times> bytes) option" where
  "dec_n 0 bs = Some ([], bs)"
| "dec_n (Suc n) bs =
     (case dec bs of None \<Rightarrow> None
      | Some (x, bs') \<Rightarrow> (case dec_n n bs' of None \<Rightarrow> None | Some (xs, bs'') \<Rightarrow> Some (x # xs, bs'')))"

lemma dec_n_concat:
  "\<forall>x\<in>set xs. ok x \<Longrightarrow> dec_n (length xs) (concat (map enc xs) @ rest) = Some (xs, rest)"
  by (induction xs) (auto simp: dec_enc)

lemma enc_prefix_free: "ok x \<Longrightarrow> ok y \<Longrightarrow> enc x @ r = enc y @ s \<Longrightarrow> x = y \<and> r = s"
  by (metis dec_enc option.inject prod.inject)

end

text \<open>
  The contract of \<^verbatim>\<open>qsort\<close> (C99 7.20.5.2): a permutation of the input, and in an order the comparison function accepts
  if the comparison is a total preorder of the elements. The order of elements that compare equal is unspecified.
\<close>

definition preorder_on_list :: "('a \<Rightarrow> 'a \<Rightarrow> int) \<Rightarrow> 'a list \<Rightarrow> bool" where
  "preorder_on_list cmp xs \<longleftrightarrow>
     (\<forall>a\<in>set xs. \<forall>b\<in>set xs. cmp a b \<le> 0 \<or> cmp b a \<le> 0) \<and>
     (\<forall>a\<in>set xs. \<forall>b\<in>set xs. \<forall>c\<in>set xs. cmp a b \<le> 0 \<longrightarrow> cmp b c \<le> 0 \<longrightarrow> cmp a c \<le> 0)"

locale qsort_spec =
  fixes qsort :: "('a \<Rightarrow> 'a \<Rightarrow> int) \<Rightarrow> 'a list \<Rightarrow> 'a list"
  assumes qsort_mset: "mset (qsort cmp xs) = mset xs"
    and qsort_sorted: "preorder_on_list cmp xs \<Longrightarrow> sorted_wrt (\<lambda>x y. cmp x y \<le> 0) (qsort cmp xs)"
begin

lemma qsort_set [simp]: "set (qsort cmp xs) = set xs"
  by (metis qsort_mset set_mset_mset)

lemma qsort_length [simp]: "length (qsort cmp xs) = length xs"
  by (metis qsort_mset size_mset)

end

lemma preorder_total: "preorder_on_list cmp xs \<Longrightarrow> a \<in> set xs \<Longrightarrow> b \<in> set xs \<Longrightarrow> cmp a b \<le> 0 \<or> cmp b a \<le> 0"
  and preorder_trans: "preorder_on_list cmp xs \<Longrightarrow> a \<in> set xs \<Longrightarrow> b \<in> set xs \<Longrightarrow> c \<in> set xs \<Longrightarrow> cmp a b \<le> 0 \<Longrightarrow> cmp b c \<le> 0 \<Longrightarrow> cmp a c \<le> 0"
  and preorder_subset: "preorder_on_list cmp xs \<Longrightarrow> set ys \<subseteq> set xs \<Longrightarrow> preorder_on_list cmp ys"
  unfolding preorder_on_list_def by blast+

text \<open>An insertion sort by comparison function: one possible behaviour of \<^verbatim>\<open>qsort\<close>.\<close>

fun insert_by :: "('a \<Rightarrow> 'a \<Rightarrow> int) \<Rightarrow> 'a \<Rightarrow> 'a list \<Rightarrow> 'a list" where
  "insert_by cmp x [] = [x]"
| "insert_by cmp x (y # ys) = (if cmp x y \<le> 0 then x # y # ys else y # insert_by cmp x ys)"

definition sort_by :: "('a \<Rightarrow> 'a \<Rightarrow> int) \<Rightarrow> 'a list \<Rightarrow> 'a list" where
  "sort_by cmp xs = foldr (insert_by cmp) xs []"

lemma mset_insert_by [simp]: "mset (insert_by cmp x xs) = add_mset x (mset xs)"
  by (induction xs) auto

lemma sorted_insert_preorder:
  "preorder_on_list cmp (x # xs) \<Longrightarrow> sorted_wrt (\<lambda>a b. cmp a b \<le> 0) xs \<Longrightarrow> sorted_wrt (\<lambda>a b. cmp a b \<le> 0) (insert_by cmp x xs)"
proof (induction xs)
  case (Cons y ys)
  have set_ins: "set (insert_by cmp x ys) = insert x (set ys)" by (metis mset_insert_by set_mset_add_mset_insert set_mset_mset)
  show ?case
  proof (cases "cmp x y \<le> 0")
    case True
    have "cmp x b \<le> 0" if "b \<in> set ys" for b
      by (rule preorder_trans [OF Cons.prems(1), of x y b]) (use that True Cons.prems(2) in auto)
    then show ?thesis using True Cons.prems(2) by simp
  next
    case False
    then have "cmp y x \<le> 0" using preorder_total [OF Cons.prems(1), of x y] by auto
    moreover have "sorted_wrt (\<lambda>a b. cmp a b \<le> 0) (insert_by cmp x ys)"
      by (rule Cons.IH [OF preorder_subset [OF Cons.prems(1)]]) (use Cons.prems(2) in auto)
    ultimately show ?thesis using False Cons.prems(2) by (simp add: set_ins)
  qed
qed simp

interpretation sb: qsort_spec sort_by
proof
  show m: "mset (sort_by cmp xs) = mset xs" for cmp and xs :: "'a list" by (induction xs) (auto simp: sort_by_def)
  show "preorder_on_list cmp xs \<Longrightarrow> sorted_wrt (\<lambda>a b. cmp a b \<le> 0) (sort_by cmp xs)" for cmp and xs :: "'a list"
  proof (induction xs)
    case (Cons x xs)
    have s: "set (sort_by cmp xs) = set xs" by (metis m set_mset_mset)
    have "sorted_wrt (\<lambda>a b. cmp a b \<le> 0) (sort_by cmp xs)" by (rule Cons.IH [OF preorder_subset [OF Cons.prems]]) auto
    moreover have "preorder_on_list cmp (x # sort_by cmp xs)" by (rule preorder_subset [OF Cons.prems]) (simp add: s)
    ultimately have "sorted_wrt (\<lambda>a b. cmp a b \<le> 0) (insert_by cmp x (sort_by cmp xs))" by (rule sorted_insert_preorder [rotated])
    then show ?case by (simp add: sort_by_def)
  qed (simp add: sort_by_def)
qed

end
