(* ===== verification/Btree.thy ===== *)
theory Btree
  imports Prelude
begin

text \<open>
  The B+tree of \<^verbatim>\<open>src/src/storage/btree.c\<close>: leaves hold the key/value pairs and are
  chained by their \<^verbatim>\<open>next\<close> pointers, inner nodes hold separators and children. A full node
  is split on the way down, before the insertion enters it; deletion removes from a leaf
  and never rebalances. The cursor copies the leaf chain into an array and searches that.
\<close>

section \<open>Nodes\<close>

text \<open>
  A \<^verbatim>\<open>btree_node_t\<close>. The parallel arrays \<^verbatim>\<open>keys\<close>/\<^verbatim>\<open>values\<close> of a leaf are one list of pairs
  (its length is \<^verbatim>\<open>num_keys\<close>); an inner node has its separators and its \<^verbatim>\<open>num_keys + 1\<close>
  children. A leaf carries the address it was allocated at, because \<^verbatim>\<open>next\<close> points to it.
\<close>

type_synonym addr = nat
type_synonym kv = "bytes \<times> bytes"

datatype btree_node =
    Leaf (laddr: addr) (entries: "kv list") (leaf_next: "addr option")
  | Inner (seps: "bytes list") (children: "btree_node list")

text \<open>\<^verbatim>\<open>struct kanbudb_btree\<close>, with the allocator's next unused address.\<close>

record kanbudb_btree =
  root :: btree_node
  next_addr :: addr

definition BTREE_ORDER :: nat where "BTREE_ORDER = 16"

definition MAX_KEYS :: nat where "MAX_KEYS = BTREE_ORDER"

definition HALF_KEYS :: nat where "HALF_KEYS = BTREE_ORDER div 2"

lemmas btree_consts = BTREE_ORDER_def MAX_KEYS_def HALF_KEYS_def

fun num_keys :: "btree_node \<Rightarrow> nat" where
  "num_keys (Leaf a kvs nx) = length kvs"
| "num_keys (Inner ks cs) = length ks"

definition insert_at :: "nat \<Rightarrow> 'a \<Rightarrow> 'a list \<Rightarrow> 'a list" where
  "insert_at i x xs = take i xs @ x # drop i xs"

section \<open>Operations\<close>

text \<open>
  \<^verbatim>\<open>split_child(parent, idx)\<close> cuts the full child at \<^verbatim>\<open>mid\<close> into the shortened child and a new
  node at address \<open>fresh\<close>: a leaf copies the first key of its right half up, an inner node
  moves its middle separator up. (The last child the inner case copies,
  \<^verbatim>\<open>children[MAX_KEYS]\<close>, is the one after the \<^verbatim>\<open>MAX_KEYS - mid - 1\<close> copied by its loop.)
\<close>

fun split_node :: "addr \<Rightarrow> btree_node \<Rightarrow> btree_node \<times> bytes \<times> btree_node" where
  "split_node fresh (Leaf a kvs nx) =
     (let mid = HALF_KEYS in
      (Leaf a (take mid kvs) (Some fresh), fst (kvs ! mid),
       Leaf fresh (take (MAX_KEYS - mid) (drop mid kvs)) nx))"
| "split_node fresh (Inner ks cs) =
     (let mid = HALF_KEYS; n = MAX_KEYS - mid - 1 in
      (Inner (take mid ks) (take (mid + 1) cs), ks ! mid,
       Inner (take n (drop (mid + 1) ks)) (take (n + 1) (drop (mid + 1) cs))))"

text \<open>The two loops that shift the parent's arrays insert the separator and the new child.\<close>

definition split_child ::
  "addr \<Rightarrow> bytes list \<Rightarrow> btree_node list \<Rightarrow> nat \<Rightarrow> bytes list \<times> btree_node list" where
  "split_child fresh ks cs idx =
     (case split_node fresh (cs ! idx) of (child, sep, new_node) \<Rightarrow>
       (insert_at idx sep ks, insert_at (Suc idx) new_node (cs[idx := child])))"

text \<open>
  The scan of \<^verbatim>\<open>node_insert_nonfull\<close>, from the last key down while the key sorts before it;
  the result is the index after the last key not above \<open>key\<close>.
\<close>

definition insert_pos :: "bytes \<Rightarrow> bytes list \<Rightarrow> nat" where
  "insert_pos key ks = length ks - length (takeWhile (\<lambda>k. key_cmp key k < 0) (rev ks))"

text \<open>The leaf case: overwrite the value of an existing key, else insert in order.\<close>

definition leaf_insert :: "bytes \<Rightarrow> bytes \<Rightarrow> kv list \<Rightarrow> kv list" where
  "leaf_insert key val kvs =
     (let j = length (takeWhile (\<lambda>p. key_cmp key (fst p) \<noteq> 0) kvs)
      in if j < length kvs then kvs[j := (fst (kvs ! j), val)]
         else insert_at (insert_pos key (keys_of kvs)) (key, val) kvs)"

fun height :: "btree_node \<Rightarrow> nat" where
  "height (Leaf a kvs nx) = 0"
| "height (Inner ks cs) = Suc (foldr (\<lambda>c h. max (height c) h) cs 0)"

lemma height_child: "c \<in> set cs \<Longrightarrow> height c < height (Inner ks cs)"
  by (induction cs) auto

lemma height_le: "(\<forall>c\<in>set cs. height c \<le> h) \<Longrightarrow> foldr (\<lambda>c h. max (height c) h) cs 0 \<le> h"
  by (induction cs) auto

lemma set_insert_at: "set (insert_at i x xs) = insert x (set xs)"
  by (metis append_take_drop_id insert_at_def list.simps(15) set_append Un_insert_right)

lemma height_parts:
  "set ds \<subseteq> set cs \<Longrightarrow> height (Inner ks' ds) \<le> height (Inner ks cs)"
  using height_child [of _ cs ks] by (auto intro!: height_le simp: less_Suc_eq_le)

lemma split_node_height:
  "split_node fresh c = (c1, m, c2) \<Longrightarrow> height c1 \<le> height c \<and> height c2 \<le> height c"
proof (cases c)
  case (Inner ks cs)
  have "set (take n cs) \<subseteq> set cs" "set (take n (drop l cs)) \<subseteq> set cs" for n l
    by (meson in_set_takeD in_set_dropD subsetI)+
  then show "split_node fresh c = (c1, m, c2) \<Longrightarrow> ?thesis"
    unfolding Inner using height_parts [of _ cs _ ks]
    by (auto simp: Let_def simp del: height.simps)
qed (auto simp: Let_def)

lemma split_child_height:
  assumes "idx < length cs" and "split_child fresh ks cs idx = (ks', cs')" and "c \<in> set cs'"
  shows "height c < height (Inner ks cs)"
proof -
  have old: "height (cs ! idx) < height (Inner ks cs)"
    using assms(1) by (intro height_child) simp
  have upd: "c = d \<or> c \<in> set cs" if "c \<in> set (cs[idx := d])" for d
    using that set_update_subset_insert [of cs idx d] by auto
  have "c \<in> set cs \<or> height c \<le> height (cs ! idx)"
    using assms(2,3) split_node_height [of fresh "cs ! idx"]
    by (auto simp: split_child_def set_insert_at split: prod.splits dest!: upd)
  with old show ?thesis using height_child [of c cs ks] by auto
qed

text \<open>
  \<^verbatim>\<open>node_insert_nonfull\<close>. The position from the scan is a valid child index whenever the node
  has one more child than separators; outside that the C code has no meaning and the
  model leaves the node alone. The result carries the allocator's next address.
\<close>

definition descend_insert ::
  "addr \<Rightarrow> bytes list \<Rightarrow> btree_node list \<Rightarrow> bytes \<Rightarrow> bytes list \<times> btree_node list \<times> addr \<times> nat" where
  "descend_insert fresh ks cs key =
     (let i = insert_pos key ks in
      if num_keys (cs ! i) = MAX_KEYS then
        (let (ks', cs') = split_child fresh ks cs i
         in (ks', cs', Suc fresh, if key_cmp key (ks' ! i) > 0 then Suc i else i))
      else (ks, cs, fresh, i))"

lemma length_split_child:
  "split_child fresh ks cs i = (ks', cs') \<Longrightarrow> i < length cs \<Longrightarrow> length cs' = Suc (length cs)"
  by (auto simp: split_child_def insert_at_def split: prod.splits)

lemma descend_insert_height:
  assumes "insert_pos key ks < length cs" and "descend_insert fresh ks cs key = (ks', cs', fr, i)"
  shows "height (cs' ! i) < height (Inner ks cs)"
proof -
  have "i < length cs'"
    using assms length_split_child
    by (fastforce simp: descend_insert_def Let_def split: if_splits prod.splits)
  then have "cs' ! i \<in> set cs'" by simp
  then show ?thesis
    using assms split_child_height [OF assms(1)] height_child [of "cs' ! i" cs ks]
    by (fastforce simp: descend_insert_def Let_def split: if_splits prod.splits)
qed

function (sequential) node_insert_nonfull ::
  "addr \<Rightarrow> btree_node \<Rightarrow> bytes \<Rightarrow> bytes \<Rightarrow> btree_node \<times> addr" where
  "node_insert_nonfull fresh (Leaf a kvs nx) key val = (Leaf a (leaf_insert key val kvs) nx, fresh)"
| "node_insert_nonfull fresh (Inner ks cs) key val =
     (if insert_pos key ks < length cs then
        (case descend_insert fresh ks cs key of (ks', cs', fr, i) \<Rightarrow>
          (case node_insert_nonfull fr (cs' ! i) key val of (c, fr') \<Rightarrow>
            (Inner ks' (cs'[i := c]), fr')))
      else (Inner ks cs, fresh))"
  by pat_completeness auto
termination
  by (relation "measure (\<lambda>(fr, n, k, v). height n)")
    (auto dest: descend_insert_height [OF _ sym] simp del: height.simps)

declare node_insert_nonfull.simps [simp del]

text \<open>\<^verbatim>\<open>node_search\<close>: the first child whose separator is above the key; in the leaf, the pair before.\<close>

definition search_pos :: "bytes \<Rightarrow> bytes list \<Rightarrow> nat" where
  "search_pos key ks = length (takeWhile (\<lambda>k. key_cmp key k \<ge> 0) ks)"

lemma child_height: "i < length cs \<Longrightarrow> height (cs ! i) < height (Inner ks cs)"
  by (intro height_child) simp

function (sequential) node_search :: "btree_node \<Rightarrow> bytes \<Rightarrow> bytes option" where
  "node_search (Leaf a kvs nx) key =
     (let i = search_pos key (keys_of kvs)
      in if 0 < i \<and> key_cmp key (fst (kvs ! (i - 1))) = 0 then Some (snd (kvs ! (i - 1))) else None)"
| "node_search (Inner ks cs) key =
     (if search_pos key ks < length cs then node_search (cs ! search_pos key ks) key else None)"
  by pat_completeness auto
termination
  by (relation "measure (\<lambda>(n, k). height n)") (auto dest: child_height simp del: height.simps)

declare node_search.simps [simp del]

text \<open>\<^verbatim>\<open>node_delete\<close>: removes from the leaf the search leads to; separators stay.\<close>

fun leaf_delete :: "bytes \<Rightarrow> kv list \<Rightarrow> kv list \<times> rc" where
  "leaf_delete key [] = ([], KANBUDB_ERR_NOTFOUND)"
| "leaf_delete key (p # ps) =
     (if key_cmp key (fst p) = 0 then (ps, KANBUDB_OK)
      else (case leaf_delete key ps of (ps', rc) \<Rightarrow> (p # ps', rc)))"

function (sequential) node_delete :: "btree_node \<Rightarrow> bytes \<Rightarrow> btree_node \<times> rc" where
  "node_delete (Leaf a kvs nx) key =
     (case leaf_delete key kvs of (kvs', rc) \<Rightarrow> (Leaf a kvs' nx, rc))"
| "node_delete (Inner ks cs) key =
     (let i = search_pos key ks in
      if i < length cs then
        (case node_delete (cs ! i) key of (c, rc) \<Rightarrow> (Inner ks (cs[i := c]), rc))
      else (Inner ks cs, KANBUDB_ERR_NOTFOUND))"
  by pat_completeness auto
termination
  by (relation "measure (\<lambda>(n, k). height n)") (auto dest: child_height simp del: height.simps)

declare node_delete.simps [simp del]

definition btree_create :: kanbudb_btree where
  "btree_create = \<lparr>root = Leaf 0 [] None, next_addr = 1\<rparr>"

text \<open>\<^verbatim>\<open>btree_put\<close> first puts a new root above a full one and splits it.\<close>

definition grow_root :: "kanbudb_btree \<Rightarrow> kanbudb_btree" where
  "grow_root bt =
     (if num_keys (root bt) = MAX_KEYS then
        (case split_child (Suc (next_addr bt)) [] [root bt] 0 of (ks, cs) \<Rightarrow>
          \<lparr>root = Inner ks cs, next_addr = Suc (Suc (next_addr bt))\<rparr>)
      else bt)"

definition btree_put :: "kanbudb_btree \<Rightarrow> bytes \<Rightarrow> bytes \<Rightarrow> kanbudb_btree" where
  "btree_put bt key val =
     (let bt = grow_root bt in
      case node_insert_nonfull (next_addr bt) (root bt) key val of (r, fr) \<Rightarrow>
        \<lparr>root = r, next_addr = fr\<rparr>)"

definition btree_get :: "kanbudb_btree \<Rightarrow> bytes \<Rightarrow> bytes option" where
  "btree_get bt key = node_search (root bt) key"

definition btree_delete :: "kanbudb_btree \<Rightarrow> bytes \<Rightarrow> kanbudb_btree \<times> rc" where
  "btree_delete bt key = (case node_delete (root bt) key of (r, rc) \<Rightarrow> (bt\<lparr>root := r\<rparr>, rc))"

fun btree_build_sorted :: "kanbudb_btree \<Rightarrow> kv list \<Rightarrow> kanbudb_btree" where
  "btree_build_sorted bt [] = bt"
| "btree_build_sorted bt (p # ps) = btree_build_sorted (btree_put bt (fst p) (snd p)) ps"


section \<open>The cursor\<close>

text \<open>
  \<^verbatim>\<open>btree_cursor_create\<close> walks down to the leftmost leaf and then along the \<^verbatim>\<open>next\<close> pointers,
  copying every pair. Following a pointer is looking its address up among the leaves.
  The walk is bounded by fuel, one unit per leaf; \<open>chain_collect_leaves\<close> below shows that
  this is enough, and a dangling pointer would be the value \<open>None\<close>.
\<close>

fun leaves_of :: "btree_node \<Rightarrow> btree_node list" where
  "leaves_of (Leaf a kvs nx) = [Leaf a kvs nx]"
| "leaves_of (Inner ks cs) = concat (map leaves_of cs)"

function (sequential) leftmost :: "btree_node \<Rightarrow> addr option" where
  "leftmost (Leaf a kvs nx) = Some a"
| "leftmost (Inner ks cs) = (if cs = [] then None else leftmost (cs ! 0))"
  by pat_completeness auto
termination
  by (relation "measure height") (auto intro!: child_height simp del: height.simps)

declare leftmost.simps [simp del]

fun chain_collect :: "nat \<Rightarrow> btree_node list \<Rightarrow> addr option \<Rightarrow> kv list option" where
  "chain_collect fuel ls None = Some []"
| "chain_collect 0 ls (Some a) = None"
| "chain_collect (Suc fuel) ls (Some a) =
     (case find (\<lambda>l. laddr l = a) ls of
        None \<Rightarrow> None
      | Some l \<Rightarrow> map_option ((@) (entries l)) (chain_collect fuel ls (leaf_next l)))"

record btree_cursor =
  items :: "kv list"
  pos :: nat

definition btree_cursor_create :: "kanbudb_btree \<Rightarrow> btree_cursor option" where
  "btree_cursor_create bt =
     (let ls = leaves_of (root bt) in
      map_option (\<lambda>xs. \<lparr>items = xs, pos = 0\<rparr>) (chain_collect (length ls) ls (leftmost (root bt))))"

text \<open>
  \<^verbatim>\<open>btree_cursor_seek\<close>: binary search with signed bounds (\<^verbatim>\<open>hi\<close> starts at \<^verbatim>\<open>count - 1\<close> and may
  fall to -1); a null key rewinds.
\<close>

function seek_loop :: "kv list \<Rightarrow> bytes \<Rightarrow> int \<Rightarrow> int \<Rightarrow> int" where
  "seek_loop xs key lo hi =
     (if lo \<le> hi then
        (let mid = (lo + hi) div 2; c = key_cmp key (fst (xs ! nat mid)) in
         if c = 0 then mid
         else if c < 0 then seek_loop xs key lo (mid - 1)
         else seek_loop xs key (mid + 1) hi)
      else lo)"
  by pat_completeness auto
termination
  by (relation "measure (\<lambda>(xs, key, lo, hi). nat (hi - lo + 1))") auto

declare seek_loop.simps [simp del]

definition btree_cursor_seek :: "btree_cursor \<Rightarrow> bytes option \<Rightarrow> btree_cursor" where
  "btree_cursor_seek cur key =
     (case key of
        None \<Rightarrow> cur\<lparr>pos := 0\<rparr>
      | Some k \<Rightarrow> cur\<lparr>pos := nat (seek_loop (items cur) k 0 (int (length (items cur)) - 1))\<rparr>)"

definition btree_cursor_next :: "btree_cursor \<Rightarrow> (kv \<times> btree_cursor) option" where
  "btree_cursor_next cur =
     (if pos cur \<ge> length (items cur) then None
      else Some (items cur ! pos cur, cur\<lparr>pos := Suc (pos cur)\<rparr>))"

end
