(* ===== verification/Btree_Correct.thy ===== *)
theory Btree_Correct
  imports Btree
begin

text \<open>
  Correctness of the B+tree: the order and occupancy invariant, that every operation keeps
  it, and that search, insertion and deletion act on the tree as on the sorted list of
  its pairs. Insertion needs one hypothesis, that the key does not equal the separator of
  a node split on its way down (\<open>node_tie\<close>): there the code takes the wrong child.
\<close>

section \<open>The invariant\<close>

definition lo_le :: "bytes option \<Rightarrow> bytes \<Rightarrow> bool" where
  "lo_le lo k = (case lo of None \<Rightarrow> True | Some l \<Rightarrow> l \<le> k)"

definition lt_hi :: "bytes option \<Rightarrow> bytes \<Rightarrow> bool" where
  "lt_hi hi k = (case hi of None \<Rightarrow> True | Some h \<Rightarrow> k < h)"

definition bounds_ok :: "bytes option \<Rightarrow> bytes option \<Rightarrow> bool" where
  "bounds_ok lo hi = (case lo of None \<Rightarrow> True | Some l \<Rightarrow> (case hi of None \<Rightarrow> True | Some h \<Rightarrow> l \<le> h))"

lemmas bound_defs = lo_le_def lt_hi_def bounds_ok_def

text \<open>Children between consecutive separators, checked by \<open>P\<close> with their key range.\<close>

fun wfs :: "(bytes option \<Rightarrow> bytes option \<Rightarrow> btree_node \<Rightarrow> bool) \<Rightarrow>
    bytes option \<Rightarrow> bytes list \<Rightarrow> btree_node list \<Rightarrow> bytes option \<Rightarrow> bool" where
  "wfs P lo [] [c] hi = P lo hi c"
| "wfs P lo (k # ks) (c # cs) hi = (P lo (Some k) c \<and> wfs P (Some k) ks cs hi)"
| "wfs P lo _ _ hi = False"

text \<open>
  A node of height \<open>h\<close> whose keys lie in \<open>[lo, hi)\<close>: all leaves at the same depth, keys
  strictly ascending, no node above \<^verbatim>\<open>MAX_KEYS\<close>.
\<close>

primrec wf_node :: "nat \<Rightarrow> bytes option \<Rightarrow> bytes option \<Rightarrow> btree_node \<Rightarrow> bool" where
  "wf_node 0 lo hi t =
     (case t of
        Leaf a kvs nx \<Rightarrow> bounds_ok lo hi \<and> length kvs \<le> MAX_KEYS \<and> ssorted (keys_of kvs) \<and>
          (\<forall>p\<in>set kvs. lo_le lo (fst p) \<and> lt_hi hi (fst p))
      | Inner ks cs \<Rightarrow> False)"
| "wf_node (Suc h) lo hi t =
     (case t of
        Leaf a kvs nx \<Rightarrow> False
      | Inner ks cs \<Rightarrow> bounds_ok lo hi \<and> length ks \<le> MAX_KEYS \<and> wfs (wf_node h) lo ks cs hi)"

fun kvs_of :: "btree_node \<Rightarrow> kv list" where
  "kvs_of (Leaf a kvs nx) = kvs"
| "kvs_of (Inner ks cs) = concat (map kvs_of cs)"

lemma wf_node_bounds: "wf_node h lo hi t \<Longrightarrow> bounds_ok lo hi"
  by (cases h; cases t) auto

lemma wf_node_num_keys: "wf_node h lo hi t \<Longrightarrow> num_keys t \<le> MAX_KEYS"
  by (cases h; cases t) auto

lemma wfs_length: "wfs P lo ks cs hi \<Longrightarrow> length cs = Suc (length ks)"
  by (induction P lo ks cs hi rule: wfs.induct) auto

lemma lo_le_trans: "lo_le lo k \<Longrightarrow> k \<le> k' \<Longrightarrow> lo_le lo k'"
  by (auto simp: lo_le_def split: option.splits)

lemma lt_hi_trans: "lt_hi hi k' \<Longrightarrow> k \<le> k' \<Longrightarrow> lt_hi hi k"
  by (auto simp: lt_hi_def split: option.splits)

text \<open>The prefix of children left of a chosen one, and the suffix right of it.\<close>

fun wf_pre :: "(bytes option \<Rightarrow> bytes option \<Rightarrow> btree_node \<Rightarrow> bool) \<Rightarrow>
    bytes option \<Rightarrow> bytes list \<Rightarrow> btree_node list \<Rightarrow> bytes option \<Rightarrow> bool" where
  "wf_pre P lo [] [] l = (l = lo)"
| "wf_pre P lo (k # ks) (c # cs) l = (P lo (Some k) c \<and> wf_pre P (Some k) ks cs l)"
| "wf_pre P lo _ _ l = False"

fun wf_post :: "(bytes option \<Rightarrow> bytes option \<Rightarrow> btree_node \<Rightarrow> bool) \<Rightarrow>
    bytes option \<Rightarrow> bytes list \<Rightarrow> btree_node list \<Rightarrow> bytes option \<Rightarrow> bool" where
  "wf_post P u [] [] hi = (u = hi)"
| "wf_post P u (k # ks) cs hi = (u = Some k \<and> wfs P (Some k) ks cs hi)"
| "wf_post P u _ _ hi = False"

lemma wfs_compose:
  assumes "wf_pre P lo ks1 cs1 l" and "P l u c" and "wf_post P u ks2 cs2 hi"
  shows "wfs P lo (ks1 @ ks2) (cs1 @ c # cs2) hi"
  using assms
proof (induction P lo ks1 cs1 l rule: wf_pre.induct)
  case (1 P lo l)
  then show ?case by (cases ks2; cases cs2) auto
qed auto

lemma wfs_compose2:
  assumes "wf_pre P lo ks1 cs1 l" and "P l (Some m) c1" and "P (Some m) u c2"
    and "wf_post P u ks2 cs2 hi"
  shows "wfs P lo (ks1 @ m # ks2) (cs1 @ c1 # c2 # cs2) hi"
  using assms
proof (induction P lo ks1 cs1 l rule: wf_pre.induct)
  case (1 P lo l)
  then show ?case by (cases ks2; cases cs2) auto
qed auto

lemma wfs_decompose:
  assumes "wfs P lo (ks1 @ ks2) cs hi"
  shows "\<exists>cs1 c cs2 l u. cs = cs1 @ c # cs2 \<and> length cs1 = length ks1 \<and>
           wf_pre P lo ks1 cs1 l \<and> P l u c \<and> wf_post P u ks2 cs2 hi \<and>
           l = (if ks1 = [] then lo else Some (last ks1)) \<and>
           u = (case ks2 of [] \<Rightarrow> hi | k # _ \<Rightarrow> Some k)"
  using assms
proof (induction ks1 arbitrary: lo cs)
  case Nil
  show ?case
  proof (cases ks2)
    case Nil
    with \<open>wfs P lo ([] @ ks2) cs hi\<close> wfs_length have "\<exists>c. cs = [c]"
      by (fastforce simp: length_Suc_conv)
    with Nil \<open>wfs P lo ([] @ ks2) cs hi\<close> show ?thesis
      by (auto intro!: exI [of _ "[]"])
  next
    case (Cons k ks)
    with \<open>wfs P lo ([] @ ks2) cs hi\<close> obtain c cs' where "cs = c # cs'"
      by (cases cs) auto
    with Cons \<open>wfs P lo ([] @ ks2) cs hi\<close> show ?thesis
      by (auto intro!: exI [of _ "[]"])
  qed
next
  case (Cons k ks1)
  then obtain d ds where cs: "cs = d # ds" and P: "P lo (Some k) d"
    and w: "wfs P (Some k) (ks1 @ ks2) ds hi"
    by (cases cs) auto
  from Cons.IH [OF w] obtain cs1 c cs2 l u where
    "ds = cs1 @ c # cs2" "length cs1 = length ks1" "wf_pre P (Some k) ks1 cs1 l" "P l u c"
    "wf_post P u ks2 cs2 hi" "l = (if ks1 = [] then Some k else Some (last ks1))"
    "u = (case ks2 of [] \<Rightarrow> hi | k # _ \<Rightarrow> Some k)"
    by auto
  with cs P show ?case
    by (intro exI [of _ "d # cs1"] exI [of _ c] exI [of _ cs2] exI [of _ l] exI [of _ u]) auto
qed

lemma wfs_split_at:
  "wfs P lo ks cs hi \<Longrightarrow> j < length ks \<Longrightarrow>
     wfs P lo (take j ks) (take (Suc j) cs) (Some (ks ! j)) \<and>
     wfs P (Some (ks ! j)) (drop (Suc j) ks) (drop (Suc j) cs) hi"
proof (induction P lo ks cs hi arbitrary: j rule: wfs.induct)
  case (2 P lo k ks c cs hi)
  then show ?case by (cases j) auto
qed auto

text \<open>Separators ascend and lie within the node's bounds.\<close>

lemma bounds_ok_trans: "bounds_ok lo (Some k) \<Longrightarrow> bounds_ok (Some k) hi \<Longrightarrow> bounds_ok lo hi"
  by (auto simp: bounds_ok_def split: option.splits)

lemma wfs_bounds: "wfs (wf_node h) lo ks cs hi \<Longrightarrow> bounds_ok lo hi"
  by (induction "wf_node h" lo ks cs hi rule: wfs.induct) (auto dest: wf_node_bounds bounds_ok_trans)

lemma wfs_seps:
  assumes "wfs (wf_node h) lo ks cs hi"
  shows "sorted ks \<and> (\<forall>k\<in>set ks. bounds_ok lo (Some k) \<and> bounds_ok (Some k) hi)"
  using assms
proof (induction "wf_node h" lo ks cs hi rule: wfs.induct)
  case (2 lo k ks c cs hi)
  have "bounds_ok lo (Some k)" using 2 wf_node_bounds by auto
  moreover have "bounds_ok (Some k) hi" using 2 wfs_bounds by auto
  ultimately show ?case using 2 by (auto simp: bounds_ok_def split: option.splits)
qed auto

section \<open>Where a key falls\<close>

lemma takeWhile_all_rev:
  "sorted ks \<Longrightarrow> length ks - length (takeWhile (\<lambda>x. k < x) (rev ks)) = length (takeWhile (\<lambda>x. x \<le> k) (ks::'a::linorder list))"
proof (induction ks)
  case Nil
  then show ?case by simp
next
  case (Cons x xs)
  show ?case
  proof (cases "\<forall>y\<in>set xs. k < y")
    case True
    then have "takeWhile (\<lambda>x. k < x) (rev xs @ [x]) = rev xs @ takeWhile (\<lambda>x. k < x) [x]"
      by (subst takeWhile_append2) auto
    moreover have "takeWhile (\<lambda>x. x \<le> k) xs = []"
      using True by (cases xs) auto
    ultimately show ?thesis by (auto simp: not_le)
  next
    case False
    then obtain y where "y \<in> set xs" "y \<le> k" by (auto simp: not_less)
    with Cons.prems have "x \<le> k" by auto
    have "takeWhile (\<lambda>x. k < x) (rev xs @ [x]) = takeWhile (\<lambda>x. k < x) (rev xs)"
      using \<open>y \<in> set xs\<close> \<open>y \<le> k\<close> by (intro takeWhile_append1 [of y]) (auto simp: not_less)
    moreover have "length (takeWhile (\<lambda>x. k < x) (rev xs)) \<le> length xs"
      by (metis length_rev length_takeWhile_le)
    ultimately show ?thesis
      using Cons \<open>x \<le> k\<close> by simp
  qed
qed

lemma search_pos_le: "search_pos key ks = length (takeWhile (\<lambda>k. k \<le> key) ks)"
  by (simp add: search_pos_def cmp_simps)

lemma insert_pos_search_pos: "sorted ks \<Longrightarrow> insert_pos key ks = search_pos key ks"
  by (simp add: insert_pos_def search_pos_le takeWhile_all_rev cmp_simps)

text \<open>
  The child the search enters: the separators left of it are at most the key, the ones
  right of it are above, so the key lies in the child's range.
\<close>

lemma wfs_at_key:
  assumes "wfs (wf_node h) lo ks cs hi" and "lo_le lo key" and "lt_hi hi key"
  obtains ks1 ks2 cs1 c cs2 l u where
    "ks = ks1 @ ks2" "cs = cs1 @ c # cs2" "search_pos key ks = length ks1"
    "length cs1 = length ks1" "wf_pre (wf_node h) lo ks1 cs1 l" "wf_node h l u c"
    "wf_post (wf_node h) u ks2 cs2 hi" "lo_le l key" "lt_hi u key"
proof -
  let ?ks1 = "takeWhile (\<lambda>k. k \<le> key) ks" and ?ks2 = "dropWhile (\<lambda>k. k \<le> key) ks"
  have "wfs (wf_node h) lo (?ks1 @ ?ks2) cs hi" using assms(1) by simp
  from wfs_decompose [OF this] obtain cs1 c cs2 l u where *:
    "cs = cs1 @ c # cs2" "length cs1 = length ?ks1" "wf_pre (wf_node h) lo ?ks1 cs1 l"
    "wf_node h l u c" "wf_post (wf_node h) u ?ks2 cs2 hi"
    "l = (if ?ks1 = [] then lo else Some (last ?ks1))"
    "u = (case ?ks2 of [] \<Rightarrow> hi | k # _ \<Rightarrow> Some k)"
    by blast
  have "lo_le l key"
    using *(6) assms(2) last_in_set [of ?ks1] set_takeWhileD [of "last ?ks1" "\<lambda>k. k \<le> key" ks]
    by (auto simp: lo_le_def split: if_splits)
  moreover have "lt_hi u key"
    using *(7) assms(3)
    by (auto simp: lt_hi_def dropWhile_eq_Cons_conv not_le split: list.splits)
  ultimately show thesis
    using that [of ?ks1 ?ks2 cs1 c cs2 l u] * by (simp add: search_pos_le)
qed

lemma wfs_keys:
  assumes IH: "\<And>lo hi c. wf_node h lo hi c \<Longrightarrow> p \<in> set (kvs_of c) \<Longrightarrow> lo_le lo (fst p) \<and> lt_hi hi (fst p)"
    and "wfs (wf_node h) lo ks cs hi" and "p \<in> set (concat (map kvs_of cs))"
  shows "lo_le lo (fst p) \<and> lt_hi hi (fst p)"
  using assms(2,3)
proof (induction "wf_node h" lo ks cs hi rule: wfs.induct)
  case (1 lo c hi)
  then show ?case using IH by auto
next
  case (2 lo k ks c cs hi)
  have b: "bounds_ok lo (Some k)" "bounds_ok (Some k) hi"
    using 2 wf_node_bounds wfs_bounds by auto
  from 2 consider (left) "p \<in> set (kvs_of c)" | (right) "p \<in> set (concat (map kvs_of cs))" by auto
  then show ?case
  proof cases
    case left
    with 2 IH have "lo_le lo (fst p) \<and> lt_hi (Some k) (fst p)" by auto
    with b show ?thesis by (auto simp: bound_defs split: option.splits)
  next
    case right
    with 2 have "lo_le (Some k) (fst p) \<and> lt_hi hi (fst p)" by auto
    with b show ?thesis by (auto simp: bound_defs split: option.splits)
  qed
qed auto

lemma wf_node_keys:
  "wf_node h lo hi t \<Longrightarrow> p \<in> set (kvs_of t) \<Longrightarrow> lo_le lo (fst p) \<and> lt_hi hi (fst p)"
proof (induction h arbitrary: lo hi t)
  case 0
  then show ?case by (cases t) auto
next
  case (Suc h)
  then obtain ks cs where "t = Inner ks cs" "wfs (wf_node h) lo ks cs hi"
    "p \<in> set (concat (map kvs_of cs))"
    by (cases t) auto
  with Suc.IH show ?case using wfs_keys [of h p lo ks cs hi] by blast
qed

lemma wfs_node_keys:
  "wfs (wf_node h) lo ks cs hi \<Longrightarrow> p \<in> set (concat (map kvs_of cs)) \<Longrightarrow>
     lo_le lo (fst p) \<and> lt_hi hi (fst p)"
  by (rule wfs_keys) (auto dest: wf_node_keys)

lemma wf_pre_bound:
  "wf_pre (wf_node h) (Some k) ks cs l \<Longrightarrow> lo_le l key \<Longrightarrow> k \<le> key"
  by (induction "wf_node h" "Some k" ks cs l arbitrary: k rule: wf_pre.induct)
    (auto simp: lo_le_def bounds_ok_def dest!: wf_node_bounds)

lemma wf_pre_keys:
  assumes "wf_pre (wf_node h) lo ks cs l" and "lo_le l key" and "p \<in> set (concat (map kvs_of cs))"
  shows "fst p < key"
  using assms
proof (induction "wf_node h" lo ks cs l rule: wf_pre.induct)
  case (2 lo k ks c cs l)
  have "k \<le> key" using 2 wf_pre_bound by auto
  with 2 wf_node_keys [of h lo "Some k" c p] show ?case by (auto simp: lt_hi_def)
qed auto

lemma wf_post_keys:
  assumes "wf_post (wf_node h) u ks cs hi" and "lt_hi u key" and "p \<in> set (concat (map kvs_of cs))"
  shows "key < fst p"
proof (cases ks)
  case Nil
  with assms show ?thesis by (cases cs) auto
next
  case (Cons k ks')
  with assms wfs_node_keys [of h "Some k" ks' cs hi p]
  show ?thesis by (auto simp: lo_le_def lt_hi_def)
qed

section \<open>Search\<close>

text \<open>In a well-formed tree the pairs come in strictly ascending key order.\<close>

lemma wf_node_sorted: "wf_node h lo hi t \<Longrightarrow> ssorted (keys_of (kvs_of t))"
proof (induction h arbitrary: lo hi t)
  case 0
  then show ?case by (cases t) auto
next
  case (Suc h)
  then obtain ks cs where t: "t = Inner ks cs" and w: "wfs (wf_node h) lo ks cs hi"
    by (cases t) auto
  have "ssorted (keys_of (concat (map kvs_of cs)))"
    using w
  proof (induction "wf_node h" lo ks cs hi rule: wfs.induct)
    case (2 lo k ks c cs hi)
    have "fst p < fst q" if "p \<in> set (kvs_of c)" "q \<in> set (concat (map kvs_of cs))" for p q
      using 2 that wf_node_keys [of h lo "Some k" c p] wfs_node_keys [of h "Some k" ks cs hi q]
      by (auto simp: lo_le_def lt_hi_def)
    moreover have "ssorted (keys_of (kvs_of c))" "ssorted (keys_of (concat (map kvs_of cs)))"
      using 2 Suc.IH by auto
    ultimately show ?case
      unfolding list.map(2) concat.simps map_append sorted_wrt_append
      by (simp del: set_concat)
  qed (use Suc.IH in auto)
  with t show ?case by simp
qed

lemma leaf_search:
  assumes "ssorted (keys_of kvs)"
  shows "node_search (Leaf a kvs nx) key = map_of kvs key"
proof -
  let ?n = "search_pos key (keys_of kvs)"
  define xs where "xs = takeWhile (\<lambda>p. fst p \<le> key) kvs"
  define ys where "ys = dropWhile (\<lambda>p. fst p \<le> key) kvs"
  have kvs: "kvs = xs @ ys" by (simp add: xs_def ys_def)
  have n: "?n = length xs" by (simp add: search_pos_le xs_def takeWhile_map o_def)
  have gt: "\<forall>p\<in>set ys. key < fst p"
  proof (cases ys)
    case (Cons y ys')
    then have "\<not> fst y \<le> key" unfolding ys_def by (simp add: dropWhile_eq_Cons_conv)
    with assms kvs Cons show ?thesis by (auto simp: sorted_wrt_append)
  qed simp
  have le: "\<forall>p\<in>set xs. fst p \<le> key" by (auto simp: xs_def dest: set_takeWhileD)
  show ?thesis
  proof (cases xs rule: rev_cases)
    case Nil
    then have "map_of kvs key = None"
      using gt kvs by (auto simp: map_of_eq_None_iff)
    with Nil n show ?thesis by (simp add: node_search.simps)
  next
    case (snoc zs z)
    have lt: "\<forall>p\<in>set zs. fst p < fst z" using assms kvs snoc by (auto simp: sorted_wrt_append)
    have z: "kvs ! (?n - 1) = z" using n snoc kvs by (simp add: nth_append)
    show ?thesis
    proof (cases "fst z = key")
      case True
      have "map_of kvs key = Some (snd z)"
        using True lt gt map_of_middle [of key zs ys "[z]"] unfolding kvs snoc
        by (cases z) auto
      with z n snoc True show ?thesis by (simp add: node_search.simps Let_def cmp_simps)
    next
      case False
      have "map_of kvs key = None"
        unfolding kvs snoc using False lt gt le snoc by (fastforce simp: map_of_eq_None_iff)
      with z n snoc False show ?thesis by (simp add: node_search.simps Let_def cmp_simps)
    qed
  qed
qed

lemma concat_at: "concat (map f (xs @ y # ys)) = concat (map f xs) @ f y @ concat (map f ys)"
  by simp

lemma node_search_correct:
  "wf_node h lo hi t \<Longrightarrow> lo_le lo key \<Longrightarrow> lt_hi hi key \<Longrightarrow> node_search t key = map_of (kvs_of t) key"
proof (induction h arbitrary: lo hi t)
  case 0
  then show ?case by (cases t) (auto simp: leaf_search)
next
  case (Suc h)
  then obtain ks cs where t: "t = Inner ks cs" and w: "wfs (wf_node h) lo ks cs hi"
    by (cases t) auto
  from wfs_at_key [OF w Suc.prems(2,3)] obtain ks1 ks2 cs1 c cs2 l u where *:
    "ks = ks1 @ ks2" "cs = cs1 @ c # cs2" "search_pos key ks = length ks1"
    "length cs1 = length ks1" "wf_pre (wf_node h) lo ks1 cs1 l" "wf_node h l u c"
    "wf_post (wf_node h) u ks2 cs2 hi" "lo_le l key" "lt_hi u key"
    by blast
  have "key \<notin> fst ` set (concat (map kvs_of cs1))" "key \<notin> fst ` set (concat (map kvs_of cs2))"
    using wf_pre_keys [OF *(5,8)] wf_post_keys [OF *(7,9)] by (auto simp del: set_concat)
  then have "map_of (kvs_of t) key = map_of (kvs_of c) key"
    unfolding t kvs_of.simps *(2) concat_at by (rule map_of_middle)
  moreover have "node_search t key = node_search c key"
    using t * by (simp add: node_search.simps nth_append)
  ultimately show ?case using Suc.IH *(6,8,9) by simp
qed

section \<open>Insertion\<close>

lemma upd_list_same:
  "\<forall>p\<in>set xs. fst p < k \<Longrightarrow> upd_list k v (xs @ (k, w) # ys) = xs @ (k, v) # ys"
  by (simp add: upd_list_append_right)

lemma upd_list_new:
  "\<forall>p\<in>set xs. fst p < k \<Longrightarrow> \<forall>p\<in>set ys. k < fst p \<Longrightarrow> upd_list k v (xs @ ys) = xs @ (k, v) # ys"
proof -
  assume "\<forall>p\<in>set xs. fst p < k" and "\<forall>p\<in>set ys. k < fst p"
  moreover from this(2) have "upd_list k v ys = (k, v) # ys" by (cases ys) auto
  ultimately show ?thesis by (simp add: upd_list_append_right)
qed

lemma leaf_insert_upd:
  assumes "ssorted (keys_of kvs)"
  shows "leaf_insert key v kvs = upd_list key v kvs"
proof -
  let ?P = "\<lambda>p. key_cmp key (fst p) \<noteq> 0"
  define j where "j = length (takeWhile ?P kvs)"
  show ?thesis
  proof (cases "j < length kvs")
    case True
    define xs where "xs = take j kvs"
    define ys where "ys = drop (Suc j) kvs"
    have "\<not> ?P (kvs ! j)" using nth_length_takeWhile [of ?P kvs] True unfolding j_def by blast
    then have "fst (kvs ! j) = key" by (simp add: cmp_simps)
    then have kvs: "kvs = xs @ (key, snd (kvs ! j)) # ys"
      using True by (metis xs_def ys_def id_take_nth_drop prod.collapse)
    have "\<forall>p\<in>set xs. fst p < key"
    proof -
      have "ssorted (keys_of (xs @ (key, snd (kvs ! j)) # ys))" using assms kvs by metis
      then show ?thesis by (auto simp: sorted_wrt_append)
    qed
    then have "upd_list key v kvs = xs @ (key, v) # ys"
      using upd_list_same kvs by metis
    moreover have "leaf_insert key v kvs = xs @ (key, v) # ys"
      using True \<open>fst (kvs ! j) = key\<close>
      by (simp add: leaf_insert_def Let_def j_def [symmetric] xs_def ys_def upd_conv_take_nth_drop)
    ultimately show ?thesis by simp
  next
    case False
    then have "takeWhile ?P kvs = kvs"
      by (metis j_def length_takeWhile_le linorder_not_less order_antisym takeWhile_eq_take take_all)
    then have "\<forall>p\<in>set kvs. ?P p" by (simp only: takeWhile_eq_all_conv)
    then have ne: "\<forall>p\<in>set kvs. fst p \<noteq> key" by (auto simp: cmp_simps)
    define xs where "xs = takeWhile (\<lambda>p. fst p \<le> key) kvs"
    define ys where "ys = dropWhile (\<lambda>p. fst p \<le> key) kvs"
    have kvs: "kvs = xs @ ys" by (simp add: xs_def ys_def)
    have "sorted (keys_of kvs)"
      using assms by (simp add: strict_sorted_imp_sorted)
    then have n: "insert_pos key (keys_of kvs) = length xs"
      by (simp add: insert_pos_search_pos search_pos_le xs_def takeWhile_map o_def)
    have gt: "\<forall>p\<in>set ys. key < fst p"
    proof (cases ys)
      case (Cons y ys')
      then have "\<not> fst y \<le> key" unfolding ys_def by (simp add: dropWhile_eq_Cons_conv)
      with assms kvs Cons show ?thesis by (auto simp: sorted_wrt_append)
    qed simp
    have lt: "\<forall>p\<in>set xs. fst p < key"
      using ne by (auto simp: xs_def order_less_le dest: set_takeWhileD)
    have "take (length xs) kvs = xs" "drop (length xs) kvs = ys"
      using kvs by (metis append_eq_conv_conj)+
    then have "leaf_insert key v kvs = xs @ (key, v) # ys"
      using False n by (simp add: leaf_insert_def Let_def j_def [symmetric] insert_at_def)
    then show ?thesis using upd_list_new [OF lt gt] kvs by metis
  qed
qed

lemma ssorted_take: "ssorted xs \<Longrightarrow> ssorted (take n xs)"
  by (metis append_take_drop_id sorted_wrt_append)

lemma ssorted_drop: "ssorted xs \<Longrightarrow> ssorted (drop n xs)"
  by (metis append_take_drop_id sorted_wrt_append)

lemma ssorted_take_lt:
  assumes "ssorted xs" and "n < length xs" and "x \<in> set (take n xs)" shows "x < xs ! n"
  using assms by (auto simp: in_set_conv_nth sorted_wrt_iff_nth_less)

lemma ssorted_drop_ge:
  assumes "ssorted xs" and "x \<in> set (drop n xs)" shows "xs ! n \<le> x"
proof -
  obtain i where i: "i < length (drop n xs)" "x = xs ! (n + i)"
    using assms(2) by (auto simp: in_set_conv_nth)
  with assms(1) show ?thesis by (cases i) (auto simp: sorted_wrt_iff_nth_less le_less)
qed

lemma split_node_correct:
  assumes "wf_node h lo hi c" and "num_keys c = MAX_KEYS" and "split_node fr c = (c1, m, c2)"
  shows "wf_node h lo (Some m) c1 \<and> wf_node h (Some m) hi c2 \<and> kvs_of c1 @ kvs_of c2 = kvs_of c \<and>
         num_keys c1 < MAX_KEYS \<and> num_keys c2 < MAX_KEYS"
proof (cases c)
  case (Leaf a kvs nx)
  then obtain h0: "h = 0" and w: "bounds_ok lo hi" "ssorted (keys_of kvs)"
    "\<forall>p\<in>set kvs. lo_le lo (fst p) \<and> lt_hi hi (fst p)" and len: "length kvs = 16"
    using assms(1,2) by (cases h) (auto simp: btree_consts)
  have m: "m = keys_of kvs ! 8" and c: "c1 = Leaf a (take 8 kvs) (Some fr)" "c2 = Leaf fr (drop 8 kvs) nx"
    using assms(3) Leaf len by (auto simp: btree_consts Let_def)
  have mem: "kvs ! 8 \<in> set kvs" using len by simp
  have b: "lo_le lo m" "lt_hi hi m" using w(3) mem m len by auto
  have "\<forall>p\<in>set (take 8 kvs). fst p < m"
    using ssorted_take_lt [OF w(2), of 8] len m by (auto simp: take_map)
  moreover have "\<forall>p\<in>set (drop 8 kvs). m \<le> fst p"
    using ssorted_drop_ge [OF w(2), of _ 8] m by (auto simp: drop_map)
  moreover have "ssorted (keys_of (take 8 kvs))" "ssorted (keys_of (drop 8 kvs))"
    using ssorted_take [OF w(2), of 8] ssorted_drop [OF w(2), of 8] by (simp_all add: take_map drop_map)
  ultimately show ?thesis
    using h0 c len w b
    by (auto simp: btree_consts bound_defs Leaf split: option.splits dest: in_set_takeD in_set_dropD)
next
  case (Inner ks cs)
  then obtain h' where h: "h = Suc h'" and w: "bounds_ok lo hi" "wfs (wf_node h') lo ks cs hi"
    and len: "length ks = 16"
    using assms(1,2) by (cases h) (auto simp: btree_consts)
  have lcs: "length cs = 17" using wfs_length [OF w(2)] len by simp
  have m: "m = ks ! 8" and c: "c1 = Inner (take 8 ks) (take (Suc 8) cs)"
    "c2 = Inner (drop (Suc 8) ks) (drop (Suc 8) cs)"
    using assms(3) Inner len lcs by (auto simp: btree_consts Let_def)
  have "m \<in> set ks" using len m by simp
  then have b: "bounds_ok lo (Some m)" "bounds_ok (Some m) hi" using wfs_seps [OF w(2)] by auto
  have "concat (map kvs_of (take (Suc 8) cs)) @ concat (map kvs_of (drop (Suc 8) cs)) = kvs_of c"
    unfolding Inner by (metis append_take_drop_id concat_append kvs_of.simps(2) map_append)
  then show ?thesis
    using wfs_split_at [OF w(2), of 8] len b m c h by (simp add: btree_consts)
qed

text \<open>
  A tie: on the way down, a full child is split at exactly the key being inserted. The code
  then compares with \<^verbatim>\<open>> 0\<close> and enters the left half, although searches enter the right one.
\<close>

fun mid_key :: "btree_node \<Rightarrow> bytes" where
  "mid_key (Leaf a kvs nx) = fst (kvs ! HALF_KEYS)"
| "mid_key (Inner ks cs) = ks ! HALF_KEYS"

function (sequential) node_tie :: "addr \<Rightarrow> btree_node \<Rightarrow> bytes \<Rightarrow> bool" where
  "node_tie fresh (Leaf a kvs nx) key = False"
| "node_tie fresh (Inner ks cs) key =
     (if insert_pos key ks < length cs then
        (let c = cs ! insert_pos key ks in
         num_keys c = MAX_KEYS \<and> mid_key c = key \<or>
         (case descend_insert fresh ks cs key of (ks', cs', fr, i) \<Rightarrow> node_tie fr (cs' ! i) key))
      else False)"
  by pat_completeness auto
termination
  by (relation "measure (\<lambda>(fr, n, k). height n)")
    (auto dest: descend_insert_height [OF _ sym] simp del: height.simps)

declare node_tie.simps [simp del]

lemma split_node_mid: "split_node fr c = (c1, m, c2) \<Longrightarrow> m = mid_key c"
  by (cases c) (auto simp: Let_def)

lemma insert_at_mid: "length xs = n \<Longrightarrow> insert_at n y (xs @ zs) = xs @ y # zs"
  by (simp add: insert_at_def)

text \<open>The step down: the node after a possible split, seen as prefix, chosen child and suffix.\<close>

lemma descend_insert_cases:
  assumes "wfs (wf_node h) lo ks cs hi" and "lo_le lo key" and "lt_hi hi key"
    and "descend_insert fr ks cs key = (ks', cs', fr', i)"
    and "num_keys (cs ! insert_pos key ks) = MAX_KEYS \<Longrightarrow> mid_key (cs ! insert_pos key ks) \<noteq> key"
  obtains ks1 ks2 cs1 c cs2 l u where
    "ks' = ks1 @ ks2" "cs' = cs1 @ c # cs2" "i = length cs1" "length cs1 = length ks1"
    "wf_pre (wf_node h) lo ks1 cs1 l" "wf_node h l u c" "wf_post (wf_node h) u ks2 cs2 hi"
    "lo_le l key" "lt_hi u key" "num_keys c < MAX_KEYS"
    "concat (map kvs_of cs') = concat (map kvs_of cs)" "length ks' \<le> Suc (length ks)"
proof -
  obtain ks1 ks2 cs1 c cs2 l u where *:
    "ks = ks1 @ ks2" "cs = cs1 @ c # cs2" "search_pos key ks = length ks1"
    "length cs1 = length ks1" "wf_pre (wf_node h) lo ks1 cs1 l" "wf_node h l u c"
    "wf_post (wf_node h) u ks2 cs2 hi" "lo_le l key" "lt_hi u key"
    by (rule wfs_at_key [OF assms(1-3)])
  have i: "insert_pos key ks = length ks1"
    using insert_pos_search_pos wfs_seps [OF assms(1)] *(3) by simp
  have ci: "cs ! insert_pos key ks = c" using i * by (simp add: nth_append)
  show thesis
  proof (cases "num_keys c = MAX_KEYS")
    case False
    then have "num_keys c < MAX_KEYS" using wf_node_num_keys [OF *(6)] by simp
    moreover have "ks' = ks" "cs' = cs" "i = length cs1"
      using assms(4) False ci i *(4) by (auto simp: descend_insert_def Let_def)
    ultimately show thesis using that [of ks1 ks2 cs1 c cs2 l u] * by simp
  next
    case True
    obtain c1 m c2 where sp: "split_node fr c = (c1, m, c2)" by (cases "split_node fr c")
    note sc = split_node_correct [OF *(6) True sp]
    have "m \<noteq> key" using assms(5) True ci split_node_mid [OF sp] by simp
    have "split_child fr ks cs (length ks1) = (ks1 @ m # ks2, cs1 @ c1 # c2 # cs2)"
      using sp * insert_at_mid [of "cs1 @ [c1]" "Suc (length ks1)" c2 cs2]
      by (simp add: split_child_def nth_append list_update_append insert_at_mid)
    then have d: "ks' = ks1 @ m # ks2" "cs' = cs1 @ c1 # c2 # cs2"
      "i = (if m < key then Suc (length ks1) else length ks1)"
      using assms(4) True ci i by (auto simp: descend_insert_def Let_def nth_append cmp_simps)
    have kv: "concat (map kvs_of cs') = concat (map kvs_of cs)"
      using sc d(2) *(2) by (simp flip: append_assoc)
    have len: "length ks' \<le> Suc (length ks)" using d(1) *(1) by simp
    show thesis
    proof (cases "m < key")
      case True
      have "wf_pre (wf_node h) lo (ks1 @ [m]) (cs1 @ [c1]) (Some m)"
        using *(5) sc by (induction "wf_node h" lo ks1 cs1 l rule: wf_pre.induct) auto
      then show thesis
        using that [of "ks1 @ [m]" ks2 "cs1 @ [c1]" c2 cs2 "Some m" u] d sc * True kv len
        by (simp add: lo_le_def)
    next
      case False
      have "wf_post (wf_node h) (Some m) (m # ks2) (c2 # cs2) hi"
        using *(7) sc by (cases ks2; cases cs2) auto
      then show thesis
        using that [of ks1 "m # ks2" cs1 c1 "c2 # cs2" l "Some m"] d sc * False kv len \<open>m \<noteq> key\<close>
        by (simp add: lt_hi_def)
    qed
  qed
qed

lemma node_insert_correct:
  assumes "wf_node h lo hi n" and "num_keys n < MAX_KEYS" and "lo_le lo key" and "lt_hi hi key"
    and "\<not> node_tie fr n key" and "node_insert_nonfull fr n key v = (n', fr')"
  shows "wf_node h lo hi n' \<and> kvs_of n' = upd_list key v (kvs_of n)"
  using assms
proof (induction fr n key v arbitrary: h lo hi n' fr' rule: node_insert_nonfull.induct)
  case (1 fr a kvs nx key v)
  from 1 have h: "h = 0" and kvs: "ssorted (keys_of kvs)" by (cases h; simp)+
  have n': "n' = Leaf a (upd_list key v kvs) nx"
    using 1 kvs by (simp add: node_insert_nonfull.simps leaf_insert_upd)
  have "length (upd_list key v kvs) \<le> Suc (length kvs)"
    by (induction kvs) auto
  moreover have "fst p = key \<or> p \<in> set kvs" if "p \<in> set (upd_list key v kvs)" for p
    using that by (induction kvs) (auto split: if_splits)
  ultimately show ?case
    using 1 h n' ssorted_upd_list [OF kvs] by fastforce
next
  case (2 fr ks cs key v)
  from "2.prems"(1) obtain h' where h: "h = Suc h'" and b: "bounds_ok lo hi"
    and w: "wfs (wf_node h') lo ks cs hi"
    by (cases h) auto
  have len: "length ks < MAX_KEYS" using "2.prems"(2) by simp
  have pos: "insert_pos key ks < length cs"
    using wfs_length [OF w] by (simp add: insert_pos_def)
  obtain ks' cs' fr1 i where d: "descend_insert fr ks cs key = (ks', cs', fr1, i)"
    by (cases "descend_insert fr ks cs key") auto
  obtain c' fr2 where ins: "node_insert_nonfull fr1 (cs' ! i) key v = (c', fr2)"
    by (cases "node_insert_nonfull fr1 (cs' ! i) key v") auto
  have notie: "num_keys (cs ! insert_pos key ks) = MAX_KEYS \<Longrightarrow> mid_key (cs ! insert_pos key ks) \<noteq> key"
    "\<not> node_tie fr1 (cs' ! i) key"
    using "2.prems"(5) pos d by (auto simp: node_tie.simps Let_def)
  obtain ks1 ks2 cs1 c cs2 l u where *:
    "ks' = ks1 @ ks2" "cs' = cs1 @ c # cs2" "i = length cs1" "length cs1 = length ks1"
    "wf_pre (wf_node h') lo ks1 cs1 l" "wf_node h' l u c" "wf_post (wf_node h') u ks2 cs2 hi"
    "lo_le l key" "lt_hi u key" "num_keys c < MAX_KEYS"
    "concat (map kvs_of cs') = concat (map kvs_of cs)" "length ks' \<le> Suc (length ks)"
    by (rule descend_insert_cases [OF w "2.prems"(3,4) d notie(1)])
  have ci: "cs' ! i = c" using *(2,3) by (simp add: nth_append)
  have IH: "wf_node h' l u c' \<and> kvs_of c' = upd_list key v (kvs_of c)"
    using "2.IH" [OF pos d [symmetric] refl refl, of h' l u c' fr2] * ci notie ins by simp
  have n': "n' = Inner ks' (cs1 @ c' # cs2)"
    using "2.prems"(6) pos d ins *(2,3) by (simp add: node_insert_nonfull.simps list_update_append)
  have "wfs (wf_node h') lo ks' (cs1 @ c' # cs2) hi"
    unfolding *(1) using wfs_compose *(5,7) IH by blast
  then have "wf_node h lo hi n'"
    using h b n' *(12) len by simp
  moreover have "kvs_of n' = upd_list key v (kvs_of (Inner ks cs))"
  proof -
    have "kvs_of n' = concat (map kvs_of cs1) @ upd_list key v (kvs_of c) @ concat (map kvs_of cs2)"
      using n' IH by simp
    also have "\<dots> = upd_list key v (concat (map kvs_of cs1) @ kvs_of c @ concat (map kvs_of cs2))"
      using wf_pre_keys [OF *(5,8)] wf_post_keys [OF *(7,9)]
      by (intro upd_list_middle [symmetric]) blast+
    also have "\<dots> = upd_list key v (kvs_of (Inner ks cs))"
      using *(2,11) by simp
    finally show ?thesis .
  qed
  ultimately show ?case by simp
qed

section \<open>Deletion\<close>

lemma leaf_delete_del:
  "leaf_delete key kvs =
     (del_list key kvs, if key \<in> fst ` set kvs then KANBUDB_OK else KANBUDB_ERR_NOTFOUND)"
  by (induction kvs) (auto simp: cmp_simps)

lemma node_delete_correct:
  assumes "wf_node h lo hi n" and "lo_le lo key" and "lt_hi hi key" and "node_delete n key = (n', rc)"
  shows "wf_node h lo hi n' \<and> kvs_of n' = del_list key (kvs_of n) \<and>
         rc = (if key \<in> fst ` set (kvs_of n) then KANBUDB_OK else KANBUDB_ERR_NOTFOUND)"
  using assms
proof (induction h arbitrary: lo hi n n' rc)
  case 0
  then obtain a kvs nx where n: "n = Leaf a kvs nx" by (cases n) auto
  have "length (del_list key kvs) \<le> length kvs" by (induction kvs) auto
  moreover have "set (del_list key kvs) \<subseteq> set kvs" by (rule set_del_list)
  moreover have "n' = Leaf a (del_list key kvs) nx"
    "rc = (if key \<in> fst ` set kvs then KANBUDB_OK else KANBUDB_ERR_NOTFOUND)"
    using 0(4) n by (auto simp: node_delete.simps leaf_delete_del)
  ultimately show ?case
    using 0(1) n ssorted_del_list [of kvs key] by auto
next
  case (Suc h)
  then obtain ks cs where n: "n = Inner ks cs" and b: "bounds_ok lo hi" "length ks \<le> MAX_KEYS"
    and w: "wfs (wf_node h) lo ks cs hi"
    by (cases n) auto
  obtain ks1 ks2 cs1 c cs2 l u where *:
    "ks = ks1 @ ks2" "cs = cs1 @ c # cs2" "search_pos key ks = length ks1"
    "length cs1 = length ks1" "wf_pre (wf_node h) lo ks1 cs1 l" "wf_node h l u c"
    "wf_post (wf_node h) u ks2 cs2 hi" "lo_le l key" "lt_hi u key"
    by (rule wfs_at_key [OF w Suc.prems(2,3)])
  obtain c' rc' where d: "node_delete c key = (c', rc')" by (cases "node_delete c key")
  note IH = Suc.IH [OF *(6,8,9) d]
  have n': "n' = Inner ks (cs1 @ c' # cs2)" "rc = rc'"
    using Suc.prems(4) n * d by (simp_all add: node_delete.simps Let_def nth_append list_update_append)
  have "wfs (wf_node h) lo ks (cs1 @ c' # cs2) hi"
    unfolding *(1) using wfs_compose *(5,7) IH by blast
  moreover have out: "key \<notin> fst ` set (concat (map kvs_of cs1))" "key \<notin> fst ` set (concat (map kvs_of cs2))"
    using wf_pre_keys [OF *(5,8)] wf_post_keys [OF *(7,9)] by (auto simp del: set_concat)
  moreover have "kvs_of n' = del_list key (kvs_of n)"
    unfolding n'(1) n *(2) kvs_of.simps concat_at using IH out by (simp add: del_list_append del_list_absent)
  moreover have "key \<in> fst ` set (kvs_of n) \<longleftrightarrow> key \<in> fst ` set (kvs_of c)"
    unfolding n *(2) kvs_of.simps concat_at using out by (auto simp del: set_concat)
  ultimately show ?case using b n' IH by simp
qed

section \<open>The leaf chain\<close>

text \<open>\<open>seg a ls n\<close>: following \<^verbatim>\<open>next\<close> from address \<open>a\<close> visits exactly \<open>ls\<close> and arrives at \<open>n\<close>.\<close>

fun seg :: "addr option \<Rightarrow> btree_node list \<Rightarrow> addr option \<Rightarrow> bool" where
  "seg a [] n = (a = n)"
| "seg a (l # ls) n = (a = Some (laddr l) \<and> seg (leaf_next l) ls n)"

lemma seg_append: "seg a (xs @ ys) n \<longleftrightarrow> (\<exists>m. seg a xs m \<and> seg m ys n)"
  by (induction xs arbitrary: a) auto

text \<open>
  What an insertion does to the leaf list: the chain stays linked, the only new addresses
  are freshly allocated ones, and no address occurs twice.
\<close>

definition chain_step :: "addr \<Rightarrow> addr \<Rightarrow> btree_node list \<Rightarrow> btree_node list \<Rightarrow> bool" where
  "chain_step fr fr' xs ys \<longleftrightarrow>
     fr \<le> fr' \<and> (\<forall>a n. seg a xs n \<longrightarrow> seg a ys n) \<and>
     laddr ` set ys \<subseteq> laddr ` set xs \<union> {fr..<fr'} \<and>
     (distinct (map laddr xs) \<longrightarrow> (\<forall>l\<in>set xs. laddr l < fr) \<longrightarrow> distinct (map laddr ys))"

lemma chain_step_refl: "chain_step fr fr xs xs"
  by (simp add: chain_step_def)

lemma chain_step_trans:
  assumes "chain_step fr fr1 xs ys" and "chain_step fr1 fr2 ys zs"
  shows "chain_step fr fr2 xs zs"
proof -
  have sub: "laddr ` set ys \<subseteq> laddr ` set xs \<union> {fr..<fr1}"
    "laddr ` set zs \<subseteq> laddr ` set ys \<union> {fr1..<fr2}" and le: "fr \<le> fr1" "fr1 \<le> fr2"
    using assms by (auto simp: chain_step_def)
  then have "laddr ` set zs \<subseteq> laddr ` set xs \<union> {fr..<fr2}"
    by (auto dest!: subsetD)
  moreover have "\<forall>l\<in>set ys. laddr l < fr1" if "\<forall>l\<in>set xs. laddr l < fr"
    using sub(1) le that by fastforce
  ultimately show ?thesis
    using assms by (simp add: chain_step_def)
qed

lemma disjoint_grow: "Y \<subseteq> X \<union> F \<Longrightarrow> A \<inter> X = {} \<Longrightarrow> A \<inter> F = {} \<Longrightarrow> A \<inter> Y = {}"
  by blast

lemma chain_step_context:
  assumes "chain_step fr fr' xs ys"
  shows "chain_step fr fr' (as @ xs @ bs) (as @ ys @ bs)"
proof -
  have "distinct (map laddr (as @ ys @ bs))"
    if d: "distinct (map laddr (as @ xs @ bs))" and lt: "\<forall>l\<in>set (as @ xs @ bs). laddr l < fr"
  proof -
    have "laddr ` set ys \<subseteq> laddr ` set xs \<union> {fr..<fr'}" and "distinct (map laddr ys)"
      using assms d lt by (auto simp: chain_step_def)
    moreover have "\<not> fr \<le> laddr l" if "l \<in> set as \<union> set bs" for l
      using lt that by (auto simp: not_le)
    then have "laddr ` set as \<inter> {fr..<fr'} = {}" "laddr ` set bs \<inter> {fr..<fr'} = {}"
      by auto
    moreover have "laddr ` set as \<inter> laddr ` set xs = {}" "laddr ` set bs \<inter> laddr ` set xs = {}"
      "laddr ` set as \<inter> laddr ` set bs = {}" "distinct (map laddr as)" "distinct (map laddr bs)"
      using d by auto
    ultimately have "laddr ` set as \<inter> laddr ` set ys = {}" "laddr ` set bs \<inter> laddr ` set ys = {}"
      "laddr ` set as \<inter> laddr ` set bs = {}" "distinct (map laddr as)" "distinct (map laddr bs)"
      "distinct (map laddr ys)"
      using disjoint_grow [of "laddr ` set ys"] by simp_all
    then show ?thesis by (simp add: image_Un Int_Un_distrib Int_commute)
  qed
  moreover have "seg a (as @ xs @ bs) n \<longrightarrow> seg a (as @ ys @ bs) n" for a n
    using assms unfolding chain_step_def seg_append by blast
  moreover have "laddr ` set (as @ ys @ bs) \<subseteq> laddr ` set (as @ xs @ bs) \<union> {fr..<fr'}" "fr \<le> fr'"
    using assms by (auto simp: chain_step_def)
  ultimately show ?thesis
    unfolding chain_step_def by blast
qed

lemma split_node_chain:
  assumes "wf_node h lo hi c" and "num_keys c = MAX_KEYS" and "split_node fr c = (c1, m, c2)"
  shows "chain_step fr (Suc fr) (leaves_of c) (leaves_of c1 @ leaves_of c2)"
proof (cases c)
  case (Leaf a kvs nx)
  then show ?thesis using assms(3) by (auto simp: chain_step_def Let_def)
next
  case (Inner ks cs)
  then have "length cs = 17" "length ks = 16"
    using assms(1,2) by (cases h; auto simp: btree_consts dest: wfs_length)+
  then have "leaves_of c1 @ leaves_of c2 = leaves_of c"
    using assms(3) Inner
    by (auto simp: btree_consts Let_def simp flip: concat_append map_append)
  then show ?thesis by (auto simp: chain_step_def)
qed

lemma descend_insert_chain:
  assumes "wfs (wf_node h) lo ks cs hi" and "descend_insert fr ks cs key = (ks', cs', fr', i)"
  shows "chain_step fr fr' (concat (map leaves_of cs)) (concat (map leaves_of cs'))"
proof -
  let ?i = "insert_pos key ks"
  have pos: "?i \<le> length ks" by (simp add: insert_pos_def)
  then obtain cs1 c cs2 l u where *: "cs = cs1 @ c # cs2" "length cs1 = ?i" "wf_node h l u c"
    using wfs_decompose [of "wf_node h" lo "take ?i ks" "drop ?i ks" cs hi] assms(1) by auto
  show ?thesis
  proof (cases "num_keys c = MAX_KEYS")
    case False
    then show ?thesis
      using assms(2) * chain_step_refl by (auto simp: descend_insert_def Let_def nth_append)
  next
    case True
    obtain c1 m c2 where sp: "split_node fr c = (c1, m, c2)" by (cases "split_node fr c")
    have "cs' = cs1 @ c1 # c2 # cs2" "fr' = Suc fr"
      using assms(2) True * sp insert_at_mid [of "cs1 @ [c1]" "Suc ?i" c2 cs2]
      by (auto simp: descend_insert_def split_child_def Let_def nth_append list_update_append)
    then show ?thesis
      using chain_step_context [OF split_node_chain [OF *(3) True sp]] *(1) by simp
  qed
qed

lemma node_insert_chain:
  assumes "wf_node h lo hi n" and "num_keys n < MAX_KEYS" and "lo_le lo key" and "lt_hi hi key"
    and "\<not> node_tie fr n key" and "node_insert_nonfull fr n key v = (n', fr')"
  shows "chain_step fr fr' (leaves_of n) (leaves_of n')"
  using assms
proof (induction fr n key v arbitrary: h lo hi n' fr' rule: node_insert_nonfull.induct)
  case (1 fr a kvs nx key v)
  then show ?case by (auto simp: node_insert_nonfull.simps chain_step_def)
next
  case (2 fr ks cs key v)
  from "2.prems"(1) obtain h' where h: "h = Suc h'" and w: "wfs (wf_node h') lo ks cs hi"
    by (cases h) auto
  have pos: "insert_pos key ks < length cs"
    using wfs_length [OF w] by (simp add: insert_pos_def)
  obtain ks' cs' fr1 i where d: "descend_insert fr ks cs key = (ks', cs', fr1, i)"
    by (cases "descend_insert fr ks cs key") auto
  obtain c' fr2 where ins: "node_insert_nonfull fr1 (cs' ! i) key v = (c', fr2)"
    by (cases "node_insert_nonfull fr1 (cs' ! i) key v") auto
  have notie: "num_keys (cs ! insert_pos key ks) = MAX_KEYS \<Longrightarrow> mid_key (cs ! insert_pos key ks) \<noteq> key"
    "\<not> node_tie fr1 (cs' ! i) key"
    using "2.prems"(5) pos d by (auto simp: node_tie.simps Let_def)
  obtain ks1 ks2 cs1 c cs2 l u where *: "cs' = cs1 @ c # cs2" "i = length cs1"
    "wf_node h' l u c" "lo_le l key" "lt_hi u key" "num_keys c < MAX_KEYS"
    by (rule descend_insert_cases [OF w "2.prems"(3,4) d notie(1)]) blast
  have ci: "cs' ! i = c" using *(1,2) by (simp add: nth_append)
  have "chain_step fr1 fr2 (leaves_of c) (leaves_of c')"
    using "2.IH" [OF pos d [symmetric] refl refl, of h' l u c' fr2] * ci notie ins by simp
  then have "chain_step fr1 fr2 (concat (map leaves_of cs')) (concat (map leaves_of (cs1 @ c' # cs2)))"
    using chain_step_context *(1) by simp
  moreover have "n' = Inner ks' (cs1 @ c' # cs2)" "fr' = fr2"
    using "2.prems"(6) pos d ins *(1,2) by (simp_all add: node_insert_nonfull.simps list_update_append)
  ultimately show ?case
    using chain_step_trans [OF descend_insert_chain [OF w d]] by simp
qed

section \<open>The tree\<close>

definition btree_inv :: "kanbudb_btree \<Rightarrow> bool" where
  "btree_inv bt \<longleftrightarrow>
     wf_node (height (root bt)) None None (root bt) \<and>
     seg (leftmost (root bt)) (leaves_of (root bt)) None \<and>
     distinct (map laddr (leaves_of (root bt))) \<and>
     (\<forall>l\<in>set (leaves_of (root bt)). laddr l < next_addr bt)"

abbreviation btree_kvs :: "kanbudb_btree \<Rightarrow> kv list" where
  "btree_kvs bt \<equiv> kvs_of (root bt)"

definition btree_tie :: "kanbudb_btree \<Rightarrow> bytes \<Rightarrow> bool" where
  "btree_tie bt key = (let bt' = grow_root bt in node_tie (next_addr bt') (root bt') key)"

lemma bounds_None [simp]: "lo_le None k" "lt_hi None k" "bounds_ok None hi" "bounds_ok lo None"
  by (auto simp: bound_defs split: option.splits)

lemma foldr_max_const:
  "\<forall>c\<in>set cs. height c = h \<Longrightarrow> cs \<noteq> [] \<Longrightarrow> foldr (\<lambda>c m. max (height c) m) cs 0 = h"
proof (induction cs)
  case (Cons c cs)
  then show ?case by (cases cs) auto
qed simp

lemma wf_node_height: "wf_node h lo hi t \<Longrightarrow> height t = h"
proof (induction h arbitrary: lo hi t)
  case 0
  then show ?case by (cases t) auto
next
  case (Suc h)
  then obtain ks cs where t: "t = Inner ks cs" and w: "wfs (wf_node h) lo ks cs hi"
    by (cases t) auto
  have "\<forall>c\<in>set cs. height c = h"
    using w by (induction "wf_node h" lo ks cs hi rule: wfs.induct) (auto dest: Suc.IH)
  moreover have "cs \<noteq> []" using wfs_length [OF w] by auto
  ultimately have "foldr (\<lambda>c m. max (height c) m) cs 0 = h" by (rule foldr_max_const)
  with t show ?case by simp
qed

lemma wf_node_leaves:
  "wf_node h lo hi t \<Longrightarrow> leaves_of t \<noteq> [] \<and> leftmost t = Some (laddr (hd (leaves_of t))) \<and>
     concat (map entries (leaves_of t)) = kvs_of t"
proof (induction h arbitrary: lo hi t)
  case 0
  then show ?case by (cases t) (auto simp: leftmost.simps)
next
  case (Suc h)
  then obtain ks cs where t: "t = Inner ks cs" and w: "wfs (wf_node h) lo ks cs hi"
    by (cases t) auto
  have all: "\<forall>c\<in>set cs. \<exists>l u. wf_node h l u c"
    using w by (induction "wf_node h" lo ks cs hi rule: wfs.induct) auto
  then have "concat (map entries (concat (map leaves_of cs))) = concat (map kvs_of cs)"
    by (induction cs) (auto dest: Suc.IH)
  moreover obtain c cs' where cs: "cs = c # cs'" using wfs_length [OF w] by (cases cs) auto
  moreover have "leaves_of c \<noteq> []" "leftmost c = Some (laddr (hd (leaves_of c)))"
    using Suc.IH all cs by auto
  ultimately show ?case using t by (simp add: leftmost.simps)
qed

text \<open>With one unit of fuel per leaf the walk along the chain ends and collects every pair.\<close>

lemma find_laddr:
  "distinct (map laddr ls) \<Longrightarrow> l \<in> set ls \<Longrightarrow> find (\<lambda>x. laddr x = laddr l) ls = Some l"
  by (induction ls) (auto simp: image_iff)

lemma chain_collect_seg:
  assumes "distinct (map laddr ls)" and "set xs \<subseteq> set ls" and "seg a xs None" and "length xs \<le> fuel"
  shows "chain_collect fuel ls a = Some (concat (map entries xs))"
  using assms(2-4)
proof (induction xs arbitrary: a fuel)
  case Nil
  then show ?case by simp
next
  case (Cons x xs)
  then obtain f where "fuel = Suc f" by (cases fuel) auto
  then show ?case using Cons find_laddr [OF assms(1), of x] by simp
qed

lemma chain_collect_leaves:
  assumes "btree_inv bt"
  shows "chain_collect (length (leaves_of (root bt))) (leaves_of (root bt)) (leftmost (root bt))
    = Some (btree_kvs bt)"
  using assms chain_collect_seg [of "leaves_of (root bt)" "leaves_of (root bt)" "leftmost (root bt)"]
    wf_node_leaves [of _ None None "root bt"]
  by (auto simp: btree_inv_def)

lemma btree_create_inv: "btree_inv btree_create \<and> btree_kvs btree_create = []"
  by (simp add: btree_inv_def btree_create_def leftmost.simps)

lemma btree_invI:
  assumes "wf_node h None None t" and "seg (leftmost t) (leaves_of t) None"
    and "distinct (map laddr (leaves_of t))" and "\<forall>l\<in>set (leaves_of t). laddr l < fr"
  shows "btree_inv \<lparr>root = t, next_addr = fr\<rparr>"
  using assms wf_node_height [OF assms(1)] by (simp add: btree_inv_def)

text \<open>A chain step on the leaves, with the shape invariant of the result, is the whole invariant.\<close>

lemma btree_inv_step:
  assumes inv: "btree_inv bt" and c: "chain_step (next_addr bt) fr (leaves_of (root bt)) (leaves_of t)"
    and w: "wf_node h None None t"
  shows "btree_inv \<lparr>root = t, next_addr = fr\<rparr>"
proof -
  let ?a = "leftmost (root bt)"
  have s: "seg ?a (leaves_of t) None" and d: "distinct (map laddr (leaves_of t))"
    and le: "next_addr bt \<le> fr"
    and sub: "laddr ` set (leaves_of t) \<subseteq> laddr ` set (leaves_of (root bt)) \<union> {next_addr bt..<fr}"
    using inv c by (auto simp: btree_inv_def chain_step_def)
  have "?a = leftmost t"
    using s wf_node_leaves [OF w] by (cases "leaves_of t") auto
  moreover have "laddr l < fr" if "l \<in> set (leaves_of t)" for l
    using that sub inv le by (fastforce simp: btree_inv_def)
  ultimately show ?thesis using btree_invI [OF w] s d by simp
qed

lemma grow_root_correct:
  assumes "btree_inv bt"
  shows "btree_inv (grow_root bt) \<and> btree_kvs (grow_root bt) = btree_kvs bt \<and>
         num_keys (root (grow_root bt)) < MAX_KEYS"
proof (cases "num_keys (root bt) = MAX_KEYS")
  case False
  then show ?thesis
    using assms wf_node_num_keys [of "height (root bt)" None None "root bt"]
    by (auto simp: grow_root_def btree_inv_def)
next
  case True
  let ?fr = "Suc (next_addr bt)" and ?h = "height (root bt)"
  obtain c1 m c2 where sp: "split_node ?fr (root bt) = (c1, m, c2)" by (cases "split_node ?fr (root bt)")
  have w: "wf_node ?h None None (root bt)" using assms by (simp add: btree_inv_def)
  note sc = split_node_correct [OF w True sp]
  have g: "grow_root bt = \<lparr>root = Inner [m] [c1, c2], next_addr = Suc ?fr\<rparr>"
    using True sp by (simp add: grow_root_def split_child_def insert_at_def)
  have "chain_step ?fr (Suc ?fr) (leaves_of (root bt)) (leaves_of (Inner [m] [c1, c2]))"
    using split_node_chain [OF w True sp] by simp
  moreover have "btree_inv (bt\<lparr>next_addr := ?fr\<rparr>)"
    using assms by (auto simp: btree_inv_def less_Suc_eq)
  moreover have "wf_node (Suc ?h) None None (Inner [m] [c1, c2])"
    using sc by (simp add: btree_consts)
  ultimately have "btree_inv (grow_root bt)"
    unfolding g
    using btree_inv_step [of "bt\<lparr>next_addr := ?fr\<rparr>" "Suc ?fr" "Inner [m] [c1, c2]" "Suc ?h"] by simp
  then show ?thesis using sc g by (simp add: btree_consts)
qed

lemma btree_put_correct:
  assumes "btree_inv bt" and "\<not> btree_tie bt key"
  shows "btree_inv (btree_put bt key v) \<and> btree_kvs (btree_put bt key v) = upd_list key v (btree_kvs bt)"
proof -
  let ?b = "grow_root bt"
  note g = grow_root_correct [OF assms(1)]
  have w: "wf_node (height (root ?b)) None None (root ?b)" using g by (simp add: btree_inv_def)
  have t: "\<not> node_tie (next_addr ?b) (root ?b) key" using assms(2) by (simp add: btree_tie_def Let_def)
  obtain r fr where i: "node_insert_nonfull (next_addr ?b) (root ?b) key v = (r, fr)"
    by (cases "node_insert_nonfull (next_addr ?b) (root ?b) key v")
  have p: "btree_put bt key v = \<lparr>root = r, next_addr = fr\<rparr>"
    using i by (simp add: btree_put_def Let_def)
  have "wf_node (height (root ?b)) None None r" and k: "kvs_of r = upd_list key v (btree_kvs ?b)"
    using node_insert_correct [OF w _ _ _ t i] g by simp_all
  moreover have "chain_step (next_addr ?b) fr (leaves_of (root ?b)) (leaves_of r)"
    using node_insert_chain [OF w _ _ _ t i] g by simp
  ultimately have "btree_inv (btree_put bt key v)"
    unfolding p using btree_inv_step g by blast
  with k p g show ?thesis by simp
qed

lemma btree_get_correct: "btree_inv bt \<Longrightarrow> btree_get bt key = map_of (btree_kvs bt) key"
  using node_search_correct [of "height (root bt)" None None "root bt" key]
  by (simp add: btree_inv_def btree_get_def)

lemma btree_sorted: "btree_inv bt \<Longrightarrow> ssorted (keys_of (btree_kvs bt))"
  using wf_node_sorted by (auto simp: btree_inv_def)

interpretation bt: keyed_store btree_get btree_put btree_inv "\<lambda>bt k. \<not> btree_tie bt k"
  by unfold_locales
    (auto simp: fun_eq_iff btree_get_correct btree_put_correct map_of_upd_list)

text \<open>Deletion touches no address and no \<^verbatim>\<open>next\<close> pointer.\<close>

lemma node_delete_links:
  "map (\<lambda>l. (laddr l, leaf_next l)) (leaves_of (fst (node_delete n key)))
     = map (\<lambda>l. (laddr l, leaf_next l)) (leaves_of n)"
proof (induction n key rule: node_delete.induct)
  case (1 a kvs nx key)
  then show ?case by (simp add: node_delete.simps split: prod.splits)
next
  case (2 ks cs key)
  let ?i = "search_pos key ks"
  show ?case
  proof (cases "?i < length cs")
    case True
    then have cs: "cs = take ?i cs @ cs ! ?i # drop (Suc ?i) cs" by (rule id_take_nth_drop)
    obtain c rc where d: "node_delete (cs ! ?i) key = (c, rc)" by (cases "node_delete (cs ! ?i) key")
    have "fst (node_delete (Inner ks cs) key) = Inner ks (take ?i cs @ c # drop (Suc ?i) cs)"
      using True d by (simp add: node_delete.simps Let_def upd_conv_take_nth_drop)
    moreover have "leaves_of (Inner ks cs) =
        concat (map leaves_of (take ?i cs)) @ leaves_of (cs ! ?i) @ concat (map leaves_of (drop (Suc ?i) cs))"
      by (metis cs concat.simps(2) concat_append leaves_of.simps(2) list.map(2) map_append)
    ultimately show ?thesis using "2" [OF refl True] d by simp
  qed (simp add: node_delete.simps Let_def)
qed

lemma seg_links:
  "map (\<lambda>l. (laddr l, leaf_next l)) xs = map (\<lambda>l. (laddr l, leaf_next l)) ys \<Longrightarrow> seg a xs n = seg a ys n"
  by (induction xs ys arbitrary: a rule: list_induct2') auto

lemma btree_delete_correct:
  assumes "btree_inv bt" and "btree_delete bt key = (bt', rc)"
  shows "btree_inv bt' \<and> btree_kvs bt' = del_list key (btree_kvs bt) \<and>
         rc = (if key \<in> fst ` set (btree_kvs bt) then KANBUDB_OK else KANBUDB_ERR_NOTFOUND)"
proof -
  obtain r where d: "node_delete (root bt) key = (r, rc)" and b: "bt' = bt\<lparr>root := r\<rparr>"
    using assms(2) by (auto simp: btree_delete_def split: prod.splits)
  have l: "map (\<lambda>l. (laddr l, leaf_next l)) (leaves_of r) = map (\<lambda>l. (laddr l, leaf_next l)) (leaves_of (root bt))"
    using node_delete_links [of "root bt" key] d by simp
  from arg_cong [OF l, of "map fst"] have a: "map laddr (leaves_of r) = map laddr (leaves_of (root bt))"
    by (simp add: o_def)
  from arg_cong [OF a, of set] have img: "laddr ` set (leaves_of r) = laddr ` set (leaves_of (root bt))"
    by simp
  have "chain_step (next_addr bt) (next_addr bt) (leaves_of (root bt)) (leaves_of r)"
    using a img seg_links [OF l] by (simp add: chain_step_def)
  moreover note node_delete_correct [of "height (root bt)" None None "root bt" key r rc]
  ultimately show ?thesis
    using assms(1) d b btree_inv_step [OF assms(1), of "next_addr bt" r "height (root bt)"]
    by (simp add: btree_inv_def)
qed

section \<open>Building and scanning\<close>

text \<open>
  Keys that go in ascending order never meet a tie: a split separator is a key already in
  the tree, and every such key is below the new one. The bulk load is therefore correct.
\<close>

fun all_seps :: "btree_node \<Rightarrow> bytes set" where
  "all_seps (Leaf a kvs nx) = fst ` set kvs"
| "all_seps (Inner ks cs) = set ks \<union> \<Union> (set (map all_seps cs))"

lemma split_node_seps:
  assumes "split_node fr c = (c1, m, c2)" and "num_keys c = MAX_KEYS"
  shows "all_seps c1 \<union> {m} \<union> all_seps c2 \<subseteq> all_seps c"
proof (cases c)
  case (Leaf a kvs nx)
  then show ?thesis
    using assms by (fastforce simp: btree_consts Let_def dest: in_set_takeD in_set_dropD)
next
  case (Inner ks cs)
  then show ?thesis
    using assms by (fastforce simp: btree_consts Let_def dest: in_set_takeD in_set_dropD)
qed

lemma descend_insert_seps:
  assumes "descend_insert fr ks cs key = (ks', cs', fr', i)" and "insert_pos key ks < length cs"
  shows "all_seps (Inner ks' cs') \<subseteq> all_seps (Inner ks cs) \<and> i < length cs'"
proof -
  let ?i = "insert_pos key ks"
  obtain c1 m c2 where sp: "split_node fr (cs ! ?i) = (c1, m, c2)" by (cases "split_node fr (cs ! ?i)")
  show ?thesis
  proof (cases "num_keys (cs ! ?i) = MAX_KEYS")
    case True
    have "set (cs[?i := c1]) \<subseteq> insert c1 (set cs)" by (rule set_update_subset_insert)
    moreover have "cs ! ?i \<in> set cs" using assms(2) by simp
    moreover note split_node_seps [OF sp True]
    ultimately have "all_seps (Inner ks' cs') \<subseteq> all_seps (Inner ks cs)"
      using assms(1) True sp
      by (fastforce simp: descend_insert_def split_child_def Let_def set_insert_at)
    moreover have "length cs' = Suc (length cs)" "i \<le> Suc ?i"
      using assms True sp by (auto simp: descend_insert_def split_child_def Let_def insert_at_def)
    ultimately show ?thesis using assms(2) by simp
  next
    case False
    then show ?thesis using assms by (auto simp: descend_insert_def Let_def)
  qed
qed

lemma num_keys_mid: "num_keys c = MAX_KEYS \<Longrightarrow> mid_key c \<in> all_seps c"
  by (cases c) (auto simp: btree_consts)

lemma node_tie_seps: "node_tie fr n key \<Longrightarrow> key \<in> all_seps n"
proof (induction fr n key rule: node_tie.induct)
  case (2 fr ks cs key)
  from "2.prems" have pos: "insert_pos key ks < length cs" by (simp add: node_tie.simps split: if_splits)
  obtain ks' cs' fr1 i where d: "descend_insert fr ks cs key = (ks', cs', fr1, i)"
    by (cases "descend_insert fr ks cs key") auto
  let ?c = "cs ! insert_pos key ks"
  from "2.prems" pos d consider (here) "num_keys ?c = MAX_KEYS" "mid_key ?c = key"
    | (below) "node_tie fr1 (cs' ! i) key"
    by (auto simp: node_tie.simps Let_def)
  then show ?case
  proof cases
    case here
    then show ?thesis using num_keys_mid [of ?c] pos by (auto intro!: bexI [of _ ?c])
  next
    case below
    note s = descend_insert_seps [OF d pos]
    have "key \<in> all_seps (cs' ! i)" using "2.IH" [OF pos refl d [symmetric] refl refl] below by simp
    then have "key \<in> all_seps (Inner ks' cs')" using s by (auto intro!: bexI [of _ "cs' ! i"])
    with s show ?thesis by blast
  qed
qed (simp add: node_tie.simps)

lemma btree_tie_seps: "btree_tie bt key \<Longrightarrow> key \<in> all_seps (root bt)"
proof -
  assume "btree_tie bt key"
  then have k: "key \<in> all_seps (root (grow_root bt))"
    using node_tie_seps by (auto simp: btree_tie_def Let_def)
  obtain c1 m c2 where sp: "split_node (Suc (next_addr bt)) (root bt) = (c1, m, c2)"
    by (cases "split_node (Suc (next_addr bt)) (root bt)")
  show ?thesis
    using k split_node_seps [OF sp]
    by (auto simp: grow_root_def split_child_def sp insert_at_def split: if_splits)
qed

lemma leaf_insert_keys: "fst ` set (leaf_insert key v kvs) \<subseteq> insert key (fst ` set kvs)"
proof -
  have "fst ` set (kvs[j := (fst (kvs ! j), v)]) \<subseteq> fst ` set kvs" if "j < length kvs" for j
    using that set_update_subset_insert [of kvs j "(fst (kvs ! j), v)"] by fastforce
  then show ?thesis by (auto simp: leaf_insert_def Let_def set_insert_at)
qed

lemma node_insert_seps:
  "all_seps (fst (node_insert_nonfull fr n key v)) \<subseteq> insert key (all_seps n)"
proof (induction fr n key v rule: node_insert_nonfull.induct)
  case (1 fr a kvs nx key v)
  then show ?case using leaf_insert_keys by (simp add: node_insert_nonfull.simps)
next
  case (2 fr ks cs key v)
  show ?case
  proof (cases "insert_pos key ks < length cs")
    case True
    obtain ks' cs' fr1 i where d: "descend_insert fr ks cs key = (ks', cs', fr1, i)"
      by (cases "descend_insert fr ks cs key") auto
    obtain c fr2 where ins: "node_insert_nonfull fr1 (cs' ! i) key v = (c, fr2)"
      by (cases "node_insert_nonfull fr1 (cs' ! i) key v") auto
    note s = descend_insert_seps [OF d True]
    have "all_seps c \<subseteq> insert key (all_seps (cs' ! i))"
      using "2.IH" [OF True d [symmetric] refl refl] ins by simp
    moreover have "cs' ! i \<in> set cs'" using s by simp
    moreover have "set (cs'[i := c]) \<subseteq> insert c (set cs')" by (rule set_update_subset_insert)
    ultimately have "all_seps (Inner ks' (cs'[i := c])) \<subseteq> insert key (all_seps (Inner ks' cs'))"
      by fastforce
    then show ?thesis
      using s True d ins by (auto simp: node_insert_nonfull.simps simp del: all_seps.simps)
  qed (auto simp: node_insert_nonfull.simps)
qed

lemma btree_put_seps: "all_seps (root (btree_put bt key v)) \<subseteq> insert key (all_seps (root bt))"
proof -
  obtain c1 m c2 where sp: "split_node (Suc (next_addr bt)) (root bt) = (c1, m, c2)"
    by (cases "split_node (Suc (next_addr bt)) (root bt)")
  have "all_seps (root (grow_root bt)) \<subseteq> all_seps (root bt)"
    using split_node_seps [OF sp]
    by (auto simp: grow_root_def split_child_def sp insert_at_def)
  then show ?thesis
    using node_insert_seps [of "next_addr (grow_root bt)" "root (grow_root bt)" key v]
    by (auto simp: btree_put_def Let_def split: prod.splits)
qed

text \<open>A key the tree has never held, as a key or as a separator, cannot meet a tie.\<close>

lemma build_oks:
  assumes "distinct (keys_of ps)" and "set (keys_of ps) \<inter> all_seps (root bt) = {}"
  shows "bt.oks bt ps"
  using assms
proof (induction ps arbitrary: bt)
  case (Cons p ps)
  let ?b = "btree_put bt (fst p) (snd p)"
  have "fst p \<notin> all_seps (root bt)" using Cons.prems(2) by simp
  then have "\<not> btree_tie bt (fst p)" using btree_tie_seps by blast
  moreover have "set (keys_of ps) \<inter> all_seps (root ?b) = {}"
  proof (rule disjoint_grow)
    show "all_seps (root ?b) \<subseteq> {fst p} \<union> all_seps (root bt)" using btree_put_seps by simp
    show "set (keys_of ps) \<inter> {fst p} = {}" using Cons.prems(1) by simp
    show "set (keys_of ps) \<inter> all_seps (root bt) = {}" using Cons.prems(2) by simp
  qed
  moreover have "distinct (keys_of ps)" using Cons.prems(1) by simp
  ultimately show ?case using Cons.IH [of ?b] by simp
qed simp

lemma build_put_all: "btree_build_sorted bt ps = bt.put_all bt ps"
  by (induction ps arbitrary: bt) auto

lemma create_seps: "all_seps (root btree_create) = {}"
  by (simp add: btree_create_def)

lemma build_kvs:
  assumes "btree_inv bt" and "bt.oks bt ps" and "ssorted (keys_of (btree_kvs bt @ ps))"
  shows "btree_kvs (btree_build_sorted bt ps) = btree_kvs bt @ ps"
  using assms
proof (induction ps arbitrary: bt)
  case (Cons p ps)
  have "\<forall>q\<in>set (btree_kvs bt). fst q < fst p" using Cons.prems by (auto simp: sorted_wrt_append)
  then have "upd_list (fst p) (snd p) (btree_kvs bt) = btree_kvs bt @ [p]"
    using upd_list_append_right [of "btree_kvs bt" "fst p" "snd p" "[]"] by simp
  with Cons show ?case using btree_put_correct [OF Cons.prems(1), of "fst p" "snd p"] by simp
qed simp

section \<open>The cursor\<close>

lemma cursor_create_kvs:
  "btree_inv bt \<Longrightarrow> btree_cursor_create bt = Some \<lparr>items = btree_kvs bt, pos = 0\<rparr>"
  by (simp add: btree_cursor_create_def Let_def chain_collect_leaves)

text \<open>The binary search stops at the first item whose key is not below the one sought.\<close>

lemma seek_loop_correct:
  assumes "ssorted (keys_of xs)" and "0 \<le> lo" and "hi < int (length xs)" and "lo \<le> hi + 1"
    and "\<forall>i < nat lo. fst (xs ! i) < key"
    and "\<forall>i. hi < int i \<and> i < length xs \<longrightarrow> key < fst (xs ! i)"
  shows "seek_loop xs key lo hi = int (length (takeWhile (\<lambda>p. fst p < key) xs))"
  using assms
proof (induction xs key lo hi rule: seek_loop.induct)
  case (1 xs key lo hi)
  let ?mid = "(lo + hi) div 2"
  show ?case
  proof (cases "lo \<le> hi")
    case False
    then have "length (takeWhile (\<lambda>p. fst p < key) xs) = nat lo"
      using "1.prems" by (intro length_takeWhileI) (auto dest: less_imp_not_less)
    then show ?thesis using False "1.prems"(2) by (simp add: seek_loop.simps)
  next
    case True
    then have m: "lo \<le> ?mid" "?mid \<le> hi" by auto
    let ?k = "fst (xs ! nat ?mid)"
    have below: "fst (xs ! i) < ?k" if "int i < ?mid" for i
      using ssorted_keys_nth_less [OF "1.prems"(1), of i "nat ?mid"] that m "1.prems"(2,3) by simp
    have above: "?k < fst (xs ! i)" if "?mid < int i" "i < length xs" for i
      using ssorted_keys_nth_less [OF "1.prems"(1), of "nat ?mid" i] that m "1.prems"(2) by simp
    consider (eq) "key = ?k" | (lt) "key < ?k" | (gt) "?k < key" by force
    then show ?thesis
    proof cases
      case eq
      have "length (takeWhile (\<lambda>p. fst p < key) xs) = nat ?mid"
        using eq below m "1.prems"(2,3) by (intro length_takeWhileI) auto
      then show ?thesis using True eq m "1.prems"(2) by (simp add: seek_loop.simps cmp_simps)
    next
      case lt
      have "\<forall>i. ?mid - 1 < int i \<and> i < length xs \<longrightarrow> key < fst (xs ! i)"
      proof (intro allI impI)
        fix i assume i: "?mid - 1 < int i \<and> i < length xs"
        show "key < fst (xs ! i)"
        proof (cases "int i = ?mid")
          case True
          then show ?thesis using lt by (metis nat_int)
        next
          case False
          then have "?k < fst (xs ! i)" using i above by simp
          with lt show ?thesis by (rule less_trans)
        qed
      qed
      moreover have "key \<noteq> ?k" using lt by simp
      ultimately show ?thesis
        using "1.IH"(1) [OF True refl refl] True lt m "1.prems" by (simp add: seek_loop.simps [of xs key lo hi] cmp_simps Let_def)
    next
      case gt
      have "\<forall>i < nat (?mid + 1). fst (xs ! i) < key"
      proof (intro allI impI)
        fix i assume i: "i < nat (?mid + 1)"
        show "fst (xs ! i) < key"
        proof (cases "int i = ?mid")
          case True
          then show ?thesis using gt by (metis nat_int)
        next
          case False
          then have "fst (xs ! i) < ?k" using i below by simp
          then show ?thesis using gt by (rule less_trans)
        qed
      qed
      moreover have "key \<noteq> ?k" "\<not> key < ?k" using gt by auto
      ultimately show ?thesis
        using "1.IH"(2) [OF True refl refl] True gt m "1.prems" by (simp add: seek_loop.simps [of xs key lo hi] cmp_simps Let_def)
    qed
  qed
qed

text \<open>The loop a client writes around \<^verbatim>\<open>btree_cursor_next\<close>: read until it reports the end.\<close>

function cursor_drain :: "btree_cursor \<Rightarrow> kv list" where
  "cursor_drain cur = (case btree_cursor_next cur of None \<Rightarrow> [] | Some (p, cur') \<Rightarrow> p # cursor_drain cur')"
  by pat_completeness auto
termination
  by (relation "measure (\<lambda>cur. length (items cur) - pos cur)")
    (auto simp: btree_cursor_next_def split: if_splits)

declare cursor_drain.simps [simp del]

lemma cursor_drain_drop: "cursor_drain cur = drop (pos cur) (items cur)"
proof (induction cur rule: cursor_drain.induct)
  case (1 cur)
  then show ?case
    by (subst cursor_drain.simps)
      (auto simp: btree_cursor_next_def Cons_nth_drop_Suc split: if_splits option.splits)
qed

lemma drop_takeWhile_filter:
  "ssorted (keys_of xs) \<Longrightarrow>
     drop (length (takeWhile (\<lambda>p. fst p < key) xs)) xs = filter (\<lambda>p. key \<le> fst p) xs"
proof (induction xs)
  case (Cons x xs)
  show ?case
  proof (cases "fst x < key")
    case False
    then have "\<forall>p\<in>set xs. key \<le> fst p" using Cons.prems by (auto simp: not_less)
    with False show ?thesis by (simp add: not_less)
  qed (use Cons in auto)
qed simp

lemma cursor_seek_drain:
  assumes "ssorted (keys_of (items cur))"
  shows "cursor_drain (btree_cursor_seek cur (Some key)) = filter (\<lambda>p. key \<le> fst p) (items cur)"
proof -
  have "seek_loop (items cur) key 0 (int (length (items cur)) - 1)
      = int (length (takeWhile (\<lambda>p. fst p < key) (items cur)))"
    by (rule seek_loop_correct [OF assms]) auto
  then show ?thesis
    using drop_takeWhile_filter [OF assms] by (simp add: cursor_drain_drop btree_cursor_seek_def)
qed

section \<open>Properties\<close>

text \<open>
  C4. Insertion refines the update of a sorted association list: on a well-formed tree,
  if no node on the path is split at exactly the inserted key, \<^verbatim>\<open>btree_put\<close> keeps the tree
  well formed (order, occupancy, equal depth, intact leaf chain), changes its contents by
  one \<^term>\<open>upd_list\<close>, and a later \<^verbatim>\<open>btree_get\<close> sees the new value under the key and the old
  values elsewhere.
\<close>

theorem btree_put_refines:
  assumes "btree_inv bt" and "\<not> btree_tie bt key"
  shows "btree_inv (btree_put bt key v) \<and>
         btree_kvs (btree_put bt key v) = upd_list key v (btree_kvs bt) \<and>
         (\<forall>k. btree_get (btree_put bt key v) k = (if k = key then Some v else btree_get bt k))"
  using btree_put_correct [OF assms] bt.put_get [OF assms, of v] by simp

theorem btree_put_refines_witness:
  "btree_get (btree_put btree_create [1] [2]) [1] = Some [2]"
proof -
  have "\<not> btree_tie btree_create [1]" using btree_tie_seps create_seps by blast
  from btree_put_refines [OF conjunct1 [OF btree_create_inv] this, of "[2]"] show ?thesis by simp
qed

text \<open>
  C15. Deletion refines deletion from the sorted list: \<^verbatim>\<open>btree_delete\<close> always keeps the tree
  well formed, removes exactly the key, and returns \<^verbatim>\<open>KANBUDB_ERR_NOTFOUND\<close> exactly when
  the key was absent.
\<close>

theorem btree_delete_refines:
  assumes "btree_inv bt" and "btree_delete bt key = (bt', rc)"
  shows "btree_inv bt' \<and> btree_kvs bt' = del_list key (btree_kvs bt) \<and>
         (\<forall>k. btree_get bt' k = (if k = key then None else btree_get bt k)) \<and>
         rc = (if btree_get bt key = None then KANBUDB_ERR_NOTFOUND else KANBUDB_OK)"
  using btree_delete_correct [OF assms] btree_sorted [OF assms(1)] assms(1)
  by (auto simp: btree_get_correct map_of_del_list map_of_eq_None_iff)

theorem btree_delete_refines_witness:
  "btree_inv (fst (btree_delete btree_create [1])) \<and>
   snd (btree_delete btree_create [1]) = KANBUDB_ERR_NOTFOUND"
  using btree_delete_refines [OF conjunct1 [OF btree_create_inv], of "[1]"]
    btree_get_correct [OF conjunct1 [OF btree_create_inv], of "[1]"] btree_create_inv
  by (metis map_of.simps(1) prod.collapse)

text \<open>
  A tree built by any sequence of insertions with distinct keys, in any order, is well
  formed and answers every lookup with the value inserted under that key, or with nothing.
\<close>

theorem btree_build_lookup:
  assumes "distinct (keys_of ps)"
  shows "btree_inv (btree_build_sorted btree_create ps) \<and>
         (\<forall>k. btree_get (btree_build_sorted btree_create ps) k = map_of ps k)"
proof -
  have ok: "bt.oks btree_create ps" using build_oks [OF assms] create_seps by simp
  have "map_of (rev ps) = map_of ps" by (rule map_of_rev_distinct [OF assms])
  then show ?thesis
    using bt.put_all_inv [OF conjunct1 [OF btree_create_inv] ok]
      bt.put_all_get [OF conjunct1 [OF btree_create_inv] ok]
      btree_create_inv btree_get_correct [OF conjunct1 [OF btree_create_inv]]
    by (auto simp: build_put_all map_add_def split: option.splits)
qed

theorem btree_build_lookup_witness:
  "btree_get (btree_build_sorted btree_create [([2], [20]), ([1], [10])]) [1] = Some [10]"
  using btree_build_lookup [of "[([2], [20]), ([1], [10])]"] by simp

text \<open>
  A range scan is complete and ordered: the cursor of a well-formed tree can be
  created, and after seeking a key, reading until the end yields exactly the pairs whose
  key is at least the one sought, in ascending order.
\<close>

theorem btree_scan_from:
  assumes "btree_inv bt"
  shows "\<exists>cur. btree_cursor_create bt = Some cur \<and>
           cursor_drain cur = btree_kvs bt \<and> ssorted (keys_of (btree_kvs bt)) \<and>
           cursor_drain (btree_cursor_seek cur (Some key)) = filter (\<lambda>p. key \<le> fst p) (btree_kvs bt)"
  using cursor_create_kvs [OF assms] btree_sorted [OF assms]
    cursor_seek_drain [of "\<lparr>items = btree_kvs bt, pos = 0\<rparr>" key]
  by (simp add: cursor_drain_drop)

theorem btree_scan_from_witness:
  "\<exists>cur. btree_cursor_create btree_create = Some cur \<and> cursor_drain cur = []"
  using btree_scan_from [OF conjunct1 [OF btree_create_inv]] btree_create_inv by metis

text \<open>
  The hypothesis of the insertion theorem is needed: after 24 ascending insertions the
  right-most leaf is full with separator key 16 in its middle, and overwriting that key
  puts the new value into the left half, where no search looks; the old value is still
  read back.
\<close>

definition tie_tree :: kanbudb_btree where
  "tie_tree = btree_build_sorted btree_create (map (\<lambda>i. ([word_of_nat i], [0])) [0..<24])"

theorem btree_put_tie_loses_update:
  "btree_get tie_tree [16] = Some [0] \<and>
   btree_get (btree_put tie_tree [16] [7]) [16] = Some [0]"
  by code_simp

end
