(* ===== verification/Wal.thy ===== *)
theory Wal
  imports Prelude "HOL-Library.Code_Target_Nat"
begin

text \<open>
  The write-ahead log of \<^verbatim>\<open>src/src/storage/wal.c\<close>, in its portable build (the stdio path;
  the optional \<^verbatim>\<open>io_uring\<close> path is compiled in only with \<^verbatim>\<open>KANBUDB_HAVE_IOURING\<close>). The state
  keeps three places where a record can be: the 64 KB write buffer of the log, the buffer
  of the \<^verbatim>\<open>FILE*\<close>, and the file itself. The environment decides how many bytes an \<^verbatim>\<open>fwrite\<close>
  takes: the parameter \<open>io\<close> maps the bytes offered to that number.
\<close>

section \<open>State\<close>

datatype fsync_mode = KANBUDB_FSYNC_NONE | KANBUDB_FSYNC_PERIODIC | KANBUDB_FSYNC_ALWAYS

datatype wal_op = KANBUDB_WAL_PUT | KANBUDB_WAL_DELETE

definition KANBUDB_WAL_MAGIC :: u64 where "KANBUDB_WAL_MAGIC = 0x4845524D4553"
definition KANBUDB_WAL_VERSION :: u32 where "KANBUDB_WAL_VERSION = 1"
definition KANBUDB_WAL_PERIODIC_THRESHOLD :: nat where "KANBUDB_WAL_PERIODIC_THRESHOLD = 1000"
definition KANBUDB_WAL_BUF_SIZE :: nat where "KANBUDB_WAL_BUF_SIZE = 65536"

lemmas wal_consts = KANBUDB_WAL_MAGIC_def KANBUDB_WAL_VERSION_def
  KANBUDB_WAL_PERIODIC_THRESHOLD_def KANBUDB_WAL_BUF_SIZE_def

text \<open>The packed \<^verbatim>\<open>wal_header_t\<close>, 20 bytes.\<close>

definition wal_header :: "u64 \<Rightarrow> bytes" where
  "wal_header seq = put_u64 KANBUDB_WAL_MAGIC @ put_u32 KANBUDB_WAL_VERSION @ put_u64 seq"

definition wal_header_size :: nat where "wal_header_size = 20"

text \<open>
  A \<^verbatim>\<open>FILE*\<close> on the log: the bytes the operating system has, the bytes still in the stdio
  buffer, and whether the mode allows reading (\<^verbatim>\<open>"a+b"\<close> does, \<^verbatim>\<open>"wb"\<close> does not). Both modes
  write at the end of what has been written so far.
\<close>

record wal_file =
  on_disk :: bytes
  pending :: bytes
  readable :: bool

record kanbudb_wal =
  fsync_mode :: fsync_mode
  wseq :: u64
  file_pos :: u64
  periodic_count :: nat
  buf :: bytes
  wfile :: "wal_file option"

section \<open>The stdio calls\<close>

definition fwrite :: "(bytes \<Rightarrow> nat) \<Rightarrow> bytes \<Rightarrow> wal_file \<Rightarrow> wal_file \<times> bool" where
  "fwrite io bs f = (f\<lparr>pending := pending f @ take (io bs) bs\<rparr>, length bs \<le> io bs)"

definition fflush :: "wal_file \<Rightarrow> wal_file" where
  "fflush f = f\<lparr>on_disk := on_disk f @ pending f, pending := []\<rparr>"

definition fclose :: "wal_file \<Rightarrow> bytes" where
  "fclose f = on_disk (fflush f)"

section \<open>Records\<close>

text \<open>
  \<^verbatim>\<open>wal_serialize\<close>: \<open>None\<close> is the return value -1 (not enough room). The value pointer may be
  null; \<open>take\<close> is the \<^verbatim>\<open>memcpy\<close> of \<open>val_len\<close> bytes from it.
\<close>

definition wal_serialize ::
  "nat \<Rightarrow> u64 \<Rightarrow> wal_op \<Rightarrow> u64 \<Rightarrow> bytes \<Rightarrow> bytes option \<Rightarrow> nat \<Rightarrow> bytes option" where
  "wal_serialize cap seq op table_id key val val_len =
     (let op_u8 = (if op = KANBUDB_WAL_DELETE then 1 else 0 :: byte);
          needed = 8 + 1 + 8 + 8 + 8 + length key + (if op_u8 = 0 then val_len else 0)
      in if needed > cap then None
         else Some (put_u64 seq @ [op_u8] @ put_u64 table_id @
                put_u64 (word_of_nat (length key)) @ put_u64 (word_of_nat val_len) @ key @
                (case val of Some v \<Rightarrow> if op_u8 = 0 \<and> val_len > 0 then take val_len v else []
                 | None \<Rightarrow> [])))"

text \<open>One record as the reader sees it; the value is present only in a put.\<close>

record wal_entry =
  e_seq :: u64
  e_op :: byte
  e_table :: u64
  e_key :: bytes
  e_val_len :: u64
  e_value :: bytes

datatype wal_read = Wal_End | Wal_Corrupt | Wal_Record wal_entry bytes

definition wal_max_field :: u64 where "wal_max_field = 1048576"

text \<open>The body of the loop of \<^verbatim>\<open>wal_replay\<close>, up to the callback.\<close>

definition wal_read_body :: "u64 \<Rightarrow> byte \<Rightarrow> u64 \<Rightarrow> u64 \<Rightarrow> u64 \<Rightarrow> bytes \<Rightarrow> wal_read" where
  "wal_read_body seq op_u8 table_id key_len val_len bs =
     (if key_len > wal_max_field \<or> val_len > wal_max_field then Wal_Corrupt
      else case fread (unat key_len) bs of
        None \<Rightarrow> Wal_Corrupt
      | Some (key, bs') \<Rightarrow>
          if op_u8 = 0 \<and> val_len > 0 then
            (case fread (unat val_len) bs' of
               None \<Rightarrow> Wal_Corrupt
             | Some (v, bs'') \<Rightarrow>
                 Wal_Record \<lparr>e_seq = seq, e_op = op_u8, e_table = table_id, e_key = key,
                             e_val_len = val_len, e_value = v\<rparr> bs'')
          else Wal_Record \<lparr>e_seq = seq, e_op = op_u8, e_table = table_id, e_key = key,
                           e_val_len = val_len, e_value = []\<rparr> bs')"

definition wal_read_entry :: "bytes \<Rightarrow> wal_read" where
  "wal_read_entry bs =
     (case fread 8 bs of None \<Rightarrow> Wal_End | Some (s, bs) \<Rightarrow>
      (case fread 1 bs of None \<Rightarrow> Wal_End | Some (o1, bs) \<Rightarrow>
       (case fread 8 bs of None \<Rightarrow> Wal_End | Some (t, bs) \<Rightarrow>
        (case fread 8 bs of None \<Rightarrow> Wal_End | Some (kl, bs) \<Rightarrow>
         (case fread 8 bs of None \<Rightarrow> Wal_End | Some (vl, bs) \<Rightarrow>
          wal_read_body (get_u64 s) (hd o1) (get_u64 t) (get_u64 kl) (get_u64 vl) bs)))))"

lemma wal_read_body_shrinks:
  "wal_read_body s op1 t kl vl bs = Wal_Record e rest \<Longrightarrow> length rest \<le> length bs"
  by (auto simp: wal_read_body_def fread_def split: if_splits option.splits)

lemma wal_read_entry_shrinks: "wal_read_entry bs = Wal_Record e rest \<Longrightarrow> length rest < length bs"
  by (auto simp: wal_read_entry_def fread_def split: if_splits option.splits dest!: wal_read_body_shrinks)

section \<open>Operations\<close>

definition wal_flush_buf :: "(bytes \<Rightarrow> nat) \<Rightarrow> kanbudb_wal \<Rightarrow> kanbudb_wal \<times> rc" where
  "wal_flush_buf io wal =
     (if buf wal = [] then (wal, KANBUDB_OK)
      else case wfile wal of
        None \<Rightarrow> (wal, KANBUDB_OK)
      | Some f \<Rightarrow>
          (case fwrite io (buf wal) f of (f', ok) \<Rightarrow>
            if \<not> ok then (wal\<lparr>wfile := Some f'\<rparr>, KANBUDB_ERR_IO)
            else
              (let wal1 =
                 (if fsync_mode wal = KANBUDB_FSYNC_ALWAYS \<or>
                     fsync_mode wal = KANBUDB_FSYNC_PERIODIC \<and>
                     periodic_count wal \<ge> KANBUDB_WAL_PERIODIC_THRESHOLD
                  then wal\<lparr>wfile := Some (fflush f'), periodic_count := 0\<rparr>
                  else wal\<lparr>wfile := Some f'\<rparr>)
               in (wal1\<lparr>file_pos := file_pos wal + word_of_nat (length (buf wal)), buf := []\<rparr>,
                   KANBUDB_OK))))"

text \<open>
  \<^verbatim>\<open>wal_create\<close> on a file with the given content (empty when it did not exist); \<open>None\<close> is a
  null result. \<open>opened\<close> tells whether \<^verbatim>\<open>open\<close> and \<^verbatim>\<open>fopen\<close> succeed.
\<close>

definition wal_create_new :: "(bytes \<Rightarrow> nat) \<Rightarrow> fsync_mode \<Rightarrow> kanbudb_wal option" where
  "wal_create_new io mode =
     (let f0 = \<lparr>on_disk = [], pending = [], readable = True\<rparr>;
          (f1, ok1) = fwrite io (put_u64 KANBUDB_WAL_MAGIC) f0;
          (f2, ok2) = fwrite io (put_u32 KANBUDB_WAL_VERSION) f1;
          (f3, ok3) = fwrite io (put_u64 0) f2
      in if \<not> (ok1 \<and> ok2 \<and> ok3) then None
         else Some \<lparr>fsync_mode = mode, wseq = 0, file_pos = word_of_nat wal_header_size,
                    periodic_count = 0, buf = [], wfile = Some (fflush f3)\<rparr>)"

definition wal_create :: "bool \<Rightarrow> (bytes \<Rightarrow> nat) \<Rightarrow> bytes \<Rightarrow> fsync_mode \<Rightarrow> kanbudb_wal option" where
  "wal_create opened io content mode =
     (if \<not> opened then None
      else if content = [] then wal_create_new io mode
      else case fread 8 content of None \<Rightarrow> None | Some (m, bs) \<Rightarrow>
        (case fread 4 bs of None \<Rightarrow> None | Some (v, bs) \<Rightarrow>
          if get_u64 m \<noteq> KANBUDB_WAL_MAGIC \<or> get_u32 v \<noteq> KANBUDB_WAL_VERSION then None
          else case fread 8 bs of None \<Rightarrow> None | Some (s, bs) \<Rightarrow>
            Some \<lparr>fsync_mode = mode, wseq = get_u64 s,
                  file_pos = word_of_nat (length content), periodic_count = 0, buf = [],
                  wfile = Some \<lparr>on_disk = content, pending = [], readable = True\<rparr>\<rparr>))"

text \<open>\<^verbatim>\<open>wal_destroy\<close> returns nothing; the model returns the bytes it leaves in the file.\<close>

definition wal_destroy :: "(bytes \<Rightarrow> nat) \<Rightarrow> kanbudb_wal \<Rightarrow> bytes" where
  "wal_destroy io wal =
     (let wal = (if buf wal \<noteq> [] then fst (wal_flush_buf io wal) else wal)
      in case wfile wal of None \<Rightarrow> [] | Some f \<Rightarrow> fclose f)"

text \<open>
  \<^verbatim>\<open>wal_append\<close>; \<open>io1\<close> answers the flush before the retry, \<open>io2\<close> the one at the end.
  \<open>append_written\<close> is the part after the record has been serialised.
\<close>

definition append_written :: "(bytes \<Rightarrow> nat) \<Rightarrow> kanbudb_wal \<Rightarrow> bytes \<Rightarrow> kanbudb_wal \<times> rc" where
  "append_written io wal written =
     (let wal = wal\<lparr>buf := buf wal @ written, periodic_count := Suc (periodic_count wal)\<rparr>
      in if fsync_mode wal = KANBUDB_FSYNC_ALWAYS then wal_flush_buf io wal
         else if length (buf wal) \<ge> KANBUDB_WAL_BUF_SIZE div 2 then wal_flush_buf io wal
         else (wal, KANBUDB_OK))"

definition wal_append ::
  "(bytes \<Rightarrow> nat) \<Rightarrow> (bytes \<Rightarrow> nat) \<Rightarrow> kanbudb_wal \<Rightarrow> wal_op \<Rightarrow> u64 \<Rightarrow> bytes \<Rightarrow> bytes option \<Rightarrow> nat
     \<Rightarrow> kanbudb_wal \<times> rc" where
  "wal_append io1 io2 wal op table_id key val val_len =
     (let wal = wal\<lparr>wseq := wseq wal + 1\<rparr>;
          ser = (\<lambda>w. wal_serialize (KANBUDB_WAL_BUF_SIZE - length (buf w)) (wseq w) op table_id key val val_len)
      in case ser wal of
           Some written \<Rightarrow> append_written io2 wal written
         | None \<Rightarrow>
             (case wal_flush_buf io1 wal of (wal', rc) \<Rightarrow>
               if rc \<noteq> KANBUDB_OK then (wal', rc)
               else case ser wal' of
                      None \<Rightarrow> (wal', KANBUDB_ERR_IO)
                    | Some written \<Rightarrow> append_written io2 wal' written))"

definition wal_sync :: "(bytes \<Rightarrow> nat) \<Rightarrow> kanbudb_wal \<Rightarrow> kanbudb_wal \<times> rc" where
  "wal_sync io wal =
     (case wal_flush_buf io wal of (wal', rc) \<Rightarrow>
       if rc \<noteq> KANBUDB_OK then (wal', rc)
       else (wal'\<lparr>wfile := map_option fflush (wfile wal'), periodic_count := 0\<rparr>, KANBUDB_OK))"

text \<open>
  The loop of \<^verbatim>\<open>wal_replay\<close>: every complete record goes to the callback, whose non-zero
  result ends the replay. The loop carries the log's sequence number and the callback's
  context.
\<close>

type_synonym 'c wal_cb = "wal_op \<Rightarrow> u64 \<Rightarrow> bytes \<Rightarrow> bytes \<Rightarrow> u64 \<Rightarrow> 'c \<Rightarrow> 'c \<times> rc"

definition call_cb :: "'c wal_cb \<Rightarrow> wal_entry \<Rightarrow> 'c \<Rightarrow> 'c \<times> rc" where
  "call_cb cb e ctx =
     cb (if e_op e = 0 then KANBUDB_WAL_PUT else KANBUDB_WAL_DELETE)
        (e_table e) (e_key e) (e_value e) (e_val_len e) ctx"

function wal_replay_loop :: "'c wal_cb \<Rightarrow> bytes \<Rightarrow> u64 \<Rightarrow> 'c \<Rightarrow> u64 \<times> 'c \<times> rc" where
  "wal_replay_loop cb bs seq ctx =
     (case wal_read_entry bs of
        Wal_End \<Rightarrow> (seq, ctx, KANBUDB_OK)
      | Wal_Corrupt \<Rightarrow> (seq, ctx, KANBUDB_ERR_CORRUPT)
      | Wal_Record e rest \<Rightarrow>
          (case call_cb cb e ctx of (ctx', rc) \<Rightarrow>
            if rc \<noteq> KANBUDB_OK then (e_seq e, ctx', rc)
            else wal_replay_loop cb rest (e_seq e) ctx'))"
  by pat_completeness auto
termination
  by (relation "measure (\<lambda>(cb, bs, seq, ctx). length bs)") (auto dest: wal_read_entry_shrinks)

declare wal_replay_loop.simps [simp del]

text \<open>
  The first \<^verbatim>\<open>fseek\<close> of \<^verbatim>\<open>wal_replay\<close> writes the stdio buffer out; on a stream that cannot be
  read every \<^verbatim>\<open>fread\<close> fails, so the loop ends at once.
\<close>

definition wal_replay ::
  "(bytes \<Rightarrow> nat) \<Rightarrow> kanbudb_wal \<Rightarrow> 'c wal_cb \<Rightarrow> 'c \<Rightarrow> kanbudb_wal \<times> 'c \<times> rc" where
  "wal_replay io wal cb ctx =
     (if wfile wal = None then (wal, ctx, KANBUDB_ERR_INVAL)
      else
        (let wal' = fst (wal_flush_buf io wal);
             f = fflush (the (wfile wal'));
             wal' = wal'\<lparr>wfile := Some f\<rparr>;
             bs = (if readable f then drop wal_header_size (on_disk f) else []);
             (seq, ctx', rc) = wal_replay_loop cb bs (wseq wal') ctx
         in (wal'\<lparr>wseq := seq\<rparr>, ctx', rc)))"

definition wal_last_seq :: "kanbudb_wal \<Rightarrow> u64" where
  "wal_last_seq wal = wseq wal"

text \<open>
  \<^verbatim>\<open>wal_truncate\<close>: flush, close, reopen \<^verbatim>\<open>"wb"\<close> and write a header with the current
  sequence number. \<open>open_ok\<close> and \<open>fopen_ok\<close> are the results of the two opens.
\<close>

definition wal_truncate ::
  "bool \<Rightarrow> bool \<Rightarrow> (bytes \<Rightarrow> nat) \<Rightarrow> (bytes \<Rightarrow> nat) \<Rightarrow> kanbudb_wal \<Rightarrow> kanbudb_wal \<times> rc" where
  "wal_truncate open_ok fopen_ok io1 io2 wal =
     (let wal = (fst (wal_flush_buf io1 wal))\<lparr>wfile := None\<rparr>
      in if \<not> open_ok then (wal, KANBUDB_ERR_IO)
         else if \<not> fopen_ok then (wal, KANBUDB_ERR_IO)
         else
           (let f0 = \<lparr>on_disk = [], pending = [], readable = False\<rparr>;
                (f1, ok1) = fwrite io2 (put_u64 KANBUDB_WAL_MAGIC) f0;
                (f2, ok2) = fwrite io2 (put_u32 KANBUDB_WAL_VERSION) f1;
                (f3, ok3) = fwrite io2 (put_u64 (wseq wal)) f2
            in if \<not> ok1 then (wal\<lparr>wfile := Some f1\<rparr>, KANBUDB_ERR_IO)
               else if \<not> ok2 then (wal\<lparr>wfile := Some f2\<rparr>, KANBUDB_ERR_IO)
               else if \<not> ok3 then (wal\<lparr>wfile := Some f3\<rparr>, KANBUDB_ERR_IO)
               else (wal\<lparr>wfile := Some (fflush f3), file_pos := word_of_nat wal_header_size,
                         buf := [], periodic_count := 0\<rparr>, KANBUDB_OK)))"

end
