(* ===== verification/Wal_Correct.thy ===== *)
theory Wal_Correct
  imports Wal
begin

text \<open>
  Correctness of the write-ahead log: the record format is a self-delimiting codec whose
  reader accepts nothing else, appends extend the log by exactly one record, replay hands
  the records back in order, and a torn file yields a prefix of them.
\<close>

section \<open>The record format\<close>

definition entry_enc :: "wal_entry \<Rightarrow> bytes" where
  "entry_enc e =
     put_u64 (e_seq e) @ [e_op e] @ put_u64 (e_table e) @ put_u64 (word_of_nat (length (e_key e))) @
     put_u64 (e_val_len e) @ e_key e @ e_value e"

definition entry_ok :: "wal_entry \<Rightarrow> bool" where
  "entry_ok e \<longleftrightarrow> length (e_key e) \<le> 1048576 \<and> e_val_len e \<le> wal_max_field \<and>
     (if e_op e = 0 then length (e_value e) = unat (e_val_len e) else e_value e = [])"

lemma unat_len_u64: "n \<le> 1048576 \<Longrightarrow> unat (word_of_nat n :: u64) = n"
  by (simp add: unat_of_nat_u64)

lemma len_u64_le_max: "n \<le> 1048576 \<Longrightarrow> (word_of_nat n :: u64) \<le> wal_max_field"
  by (simp add: word_le_nat_alt unat_len_u64 wal_max_field_def)

lemma u64_le_max_unat: "w \<le> wal_max_field \<Longrightarrow> unat w \<le> 1048576"
  by (simp add: word_le_nat_alt wal_max_field_def)

lemma read_enc:
  assumes "entry_ok e"
  shows "wal_read_entry (entry_enc e @ rest) = Wal_Record e rest"
proof -
  have k: "(word_of_nat (length (e_key e)) :: u64) \<le> wal_max_field" "e_val_len e \<le> wal_max_field"
    "unat (word_of_nat (length (e_key e)) :: u64) = length (e_key e)"
    using assms by (simp_all add: entry_ok_def len_u64_le_max unat_len_u64)
  have v: "e_value e = []" if "\<not> (e_op e = 0 \<and> 0 < e_val_len e)"
    using assms that by (auto simp: entry_ok_def word_less_nat_alt split: if_splits)
  have "wal_read_body (e_seq e) (e_op e) (e_table e) (word_of_nat (length (e_key e))) (e_val_len e)
      (e_key e @ e_value e @ rest) = Wal_Record e rest"
    using assms k v by (auto simp: wal_read_body_def entry_ok_def not_less [symmetric])
  then show ?thesis
    by (simp add: wal_read_entry_def entry_enc_def fread_append [where xs = "[_]", simplified] get_u64_exact)
qed

text \<open>The reader is sound: whatever it accepts is the encoding of the record it returns.\<close>

lemma read_body_sound:
  assumes "wal_read_body s op1 t kl vl bs = Wal_Record e rest"
  shows "entry_ok e \<and> bs = e_key e @ e_value e @ rest \<and> e_seq e = s \<and> e_op e = op1 \<and> e_table e = t \<and>
         word_of_nat (length (e_key e)) = kl \<and> e_val_len e = vl"
proof -
  from assms have le: "kl \<le> wal_max_field" "vl \<le> wal_max_field"
    by (auto simp: wal_read_body_def not_less split: if_splits)
  then show ?thesis
    using assms u64_le_max_unat [OF le(1)]
    by (auto simp: wal_read_body_def entry_ok_def fread_Some not_less split: if_splits option.splits)
qed

lemma read_sound:
  assumes "wal_read_entry bs = Wal_Record e rest"
  shows "entry_ok e \<and> bs = entry_enc e @ rest"
proof -
  from assms obtain s b1 o1 b2 t b3 kl b4 vl b5 where
    f: "fread 8 bs = Some (s, b1)" "fread 1 b1 = Some (o1, b2)" "fread 8 b2 = Some (t, b3)"
      "fread 8 b3 = Some (kl, b4)" "fread 8 b4 = Some (vl, b5)"
    and body: "wal_read_body (get_u64 s) (hd o1) (get_u64 t) (get_u64 kl) (get_u64 vl) b5 = Wal_Record e rest"
    by (auto simp: wal_read_entry_def split: option.splits)
  note b = read_body_sound [OF body]
  have o1: "o1 = [hd o1]" using f(2) by (cases o1) (auto simp: fread_Some)
  have "put_u64 (e_seq e) = s" "put_u64 (e_table e) = t"
    "put_u64 (word_of_nat (length (e_key e))) = kl" "put_u64 (e_val_len e) = vl" "[e_op e] = o1"
    using b f o1 put_get_u64 by (auto simp: fread_Some)
  then have "entry_enc e @ rest = s @ o1 @ t @ kl @ vl @ b5"
    using b by (simp add: entry_enc_def)
  with b f show ?thesis by (auto simp: fread_Some)
qed

definition wal_dec :: "bytes \<Rightarrow> (wal_entry \<times> bytes) option" where
  "wal_dec bs = (case wal_read_entry bs of Wal_Record e rest \<Rightarrow> Some (e, rest) | _ \<Rightarrow> None)"

interpretation wal: byte_codec entry_enc wal_dec entry_ok
  by unfold_locales (simp add: wal_dec_def read_enc)

lemma read_torn:
  assumes "entry_ok e" and "n < length (entry_enc e)"
  shows "wal_read_entry (take n (entry_enc e)) \<in> {Wal_End, Wal_Corrupt}"
proof (cases "wal_read_entry (take n (entry_enc e))")
  case (Wal_Record e' rest)
  from read_sound [OF this] have ok: "entry_ok e'" and eq: "take n (entry_enc e) = entry_enc e' @ rest"
    by auto
  from arg_cong [OF eq, of "\<lambda>x. x @ drop n (entry_enc e)"]
  have "entry_enc e @ [] = entry_enc e' @ rest @ drop n (entry_enc e)" by simp
  from wal.enc_prefix_free [OF assms(1) ok this] assms(2) show ?thesis by simp
qed auto

section \<open>Replay of a sequence of records\<close>

fun run_cb :: "'c wal_cb \<Rightarrow> wal_entry list \<Rightarrow> u64 \<Rightarrow> 'c \<Rightarrow> u64 \<times> 'c \<times> rc" where
  "run_cb cb [] seq ctx = (seq, ctx, KANBUDB_OK)"
| "run_cb cb (e # es) seq ctx =
     (case call_cb cb e ctx of (ctx', rc) \<Rightarrow>
       if rc \<noteq> KANBUDB_OK then (e_seq e, ctx', rc) else run_cb cb es (e_seq e) ctx')"

definition tail_rc :: "bytes \<Rightarrow> rc" where
  "tail_rc bs = (case wal_read_entry bs of Wal_Corrupt \<Rightarrow> KANBUDB_ERR_CORRUPT | _ \<Rightarrow> KANBUDB_OK)"

abbreviation log_bytes :: "wal_entry list \<Rightarrow> bytes" where
  "log_bytes es \<equiv> concat (map entry_enc es)"

lemma replay_loop_tail:
  assumes "\<forall>e\<in>set es. entry_ok e" and "wal_read_entry torn \<in> {Wal_End, Wal_Corrupt}"
  shows "wal_replay_loop cb (log_bytes es @ torn) seq ctx =
    (case run_cb cb es seq ctx of (s, c, rc) \<Rightarrow>
      (s, c, if rc = KANBUDB_OK then tail_rc torn else rc))"
  using assms(1)
proof (induction es arbitrary: seq ctx)
  case Nil
  then show ?case
    using assms(2) by (auto simp: wal_replay_loop.simps [of cb torn] tail_rc_def)
next
  case (Cons e es)
  have "wal_read_entry (log_bytes (e # es) @ torn) = Wal_Record e (log_bytes es @ torn)"
    using read_enc [of e "log_bytes es @ torn"] Cons.prems by simp
  then show ?case
    using Cons by (subst wal_replay_loop.simps) (simp split: prod.splits)
qed

lemma replay_loop_log:
  assumes "\<forall>e\<in>set es. entry_ok e"
  shows "wal_replay_loop cb (log_bytes es) seq ctx = run_cb cb es seq ctx"
proof -
  have "wal_read_entry [] = Wal_End" by (simp add: wal_read_entry_def fread_def)
  then show ?thesis
    using replay_loop_tail [OF assms, of "[]" cb seq ctx] by (auto simp: tail_rc_def split: prod.splits)
qed

text \<open>A prefix of the log is some whole records followed by a proper prefix of the next one.\<close>

lemma take_log:
  assumes "\<forall>e\<in>set es. entry_ok e"
  obtains k torn where "k \<le> length es" "take n (log_bytes es) = log_bytes (take k es) @ torn"
    "wal_read_entry torn \<in> {Wal_End, Wal_Corrupt}"
  using assms
proof (induction es arbitrary: n thesis)
  case Nil
  then show ?case by (auto simp: wal_read_entry_def fread_def)
next
  case (Cons e es)
  show ?case
  proof (cases "n < length (entry_enc e)")
    case True
    then show ?thesis using Cons.prems(1) [of 0] read_torn [of e n] Cons.prems(2) by simp
  next
    case False
    obtain k torn where "k \<le> length es"
      "take (n - length (entry_enc e)) (log_bytes es) = log_bytes (take k es) @ torn"
      "wal_read_entry torn \<in> {Wal_End, Wal_Corrupt}"
      using Cons.IH Cons.prems(2) by (metis list.set_intros(2))
    with False Cons.prems(1) [of "Suc k"] show ?thesis by simp
  qed
qed

section \<open>The log behind the handle\<close>

text \<open>
  \<open>wal_log wal es\<close>: file, stdio buffer and write buffer together hold a header and then
  exactly the records \<open>es\<close>, and the write buffer is within its capacity.
\<close>

definition wal_log :: "kanbudb_wal \<Rightarrow> wal_entry list \<Rightarrow> bool" where
  "wal_log wal es \<longleftrightarrow>
     (\<exists>f h. wfile wal = Some f \<and> wal_header_size \<le> length (on_disk f @ pending f) \<and>
        on_disk f @ pending f @ buf wal = wal_header h @ log_bytes es) \<and>
     (\<forall>e\<in>set es. entry_ok e) \<and> length (buf wal) \<le> KANBUDB_WAL_BUF_SIZE"

lemma length_wal_header [simp]: "length (wal_header h) = wal_header_size"
  by (simp add: wal_header_def wal_header_size_def)

text \<open>The entry an append writes.\<close>

definition new_entry :: "u64 \<Rightarrow> wal_op \<Rightarrow> u64 \<Rightarrow> bytes \<Rightarrow> bytes \<Rightarrow> wal_entry" where
  "new_entry seq op t key v =
     \<lparr>e_seq = seq, e_op = (if op = KANBUDB_WAL_DELETE then 1 else 0), e_table = t, e_key = key,
      e_val_len = word_of_nat (length v), e_value = (if op = KANBUDB_WAL_DELETE then [] else v)\<rparr>"

lemma serialize_new_entry:
  assumes "wal_serialize cap seq op t key (Some v) (length v) = Some bs"
  shows "bs = entry_enc (new_entry seq op t key v) \<and> length bs \<le> cap"
  using assms by (auto simp: wal_serialize_def entry_enc_def new_entry_def Let_def split: if_splits)

lemma serialize_entry_ok:
  assumes "wal_serialize cap seq op t key (Some v) (length v) = Some bs" and "cap \<le> KANBUDB_WAL_BUF_SIZE"
    and "length v \<le> 1048576"
  shows "entry_ok (new_entry seq op t key v)"
  using assms len_u64_le_max [of "length v"] unat_len_u64 [of "length v"]
  by (auto simp: wal_serialize_def entry_ok_def new_entry_def Let_def wal_consts split: if_splits)

lemma flush_ok:
  assumes "wal_flush_buf io wal = (wal', KANBUDB_OK)" and "wal_log wal es"
  shows "wal_log wal' es \<and> buf wal' = [] \<and> wseq wal' = wseq wal \<and> fsync_mode wal' = fsync_mode wal \<and>
         map_option readable (wfile wal') = map_option readable (wfile wal)"
  using assms
  by (auto simp: wal_flush_buf_def wal_log_def fwrite_def fflush_def Let_def split: if_splits)

text \<open>The end of \<^verbatim>\<open>wal_append\<close>: the record goes into the buffer, which may then be flushed.\<close>

lemma push_record:
  assumes "wal_log wal es" and "entry_ok e" and "length (buf wal) + length (entry_enc e) \<le> KANBUDB_WAL_BUF_SIZE"
  shows "wal_log (wal\<lparr>buf := buf wal @ entry_enc e, periodic_count := n\<rparr>) (es @ [e])"
  using assms by (auto simp: wal_log_def simp flip: append_assoc)

lemma append_finish:
  assumes "wal_log wal es" and "entry_ok e" and "length (buf wal) + length (entry_enc e) \<le> KANBUDB_WAL_BUF_SIZE"
    and "append_written io wal (entry_enc e) = (wal', KANBUDB_OK)"
  shows "wal_log wal' (es @ [e]) \<and> wseq wal' = wseq wal \<and> fsync_mode wal' = fsync_mode wal \<and>
         map_option readable (wfile wal') = map_option readable (wfile wal)"
  using assms(4) push_record [OF assms(1-3), of "Suc (periodic_count wal)"]
  by (auto simp: append_written_def Let_def dest!: flush_ok split: if_splits)

lemma append_ok:
  assumes log: "wal_log wal es" and len: "length v \<le> 1048576"
    and app: "wal_append io1 io2 wal op t key (Some v) (length v) = (wal', KANBUDB_OK)"
  shows "wal_log wal' (es @ [new_entry (wseq wal + 1) op t key v]) \<and> wseq wal' = wseq wal + 1 \<and>
         fsync_mode wal' = fsync_mode wal \<and>
         map_option readable (wfile wal') = map_option readable (wfile wal)"
proof -
  let ?w = "wal\<lparr>wseq := wseq wal + 1\<rparr>" and ?e = "new_entry (wseq wal + 1) op t key v"
  let ?ser = "\<lambda>w. wal_serialize (KANBUDB_WAL_BUF_SIZE - length (buf w)) (wseq w) op t key (Some v) (length v)"
  have log': "wal_log ?w es" using log by (simp add: wal_log_def)
  have room: "entry_ok ?e \<and> bs = entry_enc ?e \<and> length (buf w) + length (entry_enc ?e) \<le> KANBUDB_WAL_BUF_SIZE"
    if "?ser w = Some bs" "wal_log w es" "wseq w = wseq wal + 1" for w bs
    using that serialize_new_entry [of _ _ op t key v bs] serialize_entry_ok [of _ _ op t key v bs] len
    by (fastforce simp: wal_log_def)
  show ?thesis
  proof (cases "?ser ?w")
    case (Some bs)
    with app room [OF Some log'] show ?thesis
      using append_finish [OF log', of ?e io2 wal'] by (simp add: wal_append_def Let_def)
  next
    case None
    obtain w rc where fl: "wal_flush_buf io1 ?w = (w, rc)" by (cases "wal_flush_buf io1 ?w")
    with None app have rc: "rc = KANBUDB_OK" by (auto simp: wal_append_def Let_def split: if_splits)
    note w = flush_ok [OF fl [unfolded rc] log']
    obtain bs where Some: "?ser w = Some bs"
      using None app fl rc by (auto simp: wal_append_def Let_def split: option.splits)
    with None app fl rc room [OF Some] w show ?thesis
      using append_finish [of w es ?e io2 wal'] by (simp add: wal_append_def Let_def)
  qed
qed

definition accepts :: "(bytes \<Rightarrow> nat) \<Rightarrow> bool" where
  "accepts io \<longleftrightarrow> (\<forall>bs. length bs \<le> io bs)"

lemma flush_accepts: "accepts io \<Longrightarrow> snd (wal_flush_buf io wal) = KANBUDB_OK"
  by (auto simp: accepts_def wal_flush_buf_def fwrite_def Let_def split: option.splits)

lemma flush_acceptsE:
  assumes "accepts io" and "wal_log wal es"
  obtains wal' where "wal_flush_buf io wal = (wal', KANBUDB_OK)" "wal_log wal' es" "buf wal' = []"
    "wseq wal' = wseq wal" "map_option readable (wfile wal') = map_option readable (wfile wal)"
  using flush_accepts [OF assms(1), of wal] flush_ok [OF _ assms(2)] by (metis prod.collapse)

lemma log_flushed:
  assumes "wal_log wal es" and "buf wal = []" and "wfile wal = Some f"
  obtains h where "on_disk (fflush f) = wal_header h @ log_bytes es"
  using assms by (auto simp: wal_log_def fflush_def)

lemma replay_log:
  assumes log: "wal_log wal es" and io: "accepts io" and rd: "map_option readable (wfile wal) = Some True"
  shows "\<exists>wal'. wal_replay io wal cb ctx = (wal', snd (run_cb cb es (wseq wal) ctx)) \<and>
           wseq wal' = fst (run_cb cb es (wseq wal) ctx) \<and> wal_log wal' es"
proof -
  obtain w where w: "wal_flush_buf io wal = (w, KANBUDB_OK)" "wal_log w es" "buf w = []"
    "wseq w = wseq wal" "map_option readable (wfile w) = map_option readable (wfile wal)"
    by (rule flush_acceptsE [OF io log])
  with rd obtain f where f: "wfile w = Some f" "readable f" by auto
  obtain h where "on_disk (fflush f) = wal_header h @ log_bytes es"
    using log_flushed w f by blast
  moreover have "\<forall>e\<in>set es. entry_ok e" using log by (simp add: wal_log_def)
  moreover have "wal_log (w\<lparr>wfile := Some (fflush f), wseq := s\<rparr>) es" for s
    using w(2) f by (auto simp: wal_log_def fflush_def)
  ultimately show ?thesis
    using rd w f by (auto simp: wal_replay_def Let_def replay_loop_log fflush_def split: prod.splits)
qed

lemma create_log:
  assumes "content = wal_header h @ log_bytes es" and "\<forall>e\<in>set es. entry_ok e"
  shows "\<exists>wal. wal_create True io content mode = Some wal \<and> wal_log wal es \<and> wseq wal = h \<and>
           map_option readable (wfile wal) = Some True \<and> fsync_mode wal = mode"
proof -
  have "length content \<ge> 8" using assms(1) by (simp add: wal_header_size_def)
  then have "content \<noteq> []" by auto
  then show ?thesis
    using assms by (auto simp: wal_create_def wal_header_def wal_log_def wal_header_size_def)
qed

lemma create_new_log:
  assumes "accepts io"
  shows "\<exists>wal. wal_create True io [] mode = Some wal \<and> wal_log wal [] \<and> wseq wal = 0 \<and>
           map_option readable (wfile wal) = Some True \<and> fsync_mode wal = mode"
proof -
  have io: "length bs \<le> io bs" for bs using assms by (simp add: accepts_def)
  show ?thesis
    using io [of "put_u64 KANBUDB_WAL_MAGIC"] io [of "put_u32 KANBUDB_WAL_VERSION"] io [of "put_u64 0"]
    by (auto simp: wal_create_def wal_create_new_def wal_log_def fwrite_def fflush_def
        wal_header_def wal_header_size_def Let_def)
qed

lemma destroy_log:
  assumes "wal_log wal es" and "accepts io"
  obtains h where "wal_destroy io wal = wal_header h @ log_bytes es"
proof -
  obtain w where w: "wal_flush_buf io wal = (w, KANBUDB_OK)" "wal_log w es" "buf w = []"
    by (rule flush_acceptsE [OF assms(2,1)])
  then obtain f where f: "wfile w = Some f" by (auto simp: wal_log_def)
  have "buf wal = [] \<Longrightarrow> w = wal" using w(1) by (simp add: wal_flush_buf_def)
  then have "wal_destroy io wal = on_disk (fflush f)"
    using w(1) f by (auto simp: wal_destroy_def fclose_def Let_def)
  then show thesis using log_flushed [OF w(2,3) f] that by metis
qed

lemma append_always_flushed:
  assumes "wal_append io1 io2 wal op t key (Some v) (length v) = (wal', KANBUDB_OK)"
    and "wal_log wal es" and "length v \<le> 1048576" and "fsync_mode wal = KANBUDB_FSYNC_ALWAYS"
  shows "\<exists>f. wfile wal' = Some f \<and> pending f = [] \<and> buf wal' = []"
proof -
  have ser: "bs \<noteq> []" if "wal_serialize cap seq op t key (Some v) (length v) = Some bs" for cap seq bs
    using that by (auto simp: wal_serialize_def put_u64_def Let_def split: if_splits)
  have fin: "\<exists>f. wfile w' = Some f \<and> pending f = [] \<and> buf w' = []"
    if "append_written io2 w bs = (w', KANBUDB_OK)" "bs \<noteq> []" "fsync_mode w = KANBUDB_FSYNC_ALWAYS"
      "wfile w \<noteq> None" for w w' bs
    using that by (auto simp: append_written_def wal_flush_buf_def fwrite_def fflush_def Let_def split: if_splits)
  have "wal_log (wal\<lparr>wseq := wseq wal + 1\<rparr>) es" "wfile wal \<noteq> None"
    using assms(2) by (auto simp: wal_log_def)
  then show ?thesis
    using assms(1,4)
    by (auto simp: wal_append_def Let_def split: option.splits prod.splits if_splits
        dest!: flush_ok dest: ser intro!: fin)
qed

text \<open>A client's sequence of appends, stopping at the first error, and the records it asks for.\<close>

type_synonym wal_req = "wal_op \<times> u64 \<times> bytes \<times> bytes"

fun wal_append_all :: "(bytes \<Rightarrow> nat) \<Rightarrow> kanbudb_wal \<Rightarrow> wal_req list \<Rightarrow> kanbudb_wal \<times> rc" where
  "wal_append_all io wal [] = (wal, KANBUDB_OK)"
| "wal_append_all io wal ((op, t, k, v) # rs) =
     (case wal_append io io wal op t k (Some v) (length v) of (wal', rc) \<Rightarrow>
       if rc \<noteq> KANBUDB_OK then (wal', rc) else wal_append_all io wal' rs)"

fun stamp :: "u64 \<Rightarrow> wal_req list \<Rightarrow> wal_entry list" where
  "stamp s [] = []"
| "stamp s ((op, t, k, v) # rs) = new_entry (s + 1) op t k v # stamp (s + 1) rs"

lemma append_all_log:
  assumes "wal_log wal es" and "\<forall>(op, t, k, v)\<in>set rs. length v \<le> 1048576"
    and "wal_append_all io wal rs = (wal', KANBUDB_OK)"
  shows "wal_log wal' (es @ stamp (wseq wal) rs)"
  using assms
proof (induction io wal rs arbitrary: es rule: wal_append_all.induct)
  case (2 io wal op t k v rs)
  obtain w rc where a: "wal_append io io wal op t k (Some v) (length v) = (w, rc)"
    by (cases "wal_append io io wal op t k (Some v) (length v)")
  with "2.prems"(3) have rc: "rc = KANBUDB_OK" by (auto split: if_splits)
  note ok = append_ok [OF "2.prems"(1) _ a [unfolded rc]]
  show ?case
    using "2.IH" [OF a [symmetric], of "es @ [new_entry (wseq wal + 1) op t k v]"] "2.prems" ok a rc
    by simp
qed simp

lemma serialize_fits:
  "wal_serialize cap seq op t key (Some v) (length v) \<noteq> None \<longleftrightarrow>
     33 + length key + (if op = KANBUDB_WAL_DELETE then 0 else length v) \<le> cap"
  by (auto simp: wal_serialize_def Let_def)

lemma append_accepts:
  assumes "accepts io" and "wal_log wal es"
  shows "snd (wal_append io io wal op t key (Some v) (length v)) =
    (if 33 + length key + (if op = KANBUDB_WAL_DELETE then 0 else length v) \<le> KANBUDB_WAL_BUF_SIZE
     then KANBUDB_OK else KANBUDB_ERR_IO)"
proof -
  let ?w = "wal\<lparr>wseq := wseq wal + 1\<rparr>"
  have log: "wal_log ?w es" using assms(2) by (simp add: wal_log_def)
  obtain w where w: "wal_flush_buf io ?w = (w, KANBUDB_OK)" "buf w = []"
    by (rule flush_acceptsE [OF assms(1) log])
  have fin: "snd (append_written io x bs) = KANBUDB_OK" for x bs
    using flush_accepts [OF assms(1)] by (simp add: append_written_def Let_def)
  show ?thesis
    using w fin serialize_fits [of KANBUDB_WAL_BUF_SIZE "wseq w" op t key v]
      serialize_fits [of "KANBUDB_WAL_BUF_SIZE - length (buf wal)" "wseq wal + 1" op t key v]
    by (auto simp: wal_append_def Let_def split: option.splits)
qed

section \<open>Properties\<close>


definition demo_io :: "bytes \<Rightarrow> nat" where
  "demo_io bs = length bs"

definition demo_wal :: "kanbudb_wal" where
  "demo_wal = \<lparr>fsync_mode = KANBUDB_FSYNC_ALWAYS, wseq = 0, file_pos = 20, periodic_count = 0, buf = [],
     wfile = Some \<lparr>on_disk = wal_header 0, pending = [], readable = True\<rparr>\<rparr>"

lemma demo_wal_ok: "accepts demo_io \<and> wal_log demo_wal [] \<and> wal_create True demo_io [] KANBUDB_FSYNC_ALWAYS = Some demo_wal"
proof -
  have "wal_create True demo_io [] KANBUDB_FSYNC_ALWAYS = Some demo_wal"
    by (simp add: wal_create_def wal_create_new_def fwrite_def fflush_def demo_wal_def demo_io_def
        wal_header_def wal_header_size_def)
  then show ?thesis
    by (auto simp: accepts_def demo_io_def wal_log_def demo_wal_def wal_consts wal_header_size_def)
qed

lemma demo_append_ok:
  assumes "wal_log wal es"
  shows "snd (wal_append demo_io demo_io wal KANBUDB_WAL_PUT 1 [1] (Some [2]) 1) = KANBUDB_OK"
  using append_accepts [OF conjunct1 [OF demo_wal_ok] assms, of KANBUDB_WAL_PUT 1 "[1]" "[2]"]
  by (simp add: wal_consts)


text \<open>
  Torn files are safe: replaying any prefix of the record area hands the callback only
  whole records, namely a prefix of the written ones, and then reports either the end or
  corruption. No byte of a partial record reaches the callback.
\<close>

theorem wal_replay_torn:
  assumes "\<forall>e\<in>set es. entry_ok e"
  shows "\<exists>k rc. k \<le> length es \<and> rc \<in> {KANBUDB_OK, KANBUDB_ERR_CORRUPT} \<and>
           wal_replay_loop cb (take n (log_bytes es)) seq ctx =
             (case run_cb cb (take k es) seq ctx of (s, c, r) \<Rightarrow> (s, c, if r = KANBUDB_OK then rc else r))"
proof -
  obtain k torn where k: "k \<le> length es" and eq: "take n (log_bytes es) = log_bytes (take k es) @ torn"
    and torn: "wal_read_entry torn \<in> {Wal_End, Wal_Corrupt}"
    by (rule take_log [OF assms])
  have "\<forall>e\<in>set (take k es). entry_ok e" using assms by (auto dest: in_set_takeD)
  from replay_loop_tail [OF this torn, of cb seq ctx] torn
  show ?thesis
    by (intro exI [of _ k] exI [of _ "tail_rc torn"]) (auto simp: k eq tail_rc_def)
qed

theorem wal_replay_torn_witness:
  "\<exists>k rc. k \<le> 1 \<and> rc \<in> {KANBUDB_OK, KANBUDB_ERR_CORRUPT} \<and>
     wal_replay_loop (\<lambda>op t k v l c. (Suc c, KANBUDB_OK)) (take 34 (log_bytes [new_entry 1 KANBUDB_WAL_PUT 1 [1] [2]])) 0 0 =
       (case run_cb (\<lambda>op t k v l c. (Suc c, KANBUDB_OK)) (take k [new_entry 1 KANBUDB_WAL_PUT 1 [1] [2]]) 0 0
        of (s, c, r) \<Rightarrow> (s, c, if r = KANBUDB_OK then rc else r))"
  using wal_replay_torn [of "[new_entry 1 KANBUDB_WAL_PUT 1 [1] [2]]"]
  by (simp add: entry_ok_def new_entry_def wal_max_field_def)

text \<open>
  In \<^verbatim>\<open>KANBUDB_FSYNC_ALWAYS\<close> mode a successful append leaves nothing behind in the process: all
  records, the new one last, are in the file, so a process crash right after the
  append loses none of them; opening the file as it is and replaying it returns them all.
\<close>

theorem wal_append_always_durable:
  assumes "wal_log wal es" and "fsync_mode wal = KANBUDB_FSYNC_ALWAYS" and "length v \<le> 1048576"
    and "accepts io" and "wal_append io1 io2 wal op t key (Some v) (length v) = (wal', KANBUDB_OK)"
  shows "\<exists>f wal2 wal3. wfile wal' = Some f \<and> wal_create True io (on_disk f) mode = Some wal2 \<and>
           wal_replay io wal2 cb ctx =
             (wal3, snd (run_cb cb (es @ [new_entry (wseq wal + 1) op t key v]) (wseq wal2) ctx))"
proof -
  let ?es = "es @ [new_entry (wseq wal + 1) op t key v]"
  have log: "wal_log wal' ?es" using append_ok [OF assms(1,3,5)] by simp
  obtain f where f: "wfile wal' = Some f" "pending f = []" "buf wal' = []"
    using append_always_flushed [OF assms(5,1,3,2)] by blast
  then obtain h where "on_disk f = wal_header h @ log_bytes ?es" and "\<forall>e\<in>set ?es. entry_ok e"
    using log by (auto simp: wal_log_def)
  from create_log [OF this, of io mode] f show ?thesis
    using replay_log [OF _ assms(4)] by metis
qed

theorem wal_append_always_durable_witness:
  "\<exists>f wal2 wal3. wfile (fst (wal_append demo_io demo_io demo_wal KANBUDB_WAL_PUT 1 [1] (Some [2]) 1)) = Some f \<and>
     wal_create True demo_io (on_disk f) KANBUDB_FSYNC_NONE = Some wal2 \<and>
     wal_replay demo_io wal2 (\<lambda>op t k v l c. (c @ [(k, v)], KANBUDB_OK)) [] = (wal3, [([1], [2])], KANBUDB_OK)"
proof -
  let ?a = "wal_append demo_io demo_io demo_wal KANBUDB_WAL_PUT 1 [1] (Some [2]) 1"
  have "snd ?a = KANBUDB_OK" using demo_append_ok [of demo_wal "[]"] demo_wal_ok by simp
  then have "wal_append demo_io demo_io demo_wal KANBUDB_WAL_PUT 1 [1] (Some [2]) (length [2]) = (fst ?a, KANBUDB_OK)"
    by (metis One_nat_def length_Cons list.size(3) prod.collapse)
  from wal_append_always_durable [OF _ _ _ _ this, of "[]" demo_io KANBUDB_FSYNC_NONE
      "\<lambda>op t k v l c. (c @ [(k, v)], KANBUDB_OK)" "[]"] demo_wal_ok
  show ?thesis by (simp add: call_cb_def new_entry_def demo_wal_def)
qed

text \<open>
  When the stream accepts every write, \<^verbatim>\<open>wal_append\<close> succeeds exactly for records of at
  most 64 KB (33 bytes of fields, the key and, in a put, the value); a larger record is
  refused with \<^verbatim>\<open>KANBUDB_ERR_IO\<close> whatever the state of the buffer.
\<close>

theorem wal_append_result:
  assumes "accepts io" and "wal_log wal es"
  shows "snd (wal_append io io wal op t key (Some v) (length v)) =
    (if 33 + length key + (if op = KANBUDB_WAL_DELETE then 0 else length v) \<le> 65536
     then KANBUDB_OK else KANBUDB_ERR_IO)"
  using append_accepts [OF assms] by (simp add: KANBUDB_WAL_BUF_SIZE_def)

theorem wal_append_result_witness:
  "snd (wal_append demo_io demo_io demo_wal KANBUDB_WAL_PUT 1 (replicate 65536 0) (Some []) 0) = KANBUDB_ERR_IO"
  using wal_append_result [of demo_io demo_wal "[]" KANBUDB_WAL_PUT 1 "replicate 65536 0" "[]"] demo_wal_ok by simp

text \<open>
  A short write poisons the log: when \<^verbatim>\<open>fwrite\<close> takes only the first 8 bytes of the buffer,
  the append reports \<^verbatim>\<open>KANBUDB_ERR_IO\<close> but keeps the buffer, and the next append writes it
  again behind the torn bytes and succeeds. Replay then delivers neither of the two puts:
  it delivers a deletion of key 1 that nobody asked for, and stops there.
\<close>

theorem wal_short_write_poisons:
  "let (w1, rc1) = wal_append demo_io (\<lambda>bs. 8) demo_wal KANBUDB_WAL_PUT 1 [1] (Some [2]) 1;
       (w2, rc2) = wal_append demo_io demo_io w1 KANBUDB_WAL_PUT 1 [3] (Some [4]) 1;
       (w3, ops, rc3) = wal_replay demo_io w2 (\<lambda>op t k v l c. (c @ [(op, k)], KANBUDB_OK)) []
   in rc1 = KANBUDB_ERR_IO \<and> rc2 = KANBUDB_OK \<and> ops = [(KANBUDB_WAL_DELETE, [1])]"
  by code_simp

text \<open>
  A log that has been truncated cannot be replayed through the same handle: the file is
  reopened write-only, so records appended successfully afterwards are not delivered,
  although \<^verbatim>\<open>wal_replay\<close> reports success.
\<close>

theorem wal_replay_after_truncate:
  assumes "wal_truncate True True io1 io2 wal = (wal1, KANBUDB_OK)"
    and "wal_append io io wal1 op t key (Some v) (length v) = (wal2, KANBUDB_OK)"
    and "length v \<le> 1048576" and "accepts io"
  shows "wal_log wal1 [] \<and> wal_log wal2 [new_entry (wseq wal1 + 1) op t key v] \<and>
         snd (wal_replay io wal2 cb ctx) = (ctx, KANBUDB_OK)"
proof -
  have w1: "wal_log wal1 []" "map_option readable (wfile wal1) = Some False"
    using assms(1)
    by (auto simp: wal_truncate_def Let_def fwrite_def fflush_def wal_log_def wal_header_def wal_header_size_def
        split: if_splits)
  note w2 = append_ok [OF w1(1) assms(3,2)]
  obtain w where w: "wal_flush_buf io wal2 = (w, KANBUDB_OK)"
    "map_option readable (wfile w) = map_option readable (wfile wal2)"
    using flush_acceptsE [OF assms(4) conjunct1 [OF w2]] by metis
  have "wal_read_entry [] = Wal_End" by (simp add: wal_read_entry_def fread_def)
  then have "snd (wal_replay io wal2 cb ctx) = (ctx, KANBUDB_OK)"
    using w w1(2) w2 by (auto simp: wal_replay_def Let_def fflush_def wal_replay_loop.simps)
  with w1 w2 show ?thesis by simp
qed

theorem wal_replay_after_truncate_witness:
  "snd (wal_replay demo_io
     (fst (wal_append demo_io demo_io (fst (wal_truncate True True demo_io demo_io demo_wal))
        KANBUDB_WAL_PUT 1 [1] (Some [2]) 1)) (\<lambda>op t k v l c. (Suc c, KANBUDB_OK)) 0) = (0, KANBUDB_OK)"
proof -
  let ?t = "wal_truncate True True demo_io demo_io demo_wal"
  let ?a = "wal_append demo_io demo_io (fst ?t) KANBUDB_WAL_PUT 1 [1] (Some [2]) 1"
  have t: "snd ?t = KANBUDB_OK" "wal_log (fst ?t) []"
    by (auto simp: wal_truncate_def wal_flush_buf_def fwrite_def fflush_def demo_wal_def demo_io_def
        wal_log_def wal_header_def wal_header_size_def)
  then have "snd ?a = KANBUDB_OK" using demo_append_ok by simp
  with t have "?t = (fst ?t, KANBUDB_OK)"
    and "wal_append demo_io demo_io (fst ?t) KANBUDB_WAL_PUT 1 [1] (Some [2]) (length [2]) = (fst ?a, KANBUDB_OK)"
    by (metis One_nat_def length_Cons list.size(3) prod.collapse)+
  from wal_replay_after_truncate [OF this, of "\<lambda>op t k v l c. (Suc c, KANBUDB_OK)" 0] demo_wal_ok
  show ?thesis by simp
qed

end
