(* ===== verification/Lsm.thy ===== *)
theory Lsm
  imports Prelude "HOL-Library.Option_ord"
begin

text \<open>
  The memtable and the LSM front of \<^verbatim>\<open>src/src/storage/lsm.c\<close>. The memtable is a skip list;
  its nodes live in an explicit heap, because \<^verbatim>\<open>memtable_put\<close> frees and replaces nodes and
  its correctness depends on no pointer to a freed node being followed. Following a
  pointer that does not lead to a live node, or reading a forward slot a node does not
  have, makes an operation return \<open>None\<close>. The random level of a new node is a parameter.
\<close>

section \<open>State\<close>

type_synonym skip_addr = nat

record skip_node =
  nseq :: u64
  nkey :: bytes
  nval :: bytes
  ndeleted :: bool
  nlevel :: nat
  fwd :: "skip_addr option list"

record kanbudb_memtable =
  heap :: "skip_addr \<Rightarrow> skip_node option"
  header :: skip_addr
  size_limit :: u64
  used :: u64
  mlevel :: nat
  next_free :: skip_addr

record lsm_entry =
  le_seq :: u64
  le_key :: bytes
  le_value :: bytes
  le_deleted :: bool

definition MAX_LEVEL :: nat where "MAX_LEVEL = 12"

definition sizeof_skip_node :: nat where "sizeof_skip_node = 32"
definition sizeof_ptr :: nat where "sizeof_ptr = 8"

text \<open>The allocation size of a node, as \<^verbatim>\<open>skip_node_create\<close> computes it.\<close>

definition node_size :: "nat \<Rightarrow> nat \<Rightarrow> nat \<Rightarrow> u64" where
  "node_size lvl key_len val_len =
     word_of_nat (sizeof_skip_node + (lvl + 1) * sizeof_ptr + key_len + val_len)"

definition skip_node_create :: "nat \<Rightarrow> u64 \<Rightarrow> bytes \<Rightarrow> bytes \<Rightarrow> bool \<Rightarrow> skip_node" where
  "skip_node_create lvl seq key val deleted =
     \<lparr>nseq = seq, nkey = key, nval = val, ndeleted = deleted, nlevel = lvl,
      fwd = replicate (lvl + 1) None\<rparr>"

text \<open>
  \<^verbatim>\<open>random_level\<close>: \<open>coins\<close> are the outcomes of \<^verbatim>\<open>rand() < RAND_MAX / 2\<close>; the loop ends at the first
  failure or at the cap.
\<close>

definition random_level :: "bool list \<Rightarrow> nat" where
  "random_level coins = min (length (takeWhile (\<lambda>c. c) coins)) (MAX_LEVEL - 1)"

definition memtable_create :: "u64 \<Rightarrow> kanbudb_memtable" where
  "memtable_create max_size =
     \<lparr>heap = [0 \<mapsto> skip_node_create (MAX_LEVEL - 1) 0 [] [] False], header = 0,
      size_limit = max_size, used = 0, mlevel = 0, next_free = 1\<rparr>"

section \<open>Reading and writing forward pointers\<close>

text \<open>\<open>read_fwd\<close> is \<^verbatim>\<open>node_forward(x)[i]\<close>; the outer option is the validity of the access.\<close>

definition read_fwd :: "kanbudb_memtable \<Rightarrow> skip_addr \<Rightarrow> nat \<Rightarrow> skip_addr option option" where
  "read_fwd mt x i =
     (case heap mt x of
        None \<Rightarrow> None
      | Some n \<Rightarrow> if i < length (fwd n) then Some (fwd n ! i) else None)"

definition write_fwd :: "kanbudb_memtable \<Rightarrow> skip_addr \<Rightarrow> nat \<Rightarrow> skip_addr option \<Rightarrow> kanbudb_memtable option" where
  "write_fwd mt x i p =
     (case heap mt x of
        None \<Rightarrow> None
      | Some n \<Rightarrow>
          if i < length (fwd n)
          then Some (mt\<lparr>heap := (heap mt)(x \<mapsto> n\<lparr>fwd := (fwd n)[i := p]\<rparr>)\<rparr>)
          else None)"

section \<open>The search of \<open>memtable_put\<close>\<close>

text \<open>The inner loop at one level; the fuel is one unit per node ever allocated.\<close>

fun walk :: "nat \<Rightarrow> kanbudb_memtable \<Rightarrow> nat \<Rightarrow> bytes \<Rightarrow> skip_addr \<Rightarrow> skip_addr option" where
  "walk 0 mt i key x = None"
| "walk (Suc f) mt i key x =
     (case read_fwd mt x i of
        None \<Rightarrow> None
      | Some None \<Rightarrow> Some x
      | Some (Some nx) \<Rightarrow>
          (case heap mt nx of
             None \<Rightarrow> None
           | Some n \<Rightarrow> if key_cmp key (nkey n) > 0 then walk f mt i key nx else Some x))"

text \<open>The outer loop, from level \<open>j - 1\<close> down to 0; element \<open>i\<close> of the result is \<^verbatim>\<open>update[i]\<close>.\<close>

fun find_update :: "kanbudb_memtable \<Rightarrow> bytes \<Rightarrow> nat \<Rightarrow> skip_addr \<Rightarrow> skip_addr list option" where
  "find_update mt key 0 x = Some []"
| "find_update mt key (Suc i) x =
     (case walk (next_free mt) mt i key x of
        None \<Rightarrow> None
      | Some y \<Rightarrow> map_option (\<lambda>us. us @ [y]) (find_update mt key i y))"

section \<open>\<open>memtable_put\<close>\<close>

text \<open>Linking a new node at levels \<open>0 \<dots> lvl\<close> (the loop at the end of \<^verbatim>\<open>memtable_put\<close>).\<close>

fun link_levels :: "kanbudb_memtable \<Rightarrow> skip_addr list \<Rightarrow> skip_addr \<Rightarrow> nat \<Rightarrow> kanbudb_memtable option" where
  "link_levels mt us new 0 = Some mt"
| "link_levels mt us new (Suc i) =
     (case link_levels mt us new i of
        None \<Rightarrow> None
      | Some mt1 \<Rightarrow>
          (case read_fwd mt1 (us ! i) i of
             None \<Rightarrow> None
           | Some p \<Rightarrow>
               (case write_fwd mt1 new i p of
                  None \<Rightarrow> None
                | Some mt2 \<Rightarrow> write_fwd mt2 (us ! i) i (Some new))))"

text \<open>Replacing node \<open>x\<close> by \<open>new\<close> where the search found it (the loop of the growing update).\<close>

fun relink_levels ::
  "kanbudb_memtable \<Rightarrow> skip_addr list \<Rightarrow> skip_addr \<Rightarrow> skip_addr \<Rightarrow> nat \<Rightarrow> kanbudb_memtable option" where
  "relink_levels mt us x new 0 = Some mt"
| "relink_levels mt us x new (Suc i) =
     (case relink_levels mt us x new i of
        None \<Rightarrow> None
      | Some mt1 \<Rightarrow>
          (case read_fwd mt1 (us ! i) i of
             None \<Rightarrow> None
           | Some p \<Rightarrow> if p = Some x then write_fwd mt1 (us ! i) i (Some new) else Some mt1))"

text \<open>The key is present and the new value fits in the old node: overwrite it in place.\<close>

definition put_in_place ::
  "kanbudb_memtable \<Rightarrow> skip_addr \<Rightarrow> skip_node \<Rightarrow> u64 \<Rightarrow> bytes \<Rightarrow> kanbudb_memtable" where
  "put_in_place mt x n seq val =
     mt\<lparr>heap := (heap mt)(x \<mapsto> n\<lparr>nseq := seq, ndeleted := False, nval := val\<rparr>),
        used := used mt - word_of_nat (length (nval n)) + word_of_nat (length val)\<rparr>"

text \<open>
  The key is present and the value grows: allocate a node of the same level, redirect the
  pointers of \<^verbatim>\<open>update\<close> that lead to the old one, copy its level-0 pointer, free it.
\<close>

definition put_grow ::
  "kanbudb_memtable \<Rightarrow> skip_addr list \<Rightarrow> skip_addr \<Rightarrow> skip_node \<Rightarrow> u64 \<Rightarrow> bytes \<Rightarrow> bytes \<Rightarrow> kanbudb_memtable option" where
  "put_grow mt us x n seq key val =
     (let new = next_free mt;
          nn = skip_node_create (nlevel n) seq key val False;
          mt1 = mt\<lparr>heap := (heap mt)(x \<mapsto> n\<lparr>nseq := seq, ndeleted := False\<rparr>, new \<mapsto> nn),
                   next_free := Suc new,
                   used := used mt - node_size (nlevel n) (length (nkey n)) (length (nval n))
                             + node_size (nlevel nn) (length (nkey nn)) (length (nval nn))\<rparr>
      in case relink_levels mt1 us x new (Suc (mlevel mt)) of
           None \<Rightarrow> None
         | Some mt2 \<Rightarrow>
             (case read_fwd mt2 x 0 of
                None \<Rightarrow> None
              | Some p \<Rightarrow>
                  map_option (\<lambda>mt3. mt3\<lparr>heap := (heap mt3)(x := None)\<rparr>) (write_fwd mt2 new 0 p)))"

text \<open>The key is absent: a new node of level \<open>lvl\<close>, linked at every level up to it.\<close>

definition put_new ::
  "nat \<Rightarrow> kanbudb_memtable \<Rightarrow> skip_addr list \<Rightarrow> u64 \<Rightarrow> bytes \<Rightarrow> bytes \<Rightarrow> kanbudb_memtable option" where
  "put_new lvl mt us seq key val =
     (let us' = (if lvl > mlevel mt then us @ replicate (lvl - mlevel mt) (header mt) else us);
          new = next_free mt;
          mt1 = mt\<lparr>heap := (heap mt)(new \<mapsto> skip_node_create lvl seq key val False),
                   next_free := Suc new, mlevel := max lvl (mlevel mt),
                   used := used mt + node_size lvl (length key) (length val)\<rparr>
      in link_levels mt1 us' new (Suc lvl))"

definition memtable_put ::
  "nat \<Rightarrow> kanbudb_memtable \<Rightarrow> u64 \<Rightarrow> bytes \<Rightarrow> bytes \<Rightarrow> kanbudb_memtable option" where
  "memtable_put lvl mt seq key val =
     (case find_update mt key (Suc (mlevel mt)) (header mt) of
        None \<Rightarrow> None
      | Some us \<Rightarrow>
          (case read_fwd mt (us ! 0) 0 of
             None \<Rightarrow> None
           | Some None \<Rightarrow> put_new lvl mt us seq key val
           | Some (Some x) \<Rightarrow>
               (case heap mt x of
                  None \<Rightarrow> None
                | Some n \<Rightarrow>
                    if key_cmp key (nkey n) = 0 then
                      (if length val \<le> length (nval n) then Some (put_in_place mt x n seq val)
                       else put_grow mt us x n seq key val)
                    else put_new lvl mt us seq key val)))"

section \<open>The level-0 loops\<close>

text \<open>
  \<^verbatim>\<open>memtable_delete\<close> and \<^verbatim>\<open>memtable_get\<close> walk level 0 until the key is met or passed. The result
  is the address and node found; the outer option is again validity.
\<close>

fun scan0 :: "nat \<Rightarrow> kanbudb_memtable \<Rightarrow> bytes \<Rightarrow> skip_addr \<Rightarrow> (skip_addr \<times> skip_node) option option" where
  "scan0 0 mt key x = None"
| "scan0 (Suc f) mt key x =
     (case read_fwd mt x 0 of
        None \<Rightarrow> None
      | Some None \<Rightarrow> Some None
      | Some (Some nx) \<Rightarrow>
          (case heap mt nx of
             None \<Rightarrow> None
           | Some n \<Rightarrow>
               if key_cmp key (nkey n) = 0 then Some (Some (nx, n))
               else if key_cmp key (nkey n) < 0 then Some None
               else scan0 f mt key nx))"

definition memtable_delete ::
  "nat \<Rightarrow> kanbudb_memtable \<Rightarrow> u64 \<Rightarrow> bytes \<Rightarrow> kanbudb_memtable option" where
  "memtable_delete lvl mt seq key =
     (case memtable_put lvl mt seq key [] of
        None \<Rightarrow> None
      | Some mt1 \<Rightarrow>
          (case scan0 (next_free mt1) mt1 key (header mt1) of
             None \<Rightarrow> None
           | Some None \<Rightarrow> Some mt1
           | Some (Some (x, n)) \<Rightarrow> Some (mt1\<lparr>heap := (heap mt1)(x \<mapsto> n\<lparr>ndeleted := True\<rparr>)\<rparr>)))"

text \<open>
  \<^verbatim>\<open>memtable_get\<close>: the return code and, when the key is there, the value and the deleted flag
  stored through the out parameters.
\<close>

definition memtable_get ::
  "kanbudb_memtable \<Rightarrow> bytes \<Rightarrow> (rc \<times> (bytes \<times> bool) option) option" where
  "memtable_get mt key =
     (case scan0 (next_free mt) mt key (header mt) of
        None \<Rightarrow> None
      | Some None \<Rightarrow> Some (KANBUDB_ERR_NOTFOUND, None)
      | Some (Some (x, n)) \<Rightarrow>
          Some (if ndeleted n then KANBUDB_ERR_NOTFOUND else KANBUDB_OK, Some (nval n, ndeleted n)))"

definition memtable_is_full :: "kanbudb_memtable \<Rightarrow> bool" where
  "memtable_is_full mt = (used mt \<ge> size_limit mt)"

definition memtable_size :: "kanbudb_memtable \<Rightarrow> u64" where
  "memtable_size mt = used mt"

text \<open>\<^verbatim>\<open>memtable_iterate\<close>: the entries on level 0 go to the callback until it returns non-zero.\<close>

type_synonym 'c lsm_cb = "lsm_entry \<Rightarrow> 'c \<Rightarrow> 'c \<times> rc"

definition entry_of :: "skip_node \<Rightarrow> lsm_entry" where
  "entry_of n = \<lparr>le_seq = nseq n, le_key = nkey n, le_value = nval n, le_deleted = ndeleted n\<rparr>"

fun iterate_from :: "nat \<Rightarrow> kanbudb_memtable \<Rightarrow> 'c lsm_cb \<Rightarrow> skip_addr option \<Rightarrow> 'c \<Rightarrow> ('c \<times> rc) option" where
  "iterate_from 0 mt cb p ctx = None"
| "iterate_from (Suc f) mt cb p ctx =
     (case p of
        None \<Rightarrow> Some (ctx, KANBUDB_OK)
      | Some x \<Rightarrow>
          (case heap mt x of
             None \<Rightarrow> None
           | Some n \<Rightarrow>
               (case cb (entry_of n) ctx of (ctx', rc) \<Rightarrow>
                 if rc \<noteq> KANBUDB_OK then Some (ctx', rc)
                 else (case read_fwd mt x 0 of None \<Rightarrow> None | Some p' \<Rightarrow> iterate_from f mt cb p' ctx'))))"

definition memtable_iterate :: "kanbudb_memtable \<Rightarrow> 'c lsm_cb \<Rightarrow> 'c \<Rightarrow> ('c \<times> rc) option" where
  "memtable_iterate mt cb ctx =
     (case read_fwd mt (header mt) 0 of
        None \<Rightarrow> None
      | Some p \<Rightarrow> iterate_from (next_free mt) mt cb p ctx)"

section \<open>The LSM front\<close>

record kanbudb_lsm =
  memtable_cap :: u64
  active :: kanbudb_memtable
  flushing :: "kanbudb_memtable option"
  sst_seq :: u64

definition lsm_create :: "u64 \<Rightarrow> kanbudb_lsm" where
  "lsm_create sz = \<lparr>memtable_cap = sz, active = memtable_create sz, flushing = None, sst_seq = 0\<rparr>"

definition lsm_flush :: "kanbudb_lsm \<Rightarrow> kanbudb_lsm" where
  "lsm_flush lsm = lsm\<lparr>flushing := Some (active lsm), active := memtable_create (memtable_cap lsm)\<rparr>"

definition lsm_put :: "nat \<Rightarrow> kanbudb_lsm \<Rightarrow> u64 \<Rightarrow> bytes \<Rightarrow> bytes \<Rightarrow> kanbudb_lsm option" where
  "lsm_put lvl lsm table_id key val =
     (let lsm = (if memtable_is_full (active lsm) then lsm_flush lsm else lsm)
      in map_option (\<lambda>mt. lsm\<lparr>active := mt\<rparr>) (memtable_put lvl (active lsm) 0 key val))"

definition lsm_get :: "kanbudb_lsm \<Rightarrow> u64 \<Rightarrow> bytes \<Rightarrow> (rc \<times> bytes option) option" where
  "lsm_get lsm table_id key =
     (case memtable_get (active lsm) key of
        None \<Rightarrow> None
      | Some (rc, out) \<Rightarrow>
          if rc = KANBUDB_OK then Some (KANBUDB_OK, map_option fst out)
          else if (case out of Some (v, d) \<Rightarrow> d | None \<Rightarrow> False) then Some (KANBUDB_ERR_NOTFOUND, None)
          else
            (case flushing lsm of
               None \<Rightarrow> Some (KANBUDB_ERR_NOTFOUND, None)
             | Some fl \<Rightarrow>
                 (case memtable_get fl key of
                    None \<Rightarrow> None
                  | Some (rc, out) \<Rightarrow>
                      if rc = KANBUDB_OK then Some (KANBUDB_OK, map_option fst out)
                      else Some (KANBUDB_ERR_NOTFOUND, None))))"

definition lsm_delete :: "nat \<Rightarrow> kanbudb_lsm \<Rightarrow> u64 \<Rightarrow> bytes \<Rightarrow> kanbudb_lsm option" where
  "lsm_delete lvl lsm table_id key =
     (let lsm = (if memtable_is_full (active lsm) then lsm_flush lsm else lsm)
      in map_option (\<lambda>mt. lsm\<lparr>active := mt\<rparr>) (memtable_delete lvl (active lsm) 0 key))"

definition lsm_is_full :: "kanbudb_lsm \<Rightarrow> bool" where
  "lsm_is_full lsm = memtable_is_full (active lsm)"

definition lsm_has_data :: "kanbudb_lsm \<Rightarrow> bool" where
  "lsm_has_data lsm = (memtable_size (active lsm) > 0)"

definition lsm_next_seq :: "kanbudb_lsm \<Rightarrow> u64 \<times> kanbudb_lsm" where
  "lsm_next_seq lsm = (sst_seq lsm, lsm\<lparr>sst_seq := sst_seq lsm + 1\<rparr>)"

definition lsm_iterate_flushing :: "kanbudb_lsm \<Rightarrow> 'c lsm_cb \<Rightarrow> 'c \<Rightarrow> ('c \<times> rc) option" where
  "lsm_iterate_flushing lsm cb ctx =
     (case flushing lsm of
        None \<Rightarrow> Some (ctx, KANBUDB_ERR_INVAL)
      | Some mt \<Rightarrow> memtable_iterate mt cb ctx)"

definition lsm_destroy_flushing :: "kanbudb_lsm \<Rightarrow> kanbudb_lsm" where
  "lsm_destroy_flushing lsm = lsm\<lparr>flushing := None\<rparr>"

end
