(* ===== verification/Skip_Graph.thy ===== *)
theory Skip_Graph
  imports Prelude "HOL-Library.Option_ord"
begin

text \<open>
  The pointer structure behind the skip list of \<^verbatim>\<open>src/src/storage/lsm.c\<close>, seen as a graph: \<open>ok\<close>
  gives the key of a node (the header, node 0, is below every key), \<open>nx i\<close> its forward
  pointer on level \<open>i\<close>, and \<open>R i\<close> the nodes a search can stand on when it is on level \<open>i\<close>.
  The growing update of \<^verbatim>\<open>memtable_put\<close> cuts the upper levels behind the node it
  replaces, so the levels are not linked lists of everything on them; the invariant says
  what is left: a pointer leads to the next node of its level, and where a pointer is
  missing the next node can be entered from the level above.
\<close>

definition consec :: "(nat \<Rightarrow> 'k::linorder) \<Rightarrow> nat set \<Rightarrow> nat \<Rightarrow> nat \<Rightarrow> bool" where
  "consec ok S a b \<longleftrightarrow> ok a < ok b \<and> (\<forall>c\<in>S. \<not> (ok a < ok c \<and> ok c < ok b))"

text \<open>The node a search for \<open>k\<close> stops at on a level: the last one below the key.\<close>

definition is_pred :: "(nat \<Rightarrow> bytes option) \<Rightarrow> nat set \<Rightarrow> bytes \<Rightarrow> nat \<Rightarrow> bool" where
  "is_pred ok S k u \<longleftrightarrow> u \<in> S \<and> ok u < Some k \<and> (\<forall>c\<in>S. ok c < Some k \<longrightarrow> ok c \<le> ok u)"

definition skip_graph ::
  "(nat \<Rightarrow> bytes option) \<Rightarrow> (nat \<Rightarrow> nat \<Rightarrow> nat option) \<Rightarrow> (nat \<Rightarrow> nat set) \<Rightarrow> bool" where
  "skip_graph ok nx R \<longleftrightarrow>
     finite (R 0) \<and> ok 0 = None \<and> inj_on ok (R 0) \<and> (\<forall>i. 0 \<in> R i) \<and> (\<forall>i. R (Suc i) \<subseteq> R i) \<and>
     (\<forall>i. \<forall>a\<in>R i. \<forall>b. nx i a = Some b \<longrightarrow> b \<in> R i \<and> consec ok (R i) a b) \<and>
     (\<forall>i. \<forall>a\<in>R i. \<forall>b\<in>R i. consec ok (R i) a b \<longrightarrow> nx i a \<noteq> Some b \<longrightarrow> b \<in> R (Suc i)) \<and>
     (\<forall>a\<in>R 0. \<forall>b\<in>R 0. consec ok (R 0) a b \<longrightarrow> nx 0 a = Some b)"

lemma skip_graphD:
  assumes "skip_graph ok nx R"
  shows "finite (R 0)" "ok 0 = None" "inj_on ok (R 0)" "0 \<in> R i" "R (Suc i) \<subseteq> R i"
    "a \<in> R i \<Longrightarrow> nx i a = Some b \<Longrightarrow> b \<in> R i \<and> consec ok (R i) a b"
    "a \<in> R i \<Longrightarrow> b \<in> R i \<Longrightarrow> consec ok (R i) a b \<Longrightarrow> nx i a \<noteq> Some b \<Longrightarrow> b \<in> R (Suc i)"
    "a \<in> R 0 \<Longrightarrow> b \<in> R 0 \<Longrightarrow> consec ok (R 0) a b \<Longrightarrow> nx 0 a = Some b"
  using assms unfolding skip_graph_def by blast+

lemma skip_graph_mono:
  assumes "skip_graph ok nx R" and "i \<le> j" shows "R j \<subseteq> R i"
  by (rule lift_Suc_antimono_le [OF _ assms(2)]) (rule skip_graphD(5) [OF assms(1)])

lemma skip_graph_finite: "skip_graph ok nx R \<Longrightarrow> finite (R i)"
  using skip_graph_mono [of ok nx R 0 i] skip_graphD(1) finite_subset by blast

lemma skip_graph_inj:
  assumes "skip_graph ok nx R" and "a \<in> R i" and "b \<in> R j" and "ok a = ok b" shows "a = b"
  using skip_graph_mono [OF assms(1), of 0 i] skip_graph_mono [OF assms(1), of 0 j]
    skip_graphD(3) [OF assms(1)] assms(2-4)
  by (auto dest: inj_onD)

lemma next_exists:
  assumes "skip_graph ok nx R" and "a \<in> R i" and "c \<in> R i" and "ok a < ok c"
  obtains b where "b \<in> R i" "consec ok (R i) a b" "ok b \<le> ok c"
proof -
  let ?S = "{b \<in> R i. ok a < ok b}"
  have fin: "finite (ok ` ?S)" and ne: "ok ` ?S \<noteq> {}"
    using skip_graph_finite [OF assms(1)] assms(3,4) by auto
  obtain b where b: "b \<in> ?S" "ok b = Min (ok ` ?S)"
    using Min_in [OF fin ne] by auto
  have "ok b \<le> ok c'" if "c' \<in> ?S" for c' using b(2) fin that by simp
  then have "consec ok (R i) a b" "ok b \<le> ok c"
    using b(1) assms(3,4) by (fastforce simp: consec_def not_less [symmetric])+
  then show thesis using that b(1) by blast
qed

lemma is_pred_unique:
  "skip_graph ok nx R \<Longrightarrow> is_pred ok (R i) k u \<Longrightarrow> is_pred ok (R i) k v \<Longrightarrow> u = v"
  by (rule skip_graph_inj [of ok nx R u i v i]) (auto simp: is_pred_def intro: order_antisym)

section \<open>Insertion of a new node\<close>

definition ins_nx :: "nat \<Rightarrow> (nat \<Rightarrow> nat) \<Rightarrow> nat \<Rightarrow> (nat \<Rightarrow> nat \<Rightarrow> nat option) \<Rightarrow> nat \<Rightarrow> nat \<Rightarrow> nat option" where
  "ins_nx lvl u new nx i a =
     (if a = new then (if i \<le> lvl then nx i (u i) else None)
      else if i \<le> lvl \<and> a = u i then Some new else nx i a)"

definition ins_R :: "nat \<Rightarrow> nat \<Rightarrow> (nat \<Rightarrow> nat set) \<Rightarrow> nat \<Rightarrow> nat set" where
  "ins_R lvl new R i = (if i \<le> lvl then insert new (R i) else R i)"

lemma skip_graph_insert:
  assumes g: "skip_graph ok nx R" and new: "new \<notin> R 0" and k: "Some k \<notin> ok ` R 0"
    and u: "\<And>i. i \<le> lvl \<Longrightarrow> is_pred ok (R i) k (u i)"
  shows "skip_graph (ok(new := Some k)) (ins_nx lvl u new nx) (ins_R lvl new R)"
    (is "skip_graph ?ok ?nx ?R")
proof -
  note gd = skip_graphD [OF g]
  have sub: "R i \<subseteq> R 0" for i using skip_graph_mono [OF g, of 0 i] by simp
  have nR: "new \<notin> R i" for i using new sub by blast
  have okR: "?ok a = ok a" if "a \<in> R i" for a i using nR that by auto
  have neq: "ok a \<noteq> Some k" if "a \<in> R i" for a i using k subsetD [OF sub that] by force
  have uR: "u i \<in> R i" "ok (u i) < Some k" "\<And>c. c \<in> R i \<Longrightarrow> ok c < Some k \<Longrightarrow> ok c \<le> ok (u i)"
    if "i \<le> lvl" for i using u [OF that] by (auto simp: is_pred_def)
  have un: "u i \<noteq> new" if "i \<le> lvl" for i using uR(1) [OF that] nR by auto
  have above: "Some k < ok b" if "i \<le> lvl" "b \<in> R i" "ok (u i) < ok b" for i b
    using uR(3) [OF that(1,2)] that(3) neq [OF that(2)] by force
  have consecR: "consec ok (R i) a b" if "a \<in> R i" "b \<in> R i" "consec ?ok (?R i) a b" for i a b
    using that okR by (auto simp: consec_def ins_R_def split: if_splits)
  have to_new: "a = u i" if "i \<le> lvl" "a \<in> R i" "consec ?ok (?R i) a new" for i a
  proof -
    have "\<not> (ok a < ok (u i))" "ok a < Some k"
      using that uR [OF that(1)] okR nR by (auto simp: consec_def ins_R_def)
    with uR(3) [OF that(1,2)] have "ok a = ok (u i)" by auto
    then show ?thesis using skip_graph_inj [OF g that(2) uR(1) [OF that(1)]] by simp
  qed
  have from_new: "consec ok (R i) (u i) b" if "i \<le> lvl" "b \<in> R i" "consec ?ok (?R i) new b" for i b
  proof -
    have b: "Some k < ok b" "\<And>c. c \<in> R i \<Longrightarrow> \<not> (Some k < ok c \<and> ok c < ok b)"
      using that okR nR by (auto simp: consec_def ins_R_def)
    have "\<not> (ok (u i) < ok c \<and> ok c < ok b)" if c: "c \<in> R i" for c
      using b(2) [OF c] above [OF \<open>i \<le> lvl\<close> c] by blast
    then show ?thesis using b(1) uR(2) [OF that(1)] by (auto simp: consec_def)
  qed
  have pointer: "b \<in> ?R i \<and> consec ?ok (?R i) a b" if p: "a \<in> ?R i" "?nx i a = Some b" for i a b
  proof -
    have "i \<le> lvl \<and> nx i (u i) = Some b" if "a = new"
      using p(2) that by (simp add: ins_nx_def split: if_splits)
    moreover have "a \<in> R i" if "a \<noteq> new"
      using p(1) that by (simp add: ins_R_def split: if_splits)
    moreover have "b = new" if "a \<noteq> new" "i \<le> lvl \<and> a = u i"
      using p(2) that by (simp add: ins_nx_def)
    moreover have "nx i a = Some b" if "a \<noteq> new" "\<not> (i \<le> lvl \<and> a = u i)"
      using p(2) that unfolding ins_nx_def by (simp only: if_False simp_thms)
    ultimately consider (new) "i \<le> lvl" "a = new" "nx i (u i) = Some b"
      | (pred) "i \<le> lvl" "a = u i" "b = new" "a \<in> R i"
      | (other) "a \<in> R i" "nx i a = Some b" "i \<le> lvl \<longrightarrow> a \<noteq> u i"
      by blast
    then show ?thesis
    proof cases
      case new
      then have "b \<in> R i" "consec ok (R i) (u i) b" using gd(6) uR(1) by blast+
      then show ?thesis
        using new above [OF new(1), of b] okR uR(2) [OF new(1)] nR
        by (fastforce simp: consec_def ins_R_def)
    next
      case pred
      then show ?thesis
        using uR [OF pred(1)] okR nR by (fastforce simp: consec_def ins_R_def)
    next
      case other
      then have b: "b \<in> R i" "consec ok (R i) a b" using gd(6) by blast+
      have "\<not> (ok a < Some k \<and> Some k < ok b)" if "i \<le> lvl"
      proof
        assume k: "ok a < Some k \<and> Some k < ok b"
        then have "ok a \<le> ok (u i)" "ok (u i) < ok b" using uR [OF that] other(1) by force+
        then have "ok a = ok (u i)" using b(2) uR(1) [OF that] by (auto simp: consec_def)
        then show False using skip_graph_inj [OF g other(1) uR(1) [OF that]] other(3) that by simp
      qed
      then show ?thesis using b other(1) okR nR by (auto simp: consec_def ins_R_def)
    qed
  qed
  have gap: "if i = 0 then ?nx i a = Some b else b \<in> ?R (Suc i)"
    if p: "a \<in> ?R i" "b \<in> ?R i" "consec ?ok (?R i) a b" "?nx i a \<noteq> Some b" for i a b
  proof -
    have "a \<noteq> b" using p(3) by (auto simp: consec_def)
    then consider (to) "i \<le> lvl" "a \<in> R i" "b = new" | (fr) "i \<le> lvl" "a = new" "b \<in> R i"
      | (old) "a \<in> R i" "b \<in> R i"
      using p(1,2) by (auto simp: ins_R_def split: if_splits)
    then show ?thesis
    proof cases
      case to
      then show ?thesis using to_new p(3,4) un by (auto simp: ins_nx_def)
    next
      case fr
      then have "consec ok (R i) (u i) b" using from_new p(3) by simp
      then show ?thesis
        using fr p(4) gd(7) [OF uR(1)] gd(8) [OF uR(1)] by (auto simp: ins_nx_def ins_R_def)
    next
      case old
      have c: "consec ok (R i) a b" using consecR old p(3) .
      have "a \<noteq> u i" if "i \<le> lvl"
        using that p(3) above [OF that old(2)] uR(2) [OF that] okR old c nR
        by (auto simp: consec_def ins_R_def)
      then have "?nx i a = nx i a" using old nR by (auto simp: ins_nx_def)
      then show ?thesis using gd(7,8) c old p(4) by (auto simp: ins_R_def)
    qed
  qed
  show ?thesis
    unfolding skip_graph_def
  proof (intro conjI allI ballI impI)
    show "finite (?R 0)" using gd(1) by (simp add: ins_R_def)
    show "?ok 0 = None" using gd(2) gd(4) [of 0] new by (cases "new = 0") auto
    show "inj_on ?ok (?R 0)"
      using inj_on_fun_updI [OF gd(3) k, of new] new k by (auto simp: ins_R_def inj_on_insert fun_upd_image)
    fix i
    show "0 \<in> ?R i" using gd(4) by (simp add: ins_R_def)
    show "?R (Suc i) \<subseteq> ?R i" using gd(5) by (auto simp: ins_R_def)
  next
    fix i a b assume "a \<in> ?R i" "?nx i a = Some b"
    then show "b \<in> ?R i" "consec ?ok (?R i) a b" using pointer by blast+
  next
    fix i a b assume "a \<in> ?R i" "b \<in> ?R i" "consec ?ok (?R i) a b" "?nx i a \<noteq> Some b"
    then show "b \<in> ?R (Suc i)" using gap [of a i b] by (cases "i = 0") auto
  next
    fix a b assume "a \<in> ?R 0" "b \<in> ?R 0" "consec ?ok (?R 0) a b"
    then show "?nx 0 a = Some b" using gap [of a 0 b] by auto
  qed
qed

section \<open>Replacement of a node\<close>

text \<open>
  The growing update replaces \<open>x\<close> by \<open>new\<close>: the pointers the search found are redirected,
  the level-0 pointer is copied, the others start out empty. A search then no longer
  reaches the nodes behind \<open>new\<close> on the levels of \<open>x\<close>, unless a higher level leads past it.
\<close>

definition rep_nx :: "(nat \<Rightarrow> nat) \<Rightarrow> nat \<Rightarrow> nat \<Rightarrow> (nat \<Rightarrow> nat \<Rightarrow> nat option) \<Rightarrow> nat \<Rightarrow> nat \<Rightarrow> nat option" where
  "rep_nx u x new nx i a =
     (if a = new then (if i = 0 then nx 0 x else None)
      else if a = u i \<and> nx i a = Some x then Some new else nx i a)"

definition past :: "(nat \<Rightarrow> bytes option) \<Rightarrow> (nat \<Rightarrow> nat set) \<Rightarrow> nat \<Rightarrow> nat \<Rightarrow> bool" where
  "past ok R x a \<longleftrightarrow> (\<exists>j s. x \<notin> R j \<and> s \<in> R j \<and> ok x < ok s \<and> ok s \<le> ok a)"

definition rep_R :: "(nat \<Rightarrow> bytes option) \<Rightarrow> nat \<Rightarrow> nat \<Rightarrow> (nat \<Rightarrow> nat set) \<Rightarrow> nat \<Rightarrow> nat set" where
  "rep_R ok x new R i =
     (if x \<in> R i then insert new {a \<in> R i. ok a < ok x \<or> ok x < ok a \<and> (i = 0 \<or> past ok R x a)}
      else R i)"

lemma skip_graph_replace:
  assumes g: "skip_graph ok nx R" and new: "new \<notin> R 0" and x: "x \<in> R 0" "ok x = Some k"
    and u: "\<And>i. x \<in> R i \<Longrightarrow> is_pred ok (R i) k (u i)"
  shows "skip_graph (ok(new := Some k)) (rep_nx u x new nx) (rep_R ok x new R)"
    (is "skip_graph ?ok ?nx ?R")
proof -
  note gd = skip_graphD [OF g]
  have sub: "R i \<subseteq> R 0" for i using skip_graph_mono [OF g, of 0 i] by simp
  have nR: "new \<notin> R i" for i using new sub by blast
  have okR: "?ok a = ok a" if "a \<in> R i" for a i using nR that by auto
  have eqx: "a = x" if "a \<in> R i" "ok a = ok x" for a i using skip_graph_inj [OF g that(1) x(1) that(2)] .
  have uR: "u i \<in> R i" "ok (u i) < ok x" "\<And>c. c \<in> R i \<Longrightarrow> ok c < ok x \<Longrightarrow> ok c \<le> ok (u i)"
    if "x \<in> R i" for i using u [OF that] x(2) by (auto simp: is_pred_def)
  have keep: "a \<in> ?R i" if "a \<in> R i" "x \<in> R i \<Longrightarrow> ok a < ok x \<or> ok x < ok a \<and> (i = 0 \<or> past ok R x a)" for a i
    using that by (auto simp: rep_R_def)
  have old: "a \<in> R i \<and> a \<noteq> x \<and> (x \<in> R i \<longrightarrow> ok a < ok x \<or> ok x < ok a \<and> (i = 0 \<or> past ok R x a))"
    if "a \<in> ?R i" "a \<noteq> new" for a i
    using that by (auto simp: rep_R_def split: if_splits)
  have up: "past ok R x a" if "past ok R x s" "ok s \<le> ok a" for a s
    using that order_trans unfolding past_def by blast
  have lift: "b \<in> ?R (Suc i)" if "b \<in> R (Suc i)" "b \<noteq> x" "ok b < ok x \<or> past ok R x b \<or> x \<notin> R (Suc i)" for b i
    using that by (auto simp: rep_R_def past_def)
  have nxx: "nx i a = Some x \<Longrightarrow> a \<in> R i \<Longrightarrow> x \<in> R i \<and> a = u i" for i a
  proof -
    assume p: "nx i a = Some x" "a \<in> R i"
    then have xc: "x \<in> R i" "consec ok (R i) a x" using gd(6) by blast+
    then have "ok a = ok (u i)" using uR [OF xc(1)] p(2) by (force simp: consec_def)
    then show ?thesis using xc(1) skip_graph_inj [OF g p(2) uR(1) [OF xc(1)]] by simp
  qed
  have newR: "x \<in> R i" if "new \<in> ?R i" for i using that nR by (auto simp: rep_R_def split: if_splits)
  have Rnew: "new \<in> ?R i" if "x \<in> R i" for i using that by (simp add: rep_R_def)
  have okn: "?ok new = ok x" using x(2) by simp
  have toC: "consec ?ok (?R i) a b"
    if "\<And>c. c \<in> R i \<Longrightarrow> \<not> (?ok a < ok c \<and> ok c < ?ok b)" "?ok a < ?ok b"
      "x \<in> R i \<Longrightarrow> \<not> (?ok a < ok x \<and> ok x < ?ok b)" for i a b
    unfolding consec_def
  proof (intro conjI ballI)
    fix c assume "c \<in> ?R i"
    then show "\<not> (?ok a < ?ok c \<and> ?ok c < ?ok b)"
      using that(1) [of c] that(3) newR okn okR old by (cases "c = new") metis+
  qed (rule that(2))
  have pointer: "b \<in> ?R i \<and> consec ?ok (?R i) a b" if p: "a \<in> ?R i" "?nx i a = Some b" for i a b
  proof (cases "a = new")
    case True
    then have i: "i = 0" "nx 0 x = Some b" using p(2) by (simp_all add: rep_nx_def split: if_splits)
    then have b: "b \<in> R 0" "consec ok (R 0) x b" using gd(6) x(1) by blast+
    then have "b \<in> ?R 0" by (intro keep) (auto simp: consec_def)
    moreover have "consec ?ok (?R 0) a b"
      using b True okn okR [OF b(1)] by (intro toC) (auto simp: consec_def)
    ultimately show ?thesis using i(1) by simp
  next
    case False
    note a = old [OF p(1) False]
    show ?thesis
    proof (cases "nx i a = Some x")
      case True
      then have xi: "x \<in> R i" "a = u i" using nxx a by blast+
      have bn: "b = new" using p(2) False True xi(2) by (simp add: rep_nx_def)
      have "consec ok (R i) a x" using gd(6) True a by blast
      moreover have oa: "?ok a = ok a" using okR a by blast
      ultimately have "consec ?ok (?R i) a new"
        by (intro toC) (simp_all only: oa okn consec_def, auto)
      then show ?thesis using Rnew [OF xi(1)] bn by simp
    next
      case ne: False
      then have nb: "nx i a = Some b" using p(2) False by (simp add: rep_nx_def split: if_splits)
      then have b: "b \<in> R i" "consec ok (R i) a b" using gd(6) a by blast+
      have "b \<noteq> x" using ne nb by auto
      have "b \<in> ?R i"
      proof (rule keep [OF b(1)])
        assume xi: "x \<in> R i"
        then have "\<not> (ok a < ok x \<and> ok x < ok b)" "ok a < ok b" using b(2) by (auto simp: consec_def)
        then show "ok b < ok x \<or> ok x < ok b \<and> (i = 0 \<or> past ok R x b)"
          using a xi eqx [OF b(1)] \<open>b \<noteq> x\<close> up [of a b] by (meson less_imp_le less_trans linorder_neqE)
      qed
      moreover have oab: "?ok a = ok a" "?ok b = ok b" using okR a b(1) by blast+
      have "consec ?ok (?R i) a b"
        using b(2) by (intro toC) (simp_all only: oab consec_def, auto)
      ultimately show ?thesis by simp
    qed
  qed
  have gap: "b \<in> ?R (Suc i) \<and> i \<noteq> 0"
    if p: "a \<in> ?R i" "b \<in> ?R i" "consec ?ok (?R i) a b" "?nx i a \<noteq> Some b" for i a b
  proof -
    have bt: "\<not> (?ok a < ?ok c \<and> ?ok c < ?ok b)" if "c \<in> ?R i" for c
      using p(3) that by (simp add: consec_def)
    have lt: "?ok a < ?ok b" using p(3) by (simp add: consec_def)
    consider (absent) "x \<notin> R i" | (fr) "x \<in> R i" "a = new" | (to) "x \<in> R i" "b = new" "a \<noteq> new"
      | (both) "x \<in> R i" "a \<noteq> new" "b \<noteq> new" by blast
    then show ?thesis
    proof cases
      case absent
      then have ab: "a \<noteq> new" "b \<noteq> new" using p(1,2) newR by blast+
      note a = old [OF p(1) ab(1)] and b = old [OF p(2) ab(2)]
      have "consec ok (R i) a b" using p(3) absent okR a b by (auto simp: consec_def rep_R_def)
      moreover have "nx i a \<noteq> Some b"
        using p(4) ab(1) nxx [of i a] absent a by (auto simp: rep_nx_def split: if_splits)
      ultimately have "b \<in> R (Suc i)" using gd(7) a b by blast
      moreover have "x \<notin> R (Suc i)" using absent gd(5) by blast
      moreover have "i \<noteq> 0" using absent x(1) by metis
      ultimately show ?thesis using lift b by blast
    next
      case fr
      have bn: "b \<noteq> new" using lt fr(2) by auto
      note b = old [OF p(2) bn]
      have xb: "ok x < ok b" using lt fr(2) okn okR b by metis
      then have "i = 0 \<or> past ok R x b" using b fr(1) by (meson less_asym)
      moreover have "i \<noteq> 0"
      proof
        assume i: "i = 0"
        have "\<not> (ok x < ok c \<and> ok c < ok b)" if "c \<in> R 0" for c
          using bt [of c] keep [of c 0] that fr(2) okn okR [OF that] okR b i by metis
        then have "nx 0 x = Some b" using gd(8) x(1) b i xb by (auto simp: consec_def)
        then show False using p(4) fr(2) i by (simp add: rep_nx_def)
      qed
      ultimately obtain j s where s: "x \<notin> R j" "s \<in> R j" "ok x < ok s" "ok s \<le> ok b" by (auto simp: past_def)
      then have ji: "i < j" using skip_graph_mono [OF g, of j i] fr(1) by (meson not_le subsetD)
      then have si: "s \<in> R i" "s \<in> R (Suc i)"
        using skip_graph_mono [OF g, of i j] skip_graph_mono [OF g, of "Suc i" j] s(2) by auto
      have "past ok R x s" using s by (auto simp: past_def)
      then have "s \<in> ?R i" using keep si(1) s(3) by blast
      then have "ok b \<le> ok s" using bt [of s] fr(2) okn okR si(1) b s(3) by (metis not_less)
      with s(4) have "ok s = ok b" by (rule order_antisym)
      then have "s = b" using skip_graph_inj [OF g si(1)] b by blast
      then show ?thesis using lift si(2) b \<open>past ok R x s\<close> \<open>i \<noteq> 0\<close> by blast
    next
      case to
      note a = old [OF p(1) to(3)]
      have ax: "ok a < ok x" using lt to(2) okn okR a by metis
      have "u i \<in> ?R i" using keep uR [OF to(1)] by blast
      then have "\<not> ok a < ok (u i)" using bt [of "u i"] to(2) okn okR a uR [OF to(1)] by metis
      then have "ok a = ok (u i)" using uR(3) [OF to(1)] a ax by (meson order_le_less)
      then have au: "a = u i" using skip_graph_inj [OF g _ uR(1) [OF to(1)]] a by blast
      have "nx i a \<noteq> Some x" using p(4) to(2,3) au by (auto simp: rep_nx_def)
      moreover have "consec ok (R i) a x" using uR [OF to(1)] au by (force simp: consec_def)
      ultimately have "x \<in> R (Suc i)" "i \<noteq> 0"
        using gd(7) [of a i x] gd(8) [of a x] conjunct1 [OF a] to(1) by metis+
      then show ?thesis using Rnew to(2) by simp
    next
      case both
      note a = old [OF p(1) both(2)] and b = old [OF p(2) both(3)]
      have oab: "?ok a = ok a" "?ok b = ok b" using okR a b by blast+
      have nn: "\<not> (ok a < ok x \<and> ok x < ok b)" using bt [OF Rnew [OF both(1)]] unfolding okn oab .
      have c: "consec ok (R i) a b"
        unfolding consec_def
      proof (intro conjI ballI notI)
        fix c assume c: "c \<in> R i" "ok a < ok c \<and> ok c < ok b"
        then have "c \<notin> ?R i" using bt [of c] oab okR [OF c(1)] by auto
        then have nc: "\<not> (ok c < ok x \<or> ok x < ok c \<and> (i = 0 \<or> past ok R x c))"
          using keep [OF c(1)] by blast
        have "ok c \<noteq> ok x" using c(2) nn by auto
        with nc have xc: "ok x < ok c" "i \<noteq> 0" "\<not> past ok R x c" by auto
        then have "\<not> ok a < ok x" using nn c(2) by (meson less_trans)
        then have "past ok R x a" using a both(1) xc(2) by blast
        then show False using up [of a c] xc(3) c(2) by (auto simp: less_imp_le)
      qed (use lt oab in simp)
      have "nx i a \<noteq> Some x"
      proof
        assume "nx i a = Some x"
        then have "consec ok (R i) a x" using gd(6) a by blast
        then show False using c nn b both(1) eqx [of b i] by (auto simp: consec_def)
      qed
      then have "nx i a \<noteq> Some b" using p(4) both(2) by (auto simp: rep_nx_def)
      then have "b \<in> R (Suc i)" "i \<noteq> 0"
        using gd(7) [of a i b] gd(8) [of a b] conjunct1 [OF a] conjunct1 [OF b] c by metis+
      then show ?thesis using lift b both(1) by blast
    qed
  qed
  show ?thesis
    unfolding skip_graph_def
  proof (intro conjI allI ballI impI)
    show "finite (?R 0)" using gd(1) by (simp add: rep_R_def)
    show "?ok 0 = None" using gd(2) gd(4) [of 0] new by (cases "new = 0") auto
    show "inj_on ?ok (?R 0)"
    proof (rule inj_onI)
      fix a b assume ab: "a \<in> ?R 0" "b \<in> ?R 0" "?ok a = ?ok b"
      show "a = b"
        using ab old [of a 0] old [of b 0] okn okR [of a 0] okR [of b 0] eqx [of a 0] eqx [of b 0]
          skip_graph_inj [OF g, of a 0 b 0]
        by metis
    qed
    fix i
    show "0 \<in> ?R i" using gd(2) gd(4) [of i] x(2) keep [of 0 i] by simp
    show "?R (Suc i) \<subseteq> ?R i"
    proof
      fix a assume a: "a \<in> ?R (Suc i)"
      show "a \<in> ?R i"
      proof (cases "a = new")
        case True
        then show ?thesis using Rnew newR a gd(5) by blast
      next
        case False
        note o = old [OF a False]
        then have ai: "a \<in> R i" using gd(5) by blast
        show ?thesis
        proof (rule keep [OF ai])
          assume "x \<in> R i"
          show "ok a < ok x \<or> ok x < ok a \<and> (i = 0 \<or> past ok R x a)"
          proof (cases "x \<in> R (Suc i)")
            case True
            then show ?thesis using o by blast
          next
            case False
            then show ?thesis using o eqx [of a "Suc i"] unfolding past_def by (metis linorder_neqE order_refl)
          qed
        qed
      qed
    qed
  next
    fix i a b assume "a \<in> ?R i" "?nx i a = Some b"
    then show "b \<in> ?R i" "consec ?ok (?R i) a b" using pointer by blast+
  next
    fix i a b assume "a \<in> ?R i" "b \<in> ?R i" "consec ?ok (?R i) a b" "?nx i a \<noteq> Some b"
    then show "b \<in> ?R (Suc i)" using gap by blast
  next
    fix a b assume "a \<in> ?R 0" "b \<in> ?R 0" "consec ?ok (?R 0) a b"
    then show "?nx 0 a = Some b" using gap by blast
  qed
qed

lemma consec_cong:
  assumes "\<And>c. c \<in> S \<Longrightarrow> ok c = ok' c" and "a \<in> S" and "b \<in> S"
  shows "consec ok S a b = consec ok' S a b"
  using assms by (simp add: consec_def)

lemma skip_graph_cong:
  assumes g: "skip_graph ok nx R" and ok: "\<And>a. a \<in> R 0 \<Longrightarrow> ok' a = ok a"
    and nx: "\<And>i a. a \<in> R i \<Longrightarrow> nx' i a = nx i a"
  shows "skip_graph ok' nx' R"
proof -
  note gd = skip_graphD [OF g]
  have ok': "ok' a = ok a" if "a \<in> R i" for a i
    using that ok skip_graph_mono [OF g, of 0 i] by blast
  have c: "consec ok' (R i) a b = consec ok (R i) a b" if "a \<in> R i" "b \<in> R i" for i a b
    using consec_cong [of "R i" ok' ok a b] ok' that by blast
  show ?thesis
    unfolding skip_graph_def
  proof (intro conjI allI ballI impI)
    show "inj_on ok' (R 0)" using gd(3) ok by (simp cong: inj_on_cong)
    show "ok' 0 = None" using gd(2) ok gd(4) by simp
    fix i a b assume a: "a \<in> R i" "nx' i a = Some b"
    then have "b \<in> R i" "consec ok (R i) a b" using gd(6) nx by metis+
    then show "b \<in> R i" "consec ok' (R i) a b" using c a(1) by blast+
  next
    fix i a b assume "a \<in> R i" "b \<in> R i" "consec ok' (R i) a b" "nx' i a \<noteq> Some b"
    then show "b \<in> R (Suc i)" using gd(7) c nx by metis
  next
    fix a b assume "a \<in> R 0" "b \<in> R 0" "consec ok' (R 0) a b"
    then show "nx' 0 a = Some b" using gd(8) c nx by metis
  qed (use gd in auto)
qed

end
