(* ===== verification/Lsm_Correct.thy ===== *)
theory Lsm_Correct
  imports Lsm Skip_Graph
begin

text \<open>
  Correctness of the memtable and of the LSM front. The heap of skip nodes always carries a
  skip graph; under that invariant no operation follows a dangling pointer or runs out
  of fuel, and \<^verbatim>\<open>memtable_put\<close>, \<^verbatim>\<open>memtable_delete\<close> and \<^verbatim>\<open>memtable_get\<close> behave as a map from keys
  to entries, whatever levels the random generator produces.
\<close>

section \<open>The heap as a graph\<close>

definition okey :: "kanbudb_memtable \<Rightarrow> skip_addr \<Rightarrow> bytes option" where
  "okey mt a = (if a = 0 then None else map_option nkey (heap mt a))"

definition nxt :: "kanbudb_memtable \<Rightarrow> nat \<Rightarrow> skip_addr \<Rightarrow> skip_addr option" where
  "nxt mt i a = (case read_fwd mt a i of None \<Rightarrow> None | Some p \<Rightarrow> p)"

definition mt_graph :: "kanbudb_memtable \<Rightarrow> (nat \<Rightarrow> skip_addr set) \<Rightarrow> bool" where
  "mt_graph mt R \<longleftrightarrow>
     header mt = 0 \<and> mlevel mt < MAX_LEVEL \<and> R 0 \<subseteq> {..<next_free mt} \<and>
     skip_graph (okey mt) (nxt mt) R \<and> (\<forall>i>mlevel mt. R i = {0}) \<and>
     (\<forall>i<MAX_LEVEL. \<forall>a\<in>R i. read_fwd mt a i \<noteq> None) \<and>
     (\<forall>a\<in>R 0. \<forall>n. heap mt a = Some n \<longrightarrow> length (fwd n) = Suc (nlevel n))"

definition mt_inv :: "kanbudb_memtable \<Rightarrow> bool" where
  "mt_inv mt \<longleftrightarrow> (\<exists>R. mt_graph mt R)"

lemma mt_graphD:
  assumes "mt_graph mt R"
  shows "header mt = 0" "mlevel mt < MAX_LEVEL" "a \<in> R 0 \<Longrightarrow> a < next_free mt"
    "skip_graph (okey mt) (nxt mt) R" "mlevel mt < i \<Longrightarrow> R i = {0}"
    "i < MAX_LEVEL \<Longrightarrow> a \<in> R i \<Longrightarrow> \<exists>p. read_fwd mt a i = Some p \<and> nxt mt i a = p"
    "a \<in> R 0 \<Longrightarrow> heap mt a = Some n \<Longrightarrow> length (fwd n) = Suc (nlevel n)"
  using assms by (auto simp: mt_graph_def nxt_def split: option.splits)

lemma mt_graph_live:
  assumes "mt_graph mt R" and "a \<in> R i"
  obtains n where "heap mt a = Some n"
proof -
  have "a \<in> R 0" using skip_graph_mono [OF mt_graphD(4) [OF assms(1)], of 0 i] assms(2) by auto
  then obtain p where "read_fwd mt a 0 = Some p"
    using mt_graphD(6) [OF assms(1), of 0 a] by (auto simp: MAX_LEVEL_def)
  then show thesis using that by (auto simp: read_fwd_def split: option.splits)
qed

lemma okey_live: "a \<noteq> 0 \<Longrightarrow> heap mt a = Some n \<Longrightarrow> okey mt a = Some (nkey n)"
  by (simp add: okey_def)

section \<open>Searching\<close>

lemma card_above_less:
  assumes "finite S" and "b \<in> S" and "ok a < (ok b :: 'k::linorder)"
  shows "card {c \<in> S. ok b < ok c} < card {c \<in> S. ok a < ok c}"
proof (rule psubset_card_mono)
  show "finite {c \<in> S. ok a < ok c}" using assms(1) by simp
  show "{c \<in> S. ok b < ok c} \<subset> {c \<in> S. ok a < ok c}" using assms(2,3) by auto
qed

lemma walk_correct:
  assumes g: "mt_graph mt R" and i: "i < MAX_LEVEL"
  shows "x \<in> R i \<Longrightarrow> okey mt x < Some key \<Longrightarrow>
    (\<forall>b\<in>R (Suc i). okey mt b < Some key \<longrightarrow> okey mt b \<le> okey mt x) \<Longrightarrow>
    card {b \<in> R i. okey mt x < okey mt b} < f \<Longrightarrow>
    \<exists>y. walk f mt i key x = Some y \<and> is_pred (okey mt) (R i) key y"
proof (induction f arbitrary: x)
  case (Suc f)
  note sg = mt_graphD(4) [OF g] and gd = skip_graphD [OF mt_graphD(4) [OF g]]
  obtain p where p: "read_fwd mt x i = Some p" "nxt mt i x = p" using mt_graphD(6) [OF g i Suc.prems(1)] by auto
  have entered: "p = Some b" if "b \<in> R i" "consec (okey mt) (R i) x b" "okey mt b < Some key" for b
  proof (rule ccontr)
    assume "p \<noteq> Some b"
    then have "b \<in> R (Suc i)" using gd(7) [OF Suc.prems(1) that(1,2)] p(2) by simp
    then have "okey mt b \<le> okey mt x" using Suc.prems(3) that(3) by blast
    then show False using that(2) by (simp add: consec_def leD)
  qed
  show ?case
  proof (cases p)
    case None
    have "okey mt c \<le> okey mt x" if c: "c \<in> R i" "okey mt c < Some key" for c
    proof (rule ccontr)
      assume "\<not> okey mt c \<le> okey mt x"
      then have "okey mt x < okey mt c" by simp
      then obtain b where b: "b \<in> R i" "consec (okey mt) (R i) x b" "okey mt b \<le> okey mt c"
        by (rule next_exists [OF sg Suc.prems(1) c(1)])
      have "okey mt b < Some key" using b(3) c(2) by (rule le_less_trans)
      then show False using entered [OF b(1,2)] None by simp
    qed
    then have "is_pred (okey mt) (R i) key x" using Suc.prems(1,2) by (simp add: is_pred_def)
    then show ?thesis using p(1) None by simp
  next
    case (Some b)
    then have b: "b \<in> R i" "consec (okey mt) (R i) x b" using gd(6) Suc.prems(1) p(2) by blast+
    obtain n where n: "heap mt b = Some n" using mt_graph_live [OF g b(1)] .
    have b0: "b \<noteq> 0" by (rule notI) (use b(2) gd(2) in \<open>simp add: consec_def\<close>)
    then have ob: "okey mt b = Some (nkey n)" using okey_live n by simp
    show ?thesis
    proof (cases "nkey n < key")
      case True
      have "\<forall>c\<in>R (Suc i). okey mt c < Some key \<longrightarrow> okey mt c \<le> okey mt b"
        using Suc.prems(3) b(2) unfolding consec_def by (meson less_imp_le order_trans)
      moreover have "card {c \<in> R i. okey mt b < okey mt c} < f"
        using card_above_less [of "R i" b "okey mt" x] skip_graph_finite [OF sg] b Suc.prems(4)
        by (fastforce simp: consec_def)
      ultimately show ?thesis
        using Suc.IH [of b] b(1) True ob p(1) Some n by (simp add: cmp_simps)
    next
      case False
      have kb: "Some key \<le> okey mt b" using False ob by (simp add: not_less)
      have "okey mt c \<le> okey mt x" if c: "c \<in> R i" "okey mt c < Some key" for c
      proof -
        have "okey mt c < okey mt b" using c(2) kb by (rule less_le_trans)
        then show ?thesis using b(2) c(1) by (auto simp: consec_def not_less [symmetric])
      qed
      then have "is_pred (okey mt) (R i) key x" using Suc.prems(1,2) by (simp add: is_pred_def)
      then show ?thesis using p(1) Some n False by (simp add: cmp_simps)
    qed
  qed
qed simp

lemma card_above_bound:
  assumes "mt_graph mt R" and "x \<in> R i"
  shows "card {b \<in> R i. okey mt x < okey mt b} < next_free mt"
proof -
  have sub: "R i \<subseteq> {..<next_free mt}"
    using skip_graph_mono [OF mt_graphD(4) [OF assms(1)], of 0 i] mt_graphD(3) [OF assms(1)] by auto
  have "card {b \<in> R i. okey mt x < okey mt b} < card (R i)"
    using assms(2) finite_subset [OF sub] by (intro psubset_card_mono) auto
  also have "card (R i) \<le> next_free mt" using card_mono [OF _ sub] by simp
  finally show ?thesis .
qed

lemma find_update_correct:
  assumes g: "mt_graph mt R"
  shows "j \<le> MAX_LEVEL \<Longrightarrow> (\<forall>i. Suc i = j \<longrightarrow> x \<in> R i) \<Longrightarrow> okey mt x < Some key \<Longrightarrow>
    (\<forall>b\<in>R j. okey mt b < Some key \<longrightarrow> okey mt b \<le> okey mt x) \<Longrightarrow>
    \<exists>us. find_update mt key j x = Some us \<and> length us = j \<and>
      (\<forall>i<j. is_pred (okey mt) (R i) key (us ! i))"
proof (induction j arbitrary: x)
  case (Suc i)
  have x: "x \<in> R i" and i: "i < MAX_LEVEL" using Suc.prems by auto
  obtain y where y: "walk (next_free mt) mt i key x = Some y" "is_pred (okey mt) (R i) key y"
    using walk_correct [OF g i x Suc.prems(3,4) card_above_bound [OF g x]] by blast
  have "\<forall>k. Suc k = i \<longrightarrow> y \<in> R k"
    using y(2) skip_graphD(5) [OF mt_graphD(4) [OF g]] by (auto simp: is_pred_def)
  then obtain us where "find_update mt key i y = Some us" "length us = i"
    "\<forall>k<i. is_pred (okey mt) (R k) key (us ! k)"
    using Suc.IH [of y] y(2) i by (auto simp: is_pred_def)
  then show ?case using y by (auto simp: nth_append less_Suc_eq)
qed simp

lemma find_update_header:
  assumes g: "mt_graph mt R"
  obtains us where "find_update mt key (Suc (mlevel mt)) (header mt) = Some us"
    "length us = Suc (mlevel mt)" "\<And>i. i \<le> mlevel mt \<Longrightarrow> is_pred (okey mt) (R i) key (us ! i)"
proof -
  have "okey mt 0 = None" "0 \<in> R (mlevel mt)" using skip_graphD [OF mt_graphD(4) [OF g]] by auto
  then show thesis
    using find_update_correct [OF g, of "Suc (mlevel mt)" 0 key] mt_graphD [OF g] that
    by (auto simp: less_Suc_eq_le)
qed

section \<open>Pointer updates\<close>

text \<open>Two memtables that differ only in forward pointers.\<close>

definition node_data :: "skip_node \<Rightarrow> u64 \<times> bytes \<times> bytes \<times> bool \<times> nat \<times> nat" where
  "node_data n = (nseq n, nkey n, nval n, ndeleted n, nlevel n, length (fwd n))"

definition same_nodes :: "kanbudb_memtable \<Rightarrow> kanbudb_memtable \<Rightarrow> bool" where
  "same_nodes mt mt' \<longleftrightarrow>
     header mt' = header mt \<and> mlevel mt' = mlevel mt \<and> next_free mt' = next_free mt \<and>
     size_limit mt' = size_limit mt \<and> used mt' = used mt \<and>
     (\<forall>a. map_option node_data (heap mt' a) = map_option node_data (heap mt a))"

lemma same_nodes_refl: "same_nodes mt mt"
  by (simp add: same_nodes_def)

lemma same_nodes_trans: "same_nodes a b \<Longrightarrow> same_nodes b c \<Longrightarrow> same_nodes a c"
  by (simp add: same_nodes_def)

lemma same_nodesD:
  assumes "same_nodes mt mt'"
  shows "header mt' = header mt" "mlevel mt' = mlevel mt" "next_free mt' = next_free mt"
    "size_limit mt' = size_limit mt" "used mt' = used mt"
    "okey mt' a = okey mt a" "read_fwd mt' a i = None \<longleftrightarrow> read_fwd mt a i = None"
    "heap mt' a = None \<longleftrightarrow> heap mt a = None"
proof -
  have d: "map_option node_data (heap mt' a) = map_option node_data (heap mt a)"
    using assms by (simp add: same_nodes_def)
  show "okey mt' a = okey mt a"
    using d by (cases "heap mt a"; cases "heap mt' a") (simp_all add: okey_def node_data_def)
  show "read_fwd mt' a i = None \<longleftrightarrow> read_fwd mt a i = None"
    using d by (cases "heap mt a"; cases "heap mt' a") (simp_all add: read_fwd_def node_data_def)
  show "heap mt' a = None \<longleftrightarrow> heap mt a = None"
    using d by (cases "heap mt a"; cases "heap mt' a") simp_all
qed (use assms in \<open>simp_all add: same_nodes_def\<close>)

lemma same_nodes_node:
  assumes "same_nodes mt mt'" and "heap mt' a = Some n"
  obtains n0 where "heap mt a = Some n0" "node_data n = node_data n0"
  using assms by (cases "heap mt a") (auto simp: same_nodes_def dest!: spec [of _ a])

lemma write_fwd_ok:
  assumes "read_fwd mt x i \<noteq> None"
  obtains mt' where "write_fwd mt x i p = Some mt'" "same_nodes mt mt'"
    "nxt mt' = (\<lambda>j a. if j = i \<and> a = x then p else nxt mt j a)"
proof -
  obtain n where n: "heap mt x = Some n" "i < length (fwd n)"
    using assms by (auto simp: read_fwd_def split: option.splits if_splits)
  let ?mt = "mt\<lparr>heap := (heap mt)(x \<mapsto> n\<lparr>fwd := (fwd n)[i := p]\<rparr>)\<rparr>"
  have "write_fwd mt x i p = Some ?mt" using n by (simp add: write_fwd_def)
  moreover have "same_nodes mt ?mt" using n by (auto simp: same_nodes_def node_data_def)
  moreover have "nxt ?mt = (\<lambda>j a. if j = i \<and> a = x then p else nxt mt j a)"
    using n by (auto simp: nxt_def read_fwd_def fun_eq_iff split: option.splits)
  ultimately show thesis using that by blast
qed

lemma link_levels_ok:
  assumes "\<And>i. i < j \<Longrightarrow> us ! i \<noteq> new \<and> read_fwd mt (us ! i) i \<noteq> None \<and> read_fwd mt new i \<noteq> None"
  shows "\<exists>mt'. link_levels mt us new j = Some mt' \<and> same_nodes mt mt' \<and>
    nxt mt' = (\<lambda>i a. if i < j \<and> a = new then nxt mt i (us ! i)
                    else if i < j \<and> a = us ! i then Some new else nxt mt i a)"
  using assms
proof (induction j)
  case 0
  then show ?case using same_nodes_refl by auto
next
  case (Suc j)
  let ?f = "\<lambda>j i a. if i < j \<and> a = new then nxt mt i (us ! i)
                  else if i < j \<and> a = us ! i then Some new else nxt mt i a"
  obtain m1 where m1: "link_levels mt us new j = Some m1" "same_nodes mt m1" "nxt m1 = ?f j"
    using Suc by auto
  have pre: "us ! j \<noteq> new" "read_fwd m1 (us ! j) j \<noteq> None" "read_fwd m1 new j \<noteq> None"
    using Suc.prems [of j] same_nodesD(7) [OF m1(2)] by auto
  then obtain q where q: "read_fwd m1 (us ! j) j = Some q" by auto
  have "nxt m1 j (us ! j) = q" using q by (simp add: nxt_def)
  then have q': "q = nxt mt j (us ! j)" using m1(3) pre(1) by simp
  obtain m2 where m2: "write_fwd m1 new j q = Some m2" "same_nodes m1 m2"
    "nxt m2 = (\<lambda>i a. if i = j \<and> a = new then q else nxt m1 i a)"
    by (rule write_fwd_ok [OF pre(3)])
  have "read_fwd m2 (us ! j) j \<noteq> None" using pre(2) same_nodesD(7) [OF m2(2)] by simp
  then obtain m3 where m3: "write_fwd m2 (us ! j) j (Some new) = Some m3" "same_nodes m2 m3"
    "nxt m3 = (\<lambda>i a. if i = j \<and> a = us ! j then Some new else nxt m2 i a)"
    by (rule write_fwd_ok)
  have "nxt m3 = ?f (Suc j)"
    using m1(3) m2(3) m3(3) q' pre(1) by (auto simp: fun_eq_iff less_Suc_eq)
  moreover have "same_nodes mt m3"
    by (rule same_nodes_trans [OF same_nodes_trans [OF m1(2) m2(2)] m3(2)])
  moreover have "link_levels mt us new (Suc j) = Some m3" using m1(1) q m2(1) m3(1) by simp
  ultimately show ?case by blast
qed

lemma relink_levels_ok:
  assumes "\<And>i. i < j \<Longrightarrow> read_fwd mt (us ! i) i \<noteq> None"
  shows "\<exists>mt'. relink_levels mt us x new j = Some mt' \<and> same_nodes mt mt' \<and>
    nxt mt' = (\<lambda>i a. if i < j \<and> a = us ! i \<and> nxt mt i a = Some x then Some new else nxt mt i a)"
  using assms
proof (induction j)
  case 0
  then show ?case using same_nodes_refl by auto
next
  case (Suc j)
  let ?f = "\<lambda>j i a. if i < j \<and> a = us ! i \<and> nxt mt i a = Some x then Some new else nxt mt i a"
  obtain m1 where m1: "relink_levels mt us x new j = Some m1" "same_nodes mt m1" "nxt m1 = ?f j"
    using Suc by auto
  have pre: "read_fwd m1 (us ! j) j \<noteq> None"
    using Suc.prems [of j] same_nodesD(7) [OF m1(2)] by auto
  then obtain q where q: "read_fwd m1 (us ! j) j = Some q" by auto
  have "nxt m1 j (us ! j) = q" using q by (simp add: nxt_def)
  then have q': "q = nxt mt j (us ! j)" using m1(3) by simp
  show ?case
  proof (cases "q = Some x")
    case True
    obtain m2 where m2: "write_fwd m1 (us ! j) j (Some new) = Some m2" "same_nodes m1 m2"
      "nxt m2 = (\<lambda>i a. if i = j \<and> a = us ! j then Some new else nxt m1 i a)"
      by (rule write_fwd_ok [OF pre])
    have "nxt m2 = ?f (Suc j)"
      using m1(3) m2(3) q' True by (auto simp: fun_eq_iff less_Suc_eq)
    moreover have "same_nodes mt m2" by (rule same_nodes_trans [OF m1(2) m2(2)])
    moreover have "relink_levels mt us x new (Suc j) = Some m2" using m1(1) q m2(1) True by simp
    ultimately show ?thesis by blast
  next
    case False
    then have "nxt m1 = ?f (Suc j)" using m1(3) q' by (auto simp: fun_eq_iff less_Suc_eq)
    moreover have "relink_levels mt us x new (Suc j) = Some m1" using m1(1) q False by simp
    ultimately show ?thesis using m1(2) by blast
  qed
qed

section \<open>The contents\<close>

type_synonym cell = "u64 \<times> bytes \<times> bool"

definition cell_of :: "skip_node \<Rightarrow> cell" where
  "cell_of n = (nseq n, nval n, ndeleted n)"

definition live :: "kanbudb_memtable \<Rightarrow> (nat \<Rightarrow> skip_addr set) \<Rightarrow> (bytes \<times> cell) set" where
  "live mt R = {(nkey n, cell_of n) | a n. a \<in> R 0 \<and> a \<noteq> 0 \<and> heap mt a = Some n}"

definition memtable_lookup :: "kanbudb_memtable \<Rightarrow> bytes \<Rightarrow> cell option" where
  "memtable_lookup mt key =
     (case scan0 (next_free mt) mt key (header mt) of
        Some (Some (x, n)) \<Rightarrow> Some (cell_of n)
      | _ \<Rightarrow> None)"

lemma scan0_correct:
  assumes g: "mt_graph mt R"
  shows "x \<in> R 0 \<Longrightarrow> okey mt x < Some key \<Longrightarrow> card {b \<in> R 0. okey mt x < okey mt b} < f \<Longrightarrow>
    \<exists>r. scan0 f mt key x = Some r \<and>
      (case r of None \<Rightarrow> Some key \<notin> okey mt ` R 0
       | Some (a, n) \<Rightarrow> a \<in> R 0 \<and> a \<noteq> 0 \<and> heap mt a = Some n \<and> nkey n = key)"
proof (induction f arbitrary: x)
  case (Suc f)
  note sg = mt_graphD(4) [OF g] and gd = skip_graphD [OF mt_graphD(4) [OF g]]
  have "0 < MAX_LEVEL" by (simp add: MAX_LEVEL_def)
  then obtain p where p: "read_fwd mt x 0 = Some p" "nxt mt 0 x = p"
    using mt_graphD(6) [OF g _ Suc.prems(1)] by auto
  show ?case
  proof (cases p)
    case None
    have "okey mt a \<noteq> Some key" if a: "a \<in> R 0" for a
    proof
      assume "okey mt a = Some key"
      then have "okey mt x < okey mt a" using Suc.prems(2) by simp
      then obtain b where "b \<in> R 0" "consec (okey mt) (R 0) x b"
        by (rule next_exists [OF sg Suc.prems(1) a])
      then show False using gd(8) [OF Suc.prems(1)] p(2) None by simp
    qed
    then have "Some key \<notin> okey mt ` R 0" by force
    then show ?thesis using p(1) None by simp
  next
    case (Some b)
    then have b: "b \<in> R 0" "consec (okey mt) (R 0) x b" using gd(6) Suc.prems(1) p(2) by blast+
    obtain n where n: "heap mt b = Some n" using mt_graph_live [OF g b(1)] .
    have b0: "b \<noteq> 0" by (rule notI) (use b(2) gd(2) in \<open>simp add: consec_def\<close>)
    then have ob: "okey mt b = Some (nkey n)" using okey_live n by simp
    consider (eq) "nkey n = key" | (lt) "key < nkey n" | (gt) "nkey n < key" by force
    then show ?thesis
    proof cases
      case eq
      then show ?thesis using p(1) Some n b b0 by (simp add: cmp_simps)
    next
      case lt
      have "okey mt a \<noteq> Some key" if "a \<in> R 0" for a
        using b(2) Suc.prems(2) lt ob that by (auto simp: consec_def)
      then have "Some key \<notin> okey mt ` R 0" by force
      then show ?thesis using p(1) Some n lt by (auto simp: cmp_simps)
    next
      case gt
      have "card {c \<in> R 0. okey mt b < okey mt c} < f"
        using card_above_less [of "R 0" b "okey mt" x] gd(1) b Suc.prems(3) by (fastforce simp: consec_def)
      then have IH: "\<exists>r. scan0 f mt key b = Some r \<and>
        (case r of None \<Rightarrow> Some key \<notin> okey mt ` R 0
         | Some (a, n) \<Rightarrow> a \<in> R 0 \<and> a \<noteq> 0 \<and> heap mt a = Some n \<and> nkey n = key)"
        using Suc.IH [OF b(1)] gt ob by simp
      moreover have "\<not> key < nkey n" "key \<noteq> nkey n" using gt by auto
      then have "scan0 (Suc f) mt key x = scan0 f mt key b" using p(1) Some n by (simp add: cmp_simps)
      ultimately show ?thesis by simp
    qed
  qed
qed simp

lemma scan0_header:
  assumes g: "mt_graph mt R"
  obtains (absent) "scan0 (next_free mt) mt key (header mt) = Some None" "Some key \<notin> okey mt ` R 0"
  | (found) a n where "scan0 (next_free mt) mt key (header mt) = Some (Some (a, n))"
      "a \<in> R 0" "a \<noteq> 0" "heap mt a = Some n" "nkey n = key"
proof -
  have z: "0 \<in> R 0" "okey mt 0 < Some key" using skip_graphD(2,4) [OF mt_graphD(4) [OF g]] by auto
  from scan0_correct [OF g z card_above_bound [OF g z(1)]] obtain r where
    r: "scan0 (next_free mt) mt key (header mt) = Some r" "case r of None \<Rightarrow> Some key \<notin> okey mt ` R 0
       | Some (a, n) \<Rightarrow> a \<in> R 0 \<and> a \<noteq> 0 \<and> heap mt a = Some n \<and> nkey n = key"
    using mt_graphD(1) [OF g] by auto
  show thesis using that r by (cases r) (auto split: prod.splits)
qed

lemma lookup_live:
  assumes g: "mt_graph mt R"
  shows "memtable_lookup mt key = Some e \<longleftrightarrow> (key, e) \<in> live mt R"
proof (cases rule: scan0_header [OF g, of key])
  case 1
  have "Some key \<in> okey mt ` R 0" if l: "(key, e) \<in> live mt R"
  proof -
    obtain a n where "a \<in> R 0" "a \<noteq> 0" "heap mt a = Some n" "nkey n = key"
      using l unfolding live_def by blast
    then show ?thesis using okey_live [of a mt n] by (metis imageI)
  qed
  then have "(key, e) \<notin> live mt R" using 1 by blast
  then show ?thesis using 1 by (simp add: memtable_lookup_def)
next
  case (2 a n)
  have same: "b = a" if "b \<in> R 0" "b \<noteq> 0" "heap mt b = Some m" "nkey m = key" for b m
  proof (rule skip_graph_inj [OF mt_graphD(4) [OF g] that(1) 2(2)])
    show "okey mt b = okey mt a" using okey_live [OF that(2,3)] okey_live [OF 2(3,4)] that(4) 2(5) by simp
  qed
  have "(key, e) \<in> live mt R \<longleftrightarrow> e = cell_of n"
  proof
    assume "(key, e) \<in> live mt R"
    then obtain b m where b: "b \<in> R 0" "b \<noteq> 0" "heap mt b = Some m" "nkey m = key" "e = cell_of m"
      unfolding live_def by blast
    then have "m = n" using same [OF b(1-4)] 2(4) by simp
    then show "e = cell_of n" using b(5) by simp
  next
    assume "e = cell_of n"
    then show "(key, e) \<in> live mt R" using 2(2-5) unfolding live_def by blast
  qed
  then show ?thesis using 2(1) by (auto simp: memtable_lookup_def)
qed

text \<open>A change of the contents is a change of the lookup function.\<close>

lemma lookup_upd:
  assumes "mt_graph mt R" and "mt_graph mt' R'"
    and "live mt' R' = {p \<in> live mt R. fst p \<noteq> key} \<union> {(key, e)}"
  shows "memtable_lookup mt' = (memtable_lookup mt)(key \<mapsto> e)"
proof
  fix k
  show "memtable_lookup mt' k = ((memtable_lookup mt)(key \<mapsto> e)) k"
  proof (cases "memtable_lookup mt' k")
    case None
    then have n: "(k, e) \<notin> live mt' R'" for e using lookup_live [OF assms(2), of k e] by simp
    then have "k \<noteq> key" using assms(3) n [of e] by auto
    moreover have "memtable_lookup mt k = None"
    proof (rule ccontr)
      assume "memtable_lookup mt k \<noteq> None"
      then obtain e' where "(k, e') \<in> live mt R" using lookup_live [OF assms(1), of k] by blast
      then show False using n [of e'] assms(3) \<open>k \<noteq> key\<close> by simp
    qed
    ultimately show ?thesis using None by simp
  next
    case (Some e')
    then have "(k, e') \<in> live mt' R'" using lookup_live [OF assms(2)] by simp
    then show ?thesis using Some assms(3) lookup_live [OF assms(1), of k e'] by auto
  qed
qed

section \<open>The cases of \<open>memtable_put\<close>\<close>

definition node_entry :: "kanbudb_memtable \<Rightarrow> skip_addr \<Rightarrow> (bytes \<times> cell) option" where
  "node_entry mt a = map_option (\<lambda>n. (nkey n, cell_of n)) (heap mt a)"

lemma live_entry: "p \<in> live mt R \<longleftrightarrow> (\<exists>a\<in>R 0 - {0}. node_entry mt a = Some p)"
  unfolding live_def node_entry_def by auto

lemma same_nodes_entry: "same_nodes mt mt' \<Longrightarrow> node_entry mt' a = node_entry mt a"
  by (cases "heap mt a"; cases "heap mt' a")
    (auto simp: same_nodes_def node_entry_def node_data_def cell_of_def dest!: spec [of _ a])

lemma okey_entry: "a \<noteq> 0 \<Longrightarrow> okey mt a = map_option fst (node_entry mt a)"
  by (cases "heap mt a") (simp_all add: okey_def node_entry_def)

text \<open>All three cases change the contents at one node \<open>x\<close> and keep the nodes with other keys.\<close>

lemma live_upd:
  assumes x: "x \<in> R' 0 - {0}" "node_entry mt' x = Some (key, e)"
    and S: "R' 0 - {0} - {x} = {a \<in> R 0 - {0}. okey mt a \<noteq> Some key}"
    and same: "\<And>a. a \<in> R' 0 - {0} - {x} \<Longrightarrow> node_entry mt' a = node_entry mt a"
  shows "live mt' R' = {p \<in> live mt R. fst p \<noteq> key} \<union> {(key, e)}"
proof (rule set_eqI)
  fix p :: "bytes \<times> cell"
  have "p \<in> live mt' R' \<longleftrightarrow> p = (key, e) \<or> (\<exists>a\<in>R' 0 - {0} - {x}. node_entry mt a = Some p)"
  proof
    assume "p \<in> live mt' R'"
    then obtain a where a: "a \<in> R' 0 - {0}" "node_entry mt' a = Some p" unfolding live_entry by blast
    show "p = (key, e) \<or> (\<exists>a\<in>R' 0 - {0} - {x}. node_entry mt a = Some p)"
    proof (cases "a = x")
      case False
      then show ?thesis using a same [of a] by auto
    qed (use a x(2) in simp)
  next
    assume "p = (key, e) \<or> (\<exists>a\<in>R' 0 - {0} - {x}. node_entry mt a = Some p)"
    then show "p \<in> live mt' R'" unfolding live_entry using x same by force
  qed
  also have "\<dots> \<longleftrightarrow> p = (key, e) \<or> (\<exists>a\<in>R 0 - {0}. node_entry mt a = Some p \<and> okey mt a \<noteq> Some key)"
    unfolding S by blast
  also have "\<dots> \<longleftrightarrow> p = (key, e) \<or> (\<exists>a\<in>R 0 - {0}. node_entry mt a = Some p \<and> fst p \<noteq> key)"
    using okey_entry [of _ mt] by (intro disj_cong bex_cong conj_cong refl) auto
  finally show "p \<in> live mt' R' \<longleftrightarrow> p \<in> {p \<in> live mt R. fst p \<noteq> key} \<union> {(key, e)}"
    by (auto simp: live_entry)
qed

lemma okey_other:
  assumes g: "mt_graph mt R" and x: "x \<in> R 0" "okey mt x = Some key"
  shows "{a \<in> R 0 - {0}. okey mt a \<noteq> Some key} = R 0 - {0} - {x}"
proof (rule set_eqI)
  fix a
  have "a = x" if "a \<in> R 0" "okey mt a = Some key"
    using skip_graph_inj [OF mt_graphD(4) [OF g] that(1) x(1)] that(2) x(2) by simp
  then show "a \<in> {a \<in> R 0 - {0}. okey mt a \<noteq> Some key} \<longleftrightarrow> a \<in> R 0 - {0} - {x}"
    using x(2) by auto
qed

lemma node_update_ok:
  assumes g: "mt_graph mt R" and x: "x \<in> R 0" "x \<noteq> 0" "heap mt x = Some n"
    and n': "nkey n' = nkey n" "fwd n' = fwd n" "nlevel n' = nlevel n"
    and m: "heap m = (heap mt)(x \<mapsto> n')" "header m = header mt" "mlevel m = mlevel mt" "next_free m = next_free mt"
  shows "mt_graph m R \<and> live m R = {p \<in> live mt R. fst p \<noteq> nkey n} \<union> {(nkey n, cell_of n')}"
proof -
  have "okey m = okey mt" using x(3) m(1) n'(1) by (auto simp: okey_def fun_eq_iff)
  moreover have rf: "read_fwd m = read_fwd mt"
    using x(3) m(1) n'(2) by (auto simp: read_fwd_def fun_eq_iff split: option.splits)
  moreover have "nxt m = nxt mt" using rf by (simp add: nxt_def fun_eq_iff)
  moreover have "\<forall>a\<in>R 0. \<forall>k. heap m a = Some k \<longrightarrow> length (fwd k) = Suc (nlevel k)"
    using m(1) n'(2,3) mt_graphD(7) [OF g] x by auto
  ultimately have "mt_graph m R"
    using g m(2-4) unfolding mt_graph_def by simp
  moreover have "live m R = {p \<in> live mt R. fst p \<noteq> nkey n} \<union> {(nkey n, cell_of n')}"
    using x okey_other [OF g x(1), of "nkey n"] okey_live [OF x(2,3)] n'(1)
    by (intro live_upd [of x]) (auto simp: node_entry_def m(1))
  ultimately show ?thesis by blast
qed

lemma put_in_place_ok:
  assumes g: "mt_graph mt R" and x: "x \<in> R 0" "x \<noteq> 0" "heap mt x = Some n"
  shows "mt_graph (put_in_place mt x n seq v) R \<and>
    live (put_in_place mt x n seq v) R = {p \<in> live mt R. fst p \<noteq> nkey n} \<union> {(nkey n, (seq, v, False))}"
  using node_update_ok [OF g x, of "n\<lparr>nseq := seq, ndeleted := False, nval := v\<rparr>" "put_in_place mt x n seq v"]
  by (simp add: put_in_place_def cell_of_def)

lemma put_new_ok:
  assumes g: "mt_graph mt R" and lvl: "lvl < MAX_LEVEL" and k: "Some key \<notin> okey mt ` R 0"
    and us: "length us = Suc (mlevel mt)" "\<And>i. i \<le> mlevel mt \<Longrightarrow> is_pred (okey mt) (R i) key (us ! i)"
  shows "\<exists>mt'. put_new lvl mt us seq key v = Some mt' \<and> mt_graph mt' (ins_R lvl (next_free mt) R) \<and>
    live mt' (ins_R lvl (next_free mt) R) = {p \<in> live mt R. fst p \<noteq> key} \<union> {(key, (seq, v, False))}"
proof -
  note gd = mt_graphD [OF g] and sg = skip_graphD [OF mt_graphD(4) [OF g]]
  define new where "new = next_free mt"
  define u where "u = (if lvl > mlevel mt then us @ replicate (lvl - mlevel mt) (header mt) else us)"
  define mt1 where "mt1 = mt\<lparr>heap := (heap mt)(new \<mapsto> skip_node_create lvl seq key v False),
    next_free := Suc new, mlevel := max lvl (mlevel mt), used := used mt + node_size lvl (length key) (length v)\<rparr>"
  have new: "new \<notin> R i" "new \<noteq> 0" for i
    using gd(3) sg(4) skip_graph_mono [OF gd(4), of 0 i] by (force simp: new_def)+
  have u: "is_pred (okey mt) (R i) key (u ! i)" if "i \<le> lvl" for i
    using that us gd(1,5) sg(2) by (auto simp: u_def nth_append is_pred_def not_less)
  have h1: "heap mt1 = (heap mt)(new \<mapsto> skip_node_create lvl seq key v False)" by (simp add: mt1_def)
  have ok1: "okey mt1 = (okey mt)(new := Some key)"
    using new(2) by (auto simp: okey_def h1 skip_node_create_def)
  have rf1: "read_fwd mt1 a i = (if a = new then (if i \<le> lvl then Some None else None) else read_fwd mt a i)" for a i
    by (auto simp: read_fwd_def h1 skip_node_create_def simp del: replicate_Suc)
  have nx1: "nxt mt1 i a = (if a = new then None else nxt mt i a)" for a i
    by (auto simp: nxt_def rf1)
  have live_u: "u ! i \<noteq> new" "read_fwd mt (u ! i) i \<noteq> None" if "i \<le> lvl" for i
    using u [OF that] new(1) gd(6) [of i "u ! i"] lvl that by (auto simp: is_pred_def)
  obtain mt' where mt': "link_levels mt1 u new (Suc lvl) = Some mt'" "same_nodes mt1 mt'"
    "nxt mt' = (\<lambda>i a. if i < Suc lvl \<and> a = new then nxt mt1 i (u ! i)
                    else if i < Suc lvl \<and> a = u ! i then Some new else nxt mt1 i a)"
    using link_levels_ok [of "Suc lvl" u new mt1] live_u rf1 by (auto simp: less_Suc_eq_le)
  have nx': "nxt mt' = ins_nx lvl (\<lambda>i. u ! i) new (nxt mt)"
    unfolding mt'(3) using live_u by (auto simp: ins_nx_def nx1 fun_eq_iff)
  have ok': "okey mt' = (okey mt)(new := Some key)" using same_nodesD(6) [OF mt'(2)] ok1 by (simp add: fun_eq_iff)
  have sg': "skip_graph (okey mt') (nxt mt') (ins_R lvl new R)"
    unfolding nx' ok' by (rule skip_graph_insert [OF gd(4) new(1) k u])
  have "read_fwd mt' a i \<noteq> None" if "i < MAX_LEVEL" "a \<in> ins_R lvl new R i" for a i
    using that gd(6) [of i a] same_nodesD(7) [OF mt'(2)] rf1 [of a i] new(1)
    by (auto simp: ins_R_def split: if_splits)
  moreover have "length (fwd n) = Suc (nlevel n)" if a: "a \<in> ins_R lvl new R 0" "heap mt' a = Some n" for a n
  proof -
    obtain n1 where n1: "heap mt1 a = Some n1" "node_data n = node_data n1"
      by (rule same_nodes_node [OF mt'(2) a(2)])
    then have "length (fwd n1) = Suc (nlevel n1)"
      using a(1) gd(7) [of a] by (auto simp: h1 ins_R_def skip_node_create_def split: if_splits)
    then show ?thesis using n1(2) by (simp add: node_data_def)
  qed
  moreover have "ins_R lvl new R i = {0}" if "max lvl (mlevel mt) < i" for i
    using that gd(5) by (simp add: ins_R_def)
  moreover have "ins_R lvl new R 0 \<subseteq> {..<Suc new}"
    using gd(3) by (auto simp: ins_R_def new_def less_Suc_eq)
  ultimately have "mt_graph mt' (ins_R lvl new R)"
    using sg' same_nodesD(1-3) [OF mt'(2)] gd(1,2) lvl by (auto simp: mt_graph_def mt1_def)
  moreover have "live mt' (ins_R lvl new R) = {p \<in> live mt R. fst p \<noteq> key} \<union> {(key, (seq, v, False))}"
  proof (rule live_upd [of new])
    show "new \<in> ins_R lvl new R 0 - {0}" using new(2) by (simp add: ins_R_def)
    show "node_entry mt' new = Some (key, seq, v, False)"
      unfolding same_nodes_entry [OF mt'(2)] by (simp add: node_entry_def h1 skip_node_create_def cell_of_def)
    show "ins_R lvl new R 0 - {0} - {new} = {a \<in> R 0 - {0}. okey mt a \<noteq> Some key}"
      using new(1) [of 0] k by (force simp: ins_R_def)
    show "node_entry mt' a = node_entry mt a" if "a \<in> ins_R lvl new R 0 - {0} - {new}" for a
      unfolding same_nodes_entry [OF mt'(2)] using that by (simp add: node_entry_def h1)
  qed
  moreover have "put_new lvl mt us seq key v = Some mt'"
    using mt'(1) by (simp add: put_new_def u_def new_def mt1_def)
  ultimately show ?thesis unfolding new_def by blast
qed

lemma put_grow_ok:
  assumes g: "mt_graph mt R" and x: "x \<in> R 0" "x \<noteq> 0" "heap mt x = Some n" "nkey n = key"
    and us: "length us = Suc (mlevel mt)" "\<And>i. i \<le> mlevel mt \<Longrightarrow> is_pred (okey mt) (R i) key (us ! i)"
  shows "\<exists>mt'. put_grow mt us x n seq key v = Some mt' \<and> mt_graph mt' (rep_R (okey mt) x (next_free mt) R) \<and>
    live mt' (rep_R (okey mt) x (next_free mt) R) = {p \<in> live mt R. fst p \<noteq> key} \<union> {(key, (seq, v, False))}"
proof -
  note gd = mt_graphD [OF g] and sg = skip_graphD [OF mt_graphD(4) [OF g]]
  define new where "new = next_free mt"
  let ?R = "rep_R (okey mt) x new R"
  define nn where "nn = skip_node_create (nlevel n) seq key v False"
  define mt1 where "mt1 = mt\<lparr>heap := (heap mt)(x \<mapsto> n\<lparr>nseq := seq, ndeleted := False\<rparr>, new \<mapsto> nn),
    next_free := Suc new, used := used mt - node_size (nlevel n) (length (nkey n)) (length (nval n))
      + node_size (nlevel nn) (length (nkey nn)) (length (nval nn))\<rparr>"
  have new: "new \<notin> R i" "new \<noteq> 0" for i
    using gd(3) sg(4) skip_graph_mono [OF gd(4), of 0 i] by (force simp: new_def)+
  have xn: "x \<noteq> new" using x(1) new(1) by blast
  have okx: "okey mt x = Some key" using okey_live [OF x(2,3)] x(4) by simp
  have xlv: "i \<le> mlevel mt" if "x \<in> R i" for i using gd(5) [of i] that x(2) by force
  have len: "length (fwd n) = Suc (nlevel n)" using gd(7) [OF x(1,3)] .
  have h1: "heap mt1 = (heap mt)(x \<mapsto> n\<lparr>nseq := seq, ndeleted := False\<rparr>, new \<mapsto> nn)" by (simp add: mt1_def)
  have ok1: "okey mt1 a = (if a = new then Some key else okey mt a)" for a
    using new(2) xn x(3) by (auto simp: okey_def h1 nn_def skip_node_create_def)
  have rf1: "read_fwd mt1 a i = (if a = new then (if i \<le> nlevel n then Some None else None) else read_fwd mt a i)" for a i
    using xn x(3) by (auto simp: read_fwd_def h1 nn_def skip_node_create_def simp del: replicate_Suc)
  have nx1: "nxt mt1 i a = (if a = new then None else nxt mt i a)" for a i
    by (auto simp: nxt_def rf1)
  have live_u: "us ! i \<noteq> new" "us ! i \<noteq> x" "read_fwd mt (us ! i) i \<noteq> None" if "i \<le> mlevel mt" for i
    using us(2) [OF that] new(1) gd(6) [of i "us ! i"] gd(2) that okx by (auto simp: is_pred_def)
  obtain mt2 where mt2: "relink_levels mt1 us x new (Suc (mlevel mt)) = Some mt2" "same_nodes mt1 mt2"
    "nxt mt2 = (\<lambda>i a. if i < Suc (mlevel mt) \<and> a = us ! i \<and> nxt mt1 i a = Some x then Some new else nxt mt1 i a)"
    using relink_levels_ok [of "Suc (mlevel mt)" mt1 us x new] live_u rf1 by (auto simp: less_Suc_eq_le)
  have "read_fwd mt x 0 \<noteq> None" using gd(6) [of 0 x] x(1) by (auto simp: MAX_LEVEL_def)
  then obtain p where p: "read_fwd mt2 x 0 = Some p"
    using same_nodesD(7) [OF mt2(2), of x 0] rf1 xn by auto
  then have "nxt mt2 0 x = p" by (simp add: nxt_def)
  then have p': "p = nxt mt 0 x" using mt2(3) live_u(2) [of 0] nx1 xn by auto
  have "read_fwd mt2 new 0 \<noteq> None" using same_nodesD(7) [OF mt2(2)] rf1 by simp
  then obtain mt3 where mt3: "write_fwd mt2 new 0 p = Some mt3" "same_nodes mt2 mt3"
    "nxt mt3 = (\<lambda>j a. if j = 0 \<and> a = new then p else nxt mt2 j a)"
    by (rule write_fwd_ok)
  note s13 = same_nodes_trans [OF mt2(2) mt3(2)]
  define mt4 where "mt4 = mt3\<lparr>heap := (heap mt3)(x := None)\<rparr>"
  have res: "put_grow mt us x n seq key v = Some mt4"
    using mt2(1) p mt3(1) by (simp add: put_grow_def Let_def mt1_def nn_def new_def mt4_def)
  have a4: "okey mt4 a = okey mt1 a" "read_fwd mt4 a i = read_fwd mt3 a i" "nxt mt4 i a = nxt mt3 i a"
    "node_entry mt4 a = node_entry mt1 a" "heap mt4 a = heap mt3 a" if "a \<noteq> x" for a i
  proof -
    have "okey mt4 a = okey mt3 a" "node_entry mt4 a = node_entry mt3 a"
      using that by (simp_all add: okey_def mt4_def node_entry_def)
    then show "okey mt4 a = okey mt1 a" "node_entry mt4 a = node_entry mt1 a"
      using same_nodesD(6) [OF s13] same_nodes_entry [OF s13] by simp_all
  qed (use that in \<open>simp_all add: mt4_def read_fwd_def nxt_def\<close>)
  have xR: "x \<notin> ?R i" for i using xn okx by (auto simp: rep_R_def)
  have sub: "a = new \<and> x \<in> R i \<or> a \<in> R i \<and> a \<noteq> new" if "a \<in> ?R i" for a i
    using that new(1) [of i] by (auto simp: rep_R_def split: if_splits)
  let ?u = "\<lambda>i. if i \<le> mlevel mt then us ! i else 0"
  have "skip_graph ((okey mt)(new := Some key)) (rep_nx ?u x new (nxt mt)) ?R"
    using us(2) xlv by (intro skip_graph_replace [OF gd(4) new(1) x(1) okx]) auto
  then have sg4: "skip_graph (okey mt4) (nxt mt4) ?R"
  proof (rule skip_graph_cong)
    fix a assume "a \<in> ?R 0"
    then have "a \<noteq> x" using xR by blast
    then show "okey mt4 a = ((okey mt)(new := Some key)) a" using a4(1) [of a] ok1 [of a] by simp
  next
    fix i a assume a: "a \<in> ?R i"
    then have ax: "a \<noteq> x" using xR by blast
    have up: "nxt mt i 0 \<noteq> Some x" if "\<not> i \<le> mlevel mt"
    proof
      assume "nxt mt i 0 = Some x"
      then have "x \<in> R i" using sg(6) [of 0 i x] sg(4) by blast
      then show False using xlv that by blast
    qed
    have n2: "nxt mt2 i a = (if i \<le> mlevel mt \<and> a = us ! i \<and> nxt mt1 i a = Some x then Some new else nxt mt1 i a)"
      by (simp only: mt2(3) less_Suc_eq_le)
    have n3: "nxt mt4 i a = (if i = 0 \<and> a = new then p else nxt mt2 i a)"
      unfolding a4(3) [OF ax] mt3(3) ..
    show "nxt mt4 i a = rep_nx ?u x new (nxt mt) i a"
    proof (cases "a = new")
      case True
      then show ?thesis unfolding n3 n2 by (simp add: nx1 rep_nx_def p')
    next
      case False
      then have "nxt mt1 i a = nxt mt i a" by (simp add: nx1)
      then show ?thesis using False up unfolding n3 n2 rep_nx_def by (cases "i \<le> mlevel mt") auto
    qed
  qed
  have "read_fwd mt4 a i \<noteq> None" if "i < MAX_LEVEL" "a \<in> ?R i" for a i
  proof -
    have "read_fwd mt x i \<noteq> None" if "x \<in> R i" using gd(6) [OF \<open>i < MAX_LEVEL\<close> that] by auto
    then have "x \<in> R i \<Longrightarrow> i \<le> nlevel n" using x(3) len by (auto simp: read_fwd_def split: if_splits)
    then have "read_fwd mt1 a i \<noteq> None" using sub [OF that(2)] rf1 gd(6) [OF that(1), of a] by auto
    then show ?thesis using a4(2) xR that(2) same_nodesD(7) [OF s13] by metis
  qed
  moreover have "length (fwd m) = Suc (nlevel m)" if a: "a \<in> ?R 0" "heap mt4 a = Some m" for a m
  proof -
    have "heap mt3 a = Some m" using a a4(5) xR by metis
    then obtain m1 where m1: "heap mt1 a = Some m1" "node_data m = node_data m1"
      by (rule same_nodes_node [OF s13])
    then have "length (fwd m1) = Suc (nlevel m1)"
      using sub [OF a(1)] gd(7) [of a] xR a(1) by (auto simp: h1 nn_def skip_node_create_def split: if_splits)
    then show ?thesis using m1(2) by (simp add: node_data_def)
  qed
  moreover have "?R i = {0}" if "mlevel mt < i" for i
    using that gd(5) [OF that] x(2) by (auto simp: rep_R_def)
  moreover have "?R 0 \<subseteq> {..<Suc new}"
    using sub gd(3) by (fastforce simp: new_def)
  ultimately have "mt_graph mt4 ?R"
    using sg4 same_nodesD(1-3) [OF s13] gd(1,2) by (auto simp: mt_graph_def mt4_def mt1_def)
  moreover have "live mt4 ?R = {p \<in> live mt R. fst p \<noteq> key} \<union> {(key, (seq, v, False))}"
  proof (rule live_upd [of new])
    show "new \<in> ?R 0 - {0}" using new(2) x(1) by (simp add: rep_R_def)
    show "node_entry mt4 new = Some (key, seq, v, False)"
      using a4(4) [of new] xn by (simp add: node_entry_def h1 nn_def skip_node_create_def cell_of_def)
    have "a \<in> ?R 0 - {new} \<longleftrightarrow> a \<in> R 0 \<and> okey mt a \<noteq> Some key" for a
      using x(1) new(1) [of 0] okx by (auto simp: rep_R_def)
    then show "?R 0 - {0} - {new} = {a \<in> R 0 - {0}. okey mt a \<noteq> Some key}" by blast
    show "node_entry mt4 a = node_entry mt a" if "a \<in> ?R 0 - {0} - {new}" for a
      using a4(4) [of a] that xR by (auto simp: node_entry_def h1)
  qed
  ultimately show ?thesis using res unfolding new_def by blast
qed

text \<open>The whole of \<^verbatim>\<open>memtable_put\<close>: no invalid access, the invariant kept, one key changed.\<close>

lemma memtable_put_ok:
  assumes "mt_inv mt" and "lvl < MAX_LEVEL"
  shows "\<exists>mt'. memtable_put lvl mt seq key v = Some mt' \<and> mt_inv mt' \<and>
    memtable_lookup mt' = (memtable_lookup mt)(key \<mapsto> (seq, v, False))"
proof -
  obtain R where g: "mt_graph mt R" using assms(1) by (auto simp: mt_inv_def)
  note sg = mt_graphD(4) [OF g] and gd = skip_graphD [OF mt_graphD(4) [OF g]]
  obtain us where us: "find_update mt key (Suc (mlevel mt)) (header mt) = Some us"
    "length us = Suc (mlevel mt)" "\<And>i. i \<le> mlevel mt \<Longrightarrow> is_pred (okey mt) (R i) key (us ! i)"
    by (rule find_update_header [OF g]) blast
  have u0: "is_pred (okey mt) (R 0) key (us ! 0)" using us(3) by simp
  then have u0R: "us ! 0 \<in> R 0" "okey mt (us ! 0) < Some key" by (auto simp: is_pred_def)
  have "0 < MAX_LEVEL" by (simp add: MAX_LEVEL_def)
  then obtain p where p: "read_fwd mt (us ! 0) 0 = Some p" "nxt mt 0 (us ! 0) = p"
    using mt_graphD(6) [OF g _ u0R(1)] by auto
  have fin: ?thesis if "memtable_put lvl mt seq key v = Some mt'" "mt_graph mt' R'"
    "live mt' R' = {p \<in> live mt R. fst p \<noteq> key} \<union> {(key, seq, v, False)}" for mt' R'
    using that lookup_upd [OF g that(2,3)] by (auto simp: mt_inv_def)
  show ?thesis
  proof (cases "Some key \<in> okey mt ` R 0")
    case True
    then obtain x where x: "x \<in> R 0" "okey mt x = Some key" by auto
    obtain n where n: "heap mt x = Some n" using mt_graph_live [OF g x(1)] .
    have x0: "x \<noteq> 0" by (rule notI) (use x(2) gd(2) in simp)
    then have nk: "nkey n = key" using okey_live [OF x0 n] x(2) by simp
    have "okey mt c \<le> okey mt (us ! 0)" if "c \<in> R 0" "okey mt c < okey mt x" for c
      using u0 that x(2) by (auto simp: is_pred_def)
    then have "consec (okey mt) (R 0) (us ! 0) x"
      using u0R x(2) by (force simp: consec_def not_less)
    then have "p = Some x" using gd(8) [OF u0R(1) x(1)] p(2) by simp
    then have put: "memtable_put lvl mt seq key v =
        (if length v \<le> length (nval n) then Some (put_in_place mt x n seq v) else put_grow mt us x n seq key v)"
      using us(1) p(1) n nk by (simp add: memtable_put_def cmp_simps)
    show ?thesis
    proof (cases "length v \<le> length (nval n)")
      case True
      then show ?thesis
        using put put_in_place_ok [OF g x(1) x0 n, of seq v] nk by (intro fin) auto
    next
      case False
      then show ?thesis
        using put put_grow_ok [OF g x(1) x0 n nk us(2,3), of seq v] fin by auto
    qed
  next
    case False
    have "memtable_put lvl mt seq key v = put_new lvl mt us seq key v"
    proof (cases p)
      case (Some b)
      then have b: "b \<in> R 0" "consec (okey mt) (R 0) (us ! 0) b" using gd(6) u0R(1) p(2) by blast+
      have "b \<noteq> 0" by (rule notI) (use b(2) gd(2) in \<open>simp add: consec_def\<close>)
      moreover obtain n where n: "heap mt b = Some n" using mt_graph_live [OF g b(1)] .
      ultimately have "nkey n \<noteq> key" using okey_live False b(1) by (metis imageI)
      then show ?thesis using us(1) p(1) Some n by (simp add: memtable_put_def cmp_simps)
    qed (use us(1) p(1) in \<open>simp add: memtable_put_def\<close>)
    then show ?thesis using put_new_ok [OF g assms(2) False us(2,3), of seq v] fin by auto
  qed
qed

section \<open>The other memtable operations\<close>

lemma memtable_create_ok: "mt_inv (memtable_create sz) \<and> memtable_lookup (memtable_create sz) = Map.empty"
proof -
  let ?m = "memtable_create sz" and ?R = "\<lambda>i. {0::skip_addr}"
  have rf: "read_fwd ?m a i = (if a = 0 \<and> i < MAX_LEVEL then Some None else None)" for a i
    by (auto simp: read_fwd_def memtable_create_def skip_node_create_def MAX_LEVEL_def simp del: replicate_Suc)
  have nx: "nxt ?m i a = None" for i a by (simp add: nxt_def rf)
  have ok: "okey ?m 0 = None" by (simp add: okey_def)
  have "skip_graph (okey ?m) (nxt ?m) ?R"
    by (simp add: skip_graph_def nx ok consec_def)
  moreover have "header ?m = 0" "mlevel ?m < MAX_LEVEL" "next_free ?m = 1"
    "\<forall>n. heap ?m 0 = Some n \<longrightarrow> length (fwd n) = Suc (nlevel n)"
    by (simp_all add: memtable_create_def MAX_LEVEL_def skip_node_create_def)
  ultimately have g: "mt_graph ?m ?R" using rf by (auto simp: mt_graph_def)
  have "memtable_lookup ?m k = None" for k
    using lookup_live [OF g, of k] by (cases "memtable_lookup ?m k") (auto simp: live_def)
  then show ?thesis using g by (auto simp: mt_inv_def)
qed

lemma memtable_get_ok:
  assumes "mt_inv mt"
  shows "memtable_get mt key = Some (case memtable_lookup mt key of
      None \<Rightarrow> (KANBUDB_ERR_NOTFOUND, None)
    | Some (s, v, d) \<Rightarrow> (if d then KANBUDB_ERR_NOTFOUND else KANBUDB_OK, Some (v, d)))"
proof -
  obtain R where g: "mt_graph mt R" using assms by (auto simp: mt_inv_def)
  show ?thesis
    by (cases rule: scan0_header [OF g, of key])
      (simp_all add: memtable_get_def memtable_lookup_def cell_of_def)
qed

lemma memtable_delete_ok:
  assumes "mt_inv mt" and "lvl < MAX_LEVEL"
  shows "\<exists>mt'. memtable_delete lvl mt seq key = Some mt' \<and> mt_inv mt' \<and>
    memtable_lookup mt' = (memtable_lookup mt)(key \<mapsto> (seq, [], True))"
proof -
  obtain m1 where m1: "memtable_put lvl mt seq key [] = Some m1" "mt_inv m1"
    "memtable_lookup m1 = (memtable_lookup mt)(key \<mapsto> (seq, [], False))"
    using memtable_put_ok [OF assms, of seq key "[]"] by blast
  then obtain R where g: "mt_graph m1 R" by (auto simp: mt_inv_def)
  show ?thesis
  proof (cases rule: scan0_header [OF g, of key])
    case 1
    then have "memtable_lookup m1 key = None" by (simp add: memtable_lookup_def)
    then show ?thesis using m1(3) by simp
  next
    case (2 a n)
    let ?m = "m1\<lparr>heap := (heap m1)(a \<mapsto> n\<lparr>ndeleted := True\<rparr>)\<rparr>"
    have "memtable_lookup m1 key = Some (cell_of n)" using 2(1) by (simp add: memtable_lookup_def)
    then have c: "nseq n = seq" "nval n = []" using m1(3) by (simp_all add: cell_of_def)
    have u: "mt_graph ?m R \<and> live ?m R = {p \<in> live m1 R. fst p \<noteq> key} \<union> {(key, (seq, [], True))}"
      using node_update_ok [OF g 2(2,3,4), of "n\<lparr>ndeleted := True\<rparr>" ?m] 2(5) c by (simp add: cell_of_def)
    then have "memtable_lookup ?m = (memtable_lookup m1)(key \<mapsto> (seq, [], True))"
      using lookup_upd [OF g] by blast
    moreover have "memtable_delete lvl mt seq key = Some ?m" using m1(1) 2(1) by (simp add: memtable_delete_def)
    ultimately show ?thesis using u m1(3) by (auto simp: mt_inv_def)
  qed
qed

text \<open>Iteration: the callback sees the entries in ascending key order.\<close>

fun run_entries :: "'c lsm_cb \<Rightarrow> lsm_entry list \<Rightarrow> 'c \<Rightarrow> 'c \<times> rc" where
  "run_entries cb [] ctx = (ctx, KANBUDB_OK)"
| "run_entries cb (e # es) ctx =
     (case cb e ctx of (ctx', rc) \<Rightarrow> if rc \<noteq> KANBUDB_OK then (ctx', rc) else run_entries cb es ctx')"

lemma iterate_from_ok:
  assumes g: "mt_graph mt R"
  shows "a \<in> R 0 \<Longrightarrow> card {b \<in> R 0. okey mt a < okey mt b} < f \<Longrightarrow>
    \<exists>es. ssorted (map le_key es) \<and>
      (\<forall>e. e \<in> set es \<longleftrightarrow> (\<exists>b\<in>R 0. okey mt a < okey mt b \<and> (\<exists>n. heap mt b = Some n \<and> e = entry_of n))) \<and>
      (\<forall>(cb :: 'c lsm_cb) ctx. iterate_from f mt cb (nxt mt 0 a) ctx = Some (run_entries cb es ctx))"
proof (induction f arbitrary: a)
  case (Suc f)
  note sg = mt_graphD(4) [OF g] and gd = skip_graphD [OF mt_graphD(4) [OF g]]
  show ?case
  proof (cases "nxt mt 0 a")
    case None
    have "\<not> okey mt a < okey mt b" if b: "b \<in> R 0" for b
    proof
      assume "okey mt a < okey mt b"
      then obtain c where "c \<in> R 0" "consec (okey mt) (R 0) a c" by (rule next_exists [OF sg Suc.prems(1) b])
      then show False using gd(8) Suc.prems(1) None by fastforce
    qed
    then show ?thesis using None by (intro exI [of _ "[]"]) simp
  next
    case (Some b)
    then have b: "b \<in> R 0" "consec (okey mt) (R 0) a b" using gd(6) Suc.prems(1) by blast+
    obtain n where n: "heap mt b = Some n" using mt_graph_live [OF g b(1)] .
    have b0: "b \<noteq> 0" by (rule notI) (use b(2) gd(2) in \<open>simp add: consec_def\<close>)
    have "0 < MAX_LEVEL" by (simp add: MAX_LEVEL_def)
    then have rb: "read_fwd mt b 0 = Some (nxt mt 0 b)" using mt_graphD(6) [OF g _ b(1)] by auto
    have "card {c \<in> R 0. okey mt b < okey mt c} < f"
      using card_above_less [of "R 0" b "okey mt" a] gd(1) b Suc.prems(2) by (fastforce simp: consec_def)
    from Suc.IH [OF b(1) this] obtain es where es: "ssorted (map le_key es)"
      "\<And>e. e \<in> set es \<longleftrightarrow> (\<exists>c\<in>R 0. okey mt b < okey mt c \<and> (\<exists>n. heap mt c = Some n \<and> e = entry_of n))"
      "\<And>(cb :: 'c lsm_cb) ctx. iterate_from f mt cb (nxt mt 0 b) ctx = Some (run_entries cb es ctx)"
      by blast
    have above: "okey mt a < okey mt c \<longleftrightarrow> c = b \<or> okey mt b < okey mt c" if "c \<in> R 0" for c
    proof
      assume "okey mt a < okey mt c"
      then have "\<not> okey mt c < okey mt b" using b(2) that by (auto simp: consec_def)
      then have "okey mt c = okey mt b \<or> okey mt b < okey mt c" by (auto simp: not_less order_le_less)
      then show "c = b \<or> okey mt b < okey mt c" using skip_graph_inj [OF sg that b(1)] by blast
    next
      assume "c = b \<or> okey mt b < okey mt c"
      moreover have "okey mt a < okey mt b" using b(2) by (simp add: consec_def)
      ultimately show "okey mt a < okey mt c" using less_trans by blast
    qed
    have "nkey n < le_key e" if e: "e \<in> set es" for e
    proof -
      obtain c m where c: "okey mt b < okey mt c" "heap mt c = Some m" "e = entry_of m" using e es(2) by blast
      have "c \<noteq> 0" by (rule notI) (use c(1) gd(2) in simp)
      then show ?thesis using c okey_live [OF b0 n] okey_live [of c mt m] by (simp add: entry_of_def)
    qed
    then have "ssorted (map le_key (entry_of n # es))" using es(1) by (simp add: entry_of_def)
    moreover have "e \<in> set (entry_of n # es) \<longleftrightarrow>
        (\<exists>c\<in>R 0. okey mt a < okey mt c \<and> (\<exists>n. heap mt c = Some n \<and> e = entry_of n))" for e
    proof -
      have "e \<in> set (entry_of n # es) \<longleftrightarrow> (\<exists>c\<in>R 0. (c = b \<or> okey mt b < okey mt c) \<and> (\<exists>n. heap mt c = Some n \<and> e = entry_of n))"
        using es(2) [of e] b(1) n by auto
      then show ?thesis using above by blast
    qed
    moreover have "iterate_from (Suc f) mt cb (nxt mt 0 a) ctx = Some (run_entries cb (entry_of n # es) ctx)"
      for cb :: "'c lsm_cb" and ctx
      using Some n rb es(3) by (simp split: prod.splits)
    ultimately show ?thesis by blast
  qed
qed simp

lemma memtable_iterate_ok:
  assumes "mt_inv mt"
  obtains es where "ssorted (map le_key es)"
    "\<And>k s v d. memtable_lookup mt k = Some (s, v, d) \<longleftrightarrow>
       \<lparr>le_seq = s, le_key = k, le_value = v, le_deleted = d\<rparr> \<in> set es"
    "\<And>(cb :: 'c lsm_cb) ctx. memtable_iterate mt cb ctx = Some (run_entries cb es ctx)"
proof -
  obtain R where g: "mt_graph mt R" using assms by (auto simp: mt_inv_def)
  note gd = skip_graphD [OF mt_graphD(4) [OF g]]
  obtain es where es: "ssorted (map le_key es)"
    "\<And>e. e \<in> set es \<longleftrightarrow> (\<exists>b\<in>R 0. okey mt 0 < okey mt b \<and> (\<exists>n. heap mt b = Some n \<and> e = entry_of n))"
    "\<And>(cb :: 'c lsm_cb) ctx. iterate_from (next_free mt) mt cb (nxt mt 0 0) ctx = Some (run_entries cb es ctx)"
    using iterate_from_ok [OF g gd(4) card_above_bound [OF g gd(4)], where 'c = 'c] by blast
  have "0 < MAX_LEVEL" by (simp add: MAX_LEVEL_def)
  then have r0: "read_fwd mt 0 0 = Some (nxt mt 0 0)" using mt_graphD(6) [OF g _ gd(4)] by auto
  have pos: "okey mt 0 < okey mt b \<longleftrightarrow> b \<noteq> 0" if b: "b \<in> R 0" for b
  proof -
    obtain n where "heap mt b = Some n" using mt_graph_live [OF g b] .
    then show ?thesis using gd(2) okey_live [of b mt n] by (cases "b = 0") auto
  qed
  have "memtable_lookup mt k = Some (s, v, d) \<longleftrightarrow>
       \<lparr>le_seq = s, le_key = k, le_value = v, le_deleted = d\<rparr> \<in> set es" for k s v d
    unfolding lookup_live [OF g] es(2) using pos
    by (auto simp: live_def entry_of_def cell_of_def)
  moreover have "memtable_iterate mt cb ctx = Some (run_entries cb es ctx)" for cb :: "'c lsm_cb" and ctx
    using r0 es(3) mt_graphD(1) [OF g] by (simp add: memtable_iterate_def)
  ultimately show thesis using that es(1) by blast
qed

lemma random_level_bound: "random_level coins < MAX_LEVEL"
  by (simp add: random_level_def MAX_LEVEL_def)

text \<open>The memtable is a keyed store, whatever the coins of the random generator.\<close>

interpretation mt: keyed_store
  "\<lambda>mt k. map_option (\<lambda>(s, v, d). (s, v)) (memtable_lookup mt k)"
  "\<lambda>mt k p. the (memtable_put (random_level (coins k)) mt (fst p) k (snd p))"
  mt_inv "\<lambda>mt k. True"
  for coins :: "bytes \<Rightarrow> bool list"
proof
  fix mt k and p :: "u64 \<times> bytes"
  assume "mt_inv mt"
  then obtain mt' where "memtable_put (random_level (coins k)) mt (fst p) k (snd p) = Some mt'" "mt_inv mt'"
    "memtable_lookup mt' = (memtable_lookup mt)(k \<mapsto> (fst p, snd p, False))"
    using memtable_put_ok [OF _ random_level_bound] by blast
  then show "(\<lambda>k'. map_option (\<lambda>(s, v, d). (s, v)) (memtable_lookup
        (the (memtable_put (random_level (coins k)) mt (fst p) k (snd p))) k')) =
      (\<lambda>k'. map_option (\<lambda>(s, v, d). (s, v)) (memtable_lookup mt k'))(k \<mapsto> p)"
    and "mt_inv (the (memtable_put (random_level (coins k)) mt (fst p) k (snd p)))"
    by (simp_all add: fun_eq_iff)
qed

section \<open>The LSM front\<close>

definition lsm_inv :: "kanbudb_lsm \<Rightarrow> bool" where
  "lsm_inv lsm \<longleftrightarrow> mt_inv (active lsm) \<and> (\<forall>fl. flushing lsm = Some fl \<longrightarrow> mt_inv fl)"

definition lsm_lookup :: "kanbudb_lsm \<Rightarrow> bytes \<Rightarrow> (bytes \<times> bool) option" where
  "lsm_lookup lsm k =
     (case memtable_lookup (active lsm) k of
        Some (s, v, d) \<Rightarrow> Some (v, d)
      | None \<Rightarrow>
          (case flushing lsm of
             None \<Rightarrow> None
           | Some fl \<Rightarrow> map_option (\<lambda>(s, v, d). (v, d)) (memtable_lookup fl k)))"

lemma lsm_get_lookup:
  "lsm_inv lsm \<Longrightarrow> lsm_get lsm t key =
     Some (case lsm_lookup lsm key of
        Some (v, False) \<Rightarrow> (KANBUDB_OK, Some v)
      | _ \<Rightarrow> (KANBUDB_ERR_NOTFOUND, None))"
  by (auto simp: lsm_inv_def lsm_get_def lsm_lookup_def memtable_get_ok split: option.splits bool.splits)

text \<open>Whether a write moves the active memtable aside, losing one that is still being flushed.\<close>

definition drops_flushing :: "kanbudb_lsm \<Rightarrow> bool" where
  "drops_flushing lsm \<longleftrightarrow> memtable_is_full (active lsm) \<and> flushing lsm \<noteq> None"

lemma lsm_flush_ok:
  assumes "lsm_inv lsm" and "flushing lsm = None"
  shows "lsm_inv (lsm_flush lsm) \<and> lsm_lookup (lsm_flush lsm) = lsm_lookup lsm"
  using assms memtable_create_ok
  by (auto simp: lsm_inv_def lsm_flush_def lsm_lookup_def fun_eq_iff split: option.splits)

lemma lsm_write_ok:
  assumes inv: "lsm_inv lsm" and nd: "\<not> drops_flushing lsm"
    and w: "\<And>mt. mt_inv mt \<Longrightarrow> \<exists>mt'. f mt = Some mt' \<and> mt_inv mt' \<and>
              memtable_lookup mt' = (memtable_lookup mt)(key \<mapsto> (0, v, d))"
  shows "\<exists>lsm'. (let lsm = (if memtable_is_full (active lsm) then lsm_flush lsm else lsm)
      in map_option (\<lambda>mt. lsm\<lparr>active := mt\<rparr>) (f (active lsm))) = Some lsm' \<and> lsm_inv lsm' \<and>
      lsm_lookup lsm' = (lsm_lookup lsm)(key \<mapsto> (v, d))"
proof -
  define l where "l = (if memtable_is_full (active lsm) then lsm_flush lsm else lsm)"
  have l: "lsm_inv l" "lsm_lookup l = lsm_lookup lsm"
    using inv nd lsm_flush_ok [OF inv] by (auto simp: l_def drops_flushing_def)
  then obtain mt' where mt': "f (active l) = Some mt'" "mt_inv mt'"
    "memtable_lookup mt' = (memtable_lookup (active l))(key \<mapsto> (0, v, d))"
    using w [of "active l"] by (auto simp: lsm_inv_def)
  have "lsm_inv (l\<lparr>active := mt'\<rparr>)" using l(1) mt'(2) by (simp add: lsm_inv_def)
  moreover have "lsm_lookup (l\<lparr>active := mt'\<rparr>) = (lsm_lookup l)(key \<mapsto> (v, d))"
    using mt'(3) by (auto simp: lsm_lookup_def fun_eq_iff split: option.splits)
  ultimately show ?thesis using mt'(1) l(2) by (auto simp: l_def [symmetric] Let_def)
qed

lemma lsm_put_ok:
  assumes "lsm_inv lsm" and "\<not> drops_flushing lsm" and "lvl < MAX_LEVEL"
  shows "\<exists>lsm'. lsm_put lvl lsm t key v = Some lsm' \<and> lsm_inv lsm' \<and>
    lsm_lookup lsm' = (lsm_lookup lsm)(key \<mapsto> (v, False))"
  unfolding lsm_put_def by (rule lsm_write_ok [OF assms(1,2)]) (rule memtable_put_ok [OF _ assms(3)])

lemma lsm_delete_ok:
  assumes "lsm_inv lsm" and "\<not> drops_flushing lsm" and "lvl < MAX_LEVEL"
  shows "\<exists>lsm'. lsm_delete lvl lsm t key = Some lsm' \<and> lsm_inv lsm' \<and>
    lsm_lookup lsm' = (lsm_lookup lsm)(key \<mapsto> ([], True))"
  unfolding lsm_delete_def by (rule lsm_write_ok [OF assms(1,2)]) (rule memtable_delete_ok [OF _ assms(3)])

lemma lsm_create_ok: "lsm_inv (lsm_create sz) \<and> lsm_lookup (lsm_create sz) = Map.empty"
  using memtable_create_ok by (simp add: lsm_inv_def lsm_create_def lsm_lookup_def fun_eq_iff)

section \<open>Properties\<close>

text \<open>
  C7. \<^verbatim>\<open>memtable_put\<close> is memory safe and refines the update of a map: from any memtable the
  operations can build, for every outcome of the random generator, it follows no dangling
  pointer and ends, keeps the skip list searchable, and afterwards the key holds the new
  value and every other key what it held. This covers the update that replaces a node and
  leaves the upper levels cut behind it.
\<close>

theorem memtable_put_refines:
  assumes "mt_inv mt"
  shows "\<exists>mt'. memtable_put (random_level coins) mt seq key v = Some mt' \<and> mt_inv mt' \<and>
    memtable_lookup mt' = (memtable_lookup mt)(key \<mapsto> (seq, v, False)) \<and>
    memtable_get mt' key = Some (KANBUDB_OK, Some (v, False))"
  using memtable_put_ok [OF assms random_level_bound, of coins seq key v] memtable_get_ok by fastforce

theorem memtable_put_refines_witness:
  "\<exists>mt'. memtable_put (random_level [True, False]) (memtable_create 64) 0 [1] [2] = Some mt' \<and>
     memtable_get mt' [1] = Some (KANBUDB_OK, Some ([2], False))"
  using memtable_put_refines [of "memtable_create 64" "[True, False]" 0 "[1]" "[2]"] memtable_create_ok by blast

text \<open>
  \<^verbatim>\<open>memtable_delete\<close> leaves a tombstone: the key then reads as not found with the deleted
  flag set (so that older tables are not consulted), and no other key changes.
\<close>

theorem memtable_delete_tombstone:
  assumes "mt_inv mt"
  shows "\<exists>mt'. memtable_delete (random_level coins) mt seq key = Some mt' \<and> mt_inv mt' \<and>
    memtable_lookup mt' = (memtable_lookup mt)(key \<mapsto> (seq, [], True)) \<and>
    memtable_get mt' key = Some (KANBUDB_ERR_NOTFOUND, Some ([], True))"
  using memtable_delete_ok [OF assms random_level_bound, of coins seq key] memtable_get_ok by fastforce

theorem memtable_delete_tombstone_witness:
  "\<exists>mt'. memtable_delete (random_level []) (memtable_create 64) 0 [1] = Some mt' \<and>
     memtable_get mt' [1] = Some (KANBUDB_ERR_NOTFOUND, Some ([], True))"
  using memtable_delete_tombstone [of "memtable_create 64" "[]" 0 "[1]"] memtable_create_ok by blast

text \<open>
  \<^verbatim>\<open>memtable_iterate\<close> visits every entry exactly once, tombstones included, in strictly
  ascending key order, and stops where the callback asks it to.
\<close>

theorem memtable_iterate_sorted:
  assumes "mt_inv mt"
  shows "\<exists>es. ssorted (map le_key es) \<and>
    (\<forall>k s v d. memtable_lookup mt k = Some (s, v, d) \<longleftrightarrow>
       \<lparr>le_seq = s, le_key = k, le_value = v, le_deleted = d\<rparr> \<in> set es) \<and>
    (\<forall>(cb :: 'c lsm_cb) ctx. memtable_iterate mt cb ctx = Some (run_entries cb es ctx))"
  using memtable_iterate_ok [OF assms, where 'c = 'c] by metis

theorem memtable_iterate_sorted_witness:
  "\<exists>es. ssorted (map le_key es) \<and>
     memtable_iterate (memtable_create 64) (\<lambda>e c. (Suc c, KANBUDB_OK)) 0 =
       Some (run_entries (\<lambda>e c. (Suc c, KANBUDB_OK)) es 0)"
  using memtable_iterate_sorted [of "memtable_create 64", where 'c = nat] memtable_create_ok by blast

text \<open>
  Reads see the latest write: as long as no memtable is still waiting to be flushed when
  the active one fills up, \<^verbatim>\<open>lsm_put\<close> succeeds, \<^verbatim>\<open>lsm_get\<close> then returns the new value for the
  key and the old answer for every other key, whether or not the write switched memtables.
\<close>

theorem lsm_put_get:
  assumes "lsm_inv lsm" and "\<not> drops_flushing lsm"
  shows "\<exists>lsm'. lsm_put (random_level coins) lsm t key v = Some lsm' \<and> lsm_inv lsm' \<and>
    lsm_get lsm' t' key = Some (KANBUDB_OK, Some v) \<and>
    (\<forall>k. k \<noteq> key \<longrightarrow> lsm_get lsm' t' k = lsm_get lsm t' k)"
  using lsm_put_ok [OF assms random_level_bound, of coins t key v] lsm_get_lookup assms(1) by fastforce

theorem lsm_put_get_witness:
  "\<exists>lsm'. lsm_put (random_level []) (lsm_create 64) 1 [1] [2] = Some lsm' \<and>
     lsm_get lsm' 1 [1] = Some (KANBUDB_OK, Some [2])"
  using lsm_put_get [of "lsm_create 64" "[]" 1 "[1]" "[2]" 1] lsm_create_ok
  by (auto simp: drops_flushing_def lsm_create_def)

text \<open>
  A deletion hides the key in both memtables: after \<^verbatim>\<open>lsm_delete\<close> the key reads as not found
  even if the memtable being flushed still holds a value for it.
\<close>

theorem lsm_delete_get:
  assumes "lsm_inv lsm" and "\<not> drops_flushing lsm"
  shows "\<exists>lsm'. lsm_delete (random_level coins) lsm t key = Some lsm' \<and> lsm_inv lsm' \<and>
    lsm_get lsm' t' key = Some (KANBUDB_ERR_NOTFOUND, None) \<and>
    (\<forall>k. k \<noteq> key \<longrightarrow> lsm_get lsm' t' k = lsm_get lsm t' k)"
  using lsm_delete_ok [OF assms random_level_bound, of coins t key] lsm_get_lookup assms(1) by fastforce

theorem lsm_delete_get_witness:
  "\<exists>lsm'. lsm_delete (random_level []) (lsm_create 64) 1 [1] = Some lsm' \<and>
     lsm_get lsm' 1 [1] = Some (KANBUDB_ERR_NOTFOUND, None)"
  using lsm_delete_get [of "lsm_create 64" "[]" 1 "[1]" 1] lsm_create_ok
  by (auto simp: drops_flushing_def lsm_create_def)

text \<open>
  The hypothesis is needed: three writes into an LSM front whose memtable holds one
  entry lose the first one, because the third write throws away the memtable that was
  waiting to be flushed.
\<close>

theorem lsm_put_drops_flushing:
  "Option.bind (lsm_put 0 (lsm_create 1) 1 [1] [10]) (\<lambda>l1.
     Option.bind (lsm_put 0 l1 1 [2] [20]) (\<lambda>l2.
       Option.bind (lsm_put 0 l2 1 [3] [30]) (\<lambda>l3.
         Some (lsm_get l2 1 [1], lsm_get l3 1 [1])))) =
   Some (Some (KANBUDB_OK, Some [10]), Some (KANBUDB_ERR_NOTFOUND, None))"
  by code_simp

end
