(* ===== verification/Bloom.thy ===== *)
theory Bloom
  imports Prelude
begin

text \<open>
  The bloom filter of \<^verbatim>\<open>src/src/util/bloom.c\<close>, with its 64-bit hash at machine width. An
  access outside \<^verbatim>\<open>bits\<close> and a remainder by zero make an operation return \<open>None\<close>. The
  number of hash functions comes from a \<^verbatim>\<open>double\<close> computation; its value is the parameter
  \<open>fk\<close>, so what is proved holds for any rounding.
\<close>

unbundle bit_operations_syntax

section \<open>Hashing\<close>

definition hash_mix :: "u64 \<Rightarrow> u64" where
  "hash_mix k0 =
     (let k1 = k0 * 0x87c37b91114253d5;
          k2 = k1 XOR drop_bit 31 k1
      in k2 * 0x4cf5ad432745937f)"

fun hash_blocks :: "nat \<Rightarrow> bytes \<Rightarrow> u64 \<Rightarrow> u64" where
  "hash_blocks 0 data h = h"
| "hash_blocks (Suc n) data h =
     (let k = hash_mix (get_u64 data);
          h1 = h XOR k;
          h2 = push_bit 27 h1 OR drop_bit 37 h1
      in hash_blocks n (drop 8 data) (h2 * 5 + 0x52dce729))"

text \<open>The fall-through \<^verbatim>\<open>switch\<close>: byte \<open>j\<close> of the tail enters at bit \<open>8 * j\<close>.\<close>

fun tail_word :: "nat \<Rightarrow> bytes \<Rightarrow> u64" where
  "tail_word j [] = 0"
| "tail_word j (b # bs) = tail_word (Suc j) bs XOR push_bit (8 * j) (ucast b)"

definition hash64 :: "bytes \<Rightarrow> u64 \<Rightarrow> u64" where
  "hash64 data seed =
     (let len = length data;
          h0 = seed XOR (word_of_nat len * 0x9e3779b97f4a7c15);
          n8 = len div 8;
          h1 = hash_blocks n8 data h0;
          tail = drop (n8 * 8) data;
          h2 = (if len mod 8 = 0 then h1 else h1 XOR hash_mix (tail_word 0 tail));
          h3 = h2 XOR drop_bit 37 h2;
          h4 = h3 * 0x52dce729
      in h4 XOR drop_bit 32 h4)"

definition BLOOM_HASH_SEED1 :: u64 where "BLOOM_HASH_SEED1 = 0x5a4f9a3b1c6d8e2f"
definition BLOOM_HASH_SEED2 :: u64 where "BLOOM_HASH_SEED2 = 0xc8d3e1f4a5b6c7d8"

definition bloom_hash :: "bytes \<Rightarrow> u64 \<times> u64" where
  "bloom_hash key = (hash64 key BLOOM_HASH_SEED1, hash64 key BLOOM_HASH_SEED2)"

section \<open>The filter\<close>

record kanbudb_bloom =
  bits :: bytes
  num_bits :: u32
  num_hashes :: u32
  bloom_keys :: u32

definition byte_count :: "u32 \<Rightarrow> u32" where
  "byte_count nb = (nb + 7) div 8"

definition optimal_k :: "(u32 \<Rightarrow> u32 \<Rightarrow> u32) \<Rightarrow> u32 \<Rightarrow> u32 \<Rightarrow> u32" where
  "optimal_k fk nb nk =
     (if nk = 0 then 1 else (let k = fk nb nk in if k < 1 then 1 else k))"

definition kanbudb_bloom_create :: "(u32 \<Rightarrow> u32 \<Rightarrow> u32) \<Rightarrow> u32 \<Rightarrow> byte \<Rightarrow> kanbudb_bloom option" where
  "kanbudb_bloom_create fk nk bits_per_key =
     (if nk = 0 \<or> bits_per_key = 0 then None
      else
        (let nb0 = nk * ucast bits_per_key;
             nb1 = (if nb0 < 64 then 64 else nb0);
             nb = (nb1 + 63) AND NOT 63
         in Some \<lparr>bits = replicate (unat (byte_count nb)) 0, num_bits = nb,
                  num_hashes = optimal_k fk nb nk, bloom_keys = nk\<rparr>))"

definition kanbudb_bloom_load :: "bytes \<Rightarrow> kanbudb_bloom option" where
  "kanbudb_bloom_load buf =
     (if length buf < 12 then None
      else
        (let nb = get_u32 buf; nh = get_u32 (drop 4 buf); nk = get_u32 (drop 8 buf);
             bc = byte_count nb
         in if length buf < unat (12 + bc) then None
            else Some \<lparr>bits = take (unat bc) (drop 12 buf), num_bits = nb, num_hashes = nh, bloom_keys = nk\<rparr>))"

text \<open>The bit of round \<open>i\<close>; \<open>None\<close> is a remainder by zero or an index outside \<^verbatim>\<open>bits\<close>.\<close>

definition bit_of :: "kanbudb_bloom \<Rightarrow> u64 \<Rightarrow> u64 \<Rightarrow> nat \<Rightarrow> nat option" where
  "bit_of bf h1 h2 i =
     (if num_bits bf = 0 then None
      else
        (let b = unat ((h1 + word_of_nat i * h2) mod ucast (num_bits bf))
         in if b div 8 < length (bits bf) then Some b else None))"

fun insert_rounds :: "kanbudb_bloom \<Rightarrow> u64 \<Rightarrow> u64 \<Rightarrow> nat list \<Rightarrow> kanbudb_bloom option" where
  "insert_rounds bf h1 h2 [] = Some bf"
| "insert_rounds bf h1 h2 (i # is) =
     (case bit_of bf h1 h2 i of
        None \<Rightarrow> None
      | Some b \<Rightarrow>
          insert_rounds (bf\<lparr>bits := (bits bf)[b div 8 := (bits bf ! (b div 8)) OR push_bit (b mod 8) 1]\<rparr>) h1 h2 is)"

definition kanbudb_bloom_insert :: "kanbudb_bloom \<Rightarrow> bytes \<Rightarrow> kanbudb_bloom option" where
  "kanbudb_bloom_insert bf key =
     (let (h1, h2) = bloom_hash key in insert_rounds bf h1 h2 [0..<unat (num_hashes bf)])"

fun maybe_rounds :: "kanbudb_bloom \<Rightarrow> u64 \<Rightarrow> u64 \<Rightarrow> nat list \<Rightarrow> bool option" where
  "maybe_rounds bf h1 h2 [] = Some True"
| "maybe_rounds bf h1 h2 (i # is) =
     (case bit_of bf h1 h2 i of
        None \<Rightarrow> None
      | Some b \<Rightarrow>
          if (bits bf ! (b div 8)) AND push_bit (b mod 8) 1 = 0 then Some False
          else maybe_rounds bf h1 h2 is)"

definition kanbudb_bloom_maybe :: "kanbudb_bloom \<Rightarrow> bytes \<Rightarrow> bool option" where
  "kanbudb_bloom_maybe bf key =
     (let (h1, h2) = bloom_hash key in maybe_rounds bf h1 h2 [0..<unat (num_hashes bf)])"

definition kanbudb_bloom_reset :: "kanbudb_bloom \<Rightarrow> kanbudb_bloom" where
  "kanbudb_bloom_reset bf = bf\<lparr>bits := replicate (unat (byte_count (num_bits bf))) 0\<rparr>"

definition kanbudb_bloom_serialized_size :: "kanbudb_bloom \<Rightarrow> u32" where
  "kanbudb_bloom_serialized_size bf = 12 + (num_bits bf + 7) div 8"

definition kanbudb_bloom_serialize :: "kanbudb_bloom \<Rightarrow> bytes" where
  "kanbudb_bloom_serialize bf =
     put_u32 (num_bits bf) @ put_u32 (num_hashes bf) @ put_u32 (bloom_keys bf) @
     take (unat (byte_count (num_bits bf))) (bits bf)"

end
