(* ===== verification/Bloom_Correct.thy ===== *)
theory Bloom_Correct
  imports Bloom
begin

text \<open>
  The bloom filter has no false negatives, whatever the hash functions return and whatever
  the rounding of the hash count; serialisation is lossless; and what a corrupt image
  does to the loader.
\<close>

section \<open>Bits\<close>

definition bloom_inv :: "kanbudb_bloom \<Rightarrow> bool" where
  "bloom_inv bf \<longleftrightarrow> num_bits bf \<noteq> 0 \<and> unat (num_bits bf) \<le> 8 * length (bits bf)"

definition set_bits :: "kanbudb_bloom \<Rightarrow> nat set" where
  "set_bits bf = {b. b div 8 < length (bits bf) \<and> bit (bits bf ! (b div 8)) (b mod 8)}"

definition round_bit :: "kanbudb_bloom \<Rightarrow> u64 \<Rightarrow> u64 \<Rightarrow> nat \<Rightarrow> nat" where
  "round_bit bf h1 h2 i = unat ((h1 + word_of_nat i * h2) mod ucast (num_bits bf))"

lemma bit_of_inv:
  assumes "bloom_inv bf"
  shows "bit_of bf h1 h2 i = Some (round_bit bf h1 h2 i) \<and> round_bit bf h1 h2 i div 8 < length (bits bf)"
proof -
  let ?m = "ucast (num_bits bf) :: u64"
  have m: "unat ?m = unat (num_bits bf)"
    using unat_bounds(2) [of "num_bits bf"] by (simp add: unsigned_ucast_eq take_bit_nat_eq_self)
  then have "unat ?m \<noteq> 0" using assms by (simp add: bloom_inv_def unat_eq_0)
  then have "unat ((h1 + word_of_nat i * h2) mod ?m) < unat (num_bits bf)"
    using m by (simp add: unat_mod_distrib)
  then have "round_bit bf h1 h2 i div 8 < length (bits bf)"
    using assms by (simp add: bloom_inv_def round_bit_def div_less_iff_less_mult)
  then show ?thesis using assms by (simp add: bit_of_def round_bit_def bloom_inv_def)
qed

lemma byte_test: "(w :: byte) AND 2 ^ n = 0 \<longleftrightarrow> \<not> bit w n"
  by (simp add: and_exp_eq_0_iff_not_bit)

lemma byte_set: "n < 8 \<Longrightarrow> bit ((w :: byte) OR 2 ^ n) m \<longleftrightarrow> bit w m \<or> m = n"
  by (auto simp: bit_simps)

abbreviation set_bit_at :: "kanbudb_bloom \<Rightarrow> nat \<Rightarrow> kanbudb_bloom" where
  "set_bit_at bf b \<equiv> bf\<lparr>bits := (bits bf)[b div 8 := (bits bf ! (b div 8)) OR push_bit (b mod 8) 1]\<rparr>"

lemma set_bit_at_bits:
  assumes "b div 8 < length (bits bf)"
  shows "set_bits (set_bit_at bf b) = insert b (set_bits bf)"
proof (rule set_eqI)
  fix c
  have "c div 8 = b div 8 \<Longrightarrow> c mod 8 = b mod 8 \<longleftrightarrow> c = b" by (metis div_mult_mod_eq)
  then show "c \<in> set_bits (set_bit_at bf b) \<longleftrightarrow> c \<in> insert b (set_bits bf)"
    using assms by (cases "c div 8 = b div 8") (auto simp: set_bits_def byte_set)
qed

lemma set_bit_at_inv: "bloom_inv bf \<Longrightarrow> bloom_inv (set_bit_at bf b)"
  by (simp add: bloom_inv_def)

section \<open>Insertion and test\<close>

lemma insert_rounds_ok:
  assumes "bloom_inv bf"
  shows "\<exists>bf'. insert_rounds bf h1 h2 is = Some bf' \<and> bloom_inv bf' \<and> num_bits bf' = num_bits bf \<and>
    num_hashes bf' = num_hashes bf \<and> set_bits bf' = set_bits bf \<union> round_bit bf h1 h2 ` set is"
  using assms
proof (induction "is" arbitrary: bf)
  case (Cons i "is")
  let ?b = "round_bit bf h1 h2 i"
  note b = bit_of_inv [OF Cons.prems, of h1 h2 i]
  have r: "round_bit (set_bit_at bf ?b) = round_bit bf" by (simp add: round_bit_def fun_eq_iff)
  obtain bf' where "insert_rounds (set_bit_at bf ?b) h1 h2 is = Some bf'" "bloom_inv bf'"
    "num_bits bf' = num_bits bf" "num_hashes bf' = num_hashes bf"
    "set_bits bf' = insert ?b (set_bits bf) \<union> round_bit bf h1 h2 ` set is"
    using Cons.IH [OF set_bit_at_inv [OF Cons.prems, of ?b]] set_bit_at_bits [of ?b bf] b r by auto
  then show ?case using b by auto
qed simp

lemma maybe_rounds_ok:
  assumes "bloom_inv bf"
  shows "maybe_rounds bf h1 h2 is = Some (round_bit bf h1 h2 ` set is \<subseteq> set_bits bf)"
proof (induction "is")
  case (Cons i "is")
  then show ?case
    using bit_of_inv [OF assms, of h1 h2 i] by (auto simp: set_bits_def byte_test)
qed simp

definition key_bits :: "kanbudb_bloom \<Rightarrow> bytes \<Rightarrow> nat set" where
  "key_bits bf key =
     (let (h1, h2) = bloom_hash key in round_bit bf h1 h2 ` {..<unat (num_hashes bf)})"

lemma bloom_maybe_iff:
  "bloom_inv bf \<Longrightarrow> kanbudb_bloom_maybe bf key = Some (key_bits bf key \<subseteq> set_bits bf)"
  by (simp add: kanbudb_bloom_maybe_def key_bits_def maybe_rounds_ok atLeast0LessThan split: prod.splits)

lemma bloom_insert_ok:
  assumes "bloom_inv bf"
  shows "\<exists>bf'. kanbudb_bloom_insert bf key = Some bf' \<and> bloom_inv bf' \<and> key_bits bf' = key_bits bf \<and>
    set_bits bf' = set_bits bf \<union> key_bits bf key"
proof -
  obtain h1 h2 where h: "bloom_hash key = (h1, h2)" by (cases "bloom_hash key")
  obtain bf' where b: "insert_rounds bf h1 h2 [0..<unat (num_hashes bf)] = Some bf'" "bloom_inv bf'"
    "num_bits bf' = num_bits bf" "num_hashes bf' = num_hashes bf"
    "set_bits bf' = set_bits bf \<union> round_bit bf h1 h2 ` {..<unat (num_hashes bf)}"
    using insert_rounds_ok [OF assms, of h1 h2 "[0..<unat (num_hashes bf)]"] by (auto simp: atLeast0LessThan)
  then have "key_bits bf' = key_bits bf" by (simp add: key_bits_def round_bit_def fun_eq_iff)
  then show ?thesis using b h by (simp add: kanbudb_bloom_insert_def key_bits_def)
qed

fun bloom_insert_all :: "kanbudb_bloom \<Rightarrow> bytes list \<Rightarrow> kanbudb_bloom option" where
  "bloom_insert_all bf [] = Some bf"
| "bloom_insert_all bf (k # ks) =
     (case kanbudb_bloom_insert bf k of None \<Rightarrow> None | Some bf' \<Rightarrow> bloom_insert_all bf' ks)"

lemma insert_all_ok:
  assumes "bloom_inv bf"
  shows "\<exists>bf'. bloom_insert_all bf ks = Some bf' \<and> bloom_inv bf' \<and> key_bits bf' = key_bits bf \<and>
    set_bits bf' = set_bits bf \<union> \<Union> (key_bits bf ` set ks)"
  using assms
proof (induction ks arbitrary: bf)
  case (Cons k ks)
  obtain b where b: "kanbudb_bloom_insert bf k = Some b" "bloom_inv b" "key_bits b = key_bits bf"
    "set_bits b = set_bits bf \<union> key_bits bf k"
    using bloom_insert_ok [OF Cons.prems, of k] by blast
  with Cons.IH [OF b(2)] show ?case by auto
qed simp

lemma insert_rounds_dims:
  "insert_rounds b h1 h2 is = Some b' \<Longrightarrow> num_bits b' = num_bits b \<and> length (bits b') = length (bits b)"
  by (induction b h1 h2 "is" rule: insert_rounds.induct) (auto split: option.splits)

lemma insert_all_dims:
  "bloom_insert_all b ks = Some b' \<Longrightarrow> num_bits b' = num_bits b \<and> length (bits b') = length (bits b)"
  by (induction b ks rule: bloom_insert_all.induct)
    (auto simp: kanbudb_bloom_insert_def split: option.splits prod.splits dest!: insert_rounds_dims)

section \<open>Creation, reset and the serialised form\<close>

lemma unat_byte_count:
  assumes "unat nb + 7 < 2 ^ 32"
  shows "unat (byte_count nb) = (unat nb + 7) div 8"
proof -
  have "unat (nb + 7) = unat nb + 7"
    using assms by (subst unat_add_lem [THEN iffD1]) simp_all
  then show ?thesis by (simp add: byte_count_def unat_div_distrib)
qed

lemma clear_low: "unat ((w :: u32) AND NOT 63) = unat w div 64 * 64"
proof -
  have m: "(63 :: u32) = mask 6" by (simp add: mask_eq_exp_minus_1)
  have "w AND NOT 63 = push_bit 6 (drop_bit 6 w)"
    unfolding m by (rule bit_eqI) (auto simp: bit_simps)
  then have "w AND NOT 63 = w div 64 * 64" by (simp add: push_bit_eq_mult drop_bit_eq_div)
  moreover have "unat (w div 64) * unat (64 :: u32) < 2 ^ LENGTH(32)"
    using unat_bounds(2) [of w] by (simp add: unat_div_distrib)
  ultimately show ?thesis
    using unat_mult_lem [of "w div 64" 64] by (simp add: unat_div_distrib)
qed

lemma create_ok:
  assumes "kanbudb_bloom_create fk nk bpk = Some bf" and "unat nk * unat bpk \<le> 2 ^ 32 - 64"
  shows "bloom_inv bf \<and> set_bits bf = {} \<and> 0 < num_hashes bf \<and> unat (num_bits bf) + 7 < 2 ^ 32 \<and>
         length (bits bf) = (unat (num_bits bf) + 7) div 8"
proof -
  let ?nb0 = "nk * ucast bpk :: u32"
  let ?nb1 = "if ?nb0 < 64 then 64 else ?nb0"
  have "unat (ucast bpk :: u32) = unat bpk"
    using unat_bounds(1) [of bpk] by (simp add: unsigned_ucast_eq take_bit_nat_eq_self)
  then have u0: "unat ?nb0 = unat nk * unat bpk"
    using assms(2) by (subst unat_mult_lem [THEN iffD1]) simp_all
  then have u1: "64 \<le> unat ?nb1" "unat ?nb1 \<le> 2 ^ 32 - 64"
    using assms(2) by (auto simp: word_less_nat_alt)
  then have u2: "unat (?nb1 + 63) = unat ?nb1 + 63"
    by (subst unat_add_lem [THEN iffD1]) simp_all
  define nb where "nb = (?nb1 + 63) AND NOT 63"
  have nb: "unat nb = (unat ?nb1 + 63) div 64 * 64" by (simp only: nb_def clear_low u2)
  have "(unat ?nb1 + 63) div 64 \<le> 4294967295 div 64" using u1 by (intro div_le_mono) simp
  then have nb': "64 \<le> unat nb" "unat nb + 7 < 2 ^ 32" using u1 nb by simp_all
  then have n0: "nb \<noteq> 0" by auto
  have bf: "bf = \<lparr>bits = replicate (unat (byte_count nb)) 0, num_bits = nb, num_hashes = optimal_k fk nb nk, bloom_keys = nk\<rparr>"
    using assms(1) by (simp add: kanbudb_bloom_create_def Let_def nb_def split: if_splits)
  have "0 < optimal_k fk nb nk" by (auto simp: optimal_k_def Let_def word_less_nat_alt unat_gt_0)
  then show ?thesis
    using nb' n0 by (simp add: bf bloom_inv_def set_bits_def unat_byte_count)
qed

lemma load_serialize:
  assumes "unat (num_bits bf) + 7 < 2 ^ 32" and "length (bits bf) = (unat (num_bits bf) + 7) div 8"
  shows "kanbudb_bloom_load (kanbudb_bloom_serialize bf @ rest) = Some bf \<and>
         length (kanbudb_bloom_serialize bf) = unat (kanbudb_bloom_serialized_size bf)"
proof -
  have bc: "unat (byte_count (num_bits bf)) = length (bits bf)"
    using unat_byte_count [OF assms(1)] assms(2) by simp
  have "length (bits bf) < 2 ^ 31" using assms by simp
  then have u: "unat (12 + byte_count (num_bits bf)) = 12 + length (bits bf)"
    using bc by (subst unat_add_lem [THEN iffD1]) simp_all
  have d: "drop 4 (put_u32 a @ r) = r" "drop 8 (put_u32 a @ put_u32 b @ r) = r"
    "drop 12 (put_u32 a @ put_u32 b @ put_u32 c @ r) = r" for a b c :: u32 and r :: bytes
    by (simp_all add: drop_append)
  show ?thesis
    using bc u by (simp add: kanbudb_bloom_load_def kanbudb_bloom_serialize_def Let_def d
        kanbudb_bloom_serialized_size_def byte_count_def [symmetric])
qed

section \<open>Properties\<close>

text \<open>
  C36. No false negatives: a filter made for any number of keys (whose bit count fits in 32
  bits), after any sequence of insertions, answers \<^verbatim>\<open>maybe\<close> for every inserted key, without
  an access outside its bit array.
\<close>

theorem bloom_no_false_negatives:
  assumes "kanbudb_bloom_create fk nk bpk = Some bf" and "unat nk * unat bpk \<le> 2 ^ 32 - 64"
  shows "\<exists>bf'. bloom_insert_all bf ks = Some bf' \<and>
    (\<forall>k\<in>set ks. kanbudb_bloom_maybe bf' k = Some True) \<and> (\<forall>k. kanbudb_bloom_maybe bf' k \<noteq> None)"
proof -
  obtain bf' where "bloom_insert_all bf ks = Some bf'" "bloom_inv bf'" "key_bits bf' = key_bits bf"
    "set_bits bf' = set_bits bf \<union> \<Union> (key_bits bf ` set ks)"
    using insert_all_ok [of bf ks] create_ok [OF assms] by blast
  then show ?thesis by (auto simp: bloom_maybe_iff)
qed

definition demo_fk :: "u32 \<Rightarrow> u32 \<Rightarrow> u32" where
  "demo_fk nb nk = word_of_nat ((unat nb * 138629436 + unat nk * 100000000) div (unat nk * 200000000))"

theorem bloom_no_false_negatives_witness:
  "\<exists>bf bf'. kanbudb_bloom_create demo_fk 2 10 = Some bf \<and> bloom_insert_all bf [[1], [2]] = Some bf' \<and>
     kanbudb_bloom_maybe bf' [1] = Some True"
proof -
  obtain bf where "kanbudb_bloom_create demo_fk 2 10 = Some bf"
    by (auto simp: kanbudb_bloom_create_def Let_def)
  then show ?thesis using bloom_no_false_negatives [of demo_fk 2 10 bf "[[1], [2]]"] by auto
qed

text \<open>
  Serialising a filter and loading the bytes back, with anything behind them, gives the
  same filter, and the announced size is the number of bytes written.
\<close>

theorem bloom_load_serialize:
  assumes "kanbudb_bloom_create fk nk bpk = Some bf" and "unat nk * unat bpk \<le> 2 ^ 32 - 64"
    and "bloom_insert_all bf ks = Some bf'"
  shows "kanbudb_bloom_load (kanbudb_bloom_serialize bf' @ rest) = Some bf' \<and>
         length (kanbudb_bloom_serialize bf') = unat (kanbudb_bloom_serialized_size bf')"
  using assms(3) create_ok [OF assms(1,2)] insert_all_dims [OF assms(3)] by (intro load_serialize) simp_all

theorem bloom_load_serialize_witness:
  "\<exists>bf. kanbudb_bloom_create demo_fk 2 10 = Some bf \<and> kanbudb_bloom_load (kanbudb_bloom_serialize bf) = Some bf"
proof -
  obtain bf where "kanbudb_bloom_create demo_fk 2 10 = Some bf"
    by (auto simp: kanbudb_bloom_create_def Let_def)
  then show ?thesis using bloom_load_serialize [of demo_fk 2 10 bf "[]" bf "[]"] by auto
qed

text \<open>
  A corrupt image is not rejected: a 12-byte image whose bit count is \<^verbatim>\<open>0xFFFFFFFF\<close> loads (the
  byte count wraps to 0), and one whose bit count is 0 loads too; testing any key in
  either then reads outside the bit array or divides by zero.
\<close>

theorem bloom_load_corrupt:
  assumes "nh \<noteq> 0"
  shows "\<exists>bf1 bf2. kanbudb_bloom_load (put_u32 0xFFFFFFFF @ put_u32 nh @ put_u32 nk) = Some bf1 \<and>
      kanbudb_bloom_maybe bf1 key = None \<and>
      kanbudb_bloom_load (put_u32 0 @ put_u32 nh @ put_u32 nk) = Some bf2 \<and>
      kanbudb_bloom_maybe bf2 key = None"
proof -
  have r: "[0..<unat nh] = 0 # [1..<unat nh]" using assms by (simp add: upt_conv_Cons unat_gt_0)
  have d: "drop 4 (put_u32 a @ r) = r" "drop 8 (put_u32 a @ put_u32 b @ r) = r" for a b :: u32 and r :: bytes
    by (simp_all add: drop_append)
  have "byte_count 0xFFFFFFFF = 0" "byte_count 0 = 0" by (simp_all add: byte_count_def)
  then have "kanbudb_bloom_load (put_u32 0xFFFFFFFF @ put_u32 nh @ put_u32 nk) =
      Some \<lparr>bits = [], num_bits = 0xFFFFFFFF, num_hashes = nh, bloom_keys = nk\<rparr>"
    "kanbudb_bloom_load (put_u32 0 @ put_u32 nh @ put_u32 nk) =
      Some \<lparr>bits = [], num_bits = 0, num_hashes = nh, bloom_keys = nk\<rparr>"
    by (simp_all add: kanbudb_bloom_load_def Let_def d)
  then show ?thesis
    by (simp add: kanbudb_bloom_maybe_def r bit_of_def Let_def split: prod.splits)
qed

theorem bloom_load_corrupt_witness:
  "\<exists>bf1. kanbudb_bloom_load (put_u32 0xFFFFFFFF @ put_u32 7 @ put_u32 1) = Some bf1 \<and>
     kanbudb_bloom_maybe bf1 [1] = None"
  using bloom_load_corrupt [of 7 1 "[1]"] by auto

end
