(* ===== verification/Sstable.thy ===== *)
theory Sstable
  imports Bloom
begin

text \<open>
  The on-disk tables of \<^verbatim>\<open>src/src/storage/sstable.c\<close>: the writer builds data block, sparse
  index, bloom filter and footer as bytes; the reader works on the bytes of a mapped file.
  As in the log, \<open>io\<close> tells how many of the bytes offered an \<^verbatim>\<open>fwrite\<close> takes. A read outside
  the mapped file makes an operation return \<open>None\<close>.
\<close>

unbundle bit_operations_syntax

section \<open>CRC32\<close>

definition crc_bit :: "u32 \<Rightarrow> u32" where
  "crc_bit crc = (if crc AND 1 \<noteq> 0 then drop_bit 1 crc XOR 0xEDB88320 else drop_bit 1 crc)"

definition crc32_entry :: "u32 \<Rightarrow> u32" where
  "crc32_entry i = (crc_bit ^^ 8) i"

definition crc32_table :: "u32 list" where
  "crc32_table = map (\<lambda>i. crc32_entry (word_of_nat i)) [0..<256]"

definition crc32_step :: "u32 \<Rightarrow> byte \<Rightarrow> u32" where
  "crc32_step crc b = crc32_table ! unat ((crc XOR ucast b) AND 0xFF) XOR drop_bit 8 crc"

definition crc32_bytes :: "bytes \<Rightarrow> u32 \<Rightarrow> u32" where
  "crc32_bytes data crc = NOT (fold (\<lambda>b c. crc32_step c b) data (NOT crc))"

section \<open>Format\<close>

definition KANBUDB_SSTABLE_MAGIC :: u32 where "KANBUDB_SSTABLE_MAGIC = 0x4B534E54"
definition KANBUDB_SSTABLE_VERSION :: u32 where "KANBUDB_SSTABLE_VERSION = 2"
definition KANBUDB_SSTABLE_SPARSE_INTERVAL :: nat where "KANBUDB_SSTABLE_SPARSE_INTERVAL = 32"
definition KANBUDB_SSTABLE_FLAG_ALIVE :: byte where "KANBUDB_SSTABLE_FLAG_ALIVE = 1"
definition KANBUDB_SSTABLE_FLAG_TOMBSTONE :: byte where "KANBUDB_SSTABLE_FLAG_TOMBSTONE = 2"
definition SSTABLE_BLOOM_BITS_PER_KEY :: byte where "SSTABLE_BLOOM_BITS_PER_KEY = 10"

lemmas sst_consts = KANBUDB_SSTABLE_MAGIC_def KANBUDB_SSTABLE_VERSION_def
  KANBUDB_SSTABLE_SPARSE_INTERVAL_def KANBUDB_SSTABLE_FLAG_ALIVE_def
  KANBUDB_SSTABLE_FLAG_TOMBSTONE_def SSTABLE_BLOOM_BITS_PER_KEY_def

text \<open>The packed \<^verbatim>\<open>sstable_header_t\<close>, 56 bytes.\<close>

record sstable_header =
  h_magic :: u32
  h_version :: u32
  h_num_entries :: u64
  h_data_len :: u64
  h_index_offset :: u64
  h_bloom_offset :: u64
  h_sequence :: u64
  h_created_at :: u64

definition sizeof_header :: nat where "sizeof_header = 56"

definition header_bytes :: "sstable_header \<Rightarrow> bytes" where
  "header_bytes h =
     put_u32 (h_magic h) @ put_u32 (h_version h) @ put_u64 (h_num_entries h) @ put_u64 (h_data_len h) @
     put_u64 (h_index_offset h) @ put_u64 (h_bloom_offset h) @ put_u64 (h_sequence h) @ put_u64 (h_created_at h)"

definition header_of :: "bytes \<Rightarrow> sstable_header" where
  "header_of bs =
     \<lparr>h_magic = get_u32 bs, h_version = get_u32 (drop 4 bs), h_num_entries = get_u64 (drop 8 bs),
      h_data_len = get_u64 (drop 16 bs), h_index_offset = get_u64 (drop 24 bs),
      h_bloom_offset = get_u64 (drop 32 bs), h_sequence = get_u64 (drop 40 bs),
      h_created_at = get_u64 (drop 48 bs)\<rparr>"

text \<open>Successive \<^verbatim>\<open>fwrite\<close>s at the end of the file, stopping at the first short one.\<close>

fun write_chunks :: "(bytes \<Rightarrow> nat) \<Rightarrow> bytes \<Rightarrow> bytes list \<Rightarrow> bytes \<times> bool" where
  "write_chunks io f [] = (f, True)"
| "write_chunks io f (b # bs) =
     (if length b \<le> io b then write_chunks io (f @ b) bs else (f @ take (io b) b, False))"

section \<open>Writer\<close>

record sstable_writer =
  w_file :: bytes
  w_sequence :: u64
  w_num_entries :: u64
  w_data_len :: u64
  w_since_index :: nat
  w_index :: bytes
  w_bloom :: "kanbudb_bloom option"

definition sstable_writer_create :: "bool \<Rightarrow> (bytes \<Rightarrow> nat) \<Rightarrow> u64 \<Rightarrow> sstable_writer option" where
  "sstable_writer_create opened io sequence =
     (if \<not> opened then None
      else case write_chunks io [] [replicate sizeof_header 0] of (f, ok) \<Rightarrow>
        if \<not> ok then None
        else Some \<lparr>w_file = f, w_sequence = sequence, w_num_entries = 0, w_data_len = 0,
                   w_since_index = 0, w_index = [], w_bloom = None\<rparr>)"

text \<open>The sparse index: every 32nd entry leaves its key and file offset in the index buffer.\<close>

definition index_add :: "sstable_writer \<Rightarrow> bytes \<Rightarrow> sstable_writer" where
  "index_add w key =
     (let w1 = (if w_since_index w = 0
                then w\<lparr>w_index := w_index w @ put_u32 (word_of_nat (length key)) @ key @
                                    put_u64 (word_of_nat (length (w_file w)))\<rparr>
                else w);
          n = Suc (w_since_index w)
      in w1\<lparr>w_since_index := (if n \<ge> KANBUDB_SSTABLE_SPARSE_INTERVAL then 0 else n)\<rparr>)"

definition entry_chunks :: "bytes \<Rightarrow> bytes option \<Rightarrow> nat \<Rightarrow> byte \<Rightarrow> bytes list" where
  "entry_chunks key val val_len flag =
     [put_u32 (word_of_nat (length key))] @ (if length key > 0 then [key] else []) @ [[flag]] @
     [put_u32 (word_of_nat val_len)] @
     (case val of Some v \<Rightarrow> if val_len > 0 then [take val_len v] else [] | None \<Rightarrow> [])"

text \<open>\<^verbatim>\<open>sstable_writer_add\<close>; the outer option is the validity of the bloom filter accesses.\<close>

definition sstable_writer_add ::
  "(u32 \<Rightarrow> u32 \<Rightarrow> u32) \<Rightarrow> (bytes \<Rightarrow> nat) \<Rightarrow> sstable_writer \<Rightarrow> bytes \<Rightarrow> bytes option \<Rightarrow> nat \<Rightarrow> byte
     \<Rightarrow> (sstable_writer \<times> rc) option" where
  "sstable_writer_add fk io w key val val_len flag =
     (if length key > 1048576 \<or> val_len > 1048576 then Some (w, KANBUDB_ERR_INVAL)
      else
        (let w1 = index_add w key
         in case write_chunks io (w_file w1) (entry_chunks key val val_len flag) of (f, ok) \<Rightarrow>
              if \<not> ok then Some (w1\<lparr>w_file := f\<rparr>, KANBUDB_ERR_IO)
              else
                (let w2 = w1\<lparr>w_file := f\<rparr>;
                     bl = (case w_bloom w2 of
                             None \<Rightarrow> kanbudb_bloom_create fk 65536 SSTABLE_BLOOM_BITS_PER_KEY
                           | Some b \<Rightarrow> Some b);
                     fin = (\<lambda>b. w2\<lparr>w_bloom := b, w_num_entries := w_num_entries w2 + 1,
                                   w_data_len := w_data_len w2 +
                                     word_of_nat (4 + length key + 1 + 4 + val_len)\<rparr>)
                 in case bl of
                      None \<Rightarrow> Some (fin None, KANBUDB_OK)
                    | Some b \<Rightarrow>
                        (case kanbudb_bloom_insert b key of
                           None \<Rightarrow> None
                         | Some b' \<Rightarrow> Some (fin (Some b'), KANBUDB_OK)))))"

text \<open>The loop of \<^verbatim>\<open>sstable_writer_finish\<close> that counts the index entries in the buffer.\<close>

function index_count_loop :: "bytes \<Rightarrow> u32 \<Rightarrow> u32" where
  "index_count_loop buf cnt =
     (if length buf < 4 then cnt
      else index_count_loop (drop (4 + unat (get_u32 buf) + 8) buf) (cnt + 1))"
  by pat_completeness auto
termination
  by (relation "measure (\<lambda>(buf, cnt). length buf)") auto

declare index_count_loop.simps [simp del]

text \<open>
  The temporary file is opened with mode \<^verbatim>\<open>"wb"\<close>, so the \<^verbatim>\<open>fread\<close> that fetches the bytes for the
  checksum cannot succeed.
\<close>

definition tmp_readable :: bool where "tmp_readable = False"

definition finish_checksum :: "bytes \<Rightarrow> u32" where
  "finish_checksum f = (if tmp_readable then crc32_bytes (drop sizeof_header f) 0 else 0)"

text \<open>
  \<^verbatim>\<open>sstable_writer_finish\<close> with the results of \<^verbatim>\<open>time\<close>, \<^verbatim>\<open>fsync\<close> and \<^verbatim>\<open>rename\<close> as parameters; the
  result is the content of the renamed file.
\<close>

definition bloom_chunk :: "sstable_writer \<Rightarrow> bytes option" where
  "bloom_chunk w =
     (case w_bloom w of
        None \<Rightarrow> None
      | Some b \<Rightarrow> if w_num_entries w > 0 then Some (kanbudb_bloom_serialize b) else None)"

definition sstable_writer_finish ::
  "u64 \<Rightarrow> bool \<Rightarrow> bool \<Rightarrow> (bytes \<Rightarrow> nat) \<Rightarrow> sstable_writer \<Rightarrow> bytes \<times> rc" where
  "sstable_writer_finish now fsync_ok rename_ok io w =
     (let index_offset = length (w_file w)
      in case write_chunks io (w_file w)
                ([put_u32 (index_count_loop (w_index w) 0)] @ (if w_index w \<noteq> [] then [w_index w] else []))
         of (f1, ok1) \<Rightarrow>
           if \<not> ok1 then (f1, KANBUDB_ERR_IO)
           else
             (let bloom_offset = (if bloom_chunk w = None then 0 else length f1)
              in case write_chunks io f1 (case bloom_chunk w of None \<Rightarrow> [] | Some b \<Rightarrow> [b]) of (f2, ok2) \<Rightarrow>
                   if \<not> ok2 then (f2, KANBUDB_ERR_IO)
                   else
                     (case write_chunks io f2 [put_u32 (finish_checksum f2)] of (f3, ok3) \<Rightarrow>
                       if \<not> ok3 then (f3, KANBUDB_ERR_IO)
                       else
                         (let hdr = \<lparr>h_magic = KANBUDB_SSTABLE_MAGIC, h_version = KANBUDB_SSTABLE_VERSION,
                                     h_num_entries = w_num_entries w,
                                     h_data_len = word_of_nat index_offset - word_of_nat sizeof_header,
                                     h_index_offset = word_of_nat index_offset,
                                     h_bloom_offset = word_of_nat bloom_offset,
                                     h_sequence = w_sequence w, h_created_at = now\<rparr>;
                              hb = header_bytes hdr
                          in if io hb < sizeof_header then (take (io hb) hb @ drop (io hb) f3, KANBUDB_ERR_IO)
                             else
                               (let f4 = hb @ drop sizeof_header f3
                                in if \<not> fsync_ok then (f4, KANBUDB_ERR_IO)
                                   else if \<not> rename_ok then (f4, KANBUDB_ERR_IO)
                                   else (f4, KANBUDB_OK))))))"

section \<open>Reader\<close>

record sstable_idx_entry =
  i_key :: bytes
  i_offset :: u64

record sstable_reader =
  r_mapped :: bytes
  r_header :: sstable_header
  r_index :: "sstable_idx_entry list"
  r_crc_ok :: u32
  r_bloom :: "kanbudb_bloom option"

definition read_at :: "bytes \<Rightarrow> nat \<Rightarrow> nat \<Rightarrow> bytes option" where
  "read_at m off n = (if off + n \<le> length m then Some (take n (drop off m)) else None)"

fun parse_index :: "bytes \<Rightarrow> nat \<Rightarrow> nat \<Rightarrow> sstable_idx_entry list option" where
  "parse_index m 0 p = Some []"
| "parse_index m (Suc n) p =
     (case read_at m p 4 of None \<Rightarrow> None | Some kl \<Rightarrow>
      (case read_at m (p + 4) (unat (get_u32 kl)) of None \<Rightarrow> None | Some key \<Rightarrow>
       (case read_at m (p + 4 + unat (get_u32 kl)) 8 of None \<Rightarrow> None | Some off \<Rightarrow>
        map_option (\<lambda>es. \<lparr>i_key = key, i_offset = get_u64 off\<rparr> # es)
          (parse_index m n (p + 4 + unat (get_u32 kl) + 8)))))"

definition load_bloom :: "bytes \<Rightarrow> sstable_header \<Rightarrow> kanbudb_bloom option option" where
  "load_bloom m h =
     (if h_version h \<ge> 2 \<and> h_bloom_offset h > 0 then
        (let off = unat (h_bloom_offset h)
         in case read_at m off 12 of
              None \<Rightarrow> None
            | Some bh \<Rightarrow>
                (let bsz = 12 + (get_u32 bh + 7) div 8
                 in if unat (h_bloom_offset h + ucast bsz) \<le> length m
                    then Some (kanbudb_bloom_load (take (unat bsz) (drop off m)))
                    else Some None))
      else Some None)"

text \<open>
  \<^verbatim>\<open>sstable_reader_open\<close> on the content of the file: the outer option is the validity of the
  reads, the inner one the returned pointer.
\<close>

definition sstable_reader_open :: "bytes \<Rightarrow> sstable_reader option option" where
  "sstable_reader_open m =
     (if m = [] then Some None
      else case read_at m 0 sizeof_header of None \<Rightarrow> None | Some hb \<Rightarrow>
        (let h = header_of hb
         in if h_magic h \<noteq> KANBUDB_SSTABLE_MAGIC then Some None
            else if h_version h > KANBUDB_SSTABLE_VERSION then Some None
            else
              (let io = unat (h_index_offset h)
               in case read_at m io 4 of None \<Rightarrow> None | Some nb \<Rightarrow>
                  (case parse_index m (unat (get_u32 nb)) (io + 4) of None \<Rightarrow> None | Some idx \<Rightarrow>
                   (case load_bloom m h of None \<Rightarrow> None | Some bl \<Rightarrow>
                    (let crc = (if length m > 4
                                then (let stored = get_u32 (drop (length m - 4) m);
                                          computed = crc32_bytes (take (length m - 4) m) 0
                                      in if computed = stored then 1 else - 1)
                                else 0)
                     in Some (Some \<lparr>r_mapped = m, r_header = h, r_index = idx, r_crc_ok = crc, r_bloom = bl\<rparr>)))))))"

function lower_bound_loop :: "sstable_idx_entry list \<Rightarrow> bytes \<Rightarrow> nat \<Rightarrow> nat \<Rightarrow> nat" where
  "lower_bound_loop idx key lo hi =
     (if lo < hi then
        (let mid = lo + (hi - lo) div 2
         in if key_cmp key (i_key (idx ! mid)) \<le> 0
            then lower_bound_loop idx key lo mid
            else lower_bound_loop idx key (mid + 1) hi)
      else lo)"
  by pat_completeness auto
termination
  by (relation "measure (\<lambda>(idx, key, lo, hi). hi - lo)") auto

declare lower_bound_loop.simps [simp del]

definition index_lower_bound :: "sstable_idx_entry list \<Rightarrow> bytes \<Rightarrow> nat" where
  "index_lower_bound idx key = lower_bound_loop idx key 0 (length idx)"

text \<open>One entry at offset \<open>p\<close>: key, flag, value length and where the value starts.\<close>

definition parse_entry :: "bytes \<Rightarrow> nat \<Rightarrow> (bytes \<times> byte \<times> nat \<times> nat) option" where
  "parse_entry m p =
     (case read_at m p 4 of None \<Rightarrow> None | Some klb \<Rightarrow>
      (let kl = unat (get_u32 klb)
       in case read_at m (p + 4) kl of None \<Rightarrow> None | Some key \<Rightarrow>
        (case read_at m (p + 4 + kl) 1 of None \<Rightarrow> None | Some fl \<Rightarrow>
         (case read_at m (p + 4 + kl + 1) 4 of None \<Rightarrow> None | Some vlb \<Rightarrow>
           Some (key, hd fl, unat (get_u32 vlb), p + 4 + kl + 1 + 4)))))"

type_synonym sst_result = "rc \<times> byte option \<times> bytes option"

fun get_loop :: "bytes \<Rightarrow> bytes \<Rightarrow> nat \<Rightarrow> nat \<Rightarrow> sst_result option" where
  "get_loop m key 0 p = Some (KANBUDB_ERR_NOTFOUND, None, None)"
| "get_loop m key (Suc n) p =
     (case parse_entry m p of
        None \<Rightarrow> None
      | Some (k, fl, vl, vp) \<Rightarrow>
          if key_cmp key k = 0 then
            (if fl AND KANBUDB_SSTABLE_FLAG_TOMBSTONE \<noteq> 0 then Some (KANBUDB_ERR_NOTFOUND, Some fl, None)
             else map_option (\<lambda>v. (KANBUDB_OK, Some fl, Some v)) (read_at m vp vl))
          else if key_cmp key k < 0 then Some (KANBUDB_ERR_NOTFOUND, None, None)
          else get_loop m key n (vp + vl))"

definition sstable_reader_get :: "sstable_reader \<Rightarrow> bytes \<Rightarrow> sst_result option" where
  "sstable_reader_get r key =
     (case (case r_bloom r of None \<Rightarrow> Some True | Some b \<Rightarrow> kanbudb_bloom_maybe b key) of
        None \<Rightarrow> None
      | Some False \<Rightarrow> Some (KANBUDB_ERR_NOTFOUND, None, None)
      | Some True \<Rightarrow>
          (let pos = index_lower_bound (r_index r) key;
               max_entries = unat (ucast (h_num_entries (r_header r)) :: u32);
               (data_start, start_entry) =
                 (if r_index r \<noteq> [] then
                    (if pos > 0 then (unat (i_offset (r_index r ! (pos - 1))),
                                      unat (word_of_nat ((pos - 1) * KANBUDB_SSTABLE_SPARSE_INTERVAL) :: u32))
                     else (unat (i_offset (r_index r ! 0)), 0))
                  else (sizeof_header, 0));
               limit0 = unat (word_of_nat (start_entry + 2 * KANBUDB_SSTABLE_SPARSE_INTERVAL) :: u32);
               limit = (if limit0 > max_entries then max_entries else limit0)
           in get_loop (r_mapped r) key (limit - start_entry) data_start))"

text \<open>\<^verbatim>\<open>sstable_reader_scan\<close>; it checks the end of the file for the fields, not for the value.\<close>

type_synonym 'c sst_cb = "bytes \<Rightarrow> bytes \<Rightarrow> byte \<Rightarrow> 'c \<Rightarrow> 'c \<times> rc"

fun scan_loop :: "bytes \<Rightarrow> 'c sst_cb \<Rightarrow> nat \<Rightarrow> nat \<Rightarrow> 'c \<Rightarrow> ('c \<times> rc) option" where
  "scan_loop m cb 0 p ctx = Some (ctx, KANBUDB_OK)"
| "scan_loop m cb (Suc n) p ctx =
     (case parse_entry m p of
        None \<Rightarrow> Some (ctx, KANBUDB_OK)
      | Some (k, fl, vl, vp) \<Rightarrow>
          (case read_at m vp vl of
             None \<Rightarrow> None
           | Some v \<Rightarrow>
               (case cb k v fl ctx of (ctx', rc) \<Rightarrow>
                 if rc \<noteq> KANBUDB_OK then Some (ctx', rc) else scan_loop m cb n (vp + vl) ctx')))"

definition sstable_reader_scan :: "sstable_reader \<Rightarrow> 'c sst_cb \<Rightarrow> 'c \<Rightarrow> ('c \<times> rc) option" where
  "sstable_reader_scan r cb ctx =
     scan_loop (r_mapped r) cb (unat (h_num_entries (r_header r))) sizeof_header ctx"

definition sstable_reader_num_entries :: "sstable_reader \<Rightarrow> u64" where
  "sstable_reader_num_entries r = h_num_entries (r_header r)"

definition sstable_reader_sequence :: "sstable_reader \<Rightarrow> u64" where
  "sstable_reader_sequence r = h_sequence (r_header r)"

definition sstable_reader_crc_ok :: "sstable_reader \<Rightarrow> u32" where
  "sstable_reader_crc_ok r = r_crc_ok r"

end
