(* ===== verification/Sstable_Correct.thy ===== *)
theory Sstable_Correct
  imports Sstable Bloom_Correct
begin

text \<open>
  Correctness of the on-disk tables: what the writer produces, that the reader opens it, that
  a scan returns the written entries in order, and that a point lookup through bloom
  filter, sparse index and bounded linear scan finds exactly the entries of a sorted table.
\<close>

section \<open>The bytes of a table\<close>

type_synonym sst_item = "bytes \<times> bytes \<times> byte"

definition item_bytes :: "sst_item \<Rightarrow> bytes" where
  "item_bytes e = (case e of (k, v, fl) \<Rightarrow>
     put_u32 (word_of_nat (length k)) @ k @ [fl] @ put_u32 (word_of_nat (length v)) @ v)"

abbreviation data_bytes :: "sst_item list \<Rightarrow> bytes" where
  "data_bytes es \<equiv> concat (map item_bytes es)"

definition item_ok :: "sst_item \<Rightarrow> bool" where
  "item_ok e = (case e of (k, v, fl) \<Rightarrow> length k \<le> 1048576 \<and> length v \<le> 1048576)"

definition idx_bytes :: "bytes \<times> nat \<Rightarrow> bytes" where
  "idx_bytes p = put_u32 (word_of_nat (length (fst p))) @ fst p @ put_u64 (word_of_nat (snd p))"

text \<open>The sparse index of a list of entries: key and offset of every 32nd one.\<close>

definition sparse :: "sst_item list \<Rightarrow> (bytes \<times> nat) list" where
  "sparse es = map (\<lambda>j. (fst (es ! (32 * j)), 56 + length (data_bytes (take (32 * j) es))))
     [0..<(length es + 31) div 32]"

lemma entry_chunks_concat:
  "concat (entry_chunks k (Some v) (length v) fl) = item_bytes (k, v, fl)"
  by (simp add: entry_chunks_def item_bytes_def)

lemma write_chunks_ok: "write_chunks io f bs = (f', True) \<Longrightarrow> f' = f @ concat bs"
  by (induction io f bs rule: write_chunks.induct) (auto split: if_splits)

lemma sparse_append:
  "sparse (es @ [e]) =
     (if length es mod 32 = 0 then sparse es @ [(fst e, 56 + length (data_bytes es))] else sparse es)"
proof -
  let ?n = "length es"
  have old: "(fst ((es @ [e]) ! (32 * j)), 56 + length (data_bytes (take (32 * j) (es @ [e])))) =
      (fst (es ! (32 * j)), 56 + length (data_bytes (take (32 * j) es)))" if "j < (?n + 31) div 32" for j
  proof -
    have "32 * j < ?n" using that by linarith
    then show ?thesis by (simp add: nth_append)
  qed
  show ?thesis
  proof (cases "?n mod 32 = 0")
    case True
    then have "32 dvd ?n" by (simp add: dvd_eq_mod_eq_0)
    then obtain q where q: "?n = 32 * q" by (elim dvdE)
    then have "(?n + 31) div 32 = q" "(Suc ?n + 31) div 32 = Suc q" by linarith+
    moreover have "(es @ [e]) ! (32 * q) = e" using q by (metis nth_append_length)
    ultimately show ?thesis using old q by (simp add: sparse_def)
  next
    case False
    obtain q r where qr: "?n = 32 * q + r" "r < 32"
      by (metis mod_less_divisor mult_div_mod_eq zero_less_numeral)
    then have "r \<noteq> 0" using False by (intro notI) simp
    then have "(Suc ?n + 31) div 32 = q + 1" "(?n + 31) div 32 = q + 1" using qr by linarith+
    then have "(Suc ?n + 31) div 32 = (?n + 31) div 32" by simp
    then show ?thesis using old False by (simp add: sparse_def cong: map_cong)
  qed
qed

section \<open>The writer\<close>

definition written :: "(u32 \<Rightarrow> u32 \<Rightarrow> u32) \<Rightarrow> u64 \<Rightarrow> sst_item list \<Rightarrow> sstable_writer \<Rightarrow> bool" where
  "written fk seq es w \<longleftrightarrow>
     w_file w = replicate 56 0 @ data_bytes es \<and> w_sequence w = seq \<and>
     w_num_entries w = word_of_nat (length es) \<and> w_since_index w = length es mod 32 \<and>
     w_index w = concat (map idx_bytes (sparse es)) \<and>
     (if es = [] then w_bloom w = None
      else \<exists>b0. kanbudb_bloom_create fk 65536 SSTABLE_BLOOM_BITS_PER_KEY = Some b0 \<and>
             w_bloom w = bloom_insert_all b0 (keys_of es) \<and> w_bloom w \<noteq> None)"

lemma bloom_insert_all_append:
  "bloom_insert_all b (ks @ [k]) =
     (case bloom_insert_all b ks of None \<Rightarrow> None | Some b' \<Rightarrow> kanbudb_bloom_insert b' k)"
  by (induction b ks rule: bloom_insert_all.induct) (auto split: option.splits)

lemma writer_create_written:
  "sstable_writer_create True io seq = Some w \<Longrightarrow> written fk seq [] w"
  by (auto simp: sstable_writer_create_def written_def sizeof_header_def sparse_def
      split: prod.splits if_splits dest!: write_chunks_ok)

lemma index_add_written:
  assumes "written fk seq es w"
  shows "w_index (index_add w k) = concat (map idx_bytes (sparse (es @ [(k, v, fl)]))) \<and>
         w_since_index (index_add w k) = Suc (length es) mod 32"
  using assms
  by (auto simp: written_def index_add_def sparse_append idx_bytes_def sst_consts Let_def mod_Suc)

lemma index_add_same:
  "w_file (index_add w k) = w_file w" "w_sequence (index_add w k) = w_sequence w"
  "w_num_entries (index_add w k) = w_num_entries w" "w_bloom (index_add w k) = w_bloom w"
  by (simp_all add: index_add_def Let_def)

lemma writer_add_written:
  assumes w: "written fk seq es w"
    and add: "sstable_writer_add fk io w k (Some v) (length v) fl = Some (w', KANBUDB_OK)"
  shows "written fk seq (es @ [(k, v, fl)]) w' \<and> item_ok (k, v, fl)"
proof -
  let ?w1 = "index_add w k"
  obtain f where len: "length k \<le> 1048576" "length v \<le> 1048576"
    and f: "write_chunks io (w_file w) (entry_chunks k (Some v) (length v) fl) = (f, True)"
    using add by (auto simp: sstable_writer_add_def index_add_same Let_def split: if_splits prod.splits)
  have f': "f = w_file w @ item_bytes (k, v, fl)"
    using write_chunks_ok [OF f] entry_chunks_concat by simp
  define bl where "bl = (case w_bloom w of
      None \<Rightarrow> kanbudb_bloom_create fk 65536 SSTABLE_BLOOM_BITS_PER_KEY | Some b \<Rightarrow> Some b)"
  have "bl \<noteq> None"
    by (auto simp: bl_def kanbudb_bloom_create_def sst_consts Let_def split: option.splits)
  then obtain b where b: "bl = Some b" by auto
  obtain b' where b': "kanbudb_bloom_insert b k = Some b'"
    and w': "w' = ?w1\<lparr>w_file := f, w_bloom := Some b', w_num_entries := w_num_entries w + 1,
      w_data_len := w_data_len ?w1 + word_of_nat (4 + length k + 1 + 4 + length v)\<rparr>"
    using add len f b by (auto simp: sstable_writer_add_def index_add_same Let_def bl_def split: option.splits)
  have "\<exists>b0. kanbudb_bloom_create fk 65536 SSTABLE_BLOOM_BITS_PER_KEY = Some b0 \<and>
      Some b' = bloom_insert_all b0 (keys_of (es @ [(k, v, fl)]))"
  proof (cases "es = []")
    case True
    then show ?thesis using w b b' by (auto simp: written_def bl_def)
  next
    case False
    then show ?thesis using w b b' by (auto simp: written_def bl_def bloom_insert_all_append split: option.splits)
  qed
  then show ?thesis
    using w f' w' index_add_written [OF w, of k v fl] len
    by (simp add: written_def index_add_same item_ok_def)
qed

text \<open>A client's loop: add every entry, stop at the first failure.\<close>

fun writer_add_all ::
  "(u32 \<Rightarrow> u32 \<Rightarrow> u32) \<Rightarrow> (bytes \<Rightarrow> nat) \<Rightarrow> sstable_writer \<Rightarrow> sst_item list \<Rightarrow> (sstable_writer \<times> rc) option" where
  "writer_add_all fk io w [] = Some (w, KANBUDB_OK)"
| "writer_add_all fk io w ((k, v, fl) # es) =
     (case sstable_writer_add fk io w k (Some v) (length v) fl of
        None \<Rightarrow> None
      | Some (w', rc) \<Rightarrow> if rc \<noteq> KANBUDB_OK then Some (w', rc) else writer_add_all fk io w' es)"

lemma writer_add_all_written:
  assumes "written fk seq xs w" and "\<forall>e\<in>set xs. item_ok e"
    and "writer_add_all fk io w es = Some (w', KANBUDB_OK)"
  shows "written fk seq (xs @ es) w' \<and> (\<forall>e\<in>set (xs @ es). item_ok e)"
  using assms
proof (induction es arbitrary: xs w)
  case (Cons e es)
  obtain k v fl where e: "e = (k, v, fl)" by (cases e)
  obtain w1 where w1: "sstable_writer_add fk io w k (Some v) (length v) fl = Some (w1, KANBUDB_OK)"
    "writer_add_all fk io w1 es = Some (w', KANBUDB_OK)"
    using Cons.prems(3) e by (auto split: option.splits if_splits)
  show ?case
    using Cons.IH [of "xs @ [e]" w1] writer_add_written [OF Cons.prems(1) w1(1)] Cons.prems(2) w1(2) e by simp
qed simp

section \<open>Reading at an offset\<close>

lemma read_at_append [simp]:
  "length a = n \<Longrightarrow> length b = k \<Longrightarrow> read_at (a @ b @ c) n k = Some b"
  by (simp add: read_at_def)

lemma unat_len_u32: "n \<le> 1048576 \<Longrightarrow> unat (word_of_nat n :: u32) = n"
  by (simp add: unat_of_nat_u32)

lemma parse_entry_item:
  assumes "item_ok (k, v, fl)" and "length a = p"
  shows "parse_entry (a @ item_bytes (k, v, fl) @ c) p = Some (k, fl, length v, p + 9 + length k)"
proof -
  let ?kl = "put_u32 (word_of_nat (length k))" and ?vl = "put_u32 (word_of_nat (length v))"
  have kl: "unat (word_of_nat (length k) :: u32) = length k" "unat (word_of_nat (length v) :: u32) = length v"
    using assms(1) by (simp_all add: item_ok_def unat_len_u32)
  have m: "a @ item_bytes (k, v, fl) @ c = a @ ?kl @ (k @ [fl] @ ?vl @ v @ c)"
    "a @ item_bytes (k, v, fl) @ c = (a @ ?kl) @ k @ ([fl] @ ?vl @ v @ c)"
    "a @ item_bytes (k, v, fl) @ c = (a @ ?kl @ k) @ [fl] @ (?vl @ v @ c)"
    "a @ item_bytes (k, v, fl) @ c = (a @ ?kl @ k @ [fl]) @ ?vl @ (v @ c)"
    by (simp_all add: item_bytes_def)
  have "read_at (a @ item_bytes (k, v, fl) @ c) p 4 = Some ?kl"
    unfolding m(1) using assms(2) by (intro read_at_append) simp_all
  moreover have "read_at (a @ item_bytes (k, v, fl) @ c) (p + 4) (length k) = Some k"
    unfolding m(2) using assms(2) by (intro read_at_append) simp_all
  moreover have "read_at (a @ item_bytes (k, v, fl) @ c) (p + 4 + length k) 1 = Some [fl]"
    unfolding m(3) using assms(2) by (intro read_at_append) simp_all
  moreover have "read_at (a @ item_bytes (k, v, fl) @ c) (p + 4 + length k + 1) 4 = Some ?vl"
    unfolding m(4) using assms(2) by (intro read_at_append) simp_all
  ultimately show ?thesis using kl by (simp add: parse_entry_def Let_def)
qed

lemma read_value_item:
  "length a = p \<Longrightarrow> read_at (a @ item_bytes (k, v, fl) @ c) (p + 9 + length k) (length v) = Some v"
  using read_at_append [of "a @ put_u32 (word_of_nat (length k)) @ k @ [fl] @ put_u32 (word_of_nat (length v))"
      "p + 9 + length k" v "length v" c]
  by (simp add: item_bytes_def)

lemma length_item_bytes: "length (item_bytes (k, v, fl)) = 9 + length k + length v"
  by (simp add: item_bytes_def)

section \<open>Scanning\<close>

fun run_items :: "'c sst_cb \<Rightarrow> sst_item list \<Rightarrow> 'c \<Rightarrow> 'c \<times> rc" where
  "run_items cb [] ctx = (ctx, KANBUDB_OK)"
| "run_items cb ((k, v, fl) # es) ctx =
     (case cb k v fl ctx of (ctx', rc) \<Rightarrow> if rc \<noteq> KANBUDB_OK then (ctx', rc) else run_items cb es ctx')"

lemma scan_loop_items:
  assumes "\<forall>e\<in>set es. item_ok e" and "length a = p"
  shows "scan_loop (a @ data_bytes es @ c) cb (length es) p ctx = Some (run_items cb es ctx)"
  using assms
proof (induction es arbitrary: a p ctx)
  case (Cons e es)
  obtain k v fl where e: "e = (k, v, fl)" by (cases e)
  have ok: "item_ok (k, v, fl)" using Cons.prems(1) e by simp
  have m: "a @ data_bytes (e # es) @ c = a @ item_bytes (k, v, fl) @ (data_bytes es @ c)" using e by simp
  have IH: "scan_loop ((a @ item_bytes (k, v, fl)) @ data_bytes es @ c) cb (length es) (p + 9 + length k + length v) x
      = Some (run_items cb es x)" for x
    using Cons.prems by (intro Cons.IH) (simp_all add: length_item_bytes)
  show ?case
    unfolding m using parse_entry_item [OF ok Cons.prems(2)] read_value_item [OF Cons.prems(2), of k v fl] IH e
    by (simp split: prod.splits)
qed simp

section \<open>Point lookup\<close>

definition sst_answer :: "sst_item list \<Rightarrow> bytes \<Rightarrow> sst_result" where
  "sst_answer es key =
     (case map_of es key of
        None \<Rightarrow> (KANBUDB_ERR_NOTFOUND, None, None)
      | Some (v, fl) \<Rightarrow>
          if fl AND KANBUDB_SSTABLE_FLAG_TOMBSTONE \<noteq> 0 then (KANBUDB_ERR_NOTFOUND, Some fl, None)
          else (KANBUDB_OK, Some fl, Some v))"

lemma get_loop_items:
  assumes "\<forall>e\<in>set es. item_ok e" and "length a = p" and "ssorted (keys_of es)" and "n \<le> length es"
  shows "get_loop (a @ data_bytes es @ c) key n p = Some (sst_answer (take n es) key)"
  using assms
proof (induction es arbitrary: a p n)
  case Nil
  then show ?case by (simp add: sst_answer_def)
next
  case (Cons e es)
  obtain k v fl where e: "e = (k, v, fl)" by (cases e)
  have ok: "item_ok (k, v, fl)" using Cons.prems(1) e by simp
  have m: "a @ data_bytes (e # es) @ c = a @ item_bytes (k, v, fl) @ (data_bytes es @ c)" using e by simp
  show ?case
  proof (cases n)
    case (Suc n')
    have IH: "get_loop ((a @ item_bytes (k, v, fl)) @ data_bytes es @ c) key n' (p + 9 + length k + length v)
        = Some (sst_answer (take n' es) key)"
      using Cons.prems Suc by (intro Cons.IH) (simp_all add: length_item_bytes)
    have absent: "map_of (take n' es) key = None" if "key < k"
    proof -
      have "\<forall>q\<in>set es. k < fst q" using Cons.prems(3) e by simp
      then have "\<forall>q\<in>set (take n' es). fst q \<noteq> key" using that by (fastforce dest: in_set_takeD)
      then show ?thesis by (auto simp: map_of_eq_None_iff)
    qed
    show ?thesis
      unfolding m using parse_entry_item [OF ok Cons.prems(2)] read_value_item [OF Cons.prems(2), of k v fl] IH e Suc absent
      by (auto simp: cmp_simps sst_answer_def not_less)
  qed (simp add: sst_answer_def)
qed

text \<open>The binary search over the index counts the index keys below the one sought.\<close>

lemma lower_bound_correct:
  assumes "ssorted (map i_key idx)" and "lo \<le> hi" and "hi \<le> length idx"
    and "\<forall>j<lo. i_key (idx ! j) < key" and "\<forall>j. hi \<le> j \<and> j < length idx \<longrightarrow> key \<le> i_key (idx ! j)"
  shows "lower_bound_loop idx key lo hi = length (takeWhile (\<lambda>e. i_key e < key) idx)"
  using assms
proof (induction idx key lo hi rule: lower_bound_loop.induct)
  case (1 idx key lo hi)
  let ?mid = "lo + (hi - lo) div 2"
  have mono: "i_key (idx ! i) < i_key (idx ! j)" if "i < j" "j < length idx" for i j
    using "1.prems"(1) that by (simp add: sorted_wrt_iff_nth_less)
  show ?case
  proof (cases "lo < hi")
    case False
    then have "length (takeWhile (\<lambda>e. i_key e < key) idx) = lo"
      using "1.prems" by (intro length_takeWhileI) (auto simp: not_less)
    then show ?thesis using False by (simp add: lower_bound_loop.simps)
  next
    case True
    then have m: "lo \<le> ?mid" "?mid < hi" by auto
    show ?thesis
    proof (cases "key \<le> i_key (idx ! ?mid)")
      case le: True
      have "key \<le> i_key (idx ! j)" if "?mid \<le> j" "j < length idx" for j
        using le mono [of ?mid j] that by (cases "j = ?mid") (auto intro: order_trans less_imp_le)
      then show ?thesis
        using "1.IH"(1) [OF True refl] "1.prems" True le m
        by (subst lower_bound_loop.simps) (simp add: cmp_simps Let_def)
    next
      case gt: False
      have "i_key (idx ! j) < key" if "j < ?mid + 1" for j
        using gt mono [of j ?mid] that m "1.prems"(3) by (cases "j = ?mid") (auto simp: not_le intro: less_trans)
      then show ?thesis
        using "1.IH"(2) [OF True refl] "1.prems" True gt m
        by (subst lower_bound_loop.simps) (simp add: cmp_simps Let_def)
    qed
  qed
qed

section \<open>The finished file\<close>

lemma length_header_bytes [simp]: "length (header_bytes h) = 56"
  by (simp add: header_bytes_def)

lemma header_of_bytes: "header_of (header_bytes h) = h"
proof -
  have d: "drop 4 (put_u32 a @ r) = r" "drop 8 (put_u32 a @ put_u32 b @ r) = r" for a b and r :: bytes
    by (simp_all add: drop_append)
  show ?thesis
    by (cases h) (simp add: header_of_def header_bytes_def d drop_append)
qed

lemma index_count_idx:
  "\<forall>p\<in>set is. length (fst p) \<le> 1048576 \<Longrightarrow>
     index_count_loop (concat (map idx_bytes is)) c = c + word_of_nat (length is)"
proof (induction "is" arbitrary: c)
  case Nil
  then show ?case by (simp add: index_count_loop.simps)
next
  case (Cons p "is")
  let ?r = "concat (map idx_bytes is)"
  have m: "concat (map idx_bytes (p # is)) =
      put_u32 (word_of_nat (length (fst p))) @ fst p @ put_u64 (word_of_nat (snd p)) @ ?r"
    by (simp add: idx_bytes_def)
  have "unat (get_u32 (concat (map idx_bytes (p # is)))) = length (fst p)"
    unfolding m using Cons.prems by (simp add: unat_len_u32)
  moreover have "drop (4 + length (fst p) + 8) (concat (map idx_bytes (p # is))) = ?r"
    unfolding m by (simp add: drop_append)
  moreover have "\<not> length (concat (map idx_bytes (p # is))) < 4" unfolding m by simp
  ultimately show ?case
    using Cons by (subst index_count_loop.simps) (simp add: add.assoc)
qed

definition idx_entry :: "bytes \<times> nat \<Rightarrow> sstable_idx_entry" where
  "idx_entry p = \<lparr>i_key = fst p, i_offset = word_of_nat (snd p)\<rparr>"

lemma parse_index_idx:
  assumes "\<forall>p\<in>set is. length (fst p) \<le> 1048576" and "length a = p0"
  shows "parse_index (a @ concat (map idx_bytes is) @ c) (length is) p0 = Some (map idx_entry is)"
  using assms
proof (induction "is" arbitrary: a p0)
  case (Cons p "is")
  let ?kl = "put_u32 (word_of_nat (length (fst p)))" and ?off = "put_u64 (word_of_nat (snd p))"
  let ?m = "a @ concat (map idx_bytes (p # is)) @ c" and ?r = "concat (map idx_bytes is) @ c"
  have u: "unat (word_of_nat (length (fst p)) :: u32) = length (fst p)" using Cons.prems by (simp add: unat_len_u32)
  have m: "?m = a @ ?kl @ (fst p @ ?off @ ?r)" "?m = (a @ ?kl) @ fst p @ (?off @ ?r)"
    "?m = (a @ ?kl @ fst p) @ ?off @ ?r" "?m = (a @ idx_bytes p) @ ?r"
    by (simp_all add: idx_bytes_def)
  have "read_at ?m p0 4 = Some ?kl" unfolding m(1) using Cons.prems(2) by (intro read_at_append) simp_all
  moreover have "read_at ?m (p0 + 4) (length (fst p)) = Some (fst p)"
    unfolding m(2) using Cons.prems(2) by (intro read_at_append) simp_all
  moreover have "read_at ?m (p0 + 4 + length (fst p)) 8 = Some ?off"
    unfolding m(3) using Cons.prems(2) by (intro read_at_append) simp_all
  moreover have "parse_index ?m (length is) (p0 + 4 + length (fst p) + 8) = Some (map idx_entry is)"
    unfolding m(4) using Cons by (intro Cons.IH) (simp_all add: idx_bytes_def)
  ultimately show ?case using u by (simp add: idx_entry_def)
qed simp

lemma sparse_keys: "\<forall>e\<in>set es. item_ok e \<Longrightarrow> \<forall>p\<in>set (sparse es). length (fst p) \<le> 1048576"
proof -
  assume ok: "\<forall>e\<in>set es. item_ok e"
  have "length (fst (es ! (32 * j))) \<le> 1048576" if "j < (length es + 31) div 32" for j
  proof -
    have "32 * j < length es" using that by linarith
    then have "es ! (32 * j) \<in> set es" by simp
    then have "item_ok (es ! (32 * j))" using ok by blast
    then show ?thesis by (cases "es ! (32 * j)") (simp add: item_ok_def)
  qed
  then show ?thesis by (auto simp: sparse_def)
qed

definition bloom_part :: "kanbudb_bloom option \<Rightarrow> bytes" where
  "bloom_part b = (case b of None \<Rightarrow> [] | Some b \<Rightarrow> kanbudb_bloom_serialize b)"

definition sst_header :: "u64 \<Rightarrow> u64 \<Rightarrow> sst_item list \<Rightarrow> kanbudb_bloom option \<Rightarrow> sstable_header" where
  "sst_header now seq es b =
     (let io = 56 + length (data_bytes es)
      in \<lparr>h_magic = KANBUDB_SSTABLE_MAGIC, h_version = KANBUDB_SSTABLE_VERSION,
          h_num_entries = word_of_nat (length es), h_data_len = word_of_nat io - word_of_nat sizeof_header,
          h_index_offset = word_of_nat io,
          h_bloom_offset = word_of_nat (if b = None then 0
             else io + 4 + length (concat (map idx_bytes (sparse es)))),
          h_sequence = seq, h_created_at = now\<rparr>)"

definition sst_image :: "u64 \<Rightarrow> u64 \<Rightarrow> sst_item list \<Rightarrow> kanbudb_bloom option \<Rightarrow> bytes" where
  "sst_image now seq es b =
     header_bytes (sst_header now seq es b) @ data_bytes es @
     put_u32 (word_of_nat (length (sparse es))) @ concat (map idx_bytes (sparse es)) @
     bloom_part b @ put_u32 0"

lemma length_data_items: "length es \<le> length (data_bytes es)"
  by (induction es) (auto simp: item_bytes_def)

lemma finish_image:
  assumes w: "written fk seq es w" and ok: "\<forall>e\<in>set es. item_ok e"
    and fin: "sstable_writer_finish now fs rn io w = (m, KANBUDB_OK)" and sz: "length es < 2 ^ 63"
  shows "m = sst_image now seq es (w_bloom w)"
proof -
  let ?cnt = "put_u32 (word_of_nat (length (sparse es)))" and ?ix = "concat (map idx_bytes (sparse es))"
  have cnt: "index_count_loop (w_index w) 0 = word_of_nat (length (sparse es))"
    using w index_count_idx [OF sparse_keys [OF ok], of 0] by (simp add: written_def)
  have ix: "concat (if w_index w \<noteq> [] then [w_index w] else []) = ?ix" using w by (simp add: written_def)
  have bc: "bloom_chunk w = map_option kanbudb_bloom_serialize (w_bloom w)"
  proof (cases "es = []")
    case True
    then show ?thesis using w by (simp add: written_def bloom_chunk_def)
  next
    case False
    then have "(0 :: u64) < word_of_nat (length es)" using sz by (simp add: word_less_nat_alt unat_of_nat_u64)
    then show ?thesis using w by (auto simp: written_def bloom_chunk_def split: option.splits)
  qed
  obtain f1 f2 f3 where f1: "write_chunks io (w_file w)
        ([put_u32 (index_count_loop (w_index w) 0)] @ (if w_index w \<noteq> [] then [w_index w] else [])) = (f1, True)"
    and f2: "write_chunks io f1 (case bloom_chunk w of None \<Rightarrow> [] | Some b \<Rightarrow> [b]) = (f2, True)"
    and f3: "write_chunks io f2 [put_u32 (finish_checksum f2)] = (f3, True)"
    using fin unfolding sstable_writer_finish_def Let_def by (auto split: prod.splits if_splits)
  have e1: "f1 = w_file w @ ?cnt @ ?ix" using write_chunks_ok [OF f1] cnt ix by simp
  have e2: "f2 = f1 @ bloom_part (w_bloom w)"
    using write_chunks_ok [OF f2] bc by (auto simp: bloom_part_def split: option.splits)
  have e3: "f3 = f2 @ put_u32 0"
    using write_chunks_ok [OF f3] by (simp add: finish_checksum_def tmp_readable_def)
  have wf: "w_file w = replicate 56 0 @ data_bytes es" "w_num_entries w = word_of_nat (length es)" "w_sequence w = seq"
    using w by (simp_all add: written_def)
  let ?bo = "if bloom_chunk w = None then 0 else length f1"
  let ?hdr = "\<lparr>h_magic = KANBUDB_SSTABLE_MAGIC, h_version = KANBUDB_SSTABLE_VERSION,
      h_num_entries = w_num_entries w,
      h_data_len = word_of_nat (length (w_file w)) - word_of_nat sizeof_header,
      h_index_offset = word_of_nat (length (w_file w)), h_bloom_offset = word_of_nat ?bo,
      h_sequence = w_sequence w, h_created_at = now\<rparr>"
  have m: "m = header_bytes ?hdr @ drop 56 f3"
    using fin f1 f2 f3 unfolding sstable_writer_finish_def Let_def sizeof_header_def
    by (auto split: if_splits)
  have lens: "length (w_file w) = 56 + length (data_bytes es)"
    "length f1 = 56 + length (data_bytes es) + 4 + length ?ix"
    unfolding e1 wf(1) by simp_all
  have "bloom_chunk w = None \<longleftrightarrow> w_bloom w = None" using bc by simp
  then have "?hdr = sst_header now seq es (w_bloom w)"
    unfolding sst_header_def Let_def lens wf(2,3) by simp
  then show ?thesis using m e1 e2 e3 wf(1) by (simp add: sst_image_def)
qed

section \<open>Opening a finished file\<close>

definition bloom_for :: "bytes list \<Rightarrow> kanbudb_bloom option \<Rightarrow> bool" where
  "bloom_for ks bo \<longleftrightarrow>
     (case bo of
        None \<Rightarrow> ks = []
      | Some b \<Rightarrow> ks \<noteq> [] \<and> unat (num_bits b) + 7 < 2 ^ 32 \<and> length (bits b) = (unat (num_bits b) + 7) div 8 \<and>
          (\<forall>k\<in>set ks. kanbudb_bloom_maybe b k = Some True) \<and> (\<forall>k. kanbudb_bloom_maybe b k \<noteq> None))"

lemma written_bloom:
  assumes "written fk seq es w"
  shows "bloom_for (keys_of es) (w_bloom w)"
proof (cases "es = []")
  case True
  then show ?thesis using assms by (simp add: written_def bloom_for_def)
next
  case False
  then obtain b0 b where b0: "kanbudb_bloom_create fk 65536 SSTABLE_BLOOM_BITS_PER_KEY = Some b0"
    and b: "bloom_insert_all b0 (keys_of es) = Some b" "w_bloom w = Some b"
    using assms by (fastforce simp: written_def)
  have c: "bloom_inv b0 \<and> set_bits b0 = {} \<and> 0 < num_hashes b0 \<and> unat (num_bits b0) + 7 < 2 ^ 32 \<and>
      length (bits b0) = (unat (num_bits b0) + 7) div 8"
    by (rule create_ok [OF b0]) (simp add: sst_consts)
  obtain b' where "bloom_insert_all b0 (keys_of es) = Some b'" and inv: "bloom_inv b'"
    and kb: "key_bits b' = key_bits b0" and sb: "set_bits b' = set_bits b0 \<union> \<Union> (key_bits b0 ` set (keys_of es))"
    using insert_all_ok c by blast
  then have "b' = b" using b by simp
  then have "kanbudb_bloom_maybe b k = Some (key_bits b0 k \<subseteq> set_bits b)" for k
    using bloom_maybe_iff [OF inv] kb by simp
  then show ?thesis
    using False b c sb \<open>b' = b\<close> insert_all_dims [OF b(1)] by (auto simp: bloom_for_def)
qed

lemma read_u32_at:
  "length a = n \<Longrightarrow> read_at (a @ put_u32 x @ c) n 4 = Some (put_u32 x)"
  by (rule read_at_append) simp_all

lemma unat_of_nat_63: "n < 2 ^ 63 \<Longrightarrow> unat (word_of_nat n :: u64) = n"
  by (rule unat_of_nat_u64) simp

lemma sparse_length: "length (sparse es) = (length es + 31) div 32"
  by (simp add: sparse_def)

lemma load_bloom_image:
  assumes b: "bloom_for (keys_of es) bo" and sz: "length (sst_image now seq es bo) < 2 ^ 63"
  shows "load_bloom (sst_image now seq es bo) (sst_header now seq es bo) = Some bo"
proof (cases bo)
  case None
  then show ?thesis by (simp add: load_bloom_def sst_header_def Let_def)
next
  case (Some bf)
  let ?h = "sst_header now seq es bo"
  let ?pre = "header_bytes ?h @ data_bytes es @ put_u32 (word_of_nat (length (sparse es))) @
      concat (map idx_bytes (sparse es))"
  let ?ser = "kanbudb_bloom_serialize bf"
  have m: "sst_image now seq es bo = ?pre @ ?ser @ put_u32 0" using Some by (simp add: sst_image_def bloom_part_def)
  have d: "unat (num_bits bf) + 7 < 2 ^ 32" "length (bits bf) = (unat (num_bits bf) + 7) div 8"
    using b Some by (simp_all add: bloom_for_def)
  have ser: "kanbudb_bloom_load ?ser = Some bf" "length ?ser = unat (kanbudb_bloom_serialized_size bf)"
    using load_serialize [OF d, of "[]"] by simp_all
  have len: "length ?pre = 56 + length (data_bytes es) + 4 + length (concat (map idx_bytes (sparse es)))"
    by simp
  have "h_bloom_offset ?h = word_of_nat (length ?pre)"
    unfolding len using Some by (simp add: sst_header_def Let_def add.assoc)
  moreover have lt: "length ?pre + length ?ser < 2 ^ 63" using sz unfolding m by simp
  ultimately have off: "unat (h_bloom_offset ?h) = length ?pre"
    using unat_of_nat_63 [of "length ?pre"] by simp
  then have pos: "h_bloom_offset ?h > 0" unfolding len by (simp add: word_less_nat_alt)
  have sz12: "12 \<le> length ?ser" by (simp add: kanbudb_bloom_serialize_def)
  have r12: "read_at (?pre @ ?ser @ put_u32 0) (length ?pre) 12 = Some (take 12 ?ser)"
    using sz12 by (simp add: read_at_def)
  have nb: "get_u32 (take 12 ?ser) = num_bits bf" by (simp add: kanbudb_bloom_serialize_def)
  let ?bsz = "kanbudb_bloom_serialized_size bf"
  have "unat (ucast ?bsz :: u64) = unat ?bsz"
    using unat_bounds(2) [of ?bsz] by (simp add: unsigned_ucast_eq take_bit_nat_eq_self)
  moreover have "unat (h_bloom_offset ?h + ucast ?bsz) = unat (h_bloom_offset ?h) + unat (ucast ?bsz :: u64)"
    using lt off ser(2) calculation by (intro unat_add_lem [THEN iffD1]) simp
  ultimately have fits: "unat (h_bloom_offset ?h + ucast ?bsz) \<le> length (?pre @ ?ser @ put_u32 0)"
    using off ser(2) by simp
  have bsz: "12 + (num_bits bf + 7) div 8 = ?bsz" by (simp add: kanbudb_bloom_serialized_size_def)
  have ver: "h_version ?h \<ge> 2" by (simp add: sst_header_def Let_def sst_consts)
  have tk: "take (unat ?bsz) (drop (length ?pre) (?pre @ ?ser @ put_u32 0)) = ?ser" using ser(2) by simp
  show ?thesis
    unfolding m load_bloom_def Let_def off r12
    using ver pos fits nb bsz tk ser(1) Some by (simp del: append_assoc)
qed

definition sst_reader :: "u64 \<Rightarrow> u64 \<Rightarrow> sst_item list \<Rightarrow> kanbudb_bloom option \<Rightarrow> sstable_reader" where
  "sst_reader now seq es bo =
     (let m = sst_image now seq es bo
      in \<lparr>r_mapped = m, r_header = sst_header now seq es bo, r_index = map idx_entry (sparse es),
          r_crc_ok = (if crc32_bytes (take (length m - 4) m) 0 = 0 then 1 else - 1), r_bloom = bo\<rparr>)"

lemma open_image:
  assumes ok: "\<forall>e\<in>set es. item_ok e" and n: "length es < 2 ^ 31" and b: "bloom_for (keys_of es) bo"
    and sz: "length (sst_image now seq es bo) < 2 ^ 63"
  shows "sstable_reader_open (sst_image now seq es bo) = Some (Some (sst_reader now seq es bo))"
proof -
  let ?m = "sst_image now seq es bo" and ?h = "sst_header now seq es bo"
  let ?cnt = "put_u32 (word_of_nat (length (sparse es)))" and ?ix = "concat (map idx_bytes (sparse es))"
  let ?a = "header_bytes ?h @ data_bytes es"
  have m0: "?m = [] @ header_bytes ?h @ (data_bytes es @ ?cnt @ ?ix @ bloom_part bo @ put_u32 0)"
    and m1: "?m = ?a @ ?cnt @ (?ix @ bloom_part bo @ put_u32 0)"
    and m2: "?m = (?a @ ?cnt) @ ?ix @ (bloom_part bo @ put_u32 0)"
    and m3: "?m = (?a @ ?cnt @ ?ix @ bloom_part bo) @ put_u32 0"
    by (simp_all add: sst_image_def)
  have rh: "read_at ?m 0 sizeof_header = Some (header_bytes ?h)"
    unfolding m0 sizeof_header_def by (rule read_at_append) simp_all
  have la: "length ?a = 56 + length (data_bytes es)" by simp
  have "length ?a < 2 ^ 63" using sz unfolding m1 by simp
  then have io: "unat (h_index_offset ?h) = length ?a"
    unfolding la using unat_of_nat_63 [of "56 + length (data_bytes es)"] by (simp add: sst_header_def Let_def)
  have rc: "read_at ?m (length ?a) 4 = Some ?cnt" unfolding m1 by (rule read_at_append) simp_all
  have cnt: "unat (get_u32 ?cnt) = length (sparse es)"
    using n by (simp add: unat_of_nat_u32 sparse_length)
  have pi: "parse_index ?m (length (sparse es)) (length ?a + 4) = Some (map idx_entry (sparse es))"
    unfolding m2 by (rule parse_index_idx [OF sparse_keys [OF ok]]) simp
  have "4 < length ?m" unfolding m0 by simp
  moreover from this have "?m \<noteq> []" by (rule contrapos_pn) simp
  moreover have "get_u32 (drop (length ?m - 4) ?m) = 0" unfolding m3 by simp
  moreover have "h_magic ?h = KANBUDB_SSTABLE_MAGIC" "h_version ?h = KANBUDB_SSTABLE_VERSION"
    by (simp_all add: sst_header_def Let_def)
  ultimately show ?thesis
    using load_bloom_image [OF b sz]
    by (simp add: sstable_reader_open_def rh header_of_bytes io rc [unfolded la] cnt pi [simplified la, simplified]
        sst_reader_def Let_def del: get_u32_exact)
qed

lemma scan_image:
  assumes "\<forall>e\<in>set es. item_ok e" and "length es < 2 ^ 31"
  shows "sstable_reader_scan (sst_reader now seq es bo) cb ctx = Some (run_items cb es ctx)"
proof -
  have "unat (h_num_entries (sst_header now seq es bo)) = length es"
    using assms(2) by (simp add: sst_header_def Let_def unat_of_nat_u64)
  moreover have "scan_loop (sst_image now seq es bo) cb (length es) 56 ctx = Some (run_items cb es ctx)"
    unfolding sst_image_def by (rule scan_loop_items [OF assms(1)]) simp
  ultimately show ?thesis
    by (simp add: sstable_reader_scan_def sst_reader_def Let_def sizeof_header_def)
qed

text \<open>The window of 64 entries the lookup inspects is enough.\<close>

lemma slice_map_of:
  fixes es :: "sst_item list"
  assumes "\<forall>i<b. i < length es \<longrightarrow> fst (es ! i) < key" and "\<forall>i. b + n \<le> i \<and> i < length es \<longrightarrow> key < fst (es ! i)"
  shows "map_of (take n (drop b es)) key = map_of es key"
proof -
  have "fst p \<noteq> key" if "p \<in> set (take b es)" for p
  proof -
    obtain i where "i < b" "i < length es" "p = es ! i" using \<open>p \<in> _\<close> by (auto simp: in_set_conv_nth)
    then show ?thesis using assms(1) [THEN spec, of i] by auto
  qed
  then have "key \<notin> fst ` set (take b es)" by blast
  moreover have "fst p \<noteq> key" if "p \<in> set (drop (b + n) es)" for p
  proof -
    obtain i where "i < length es - (b + n)" "p = es ! (b + n + i)"
      using \<open>p \<in> _\<close> by (auto simp: in_set_conv_nth)
    then show ?thesis using assms(2) [THEN spec, of "b + n + i"] by auto
  qed
  then have "key \<notin> fst ` set (drop (b + n) es)" by blast
  ultimately have "map_of (take b es @ take n (drop b es) @ drop (b + n) es) key = map_of (take n (drop b es)) key"
    by (rule map_of_middle)
  moreover have "take n (drop b es) @ drop (b + n) es = drop b es"
    using append_take_drop_id [of n "drop b es"] by (simp add: add.commute)
  then have "take b es @ take n (drop b es) @ drop (b + n) es = es" by simp
  ultimately show ?thesis by simp
qed

lemma sparse_nth:
  "j < (length es + 31) div 32 \<Longrightarrow>
     sparse es ! j = (fst (es ! (32 * j)), 56 + length (data_bytes (take (32 * j) es))) \<and> 32 * j < length es"
  by (auto simp: sparse_def)

lemma window:
  assumes srt: "ssorted (keys_of es)"
    and pos: "pos = index_lower_bound (map idx_entry (sparse es)) key"
  shows "map_of (take 64 (drop (32 * (pos - 1)) es)) key = map_of es key" and "pos \<le> length (sparse es)"
proof -
  let ?idx = "map idx_entry (sparse es)" and ?n = "(length es + 31) div 32"
  have nth: "i_key (?idx ! j) = fst (es ! (32 * j)) \<and> 32 * j < length es" if "j < ?n" for j
    using sparse_nth [OF that] that by (simp add: idx_entry_def sparse_length)
  have less: "fst (es ! i) < fst (es ! j)" if "i < j" "j < length es" for i j
    using ssorted_keys_nth_less [OF srt that] .
  have "ssorted (map i_key ?idx)"
    unfolding sorted_wrt_iff_nth_less using nth less by (simp add: sparse_length)
  then have p: "pos = length (takeWhile (\<lambda>e. i_key e < key) ?idx)"
    unfolding pos index_lower_bound_def by (intro lower_bound_correct) auto
  show le: "pos \<le> length (sparse es)" using length_takeWhile_le [of "\<lambda>e. i_key e < key" ?idx] p by simp
  have below: "fst (es ! (32 * j)) < key" if "j < pos" for j
  proof -
    have "i_key (?idx ! j) < key"
      using that unfolding p by (metis nth_mem set_takeWhileD takeWhile_nth)
    then show ?thesis using nth [of j] that le by (simp add: sparse_length)
  qed
  have above: "key \<le> fst (es ! (32 * pos))" if "pos < ?n"
    using nth_length_takeWhile [of "\<lambda>e. i_key e < key" ?idx] p that nth [OF that]
    by (simp add: sparse_length not_less)
  show "map_of (take 64 (drop (32 * (pos - 1)) es)) key = map_of es key"
  proof (rule slice_map_of)
    show "\<forall>i<32 * (pos - 1). i < length es \<longrightarrow> fst (es ! i) < key"
    proof (intro allI impI)
      fix i assume i: "i < 32 * (pos - 1)" "i < length es"
      then have "pos - 1 < pos" "pos - 1 < ?n" using le by (auto simp: sparse_length)
      then show "fst (es ! i) < key"
        using less [OF i(1)] nth [of "pos - 1"] below [of "pos - 1"] by (meson less_trans)
    qed
    show "\<forall>i. 32 * (pos - 1) + 64 \<le> i \<and> i < length es \<longrightarrow> key < fst (es ! i)"
    proof (intro allI impI)
      fix i assume i: "32 * (pos - 1) + 64 \<le> i \<and> i < length es"
      then have "32 * pos < i" by linarith
      moreover from this i have "pos < ?n" by linarith
      ultimately show "key < fst (es ! i)" using above less [of "32 * pos" i] i by (meson le_less_trans)
    qed
  qed
qed

lemma reader_get_window:
  assumes "r_bloom r = Some bf" and "kanbudb_bloom_maybe bf key = Some True" and "r_index r \<noteq> []"
    and "pos = index_lower_bound (r_index r) key"
    and "unat (word_of_nat ((pos - 1) * 32) :: u32) = s" and "unat (word_of_nat (s + 64) :: u32) = s + 64"
    and "unat (ucast (h_num_entries (r_header r)) :: u32) = n"
  shows "sstable_reader_get r key =
      get_loop (r_mapped r) key ((if s + 64 > n then n else s + 64) - s) (unat (i_offset (r_index r ! (pos - 1))))"
proof (cases "pos = 0")
  case True
  then have "s = 0" using assms(5) by simp
  then show ?thesis using assms True by (simp add: sstable_reader_get_def Let_def sst_consts)
next
  case False
  then show ?thesis using assms by (simp add: sstable_reader_get_def Let_def sst_consts del: of_nat_mult of_nat_add)
qed

lemma get_image:
  assumes ok: "\<forall>e\<in>set es. item_ok e" and n: "length es < 2 ^ 31" and b: "bloom_for (keys_of es) bo"
    and sz: "length (sst_image now seq es bo) < 2 ^ 63" and srt: "ssorted (keys_of es)"
  shows "sstable_reader_get (sst_reader now seq es bo) key = Some (sst_answer es key)"
proof -
  let ?m = "sst_image now seq es bo" and ?idx = "map idx_entry (sparse es)"
  let ?t = "put_u32 (word_of_nat (length (sparse es))) @ concat (map idx_bytes (sparse es)) @ bloom_part bo @ put_u32 0"
  define pos where "pos = index_lower_bound ?idx key"
  define bi where "bi = pos - 1"
  have win: "sst_answer (take 64 (drop (32 * bi) es)) key = sst_answer es key" "pos \<le> length (sparse es)"
    using window [OF srt pos_def] by (simp_all add: sst_answer_def bi_def)
  have scan: "get_loop ?m key k (56 + length (data_bytes (take (32 * bi) es))) = Some (sst_answer (take k (drop (32 * bi) es)) key)"
    if "k \<le> length (drop (32 * bi) es)" for k
  proof -
    have "data_bytes es = data_bytes (take (32 * bi) es) @ data_bytes (drop (32 * bi) es)"
      by (metis append_take_drop_id concat_append map_append)
    then have m: "?m = (header_bytes (sst_header now seq es bo) @ data_bytes (take (32 * bi) es)) @
        data_bytes (drop (32 * bi) es) @ ?t"
      by (simp add: sst_image_def)
    have "ssorted (keys_of (drop (32 * bi) es))" using srt by (simp add: drop_map [symmetric] sorted_wrt_drop)
    then show ?thesis
      unfolding m using ok that by (intro get_loop_items) (auto dest: in_set_dropD)
  qed
  have ne: "h_num_entries (sst_header now seq es bo) = word_of_nat (length es)"
    by (simp add: sst_header_def Let_def)
  have mx: "unat (ucast (word_of_nat (length es) :: u64) :: u32) = length es"
    using n by (simp add: unsigned_ucast_eq unat_of_nat_u64 take_bit_nat_eq_self)
  show ?thesis
  proof (cases "es = []")
    case True
    then have "bo = None" using b by (cases bo) (auto simp: bloom_for_def)
    then show ?thesis using True mx
      by (simp add: sstable_reader_get_def sst_reader_def Let_def sst_header_def sparse_def sst_answer_def sst_consts)
  next
    case False
    then obtain bf where bf: "bo = Some bf" using b by (cases bo) (auto simp: bloom_for_def)
    obtain r where r: "kanbudb_bloom_maybe bf key = Some r" using b bf by (auto simp: bloom_for_def)
    have bi: "bi < (length es + 31) div 32"
      using win(2) False unfolding bi_def sparse_length by (cases es) auto
    have idx: "unat (i_offset (?idx ! bi)) = 56 + length (data_bytes (take (32 * bi) es))"
    proof -
      have "length (data_bytes es) = length (data_bytes (take (32 * bi) es)) + length (data_bytes (drop (32 * bi) es))"
        by (metis append_take_drop_id concat_append length_append map_append)
      then have "56 + length (data_bytes (take (32 * bi) es)) < 2 ^ 63" using sz by (simp add: sst_image_def)
      then show ?thesis
        using sparse_nth [OF bi] bi unat_of_nat_63 by (simp add: idx_entry_def sparse_length del: of_nat_add)
    qed
    have lt: "32 * bi < 2 ^ 31" using sparse_nth [OF bi] n by linarith
    show ?thesis
    proof (cases r)
      case False
      then have "key \<notin> set (keys_of es)" using b bf r by (auto simp: bloom_for_def)
      then have "map_of es key = None" by (simp add: map_of_eq_None_iff)
      then show ?thesis
        using bf r False by (simp add: sstable_reader_get_def sst_reader_def Let_def sst_answer_def)
    next
      case True
      let ?lim = "if 32 * bi + 64 > length es then length es else 32 * bi + 64"
      have start: "unat (word_of_nat ((pos - 1) * 32) :: u32) = 32 * bi"
        "unat (word_of_nat (32 * bi + 64) :: u32) = 32 * bi + 64"
        using lt unat_of_nat_u32 [of "32 * bi"] unat_of_nat_u32 [of "32 * bi + 64"]
        by (simp_all add: bi_def mult.commute del: of_nat_add of_nat_mult)
      have "sstable_reader_get (sst_reader now seq es bo) key =
          get_loop ?m key (?lim - 32 * bi) (56 + length (data_bytes (take (32 * bi) es)))"
        using reader_get_window [of "sst_reader now seq es bo" bf key pos "32 * bi" "length es"]
          bf r True pos_def start mx ne bi idx
        by (simp add: sst_reader_def Let_def sparse_length bi_def flip: length_0_conv)
      also have "\<dots> = Some (sst_answer (take (?lim - 32 * bi) (drop (32 * bi) es)) key)"
        by (rule scan) (simp; linarith)
      also have "take (?lim - 32 * bi) (drop (32 * bi) es) = take 64 (drop (32 * bi) es)"
        by (cases "length es < 32 * bi + 64") auto
      finally show ?thesis using win(1) by simp
    qed
  qed
qed

section \<open>The writer makes progress\<close>

lemma write_chunks_all: "\<forall>b. length b \<le> io b \<Longrightarrow> write_chunks io f bs = (f @ concat bs, True)"
  by (induction bs arbitrary: f) auto

lemma writer_add_succeeds:
  assumes "written fk seq es w" and "item_ok (k, v, fl)" and io: "\<forall>b. length b \<le> io b"
  shows "\<exists>w'. sstable_writer_add fk io w k (Some v) (length v) fl = Some (w', KANBUDB_OK)"
proof -
  obtain b where b: "(case w_bloom w of None \<Rightarrow> kanbudb_bloom_create fk 65536 SSTABLE_BLOOM_BITS_PER_KEY
      | Some b \<Rightarrow> Some b) = Some b" and inv: "bloom_inv b"
  proof (cases "es = []")
    case True
    obtain b0 where b0: "kanbudb_bloom_create fk 65536 SSTABLE_BLOOM_BITS_PER_KEY = Some b0"
      by (auto simp: kanbudb_bloom_create_def sst_consts Let_def)
    then have "bloom_inv b0" using create_ok [OF b0] by (simp add: sst_consts)
    then show thesis using that b0 assms(1) True by (simp add: written_def)
  next
    case False
    then obtain b0 b where b0: "kanbudb_bloom_create fk 65536 SSTABLE_BLOOM_BITS_PER_KEY = Some b0"
      and b: "bloom_insert_all b0 (keys_of es) = Some b" "w_bloom w = Some b"
      using assms(1) by (fastforce simp: written_def)
    have "bloom_inv b0" using create_ok [OF b0] by (simp add: sst_consts)
    then have "bloom_inv b" using insert_all_ok [of b0 "keys_of es"] b by auto
    then show thesis using that b by simp
  qed
  obtain b' where "kanbudb_bloom_insert b k = Some b'" using bloom_insert_ok [OF inv] by blast
  then show ?thesis
    using assms(2) b
    by (simp add: sstable_writer_add_def write_chunks_all [OF io] index_add_same Let_def item_ok_def)
qed

lemma writer_add_all_succeeds:
  assumes "written fk seq xs w" and "\<forall>e\<in>set es. item_ok e" and io: "\<forall>b. length b \<le> io b"
  shows "\<exists>w'. writer_add_all fk io w es = Some (w', KANBUDB_OK)"
  using assms(1,2)
proof (induction es arbitrary: xs w)
  case (Cons e es)
  obtain k v fl where e: "e = (k, v, fl)" by (cases e)
  have ok: "item_ok (k, v, fl)" using Cons.prems(2) e by simp
  obtain w1 where w1: "sstable_writer_add fk io w k (Some v) (length v) fl = Some (w1, KANBUDB_OK)"
    using writer_add_succeeds [OF Cons.prems(1) ok io] by blast
  show ?case
    using Cons.IH [of "xs @ [e]" w1] writer_add_written [OF Cons.prems(1) w1] Cons.prems(2) w1 e by simp
qed simp

lemma finish_succeeds:
  assumes io: "\<forall>b. length b \<le> io b"
  shows "\<exists>m. sstable_writer_finish now True True io w = (m, KANBUDB_OK)"
proof -
  have "\<not> io (header_bytes h) < sizeof_header" for h
    using io [THEN spec, of "header_bytes h"] by (simp add: sizeof_header_def)
  moreover have "4 \<le> io (put_u32 x)" for x using io [THEN spec, of "put_u32 x"] by simp
  ultimately show ?thesis by (simp add: sstable_writer_finish_def write_chunks_all [OF io] Let_def)
qed

lemma bloom_part_length: "bloom_for ks bo \<Longrightarrow> length (bloom_part bo) < 2 ^ 32"
  by (auto simp: bloom_for_def bloom_part_def load_serialize [of _ "[]", THEN conjunct2]
      intro: order.strict_trans2 [OF unat_bounds(2)] split: option.splits)

text \<open>A table of fewer than \<open>2 ^ 31\<close> entries is far below the largest file size.\<close>

lemma length_data_bound: "\<forall>e\<in>set es. item_ok e \<Longrightarrow> length (data_bytes es) \<le> length es * 2097161"
proof (induction es)
  case (Cons e es)
  have "length (item_bytes e) \<le> 2097161"
    using Cons.prems by (cases e) (auto simp: item_ok_def length_item_bytes)
  then show ?case using Cons by simp
qed simp

lemma length_idx_bound:
  "\<forall>p\<in>set is. length (fst p) \<le> 1048576 \<Longrightarrow> length (concat (map idx_bytes is)) \<le> length is * 1048588"
  by (induction "is") (auto simp: idx_bytes_def)

lemma image_size:
  assumes "\<forall>e\<in>set es. item_ok e" and "bloom_for (keys_of es) bo" and "length es < 2 ^ 31"
  shows "length (sst_image now seq es bo) < 2 ^ 63"
proof -
  have "length (sparse es) \<le> length es" by (simp add: sparse_length)
  then show ?thesis
    using length_data_bound [OF assms(1)] length_idx_bound [OF sparse_keys [OF assms(1)]]
      bloom_part_length [OF assms(2)] assms(3)
    by (simp add: sst_image_def)
qed

text \<open>The whole life of a table: created, filled, finished.\<close>

lemma written_table:
  assumes "sstable_writer_create True io seq = Some w0"
    and "writer_add_all fk io' w0 es = Some (w, KANBUDB_OK)"
    and "sstable_writer_finish now fs rn io'' w = (m, KANBUDB_OK)" and "length es < 2 ^ 31"
  shows "m = sst_image now seq es (w_bloom w)" and "\<forall>e\<in>set es. item_ok e"
    and "bloom_for (keys_of es) (w_bloom w)"
proof -
  have w: "written fk seq es w" "\<forall>e\<in>set es. item_ok e"
    using writer_add_all_written [OF writer_create_written [OF assms(1)] _ assms(2)] by auto
  show "m = sst_image now seq es (w_bloom w)" using finish_image [OF w assms(3)] assms(4) by simp
  show "\<forall>e\<in>set es. item_ok e" by (rule w(2))
  show "bloom_for (keys_of es) (w_bloom w)" by (rule written_bloom [OF w(1)])
qed

section \<open>The table-driven checksum\<close>

text \<open>The bit-at-a-time definition of CRC-32 (reflected polynomial 0xEDB88320).\<close>

definition crc32_bitwise :: "bytes \<Rightarrow> u32 \<Rightarrow> u32" where
  "crc32_bitwise data crc = NOT (fold (\<lambda>b c. (crc_bit ^^ 8) (c XOR ucast b)) data (NOT crc))"

lemma crc_bit_xor: "crc_bit (a XOR b) = crc_bit a XOR crc_bit b"
proof -
  have "(a XOR b) AND 1 \<noteq> 0 \<longleftrightarrow> (a AND 1 \<noteq> 0) \<noteq> (b AND 1 \<noteq> 0)"
    by (simp add: and_one_eq mod_2_eq_odd even_xor_iff)
  then show ?thesis by (auto simp: crc_bit_def drop_bit_xor ac_simps)
qed

lemma crc_bit_iter_xor: "(crc_bit ^^ n) (a XOR b) = (crc_bit ^^ n) a XOR (crc_bit ^^ n) b"
  by (induction n) (simp_all add: crc_bit_xor)

lemma crc_bit_iter_high: "(\<forall>i<n. \<not> bit x i) \<Longrightarrow> (crc_bit ^^ n) x = drop_bit n x"
proof (induction n)
  case (Suc n)
  then have IH: "(crc_bit ^^ n) x = drop_bit n x" by simp
  have "\<not> bit x n" using Suc.prems by simp
  then have "drop_bit n x AND 1 = 0"
    by (simp add: and_one_eq mod_2_eq_odd bit_iff_odd_drop_bit)
  then show ?case using IH by (simp add: crc_bit_def [of "drop_bit n x"])
qed simp

lemma crc32_step_bitwise: "crc32_step crc b = (crc_bit ^^ 8) (crc XOR ucast b)"
proof -
  let ?x = "crc XOR ucast b" and ?m = "0xFF :: u32"
  have m: "?m = mask 8" by (simp add: mask_eq_exp_minus_1)
  have "unat (?x AND ?m) < 256"
    unfolding m using and_mask_less' [of 8 ?x] by (simp add: word_less_nat_alt)
  then have "crc32_table ! unat (?x AND ?m) = (crc_bit ^^ 8) (?x AND ?m)"
    by (simp add: crc32_table_def crc32_entry_def)
  moreover have "(crc_bit ^^ 8) (?x AND NOT ?m) = drop_bit 8 (?x AND NOT ?m)"
    unfolding m by (rule crc_bit_iter_high) (auto simp: bit_simps)
  moreover have "drop_bit 8 (?x AND NOT ?m) = drop_bit 8 crc"
    unfolding m by (rule bit_eqI) (auto simp: bit_simps dest: bit_imp_le_length)
  moreover have "?x = (?x AND ?m) XOR (?x AND NOT ?m)"
    by (rule bit_eqI) (auto simp: bit_simps)
  ultimately show ?thesis
    using crc_bit_iter_xor [of 8 "?x AND ?m" "?x AND NOT ?m"] by (simp add: crc32_step_def)
qed

text \<open>
  C37. The table-driven checksum of \<^verbatim>\<open>crc32_bytes\<close> is the bit-at-a-time CRC-32, on every input
  and every starting value.
\<close>

theorem crc32_table_correct: "crc32_bytes data crc = crc32_bitwise data crc"
  by (simp add: crc32_bytes_def crc32_bitwise_def crc32_step_bitwise)

section \<open>Properties\<close>

text \<open>
  C14. A table that was created, filled and finished opens again, and a scan of it hands the
  entries to the callback exactly as they were added and in that order, stopping at the
  first code other than \<^verbatim>\<open>KANBUDB_OK\<close>; entry count and sequence number are those of the writer.
\<close>

theorem sstable_write_open_scan:
  assumes "sstable_writer_create True io seq = Some w0"
    and "writer_add_all fk io' w0 es = Some (w, KANBUDB_OK)"
    and "sstable_writer_finish now fs rn io'' w = (m, KANBUDB_OK)"
    and "length es < 2 ^ 31"
  shows "\<exists>r. sstable_reader_open m = Some (Some r) \<and>
     (\<forall>cb (ctx :: 'c). sstable_reader_scan r cb ctx = Some (run_items cb es ctx)) \<and>
     unat (sstable_reader_num_entries r) = length es \<and> sstable_reader_sequence r = seq"
proof -
  note t = written_table [OF assms(1-4)]
  have "sstable_reader_open m = Some (Some (sst_reader now seq es (w_bloom w)))"
    unfolding t(1) using open_image [OF t(2) assms(4) t(3) image_size [OF t(2,3) assms(4)]] .
  moreover have "unat (sstable_reader_num_entries (sst_reader now seq es (w_bloom w))) = length es"
    "sstable_reader_sequence (sst_reader now seq es (w_bloom w)) = seq"
    using assms(4) by (simp_all add: sstable_reader_num_entries_def sstable_reader_sequence_def sst_reader_def
        sst_header_def Let_def unat_of_nat_u64)
  moreover have "\<forall>cb (ctx :: 'c). sstable_reader_scan (sst_reader now seq es (w_bloom w)) cb ctx = Some (run_items cb es ctx)"
    by (simp add: scan_image [OF t(2) assms(4)])
  ultimately show ?thesis by (intro exI conjI)
qed

text \<open>
  C5. On a table written with its keys in strictly ascending order, a point lookup -- bloom
  filter, binary search of the sparse index, linear scan of at most 64 entries -- answers for
  every key what the written list says: the value, a tombstone, or not found.
\<close>

theorem sstable_lookup_correct:
  assumes "sstable_writer_create True io seq = Some w0"
    and "writer_add_all fk io' w0 es = Some (w, KANBUDB_OK)"
    and "sstable_writer_finish now fs rn io'' w = (m, KANBUDB_OK)"
    and "length es < 2 ^ 31" and "ssorted (keys_of es)"
  shows "\<exists>r. sstable_reader_open m = Some (Some r) \<and> (\<forall>key. sstable_reader_get r key = Some (sst_answer es key))"
proof -
  note t = written_table [OF assms(1-4)]
  note sz = image_size [OF t(2,3) assms(4), of now seq]
  show ?thesis
    unfolding t(1) using open_image [OF t(2) assms(4) t(3) sz] get_image [OF t(2) assms(4) t(3) sz assms(5)] by blast
qed

text \<open>
  The checksum of a finished file is always zero: the temporary file was opened for
  writing only, so its bytes cannot be read back; the reader, which sums the whole file,
  then reports the file as intact only if that sum happens to be zero.
\<close>

theorem sstable_checksum_zero:
  assumes "sstable_writer_create True io seq = Some w0"
    and "writer_add_all fk io' w0 es = Some (w, KANBUDB_OK)"
    and "sstable_writer_finish now fs rn io'' w = (m, KANBUDB_OK)"
    and "length es < 2 ^ 31"
  shows "\<exists>r. drop (length m - 4) m = put_u32 0 \<and> sstable_reader_open m = Some (Some r) \<and>
    (sstable_reader_crc_ok r = 1 \<longleftrightarrow> crc32_bytes (take (length m - 4) m) 0 = 0)"
proof -
  note t = written_table [OF assms(1-4)]
  note sz = image_size [OF t(2,3) assms(4), of now seq]
  have "drop (length m - 4) m = put_u32 0" unfolding t(1) by (simp add: sst_image_def)
  then show ?thesis
    unfolding t(1) using open_image [OF t(2) assms(4) t(3) sz]
    by (auto simp: sst_reader_def Let_def sstable_reader_crc_ok_def)
qed

section \<open>Witnesses\<close>

definition demo_items :: "sst_item list" where
  "demo_items = [([1], [7, 7], 1), ([1, 2], [], 2), ([3], [9], 1)]"

lemma demo_table:
  obtains w0 w m where "sstable_writer_create True length 5 = Some w0"
    and "writer_add_all demo_fk length w0 demo_items = Some (w, KANBUDB_OK)"
    and "sstable_writer_finish 0 True True length w = (m, KANBUDB_OK)"
    and "length demo_items < 2 ^ 31" and "ssorted (keys_of demo_items)"
proof -
  obtain w0 where w0: "sstable_writer_create True length 5 = Some w0"
    by (simp add: sstable_writer_create_def)
  have ok: "\<forall>e\<in>set demo_items. item_ok e" by (simp add: demo_items_def item_ok_def)
  obtain w where w: "writer_add_all demo_fk length w0 demo_items = Some (w, KANBUDB_OK)"
    using writer_add_all_succeeds [OF writer_create_written [OF w0] ok] by blast
  obtain m where m: "sstable_writer_finish 0 True True length w = (m, KANBUDB_OK)"
    using finish_succeeds by blast
  have n: "length demo_items < 2 ^ 31" by (simp add: demo_items_def)
  show thesis using that [OF w0 w m n] by (simp add: demo_items_def)
qed

theorem sstable_write_open_scan_witness:
  "\<exists>m r. sstable_reader_open m = Some (Some r) \<and>
     sstable_reader_scan r (\<lambda>k v fl ctx. (ctx @ [(k, v, fl)], KANBUDB_OK)) [] = Some (demo_items, KANBUDB_OK)"
proof -
  obtain w0 w m where "sstable_writer_create True length 5 = Some w0"
    "writer_add_all demo_fk length w0 demo_items = Some (w, KANBUDB_OK)"
    "sstable_writer_finish 0 True True length w = (m, KANBUDB_OK)"
    "length demo_items < 2 ^ 31"
    by (rule demo_table)
  from sstable_write_open_scan [OF this] obtain r where "sstable_reader_open m = Some (Some r)"
    "\<forall>cb (ctx :: sst_item list). sstable_reader_scan r cb ctx = Some (run_items cb demo_items ctx)" by auto
  then show ?thesis by (intro exI conjI) (assumption, simp add: demo_items_def)
qed

theorem sstable_lookup_correct_witness:
  "\<exists>m r. sstable_reader_open m = Some (Some r) \<and>
     sstable_reader_get r [3] = Some (KANBUDB_OK, Some 1, Some [9]) \<and>
     sstable_reader_get r [1, 2] = Some (KANBUDB_ERR_NOTFOUND, Some 2, None) \<and>
     sstable_reader_get r [2] = Some (KANBUDB_ERR_NOTFOUND, None, None)"
proof -
  obtain w0 w m where "sstable_writer_create True length 5 = Some w0"
    "writer_add_all demo_fk length w0 demo_items = Some (w, KANBUDB_OK)"
    "sstable_writer_finish 0 True True length w = (m, KANBUDB_OK)"
    "length demo_items < 2 ^ 31" "ssorted (keys_of demo_items)"
    by (rule demo_table)
  from sstable_lookup_correct [OF this] obtain r where "sstable_reader_open m = Some (Some r)"
    "\<forall>key. sstable_reader_get r key = Some (sst_answer demo_items key)" by auto
  then show ?thesis
    by (intro exI conjI) (assumption, simp_all add: demo_items_def sst_answer_def sst_consts)
qed

theorem sstable_checksum_zero_witness:
  "\<exists>m r. sstable_reader_open m = Some (Some r) \<and> drop (length m - 4) m = [0, 0, 0, 0]"
proof -
  obtain w0 w m where "sstable_writer_create True length 5 = Some w0"
    "writer_add_all demo_fk length w0 demo_items = Some (w, KANBUDB_OK)"
    "sstable_writer_finish 0 True True length w = (m, KANBUDB_OK)"
    "length demo_items < 2 ^ 31"
    by (rule demo_table)
  from sstable_checksum_zero [OF this] obtain r where "drop (length m - 4) m = put_u32 0"
    "sstable_reader_open m = Some (Some r)" by auto
  moreover have "put_u32 0 = [0, 0, 0, 0]" by code_simp
  ultimately show ?thesis by auto
qed

end
