(* ===== verification/Files.thy ===== *)
theory Files
  imports Prelude
begin

text \<open>
  What the components above the file formats use of the C library: the files of the
  machine as a list of paths with their contents, file names built with \<^verbatim>\<open>snprintf\<close> and taken
  apart with \<^verbatim>\<open>strncmp\<close>, \<^verbatim>\<open>strrchr\<close> and \<^verbatim>\<open>strtol\<close>, and an environment that says which calls
  succeed. The order of the list is the order in which \<^verbatim>\<open>readdir\<close> reports the files, which
  the standard leaves open; the theorems hold for every list.
\<close>

section \<open>Files\<close>

type_synonym path = string
type_synonym file_system = "(path \<times> bytes) list"

definition fs_read :: "file_system \<Rightarrow> path \<Rightarrow> bytes option" where
  "fs_read fs p = map_of fs p"

definition fs_unlink :: "file_system \<Rightarrow> path \<Rightarrow> file_system" where
  "fs_unlink fs p = filter (\<lambda>q. fst q \<noteq> p) fs"

definition fs_write :: "file_system \<Rightarrow> path \<Rightarrow> bytes \<Rightarrow> file_system" where
  "fs_write fs p b = (p, b) # fs_unlink fs p"

lemma fs_read_unlink [simp]: "fs_read (fs_unlink fs p) q = (if q = p then None else fs_read fs q)"
  by (induction fs) (auto simp: fs_read_def fs_unlink_def)

lemma fs_read_write [simp]: "fs_read (fs_write fs p b) q = (if q = p then Some b else fs_read fs q)"
  using fs_read_unlink [of fs p q] by (auto simp: fs_read_def fs_write_def)

text \<open>
  The environment of the file operations: whether \<^verbatim>\<open>fopen\<close>, \<^verbatim>\<open>fsync\<close>, \<^verbatim>\<open>rename\<close> and \<^verbatim>\<open>mmap\<close> succeed, how
  many bytes an \<^verbatim>\<open>fwrite\<close> takes, the clock, the rounding of the bloom filter's hash count, and
  the outcomes of \<^verbatim>\<open>rand\<close> when the memtable picks the level of a node. Every operation gets its own
  environment, so nothing is assumed to stay the same from one call to the next.
\<close>

record io_env =
  fopen_ok :: bool
  fwrite_n :: "bytes \<Rightarrow> nat"
  fsync_ok :: bool
  rename_ok :: bool
  mmap_ok :: bool
  clock :: u64
  hash_k :: "u32 \<Rightarrow> u32 \<Rightarrow> u32"
  coins :: "bytes \<Rightarrow> bool list"

section \<open>Strings\<close>

text \<open>\<^verbatim>\<open>%d\<close> and \<^verbatim>\<open>%llu\<close> of a non-negative number.\<close>

definition digit :: "nat \<Rightarrow> char" where
  "digit d = char_of (48 + d)"

fun dec_nat :: "nat \<Rightarrow> string" where
  "dec_nat n = (if n < 10 then [digit n] else dec_nat (n div 10) @ [digit (n mod 10)])"

declare dec_nat.simps [simp del]

definition dec_int :: "int \<Rightarrow> string" where
  "dec_int i = (if i < 0 then CHR ''-'' # dec_nat (nat (- i)) else dec_nat (nat i))"

text \<open>\<^verbatim>\<open>snprintf\<close> into a buffer of \<open>n\<close> bytes keeps the first \<open>n - 1\<close> characters.\<close>

definition snprintf :: "nat \<Rightarrow> string \<Rightarrow> string" where
  "snprintf n s = take (n - 1) s"

definition is_digit :: "char \<Rightarrow> bool" where
  "is_digit c = (48 \<le> (of_char c :: nat) \<and> (of_char c :: nat) \<le> 57)"

definition is_space :: "char \<Rightarrow> bool" where
  "is_space c = (of_char c = (32 :: nat) \<or> 9 \<le> (of_char c :: nat) \<and> (of_char c :: nat) \<le> 13)"

definition digits_val :: "string \<Rightarrow> nat" where
  "digits_val s = foldl (\<lambda>n c. 10 * n + (of_char c - 48)) 0 s"

text \<open>
  \<^verbatim>\<open>strtol(s, &end, 10)\<close>: the value and the rest of the string. Without a digit the value is 0
  and the rest is the whole string. (Saturation at \<^verbatim>\<open>LONG_MAX\<close> is not modelled; the callers
  reject values far below it.)
\<close>

definition strtol :: "string \<Rightarrow> int \<times> string" where
  "strtol s =
     (let s1 = dropWhile is_space s;
          neg = (s1 \<noteq> [] \<and> hd s1 = CHR ''-'');
          s2 = (if s1 \<noteq> [] \<and> (hd s1 = CHR ''-'' \<or> hd s1 = CHR ''+'') then tl s1 else s1);
          ds = takeWhile is_digit s2;
          v = int (digits_val ds)
      in if ds = [] then (0, s) else (if neg then - v else v, dropWhile is_digit s2))"

lemma digit_props:
  assumes "d < 10"
  shows "is_digit (digit d) \<and> of_char (digit d) - 48 = d \<and> \<not> is_space (digit d) \<and> digit d \<noteq> CHR ''-'' \<and>
    digit d \<noteq> CHR ''+'' \<and> digit d \<noteq> CHR ''/'' \<and> digit d \<noteq> CHR ''.''"
proof -
  have v: "of_char (digit d) = 48 + d" using assms by (simp add: digit_def)
  then have "is_digit (digit d)" using assms by (simp add: is_digit_def)
  moreover have "c \<noteq> CHR ''-'' \<and> c \<noteq> CHR ''+'' \<and> c \<noteq> CHR ''/'' \<and> c \<noteq> CHR ''.'' \<and> \<not> is_space c" if "is_digit c" for c
    using that by (auto simp: is_digit_def is_space_def)
  ultimately show ?thesis using v by simp
qed

lemma dec_nat_digits: "\<forall>c\<in>set (dec_nat n). is_digit c \<and> \<not> is_space c \<and> c \<noteq> CHR ''-'' \<and> c \<noteq> CHR ''+'' \<and> c \<noteq> CHR ''/'' \<and> c \<noteq> CHR ''.''"
proof (induction n rule: dec_nat.induct)
  case (1 n)
  then show ?case
    using digit_props [of "n mod 10"] digit_props [of n] by (cases "n < 10") (simp_all add: dec_nat.simps [of n])
qed

lemma dec_nat_val: "digits_val (dec_nat n) = n"
proof (induction n rule: dec_nat.induct)
  case (1 n)
  then show ?case
    using digit_props [of "n mod 10"] digit_props [of n]
    by (cases "n < 10") (simp_all add: dec_nat.simps [of n] digits_val_def)
qed

lemma dec_nat_nonempty: "dec_nat n \<noteq> []"
  by (simp add: dec_nat.simps)

lemma dec_nat_length: "0 < k \<Longrightarrow> n < 10 ^ k \<Longrightarrow> length (dec_nat n) \<le> k"
proof (induction k arbitrary: n)
  case (Suc k)
  show ?case
  proof (cases "n < 10")
    case False
    then have "0 < k" using Suc.prems by (cases k) auto
    moreover have "n div 10 < 10 ^ k" using Suc.prems by (simp add: less_mult_imp_div_less)
    ultimately show ?thesis using Suc.IH [of "n div 10"] False by (simp add: dec_nat.simps [of n])
  qed (simp add: dec_nat.simps [of n])
qed simp

text \<open>\<^verbatim>\<open>strtol\<close> reads back what \<^verbatim>\<open>%d\<close> printed, up to the first non-digit.\<close>

lemma strtol_dec:
  assumes "rest = [] \<or> \<not> is_digit (hd rest)"
  shows "strtol (dec_nat n @ rest) = (int n, rest)"
proof -
  let ?s = "dec_nat n @ rest"
  obtain c s where cs: "dec_nat n = c # s" using dec_nat_nonempty [of n] by (cases "dec_nat n") auto
  have c: "is_digit c" "\<not> is_space c" "c \<noteq> CHR ''-''" "c \<noteq> CHR ''+''" using dec_nat_digits [of n] cs by simp_all
  have s1: "dropWhile is_space ?s = ?s" using cs c by simp
  have d: "\<forall>x\<in>set (dec_nat n). is_digit x" using dec_nat_digits by blast
  have "takeWhile is_digit ?s = dec_nat n"
    using takeWhile_append2 [of "dec_nat n" is_digit rest] d assms by (cases rest) auto
  moreover have "dropWhile is_digit ?s = rest"
    using dropWhile_append2 [of "dec_nat n" is_digit rest] d assms by (cases rest) auto
  ultimately show ?thesis
    unfolding strtol_def Let_def s1 using cs c dec_nat_val [of n] by simp
qed

section \<open>Directories\<close>

definition begins :: "string \<Rightarrow> string \<Rightarrow> bool" where
  "begins p s = (take (length p) s = p)"

text \<open>\<^verbatim>\<open>strrchr(path, '/')\<close> splits a path; without a slash the directory is the current one.\<close>

definition has_slash :: "path \<Rightarrow> bool" where
  "has_slash p = (CHR ''/'' \<in> set p)"

definition base_of :: "path \<Rightarrow> string" where
  "base_of p = rev (takeWhile (\<lambda>c. c \<noteq> CHR ''/'') (rev p))"

definition dir_of :: "path \<Rightarrow> string" where
  "dir_of p = (if has_slash p then take 1023 (take (length p - length (base_of p) - 1) p) else ''.'')"

text \<open>What \<^verbatim>\<open>opendir\<close> and \<^verbatim>\<open>readdir\<close> report: the names of the files directly below a directory.\<close>

definition dir_names :: "file_system \<Rightarrow> string \<Rightarrow> string list" where
  "dir_names fs d =
     (if d = ''.'' then filter (\<lambda>n. \<not> has_slash n) (map fst fs)
      else map (drop (length d + 1))
             (filter (\<lambda>p. begins (d @ ''/'') p \<and> \<not> has_slash (drop (length d + 1) p)) (map fst fs)))"

lemma base_of_plain: "\<not> has_slash p \<Longrightarrow> base_of p = p"
  by (subst base_of_def, subst takeWhile_eq_all_conv [THEN iffD2]) (auto simp: has_slash_def)

end
