(* ===== verification/Compaction.thy ===== *)
theory Compaction
  imports Sstable Files
begin

text \<open>
  Levelled compaction, \<^verbatim>\<open>src/src/storage/compaction.c\<close>: the files of a database grouped by
  level, the choice of the level to compact, and the merge of all tables of a level into
  one table of the next. \<^verbatim>\<open>qsort\<close> is a parameter. As in the tables, \<open>None\<close> is a read outside
  a mapped file.
\<close>

section \<open>Levels\<close>

definition KANBUDB_MAX_LEVELS :: nat where "KANBUDB_MAX_LEVELS = 8"
definition KANBUDB_L0_COMPACTION_TRIGGER :: nat where "KANBUDB_L0_COMPACTION_TRIGGER = 4"

lemmas level_consts = KANBUDB_MAX_LEVELS_def KANBUDB_L0_COMPACTION_TRIGGER_def

text \<open>\<^verbatim>\<open>num_files\<close> is the length of \<^verbatim>\<open>file_paths\<close>.\<close>

record compaction_level =
  level :: nat
  file_paths :: "path list"
  total_size :: u64

abbreviation num_files :: "compaction_level \<Rightarrow> nat" where
  "num_files lv \<equiv> length (file_paths lv)"

text \<open>The level in a file name \<^verbatim>\<open>BASE.sst.LEVEL.SEQ\<close>, as the loop of \<^verbatim>\<open>compaction_scan_levels\<close> reads it.\<close>

definition parse_level :: "string \<Rightarrow> string \<Rightarrow> int option" where
  "parse_level base name =
     (if \<not> begins base name then None
      else if \<not> begins ''.'' (drop (length base) name) then None
      else
        (let rest = drop (length base + 1) name
         in if \<not> begins ''sst.'' rest then None
            else case strtol (drop 4 rest) of (lvl, e) \<Rightarrow> if begins ''.'' e then Some lvl else None))"

text \<open>One directory entry: name and whether it is a directory; \<open>stat\<close> gives the size.\<close>

definition scan_entry ::
  "string \<Rightarrow> string \<Rightarrow> (path \<Rightarrow> u64 option) \<Rightarrow> compaction_level list \<Rightarrow> string \<times> bool \<Rightarrow> compaction_level list" where
  "scan_entry dir base stat levels ent =
     (case ent of (name, is_dir) \<Rightarrow>
       if is_dir then levels
       else case parse_level base name of
         None \<Rightarrow> levels
       | Some lvl \<Rightarrow>
           if lvl < 0 \<or> lvl \<ge> int (length levels) then levels
           else
             (let full = (if dir = ''.'' then snprintf 1024 name else snprintf 1024 (dir @ ''/'' @ name));
                  fsize = (case stat full of Some n \<Rightarrow> n | None \<Rightarrow> 0);
                  lv = levels ! nat lvl
              in levels[nat lvl := lv\<lparr>file_paths := file_paths lv @ [full], total_size := total_size lv + fsize\<rparr>]))"

definition empty_levels :: "nat \<Rightarrow> compaction_level list" where
  "empty_levels max_levels = map (\<lambda>i. \<lparr>level = i, file_paths = [], total_size = 0\<rparr>) [0..<max_levels]"

definition compaction_scan_levels ::
  "path \<Rightarrow> (string \<times> bool) list option \<Rightarrow> (path \<Rightarrow> u64 option) \<Rightarrow> nat \<Rightarrow> compaction_level list \<times> rc" where
  "compaction_scan_levels db_path listing stat max_levels =
     (if max_levels = 0 then ([], KANBUDB_ERR_INVAL)
      else
        (let levels = empty_levels max_levels
         in case listing of
              None \<Rightarrow> (levels, KANBUDB_OK)
            | Some ents \<Rightarrow> (foldl (scan_entry (dir_of db_path) (base_of db_path) stat) levels ents, KANBUDB_OK)))"

text \<open>The scan of the files of a machine.\<close>

definition scan_fs :: "file_system \<Rightarrow> path \<Rightarrow> compaction_level list \<times> rc" where
  "scan_fs fs db_path =
     compaction_scan_levels db_path (Some (map (\<lambda>n. (n, False)) (dir_names fs (dir_of db_path))))
       (\<lambda>p. map_option (\<lambda>b. word_of_nat (length b)) (fs_read fs p)) KANBUDB_MAX_LEVELS"

fun mult_ten :: "nat \<Rightarrow> u64 \<Rightarrow> u64" where
  "mult_ten 0 base = base"
| "mult_ten (Suc n) base = mult_ten n (base * 10)"

definition compaction_max_bytes_for_level :: "int \<Rightarrow> u64" where
  "compaction_max_bytes_for_level lvl =
     (if lvl \<le> 0 then 0 else mult_ten (nat (lvl - 1)) (10 * 1024 * 1024))"

fun pick_from :: "compaction_level list \<Rightarrow> nat \<Rightarrow> nat \<Rightarrow> int" where
  "pick_from levels i 0 = - 1"
| "pick_from levels i (Suc n) =
     (if total_size (levels ! i) > compaction_max_bytes_for_level (int i) \<and> num_files (levels ! i) > 0
      then int i else pick_from levels (Suc i) n)"

definition compaction_pick_level :: "compaction_level list \<Rightarrow> nat \<Rightarrow> int" where
  "compaction_pick_level levels max_levels =
     (if max_levels < 2 then - 1
      else if num_files (levels ! 0) \<ge> KANBUDB_L0_COMPACTION_TRIGGER then 0
      else pick_from levels 1 (max_levels - 2))"

definition compaction_make_path :: "path \<Rightarrow> int \<Rightarrow> u64 \<Rightarrow> nat \<Rightarrow> path" where
  "compaction_make_path db_path lvl seq out_sz =
     snprintf out_sz (db_path @ ''.sst.'' @ dec_int lvl @ ''.'' @ dec_nat (unat seq))"

definition compaction_register_file ::
  "compaction_level list \<Rightarrow> int \<Rightarrow> path \<Rightarrow> u64 \<Rightarrow> compaction_level list" where
  "compaction_register_file levels lvl p file_size =
     (if lvl < 0 \<or> lvl \<ge> int KANBUDB_MAX_LEVELS then levels
      else (let lv = levels ! nat lvl
            in levels[nat lvl := lv\<lparr>file_paths := file_paths lv @ [p], total_size := total_size lv + file_size\<rparr>]))"

section \<open>Merging\<close>

record merge_entry =
  m_key :: bytes
  m_value :: bytes
  m_flag :: byte
  m_seq :: u64

definition merge_entry_compare :: "merge_entry \<Rightarrow> merge_entry \<Rightarrow> int" where
  "merge_entry_compare a b =
     (let cmp = key_cmp (m_key a) (m_key b)
      in if cmp \<noteq> 0 then cmp
         else if m_seq a > m_seq b then - 1
         else if m_seq a < m_seq b then 1 else 0)"

definition merge_collect_cb :: "u64 \<Rightarrow> merge_entry list sst_cb" where
  "merge_collect_cb seq key val flag ctx =
     (ctx @ [\<lparr>m_key = key, m_value = val, m_flag = flag, m_seq = seq\<rparr>], KANBUDB_OK)"

text \<open>\<^verbatim>\<open>sstable_reader_open(path)\<close>: a missing file is a null reader.\<close>

definition open_table :: "file_system \<Rightarrow> path \<Rightarrow> sstable_reader option option" where
  "open_table fs p = (case fs_read fs p of None \<Rightarrow> Some None | Some m \<Rightarrow> sstable_reader_open m)"

fun collect_inputs :: "file_system \<Rightarrow> path list \<Rightarrow> merge_entry list \<Rightarrow> (merge_entry list \<times> rc) option" where
  "collect_inputs fs [] acc = Some (acc, KANBUDB_OK)"
| "collect_inputs fs (p # ps) acc =
     (case open_table fs p of
        None \<Rightarrow> None
      | Some None \<Rightarrow> collect_inputs fs ps acc
      | Some (Some r) \<Rightarrow>
          (case sstable_reader_scan r (merge_collect_cb (sstable_reader_sequence r)) acc of
             None \<Rightarrow> None
           | Some (acc', rc) \<Rightarrow> if rc \<noteq> KANBUDB_OK then Some (acc', rc) else collect_inputs fs ps acc'))"

text \<open>
  The writing loop: \<open>prev\<close> is \<^verbatim>\<open>prev_key\<close>, \<open>None\<close> while \<^verbatim>\<open>first\<close> is set. A tombstone suppresses
  the older entries of its key and is itself not written.
\<close>

fun merge_write ::
  "io_env \<Rightarrow> sstable_writer \<Rightarrow> bytes option \<Rightarrow> merge_entry list \<Rightarrow> (sstable_writer \<times> rc) option" where
  "merge_write env w prev [] = Some (w, KANBUDB_OK)"
| "merge_write env w prev (e # es) =
     (if prev = Some (m_key e) then merge_write env w prev es
      else if m_flag e AND KANBUDB_SSTABLE_FLAG_TOMBSTONE \<noteq> 0 then merge_write env w (Some (m_key e)) es
      else case sstable_writer_add (hash_k env) (fwrite_n env) w (m_key e) (Some (m_value e))
                  (length (m_value e)) (m_flag e) of
             None \<Rightarrow> None
           | Some (w', rc) \<Rightarrow>
               if rc \<noteq> KANBUDB_OK then Some (w', rc) else merge_write env w' (Some (m_key e)) es)"

text \<open>
  \<^verbatim>\<open>sstable_writer_finish\<close> followed by \<^verbatim>\<open>sstable_writer_destroy\<close>, on the files: an unfinished
  temporary file is removed, one whose \<^verbatim>\<open>rename\<close> failed stays. (A temporary file left by a failed
  \<^verbatim>\<open>sstable_writer_create\<close> is not tracked.)
\<close>

definition finish_table ::
  "io_env \<Rightarrow> file_system \<Rightarrow> path \<Rightarrow> path \<Rightarrow> sstable_writer \<Rightarrow> file_system \<times> rc" where
  "finish_table env fs tmp final w =
     (case sstable_writer_finish (clock env) (fsync_ok env) True (fwrite_n env) w of (m, rc) \<Rightarrow>
       if rc \<noteq> KANBUDB_OK then (fs_unlink fs tmp, rc)
       else if \<not> rename_ok env then (fs_write fs tmp m, KANBUDB_ERR_IO)
       else (fs_write (fs_unlink fs tmp) final m, KANBUDB_OK))"

definition compaction_merge_to_level ::
  "io_env \<Rightarrow> ((merge_entry \<Rightarrow> merge_entry \<Rightarrow> int) \<Rightarrow> merge_entry list \<Rightarrow> merge_entry list) \<Rightarrow>
   file_system \<Rightarrow> path list \<Rightarrow> path \<Rightarrow> u64 \<Rightarrow> (file_system \<times> rc) option" where
  "compaction_merge_to_level env qsort fs input_paths output_path output_sequence =
     (if input_paths = [] then Some (fs, KANBUDB_ERR_INVAL)
      else
        (let tmp = snprintf 1024 (output_path @ ''.tmp'')
         in case collect_inputs fs input_paths [] of
              None \<Rightarrow> None
            | Some (entries, rc) \<Rightarrow>
                if rc \<noteq> KANBUDB_OK then Some (fs, rc)
                else
                  (case sstable_writer_create (fopen_ok env) (fwrite_n env) output_sequence of
                     None \<Rightarrow> Some (fs, KANBUDB_ERR_OOM)
                   | Some w \<Rightarrow>
                       if entries = [] then Some (finish_table env fs tmp output_path w)
                       else
                         (case merge_write env w None (qsort merge_entry_compare entries) of
                            None \<Rightarrow> None
                          | Some (w', rc) \<Rightarrow>
                              if rc = KANBUDB_OK then Some (finish_table env fs tmp output_path w')
                              else Some (fs_unlink fs tmp, rc)))))"

definition unlink_all :: "file_system \<Rightarrow> path list \<Rightarrow> file_system" where
  "unlink_all fs ps = foldl fs_unlink fs ps"

definition compaction_run_level ::
  "io_env \<Rightarrow> ((merge_entry \<Rightarrow> merge_entry \<Rightarrow> int) \<Rightarrow> merge_entry list \<Rightarrow> merge_entry list) \<Rightarrow>
   file_system \<Rightarrow> path \<Rightarrow> int \<Rightarrow> u64 \<Rightarrow> (file_system \<times> rc) option" where
  "compaction_run_level env qsort fs db_path lvl output_sequence =
     (if lvl < 0 \<or> lvl \<ge> int KANBUDB_MAX_LEVELS - 1 then Some (fs, KANBUDB_ERR_INVAL)
      else
        (case scan_fs fs db_path of (levels, rc) \<Rightarrow>
          if rc \<noteq> KANBUDB_OK then Some (fs, rc)
          else
            (let src = compaction_pick_level levels KANBUDB_MAX_LEVELS
             in if src < 0 \<or> num_files (levels ! nat src) = 0 then Some (fs, KANBUDB_OK)
                else
                  (let inputs = file_paths (levels ! nat src);
                       out = compaction_make_path db_path (src + 1) output_sequence 512
                   in map_option (\<lambda>(fs', rc). (if rc = KANBUDB_OK then unlink_all fs' inputs else fs', rc))
                        (compaction_merge_to_level env qsort fs inputs out output_sequence)))))"

end
