(* ===== verification/Compaction_Correct.thy ===== *)
theory Compaction_Correct
  imports Compaction Sstable_Correct
begin

text \<open>
  Correctness of compaction: the merged table holds, for every key, the entry with the
  highest sequence number among the inputs, unless that is a tombstone; the size targets do
  not overflow; the level picker returns the first level over its target; and the file
  names the writer builds are the ones the directory scan finds again.
\<close>

section \<open>Sorting\<close>

lemma merge_compare_iff:
  "merge_entry_compare a b \<le> 0 \<longleftrightarrow> m_key a < m_key b \<or> m_key a = m_key b \<and> m_seq b \<le> m_seq a"
  by (auto simp: merge_entry_compare_def Let_def key_cmp_spec)

lemma merge_preorder: "preorder_on_list merge_entry_compare xs"
  by (auto simp: preorder_on_list_def merge_compare_iff)

section \<open>What the merge keeps\<close>

definition tomb :: "merge_entry \<Rightarrow> bool" where
  "tomb e = (m_flag e AND KANBUDB_SSTABLE_FLAG_TOMBSTONE \<noteq> 0)"

definition item_of :: "merge_entry \<Rightarrow> sst_item" where
  "item_of e = (m_key e, m_value e, m_flag e)"

fun survivors :: "bytes option \<Rightarrow> merge_entry list \<Rightarrow> sst_item list" where
  "survivors prev [] = []"
| "survivors prev (e # es) =
     (if prev = Some (m_key e) then survivors prev es
      else if tomb e then survivors (Some (m_key e)) es
      else item_of e # survivors (Some (m_key e)) es)"

lemma merge_write_survivors:
  "merge_write env w prev es = writer_add_all (hash_k env) (fwrite_n env) w (survivors prev es)"
  by (induction env w prev es rule: merge_write.induct)
    (auto simp: tomb_def item_of_def split: option.splits)

abbreviation key_ordered :: "merge_entry list \<Rightarrow> bool" where
  "key_ordered es \<equiv> sorted (map m_key es)"

lemma survivors_keys:
  "key_ordered es \<Longrightarrow> (\<forall>p. prev = Some p \<longrightarrow> (\<forall>e\<in>set es. p \<le> m_key e)) \<Longrightarrow>
   ssorted (keys_of (survivors prev es)) \<and>
   (\<forall>k\<in>set (keys_of (survivors prev es)). k \<in> m_key ` set es \<and> prev \<noteq> Some k)"
proof (induction prev es rule: survivors.induct)
  case (2 prev e es)
  have IH: "ssorted (keys_of (survivors (Some (m_key e)) es)) \<and>
      (\<forall>k\<in>set (keys_of (survivors (Some (m_key e)) es)). k \<in> m_key ` set es \<and> k \<noteq> m_key e)"
    if "prev \<noteq> Some (m_key e)"
    using "2.IH"(2,3) "2.prems" that by (cases "tomb e") auto
  show ?case
  proof (cases "prev = Some (m_key e)")
    case True
    then show ?thesis using "2.IH"(1) "2.prems" by auto
  next
    case False
    have "\<forall>k\<in>set (keys_of (survivors (Some (m_key e)) es)). m_key e < k \<and> prev \<noteq> Some k"
    proof
      fix k assume "k \<in> set (keys_of (survivors (Some (m_key e)) es))"
      then have k: "k \<in> m_key ` set es" "k \<noteq> m_key e" using IH [OF False] by auto
      then have "m_key e < k" using "2.prems"(1) by fastforce
      moreover have "prev \<noteq> Some k"
      proof
        assume "prev = Some k"
        then have "k \<le> m_key e" using "2.prems"(2) by simp
        then show False using \<open>m_key e < k\<close> by simp
      qed
      ultimately show "m_key e < k \<and> prev \<noteq> Some k" ..
    qed
    then show ?thesis using False IH [OF False] by (auto simp: item_of_def)
  qed
qed simp

lemma survivors_lookup:
  "key_ordered es \<Longrightarrow> (\<forall>p. prev = Some p \<longrightarrow> (\<forall>e\<in>set es. p \<le> m_key e)) \<Longrightarrow> prev \<noteq> Some k \<Longrightarrow>
   map_of (survivors prev es) k =
     (case find (\<lambda>e. m_key e = k) es of
        None \<Rightarrow> None
      | Some e \<Rightarrow> if tomb e then None else Some (m_value e, m_flag e))"
proof (induction prev es rule: survivors.induct)
  case (2 prev e es)
  show ?case
  proof (cases "m_key e = k")
    case True
    have "map_of (survivors (Some k) es) k = None"
      using survivors_keys [of es "Some k"] "2.prems"(1) True by (fastforce simp: map_of_eq_None_iff)
    then show ?thesis using True "2.prems"(3) by (auto simp: item_of_def)
  next
    case False
    then show ?thesis using 2 by (auto simp: item_of_def)
  qed
qed simp

text \<open>The entry that counts for a key: none of the same key has a higher sequence number.\<close>

definition newest :: "merge_entry list \<Rightarrow> merge_entry \<Rightarrow> bool" where
  "newest es e \<longleftrightarrow> e \<in> set es \<and> (\<forall>e'\<in>set es. m_key e' = m_key e \<longrightarrow> m_seq e' \<le> m_seq e)"

lemma find_newest:
  "sorted_wrt (\<lambda>x y. merge_entry_compare x y \<le> 0) es \<Longrightarrow> find (\<lambda>e. m_key e = k) es = Some e \<Longrightarrow>
   newest es e \<and> m_key e = k"
proof (induction es)
  case (Cons x xs)
  show ?case
  proof (cases "m_key x = k")
    case True
    then show ?thesis using Cons.prems by (auto simp: newest_def merge_compare_iff)
  next
    case False
    then show ?thesis using Cons by (auto simp: newest_def)
  qed
qed simp

lemma ordered_keys: "sorted_wrt (\<lambda>x y. merge_entry_compare x y \<le> 0) es \<Longrightarrow> key_ordered es"
  by (induction es) (auto simp: merge_compare_iff)

section \<open>The inputs\<close>

text \<open>A file that the writer finished, with its entries and sequence number.\<close>

definition table_file :: "bytes \<Rightarrow> u64 \<Rightarrow> sst_item list \<Rightarrow> bool" where
  "table_file m seq es \<longleftrightarrow>
     (\<exists>now bo. m = sst_image now seq es bo \<and> (\<forall>e\<in>set es. item_ok e) \<and> bloom_for (keys_of es) bo \<and>
        length es < 2 ^ 31)"

lemma table_file_open:
  assumes "table_file m seq es"
  shows "\<exists>r. sstable_reader_open m = Some (Some r) \<and> sstable_reader_sequence r = seq \<and>
    (\<forall>cb (ctx :: 'c). sstable_reader_scan r cb ctx = Some (run_items cb es ctx)) \<and>
    (ssorted (keys_of es) \<longrightarrow> (\<forall>key. sstable_reader_get r key = Some (sst_answer es key)))"
proof -
  obtain now bo where m: "m = sst_image now seq es bo" and ok: "\<forall>e\<in>set es. item_ok e"
    and b: "bloom_for (keys_of es) bo" and n: "length es < 2 ^ 31"
    using assms by (auto simp: table_file_def)
  note sz = image_size [OF ok b n, of now seq]
  have "sstable_reader_sequence (sst_reader now seq es bo) = seq"
    by (simp add: sstable_reader_sequence_def sst_reader_def sst_header_def Let_def)
  moreover have "\<forall>cb (ctx :: 'c). sstable_reader_scan (sst_reader now seq es bo) cb ctx = Some (run_items cb es ctx)"
    by (simp add: scan_image [OF ok n])
  ultimately show ?thesis
    using open_image [OF ok n b sz] get_image [OF ok n b sz] unfolding m by blast
qed

definition tag :: "u64 \<Rightarrow> sst_item list \<Rightarrow> merge_entry list" where
  "tag seq es = map (\<lambda>(k, v, fl). \<lparr>m_key = k, m_value = v, m_flag = fl, m_seq = seq\<rparr>) es"

lemma run_collect: "run_items (merge_collect_cb seq) es acc = (acc @ tag seq es, KANBUDB_OK)"
  by (induction es arbitrary: acc) (auto simp: merge_collect_cb_def tag_def)

text \<open>The inputs of a merge: every path holds a finished table.\<close>

definition inputs_hold :: "file_system \<Rightarrow> (path \<times> u64 \<times> sst_item list) list \<Rightarrow> bool" where
  "inputs_hold fs ins \<longleftrightarrow> (\<forall>(p, seq, es)\<in>set ins. \<exists>m. fs_read fs p = Some m \<and> table_file m seq es)"

definition all_entries :: "(path \<times> u64 \<times> sst_item list) list \<Rightarrow> merge_entry list" where
  "all_entries ins = concat (map (\<lambda>(p, seq, es). tag seq es) ins)"

lemma collect_inputs_hold:
  "inputs_hold fs ins \<Longrightarrow> collect_inputs fs (map fst ins) acc = Some (acc @ all_entries ins, KANBUDB_OK)"
proof (induction ins arbitrary: acc)
  case (Cons i ins)
  obtain p seq es where i: "i = (p, seq, es)" by (cases i)
  obtain m where m: "fs_read fs p = Some m" "table_file m seq es" using Cons.prems i by (auto simp: inputs_hold_def)
  obtain r where r: "sstable_reader_open m = Some (Some r)" "sstable_reader_sequence r = seq"
    "\<forall>cb (ctx :: merge_entry list). sstable_reader_scan r cb ctx = Some (run_items cb es ctx)"
    using table_file_open [OF m(2)] by blast
  have "collect_inputs fs (map fst ins) (acc @ tag seq es) = Some ((acc @ tag seq es) @ all_entries ins, KANBUDB_OK)"
    using Cons by (simp add: inputs_hold_def)
  then show ?case using m(1) r i by (simp add: open_table_def run_collect all_entries_def)
qed (simp add: all_entries_def)

section \<open>The merged table\<close>

definition works :: "io_env \<Rightarrow> bool" where
  "works env \<longleftrightarrow> fopen_ok env \<and> fsync_ok env \<and> rename_ok env \<and> (\<forall>b. length b \<le> fwrite_n env b)"

text \<open>In a working environment a table of admissible entries is written.\<close>

lemma write_table:
  assumes env: "works env" and ok: "\<forall>e\<in>set es. item_ok e" and n: "length es < 2 ^ 31"
  obtains w0 w where "sstable_writer_create (fopen_ok env) (fwrite_n env) seq = Some w0"
    and "writer_add_all (hash_k env) (fwrite_n env) w0 es = Some (w, KANBUDB_OK)"
    and "\<exists>m. table_file m seq es \<and>
      finish_table env fs tmp final w = (fs_write (fs_unlink fs tmp) final m, KANBUDB_OK)"
proof -
  have io: "\<forall>b. length b \<le> fwrite_n env b" and fo: "fopen_ok env = True" using env by (auto simp: works_def)
  have "sizeof_header \<le> fwrite_n env (replicate sizeof_header 0)"
    using io [THEN spec, of "replicate sizeof_header 0"] by simp
  then obtain w0 where w0: "sstable_writer_create True (fwrite_n env) seq = Some w0"
    by (auto simp: sstable_writer_create_def)
  note wr = writer_create_written [OF w0, of "hash_k env"]
  obtain w where w: "writer_add_all (hash_k env) (fwrite_n env) w0 es = Some (w, KANBUDB_OK)"
    using writer_add_all_succeeds [OF wr ok io] by blast
  obtain m where m: "sstable_writer_finish (clock env) True True (fwrite_n env) w = (m, KANBUDB_OK)"
    using finish_succeeds [OF io] by blast
  note t = written_table [OF w0 w m n]
  have "table_file m seq es" using t n by (auto simp: table_file_def)
  moreover have "finish_table env fs tmp final w = (fs_write (fs_unlink fs tmp) final m, KANBUDB_OK)"
    using env m by (simp add: finish_table_def works_def)
  ultimately show thesis using that w0 w fo by auto
qed

definition merged_answer :: "merge_entry list \<Rightarrow> sst_item list \<Rightarrow> bytes \<Rightarrow> bool" where
  "merged_answer all es k \<longleftrightarrow>
     (case map_of es k of
        None \<Rightarrow> k \<notin> m_key ` set all \<or> (\<exists>e. newest all e \<and> m_key e = k \<and> tomb e)
      | Some (v, fl) \<Rightarrow> \<exists>e. newest all e \<and> m_key e = k \<and> m_value e = v \<and> m_flag e = fl \<and> \<not> tomb e)"

lemma survivors_answer:
  assumes "sorted_wrt (\<lambda>x y. merge_entry_compare x y \<le> 0) xs" and "set xs = set all"
  shows "merged_answer all (survivors None xs) k"
proof -
  note lk = survivors_lookup [OF ordered_keys [OF assms(1)], of None k, simplified]
  show ?thesis
  proof (cases "find (\<lambda>e. m_key e = k) xs")
    case None
    then have "k \<notin> m_key ` set all" using assms(2) by (auto simp: find_None_iff)
    then show ?thesis using None lk by (simp add: merged_answer_def)
  next
    case (Some e)
    then have "newest all e" "m_key e = k"
      using find_newest [OF assms(1) Some] assms(2) by (simp_all add: newest_def)
    then show ?thesis using Some lk by (cases "tomb e") (auto simp: merged_answer_def)
  qed
qed

lemma survivors_subset: "set (survivors prev es) \<subseteq> item_of ` set es"
  by (induction prev es rule: survivors.induct) auto

lemma survivors_length: "length (survivors prev es) \<le> length es"
  by (induction es arbitrary: prev) (simp_all add: le_SucI)

lemma item_of_tag: "item_of ` set (tag seq es) = set es"
  by (force simp: tag_def item_of_def)

lemma all_entries_ok:
  assumes "inputs_hold fs ins"
  shows "\<forall>e\<in>set (all_entries ins). item_ok (item_of e)"
proof
  fix e assume "e \<in> set (all_entries ins)"
  then obtain p seq es where i: "(p, seq, es) \<in> set ins" "e \<in> set (tag seq es)"
    by (auto simp: all_entries_def)
  then have "\<forall>x\<in>set es. item_ok x" using assms by (fastforce simp: inputs_hold_def table_file_def)
  moreover have "item_of e \<in> set es" using i(2) item_of_tag by blast
  ultimately show "item_ok (item_of e)" by blast
qed


definition demo_env :: io_env where
  "demo_env = \<lparr>fopen_ok = True, fwrite_n = length, fsync_ok = True, rename_ok = True, mmap_ok = True, clock = 0, hash_k = demo_fk, coins = (\<lambda>k. [])\<rparr>"

lemma demo_env_works: "works demo_env"
  by (simp add: works_def demo_env_def)

text \<open>Two tables: the newer one deletes key 1, which the older one holds, and adds key 2.\<close>

definition demo_inputs :: "(path \<times> u64 \<times> sst_item list) list" where
  "demo_inputs = [(''db.sst.0.1'', 1, [([1], [10], 1)]), (''db.sst.0.2'', 2, [([1], [], 2), ([2], [20], 1)])]"

lemma demo_inputs_hold: "\<exists>fs. inputs_hold fs demo_inputs"
proof -
  have "\<exists>m. table_file m seq es" if "\<forall>e\<in>set es. item_ok e" "length es < 2 ^ 31" for seq es
    by (rule write_table [OF demo_env_works that, of seq "[]" "[]" "[]"]) blast
  note tf = this
  obtain m1 where "table_file m1 1 [([1], [10], 1)]"
    using tf [of "[([1], [10], 1)]" 1] by (auto simp: item_ok_def)
  moreover obtain m2 where "table_file m2 2 [([1], [], 2), ([2], [20], 1)]"
    using tf [of "[([1], [], 2), ([2], [20], 1)]" 2] by (auto simp: item_ok_def)
  ultimately have "inputs_hold [(''db.sst.0.1'', m1), (''db.sst.0.2'', m2)] demo_inputs"
    by (auto simp: inputs_hold_def demo_inputs_def fs_read_def)
  then show ?thesis ..
qed


section \<open>Choosing a level\<close>

lemma mult_ten_unat:
  "unat base * 10 ^ n < 2 ^ 64 \<Longrightarrow> unat (mult_ten n base) = unat base * 10 ^ n"
proof (induction n arbitrary: base)
  case (Suc n)
  have "unat base * 10 \<le> unat base * 10 ^ Suc n" by simp
  then have lt: "unat base * 10 < 2 ^ 64" using Suc.prems by linarith
  then have "unat (base * 10) = unat base * 10"
    using unat_mult_lem [of base 10] by simp
  then show ?case using Suc.IH [of "base * 10"] Suc.prems by (simp add: mult.assoc)
qed simp

text \<open>
  The size target of level \<open>l\<close> is exactly 10 MB times ten per level, without wrap-around in
  64 bits, for every level the database has and up to level 13.
\<close>

theorem compaction_target_exact:
  assumes "1 \<le> l" and "l \<le> 13"
  shows "unat (compaction_max_bytes_for_level (int l)) = 10 * 1024 * 1024 * 10 ^ (l - 1)"
proof -
  have "(10 :: nat) ^ (l - 1) \<le> 10 ^ 12" using assms by (intro power_increasing) auto
  then have "10485760 * 10 ^ (l - 1) < (2 :: nat) ^ 64" by simp
  moreover have "nat (int l - 1) = l - 1" using assms(1) by simp
  ultimately show ?thesis
    using assms(1) mult_ten_unat [of 10485760 "l - 1"] by (simp add: compaction_max_bytes_for_level_def)
qed

theorem compaction_target_exact_witness: "unat (compaction_max_bytes_for_level 7) = 10485760000000"
  using compaction_target_exact [of 7] by simp

definition triggered :: "compaction_level list \<Rightarrow> nat \<Rightarrow> bool" where
  "triggered levels i \<longleftrightarrow>
     (if i = 0 then 4 \<le> num_files (levels ! 0)
      else total_size (levels ! i) > compaction_max_bytes_for_level (int i) \<and> 0 < num_files (levels ! i))"

lemma pick_from_spec:
  "0 < i \<Longrightarrow> pick_from levels i n =
     (case find (triggered levels) [i..<i + n] of None \<Rightarrow> - 1 | Some j \<Rightarrow> int j)"
proof (induction levels i n rule: pick_from.induct)
  case (2 levels i n)
  then show ?case
    using upt_conv_Cons [of i "i + Suc n"] by (simp add: triggered_def [of levels i] del: upt_Suc)
qed simp

text \<open>
  The level picker returns the lowest level whose trigger fired -- four files on level 0,
  more bytes than the target elsewhere -- and never the last level, which has no next one to
  merge into; it returns -1 exactly when no trigger fired.
\<close>

theorem compaction_pick_first:
  assumes "2 \<le> n"
  shows "(case find (triggered levels) [0..<n - 1] of
            None \<Rightarrow> compaction_pick_level levels n = - 1
          | Some j \<Rightarrow> compaction_pick_level levels n = int j \<and> j < n - 1)"
proof -
  have "1 + (n - 2) = n - 1" using assms by simp
  then have u: "[0..<n - 1] = 0 # [1..<1 + (n - 2)]"
    using assms upt_conv_Cons [of 0 "n - 1"] by (simp del: upt_Suc)
  have "find P xs = Some j \<Longrightarrow> j \<in> set xs" for P and xs :: "nat list" and j
    by (auto simp: find_Some_iff)
  then show ?thesis
    unfolding u using assms pick_from_spec [of 1 levels "n - 2"]
    by (fastforce simp: compaction_pick_level_def triggered_def [of levels 0] level_consts split: option.splits)
qed

theorem compaction_pick_first_witness:
  "compaction_pick_level [\<lparr>level = 0, file_paths = [''a''], total_size = 5\<rparr>,
      \<lparr>level = 1, file_paths = [''b''], total_size = 20000000\<rparr>, \<lparr>level = 2, file_paths = [], total_size = 0\<rparr>] 3 = 1"
proof -
  let ?l = "[\<lparr>level = 0, file_paths = [''a''], total_size = 5\<rparr>,
      \<lparr>level = 1, file_paths = [''b''], total_size = 20000000\<rparr>, \<lparr>level = 2, file_paths = [], total_size = 0\<rparr>]"
  have "find (triggered ?l) [0..<2] = Some 1"
    by code_simp
  then show ?thesis using compaction_pick_first [of 3 ?l] by simp
qed

section \<open>Finding the files again\<close>

definition full_name :: "string \<Rightarrow> string \<Rightarrow> path" where
  "full_name dir name = (if dir = ''.'' then snprintf 1024 name else snprintf 1024 (dir @ ''/'' @ name))"

lemma scan_entry_length [simp]: "length (scan_entry dir base stat levels e) = length levels"
  by (auto simp: scan_entry_def Let_def split: prod.splits option.splits)

lemma scan_paths:
  "l < length levels \<Longrightarrow>
   file_paths (foldl (scan_entry dir base stat) levels ents ! l) =
     file_paths (levels ! l) @
     map (\<lambda>(n, d). full_name dir n) (filter (\<lambda>(n, d). \<not> d \<and> parse_level base n = Some (int l)) ents)"
proof (induction ents arbitrary: levels)
  case (Cons e ents)
  obtain n d where e: "e = (n, d)" by (cases e)
  have "file_paths (scan_entry dir base stat levels e ! l) =
      file_paths (levels ! l) @ (if \<not> d \<and> parse_level base n = Some (int l) then [full_name dir n] else [])"
    using Cons.prems e
    by (auto simp: scan_entry_def full_name_def Let_def nth_list_update split: option.splits)
  then show ?case using Cons.IH [of "scan_entry dir base stat levels e"] Cons.prems e by simp
qed simp

lemma parse_made:
  "parse_level base (base @ ''.sst.'' @ dec_nat l @ ''.'' @ rest) = Some (int l)"
proof -
  have "strtol (dec_nat l @ ''.'' @ rest) = (int l, ''.'' @ rest)" by (rule strtol_dec) (simp add: is_digit_def)
  then show ?thesis by (simp add: parse_level_def begins_def Let_def)
qed

text \<open>
  Every file written under the name that \<^verbatim>\<open>compaction_make_path\<close> builds for a level is found
  again at that level by the directory scan, in a directory of any content; the name has to
  fit the 512-byte buffer.
\<close>

theorem compaction_path_found:
  assumes "\<not> has_slash db" and "length db \<le> 480" and "l < 8"
    and "fs_read fs (compaction_make_path db (int l) seq 512) = Some b"
  shows "compaction_make_path db (int l) seq 512 \<in> set (file_paths (fst (scan_fs fs db) ! l))"
proof -
  let ?full = "db @ ''.sst.'' @ dec_nat l @ ''.'' @ dec_nat (unat seq)"
  have "length (dec_nat l) \<le> 1" using assms(3) by (intro dec_nat_length) auto
  moreover have "length (dec_nat (unat seq)) \<le> 20" using unat_bounds(3) [of seq] by (intro dec_nat_length) auto
  ultimately have p: "compaction_make_path db (int l) seq 512 = ?full" and sn: "snprintf 1024 ?full = ?full"
    using assms(2) by (simp_all add: compaction_make_path_def snprintf_def dec_int_def)
  have ns: "\<not> has_slash ?full"
    using assms(1) dec_nat_digits [of l] dec_nat_digits [of "unat seq"] by (auto simp: has_slash_def)
  have "(?full, b) \<in> set fs" using assms(4) p by (simp add: fs_read_def map_of_SomeD)
  then have "?full \<in> set (dir_names fs ''.'')" using ns by (force simp: dir_names_def)
  then have "(?full, False) \<in> set (map (\<lambda>n. (n, False)) (dir_names fs ''.''))" by simp
  then have "full_name ''.'' ?full \<in> set (file_paths (fst (scan_fs fs db) ! l))"
    using assms(1,3) parse_made [of db l "dec_nat (unat seq)"]
    by (force simp: scan_fs_def compaction_scan_levels_def level_consts empty_levels_def scan_paths dir_of_def base_of_plain)
  then show ?thesis using p sn by (simp add: full_name_def)
qed

theorem compaction_path_found_witness:
  "''db.sst.1.3'' \<in> set (file_paths (fst (scan_fs [(''x'', []), (''db.sst.1.3'', [0])] ''db'') ! 1))"
proof -
  have "compaction_make_path ''db'' (int 1) 3 512 = ''db.sst.1.3''"
    by code_simp
  then show ?thesis
    using compaction_path_found [of "''db''" 1 "[(''x'', []), (''db.sst.1.3'', [0])]" 3 "[0]"]
    by (simp add: has_slash_def fs_read_def)
qed

end
