(* ===== verification/Wal_Mmap.thy ===== *)
theory Wal_Mmap
  imports Wal_Correct Sstable_Correct
begin

text \<open>
  The shared-memory log of \<^verbatim>\<open>src/src/storage/wal_mmap.c\<close>, through which a writer process feeds
  readers. The mapping is the list of bytes of the file; the atomic loads and stores of the
  header are loads and stores of that list. An access outside the file makes an operation
  return \<open>None\<close>. In the results the integer -1 of the source is \<open>None\<close> (inner option).
\<close>

unbundle bit_operations_syntax

definition KANBUDB_WAL_MMAP_MAGIC :: u64 where "KANBUDB_WAL_MMAP_MAGIC = 0x4845524D4553"
definition KANBUDB_WAL_MMAP_VERSION :: u32 where "KANBUDB_WAL_MMAP_VERSION = 1"
definition KANBUDB_WAL_MMAP_HEADER_SIZE :: u64 where "KANBUDB_WAL_MMAP_HEADER_SIZE = 64"

lemmas mmap_consts = KANBUDB_WAL_MMAP_MAGIC_def KANBUDB_WAL_MMAP_VERSION_def KANBUDB_WAL_MMAP_HEADER_SIZE_def

record kanbudb_wal_mmap =
  wm_mem :: bytes
  wm_size :: u64
  wm_last :: u64

definition page_align :: "u64 \<Rightarrow> u64" where
  "page_align sz = (sz + 4096 - 1) AND NOT (4096 - 1)"

definition poke :: "bytes \<Rightarrow> nat \<Rightarrow> bytes \<Rightarrow> bytes option" where
  "poke m off bs =
     (if off + length bs \<le> length m then Some (take off m @ bs @ drop (off + length bs) m) else None)"

definition serialize_entry ::
  "nat \<Rightarrow> u64 \<Rightarrow> wal_op \<Rightarrow> u64 \<Rightarrow> bytes \<Rightarrow> bytes option \<Rightarrow> nat \<Rightarrow> bytes option" where
  "serialize_entry cap seq op table_id key val val_len =
     (let op_u8 = (if op = KANBUDB_WAL_DELETE then 1 else 0 :: byte);
          needed = 8 + 1 + 8 + 8 + 8 + length key + (if op_u8 = 0 then val_len else 0)
      in if needed > cap then None
         else Some (put_u64 seq @ [op_u8] @ put_u64 table_id @
                put_u64 (word_of_nat (length key)) @ put_u64 (word_of_nat val_len) @ key @
                (case val of Some v \<Rightarrow> if op_u8 = 0 \<and> val_len > 0 then take val_len v else []
                 | None \<Rightarrow> [])))"

text \<open>
  The preallocation of \<^verbatim>\<open>wal_mmap_open\<close>: \<^verbatim>\<open>open\<close> positions at the start of the file, so the zeros
  that are meant to extend a short file overwrite its beginning.
\<close>

definition preallocate :: "bytes \<Rightarrow> nat \<Rightarrow> bytes" where
  "preallocate c want =
     (if length c < want then replicate (want - length c) 0 @ drop (want - length c) c else c)"

definition wm_data_cap :: "kanbudb_wal_mmap \<Rightarrow> u64" where
  "wm_data_cap wm = wm_size wm - KANBUDB_WAL_MMAP_HEADER_SIZE"

definition wm_write_pos :: "kanbudb_wal_mmap \<Rightarrow> u64" where
  "wm_write_pos wm = get_u64 (drop 16 (wm_mem wm))"

definition fresh_header :: "u64 \<Rightarrow> bytes" where
  "fresh_header data_cap =
     put_u64 KANBUDB_WAL_MMAP_MAGIC @ put_u32 KANBUDB_WAL_MMAP_VERSION @ put_u32 0 @
     put_u64 KANBUDB_WAL_MMAP_HEADER_SIZE @ put_u64 data_cap @ replicate 32 0"

definition wal_mmap_open ::
  "bool \<Rightarrow> bytes option \<Rightarrow> bool \<Rightarrow> u64 \<Rightarrow> kanbudb_wal_mmap option option" where
  "wal_mmap_open mmap_ok content rw data_cap =
     (let want = (if data_cap = 0 then 0 else page_align (KANBUDB_WAL_MMAP_HEADER_SIZE + data_cap));
          content = (if rw \<and> want > 0
                     then Some (preallocate (case content of Some c \<Rightarrow> c | None \<Rightarrow> []) (unat want))
                     else content)
      in case content of
           None \<Rightarrow> Some None
         | Some c \<Rightarrow>
             (let sz = (if want = 0 then word_of_nat (length c) else want)
              in if sz = 0 \<or> \<not> mmap_ok then Some None
                 else
                   (let wm = \<lparr>wm_mem = take (unat sz) c, wm_size = sz, wm_last = 0\<rparr>
                    in if length (wm_mem wm) < 64 then None
                       else if rw \<and> get_u64 (wm_mem wm) \<noteq> KANBUDB_WAL_MMAP_MAGIC then
                         (if length (wm_mem wm) < unat sz then None
                          else Some (Some (wm\<lparr>wm_mem := fresh_header (wm_data_cap wm) @ replicate (unat sz - 64) 0\<rparr>)))
                       else Some (Some wm))))"

text \<open>\<^verbatim>\<open>wal_mmap_append\<close>: the handle afterwards and the number of bytes written.\<close>

definition wal_mmap_append ::
  "kanbudb_wal_mmap \<Rightarrow> u64 \<Rightarrow> wal_op \<Rightarrow> u64 \<Rightarrow> bytes \<Rightarrow> bytes option \<Rightarrow> nat \<Rightarrow> (kanbudb_wal_mmap \<times> nat option) option" where
  "wal_mmap_append wm seq op table_id key val val_len =
     (let write_pos = wm_write_pos wm;
          data_offset = write_pos - KANBUDB_WAL_MMAP_HEADER_SIZE
      in case serialize_entry (unat (wm_data_cap wm - data_offset)) seq op table_id key val val_len of
           None \<Rightarrow> Some (wm, None)
         | Some bs \<Rightarrow>
             (let pos = write_pos + word_of_nat (length bs)
              in case poke (wm_mem wm) (64 + unat data_offset) bs of
                   None \<Rightarrow> None
                 | Some m1 \<Rightarrow>
                     (case poke m1 16 (put_u64 pos) of
                        None \<Rightarrow> None
                      | Some m2 \<Rightarrow>
                          Some (wm\<lparr>wm_mem := m2, wm_last := pos - KANBUDB_WAL_MMAP_HEADER_SIZE\<rparr>, Some (length bs)))))"

record mmap_entry =
  me_seq :: u64
  me_op :: wal_op
  me_table :: u64
  me_key :: bytes
  me_value :: "bytes option"

definition wal_mmap_read_entry :: "kanbudb_wal_mmap \<Rightarrow> (kanbudb_wal_mmap \<times> mmap_entry option) option" where
  "wal_mmap_read_entry wm =
     (let write_pos = wm_write_pos wm;
          read_pos = wm_last wm + KANBUDB_WAL_MMAP_HEADER_SIZE
      in if read_pos \<ge> write_pos then Some (wm, None)
         else if unat (write_pos - read_pos) < 8 + 1 + 8 + 8 + 8 then Some (wm, None)
         else
           (let off = 64 + unat (wm_last wm)
            in case read_at (wm_mem wm) off 33 of
                 None \<Rightarrow> None
               | Some h \<Rightarrow>
                   (let op = hd (drop 8 h); kl = unat (get_u64 (drop 17 h)); vl = unat (get_u64 (drop 25 h))
                    in case read_at (wm_mem wm) (off + 33) kl of
                         None \<Rightarrow> None
                       | Some key \<Rightarrow>
                           (let has_val = (op = 0 \<and> vl > 0)
                            in case read_at (wm_mem wm) (off + 33 + kl) (if has_val then vl else 0) of
                                 None \<Rightarrow> None
                               | Some v \<Rightarrow>
                                   Some (wm\<lparr>wm_last := word_of_nat (unat (wm_last wm) + 33 + kl + (if has_val then vl else 0))\<rparr>,
                                     Some \<lparr>me_seq = get_u64 h, me_op = (if op = 0 then KANBUDB_WAL_PUT else KANBUDB_WAL_DELETE),
                                           me_table = get_u64 (drop 9 h), me_key = key,
                                           me_value = (if has_val then Some v else None)\<rparr>)))))"

definition wal_mmap_get_write_pos :: "kanbudb_wal_mmap \<Rightarrow> u64" where
  "wal_mmap_get_write_pos wm = wm_write_pos wm"

text \<open>
  \<^verbatim>\<open>wal_mmap_switch_file\<close>: \<open>new_content\<close> is what the path \<^verbatim>\<open>.new\<close> held. The result is the handle
  afterwards and whether the switch succeeded; the handle is \<open>None\<close> when it was closed.
\<close>

definition wal_mmap_switch_file ::
  "bool \<Rightarrow> bool \<Rightarrow> bytes option \<Rightarrow> kanbudb_wal_mmap \<Rightarrow> (kanbudb_wal_mmap option \<times> bool) option" where
  "wal_mmap_switch_file mmap_ok rename_ok new_content wm =
     (let data_cap = (if wm_data_cap wm > 0 then wm_data_cap wm else 64 * 1024 * 1024)
      in case wal_mmap_open mmap_ok new_content True data_cap of
           None \<Rightarrow> None
         | Some None \<Rightarrow> Some (Some wm, False)
         | Some (Some nw) \<Rightarrow>
             if \<not> rename_ok then Some (None, False)
             else map_option (\<lambda>r. (r, r \<noteq> None)) (wal_mmap_open mmap_ok (Some (wm_mem nw)) True data_cap))"

text \<open>
  The loop of \<^verbatim>\<open>db_reader_refresh\<close>: entries until -1. Every entry read advances the position
  inside the mapping, so the loop ends after at most one turn per 33 bytes.
\<close>

fun read_entries :: "nat \<Rightarrow> kanbudb_wal_mmap \<Rightarrow> (kanbudb_wal_mmap \<times> mmap_entry list) option" where
  "read_entries 0 wm = None"
| "read_entries (Suc f) wm =
     (case wal_mmap_read_entry wm of
        None \<Rightarrow> None
      | Some (wm', None) \<Rightarrow> Some (wm', [])
      | Some (wm', Some e) \<Rightarrow> map_option (\<lambda>(w, es). (w, e # es)) (read_entries f wm'))"

section \<open>The contents of the mapping\<close>

definition mm_entry_ok :: "wal_entry \<Rightarrow> bool" where
  "mm_entry_ok e \<longleftrightarrow> length (e_key e) < 2 ^ 63 \<and>
     (if e_op e = 0 then length (e_value e) = unat (e_val_len e) else e_value e = [])"

definition mm_log :: "kanbudb_wal_mmap \<Rightarrow> wal_entry list \<Rightarrow> bool" where
  "mm_log wm es \<longleftrightarrow>
     (\<exists>h1 h2 rest. length h1 = 16 \<and> length h2 = 40 \<and>
        wm_mem wm = h1 @ put_u64 (word_of_nat (64 + length (log_bytes es))) @ h2 @ log_bytes es @ rest) \<and>
     length (wm_mem wm) = unat (wm_size wm) \<and> unat (wm_size wm) < 2 ^ 63 \<and> (\<forall>e\<in>set es. mm_entry_ok e)"

lemma serialize_same: "serialize_entry = wal_serialize"
  by (simp add: fun_eq_iff serialize_entry_def wal_serialize_def)

lemma mm_logE:
  assumes "mm_log wm es"
  obtains h1 h2 rest where "length h1 = 16" "length h2 = 40"
    "wm_mem wm = h1 @ put_u64 (word_of_nat (64 + length (log_bytes es))) @ h2 @ log_bytes es @ rest"
    "64 + length (log_bytes es) + length rest = unat (wm_size wm)" "unat (wm_size wm) < 2 ^ 63"
    "wm_write_pos wm = word_of_nat (64 + length (log_bytes es))" "\<forall>e\<in>set es. mm_entry_ok e"
proof -
  obtain h1 h2 rest where h: "length h1 = 16" "length h2 = 40"
    "wm_mem wm = h1 @ put_u64 (word_of_nat (64 + length (log_bytes es))) @ h2 @ log_bytes es @ rest"
    using assms by (auto simp: mm_log_def)
  then have "wm_write_pos wm = word_of_nat (64 + length (log_bytes es))"
    unfolding wm_write_pos_def h(3) using h(1) by (simp del: of_nat_add)
  moreover have "length (wm_mem wm) = 64 + length (log_bytes es) + length rest" using h by simp
  ultimately show thesis using that [OF h] assms by (simp add: mm_log_def)
qed

lemma poke_append: "length a = off \<Longrightarrow> length b = length bs \<Longrightarrow> poke (a @ b @ c) off bs = Some (a @ bs @ c)"
  by (simp add: poke_def)

lemma mm_append_ok:
  assumes log: "mm_log wm es" and len: "length v < 2 ^ 63"
    and fits: "64 + length (log_bytes es) + length (entry_enc (new_entry seq op t key v)) \<le> unat (wm_size wm)"
  shows "\<exists>wm'. wal_mmap_append wm seq op t key (Some v) (length v) =
      Some (wm', Some (length (entry_enc (new_entry seq op t key v)))) \<and>
    mm_log wm' (es @ [new_entry seq op t key v]) \<and> wm_size wm' = wm_size wm"
proof -
  let ?e = "new_entry seq op t key v" and ?L = "length (log_bytes es)"
  let ?n = "length (entry_enc ?e)"
  obtain h1 h2 rest where h: "length h1 = 16" "length h2 = 40"
    "wm_mem wm = h1 @ put_u64 (word_of_nat (64 + ?L)) @ h2 @ log_bytes es @ rest"
    and sz: "64 + ?L + length rest = unat (wm_size wm)" "unat (wm_size wm) < 2 ^ 63"
    and wp: "wm_write_pos wm = word_of_nat (64 + ?L)" and ok: "\<forall>e\<in>set es. mm_entry_ok e"
    by (rule mm_logE [OF log])
  have off: "wm_write_pos wm - KANBUDB_WAL_MMAP_HEADER_SIZE = word_of_nat ?L"
    unfolding wp by (simp add: mmap_consts)
  have L: "unat (word_of_nat ?L :: u64) = ?L" using sz by (intro unat_of_nat_u64) simp
  have cap: "unat (wm_data_cap wm - word_of_nat ?L) = length rest"
  proof -
    have "wm_size wm = word_of_nat (64 + ?L + length rest)" using sz(1) by simp
    then have "wm_data_cap wm - word_of_nat ?L = word_of_nat (length rest)"
      by (simp add: wm_data_cap_def mmap_consts)
    then show ?thesis using sz by (simp add: unat_of_nat_u64)
  qed
  have n: "?n = 33 + length key + (if op = KANBUDB_WAL_DELETE then 0 else length v)"
    by (simp add: entry_enc_def new_entry_def)
  have "wal_serialize (length rest) seq op t key (Some v) (length v) \<noteq> None"
    unfolding serialize_fits using fits sz n by simp
  then have ser: "serialize_entry (length rest) seq op t key (Some v) (length v) = Some (entry_enc ?e)"
    using serialize_new_entry by (auto simp: serialize_same)
  have "?n \<le> length rest" using fits sz by simp
  then obtain r1 r2 where r: "rest = r1 @ r2" "length r1 = ?n" by (metis append_take_drop_id length_take min.absorb2)
  let ?m1 = "h1 @ put_u64 (word_of_nat (64 + ?L)) @ h2 @ log_bytes es @ entry_enc ?e @ r2"
  have p1: "poke (wm_mem wm) (64 + ?L) (entry_enc ?e) = Some ?m1"
    using poke_append [of "h1 @ put_u64 (word_of_nat (64 + ?L)) @ h2 @ log_bytes es" "64 + ?L" r1 "entry_enc ?e" r2] h r
    by (simp del: of_nat_add)
  have pos: "wm_write_pos wm + word_of_nat ?n = word_of_nat (64 + length (log_bytes (es @ [?e])))"
    unfolding wp by simp
  have p2: "poke ?m1 16 (put_u64 x) = Some (h1 @ put_u64 x @ h2 @ log_bytes (es @ [?e]) @ r2)" for x
    using poke_append [of h1 16 "put_u64 (word_of_nat (64 + ?L))" "put_u64 x"] h by (simp del: of_nat_add)
  have "mm_entry_ok ?e"
    using len fits sz n by (auto simp: mm_entry_ok_def new_entry_def unat_of_nat_u64 split: if_splits)
  then have ok': "\<forall>e\<in>set (es @ [?e]). mm_entry_ok e" using ok by simp
  let ?m2 = "h1 @ put_u64 (word_of_nat (64 + length (log_bytes (es @ [?e])))) @ h2 @ log_bytes (es @ [?e]) @ r2"
  have lm: "length ?m2 = unat (wm_size wm)" using h sz r by (simp del: of_nat_add)
  define wm' where "wm' = wm\<lparr>wm_mem := ?m2, wm_last := word_of_nat (64 + length (log_bytes (es @ [?e]))) - KANBUDB_WAL_MMAP_HEADER_SIZE\<rparr>"
  have "mm_log wm' (es @ [?e])"
    unfolding mm_log_def using h lm sz(2) ok' by (auto simp: wm'_def)
  moreover have "wal_mmap_append wm seq op t key (Some v) (length v) = Some (wm', Some ?n)"
    unfolding wal_mmap_append_def Let_def off L cap ser option.case p1 pos p2 wm'_def by simp
  ultimately show ?thesis by (auto simp: wm'_def)
qed

section \<open>Reading\<close>

definition me_of :: "wal_entry \<Rightarrow> mmap_entry" where
  "me_of e = \<lparr>me_seq = e_seq e, me_op = (if e_op e = 0 then KANBUDB_WAL_PUT else KANBUDB_WAL_DELETE),
     me_table = e_table e, me_key = e_key e,
     me_value = (if e_op e = 0 \<and> 0 < unat (e_val_len e) then Some (e_value e) else None)\<rparr>"

abbreviation at_pos :: "wal_entry list \<Rightarrow> u64" where
  "at_pos es \<equiv> word_of_nat (length (log_bytes es))"

lemma unat_at_pos:
  assumes "mm_log wm (es @ es')"
  shows "unat (at_pos es) = length (log_bytes es)" "64 + length (log_bytes (es @ es')) < 2 ^ 63"
    "unat (at_pos es + KANBUDB_WAL_MMAP_HEADER_SIZE) = 64 + length (log_bytes es)"
    "unat (wm_write_pos wm) = 64 + length (log_bytes (es @ es'))"
proof -
  obtain rest where sz: "64 + length (log_bytes (es @ es')) + length (rest :: bytes) = unat (wm_size wm)" "unat (wm_size wm) < 2 ^ 63"
    and wp: "wm_write_pos wm = word_of_nat (64 + length (log_bytes (es @ es')))"
    by (rule mm_logE [OF assms]) blast
  show lt: "64 + length (log_bytes (es @ es')) < 2 ^ 63" using sz by linarith
  then have l2: "64 + length (log_bytes es) < 2 ^ 63" by simp
  show "unat (at_pos es) = length (log_bytes es)" using l2 by (intro unat_of_nat_u64) simp
  have "at_pos es + KANBUDB_WAL_MMAP_HEADER_SIZE = word_of_nat (64 + length (log_bytes es))" by (simp add: mmap_consts)
  then show "unat (at_pos es + KANBUDB_WAL_MMAP_HEADER_SIZE) = 64 + length (log_bytes es)"
    using l2 unat_of_nat_u64 [of "64 + length (log_bytes es)"] by (simp add: add.commute)
  show "unat (wm_write_pos wm) = 64 + length (log_bytes (es @ es'))"
    unfolding wp using lt by (intro unat_of_nat_u64) simp
qed

lemma read_end:
  assumes "mm_log wm es" and "wm_last wm = at_pos es"
  shows "wal_mmap_read_entry wm = Some (wm, None)"
proof -
  have "mm_log wm (es @ [])" using assms(1) by simp
  note u = unat_at_pos [OF this]
  have "wm_write_pos wm \<le> wm_last wm + KANBUDB_WAL_MMAP_HEADER_SIZE"
    unfolding assms(2) word_le_nat_alt u by simp
  then show ?thesis by (simp add: wal_mmap_read_entry_def Let_def)
qed

lemma read_one:
  assumes log: "mm_log wm (es @ e # es')" and last: "wm_last wm = at_pos es"
  shows "wal_mmap_read_entry wm = Some (wm\<lparr>wm_last := at_pos (es @ [e])\<rparr>, Some (me_of e))"
proof -
  note u = unat_at_pos [OF log]
  obtain h1 h2 rest where h: "length h1 = 16" "length h2 = 40"
    "wm_mem wm = h1 @ put_u64 (word_of_nat (64 + length (log_bytes (es @ e # es')))) @ h2 @ log_bytes (es @ e # es') @ rest"
    and ok: "\<forall>x\<in>set (es @ e # es'). mm_entry_ok x"
    by (rule mm_logE [OF log]) blast
  let ?a = "h1 @ put_u64 (word_of_nat (64 + length (log_bytes (es @ e # es')))) @ h2 @ log_bytes es"
  let ?hd = "put_u64 (e_seq e) @ [e_op e] @ put_u64 (e_table e) @ put_u64 (word_of_nat (length (e_key e))) @ put_u64 (e_val_len e)"
  let ?r = "log_bytes es' @ rest"
  have la: "length ?a = 64 + length (log_bytes es)" using h by (simp del: of_nat_add)
  have m: "wm_mem wm = ?a @ ?hd @ (e_key e @ e_value e @ ?r)" "wm_mem wm = (?a @ ?hd) @ e_key e @ (e_value e @ ?r)"
    "wm_mem wm = (?a @ ?hd @ e_key e) @ e_value e @ ?r"
    unfolding h(3) by (simp_all add: entry_enc_def)
  let ?off = "64 + length (log_bytes es)"
  have r1: "read_at (wm_mem wm) ?off 33 = Some ?hd"
    unfolding m(1) by (rule read_at_append) (use la in \<open>simp_all del: of_nat_add\<close>)
  have r2: "read_at (wm_mem wm) (?off + 33) (length (e_key e)) = Some (e_key e)"
    unfolding m(2) by (rule read_at_append) (use la in \<open>simp_all del: of_nat_add\<close>)
  have r3: "read_at (wm_mem wm) (?off + 33 + length (e_key e)) (length (e_value e)) = Some (e_value e)"
    unfolding m(3) by (rule read_at_append) (use la in \<open>simp_all del: of_nat_add\<close>)
  have eo: "mm_entry_ok e" using ok by simp
  have kl: "unat (word_of_nat (length (e_key e)) :: u64) = length (e_key e)"
    using eo by (intro unat_of_nat_u64) (simp add: mm_entry_ok_def)
  have vl: "(if e_op e = 0 \<and> 0 < unat (e_val_len e) then unat (e_val_len e) else 0) = length (e_value e)"
    using eo by (auto simp: mm_entry_ok_def split: if_splits)
  have d: "hd (drop 8 ?hd) = e_op e" "get_u64 ?hd = e_seq e" "get_u64 (drop 9 ?hd) = e_table e"
    "get_u64 (drop 17 ?hd) = word_of_nat (length (e_key e))" "get_u64 (drop 25 ?hd) = e_val_len e"
    by (simp_all add: drop_append)
  have go: "\<not> wm_last wm + KANBUDB_WAL_MMAP_HEADER_SIZE \<ge> wm_write_pos wm"
    unfolding last word_le_nat_alt u by (simp add: entry_enc_def)
  have rem: "\<not> unat (wm_write_pos wm - (wm_last wm + KANBUDB_WAL_MMAP_HEADER_SIZE)) < 8 + 1 + 8 + 8 + 8"
    using go unfolding last unat_sub [OF less_imp_le [OF go [unfolded last not_le]]] u by (simp add: entry_enc_def)
  have nx: "word_of_nat (length (log_bytes es) + 33 + length (e_key e) + length (e_value e)) = at_pos (es @ [e])"
    by (simp add: entry_enc_def)
  show ?thesis
    unfolding wal_mmap_read_entry_def Let_def last u(1) r1 option.case d kl r2 vl r3 nx me_of_def
    using vl go [unfolded last] rem [unfolded last] by (auto split: if_splits)
qed

text \<open>The reader's loop delivers everything written behind its position, in order.\<close>

lemma read_all:
  assumes "mm_log wm (es @ es')" and "wm_last wm = at_pos es" and "length es' < f"
  shows "read_entries f wm = Some (wm\<lparr>wm_last := at_pos (es @ es')\<rparr>, map me_of es')"
  using assms
proof (induction es' arbitrary: es wm f)
  case Nil
  then obtain f' where "f = Suc f'" by (cases f) auto
  then show ?case using read_end [of wm es] Nil by simp
next
  case (Cons e es')
  then obtain f' where f: "f = Suc f'" by (cases f) auto
  let ?w = "wm\<lparr>wm_last := at_pos (es @ [e])\<rparr>"
  have "mm_log ?w ((es @ [e]) @ es')" using Cons.prems(1) by (simp add: mm_log_def)
  from Cons.IH [OF this, of f'] show ?case
    using read_one [OF Cons.prems(1,2)] Cons.prems(3) f by simp
qed

section \<open>A fresh mapping\<close>

lemma unat_page_align:
  assumes "unat s < 2 ^ 62"
  shows "unat (page_align s) = (unat s + 4095) div 4096 * 4096"
proof -
  have "unat (s + 4095) = unat s + 4095" using assms by (subst unat_add_lem [THEN iffD1]) simp_all
  moreover have "page_align s = push_bit 12 (drop_bit 12 (s + 4095))"
  proof -
    have "page_align s = (s + 4095) AND NOT (mask 12)" by (simp add: page_align_def mask_eq_exp_minus_1 add.commute)
    then show ?thesis by (simp only:) (rule bit_eqI, auto simp: bit_simps)
  qed
  then have "page_align s = (s + 4095) div 4096 * 4096" by (simp add: push_bit_eq_mult drop_bit_eq_div)
  moreover have "unat ((s + 4095) div 4096) * unat (4096 :: u64) < 2 ^ LENGTH(64)"
    using calculation(1) assms by (simp add: unat_div_distrib)
  then have "unat ((s + 4095) div 4096 * 4096) = unat ((s + 4095) div 4096) * 4096"
    using unat_mult_lem [of "(s + 4095) div 4096" 4096] by simp
  ultimately show ?thesis by (simp add: unat_div_distrib)
qed

lemma open_fresh:
  assumes "0 < unat cap" and "unat cap < 2 ^ 61"
  shows "\<exists>wm. wal_mmap_open True None True cap = Some (Some wm) \<and> mm_log wm [] \<and> wm_last wm = 0 \<and>
    64 + unat cap \<le> unat (wm_size wm) \<and> wal_mmap_open True (Some (wm_mem wm)) True cap = Some (Some wm)"
proof -
  let ?t = "page_align (KANBUDB_WAL_MMAP_HEADER_SIZE + cap)"
  have s: "unat (KANBUDB_WAL_MMAP_HEADER_SIZE + cap) = 64 + unat cap"
    using assms(2) by (subst unat_add_lem [THEN iffD1]) (simp_all add: mmap_consts)
  have t: "unat ?t = (64 + unat cap + 4095) div 4096 * 4096"
    using unat_page_align [of "KANBUDB_WAL_MMAP_HEADER_SIZE + cap"] s assms(2) by simp
  have t1: "64 + unat cap \<le> unat ?t" unfolding t by linarith
  have "unat ?t \<le> 64 + unat cap + 4095" unfolding t by simp
  then have t2: "unat ?t < 2 ^ 63" using assms(2) by simp
  have c0: "cap \<noteq> 0" using assms(1) by (rule contrapos_pn) simp
  have t0: "0 < ?t" "?t \<noteq> 0" using t1 by (auto simp: word_less_nat_alt)
  define wm where "wm = \<lparr>wm_mem = fresh_header (?t - KANBUDB_WAL_MMAP_HEADER_SIZE) @ replicate (unat ?t - 64) 0, wm_size = ?t, wm_last = 0\<rparr>"
  have z: "get_u64 (replicate n 0) = 0" for n
  proof -
    have "le_dec (replicate k 0) = 0" for k by (induction k) auto
    then show ?thesis by (simp add: get_u64_def)
  qed
  have "wal_mmap_open True None True cap = Some (Some wm)"
    using c0 t0 t1 assms(1) by (simp add: wal_mmap_open_def Let_def preallocate_def z wm_data_cap_def wm_def mmap_consts)
  moreover have "wal_mmap_open True (Some (wm_mem wm)) True cap = Some (Some wm)"
    using c0 t0 t1 assms(1)
    by (simp add: wal_mmap_open_def Let_def preallocate_def wm_data_cap_def wm_def fresh_header_def)
  moreover have "mm_log wm []"
    unfolding mm_log_def using t1 t2
    by (intro conjI exI [of _ "put_u64 KANBUDB_WAL_MMAP_MAGIC @ put_u32 KANBUDB_WAL_MMAP_VERSION @ put_u32 0"]
        exI [of _ "put_u64 (?t - KANBUDB_WAL_MMAP_HEADER_SIZE) @ replicate 32 0"] exI [of _ "replicate (unat ?t - 64) 0"])
      (simp_all add: wm_def fresh_header_def mmap_consts)
  ultimately show ?thesis using t1 by (simp add: wm_def)
qed

section \<open>Properties\<close>

text \<open>A writer's sequence of appends; the sequence numbers are the writer's.\<close>

type_synonym mm_req = "u64 \<times> wal_op \<times> u64 \<times> bytes \<times> bytes"

fun mmap_append_all :: "kanbudb_wal_mmap \<Rightarrow> mm_req list \<Rightarrow> (kanbudb_wal_mmap \<times> bool) option" where
  "mmap_append_all wm [] = Some (wm, True)"
| "mmap_append_all wm ((seq, op, t, k, v) # rs) =
     (case wal_mmap_append wm seq op t k (Some v) (length v) of
        None \<Rightarrow> None
      | Some (wm', None) \<Rightarrow> Some (wm', False)
      | Some (wm', Some n) \<Rightarrow> mmap_append_all wm' rs)"

definition req_entry :: "mm_req \<Rightarrow> wal_entry" where
  "req_entry r = (case r of (seq, op, t, k, v) \<Rightarrow> new_entry seq op t k v)"

lemma append_all_ok:
  assumes "mm_log wm es" and "\<forall>(seq, op, t, k, v)\<in>set rs. length v < 2 ^ 63"
    and "64 + length (log_bytes (es @ map req_entry rs)) \<le> unat (wm_size wm)"
  shows "\<exists>wm'. mmap_append_all wm rs = Some (wm', True) \<and> mm_log wm' (es @ map req_entry rs)"
  using assms
proof (induction rs arbitrary: wm es)
  case (Cons r rs)
  obtain seq op t k v where r: "r = (seq, op, t, k, v)" by (cases r)
  obtain wm1 where w: "wal_mmap_append wm seq op t k (Some v) (length v) = Some (wm1, Some (length (entry_enc (req_entry r))))"
    "mm_log wm1 (es @ [req_entry r])" "wm_size wm1 = wm_size wm"
    using mm_append_ok [OF Cons.prems(1), of v seq op t k] Cons.prems(2,3) r by (auto simp: req_entry_def)
  then show ?case using Cons.IH [OF w(2)] Cons.prems(2,3) r by simp
qed simp

text \<open>
  Writer and readers agree: in a freshly created shared log, a sequence of appends that
  fits is accepted, and a reader -- whatever prefix it had consumed before -- then reads
  exactly the entries behind its position, in order, and stops at the writer's position.
\<close>

theorem wal_mmap_reader_sees:
  assumes "0 < unat cap" and "unat cap < 2 ^ 61" and "\<forall>(seq, op, t, k, v)\<in>set (rs @ rs'). length v < 2 ^ 63"
    and "length (log_bytes (map req_entry (rs @ rs'))) \<le> unat cap"
  shows "\<exists>wm wm'. wal_mmap_open True None True cap = Some (Some wm) \<and>
     mmap_append_all wm (rs @ rs') = Some (wm', True) \<and>
     read_entries (Suc (length rs')) (wm'\<lparr>wm_last := at_pos (map req_entry rs)\<rparr>) =
       Some (wm'\<lparr>wm_last := at_pos (map req_entry (rs @ rs'))\<rparr>, map (\<lambda>r. me_of (req_entry r)) rs')"
proof -
  obtain wm where wm: "wal_mmap_open True None True cap = Some (Some wm)" "mm_log wm []" "64 + unat cap \<le> unat (wm_size wm)"
    using open_fresh [OF assms(1,2)] by blast
  obtain wm' where wm': "mmap_append_all wm (rs @ rs') = Some (wm', True)" "mm_log wm' (map req_entry (rs @ rs'))"
    using append_all_ok [OF wm(2) assms(3)] assms(4) wm(3) by auto
  let ?r = "wm'\<lparr>wm_last := at_pos (map req_entry rs)\<rparr>"
  have "mm_log ?r (map req_entry rs @ map req_entry rs')" using wm'(2) by (simp add: mm_log_def)
  from read_all [OF this, of "Suc (length rs')"] show ?thesis using wm wm' by (auto simp: comp_def)
qed

definition demo_r1 :: mm_req where "demo_r1 = (1, KANBUDB_WAL_PUT, 1, [1], [10])"
definition demo_r2 :: mm_req where "demo_r2 = (2, KANBUDB_WAL_DELETE, 1, [1], [])"

theorem wal_mmap_reader_sees_witness:
  "\<exists>wm wm' w. wal_mmap_open True None True 4096 = Some (Some wm) \<and>
     mmap_append_all wm ([demo_r1] @ [demo_r2]) = Some (wm', True) \<and>
     read_entries (Suc (length [demo_r2])) (wm'\<lparr>wm_last := at_pos (map req_entry [demo_r1])\<rparr>) =
       Some (w, map (\<lambda>r. me_of (req_entry r)) [demo_r2])"
proof -
  have "length (log_bytes (map req_entry ([demo_r1] @ [demo_r2]))) \<le> unat (4096 :: u64)"
    by (simp add: demo_r1_def demo_r2_def req_entry_def new_entry_def entry_enc_def)
  moreover have "\<forall>(seq, op, t, k, v)\<in>set ([demo_r1] @ [demo_r2]). length v < 2 ^ 63"
    by (simp add: demo_r1_def demo_r2_def)
  ultimately show ?thesis
    using wal_mmap_reader_sees [of 4096 "[demo_r1]" "[demo_r2]"]
    by (simp del: mmap_append_all.simps read_entries.simps append.simps list.map list.size) blast
qed

text \<open>
  Switching the shared log loses what readers have not consumed: whatever the old log held,
  the handle after a successful switch (to a path not used before) maps an empty log.
\<close>

theorem wal_mmap_switch_drops:
  assumes "mm_log wm es" and "64 < unat (wm_size wm)" and "unat (wm_size wm) < 2 ^ 61"
  shows "\<exists>wm'. wal_mmap_switch_file True True None wm = Some (Some wm', True) \<and> mm_log wm' [] \<and>
    read_entries 1 wm' = Some (wm', [])"
proof -
  let ?cap = "wm_data_cap wm"
  have le: "KANBUDB_WAL_MMAP_HEADER_SIZE \<le> wm_size wm" using assms(2) by (simp add: word_le_nat_alt mmap_consts)
  then have cap: "unat ?cap = unat (wm_size wm) - 64" by (simp add: wm_data_cap_def unat_sub mmap_consts)
  then have cap0: "0 < unat ?cap" "unat ?cap < 2 ^ 61" "?cap > 0" using assms(2,3) by (simp_all add: word_less_nat_alt)
  obtain nw where nw: "wal_mmap_open True None True ?cap = Some (Some nw)" "mm_log nw []" "wm_last nw = 0"
    and again: "wal_mmap_open True (Some (wm_mem nw)) True ?cap = Some (Some nw)"
    using open_fresh [OF cap0(1,2)] by blast
  have "wal_mmap_switch_file True True None wm = Some (Some nw, True)"
    using nw(1) again cap0(3) by (simp add: wal_mmap_switch_file_def Let_def)
  moreover have "read_entries 1 nw = Some (nw, [])" using read_all [of nw "[]" "[]" 1] nw by simp
  ultimately show ?thesis using nw(2) by blast
qed

theorem wal_mmap_switch_drops_witness:
  "\<exists>wm es wm'. mm_log wm es \<and> es \<noteq> [] \<and> wal_mmap_switch_file True True None wm = Some (Some wm', True) \<and> mm_log wm' []"
proof -
  let ?h1 = "replicate 16 0 :: bytes" and ?h2 = "replicate 40 0 :: bytes" and ?e = "req_entry demo_r1"
  define wm where "wm = \<lparr>wm_mem = ?h1 @ put_u64 (word_of_nat (64 + length (log_bytes [?e]))) @ ?h2 @ log_bytes [?e],
    wm_size = 99, wm_last = 0\<rparr>"
  have "mm_log wm [?e]"
    unfolding mm_log_def
    by (intro conjI exI [of _ ?h1] exI [of _ ?h2] exI [of _ "[]"])
      (simp_all add: wm_def demo_r1_def req_entry_def new_entry_def entry_enc_def mm_entry_ok_def)
  from wal_mmap_switch_drops [OF this] show ?thesis using \<open>mm_log wm [?e]\<close> by (auto simp: wm_def)
qed

end
