(* ===== verification/Shared_Meta.thy ===== *)
theory Shared_Meta
  imports Files
begin

text \<open>
  The metadata file shared by the processes of one database, \<^verbatim>\<open>src/src/storage/shared_meta.c\<close>:
  a 24-byte record replaced atomically through a temporary file. The Boolean results are
  the return values 0 (\<open>True\<close>) and -1.
\<close>

definition KANBUDB_SHARED_MAGIC :: u64 where "KANBUDB_SHARED_MAGIC = 0x4B414E4255444200"

record kanbudb_shared_meta =
  sm_magic :: u64
  sm_flushed_seq :: u64
  sm_wal_version :: u32
  sm_reader_count :: u32

definition meta_bytes :: "kanbudb_shared_meta \<Rightarrow> bytes" where
  "meta_bytes m = put_u64 (sm_magic m) @ put_u64 (sm_flushed_seq m) @ put_u32 (sm_wal_version m) @ put_u32 (sm_reader_count m)"

definition meta_of :: "bytes \<Rightarrow> kanbudb_shared_meta" where
  "meta_of b = \<lparr>sm_magic = get_u64 b, sm_flushed_seq = get_u64 (drop 8 b), sm_wal_version = get_u32 (drop 16 b),
     sm_reader_count = get_u32 (drop 20 b)\<rparr>"

definition make_path :: "path \<Rightarrow> path" where
  "make_path db_path = snprintf 512 (db_path @ ''.shared'')"

definition shared_meta_write ::
  "io_env \<Rightarrow> file_system \<Rightarrow> path \<Rightarrow> kanbudb_shared_meta \<Rightarrow> file_system \<times> bool" where
  "shared_meta_write env fs db_path m =
     (let p = make_path db_path;
          tmp = snprintf 516 (p @ ''.tmp'');
          b = meta_bytes m
      in if \<not> fopen_ok env then (fs, False)
         else if fwrite_n env b < length b then (fs_write fs tmp (take (fwrite_n env b) b), False)
         else if \<not> rename_ok env then (fs_write fs tmp b, False)
         else (fs_write (fs_unlink fs tmp) p b, True))"

definition initial_meta :: kanbudb_shared_meta where
  "initial_meta = \<lparr>sm_magic = KANBUDB_SHARED_MAGIC, sm_flushed_seq = 0, sm_wal_version = 1, sm_reader_count = 0\<rparr>"

definition shared_meta_open ::
  "io_env \<Rightarrow> file_system \<Rightarrow> path \<Rightarrow> file_system \<times> kanbudb_shared_meta \<times> bool" where
  "shared_meta_open env fs db_path =
     (case fs_read fs (make_path db_path) of
        None \<Rightarrow> (case shared_meta_write env fs db_path initial_meta of (fs', ok) \<Rightarrow> (fs', initial_meta, ok))
      | Some b \<Rightarrow>
          if length b < 24 \<or> sm_magic (meta_of b) \<noteq> KANBUDB_SHARED_MAGIC
          then (case shared_meta_write env fs db_path initial_meta of (fs', ok) \<Rightarrow> (fs', initial_meta, ok))
          else (fs, meta_of b, True))"

definition shared_meta_reader_join ::
  "io_env \<Rightarrow> file_system \<Rightarrow> path \<Rightarrow> kanbudb_shared_meta \<Rightarrow> file_system \<times> kanbudb_shared_meta \<times> bool" where
  "shared_meta_reader_join env fs db_path m =
     (let m' = m\<lparr>sm_reader_count := sm_reader_count m + 1\<rparr>
      in case shared_meta_write env fs db_path m' of (fs', ok) \<Rightarrow> (fs', m', ok))"

definition shared_meta_reader_leave ::
  "io_env \<Rightarrow> file_system \<Rightarrow> path \<Rightarrow> kanbudb_shared_meta \<Rightarrow> file_system \<times> kanbudb_shared_meta \<times> bool" where
  "shared_meta_reader_leave env fs db_path m =
     (let m' = (if sm_reader_count m > 0 then m\<lparr>sm_reader_count := sm_reader_count m - 1\<rparr> else m)
      in case shared_meta_write env fs db_path m' of (fs', ok) \<Rightarrow> (fs', m', ok))"

section \<open>Properties\<close>

lemma length_meta_bytes [simp]: "length (meta_bytes m) = 24"
  by (simp add: meta_bytes_def)

lemma meta_of_bytes: "meta_of (meta_bytes m) = m"
  by (cases m) (simp add: meta_of_def meta_bytes_def drop_append)

lemma write_read: "shared_meta_write env fs p m = (fs', True) \<Longrightarrow> fs_read fs' (make_path p) = Some (meta_bytes m)"
  by (auto simp: shared_meta_write_def Let_def split: if_splits)

text \<open>
  Joining and leaving keep file and memory in step: when the update succeeds, the next
  \<^verbatim>\<open>kanbudb_shared_meta_open\<close> reads back exactly the record held in memory, provided the
  record carries the magic number -- otherwise it discards it and starts again with no readers.
\<close>

theorem shared_meta_reopen:
  assumes "shared_meta_reader_join env fs p m = (fs', m', True) \<or> shared_meta_reader_leave env fs p m = (fs', m', True)"
  shows "shared_meta_open env' fs' p =
    (if sm_magic m = KANBUDB_SHARED_MAGIC then (fs', m', True)
     else (fst (shared_meta_write env' fs' p initial_meta), initial_meta, snd (shared_meta_write env' fs' p initial_meta)))"
proof -
  have w: "fs_read fs' (make_path p) = Some (meta_bytes m')" and mg: "sm_magic m' = sm_magic m"
    using assms write_read
    by (auto simp: shared_meta_reader_join_def shared_meta_reader_leave_def Let_def split: prod.splits if_splits)
  then show ?thesis by (simp add: shared_meta_open_def meta_of_bytes split: prod.splits)
qed

definition demo_meta_env :: io_env where
  "demo_meta_env = \<lparr>fopen_ok = True, fwrite_n = length, fsync_ok = True, rename_ok = True, mmap_ok = True, clock = 0, hash_k = (\<lambda>a b. 7), coins = (\<lambda>k. [])\<rparr>"

text \<open>A reader that joins with a zeroed record, as \<^verbatim>\<open>db_open_reader\<close> does, is forgotten at the next open.\<close>

theorem shared_meta_reopen_witness:
  "\<exists>fs'. shared_meta_reader_join demo_meta_env [] ''db'' (meta_of (replicate 24 0)) = (fs', (meta_of (replicate 24 0))\<lparr>sm_reader_count := 1\<rparr>, True) \<and>
     fst (snd (shared_meta_open demo_meta_env fs' ''db'')) = initial_meta"
proof -
  let ?m = "meta_of (replicate 24 0)"
  have z: "?m = \<lparr>sm_magic = 0, sm_flushed_seq = 0, sm_wal_version = 0, sm_reader_count = 0\<rparr>" by code_simp
  obtain fs' where j: "shared_meta_reader_join demo_meta_env [] ''db'' ?m = (fs', ?m\<lparr>sm_reader_count := 1\<rparr>, True)"
    by (simp add: shared_meta_reader_join_def shared_meta_write_def demo_meta_env_def z Let_def)
  then show ?thesis
    using shared_meta_reopen [of demo_meta_env "[]" "''db''" ?m fs' "?m\<lparr>sm_reader_count := 1\<rparr>" demo_meta_env] z
    by (auto simp: KANBUDB_SHARED_MAGIC_def)
qed

end
