(* ===== verification/Schema.thy ===== *)
theory Schema
  imports Compaction_Correct
begin

text \<open>
  Table definitions and their persistence, from \<^verbatim>\<open>src/src/core/db.c\<close>: the schema is written as
  text into a system table with \<^verbatim>\<open>snprintf\<close> and read back with \<^verbatim>\<open>sscanf\<close>. A C string is its
  characters without the terminating zero; reading a string that has none, and writing
  outside the 2048-byte buffer, make an operation return \<open>None\<close>.
\<close>

section \<open>Tables\<close>

definition KANBUDB_MAX_TABLES :: nat where "KANBUDB_MAX_TABLES = 64"
definition KANBUDB_SYSTEM_TABLE_SUFFIX :: string where "KANBUDB_SYSTEM_TABLE_SUFFIX = ''.system''"

text \<open>The column types are the integer values of the enumeration \<^verbatim>\<open>kanbudb_col_type_t\<close>.\<close>

record kanbudb_table =
  t_name :: string
  t_num_cols :: int
  t_col_types :: "int list"
  t_col_names :: "string list"
  t_pk :: int
  t_id :: u64

definition find_table :: "kanbudb_table list \<Rightarrow> string \<Rightarrow> int" where
  "find_table ts name =
     (let i = length (takeWhile (\<lambda>t. t_name t \<noteq> name) ts) in if i < length ts then int i else - 1)"

section \<open>C strings as bytes\<close>

definition chr_byte :: "char \<Rightarrow> byte" where "chr_byte c = word_of_nat (of_char c)"
definition byte_chr :: "byte \<Rightarrow> char" where "byte_chr b = char_of (unat b)"

definition cbytes :: "string \<Rightarrow> bytes" where
  "cbytes s = map chr_byte s @ [0]"

definition cstr :: "bytes \<Rightarrow> string option" where
  "cstr bs = (if 0 \<in> set bs then Some (map byte_chr (takeWhile (\<lambda>b. b \<noteq> 0) bs)) else None)"

section \<open>Saving\<close>

text \<open>
  The loop that appends the columns to \<^verbatim>\<open>val\<close>: \<open>pos\<close> counts what \<^verbatim>\<open>snprintf\<close> would have written.
  Once it has passed the end of the buffer, the size \<^verbatim>\<open>sizeof(val) - pos\<close> wraps around and the
  next call writes outside it.
\<close>

fun save_cols :: "nat \<Rightarrow> string \<Rightarrow> (int \<times> string) list \<Rightarrow> string option" where
  "save_cols pos val [] = Some val"
| "save_cols pos val ((ty, name) # cs) =
     (if pos > 2048 then None
      else
        (let piece = ''|'' @ dec_int ty @ '':'' @ name
         in save_cols (pos + length piece) (val @ take (2048 - pos - 1) piece) cs))"

definition save_value :: "kanbudb_table \<Rightarrow> string option" where
  "save_value t =
     (let h = dec_int (t_num_cols t) @ ''|'' @ dec_int (t_pk t)
      in save_cols (length h) (snprintf 2048 h) (zip (t_col_types t) (t_col_names t)))"

definition save_key :: "nat \<Rightarrow> kanbudb_table \<Rightarrow> string" where
  "save_key i t = snprintf 128 (''table:'' @ dec_nat i @ '':'' @ t_name t)"

text \<open>\<^verbatim>\<open>sstable_writer_add\<close> with its return code ignored.\<close>

definition add_ignoring ::
  "io_env \<Rightarrow> sstable_writer \<Rightarrow> bytes \<Rightarrow> bytes \<Rightarrow> sstable_writer option" where
  "add_ignoring env w key val =
     map_option fst (sstable_writer_add (hash_k env) (fwrite_n env) w key (Some val) (length val) KANBUDB_SSTABLE_FLAG_ALIVE)"

fun save_tables :: "io_env \<Rightarrow> sstable_writer \<Rightarrow> nat \<Rightarrow> kanbudb_table list \<Rightarrow> sstable_writer option" where
  "save_tables env w i [] = Some w"
| "save_tables env w i (t # ts) =
     (case save_value t of
        None \<Rightarrow> None
      | Some v \<Rightarrow>
          (case add_ignoring env w (cbytes (save_key i t)) (cbytes v) of
             None \<Rightarrow> None
           | Some w' \<Rightarrow> save_tables env w' (Suc i) ts))"

definition db_save_schema ::
  "io_env \<Rightarrow> file_system \<Rightarrow> path \<Rightarrow> kanbudb_table list \<Rightarrow> (file_system \<times> rc) option" where
  "db_save_schema env fs db_path ts =
     (let sys = snprintf 512 (db_path @ KANBUDB_SYSTEM_TABLE_SUFFIX);
          tmp = snprintf 512 (db_path @ KANBUDB_SYSTEM_TABLE_SUFFIX @ ''.tmp'')
      in case sstable_writer_create (fopen_ok env) (fwrite_n env) 0 of
           None \<Rightarrow> Some (fs, KANBUDB_ERR_OOM)
         | Some w \<Rightarrow>
             (case add_ignoring env w (cbytes ''tables_count'') (cbytes (snprintf 16 (dec_nat (length ts)))) of
                None \<Rightarrow> None
              | Some w1 \<Rightarrow>
                  (case save_tables env w1 0 ts of
                     None \<Rightarrow> None
                   | Some w2 \<Rightarrow> Some (finish_table env fs tmp sys w2))))"

section \<open>Loading\<close>

text \<open>\<^verbatim>\<open>%d\<close> of \<^verbatim>\<open>sscanf\<close>: the value and the rest of the input, or no match.\<close>

definition scan_int :: "string \<Rightarrow> (int \<times> string) option" where
  "scan_int s =
     (let s1 = dropWhile is_space s;
          neg = (s1 \<noteq> [] \<and> hd s1 = CHR ''-'');
          s2 = (if s1 \<noteq> [] \<and> (hd s1 = CHR ''-'' \<or> hd s1 = CHR ''+'') then tl s1 else s1);
          ds = takeWhile is_digit s2;
          v = int (digits_val ds)
      in if ds = [] then None else Some (if neg then - v else v, dropWhile is_digit s2))"

text \<open>The format \<^verbatim>\<open>%d|%d\<close>.\<close>

definition scan_head :: "string \<Rightarrow> (int \<times> int \<times> string) option" where
  "scan_head v =
     (case scan_int v of
        None \<Rightarrow> None
      | Some (n, r1) \<Rightarrow>
          if \<not> begins ''|'' r1 then None
          else case scan_int (tl r1) of None \<Rightarrow> None | Some (pk, r2) \<Rightarrow> Some (n, pk, r2))"

text \<open>The format \<^verbatim>\<open>|%d:%255[^|]\<close>, which needs at least one character for the name.\<close>

definition scan_col :: "string \<Rightarrow> (int \<times> string \<times> string) option" where
  "scan_col s =
     (if \<not> begins ''|'' s then None
      else case scan_int (tl s) of
        None \<Rightarrow> None
      | Some (ty, r) \<Rightarrow>
          if \<not> begins '':'' r then None
          else
            (let name = take 255 (takeWhile (\<lambda>c. c \<noteq> CHR ''|'') (tl r))
             in if name = [] then None else Some (ty, name, drop (length name) (tl r))))"

fun scan_cols :: "nat \<Rightarrow> string \<Rightarrow> (int \<times> string) list" where
  "scan_cols 0 s = []"
| "scan_cols (Suc n) s =
     (case scan_col s of None \<Rightarrow> [] | Some (ty, name, r) \<Rightarrow> (ty, name) # scan_cols n r)"

text \<open>
  \<^verbatim>\<open>schema_load_cb\<close> on the list of tables read so far; the context is \<open>None\<close> after an invalid
  access. Columns behind the first one that does not parse stay uninitialised in the
  source; the model's lists end there.
\<close>

definition load_table :: "string \<Rightarrow> string option \<Rightarrow> kanbudb_table list \<Rightarrow> kanbudb_table list option \<times> rc" where
  "load_table k v ts =
     (if k = ''tables_count'' then (Some ts, KANBUDB_OK)
      else if \<not> begins ''table:'' k then (Some ts, KANBUDB_OK)
      else
        (let name_colon = dropWhile (\<lambda>c. c \<noteq> CHR '':'') (drop 6 k)
         in if name_colon = [] then (Some ts, KANBUDB_OK)
            else case map_option scan_head v of
              None \<Rightarrow> (None, KANBUDB_ERR_IO)
            | Some None \<Rightarrow> (Some ts, KANBUDB_OK)
            | Some (Some (n, pk, r)) \<Rightarrow>
                if length ts \<ge> KANBUDB_MAX_TABLES then (Some ts, KANBUDB_ERR_OOM)
                else if n < 0 then (Some ts, KANBUDB_ERR_OOM)
                else
                  (let cols = scan_cols (nat n) r
                   in (Some (ts @ [\<lparr>t_name = take 63 (tl name_colon), t_num_cols = n, t_col_types = map fst cols,
                          t_col_names = map snd cols, t_pk = pk, t_id = word_of_nat (length ts + 1)\<rparr>]), KANBUDB_OK))))"

definition schema_load_cb :: "kanbudb_table list option sst_cb" where
  "schema_load_cb key val flag ctx =
     (case ctx of
        None \<Rightarrow> (None, KANBUDB_ERR_IO)
      | Some ts \<Rightarrow>
          if flag AND KANBUDB_SSTABLE_FLAG_TOMBSTONE \<noteq> 0 then (Some ts, KANBUDB_OK)
          else (case cstr key of None \<Rightarrow> (None, KANBUDB_ERR_IO) | Some k \<Rightarrow> load_table k (cstr val) ts))"

definition load_schema :: "file_system \<Rightarrow> path \<Rightarrow> kanbudb_table list \<Rightarrow> kanbudb_table list option" where
  "load_schema fs db_path ts =
     (case open_table fs (snprintf 512 (db_path @ KANBUDB_SYSTEM_TABLE_SUFFIX)) of
        None \<Rightarrow> None
      | Some None \<Rightarrow> Some ts
      | Some (Some r) \<Rightarrow>
          (case sstable_reader_scan r schema_load_cb (Some ts) of None \<Rightarrow> None | Some (ts', rc) \<Rightarrow> ts'))"

end
