(* ===== verification/Schema_Correct.thy ===== *)
theory Schema_Correct
  imports Schema
begin

text \<open>
  The schema survives a restart: what \<^verbatim>\<open>db_save_schema\<close> writes, the load at the next open reads
  back, for every list of tables whose text fits the buffers of the source.
\<close>

section \<open>Text\<close>

abbreviation no_nul :: "string \<Rightarrow> bool" where
  "no_nul s \<equiv> \<forall>c\<in>set s. of_char c \<noteq> (0 :: nat)"

lemma byte_chr_byte [simp]: "byte_chr (chr_byte c) = c"
  by (simp add: byte_chr_def chr_byte_def)

lemma chr_byte_0: "chr_byte c = 0 \<longleftrightarrow> of_char c = (0 :: nat)"
proof -
  have "of_char c mod 256 = (of_char c :: nat)" by simp
  then show ?thesis by (auto simp: chr_byte_def word_unat_eq_iff)
qed

lemma cstr_cbytes: "no_nul s \<Longrightarrow> cstr (cbytes s) = Some s"
proof -
  assume "no_nul s"
  then have "\<forall>b\<in>set (map chr_byte s). b \<noteq> 0" by (auto simp: chr_byte_0)
  then have "takeWhile (\<lambda>b. b \<noteq> 0) (map chr_byte s @ [0]) = map chr_byte s"
    by (subst takeWhile_append2) auto
  then show ?thesis by (simp add: cstr_def cbytes_def comp_def)
qed

lemma scan_int_strtol: "scan_int (dec_nat n @ rest) = Some (int n, rest)" if "rest = [] \<or> \<not> is_digit (hd rest)"
proof -
  let ?s = "dec_nat n @ rest"
  obtain c s where cs: "dec_nat n = c # s" using dec_nat_nonempty [of n] by (cases "dec_nat n") auto
  have "c \<noteq> CHR ''-''" "c \<noteq> CHR ''+''" "\<not> is_space c" "is_digit c" using dec_nat_digits [of n] cs by simp_all
  then show ?thesis
    using strtol_dec [OF that, of n] cs by (auto simp: strtol_def scan_int_def Let_def split: if_splits)
qed

lemma scan_int_dec: "rest = [] \<or> \<not> is_digit (hd rest) \<Longrightarrow> scan_int (dec_int i @ rest) = Some (i, rest)"
proof (cases "i < 0")
  case True
  assume r: "rest = [] \<or> \<not> is_digit (hd rest)"
  let ?n = "nat (- i)"
  obtain c s where cs: "dec_nat ?n = c # s" using dec_nat_nonempty [of ?n] by (cases "dec_nat ?n") auto
  have c: "c \<noteq> CHR ''-''" "c \<noteq> CHR ''+''" "\<not> is_space c" using dec_nat_digits [of ?n] cs by simp_all
  have "\<not> is_space CHR ''-''" by (simp add: is_space_def)
  then show ?thesis
    using scan_int_strtol [OF r, of ?n] True cs c by (auto simp: scan_int_def dec_int_def Let_def split: if_splits)
next
  case False
  then show "rest = [] \<or> \<not> is_digit (hd rest) \<Longrightarrow> ?thesis" using scan_int_strtol [of rest "nat i"] by (simp add: dec_int_def)
qed

lemma dec_int_chars: "c \<in> set (dec_int i) \<Longrightarrow> is_digit c \<or> c = CHR ''-''"
  using dec_nat_digits by (auto simp: dec_int_def split: if_splits)

lemma no_nul_dec: "no_nul (dec_int i)"
  using dec_int_chars by (fastforce simp: is_digit_def)

lemma snprintf_fits: "length s < n \<Longrightarrow> snprintf n s = s"
  by (simp add: snprintf_def)

section \<open>Columns\<close>

definition col_ok :: "int \<times> string \<Rightarrow> bool" where
  "col_ok c \<longleftrightarrow> snd c \<noteq> [] \<and> length (snd c) \<le> 255 \<and> CHR ''|'' \<notin> set (snd c) \<and> no_nul (snd c)"

definition col_text :: "int \<times> string \<Rightarrow> string" where
  "col_text c = ''|'' @ dec_int (fst c) @ '':'' @ snd c"

lemma scan_col_text:
  assumes "col_ok c" and "rest = [] \<or> hd rest = CHR ''|''"
  shows "scan_col (col_text c @ rest) = Some (fst c, snd c, rest)"
proof -
  have "scan_int (dec_int (fst c) @ '':'' @ snd c @ rest) = Some (fst c, '':'' @ snd c @ rest)"
    by (rule scan_int_dec) (simp add: is_digit_def)
  moreover have "takeWhile (\<lambda>x. x \<noteq> CHR ''|'') (snd c @ rest) = snd c"
  proof -
    have "takeWhile (\<lambda>x. x \<noteq> CHR ''|'') (snd c @ rest) = snd c @ takeWhile (\<lambda>x. x \<noteq> CHR ''|'') rest"
      using assms(1) by (intro takeWhile_append2) (auto simp: col_ok_def)
    then show ?thesis using assms(2) by (cases rest) auto
  qed
  ultimately show ?thesis using assms(1) by (simp add: scan_col_def col_text_def begins_def col_ok_def Let_def)
qed

lemma scan_cols_text:
  "\<forall>c\<in>set cs. col_ok c \<Longrightarrow> scan_cols (length cs) (concat (map col_text cs)) = cs"
proof (induction cs)
  case (Cons c cs)
  have "concat (map col_text cs) = [] \<or> hd (concat (map col_text cs)) = CHR ''|''"
    by (cases cs) (auto simp: col_text_def)
  then show ?case using Cons scan_col_text [of c "concat (map col_text cs)"] by simp
qed simp

lemma save_cols_text:
  "pos + length (concat (map col_text cs)) \<le> 2047 \<Longrightarrow>
   save_cols pos val cs = Some (val @ concat (map col_text cs))"
proof (induction cs arbitrary: pos val)
  case (Cons c cs)
  obtain ty name where c: "c = (ty, name)" by (cases c)
  have "length (col_text c) \<le> 2048 - pos - 1" using Cons.prems by simp
  then show ?case using Cons.IH [of "pos + length (col_text c)" "val @ col_text c"] Cons.prems c
    by (simp add: col_text_def Let_def)
qed simp

section \<open>Tables\<close>

abbreviation cols_of :: "kanbudb_table \<Rightarrow> (int \<times> string) list" where
  "cols_of t \<equiv> zip (t_col_types t) (t_col_names t)"

definition table_text :: "kanbudb_table \<Rightarrow> string" where
  "table_text t = dec_int (t_num_cols t) @ ''|'' @ dec_int (t_pk t) @ concat (map col_text (cols_of t))"

text \<open>The tables whose text fits: names within the fields, no separator in a column name.\<close>

definition table_ok :: "kanbudb_table \<Rightarrow> bool" where
  "table_ok t \<longleftrightarrow> length (t_name t) \<le> 63 \<and> no_nul (t_name t) \<and> t_num_cols t = int (length (t_col_names t)) \<and>
     length (t_col_types t) = length (t_col_names t) \<and> (\<forall>c\<in>set (cols_of t). col_ok c) \<and> length (table_text t) \<le> 2047"

definition schema_ok :: "kanbudb_table list \<Rightarrow> bool" where
  "schema_ok ts \<longleftrightarrow> length ts \<le> 64 \<and> (\<forall>i<length ts. table_ok (ts ! i) \<and> t_id (ts ! i) = word_of_nat (i + 1))"

lemma save_value_ok:
  assumes "table_ok t"
  shows "save_value t = Some (table_text t)"
proof -
  let ?h = "dec_int (t_num_cols t) @ ''|'' @ dec_int (t_pk t)" and ?c = "concat (map col_text (cols_of t))"
  have tx: "table_text t = ?h @ ?c" by (simp add: table_text_def)
  have "length (?h @ ?c) \<le> 2047" using assms unfolding table_ok_def tx by blast
  then have "length ?h + length ?c \<le> 2047" by (simp only: length_append)
  moreover from this have "snprintf 2048 ?h = ?h" by (intro snprintf_fits) linarith
  ultimately show ?thesis
    unfolding save_value_def Let_def tx by (simp only: save_cols_text)
qed

lemma save_key_ok:
  assumes "table_ok t" and "i < 64"
  shows "save_key i t = ''table:'' @ dec_nat i @ '':'' @ t_name t"
proof -
  have "length (dec_nat i) \<le> 2" using assms(2) by (intro dec_nat_length) auto
  moreover have "length (t_name t) \<le> 63" using assms(1) by (simp add: table_ok_def)
  ultimately show ?thesis unfolding save_key_def by (intro snprintf_fits) simp
qed

lemma no_nul_text: "table_ok t \<Longrightarrow> no_nul (table_text t)"
  using no_nul_dec by (auto simp: table_text_def table_ok_def col_text_def col_ok_def)

lemma load_table_text:
  assumes "table_ok t" and "length ts < 64" and "t_id t = word_of_nat (length ts + 1)"
  shows "load_table (''table:'' @ dec_nat i @ '':'' @ t_name t) (Some (table_text t)) ts = (Some (ts @ [t]), KANBUDB_OK)"
proof -
  let ?cs = "cols_of t"
  have cs: "length ?cs = length (t_col_names t)" "map fst ?cs = t_col_types t" "map snd ?cs = t_col_names t"
    "\<forall>c\<in>set ?cs. col_ok c" "t_num_cols t = int (length (t_col_names t))"
    using assms(1) by (simp_all add: table_ok_def)
  let ?r = "concat (map col_text ?cs)"
  have r: "?r = [] \<or> \<not> is_digit (hd ?r)" by (cases ?cs) (auto simp: col_text_def is_digit_def)
  have "scan_int (table_text t) = Some (t_num_cols t, ''|'' @ dec_int (t_pk t) @ ?r)"
    unfolding table_text_def by (rule scan_int_dec) (simp add: is_digit_def)
  moreover have "scan_int (dec_int (t_pk t) @ ?r) = Some (t_pk t, ?r)" by (rule scan_int_dec [OF r])
  ultimately have hd: "scan_head (table_text t) = Some (t_num_cols t, t_pk t, ?r)"
    by (simp add: scan_head_def begins_def)
  have "dropWhile (\<lambda>c. c \<noteq> CHR '':'') (dec_nat i @ '':'' @ t_name t) = '':'' @ t_name t"
  proof -
    have "is_digit c \<Longrightarrow> c \<noteq> CHR '':''" for c by (auto simp: is_digit_def)
    then have "\<forall>c\<in>set (dec_nat i). c \<noteq> CHR '':''" using dec_nat_digits [of i] by blast
    then show ?thesis using dropWhile_append2 [of "dec_nat i" "\<lambda>c. c \<noteq> CHR '':''" "'':'' @ t_name t"] by simp
  qed
  moreover have "scan_cols (nat (t_num_cols t)) ?r = ?cs"
    using scan_cols_text [OF cs(4)] cs(1,5) by simp
  moreover have "\<lparr>t_name = take 63 (t_name t), t_num_cols = t_num_cols t, t_col_types = map fst ?cs,
      t_col_names = map snd ?cs, t_pk = t_pk t, t_id = word_of_nat (length ts + 1)\<rparr> = t"
  proof -
    have "take 63 (t_name t) = t_name t" using assms(1) by (simp add: table_ok_def)
    then show ?thesis unfolding cs(2,3) assms(3) [symmetric] by simp
  qed
  moreover have "\<not> t_num_cols t < 0" using cs(5) by simp
  moreover have "\<not> KANBUDB_MAX_TABLES \<le> length ts" using assms(2) by (simp add: KANBUDB_MAX_TABLES_def)
  ultimately show ?thesis
    unfolding load_table_def Let_def by (simp add: begins_def hd del: of_nat_add of_nat_Suc map_fst_zip map_snd_zip)
qed

lemma add_ignoring_one:
  assumes "written (hash_k env) seq es w" and "item_ok (k, v, KANBUDB_SSTABLE_FLAG_ALIVE)" and "works env"
  shows "\<exists>w'. add_ignoring env w k v = Some w' \<and> written (hash_k env) seq (es @ [(k, v, KANBUDB_SSTABLE_FLAG_ALIVE)]) w'"
proof -
  obtain w' where w': "sstable_writer_add (hash_k env) (fwrite_n env) w k (Some v) (length v) KANBUDB_SSTABLE_FLAG_ALIVE = Some (w', KANBUDB_OK)"
    using writer_add_succeeds [OF assms(1,2)] assms(3) by (auto simp: works_def)
  then show ?thesis using writer_add_written [OF assms(1) w'] by (simp add: add_ignoring_def)
qed

lemma cbytes_length [simp]: "length (cbytes s) = Suc (length s)"
  by (simp add: cbytes_def)

lemma table_item_ok:
  assumes "table_ok t" and "i < 64"
  shows "item_ok (cbytes (''table:'' @ dec_nat i @ '':'' @ t_name t), cbytes (table_text t), fl)"
proof -
  have "length (dec_nat i) \<le> 2" using assms(2) by (intro dec_nat_length) auto
  moreover have "length (t_name t) \<le> 63" "length (table_text t) \<le> 2047" using assms(1) by (simp_all add: table_ok_def)
  ultimately show ?thesis by (simp add: item_ok_def)
qed

definition table_items :: "nat \<Rightarrow> kanbudb_table list \<Rightarrow> sst_item list" where
  "table_items i ts =
     map (\<lambda>(i, t). (cbytes (''table:'' @ dec_nat i @ '':'' @ t_name t), cbytes (table_text t), KANBUDB_SSTABLE_FLAG_ALIVE))
       (enumerate i ts)"

lemma save_tables_written:
  assumes "written (hash_k env) seq es w" and "\<forall>t\<in>set ts. table_ok t" and "i + length ts \<le> 64" and "works env"
  shows "\<exists>w'. save_tables env w i ts = Some w' \<and> written (hash_k env) seq (es @ table_items i ts) w'"
  using assms(1-3)
proof (induction ts arbitrary: es w i)
  case Nil
  then show ?case by (simp add: table_items_def)
next
  case (Cons t ts)
  have t: "table_ok t" "i < 64" using Cons.prems by simp_all
  let ?it = "(cbytes (''table:'' @ dec_nat i @ '':'' @ t_name t), cbytes (table_text t), KANBUDB_SSTABLE_FLAG_ALIVE)"
  obtain w1 where w1: "add_ignoring env w (fst ?it) (fst (snd ?it)) = Some w1" "written (hash_k env) seq (es @ [?it]) w1"
    using add_ignoring_one [OF Cons.prems(1) table_item_ok [OF t] assms(4)] by auto
  obtain w' where "save_tables env w1 (Suc i) ts = Some w'" "written (hash_k env) seq ((es @ [?it]) @ table_items (Suc i) ts) w'"
    using Cons.IH [OF w1(2), of "Suc i"] Cons.prems by auto
  then show ?case
    using w1(1) save_value_ok [OF t(1)] save_key_ok [OF t] by (simp add: table_items_def)
qed

lemma load_items:
  "\<forall>j<length ts. table_ok (ts ! j) \<and> t_id (ts ! j) = word_of_nat (length acc + j + 1) \<Longrightarrow> length acc + length ts \<le> 64 \<Longrightarrow>
   run_items schema_load_cb (table_items i ts) (Some acc) = (Some (acc @ ts), KANBUDB_OK)"
proof (induction ts arbitrary: acc i)
  case Nil
  then show ?case by (simp add: table_items_def)
next
  case (Cons t ts)
  have t: "table_ok t" "t_id t = word_of_nat (length acc + 1)" using Cons.prems(1) [THEN spec, of 0] by simp_all
  have nn: "no_nul (''table:'' @ dec_nat i @ '':'' @ t_name t)"
  proof -
    have "is_digit c \<Longrightarrow> of_char c \<noteq> (0 :: nat)" for c by (simp add: is_digit_def)
    then have "no_nul (dec_nat i)" using dec_nat_digits [of i] by blast
    then show ?thesis using t(1) by (auto simp: table_ok_def)
  qed
  have rest: "\<forall>j<length ts. table_ok (ts ! j) \<and> t_id (ts ! j) = word_of_nat (length (acc @ [t]) + j + 1)"
    using Cons.prems(1) by (metis (no_types, lifting) Suc_less_eq add.assoc add_Suc_right add_Suc_shift length_append_singleton length_Cons nth_Cons_Suc)
  have "schema_load_cb (cbytes (''table:'' @ dec_nat i @ '':'' @ t_name t)) (cbytes (table_text t)) KANBUDB_SSTABLE_FLAG_ALIVE (Some acc) =
      (Some (acc @ [t]), KANBUDB_OK)"
    using load_table_text [OF t(1) _ t(2), of i] Cons.prems(2) cstr_cbytes [OF nn] cstr_cbytes [OF no_nul_text [OF t(1)]]
    by (simp add: schema_load_cb_def sst_consts)
  then show ?case
    using Cons.IH [OF rest, of "Suc i"] Cons.prems(2) by (simp add: table_items_def)
qed

text \<open>Saving and loading in a working environment.\<close>

lemma schema_saved:
  assumes "schema_ok ts" and "works env"
  shows "\<exists>fs'. db_save_schema env fs db ts = Some (fs', KANBUDB_OK) \<and> load_schema fs' db [] = Some ts"
proof -
  let ?c = "(cbytes ''tables_count'', cbytes (snprintf 16 (dec_nat (length ts))), KANBUDB_SSTABLE_FLAG_ALIVE)"
  let ?es = "?c # table_items 0 ts"
  let ?sys = "snprintf 512 (db @ KANBUDB_SYSTEM_TABLE_SUFFIX)" and ?tmp = "snprintf 512 (db @ KANBUDB_SYSTEM_TABLE_SUFFIX @ ''.tmp'')"
  have io: "\<forall>b. length b \<le> fwrite_n env b" and fo: "fopen_ok env = True" using assms(2) by (auto simp: works_def)
  have ts: "\<forall>t\<in>set ts. table_ok t" "length ts \<le> 64" using assms(1) by (auto simp: schema_ok_def in_set_conv_nth)
  obtain w0 where w0: "sstable_writer_create True (fwrite_n env) 0 = Some w0"
    using io [THEN spec, of "replicate sizeof_header 0"] by (auto simp: sstable_writer_create_def)
  have ok1: "item_ok (fst ?c, fst (snd ?c), KANBUDB_SSTABLE_FLAG_ALIVE)" by (simp add: item_ok_def snprintf_def)
  obtain w1 where w1: "add_ignoring env w0 (fst ?c) (fst (snd ?c)) = Some w1" "written (hash_k env) 0 [?c] w1"
    using add_ignoring_one [OF writer_create_written [OF w0] ok1 assms(2)] by auto
  obtain w2 where w2: "save_tables env w1 0 ts = Some w2" "written (hash_k env) 0 ?es w2"
    using save_tables_written [OF w1(2) ts(1) _ assms(2), of 0] ts(2) by auto
  obtain m where m: "sstable_writer_finish (clock env) True True (fwrite_n env) w2 = (m, KANBUDB_OK)"
    using finish_succeeds [OF io] by blast
  have "item_ok e" if "e \<in> set ?es" for e
    using that ok1 ts table_item_ok by (auto simp: table_items_def in_set_enumerate_eq)
  then have oks: "\<forall>e\<in>set ?es. item_ok e" by blast
  have n: "length ?es < 2 ^ 31" using ts(2) by (simp add: table_items_def)
  have "m = sst_image (clock env) 0 ?es (w_bloom w2)" using finish_image [OF w2(2) oks m] n by simp
  then have tf: "table_file m 0 ?es" using oks n written_bloom [OF w2(2)] by (auto simp: table_file_def)
  obtain r where r: "sstable_reader_open m = Some (Some r)"
    "\<forall>cb (ctx :: kanbudb_table list option). sstable_reader_scan r cb ctx = Some (run_items cb ?es ctx)"
    using table_file_open [OF tf] by blast
  let ?fs' = "fs_write (fs_unlink fs ?tmp) ?sys m"
  have "db_save_schema env fs db ts = Some (?fs', KANBUDB_OK)"
    using w0 w1(1) w2(1) m assms(2) fo by (simp add: db_save_schema_def finish_table_def works_def Let_def)
  moreover have "schema_load_cb (fst ?c) (fst (snd ?c)) KANBUDB_SSTABLE_FLAG_ALIVE (Some []) = (Some [], KANBUDB_OK)"
    using cstr_cbytes [of "''tables_count''"] by (simp add: schema_load_cb_def load_table_def sst_consts)
  then have "run_items schema_load_cb ?es (Some []) = (Some ts, KANBUDB_OK)"
    using load_items [of ts "[]" 0] assms(1) by (simp add: schema_ok_def)
  then have "load_schema ?fs' db [] = Some ts"
    using r by (simp add: load_schema_def open_table_def)
  ultimately show ?thesis by blast
qed

text \<open>
  C35. The schema survives a restart: in a working environment, saving any list of at most 64
  tables whose text fits (names of at most 63 bytes, non-empty column names of at most 255
  bytes without a bar, 2047 bytes in all) succeeds, and loading the system table back gives
  exactly the same tables, with types, primary keys and identifiers.
\<close>

theorem schema_save_load:
  assumes "schema_ok ts" and "works env"
  shows "\<exists>fs'. db_save_schema env fs db ts = Some (fs', KANBUDB_OK) \<and> load_schema fs' db [] = Some ts"
  by (rule schema_saved [OF assms])

definition demo_table :: kanbudb_table where
  "demo_table = \<lparr>t_name = ''users'', t_num_cols = 2, t_col_types = [1, 4], t_col_names = [''id'', ''name''], t_pk = 0, t_id = 1\<rparr>"

theorem schema_save_load_witness:
  "\<exists>fs'. db_save_schema demo_env [] ''db'' [demo_table] = Some (fs', KANBUDB_OK) \<and> load_schema fs' ''db'' [] = Some [demo_table]"
proof -
  have "table_text demo_table = ''2|0|1:id|4:name''" by code_simp
  then have "schema_ok [demo_table]" by (simp add: schema_ok_def table_ok_def col_ok_def demo_table_def)
  from schema_save_load [OF this demo_env_works] show ?thesis by blast
qed

end
