(* ===== verification/Db_Core.thy ===== *)
theory Db_Core
  imports Wal_Mmap Shared_Meta Schema Lsm_Correct Btree_Correct
begin

text \<open>
  The database object of \<^verbatim>\<open>src/src/core/db.c\<close>: it composes the log, the LSM front, the B-tree, the
  tables on disk, the schema and the shared log. Every operation runs in an environment
  (\<^verbatim>\<open>io_env\<close>) that decides the outcomes of the system calls, and returns \<open>None\<close> after an invalid
  memory access. Locks are taken for the whole of a step, so an operation is one step; the
  background thread is the step \<open>compact_round\<close>, the poll thread of a reader the step
  \<open>db_reader_refresh\<close>. While the log is open its bytes are in the log's own state; the files
  get them when it is closed.
\<close>

section \<open>State\<close>

record db_config =
  cfg_fsync_mode :: fsync_mode
  cfg_memtable_size :: u64
  cfg_multi_process :: bool

definition default_config :: db_config where
  "default_config = \<lparr>cfg_fsync_mode = KANBUDB_FSYNC_NONE, cfg_memtable_size = 65536, cfg_multi_process = False\<rparr>"

text \<open>The address of the shared log: null, \<^verbatim>\<open>(void*)-1\<close>, or a mapping.\<close>

datatype mmap_region = Map_Null | Map_Invalid | Mapped kanbudb_wal_mmap

record kanbudb_db =
  d_path :: path
  d_config :: db_config
  d_tables :: "kanbudb_table list"
  d_lsm :: "kanbudb_lsm option"
  d_btree :: kanbudb_btree
  d_wal :: "kanbudb_wal option"
  d_map :: mmap_region
  d_meta :: kanbudb_shared_meta
  d_last_error :: rc
  d_is_reader :: bool
  d_disk :: file_system

text \<open>\<^verbatim>\<open>internal->last_error = rc; return rc;\<close>\<close>

definition fail_with :: "kanbudb_db \<Rightarrow> rc \<Rightarrow> (kanbudb_db \<times> rc) option" where
  "fail_with db rc = Some (db\<lparr>d_last_error := rc\<rparr>, rc)"

section \<open>Callbacks\<close>

text \<open>\<^verbatim>\<open>flush_write_cb\<close>: the context is the writer and \<^verbatim>\<open>had_error\<close>.\<close>

definition flush_write_cb :: "io_env \<Rightarrow> (sstable_writer \<times> bool) option lsm_cb" where
  "flush_write_cb env e ctx =
     (case ctx of
        None \<Rightarrow> (None, KANBUDB_ERR_IO)
      | Some (w, had_error) \<Rightarrow>
          (let flag = (if le_deleted e then KANBUDB_SSTABLE_FLAG_TOMBSTONE else KANBUDB_SSTABLE_FLAG_ALIVE)
           in case sstable_writer_add (hash_k env) (fwrite_n env) w (le_key e) (Some (le_value e))
                     (length (le_value e)) flag of
                None \<Rightarrow> (None, KANBUDB_ERR_IO)
              | Some (w', rc) \<Rightarrow> (Some (w', if rc \<noteq> KANBUDB_OK then True else had_error), rc)))"

definition wal_replay_cb :: "io_env \<Rightarrow> kanbudb_lsm option wal_cb" where
  "wal_replay_cb env op table_id key val val_len ctx =
     (case ctx of
        None \<Rightarrow> (None, KANBUDB_ERR_IO)
      | Some lsm \<Rightarrow>
          (let lvl = random_level (coins env key)
           in case (if op = KANBUDB_WAL_PUT then lsm_put lvl lsm table_id key val else lsm_delete lvl lsm table_id key) of
                None \<Rightarrow> (None, KANBUDB_ERR_IO)
              | Some lsm' \<Rightarrow> (Some lsm', KANBUDB_OK)))"

definition sstable_load_cb :: "kanbudb_btree sst_cb" where
  "sstable_load_cb key val flag bt =
     (if flag AND KANBUDB_SSTABLE_FLAG_TOMBSTONE \<noteq> 0 then (fst (btree_delete bt key), KANBUDB_OK)
      else (btree_put bt key val, KANBUDB_OK))"

text \<open>\<^verbatim>\<open>sstable_reader_open\<close>, \<^verbatim>\<open>sstable_reader_scan\<close> into the B-tree, \<^verbatim>\<open>sstable_reader_close\<close>.\<close>

definition load_sstable :: "file_system \<Rightarrow> path \<Rightarrow> kanbudb_btree \<Rightarrow> kanbudb_btree option" where
  "load_sstable fs p bt =
     (case open_table fs p of
        None \<Rightarrow> None
      | Some None \<Rightarrow> Some bt
      | Some (Some r) \<Rightarrow> map_option fst (sstable_reader_scan r sstable_load_cb bt))"

fun load_sstables :: "file_system \<Rightarrow> path list \<Rightarrow> kanbudb_btree \<Rightarrow> kanbudb_btree option" where
  "load_sstables fs [] bt = Some bt"
| "load_sstables fs (p # ps) bt =
     (case load_sstable fs p bt of None \<Rightarrow> None | Some bt' \<Rightarrow> load_sstables fs ps bt')"

text \<open>Phase 2 of \<^verbatim>\<open>db_open\<close>: every table of every level, level 0 first.\<close>

definition load_levels :: "file_system \<Rightarrow> path \<Rightarrow> kanbudb_btree \<Rightarrow> kanbudb_btree option" where
  "load_levels fs db_path bt =
     load_sstables fs (concat (map file_paths (fst (scan_fs fs db_path)))) bt"

section \<open>Checkpoint and flush\<close>

text \<open>The loop of \<^verbatim>\<open>db_checkpoint\<close> over the cursor.\<close>

function ckpt_loop :: "io_env \<Rightarrow> sstable_writer \<Rightarrow> btree_cursor \<Rightarrow> (sstable_writer \<times> rc) option" where
  "ckpt_loop env w cur =
     (case btree_cursor_next cur of
        None \<Rightarrow> Some (w, KANBUDB_OK)
      | Some ((k, v), cur') \<Rightarrow>
          (case sstable_writer_add (hash_k env) (fwrite_n env) w k (Some v) (length v) KANBUDB_SSTABLE_FLAG_ALIVE of
             None \<Rightarrow> None
           | Some (w', rc) \<Rightarrow> if rc \<noteq> KANBUDB_OK then Some (w', rc) else ckpt_loop env w' cur'))"
  by pat_completeness auto
termination
  by (relation "measure (\<lambda>(env, w, cur). length (items cur) - pos cur)")
    (auto simp: btree_cursor_next_def split: if_splits)

declare ckpt_loop.simps [simp del]

definition db_checkpoint :: "io_env \<Rightarrow> kanbudb_db \<Rightarrow> kanbudb_lsm \<Rightarrow> (kanbudb_db \<times> rc) option" where
  "db_checkpoint env db lsm0 =
     (case lsm_next_seq lsm0 of (seq, lsm1) \<Rightarrow>
       let ckpt = d_path db @ ''.ckpt.'' @ dec_nat (unat seq);
           db1 = db\<lparr>d_lsm := Some lsm1\<rparr>
       in case sstable_writer_create (fopen_ok env) (fwrite_n env) seq of
            None \<Rightarrow> Some (db1, KANBUDB_ERR_OOM)
          | Some w \<Rightarrow>
              (case btree_cursor_create (d_btree db) of
                 None \<Rightarrow> None
               | Some cur \<Rightarrow>
                   (case ckpt_loop env w (btree_cursor_seek cur None) of
                      None \<Rightarrow> None
                    | Some (w', rc) \<Rightarrow>
                        if rc \<noteq> KANBUDB_OK then Some (db1\<lparr>d_disk := fs_unlink (d_disk db) (snprintf 512 (ckpt @ ''.tmp''))\<rparr>, rc)
                        else
                          (case finish_table env (d_disk db) (snprintf 512 (ckpt @ ''.tmp'')) (snprintf 512 ckpt) w' of
                             (fs', rc) \<Rightarrow> Some (db1\<lparr>d_disk := fs'\<rparr>, rc)))))"

text \<open>\<^verbatim>\<open>db_persistent_seq\<close>: a missing or short file counts as 0.\<close>

definition db_persistent_seq :: "io_env \<Rightarrow> file_system \<Rightarrow> path \<Rightarrow> file_system \<times> u64" where
  "db_persistent_seq env fs db_path =
     (let p = snprintf 512 (db_path @ ''.seq'');
          seq = (case fs_read fs p of Some b \<Rightarrow> if length b \<ge> 8 then get_u64 b else 0 | None \<Rightarrow> 0) + 1
      in (if fopen_ok env then fs_write fs p (take (fwrite_n env (put_u64 seq)) (put_u64 seq)) else fs, seq))"

text \<open>\<open>db_flush_memtable\<close> on the parts of the state it reads; the log and the LSM front exist.\<close>

definition db_flush_memtable ::
  "io_env \<Rightarrow> kanbudb_db \<Rightarrow> kanbudb_lsm \<Rightarrow> kanbudb_wal \<Rightarrow> (kanbudb_db \<times> rc) option" where
  "db_flush_memtable env db lsm0 wal0 =
     (let lsm1 = lsm_flush lsm0;
          (fs1, seq) = db_persistent_seq env (d_disk db) (d_path db);
          sst = d_path db @ ''.sst.0.'' @ dec_nat (unat seq);
          tmp_path = snprintf 512 (sst @ ''.tmp'');
          sst_path = snprintf 512 sst;
          dropped = (\<lambda>fs. db\<lparr>d_lsm := Some (lsm_destroy_flushing lsm1), d_disk := fs\<rparr>)
      in case sstable_writer_create (fopen_ok env) (fwrite_n env) seq of
           None \<Rightarrow> Some (dropped fs1, KANBUDB_ERR_OOM)
         | Some w \<Rightarrow>
             (case lsm_iterate_flushing lsm1 (flush_write_cb env) (Some (w, False)) of
                None \<Rightarrow> None
              | Some (None, rc) \<Rightarrow> None
              | Some (Some (w', had_error), rc) \<Rightarrow>
                  if rc \<noteq> KANBUDB_OK \<or> had_error then Some (dropped (fs_unlink fs1 tmp_path), KANBUDB_ERR_IO)
                  else
                    (case finish_table env fs1 tmp_path sst_path w' of (fs2, rc) \<Rightarrow>
                      if rc \<noteq> KANBUDB_OK then Some (dropped fs2, rc)
                      else
                        (case load_sstable fs2 sst_path (d_btree db) of
                           None \<Rightarrow> None
                         | Some bt \<Rightarrow>
                             Some ((dropped fs2)\<lparr>d_btree := bt,
                               d_wal := Some (fst (wal_truncate (fopen_ok env) (fopen_ok env) (fwrite_n env) (fwrite_n env) wal0))\<rparr>,
                               KANBUDB_OK)))))"

section \<open>Opening and closing\<close>

text \<open>
  The shared log of \<^verbatim>\<open>db_open\<close>: the mapping is shared, so its bytes are the bytes of the file.
  When mapping fails the file has already been extended.
\<close>

definition mmap_path :: "path \<Rightarrow> path" where
  "mmap_path db_path = snprintf 512 (db_path @ ''.wal.mmap'')"

definition map_wal :: "io_env \<Rightarrow> file_system \<Rightarrow> path \<Rightarrow> (mmap_region \<times> file_system) option" where
  "map_wal env fs db_path =
     (let p = mmap_path db_path; c = fs_read fs p; cap = 64 * 1024 * 1024
      in case wal_mmap_open (mmap_ok env) c True cap of
           None \<Rightarrow> None
         | Some None \<Rightarrow>
             Some (Map_Invalid, fs_write fs p (preallocate (case c of Some b \<Rightarrow> b | None \<Rightarrow> [])
               (unat (page_align (KANBUDB_WAL_MMAP_HEADER_SIZE + cap)))))
         | Some (Some wm) \<Rightarrow> Some (Mapped wm, fs_write fs p (wm_mem wm)))"

definition wal_path :: "path \<Rightarrow> path" where
  "wal_path db_path = snprintf 512 (db_path @ ''.wal'')"

text \<open>Phase 5 of \<^verbatim>\<open>db_open\<close>.\<close>

definition open_shared :: "io_env \<Rightarrow> kanbudb_db \<Rightarrow> kanbudb_db option" where
  "open_shared env db =
     (if \<not> cfg_multi_process (d_config db) then Some db
      else
        (case shared_meta_open env (d_disk db) (d_path db) of (fs1, m, ok) \<Rightarrow>
          case map_wal env fs1 (d_path db) of
            None \<Rightarrow> None
          | Some (reg, fs2) \<Rightarrow>
              Some (db\<lparr>d_meta := m, d_map := reg, d_disk := fs2,
                d_config := (if reg = Map_Invalid then (d_config db)\<lparr>cfg_multi_process := False\<rparr> else d_config db)\<rparr>)))"

definition no_meta :: kanbudb_shared_meta where
  "no_meta = \<lparr>sm_magic = 0, sm_flushed_seq = 0, sm_wal_version = 0, sm_reader_count = 0\<rparr>"

text \<open>
  \<^verbatim>\<open>db_open\<close> on the given files; the inner option is the handle. The background thread it starts
  is a step of its own.
\<close>

definition db_open ::
  "io_env \<Rightarrow> file_system \<Rightarrow> path \<Rightarrow> db_config option \<Rightarrow> (kanbudb_db option \<times> rc) option" where
  "db_open env fs path config =
     (let cfg = (case config of Some c \<Rightarrow> c | None \<Rightarrow> default_config);
          content = (case fs_read fs (wal_path path) of Some b \<Rightarrow> b | None \<Rightarrow> [])
      in case wal_create (fopen_ok env) (fwrite_n env) content (cfg_fsync_mode cfg) of
           None \<Rightarrow> Some (None, KANBUDB_ERR_IO)
         | Some wal0 \<Rightarrow>
             (case load_schema fs path [] of
                None \<Rightarrow> None
              | Some ts \<Rightarrow>
                  (case load_levels fs path btree_create of
                     None \<Rightarrow> None
                   | Some bt \<Rightarrow>
                       (case wal_replay (fwrite_n env) wal0 (wal_replay_cb env) (Some (lsm_create (cfg_memtable_size cfg))) of
                          (wal1, None, rc) \<Rightarrow> None
                        | (wal1, Some lsm1, rc) \<Rightarrow>
                            map_option (\<lambda>db. (Some db, KANBUDB_OK))
                              (open_shared env \<lparr>d_path = path, d_config = cfg, d_tables = ts, d_lsm = Some lsm1, d_btree = bt,
                                 d_wal = Some wal1, d_map = Map_Null, d_meta = no_meta, d_last_error = KANBUDB_OK,
                                 d_is_reader = False, d_disk = fs\<rparr>)))))"

text \<open>\<^verbatim>\<open>db_close\<close>: the files it leaves and the return code.\<close>

definition db_close :: "io_env \<Rightarrow> kanbudb_db \<Rightarrow> (file_system \<times> rc) option" where
  "db_close env db =
     (if d_is_reader db then
        (case shared_meta_reader_leave env (d_disk db) (d_path db) (d_meta db) of (fs, m, ok) \<Rightarrow> Some (fs, KANBUDB_OK))
      else case (d_lsm db, d_wal db) of
        (Some lsm0, Some wal0) \<Rightarrow>
          (case (if lsm_has_data lsm0 then db_flush_memtable env db lsm0 wal0 else Some (db, KANBUDB_OK)) of
             None \<Rightarrow> None
           | Some (db1, _) \<Rightarrow>
               (case (if d_tables db1 \<noteq> [] then db_save_schema env (d_disk db1) (d_path db1) (d_tables db1)
                      else Some (d_disk db1, KANBUDB_OK)) of
                  None \<Rightarrow> None
                | Some (fs, _) \<Rightarrow>
                    (case (d_lsm db1, d_wal db1) of
                       (Some lsm1, Some wal1) \<Rightarrow>
                         map_option (\<lambda>(db2, _). (fs_write (d_disk db2) (wal_path (d_path db2)) (wal_destroy (fwrite_n env) wal1), KANBUDB_OK))
                           (db_checkpoint env (db1\<lparr>d_disk := fs\<rparr>) lsm1)
                     | _ \<Rightarrow> None)))
      | _ \<Rightarrow> None)"

definition db_last_error :: "kanbudb_db \<Rightarrow> rc" where
  "db_last_error db = d_last_error db"

definition db_error_string :: "rc \<Rightarrow> string" where
  "db_error_string err =
     (case err of
        KANBUDB_OK \<Rightarrow> ''success''
      | KANBUDB_ERR_OOM \<Rightarrow> ''out of memory''
      | KANBUDB_ERR_NOTFOUND \<Rightarrow> ''not found''
      | KANBUDB_ERR_EXISTS \<Rightarrow> ''already exists''
      | KANBUDB_ERR_CORRUPT \<Rightarrow> ''corrupt data''
      | KANBUDB_ERR_IO \<Rightarrow> ''I/O error''
      | KANBUDB_ERR_INVAL \<Rightarrow> ''invalid argument''
      | KANBUDB_ERR_BUSY \<Rightarrow> ''busy'')"

section \<open>Tables and rows\<close>

text \<open>\<^verbatim>\<open>db_create_table\<close>; \<open>cols\<close> pairs the arrays of types and names. Saving the schema may fail unnoticed.\<close>

definition pk_index :: "string list \<Rightarrow> string option \<Rightarrow> int" where
  "pk_index names primary_key =
     (case primary_key of
        None \<Rightarrow> - 1
      | Some pk \<Rightarrow>
          (let i = length (takeWhile (\<lambda>n. n \<noteq> pk) names) in if i < length names then int i else - 1))"

definition db_create_table ::
  "io_env \<Rightarrow> kanbudb_db \<Rightarrow> string \<Rightarrow> (int \<times> string) list \<Rightarrow> string option \<Rightarrow> (kanbudb_db \<times> rc) option" where
  "db_create_table env db table_name cols primary_key =
     (if cols = [] then Some (db, KANBUDB_ERR_INVAL)
      else if find_table (d_tables db) table_name \<ge> 0 then fail_with db KANBUDB_ERR_EXISTS
      else if length (d_tables db) \<ge> KANBUDB_MAX_TABLES then fail_with db KANBUDB_ERR_OOM
      else
        (let t = \<lparr>t_name = take 63 table_name, t_num_cols = int (length cols), t_col_types = map fst cols,
                  t_col_names = map snd cols, t_pk = pk_index (map snd cols) primary_key,
                  t_id = word_of_nat (length (d_tables db) + 1)\<rparr>;
             ts = d_tables db @ [t]
         in map_option (\<lambda>(fs, _). (db\<lparr>d_tables := ts, d_disk := fs, d_last_error := KANBUDB_OK\<rparr>, KANBUDB_OK))
              (db_save_schema env (d_disk db) (d_path db) ts)))"

text \<open>
  The shared log in \<^verbatim>\<open>db_put\<close>: append, then switch files when more than 80 percent are used. The
  file \<^verbatim>\<open>.new\<close> a failed switch leaves behind is not tracked.
\<close>

definition mmap_full :: "kanbudb_wal_mmap \<Rightarrow> bool" where
  "mmap_full wm = (wm_data_cap wm > 0 \<and>
     wal_mmap_get_write_pos wm - KANBUDB_WAL_MMAP_HEADER_SIZE > wm_data_cap wm * 80 div 100)"

definition share_put :: "io_env \<Rightarrow> kanbudb_db \<Rightarrow> u64 \<Rightarrow> u64 \<Rightarrow> bytes \<Rightarrow> bytes \<Rightarrow> kanbudb_db option" where
  "share_put env db seq tbl_id key val =
     (if \<not> cfg_multi_process (d_config db) then Some db
      else case d_map db of
        Map_Null \<Rightarrow> Some db
      | Map_Invalid \<Rightarrow> None
      | Mapped wm \<Rightarrow>
          (let p = mmap_path (d_path db); nw = snprintf 512 (p @ ''.new'')
           in case wal_mmap_append wm seq KANBUDB_WAL_PUT tbl_id key (Some val) (length val) of
                None \<Rightarrow> None
              | Some (wm1, _) \<Rightarrow>
                  if \<not> mmap_full wm1 then Some (db\<lparr>d_map := Mapped wm1, d_disk := fs_write (d_disk db) p (wm_mem wm1)\<rparr>)
                  else
                    (case wal_mmap_switch_file (mmap_ok env) (rename_ok env) (fs_read (d_disk db) nw) wm1 of
                       None \<Rightarrow> None
                     | Some (None, _) \<Rightarrow> Some (db\<lparr>d_map := Map_Invalid, d_disk := fs_write (d_disk db) p (wm_mem wm1)\<rparr>)
                     | Some (Some wm2, _) \<Rightarrow>
                         Some (db\<lparr>d_map := Mapped wm2, d_disk := fs_write (fs_unlink (d_disk db) nw) p (wm_mem wm2)\<rparr>))))"

text \<open>The end of \<^verbatim>\<open>db_put\<close> and \<^verbatim>\<open>db_delete\<close>: flush a full memtable.\<close>

definition after_write :: "io_env \<Rightarrow> kanbudb_db \<Rightarrow> kanbudb_lsm \<Rightarrow> kanbudb_wal \<Rightarrow> (kanbudb_db \<times> rc) option" where
  "after_write env db lsm1 wal1 =
     (if lsm_is_full lsm1 then
        (case db_flush_memtable env (db\<lparr>d_lsm := Some lsm1\<rparr>) lsm1 wal1 of
           None \<Rightarrow> None
         | Some (db', frc) \<Rightarrow> fail_with db' frc)
      else fail_with (db\<lparr>d_lsm := Some lsm1\<rparr>) KANBUDB_OK)"

definition db_put :: "io_env \<Rightarrow> kanbudb_db \<Rightarrow> string \<Rightarrow> bytes \<Rightarrow> bytes \<Rightarrow> (kanbudb_db \<times> rc) option" where
  "db_put env db table key val =
     (let idx = find_table (d_tables db) table
      in if idx < 0 then fail_with db KANBUDB_ERR_NOTFOUND
         else
           (let tbl_id = t_id (d_tables db ! nat idx)
            in case d_wal db of
                 None \<Rightarrow> fail_with db KANBUDB_ERR_INVAL
               | Some wal0 \<Rightarrow>
                   (case wal_append (fwrite_n env) (fwrite_n env) wal0 KANBUDB_WAL_PUT tbl_id key (Some val) (length val) of
                      (wal1, rc) \<Rightarrow>
                        if rc \<noteq> KANBUDB_OK then fail_with (db\<lparr>d_wal := Some wal1\<rparr>) rc
                        else
                          (case share_put env (db\<lparr>d_wal := Some wal1\<rparr>) (wal_last_seq wal1) tbl_id key val of
                             None \<Rightarrow> None
                           | Some db1 \<Rightarrow>
                               (case d_lsm db1 of
                                  None \<Rightarrow> None
                                | Some lsm0 \<Rightarrow>
                                    (case lsm_put (random_level (coins env key)) lsm0 tbl_id key val of
                                       None \<Rightarrow> None
                                     | Some lsm1 \<Rightarrow> after_write env db1 lsm1 wal1))))))"

definition db_get :: "kanbudb_db \<Rightarrow> string \<Rightarrow> bytes \<Rightarrow> (kanbudb_db \<times> rc \<times> bytes option) option" where
  "db_get db table key =
     (let idx = find_table (d_tables db) table
      in if idx < 0 then Some (db\<lparr>d_last_error := KANBUDB_ERR_NOTFOUND\<rparr>, KANBUDB_ERR_NOTFOUND, None)
         else
           (let tbl_id = t_id (d_tables db ! nat idx);
                from_btree = (case btree_get (d_btree db) key of
                   Some v \<Rightarrow> Some (db\<lparr>d_last_error := KANBUDB_OK\<rparr>, KANBUDB_OK, Some v)
                 | None \<Rightarrow> Some (db\<lparr>d_last_error := KANBUDB_ERR_NOTFOUND\<rparr>, KANBUDB_ERR_NOTFOUND, None))
            in case d_lsm db of
                 None \<Rightarrow> from_btree
               | Some lsm0 \<Rightarrow>
                   (case lsm_get lsm0 tbl_id key of
                      None \<Rightarrow> None
                    | Some (lsm_rc, out) \<Rightarrow>
                        if lsm_rc = KANBUDB_OK then Some (db\<lparr>d_last_error := KANBUDB_OK\<rparr>, KANBUDB_OK, out)
                        else from_btree)))"

definition db_delete :: "io_env \<Rightarrow> kanbudb_db \<Rightarrow> string \<Rightarrow> bytes \<Rightarrow> (kanbudb_db \<times> rc) option" where
  "db_delete env db table key =
     (let idx = find_table (d_tables db) table
      in if idx < 0 then fail_with db KANBUDB_ERR_NOTFOUND
         else
           (let tbl_id = t_id (d_tables db ! nat idx)
            in case d_wal db of
                 None \<Rightarrow> fail_with db KANBUDB_ERR_INVAL
               | Some wal0 \<Rightarrow>
                   (case wal_append (fwrite_n env) (fwrite_n env) wal0 KANBUDB_WAL_DELETE tbl_id key None 0 of
                      (wal1, rc) \<Rightarrow>
                        if rc \<noteq> KANBUDB_OK then fail_with (db\<lparr>d_wal := Some wal1\<rparr>) rc
                        else
                          (case d_lsm db of
                             None \<Rightarrow> None
                           | Some lsm0 \<Rightarrow>
                               (case lsm_delete (random_level (coins env key)) lsm0 tbl_id key of
                                  None \<Rightarrow> None
                                | Some lsm1 \<Rightarrow> after_write env (db\<lparr>d_wal := Some wal1\<rparr>) lsm1 wal1)))))"

section \<open>The background thread and readers\<close>

text \<open>One round of \<^verbatim>\<open>compact_worker\<close>; the sort is a parameter, as in the compaction.\<close>

definition compact_round ::
  "io_env \<Rightarrow> ((merge_entry \<Rightarrow> merge_entry \<Rightarrow> int) \<Rightarrow> merge_entry list \<Rightarrow> merge_entry list) \<Rightarrow>
   kanbudb_db \<Rightarrow> kanbudb_lsm \<Rightarrow> kanbudb_db option" where
  "compact_round env qsort db lsm0 =
     (let levels = fst (scan_fs (d_disk db) (d_path db));
          src = compaction_pick_level levels KANBUDB_MAX_LEVELS
      in if src < 0 \<or> num_files (levels ! nat src) = 0 then Some db
         else
           (case lsm_next_seq lsm0 of (out_seq, lsm1) \<Rightarrow>
             let inputs = file_paths (levels ! nat src);
                 out_path = compaction_make_path (d_path db) (src + 1) out_seq 512;
                 db1 = db\<lparr>d_lsm := Some lsm1\<rparr>
             in case compaction_merge_to_level env qsort (d_disk db) inputs out_path out_seq of
                  None \<Rightarrow> None
                | Some (fs1, rc) \<Rightarrow>
                    if rc \<noteq> KANBUDB_OK then Some (db1\<lparr>d_disk := fs1\<rparr>)
                    else
                      (let fs2 = unlink_all fs1 inputs
                       in map_option (\<lambda>bt. db1\<lparr>d_disk := fs2, d_btree := bt\<rparr>) (load_sstable fs2 out_path (d_btree db)))))"

text \<open>The application of the entries read from the shared log.\<close>

definition apply_mmap_entry :: "kanbudb_btree \<Rightarrow> mmap_entry \<Rightarrow> kanbudb_btree" where
  "apply_mmap_entry bt e =
     (if me_op e = KANBUDB_WAL_PUT then btree_put bt (me_key e) (case me_value e of Some v \<Rightarrow> v | None \<Rightarrow> [])
      else fst (btree_delete bt (me_key e)))"

text \<open>
  \<^verbatim>\<open>db_reader_refresh\<close>: \<open>view\<close> is what the mapping shows now (the writer's bytes). The loop has fuel
  for one turn per 33 bytes of the mapping.
\<close>

definition db_reader_refresh :: "io_env \<Rightarrow> bytes \<Rightarrow> kanbudb_db \<Rightarrow> (kanbudb_db \<times> rc) option" where
  "db_reader_refresh env view db =
     (case (case d_map db of
              Mapped wm \<Rightarrow> Some (Mapped (wm\<lparr>wm_mem := view\<rparr>), d_disk db)
            | _ \<Rightarrow> map_wal env (d_disk db) (d_path db)) of
        None \<Rightarrow> None
      | Some (Mapped wm, fs) \<Rightarrow>
          (case (if d_tables db = [] then load_schema fs (d_path db) [] else Some (d_tables db)) of
             None \<Rightarrow> None
           | Some ts \<Rightarrow>
               (case read_entries (Suc (length (wm_mem wm))) wm of
                  None \<Rightarrow> None
                | Some (wm', es) \<Rightarrow>
                    Some (db\<lparr>d_map := Mapped wm', d_disk := fs, d_tables := ts,
                      d_btree := foldl apply_mmap_entry (d_btree db) es\<rparr>, KANBUDB_OK)))
      | Some (_, fs) \<Rightarrow> Some (db\<lparr>d_map := Map_Null, d_disk := fs\<rparr>, KANBUDB_ERR_IO))"

definition db_open_reader ::
  "io_env \<Rightarrow> file_system \<Rightarrow> path \<Rightarrow> db_config option \<Rightarrow> (kanbudb_db option \<times> rc) option" where
  "db_open_reader env fs path config =
     (let cfg = (case config of Some c \<Rightarrow> c | None \<Rightarrow> default_config)
      in case load_schema fs path [] of
           None \<Rightarrow> None
         | Some ts \<Rightarrow>
             (case load_levels fs path btree_create of
                None \<Rightarrow> None
              | Some bt \<Rightarrow>
                  (case shared_meta_reader_join env fs path no_meta of (fs1, m, _) \<Rightarrow>
                    case map_wal env fs1 path of
                      None \<Rightarrow> None
                    | Some (reg, fs2) \<Rightarrow>
                        map_option (\<lambda>(db, _). (Some db, KANBUDB_OK))
                          (db_reader_refresh env (case reg of Mapped wm \<Rightarrow> wm_mem wm | _ \<Rightarrow> [])
                             \<lparr>d_path = path, d_config = cfg, d_tables = ts, d_lsm = None, d_btree = bt, d_wal = None,
                              d_map = reg, d_meta = m, d_last_error = KANBUDB_OK, d_is_reader = True, d_disk = fs2\<rparr>))))"

end
