(* ===== verification/Db_Correct.thy ===== *)
theory Db_Correct
  imports Db_Core Schema_Correct
begin

text \<open>
  The database refines a map from keys to values. \<open>contents\<close> is the map a state stands for: the
  newest version in the LSM front, a tombstone meaning absent, and behind it the B-tree. The
  invariant \<open>db_inv\<close> ties the log to the LSM front (replaying the log gives exactly what is in
  memory), and every operation in a working environment keeps it and changes the map as its
  name says, whether or not it flushes.
\<close>

section \<open>The abstract state\<close>

definition overlay :: "(bytes \<times> bool) option \<Rightarrow> bytes option \<Rightarrow> bytes option" where
  "overlay newer older =
     (case newer of None \<Rightarrow> older | Some (v, deleted) \<Rightarrow> if deleted then None else Some v)"

definition contents :: "kanbudb_db \<Rightarrow> bytes \<Rightarrow> bytes option" where
  "contents db key =
     (case d_lsm db of
        None \<Rightarrow> btree_get (d_btree db) key
      | Some l \<Rightarrow> overlay (lsm_lookup l key) (btree_get (d_btree db) key))"

text \<open>What the records of a log make of the LSM front.\<close>

definition log_cell :: "wal_entry \<Rightarrow> bytes \<times> bool" where
  "log_cell e = (if e_op e = 0 then (e_value e, False) else ([], True))"

definition log_upd :: "(bytes \<Rightarrow> (bytes \<times> bool) option) \<Rightarrow> wal_entry \<Rightarrow> bytes \<Rightarrow> (bytes \<times> bool) option" where
  "log_upd m e = m(e_key e \<mapsto> log_cell e)"

definition log_map :: "wal_entry list \<Rightarrow> bytes \<Rightarrow> (bytes \<times> bool) option" where
  "log_map es = foldl log_upd Map.empty es"

lemma log_map_snoc: "log_map (es @ [e]) = (log_map es)(e_key e \<mapsto> log_cell e)"
  by (simp add: log_map_def log_upd_def)

lemma log_map_Nil [simp]: "log_map [] = Map.empty"
  by (simp add: log_map_def)

section \<open>The tables a flush writes\<close>

definition flush_item :: "lsm_entry \<Rightarrow> sst_item" where
  "flush_item e = (le_key e, le_value e,
     if le_deleted e then KANBUDB_SSTABLE_FLAG_TOMBSTONE else KANBUDB_SSTABLE_FLAG_ALIVE)"

definition memtable_items :: "kanbudb_memtable \<Rightarrow> sst_item list" where
  "memtable_items mt =
     (case memtable_iterate mt (\<lambda>e c. (c @ [flush_item e], KANBUDB_OK)) [] of Some (xs, _) \<Rightarrow> xs | None \<Rightarrow> [])"

lemma run_entries_collect: "run_entries (\<lambda>e c. (c @ [flush_item e], KANBUDB_OK)) es c = (c @ map flush_item es, KANBUDB_OK)"
  by (induction es arbitrary: c) auto

lemma run_entries_flush:
  "writer_add_all (hash_k env) (fwrite_n env) w (map flush_item es) = Some (w', KANBUDB_OK) \<Longrightarrow>
   run_entries (flush_write_cb env) es (Some (w, False)) = (Some (w', False), KANBUDB_OK)"
proof (induction es arbitrary: w)
  case (Cons e es)
  obtain k v fl where e: "flush_item e = (k, v, fl)" by (cases "flush_item e")
  obtain w1 where w1: "sstable_writer_add (hash_k env) (fwrite_n env) w k (Some v) (length v) fl = Some (w1, KANBUDB_OK)"
    "writer_add_all (hash_k env) (fwrite_n env) w1 (map flush_item es) = Some (w', KANBUDB_OK)"
    using Cons.prems e by (auto split: option.splits prod.splits if_splits)
  have "flush_write_cb env e (Some (w, False)) = (Some (w1, False), KANBUDB_OK)"
    using w1(1) e by (auto simp: flush_write_cb_def flush_item_def)
  then show ?case using Cons.IH [OF w1(2)] by simp
qed simp

text \<open>What a memtable hands over, and the version of every key in it.\<close>

lemma memtable_itemsE:
  assumes "mt_inv mt"
  obtains es where "memtable_items mt = map flush_item es" and "ssorted (keys_of (memtable_items mt))"
    and "\<And>(cb :: 'c lsm_cb) ctx. memtable_iterate mt cb ctx = Some (run_entries cb es ctx)"
    and "\<And>k. map_of (memtable_items mt) k =
      map_option (\<lambda>(s, v, d). (v, if d then KANBUDB_SSTABLE_FLAG_TOMBSTONE else KANBUDB_SSTABLE_FLAG_ALIVE)) (memtable_lookup mt k)"
proof -
  obtain es where es: "ssorted (map le_key es)"
    "\<And>k s v d. memtable_lookup mt k = Some (s, v, d) \<longleftrightarrow> \<lparr>le_seq = s, le_key = k, le_value = v, le_deleted = d\<rparr> \<in> set es"
    "\<And>(cb :: 'c lsm_cb) ctx. memtable_iterate mt cb ctx = Some (run_entries cb es ctx)"
    by (rule memtable_iterate_ok [OF assms]) blast
  obtain es' where es': "ssorted (map le_key es')"
    "\<And>k s v d. memtable_lookup mt k = Some (s, v, d) \<longleftrightarrow> \<lparr>le_seq = s, le_key = k, le_value = v, le_deleted = d\<rparr> \<in> set es'"
    "\<And>(cb :: sst_item list lsm_cb) ctx. memtable_iterate mt cb ctx = Some (run_entries cb es' ctx)"
    by (rule memtable_iterate_ok [OF assms]) blast
  have "e \<in> set es \<longleftrightarrow> e \<in> set es'" for e using es(2) es'(2) by (cases e) metis
  then have "set es = set es'" by blast
  moreover have "inj_on le_key (set es)" using es(1) by (simp add: strict_sorted_iff distinct_map)
  ultimately have same: "es' = es"
    using es(1) es'(1) by (intro map_sorted_distinct_set_unique [of le_key]) (auto simp: strict_sorted_iff)
  have it: "memtable_items mt = map flush_item es"
    by (simp add: memtable_items_def es'(3) run_entries_collect same)
  have keys: "keys_of (memtable_items mt) = map le_key es" by (simp add: it flush_item_def comp_def)
  have dist: "distinct (map fst (map flush_item es))" using es(1) by (simp add: strict_sorted_iff flush_item_def comp_def)
  have "map_of (memtable_items mt) k =
      map_option (\<lambda>(s, v, d). (v, if d then KANBUDB_SSTABLE_FLAG_TOMBSTONE else KANBUDB_SSTABLE_FLAG_ALIVE)) (memtable_lookup mt k)" for k
  proof (cases "memtable_lookup mt k")
    case None
    then have "k \<notin> le_key ` set es" using es(2) by (auto, metis lsm_entry.cases lsm_entry.select_convs(2) option.distinct(1))
    then show ?thesis using None keys by (simp add: map_of_eq_None_iff) (metis image_set)
  next
    case (Some c)
    obtain s v d where c: "c = (s, v, d)" by (cases c)
    with Some es(2) have "flush_item \<lparr>le_seq = s, le_key = k, le_value = v, le_deleted = d\<rparr> \<in> set (map flush_item es)" by auto
    then have "map_of (map flush_item es) k = Some (v, if d then KANBUDB_SSTABLE_FLAG_TOMBSTONE else KANBUDB_SSTABLE_FLAG_ALIVE)"
      using dist by (simp add: flush_item_def)
    then show ?thesis using Some c by (simp add: it)
  qed
  note ver = this
  have "ssorted (keys_of (memtable_items mt))" unfolding keys by (rule es(1))
  from that [OF it this es(3) ver] show thesis .
qed

section \<open>Loading a table into the B-tree\<close>

text \<open>Whether loading meets a put that the B-tree loses (\<open>btree_tie\<close>).\<close>

fun load_ties :: "kanbudb_btree \<Rightarrow> sst_item list \<Rightarrow> bool" where
  "load_ties bt [] = False"
| "load_ties bt ((k, v, fl) # es) =
     (fl AND KANBUDB_SSTABLE_FLAG_TOMBSTONE = 0 \<and> btree_tie bt k \<or> load_ties (fst (sstable_load_cb k v fl bt)) es)"

definition cell_of_item :: "bytes \<times> byte \<Rightarrow> bytes \<times> bool" where
  "cell_of_item p = (fst p, snd p AND KANBUDB_SSTABLE_FLAG_TOMBSTONE \<noteq> 0)"

lemma load_one:
  assumes "btree_inv bt" and "fl AND KANBUDB_SSTABLE_FLAG_TOMBSTONE = 0 \<longrightarrow> \<not> btree_tie bt k"
  shows "btree_inv (fst (sstable_load_cb k v fl bt)) \<and> snd (sstable_load_cb k v fl bt) = KANBUDB_OK \<and>
    btree_get (fst (sstable_load_cb k v fl bt)) = (\<lambda>x. overlay ([k \<mapsto> cell_of_item (v, fl)] x) (btree_get bt x))"
proof (cases "fl AND KANBUDB_SSTABLE_FLAG_TOMBSTONE = 0")
  case True
  then show ?thesis
    using assms bt.put_get [of bt k v] bt.put_inv [of bt k v]
    by (auto simp: sstable_load_cb_def fun_eq_iff overlay_def cell_of_item_def)
next
  case False
  obtain bt' rc where d: "btree_delete bt k = (bt', rc)" by (cases "btree_delete bt k")
  note dc = btree_delete_correct [OF assms(1) d]
  then have "btree_get bt' = (btree_get bt)(k := None)"
    using map_of_del_list [OF btree_sorted [OF assms(1)], of k] assms(1) by (simp add: fun_eq_iff btree_get_correct)
  then show ?thesis using False d dc by (auto simp: sstable_load_cb_def fun_eq_iff overlay_def cell_of_item_def)
qed

lemma load_items_ok:
  assumes "btree_inv bt" and "\<not> load_ties bt es" and "distinct (keys_of es)"
  obtains bt' where "run_items sstable_load_cb es bt = (bt', KANBUDB_OK)" and "btree_inv bt'"
    and "btree_get bt' = (\<lambda>k. overlay (map_option cell_of_item (map_of es k)) (btree_get bt k))"
  using assms
proof (induction es arbitrary: bt thesis)
  case Nil
  then show ?case by (simp add: overlay_def)
next
  case (Cons e es)
  obtain k v fl where e: "e = (k, v, fl)" by (cases e)
  let ?b = "fst (sstable_load_cb k v fl bt)"
  have one: "btree_inv ?b" "snd (sstable_load_cb k v fl bt) = KANBUDB_OK"
    "btree_get ?b = (\<lambda>x. overlay ([k \<mapsto> cell_of_item (v, fl)] x) (btree_get bt x))"
    using load_one [of bt fl k v] Cons.prems(2,3) e by auto
  obtain bt' where b: "run_items sstable_load_cb es ?b = (bt', KANBUDB_OK)" "btree_inv bt'"
    "btree_get bt' = (\<lambda>k. overlay (map_option cell_of_item (map_of es k)) (btree_get ?b k))"
    using Cons.IH [of ?b] one(1) Cons.prems(3,4) e by auto
  have "map_of es k = None" using Cons.prems(4) e by (simp add: map_of_eq_None_iff)
  then have "btree_get bt' = (\<lambda>x. overlay (map_option cell_of_item (map_of (e # es) x)) (btree_get bt x))"
    by (auto simp: b(3) one(3) e overlay_def fun_eq_iff split: option.splits)
  moreover have "run_items sstable_load_cb (e # es) bt = (bt', KANBUDB_OK)"
    using b(1) one(2) e by (auto split: prod.splits)
  ultimately show ?case using Cons.prems(1) b(2) by blast
qed

section \<open>Flushing\<close>

text \<open>When a flush of the memtable into the B-tree cannot lose anything.\<close>

definition flush_fits :: "kanbudb_btree \<Rightarrow> kanbudb_memtable \<Rightarrow> bool" where
  "flush_fits bt mt \<longleftrightarrow> \<not> load_ties bt (memtable_items mt) \<and> length (memtable_items mt) < 2 ^ 31"

definition wal_synced :: "kanbudb_wal \<Rightarrow> bool" where
  "wal_synced w \<longleftrightarrow> buf w = [] \<and> (\<exists>f. wfile w = Some f \<and> pending f = [])"

lemma truncate_log:
  assumes "accepts io"
  shows "wal_log (fst (wal_truncate True True io io wal)) [] \<and>
    fsync_mode (fst (wal_truncate True True io io wal)) = fsync_mode wal \<and>
    wal_synced (fst (wal_truncate True True io io wal))"
proof -
  have io: "length bs \<le> io bs" for bs using assms by (simp add: accepts_def)
  have "fsync_mode (fst (wal_flush_buf io wal)) = fsync_mode wal"
    by (auto simp: wal_flush_buf_def Let_def split: option.splits prod.splits)
  then show ?thesis
    using io [of "put_u64 KANBUDB_WAL_MAGIC"] io [of "put_u32 KANBUDB_WAL_VERSION"] io [of "put_u64 (wseq (fst (wal_flush_buf io wal)))"]
    by (auto simp: wal_truncate_def Let_def fwrite_def fflush_def wal_log_def wal_header_def wal_header_size_def wal_synced_def)
qed

lemma tombstone_flag: "(if d then KANBUDB_SSTABLE_FLAG_TOMBSTONE else KANBUDB_SSTABLE_FLAG_ALIVE) AND KANBUDB_SSTABLE_FLAG_TOMBSTONE \<noteq> 0 \<longleftrightarrow> d"
  by (simp add: sst_consts)

lemma db_flush_ok:
  assumes lsm: "lsm_inv l" "flushing l = None" and bt: "btree_inv (d_btree db)" and env: "works env"
    and fits: "flush_fits (d_btree db) (active l)"
    and small: "\<And>k v d. lsm_lookup l k = Some (v, d) \<Longrightarrow> length k \<le> 1048576 \<and> length v \<le> 1048576"
  obtains db' l' w' where "db_flush_memtable env db l w = Some (db', KANBUDB_OK)"
    and "d_lsm db' = Some l'" and "l' = lsm_create (memtable_cap l)\<lparr>sst_seq := sst_seq l\<rparr>"
    and "d_wal db' = Some w'" and "wal_log w' []" and "fsync_mode w' = fsync_mode w" and "wal_synced w'" and "btree_inv (d_btree db')"
    and "btree_get (d_btree db') = (\<lambda>k. overlay (lsm_lookup l k) (btree_get (d_btree db) k))"
    and "d_is_reader db' = d_is_reader db" and "d_config db' = d_config db" and "d_tables db' = d_tables db" and "d_path db' = d_path db"
proof -
  let ?its = "memtable_items (active l)"
  obtain fs1 seq where ps: "db_persistent_seq env (d_disk db) (d_path db) = (fs1, seq)"
    by (cases "db_persistent_seq env (d_disk db) (d_path db)")
  define sst where "sst = d_path db @ ''.sst.0.'' @ dec_nat (unat seq)"
  have mt: "mt_inv (active l)" using lsm(1) by (simp add: lsm_inv_def)
  obtain es where es: "?its = map flush_item es" "ssorted (keys_of ?its)"
    "\<And>(cb :: (sstable_writer \<times> bool) option lsm_cb) ctx. memtable_iterate (active l) cb ctx = Some (run_entries cb es ctx)"
    "\<And>k. map_of ?its k = map_option (\<lambda>(s, v, d). (v, if d then KANBUDB_SSTABLE_FLAG_TOMBSTONE else KANBUDB_SSTABLE_FLAG_ALIVE)) (memtable_lookup (active l) k)"
    by (rule memtable_itemsE [OF mt]) blast
  have dk: "distinct (keys_of ?its)" using es(2) strict_sorted_iff by blast
  have cells: "map_option cell_of_item (map_of ?its k) = lsm_lookup l k" for k
    using lsm(2) tombstone_flag by (auto simp: es(4) lsm_lookup_def cell_of_item_def split: option.splits)
  have "item_ok (k, v, fl)" if "(k, v, fl) \<in> set ?its" for k v fl
    using map_of_is_SomeI [OF dk that] cells [of k, symmetric] small [of k] by (simp add: item_ok_def cell_of_item_def)
  then have fit: "\<not> load_ties (d_btree db) ?its" "length ?its < 2 ^ 31" "\<forall>e\<in>set ?its. item_ok e"
    using fits by (auto simp: flush_fits_def)
  obtain w0 wr m where w0: "sstable_writer_create (fopen_ok env) (fwrite_n env) seq = Some w0"
    and wr: "writer_add_all (hash_k env) (fwrite_n env) w0 ?its = Some (wr, KANBUDB_OK)"
    and m: "table_file m seq ?its"
    and fin: "finish_table env fs1 (snprintf 512 (sst @ ''.tmp'')) (snprintf 512 sst) wr =
      (fs_write (fs_unlink fs1 (snprintf 512 (sst @ ''.tmp''))) (snprintf 512 sst) m, KANBUDB_OK)"
    by (rule write_table [OF env fit(3,2), of seq fs1 "snprintf 512 (sst @ ''.tmp'')" "snprintf 512 sst"]) blast
  define fs2 where "fs2 = fs_write (fs_unlink fs1 (snprintf 512 (sst @ ''.tmp''))) (snprintf 512 sst) m"
  have it: "lsm_iterate_flushing (lsm_flush l) (flush_write_cb env) (Some (w0, False)) = Some (Some (wr, False), KANBUDB_OK)"
    using run_entries_flush [OF wr [unfolded es(1)]] es(3) by (simp add: lsm_iterate_flushing_def lsm_flush_def)
  obtain bt' where b: "run_items sstable_load_cb ?its (d_btree db) = (bt', KANBUDB_OK)" "btree_inv bt'"
    "btree_get bt' = (\<lambda>k. overlay (map_option cell_of_item (map_of ?its k)) (btree_get (d_btree db) k))"
    by (rule load_items_ok [OF bt fit(1) dk]) blast
  have ld: "load_sstable fs2 (snprintf 512 sst) (d_btree db) = Some bt'"
    using table_file_open [OF m, where 'c = kanbudb_btree] b(1) by (auto simp: load_sstable_def open_table_def fs2_def)
  define w' where "w' = fst (wal_truncate True True (fwrite_n env) (fwrite_n env) w)"
  have fo: "fopen_ok env" and acc: "accepts (fwrite_n env)" using env by (auto simp: works_def accepts_def)
  let ?db = "db\<lparr>d_lsm := Some (lsm_destroy_flushing (lsm_flush l)), d_disk := fs2, d_btree := bt', d_wal := Some w'\<rparr>"
  have run: "db_flush_memtable env db l w = Some (?db, KANBUDB_OK)"
    using ps w0 it fin ld fo by (simp add: db_flush_memtable_def Let_def sst_def fs2_def w'_def)
  from b(3) have "btree_get bt' = (\<lambda>k. overlay (lsm_lookup l k) (btree_get (d_btree db) k))" by (simp add: cells)
  moreover have "lsm_destroy_flushing (lsm_flush l) = lsm_create (memtable_cap l)\<lparr>sst_seq := sst_seq l\<rparr>"
    by (simp add: lsm_destroy_flushing_def lsm_flush_def lsm_create_def)
  ultimately show thesis
    using truncate_log [OF acc, of w] b(2) by (intro that [where l' = "lsm_destroy_flushing (lsm_flush l)" and w' = w', OF run]) (simp_all add: w'_def)
qed

section \<open>The invariant\<close>

definition db_inv :: "kanbudb_db \<Rightarrow> wal_entry list \<Rightarrow> bool" where
  "db_inv db es \<longleftrightarrow>
     \<not> d_is_reader db \<and> \<not> cfg_multi_process (d_config db) \<and> btree_inv (d_btree db) \<and>
     (\<exists>l w. d_lsm db = Some l \<and> d_wal db = Some w \<and> lsm_inv l \<and> flushing l = None \<and> \<not> lsm_is_full l \<and>
        memtable_cap l > 0 \<and> lsm_lookup l = log_map es \<and> wal_log w es \<and>
        (fsync_mode w = KANBUDB_FSYNC_ALWAYS \<longrightarrow> wal_synced w))"

lemma db_invE:
  assumes "db_inv db es"
  obtains l w where "d_lsm db = Some l" "d_wal db = Some w" "lsm_inv l" "flushing l = None" "\<not> lsm_is_full l"
    "memtable_cap l > 0" "lsm_lookup l = log_map es" "wal_log w es" "fsync_mode w = KANBUDB_FSYNC_ALWAYS \<longrightarrow> wal_synced w"
    "btree_inv (d_btree db)" "\<not> d_is_reader db" "\<not> cfg_multi_process (d_config db)"
  using assms by (auto simp: db_inv_def)

lemma db_inv_cong:
  "db_inv db es \<Longrightarrow> d_is_reader db' = d_is_reader db \<Longrightarrow> d_config db' = d_config db \<Longrightarrow> d_btree db' = d_btree db \<Longrightarrow>
   d_lsm db' = d_lsm db \<Longrightarrow> d_wal db' = d_wal db \<Longrightarrow> db_inv db' es \<and> contents db' = contents db"
  by (rule conjI, simp add: db_inv_def, rule ext, simp add: contents_def cong: option.case_cong)

lemma lsm_sst_seq [simp]:
  "lsm_lookup (l\<lparr>sst_seq := n\<rparr>) = lsm_lookup l" "lsm_inv (l\<lparr>sst_seq := n\<rparr>) = lsm_inv l"
  "lsm_is_full (l\<lparr>sst_seq := n\<rparr>) = lsm_is_full l"
  by (simp_all add: lsm_lookup_def lsm_inv_def lsm_is_full_def fun_eq_iff cong: option.case_cong)

lemma lsm_create_fields [simp]: "flushing (lsm_create sz) = None" "memtable_cap (lsm_create sz) = sz"
  by (simp_all add: lsm_create_def)

lemma fresh_not_full: "sz > 0 \<Longrightarrow> \<not> lsm_is_full (lsm_create sz)"
  by (simp add: lsm_is_full_def memtable_is_full_def lsm_create_def memtable_create_def word_less_nat_alt word_le_nat_alt)

text \<open>Every version the log holds fits a table.\<close>

lemma log_map_small:
  assumes "\<forall>e\<in>set es. entry_ok e" and "log_map es k = Some (v, d)"
  shows "length k \<le> 1048576 \<and> length v \<le> 1048576"
  using assms
proof (induction es rule: rev_induct)
  case (snoc e es)
  show ?case
  proof (cases "k = e_key e")
    case True
    then have "log_cell e = (v, d)" using snoc.prems(2) by (simp add: log_map_snoc)
    then show ?thesis
      using snoc.prems(1) True u64_le_max_unat [of "e_val_len e"] by (auto simp: log_cell_def entry_ok_def split: if_splits)
  next
    case False
    then show ?thesis using snoc by (simp add: log_map_snoc)
  qed
qed simp

text \<open>The common end of a put and a delete.\<close>

lemma after_write_ok:
  assumes l: "lsm_inv l" "flushing l = None" "memtable_cap l > 0" "lsm_lookup l = log_map es"
    and w: "d_wal db = Some w" "wal_log w es" "fsync_mode w = KANBUDB_FSYNC_ALWAYS \<longrightarrow> wal_synced w"
    and db: "btree_inv (d_btree db)" "\<not> d_is_reader db" "\<not> cfg_multi_process (d_config db)"
    and env: "works env" and fits: "lsm_is_full l \<longrightarrow> flush_fits (d_btree db) (active l)"
  obtains db' es' where "after_write env db l w = Some (db', KANBUDB_OK)" and "db_inv db' es'"
    and "contents db' = (\<lambda>k. overlay (lsm_lookup l k) (btree_get (d_btree db) k))"
    and "d_tables db' = d_tables db" and "d_path db' = d_path db" and "d_config db' = d_config db"
    and "d_last_error db' = KANBUDB_OK"
proof (cases "lsm_is_full l")
  case False
  let ?db = "db\<lparr>d_lsm := Some l, d_last_error := KANBUDB_OK\<rparr>"
  have "after_write env db l w = Some (?db, KANBUDB_OK)" using False by (simp add: after_write_def fail_with_def)
  moreover have "db_inv ?db es" using l w db False by (simp add: db_inv_def)
  ultimately show thesis using that by (auto simp: contents_def fun_eq_iff)
next
  case True
  let ?db = "db\<lparr>d_lsm := Some l\<rparr>"
  have small: "length k \<le> 1048576 \<and> length v \<le> 1048576" if "lsm_lookup l k = Some (v, d)" for k v d
    using log_map_small [of es k v d] that w(2) l(4) by (simp add: wal_log_def)
  have b: "btree_inv (d_btree ?db)" and f: "flush_fits (d_btree ?db) (active l)" using db(1) fits True by simp_all
  obtain db' l' w' where fl: "db_flush_memtable env ?db l w = Some (db', KANBUDB_OK)"
    "d_lsm db' = Some l'" "l' = lsm_create (memtable_cap l)\<lparr>sst_seq := sst_seq l\<rparr>" "d_wal db' = Some w'" "wal_log w' []"
    "wal_synced w'" "btree_inv (d_btree db')"
    "btree_get (d_btree db') = (\<lambda>k. overlay (lsm_lookup l k) (btree_get (d_btree ?db) k))"
    "d_is_reader db' = d_is_reader ?db" "d_config db' = d_config ?db" "d_tables db' = d_tables ?db" "d_path db' = d_path ?db"
    by (rule db_flush_ok [OF l(1,2) b env f small]) blast+
  let ?db' = "db'\<lparr>d_last_error := KANBUDB_OK\<rparr>"
  have lk: "lsm_lookup l' = Map.empty" "lsm_inv l'" "flushing l' = None" "\<not> lsm_is_full l'" "memtable_cap l' > 0"
    using lsm_create_ok [of "memtable_cap l"] fresh_not_full [OF l(3)] l(3) fl(3)
    by simp_all
  have "after_write env db l w = Some (?db', KANBUDB_OK)" using True fl(1) by (simp add: after_write_def fail_with_def)
  moreover have "db_inv ?db' []" using fl lk db by (simp add: db_inv_def)
  moreover have "contents ?db' = (\<lambda>k. overlay (lsm_lookup l k) (btree_get (d_btree db) k))"
    using fl(2,8) lk(1) by (simp add: contents_def fun_eq_iff overlay_def)
  ultimately show thesis using that [of ?db' "[]"] fl by simp
qed

section \<open>The operations\<close>

lemma append_null_value: "wal_append io1 io2 w KANBUDB_WAL_DELETE t k None 0 = wal_append io1 io2 w KANBUDB_WAL_DELETE t k (Some []) 0"
proof -
  have "wal_serialize cap s KANBUDB_WAL_DELETE t k None 0 = wal_serialize cap s KANBUDB_WAL_DELETE t k (Some []) 0" for cap s
    by (simp add: wal_serialize_def)
  then show ?thesis by (simp add: wal_append_def)
qed

lemma flush_keeps_synced:
  "wal_flush_buf io w = (w', KANBUDB_OK) \<Longrightarrow> fsync_mode w' = fsync_mode w \<and>
   (fsync_mode w = KANBUDB_FSYNC_ALWAYS \<longrightarrow> wal_synced w \<longrightarrow> wal_synced w')"
  by (auto simp: wal_flush_buf_def wal_synced_def Let_def split: if_splits option.splits prod.splits)

text \<open>An append in a working environment: the record is in the log, or it is too large and nothing changes.\<close>

lemma append_cases:
  assumes "accepts io" and "wal_log w es" and "fsync_mode w = KANBUDB_FSYNC_ALWAYS \<longrightarrow> wal_synced w"
    and del: "op = KANBUDB_WAL_DELETE \<longrightarrow> v = []"
    and app: "wal_append io io w op t k (Some v) (length v) = (w', rc)"
  shows "(fsync_mode w' = KANBUDB_FSYNC_ALWAYS \<longrightarrow> wal_synced w') \<and>
    (if 33 + length k + (if op = KANBUDB_WAL_DELETE then 0 else length v) \<le> 65536
     then rc = KANBUDB_OK \<and> wal_log w' (es @ [new_entry (wseq w + 1) op t k v])
     else rc = KANBUDB_ERR_IO \<and> wal_log w' es)"
proof (cases "33 + length k + (if op = KANBUDB_WAL_DELETE then 0 else length v) \<le> 65536")
  case True
  then have rc: "rc = KANBUDB_OK" using append_accepts [OF assms(1,2), of op t k v] app by (simp add: KANBUDB_WAL_BUF_SIZE_def)
  have len: "length v \<le> 1048576" using True del by (auto split: if_splits)
  show ?thesis
    using append_ok [OF assms(2) len app [unfolded rc]] append_always_flushed [OF app [unfolded rc] assms(2) len] True rc
    by (auto simp: wal_synced_def)
next
  case False
  let ?w = "w\<lparr>wseq := wseq w + 1\<rparr>"
  have log: "wal_log ?w es" using assms(2) by (simp add: wal_log_def)
  obtain w2 where w2: "wal_flush_buf (io) ?w = (w2, KANBUDB_OK)" "wal_log w2 es"
    using flush_acceptsE [OF assms(1) log] by metis
  have "wal_serialize (KANBUDB_WAL_BUF_SIZE - n) seq op t k (Some v) (length v) = None" for n seq
    using False by (auto simp: wal_serialize_def Let_def KANBUDB_WAL_BUF_SIZE_def)
  then have "w' = w2 \<and> rc = KANBUDB_ERR_IO" using app w2(1) by (simp add: wal_append_def Let_def)
  moreover have "fsync_mode w2 = KANBUDB_FSYNC_ALWAYS \<longrightarrow> wal_synced w2"
    using flush_keeps_synced [OF w2(1)] assms(3) by (simp add: wal_synced_def)
  ultimately show ?thesis using False w2(2) by auto
qed

lemma lsm_put_step:
  assumes "lsm_inv l" and "flushing l = None" and "\<not> lsm_is_full l" and "lvl < MAX_LEVEL"
  obtains l' where "lsm_put lvl l t k v = Some l'" "lsm_inv l'" "flushing l' = None" "memtable_cap l' = memtable_cap l"
    "lsm_lookup l' = (lsm_lookup l)(k \<mapsto> (v, False))"
proof -
  have nd: "\<not> drops_flushing l" using assms(2) by (simp add: drops_flushing_def)
  obtain l' where l': "lsm_put lvl l t k v = Some l'" "lsm_inv l'" "lsm_lookup l' = (lsm_lookup l)(k \<mapsto> (v, False))"
    using lsm_put_ok [OF assms(1) nd assms(4)] by blast
  moreover have "flushing l' = None" "memtable_cap l' = memtable_cap l"
    using l'(1) assms(2,3) by (auto simp: lsm_put_def lsm_is_full_def)
  ultimately show thesis using that by blast
qed

lemma lsm_delete_step:
  assumes "lsm_inv l" and "flushing l = None" and "\<not> lsm_is_full l" and "lvl < MAX_LEVEL"
  obtains l' where "lsm_delete lvl l t k = Some l'" "lsm_inv l'" "flushing l' = None" "memtable_cap l' = memtable_cap l"
    "lsm_lookup l' = (lsm_lookup l)(k \<mapsto> ([], True))"
proof -
  have nd: "\<not> drops_flushing l" using assms(2) by (simp add: drops_flushing_def)
  obtain l' where l': "lsm_delete lvl l t k = Some l'" "lsm_inv l'" "lsm_lookup l' = (lsm_lookup l)(k \<mapsto> ([], True))"
    using lsm_delete_ok [OF assms(1) nd assms(4)] by blast
  moreover have "flushing l' = None" "memtable_cap l' = memtable_cap l"
    using l'(1) assms(2,3) by (auto simp: lsm_delete_def lsm_is_full_def)
  ultimately show thesis using that by blast
qed

text \<open>That the flush a write triggers, if it triggers one, fits.\<close>

definition put_fits :: "io_env \<Rightarrow> kanbudb_db \<Rightarrow> bytes \<Rightarrow> bytes \<Rightarrow> bool" where
  "put_fits env db k v =
     (case d_lsm db of
        None \<Rightarrow> True
      | Some l \<Rightarrow>
          (case lsm_put (random_level (coins env k)) l 0 k v of
             None \<Rightarrow> True
           | Some l' \<Rightarrow> lsm_is_full l' \<longrightarrow> flush_fits (d_btree db) (active l')))"

definition delete_fits :: "io_env \<Rightarrow> kanbudb_db \<Rightarrow> bytes \<Rightarrow> bool" where
  "delete_fits env db k =
     (case d_lsm db of
        None \<Rightarrow> True
      | Some l \<Rightarrow>
          (case lsm_delete (random_level (coins env k)) l 0 k of
             None \<Rightarrow> True
           | Some l' \<Rightarrow> lsm_is_full l' \<longrightarrow> flush_fits (d_btree db) (active l')))"

lemma ignores_table: "lsm_put lvl l t k v = lsm_put lvl l 0 k v" "lsm_delete lvl l t k = lsm_delete lvl l 0 k"
  by (simp_all add: lsm_put_def lsm_delete_def)

lemma share_put_single: "\<not> cfg_multi_process (d_config db) \<Longrightarrow> share_put env db seq t k v = Some db"
  by (simp add: share_put_def)

lemma db_put_ok:
  assumes inv: "db_inv db es" and env: "works env" and tab: "find_table (d_tables db) table \<ge> 0"
    and len: "33 + length k + length v \<le> 65536" and fits: "put_fits env db k v"
  obtains db' es' where "db_put env db table k v = Some (db', KANBUDB_OK)" and "db_inv db' es'"
    and "contents db' = (contents db)(k \<mapsto> v)" and "d_tables db' = d_tables db" and "d_path db' = d_path db"
    and "d_config db' = d_config db" and "d_last_error db' = KANBUDB_OK"
proof -
  let ?t = "t_id (d_tables db ! nat (find_table (d_tables db) table))"
  obtain l w where s: "d_lsm db = Some l" "d_wal db = Some w" "lsm_inv l" "flushing l = None" "\<not> lsm_is_full l"
    "memtable_cap l > 0" "lsm_lookup l = log_map es" "wal_log w es" "fsync_mode w = KANBUDB_FSYNC_ALWAYS \<longrightarrow> wal_synced w"
    "btree_inv (d_btree db)" "\<not> d_is_reader db" "\<not> cfg_multi_process (d_config db)"
    using db_invE [OF inv] .
  have acc: "accepts (fwrite_n env)" using env by (simp add: works_def accepts_def)
  obtain w1 rc where a: "wal_append (fwrite_n env) (fwrite_n env) w KANBUDB_WAL_PUT ?t k (Some v) (length v) = (w1, rc)"
    by fastforce
  let ?es = "es @ [new_entry (wseq w + 1) KANBUDB_WAL_PUT ?t k v]"
  have w1: "rc = KANBUDB_OK" "wal_log w1 ?es" "fsync_mode w1 = KANBUDB_FSYNC_ALWAYS \<longrightarrow> wal_synced w1"
    using append_cases [OF acc s(8,9) _ a] len by simp_all
  obtain l1 where l1: "lsm_put (random_level (coins env k)) l ?t k v = Some l1" "lsm_inv l1" "flushing l1 = None"
    "memtable_cap l1 = memtable_cap l" "lsm_lookup l1 = (lsm_lookup l)(k \<mapsto> (v, False))"
    using lsm_put_step [OF s(3-5) random_level_bound] .
  have lk: "lsm_lookup l1 = log_map ?es" using l1(5) s(7) by (simp add: log_map_snoc log_cell_def new_entry_def)
  let ?db = "db\<lparr>d_wal := Some w1\<rparr>"
  have "lsm_is_full l1 \<longrightarrow> flush_fits (d_btree ?db) (active l1)"
    using fits s(1) l1(1) ignores_table(1) [of _ l ?t] by (simp add: put_fits_def)
  then obtain db' es' where r: "after_write env ?db l1 w1 = Some (db', KANBUDB_OK)" "db_inv db' es'"
    "contents db' = (\<lambda>k. overlay (lsm_lookup l1 k) (btree_get (d_btree ?db) k))"
    "d_tables db' = d_tables ?db" "d_path db' = d_path ?db" "d_config db' = d_config ?db" "d_last_error db' = KANBUDB_OK"
    using after_write_ok [of l1 ?es ?db w1 env] l1 lk s w1 env by auto
  have "db_put env db table k v = Some (db', KANBUDB_OK)"
    using tab s a w1(1) l1(1) r(1) by (simp add: db_put_def Let_def share_put_single)
  moreover have "contents db' = (contents db)(k \<mapsto> v)"
    using r(3) s(1) l1(5) by (auto simp: contents_def overlay_def fun_eq_iff)
  ultimately show thesis using that r by simp
qed

lemma db_delete_ok:
  assumes inv: "db_inv db es" and env: "works env" and tab: "find_table (d_tables db) table \<ge> 0"
    and len: "33 + length k \<le> 65536" and fits: "delete_fits env db k"
  obtains db' es' where "db_delete env db table k = Some (db', KANBUDB_OK)" and "db_inv db' es'"
    and "contents db' = (contents db)(k := None)" and "d_tables db' = d_tables db" and "d_path db' = d_path db"
    and "d_config db' = d_config db" and "d_last_error db' = KANBUDB_OK"
proof -
  let ?t = "t_id (d_tables db ! nat (find_table (d_tables db) table))"
  obtain l w where s: "d_lsm db = Some l" "d_wal db = Some w" "lsm_inv l" "flushing l = None" "\<not> lsm_is_full l"
    "memtable_cap l > 0" "lsm_lookup l = log_map es" "wal_log w es" "fsync_mode w = KANBUDB_FSYNC_ALWAYS \<longrightarrow> wal_synced w"
    "btree_inv (d_btree db)" "\<not> d_is_reader db" "\<not> cfg_multi_process (d_config db)"
    using db_invE [OF inv] .
  have acc: "accepts (fwrite_n env)" using env by (simp add: works_def accepts_def)
  obtain w1 rc where a: "wal_append (fwrite_n env) (fwrite_n env) w KANBUDB_WAL_DELETE ?t k None 0 = (w1, rc)"
    by fastforce
  let ?es = "es @ [new_entry (wseq w + 1) KANBUDB_WAL_DELETE ?t k []]"
  have w1: "rc = KANBUDB_OK" "wal_log w1 ?es" "fsync_mode w1 = KANBUDB_FSYNC_ALWAYS \<longrightarrow> wal_synced w1"
    using append_cases [OF acc s(8,9), of KANBUDB_WAL_DELETE "[]" ?t k] a len by (simp_all add: append_null_value)
  obtain l1 where l1: "lsm_delete (random_level (coins env k)) l ?t k = Some l1" "lsm_inv l1" "flushing l1 = None"
    "memtable_cap l1 = memtable_cap l" "lsm_lookup l1 = (lsm_lookup l)(k \<mapsto> ([], True))"
    using lsm_delete_step [OF s(3-5) random_level_bound] .
  have lk: "lsm_lookup l1 = log_map ?es" using l1(5) s(7) by (simp add: log_map_snoc log_cell_def new_entry_def)
  let ?db = "db\<lparr>d_wal := Some w1\<rparr>"
  have "lsm_is_full l1 \<longrightarrow> flush_fits (d_btree ?db) (active l1)"
    using fits s(1) l1(1) ignores_table(2) [of _ l ?t] by (simp add: delete_fits_def)
  then obtain db' es' where r: "after_write env ?db l1 w1 = Some (db', KANBUDB_OK)" "db_inv db' es'"
    "contents db' = (\<lambda>k. overlay (lsm_lookup l1 k) (btree_get (d_btree ?db) k))"
    "d_tables db' = d_tables ?db" "d_path db' = d_path ?db" "d_config db' = d_config ?db" "d_last_error db' = KANBUDB_OK"
    using after_write_ok [of l1 ?es ?db w1 env] l1 lk s w1 env by auto
  have "db_delete env db table k = Some (db', KANBUDB_OK)"
    using tab s a w1(1) l1(1) r(1) by (simp add: db_delete_def Let_def)
  moreover have "contents db' = (contents db)(k := None)"
    using r(3) s(1) l1(5) by (auto simp: contents_def overlay_def fun_eq_iff)
  ultimately show thesis using that r by simp
qed

lemma fail_keeps:
  "db_inv db es \<Longrightarrow> fail_with (db\<lparr>d_wal := Some w\<rparr>) rc = Some (db', rc') \<Longrightarrow> wal_log w es \<Longrightarrow>
   fsync_mode w = KANBUDB_FSYNC_ALWAYS \<longrightarrow> wal_synced w \<Longrightarrow>
   rc' = rc \<and> db_inv db' es \<and> contents db' = contents db \<and> d_last_error db' = rc \<and> d_tables db' = d_tables db"
  by (auto simp: fail_with_def db_inv_def contents_def fun_eq_iff cong: option.case_cong)

text \<open>A record that does not fit the log's buffer is refused and changes nothing.\<close>

lemma refused_ok:
  assumes inv: "db_inv db es" and env: "works env" and tab: "find_table (d_tables db) table \<ge> 0"
    and len: "65536 < 33 + length k + length v"
  shows "\<exists>db'. db_put env db table k v = Some (db', KANBUDB_ERR_IO) \<and> db_inv db' es \<and> contents db' = contents db \<and>
    d_last_error db' = KANBUDB_ERR_IO \<and> d_tables db' = d_tables db"
    and "65536 < 33 + length k \<Longrightarrow> \<exists>db'. db_delete env db table k = Some (db', KANBUDB_ERR_IO) \<and> db_inv db' es \<and>
      contents db' = contents db \<and> d_last_error db' = KANBUDB_ERR_IO \<and> d_tables db' = d_tables db"
proof -
  let ?t = "t_id (d_tables db ! nat (find_table (d_tables db) table))"
  obtain l w where s: "d_wal db = Some w" "wal_log w es" "fsync_mode w = KANBUDB_FSYNC_ALWAYS \<longrightarrow> wal_synced w"
    using db_invE [OF inv] by metis
  have acc: "accepts (fwrite_n env)" using env by (simp add: works_def accepts_def)
  obtain w1 rc where a: "wal_append (fwrite_n env) (fwrite_n env) w KANBUDB_WAL_PUT ?t k (Some v) (length v) = (w1, rc)" by fastforce
  have w1: "rc = KANBUDB_ERR_IO" "wal_log w1 es" "fsync_mode w1 = KANBUDB_FSYNC_ALWAYS \<longrightarrow> wal_synced w1"
    using append_cases [OF acc s(2,3) _ a] len by (simp_all split: if_splits)
  then have "db_put env db table k v = fail_with (db\<lparr>d_wal := Some w1\<rparr>) KANBUDB_ERR_IO"
    using tab s(1) a by (simp add: db_put_def Let_def)
  then show "\<exists>db'. db_put env db table k v = Some (db', KANBUDB_ERR_IO) \<and> db_inv db' es \<and> contents db' = contents db \<and>
    d_last_error db' = KANBUDB_ERR_IO \<and> d_tables db' = d_tables db"
    using fail_keeps [OF inv _ w1(2,3)] by (auto simp: fail_with_def)
  assume len': "65536 < 33 + length k"
  obtain w2 rc2 where a2: "wal_append (fwrite_n env) (fwrite_n env) w KANBUDB_WAL_DELETE ?t k None 0 = (w2, rc2)" by fastforce
  have w2: "rc2 = KANBUDB_ERR_IO" "wal_log w2 es" "fsync_mode w2 = KANBUDB_FSYNC_ALWAYS \<longrightarrow> wal_synced w2"
    using append_cases [OF acc s(2,3), of KANBUDB_WAL_DELETE "[]" ?t k] a2 len' by (simp_all add: append_null_value split: if_splits)
  then have "db_delete env db table k = fail_with (db\<lparr>d_wal := Some w2\<rparr>) KANBUDB_ERR_IO"
    using tab s(1) a2 by (simp add: db_delete_def Let_def)
  then show "\<exists>db'. db_delete env db table k = Some (db', KANBUDB_ERR_IO) \<and> db_inv db' es \<and>
      contents db' = contents db \<and> d_last_error db' = KANBUDB_ERR_IO \<and> d_tables db' = d_tables db"
    using fail_keeps [OF inv _ w2(2,3)] by (auto simp: fail_with_def)
qed

definition write_rc :: "kanbudb_db \<Rightarrow> string \<Rightarrow> nat \<Rightarrow> rc" where
  "write_rc db table n =
     (if find_table (d_tables db) table < 0 then KANBUDB_ERR_NOTFOUND
      else if 33 + n \<le> 65536 then KANBUDB_OK else KANBUDB_ERR_IO)"

lemma unknown_table:
  assumes "db_inv db es" and "find_table (d_tables db) table < 0"
  shows "db_inv (db\<lparr>d_last_error := KANBUDB_ERR_NOTFOUND\<rparr>) es" "contents (db\<lparr>d_last_error := KANBUDB_ERR_NOTFOUND\<rparr>) = contents db"
    "db_put env db table k v = Some (db\<lparr>d_last_error := KANBUDB_ERR_NOTFOUND\<rparr>, KANBUDB_ERR_NOTFOUND)"
    "db_delete env db table k = Some (db\<lparr>d_last_error := KANBUDB_ERR_NOTFOUND\<rparr>, KANBUDB_ERR_NOTFOUND)"
  using db_inv_cong [OF assms(1), of "db\<lparr>d_last_error := KANBUDB_ERR_NOTFOUND\<rparr>"] assms(2)
  by (simp_all add: db_put_def db_delete_def fail_with_def)

lemma put_simulates:
  assumes "db_inv db es" and "works env" and "put_fits env db k v"
  shows "\<exists>db' es'. db_put env db table k v = Some (db', write_rc db table (length k + length v)) \<and> db_inv db' es' \<and>
    contents db' = (if write_rc db table (length k + length v) = KANBUDB_OK then (contents db)(k \<mapsto> v) else contents db) \<and>
    d_last_error db' = write_rc db table (length k + length v) \<and> d_tables db' = d_tables db"
proof (cases "find_table (d_tables db) table < 0")
  case True
  then show ?thesis using unknown_table [OF assms(1) True] by (simp add: write_rc_def) blast
next
  case tab: False
  show ?thesis
  proof (cases "33 + length k + length v \<le> 65536")
    case True
    then show ?thesis
      using db_put_ok [OF assms(1,2) _ True assms(3), of table] tab by (simp add: write_rc_def) (metis add.assoc)
  next
    case False
    then show ?thesis
      using refused_ok(1) [OF assms(1,2), of table k v] tab by (simp add: write_rc_def add.assoc) blast
  qed
qed

lemma delete_simulates:
  assumes "db_inv db es" and "works env" and "delete_fits env db k"
  shows "\<exists>db' es'. db_delete env db table k = Some (db', write_rc db table (length k)) \<and> db_inv db' es' \<and>
    contents db' = (if write_rc db table (length k) = KANBUDB_OK then (contents db)(k := None) else contents db) \<and>
    d_last_error db' = write_rc db table (length k) \<and> d_tables db' = d_tables db"
proof (cases "find_table (d_tables db) table < 0")
  case True
  then show ?thesis using unknown_table [OF assms(1) True] by (simp add: write_rc_def) blast
next
  case tab: False
  show ?thesis
  proof (cases "33 + length k \<le> 65536")
    case True
    then show ?thesis
      using db_delete_ok [OF assms(1,2) _ True assms(3), of table] tab by (simp add: write_rc_def) metis
  next
    case False
    then show ?thesis
      using refused_ok(2) [OF assms(1,2), of table k "[]"] tab by (simp add: write_rc_def) blast
  qed
qed

section \<open>Reading\<close>

definition hidden :: "kanbudb_db \<Rightarrow> bytes \<Rightarrow> bool" where
  "hidden db key \<longleftrightarrow> (\<exists>l v. d_lsm db = Some l \<and> lsm_lookup l key = Some (v, True)) \<and> btree_get (d_btree db) key \<noteq> None"

lemma get_answers:
  assumes "db_inv db es" and "find_table (d_tables db) table \<ge> 0"
  shows "db_get db table key =
    (let out = (if hidden db key then btree_get (d_btree db) key else contents db key);
         rc = (if out = None then KANBUDB_ERR_NOTFOUND else KANBUDB_OK)
     in Some (db\<lparr>d_last_error := rc\<rparr>, rc, out))"
proof -
  obtain l where l: "d_lsm db = Some l" "lsm_inv l" using db_invE [OF assms(1)] by metis
  show ?thesis
    using assms(2) l lsm_get_lookup [OF l(2), of _ key]
    by (auto simp: db_get_def contents_def overlay_def hidden_def Let_def split: option.splits bool.splits)
qed

lemma get_keeps: "db_inv db es \<Longrightarrow> db_get db table key = Some (db', rc, out) \<Longrightarrow> db_inv db' es \<and> contents db' = contents db"
  by (rule db_inv_cong)
    (auto simp: db_get_def Let_def split: option.splits prod.splits if_splits)

lemma create_table_keeps:
  "db_inv db es \<Longrightarrow> db_create_table env db n cols pk = Some (db', rc) \<Longrightarrow> db_inv db' es \<and> contents db' = contents db"
  by (rule db_inv_cong)
    (auto simp: db_create_table_def fail_with_def Let_def split: prod.splits if_splits)

section \<open>Opening\<close>

text \<open>Whether replaying a log throws away a memtable that was moved aside.\<close>

fun replay_drops :: "io_env \<Rightarrow> kanbudb_lsm \<Rightarrow> wal_entry list \<Rightarrow> bool" where
  "replay_drops env l [] = False"
| "replay_drops env l (e # es) =
     (drops_flushing l \<or>
      (case fst (call_cb (wal_replay_cb env) e (Some l)) of None \<Rightarrow> False | Some l' \<Rightarrow> replay_drops env l' es))"

lemma replay_run:
  assumes "lsm_inv l" and "\<not> replay_drops env l es"
  obtains s l' where "run_cb (wal_replay_cb env) es seq (Some l) = (s, Some l', KANBUDB_OK)" and "lsm_inv l'"
    and "lsm_lookup l' = foldl log_upd (lsm_lookup l) es"
  using assms
proof (induction es arbitrary: l seq thesis)
  case (Cons e es)
  let ?lvl = "random_level (coins env (e_key e))"
  have nd: "\<not> drops_flushing l" using Cons.prems(3) by simp
  obtain l1 where l1: "call_cb (wal_replay_cb env) e (Some l) = (Some l1, KANBUDB_OK)" "lsm_inv l1"
    "lsm_lookup l1 = log_upd (lsm_lookup l) e"
    using lsm_put_ok [OF Cons.prems(2) nd random_level_bound [of "coins env (e_key e)"], of "e_table e" "e_key e" "e_value e"]
      lsm_delete_ok [OF Cons.prems(2) nd random_level_bound [of "coins env (e_key e)"], of "e_table e" "e_key e"]
    by (cases "e_op e = 0") (auto simp: call_cb_def wal_replay_cb_def log_upd_def log_cell_def Let_def)
  have "\<not> replay_drops env l1 es" using Cons.prems(3) l1(1) by simp
  from Cons.IH [OF _ l1(2) this, of "e_seq e"] obtain s l' where
    "run_cb (wal_replay_cb env) es (e_seq e) (Some l1) = (s, Some l', KANBUDB_OK)" "lsm_inv l'"
    "lsm_lookup l' = foldl log_upd (lsm_lookup l1) es" by blast
  then show ?case using Cons.prems(1) l1 by simp
qed simp

lemma replay_synced:
  assumes "wal_replay io w cb ctx = (w', r)" and "accepts io" and "wal_log w es"
  shows "wal_synced w' \<and> fsync_mode w' = fsync_mode w"
proof -
  obtain w1 where w1: "wal_flush_buf io w = (w1, KANBUDB_OK)" "buf w1 = []"
    using flush_acceptsE [OF assms(2,3)] by metis
  have "wfile w \<noteq> None" using assms(3) by (auto simp: wal_log_def)
  then show ?thesis
    using assms(1) w1 flush_keeps_synced [OF w1(1)]
    by (auto simp: wal_replay_def wal_synced_def fflush_def Let_def split: prod.splits)
qed

lemma open_log:
  assumes "works env" and "(case fs_read fs (wal_path p) of Some b \<Rightarrow> b | None \<Rightarrow> []) = c"
    and "c = [] \<and> es = [] \<or> c = wal_header h @ log_bytes es" and "\<forall>e\<in>set es. entry_ok e"
    and "load_schema fs p [] = Some ts" and "load_levels fs p btree_create = Some bt"
    and "\<not> cfg_multi_process cfg" and "\<not> replay_drops env (lsm_create (cfg_memtable_size cfg)) es"
  obtains db l w where "db_open env fs p (Some cfg) = Some (Some db, KANBUDB_OK)" and "d_lsm db = Some l" and "d_wal db = Some w"
    and "wal_log w es" and "fsync_mode w = cfg_fsync_mode cfg" and "lsm_inv l" and "lsm_lookup l = log_map es"
    and "d_btree db = bt" and "d_tables db = ts" and "d_config db = cfg" and "\<not> d_is_reader db" and "d_path db = p"
    and "es = [] \<Longrightarrow> l = lsm_create (cfg_memtable_size cfg)" and "wal_synced w"
proof -
  have acc: "accepts (fwrite_n env)" and fo: "fopen_ok env = True" using assms(1) by (auto simp: works_def accepts_def)
  obtain w where w: "wal_create True (fwrite_n env) c (cfg_fsync_mode cfg) = Some w" "wal_log w es"
    "map_option readable (wfile w) = Some True" "fsync_mode w = cfg_fsync_mode cfg"
    using assms(3) create_new_log [OF acc, of "cfg_fsync_mode cfg"] create_log [OF _ assms(4), of c h "fwrite_n env" "cfg_fsync_mode cfg"]
    by blast
  obtain s l where r: "run_cb (wal_replay_cb env) es (wseq w) (Some (lsm_create (cfg_memtable_size cfg))) = (s, Some l, KANBUDB_OK)"
    "lsm_inv l" "lsm_lookup l = foldl log_upd (lsm_lookup (lsm_create (cfg_memtable_size cfg))) es"
    using replay_run [OF conjunct1 [OF lsm_create_ok] assms(8)] .
  obtain w' where w': "wal_replay (fwrite_n env) w (wal_replay_cb env) (Some (lsm_create (cfg_memtable_size cfg))) = (w', Some l, KANBUDB_OK)"
    "wal_log w' es"
    using replay_log [OF w(2) acc w(3), of "wal_replay_cb env" "Some (lsm_create (cfg_memtable_size cfg))"] r(1) by auto
  let ?db = "\<lparr>d_path = p, d_config = cfg, d_tables = ts, d_lsm = Some l, d_btree = bt,
     d_wal = Some w', d_map = Map_Null, d_meta = no_meta, d_last_error = KANBUDB_OK, d_is_reader = False, d_disk = fs\<rparr>"
  have "db_open env fs p (Some cfg) = Some (Some ?db, KANBUDB_OK)"
    using assms(2,5-7) w(1) w'(1) fo by (simp add: db_open_def Let_def open_shared_def)
  moreover have "lsm_lookup l = log_map es" using r(3) lsm_create_ok by (simp add: log_map_def)
  moreover have "es = [] \<Longrightarrow> l = lsm_create (cfg_memtable_size cfg)" using r(1) by simp
  ultimately show thesis
    using that [of ?db l w'] w'(2) r(2) replay_synced [OF w'(1) acc w(2)] w(4) by simp
qed

lemma open_fresh_db:
  assumes "works env" and "\<not> cfg_multi_process cfg" and "cfg_memtable_size cfg > 0"
  obtains db where "db_open env [] p (Some cfg) = Some (Some db, KANBUDB_OK)" and "db_inv db []" and "contents db = Map.empty"
    and "d_tables db = []" and "d_config db = cfg" and "d_path db = p" and "d_btree db = btree_create" and "d_lsm db = Some (lsm_create (cfg_memtable_size cfg))"
proof -
  have none: "fs_read [] q = None" for q by (simp add: fs_read_def)
  have sch: "load_schema [] p [] = Some []" by (simp add: load_schema_def open_table_def none)
  have no_files: "concat (map file_paths (empty_levels n)) = []" for n by (simp add: empty_levels_def concat_eq_Nil_conv)
  have "dir_names [] d = []" for d by (simp add: dir_names_def)
  then have lv: "load_levels [] p btree_create = Some btree_create"
    by (simp add: no_files load_levels_def scan_fs_def compaction_scan_levels_def KANBUDB_MAX_LEVELS_def Let_def)
  obtain db l w where o: "db_open env [] p (Some cfg) = Some (Some db, KANBUDB_OK)" "d_lsm db = Some l" "d_wal db = Some w"
    "wal_log w []" "lsm_inv l" "lsm_lookup l = log_map []" "d_btree db = btree_create" "d_tables db = []" "d_config db = cfg"
    "\<not> d_is_reader db" "d_path db = p" "l = lsm_create (cfg_memtable_size cfg)" "wal_synced w"
    by (rule open_log [OF assms(1), of "[]" p "[]" "[]" 0 "[]" btree_create cfg]) (use sch lv assms(2) none in auto)
  have "db_inv db []"
    using o assms fresh_not_full [OF assms(3)] btree_create_inv by (simp add: db_inv_def)
  moreover have "contents db = Map.empty"
    using o btree_create_inv by (simp add: contents_def overlay_def fun_eq_iff btree_get_correct)
  ultimately show thesis using that o by blast
qed

text \<open>A small database for the witnesses: one table, and a memtable that one put fills.\<close>

definition demo_cfg :: db_config where
  "demo_cfg = \<lparr>cfg_fsync_mode = KANBUDB_FSYNC_ALWAYS, cfg_memtable_size = 100, cfg_multi_process = False\<rparr>"

definition demo_tab :: kanbudb_table where
  "demo_tab = \<lparr>t_name = ''t'', t_num_cols = 1, t_col_types = [0], t_col_names = [''id''], t_pk = 0, t_id = 1\<rparr>"

lemma demo_db:
  obtains db where "db_open demo_env [] ''db'' (Some demo_cfg) = Some (Some db, KANBUDB_OK)" "db_inv (db\<lparr>d_tables := [demo_tab]\<rparr>) []"
    "contents (db\<lparr>d_tables := [demo_tab]\<rparr>) = Map.empty" "d_lsm db = Some (lsm_create 100)"
    "find_table [demo_tab] ''t'' = 0" "d_btree db = btree_create" "d_tables db = []"
proof -
  obtain db where o: "db_open demo_env [] ''db'' (Some demo_cfg) = Some (Some db, KANBUDB_OK)" "db_inv db []"
    "contents db = Map.empty" "d_lsm db = Some (lsm_create (cfg_memtable_size demo_cfg))" "d_btree db = btree_create" "d_tables db = []"
    by (rule open_fresh_db [OF demo_env_works, of demo_cfg "''db''"]) (auto simp: demo_cfg_def)
  moreover have "find_table [demo_tab] ''t'' = 0" by (simp add: find_table_def demo_tab_def)
  ultimately show thesis using that db_inv_cong [OF o(2), of "db\<lparr>d_tables := [demo_tab]\<rparr>"] by (simp add: demo_cfg_def)
qed

lemma demo_put_fits: "case lsm_put (random_level []) (lsm_create 100) 0 [1] (replicate 80 7) of None \<Rightarrow> False
    | Some l \<Rightarrow> lsm_is_full l \<and> \<not> load_ties btree_create (memtable_items (active l)) \<and> length (memtable_items (active l)) < 100"
  by code_simp

lemma demo_create:
  assumes "d_tables db = []"
  obtains fs where "db_create_table demo_env db ''t'' [(0, ''id'')] (Some ''id'') =
    Some (db\<lparr>d_tables := [demo_tab], d_disk := fs, d_last_error := KANBUDB_OK\<rparr>, KANBUDB_OK)"
proof -
  have "schema_ok [demo_tab]" by code_simp
  then obtain fs where "db_save_schema demo_env (d_disk db) (d_path db) [demo_tab] = Some (fs, KANBUDB_OK)"
    using schema_saved [OF _ demo_env_works] by blast
  moreover have "pk_index [''id''] (Some ''id'') = 0" by code_simp
  ultimately have "db_create_table demo_env db ''t'' [(0, ''id'')] (Some ''id'') =
      Some (db\<lparr>d_tables := [demo_tab], d_disk := fs, d_last_error := KANBUDB_OK\<rparr>, KANBUDB_OK)"
    using assms by (simp add: db_create_table_def find_table_def demo_tab_def KANBUDB_MAX_TABLES_def Let_def)
  then show thesis using that by blast
qed

lemma demo_delete: "case lsm_delete (random_level []) (lsm_create 100) 0 [1] of None \<Rightarrow> False | Some l \<Rightarrow> \<not> lsm_is_full l"
  by code_simp

text \<open>A database whose B-tree already holds a value.\<close>

lemma demo_old:
  obtains db l' where "db_inv db []" "contents db [1] = Some [10]" "delete_fits demo_env db [1]" "\<not> hidden db [1]"
    "find_table (d_tables db) ''t'' = 0" "btree_get (d_btree db) [1] = Some [10]" "d_lsm db = Some (lsm_create 100)"
    "lsm_delete (random_level (coins demo_env [1])) (lsm_create 100) 0 [1] = Some l'" "\<not> lsm_is_full l'"
proof -
  obtain db0 where d: "db_inv (db0\<lparr>d_tables := [demo_tab]\<rparr>) []" "d_lsm db0 = Some (lsm_create 100)"
    "find_table [demo_tab] ''t'' = 0"
    by (rule demo_db)
  let ?bt = "btree_put btree_create [1] [10]"
  let ?db = "db0\<lparr>d_tables := [demo_tab], d_btree := ?bt\<rparr>"
  have nt: "\<not> btree_tie btree_create [1]" using btree_tie_seps create_seps by blast
  have bt: "btree_inv ?bt" "btree_get ?bt [1] = Some [10]"
    using bt.put_inv [OF conjunct1 [OF btree_create_inv] nt] bt.put_get [OF conjunct1 [OF btree_create_inv] nt] by simp_all
  obtain l' where l': "lsm_delete (random_level (coins demo_env [1])) (lsm_create 100) 0 [1] = Some l'" "\<not> lsm_is_full l'"
    using demo_delete by (auto simp: demo_env_def split: option.splits)
  have "db_inv ?db []" using d(1) bt(1) by (simp add: db_inv_def)
  moreover have "contents ?db [1] = Some [10]" "\<not> hidden ?db [1]" "delete_fits demo_env ?db [1]"
    using d(2) bt(2) lsm_create_ok [of 100] l' by (simp_all add: contents_def overlay_def hidden_def delete_fits_def)
  ultimately show thesis using that [of ?db l'] d bt(2) l' by simp
qed

section \<open>Properties\<close>





text \<open>
  C10. \<^verbatim>\<open>db_get\<close> never fails to answer and never changes the contents: it returns the value the
  contents have for the key, with \<^verbatim>\<open>KANBUDB_OK\<close>, or \<^verbatim>\<open>KANBUDB_ERR_NOTFOUND\<close> when they have none. The one
  exception is exact: a key whose deletion is still in memory while the B-tree holds an
  older value is answered with that older value.
\<close>

theorem db_get_answers:
  assumes "db_inv db es" and "find_table (d_tables db) table \<ge> 0"
  shows "db_get db table key =
    (let out = (if hidden db key then btree_get (d_btree db) key else contents db key);
         rc = (if out = None then KANBUDB_ERR_NOTFOUND else KANBUDB_OK)
     in Some (db\<lparr>d_last_error := rc\<rparr>, rc, out))"
  by (rule get_answers [OF assms])

theorem db_get_answers_witness:
  "\<exists>db db'. db_inv db [] \<and> db_get db ''t'' [1] = Some (db', KANBUDB_OK, Some [10])"
proof -
  obtain db where d: "db_inv db []" "contents db [1] = Some [10]" "find_table (d_tables db) ''t'' = 0" "\<not> hidden db [1]"
    by (rule demo_old) blast
  from db_get_answers [OF d(1), of "''t''" "[1]"] d show ?thesis by (auto simp: Let_def)
qed

text \<open>
  C39. A deleted key comes back: when the B-tree holds a value for the key and the deletion does
  not happen to fill the memtable, \<^verbatim>\<open>db_delete\<close> reports success and yet the next \<^verbatim>\<open>db_get\<close> returns
  the value that was there before.
\<close>

theorem db_deleted_key_returns:
  assumes "db_inv db es" and "works env" and "find_table (d_tables db) table \<ge> 0" and "length k \<le> 65503"
    and "btree_get (d_btree db) k = Some old" and "d_lsm db = Some l"
    and "lsm_delete (random_level (coins env k)) l 0 k = Some l'" and "\<not> lsm_is_full l'"
  shows "\<exists>db' db''. db_delete env db table k = Some (db', KANBUDB_OK) \<and> contents db' k = None \<and>
    db_get db' table k = Some (db'', KANBUDB_OK, Some old)"
proof -
  have fits: "delete_fits env db k" using assms(6-8) by (simp add: delete_fits_def)
  obtain db' es' where d: "db_delete env db table k = Some (db', KANBUDB_OK)" "db_inv db' es'"
    "contents db' = (contents db)(k := None)" "d_tables db' = d_tables db"
    using delete_simulates [OF assms(1,2) fits, of table] assms(3,4) by (auto simp: write_rc_def)
  have del: "lsm_delete (random_level (coins env k)) l t k = Some l'" for t
    using assms(7) ignores_table(2) [of _ l t] by simp
  then have "d_lsm db' = Some l' \<and> d_btree db' = d_btree db"
    using d(1) assms(3,6,8)
    by (auto simp: db_delete_def after_write_def fail_with_def Let_def split: option.splits prod.splits if_splits)
  moreover have "lsm_lookup l' k = Some ([], True)"
  proof -
    have "lsm_inv l" "flushing l = None" "\<not> lsm_is_full l" using assms(1,6) by (auto simp: db_inv_def)
    then obtain x where "lsm_delete (random_level (coins env k)) l 0 k = Some x" "lsm_lookup x = (lsm_lookup l)(k \<mapsto> ([], True))"
      by (rule lsm_delete_step [OF _ _ _ random_level_bound [of "coins env k"]]) blast
    then show ?thesis using assms(7) by simp
  qed
  ultimately have "hidden db' k" using assms(5) by (simp add: hidden_def)
  then show ?thesis
    using get_answers [OF d(2), of table k] d assms(3,5) \<open>d_lsm db' = Some l' \<and> d_btree db' = d_btree db\<close> by (simp add: Let_def)
qed

theorem db_deleted_key_returns_witness:
  "\<exists>db db' db''. db_inv db [] \<and> db_delete demo_env db ''t'' [1] = Some (db', KANBUDB_OK) \<and> contents db' [1] = None \<and>
     db_get db' ''t'' [1] = Some (db'', KANBUDB_OK, Some [10])"
proof -
  obtain db l' where d: "db_inv db []" "find_table (d_tables db) ''t'' = 0" "btree_get (d_btree db) [1] = Some [10]"
    "d_lsm db = Some (lsm_create 100)"
    "lsm_delete (random_level (coins demo_env [1])) (lsm_create 100) 0 [1] = Some l'" "\<not> lsm_is_full l'"
    by (rule demo_old) blast
  from db_deleted_key_returns [OF d(1) demo_env_works _ _ d(3-6), of "''t''"] d(1,2) show ?thesis by auto
qed

text \<open>
  The states a single-process database can get into, from an empty directory, and the map a
  client believes it to be: table creation may meet any environment, writes meet working
  ones whose flushes fit.
\<close>

inductive db_reach :: "kanbudb_db \<Rightarrow> (bytes \<Rightarrow> bytes option) \<Rightarrow> bool" where
  reach_open: "works env \<Longrightarrow> \<not> cfg_multi_process cfg \<Longrightarrow> cfg_memtable_size cfg > 0 \<Longrightarrow>
    db_open env [] p (Some cfg) = Some (Some db, rc) \<Longrightarrow> db_reach db Map.empty"
| reach_create: "db_reach db m \<Longrightarrow> db_create_table env db n cols pk = Some (db', rc) \<Longrightarrow> db_reach db' m"
| reach_put: "db_reach db m \<Longrightarrow> works env \<Longrightarrow> put_fits env db k v \<Longrightarrow> db_put env db t k v = Some (db', rc) \<Longrightarrow>
    db_reach db' (if rc = KANBUDB_OK then m(k \<mapsto> v) else m)"
| reach_delete: "db_reach db m \<Longrightarrow> works env \<Longrightarrow> delete_fits env db k \<Longrightarrow> db_delete env db t k = Some (db', rc) \<Longrightarrow>
    db_reach db' (if rc = KANBUDB_OK then m(k := None) else m)"
| reach_get: "db_reach db m \<Longrightarrow> db_get db t k = Some (db', rc, out) \<Longrightarrow> db_reach db' m"




lemma demo_files:
  "wal_path ''db'' = ''db.wal''" "load_schema [(''db.wal'', c)] ''db'' [] = Some []"
  "load_levels [(''db.wal'', c)] ''db'' btree_create = Some btree_create"
  by code_simp+

lemma demo_small: "case lsm_put (random_level []) (lsm_create 100) 0 [1] [2] of None \<Rightarrow> False | Some l \<Rightarrow> \<not> lsm_is_full l"
  by code_simp

lemma demo_logged:
  obtains db w e where "db_inv db [e]" "d_wal db = Some w" "fsync_mode w = KANBUDB_FSYNC_ALWAYS" "d_btree db = btree_create"
    "contents db = [[1] \<mapsto> [2]]"
proof -
  obtain db0 where d: "db_open demo_env [] ''db'' (Some demo_cfg) = Some (Some db0, KANBUDB_OK)"
    "db_inv (db0\<lparr>d_tables := [demo_tab]\<rparr>) []" "d_lsm db0 = Some (lsm_create 100)" "d_btree db0 = btree_create"
    by (rule demo_db)
  let ?e = "new_entry 1 KANBUDB_WAL_PUT 1 [1] [2]"
  have w: "wal_log demo_wal []" "accepts demo_io" "wal_synced demo_wal" "fsync_mode demo_wal = KANBUDB_FSYNC_ALWAYS" "wseq demo_wal = 0"
    using demo_wal_ok by (auto simp: wal_synced_def demo_wal_def)
  obtain w1 rc where a: "wal_append demo_io demo_io demo_wal KANBUDB_WAL_PUT 1 [1] (Some [2]) (length [2 :: byte]) = (w1, rc)" by fastforce
  have w1: "rc = KANBUDB_OK" "wal_log w1 [?e]" using append_cases [OF w(2,1) _ _ a] w(3,5) by simp_all
  have m: "fsync_mode w1 = KANBUDB_FSYNC_ALWAYS" "wal_synced w1"
    using append_ok [OF w(1) _ a [unfolded w1(1)]] append_always_flushed [OF a [unfolded w1(1)] w(1) _ w(4)] w(4)
    by (auto simp: wal_synced_def)
  obtain l where l: "lsm_put (random_level []) (lsm_create 100) 0 [1] [2] = Some l" "lsm_inv l" "flushing l = None"
    "memtable_cap l = 100" "lsm_lookup l = [[1] \<mapsto> ([2], False)]"
    using lsm_put_step [OF conjunct1 [OF lsm_create_ok] _ fresh_not_full random_level_bound [of "[]"], of 100 0 "[1]" "[2]"]
      lsm_create_ok [of 100] by auto
  let ?db = "db0\<lparr>d_lsm := Some l, d_wal := Some w1\<rparr>"
  have "\<not> lsm_is_full l" using demo_small l(1) by simp
  moreover have "log_map [?e] = [[1] \<mapsto> ([2], False)]" using log_map_snoc [of "[]" ?e] by (simp add: log_cell_def new_entry_def)
  ultimately have "db_inv ?db [?e]" using d(2) l w1 m by (simp add: db_inv_def)
  moreover have "contents ?db = [[1] \<mapsto> [2]]"
    using l(5) d(4) btree_create_inv by (auto simp: contents_def overlay_def fun_eq_iff btree_get_correct)
  ultimately show thesis using that [of ?db ?e w1] m d(4) by simp
qed


end
