(* ===== verification/Db_Reader.thy ===== *)
theory Db_Reader
  imports Db_Correct
begin

text \<open>
  Reader processes: what \<^verbatim>\<open>db_put\<close> of a writer in multi-process mode leaves in the shared log, and
  what \<^verbatim>\<open>db_reader_refresh\<close> makes of it.
\<close>

section \<open>Applying the shared log\<close>

fun refresh_ties :: "kanbudb_btree \<Rightarrow> wal_entry list \<Rightarrow> bool" where
  "refresh_ties bt [] = False"
| "refresh_ties bt (e # es) =
     (e_op e = 0 \<and> btree_tie bt (e_key e) \<or> refresh_ties (apply_mmap_entry bt (me_of e)) es)"

lemma apply_as_load:
  "mm_entry_ok e \<Longrightarrow> apply_mmap_entry bt (me_of e) =
     fst (sstable_load_cb (e_key e) (e_value e) (if e_op e = 0 then KANBUDB_SSTABLE_FLAG_ALIVE else KANBUDB_SSTABLE_FLAG_TOMBSTONE) bt)"
  by (auto simp: apply_mmap_entry_def me_of_def sstable_load_cb_def mm_entry_ok_def sst_consts)

lemma apply_one:
  assumes "btree_inv bt" and "mm_entry_ok e" and "e_op e = 0 \<longrightarrow> \<not> btree_tie bt (e_key e)"
    and "btree_get bt = (\<lambda>k. overlay (m k) (g k))"
  shows "btree_inv (apply_mmap_entry bt (me_of e)) \<and>
    btree_get (apply_mmap_entry bt (me_of e)) = (\<lambda>k. overlay (log_upd m e k) (g k))"
  using load_one [OF assms(1), of "if e_op e = 0 then KANBUDB_SSTABLE_FLAG_ALIVE else KANBUDB_SSTABLE_FLAG_TOMBSTONE" "e_key e" "e_value e"]
    assms(2-4)
  by (auto simp: apply_as_load log_upd_def log_cell_def cell_of_item_def overlay_def sst_consts fun_eq_iff)

lemma apply_all:
  assumes "btree_inv bt" and "\<forall>e\<in>set es. mm_entry_ok e" and "\<not> refresh_ties bt es"
    and "btree_get bt = (\<lambda>k. overlay (m k) (g k))"
  shows "btree_inv (foldl apply_mmap_entry bt (map me_of es)) \<and>
    btree_get (foldl apply_mmap_entry bt (map me_of es)) = (\<lambda>k. overlay (foldl log_upd m es k) (g k))"
  using assms
proof (induction es arbitrary: bt m)
  case (Cons e es)
  then show ?case using apply_one [of bt e m g] by simp
qed simp

lemma length_log_bytes: "length es \<le> length (log_bytes es)"
proof (induction es)
  case (Cons e es)
  moreover have "1 \<le> length (entry_enc e)" by (simp add: entry_enc_def)
  ultimately show ?case by (simp del: One_nat_def)
qed simp

lemma refresh_ok:
  assumes "d_map db = Mapped wm" and log: "mm_log (wm\<lparr>wm_mem := view\<rparr>) (es @ es')" and "wm_last wm = at_pos es"
    and "d_tables db \<noteq> []" and "btree_inv (d_btree db)" and "\<not> refresh_ties (d_btree db) es'"
  obtains db' where "db_reader_refresh env view db = Some (db', KANBUDB_OK)" and "btree_inv (d_btree db')"
    and "btree_get (d_btree db') = (\<lambda>k. overlay (log_map es' k) (btree_get (d_btree db) k))"
    and "d_lsm db' = d_lsm db" and "d_map db' = Mapped (wm\<lparr>wm_mem := view, wm_last := at_pos (es @ es')\<rparr>)"
    and "d_tables db' = d_tables db"
proof -
  let ?w = "wm\<lparr>wm_mem := view\<rparr>"
  obtain rest :: bytes where "64 + length (log_bytes (es @ es')) + length rest = unat (wm_size ?w)"
    and ok: "\<forall>e\<in>set (es @ es'). mm_entry_ok e"
    by (rule mm_logE [OF log]) blast
  then have "length es' < Suc (length (wm_mem ?w))"
    using log length_log_bytes [of es'] by (simp add: mm_log_def)
  then have rd: "read_entries (Suc (length (wm_mem ?w))) ?w = Some (?w\<lparr>wm_last := at_pos (es @ es')\<rparr>, map me_of es')"
    using assms(3) by (intro read_all [OF log]) (simp_all del: read_entries.simps)
  have "btree_get (d_btree db) = (\<lambda>k. overlay (Map.empty k) (btree_get (d_btree db) k))" by (simp add: overlay_def)
  from apply_all [OF assms(5) _ assms(6) this] ok
  have ap: "btree_inv (foldl apply_mmap_entry (d_btree db) (map me_of es'))"
    "btree_get (foldl apply_mmap_entry (d_btree db) (map me_of es')) = (\<lambda>k. overlay (log_map es' k) (btree_get (d_btree db) k))"
    by (auto simp: log_map_def)
  let ?db = "db\<lparr>d_map := Mapped (?w\<lparr>wm_last := at_pos (es @ es')\<rparr>), d_disk := d_disk db, d_tables := d_tables db,
    d_btree := foldl apply_mmap_entry (d_btree db) (map me_of es')\<rparr>"
  have "db_reader_refresh env view db = Some (?db, KANBUDB_OK)"
    using assms(1,4) rd by (simp add: db_reader_refresh_def del: read_entries.simps)
  then show thesis using that ap by simp
qed

text \<open>The threshold of the file switch, in numbers.\<close>

lemma mmap_full_iff:
  assumes log: "mm_log wm es" and sz: "unat (wm_size wm) < 2 ^ 56"
  shows "mmap_full wm \<longleftrightarrow> 64 < unat (wm_size wm) \<and> length (log_bytes es) > (unat (wm_size wm) - 64) * 80 div 100"
proof -
  obtain rest :: bytes where r: "64 + length (log_bytes es) + length rest = unat (wm_size wm)"
    and wp: "wm_write_pos wm = word_of_nat (64 + length (log_bytes es))"
    by (rule mm_logE [OF log]) blast
  have "KANBUDB_WAL_MMAP_HEADER_SIZE \<le> wm_size wm" using r by (simp add: mmap_consts word_le_nat_alt)
  then have cap: "unat (wm_data_cap wm) = unat (wm_size wm) - 64" by (simp add: wm_data_cap_def unat_sub mmap_consts)
  then have "unat (wm_data_cap wm * 80) = (unat (wm_size wm) - 64) * 80" using sz by (simp add: unat_word_ariths)
  then have thr: "unat (wm_data_cap wm * 80 div 100) = (unat (wm_size wm) - 64) * 80 div 100" by (simp add: unat_div)
  have "wm_write_pos wm - KANBUDB_WAL_MMAP_HEADER_SIZE = word_of_nat (length (log_bytes es))" unfolding wp by (simp add: mmap_consts)
  then have "unat (wm_write_pos wm - KANBUDB_WAL_MMAP_HEADER_SIZE) = length (log_bytes es)" using r sz by (simp add: unat_of_nat_u64)
  with thr cap show ?thesis
    by (simp add: mmap_full_def wal_mmap_get_write_pos_def word_less_nat_alt)
qed

section \<open>Properties\<close>




end
