(* ===== verification/Fst.thy ===== *)
theory Fst
  imports Prelude
begin

text \<open>
  The term dictionary of the full-text index, \<^verbatim>\<open>src/src/util/fst.c\<close>: a trie whose nodes have one
  child pointer per byte, with exact lookup, prefix search and fuzzy search. A key is the
  bytes of a C string without the terminating zero. The reference for the fuzzy search is
  the textbook recursion of the Levenshtein distance on prefixes.
\<close>

section \<open>Data\<close>

definition FST_MAX_KEY_LEN :: nat where "FST_MAX_KEY_LEN = 256"

datatype fst_node = Fst_Node (children: "fst_node option list") (fvalue: u64) (has_value: bool)

record kanbudb_fst =
  froot :: fst_node
  fsize :: nat
  fnodes :: nat

definition fnode_create :: fst_node where
  "fnode_create = Fst_Node (replicate 256 None) 0 False"

definition fst_create :: kanbudb_fst where
  "fst_create = \<lparr>froot = fnode_create, fsize = 0, fnodes = 1\<rparr>"

section \<open>Insertion and lookup\<close>

text \<open>The loop of \<^verbatim>\<open>fst_insert\<close>: the node, the nodes created and the keys added.\<close>

fun fnode_insert :: "bytes \<Rightarrow> u64 \<Rightarrow> fst_node \<Rightarrow> fst_node \<times> nat \<times> nat" where
  "fnode_insert [] val (Fst_Node cs v h) = (Fst_Node cs val True, 0, if h then 0 else 1)"
| "fnode_insert (c # key) val (Fst_Node cs v h) =
     (case (case cs ! unat c of None \<Rightarrow> (fnode_create, 1) | Some n \<Rightarrow> (n, 0)) of (child, created) \<Rightarrow>
       case fnode_insert key val child of (child', m, a) \<Rightarrow>
         (Fst_Node (cs[unat c := Some child']) v h, created + m, a))"

definition fst_insert :: "kanbudb_fst \<Rightarrow> bytes \<Rightarrow> u64 \<Rightarrow> kanbudb_fst \<times> rc" where
  "fst_insert t key val =
     (if length key > FST_MAX_KEY_LEN then (t, KANBUDB_ERR_INVAL)
      else case fnode_insert key val (froot t) of (r, m, a) \<Rightarrow>
        (\<lparr>froot = r, fsize = fsize t + a, fnodes = fnodes t + m\<rparr>, KANBUDB_OK))"

text \<open>Walking down along a key; \<open>None\<close> when a child is missing.\<close>

fun descend :: "bytes \<Rightarrow> fst_node \<Rightarrow> fst_node option" where
  "descend [] n = Some n"
| "descend (c # key) n = (case children n ! unat c of None \<Rightarrow> None | Some n' \<Rightarrow> descend key n')"

definition fst_get :: "kanbudb_fst \<Rightarrow> bytes \<Rightarrow> rc \<times> u64 option" where
  "fst_get t key =
     (case descend key (froot t) of
        None \<Rightarrow> (KANBUDB_ERR_NOTFOUND, None)
      | Some n \<Rightarrow> if has_value n then (KANBUDB_OK, Some (fvalue n)) else (KANBUDB_ERR_NOTFOUND, None))"

section \<open>Prefix search\<close>

text \<open>
  \<^verbatim>\<open>dfs_collect\<close> and its loop over the children; the results found so far are the accumulator,
  whose length is \<^verbatim>\<open>*count\<close>.
\<close>

fun dfs_collect :: "nat \<Rightarrow> fst_node \<Rightarrow> u64 list \<Rightarrow> u64 list"
  and dfs_children :: "nat \<Rightarrow> fst_node option list \<Rightarrow> u64 list \<Rightarrow> u64 list" where
  "dfs_collect mx (Fst_Node cs v h) acc =
     (if length acc \<ge> mx then acc else dfs_children mx cs (if h then acc @ [v] else acc))"
| "dfs_children mx [] acc = acc"
| "dfs_children mx (c # cs) acc =
     (if length acc \<ge> mx then acc
      else dfs_children mx cs (case c of None \<Rightarrow> acc | Some n \<Rightarrow> dfs_collect mx n acc))"

definition fst_prefix_search :: "kanbudb_fst \<Rightarrow> bytes \<Rightarrow> int \<Rightarrow> u64 list" where
  "fst_prefix_search t prefix max_results =
     (if max_results \<le> 0 then []
      else case descend prefix (froot t) of None \<Rightarrow> [] | Some n \<Rightarrow> dfs_collect (nat max_results) n [])"

section \<open>Fuzzy search\<close>

text \<open>
  One row of the distance matrix: \<open>row_tail c ins row key\<close> computes \<^verbatim>\<open>new_row[1..]\<close>, where \<open>ins\<close> is the
  entry to the left and \<open>row\<close> starts at the entry above it.
\<close>

fun row_tail :: "byte \<Rightarrow> nat \<Rightarrow> nat list \<Rightarrow> bytes \<Rightarrow> nat list" where
  "row_tail c left (a # b # row) (k # key) =
     (let cost = (if k = c then 0 else 1);
          m = (if b + 1 < left + 1 then b + 1 else left + 1);
          x = (if m < a + cost then m else a + cost)
      in x # row_tail c x (b # row) key)"
| "row_tail c left row key = []"

definition next_row :: "byte \<Rightarrow> bytes \<Rightarrow> nat list \<Rightarrow> nat list" where
  "next_row c key row = (hd row + 1) # row_tail c (hd row + 1) row key"

definition row_min :: "nat list \<Rightarrow> nat" where
  "row_min row = fold (\<lambda>x m. if x < m then x else m) (tl row) (hd row)"

fun fuzzy_dfs :: "nat \<Rightarrow> bytes \<Rightarrow> nat \<Rightarrow> nat list \<Rightarrow> fst_node \<Rightarrow> u64 list \<Rightarrow> u64 list"
  and fuzzy_children :: "nat \<Rightarrow> bytes \<Rightarrow> nat \<Rightarrow> nat list \<Rightarrow> nat \<Rightarrow> fst_node option list \<Rightarrow> u64 list \<Rightarrow> u64 list" where
  "fuzzy_dfs mx key max_edits row (Fst_Node cs v h) acc =
     (if length acc \<ge> mx then acc
      else fuzzy_children mx key max_edits row 0 cs
             (if h \<and> row ! length key \<le> max_edits then acc @ [v] else acc))"
| "fuzzy_children mx key max_edits row i [] acc = acc"
| "fuzzy_children mx key max_edits row i (c # cs) acc =
     (if length acc \<ge> mx then acc
      else fuzzy_children mx key max_edits row (Suc i) cs
        (case c of
           None \<Rightarrow> acc
         | Some n \<Rightarrow>
             (let new_row = next_row (word_of_nat i) key row
              in if row_min new_row > max_edits then acc else fuzzy_dfs mx key max_edits new_row n acc)))"

definition fst_fuzzy_search :: "kanbudb_fst \<Rightarrow> bytes \<Rightarrow> int \<Rightarrow> int \<Rightarrow> u64 list" where
  "fst_fuzzy_search t key max_edits max_results =
     (if max_results \<le> 0 \<or> max_edits < 0 then []
      else
        (let k = take FST_MAX_KEY_LEN key
         in fuzzy_dfs (nat max_results) k (nat max_edits) [0..<Suc (length k)] (froot t) []))"

definition fst_size :: "kanbudb_fst \<Rightarrow> nat" where "fst_size t = fsize t"

text \<open>With 8-byte pointers a node is 2064 bytes and the handle 24.\<close>

definition fst_memory_used :: "kanbudb_fst \<Rightarrow> nat" where "fst_memory_used t = 24 + fnodes t * 2064"

section \<open>The entries of a trie\<close>

fun fentries :: "fst_node \<Rightarrow> (bytes \<times> u64) list"
  and fentries_from :: "nat \<Rightarrow> fst_node option list \<Rightarrow> (bytes \<times> u64) list" where
  "fentries (Fst_Node cs v h) = (if h then [([], v)] else []) @ fentries_from 0 cs"
| "fentries_from i [] = []"
| "fentries_from i (c # cs) =
     (case c of None \<Rightarrow> [] | Some n \<Rightarrow> map (\<lambda>(k, v). (word_of_nat i # k, v)) (fentries n)) @ fentries_from (Suc i) cs"

fun wf_fst :: "fst_node \<Rightarrow> bool" and wf_children :: "fst_node option list \<Rightarrow> bool" where
  "wf_fst (Fst_Node cs v h) = (length cs = 256 \<and> wf_children cs)"
| "wf_children [] = True"
| "wf_children (c # cs) = ((case c of None \<Rightarrow> True | Some n \<Rightarrow> wf_fst n) \<and> wf_children cs)"

end
