(* ===== verification/Fst_Correct.thy ===== *)
theory Fst_Correct
  imports Fst "HOL-Library.Sublist"
begin

text \<open>
  The trie is a finite map: \<open>fentries\<close> lists its pairs in ascending key order, insertion updates
  one of them, prefix search and fuzzy search return the values of exactly the matching
  keys, in key order, cut off at the limit. The pruning of the fuzzy search loses nothing.
\<close>

section \<open>Entries and lookup\<close>

lemma map_of_cons_keys:
  "map_of (map (\<lambda>(k, v). (x # k, v)) es) key = (case key of [] \<Rightarrow> None | c # k \<Rightarrow> if c = x then map_of es k else None)"
  by (induction es) (auto split: list.splits)

lemma unat_of_nat_byte: "i < 256 \<Longrightarrow> unat (word_of_nat i :: byte) = i"
  by (simp add: unat_of_nat take_bit_nat_eq_self)

lemma unat_byte: "unat (c :: byte) < 256"
  using unsigned_less [of c, where 'a = nat] by simp

lemma map_of_entries_from:
  assumes "i + length cs \<le> 256"
  shows "map_of (fentries_from i cs) key =
    (case key of
       [] \<Rightarrow> None
     | c # k \<Rightarrow> if i \<le> unat c \<and> unat c < i + length cs
               then (case cs ! (unat c - i) of None \<Rightarrow> None | Some n \<Rightarrow> map_of (fentries n) k) else None)"
  using assms
proof (induction cs arbitrary: i)
  case (Cons x cs)
  have i: "unat (word_of_nat i :: byte) = i" using Cons.prems by (simp add: unat_of_nat_byte)
  show ?case
  proof (cases key)
    case (Cons c k)
    have "c = word_of_nat i \<longleftrightarrow> unat c = i" using i by (simp add: word_unat_eq_iff)
    moreover have "unat c - i = Suc (unat c - Suc i)" if "Suc i \<le> unat c" using that by simp
    ultimately show ?thesis
      using Cons.IH [of "Suc i"] Cons.prems \<open>key = c # k\<close>
      by (auto simp: map_of_cons_keys map_add_def split: option.splits)
  qed (use Cons.IH [of "Suc i"] Cons.prems in \<open>auto simp: map_of_cons_keys map_add_def split: option.splits\<close>)
qed (auto split: list.splits)

lemma wf_children_nth: "wf_children cs \<Longrightarrow> i < length cs \<Longrightarrow> cs ! i = Some n \<Longrightarrow> wf_fst n"
  by (induction cs arbitrary: i) (auto simp: nth_Cons split: nat.splits option.splits)

lemma wf_children_upd: "wf_children cs \<Longrightarrow> wf_fst n \<Longrightarrow> wf_children (cs[i := Some n])"
  by (induction cs arbitrary: i) (auto split: nat.splits)

lemma entries_step:
  assumes "length cs = 256"
  shows "map_of (fentries (Fst_Node cs v h)) key =
    (case key of
       [] \<Rightarrow> if h then Some v else None
     | c # k \<Rightarrow> (case cs ! unat c of None \<Rightarrow> None | Some n \<Rightarrow> map_of (fentries n) k))"
  using map_of_entries_from [of 0 cs key] assms unat_byte
  by (auto simp: map_add_def split: list.splits option.splits)

lemma descend_entries:
  "wf_fst n \<Longrightarrow> map_of (fentries n) key =
     (case descend key n of None \<Rightarrow> None | Some m \<Rightarrow> if has_value m then Some (fvalue m) else None)"
proof (induction key arbitrary: n)
  case Nil
  then show ?case by (cases n) (simp add: entries_step del: fentries.simps)
next
  case (Cons c key)
  obtain cs v h where n: "n = Fst_Node cs v h" by (cases n)
  have "wf_fst m" if "cs ! unat c = Some m" for m
    using wf_children_nth that Cons.prems n unat_byte [of c] by auto
  then show ?case using Cons n by (auto simp: entries_step simp del: fentries.simps split: option.splits)
qed

section \<open>Insertion\<close>

lemma wf_create: "wf_fst fnode_create" "fentries fnode_create = []"
proof -
  have "wf_children (replicate k None)" "fentries_from i (replicate k None) = []" for k i
    by (induction k arbitrary: i) auto
  then show "wf_fst fnode_create" "fentries fnode_create = []" by (simp_all add: fnode_create_def)
qed

lemma insert_entries:
  "wf_fst n \<Longrightarrow> fnode_insert key val n = (n', m, a) \<Longrightarrow>
   wf_fst n' \<and> map_of (fentries n') = (map_of (fentries n))(key \<mapsto> val) \<and>
   a = (if map_of (fentries n) key = None then 1 else 0)"
proof (induction key arbitrary: n n' m a)
  case Nil
  then show ?case by (cases n) (auto simp: entries_step fun_eq_iff simp del: fentries.simps split: list.splits)
next
  case (Cons c key)
  obtain cs v h where n: "n = Fst_Node cs v h" by (cases n)
  define ch where "ch = (case cs ! unat c of None \<Rightarrow> fnode_create | Some x \<Rightarrow> x)"
  have cs: "length cs = 256" "wf_children cs" using Cons.prems(1) n by simp_all
  have wf: "wf_fst ch"
    using wf_children_nth [OF cs(2), of "unat c"] cs(1) unat_byte [of c] wf_create(1) by (auto simp: ch_def split: option.splits)
  obtain ch' m' a' where i: "fnode_insert key val ch = (ch', m', a')" by (cases "fnode_insert key val ch")
  have n': "n' = Fst_Node (cs[unat c := Some ch']) v h" "a = a'"
    using Cons.prems(2) i n by (auto simp: ch_def split: option.splits)
  note ih = Cons.IH [OF wf i]
  have sub: "map_of (fentries ch) k = (case cs ! unat c of None \<Rightarrow> None | Some x \<Rightarrow> map_of (fentries x) k)" for k
    by (simp add: ch_def wf_create(2) split: option.splits)
  have "map_of (fentries n') = (map_of (fentries n))(c # key \<mapsto> val)"
  proof
    fix k
    show "map_of (fentries n') k = ((map_of (fentries n))(c # key \<mapsto> val)) k"
    proof (cases k)
      case (Cons d k')
      then show ?thesis
        using ih cs(1) n n' sub [of k'] unat_byte [of c] word_unat_eq_iff [of c d]
        by (cases "d = c") (auto simp: entries_step simp del: fentries.simps split: option.splits)
    qed (use cs(1) n n' in \<open>simp add: entries_step del: fentries.simps\<close>)
  qed
  moreover have "wf_fst n'" using ih wf_children_upd cs n' by simp
  moreover have "a = (if map_of (fentries n) (c # key) = None then 1 else 0)"
    using ih n n'(2) sub [of key] cs(1) by (auto simp: entries_step simp del: fentries.simps split: option.splits)
  ultimately show ?case by blast
qed

section \<open>Order\<close>

lemma ssorted_cons_keys: "ssorted (keys_of es) \<Longrightarrow> ssorted (keys_of (map (\<lambda>(k, v). (x # k, v)) es))"
  for x :: byte and es :: "(bytes \<times> u64) list"
  by (induction es) auto

lemma entries_sorted:
  shows "wf_fst n \<Longrightarrow> ssorted (keys_of (fentries n))"
    and "wf_children cs \<Longrightarrow> i + length cs \<le> 256 \<Longrightarrow>
      ssorted (keys_of (fentries_from i cs)) \<and> (\<forall>k\<in>fst ` set (fentries_from i cs). \<exists>c k'. k = c # k' \<and> i \<le> unat c)"
proof (induction n and i cs rule: fentries_fentries_from.induct)
  case (1 cs v h)
  then show ?case by auto
next
  case (3 i c cs)
  have i: "unat (word_of_nat i :: byte) = i" using 3(4) by (simp add: unat_of_nat_byte)
  have rest: "ssorted (keys_of (fentries_from (Suc i) cs))"
    "\<forall>k\<in>fst ` set (fentries_from (Suc i) cs). \<exists>c k'. k = c # k' \<and> Suc i \<le> unat c"
    using 3 by auto
  show ?case
  proof (cases c)
    case None
    then show ?thesis using rest by fastforce
  next
    case (Some n)
    have s: "ssorted (keys_of (map (\<lambda>(k, v). (word_of_nat i # k, v)) (fentries n)))"
      using 3(1) [OF Some] 3(3) Some ssorted_cons_keys by auto
    have lt: "(word_of_nat i # k) < k'" if k': "k' \<in> fst ` set (fentries_from (Suc i) cs)" for k k'
    proof -
      obtain d u where "k' = d # u" "Suc i \<le> unat d" using rest(2) k' by blast
      then show ?thesis using i by (simp add: word_less_nat_alt)
    qed
    let ?A = "map (\<lambda>(k, v). (word_of_nat i # k, v)) (fentries n)"
    have eq: "fentries_from i (c # cs) = ?A @ fentries_from (Suc i) cs" using Some by simp
    have A: "\<exists>k'. k = word_of_nat i # k'" if "k \<in> fst ` set ?A" for k using that by auto
    have "\<forall>x\<in>set (keys_of ?A). \<forall>y\<in>set (keys_of (fentries_from (Suc i) cs)). x < y"
    proof (intro ballI)
      fix x y
      assume x: "x \<in> set (keys_of ?A)" and y: "y \<in> set (keys_of (fentries_from (Suc i) cs))"
      from A [of x] x obtain k where "x = word_of_nat i # k" by auto
      then show "x < y" using lt [of y k] y by simp
    qed
    then have "ssorted (keys_of (fentries_from i (c # cs)))"
      unfolding eq map_append sorted_wrt_append using s rest(1) by blast
    moreover have "\<exists>d k'. k = d # k' \<and> i \<le> unat d" if k: "k \<in> fst ` set (fentries_from i (c # cs))" for k
    proof (cases "k \<in> fst ` set ?A")
      case True
      then show ?thesis using A [of k] i by auto
    next
      case False
      then have "k \<in> fst ` set (fentries_from (Suc i) cs)" using k unfolding eq by auto
      then show ?thesis using rest(2) by fastforce
    qed
    ultimately show ?thesis by blast
  qed
qed simp_all

section \<open>Prefix search\<close>

lemma take_take_append: "take m (take m xs @ ys) = take m (xs @ ys)"
  by (cases "length xs \<le> m") auto

lemma snd_cons_key [simp]: "map snd (map (\<lambda>(k, v). (x # k, v)) es) = map snd es"
  by (induction es) auto

lemma collect_entries:
  shows "length acc \<le> mx \<Longrightarrow> dfs_collect mx n acc = take mx (acc @ map snd (fentries n))"
    and "length acc \<le> mx \<Longrightarrow> dfs_children mx cs acc = take mx (acc @ map snd (fentries_from i cs))"
proof (induction mx n acc and mx cs acc arbitrary: and i rule: dfs_collect_dfs_children.induct)
  case (1 mx cs v h acc)
  show ?case
  proof (cases "length acc < mx")
    case True
    then show ?thesis using 1(1) [of 0] by auto
  qed (use 1(2) in auto)
next
  case (3 mx c cs acc)
  show ?case
  proof (cases "length acc < mx")
    case True
    show ?thesis
    proof (cases c)
      case None
      then show ?thesis using 3(2) [of "Suc i"] True by simp
    next
      case (Some n)
      have nle: "\<not> mx \<le> length acc" using True by simp
      let ?acc = "take mx (acc @ map snd (fentries n))"
      have "dfs_collect mx n acc = ?acc" using 3(1) Some True by simp
      moreover have "dfs_children mx cs ?acc = take mx (?acc @ map snd (fentries_from (Suc i) cs))"
        using 3(2) [of "Suc i"] Some True \<open>dfs_collect mx n acc = ?acc\<close> by simp
      ultimately have "dfs_children mx (c # cs) acc = take mx ((acc @ map snd (fentries n)) @ map snd (fentries_from (Suc i) cs))"
        using Some nle by (simp only: take_take_append dfs_children.simps option.case if_False)
      moreover have "map snd (fentries_from i (c # cs)) = map snd (fentries n) @ map snd (fentries_from (Suc i) cs)"
        using Some by (simp only: fentries_from.simps option.case map_append snd_cons_key)
      ultimately show ?thesis by simp
    qed
  qed (use 3(3) in auto)
qed simp

lemma filter_entries_from:
  assumes "i + length cs \<le> 256"
  shows "filter (\<lambda>e. fst e \<noteq> [] \<and> hd (fst e) = c \<and> P (tl (fst e))) (fentries_from i cs) =
    (if i \<le> unat c \<and> unat c < i + length cs
     then (case cs ! (unat c - i) of None \<Rightarrow> [] | Some n \<Rightarrow> map (\<lambda>(k, v). (c # k, v)) (filter (\<lambda>e. P (fst e)) (fentries n)))
     else [])"
  using assms
proof (induction cs arbitrary: i)
  case (Cons x cs)
  have i: "unat (word_of_nat i :: byte) = i" using Cons.prems by (simp add: unat_of_nat_byte)
  have eq: "word_of_nat i = c \<longleftrightarrow> unat c = i" using i by (auto simp: word_unat_eq_iff)
  have f: "filter (\<lambda>e. fst e \<noteq> [] \<and> hd (fst e) = c \<and> P (tl (fst e))) (map (\<lambda>(k, v). (word_of_nat i # k, v)) es) =
      (if word_of_nat i = c then map (\<lambda>(k, v). (c # k, v)) (filter (\<lambda>e. P (fst e)) es) else [])" for es :: "(bytes \<times> u64) list"
    by (induction es) auto
  have "unat c - i = Suc (unat c - Suc i)" if "Suc i \<le> unat c" using that by simp
  then show ?case using Cons.IH [of "Suc i"] Cons.prems f unfolding eq by (auto split: option.splits)
qed auto

lemma descend_prefix:
  "wf_fst n \<Longrightarrow> filter (\<lambda>e. prefix p (fst e)) (fentries n) =
     (case descend p n of None \<Rightarrow> [] | Some m \<Rightarrow> map (\<lambda>(k, v). (p @ k, v)) (fentries m))"
proof (induction p arbitrary: n)
  case Nil
  then show ?case by simp
next
  case (Cons c p)
  obtain cs v h where n: "n = Fst_Node cs v h" by (cases n)
  have len: "length cs = 256" using Cons.prems n by simp
  have P: "prefix (c # p) (fst e) \<longleftrightarrow> fst e \<noteq> [] \<and> hd (fst e) = c \<and> prefix p (tl (fst e))" for e :: "bytes \<times> u64"
    by (cases "fst e") auto
  have "wf_fst m" if "cs ! unat c = Some m" for m
    using wf_children_nth that Cons.prems n unat_byte [of c] by auto
  then show ?case
    unfolding P using filter_entries_from [of 0 cs c "prefix p"] len n unat_byte [of c] Cons.IH
    by (auto simp: comp_def split: option.splits)
qed

section \<open>The distance\<close>

text \<open>The distance between the first \<open>i\<close> bytes of \<open>a\<close> and the first \<open>j\<close> bytes of \<open>b\<close>.\<close>

fun lev :: "bytes \<Rightarrow> bytes \<Rightarrow> nat \<Rightarrow> nat \<Rightarrow> nat" where
  "lev a b 0 j = j"
| "lev a b (Suc i) 0 = Suc i"
| "lev a b (Suc i) (Suc j) =
     min (min (lev a b i (Suc j) + 1) (lev a b (Suc i) j + 1)) (lev a b i j + (if a ! i = b ! j then 0 else 1))"

definition edit_distance :: "bytes \<Rightarrow> bytes \<Rightarrow> nat" where
  "edit_distance a b = lev a b (length a) (length b)"

lemma lev_append: "i \<le> length w \<Longrightarrow> lev (w @ u) b i j = lev w b i j"
  by (induction w b i j rule: lev.induct) (auto simp: nth_append)

text \<open>The row of the matrix after the path \<open>w\<close>.\<close>

definition lev_row :: "bytes \<Rightarrow> bytes \<Rightarrow> nat list" where
  "lev_row w key = map (lev w key (length w)) [0..<Suc (length key)]"

lemma lev_row_start: "lev_row [] key = [0..<Suc (length key)]"
  by (simp add: lev_row_def map_idI)

lemma if_less_min: "(if a < b then a else b) = min a (b :: nat)"
  by (simp add: min_def)

lemma row_tail_min:
  "row_tail c left (a # b # row) (k # key) =
     min (min (b + 1) (left + 1)) (a + (if k = c then 0 else 1)) #
     row_tail c (min (min (b + 1) (left + 1)) (a + (if k = c then 0 else 1))) (b # row) key"
  by (simp only: row_tail.simps Let_def if_less_min)

lemma row_tail_lev:
  assumes "j \<le> length key"
  shows "row_tail c (lev (w @ [c]) key (Suc (length w)) j) (map (lev w key (length w)) [j..<Suc (length key)]) (drop j key) =
    map (lev (w @ [c]) key (Suc (length w))) [Suc j..<Suc (length key)]"
  using assms
proof (induction "length key - j" arbitrary: j)
  case (Suc d)
  then have j: "j < length key" by simp
  let ?f = "lev w key (length w)" and ?g = "lev (w @ [c]) key (Suc (length w))" and ?r = "[Suc (Suc j)..<Suc (length key)]"
  have u: "[j..<Suc (length key)] = j # Suc j # ?r" "[Suc j..<Suc (length key)] = Suc j # ?r"
    using j by (simp_all add: upt_conv_Cons del: upt_Suc)
  have k: "drop j key = key ! j # drop (Suc j) key" using j by (simp add: Cons_nth_drop_Suc)
  have g: "min (min (?f (Suc j) + 1) (?g j + 1)) (?f j + (if key ! j = c then 0 else 1)) = ?g (Suc j)"
    by (simp add: lev_append nth_append eq_commute)
  have "row_tail c (?g (Suc j)) (map ?f [Suc j..<Suc (length key)]) (drop (Suc j) key) = map ?g ?r"
    by (rule Suc(1)) (use Suc(2) j in auto)
  then show ?case unfolding u k by (simp only: list.map row_tail_min g)
qed simp

lemma next_row_lev: "next_row c key (lev_row w key) = lev_row (w @ [c]) key"
proof -
  have h: "hd (lev_row w key) = length w" "lev (w @ [c]) key (Suc (length w)) 0 = Suc (length w)"
    by (cases "length w"; simp add: lev_row_def hd_map del: upt_Suc lev.simps(1); simp)+
  show ?thesis
    using row_tail_lev [of 0 key c w] h
    by (simp add: next_row_def lev_row_def upt_conv_Cons del: upt_Suc)
qed

text \<open>Pruning: a row that is everywhere above the limit stays so, whatever follows.\<close>

lemma row_min_le: "x \<in> set row \<Longrightarrow> row_min row \<le> x"
proof -
  have f: "fold (\<lambda>x m. if x < m then x else m) xs m \<le> m \<and> (\<forall>x\<in>set xs. fold (\<lambda>x m. if x < m then x else m) xs m \<le> x)"
    for xs and m :: nat
  proof (induction xs arbitrary: m)
    case (Cons y ys)
    have "fold (\<lambda>x m. if x < m then x else m) ys (if y < m then y else m) \<le> (if y < m then y else m)" using Cons.IH by blast
    then show ?case using Cons.IH [of "if y < m then y else m"] by (auto split: if_splits)
  qed simp
  assume "x \<in> set row"
  then have "x = hd row \<or> x \<in> set (tl row)" by (cases row) auto
  then show ?thesis using f [where xs = "tl row" and m = "hd row"] by (auto simp: row_min_def)
qed

lemma lev_above_step:
  assumes "\<forall>j\<le>n. m < lev w key (length w) j"
  shows "j \<le> n \<Longrightarrow> m < lev (w @ [c]) key (Suc (length w)) j"
proof (induction j)
  case 0
  have "m < lev w key (length w) 0" using assms by blast
  then have "m < length w" by (cases "length w") auto
  then show ?case by simp
next
  case (Suc j)
  then have "m < lev w key (length w) (Suc j)" "m < lev w key (length w) j" "m < lev (w @ [c]) key (Suc (length w)) j"
    using assms by auto
  then show ?case by (simp add: lev_append)
qed

lemma lev_above:
  assumes "\<forall>j\<le>n. m < lev w key (length w) j" and "j \<le> n"
  shows "m < lev (w @ u) key (length (w @ u)) j"
  using assms
proof (induction u arbitrary: w j)
  case (Cons c u)
  have "\<forall>j\<le>n. m < lev (w @ [c]) key (length (w @ [c])) j" using lev_above_step [OF Cons.prems(1)] by simp
  from Cons.IH [OF this Cons.prems(2)] show ?case by simp
qed simp

lemma pruned:
  assumes "m < row_min (lev_row w key)"
  shows "m < edit_distance (w @ u) key"
proof -
  have "m < lev w key (length w) j" if "j \<le> length key" for j
  proof -
    have "lev w key (length w) j \<in> set (lev_row w key)" using that by (simp add: lev_row_def image_iff Bex_def less_Suc_eq_le del: upt_Suc) blast
    from row_min_le [OF this] assms show ?thesis by simp
  qed
  then show ?thesis unfolding edit_distance_def by (intro lev_above [where n = "length key"]) auto
qed

section \<open>Fuzzy search\<close>

definition close_values :: "bytes \<Rightarrow> nat \<Rightarrow> bytes \<Rightarrow> (bytes \<times> u64) list \<Rightarrow> u64 list" where
  "close_values key m w es = map snd (filter (\<lambda>e. edit_distance (w @ fst e) key \<le> m) es)"

lemma close_values_Nil [simp]: "close_values key m w [] = []"
  by (simp add: close_values_def)

lemma close_values_append: "close_values key m w (es @ es') = close_values key m w es @ close_values key m w es'"
  by (simp add: close_values_def)

lemma close_values_cons: "close_values key m w (map (\<lambda>(k, v). (c # k, v)) es) = close_values key m (w @ [c]) es"
  by (induction es) (auto simp: close_values_def)

lemma fuzzy_entries:
  shows "length acc \<le> mx \<Longrightarrow> row = lev_row w key \<Longrightarrow>
      fuzzy_dfs mx key m row n acc = take mx (acc @ close_values key m w (fentries n))"
    and "length acc \<le> mx \<Longrightarrow> row = lev_row w key \<Longrightarrow>
      fuzzy_children mx key m row i cs acc = take mx (acc @ close_values key m w (fentries_from i cs))"
proof (induction mx key m row n acc and mx key m row i cs acc arbitrary: w and w rule: fuzzy_dfs_fuzzy_children.induct)
  case (1 mx key m row cs v h acc)
  let ?acc = "if h \<and> row ! length key \<le> m then acc @ [v] else acc"
  have "row ! length key = edit_distance w key" using 1(3) by (simp add: lev_row_def edit_distance_def nth_append)
  then have e: "acc @ close_values key m w (fentries (Fst_Node cs v h)) = ?acc @ close_values key m w (fentries_from 0 cs)"
    by (simp add: close_values_def)
  show ?case
  proof (cases "length acc < mx")
    case True
    then show ?thesis using 1(1) [of w] 1(3) e by auto
  qed (use 1(2) in auto)
next
  case (2 mx key m row i acc)
  then show ?case by (simp add: close_values_def)
next
  case (3 mx key m row i c cs acc)
  show ?case
  proof (cases "length acc < mx")
    case True
    let ?row = "next_row (word_of_nat i) key row"
    let ?acc = "case c of None \<Rightarrow> acc | Some n \<Rightarrow> if row_min ?row > m then acc else fuzzy_dfs mx key m ?row n acc"
    let ?xs = "case c of None \<Rightarrow> [] | Some n \<Rightarrow> close_values key m (w @ [word_of_nat i]) (fentries n)"
    have r: "?row = lev_row (w @ [word_of_nat i]) key" using 3(4) next_row_lev by simp
    have a: "?acc = take mx (acc @ ?xs)"
    proof (cases c)
      case (Some n)
      show ?thesis
      proof (cases "row_min ?row > m")
        case True
        then have "close_values key m (w @ [word_of_nat i]) es = []" for es
          using pruned [of m "w @ [word_of_nat i]" key] r by (auto simp: close_values_def filter_empty_conv not_le)
        then show ?thesis using Some True 3(3) by simp
      next
        case False
        then show ?thesis using 3(1) [OF _ Some refl, of "w @ [word_of_nat i]"] \<open>length acc < mx\<close> 3(3) r Some by simp
      qed
    qed (use 3(3) in simp)
    have la: "length ?acc \<le> mx" unfolding a by simp
    have "fuzzy_children mx key m row i (c # cs) acc = fuzzy_children mx key m row (Suc i) cs ?acc"
      using True by (simp add: Let_def cong: option.case_cong)
    also have "\<dots> = take mx (?acc @ close_values key m w (fentries_from (Suc i) cs))"
      by (rule 3(2) [unfolded Let_def, OF _ la 3(4)]) (use True in simp)
    also have "\<dots> = take mx ((acc @ ?xs) @ close_values key m w (fentries_from (Suc i) cs))"
      unfolding a by (rule take_take_append)
    also have "(acc @ ?xs) @ close_values key m w (fentries_from (Suc i) cs) = acc @ close_values key m w (fentries_from i (c # cs))"
      by (simp add: close_values_append close_values_cons split: option.splits)
    finally show ?thesis .
  qed (use 3(3) in auto)
qed

section \<open>The dictionary as a store\<close>

text \<open>The key counter counts the entries, and every node has its 256 children.\<close>

definition fst_inv :: "kanbudb_fst \<Rightarrow> bool" where
  "fst_inv t \<longleftrightarrow> wf_fst (froot t) \<and> fsize t = length (fentries (froot t))"

lemma fst_get_entries: "fst_inv t \<Longrightarrow> snd (fst_get t key) = map_of (fentries (froot t)) key"
  using descend_entries [of "froot t" key] by (auto simp: fst_inv_def fst_get_def split: option.splits)

lemma fst_get_rc: "fst (fst_get t key) = (if snd (fst_get t key) = None then KANBUDB_ERR_NOTFOUND else KANBUDB_OK)"
  by (simp add: fst_get_def split: option.splits)

lemma entries_distinct: "wf_fst n \<Longrightarrow> distinct (keys_of (fentries n))"
  using entries_sorted(1) strict_sorted_iff by blast

lemma insert_ok:
  assumes "fst_inv t" and "length key \<le> FST_MAX_KEY_LEN"
  shows "snd (fst_insert t key v) = KANBUDB_OK \<and> fst_inv (fst (fst_insert t key v)) \<and>
    map_of (fentries (froot (fst (fst_insert t key v)))) = (map_of (fentries (froot t)))(key \<mapsto> v)"
proof -
  obtain r m a where i: "fnode_insert key v (froot t) = (r, m, a)" by (cases "fnode_insert key v (froot t)")
  have wf: "wf_fst (froot t)" using assms(1) by (simp add: fst_inv_def)
  note e = insert_entries [OF wf i]
  have n: "length (fentries x) = card (dom (map_of (fentries x)))" if "wf_fst x" for x
    using distinct_card [OF entries_distinct [OF that]] by (simp add: dom_map_of_conv_image_fst)
  have "card (dom ((map_of (fentries (froot t)))(key \<mapsto> v))) =
      card (dom (map_of (fentries (froot t)))) + (if map_of (fentries (froot t)) key = None then 1 else 0)"
    by (auto simp: card_insert_if finite_dom_map_of domIff)
  then have "length (fentries r) = length (fentries (froot t)) + a" using n [of r] n [OF wf] e by simp
  then show ?thesis using e i assms by (simp add: fst_insert_def fst_inv_def)
qed

lemma fst_create_ok: "fst_inv fst_create \<and> fentries (froot fst_create) = []"
  using wf_create by (simp add: fst_inv_def fst_create_def)

interpretation ft: keyed_store "\<lambda>t k. snd (fst_get t k)" "\<lambda>t k v. fst (fst_insert t k v)" fst_inv
    "\<lambda>t k. length k \<le> FST_MAX_KEY_LEN"
  using insert_ok by unfold_locales (auto simp: fun_eq_iff fst_get_entries)

fun insert_all :: "kanbudb_fst \<Rightarrow> (bytes \<times> u64) list \<Rightarrow> kanbudb_fst" where
  "insert_all t [] = t"
| "insert_all t ((k, v) # ps) = insert_all (fst (fst_insert t k v)) ps"

lemma insert_all_inv: "fst_inv t \<Longrightarrow> fst_inv (insert_all t ps)"
proof (induction ps arbitrary: t)
  case (Cons p ps)
  then show ?case
    using insert_ok [of t "fst p" "snd p"] by (cases p) (auto simp: fst_insert_def not_le)
qed simp

section \<open>Properties\<close>

text \<open>
  Inserting a term of at most 256 bytes and looking it up: the lookup returns what was
  inserted last, every other term is answered as before, longer terms are refused without
  a change, and the size counter is the number of distinct terms.
\<close>

theorem fst_insert_get:
  assumes "fst_inv t" and "fst_insert t key v = (t', rc)"
  shows "fst_inv t' \<and> rc = (if length key \<le> 256 then KANBUDB_OK else KANBUDB_ERR_INVAL) \<and>
    (\<forall>k. fst_get t' k = (if k = key \<and> rc = KANBUDB_OK then (KANBUDB_OK, Some v) else fst_get t k)) \<and>
    fst_size t' = card {k. snd (fst_get t' k) \<noteq> None}"
proof -
  have sz: "fst_size x = card {k. snd (fst_get x k) \<noteq> None}" if "fst_inv x" for x
    using distinct_card [OF entries_distinct, of "froot x"] that
    by (simp add: fst_get_entries fst_size_def fst_inv_def dom_map_of_conv_image_fst [symmetric] dom_def)
  show ?thesis
  proof (cases "length key \<le> 256")
    case True
    then have t': "fst_inv t'" "rc = KANBUDB_OK" "\<And>k. snd (fst_get t' k) = (if k = key then Some v else snd (fst_get t k))"
      using insert_ok [OF assms(1), of key v] assms by (auto simp: FST_MAX_KEY_LEN_def fst_get_entries)
    have "fst_get t' k = (if k = key then (KANBUDB_OK, Some v) else fst_get t k)" for k
      using t'(3) [of k] fst_get_rc [of t' k] fst_get_rc [of t k] by (cases "fst_get t' k"; cases "fst_get t k") auto
    then show ?thesis using t' sz True by simp
  next
    case False
    then show ?thesis using assms sz by (auto simp: fst_insert_def FST_MAX_KEY_LEN_def)
  qed
qed

theorem fst_insert_get_witness:
  "fst_get (fst (fst_insert fst_create [104, 105] 7)) [104, 105] = (KANBUDB_OK, Some 7) \<and>
   fst_get (fst (fst_insert fst_create [104, 105] 7)) [104] = (KANBUDB_ERR_NOTFOUND, None)"
proof -
  have i: "fst_insert fst_create [104, 105] 7 = (fst (fst_insert fst_create [104, 105] 7), snd (fst_insert fst_create [104, 105] 7))" by simp
  have "snd (fst_get fst_create [104]) = None" using fst_get_entries fst_create_ok by simp
  then have "fst_get fst_create [104] = (KANBUDB_ERR_NOTFOUND, None)" using fst_get_rc [of fst_create "[104]"] by (simp add: prod_eq_iff)
  then show ?thesis using fst_insert_get [OF conjunct1 [OF fst_create_ok] i] by simp
qed

text \<open>
  Prefix search is complete and ordered: it returns the values of exactly the terms that
  begin with the prefix, in ascending byte order of the terms, cut off after \<^verbatim>\<open>max_results\<close>.
\<close>

theorem fst_prefix_search_exact:
  assumes "fst_inv t"
  shows "fst_prefix_search t p n = take (nat n) (map snd (filter (\<lambda>e. prefix p (fst e)) (fentries (froot t)))) \<and>
    ssorted (keys_of (fentries (froot t))) \<and> map_of (fentries (froot t)) = (\<lambda>k. snd (fst_get t k))"
proof -
  have wf: "wf_fst (froot t)" using assms by (simp add: fst_inv_def)
  have c: "map (snd \<circ> (\<lambda>(k, v). (p @ k, v))) es = map snd es" for es :: "(bytes \<times> u64) list" by auto
  show ?thesis
    using descend_prefix [OF wf, of p] entries_sorted(1) [OF wf] fst_get_entries [OF assms]
    by (auto simp: c fst_prefix_search_def collect_entries(1) fun_eq_iff split: option.splits)
qed

definition demo_fst :: kanbudb_fst where
  "demo_fst = insert_all fst_create [([99, 97, 114], 1), ([99, 97, 116], 2), ([100, 111, 103], 3)]"

theorem fst_prefix_search_exact_witness:
  "fst_prefix_search demo_fst [99, 97] 5 = [1, 2]"
proof -
  have "fst_inv demo_fst" using insert_all_inv fst_create_ok by (simp add: demo_fst_def del: insert_all.simps)
  moreover have "fentries (froot demo_fst) = [([99, 97, 114], 1), ([99, 97, 116], 2), ([100, 111, 103], 3)]" by code_simp
  ultimately show ?thesis using fst_prefix_search_exact [of demo_fst "[99, 97]" 5] by simp
qed

text \<open>
  C31. Fuzzy search computes the Levenshtein distance: it returns the values of exactly the terms
  within \<^verbatim>\<open>max_edits\<close> edits of the key, in ascending order of the terms, cut off after
  \<^verbatim>\<open>max_results\<close>; the subtrees it skips contain no such term.
\<close>

theorem fst_fuzzy_search_exact:
  assumes "length key \<le> 256" and "0 \<le> e"
  shows "fst_fuzzy_search t key e n =
    take (nat n) (map snd (filter (\<lambda>p. edit_distance (fst p) key \<le> nat e) (fentries (froot t))))"
proof (cases "n \<le> 0")
  case False
  have "fuzzy_dfs (nat n) key (nat e) (lev_row [] key) (froot t) [] = take (nat n) (close_values key (nat e) [] (fentries (froot t)))"
    using fuzzy_entries(1) [of "[]" "nat n" "lev_row [] key" "[]" key "nat e" "froot t"] by simp
  then show ?thesis
    using assms False by (simp add: fst_fuzzy_search_def Let_def FST_MAX_KEY_LEN_def lev_row_start close_values_def del: upt_Suc)
qed (simp add: fst_fuzzy_search_def)

theorem fst_fuzzy_search_exact_witness:
  "fst_fuzzy_search demo_fst [99, 97, 98] 1 5 = [1, 2]"
proof -
  have "fentries (froot demo_fst) = [([99, 97, 114], 1), ([99, 97, 116], 2), ([100, 111, 103], 3)]" by code_simp
  moreover have "edit_distance [99, 97, 114] [99, 97, 98] = 1" "edit_distance [99, 97, 116] [99, 97, 98] = 1"
    "edit_distance [100, 111, 103] [99, 97, 98] = 3"
    by code_simp+
  ultimately show ?thesis using fst_fuzzy_search_exact [of "[99, 97, 98]" 1 demo_fst 5] by simp
qed

end
