(* ===== verification/Fts.thy ===== *)
theory Fts
  imports Fst Db_Core
begin

unbundle bit_operations_syntax

text \<open>
  The full-text subsystem: the tokenizer of \<^verbatim>\<open>src/src/fts/tokenizer.c\<close>, the query parser of
  \<^verbatim>\<open>src/src/fts/parser.c\<close>, the inverted index of \<^verbatim>\<open>src/src/fts/index.c\<close> over the term dictionary, and
  the search entry point of \<^verbatim>\<open>src/src/core/db.c\<close>. Texts are byte lists; a C string is a list without
  a zero byte. Character classes are those of the C locale. The double that \<^verbatim>\<open>atof\<close> returns is a
  parameter of the parser.
\<close>

section \<open>Character classes\<close>

definition is_digit :: "byte \<Rightarrow> bool" where "is_digit c \<longleftrightarrow> 48 \<le> c \<and> c \<le> 57"
definition is_upper :: "byte \<Rightarrow> bool" where "is_upper c \<longleftrightarrow> 65 \<le> c \<and> c \<le> 90"
definition is_lower :: "byte \<Rightarrow> bool" where "is_lower c \<longleftrightarrow> 97 \<le> c \<and> c \<le> 122"
definition is_alpha :: "byte \<Rightarrow> bool" where "is_alpha c \<longleftrightarrow> is_upper c \<or> is_lower c"
definition is_blank :: "byte \<Rightarrow> bool" where "is_blank c \<longleftrightarrow> c = 32 \<or> (9 \<le> c \<and> c \<le> 13)"
definition to_lower :: "byte \<Rightarrow> byte" where "to_lower c = (if is_upper c then c + 32 else c)"

section \<open>Tokenizer\<close>

text \<open>
  \<^verbatim>\<open>struct kanbudb_tokenizer\<close>. The stem buffer is scratch space of one call and not part of the
  state; the word array doubles from \<^verbatim>\<open>INITIAL_WORDS_CAP\<close>.
\<close>

definition STEM_BUF_SIZE :: nat where "STEM_BUF_SIZE = 256"
definition INITIAL_WORDS_CAP :: nat where "INITIAL_WORDS_CAP = 64"

record kanbudb_tokenizer =
  stem_enabled :: bool
  stopwords :: "bytes list"
  tk_words :: "bytes list"
  words_cap :: nat

record kanbudb_token =
  tok_word :: bytes
  tok_len :: nat
  tok_pos :: nat

definition tokenizer_create :: kanbudb_tokenizer where
  "tokenizer_create = \<lparr>stem_enabled = False, stopwords = [], tk_words = [], words_cap = INITIAL_WORDS_CAP\<rparr>"

definition tokenizer_set_stemmer :: "kanbudb_tokenizer \<Rightarrow> bool \<Rightarrow> kanbudb_tokenizer" where
  "tokenizer_set_stemmer t enabled = t\<lparr>stem_enabled := enabled\<rparr>"

definition tokenizer_set_stopwords :: "kanbudb_tokenizer \<Rightarrow> bytes list option \<Rightarrow> int \<Rightarrow> kanbudb_tokenizer" where
  "tokenizer_set_stopwords t ws cnt =
     t\<lparr>stopwords := (case ws of Some l \<Rightarrow> if cnt > 0 then take (nat cnt) l else [] | None \<Rightarrow> [])\<rparr>"

definition is_token_char :: "byte \<Rightarrow> bool" where
  "is_token_char c \<longleftrightarrow> is_alpha c \<or> is_digit c \<or> c = 39"

definition has_suffix :: "bytes \<Rightarrow> bytes \<Rightarrow> bool" where
  "has_suffix word suffix =
     (if length word < length suffix then False
      else memcmp (drop (length word - length suffix) word) suffix (length suffix) = 0)"

text \<open>The table of \<^verbatim>\<open>stem_english\<close>: ing, ed, ly, es, s, er, or.\<close>

definition suffixes :: "bytes list" where
  "suffixes = [[105, 110, 103], [101, 100], [108, 121], [101, 115], [115], [101, 114], [111, 114]]"

fun stem_loop :: "bytes list \<Rightarrow> bytes \<Rightarrow> bytes" where
  "stem_loop [] word = word"
| "stem_loop (s # ss) word =
     (if has_suffix word s then
        (let new_len = length word - length s
         in if new_len < 3 then word
            else if new_len \<ge> 2 \<and> word ! (new_len - 1) = word ! (new_len - 2) \<and> is_alpha (word ! (new_len - 1))
            then take (new_len - 1) word else take new_len word)
      else stem_loop ss word)"

definition stem_english :: "bytes \<Rightarrow> bytes" where
  "stem_english word = (if length word < 3 then word else stem_loop suffixes word)"

definition is_stopword :: "kanbudb_tokenizer \<Rightarrow> bytes \<Rightarrow> bool" where
  "is_stopword t word \<longleftrightarrow> word \<in> set (stopwords t)"

definition add_word :: "kanbudb_tokenizer \<Rightarrow> bytes \<Rightarrow> kanbudb_tokenizer" where
  "add_word t w =
     (let t1 = (if length (tk_words t) \<ge> words_cap t then t\<lparr>words_cap := words_cap t * 2\<rparr> else t)
      in t1\<lparr>tk_words := tk_words t1 @ [w]\<rparr>)"

text \<open>The loop that copies a word into the stem buffer: the bytes copied and the rest of the text.\<close>

fun fill_buf :: "nat \<Rightarrow> bytes \<Rightarrow> bytes \<times> bytes" where
  "fill_buf j [] = ([], [])"
| "fill_buf j (c # cs) =
     (if is_token_char c \<and> j < STEM_BUF_SIZE - 1
      then (case fill_buf (Suc j) cs of (w, r) \<Rightarrow> (to_lower c # w, r)) else ([], c # cs))"

lemma fill_buf_rest: "length (snd (fill_buf j cs)) \<le> length cs"
  by (induction j cs rule: fill_buf.induct) (auto split: prod.splits)

lemma tok_progress:
  assumes "dropWhile (\<lambda>c. \<not> is_token_char c) text \<noteq> []"
  shows "length (dropWhile is_token_char (snd (fill_buf 0 (dropWhile (\<lambda>c. \<not> is_token_char c) text)))) < length text"
proof -
  obtain c cs where h: "dropWhile (\<lambda>c. \<not> is_token_char c) text = c # cs" using assms by (meson list.exhaust)
  then have "is_token_char c" by (metis dropWhile_eq_Cons_conv)
  then have "length (snd (fill_buf 0 (c # cs))) \<le> length cs"
    using fill_buf_rest [of "Suc 0" cs] by (auto simp: STEM_BUF_SIZE_def split: prod.splits)
  moreover have "length cs < length text" using h length_dropWhile_le [of "\<lambda>c. \<not> is_token_char c" "text"] by simp
  ultimately show ?thesis using h length_dropWhile_le [of is_token_char "snd (fill_buf 0 (c # cs))"] by simp
qed

text \<open>
  The main loop. \<open>count\<close> tokens are written; \<^verbatim>\<open>pos\<close> counts along with it.
\<close>

function tok_loop :: "kanbudb_tokenizer \<Rightarrow> bytes \<Rightarrow> nat \<Rightarrow> kanbudb_token list \<Rightarrow> kanbudb_tokenizer \<times> kanbudb_token list" where
  "tok_loop t text max_tokens tokens =
     (let here = dropWhile (\<lambda>c. \<not> is_token_char c) text
      in if here = [] then (t, tokens)
         else
           (let buf = fst (fill_buf 0 here); rest = dropWhile is_token_char (snd (fill_buf 0 here))
            in if buf = [] \<or> is_stopword t buf then tok_loop t rest max_tokens tokens
               else
                 (let w = (if stem_enabled t then stem_english buf else buf)
                  in if length w < 2 then tok_loop t rest max_tokens tokens
                     else
                       (let t1 = add_word t w;
                            tokens1 = tokens @ [\<lparr>tok_word = w, tok_len = length w, tok_pos = length tokens\<rparr>]
                        in if length tokens1 \<ge> max_tokens then (t1, tokens1) else tok_loop t1 rest max_tokens tokens1))))"
  by pat_completeness auto
termination
  by (relation "measure (\<lambda>(t, text, m, ts). length text)") (use tok_progress in simp_all)

definition tokenizer_tokenize ::
  "kanbudb_tokenizer \<Rightarrow> bytes \<Rightarrow> int \<Rightarrow> kanbudb_tokenizer \<times> kanbudb_token list" where
  "tokenizer_tokenize t text max_tokens = (if max_tokens \<le> 0 then (t, []) else tok_loop t text (nat max_tokens) [])"

section \<open>Query parser\<close>

datatype fts_query_op =
    FTS_TERM | FTS_PHRASE | FTS_FUZZY | FTS_BOOLEAN_AND | FTS_BOOLEAN_OR | FTS_BOOLEAN_NOT | FTS_RANGE | FTS_BOOST

record 'd fts_query_node =
  q_op :: fts_query_op
  q_field :: bytes
  q_text :: bytes
  q_text2 :: bytes
  q_boost :: 'd
  q_fuzzy :: int

definition blank_node :: "'d \<Rightarrow> fts_query_op \<Rightarrow> 'd fts_query_node" where
  "blank_node one op = \<lparr>q_op = op, q_field = [], q_text = [], q_text2 = [], q_boost = one, q_fuzzy = 0\<rparr>"

text \<open>\<^verbatim>\<open>strncasecmp\<close> with AND, OR and NOT.\<close>

definition is_boolean_op :: "bytes \<Rightarrow> fts_query_op option" where
  "is_boolean_op s =
     (if map to_lower s = [97, 110, 100] then Some FTS_BOOLEAN_AND
      else if map to_lower s = [111, 114] then Some FTS_BOOLEAN_OR
      else if map to_lower s = [110, 111, 116] then Some FTS_BOOLEAN_NOT
      else None)"

text \<open>Copying into one of the 256-byte fields until a stop byte, the end or the last place.\<close>

fun copy_until :: "(byte \<Rightarrow> bool) \<Rightarrow> nat \<Rightarrow> bytes \<Rightarrow> bytes \<times> bytes" where
  "copy_until stop room [] = ([], [])"
| "copy_until stop room (c # cs) =
     (if \<not> stop c \<and> 0 < room then (case copy_until stop (room - 1) cs of (w, r) \<Rightarrow> (c # w, r)) else ([], c # cs))"

definition parse_phrase :: "'d \<Rightarrow> bytes \<Rightarrow> 'd fts_query_node \<times> bytes" where
  "parse_phrase one p =
     (case copy_until (\<lambda>c. c = 34) 255 p of
        (t1, r) \<Rightarrow> ((blank_node one FTS_PHRASE)\<lparr>q_text := t1\<rparr>, (case r of c # r' \<Rightarrow> if c = 34 then r' else r | [] \<Rightarrow> [])))"

definition skip_to :: "bytes \<Rightarrow> bytes" where
  "skip_to p =
     (case p of
        [] \<Rightarrow> []
      | c # r \<Rightarrow>
          (case r of
             c1 # c2 # r2 \<Rightarrow> if (c = 84 \<or> c = 116) \<and> c1 = 79 \<and> (c2 = 84 \<or> c2 = 111 \<or> c2 = 116) then r2 else r
           | _ \<Rightarrow> r))"

definition parse_range :: "'d \<Rightarrow> bytes \<Rightarrow> 'd fts_query_node \<times> bytes" where
  "parse_range one p =
     (case copy_until (\<lambda>c. c = 84 \<or> c = 116) 255 (dropWhile is_blank p) of
        (t1, r) \<Rightarrow>
          (case copy_until (\<lambda>c. c = 93) 255 (dropWhile is_blank (skip_to r)) of
             (t2, r2) \<Rightarrow>
               ((blank_node one FTS_RANGE)\<lparr>q_text := t1, q_text2 := t2\<rparr>,
                (case r2 of c # r' \<Rightarrow> if c = 93 then r' else r2 | [] \<Rightarrow> []))))"

text \<open>The digits behind the tilde; a value beyond 32 bits is a signed overflow in the code.\<close>

fun fuzzy_number :: "int \<Rightarrow> bytes \<Rightarrow> int" where
  "fuzzy_number d [] = d"
| "fuzzy_number d (c # cs) = (if is_digit c then fuzzy_number (d * 10 + (int (unat c) - 48)) cs else d)"

text \<open>
  One word of the query: field, fuzzy distance and boost. \<open>after\<close> is the query behind the word,
  which \<^verbatim>\<open>atof\<close> can read too.
\<close>

definition parse_term :: "(bytes \<Rightarrow> 'd) \<Rightarrow> 'd \<Rightarrow> bytes \<Rightarrow> bytes \<Rightarrow> 'd fts_query_node" where
  "parse_term atof one word after =
     (let has_field = (58 \<in> set word);
          field = (if has_field then takeWhile (\<lambda>c. c \<noteq> 58) word else []);
          s1 = (if has_field then drop (Suc (length field)) word else word);
          is_fuzzy = (126 \<in> set s1);
          s2 = takeWhile (\<lambda>c. c \<noteq> 126) s1;
          dist = (if is_fuzzy then fuzzy_number 0 (drop (Suc (length s2)) s1) else 0);
          s3 = takeWhile (\<lambda>c. c \<noteq> 94) s2;
          boost = (if 94 \<in> set s2 then atof (drop (Suc (length s3)) s1 @ after) else one)
      in \<lparr>q_op = (if is_fuzzy then FTS_FUZZY else FTS_TERM), q_field = take 63 field, q_text = take 255 s3, q_text2 = [],
          q_boost = boost, q_fuzzy = dist\<rparr>)"

lemma copy_until_rest: "length (snd (copy_until stop room p)) \<le> length p"
  by (induction stop room p rule: copy_until.induct) (auto split: prod.splits)

lemma parse_phrase_rest: "length (snd (parse_phrase one p)) \<le> length p"
  using copy_until_rest [of "\<lambda>c. c = 34" 255 p] by (auto simp: parse_phrase_def split: prod.splits list.splits)

lemma skip_to_rest: "length (skip_to p) \<le> length p"
  by (auto simp: skip_to_def split: list.splits)

lemma parse_range_rest: "length (snd (parse_range one p)) \<le> length p"
proof -
  obtain t1 r where r: "copy_until (\<lambda>c. c = 84 \<or> c = 116) 255 (dropWhile is_blank p) = (t1, r)" by (meson surj_pair)
  obtain t2 r2 where r2: "copy_until (\<lambda>c. c = 93) 255 (dropWhile is_blank (skip_to r)) = (t2, r2)" by (meson surj_pair)
  have "length r \<le> length p"
    using copy_until_rest [of "\<lambda>c. c = 84 \<or> c = 116" 255 "dropWhile is_blank p"] length_dropWhile_le [of is_blank p] r by simp
  moreover have "length r2 \<le> length r"
    using copy_until_rest [of "\<lambda>c. c = 93" 255 "dropWhile is_blank (skip_to r)"] length_dropWhile_le [of is_blank "skip_to r"]
      skip_to_rest [of r] r2 by simp
  ultimately show ?thesis using r r2 by (auto simp: parse_range_def split: list.splits)
qed

definition ends_word :: "byte \<Rightarrow> bool" where
  "ends_word c \<longleftrightarrow> is_blank c \<or> c = 34"

lemma dropWhile_Cons_less: "dropWhile P p = c # r \<Longrightarrow> length r < length p"
  using length_dropWhile_le [of P p] by simp

function parse_loop :: "(bytes \<Rightarrow> 'd) \<Rightarrow> 'd \<Rightarrow> nat \<Rightarrow> 'd fts_query_node list \<Rightarrow> bytes \<Rightarrow> 'd fts_query_node list" where
  "parse_loop atof one max_nodes nodes p =
     (if length nodes \<ge> max_nodes then nodes
      else
        (case dropWhile is_blank p of
           [] \<Rightarrow> nodes
         | c # r \<Rightarrow>
             if c = 34 then parse_loop atof one max_nodes (nodes @ [fst (parse_phrase one r)]) (snd (parse_phrase one r))
             else if c = 91 then parse_loop atof one max_nodes (nodes @ [fst (parse_range one r)]) (snd (parse_range one r))
             else
               (let word = takeWhile (\<lambda>x. \<not> ends_word x) (c # r); after = dropWhile (\<lambda>x. \<not> ends_word x) r
                in case is_boolean_op word of
                     Some op \<Rightarrow>
                       if nodes \<noteq> [] then parse_loop atof one max_nodes (nodes @ [blank_node one op]) after
                       else parse_loop atof one max_nodes (nodes @ [parse_term atof one word after]) after
                   | None \<Rightarrow> parse_loop atof one max_nodes (nodes @ [parse_term atof one word after]) after)))"
  by pat_completeness auto
termination
proof (relation "measure (\<lambda>(a, b, m, ns, p). length p)", goal_cases)
  case (2 atof one m ns p c r)
  then show ?case using dropWhile_Cons_less [of is_blank p c r] parse_phrase_rest [of one r] by simp
next
  case (3 atof one m ns p c r)
  then show ?case using dropWhile_Cons_less [of is_blank p c r] parse_range_rest [of one r] by simp
next
  case (4 atof one m ns p c r)
  then show ?case using dropWhile_Cons_less [of is_blank p c r] length_dropWhile_le [of "\<lambda>x. \<not> ends_word x" r] by simp
next
  case (5 atof one m ns p c r)
  then show ?case using dropWhile_Cons_less [of is_blank p c r] length_dropWhile_le [of "\<lambda>x. \<not> ends_word x" r] by simp
next
  case (6 atof one m ns p c r)
  then show ?case using dropWhile_Cons_less [of is_blank p c r] length_dropWhile_le [of "\<lambda>x. \<not> ends_word x" r] by simp
qed simp

definition fts_query_parse :: "(bytes \<Rightarrow> 'd) \<Rightarrow> 'd \<Rightarrow> bytes \<Rightarrow> int \<Rightarrow> 'd fts_query_node list" where
  "fts_query_parse atof one query max_nodes = (if max_nodes \<le> 0 then [] else parse_loop atof one (nat max_nodes) [] query)"

section \<open>Inverted index\<close>

record kanbudb_fts_index =
  term_dict :: kanbudb_fst
  next_doc_id :: u64
  total_docs :: int
  total_terms :: int

definition fts_index_create :: kanbudb_fts_index where
  "fts_index_create = \<lparr>term_dict = fst_create, next_doc_id = 0, total_docs = 0, total_terms = 0\<rparr>"

definition encode_posting :: "u64 \<Rightarrow> u64 \<Rightarrow> u64" where
  "encode_posting doc_id wpos = push_bit 16 doc_id OR wpos"

text \<open>The loop over the terms, each possibly null, with its position.\<close>

fun add_terms :: "u64 \<Rightarrow> (bytes option \<times> u64) list \<Rightarrow> kanbudb_fts_index \<Rightarrow> kanbudb_fts_index \<times> rc" where
  "add_terms doc_id [] idx = (idx, KANBUDB_OK)"
| "add_terms doc_id ((term, wpos) # ts) idx =
     (case term of
        None \<Rightarrow> add_terms doc_id ts idx
      | Some w \<Rightarrow>
          (case fst_insert (term_dict idx) w (encode_posting doc_id wpos) of
             (d, rc) \<Rightarrow>
               if rc \<noteq> KANBUDB_OK then (idx\<lparr>term_dict := d\<rparr>, rc)
               else add_terms doc_id ts (idx\<lparr>term_dict := d, total_terms := total_terms idx + 1\<rparr>)))"

definition fts_index_add_document ::
  "kanbudb_fts_index \<Rightarrow> bytes option list \<Rightarrow> u64 list option \<Rightarrow> int \<Rightarrow> kanbudb_fts_index \<times> rc" where
  "fts_index_add_document idx terms positions num_terms =
     (if num_terms < 0 then (idx, KANBUDB_ERR_INVAL)
      else
        (let wpos = (case positions of None \<Rightarrow> replicate (nat num_terms) 0 | Some ps \<Rightarrow> ps)
         in add_terms (next_doc_id idx) (take (nat num_terms) (zip terms wpos))
              (idx\<lparr>next_doc_id := next_doc_id idx + 1, total_docs := total_docs idx + 1\<rparr>)))"

definition fts_index_search :: "kanbudb_fts_index \<Rightarrow> bytes \<Rightarrow> int \<Rightarrow> u64 list" where
  "fts_index_search idx term max_results =
     (if max_results \<le> 0 then []
      else case fst_get (term_dict idx) term of
             (KANBUDB_OK, Some encoded) \<Rightarrow> [drop_bit 16 encoded]
           | _ \<Rightarrow> [])"

definition fts_index_search_fuzzy :: "kanbudb_fts_index \<Rightarrow> bytes \<Rightarrow> int \<Rightarrow> int \<Rightarrow> u64 list" where
  "fts_index_search_fuzzy idx term max_edits max_results =
     (if max_results \<le> 0 \<or> max_edits < 0 then []
      else map (drop_bit 16)
             (fst_fuzzy_search (term_dict idx) term max_edits (if max_results > 256 then 256 else max_results)))"

section \<open>Entry points of the database\<close>

text \<open>The index hangs off the database object; it is passed beside it.\<close>

definition with_error :: "kanbudb_db \<Rightarrow> rc \<Rightarrow> kanbudb_db \<times> rc" where
  "with_error db rc = (db\<lparr>d_last_error := rc\<rparr>, rc)"

definition db_fts_create_index :: "kanbudb_db \<Rightarrow> string \<Rightarrow> kanbudb_db \<times> rc" where
  "db_fts_create_index db table =
     (if find_table (d_tables db) table < 0 then with_error db KANBUDB_ERR_NOTFOUND else with_error db KANBUDB_OK)"

definition db_fts_drop_index :: "kanbudb_db \<Rightarrow> kanbudb_db \<times> rc" where
  "db_fts_drop_index db = with_error db KANBUDB_OK"

text \<open>The loop that collects the document numbers of one node without repetition.\<close>

fun add_results :: "u64 list \<Rightarrow> u64 list \<Rightarrow> u64 list" where
  "add_results docs [] = docs"
| "add_results docs (r # rs) =
     (if length docs < 1024 then add_results (if r \<in> set docs then docs else docs @ [r]) rs else docs)"

definition node_results :: "kanbudb_fts_index \<Rightarrow> 'd fts_query_node \<Rightarrow> u64 list" where
  "node_results idx node =
     (if q_op node = FTS_FUZZY
      then fts_index_search_fuzzy idx (q_text node) (if q_fuzzy node > 0 then q_fuzzy node else 1) 256
      else if q_op node = FTS_TERM then fts_index_search idx (q_text node) 256
      else [])"

text \<open>The result set holds the document numbers; all scores are zero.\<close>

definition db_fts_search ::
  "(bytes \<Rightarrow> 'd) \<Rightarrow> 'd \<Rightarrow> kanbudb_db \<Rightarrow> kanbudb_fts_index option \<Rightarrow> string \<Rightarrow> bytes \<Rightarrow> kanbudb_db \<times> rc \<times> u64 list option" where
  "db_fts_search atof one db fts_index table query =
     (let failed = (\<lambda>e. case with_error db e of (db', rc) \<Rightarrow> (db', rc, None))
      in if find_table (d_tables db) table < 0 then failed KANBUDB_ERR_NOTFOUND
         else case fts_index of
                None \<Rightarrow> failed KANBUDB_ERR_INVAL
              | Some idx \<Rightarrow>
                  (let nodes = fts_query_parse atof one query 64
                   in if nodes = [] then failed KANBUDB_ERR_INVAL
                      else (case with_error db KANBUDB_OK of
                              (db', rc) \<Rightarrow> (db', rc, Some (foldl add_results [] (map (node_results idx) nodes))))))"

end
