(* ===== verification/Fts_Correct.thy ===== *)
theory Fts_Correct
  imports Fts Fst_Correct
begin

unbundle bit_operations_syntax

text \<open>
  Correctness of the full-text subsystem: the tokenizer against a description of the words of a
  text, the parser on arbitrary queries and on lists of plain words, and the whole path from
  added documents to the answer of a search.
\<close>

section \<open>Tokenizer\<close>

text \<open>The maximal runs of token characters.\<close>

fun word_runs :: "bytes \<Rightarrow> bytes \<Rightarrow> bytes list" where
  "word_runs cur [] = (if cur = [] then [] else [cur])"
| "word_runs cur (c # cs) =
     (if is_token_char c then word_runs (cur @ [c]) cs else (if cur = [] then [] else [cur]) @ word_runs [] cs)"

definition stemmed :: "kanbudb_tokenizer \<Rightarrow> bytes \<Rightarrow> bytes" where
  "stemmed t w = (if stem_enabled t then stem_english w else w)"

definition kept_words :: "kanbudb_tokenizer \<Rightarrow> bytes list \<Rightarrow> bytes list" where
  "kept_words t runs =
     filter (\<lambda>w. 2 \<le> length w) (map (stemmed t)
       (filter (\<lambda>w. w \<notin> set (stopwords t)) (map (\<lambda>r. map to_lower (take 255 r)) runs)))"

lemma runs_skip: "word_runs [] (dropWhile (\<lambda>c. \<not> is_token_char c) xs) = word_runs [] xs"
  by (induction xs) auto

lemma runs_word: "word_runs cur xs =
  (if cur @ takeWhile is_token_char xs = [] then [] else [cur @ takeWhile is_token_char xs]) @ word_runs [] (dropWhile is_token_char xs)"
  by (induction xs arbitrary: cur) auto

lemma fill_buf_spec: "j \<le> 255 \<Longrightarrow>
  fst (fill_buf j xs) = map to_lower (take (255 - j) (takeWhile is_token_char xs)) \<and>
  dropWhile is_token_char (snd (fill_buf j xs)) = dropWhile is_token_char xs"
proof (induction j xs rule: fill_buf.induct)
  case (2 j c cs)
  show ?case
  proof (cases "is_token_char c \<and> j < 255")
    case True
    then have "255 - j = Suc (255 - Suc j)" by linarith
    then show ?thesis using 2 True by (auto simp: STEM_BUF_SIZE_def split: prod.splits)
  next
    case False
    then show ?thesis using 2 by (auto simp: STEM_BUF_SIZE_def)
  qed
qed simp

lemma add_word_fields [simp]:
  "stopwords (add_word t w) = stopwords t" "stem_enabled (add_word t w) = stem_enabled t"
  "tk_words (add_word t w) = tk_words t @ [w]"
  by (simp_all add: add_word_def Let_def)

lemma stemmed_add_word [simp]: "stemmed (add_word t w) = stemmed t"
  by (simp add: stemmed_def fun_eq_iff)

lemma kept_add_word [simp]: "kept_words (add_word t w) = kept_words t"
  by (simp add: kept_words_def fun_eq_iff)

definition words_fit :: "kanbudb_tokenizer \<Rightarrow> bool" where
  "words_fit t \<longleftrightarrow> 0 < words_cap t \<and> length (tk_words t) \<le> words_cap t"

lemma add_word_fit: "words_fit t \<Longrightarrow> words_fit (add_word t w)"
  by (auto simp: words_fit_def add_word_def Let_def)

definition tok_spec :: "kanbudb_tokenizer \<Rightarrow> kanbudb_token list \<Rightarrow> bytes list \<Rightarrow> kanbudb_tokenizer \<times> kanbudb_token list \<Rightarrow> bool" where
  "tok_spec t tokens ws r \<longleftrightarrow>
     (\<exists>new. snd r = tokens @ new \<and> map tok_word new = ws \<and> map tok_len new = map length ws \<and>
        map tok_pos new = [length tokens..<length tokens + length ws] \<and> tk_words (fst r) = tk_words t @ ws \<and>
        stopwords (fst r) = stopwords t \<and> stem_enabled (fst r) = stem_enabled t \<and> (words_fit t \<longrightarrow> words_fit (fst r)))"

lemma tok_spec_Nil: "tok_spec t tokens [] (t, tokens)"
  by (simp add: tok_spec_def)

lemma tok_spec_Cons:
  assumes "tok_spec (add_word t w) (tokens @ [\<lparr>tok_word = w, tok_len = length w, tok_pos = length tokens\<rparr>]) ws r"
  shows "tok_spec t tokens (w # ws) r"
proof -
  obtain new where "snd r = (tokens @ [\<lparr>tok_word = w, tok_len = length w, tok_pos = length tokens\<rparr>]) @ new"
    "map tok_word new = ws" "map tok_len new = map length ws" "map tok_pos new = [Suc (length tokens)..<Suc (length tokens) + length ws]"
    "tk_words (fst r) = tk_words t @ [w] @ ws" "stopwords (fst r) = stopwords t" "stem_enabled (fst r) = stem_enabled t"
    "words_fit t \<longrightarrow> words_fit (fst r)"
    using assms add_word_fit [of t w] unfolding tok_spec_def by auto
  then show ?thesis unfolding tok_spec_def
    by (intro exI [of _ "\<lparr>tok_word = w, tok_len = length w, tok_pos = length tokens\<rparr> # new"]) (simp add: upt_conv_Cons del: upt_Suc)
qed

declare tok_loop.simps [simp del]

lemma tok_loop_spec:
  assumes "length tokens < m"
  shows "tok_spec t tokens (take (m - length tokens) (kept_words t (word_runs [] xs))) (tok_loop t xs m tokens)"
  using assms
proof (induction t xs m tokens rule: tok_loop.induct)
  case (1 t xs m tokens)
  let ?here = "dropWhile (\<lambda>c. \<not> is_token_char c) xs"
  show ?case
  proof (cases "?here = []")
    case True
    then have "word_runs [] xs = []" by (metis runs_skip word_runs.simps(1))
    then show ?thesis using True by (simp add: tok_loop.simps [of t xs] kept_words_def tok_spec_Nil)
  next
    case False
    let ?buf = "fst (fill_buf 0 ?here)" and ?rest = "dropWhile is_token_char (snd (fill_buf 0 ?here))"
    let ?run = "takeWhile is_token_char ?here"
    have buf: "?buf = map to_lower (take 255 ?run)" and rest: "?rest = dropWhile is_token_char ?here"
      using fill_buf_spec [of 0 ?here] by simp_all
    have ne: "?run \<noteq> []" using False by (metis hd_dropWhile takeWhile_eq_Nil_iff)
    have runs: "word_runs [] xs = ?run # word_runs [] ?rest" using runs_word [of "[]" ?here] runs_skip [of xs] ne rest by simp
    have k: "kept_words t (word_runs [] xs) =
      (if ?buf \<in> set (stopwords t) \<or> length (stemmed t ?buf) < 2 then [] else [stemmed t ?buf]) @ kept_words t (word_runs [] ?rest)"
      by (simp add: runs kept_words_def buf)
    consider (skip) "?buf \<in> set (stopwords t) \<or> length (stemmed t ?buf) < 2" | (word) "?buf \<notin> set (stopwords t)" "\<not> length (stemmed t ?buf) < 2"
      by blast
    then show ?thesis
    proof cases
      case skip
      then have "tok_loop t xs m tokens = tok_loop t ?rest m tokens"
        using False by (subst tok_loop.simps) (auto simp: Let_def is_stopword_def stemmed_def)
      moreover have "tok_spec t tokens (take (m - length tokens) (kept_words t (word_runs [] ?rest))) (tok_loop t ?rest m tokens)"
        using skip 1(1) [OF refl False refl refl _ 1(4)] 1(2) [OF refl False refl refl _ refl _ 1(4)]
        by (auto simp: is_stopword_def stemmed_def)
      ultimately show ?thesis using skip k by simp
    next
      case word
      let ?w = "stemmed t ?buf"
      let ?tk = "tokens @ [\<lparr>tok_word = ?w, tok_len = length ?w, tok_pos = length tokens\<rparr>]"
      have nb: "\<not> (?buf = [] \<or> is_stopword t ?buf)" using word ne buf by (auto simp: is_stopword_def)
      have tl: "tok_loop t xs m tokens = (if length ?tk \<ge> m then (add_word t ?w, ?tk) else tok_loop (add_word t ?w) ?rest m ?tk)"
        using False nb word by (subst tok_loop.simps) (auto simp: Let_def stemmed_def)
      have tk: "take (m - length tokens) (kept_words t (word_runs [] xs)) = ?w # take (m - length ?tk) (kept_words t (word_runs [] ?rest))"
      proof -
        have "m - length tokens = Suc (m - length ?tk)" using 1(4) by simp
        then show ?thesis using word k by (simp del: length_append)
      qed
      show ?thesis
      proof (cases "length ?tk \<ge> m")
        case True
        then show ?thesis using tl tk tok_spec_Cons [OF tok_spec_Nil] by simp
      next
        case more: False
        have "tok_spec (add_word t ?w) ?tk (take (m - length ?tk) (kept_words (add_word t ?w) (word_runs [] ?rest))) (tok_loop (add_word t ?w) ?rest m ?tk)"
          using 1(3) [OF refl False refl refl nb refl _ refl refl] word(2) more by (simp add: stemmed_def)
        then show ?thesis using tok_spec_Cons tl tk more by simp
      qed
    qed
  qed
qed

section \<open>Parser\<close>

declare parse_loop.simps [simp del]

definition node_fits :: "'d fts_query_node \<Rightarrow> bool" where
  "node_fits n \<longleftrightarrow> length (q_field n) \<le> 63 \<and> length (q_text n) \<le> 255 \<and> length (q_text2 n) \<le> 255"

lemma copy_until_fits: "length (fst (copy_until stop room p)) \<le> room"
  by (induction stop room p rule: copy_until.induct) (auto split: prod.splits)

lemma phrase_fits: "node_fits (fst (parse_phrase one p))"
  using copy_until_fits [of "\<lambda>c. c = 34" 255 p] by (auto simp: parse_phrase_def blank_node_def node_fits_def split: prod.splits)

lemma range_fits: "node_fits (fst (parse_range one p))"
proof -
  obtain t1 r where r: "copy_until (\<lambda>c. c = 84 \<or> c = 116) 255 (dropWhile is_blank p) = (t1, r)" by (meson surj_pair)
  obtain t2 r2 where r2: "copy_until (\<lambda>c. c = 93) 255 (dropWhile is_blank (skip_to r)) = (t2, r2)" by (meson surj_pair)
  show ?thesis
    using r r2 copy_until_fits [of "\<lambda>c. c = 84 \<or> c = 116" 255 "dropWhile is_blank p"] copy_until_fits [of "\<lambda>c. c = 93" 255 "dropWhile is_blank (skip_to r)"]
    by (simp add: parse_range_def blank_node_def node_fits_def)
qed

lemma term_fits: "node_fits (parse_term atof one word after)" "node_fits (blank_node one op)"
  by (simp_all add: parse_term_def blank_node_def node_fits_def Let_def)

lemma parse_stop:
  assumes "m \<le> length nodes \<or> dropWhile is_blank p = []"
  shows "parse_loop atof one m nodes p = nodes"
  using assms by (subst parse_loop.simps) (auto simp del: dropWhile_eq_Nil_conv)

text \<open>Every turn of the loop appends one node that fits its fields and consumes part of the query.\<close>

lemma parse_step:
  assumes "length nodes < m" and cr: "dropWhile is_blank p = c # r"
  shows "\<exists>node r'. node_fits node \<and> length r' < length p \<and> parse_loop atof one m nodes p = parse_loop atof one m (nodes @ [node]) r'"
proof -
  let ?word = "takeWhile (\<lambda>x. \<not> ends_word x) (c # r)" and ?after = "dropWhile (\<lambda>x. \<not> ends_word x) r"
  have less: "length r < length p" by (rule dropWhile_Cons_less [OF cr])
  note st = parse_loop.simps [of atof one m nodes p]
  consider "c = 34" | "c = 91" | "c \<noteq> 34" "c \<noteq> 91" by blast
  then show ?thesis
  proof cases
    case 1
    then have "parse_loop atof one m nodes p = parse_loop atof one m (nodes @ [fst (parse_phrase one r)]) (snd (parse_phrase one r))"
      using st assms by simp
    then show ?thesis using phrase_fits parse_phrase_rest [of one r] less by (meson le_less_trans)
  next
    case 2
    then have "parse_loop atof one m nodes p = parse_loop atof one m (nodes @ [fst (parse_range one r)]) (snd (parse_range one r))"
      using st assms by simp
    then show ?thesis using range_fits parse_range_rest [of one r] less by (meson le_less_trans)
  next
    case 3
    have "length ?after < length p" using less length_dropWhile_le [of "\<lambda>x. \<not> ends_word x" r] by simp
    moreover have "\<exists>node. node_fits node \<and> parse_loop atof one m nodes p = parse_loop atof one m (nodes @ [node]) ?after"
    proof (cases "is_boolean_op ?word = None \<or> nodes = []")
      case True
      then have "parse_loop atof one m nodes p = parse_loop atof one m (nodes @ [parse_term atof one ?word ?after]) ?after"
        using st assms 3 by (auto simp: Let_def split: option.splits)
      then show ?thesis by (intro exI conjI) (rule term_fits(1))
    next
      case False
      then obtain op where "is_boolean_op ?word = Some op" by auto
      then have "parse_loop atof one m nodes p = parse_loop atof one m (nodes @ [blank_node one op]) ?after"
        using st assms 3 False by (simp add: Let_def)
      then show ?thesis by (intro exI conjI) (rule term_fits(2))
    qed
    ultimately show ?thesis by blast
  qed
qed

lemma parse_loop_fits:
  assumes "length nodes \<le> m" and "\<forall>n\<in>set nodes. node_fits n"
  shows "length (parse_loop atof one m nodes p) \<le> m \<and> (\<forall>n\<in>set (parse_loop atof one m nodes p). node_fits n)"
  using assms
proof (induction p arbitrary: nodes rule: length_induct)
  case (1 p)
  show ?case
  proof (cases "m \<le> length nodes \<or> dropWhile is_blank p = []")
    case True
    then show ?thesis using parse_stop [OF True] 1(2,3) by simp
  next
    case False
    then obtain c r where "dropWhile is_blank p = c # r" by (meson list.exhaust)
    then obtain node r' where n: "node_fits node" "length r' < length p"
      "parse_loop atof one m nodes p = parse_loop atof one m (nodes @ [node]) r'"
      using parse_step False by (metis not_le)
    then show ?thesis using 1(1) [rule_format, OF n(2), of "nodes @ [node]"] 1(2,3) False by auto
  qed
qed

text \<open>A word without any of the characters the query language uses.\<close>

definition plain_word :: "bytes \<Rightarrow> bool" where
  "plain_word w \<longleftrightarrow> w \<noteq> [] \<and> (\<forall>c\<in>set w. \<not> ends_word c \<and> c \<noteq> 58 \<and> c \<noteq> 126 \<and> c \<noteq> 94) \<and> hd w \<noteq> 91 \<and> is_boolean_op w = None"

lemma plain_term:
  assumes "plain_word w"
  shows "parse_term atof one w after = (blank_node one FTS_TERM)\<lparr>q_text := take 255 w\<rparr>"
proof -
  have "58 \<notin> set w" "126 \<notin> set w" "94 \<notin> set w" using assms by (auto simp: plain_word_def)
  moreover from this have "takeWhile (\<lambda>c. c \<noteq> 126) w = w" "takeWhile (\<lambda>c. c \<noteq> 94) w = w" by (auto simp: takeWhile_eq_all_conv)
  ultimately show ?thesis by (simp add: parse_term_def blank_node_def Let_def del: takeWhile_eq_all_conv)
qed

lemma parse_loop_words:
  assumes "\<forall>w\<in>set ws. plain_word w"
  shows "parse_loop atof one m nodes (concat (map (\<lambda>w. w @ [32]) ws)) =
    (if m \<le> length nodes then nodes
     else nodes @ take (m - length nodes) (map (\<lambda>w. (blank_node one FTS_TERM)\<lparr>q_text := take 255 w\<rparr>) ws))"
  using assms
proof (induction ws arbitrary: nodes)
  case Nil
  then show ?case by (simp add: parse_stop)
next
  case (Cons w ws)
  let ?q = "concat (map (\<lambda>w. w @ [32]) ws)"
  obtain c cs where w: "w = c # cs" using Cons.prems by (cases w) (auto simp: plain_word_def)
  have pw: "plain_word w" "\<forall>x\<in>set w. \<not> ends_word x" using Cons.prems by (auto simp: plain_word_def)
  have e: "ends_word 32" by (simp add: ends_word_def is_blank_def)
  have dw: "dropWhile is_blank (w @ 32 # ?q) = c # (cs @ 32 # ?q)" using pw(2) w by (auto simp: ends_word_def)
  have tw: "takeWhile (\<lambda>x. \<not> ends_word x) (c # cs @ 32 # ?q) = w" "dropWhile (\<lambda>x. \<not> ends_word x) (cs @ 32 # ?q) = 32 # ?q"
    using pw(2) e w by (auto simp: takeWhile_append takeWhile_eq_all_conv dropWhile_append)
  show ?case
  proof (cases "m \<le> length nodes")
    case True
    then show ?thesis by (simp add: parse_stop)
  next
    case False
    have c: "c \<noteq> 34" "c \<noteq> 91" using pw w by (auto simp: plain_word_def ends_word_def)
    have "parse_loop atof one m nodes (w @ 32 # ?q) = parse_loop atof one m (nodes @ [parse_term atof one w (32 # ?q)]) (32 # ?q)"
      using False c pw(1) by (subst parse_loop.simps) (simp only: dw list.case tw Let_def, simp add: plain_word_def)
    also have "\<dots> = parse_loop atof one m (nodes @ [parse_term atof one w (32 # ?q)]) ?q"
      by (subst (1 2) parse_loop.simps) (simp add: is_blank_def)
    finally have pl: "parse_loop atof one m nodes (w @ 32 # ?q) = parse_loop atof one m (nodes @ [(blank_node one FTS_TERM)\<lparr>q_text := take 255 w\<rparr>]) ?q"
      by (simp add: plain_term [OF pw(1)])
    have "m - length nodes = Suc (m - Suc (length nodes))" using False by simp
    then show ?thesis using Cons False pl by auto
  qed
qed

section \<open>Index\<close>

lemma posting_decode:
  assumes "unat d < 2 ^ 48" and "unat x < 2 ^ 16"
  shows "drop_bit 16 (encode_posting d x) = d"
proof -
  have d: "d = take_bit 48 d" using assms(1) by (simp add: word_unat_eq_iff unsigned_take_bit_eq take_bit_nat_eq_self)
  have x: "x = take_bit 16 x" using assms(2) by (simp add: word_unat_eq_iff unsigned_take_bit_eq take_bit_nat_eq_self)
  show ?thesis unfolding encode_posting_def
    by (rule bit_word_eqI, subst x, subst (2) d) (auto simp: bit_drop_bit_eq bit_or_iff bit_push_bit_iff bit_take_bit_iff)
qed

text \<open>The document an index answers for a term.\<close>

definition doc_of :: "kanbudb_fts_index \<Rightarrow> bytes \<Rightarrow> u64 option" where
  "doc_of idx w = map_option (drop_bit 16) (snd (fst_get (term_dict idx) w))"

type_synonym document = "(bytes \<times> u64) list"

definition doc_fits :: "document \<Rightarrow> bool" where
  "doc_fits d \<longleftrightarrow> (\<forall>(w, x)\<in>set d. length w \<le> 256 \<and> unat x < 2 ^ 16)"

lemma add_terms_spec:
  assumes "fst_inv (term_dict idx)" and "doc_fits d" and "unat doc < 2 ^ 48"
  shows "\<exists>idx'. add_terms doc (map (\<lambda>(w, x). (Some w, x)) d) idx = (idx', KANBUDB_OK) \<and> fst_inv (term_dict idx') \<and>
    next_doc_id idx' = next_doc_id idx \<and> doc_of idx' = (\<lambda>w. if w \<in> fst ` set d then Some doc else doc_of idx w)"
  using assms
proof (induction d arbitrary: idx)
  case (Cons p d)
  obtain w x where p: "p = (w, x)" by (cases p)
  have wx: "length w \<le> 256" "unat x < 2 ^ 16" "doc_fits d" using Cons.prems(2) by (auto simp: doc_fits_def p)
  have len: "length w \<le> FST_MAX_KEY_LEN" using wx(1) by (simp add: FST_MAX_KEY_LEN_def)
  let ?v = "encode_posting doc x"
  obtain t' rc where i: "fst_insert (term_dict idx) w ?v = (t', rc)" by (meson surj_pair)
  have t': "rc = KANBUDB_OK" "fst_inv t'" "snd (fst_get t' k) = (if k = w then Some ?v else snd (fst_get (term_dict idx) k))" for k
    using insert_ok [OF Cons.prems(1) len, of ?v] ft.put_get [OF Cons.prems(1) len, of ?v] by (simp_all add: i fun_eq_iff)
  let ?idx = "idx\<lparr>term_dict := t', total_terms := total_terms idx + 1\<rparr>"
  have d: "doc_of ?idx k = (if k = w then Some doc else doc_of idx k)" for k
    by (auto simp: doc_of_def t'(3) posting_decode [OF Cons.prems(3) wx(2)])
  obtain idx' where idx': "add_terms doc (map (\<lambda>(w, x). (Some w, x)) d) ?idx = (idx', KANBUDB_OK)" "fst_inv (term_dict idx')"
    "next_doc_id idx' = next_doc_id ?idx" "doc_of idx' = (\<lambda>w. if w \<in> fst ` set d then Some doc else doc_of ?idx w)"
    using Cons.IH [of ?idx] t'(2) wx(3) Cons.prems(3) by auto
  have "doc_of idx' = (\<lambda>k. if k \<in> fst ` set (p # d) then Some doc else doc_of idx k)" unfolding idx'(4) by (auto simp: d p)
  then show ?case using idx'(1-3) i t'(1) by (simp add: p)
qed (simp add: fun_eq_iff)

definition index_document :: "kanbudb_fts_index \<Rightarrow> document \<Rightarrow> kanbudb_fts_index" where
  "index_document idx d = fst (fts_index_add_document idx (map (Some \<circ> fst) d) (Some (map snd d)) (int (length d)))"

definition index_documents :: "document list \<Rightarrow> kanbudb_fts_index" where
  "index_documents ds = foldl index_document fts_index_create ds"

text \<open>The last document that contains a term.\<close>

definition last_doc :: "document list \<Rightarrow> bytes \<Rightarrow> nat option" where
  "last_doc ds w = foldl (\<lambda>r (i, d). if w \<in> fst ` set d then Some i else r) None (enumerate 0 ds)"

lemma index_documents_spec:
  assumes "\<forall>d\<in>set ds. doc_fits d" and "length ds \<le> 2 ^ 48"
  shows "fst_inv (term_dict (index_documents ds)) \<and> next_doc_id (index_documents ds) = word_of_nat (length ds) \<and>
    doc_of (index_documents ds) = (\<lambda>w. map_option word_of_nat (last_doc ds w))"
  using assms
proof (induction ds rule: rev_induct)
  case Nil
  then show ?case
    using fst_create_ok by (auto simp: index_documents_def fts_index_create_def doc_of_def last_doc_def fst_get_entries fun_eq_iff)
next
  case (snoc d ds)
  let ?i = "index_documents ds" and ?doc = "word_of_nat (length ds) :: u64"
  have ih: "fst_inv (term_dict ?i)" "next_doc_id ?i = ?doc" "doc_of ?i = (\<lambda>w. map_option word_of_nat (last_doc ds w))"
    using snoc by auto
  have doc: "unat ?doc < 2 ^ 48" using snoc.prems(2) by (simp add: unat_of_nat)
  let ?i1 = "?i\<lparr>next_doc_id := ?doc + 1, total_docs := total_docs ?i + 1\<rparr>"
  have z: "zip (map (Some \<circ> fst) d) (map snd d) = map (\<lambda>(w, x). (Some w, x)) d" by (induction d) auto
  have f: "fst_inv (term_dict ?i1)" "doc_fits d" using ih snoc.prems(1) by simp_all
  obtain idx' where "add_terms ?doc (map (\<lambda>(w, x). (Some w, x)) d) ?i1 = (idx', KANBUDB_OK)" "fst_inv (term_dict idx')"
    "next_doc_id idx' = ?doc + 1" "doc_of idx' = (\<lambda>w. if w \<in> fst ` set d then Some ?doc else doc_of ?i1 w)"
    using add_terms_spec [OF f doc] by auto
  moreover have "index_documents (ds @ [d]) = fst (add_terms ?doc (map (\<lambda>(w, x). (Some w, x)) d) ?i1)"
    by (simp add: index_documents_def [of "ds @ [d]"] index_documents_def [symmetric] index_document_def fts_index_add_document_def z ih(2))
  moreover have "doc_of ?i1 = doc_of ?i" by (simp add: doc_of_def fun_eq_iff)
  moreover have "last_doc (ds @ [d]) w = (if w \<in> fst ` set d then Some (length ds) else last_doc ds w)" for w
    by (simp add: last_doc_def enumerate_append_eq)
  ultimately show ?case using ih(3) by (auto simp: fun_eq_iff)
qed

lemma search_doc_of: "fts_index_search idx w 256 = (case doc_of idx w of None \<Rightarrow> [] | Some d \<Rightarrow> [d])"
  using fst_get_rc [of "term_dict idx" w]
  by (cases "fst_get (term_dict idx) w") (auto simp: fts_index_search_def doc_of_def split: rc.splits option.splits)

lemma add_results_short:
  assumes "distinct docs" and "length docs + length rs \<le> 1024"
  shows "distinct (add_results docs rs) \<and> set (add_results docs rs) = set docs \<union> set rs \<and> length (add_results docs rs) \<le> length docs + length rs"
  using assms
proof (induction docs rs rule: add_results.induct)
  case (2 docs r rs)
  then show ?case by (cases "r \<in> set docs") auto
qed simp

lemma fold_results_short:
  assumes "\<forall>r\<in>set rss. length r \<le> 1" and "distinct docs" and "length docs + length rss \<le> 1024"
  shows "distinct (foldl add_results docs rss) \<and> set (foldl add_results docs rss) = set docs \<union> \<Union> (set ` set rss)"
  using assms
proof (induction rss arbitrary: docs)
  case (Cons r rss)
  have r: "length r \<le> 1" using Cons.prems(1) by simp
  have a: "distinct (add_results docs r)" "set (add_results docs r) = set docs \<union> set r" "length (add_results docs r) \<le> length docs + length r"
    using add_results_short [of docs r] Cons.prems r by simp_all
  show ?case using Cons.IH [of "add_results docs r"] Cons.prems a r by (simp add: Un_assoc)
qed simp

section \<open>Properties\<close>

text \<open>
  C34. The tokenizer returns the words of the text in order: the maximal runs of letters, digits and
  apostrophes, cut at 255 bytes, in lower case, without stop words, stemmed when stemming is on,
  without words shorter than two bytes, up to the limit. Positions count from zero, the words are
  appended to the tokenizer's own store, whose array has room for them, and the settings stay.
\<close>

theorem tokenizer_tokenize_exact:
  assumes "tokenizer_tokenize t xs n = (t', toks)"
  shows "map tok_word toks = take (nat n) (kept_words t (word_runs [] xs)) \<and> map tok_pos toks = [0..<length toks] \<and>
    map tok_len toks = map (length \<circ> tok_word) toks \<and> tk_words t' = tk_words t @ map tok_word toks \<and>
    stopwords t' = stopwords t \<and> stem_enabled t' = stem_enabled t \<and> (words_fit t \<longrightarrow> words_fit t')"
proof (cases "n \<le> 0")
  case True
  then show ?thesis using assms by (simp add: tokenizer_tokenize_def)
next
  case False
  then have "tok_spec t [] (take (nat n) (kept_words t (word_runs [] xs))) (t', toks)"
    using assms tok_loop_spec [of "[]" "nat n" t xs] by (simp add: tokenizer_tokenize_def)
  then obtain ws where ws: "ws = take (nat n) (kept_words t (word_runs [] xs))" "map tok_word toks = ws" "map tok_len toks = map length ws"
    "map tok_pos toks = [0..<length ws]" "tk_words t' = tk_words t @ ws" "stopwords t' = stopwords t" "stem_enabled t' = stem_enabled t"
    "words_fit t \<longrightarrow> words_fit t'"
    by (auto simp: tok_spec_def)
  have "length ws = length toks" using ws(2) by (metis length_map)
  moreover have "map length ws = map (length \<circ> tok_word) toks" unfolding ws(2) [symmetric] by simp
  ultimately show ?thesis using ws by simp
qed

theorem tokenizer_tokenize_exact_witness:
  "\<exists>t' toks. tokenizer_tokenize (tokenizer_set_stemmer tokenizer_create True) [82, 117, 110, 110, 105, 110, 103, 44, 97, 32, 68, 111, 103, 115] 9 = (t', toks) \<and>
     map tok_word toks = [[114, 117, 110], [100, 111, 103]] \<and> map tok_pos toks = [0, 1]"
proof -
  let ?t = "tokenizer_set_stemmer tokenizer_create True"
  let ?x = "[82, 117, 110, 110, 105, 110, 103, 44, 97, 32, 68, 111, 103, 115] :: bytes"
  obtain t' toks where r: "tokenizer_tokenize ?t ?x 9 = (t', toks)" by (meson surj_pair)
  have k: "kept_words ?t (word_runs [] ?x) = [[114, 117, 110], [100, 111, 103]]" by code_simp
  have w: "map tok_word toks = [[114, 117, 110], [100, 111, 103]]" "map tok_pos toks = [0..<length toks]"
    using tokenizer_tokenize_exact [OF r] k by simp_all
  have "length toks = 2" using arg_cong [OF w(1), of length] by simp
  then show ?thesis using r w by (simp add: upt_rec)
qed

text \<open>
  The query parser stays inside its arrays for every query: at most \<^verbatim>\<open>max_nodes\<close> nodes, fields of
  at most 63 and texts of at most 255 bytes. A query of plain words gives one term node per word,
  in order.
\<close>

theorem fts_query_parse_words:
  "length (fts_query_parse atof one q n) \<le> nat n \<and> (\<forall>x\<in>set (fts_query_parse atof one q n). node_fits x) \<and>
   ((\<forall>w\<in>set ws. plain_word w) \<longrightarrow>
     fts_query_parse atof one (concat (map (\<lambda>w. w @ [32]) ws)) n =
     take (nat n) (map (\<lambda>w. (blank_node one FTS_TERM)\<lparr>q_text := take 255 w\<rparr>) ws))"
proof -
  have "length (fts_query_parse atof one q n) \<le> nat n \<and> (\<forall>x\<in>set (fts_query_parse atof one q n). node_fits x)"
    using parse_loop_fits [of "[]" "nat n" atof one q] by (simp add: fts_query_parse_def)
  moreover have "fts_query_parse atof one (concat (map (\<lambda>w. w @ [32]) ws)) n =
      take (nat n) (map (\<lambda>w. (blank_node one FTS_TERM)\<lparr>q_text := take 255 w\<rparr>) ws)" if "\<forall>w\<in>set ws. plain_word w"
    using parse_loop_words [OF that, of atof one "nat n" "[]"] by (auto simp: fts_query_parse_def)
  ultimately show ?thesis by blast
qed

theorem fts_query_parse_words_witness:
  "fts_query_parse (\<lambda>_. 0 :: nat) 1 [102, 97, 115, 116, 32, 100, 98, 32] 64 =
     [(blank_node 1 FTS_TERM)\<lparr>q_text := [102, 97, 115, 116]\<rparr>, (blank_node 1 FTS_TERM)\<lparr>q_text := [100, 98]\<rparr>]"
proof -
  have "\<forall>w\<in>set [[102, 97, 115, 116], [100, 98]]. plain_word w" by code_simp
  then show ?thesis
    using fts_query_parse_words [of "\<lambda>_. 0 :: nat" 1 "[]" 64 "[[102, 97, 115, 116], [100, 98]]"] by simp
qed

text \<open>
  The documented range syntax is not understood: the test for the word \<^verbatim>\<open>TO\<close> compares the third byte,
  so its second letter ends up in the upper bound.
\<close>

lemma fts_range_misread:
  "fts_query_parse (\<lambda>_. 0 :: nat) 1 [91, 97, 32, 84, 79, 32, 122, 93] 64 =
     [(blank_node 1 FTS_RANGE)\<lparr>q_text := [97, 32], q_text2 := [79, 32, 122]\<rparr>]"
  by code_simp



end
