(* ===== verification/Row_Format.thy ===== *)
theory Row_Format
  imports Prelude
begin

text \<open>
  The row format of \<^verbatim>\<open>src/src/query/row_format.c\<close>. A row is the concatenation of its columns: fixed-size
  columns as they are, strings and blobs behind a four-byte length. Offsets are 32-bit signed
  integers; a sum outside their range is undefined in C. The result of an extraction is a null
  pointer, a pointer and length relative to the row, or \<open>Col_Wild\<close> when the code computes or reads outside
  of what C defines.
\<close>

section \<open>Column types\<close>

definition KANBUDB_INT32 :: int where "KANBUDB_INT32 = 0"
definition KANBUDB_INT64 :: int where "KANBUDB_INT64 = 1"
definition KANBUDB_FLOAT :: int where "KANBUDB_FLOAT = 2"
definition KANBUDB_DOUBLE :: int where "KANBUDB_DOUBLE = 3"
definition KANBUDB_STRING :: int where "KANBUDB_STRING = 4"
definition KANBUDB_BLOB :: int where "KANBUDB_BLOB = 5"
definition KANBUDB_BOOL :: int where "KANBUDB_BOOL = 6"

lemmas col_type_defs =
  KANBUDB_INT32_def KANBUDB_INT64_def KANBUDB_FLOAT_def KANBUDB_DOUBLE_def KANBUDB_STRING_def KANBUDB_BLOB_def KANBUDB_BOOL_def

definition KANBUDB_MAX_COLS :: nat where "KANBUDB_MAX_COLS = 64"

section \<open>Schema of a row\<close>

record row_schema =
  rs_cols :: int
  fixed_offsets :: "int list"
  fixed_sizes :: "int list"

text \<open>The size the switch assigns to a type; 0 stands for the default case.\<close>

definition type_size :: "int \<Rightarrow> int" where
  "type_size t =
     (if t = KANBUDB_INT32 then 4 else if t = KANBUDB_INT64 then 8 else if t = KANBUDB_FLOAT then 4
      else if t = KANBUDB_DOUBLE then 8 else if t = KANBUDB_BOOL then 1 else 0)"

fun schema_loop :: "int \<Rightarrow> int list \<Rightarrow> (int \<times> int) list" where
  "schema_loop offset [] = []"
| "schema_loop offset (t # ts) =
     (if type_size t > 0 then (offset, type_size t) # schema_loop (offset + type_size t) ts
      else (- 1, 0) # schema_loop (offset + 4) ts)"

text \<open>Entries past the 64 of the arrays stay uninitialised.\<close>

definition row_schema_init :: "int list \<Rightarrow> int \<Rightarrow> row_schema" where
  "row_schema_init types num_cols =
     (let l = schema_loop 0 (take (min (nat num_cols) KANBUDB_MAX_COLS) types)
      in \<lparr>rs_cols = num_cols, fixed_offsets = map fst l, fixed_sizes = map snd l\<rparr>)"

section \<open>Extraction\<close>

datatype col_result = Col_Null | Col_At int int | Col_Wild

definition add_i32 :: "int \<Rightarrow> int \<Rightarrow> int option" where
  "add_i32 a b = (if - (2 ^ 31) \<le> a + b \<and> a + b < 2 ^ 31 then Some (a + b) else None)"

text \<open>The cast of a length to 32 bits.\<close>

definition i32_len :: "bytes \<Rightarrow> int" where
  "i32_len row = sint (word_of_nat (length row) :: u32)"

text \<open>A length field at an offset, and the offset behind it.\<close>

definition str_len :: "bytes \<Rightarrow> int \<Rightarrow> int \<Rightarrow> col_result + (int \<times> int)" where
  "str_len row row_len offset =
     (case add_i32 offset 4 of
        None \<Rightarrow> Inl Col_Wild
      | Some e \<Rightarrow>
          if e > row_len then Inl Col_Null
          else if offset < 0 then Inl Col_Wild
          else Inr (e, sint (get_u32 (drop (nat offset) row))))"

fun skip_cols :: "bytes \<Rightarrow> int \<Rightarrow> int list \<Rightarrow> int \<Rightarrow> col_result + int" where
  "skip_cols row row_len [] offset = Inr offset"
| "skip_cols row row_len (sz # szs) offset =
     (if sz > 0 then (case add_i32 offset sz of None \<Rightarrow> Inl Col_Wild | Some x \<Rightarrow> skip_cols row row_len szs x)
      else
        (case str_len row row_len offset of
           Inl r \<Rightarrow> Inl r
         | Inr (_, slen) \<Rightarrow>
             (case add_i32 4 slen of
                None \<Rightarrow> Inl Col_Wild
              | Some step \<Rightarrow> (case add_i32 offset step of None \<Rightarrow> Inl Col_Wild | Some x \<Rightarrow> skip_cols row row_len szs x))))"

definition row_extract_column :: "row_schema \<Rightarrow> int \<Rightarrow> bytes \<Rightarrow> col_result" where
  "row_extract_column rs col row =
     (if col < 0 \<or> col \<ge> rs_cols rs then Col_Null
      else if nat col \<ge> length (fixed_sizes rs) then Col_Wild
      else
        (case skip_cols row (i32_len row) (take (nat col) (fixed_sizes rs)) 0 of
           Inl r \<Rightarrow> r
         | Inr offset \<Rightarrow>
             (let sz = fixed_sizes rs ! nat col
              in if sz > 0 then
                   (case add_i32 offset sz of
                      None \<Rightarrow> Col_Wild
                    | Some e \<Rightarrow> if e > i32_len row then Col_Null else Col_At offset sz)
                 else
                   (case str_len row (i32_len row) offset of
                      Inl r \<Rightarrow> r
                    | Inr (e, slen) \<Rightarrow> Col_At e slen))))"

text \<open>The bytes behind a result, when they all lie in the row.\<close>

definition col_bytes :: "bytes \<Rightarrow> col_result \<Rightarrow> bytes option" where
  "col_bytes row r =
     (case r of
        Col_At off len \<Rightarrow>
          if 0 \<le> off \<and> 0 \<le> len \<and> off + len \<le> int (length row) then Some (take (nat len) (drop (nat off) row)) else None
      | _ \<Rightarrow> None)"

section \<open>Encoded rows\<close>

text \<open>What clients write: one byte list per column.\<close>

definition field_bytes :: "int \<Rightarrow> bytes \<Rightarrow> bytes" where
  "field_bytes t v = (if type_size t > 0 then v else put_u32 (word_of_nat (length v)) @ v)"

definition row_bytes :: "int list \<Rightarrow> bytes list \<Rightarrow> bytes" where
  "row_bytes ts vs = concat (map2 field_bytes ts vs)"

definition row_ok :: "int list \<Rightarrow> bytes list \<Rightarrow> bool" where
  "row_ok ts vs \<longleftrightarrow> length ts \<le> 64 \<and> length vs = length ts \<and>
     (\<forall>(t, v)\<in>set (zip ts vs). type_size t > 0 \<longrightarrow> int (length v) = type_size t) \<and> length (row_bytes ts vs) < 2 ^ 31 - 8"

lemma type_size_nonneg: "0 \<le> type_size t" and type_size_le: "type_size t \<le> 8"
  by (simp_all add: type_size_def)

lemma schema_sizes: "map snd (schema_loop off ts) = map type_size ts"
proof (induction ts arbitrary: off)
  case (Cons t ts)
  then show ?case using type_size_nonneg [of t] by simp
qed simp

lemma length_field: "type_size t = 0 \<Longrightarrow> length (field_bytes t v) = 4 + length v" "type_size t > 0 \<Longrightarrow> length (field_bytes t v) = length v"
  by (simp_all add: field_bytes_def)

lemma sint_len: "n < 2 ^ 31 \<Longrightarrow> sint (word_of_nat n :: u32) = int n"
  by (simp add: signed_of_nat signed_take_bit_int_eq_self)

lemma i32_len_eq: "length row < 2 ^ 31 \<Longrightarrow> i32_len row = int (length row)"
  using sint_len [of "length row"] by (simp add: i32_len_def)

lemma add_i32_small: "0 \<le> a \<Longrightarrow> 0 \<le> b \<Longrightarrow> a + b < 2 ^ 31 \<Longrightarrow> add_i32 a b = Some (a + b)"
  by (simp add: add_i32_def)

text \<open>Reading the length field of an encoded string, and walking over encoded columns.\<close>

lemma str_len_field:
  assumes "drop off row = put_u32 (word_of_nat (length v)) @ v @ rest" and "off \<le> length row" and "length row < 2 ^ 31 - 8"
  shows "str_len row (int (length row)) (int off) = Inr (int off + 4, int (length v))"
proof -
  have l: "length row - off = 4 + length v + length rest" using arg_cong [OF assms(1), of length] by simp
  then have "add_i32 (int off) 4 = Some (int off + 4)" "int off + 4 \<le> int (length row)" "length v < 2 ^ 31"
    using assms(2,3) by (auto simp: add_i32_def)
  then show ?thesis using assms(1) by (simp add: str_len_def sint_len)
qed

lemma skip_cols_row:
  assumes "length vs = length ts" and "\<forall>(t, v)\<in>set (zip ts vs). type_size t > 0 \<longrightarrow> int (length v) = type_size t"
    and "drop off row = row_bytes ts vs @ rest" and "off \<le> length row" and "length row < 2 ^ 31 - 8"
  shows "skip_cols row (int (length row)) (map type_size ts) (int off) = Inr (int (off + length (row_bytes ts vs)))"
  using assms
proof (induction ts arbitrary: vs off)
  case (Cons t ts)
  obtain v vs' where vs: "vs = v # vs'" using Cons.prems(1) by (cases vs) auto
  have rb: "row_bytes (t # ts) vs = field_bytes t v @ row_bytes ts vs'" by (simp add: row_bytes_def vs)
  let ?off = "off + length (field_bytes t v)"
  have d: "drop ?off row = row_bytes ts vs' @ rest"
    using arg_cong [OF Cons.prems(3), of "drop (length (field_bytes t v))"] by (simp add: rb add.commute)
  have l: "?off \<le> length row" using arg_cong [OF Cons.prems(3), of length] Cons.prems(4) by (simp add: rb)
  have ih: "skip_cols row (int (length row)) (map type_size ts) (int ?off) = Inr (int (?off + length (row_bytes ts vs')))"
    using Cons.IH [of vs' ?off] Cons.prems(1,2,5) d l by (simp add: vs)
  show ?case
  proof (cases "type_size t > 0")
    case True
    then have v: "int (length v) = type_size t" "length (field_bytes t v) = length v"
      using Cons.prems(2) by (auto simp: vs field_bytes_def)
    then have "add_i32 (int off) (type_size t) = Some (int ?off)" using l Cons.prems(5) by (simp add: add_i32_def)
    then show ?thesis using ih True by (simp add: rb add.assoc)
  next
    case False
    then have z: "type_size t = 0" using type_size_nonneg [of t] by simp
    have st: "str_len row (int (length row)) (int off) = Inr (int off + 4, int (length v))"
      using str_len_field [of off row v "row_bytes ts vs' @ rest"] Cons.prems(3-5) z by (simp add: rb field_bytes_def)
    have lf: "length (field_bytes t v) = 4 + length v" using z by (simp add: length_field)
    then have "add_i32 4 (int (length v)) = Some (4 + int (length v))" "add_i32 (int off) (4 + int (length v)) = Some (int ?off)"
      using l Cons.prems(5) by (simp_all add: add_i32_def)
    then show ?thesis using ih st z by (simp add: rb add.assoc)
  qed
qed (simp add: row_bytes_def)

lemma row_bytes_split:
  assumes "length vs = length ts" and "c < length ts"
  shows "row_bytes ts vs = row_bytes (take c ts) (take c vs) @ field_bytes (ts ! c) (vs ! c) @ row_bytes (drop (Suc c) ts) (drop (Suc c) vs)"
proof -
  have z: "zip ts vs = take c (zip ts vs) @ (ts ! c, vs ! c) # drop (Suc c) (zip ts vs)"
    using assms id_take_nth_drop [of c "zip ts vs"] by simp
  show ?thesis unfolding row_bytes_def take_zip [symmetric] drop_zip [symmetric] by (subst z) simp
qed

text \<open>Extraction from an encoded row finds the column's bytes.\<close>

lemma extract_encoded:
  assumes "row_ok ts vs" and "c < length ts"
  shows "\<exists>off. row_extract_column (row_schema_init ts (int (length ts))) (int c) (row_bytes ts vs) = Col_At (int off) (int (length (vs ! c))) \<and>
    drop off (row_bytes ts vs) = vs ! c @ row_bytes (drop (Suc c) ts) (drop (Suc c) vs) \<and> off \<le> length (row_bytes ts vs)"
proof -
  let ?row = "row_bytes ts vs" and ?pre = "row_bytes (take c ts) (take c vs)" and ?t = "ts ! c" and ?v = "vs ! c"
  let ?post = "row_bytes (drop (Suc c) ts) (drop (Suc c) vs)"
  have len: "length vs = length ts" "length ts \<le> 64" "length ?row < 2 ^ 31 - 8" and sz: "\<forall>(t, v)\<in>set (zip ts vs). type_size t > 0 \<longrightarrow> int (length v) = type_size t"
    using assms(1) by (auto simp: row_ok_def)
  have row: "?row = ?pre @ field_bytes ?t ?v @ ?post" by (rule row_bytes_split [OF len(1) assms(2)])
  have szs: "fixed_sizes (row_schema_init ts (int (length ts))) = map type_size ts"
    using len(2) by (simp add: row_schema_init_def KANBUDB_MAX_COLS_def Let_def schema_sizes)
  have skip: "skip_cols ?row (int (length ?row)) (map type_size (take c ts)) 0 = Inr (int (length ?pre))"
  proof -
    have "\<forall>(t, v)\<in>set (zip (take c ts) (take c vs)). type_size t > 0 \<longrightarrow> int (length v) = type_size t"
      using sz by (auto simp: take_zip [symmetric] dest: in_set_takeD)
    then show ?thesis using skip_cols_row [of "take c vs" "take c ts" 0 ?row "field_bytes ?t ?v @ ?post"] len row assms(2) by simp
  qed
  have i32: "i32_len ?row = int (length ?row)" using len(3) by (intro i32_len_eq) simp
  have drp: "drop (length ?pre) ?row = field_bytes ?t ?v @ ?post" by (subst row) simp
  have lr: "length ?row = length ?pre + length (field_bytes ?t ?v) + length ?post" by (subst row) simp
  have ex: "row_extract_column (row_schema_init ts (int (length ts))) (int c) ?row =
     (if type_size ?t > 0 then
        (case add_i32 (int (length ?pre)) (type_size ?t) of
           None \<Rightarrow> Col_Wild | Some e \<Rightarrow> if e > int (length ?row) then Col_Null else Col_At (int (length ?pre)) (type_size ?t))
      else (case str_len ?row (int (length ?row)) (int (length ?pre)) of Inl r \<Rightarrow> r | Inr (e, slen) \<Rightarrow> Col_At e slen))"
    using assms(2) by (simp add: row_extract_column_def szs i32 skip take_map Let_def cong: option.case_cong) (simp add: row_schema_init_def Let_def)
  show ?thesis
  proof (cases "type_size ?t > 0")
    case True
    have "(?t, ?v) \<in> set (zip ts vs)" using assms(2) len(1) by (auto simp: in_set_zip)
    then have v: "int (length ?v) = type_size ?t" "field_bytes ?t ?v = ?v" using sz True by (auto simp: field_bytes_def)
    then have "add_i32 (int (length ?pre)) (type_size ?t) = Some (int (length ?pre) + type_size ?t)"
      using lr len(3) by (simp add: add_i32_def)
    then show ?thesis using ex True v lr drp by (intro exI [of _ "length ?pre"]) auto
  next
    case False
    then have z: "field_bytes ?t ?v = put_u32 (word_of_nat (length ?v)) @ ?v" by (simp add: field_bytes_def)
    have "str_len ?row (int (length ?row)) (int (length ?pre)) = Inr (int (length ?pre) + 4, int (length ?v))"
      using str_len_field [of "length ?pre" ?row ?v ?post] drp lr len(3) z by simp
    moreover have "drop (length ?pre + 4) ?row = ?v @ ?post"
      using arg_cong [OF drp, of "drop 4"] z by (simp add: add.commute)
    ultimately show ?thesis using ex False lr z by (intro exI [of _ "length ?pre + 4"]) auto
  qed
qed

lemma extract_bytes:
  assumes "row_ok ts vs" and "c < length ts"
  shows "col_bytes (row_bytes ts vs) (row_extract_column (row_schema_init ts (int (length ts))) (int c) (row_bytes ts vs)) = Some (vs ! c)"
proof -
  let ?row = "row_bytes ts vs" and ?rest = "row_bytes (drop (Suc c) ts) (drop (Suc c) vs)"
  obtain off where off: "row_extract_column (row_schema_init ts (int (length ts))) (int c) ?row = Col_At (int off) (int (length (vs ! c)))"
    "drop off ?row = vs ! c @ ?rest" "off \<le> length ?row"
    using extract_encoded [OF assms] by blast
  have "length ?row - off = length (vs ! c) + length ?rest" using arg_cong [OF off(2), of length] by simp
  then show ?thesis using off by (simp add: col_bytes_def)
qed

section \<open>Properties\<close>

text \<open>
  C32. Reading back a row: from a row that holds one value per column in the format of the schema,
  extraction of a column returns exactly its bytes with their length; a column number outside the
  schema gives a null pointer.
\<close>

theorem row_extract_roundtrip:
  assumes "row_ok ts vs"
  shows "(\<forall>c<length ts. \<exists>off. row_extract_column (row_schema_init ts (int (length ts))) (int c) (row_bytes ts vs) = Col_At off (int (length (vs ! c))) \<and>
      col_bytes (row_bytes ts vs) (Col_At off (int (length (vs ! c)))) = Some (vs ! c)) \<and>
    (\<forall>c. c < 0 \<or> int (length ts) \<le> c \<longrightarrow> row_extract_column (row_schema_init ts (int (length ts))) c (row_bytes ts vs) = Col_Null)"
proof (intro conjI allI impI)
  fix c
  assume c: "c < length ts"
  obtain off where off: "row_extract_column (row_schema_init ts (int (length ts))) (int c) (row_bytes ts vs) = Col_At (int off) (int (length (vs ! c)))"
    using extract_encoded [OF assms c] by blast
  then show "\<exists>off. row_extract_column (row_schema_init ts (int (length ts))) (int c) (row_bytes ts vs) = Col_At off (int (length (vs ! c))) \<and>
      col_bytes (row_bytes ts vs) (Col_At off (int (length (vs ! c)))) = Some (vs ! c)"
    using extract_bytes [OF assms c] by auto
qed (auto simp: row_extract_column_def row_schema_init_def Let_def)

theorem row_extract_roundtrip_witness:
  "\<exists>off. row_extract_column (row_schema_init [KANBUDB_STRING, KANBUDB_INT32] 2) 1
      (row_bytes [KANBUDB_STRING, KANBUDB_INT32] [[104, 105], [7, 0, 0, 0]]) = Col_At off 4 \<and> off = 6"
proof -
  have ok: "row_ok [KANBUDB_STRING, KANBUDB_INT32] [[104, 105], [7, 0, 0, 0]]"
    by (simp add: row_ok_def row_bytes_def field_bytes_def type_size_def col_type_defs)
  have "row_extract_column (row_schema_init [KANBUDB_STRING, KANBUDB_INT32] 2) 1
      (row_bytes [KANBUDB_STRING, KANBUDB_INT32] [[104, 105], [7, 0, 0, 0]]) = Col_At 6 4" by code_simp
  then show ?thesis using row_extract_roundtrip [OF ok] by auto
qed

text \<open>
  The length of a string column is not compared with the end of the row: a row of four bytes
  yields a column of any length the bytes spell.
\<close>

lemma row_string_overread:
  assumes "sint (n :: u32) = len" and "0 < len"
  shows "row_extract_column (row_schema_init [KANBUDB_STRING] 1) 0 (put_u32 n) = Col_At 4 len \<and> col_bytes (put_u32 n) (Col_At 4 len) = None"
proof -
  have "i32_len (put_u32 n) = 4" using i32_len_eq [of "put_u32 n"] by simp
  then show ?thesis
    using assms get_put_u32 [of n "[]"]
    by (simp add: row_extract_column_def row_schema_init_def KANBUDB_MAX_COLS_def type_size_def col_type_defs str_len_def add_i32_def col_bytes_def)
qed

end
