(* ===== verification/Query.thy ===== *)
theory Query
  imports Db_Core Row_Format
begin

text \<open>
  The query builder of \<^verbatim>\<open>src/src/query/query_builder.c\<close>: condition trees, filters on encoded rows, the scan over
  LSM front and B-tree, sorting, limit, join, and access to the result set. An operation returns
  \<open>None\<close> when the code would read or write outside an object. Comparisons of floating-point columns and
  \<^verbatim>\<open>qsort_r\<close> are parameters.
\<close>

section \<open>Builder\<close>

text \<open>\<^verbatim>\<open>qb_condition_t\<close>: a leaf has column, operator and literal.\<close>

datatype qb_condition =
    QBCOND_LEAF string string string
  | QBCOND_AND qb_condition qb_condition
  | QBCOND_OR qb_condition qb_condition
  | QBCOND_NOT qb_condition

record query_builder =
  qb_table :: string
  root_condition :: "qb_condition option"
  sort_column :: string
  sort_ascending :: bool
  has_sort :: bool
  qb_lim :: int
  has_limit :: bool
  join_table :: string
  join_on_local :: string
  join_on_foreign :: string
  has_join :: bool

definition db_query :: "string \<Rightarrow> query_builder" where
  "db_query table =
     \<lparr>qb_table = take 63 table, root_condition = None, sort_column = [], sort_ascending = False, has_sort = False, qb_lim = 0,
      has_limit = False, join_table = [], join_on_local = [], join_on_foreign = [], has_join = False\<rparr>"

definition qb_from :: "query_builder \<Rightarrow> string \<Rightarrow> query_builder \<times> rc" where
  "qb_from qb table = (qb\<lparr>qb_table := take 63 table\<rparr>, KANBUDB_OK)"

definition qb_cond :: "string \<Rightarrow> string \<Rightarrow> string \<Rightarrow> qb_condition" where
  "qb_cond column op val = QBCOND_LEAF (take 63 column) (take 15 op) (snprintf 256 val)"

definition qb_filter :: "query_builder \<Rightarrow> string \<Rightarrow> string \<Rightarrow> string \<Rightarrow> query_builder \<times> rc" where
  "qb_filter qb column op val =
     (let leaf = QBCOND_LEAF (take 63 column) (take 15 op) (snprintf 256 val)
      in (qb\<lparr>root_condition := Some (case root_condition qb of None \<Rightarrow> leaf | Some c \<Rightarrow> QBCOND_AND c leaf)\<rparr>, KANBUDB_OK))"

definition qb_sort :: "query_builder \<Rightarrow> string \<Rightarrow> bool \<Rightarrow> query_builder \<times> rc" where
  "qb_sort qb column ascending =
     (qb\<lparr>sort_column := take 63 column, sort_ascending := ascending, has_sort := True\<rparr>, KANBUDB_OK)"

definition qb_limit :: "query_builder \<Rightarrow> int \<Rightarrow> query_builder \<times> rc" where
  "qb_limit qb limit =
     (if limit < 0 then (qb, KANBUDB_ERR_INVAL) else (qb\<lparr>qb_lim := limit, has_limit := True\<rparr>, KANBUDB_OK))"

definition qb_join :: "query_builder \<Rightarrow> string \<Rightarrow> string \<Rightarrow> string \<Rightarrow> query_builder \<times> rc" where
  "qb_join qb table on_local on_foreign =
     (qb\<lparr>join_table := take 63 table, join_on_local := take 63 on_local, join_on_foreign := take 63 on_foreign, has_join := True\<rparr>,
      KANBUDB_OK)"

definition qb_cond_and :: "qb_condition option \<Rightarrow> qb_condition option \<Rightarrow> qb_condition option" where
  "qb_cond_and left right = (case (left, right) of (Some l, Some r) \<Rightarrow> Some (QBCOND_AND l r) | _ \<Rightarrow> None)"

definition qb_cond_or :: "qb_condition option \<Rightarrow> qb_condition option \<Rightarrow> qb_condition option" where
  "qb_cond_or left right = (case (left, right) of (Some l, Some r) \<Rightarrow> Some (QBCOND_OR l r) | _ \<Rightarrow> None)"

definition qb_cond_not :: "qb_condition option \<Rightarrow> qb_condition option" where
  "qb_cond_not child = map_option QBCOND_NOT child"

definition qb_where :: "query_builder \<Rightarrow> qb_condition option \<Rightarrow> query_builder \<times> rc" where
  "qb_where qb cond =
     (case cond of None \<Rightarrow> (qb, KANBUDB_ERR_INVAL) | Some c \<Rightarrow> (qb\<lparr>root_condition := Some c\<rparr>, KANBUDB_OK))"

section \<open>Filters\<close>

text \<open>
  The comparisons the code does on doubles: a column with the literal read by \<^verbatim>\<open>atof\<close>, and two
  columns; the result is -1, 0 or 1.
\<close>

record float_ops =
  fcmp_lit :: "int \<Rightarrow> bytes \<Rightarrow> string \<Rightarrow> int"
  fcmp_col :: "int \<Rightarrow> bytes \<Rightarrow> bytes \<Rightarrow> int"

definition cmp3 :: "int \<Rightarrow> int \<Rightarrow> int" where
  "cmp3 a b = (if a < b then - 1 else if a > b then 1 else 0)"

text \<open>\<^verbatim>\<open>atoll\<close> as the C library of the platform does it: out of range it saturates.\<close>

definition parse_int :: "string \<Rightarrow> int" where
  "parse_int s = max (- (2 ^ 63)) (min (2 ^ 63 - 1) (fst (strtol s)))"

text \<open>Reading \<open>n\<close> bytes of a row.\<close>

definition peek :: "bytes \<Rightarrow> int \<Rightarrow> nat \<Rightarrow> bytes option" where
  "peek row off n =
     (if 0 \<le> off \<and> off + int n \<le> int (length row) then Some (take n (drop (nat off) row)) else None)"

definition read_int :: "int \<Rightarrow> bytes \<Rightarrow> int" where
  "read_int t bs =
     (if t = KANBUDB_INT32 then sint (get_u32 bs) else if t = KANBUDB_INT64 then sint (get_u64 bs) else int (unat (hd bs)))"

text \<open>The comparison of \<^verbatim>\<open>filter_match\<close> for the types it knows. Lengths are converted to \<^verbatim>\<open>size_t\<close>.\<close>

definition size_of_i32 :: "int \<Rightarrow> nat" where
  "size_of_i32 len = nat (if len < 0 then 2 ^ 64 + len else len)"

definition filter_cmp :: "float_ops \<Rightarrow> bytes \<Rightarrow> int \<Rightarrow> int \<Rightarrow> int \<Rightarrow> string \<Rightarrow> int option" where
  "filter_cmp fo row off len t literal =
     (if t = KANBUDB_INT32 \<or> t = KANBUDB_INT64 then
        map_option (\<lambda>bs. cmp3 (read_int t bs) (parse_int literal)) (peek row off (if t = KANBUDB_INT32 then 4 else 8))
      else if t = KANBUDB_FLOAT \<or> t = KANBUDB_DOUBLE then
        map_option (\<lambda>bs. fcmp_lit fo t bs literal) (peek row off (if t = KANBUDB_FLOAT then 4 else 8))
      else if t = KANBUDB_BOOL then
        map_option (\<lambda>bs. cmp3 (if hd bs \<noteq> 0 then 1 else 0) (if literal = ''true'' \<or> literal = ''1'' then 1 else 0)) (peek row off 1)
      else
        (let lit = map chr_byte literal; lit_len = length lit; col_len = size_of_i32 len; m = min col_len lit_len
         in map_option (\<lambda>bs. let c = memcmp bs lit m
                              in if c \<noteq> 0 then c else if col_len < lit_len then - 1 else if col_len > lit_len then 1 else 0)
              (peek row off m)))"

definition op_test :: "string \<Rightarrow> int \<Rightarrow> bool" where
  "op_test op cmp =
     (if op = ''='' then cmp = 0 else if op = ''!='' then cmp \<noteq> 0 else if op = ''>'' then cmp > 0
      else if op = ''<'' then cmp < 0 else if op = ''>='' then cmp \<ge> 0 else if op = ''<='' then cmp \<le> 0 else False)"

definition filter_match :: "float_ops \<Rightarrow> bytes \<Rightarrow> int \<Rightarrow> int \<Rightarrow> int \<Rightarrow> string \<Rightarrow> string \<Rightarrow> bool option" where
  "filter_match fo row off len t op literal =
     (if t = KANBUDB_BLOB \<or> t < 0 \<or> t > KANBUDB_BOOL then Some False
      else map_option (op_test op) (filter_cmp fo row off len t literal))"

text \<open>
  The search for a column name. Only 64 names are stored; a search that runs past them reads
  outside the array.
\<close>

definition find_col :: "string list \<Rightarrow> int \<Rightarrow> string \<Rightarrow> int option" where
  "find_col names num_cols c =
     (let i = length (takeWhile (\<lambda>n. n \<noteq> c) names)
      in if i < length names \<and> int i < num_cols then Some (int i)
         else if num_cols > int (length names) then None else Some (- 1))"

record condition_match_ctx =
  mc_schema :: row_schema
  mc_names :: "string list"
  mc_types :: "int list"
  mc_cols :: int

fun condition_match :: "float_ops \<Rightarrow> condition_match_ctx \<Rightarrow> bytes \<Rightarrow> qb_condition \<Rightarrow> bool option" where
  "condition_match fo mc row (QBCOND_LEAF column op literal) =
     (case find_col (mc_names mc) (mc_cols mc) column of
        None \<Rightarrow> None
      | Some idx \<Rightarrow>
          if idx < 0 then Some False
          else
            (case row_extract_column (mc_schema mc) idx row of
               Col_Null \<Rightarrow> Some False
             | Col_Wild \<Rightarrow> None
             | Col_At off len \<Rightarrow> filter_match fo row off len (mc_types mc ! nat idx) op literal))"
| "condition_match fo mc row (QBCOND_AND l r) =
     (case condition_match fo mc row l of
        None \<Rightarrow> None
      | Some b \<Rightarrow> if b then condition_match fo mc row r else Some False)"
| "condition_match fo mc row (QBCOND_OR l r) =
     (case condition_match fo mc row l of
        None \<Rightarrow> None
      | Some b \<Rightarrow> if b then Some True else condition_match fo mc row r)"
| "condition_match fo mc row (QBCOND_NOT c) = map_option Not (condition_match fo mc row c)"

section \<open>Result sets\<close>

record result_set =
  r_num_rows :: int
  r_current :: int
  r_num_cols :: int
  r_col_types :: "int list"
  r_col_names :: "string list"
  r_is_fts :: bool
  r_doc_ids :: "u64 list"
  r_rows :: "bytes list"
  r_capacity :: nat

definition empty_result :: result_set where
  "empty_result =
     \<lparr>r_num_rows = 0, r_current = - 1, r_num_cols = 0, r_col_types = [], r_col_names = [], r_is_fts = False, r_doc_ids = [],
      r_rows = [], r_capacity = 0\<rparr>"

definition rs_add_row :: "result_set \<Rightarrow> bytes \<Rightarrow> result_set" where
  "rs_add_row rs data =
     (let cap = (if length (r_rows rs) \<ge> r_capacity rs then (if r_capacity rs \<noteq> 0 then r_capacity rs * 2 else 64) else r_capacity rs)
      in rs\<lparr>r_rows := r_rows rs @ [data], r_capacity := cap\<rparr>)"

definition rs_get_row_column :: "result_set \<Rightarrow> int \<Rightarrow> int \<Rightarrow> col_result" where
  "rs_get_row_column rs row_idx col =
     (if row_idx < 0 \<or> row_idx \<ge> int (length (r_rows rs)) \<or> col < 0 \<or> col \<ge> r_num_cols rs then Col_Null
      else row_extract_column (row_schema_init (r_col_types rs) (r_num_cols rs)) col (r_rows rs ! nat row_idx))"

definition rs_next :: "result_set \<Rightarrow> result_set \<times> bool" where
  "rs_next rs =
     (let cur = r_current rs + 1
      in if cur \<ge> r_num_rows rs then (rs\<lparr>r_current := r_num_rows rs\<rparr>, False) else (rs\<lparr>r_current := cur\<rparr>, True))"

text \<open>What \<^verbatim>\<open>rs_get_column\<close> hands out.\<close>

datatype rs_data = Rs_Null | Rs_Doc_Id u64 | Rs_Score | Rs_Column col_result

definition rs_get_column :: "result_set \<Rightarrow> int \<Rightarrow> rc \<times> rs_data" where
  "rs_get_column rs col =
     (if col < 0 \<or> col \<ge> r_num_cols rs then (KANBUDB_ERR_INVAL, Rs_Null)
      else if r_current rs < 0 \<or> r_current rs \<ge> r_num_rows rs then (KANBUDB_OK, Rs_Null)
      else if r_is_fts rs then
        (KANBUDB_OK, if col = 0 then Rs_Doc_Id (r_doc_ids rs ! nat (r_current rs)) else if col = 1 then Rs_Score else Rs_Null)
      else
        (case rs_get_row_column rs (r_current rs) col of
           Col_Null \<Rightarrow> (KANBUDB_OK, Rs_Null)
         | r \<Rightarrow> (KANBUDB_OK, Rs_Column r)))"

definition rs_get_column_type :: "result_set \<Rightarrow> int \<Rightarrow> int" where
  "rs_get_column_type rs col = (if col < 0 \<or> col \<ge> r_num_cols rs then KANBUDB_INT32 else r_col_types rs ! nat col)"

definition rs_num_columns :: "result_set \<Rightarrow> int" where
  "rs_num_columns rs = r_num_cols rs"

section \<open>Scan\<close>

text \<open>Whether a row passes the condition of the query.\<close>

definition row_passes :: "float_ops \<Rightarrow> query_builder \<Rightarrow> condition_match_ctx \<Rightarrow> bytes \<Rightarrow> bool option" where
  "row_passes fo qb mc row = (case root_condition qb of None \<Rightarrow> Some True | Some c \<Rightarrow> condition_match fo mc row c)"

text \<open>\<^verbatim>\<open>key_set_add\<close> and \<^verbatim>\<open>key_set_contains\<close>; the set is an array in order of insertion.\<close>

definition key_set_add :: "bytes list \<Rightarrow> bytes \<Rightarrow> bytes list" where
  "key_set_add ks key = ks @ [key]"

fun key_set_contains :: "bytes list \<Rightarrow> bytes \<Rightarrow> bool" where
  "key_set_contains [] key = False"
| "key_set_contains (k # ks) key =
     (if length k = length key \<and> memcmp k key (length key) = 0 then True else key_set_contains ks key)"

text \<open>The callback on the entries of the LSM front; \<open>None\<close> as its context is a bad access.\<close>

definition lsm_scan_cb ::
  "float_ops \<Rightarrow> query_builder \<Rightarrow> condition_match_ctx \<Rightarrow> (bytes list \<times> result_set) option lsm_cb" where
  "lsm_scan_cb fo qb mc entry ctx =
     (case ctx of
        None \<Rightarrow> (None, KANBUDB_OK)
      | Some (seen, rs) \<Rightarrow>
          if le_deleted entry then (Some (seen, rs), KANBUDB_OK)
          else
            (case row_passes fo qb mc (le_value entry) of
               None \<Rightarrow> (None, KANBUDB_OK)
             | Some pass \<Rightarrow>
                 (Some (key_set_add seen (le_key entry), if pass then rs_add_row rs (le_value entry) else rs), KANBUDB_OK)))"

definition scan_memtable ::
  "float_ops \<Rightarrow> query_builder \<Rightarrow> condition_match_ctx \<Rightarrow> kanbudb_memtable option \<Rightarrow> bytes list \<times> result_set \<Rightarrow>
   (bytes list \<times> result_set) option" where
  "scan_memtable fo qb mc mt ctx =
     (case mt of
        None \<Rightarrow> Some ctx
      | Some m \<Rightarrow> (case memtable_iterate m (lsm_scan_cb fo qb mc) (Some ctx) of None \<Rightarrow> None | Some (ctx', _) \<Rightarrow> ctx'))"

definition scan_lsm ::
  "float_ops \<Rightarrow> query_builder \<Rightarrow> condition_match_ctx \<Rightarrow> kanbudb_lsm option \<Rightarrow> result_set \<Rightarrow> (bytes list \<times> result_set) option" where
  "scan_lsm fo qb mc lsm rs =
     (case lsm of
        None \<Rightarrow> Some ([], rs)
      | Some l \<Rightarrow>
          (case scan_memtable fo qb mc (Some (active l)) ([], rs) of
             None \<Rightarrow> None
           | Some ctx \<Rightarrow> scan_memtable fo qb mc (flushing l) ctx))"

text \<open>The loop over the B-tree cursor.\<close>

function scan_btree ::
  "float_ops \<Rightarrow> query_builder \<Rightarrow> condition_match_ctx \<Rightarrow> bytes list \<Rightarrow> btree_cursor \<Rightarrow> result_set \<Rightarrow> result_set option" where
  "scan_btree fo qb mc seen cur rs =
     (case btree_cursor_next cur of
        None \<Rightarrow> Some rs
      | Some ((key, val), cur') \<Rightarrow>
          if key_set_contains seen key then scan_btree fo qb mc seen cur' rs
          else
            (case row_passes fo qb mc val of
               None \<Rightarrow> None
             | Some pass \<Rightarrow> scan_btree fo qb mc seen cur' (if pass then rs_add_row rs val else rs)))"
  by pat_completeness auto
termination
  by (relation "measure (\<lambda>(fo, qb, mc, seen, cur, rs). length (items cur) - pos cur)")
    (auto simp: btree_cursor_next_def split: if_splits)

section \<open>Sorting\<close>

text \<open>
  \<^verbatim>\<open>sort_entry_cmp\<close> on two rows. A row without the column is a null pointer the code dereferences.
\<close>

definition col_cmp :: "float_ops \<Rightarrow> int \<Rightarrow> bytes \<Rightarrow> int \<Rightarrow> int \<Rightarrow> bytes \<Rightarrow> int \<Rightarrow> int \<Rightarrow> int option" where
  "col_cmp fo t ra oa la rb ob lb =
     (if t = KANBUDB_STRING then
        (let m = min la lb
         in if m < 0 then None
            else
              (case (peek ra oa (nat m), peek rb ob (nat m)) of
                 (Some a, Some b) \<Rightarrow>
                   (let c = memcmp a b (nat m) in Some (if c = 0 then (if la < lb then - 1 else if la > lb then 1 else 0) else c))
               | _ \<Rightarrow> None))
      else if t = KANBUDB_INT32 \<or> t = KANBUDB_INT64 \<or> t = KANBUDB_BOOL then
        (let n = (if t = KANBUDB_INT32 then 4 else if t = KANBUDB_INT64 then 8 else 1)
         in case (peek ra oa n, peek rb ob n) of (Some a, Some b) \<Rightarrow> Some (cmp3 (read_int t a) (read_int t b)) | _ \<Rightarrow> None)
      else
        (let n = (if t = KANBUDB_FLOAT then 4 else 8)
         in case (peek ra oa n, peek rb ob n) of (Some a, Some b) \<Rightarrow> Some (fcmp_col fo t a b) | _ \<Rightarrow> None))"

definition sort_entry_cmp :: "float_ops \<Rightarrow> row_schema \<Rightarrow> int \<Rightarrow> int \<Rightarrow> bool \<Rightarrow> bytes \<Rightarrow> bytes \<Rightarrow> int option" where
  "sort_entry_cmp fo schema col t ascending ra rb =
     (case (row_extract_column schema col ra, row_extract_column schema col rb) of
        (Col_At oa la, Col_At ob lb) \<Rightarrow> map_option (\<lambda>c. if ascending then c else - c) (col_cmp fo t ra oa la rb ob lb)
      | _ \<Rightarrow> None)"

text \<open>
  \<^verbatim>\<open>qsort_r\<close> sorts the row numbers. Which pairs it compares is its own affair, so a pair whose comparison is a
  bad access makes the whole step one.
\<close>

type_synonym index_sort = "(nat \<Rightarrow> nat \<Rightarrow> int) \<Rightarrow> nat list \<Rightarrow> nat list"

definition row_cmp :: "float_ops \<Rightarrow> row_schema \<Rightarrow> int \<Rightarrow> int \<Rightarrow> bool \<Rightarrow> bytes list \<Rightarrow> nat \<Rightarrow> nat \<Rightarrow> int" where
  "row_cmp fo schema col t ascending rows i j =
     (case sort_entry_cmp fo schema col t ascending (rows ! i) (rows ! j) of Some c \<Rightarrow> c | None \<Rightarrow> 0)"

definition apply_sort :: "float_ops \<Rightarrow> index_sort \<Rightarrow> query_builder \<Rightarrow> result_set \<Rightarrow> result_set option" where
  "apply_sort fo qsort qb rs =
     (if \<not> has_sort qb \<or> length (r_rows rs) \<le> 1 then Some rs
      else
        (case find_col (r_col_names rs) (r_num_cols rs) (sort_column qb) of
           None \<Rightarrow> None
         | Some col \<Rightarrow>
             if col < 0 then Some rs
             else
               (let schema = row_schema_init (r_col_types rs) (r_num_cols rs);
                    t = r_col_types rs ! nat col; rows = r_rows rs
                in if list_all (\<lambda>a. list_all (\<lambda>b. sort_entry_cmp fo schema col t (sort_ascending qb) a b \<noteq> None) rows) rows
                   then Some (rs\<lparr>r_rows := map (\<lambda>i. rows ! i) (qsort (row_cmp fo schema col t (sort_ascending qb) rows) [0..<length rows])\<rparr>)
                   else None)))"

definition apply_limit :: "query_builder \<Rightarrow> result_set \<Rightarrow> result_set" where
  "apply_limit qb rs =
     (if has_limit qb \<and> qb_lim qb < int (length (r_rows rs)) then rs\<lparr>r_rows := take (nat (qb_lim qb)) (r_rows rs)\<rparr> else rs)"

section \<open>Join\<close>

text \<open>
  The key of the foreign row: the local column printed or copied into a 256-byte buffer, with its
  terminating zero.
\<close>

definition join_key :: "int \<Rightarrow> bytes \<Rightarrow> int \<Rightarrow> int \<Rightarrow> bytes option" where
  "join_key t row off len =
     (if t = KANBUDB_INT32 then map_option (\<lambda>bs. cbytes (dec_int (read_int t bs))) (peek row off 4)
      else if t = KANBUDB_INT64 then map_option (\<lambda>bs. cbytes (dec_int (read_int t bs))) (peek row off 8)
      else if len < 0 \<or> len > 255 then None
      else map_option (\<lambda>bs. bs @ [0]) (peek row off (nat len)))"

text \<open>The foreign columns but the join column, as they are appended to the row.\<close>

fun join_fields :: "row_schema \<Rightarrow> int list \<Rightarrow> int \<Rightarrow> bytes \<Rightarrow> nat list \<Rightarrow> bytes option" where
  "join_fields schema types foreign_col fval [] = Some []"
| "join_fields schema types foreign_col fval (j # js) =
     (if int j = foreign_col then join_fields schema types foreign_col fval js
      else
        (case row_extract_column schema (int j) fval of
           Col_Null \<Rightarrow> join_fields schema types foreign_col fval js
         | Col_Wild \<Rightarrow> None
         | Col_At off len \<Rightarrow>
             if len < 0 then None
             else
               (case peek fval off (nat len) of
                  None \<Rightarrow> None
                | Some bs \<Rightarrow>
                    map_option
                      (\<lambda>rest. (if types ! j = KANBUDB_STRING \<or> types ! j = KANBUDB_BLOB then put_u32 (word_of_int len) else []) @ bs @ rest)
                      (join_fields schema types foreign_col fval js))))"

fun join_rows ::
  "row_schema \<Rightarrow> int \<Rightarrow> int \<Rightarrow> string \<Rightarrow> kanbudb_table \<Rightarrow> int \<Rightarrow> bytes list \<Rightarrow> kanbudb_db \<Rightarrow> (kanbudb_db \<times> bytes list) option" where
  "join_rows schema local_col ltype jt ft foreign_col [] db = Some (db, [])"
| "join_rows schema local_col ltype jt ft foreign_col (row # rows) db =
     (case (case row_extract_column schema local_col row of
              Col_Null \<Rightarrow> Some (db, row)
            | Col_Wild \<Rightarrow> None
            | Col_At off len \<Rightarrow>
                (case join_key ltype row off len of
                   None \<Rightarrow> None
                 | Some key \<Rightarrow>
                     (case db_get db jt key of
                        None \<Rightarrow> None
                      | Some (db', _, None) \<Rightarrow> Some (db', row)
                      | Some (db', _, Some fval) \<Rightarrow>
                          map_option (\<lambda>ext. (db', row @ ext))
                            (join_fields (row_schema_init (t_col_types ft) (t_num_cols ft)) (t_col_types ft) foreign_col fval
                               [0..<nat (t_num_cols ft)])))) of
        None \<Rightarrow> None
      | Some (db1, row1) \<Rightarrow>
          map_option (\<lambda>(db2, rows'). (db2, row1 # rows')) (join_rows schema local_col ltype jt ft foreign_col rows db1))"

text \<open>The columns of the joined result; the arrays hold 64 of them.\<close>

definition without :: "'a list \<Rightarrow> nat \<Rightarrow> 'a list" where
  "without xs j = take j xs @ drop (Suc j) xs"

definition apply_join :: "kanbudb_db \<Rightarrow> query_builder \<Rightarrow> result_set \<Rightarrow> (kanbudb_db \<times> result_set) option" where
  "apply_join db qb rs =
     (if \<not> has_join qb \<or> r_rows rs = [] then Some (db, rs)
      else
        (case find_col (r_col_names rs) (r_num_cols rs) (join_on_local qb) of
           None \<Rightarrow> None
         | Some local_col \<Rightarrow>
             (let fidx = find_table (d_tables db) (join_table qb); ft = d_tables db ! nat fidx
              in if local_col < 0 \<or> fidx < 0 then Some (db, rs)
                 else
                   (case find_col (t_col_names ft) (t_num_cols ft) (join_on_foreign qb) of
                      None \<Rightarrow> None
                    | Some foreign_col \<Rightarrow>
                        if foreign_col < 0 then Some (db, rs)
                        else
                          (let names = r_col_names rs @ without (t_col_names ft) (nat foreign_col);
                               types = r_col_types rs @ without (t_col_types ft) (nat foreign_col)
                           in if r_num_cols rs > int KANBUDB_MAX_COLS \<or> length types > KANBUDB_MAX_COLS then None
                              else
                                map_option
                                  (\<lambda>(db', rows). (db', rs\<lparr>r_rows := rows, r_num_cols := int (length types), r_col_types := types,
                                                         r_col_names := names\<rparr>))
                                  (join_rows (row_schema_init (r_col_types rs) (r_num_cols rs)) local_col
                                     (r_col_types rs ! nat local_col) (join_table qb) ft foreign_col (r_rows rs) db))))))"

section \<open>Execution\<close>

text \<open>The column metadata of the table, and an empty result when there is no such table.\<close>

definition result_columns :: "kanbudb_table list \<Rightarrow> string \<Rightarrow> result_set" where
  "result_columns ts table =
     (let i = find_table ts table; t = ts ! nat i; n = min (nat (t_num_cols t)) KANBUDB_MAX_COLS
      in if i < 0 then empty_result
         else empty_result\<lparr>r_num_cols := t_num_cols t, r_col_types := take n (t_col_types t), r_col_names := take n (t_col_names t)\<rparr>)"

definition match_ctx_of :: "result_set \<Rightarrow> condition_match_ctx" where
  "match_ctx_of rs =
     \<lparr>mc_schema = row_schema_init (r_col_types rs) (r_num_cols rs), mc_names = r_col_names rs, mc_types = r_col_types rs,
      mc_cols = r_num_cols rs\<rparr>"

definition qb_scan :: "float_ops \<Rightarrow> kanbudb_db \<Rightarrow> query_builder \<Rightarrow> result_set option" where
  "qb_scan fo db qb =
     (let rs = result_columns (d_tables db) (qb_table qb); mc = match_ctx_of rs
      in case scan_lsm fo qb mc (d_lsm db) rs of
           None \<Rightarrow> None
         | Some (seen, rs1) \<Rightarrow>
             (case btree_cursor_create (d_btree db) of
                None \<Rightarrow> None
              | Some cur \<Rightarrow> scan_btree fo qb mc seen (btree_cursor_seek cur None) rs1))"

definition qb_exec :: "float_ops \<Rightarrow> index_sort \<Rightarrow> kanbudb_db \<Rightarrow> query_builder \<Rightarrow> (kanbudb_db \<times> result_set) option" where
  "qb_exec fo qsort db qb =
     (case qb_scan fo db qb of
        None \<Rightarrow> None
      | Some rs \<Rightarrow>
          (case apply_sort fo qsort qb rs of
             None \<Rightarrow> None
           | Some rs1 \<Rightarrow>
               map_option (\<lambda>(db', rs2). (db', rs2\<lparr>r_num_rows := int (length (r_rows rs2))\<rparr>)) (apply_join db qb (apply_limit qb rs1))))"

end
