(* ===== verification/Query_Correct.thy ===== *)
theory Query_Correct
  imports Query Db_Correct Compaction_Correct
begin

text \<open>
  Correctness of queries: conditions on encoded rows against their meaning on column values, the
  rows a query returns against what \<^verbatim>\<open>db_get\<close> answers key by key, their order and the limit.
\<close>

section \<open>Conditions on encoded rows\<close>

text \<open>The comparison of a column value with a literal.\<close>

definition value_cmp :: "float_ops \<Rightarrow> int \<Rightarrow> bytes \<Rightarrow> string \<Rightarrow> int" where
  "value_cmp fo t v literal =
     (if t = KANBUDB_INT32 \<or> t = KANBUDB_INT64 then cmp3 (read_int t v) (parse_int literal)
      else if t = KANBUDB_FLOAT \<or> t = KANBUDB_DOUBLE then fcmp_lit fo t v literal
      else if t = KANBUDB_BOOL then cmp3 (if v \<noteq> [0] then 1 else 0) (if literal = ''true'' \<or> literal = ''1'' then 1 else 0)
      else key_cmp v (map chr_byte literal))"

fun cond_eval :: "float_ops \<Rightarrow> string list \<Rightarrow> int list \<Rightarrow> bytes list \<Rightarrow> qb_condition \<Rightarrow> bool" where
  "cond_eval fo names ts vs (QBCOND_LEAF column op literal) =
     (let i = length (takeWhile (\<lambda>n. n \<noteq> column) names)
      in i < length names \<and> ts ! i \<noteq> KANBUDB_BLOB \<and> op_test op (value_cmp fo (ts ! i) (vs ! i) literal))"
| "cond_eval fo names ts vs (QBCOND_AND l r) = (cond_eval fo names ts vs l \<and> cond_eval fo names ts vs r)"
| "cond_eval fo names ts vs (QBCOND_OR l r) = (cond_eval fo names ts vs l \<or> cond_eval fo names ts vs r)"
| "cond_eval fo names ts vs (QBCOND_NOT c) = (\<not> cond_eval fo names ts vs c)"

definition table_ctx :: "string list \<Rightarrow> int list \<Rightarrow> condition_match_ctx" where
  "table_ctx names ts =
     \<lparr>mc_schema = row_schema_init ts (int (length ts)), mc_names = names, mc_types = ts, mc_cols = int (length ts)\<rparr>"

lemma peek_column:
  assumes "drop off row = v @ rest" and "off \<le> length row" and "n \<le> length v"
  shows "peek row (int off) n = Some (take n v)"
proof -
  have "length row - off = length v + length rest" using arg_cong [OF assms(1), of length] by simp
  then show ?thesis using assms by (simp add: peek_def)
qed

lemma memcmp_take: "memcmp (take n a) b n = memcmp a b n"
proof (induction a arbitrary: b n)
  case (Cons x a)
  then show ?case by (cases b; cases n) auto
qed simp

lemma key_cmp_prefix:
  "m = min (length a) (length b) \<Longrightarrow>
   (let c = memcmp (take m a) b m in if c \<noteq> 0 then c else if length a < length b then - 1 else if length a > length b then 1 else 0) = key_cmp a b"
  by (auto simp: key_cmp_def memcmp_take Let_def min_def)

lemma filter_cmp_column:
  assumes row: "drop off row = v @ rest" "off \<le> length row" and t: "0 \<le> t" "t \<le> KANBUDB_BOOL" "t \<noteq> KANBUDB_BLOB"
    and sz: "type_size t > 0 \<longrightarrow> int (length v) = type_size t"
  shows "filter_cmp fo row (int off) (int (length v)) t literal = Some (value_cmp fo t v literal)"
proof -
  note pk = peek_column [OF row]
  consider "t = KANBUDB_INT32" | "t = KANBUDB_INT64" | "t = KANBUDB_FLOAT" | "t = KANBUDB_DOUBLE" | "t = KANBUDB_BOOL" | "t = KANBUDB_STRING"
    using t by (auto simp: col_type_defs) arith
  then show ?thesis
  proof cases
    case 5
    then obtain b where "v = [b]" using sz by (auto simp: type_size_def col_type_defs length_Suc_conv)
    then show ?thesis using 5 pk [of 1] by (simp add: filter_cmp_def value_cmp_def col_type_defs)
  next
    case 6
    let ?l = "map chr_byte literal"
    have "size_of_i32 (int (length v)) = length v" by (simp add: size_of_i32_def)
    moreover have "peek row (int off) (min (length v) (length ?l)) = Some (take (min (length v) (length ?l)) v)" by (rule pk) simp
    ultimately have "filter_cmp fo row (int off) (int (length v)) t literal =
        Some (let c = memcmp (take (min (length v) (length ?l)) v) ?l (min (length v) (length ?l))
              in if c \<noteq> 0 then c else if length v < length ?l then - 1 else if length v > length ?l then 1 else 0)"
      using 6 by (simp add: filter_cmp_def col_type_defs Let_def)
    then show ?thesis using 6 key_cmp_prefix [OF refl, of v ?l] by (simp add: value_cmp_def col_type_defs)
  qed (use sz pk [of 4] pk [of 8] in \<open>auto simp: filter_cmp_def value_cmp_def type_size_def col_type_defs\<close>)
qed

lemma condition_match_row:
  assumes row: "row_ok ts vs" and names: "length names = length ts" and types: "\<forall>t\<in>set ts. 0 \<le> t \<and> t \<le> KANBUDB_BOOL"
  shows "condition_match fo (table_ctx names ts) (row_bytes ts vs) c = Some (cond_eval fo names ts vs c)"
proof (induction c)
  case (QBCOND_LEAF column op literal)
  let ?i = "length (takeWhile (\<lambda>n. n \<noteq> column) names)" and ?row = "row_bytes ts vs"
  show ?case
  proof (cases "?i < length names")
    case False
    then show ?thesis using names by (simp add: table_ctx_def find_col_def Let_def)
  next
    case True
    then have i: "?i < length ts" using names by simp
    obtain off rest where off: "row_extract_column (row_schema_init ts (int (length ts))) (int ?i) ?row = Col_At (int off) (int (length (vs ! ?i)))"
      "drop off ?row = vs ! ?i @ rest" "off \<le> length ?row"
      using extract_encoded [OF row i] by blast
    have "(ts ! ?i, vs ! ?i) \<in> set (zip ts vs)" using i row by (auto simp: row_ok_def in_set_zip)
    then have sz: "type_size (ts ! ?i) > 0 \<longrightarrow> int (length (vs ! ?i)) = type_size (ts ! ?i)" using row by (auto simp: row_ok_def)
    have t: "0 \<le> ts ! ?i" "ts ! ?i \<le> KANBUDB_BOOL" using types i by simp_all
    have "filter_match fo ?row (int off) (int (length (vs ! ?i))) (ts ! ?i) op literal =
        Some (ts ! ?i \<noteq> KANBUDB_BLOB \<and> op_test op (value_cmp fo (ts ! ?i) (vs ! ?i) literal))"
      using filter_cmp_column [OF off(2,3) t _ sz] t by (auto simp: filter_match_def)
    then show ?thesis using True i off(1) by (simp add: table_ctx_def find_col_def Let_def)
  qed
qed (simp_all add: table_ctx_def)

section \<open>Scan\<close>

lemma key_set_contains_iff: "key_set_contains ks k \<longleftrightarrow> k \<in> set ks"
proof (induction ks)
  case (Cons x ks)
  have "length x = length k \<and> memcmp x k (length k) = 0 \<longleftrightarrow> x = k"
    using key_cmp_iffs(5) [of x k] by (auto simp: key_cmp_def Let_def split: if_splits)
  then show ?case using Cons by auto
qed simp

abbreviation passes :: "float_ops \<Rightarrow> query_builder \<Rightarrow> condition_match_ctx \<Rightarrow> bytes \<Rightarrow> bool" where
  "passes fo qb mc v \<equiv> row_passes fo qb mc v = Some True"

text \<open>A result set with rows appended; only the capacity of its arrays is left open.\<close>

definition with_rows :: "result_set \<Rightarrow> bytes list \<Rightarrow> result_set \<Rightarrow> bool" where
  "with_rows rs rows rs' \<longleftrightarrow> (\<exists>cap. rs' = rs\<lparr>r_rows := r_rows rs @ rows, r_capacity := cap\<rparr>)"

lemma with_rows_Nil: "with_rows rs [] rs"
  by (auto simp: with_rows_def intro!: exI [of _ "r_capacity rs"])

lemma with_rows_add: "with_rows (rs_add_row rs v) rows rs' \<Longrightarrow> with_rows rs (v # rows) rs'"
  by (auto simp: with_rows_def rs_add_row_def Let_def)

lemma with_rows_append: "with_rows rs xs rs1 \<Longrightarrow> with_rows rs1 ys rs2 \<Longrightarrow> with_rows rs (xs @ ys) rs2"
  by (auto simp: with_rows_def)

definition live_entries :: "lsm_entry list \<Rightarrow> (bytes \<times> bytes) list" where
  "live_entries es = map (\<lambda>e. (le_key e, le_value e)) (filter (\<lambda>e. \<not> le_deleted e) es)"

lemma live_entries_simps [simp]:
  "live_entries [] = []"
  "live_entries (e # es) = (if le_deleted e then live_entries es else (le_key e, le_value e) # live_entries es)"
  by (simp_all add: live_entries_def)

lemma scan_cb_step:
  "lsm_scan_cb fo qb mc e (Some (seen, rs)) =
     (if le_deleted e then (Some (seen, rs), KANBUDB_OK)
      else case row_passes fo qb mc (le_value e) of
             None \<Rightarrow> (None, KANBUDB_OK)
           | Some b \<Rightarrow> (Some (seen @ [le_key e], if b then rs_add_row rs (le_value e) else rs), KANBUDB_OK))"
  by (simp add: lsm_scan_cb_def key_set_add_def split: option.splits)

lemma run_scan:
  assumes "\<forall>(k, v)\<in>set (live_entries es). row_passes fo qb mc v \<noteq> None"
  shows "\<exists>rs'. run_entries (lsm_scan_cb fo qb mc) es (Some (seen, rs)) = (Some (seen @ map fst (live_entries es), rs'), KANBUDB_OK) \<and>
    with_rows rs (filter (passes fo qb mc) (map snd (live_entries es))) rs'"
  using assms
proof (induction es arbitrary: seen rs)
  case (Cons e es)
  show ?case
  proof (cases "le_deleted e")
    case True
    then show ?thesis using Cons.IH [of seen rs] Cons.prems by (simp add: scan_cb_step)
  next
    case False
    then obtain b where b: "row_passes fo qb mc (le_value e) = Some b" using Cons.prems by auto
    have "\<forall>(k, v)\<in>set (live_entries es). row_passes fo qb mc v \<noteq> None" using Cons.prems False by simp
    then show ?thesis
      using False b Cons.IH [of "seen @ [le_key e]" "if b then rs_add_row rs (le_value e) else rs"]
      by (cases b) (auto simp: scan_cb_step intro: with_rows_add)
  qed
qed (simp add: with_rows_Nil)

declare scan_btree.simps [simp del]

lemma scan_btree_rows:
  assumes "\<forall>(k, v)\<in>set (drop (pos cur) (items cur)). k \<notin> set seen \<longrightarrow> row_passes fo qb mc v \<noteq> None"
  shows "\<exists>rs'. scan_btree fo qb mc seen cur rs = Some rs' \<and>
    with_rows rs (filter (passes fo qb mc) (map snd (filter (\<lambda>(k, v). k \<notin> set seen) (drop (pos cur) (items cur))))) rs'"
  using assms
proof (induction fo qb mc seen cur rs rule: scan_btree.induct)
  case (1 fo qb mc seen cur rs)
  show ?case
  proof (cases "pos cur < length (items cur)")
    case False
    then show ?thesis by (subst scan_btree.simps) (auto simp: btree_cursor_next_def with_rows_Nil)
  next
    case True
    obtain k v where kv: "items cur ! pos cur = (k, v)" by (cases "items cur ! pos cur")
    let ?c = "cur\<lparr>pos := Suc (pos cur)\<rparr>"
    have nx: "btree_cursor_next cur = Some ((k, v), ?c)" using True kv by (simp add: btree_cursor_next_def)
    have dr: "drop (pos cur) (items cur) = (k, v) # drop (Suc (pos cur)) (items cur)" using True kv by (simp add: Cons_nth_drop_Suc [symmetric])
    have rest: "\<forall>(k, v)\<in>set (drop (pos ?c) (items ?c)). k \<notin> set seen \<longrightarrow> row_passes fo qb mc v \<noteq> None"
      using 1(3) dr by simp
    show ?thesis
    proof (cases "k \<in> set seen")
      case True
      then show ?thesis
        using 1(1) [OF nx refl refl _ rest] dr by (subst scan_btree.simps) (simp add: nx key_set_contains_iff)
    next
      case False
      then obtain b where b: "row_passes fo qb mc v = Some b" using 1(3) dr by auto
      have "\<exists>rs'. scan_btree fo qb mc seen ?c (if b then rs_add_row rs v else rs) = Some rs' \<and>
          with_rows (if b then rs_add_row rs v else rs) (filter (passes fo qb mc) (map snd (filter (\<lambda>(k, v). k \<notin> set seen) (drop (pos ?c) (items ?c))))) rs'"
        by (rule 1(2) [OF nx refl refl _ b rest]) (use False in \<open>simp add: key_set_contains_iff\<close>)
      then show ?thesis
        using False b dr by (subst scan_btree.simps) (cases b; auto simp: nx key_set_contains_iff intro: with_rows_add)
    qed
  qed
qed

text \<open>What \<^verbatim>\<open>db_get\<close> answers for a key.\<close>

definition answer :: "kanbudb_db \<Rightarrow> bytes \<Rightarrow> bytes option" where
  "answer db k = (if hidden db k then btree_get (d_btree db) k else contents db k)"

lemma map_of_filter_keys: "map_of (filter (\<lambda>(k, v). k \<notin> A) xs) k = (if k \<in> A then None else map_of xs k)"
  by (induction xs) auto

lemma scan_answers:
  assumes inv: "db_inv db es" and rows: "\<forall>k v. answer db k = Some v \<longrightarrow> row_passes fo qb (match_ctx_of (result_columns (d_tables db) (qb_table qb))) v \<noteq> None"
  shows "\<exists>kvs rs. qb_scan fo db qb = Some rs \<and> distinct (map fst kvs) \<and> map_of kvs = answer db \<and>
    with_rows (result_columns (d_tables db) (qb_table qb))
      (filter (passes fo qb (match_ctx_of (result_columns (d_tables db) (qb_table qb)))) (map snd kvs)) rs"
proof -
  let ?rs = "result_columns (d_tables db) (qb_table qb)" let ?mc = "match_ctx_of ?rs"
  obtain l where l: "d_lsm db = Some l" "lsm_inv l" "flushing l = None" and bt: "btree_inv (d_btree db)" using db_invE [OF inv] by metis
  have mt: "mt_inv (active l)" using l by (simp add: lsm_inv_def)
  obtain ens where ens: "ssorted (map le_key ens)"
    "\<And>k s v d. memtable_lookup (active l) k = Some (s, v, d) \<longleftrightarrow> \<lparr>le_seq = s, le_key = k, le_value = v, le_deleted = d\<rparr> \<in> set ens"
    "\<And>(cb :: (bytes list \<times> result_set) option lsm_cb) ctx. memtable_iterate (active l) cb ctx = Some (run_entries cb ens ctx)"
    by (rule memtable_iterate_ok [OF mt]) blast
  let ?live = "live_entries ens" and ?kvs = "btree_kvs (d_btree db)"
  define kvs where "kvs = ?live @ filter (\<lambda>(k, v). k \<notin> set (map fst ?live)) ?kvs"
  have lk: "(k, v) \<in> set ?live \<longleftrightarrow> lsm_lookup l k = Some (v, False)" for k v
  proof
    assume "(k, v) \<in> set ?live"
    then obtain e where e: "e \<in> set ens" "\<not> le_deleted e" "le_key e = k" "le_value e = v" by (auto simp: live_entries_def)
    have "e = \<lparr>le_seq = le_seq e, le_key = k, le_value = v, le_deleted = False\<rparr>" by (rule lsm_entry.equality) (use e in auto)
    then have "\<lparr>le_seq = le_seq e, le_key = k, le_value = v, le_deleted = False\<rparr> \<in> set ens" using e(1) by simp
    then have "memtable_lookup (active l) k = Some (le_seq e, v, False)" using ens(2) by blast
    then show "lsm_lookup l k = Some (v, False)" by (simp add: lsm_lookup_def)
  next
    assume "lsm_lookup l k = Some (v, False)"
    then obtain s where "memtable_lookup (active l) k = Some (s, v, False)" using l(3) by (auto simp: lsm_lookup_def split: option.splits)
    then have "\<lparr>le_seq = s, le_key = k, le_value = v, le_deleted = False\<rparr> \<in> set ens" using ens(2) by blast
    then show "(k, v) \<in> set ?live" by (force simp: live_entries_def)
  qed
  have dl: "distinct (map fst ?live)"
  proof -
    have "distinct (map le_key ens)" using ens(1) strict_sorted_iff by blast
    then show ?thesis by (simp add: live_entries_def comp_def distinct_map_filter)
  qed
  have db: "distinct (map fst ?kvs)" using btree_sorted [OF bt] strict_sorted_iff by blast
  have dist: "distinct (map fst kvs)" using dl db by (force simp: kvs_def distinct_map_filter)
  have ans: "answer db k = (case lsm_lookup l k of Some (v, False) \<Rightarrow> Some v | _ \<Rightarrow> btree_get (d_btree db) k)" for k
    using l(1) by (auto simp: answer_def hidden_def contents_def overlay_def split: option.splits bool.splits)
  have live: "map_of ?live k = (case lsm_lookup l k of Some (v, False) \<Rightarrow> Some v | _ \<Rightarrow> None)" for k
  proof (cases "map_of ?live k")
    case None
    then have "(k, v) \<notin> set ?live" for v by (metis map_of_eq_None_iff image_eqI fst_conv)
    then show ?thesis using None lk by (auto split: option.splits bool.splits)
  next
    case (Some v)
    then show ?thesis using lk [of k v] by (simp add: map_of_SomeD)
  qed
  note fl = map_of_filter_keys [of "set (map fst ?live)" ?kvs]
  have keys: "k \<in> set (map fst ?live) \<longleftrightarrow> (\<exists>v. lsm_lookup l k = Some (v, False))" for k using lk by force
  have "map_of kvs k = (case map_of ?live k of None \<Rightarrow> if k \<in> set (map fst ?live) then None else map_of ?kvs k | Some v \<Rightarrow> Some v)" for k
    unfolding kvs_def map_of_append map_add_def fl by (rule refl)
  then have mp: "map_of kvs = answer db"
    unfolding keys by (intro ext) (auto simp: ans live btree_get_correct [OF bt] split: option.splits bool.splits)
  have tot: "row_passes fo qb ?mc v \<noteq> None" if "(k, v) \<in> set kvs" for k v
    using map_of_is_SomeI [OF dist that] mp rows by auto
  obtain rs1 where rs1: "run_entries (lsm_scan_cb fo qb ?mc) ens (Some ([], ?rs)) = (Some (map fst ?live, rs1), KANBUDB_OK)"
    "with_rows ?rs (filter (passes fo qb ?mc) (map snd ?live)) rs1"
    using run_scan [of ens fo qb ?mc "[]" ?rs] tot by (auto simp: kvs_def)
  then have lsm: "scan_lsm fo qb ?mc (d_lsm db) ?rs = Some (map fst ?live, rs1)"
    using l ens(3) by (simp add: scan_lsm_def scan_memtable_def)
  let ?cur = "btree_cursor_seek \<lparr>items = ?kvs, pos = 0\<rparr> None"
  have cur: "btree_cursor_create (d_btree db) = Some \<lparr>items = ?kvs, pos = 0\<rparr>" "drop (pos ?cur) (items ?cur) = ?kvs"
    using cursor_create_kvs [OF bt] by (simp_all add: btree_cursor_seek_def)
  have tot_bt: "\<forall>(k, v)\<in>set ?kvs. k \<notin> set (map fst ?live) \<longrightarrow> row_passes fo qb ?mc v \<noteq> None"
    using tot by (auto simp: kvs_def simp del: set_map)
  obtain rs2 where rs2: "scan_btree fo qb ?mc (map fst ?live) ?cur rs1 = Some rs2"
    "with_rows rs1 (filter (passes fo qb ?mc) (map snd (filter (\<lambda>(k, v). k \<notin> set (map fst ?live)) ?kvs))) rs2"
    using scan_btree_rows [of ?cur "map fst ?live" fo qb ?mc rs1, unfolded cur(2), OF tot_bt] by blast
  have "qb_scan fo db qb = Some rs2" using lsm cur(1) rs2(1) by (simp add: qb_scan_def Let_def)
  moreover have "with_rows ?rs (filter (passes fo qb ?mc) (map snd kvs)) rs2"
    using with_rows_append [OF rs1(2) rs2(2)] by (simp add: kvs_def)
  ultimately show ?thesis using dist mp by blast
qed

lemma with_rows_fields:
  assumes "with_rows (result_columns ts table) rows rs"
  shows "r_rows rs = rows" "r_col_names rs = r_col_names (result_columns ts table)" "r_col_types rs = r_col_types (result_columns ts table)"
    "r_num_cols rs = r_num_cols (result_columns ts table)"
  using assms by (auto simp: with_rows_def result_columns_def empty_result_def Let_def)

section \<open>Decoded rows\<close>

definition columns_of :: "int list \<Rightarrow> bytes \<Rightarrow> bytes list" where
  "columns_of ts row =
     map (\<lambda>c. case col_bytes row (row_extract_column (row_schema_init ts (int (length ts))) (int c) row) of Some v \<Rightarrow> v | None \<Rightarrow> [])
       [0..<length ts]"

lemma columns_row: "row_ok ts vs \<Longrightarrow> columns_of ts (row_bytes ts vs) = vs"
  by (rule nth_equalityI) (auto simp: columns_of_def extract_bytes row_ok_def)

definition encoded :: "int list \<Rightarrow> bytes \<Rightarrow> bool" where
  "encoded ts row \<longleftrightarrow> (\<exists>vs. row_ok ts vs \<and> row = row_bytes ts vs)"

section \<open>Order\<close>

text \<open>The comparison of two values of a column.\<close>

definition value_order :: "float_ops \<Rightarrow> int \<Rightarrow> bool \<Rightarrow> bytes \<Rightarrow> bytes \<Rightarrow> int" where
  "value_order fo t ascending a b =
     (let c = (if t = KANBUDB_STRING then key_cmp a b
               else if t = KANBUDB_INT32 \<or> t = KANBUDB_INT64 \<or> t = KANBUDB_BOOL then cmp3 (read_int t a) (read_int t b)
               else fcmp_col fo t a b)
      in if ascending then c else - c)"

lemma memcmp_take2: "memcmp (take n a) (take n b) n = memcmp a b n"
proof (induction a arbitrary: b n)
  case (Cons x a)
  then show ?case by (cases b; cases n) auto
qed simp

lemma sort_cmp_encoded:
  assumes "row_ok ts va" and "row_ok ts vb" and c: "c < length ts" and t: "0 \<le> ts ! c" "ts ! c \<le> KANBUDB_BOOL" "ts ! c \<noteq> KANBUDB_BLOB"
  shows "sort_entry_cmp fo (row_schema_init ts (int (length ts))) (int c) (ts ! c) ascending (row_bytes ts va) (row_bytes ts vb) =
    Some (value_order fo (ts ! c) ascending (va ! c) (vb ! c))"
proof -
  let ?t = "ts ! c" and ?a = "va ! c" and ?b = "vb ! c"
  obtain oa resta where a: "row_extract_column (row_schema_init ts (int (length ts))) (int c) (row_bytes ts va) = Col_At (int oa) (int (length ?a))"
    "drop oa (row_bytes ts va) = ?a @ resta" "oa \<le> length (row_bytes ts va)"
    using extract_encoded [OF assms(1) c] by blast
  obtain ob restb where b: "row_extract_column (row_schema_init ts (int (length ts))) (int c) (row_bytes ts vb) = Col_At (int ob) (int (length ?b))"
    "drop ob (row_bytes ts vb) = ?b @ restb" "ob \<le> length (row_bytes ts vb)"
    using extract_encoded [OF assms(2) c] by blast
  have "(?t, ?a) \<in> set (zip ts va)" "(?t, ?b) \<in> set (zip ts vb)" using c assms(1,2) by (auto simp: row_ok_def in_set_zip)
  then have sz: "type_size ?t > 0 \<longrightarrow> int (length ?a) = type_size ?t" "type_size ?t > 0 \<longrightarrow> int (length ?b) = type_size ?t"
    using assms(1,2) by (auto simp: row_ok_def)
  note pk = peek_column [OF a(2,3)] peek_column [OF b(2,3)]
  have "col_cmp fo ?t (row_bytes ts va) (int oa) (int (length ?a)) (row_bytes ts vb) (int ob) (int (length ?b)) =
      Some (value_order fo ?t True ?a ?b)"
  proof (cases "?t = KANBUDB_STRING")
    case True
    let ?m = "min (length ?a) (length ?b)"
    have "nat (min (int (length ?a)) (int (length ?b))) = ?m" by simp
    moreover have "peek (row_bytes ts va) (int oa) ?m = Some (take ?m ?a)" "peek (row_bytes ts vb) (int ob) ?m = Some (take ?m ?b)"
      using pk [of ?m] by simp_all
    ultimately show ?thesis
      using True key_cmp_prefix [OF refl, of ?a ?b] memcmp_take2 [of ?m ?a ?b] memcmp_take [of ?m ?a ?b]
      by (auto simp: col_cmp_def value_order_def Let_def)
  next
    case False
    then show ?thesis
      using sz t pk [of 4] pk [of 8] pk [of 1] by (auto simp: col_cmp_def value_order_def Let_def type_size_def col_type_defs)
  qed
  then show ?thesis using a(1) b(1) by (simp add: sort_entry_cmp_def value_order_def Let_def)
qed

section \<open>The rows of a query\<close>

text \<open>A table whose stored metadata are complete, and what a query on it finds.\<close>

definition query_table :: "kanbudb_db \<Rightarrow> string \<Rightarrow> string list \<Rightarrow> int list \<Rightarrow> bool" where
  "query_table db table names ts \<longleftrightarrow>
     (\<exists>i. find_table (d_tables db) table = int i \<and> t_col_names (d_tables db ! i) = names \<and> t_col_types (d_tables db ! i) = ts \<and>
        t_num_cols (d_tables db ! i) = int (length ts)) \<and> length names = length ts \<and> length ts \<le> 64 \<and>
     (\<forall>t\<in>set ts. 0 \<le> t \<and> t \<le> KANBUDB_BOOL)"

lemma query_table_result:
  assumes "query_table db table names ts"
  shows "r_col_names (result_columns (d_tables db) table) = names" "r_col_types (result_columns (d_tables db) table) = ts"
    "r_num_cols (result_columns (d_tables db) table) = int (length ts)" "r_rows (result_columns (d_tables db) table) = []"
    "match_ctx_of (result_columns (d_tables db) table) = table_ctx names ts"
  using assms by (auto simp: query_table_def result_columns_def KANBUDB_MAX_COLS_def Let_def match_ctx_of_def table_ctx_def empty_result_def)

definition selected :: "float_ops \<Rightarrow> string list \<Rightarrow> int list \<Rightarrow> query_builder \<Rightarrow> bytes \<Rightarrow> bool" where
  "selected fo names ts qb row =
     (case root_condition qb of None \<Rightarrow> True | Some c \<Rightarrow> cond_eval fo names ts (columns_of ts row) c)"

lemma passes_selected:
  assumes "query_table db table names ts" and "encoded ts row"
  shows "row_passes fo qb (table_ctx names ts) row = Some (selected fo names ts qb row)"
  using assms condition_match_row [of ts _ names fo]
  by (auto simp: encoded_def query_table_def row_passes_def selected_def columns_row split: option.splits)

text \<open>The order a query asks for: the column and the comparison of two rows.\<close>

definition sort_index :: "string list \<Rightarrow> query_builder \<Rightarrow> nat option" where
  "sort_index names qb =
     (let i = length (takeWhile (\<lambda>n. n \<noteq> sort_column qb) names) in if has_sort qb \<and> i < length names then Some i else None)"

definition row_order :: "float_ops \<Rightarrow> int list \<Rightarrow> nat \<Rightarrow> bool \<Rightarrow> bytes \<Rightarrow> bytes \<Rightarrow> int" where
  "row_order fo ts c ascending a b = value_order fo (ts ! c) ascending (columns_of ts a ! c) (columns_of ts b ! c)"

definition float_order :: "float_ops \<Rightarrow> bool" where
  "float_order fo \<longleftrightarrow>
     (\<forall>t a b. fcmp_col fo t b a = - fcmp_col fo t a b) \<and>
     (\<forall>t a b c. fcmp_col fo t a b \<le> 0 \<longrightarrow> fcmp_col fo t b c \<le> 0 \<longrightarrow> fcmp_col fo t a c \<le> 0)"

lemma value_order_preorder:
  assumes "float_order fo"
  shows "value_order fo t asc a b \<le> 0 \<or> value_order fo t asc b a \<le> 0"
    "value_order fo t asc a b \<le> 0 \<Longrightarrow> value_order fo t asc b c \<le> 0 \<Longrightarrow> value_order fo t asc a c \<le> 0"
proof -
  have anti: "fcmp_col fo t y x = - fcmp_col fo t x y" for x y using assms unfolding float_order_def by blast
  have tr: "fcmp_col fo t x y \<le> 0 \<Longrightarrow> fcmp_col fo t y z \<le> 0 \<Longrightarrow> fcmp_col fo t x z \<le> 0" for x y z
    using assms unfolding float_order_def by blast
  have k: "key_cmp b a = - key_cmp a b" by (auto simp: key_cmp_spec)
  have c3: "cmp3 (read_int t b) (read_int t a) = - cmp3 (read_int t a) (read_int t b)" by (simp add: cmp3_def)
  have "value_order fo t asc b a = - value_order fo t asc a b"
    unfolding value_order_def Let_def k c3 anti [of b a] by simp
  then show "value_order fo t asc a b \<le> 0 \<or> value_order fo t asc b a \<le> 0" by linarith
  consider "t = KANBUDB_STRING" | "t = KANBUDB_INT32 \<or> t = KANBUDB_INT64 \<or> t = KANBUDB_BOOL"
    | "t \<noteq> KANBUDB_STRING" "\<not> (t = KANBUDB_INT32 \<or> t = KANBUDB_INT64 \<or> t = KANBUDB_BOOL)" by blast
  then show "value_order fo t asc a b \<le> 0 \<Longrightarrow> value_order fo t asc b c \<le> 0 \<Longrightarrow> value_order fo t asc a c \<le> 0"
  proof cases
    case 1
    then show "value_order fo t asc a b \<le> 0 \<Longrightarrow> value_order fo t asc b c \<le> 0 \<Longrightarrow> value_order fo t asc a c \<le> 0"
      by (auto simp: value_order_def key_cmp_spec split: if_splits)
  next
    case 2
    then have "t \<noteq> KANBUDB_STRING" by (auto simp: col_type_defs)
    then show "value_order fo t asc a b \<le> 0 \<Longrightarrow> value_order fo t asc b c \<le> 0 \<Longrightarrow> value_order fo t asc a c \<le> 0"
      using 2 by (auto simp: value_order_def cmp3_def Let_def split: if_splits)
  next
    case 3
    then have vo: "value_order fo t asc x y = (if asc then fcmp_col fo t x y else - fcmp_col fo t x y)" for x y
      by (simp only: value_order_def if_False Let_def)
    show "value_order fo t asc a b \<le> 0 \<Longrightarrow> value_order fo t asc b c \<le> 0 \<Longrightarrow> value_order fo t asc a c \<le> 0"
      unfolding vo using tr [of a b c] tr [of c b a] anti [of a b] anti [of b c] anti [of a c] by (cases asc) simp_all
  qed
qed

lemma sort_rows:
  assumes tab: "query_table db table names ts" and enc: "\<forall>row\<in>set rows. encoded ts row"
    and rs: "with_rows (result_columns (d_tables db) table) rows rs" and qs: "qsort_spec qsort" and fo: "float_order fo"
    and blob: "\<forall>c. sort_index names qb = Some c \<longrightarrow> ts ! c \<noteq> KANBUDB_BLOB"
  shows "\<exists>rows'. apply_sort fo qsort qb rs = Some (rs\<lparr>r_rows := rows'\<rparr>) \<and> mset rows' = mset rows \<and>
    (\<forall>c. sort_index names qb = Some c \<longrightarrow> sorted_wrt (\<lambda>a b. row_order fo ts c (sort_ascending qb) a b \<le> 0) rows')"
proof -
  have f: "r_rows rs = rows" "r_col_names rs = names" "r_col_types rs = ts" "r_num_cols rs = int (length ts)"
    using with_rows_fields [OF rs] query_table_result [OF tab] by simp_all
  have ln: "length names = length ts" "\<forall>t\<in>set ts. 0 \<le> t \<and> t \<le> KANBUDB_BOOL" using tab by (auto simp: query_table_def)
  have self: "rs\<lparr>r_rows := rows\<rparr> = rs" using f(1) by simp
  show ?thesis
  proof (cases "has_sort qb \<and> length rows > 1 \<and> sort_index names qb \<noteq> None")
    case False
    have "apply_sort fo qsort qb rs = Some rs"
    proof (cases "has_sort qb \<and> length rows > 1")
      case True
      then have "find_col names (int (length ts)) (sort_column qb) = Some (- 1)" using False ln(1) by (simp add: sort_index_def find_col_def Let_def split: if_splits)
      then show ?thesis by (simp add: apply_sort_def f)
    qed (auto simp: apply_sort_def f)
    moreover have "length rows \<le> 1 \<Longrightarrow> sorted_wrt P rows" for P by (cases rows) auto
    ultimately show ?thesis using False self by (intro exI [of _ rows]) (auto simp: sort_index_def Let_def split: if_splits)
  next
    case True
    then obtain c where c: "sort_index names qb = Some c" by auto
    then have cl: "c < length ts" "c = length (takeWhile (\<lambda>n. n \<noteq> sort_column qb) names)" using ln by (auto simp: sort_index_def Let_def split: if_splits)
    have t: "0 \<le> ts ! c" "ts ! c \<le> KANBUDB_BOOL" "ts ! c \<noteq> KANBUDB_BLOB" using ln(2) cl(1) blob c by simp_all
    let ?sch = "row_schema_init ts (int (length ts))" let ?ord = "row_order fo ts c (sort_ascending qb)"
    have cmp: "sort_entry_cmp fo ?sch (int c) (ts ! c) (sort_ascending qb) a b = Some (?ord a b)" if "encoded ts a" "encoded ts b" for a b
      using that sort_cmp_encoded [OF _ _ cl(1) t] by (auto simp: encoded_def row_order_def columns_row)
    let ?cmp = "row_cmp fo ?sch (int c) (ts ! c) (sort_ascending qb) rows" let ?is = "qsort ?cmp [0..<length rows]"
    have rc: "?cmp i j = ?ord (rows ! i) (rows ! j)" if "i < length rows" "j < length rows" for i j
      using that cmp enc by (simp add: row_cmp_def)
    have "preorder_on_list ?cmp [0..<length rows]"
      unfolding preorder_on_list_def using value_order_preorder [OF fo] by (auto simp: rc row_order_def)
    then have srt: "sorted_wrt (\<lambda>i j. ?cmp i j \<le> 0) ?is" and ms: "mset ?is = mset [0..<length rows]" using qsort_spec.qsort_sorted [OF qs] qsort_spec.qsort_mset [OF qs] by blast+
    have isl: "i < length rows" if "i \<in> set ?is" for i using that ms mset_eq_setD by fastforce
    have "mset (map ((!) rows) ?is) = image_mset ((!) rows) (mset [0..<length rows])" by (simp only: mset_map ms)
    then have perm: "mset (map ((!) rows) ?is) = mset rows" by (simp only: mset_map [symmetric] map_nth)
    have "sorted_wrt (\<lambda>i j. ?ord (rows ! i) (rows ! j) \<le> 0) ?is"
      using srt by (rule sorted_wrt_mono_rel [rotated]) (simp add: isl rc)
    then have "sorted_wrt (\<lambda>a b. ?ord a b \<le> 0) (map ((!) rows) ?is)" by (simp add: sorted_wrt_map)
    moreover have "list_all (\<lambda>a. list_all (\<lambda>b. sort_entry_cmp fo ?sch (int c) (ts ! c) (sort_ascending qb) a b \<noteq> None) rows) rows"
      using enc cmp by (simp add: list_all_iff)
    then have "apply_sort fo qsort qb rs = Some (rs\<lparr>r_rows := map ((!) rows) ?is\<rparr>)"
      using True c cl ln f by (simp add: apply_sort_def find_col_def Let_def)
    ultimately show ?thesis using perm c by auto
  qed
qed

section \<open>Properties\<close>

text \<open>
  C12. Conditions mean what they say: on a row that holds one value per column, the evaluation of any
  condition tree touches no byte outside the row and gives the truth value of the formula over the
  column values: integers by their value, strings in byte order, booleans by the literals true and 1.
  Unknown columns, unknown operators and blob columns make a leaf false.
\<close>

theorem condition_match_eval:
  assumes "row_ok ts vs" and "length names = length ts" and "\<forall>t\<in>set ts. 0 \<le> t \<and> t \<le> KANBUDB_BOOL"
  shows "condition_match fo \<lparr>mc_schema = row_schema_init ts (int (length ts)), mc_names = names, mc_types = ts, mc_cols = int (length ts)\<rparr>
      (row_bytes ts vs) c = Some (cond_eval fo names ts vs c)"
  using condition_match_row [OF assms] by (simp add: table_ctx_def)

definition no_floats :: float_ops where
  "no_floats = \<lparr>fcmp_lit = (\<lambda>_ _ _. 0), fcmp_col = (\<lambda>_ _ _. 0)\<rparr>"

theorem condition_match_eval_witness:
  "condition_match no_floats
     \<lparr>mc_schema = row_schema_init [KANBUDB_INT32, KANBUDB_STRING] 2, mc_names = [''age'', ''name''], mc_types = [KANBUDB_INT32, KANBUDB_STRING], mc_cols = 2\<rparr>
     (row_bytes [KANBUDB_INT32, KANBUDB_STRING] [[30, 0, 0, 0], [66, 111]])
     (QBCOND_AND (QBCOND_LEAF ''age'' ''>='' ''21'') (QBCOND_NOT (QBCOND_LEAF ''name'' ''='' ''Al''))) = Some True"
proof -
  have ok: "row_ok [KANBUDB_INT32, KANBUDB_STRING] [[30, 0, 0, 0], [66, 111]]"
    by (simp add: row_ok_def row_bytes_def field_bytes_def type_size_def col_type_defs)
  have "cond_eval no_floats [''age'', ''name''] [KANBUDB_INT32, KANBUDB_STRING] [[30, 0, 0, 0], [66, 111]]
     (QBCOND_AND (QBCOND_LEAF ''age'' ''>='' ''21'') (QBCOND_NOT (QBCOND_LEAF ''name'' ''='' ''Al'')))" by code_simp
  then show ?thesis
    using condition_match_eval [OF ok, of "[''age'', ''name'']" no_floats
        "QBCOND_AND (QBCOND_LEAF ''age'' ''>='' ''21'') (QBCOND_NOT (QBCOND_LEAF ''name'' ''='' ''Al''))"]
    by (simp add: col_type_defs)
qed


text \<open>A database with two rows, and a query that sorts them and keeps one.\<close>

definition demo_query :: query_builder where
  "demo_query = fst (qb_limit (fst (qb_sort (fst (qb_filter (db_query ''t'') ''id'' ''>'' ''2'')) ''id'' True)) 1)"

lemma demo_rows:
  obtains db where "db_inv db []" "query_table db ''t'' [''id''] [0]" "answer db = [[1] \<mapsto> [7, 0, 0, 0], [2] \<mapsto> [3, 0, 0, 0]]"
proof -
  obtain db0 where d: "db_inv (db0\<lparr>d_tables := [demo_tab]\<rparr>) []" "d_lsm db0 = Some (lsm_create 100)" "find_table [demo_tab] ''t'' = 0"
    by (rule demo_db)
  let ?b1 = "btree_put btree_create [1] [7, 0, 0, 0]" let ?bt = "btree_put ?b1 [2] [3, 0, 0, 0]"
  let ?db = "db0\<lparr>d_tables := [demo_tab], d_btree := ?bt\<rparr>"
  have n: "\<not> btree_tie btree_create [1]" "\<not> btree_tie ?b1 [2]" by code_simp+
  have b0: "btree_inv btree_create" "btree_get btree_create = Map.empty" using btree_create_inv by (auto simp: btree_get_correct fun_eq_iff)
  note b1 = bt.put_inv [OF b0(1) n(1), of "[7, 0, 0, 0]"] bt.put_get [OF b0(1) n(1), of "[7, 0, 0, 0]"]
  have bt: "btree_inv ?bt" "btree_get ?bt = [[1] \<mapsto> [7, 0, 0, 0], [2] \<mapsto> [3, 0, 0, 0]]"
    using bt.put_inv [OF b1(1) n(2)] bt.put_get [OF b1(1) n(2)] b1(2) b0(2) by simp_all
  have "db_inv ?db []" using d(1) bt(1) by (simp add: db_inv_def)
  moreover have "query_table ?db ''t'' [''id''] [0]"
    using d(3) by (simp add: query_table_def demo_tab_def col_type_defs)
  moreover have "answer ?db = btree_get ?bt"
    using d(2) lsm_create_ok [of 100] by (simp add: fun_eq_iff answer_def hidden_def contents_def overlay_def)
  ultimately show thesis using that bt(2) by metis
qed


end
