(* ===== verification/Vec_Heap.thy ===== *)
theory Vec_Heap
  imports Prelude
begin

text \<open>
  What the vector index, its filtered search and the HNSW graph share: single-precision numbers with
  their comparisons, the error codes of \<^verbatim>\<open>src/include/vector.h\<close>, and the binary heaps in arrays that
  \<^verbatim>\<open>vector.c\<close>, \<^verbatim>\<open>vec_filter.c\<close> and \<^verbatim>\<open>hnsw.c\<close> use to keep the nearest vectors.

  A \<^verbatim>\<open>float\<close> is its bit pattern and the comparisons are those of IEEE 754, so that NaN, signed zeros and the
  infinities behave as in the program. Float arithmetic occurs only in the distance kernels, which the
  code calls through a function pointer and which the model takes as a function.
\<close>

section \<open>Floats\<close>

type_synonym f32 = u32
type_synonym vec = "f32 list"
type_synonym dist_fn = "vec \<Rightarrow> vec \<Rightarrow> f32"

definition f_abs :: "f32 \<Rightarrow> f32" where
  "f_abs x = (if x < 0x80000000 then x else x - 0x80000000)"

definition f_nan :: "f32 \<Rightarrow> bool" where
  "f_nan x \<longleftrightarrow> 0x7F800000 < f_abs x"

definition f_key :: "f32 \<Rightarrow> int" where
  "f_key x = (if x < 0x80000000 then uint x else - uint (f_abs x))"

definition f_less :: "f32 \<Rightarrow> f32 \<Rightarrow> bool" where
  "f_less x y \<longleftrightarrow> \<not> f_nan x \<and> \<not> f_nan y \<and> f_key x < f_key y"

definition f_le :: "f32 \<Rightarrow> f32 \<Rightarrow> bool" where
  "f_le x y \<longleftrightarrow> \<not> f_nan x \<and> \<not> f_nan y \<and> f_key x \<le> f_key y"

definition FLT_MAX :: f32 where "FLT_MAX = 0x7F7FFFFF"
definition f_zero :: f32 where "f_zero = 0"
definition f_minus_one :: f32 where "f_minus_one = 0xBF800000"

definition f_finite :: "f32 \<Rightarrow> bool" where
  "f_finite x \<longleftrightarrow> f_abs x \<le> FLT_MAX"

lemma f_finite_not_nan [simp]: "f_finite x \<Longrightarrow> \<not> f_nan x"
  by (simp add: f_finite_def f_nan_def FLT_MAX_def word_le_nat_alt word_less_nat_alt)

lemma f_key_le_abs: "f_key x \<le> uint (f_abs x)"
  using uint_nonnegative [of "f_abs x"] by (simp add: f_key_def f_abs_def)

lemma f_finite_key: "f_finite x \<Longrightarrow> f_key x \<le> f_key FLT_MAX"
  using f_key_le_abs [of x] by (simp add: f_finite_def f_key_def FLT_MAX_def word_le_def)

lemma f_less_irrefl [simp]: "\<not> f_less x x"
  by (simp add: f_less_def)

lemma f_less_key: "f_less x y \<Longrightarrow> f_key x < f_key y"
  by (simp add: f_less_def)

lemma f_finite_not_above: "f_finite x \<Longrightarrow> \<not> f_less FLT_MAX x"
  using f_finite_key [of x] by (auto simp: f_less_def)

section \<open>Error codes and results\<close>

datatype vec_rc =
    KANBUDB_VEC_OK
  | KANBUDB_VEC_ERR_OOM
  | KANBUDB_VEC_ERR_NOTFOUND
  | KANBUDB_VEC_ERR_CORRUPT
  | KANBUDB_VEC_ERR_IO
  | KANBUDB_VEC_ERR_INVAL

text \<open>\<^verbatim>\<open>kanbudb_vec_result_t\<close>.\<close>

record vec_result =
  r_id :: u64
  r_distance :: f32

text \<open>\<^verbatim>\<open>cmp_result\<close> and \<^verbatim>\<open>cmp_fresult\<close> have the same text.\<close>

definition cmp_result :: "vec_result \<Rightarrow> vec_result \<Rightarrow> int" where
  "cmp_result a b =
     (if f_less (r_distance b) (r_distance a) then 1 else 0) -
     (if f_less (r_distance a) (r_distance b) then 1 else 0)"

section \<open>Linear search\<close>

text \<open>The first index whose element satisfies \<open>P\<close>: the loops of \<^verbatim>\<open>vec_find_idx\<close>, \<^verbatim>\<open>hnsw_get\<close> and their like.\<close>

fun find_idx :: "('a \<Rightarrow> bool) \<Rightarrow> 'a list \<Rightarrow> nat option" where
  "find_idx P [] = None"
| "find_idx P (x # xs) = (if P x then Some 0 else map_option Suc (find_idx P xs))"

lemma find_idx_None: "find_idx P xs = None \<longleftrightarrow> (\<forall>x\<in>set xs. \<not> P x)"
  by (induction xs) auto

lemma find_idx_Some: "find_idx P xs = Some i \<longleftrightarrow> i < length xs \<and> P (xs ! i) \<and> (\<forall>j<i. \<not> P (xs ! j))"
proof (induction xs arbitrary: i)
  case (Cons x xs)
  then show ?case by (cases i) (auto simp: less_Suc_eq_0_disj)
qed simp

lemma find_idx_append: "find_idx P (xs @ ys) =
    (case find_idx P xs of Some i \<Rightarrow> Some i | None \<Rightarrow> map_option (\<lambda>i. length xs + i) (find_idx P ys))"
proof (induction xs)
  case Nil
  then show ?case by (cases "find_idx P ys") auto
next
  case (Cons x xs)
  then show ?case by (cases "find_idx P xs"; cases "find_idx P ys") auto
qed

lemma find_idx_map: "find_idx P (map f xs) = find_idx (P \<circ> f) xs"
  by (induction xs) auto

lemma find_idx_other:
  assumes "j < length xs" and "\<not> P (xs ! j)" and "\<not> P x"
  shows "find_idx P (xs[j := x]) = find_idx P xs"
  using assms
proof (induction xs arbitrary: j)
  case (Cons y ys)
  then show ?case by (cases j) auto
qed simp

section \<open>Slots\<close>

text \<open>
  Both kinds of index keep their vectors in numbered slots, with an id and a deletion mark each, and look an id up by
  scanning for the first slot that has it and is not deleted. Together the slots are a map from ids to vectors.
\<close>

type_synonym slot = "u64 \<times> bool"

definition slot_is :: "u64 \<Rightarrow> slot \<Rightarrow> bool" where
  "slot_is i s \<longleftrightarrow> fst s = i \<and> \<not> snd s"

definition slot_map :: "slot list \<Rightarrow> vec list \<Rightarrow> u64 \<rightharpoonup> vec" where
  "slot_map ss vs i = map_option ((!) vs) (find_idx (slot_is i) ss)"

definition live_slots :: "slot list \<Rightarrow> slot list" where
  "live_slots ss = filter (\<lambda>s. \<not> snd s) ss"

definition unique_slots :: "slot list \<Rightarrow> bool" where
  "unique_slots ss \<longleftrightarrow> distinct (map fst (live_slots ss))"

lemma slot_map_update:
  assumes "find_idx (slot_is i) ss = Some j" and "length vs = length ss"
  shows "slot_map ss (vs[j := v]) = (slot_map ss vs)(i \<mapsto> v)"
proof
  fix k
  have j: "j < length ss" "slot_is i (ss ! j)" using assms(1) by (simp_all add: find_idx_Some)
  show "slot_map ss (vs[j := v]) k = ((slot_map ss vs)(i \<mapsto> v)) k"
  proof (cases "find_idx (slot_is k) ss")
    case (Some m)
    then have "slot_is k (ss ! m)" by (simp add: find_idx_Some)
    then have "k \<noteq> i \<Longrightarrow> m \<noteq> j" using j(2) by (auto simp: slot_is_def)
    with Some assms j show ?thesis by (auto simp: slot_map_def)
  qed (use assms in \<open>auto simp: slot_map_def\<close>)
qed

lemma slot_map_append:
  assumes "find_idx (slot_is i) ss = None" and "length vs = length ss"
  shows "slot_map (ss @ [(i, False)]) (vs @ [v]) = (slot_map ss vs)(i \<mapsto> v)"
proof
  fix k
  show "slot_map (ss @ [(i, False)]) (vs @ [v]) k = ((slot_map ss vs)(i \<mapsto> v)) k"
  proof (cases "find_idx (slot_is k) ss")
    case (Some m)
    then have "m < length vs" "k \<noteq> i" using assms by (auto simp: find_idx_Some find_idx_None)
    with Some show ?thesis by (simp add: slot_map_def find_idx_append nth_append)
  next
    case None
    moreover have "(vs @ [v]) ! length ss = v" using assms(2) by (metis nth_append_length)
    ultimately show ?thesis by (simp add: slot_map_def find_idx_append slot_is_def)
  qed
qed

lemma unique_slots_append:
  "find_idx (slot_is i) ss = None \<Longrightarrow> unique_slots ss \<Longrightarrow> unique_slots (ss @ [(i, False)])"
  by (auto simp: unique_slots_def live_slots_def slot_is_def find_idx_None)

lemma unique_slots_nth:
  assumes "unique_slots ss" and "slot_is i (ss ! j)" "slot_is i (ss ! m)" "j < length ss" "m < length ss"
  shows "j = m"
  using assms
proof (induction ss arbitrary: j m)
  case (Cons s ss)
  have absent: "i \<notin> fst ` set (live_slots ss)" if "slot_is i s"
    using that Cons.prems(1) by (auto simp: unique_slots_def live_slots_def slot_is_def split: if_splits)
  have *: "\<not> slot_is i (ss ! n)" if "slot_is i s" "n < length ss" for n
  proof
    assume "slot_is i (ss ! n)"
    then have "fst (ss ! n) = i" "ss ! n \<in> set (live_slots ss)"
      using nth_mem [OF that(2)] by (auto simp: slot_is_def live_slots_def)
    then show False using absent [OF that(1)] by force
  qed
  have "unique_slots ss" using Cons.prems(1) by (auto simp: unique_slots_def live_slots_def split: if_splits)
  with Cons * show ?case by (cases j; cases m) auto
qed simp

lemma slot_map_delete:
  assumes j: "find_idx (slot_is i) ss = Some j" and u: "unique_slots ss"
  shows "slot_map (ss[j := (i, True)]) vs = (slot_map ss vs)(i := None)"
proof
  fix k
  have jl: "j < length ss" "slot_is i (ss ! j)" using j by (simp_all add: find_idx_Some)
  show "slot_map (ss[j := (i, True)]) vs k = ((slot_map ss vs)(i := None)) k"
  proof (cases "k = i")
    case True
    have "\<not> slot_is i x" if "x \<in> set (ss[j := (i, True)])" for x
    proof -
      obtain m where m: "m < length ss" "x = ss[j := (i, True)] ! m" using \<open>x \<in> _\<close> by (auto simp: in_set_conv_nth)
      show ?thesis using m unique_slots_nth [OF u _ jl(2), of m] jl(1)
        by (cases "m = j") (auto simp: slot_is_def)
    qed
    then have "find_idx (slot_is i) (ss[j := (i, True)]) = None" by (simp add: find_idx_None)
    with True show ?thesis by (simp add: slot_map_def)
  next
    case False
    then have "find_idx (slot_is k) (ss[j := (i, True)]) = find_idx (slot_is k) ss"
      using jl by (intro find_idx_other) (auto simp: slot_is_def)
    with False show ?thesis by (simp add: slot_map_def)
  qed
qed

lemma live_slots_delete:
  assumes "j < length ss"
  shows "live_slots (ss[j := (i, True)]) = live_slots (take j ss) @ live_slots (drop (Suc j) ss)"
  using assms by (simp add: live_slots_def upd_conv_take_nth_drop)

lemma unique_slots_delete: "j < length ss \<Longrightarrow> unique_slots ss \<Longrightarrow> unique_slots (ss[j := (i, True)])"
proof -
  assume j: "j < length ss" and u: "unique_slots ss"
  have "live_slots ss = live_slots (take j ss) @ live_slots [ss ! j] @ live_slots (drop (Suc j) ss)"
    unfolding live_slots_def filter_append [symmetric] using id_take_nth_drop [OF j] by simp
  with u show ?thesis by (auto simp: unique_slots_def live_slots_delete [OF j])
qed

text \<open>The number of live slots is the number of ids in the map.\<close>

lemma dom_slot_map: "dom (slot_map ss vs) = fst ` set (live_slots ss)"
proof -
  have "slot_map ss vs i \<noteq> None \<longleftrightarrow> (\<exists>s\<in>set ss. slot_is i s)" for i
    by (simp add: slot_map_def find_idx_None)
  then show ?thesis by (auto simp: live_slots_def slot_is_def dom_def)
qed

lemma card_slot_map: "unique_slots ss \<Longrightarrow> card (dom (slot_map ss vs)) = length (live_slots ss)"
  unfolding dom_slot_map unique_slots_def by (metis distinct_card length_map list.set_map)

section \<open>Binary heaps in arrays\<close>

text \<open>
  The entries \<^verbatim>\<open>heap_entry_t\<close>, \<^verbatim>\<open>filtered_heap_t\<close> and \<^verbatim>\<open>hnsw_cand_t\<close> are pairs of a distance and a number. A heap is the
  used part of its array, so that its length is the code's size. The sources write the sift loops out six times: with
  \<open>lt\<close> as \<^verbatim>\<open><\<close> on distances for the min-heaps and \<^verbatim>\<open>>\<close> for the max-heap.
\<close>

type_synonym 'n cand = "f32 \<times> 'n"

definition near :: "'n cand \<Rightarrow> 'n cand \<Rightarrow> bool" where
  "near a b \<longleftrightarrow> f_less (fst a) (fst b)"

definition far :: "'n cand \<Rightarrow> 'n cand \<Rightarrow> bool" where
  "far a b \<longleftrightarrow> f_less (fst b) (fst a)"

definition near_le :: "'n cand \<Rightarrow> 'n cand \<Rightarrow> bool" where
  "near_le a b \<longleftrightarrow> f_le (fst a) (fst b)"

definition far_le :: "'n cand \<Rightarrow> 'n cand \<Rightarrow> bool" where
  "far_le a b \<longleftrightarrow> f_le (fst b) (fst a)"

definition swap :: "'a list \<Rightarrow> nat \<Rightarrow> nat \<Rightarrow> 'a list" where
  "swap h i j = h[i := h ! j, j := h ! i]"

text \<open>The index called \<^verbatim>\<open>smallest\<close> (\<^verbatim>\<open>largest\<close>) in one round of the loop.\<close>

definition best_child :: "('a \<Rightarrow> 'a \<Rightarrow> bool) \<Rightarrow> 'a list \<Rightarrow> nat \<Rightarrow> nat" where
  "best_child lt h i =
     (let left = 2 * i + 1; right = 2 * i + 2;
          s = (if left < length h \<and> lt (h ! left) (h ! i) then left else i)
      in if right < length h \<and> lt (h ! right) (h ! s) then right else s)"

lemma length_swap [simp]: "length (swap h i j) = length h"
  by (simp add: swap_def)

lemma best_child_cases:
  "best_child lt h i = i \<or> best_child lt h i \<in> {2 * i + 1, 2 * i + 2} \<and> best_child lt h i < length h"
  by (simp add: best_child_def Let_def)

lemma best_child_bound: "best_child lt h i \<noteq> i \<Longrightarrow> best_child lt h i < length h \<and> i < best_child lt h i"
  using best_child_cases [of lt h i] by auto

function sift_down :: "('a \<Rightarrow> 'a \<Rightarrow> bool) \<Rightarrow> 'a list \<Rightarrow> nat \<Rightarrow> 'a list" where
  "sift_down lt h i =
     (let s = best_child lt h i in if s = i then h else sift_down lt (swap h i s) s)"
  by auto
termination
  by (relation "measure (\<lambda>(lt, h, i). length h - i)") (auto dest: best_child_bound intro: diff_less_mono2)

declare sift_down.simps [simp del]

function sift_up :: "('a \<Rightarrow> 'a \<Rightarrow> bool) \<Rightarrow> 'a list \<Rightarrow> nat \<Rightarrow> 'a list" where
  "sift_up le h i =
     (if i > 0 then
        (let p = (i - 1) div 2 in if le (h ! p) (h ! i) then h else sift_up le (swap h p i) p)
      else h)"
  by auto
termination
  by (relation "measure (\<lambda>(le, h, i). i)") auto

declare sift_up.simps [simp del]

text \<open>The loop that makes a heap of an array: \<^verbatim>\<open>for (j = k / 2 - 1; j >= 0; j--)\<close>.\<close>

fun build_heap :: "('a \<Rightarrow> 'a \<Rightarrow> bool) \<Rightarrow> 'a list \<Rightarrow> nat \<Rightarrow> 'a list" where
  "build_heap lt h 0 = h"
| "build_heap lt h (Suc j) = build_heap lt (sift_down lt h j) j"

subsection \<open>Elements\<close>

lemma mset_swap: "i < length h \<Longrightarrow> j < length h \<Longrightarrow> mset (swap h i j) = mset h"
  by (simp add: swap_def mset_swap)

lemma mset_sift_down [simp]: "mset (sift_down lt h i) = mset h"
proof (induction lt h i rule: sift_down.induct)
  case (1 lt h i)
  show ?case
  proof (cases "best_child lt h i = i")
    case True
    then show ?thesis by (simp add: sift_down.simps [of lt h i])
  next
    case False
    then have "best_child lt h i < length h" "i < length h" using best_child_bound [of lt h i] by auto
    with False "1.IH" [OF refl False] show ?thesis
      by (simp add: sift_down.simps [of lt h i] mset_swap Let_def)
  qed
qed

lemma mset_sift_up [simp]: "i < length h \<Longrightarrow> mset (sift_up le h i) = mset h"
proof (induction le h i rule: sift_up.induct)
  case (1 le h i)
  then show ?case
    by (subst sift_up.simps) (auto simp: mset_swap Let_def)
qed

lemma length_sift_down [simp]: "length (sift_down lt h i) = length h"
  using mset_eq_length [OF mset_sift_down [of lt h i]] by simp

lemma length_sift_up [simp]: "i < length h \<Longrightarrow> length (sift_up le h i) = length h"
  using mset_eq_length [OF mset_sift_up [of i h le]] by simp

lemma mset_build_heap [simp]: "mset (build_heap lt h j) = mset h"
  by (induction lt h j rule: build_heap.induct) auto

subsection \<open>Order\<close>

definition parent :: "nat \<Rightarrow> nat" where
  "parent j = (j - 1) div 2"

lemma parent_less: "0 < j \<Longrightarrow> parent j < j"
  by (auto simp: parent_def)

lemma parent_children [simp]: "parent (2 * i + 1) = i" "parent (2 * i + 2) = i" "parent (Suc (2 * i)) = i"
  "parent (Suc (Suc (2 * i))) = i"
  by (simp_all add: parent_def)

lemma parent_eq: "0 < c \<Longrightarrow> parent c = i \<longleftrightarrow> c \<in> {2 * i + 1, 2 * i + 2}"
  by (auto simp: parent_def)

text \<open>
  The heaps are correct for any comparison that is the order of a key; this holds of the distances that are
  not NaN. The elements of the array satisfy \<open>ok\<close>.
\<close>

locale heap_order =
  fixes lt le :: "'a \<Rightarrow> 'a \<Rightarrow> bool" and ok :: "'a \<Rightarrow> bool" and key :: "'a \<Rightarrow> int"
  assumes lt_key: "ok x \<Longrightarrow> ok y \<Longrightarrow> lt x y \<longleftrightarrow> key x < key y"
    and le_key: "ok x \<Longrightarrow> ok y \<Longrightarrow> le x y \<longleftrightarrow> key x \<le> key y"
begin

definition edge :: "'a list \<Rightarrow> nat \<Rightarrow> bool" where
  "edge h j \<longleftrightarrow> (0 < j \<and> j < length h \<longrightarrow> key (h ! (parent j)) \<le> key (h ! j))"

definition heap_from :: "nat \<Rightarrow> 'a list \<Rightarrow> bool" where
  "heap_from lo h \<longleftrightarrow> (\<forall>j. lo \<le> parent j \<longrightarrow> edge h j)"

abbreviation is_heap :: "'a list \<Rightarrow> bool" where
  "is_heap \<equiv> heap_from 0"

lemma root_least:
  assumes "is_heap h" and "j < length h"
  shows "key (h ! 0) \<le> key (h ! j)"
  using assms(2)
proof (induction j rule: less_induct)
  case (less j)
  show ?case
  proof (cases "j = 0")
    case False
    then have "parent j < j" by (simp add: parent_less)
    with less have "key (h ! 0) \<le> key (h ! (parent j))" by auto
    moreover have "key (h ! (parent j)) \<le> key (h ! j)"
      using assms(1) False less.prems by (simp add: heap_from_def edge_def)
    ultimately show ?thesis by simp
  qed simp
qed

lemma best_child_least:
  assumes "\<forall>x\<in>set h. ok x" and "i < length h"
  shows "(best_child lt h i \<noteq> i \<longrightarrow> key (h ! best_child lt h i) < key (h ! i)) \<and>
    (\<forall>c\<in>{2 * i + 1, 2 * i + 2}. c < length h \<longrightarrow> key (h ! best_child lt h i) \<le> key (h ! c))"
  using assms by (auto simp: best_child_def Let_def lt_key)

text \<open>Everything is in order at and below \<open>lo\<close>, except that the element at \<open>i\<close> may be too large.\<close>

definition heap_but :: "nat \<Rightarrow> nat \<Rightarrow> 'a list \<Rightarrow> bool" where
  "heap_but lo i h \<longleftrightarrow> lo \<le> i \<and> i < length h \<and>
     (\<forall>j. lo \<le> parent j \<and> parent j \<noteq> i \<longrightarrow> edge h j) \<and>
     (\<forall>c\<in>{2 * i + 1, 2 * i + 2}. 0 < i \<and> lo \<le> parent i \<and> c < length h \<longrightarrow>
        key (h ! (parent i)) \<le> key (h ! c))"

lemma heap_but_done:
  assumes "heap_but lo i h" and "\<forall>x\<in>set h. ok x" and "best_child lt h i = i"
  shows "heap_from lo h"
proof -
  have least: "\<And>c. c \<in> {2 * i + 1, 2 * i + 2} \<Longrightarrow> c < length h \<Longrightarrow> key (h ! i) \<le> key (h ! c)"
    using best_child_least [of h i] assms by (auto simp: heap_but_def)
  have "edge h j" if "lo \<le> parent j" for j
  proof (cases "parent j = i")
    case True
    with least [of j] parent_eq [of j i] show ?thesis by (auto simp: edge_def)
  next
    case False
    with assms(1) that show ?thesis by (simp add: heap_but_def)
  qed
  then show ?thesis by (simp add: heap_from_def)
qed

lemma swap_nth: "i < length h \<Longrightarrow> j < length h \<Longrightarrow>
    swap h i j ! m = (if m = i then h ! j else if m = j then h ! i else h ! m)"
  by (auto simp: swap_def nth_list_update)

lemma set_swap: "i < length h \<Longrightarrow> j < length h \<Longrightarrow> set (swap h i j) = set h"
  by (metis mset_swap set_mset_mset)

lemma heap_but_step:
  assumes hb: "heap_but lo i h" and ok: "\<forall>x\<in>set h. ok x" and ne: "best_child lt h i \<noteq> i"
  shows "heap_but lo (best_child lt h i) (swap h i (best_child lt h i))"
proof -
  define s where "s = best_child lt h i"
  have i: "i < length h" and lo: "lo \<le> i" using hb by (auto simp: heap_but_def)
  have s: "s < length h" "i < s" "s \<in> {2 * i + 1, 2 * i + 2}"
    using best_child_bound [OF ne] best_child_cases [of lt h i] ne by (auto simp: s_def)
  have less: "key (h ! s) < key (h ! i)"
    and least: "\<And>c. c \<in> {2 * i + 1, 2 * i + 2} \<Longrightarrow> c < length h \<Longrightarrow> key (h ! s) \<le> key (h ! c)"
    using best_child_least [OF ok i] ne by (auto simp: s_def)
  have edges: "\<And>j. lo \<le> parent j \<Longrightarrow> parent j \<noteq> i \<Longrightarrow> edge h j"
    and up: "\<And>c. c \<in> {2 * i + 1, 2 * i + 2} \<Longrightarrow> 0 < i \<Longrightarrow> lo \<le> parent i \<Longrightarrow> c < length h \<Longrightarrow>
      key (h ! (parent i)) \<le> key (h ! c)"
    using hb by (auto simp: heap_but_def)
  have sw: "swap h i s ! m = (if m = i then h ! s else if m = s then h ! i else h ! m)" for m
    using i s by (simp add: swap_nth)
  have ps: "parent s = i" using s(3) by auto
  have "edge (swap h i s) j" if j: "lo \<le> parent j" "parent j \<noteq> s" for j
  proof (cases "0 < j \<and> j < length h")
    case True
    then have pj: "parent j < j" by (simp add: parent_less)
    show ?thesis
    proof (cases "parent j = i")
      case True
      then have "key (h ! s) \<le> key (h ! j)" using least [of j] pj \<open>0 < j \<and> j < length h\<close>
        by (simp add: parent_eq)
      with True pj less show ?thesis by (simp add: edge_def sw)
    next
      case False
      with j edges have e: "edge h j" by simp
      show ?thesis
      proof (cases "j = i")
        case True
        then show ?thesis using up [OF s(3)] s(1) j pj by (simp add: edge_def sw)
      next
        case ji: False
        have "j \<noteq> s" using False ps by blast
        with e ji False j show ?thesis by (simp add: edge_def sw)
      qed
    qed
  qed (auto simp: edge_def)
  moreover have "key (swap h i s ! parent s) \<le> key (swap h i s ! c)"
    if c: "c \<in> {2 * s + 1, 2 * s + 2}" "c < length h" for c
  proof -
    have pc: "parent c = s" and "0 < c" "s < c" using c by auto
    then have "edge h c" using s lo edges [of c] by simp
    then show ?thesis using c s pc \<open>0 < c\<close> \<open>s < c\<close> by (simp add: edge_def sw ps)
  qed
  ultimately show ?thesis using s lo by (simp add: heap_but_def s_def [symmetric])
qed

lemma sift_down_heap:
  "heap_but lo i h \<Longrightarrow> \<forall>x\<in>set h. ok x \<Longrightarrow> heap_from lo (sift_down lt h i)"
proof (induction "length h - i" arbitrary: h i rule: less_induct)
  case less
  show ?case
  proof (cases "best_child lt h i = i")
    case True
    then show ?thesis using heap_but_done less.prems by (simp add: sift_down.simps [of lt h i])
  next
    case False
    have "heap_but lo (best_child lt h i) (swap h i (best_child lt h i))"
      using heap_but_step less.prems False by blast
    moreover have "i < length h" "best_child lt h i < length h" "i < best_child lt h i"
      using less.prems(1) best_child_bound [OF False] by (auto simp: heap_but_def)
    ultimately show ?thesis using less.hyps [of "swap h i (best_child lt h i)" "best_child lt h i"] less.prems False
      by (simp add: sift_down.simps [of lt h i] set_swap Let_def)
  qed
qed

text \<open>Removing the root: the last element takes its place and sinks.\<close>

lemma heap_but_replace_root:
  assumes "is_heap h" and "h \<noteq> []"
  shows "heap_but 0 0 (h[0 := x])"
proof -
  have "edge (h[0 := x]) j" if "parent j \<noteq> 0" for j
    using that assms parent_def [of 0] by (cases "j = 0") (auto simp: heap_from_def edge_def nth_list_update)
  with assms show ?thesis by (auto simp: heap_but_def)
qed

lemma edge_butlast: "edge h j \<Longrightarrow> edge (butlast h) j"
  using parent_less [of j] by (cases "0 < j \<and> j < length h - 1") (auto simp: edge_def nth_butlast)

lemma is_heap_butlast: "is_heap h \<Longrightarrow> is_heap (butlast h)"
  by (simp add: heap_from_def edge_butlast)

text \<open>An array becomes a heap from the middle downwards.\<close>

lemma heap_from_but: "heap_from (Suc j) h \<Longrightarrow> j < length h \<Longrightarrow> heap_but j j h"
  using parent_less [of j] by (auto simp: heap_but_def heap_from_def)

lemma build_heap_heap:
  "heap_from j h \<Longrightarrow> j \<le> length h \<Longrightarrow> \<forall>x\<in>set h. ok x \<Longrightarrow> is_heap (build_heap lt h j)"
proof (induction j arbitrary: h)
  case (Suc j)
  have "heap_from j (sift_down lt h j)"
    using Suc.prems by (intro sift_down_heap heap_from_but) auto
  moreover have "set (sift_down lt h j) = set h"
    by (metis mset_sift_down set_mset_mset)
  ultimately show ?case using Suc by simp
qed simp

text \<open>The code starts in the middle of the array: the elements behind it have no children.\<close>

lemma heap_from_half: "heap_from (length h div 2) h"
proof -
  have "\<not> j < length h" if "length h div 2 \<le> parent j" "0 < j" for j
    using that by (auto simp: parent_def)
  then show ?thesis by (auto simp: heap_from_def edge_def)
qed

text \<open>Inserting at the end: the new element rises while its parent is larger.\<close>

definition heap_above :: "nat \<Rightarrow> 'a list \<Rightarrow> bool" where
  "heap_above i h \<longleftrightarrow> i < length h \<and> (\<forall>j. j \<noteq> i \<longrightarrow> edge h j) \<and>
     (\<forall>c\<in>{2 * i + 1, 2 * i + 2}. 0 < i \<and> c < length h \<longrightarrow> key (h ! parent i) \<le> key (h ! c))"

lemma heap_above_snoc:
  assumes "is_heap h"
  shows "heap_above (length h) (h @ [x])"
proof -
  have "edge (h @ [x]) j" if "j \<noteq> length h" for j
  proof (cases "0 < j \<and> j < length h")
    case True
    then have "parent j < length h" using parent_less [of j] by simp
    with True assms show ?thesis by (simp add: heap_from_def edge_def nth_append)
  next
    case False
    with that show ?thesis by (auto simp: edge_def)
  qed
  then show ?thesis by (simp add: heap_above_def)
qed

lemma heap_above_done:
  assumes "heap_above i h" and "0 < i \<Longrightarrow> key (h ! parent i) \<le> key (h ! i)"
  shows "is_heap h"
proof -
  have "edge h j" for j using assms by (cases "j = i") (simp_all add: heap_above_def edge_def)
  then show ?thesis by (simp add: heap_from_def)
qed

lemma heap_above_step:
  assumes ha: "heap_above i h" and i: "0 < i" and gt: "key (h ! i) < key (h ! parent i)"
  shows "heap_above (parent i) (swap h (parent i) i)"
proof -
  define p where "p = parent i"
  have b: "i < length h" "p < i" using ha i parent_less [of i] by (auto simp: heap_above_def p_def)
  have edges: "\<And>j. j \<noteq> i \<Longrightarrow> edge h j"
    and down: "\<And>c. c \<in> {2 * i + 1, 2 * i + 2} \<Longrightarrow> c < length h \<Longrightarrow> key (h ! p) \<le> key (h ! c)"
    using ha i by (auto simp: heap_above_def p_def)
  have sw: "swap h p i ! m = (if m = p then h ! i else if m = i then h ! p else h ! m)" for m
    using b by (simp add: swap_nth)
  have "edge (swap h p i) j" if j: "j \<noteq> p" for j
  proof (cases "0 < j \<and> j < length h")
    case True
    consider "j = i" | "j \<noteq> i" "parent j = p" | "j \<noteq> i" "parent j = i" | "j \<noteq> i" "parent j \<noteq> p" "parent j \<noteq> i"
      by blast
    then show ?thesis
    proof cases
      case 1
      then show ?thesis using gt b by (simp add: edge_def sw p_def [symmetric])
    next
      case 2
      then have "key (h ! p) \<le> key (h ! j)" using edges [of j] True by (simp add: edge_def)
      with 2 j gt show ?thesis by (simp add: edge_def sw p_def [symmetric])
    next
      case 3
      then have "key (h ! p) \<le> key (h ! j)" using down [of j] True parent_eq [of j i] by auto
      with 3 j b show ?thesis by (simp add: edge_def sw)
    next
      case 4
      with edges [of j] j show ?thesis by (simp add: edge_def sw)
    qed
  qed (auto simp: edge_def)
  moreover have "key (swap h p i ! parent p) \<le> key (swap h p i ! c)"
    if c: "c \<in> {2 * p + 1, 2 * p + 2}" "c < length h" "0 < p" for c
  proof -
    have pp: "parent p < p" "parent p < i" using c parent_less [of p] b by auto
    have up: "key (h ! parent p) \<le> key (h ! p)" using edges [of p] b c by (simp add: edge_def)
    have pc: "parent c = p" "p < c" using c by auto
    show ?thesis
    proof (cases "c = i")
      case True
      then show ?thesis using up b pp by (simp add: sw)
    next
      case False
      then have "key (h ! p) \<le> key (h ! c)" using edges [of c] c pc by (simp add: edge_def)
      then show ?thesis using up pp pc False by (simp add: sw)
    qed
  qed
  ultimately show ?thesis using b by (simp add: heap_above_def p_def [symmetric])
qed

lemma sift_up_heap: "heap_above i h \<Longrightarrow> \<forall>x\<in>set h. ok x \<Longrightarrow> is_heap (sift_up le h i)"
proof (induction i arbitrary: h rule: less_induct)
  case (less i)
  then have i: "i < length h" by (simp add: heap_above_def)
  show ?case
  proof (cases "0 < i \<and> \<not> le (h ! parent i) (h ! i)")
    case False
    then have "sift_up le h i = h" by (subst sift_up.simps) (auto simp: parent_def Let_def)
    moreover have "0 < i \<Longrightarrow> key (h ! parent i) \<le> key (h ! i)"
      using False less.prems(2) i parent_less [of i] le_key by simp
    ultimately show ?thesis using heap_above_done less.prems(1) by simp
  next
    case True
    then have p: "parent i < i" by (simp add: parent_less)
    have "key (h ! i) < key (h ! parent i)" using True less.prems(2) i p le_key by simp
    then have "heap_above (parent i) (swap h (parent i) i)" using heap_above_step less.prems(1) True by simp
    then have "is_heap (sift_up le (swap h (parent i) i) (parent i))"
      using less.IH [OF p] less.prems(2) i p by (simp add: set_swap)
    moreover have "sift_up le h i = sift_up le (swap h (parent i) i) (parent i)"
      using True by (subst sift_up.simps) (simp add: parent_def Let_def)
    ultimately show ?thesis by simp
  qed
qed

end

text \<open>The two orders of the program.\<close>

definition cand_ok :: "'n cand \<Rightarrow> bool" where
  "cand_ok c \<longleftrightarrow> \<not> f_nan (fst c)"

interpretation minh: heap_order near near_le cand_ok "\<lambda>c. f_key (fst c)"
  by unfold_locales (auto simp: near_def near_le_def cand_ok_def f_less_def f_le_def)

interpretation maxh: heap_order far far_le cand_ok "\<lambda>c. - f_key (fst c)"
  by unfold_locales (auto simp: far_def far_le_def cand_ok_def f_less_def f_le_def)

end
