(* ===== verification/Hnsw.thy ===== *)
theory Hnsw
  imports Vec_Heap
begin

text \<open>
  The HNSW graph of \<^verbatim>\<open>src/src/vector/hnsw.c\<close>: a layered neighbour graph over the stored vectors, searched from an
  entry point. \<^verbatim>\<open>nodes\<close> and \<^verbatim>\<open>vector_pool\<close> are kept up to \<^verbatim>\<open>element_count\<close>, and the row of a node in a layer is the list of its
  first \<^verbatim>\<open>link_counts\<close> neighbours, with \<^verbatim>\<open>max_elements\<close> rows in every layer. The entry point -1 is \<open>None\<close>. The level of a new
  node comes from \<^verbatim>\<open>rand\<close> and is an argument of the insertion.

  A result \<open>None\<close> is an access outside an array: a node index that is not in use, a write behind a row of links, or a heap
  that outgrows its array. \<^verbatim>\<open>Hnsw_Correct\<close> shows that none of these happens.
\<close>

section \<open>State\<close>

record hnsw_node =
  n_id :: u64
  n_level :: nat
  n_deleted :: bool

record hnsw_index =
  h_dim :: nat
  h_M :: int
  M_max :: int
  M_max0 :: int
  h_ef_construction :: int
  h_ef_search :: int
  vector_pool :: "vec list"
  nodes :: "hnsw_node list"
  max_elements :: nat
  links :: "nat list list list"
  enterpoint_idx :: "nat option"
  max_level :: int
  visited :: "int list"
  visit_tag :: int
  h_dist_func :: dist_fn

abbreviation element_count :: "hnsw_index \<Rightarrow> nat" where
  "element_count idx \<equiv> length (nodes idx)"

text \<open>The number of neighbours a node keeps in a layer; its row has one place more.\<close>

definition max_keep :: "hnsw_index \<Rightarrow> nat \<Rightarrow> nat" where
  "max_keep idx layer = nat (if layer = 0 then M_max0 idx else M_max idx)"

abbreviation node_dist :: "hnsw_index \<Rightarrow> vec \<Rightarrow> nat \<Rightarrow> f32" where
  "node_dist idx query i \<equiv> h_dist_func idx query (vector_pool idx ! i)"

section \<open>Heaps\<close>

definition cand_push :: "'n cand list \<Rightarrow> f32 \<Rightarrow> 'n \<Rightarrow> 'n cand list" where
  "cand_push heap d node = sift_up near_le (heap @ [(d, node)]) (length heap)"

text \<open>The last entry moves to the root; with one entry the loop finds no children.\<close>

definition cand_pop :: "'n cand list \<Rightarrow> 'n cand \<times> 'n cand list" where
  "cand_pop heap =
     (heap ! 0,
      (let h = butlast heap in if h = [] then [] else sift_down near (h[0 := last heap]) 0))"

definition res_push :: "'n cand list \<Rightarrow> f32 \<Rightarrow> 'n \<Rightarrow> 'n cand list" where
  "res_push heap d node = sift_up far_le (heap @ [(d, node)]) (length heap)"

definition res_peek :: "'n cand list \<Rightarrow> 'n cand" where
  "res_peek heap = heap ! 0"

definition res_pop :: "'n cand list \<Rightarrow> 'n cand \<times> 'n cand list" where
  "res_pop heap =
     (heap ! 0,
      (let h = butlast heap in if h = [] then [] else sift_down far (h[0 := last heap]) 0))"

section \<open>Layers and greedy search\<close>

definition hnsw_ensure_layers :: "hnsw_index \<Rightarrow> int \<Rightarrow> hnsw_index" where
  "hnsw_ensure_layers idx target =
     (if target \<le> max_level idx then idx
      else idx\<lparr>links := links idx @
                 replicate (nat (target - max_level idx)) (replicate (max_elements idx) []),
               max_level := target\<rparr>)"

text \<open>The inner loop over the neighbours of \<^verbatim>\<open>best_node\<close>.\<close>

fun greedy_scan ::
  "hnsw_index \<Rightarrow> vec \<Rightarrow> nat list \<Rightarrow> nat \<times> f32 \<times> bool \<Rightarrow> (nat \<times> f32 \<times> bool) option" where
  "greedy_scan idx query [] st = Some st"
| "greedy_scan idx query (neighbor # ns) (best_node, best_dist, changed) =
     (if neighbor \<ge> element_count idx then None
      else if n_deleted (nodes idx ! neighbor) then greedy_scan idx query ns (best_node, best_dist, changed)
      else
        (let d = node_dist idx query neighbor
         in if f_less d best_dist then greedy_scan idx query ns (neighbor, d, True)
            else greedy_scan idx query ns (best_node, best_dist, changed)))"

lemma f_key_lower: "- 2147483648 < f_key x"
proof (cases "x < 0x80000000")
  case True
  have "(- 2147483648 :: int) < 0" by simp
  also have "0 \<le> uint x" by simp
  finally show ?thesis using True by (simp add: f_key_def)
next
  case False
  have "uint x < 2 ^ 32" using uint_lt2p [of x] by simp
  moreover have "uint (x - 0x80000000) = uint x - 0x80000000"
    using False by (subst uint_sub_lem [THEN iffD1]) (simp_all add: word_less_def)
  ultimately show ?thesis using False by (simp add: f_key_def f_abs_def)
qed

lemma greedy_scan_decreases:
  "greedy_scan idx query ns (b, d, c) = Some (b', d', c') \<Longrightarrow>
     f_key d' \<le> f_key d \<and> (c' \<longrightarrow> c \<or> f_key d' < f_key d)"
proof (induction ns arbitrary: b d c)
  case (Cons n ns)
  show ?case
    using Cons.prems Cons.IH [of b d c] Cons.IH [of n "node_dist idx query n" True]
      f_less_key [of "node_dist idx query n" d]
    by (auto simp: Let_def split: if_splits)
qed simp

function greedy_loop :: "hnsw_index \<Rightarrow> vec \<Rightarrow> nat \<Rightarrow> nat \<Rightarrow> f32 \<Rightarrow> nat option" where
  "greedy_loop idx query layer best_node best_dist =
     (if layer \<ge> length (links idx) \<or> best_node \<ge> length (links idx ! layer) then None
      else case greedy_scan idx query (links idx ! layer ! best_node) (best_node, best_dist, False) of
        None \<Rightarrow> None
      | Some (best_node', best_dist', changed) \<Rightarrow>
          if changed then greedy_loop idx query layer best_node' best_dist' else Some best_node')"
  by auto
termination
proof (relation "measure (\<lambda>(idx, query, layer, b, d). nat (f_key d + 2147483648))", goal_cases)
  case (2 idx query layer b d x b' x' d' c')
  then have "f_key d' < f_key d" using greedy_scan_decreases [of idx query _ b d False b' d' c'] by auto
  then show ?case using f_key_lower [of d'] by simp
qed simp

declare greedy_loop.simps [simp del]

definition hnsw_greedy_search :: "hnsw_index \<Rightarrow> nat \<Rightarrow> vec \<Rightarrow> nat \<Rightarrow> nat option" where
  "hnsw_greedy_search idx entry_point query layer =
     (if entry_point \<ge> element_count idx then None
      else greedy_loop idx query layer entry_point (node_dist idx query entry_point))"

section \<open>Search in a layer\<close>

type_synonym layer_state = "int list \<times> nat cand list \<times> nat cand list"

text \<open>The loop over the neighbours of a popped candidate; the state is the visited array and the two heaps.\<close>

fun scan_neighbors ::
  "hnsw_index \<Rightarrow> vec \<Rightarrow> int \<Rightarrow> int \<Rightarrow> nat list \<Rightarrow> layer_state \<Rightarrow> layer_state option" where
  "scan_neighbors idx query ef tag [] st = Some st"
| "scan_neighbors idx query ef tag (neighbor # ns) (vis, cands, res) =
     (if neighbor \<ge> length vis \<or> neighbor \<ge> element_count idx then None
      else if vis ! neighbor = tag then scan_neighbors idx query ef tag ns (vis, cands, res)
      else if n_deleted (nodes idx ! neighbor) then scan_neighbors idx query ef tag ns (vis, cands, res)
      else if length cands \<ge> max_elements idx then None
      else
        (let vis' = vis[neighbor := tag];
             d = node_dist idx query neighbor;
             cands' = cand_push cands d neighbor
         in if int (length res) < ef \<or> f_less d (fst (res_peek res)) then
              (if int (length res) \<ge> ef + 1 then None
               else
                 (let res' = res_push res d neighbor
                  in scan_neighbors idx query ef tag ns
                       (vis', cands', if int (length res') > ef then snd (res_pop res') else res')))
            else scan_neighbors idx query ef tag ns (vis', cands', res)))"

definition unvisited :: "int \<Rightarrow> int list \<Rightarrow> nat" where
  "unvisited tag vis = length (filter (\<lambda>v. v \<noteq> tag) vis)"

lemma unvisited_mark:
  "n < length vis \<Longrightarrow> vis ! n \<noteq> tag \<Longrightarrow> Suc (unvisited tag (vis[n := tag])) = unvisited tag vis"
proof (induction vis arbitrary: n)
  case (Cons v vis)
  then show ?case by (cases n) (auto simp: unvisited_def)
qed simp

lemma length_cand_push [simp]: "length (cand_push h d n) = Suc (length h)"
  by (simp add: cand_push_def)

lemma length_res_push [simp]: "length (res_push h d n) = Suc (length h)"
  by (simp add: res_push_def)

lemma length_pop_aux: "butlast h = [] \<Longrightarrow> length h \<le> 1"
  by (cases h) (auto split: if_splits)

lemma length_cand_pop [simp]: "length (snd (cand_pop h)) = length h - 1"
  using length_pop_aux [of h] by (auto simp: cand_pop_def Let_def)

lemma length_res_pop [simp]: "length (snd (res_pop h)) = length h - 1"
  using length_pop_aux [of h] by (auto simp: res_pop_def Let_def)

text \<open>One neighbour at a time: it is skipped, or it is marked and becomes a candidate, and perhaps a result.\<close>

lemma scan_neighbors_Cons:
  assumes "scan_neighbors idx query ef tag (n # ns) (vis, cands, res) = Some st"
  obtains
    (skip) "n < length vis" "n < element_count idx" "vis ! n = tag \<or> n_deleted (nodes idx ! n)"
      "scan_neighbors idx query ef tag ns (vis, cands, res) = Some st"
  | (visit) res' where "n < length vis" "n < element_count idx" "vis ! n \<noteq> tag" "\<not> n_deleted (nodes idx ! n)"
      "scan_neighbors idx query ef tag ns
         (vis[n := tag], cand_push cands (node_dist idx query n) n, res') = Some st"
      "res' = (if int (length res) < ef \<or> f_less (node_dist idx query n) (fst (res_peek res)) then
         (let r = res_push res (node_dist idx query n) n in if int (length r) > ef then snd (res_pop r) else r)
         else res)"
  using assms by (auto simp: Let_def not_le split: if_splits)

lemma scan_neighbors_measure:
  "scan_neighbors idx query ef tag ns (vis, cands, res) = Some (vis', cands', res') \<Longrightarrow>
     unvisited tag vis' + length cands' = unvisited tag vis + length cands"
proof (induction ns arbitrary: vis cands res)
  case (Cons n ns)
  from Cons.prems show ?case
  proof (cases rule: scan_neighbors_Cons)
    case skip
    then show ?thesis using Cons.IH by blast
  next
    case (visit r)
    then show ?thesis using Cons.IH [OF visit(5)] unvisited_mark [of n vis tag] by simp
  qed
qed simp

function search_loop :: "hnsw_index \<Rightarrow> vec \<Rightarrow> int \<Rightarrow> nat \<Rightarrow> int \<Rightarrow> layer_state \<Rightarrow> layer_state option" where
  "search_loop idx query ef layer tag (vis, cands, res) =
     (if cands = [] then Some (vis, cands, res)
      else
        (let (cand, cands') = cand_pop cands;
             worst_dist = (if int (length res) < ef then FLT_MAX else fst (res_peek res))
         in if f_less worst_dist (fst cand) then Some (vis, cands', res)
            else if layer \<ge> length (links idx) \<or> snd cand \<ge> length (links idx ! layer) then None
            else case scan_neighbors idx query ef tag (links idx ! layer ! snd cand) (vis, cands', res) of
              None \<Rightarrow> None
            | Some st \<Rightarrow> search_loop idx query ef layer tag st))"
  by pat_completeness auto
termination
proof (relation "measure (\<lambda>(idx, query, ef, layer, tag, vis, cands, res). unvisited tag vis + length cands)", goal_cases)
  case (2 idx query ef layer tag vis cands res x cand cands' worst st)
  obtain vis1 cands1 res1 where st: "st = (vis1, cands1, res1)" by (cases st)
  have "length cands' = length cands - 1" using 2 length_cand_pop [of cands] by (metis snd_conv)
  with 2 scan_neighbors_measure [of idx query ef tag _ vis cands' res vis1 cands1 res1]
  show ?case by (simp add: st)
qed simp

declare search_loop.simps [simp del]

text \<open>
  The insertion sort at the end. The sorted prefix is kept backwards, so that the inner loop, which moves down from the
  end of the prefix, walks the list from its head.
\<close>

fun ins_back :: "'n cand \<Rightarrow> 'n cand list \<Rightarrow> 'n cand list" where
  "ins_back x [] = [x]"
| "ins_back x (y # ys) = (if f_less (fst x) (fst y) then y # ins_back x ys else x # y # ys)"

definition insertion_sort :: "'n cand list \<Rightarrow> 'n cand list" where
  "insertion_sort xs = rev (fold ins_back xs [])"

text \<open>\<^verbatim>\<open>visit_tag++\<close> wraps around at the largest \<^verbatim>\<open>int\<close>; the code then clears the array.\<close>

definition next_tag :: "hnsw_index \<Rightarrow> hnsw_index" where
  "next_tag idx =
     (let t = (if visit_tag idx = 2147483647 then - 2147483648 else visit_tag idx + 1)
      in if t \<le> 0 then idx\<lparr>visited := replicate (max_elements idx) 0, visit_tag := 1\<rparr>
         else idx\<lparr>visit_tag := t\<rparr>)"

definition hnsw_search_layer ::
  "hnsw_index \<Rightarrow> nat \<Rightarrow> vec \<Rightarrow> int \<Rightarrow> nat \<Rightarrow> (hnsw_index \<times> nat cand list) option" where
  "hnsw_search_layer idx0 entry_point query ef layer =
     (let idx = next_tag idx0; tag = visit_tag idx
      in if entry_point \<ge> element_count idx \<or> entry_point \<ge> length (visited idx) \<or>
            max_elements idx = 0 \<or> ef + 1 \<le> 0 then None
         else
           (let ep_dist = node_dist idx query entry_point
            in case search_loop idx query ef layer tag
                      ((visited idx)[entry_point := tag], cand_push [] ep_dist entry_point,
                       res_push [] ep_dist entry_point) of
                 None \<Rightarrow> None
               | Some (vis, cands, res) \<Rightarrow>
                   Some (idx\<lparr>visited := vis\<rparr>,
                         insertion_sort (take (nat (if int (length res) < ef then int (length res) else ef)) res))))"

section \<open>Neighbours\<close>

text \<open>
  Bubble sort, written out twice in the source. Pass \<open>i\<close> makes \<^verbatim>\<open>count - i - 1\<close> comparisons.
\<close>

fun bubble_pass :: "('a \<Rightarrow> 'a \<Rightarrow> bool) \<Rightarrow> nat \<Rightarrow> 'a list \<Rightarrow> 'a list" where
  "bubble_pass gt (Suc n) (x # y # zs) =
     (if gt x y then y # bubble_pass gt n (x # zs) else x # bubble_pass gt n (y # zs))"
| "bubble_pass gt _ xs = xs"

fun bubble_passes :: "('a \<Rightarrow> 'a \<Rightarrow> bool) \<Rightarrow> nat \<Rightarrow> 'a list \<Rightarrow> 'a list" where
  "bubble_passes gt 0 xs = xs"
| "bubble_passes gt (Suc m) xs = bubble_passes gt m (bubble_pass gt (Suc m) xs)"

definition bubble_sort :: "('a \<Rightarrow> 'a \<Rightarrow> bool) \<Rightarrow> 'a list \<Rightarrow> 'a list" where
  "bubble_sort gt xs = bubble_passes gt (length xs - 1) xs"

definition hnsw_select_neighbors_simple :: "f32 list \<Rightarrow> nat list \<Rightarrow> int \<Rightarrow> nat list" where
  "hnsw_select_neighbors_simple dists ns m =
     (if ns = [] then []
      else
        (let order = bubble_sort (\<lambda>i j. f_less (dists ! j) (dists ! i)) [0..<length ns];
             out_count = (if int (length ns) < m then int (length ns) else m)
         in map ((!) ns) (take (nat out_count) order)))"

definition set_row :: "hnsw_index \<Rightarrow> nat \<Rightarrow> nat \<Rightarrow> nat list \<Rightarrow> hnsw_index" where
  "set_row idx layer i row = idx\<lparr>links := (links idx)[layer := (links idx ! layer)[i := row]]\<rparr>"

definition hnsw_add_bidirectional_link :: "hnsw_index \<Rightarrow> nat \<Rightarrow> nat \<Rightarrow> nat \<Rightarrow> hnsw_index option" where
  "hnsw_add_bidirectional_link idx src dst layer =
     (if layer \<ge> length (links idx) \<or> src \<ge> length (links idx ! layer) \<or> dst \<ge> length (links idx ! layer) then None
      else if length (links idx ! layer ! src) \<ge> max_keep idx layer + 1 then None
      else
        (let idx1 = set_row idx layer src (links idx ! layer ! src @ [dst]);
             dst_links = links idx1 ! layer ! dst
         in if length dst_links < max_keep idx layer then Some (set_row idx1 layer dst (dst_links @ [src]))
            else if \<exists>n\<in>set dst_links. n \<ge> element_count idx then None
            else
              (let dv = vector_pool idx1 ! dst;
                   entries = map (\<lambda>n. (node_dist idx1 dv n, n)) (dst_links @ [src]);
                   sorted_entries = bubble_sort far entries
               in Some (set_row idx1 layer dst (map snd (take (max_keep idx layer) sorted_entries))))))"

section \<open>Operations\<close>

definition hnsw_create :: "int \<Rightarrow> int \<Rightarrow> int \<Rightarrow> int \<Rightarrow> int \<Rightarrow> dist_fn \<Rightarrow> vec_rc + hnsw_index" where
  "hnsw_create d m ef_c ef_s max_elems dist =
     (if d \<le> 0 \<or> m \<le> 0 \<or> max_elems \<le> 0 then Inl KANBUDB_VEC_ERR_INVAL
      else Inr \<lparr>h_dim = nat d, h_M = m, M_max = m, M_max0 = 2 * m, h_ef_construction = ef_c, h_ef_search = ef_s,
                vector_pool = [], nodes = [], max_elements = nat max_elems, links = [], enterpoint_idx = None,
                max_level = - 1, visited = replicate (nat max_elems) 0, visit_tag = 0, h_dist_func = dist\<rparr>)"

definition live_id :: "u64 \<Rightarrow> hnsw_node \<Rightarrow> bool" where
  "live_id i n \<longleftrightarrow> n_id n = i \<and> \<not> n_deleted n"

text \<open>Greedy descent through a sequence of layers.\<close>

fun descend_layers :: "hnsw_index \<Rightarrow> vec \<Rightarrow> nat list \<Rightarrow> nat \<Rightarrow> nat option" where
  "descend_layers idx query [] ep = Some ep"
| "descend_layers idx query (lc # lcs) ep =
     (case hnsw_greedy_search idx ep query lc of None \<Rightarrow> None | Some ep' \<Rightarrow> descend_layers idx query lcs ep')"

fun link_all :: "hnsw_index \<Rightarrow> nat \<Rightarrow> nat \<Rightarrow> nat list \<Rightarrow> hnsw_index option" where
  "link_all idx slot lc [] = Some idx"
| "link_all idx slot lc (n # ns) =
     (case hnsw_add_bidirectional_link idx slot n lc of None \<Rightarrow> None | Some idx' \<Rightarrow> link_all idx' slot lc ns)"

text \<open>The loop that searches and connects, from the top layer of the new node down to 0.\<close>

fun connect :: "hnsw_index \<Rightarrow> nat \<Rightarrow> vec \<Rightarrow> nat list \<Rightarrow> nat \<Rightarrow> hnsw_index option" where
  "connect idx slot vector [] curr_ep = Some idx"
| "connect idx slot vector (lc # lcs) curr_ep =
     (case hnsw_search_layer idx curr_ep vector (h_ef_construction idx) lc of
        None \<Rightarrow> None
      | Some (idx1, found) \<Rightarrow>
          (let n_select = (if length found < max_keep idx1 lc then length found else max_keep idx1 lc)
           in case link_all idx1 slot lc (map snd (take n_select found)) of
                None \<Rightarrow> None
              | Some idx2 \<Rightarrow> connect idx2 slot vector lcs slot))"

text \<open>\<^verbatim>\<open>for (lc = hi; lc > lo; lc--)\<close> and \<^verbatim>\<open>for (lc = hi; lc >= 0; lc--)\<close>.\<close>

definition layers_above :: "int \<Rightarrow> nat \<Rightarrow> nat list" where
  "layers_above hi lo = rev [Suc lo..<nat (hi + 1)]"

definition layers_down :: "int \<Rightarrow> nat list" where
  "layers_down hi = rev [0..<nat (hi + 1)]"

definition hnsw_insert :: "nat \<Rightarrow> hnsw_index \<Rightarrow> u64 \<Rightarrow> vec \<Rightarrow> (hnsw_index \<times> vec_rc) option" where
  "hnsw_insert node_level idx i vector =
     (case find_idx (live_id i) (nodes idx) of
        Some j \<Rightarrow> Some (idx\<lparr>vector_pool := (vector_pool idx)[j := take (h_dim idx) vector]\<rparr>, KANBUDB_VEC_OK)
      | None \<Rightarrow>
          if element_count idx \<ge> max_elements idx then Some (idx, KANBUDB_VEC_ERR_OOM)
          else
            (let slot = element_count idx;
                 idx1 = idx\<lparr>vector_pool := vector_pool idx @ [take (h_dim idx) vector],
                            nodes := nodes idx @ [\<lparr>n_id = i, n_level = node_level, n_deleted = False\<rparr>]\<rparr>
             in case enterpoint_idx idx of
                  None \<Rightarrow>
                    Some ((hnsw_ensure_layers idx1 (int node_level))\<lparr>enterpoint_idx := Some slot\<rparr>, KANBUDB_VEC_OK)
                | Some ep \<Rightarrow>
                    (let needed_level = (if int node_level > max_level idx then int node_level else max_level idx);
                         idx2 = hnsw_ensure_layers idx1 needed_level
                     in case descend_layers idx2 vector (layers_above (max_level idx2) node_level) ep of
                          None \<Rightarrow> None
                        | Some curr_ep \<Rightarrow>
                            (let search_top = (if int node_level < max_level idx2 then int node_level else max_level idx2)
                             in case connect idx2 slot vector (layers_down search_top) curr_ep of
                                  None \<Rightarrow> None
                                | Some idx3 \<Rightarrow>
                                    Some (if int node_level > max_level idx3
                                          then idx3\<lparr>enterpoint_idx := Some slot, max_level := int node_level\<rparr>
                                          else idx3, KANBUDB_VEC_OK)))))"

text \<open>The search updates the visited array, so it returns the index as well.\<close>

definition hnsw_search :: "hnsw_index \<Rightarrow> vec \<Rightarrow> int \<Rightarrow> (hnsw_index \<times> vec_result list) option" where
  "hnsw_search idx query k =
     (if k \<le> 0 then Some (idx, [])
      else case enterpoint_idx idx of
        None \<Rightarrow> Some (idx, [])
      | Some ep \<Rightarrow>
          (case descend_layers idx query (layers_above (max_level idx) 0) ep of
             None \<Rightarrow> None
           | Some curr_ep \<Rightarrow>
               (let ef = (if h_ef_search idx < k then k else h_ef_search idx)
                in case hnsw_search_layer idx curr_ep query ef 0 of
                     None \<Rightarrow> None
                   | Some (idx', found) \<Rightarrow>
                       (let n_return = (if int (length found) < k then length found else nat k)
                        in Some (idx', map (\<lambda>(d, n). \<lparr>r_id = n_id (nodes idx' ! n), r_distance = d\<rparr>)
                                         (take n_return found))))))"

definition hnsw_delete :: "hnsw_index \<Rightarrow> u64 \<Rightarrow> hnsw_index \<times> vec_rc" where
  "hnsw_delete idx i =
     (case find_idx (live_id i) (nodes idx) of
        None \<Rightarrow> (idx, KANBUDB_VEC_ERR_NOTFOUND)
      | Some j \<Rightarrow>
          (let idx1 = idx\<lparr>nodes := (nodes idx)[j := (nodes idx ! j)\<lparr>n_deleted := True\<rparr>]\<rparr>
           in (if enterpoint_idx idx = Some j
               then idx1\<lparr>enterpoint_idx := find_idx (\<lambda>n. \<not> n_deleted n) (nodes idx1)\<rparr>
               else idx1, KANBUDB_VEC_OK)))"

definition hnsw_get :: "hnsw_index \<Rightarrow> u64 \<Rightarrow> vec option" where
  "hnsw_get idx i = map_option ((!) (vector_pool idx)) (find_idx (live_id i) (nodes idx))"

definition hnsw_count :: "hnsw_index \<Rightarrow> nat" where
  "hnsw_count idx = length (filter (\<lambda>n. \<not> n_deleted n) (nodes idx))"

end
