(* ===== verification/Vec_Index.thy ===== *)
theory Vec_Index
  imports Hnsw Files
begin

text \<open>
  The vector index of \<^verbatim>\<open>src/src/vector/vector.c\<close> with its files (\<^verbatim>\<open>persistence.c\<close>) and its filtered search (\<^verbatim>\<open>vec_filter.c\<close>).
  An index is flat, with parallel arrays that every operation scans, or an HNSW graph behind \<^verbatim>\<open>algo_data\<close>. The arrays are kept
  up to \<^verbatim>\<open>flat_count\<close>, one row of \<^verbatim>\<open>dimension\<close> floats per slot.

  Files are part of the state: every operation that touches them takes and returns the list of files. A log that is open has
  its written bytes in the list of files and the bytes that are still in the stdio buffer in \<open>wal_fp\<close>. The
  environment says which files open, how much a write accepts, the time, and the level of the next HNSW nodes.
  Memory up to the largest object size is available. \<open>None\<close> is an access outside an array.
\<close>

section \<open>State\<close>

record dist_kernels =
  k_l2 :: dist_fn
  k_cosine :: dist_fn
  k_ip :: dist_fn

definition KANBUDB_VEC_ALGO_FLAT :: u32 where "KANBUDB_VEC_ALGO_FLAT = 0"
definition KANBUDB_VEC_ALGO_HNSW :: u32 where "KANBUDB_VEC_ALGO_HNSW = 1"

definition vec_get_dist_func :: "dist_kernels \<Rightarrow> u32 \<Rightarrow> dist_fn" where
  "vec_get_dist_func ks metric =
     (if metric = 0 then k_l2 ks else if metric = 1 then k_cosine ks else if metric = 2 then k_ip ks else k_l2 ks)"

record vec_params =
  p_algo :: u32
  p_metric :: u32
  p_dimension :: u32
  p_initial_capacity :: u32
  p_enable_persistence :: bool
  p_M :: u32
  p_ef_construction :: u32
  p_ef_search :: u32

record vec_index =
  v_params :: vec_params
  v_dist_func :: dist_fn
  v_path :: "path option"
  v_dirty :: bool
  algo_data :: "hnsw_index option"
  flat_vectors :: "vec list"
  flat_ids :: "u64 list"
  flat_deleted :: "bool list"
  flat_capacity :: nat
  wal_fp :: "bytes option"
  wal_bytes :: nat
  flush_interval_ms :: int
  flush_thread_running :: bool

abbreviation flat_count :: "vec_index \<Rightarrow> nat" where
  "flat_count idx \<equiv> length (flat_ids idx)"

definition dimension :: "vec_index \<Rightarrow> nat" where
  "dimension idx = unat (p_dimension (v_params idx))"

record vec_env =
  v_fopen :: "path \<Rightarrow> bool"
  v_fwrite :: "bytes \<Rightarrow> nat"
  v_time :: u64
  v_level :: "nat \<Rightarrow> nat"
  v_thread :: bool

definition WAL_AUTO_CHECKPOINT_SIZE :: nat where "WAL_AUTO_CHECKPOINT_SIZE = 10 * 1024 * 1024"
definition KANBUDB_VEC_MAGIC :: u32 where "KANBUDB_VEC_MAGIC = 0x4B425643"
definition KANBUDB_VEC_VERSION :: u32 where "KANBUDB_VEC_VERSION = 2"
definition WAL_OP_INSERT :: u32 where "WAL_OP_INSERT = 1"
definition WAL_OP_DELETE :: u32 where "WAL_OP_DELETE = 2"
definition WAL_OP_CHECKPOINT :: u32 where "WAL_OP_CHECKPOINT = 3"

lemmas vec_consts = WAL_AUTO_CHECKPOINT_SIZE_def KANBUDB_VEC_MAGIC_def KANBUDB_VEC_VERSION_def WAL_OP_INSERT_def
  WAL_OP_DELETE_def WAL_OP_CHECKPOINT_def KANBUDB_VEC_ALGO_FLAT_def KANBUDB_VEC_ALGO_HNSW_def

text \<open>\<^verbatim>\<open>snprintf(buf, sizeof(buf), "%s/wal", path)\<close> and its like, with buffers of 1024 bytes.\<close>

definition vec_file :: "path \<Rightarrow> string \<Rightarrow> path" where
  "vec_file p name = take 1023 (p @ ''/'' @ name)"

section \<open>Slots\<close>

text \<open>The guard divides by the dimension; a dimension of 0 (from a damaged file) is a division by zero.\<close>

definition vec_grow :: "vec_index \<Rightarrow> (vec_index \<times> vec_rc) option" where
  "vec_grow idx =
     (if dimension idx = 0 then None
      else
        (let new_cap = (if flat_capacity idx \<noteq> 0 then flat_capacity idx * 2 else 1024)
         in if flat_capacity idx \<ge> ((2 ^ 64 - 1) div 4) div dimension idx then Some (idx, KANBUDB_VEC_ERR_OOM)
            else Some (idx\<lparr>flat_capacity := new_cap\<rparr>, KANBUDB_VEC_OK)))"

definition flat_slots :: "vec_index \<Rightarrow> slot list" where
  "flat_slots idx = zip (flat_ids idx) (flat_deleted idx)"

definition vec_find_idx :: "vec_index \<Rightarrow> u64 \<Rightarrow> nat option" where
  "vec_find_idx idx i = find_idx (slot_is i) (flat_slots idx)"

text \<open>A vector in a slot that exists, and in a new one; the first \<^verbatim>\<open>dimension\<close> floats are copied.\<close>

definition flat_update :: "vec_index \<Rightarrow> nat \<Rightarrow> vec \<Rightarrow> vec_index" where
  "flat_update idx j vector =
     idx\<lparr>flat_vectors := (flat_vectors idx)[j := take (dimension idx) vector],
         flat_deleted := (flat_deleted idx)[j := False]\<rparr>"

definition flat_append :: "vec_index \<Rightarrow> u64 \<Rightarrow> vec \<Rightarrow> vec_index" where
  "flat_append idx i vector =
     idx\<lparr>flat_vectors := flat_vectors idx @ [take (dimension idx) vector], flat_ids := flat_ids idx @ [i],
         flat_deleted := flat_deleted idx @ [False]\<rparr>"

section \<open>The log\<close>

definition vec_bytes :: "vec \<Rightarrow> bytes" where
  "vec_bytes v = concat (map put_u32 v)"

text \<open>Bytes that leave the stdio buffer are appended to the file.\<close>

definition fs_append :: "file_system \<Rightarrow> path \<Rightarrow> bytes \<Rightarrow> file_system" where
  "fs_append fs p bs = fs_write fs p ((case fs_read fs p of None \<Rightarrow> [] | Some old \<Rightarrow> old) @ bs)"

text \<open>A sequence of \<^verbatim>\<open>wal_fwrite_all\<close> calls that stops at the first short write; the buffer keeps what was accepted.\<close>

fun wal_fwrite_all :: "vec_env \<Rightarrow> bytes list \<Rightarrow> bytes \<Rightarrow> bytes \<times> bool" where
  "wal_fwrite_all env [] pending = (pending, True)"
| "wal_fwrite_all env (c # cs) pending =
     (if v_fwrite env c \<ge> length c then wal_fwrite_all env cs (pending @ c)
      else (pending @ take (v_fwrite env c) c, False))"

definition wal_write_record :: "vec_env \<Rightarrow> bytes list \<Rightarrow> file_system \<times> vec_index \<Rightarrow> (file_system \<times> vec_index) \<times> vec_rc" where
  "wal_write_record env chunks s =
     (case s of (fs, idx) \<Rightarrow>
      (case (wal_fp idx, v_path idx) of
         (Some pending, Some p) \<Rightarrow>
           (case wal_fwrite_all env chunks pending of (buffered, ok) \<Rightarrow>
             if \<not> ok then ((fs, idx\<lparr>wal_fp := Some buffered\<rparr>), KANBUDB_VEC_ERR_IO)
             else ((fs_append fs (vec_file p ''wal'') buffered,
                    idx\<lparr>wal_fp := Some [], wal_bytes := wal_bytes idx + length (concat chunks)\<rparr>), KANBUDB_VEC_OK))
       | _ \<Rightarrow> (s, KANBUDB_VEC_ERR_INVAL)))"

definition vec_wal_append_insert ::
  "vec_env \<Rightarrow> u64 \<Rightarrow> vec \<Rightarrow> file_system \<times> vec_index \<Rightarrow> (file_system \<times> vec_index) \<times> vec_rc" where
  "vec_wal_append_insert env i vector s =
     wal_write_record env [put_u32 WAL_OP_INSERT, put_u64 i, put_u32 (p_dimension (v_params (snd s))),
       vec_bytes (take (dimension (snd s)) vector), put_u64 (v_time env)] s"

definition vec_wal_append_delete ::
  "vec_env \<Rightarrow> u64 \<Rightarrow> file_system \<times> vec_index \<Rightarrow> (file_system \<times> vec_index) \<times> vec_rc" where
  "vec_wal_append_delete env i s = wal_write_record env [put_u32 WAL_OP_DELETE, put_u64 i] s"

definition vec_wal_open :: "vec_env \<Rightarrow> file_system \<times> vec_index \<Rightarrow> (file_system \<times> vec_index) \<times> vec_rc" where
  "vec_wal_open env s =
     (case s of (fs, idx) \<Rightarrow>
      (case v_path idx of
         None \<Rightarrow> (s, KANBUDB_VEC_ERR_INVAL)
       | Some p \<Rightarrow>
           if \<not> v_fopen env (vec_file p ''wal'') then ((fs, idx\<lparr>wal_fp := None\<rparr>), KANBUDB_VEC_ERR_IO)
           else
             (let fs' = fs_append fs (vec_file p ''wal'') []
              in ((fs', idx\<lparr>wal_fp := Some [], wal_bytes := length (the (fs_read fs' (vec_file p ''wal'')))\<rparr>),
                  KANBUDB_VEC_OK))))"

definition vec_wal_close :: "file_system \<times> vec_index \<Rightarrow> file_system \<times> vec_index" where
  "vec_wal_close s =
     (case s of (fs, idx) \<Rightarrow>
      (case (wal_fp idx, v_path idx) of
         (Some pending, Some p) \<Rightarrow> (fs_append fs (vec_file p ''wal'') pending, idx\<lparr>wal_fp := None, wal_bytes := 0\<rparr>)
       | _ \<Rightarrow> (fs, idx\<lparr>wal_fp := None, wal_bytes := 0\<rparr>)))"

section \<open>Replay of the log\<close>

fun get_vec :: "nat \<Rightarrow> bytes \<Rightarrow> vec" where
  "get_vec 0 bs = []"
| "get_vec (Suc n) bs = get_u32 bs # get_vec n (drop 4 bs)"

text \<open>One record off the front of the log; a short read or an unknown operation ends the replay.\<close>

datatype vec_rec = Rec_End | Rec_Insert u64 vec bytes | Rec_Delete u64 bytes | Rec_Checkpoint bytes

definition read_insert :: "bytes \<Rightarrow> vec_rec" where
  "read_insert bs =
     (case fread 8 bs of None \<Rightarrow> Rec_End | Some (i8, bs) \<Rightarrow>
      (case fread 4 bs of None \<Rightarrow> Rec_End | Some (d4, bs) \<Rightarrow>
       (case fread (4 * unat (get_u32 d4)) bs of None \<Rightarrow> Rec_End | Some (vb, bs) \<Rightarrow>
        (case fread 8 bs of None \<Rightarrow> Rec_End | Some (ts, bs) \<Rightarrow>
         Rec_Insert (get_u64 i8) (get_vec (unat (get_u32 d4)) vb) bs))))"

definition read_rec :: "bytes \<Rightarrow> vec_rec" where
  "read_rec bs =
     (case fread 4 bs of None \<Rightarrow> Rec_End | Some (o4, bs) \<Rightarrow>
      if get_u32 o4 = WAL_OP_INSERT then read_insert bs
      else if get_u32 o4 = WAL_OP_DELETE then
        (case fread 8 bs of None \<Rightarrow> Rec_End | Some (i8, bs) \<Rightarrow> Rec_Delete (get_u64 i8) bs)
      else if get_u32 o4 = WAL_OP_CHECKPOINT then Rec_Checkpoint bs
      else Rec_End)"

lemma read_rec_shrinks:
  "read_rec bs = Rec_Insert i v rest \<Longrightarrow> length rest < length bs"
  "read_rec bs = Rec_Delete i rest \<Longrightarrow> length rest < length bs"
  "read_rec bs = Rec_Checkpoint rest \<Longrightarrow> length rest < length bs"
  by (auto simp: read_rec_def read_insert_def fread_Some split: option.splits if_splits)

text \<open>
  The copy of the vector takes \<^verbatim>\<open>dimension\<close> floats from a buffer of as many floats as the record says.
\<close>

definition replay_insert :: "nat \<Rightarrow> vec_index \<Rightarrow> u64 \<Rightarrow> vec \<Rightarrow> vec_index option" where
  "replay_insert lv idx i vector =
     (let short = (length vector < dimension idx)
      in case algo_data idx of
           Some h \<Rightarrow>
             (case hnsw_insert lv h i vector of
                None \<Rightarrow> None
              | Some (h', rc) \<Rightarrow> if short \<and> rc = KANBUDB_VEC_OK then None else Some (idx\<lparr>algo_data := Some h'\<rparr>))
         | None \<Rightarrow>
             if short then None
             else case vec_find_idx idx i of
               Some j \<Rightarrow> Some (flat_update idx j vector)
             | None \<Rightarrow>
                 (let idx1 = (if flat_count idx \<ge> flat_capacity idx
                              then idx\<lparr>flat_capacity := (if flat_capacity idx \<noteq> 0 then flat_capacity idx * 2 else 1024)\<rparr>
                              else idx)
                  in Some (flat_append idx1 i vector)))"

definition flat_mark_deleted :: "vec_index \<Rightarrow> nat \<Rightarrow> vec_index" where
  "flat_mark_deleted idx j = idx\<lparr>flat_deleted := (flat_deleted idx)[j := True]\<rparr>"

definition replay_delete :: "vec_index \<Rightarrow> u64 \<Rightarrow> vec_index" where
  "replay_delete idx i =
     (case algo_data idx of
        Some h \<Rightarrow> idx\<lparr>algo_data := Some (fst (hnsw_delete h i))\<rparr>
      | None \<Rightarrow> (case vec_find_idx idx i of None \<Rightarrow> idx | Some j \<Rightarrow> flat_mark_deleted idx j))"

function replay_loop :: "(nat \<Rightarrow> nat) \<Rightarrow> nat \<Rightarrow> bytes \<Rightarrow> vec_index \<Rightarrow> vec_index option" where
  "replay_loop lvs c bs idx =
     (case read_rec bs of
        Rec_End \<Rightarrow> Some idx
      | Rec_Insert i v rest \<Rightarrow>
          (case replay_insert (lvs c) idx i v of None \<Rightarrow> None | Some idx' \<Rightarrow> replay_loop lvs (Suc c) rest idx')
      | Rec_Delete i rest \<Rightarrow> replay_loop lvs c rest (replay_delete idx i)
      | Rec_Checkpoint rest \<Rightarrow> replay_loop lvs c rest idx)"
  by auto
termination
  by (relation "measure (\<lambda>(lvs, c, bs, idx). length bs)") (auto dest: read_rec_shrinks)

declare replay_loop.simps [simp del]

definition vec_wal_replay :: "vec_env \<Rightarrow> nat \<Rightarrow> file_system \<Rightarrow> vec_index \<Rightarrow> (vec_index \<times> vec_rc) option" where
  "vec_wal_replay env c fs idx =
     (case v_path idx of
        None \<Rightarrow> Some (idx, KANBUDB_VEC_ERR_INVAL)
      | Some p \<Rightarrow>
          (case fs_read fs (vec_file p ''wal'') of
             None \<Rightarrow> Some (idx, KANBUDB_VEC_OK)
           | Some bs \<Rightarrow>
               if \<not> v_fopen env (vec_file p ''wal'') then Some (idx, KANBUDB_VEC_OK)
               else map_option (\<lambda>idx'. (idx', KANBUDB_VEC_OK)) (replay_loop (v_level env) c bs idx)))"

section \<open>Writing the files\<close>

text \<open>\<^verbatim>\<open>fopen(path, "wb")\<close>, one \<^verbatim>\<open>fwrite\<close> unless there is nothing to write, \<^verbatim>\<open>fclose\<close>.\<close>

definition write_file :: "vec_env \<Rightarrow> file_system \<Rightarrow> path \<Rightarrow> bytes \<Rightarrow> file_system \<times> bool" where
  "write_file env fs p bs =
     (if \<not> v_fopen env p then (fs, False)
      else (fs_write fs p (take (v_fwrite env bs) bs), bs = [] \<or> v_fwrite env bs \<ge> length bs))"

text \<open>\<^verbatim>\<open>vec_file_header_t\<close>, 48 bytes without padding.\<close>

definition vec_file_header :: "u32 \<Rightarrow> u32 \<Rightarrow> u64 \<Rightarrow> u32 \<Rightarrow> u32 \<Rightarrow> u32 \<Rightarrow> u32 \<Rightarrow> bytes" where
  "vec_file_header dim metric n algo m ef_c ef_s =
     put_u32 KANBUDB_VEC_MAGIC @ put_u32 KANBUDB_VEC_VERSION @ put_u32 dim @ put_u32 metric @
     put_u64 n @ put_u64 n @ put_u32 algo @ put_u32 m @ put_u32 ef_c @ put_u32 ef_s"

definition write_meta_vectors_ids ::
  "vec_env \<Rightarrow> file_system \<Rightarrow> path \<Rightarrow> u32 \<Rightarrow> u32 \<Rightarrow> u32 \<Rightarrow> vec list \<Rightarrow> u64 list \<Rightarrow> u32 \<Rightarrow> u32 \<Rightarrow> u32 \<Rightarrow> file_system \<times> vec_rc" where
  "write_meta_vectors_ids env fs p dim metric algo vectors ids m ef_c ef_s =
     (case write_file env fs (vec_file p ''meta'')
             (vec_file_header dim metric (word_of_nat (length ids)) algo m ef_c ef_s) of (fs1, ok1) \<Rightarrow>
      if \<not> ok1 then (fs1, KANBUDB_VEC_ERR_IO)
      else case write_file env fs1 (vec_file p ''vectors'') (concat (map vec_bytes vectors)) of (fs2, ok2) \<Rightarrow>
      if \<not> ok2 then (fs2, KANBUDB_VEC_ERR_IO)
      else case write_file env fs2 (vec_file p ''ids'') (concat (map put_u64 ids)) of (fs3, ok3) \<Rightarrow>
      (fs3, if ok3 then KANBUDB_VEC_OK else KANBUDB_VEC_ERR_IO))"

definition persist_write_flat :: "vec_env \<Rightarrow> file_system \<Rightarrow> path \<Rightarrow> vec_index \<Rightarrow> file_system \<times> vec_rc" where
  "persist_write_flat env fs p idx =
     (let rows = filter (\<lambda>(s, v). \<not> snd s) (zip (flat_slots idx) (flat_vectors idx))
      in write_meta_vectors_ids env fs p (p_dimension (v_params idx)) (p_metric (v_params idx)) KANBUDB_VEC_ALGO_FLAT
           (map snd rows) (map (fst \<circ> fst) rows) 0 0 0)"

definition persist_write_hnsw :: "vec_env \<Rightarrow> file_system \<Rightarrow> path \<Rightarrow> vec_index \<Rightarrow> hnsw_index \<Rightarrow> file_system \<times> vec_rc" where
  "persist_write_hnsw env fs p idx h =
     (let rows = filter (\<lambda>(n, v). \<not> n_deleted n) (zip (nodes h) (vector_pool h))
      in write_meta_vectors_ids env fs p (p_dimension (v_params idx)) (p_metric (v_params idx)) KANBUDB_VEC_ALGO_HNSW
           (map snd rows) (map (n_id \<circ> fst) rows) (word_of_int (h_M h)) (word_of_int (h_ef_construction h))
           (word_of_int (h_ef_search h)))"

definition vec_persist_write :: "vec_env \<Rightarrow> file_system \<Rightarrow> path \<Rightarrow> vec_index \<Rightarrow> file_system \<times> vec_rc" where
  "vec_persist_write env fs p idx =
     (case algo_data idx of Some h \<Rightarrow> persist_write_hnsw env fs p idx h | None \<Rightarrow> persist_write_flat env fs p idx)"

text \<open>\<^verbatim>\<open>vec_checkpoint\<close> closes the log and opens it again in append mode.\<close>

definition vec_checkpoint :: "vec_env \<Rightarrow> file_system \<times> vec_index \<Rightarrow> (file_system \<times> vec_index) \<times> vec_rc" where
  "vec_checkpoint env s =
     (case s of (fs, idx) \<Rightarrow>
      (case v_path idx of
         None \<Rightarrow> (s, KANBUDB_VEC_ERR_INVAL)
       | Some p \<Rightarrow>
           (case vec_persist_write env fs p idx of (fs1, rc) \<Rightarrow>
             if rc \<noteq> KANBUDB_VEC_OK then ((fs1, idx), rc)
             else
               (case vec_wal_close (fs1, idx) of (fs2, idx1) \<Rightarrow>
                 if \<not> v_fopen env (vec_file p ''wal'') then ((fs2, idx1), KANBUDB_VEC_ERR_IO)
                 else ((fs_append fs2 (vec_file p ''wal'') [], idx1\<lparr>wal_fp := Some [], v_dirty := False\<rparr>),
                       KANBUDB_VEC_OK)))))"

section \<open>Reading the files\<close>

fun get_rows :: "nat \<Rightarrow> nat \<Rightarrow> bytes \<Rightarrow> vec list" where
  "get_rows 0 d bs = []"
| "get_rows (Suc n) d bs = get_vec d bs # get_rows n d (drop (4 * d) bs)"

fun get_ids :: "nat \<Rightarrow> bytes \<Rightarrow> u64 list" where
  "get_ids 0 bs = []"
| "get_ids (Suc n) bs = get_u64 bs # get_ids n (drop 8 bs)"

record vec_meta =
  m_dim :: u32
  m_metric :: u32
  m_count :: u64
  m_algo :: u32
  m_M :: u32
  m_ef_construction :: u32
  m_ef_search :: u32

text \<open>The fields of version 1 are 32 bytes, later versions have 16 more; older files get defaults.\<close>

definition read_meta :: "bytes \<Rightarrow> vec_meta option" where
  "read_meta bs =
     (if length bs < 32 then None
      else if get_u32 bs \<noteq> KANBUDB_VEC_MAGIC then None
      else if get_u32 (drop 4 bs) \<ge> 2 then
        (if length bs < 48 then None
         else Some \<lparr>m_dim = get_u32 (drop 8 bs), m_metric = get_u32 (drop 12 bs), m_count = get_u64 (drop 16 bs),
                    m_algo = get_u32 (drop 32 bs), m_M = get_u32 (drop 36 bs),
                    m_ef_construction = get_u32 (drop 40 bs), m_ef_search = get_u32 (drop 44 bs)\<rparr>)
      else Some \<lparr>m_dim = get_u32 (drop 8 bs), m_metric = get_u32 (drop 12 bs), m_count = get_u64 (drop 16 bs),
                 m_algo = KANBUDB_VEC_ALGO_FLAT, m_M = 16, m_ef_construction = 200, m_ef_search = 50\<rparr>)"

text \<open>\<^verbatim>\<open>fopen\<close>, one \<^verbatim>\<open>fread\<close> of \<open>n\<close> bytes, \<^verbatim>\<open>fclose\<close>.\<close>

definition read_file :: "vec_env \<Rightarrow> file_system \<Rightarrow> path \<Rightarrow> nat \<Rightarrow> vec_rc + bytes" where
  "read_file env fs p n =
     (case fs_read fs p of
        None \<Rightarrow> Inl KANBUDB_VEC_ERR_IO
      | Some bs \<Rightarrow>
          if \<not> v_fopen env p then Inl KANBUDB_VEC_ERR_IO
          else if n > 0 \<and> length bs < n then Inl KANBUDB_VEC_ERR_CORRUPT else Inr (take n bs))"

text \<open>An allocation above the largest object size fails.\<close>

definition alloc_max :: nat where "alloc_max = 2 ^ 63 - 1"

definition empty_index :: "vec_params \<Rightarrow> dist_fn \<Rightarrow> path option \<Rightarrow> vec_index" where
  "empty_index ps dist p =
     \<lparr>v_params = ps, v_dist_func = dist, v_path = p, v_dirty = False, algo_data = None, flat_vectors = [], flat_ids = [],
      flat_deleted = [], flat_capacity = 0, wal_fp = None, wal_bytes = 0, flush_interval_ms = 0,
      flush_thread_running = False\<rparr>"

text \<open>
  The flat part of \<^verbatim>\<open>vec_persist_read\<close>. The capacity and the size of the array of vectors are computed in 64 bits; if one
  of them wraps, the arrays are smaller than the count says.
\<close>

definition load_flat :: "vec_env \<Rightarrow> file_system \<Rightarrow> path \<Rightarrow> vec_meta \<Rightarrow> vec_index \<Rightarrow> (vec_rc + vec_index) option" where
  "load_flat env fs p meta idx =
     (let n = unat (m_count meta); d = unat (m_dim meta);
          cap0 = (if n > 0 then (n + n div 2) mod 2 ^ 64 else 1024);
          cap = (if cap0 < 1024 then 1024 else cap0)
      in if (cap * d) mod 2 ^ 64 * 4 > alloc_max \<or> cap * 8 > alloc_max then Some (Inl KANBUDB_VEC_ERR_OOM)
         else if n > cap \<or> cap * d \<ge> 2 ^ 64 then None
         else if n = 0 then Some (Inr (idx\<lparr>flat_capacity := cap\<rparr>))
         else case read_file env fs (vec_file p ''vectors'') (n * d * 4) of
           Inl e \<Rightarrow> Some (Inl e)
         | Inr vb \<Rightarrow>
             (case read_file env fs (vec_file p ''ids'') (n * 8) of
                Inl e \<Rightarrow> Some (Inl e)
              | Inr ib \<Rightarrow>
                  Some (Inr (idx\<lparr>flat_capacity := cap, flat_vectors := get_rows n d vb, flat_ids := get_ids n ib,
                                  flat_deleted := replicate n False\<rparr>))))"

text \<open>The loop that inserts the stored vectors into a new graph; it stops at the first error.\<close>

fun load_rows :: "(nat \<Rightarrow> nat) \<Rightarrow> nat \<Rightarrow> nat \<Rightarrow> u64 list \<Rightarrow> vec list \<Rightarrow> hnsw_index \<Rightarrow> (hnsw_index \<times> vec_rc) option" where
  "load_rows lvs c 0 ids vs h = Some (h, KANBUDB_VEC_OK)"
| "load_rows lvs c (Suc n) (i # ids) (v # vs) h =
     (case hnsw_insert (lvs c) h i v of
        None \<Rightarrow> None
      | Some (h', rc) \<Rightarrow> if rc \<noteq> KANBUDB_VEC_OK then Some (h', rc) else load_rows lvs (Suc c) n ids vs h')"
| "load_rows lvs c (Suc n) _ _ h = None"

definition load_hnsw :: "vec_env \<Rightarrow> file_system \<Rightarrow> path \<Rightarrow> vec_meta \<Rightarrow> vec_index \<Rightarrow> (vec_rc + vec_index) option" where
  "load_hnsw env fs p meta idx =
     (let n = unat (m_count meta); d = unat (m_dim meta);
          max_elems = sint (ucast (if m_count meta > 0 then m_count meta else 1024) :: u32)
      in case hnsw_create (sint (m_dim meta)) (sint (m_M meta)) (sint (m_ef_construction meta)) (sint (m_ef_search meta))
                max_elems (v_dist_func idx) of
           Inl e \<Rightarrow> Some (Inl e)
         | Inr h \<Rightarrow>
             if n = 0 then Some (Inr (idx\<lparr>algo_data := Some h\<rparr>))
             else
               (let vbytes = (n * d * 4) mod 2 ^ 64; ibytes = (n * 8) mod 2 ^ 64
                in if vbytes > alloc_max \<or> ibytes > alloc_max then Some (Inl KANBUDB_VEC_ERR_OOM)
                   else case read_file env fs (vec_file p ''vectors'') vbytes of
                     Inl e \<Rightarrow> Some (Inl e)
                   | Inr vb \<Rightarrow>
                       (case read_file env fs (vec_file p ''ids'') ibytes of
                          Inl e \<Rightarrow> Some (Inl e)
                        | Inr ib \<Rightarrow>
                            (case load_rows (v_level env) 0 n (get_ids (ibytes div 8) ib) (get_rows (vbytes div (4 * d)) d vb) h of
                               None \<Rightarrow> None
                             | Some (h', rc) \<Rightarrow>
                                 if rc \<noteq> KANBUDB_VEC_OK then Some (Inl rc)
                                 else Some (Inr (idx\<lparr>algo_data := Some h'\<rparr>))))))"

definition vec_persist_read ::
  "vec_env \<Rightarrow> dist_kernels \<Rightarrow> file_system \<Rightarrow> path \<Rightarrow> (file_system \<times> vec_index option \<times> vec_rc) option" where
  "vec_persist_read env ks fs p =
     (case fs_read fs (vec_file p ''meta'') of
        None \<Rightarrow> Some (fs, None, KANBUDB_VEC_ERR_NOTFOUND)
      | Some mb \<Rightarrow>
          if \<not> v_fopen env (vec_file p ''meta'') then Some (fs, None, KANBUDB_VEC_ERR_NOTFOUND)
          else case read_meta mb of
            None \<Rightarrow> Some (fs, None, KANBUDB_VEC_ERR_CORRUPT)
          | Some meta \<Rightarrow>
              (let ps = \<lparr>p_algo = m_algo meta, p_metric = m_metric meta, p_dimension = m_dim meta,
                         p_initial_capacity = (if m_count meta > 0 then ucast (m_count meta) else 1024),
                         p_enable_persistence = True, p_M = m_M meta, p_ef_construction = m_ef_construction meta,
                         p_ef_search = m_ef_search meta\<rparr>;
                   idx0 = empty_index ps (vec_get_dist_func ks (m_metric meta)) (Some p)
               in case (if m_algo meta = KANBUDB_VEC_ALGO_HNSW then load_hnsw env fs p meta idx0 else load_flat env fs p meta idx0) of
                    None \<Rightarrow> None
                  | Some (Inl e) \<Rightarrow> Some (fs, None, e)
                  | Some (Inr idx) \<Rightarrow>
                      (case vec_wal_open env (fs, idx) of ((fs1, idx1), rc) \<Rightarrow>
                        if rc \<noteq> KANBUDB_VEC_OK then Some (fs1, Some idx1, rc)
                        else case vec_wal_replay env (unat (m_count meta)) fs1 idx1 of
                          None \<Rightarrow> None
                        | Some (idx2, rc2) \<Rightarrow>
                            Some (fs1, Some (if rc2 = KANBUDB_VEC_OK then idx2\<lparr>v_dirty := False\<rparr> else idx2), rc2))))"

section \<open>Life cycle\<close>

text \<open>The first half of \<^verbatim>\<open>kanbudb_vec_create\<close>: the structure with its graph or its arrays.\<close>

definition vec_alloc :: "dist_kernels \<Rightarrow> vec_params \<Rightarrow> vec_rc + vec_index" where
  "vec_alloc ks ps =
     (let dist = vec_get_dist_func ks (p_metric ps); idx0 = empty_index ps dist None
      in if p_algo ps = KANBUDB_VEC_ALGO_HNSW then
           (case hnsw_create (sint (p_dimension ps)) (sint (p_M ps)) (sint (p_ef_construction ps)) (sint (p_ef_search ps))
                   (if p_initial_capacity ps > 0 then sint (p_initial_capacity ps) else 4096 * 1024) dist of
              Inl e \<Rightarrow> Inl e
            | Inr h \<Rightarrow> Inr (idx0\<lparr>algo_data := Some h\<rparr>))
         else if unat (p_initial_capacity ps) * dimension idx0 * 4 > alloc_max then Inl KANBUDB_VEC_ERR_OOM
         else Inr (idx0\<lparr>flat_capacity := unat (p_initial_capacity ps)\<rparr>))"

definition kanbudb_vec_create ::
  "vec_env \<Rightarrow> dist_kernels \<Rightarrow> file_system \<Rightarrow> path option \<Rightarrow> vec_params \<Rightarrow> file_system \<times> (vec_rc + vec_index)" where
  "kanbudb_vec_create env ks fs p ps =
     (if p_dimension ps = 0 then (fs, Inl KANBUDB_VEC_ERR_INVAL)
      else case vec_alloc ks ps of
        Inl e \<Rightarrow> (fs, Inl e)
      | Inr idx \<Rightarrow>
          (case p of
             Some d \<Rightarrow>
               if p_enable_persistence ps then
                 (case vec_wal_open env (fs, idx\<lparr>v_path := Some d\<rparr>) of ((fs1, idx1), rc) \<Rightarrow>
                   if rc \<noteq> KANBUDB_VEC_OK then (fs1, Inl rc) else (fs1, Inr idx1))
               else (fs, Inr idx)
           | None \<Rightarrow> (fs, Inr idx)))"

definition kanbudb_vec_open :: "vec_env \<Rightarrow> dist_kernels \<Rightarrow> file_system \<Rightarrow> path \<Rightarrow> (file_system \<times> vec_index option \<times> vec_rc) option" where
  "kanbudb_vec_open env ks fs p = vec_persist_read env ks fs p"

definition kanbudb_vec_flush :: "vec_env \<Rightarrow> file_system \<times> vec_index \<Rightarrow> (file_system \<times> vec_index) \<times> vec_rc" where
  "kanbudb_vec_flush env s =
     (if v_path (snd s) = None then (s, KANBUDB_VEC_ERR_INVAL) else vec_checkpoint env s)"

text \<open>One round of the flush thread.\<close>

definition vec_flush_worker :: "vec_env \<Rightarrow> file_system \<times> vec_index \<Rightarrow> file_system \<times> vec_index" where
  "vec_flush_worker env s =
     (if flush_thread_running (snd s) \<and> v_dirty (snd s) then fst (kanbudb_vec_flush env s) else s)"

definition kanbudb_vec_flush_interval :: "vec_env \<Rightarrow> vec_index \<Rightarrow> int \<Rightarrow> vec_index \<times> vec_rc" where
  "kanbudb_vec_flush_interval env idx interval_ms =
     (if interval_ms \<le> 0 then (idx\<lparr>flush_thread_running := False, flush_interval_ms := 0\<rparr>, KANBUDB_VEC_OK)
      else if flush_thread_running idx then (idx\<lparr>flush_interval_ms := interval_ms\<rparr>, KANBUDB_VEC_OK)
      else if \<not> v_thread env then (idx\<lparr>flush_interval_ms := interval_ms, flush_thread_running := False\<rparr>, KANBUDB_VEC_ERR_OOM)
      else (idx\<lparr>flush_interval_ms := interval_ms, flush_thread_running := True\<rparr>, KANBUDB_VEC_OK))"

definition kanbudb_vec_close :: "vec_env \<Rightarrow> file_system \<times> vec_index \<Rightarrow> file_system" where
  "kanbudb_vec_close env s =
     (let s1 = (fst s, (snd s)\<lparr>flush_thread_running := False\<rparr>);
          s2 = (if v_dirty (snd s1) \<and> v_path (snd s1) \<noteq> None then fst (kanbudb_vec_flush env s1) else s1)
      in fst (vec_wal_close s2))"

definition kanbudb_vec_destroy :: "file_system \<Rightarrow> path \<Rightarrow> file_system" where
  "kanbudb_vec_destroy fs p =
     fs_unlink (fs_unlink (fs_unlink (fs_unlink fs (vec_file p ''meta'')) (vec_file p ''vectors'')) (vec_file p ''ids''))
       (vec_file p ''wal'')"

section \<open>Data operations\<close>

text \<open>The end of an insertion: a long log triggers a checkpoint, whose result is ignored.\<close>

definition auto_checkpoint :: "vec_env \<Rightarrow> (file_system \<times> vec_index) \<times> vec_rc \<Rightarrow> (file_system \<times> vec_index) \<times> vec_rc" where
  "auto_checkpoint env r =
     (case r of (s, rc) \<Rightarrow>
       if rc = KANBUDB_VEC_OK \<and> wal_bytes (snd s) \<ge> WAL_AUTO_CHECKPOINT_SIZE \<and> v_path (snd s) \<noteq> None
       then (fst (vec_checkpoint env s), rc) else (s, rc))"

text \<open>\<^verbatim>\<open>if (idx->wal_fp) vec_wal_append_insert(...)\<close>: the state and the result, which is OK without a log.\<close>

definition log_insert :: "vec_env \<Rightarrow> u64 \<Rightarrow> vec \<Rightarrow> file_system \<times> vec_index \<Rightarrow> (file_system \<times> vec_index) \<times> vec_rc" where
  "log_insert env i vector s =
     (if wal_fp (snd s) \<noteq> None then vec_wal_append_insert env i vector s else (s, KANBUDB_VEC_OK))"

definition kanbudb_vec_insert ::
  "vec_env \<Rightarrow> file_system \<times> vec_index \<Rightarrow> u64 \<Rightarrow> vec \<Rightarrow> ((file_system \<times> vec_index) \<times> vec_rc) option" where
  "kanbudb_vec_insert env s i vector =
     (case s of (fs, idx) \<Rightarrow>
      (case algo_data idx of
         Some h \<Rightarrow>
           (case hnsw_insert (v_level env 0) h i vector of
              None \<Rightarrow> None
            | Some (h', rc) \<Rightarrow>
                (let s1 = (fs, idx\<lparr>algo_data := Some h'\<rparr>);
                     s2 = (if rc = KANBUDB_VEC_OK
                           then fst (log_insert env i vector (fs, idx\<lparr>algo_data := Some h', v_dirty := True\<rparr>)) else s1)
                 in Some (auto_checkpoint env (s2, rc))))
       | None \<Rightarrow>
           (case vec_find_idx idx i of
              Some j \<Rightarrow>
                Some (auto_checkpoint env
                        (fst (log_insert env i vector (fs, (flat_update idx j vector)\<lparr>v_dirty := True\<rparr>)), KANBUDB_VEC_OK))
            | None \<Rightarrow>
                (case (if flat_count idx \<ge> flat_capacity idx then vec_grow idx else Some (idx, KANBUDB_VEC_OK)) of
                   None \<Rightarrow> None
                 | Some (idx1, rc) \<Rightarrow>
                  if rc \<noteq> KANBUDB_VEC_OK then Some ((fs, idx1), rc)
                  else Some (auto_checkpoint env
                               (log_insert env i vector (fs, (flat_append idx1 i vector)\<lparr>v_dirty := True\<rparr>)))))))"

text \<open>The loop over a batch in the graph stops at the first error; the results of the log are ignored.\<close>

fun batch_hnsw ::
  "vec_env \<Rightarrow> nat \<Rightarrow> (u64 \<times> vec) list \<Rightarrow> hnsw_index \<Rightarrow> file_system \<times> vec_index \<Rightarrow> ((file_system \<times> vec_index) \<times> vec_rc) option" where
  "batch_hnsw env c [] h s = Some (s, KANBUDB_VEC_OK)"
| "batch_hnsw env c ((i, v) # rest) h s =
     (case hnsw_insert (v_level env c) h i v of
        None \<Rightarrow> None
      | Some (h', rc) \<Rightarrow>
          (let s1 = (fst s, (snd s)\<lparr>algo_data := Some h'\<rparr>)
           in if rc \<noteq> KANBUDB_VEC_OK then Some (s1, rc)
              else batch_hnsw env (Suc c) rest h' (fst (log_insert env i v s1))))"

text \<open>\<^verbatim>\<open>while (flat_count + count > flat_capacity) vec_grow(...)\<close>: the capacity grows in every round.\<close>

lemma vec_grow_capacity:
  "vec_grow idx = Some (idx', KANBUDB_VEC_OK) \<Longrightarrow> flat_capacity idx < flat_capacity idx' \<and> flat_ids idx' = flat_ids idx"
  by (auto simp: vec_grow_def Let_def split: if_splits)

function grow_for :: "vec_index \<Rightarrow> nat \<Rightarrow> (vec_index \<times> vec_rc) option" where
  "grow_for idx n =
     (if flat_count idx + n > flat_capacity idx then
        (case vec_grow idx of
           None \<Rightarrow> None
         | Some (idx', rc) \<Rightarrow> if rc \<noteq> KANBUDB_VEC_OK then Some (idx', rc) else grow_for idx' n)
      else Some (idx, KANBUDB_VEC_OK))"
  by auto
termination
  by (relation "measure (\<lambda>(idx, n). flat_count idx + n - flat_capacity idx)") (auto dest!: vec_grow_capacity)

declare grow_for.simps [simp del]

fun log_batch :: "vec_env \<Rightarrow> (u64 \<times> vec) list \<Rightarrow> file_system \<times> vec_index \<Rightarrow> (file_system \<times> vec_index) \<times> vec_rc" where
  "log_batch env [] s = (s, KANBUDB_VEC_OK)"
| "log_batch env ((i, v) # rest) s =
     (case log_insert env i v s of (s', rc) \<Rightarrow> if rc \<noteq> KANBUDB_VEC_OK then (s', rc) else log_batch env rest s')"

definition kanbudb_vec_insert_batch ::
  "vec_env \<Rightarrow> file_system \<times> vec_index \<Rightarrow> (u64 \<times> vec) list \<Rightarrow> ((file_system \<times> vec_index) \<times> vec_rc) option" where
  "kanbudb_vec_insert_batch env s items =
     (if items = [] then Some (s, KANBUDB_VEC_ERR_INVAL)
      else case s of (fs, idx) \<Rightarrow>
      (case algo_data idx of
         Some h \<Rightarrow>
           (case batch_hnsw env 0 items h s of
              None \<Rightarrow> None
            | Some (s', rc) \<Rightarrow> Some ((fst s', if rc = KANBUDB_VEC_OK then (snd s')\<lparr>v_dirty := True\<rparr> else snd s'), rc))
       | None \<Rightarrow>
           (case grow_for idx (length items) of
              None \<Rightarrow> None
            | Some (idx1, rc) \<Rightarrow>
             if rc \<noteq> KANBUDB_VEC_OK then Some ((fs, idx1), rc)
             else Some (log_batch env items
                    (fs, (fold (\<lambda>(i, v) idx. flat_append idx i v) items idx1)\<lparr>v_dirty := True\<rparr>)))))"

definition kanbudb_vec_delete ::
  "vec_env \<Rightarrow> file_system \<times> vec_index \<Rightarrow> u64 \<Rightarrow> (file_system \<times> vec_index) \<times> vec_rc" where
  "kanbudb_vec_delete env s i =
     (let log = (\<lambda>s1. if wal_fp (snd s1) \<noteq> None then fst (vec_wal_append_delete env i s1) else s1)
      in case s of (fs, idx) \<Rightarrow>
      (case algo_data idx of
         Some h \<Rightarrow>
           (case hnsw_delete h i of (h', rc) \<Rightarrow>
             (if rc = KANBUDB_VEC_OK then log (fs, idx\<lparr>algo_data := Some h', v_dirty := True\<rparr>)
              else (fs, idx\<lparr>algo_data := Some h'\<rparr>), rc))
       | None \<Rightarrow>
           (case vec_find_idx idx i of
              None \<Rightarrow> (s, KANBUDB_VEC_ERR_NOTFOUND)
            | Some j \<Rightarrow> (log (fs, (flat_mark_deleted idx j)\<lparr>v_dirty := True\<rparr>), KANBUDB_VEC_OK))))"

text \<open>\<open>None\<close> is \<^verbatim>\<open>KANBUDB_VEC_ERR_NOTFOUND\<close>.\<close>

definition kanbudb_vec_get :: "vec_index \<Rightarrow> u64 \<Rightarrow> vec option" where
  "kanbudb_vec_get idx i =
     (case algo_data idx of
        Some h \<Rightarrow> hnsw_get h i
      | None \<Rightarrow> map_option ((!) (flat_vectors idx)) (vec_find_idx idx i))"

section \<open>Search\<close>

definition heap_push :: "u64 cand list \<Rightarrow> f32 \<Rightarrow> u64 \<Rightarrow> u64 cand list" where
  "heap_push heap d i =
     (if f_le f_zero (fst (heap ! 0)) \<and> f_le (fst (heap ! 0)) d then heap else sift_down near (heap[0 := (d, i)]) 0)"

text \<open>
  The body of the search loop for a vector at distance \<open>d\<close>: fill the array, make it a heap when it is full, then push. Before it
  is full nothing reads the sentinel distances behind the filled part.
\<close>

definition top_k_step :: "nat \<Rightarrow> u64 cand \<Rightarrow> u64 cand list \<Rightarrow> u64 cand list" where
  "top_k_step k e heap =
     (if length heap < k then
        (let h = heap @ [e] in if length h = k then build_heap near h (k div 2) else h)
      else heap_push heap (fst e) (snd e))"

definition result_of_cand :: "u64 cand \<Rightarrow> vec_result" where
  "result_of_cand e = \<lparr>r_id = snd e, r_distance = fst e\<rparr>"

text \<open>The slots that are not deleted, with their distances, in the order of the scan.\<close>

definition flat_cands :: "vec_index \<Rightarrow> vec \<Rightarrow> u64 cand list" where
  "flat_cands idx query =
     map (\<lambda>(s, v). (v_dist_func idx query v, fst s)) (filter (\<lambda>(s, v). \<not> snd s) (zip (flat_slots idx) (flat_vectors idx)))"

type_synonym qsort_fn = "(vec_result \<Rightarrow> vec_result \<Rightarrow> int) \<Rightarrow> vec_result list \<Rightarrow> vec_result list"

definition flat_search :: "qsort_fn \<Rightarrow> vec_index \<Rightarrow> vec \<Rightarrow> nat \<Rightarrow> vec_result list" where
  "flat_search qsort idx query k =
     (let cands = flat_cands idx query; active = length cands mod 2 ^ 32;
          k' = (if active = 0 \<or> k > active then active else k)
      in qsort cmp_result (map result_of_cand (fold (top_k_step k') cands [])))"

definition kanbudb_vec_search :: "qsort_fn \<Rightarrow> vec_index \<Rightarrow> vec \<Rightarrow> u32 \<Rightarrow> (vec_index \<times> (vec_rc + vec_result list)) option" where
  "kanbudb_vec_search qsort idx query k =
     (if k = 0 then Some (idx, Inl KANBUDB_VEC_ERR_INVAL)
      else case algo_data idx of
        Some h \<Rightarrow> map_option (\<lambda>(h', rs). (idx\<lparr>algo_data := Some h'\<rparr>, Inr rs)) (hnsw_search h query (sint k))
      | None \<Rightarrow> Some (idx, Inr (flat_search qsort idx query (unat k))))"

fun radius_scan :: "f32 \<Rightarrow> nat \<Rightarrow> u64 cand list \<Rightarrow> vec_result list \<Rightarrow> vec_result list" where
  "radius_scan radius max_results [] found = found"
| "radius_scan radius max_results (e # es) found =
     (if length found < max_results then
        radius_scan radius max_results es (if f_le (fst e) radius then found @ [result_of_cand e] else found)
      else found)"

definition kanbudb_vec_search_radius ::
  "qsort_fn \<Rightarrow> vec_index \<Rightarrow> vec \<Rightarrow> f32 \<Rightarrow> u32 \<Rightarrow> (vec_index \<times> vec_result list) option" where
  "kanbudb_vec_search_radius qsort idx query radius max_results =
     (case algo_data idx of
        Some h \<Rightarrow>
          map_option (\<lambda>(h', rs). (idx\<lparr>algo_data := Some h'\<rparr>,
              qsort cmp_result (take (unat max_results) (filter (\<lambda>r. f_le (r_distance r) radius) rs))))
            (hnsw_search h query (sint max_results))
      | None \<Rightarrow> Some (idx, qsort cmp_result (radius_scan radius (unat max_results) (flat_cands idx query) [])))"

section \<open>Filtered search\<close>

text \<open>\<^verbatim>\<open>fheap_push\<close> and the loop of \<^verbatim>\<open>flat_search_filtered\<close> have the text of the unfiltered search; a null filter accepts all ids.\<close>

definition passes :: "(u64 \<Rightarrow> bool) option \<Rightarrow> u64 \<Rightarrow> bool" where
  "passes flt i = (case flt of None \<Rightarrow> True | Some f \<Rightarrow> f i)"

definition flat_search_filtered :: "qsort_fn \<Rightarrow> vec_index \<Rightarrow> vec \<Rightarrow> nat \<Rightarrow> (u64 \<Rightarrow> bool) option \<Rightarrow> vec_result list" where
  "flat_search_filtered qsort idx query k flt =
     (let cands = flat_cands idx query; active = length cands mod 2 ^ 32;
          k' = (if active = 0 \<or> k > active then active else k)
      in if k' = 0 then []
         else qsort cmp_result
                (map result_of_cand (fold (top_k_step k') (filter (\<lambda>e. passes flt (snd e)) cands) [])))"

definition hnsw_search_filtered ::
  "hnsw_index \<Rightarrow> vec \<Rightarrow> u32 \<Rightarrow> (u64 \<Rightarrow> bool) option \<Rightarrow> (hnsw_index \<times> vec_result list) option" where
  "hnsw_search_filtered h query k flt =
     (let ef0 = sint (k * 4);
          ef1 = (if ef0 < h_ef_search h then h_ef_search h else ef0);
          ef = (if ef1 > int (element_count h) then int (element_count h) else ef1)
      in if ef = 0 then Some (h, [])
         else map_option (\<lambda>(h', rs). (h', take (nat (sint k)) (filter (\<lambda>r. passes flt (r_id r)) rs)))
                (hnsw_search h query ef))"

definition kanbudb_vec_search_filtered ::
  "qsort_fn \<Rightarrow> vec_index \<Rightarrow> vec \<Rightarrow> u32 \<Rightarrow> (u64 \<Rightarrow> bool) option \<Rightarrow> (vec_index \<times> (vec_rc + vec_result list)) option" where
  "kanbudb_vec_search_filtered qsort idx query k flt =
     (if k = 0 then Some (idx, Inl KANBUDB_VEC_ERR_OOM)
      else case algo_data idx of
        Some h \<Rightarrow> map_option (\<lambda>(h', rs). (idx\<lparr>algo_data := Some h'\<rparr>, Inr rs)) (hnsw_search_filtered h query k flt)
      | None \<Rightarrow> Some (idx, Inr (flat_search_filtered qsort idx query (unat k) flt)))"

section \<open>Information\<close>

definition kanbudb_vec_count :: "vec_index \<Rightarrow> nat" where
  "kanbudb_vec_count idx = (case algo_data idx of Some h \<Rightarrow> hnsw_count h | None \<Rightarrow> flat_count idx)"

definition kanbudb_vec_dimension :: "vec_index \<Rightarrow> int" where
  "kanbudb_vec_dimension idx = sint (p_dimension (v_params idx))"

record vec_stats =
  s_count :: nat
  s_capacity :: nat
  s_memory_bytes :: nat
  s_dimension :: u32

text \<open>The sizes of the two structures are those of the build.\<close>

definition kanbudb_vec_stats :: "nat \<Rightarrow> nat \<Rightarrow> vec_index \<Rightarrow> vec_stats" where
  "kanbudb_vec_stats index_size hnsw_size idx =
     (case algo_data idx of
        Some h \<Rightarrow> \<lparr>s_count = hnsw_count h, s_capacity = 0, s_memory_bytes = index_size + hnsw_size,
                   s_dimension = p_dimension (v_params idx)\<rparr>
      | None \<Rightarrow> \<lparr>s_count = flat_count idx, s_capacity = flat_capacity idx,
                 s_memory_bytes = flat_capacity idx * dimension idx * 4 + flat_capacity idx * 8 + flat_capacity idx + index_size,
                 s_dimension = p_dimension (v_params idx)\<rparr>)"

end
