(* ===== verification/Hnsw_Correct.thy ===== *)
theory Hnsw_Correct
  imports Hnsw
begin

text \<open>
  Proofs about the searches of \<open>Hnsw\<close>: the heaps, the search of a layer (it stays inside its arrays, visits only what is
  reachable, and keeps the nearest of what it visits) and the greedy search (it ends in a local optimum).
\<close>

section \<open>Heaps\<close>

lemma mset_pop_root:
  assumes "h \<noteq> []"
  shows "add_mset (h ! 0) (mset (let g = butlast h in if g = [] then [] else sift_down lt (g[0 := last h]) 0)) = mset h"
proof (cases "butlast h = []")
  case True
  with assms show ?thesis by (cases h) (auto split: if_splits)
next
  case False
  obtain x g where g: "butlast h = x # g" using False by (cases "butlast h") auto
  have h: "h = x # g @ [last h]" using assms g by (metis append_Cons append_butlast_last_id)
  have "h ! 0 = x" by (subst h) simp
  moreover have "mset h = add_mset x (add_mset (last h) (mset g))" by (subst h) simp
  ultimately show ?thesis by (simp add: g)
qed

lemma mset_cand_push [simp]: "mset (cand_push h d n) = add_mset (d, n) (mset h)"
  by (simp add: cand_push_def)

lemma mset_res_push [simp]: "mset (res_push h d n) = add_mset (d, n) (mset h)"
  by (simp add: res_push_def)

lemma mset_cand_pop: "h \<noteq> [] \<Longrightarrow> mset h = add_mset (fst (cand_pop h)) (mset (snd (cand_pop h)))"
  using mset_pop_root [of h near] by (simp add: cand_pop_def)

lemma mset_res_pop: "h \<noteq> [] \<Longrightarrow> mset h = add_mset (fst (res_pop h)) (mset (snd (res_pop h)))"
  using mset_pop_root [of h far] by (simp add: res_pop_def)

lemma set_mset_add: "mset ys = add_mset x (mset xs) \<Longrightarrow> set ys = insert x (set xs)"
  by (metis set_mset_add_mset_insert set_mset_mset)

lemma distinct_mset_add: "mset ys = add_mset x (mset xs) \<Longrightarrow> distinct ys \<longleftrightarrow> x \<notin> set xs \<and> distinct xs"
  by (metis distinct.simps(2) mset.simps(2) mset_eq_imp_distinct_iff)

text \<open>The result heap keeps the farthest entry at its root.\<close>

lemma res_push_heap:
  assumes "maxh.is_heap h" and "\<forall>c\<in>set h. cand_ok c" and "\<not> f_nan d"
  shows "maxh.is_heap (res_push h d n)"
  unfolding res_push_def using assms
  by (intro maxh.sift_up_heap maxh.heap_above_snoc) (auto simp: cand_ok_def)

lemma pop_heap_aux:
  assumes "maxh.is_heap h" and "\<forall>c\<in>set h. cand_ok c" and "butlast h \<noteq> []"
  shows "maxh.is_heap (sift_down far ((butlast h)[0 := last h]) 0)"
proof (rule maxh.sift_down_heap)
  show "maxh.heap_but 0 0 ((butlast h)[0 := last h])"
    using assms maxh.heap_but_replace_root maxh.is_heap_butlast by blast
  have "last h \<in> set h" using assms(3) by (cases h) auto
  then have "set ((butlast h)[0 := last h]) \<subseteq> set h"
    using set_update_subset_insert [of "butlast h" 0 "last h"] by (blast dest: in_set_butlastD)
  then show "\<forall>c\<in>set ((butlast h)[0 := last h]). cand_ok c" using assms(2) by blast
qed

lemma res_pop_heap:
  "maxh.is_heap h \<Longrightarrow> \<forall>c\<in>set h. cand_ok c \<Longrightarrow> maxh.is_heap (snd (res_pop h))"
  using pop_heap_aux [of h] by (auto simp: res_pop_def Let_def maxh.heap_from_def maxh.edge_def)

lemma res_peek_farthest:
  "maxh.is_heap h \<Longrightarrow> c \<in> set h \<Longrightarrow> f_key (fst c) \<le> f_key (fst (res_peek h))"
  using maxh.root_least [of h] by (fastforce simp: res_peek_def in_set_conv_nth)

lemma maxh_Nil [simp]: "maxh.is_heap []"
  by (simp add: maxh.heap_from_def maxh.edge_def)

section \<open>Searching a layer\<close>

text \<open>An edge that the search follows: a link to a node that is in use and not deleted.\<close>

definition step :: "hnsw_index \<Rightarrow> nat \<Rightarrow> (nat \<times> nat) set" where
  "step idx layer = {(a, b). b \<in> set (links idx ! layer ! a) \<and> \<not> n_deleted (nodes idx ! b)}"

definition entry :: "hnsw_index \<Rightarrow> vec \<Rightarrow> nat \<Rightarrow> nat cand" where
  "entry idx query n = (node_dist idx query n, n)"

definition marked :: "int \<Rightarrow> int list \<Rightarrow> nat set" where
  "marked tag vis = {i. i < length vis \<and> vis ! i = tag}"

definition entries_of :: "hnsw_index \<Rightarrow> vec \<Rightarrow> nat set \<Rightarrow> nat cand list \<Rightarrow> bool" where
  "entries_of idx query V xs \<longleftrightarrow> distinct xs \<and> set xs \<subseteq> entry idx query ` V"

lemma entry_eq [simp]: "entry idx query m = entry idx query n \<longleftrightarrow> m = n"
  by (auto simp: entry_def)

lemma snd_entry [simp]: "snd (entry idx query n) = n"
  by (simp add: entry_def)

lemma marked_update [simp]: "n < length vis \<Longrightarrow> marked tag (vis[n := tag]) = insert n (marked tag vis)"
  by (auto simp: marked_def nth_list_update)

lemma finite_marked [simp]: "finite (marked tag vis)"
  by (simp add: marked_def)

lemma entries_snd:
  assumes "entries_of idx query V xs"
  shows "snd ` set xs \<subseteq> V"
proof
  fix n assume "n \<in> snd ` set xs"
  then obtain x where "x \<in> set xs" "n = snd x" by blast
  then obtain m where "x = entry idx query m" "m \<in> V" using assms unfolding entries_of_def by blast
  then show "n \<in> V" using \<open>n = snd x\<close> by simp
qed

lemma entries_of_add:
  assumes "mset ys = add_mset x (mset xs)" and "entries_of idx query V xs" and "x = entry idx query n" and "n \<notin> V"
  shows "entries_of idx query (insert n V) ys"
  using assms set_mset_add [OF assms(1)] distinct_mset_add [OF assms(1)]
  by (auto simp: entries_of_def)

lemma entries_of_remove:
  "mset ys = add_mset x (mset xs) \<Longrightarrow> entries_of idx query V ys \<Longrightarrow> entries_of idx query V xs"
  using set_mset_add [of ys x xs] distinct_mset_add [of ys x xs] by (simp add: entries_of_def)

lemma entries_of_mono: "entries_of idx query V xs \<Longrightarrow> V \<subseteq> W \<Longrightarrow> entries_of idx query W xs"
  unfolding entries_of_def by blast

lemma entries_of_length:
  assumes "entries_of idx query V xs" and "finite V"
  shows "length xs \<le> card V"
proof -
  have "length xs = card (set xs)" using assms by (simp add: entries_of_def distinct_card)
  also have "\<dots> \<le> card (entry idx query ` V)" using assms by (auto simp: entries_of_def intro: card_mono)
  also have "\<dots> \<le> card V" using assms(2) by (rule card_image_le)
  finally show ?thesis .
qed

text \<open>What holds in every round of the loop of \<^verbatim>\<open>hnsw_search_layer\<close>.\<close>

definition ls_inv :: "hnsw_index \<Rightarrow> vec \<Rightarrow> int \<Rightarrow> nat \<Rightarrow> nat \<Rightarrow> int \<Rightarrow> layer_state \<Rightarrow> bool" where
  "ls_inv idx query ef layer ep tag st \<longleftrightarrow>
     (case st of (vis, cands, res) \<Rightarrow>
        length vis = max_elements idx \<and> (\<forall>v\<in>set vis. 0 \<le> v \<and> v \<le> tag) \<and> ep \<in> marked tag vis \<and>
        marked tag vis \<subseteq> {n. n < element_count idx \<and> (ep, n) \<in> (step idx layer)\<^sup>*} \<and>
        entries_of idx query (marked tag vis) cands \<and> entries_of idx query (marked tag vis) res \<and>
        res \<noteq> [] \<and> int (length res) \<le> ef)"

text \<open>The effect of one neighbour on the result heap.\<close>

definition res_step :: "int \<Rightarrow> nat cand list \<Rightarrow> f32 \<Rightarrow> nat \<Rightarrow> nat cand list" where
  "res_step ef res d n =
     (if int (length res) < ef \<or> f_less d (fst (res_peek res)) then
        (let r = res_push res d n in if int (length r) > ef then snd (res_pop r) else r)
      else res)"

lemma res_step_entries:
  assumes "entries_of idx query V res" and "n \<notin> V"
  shows "entries_of idx query (insert n V) (res_step ef res (node_dist idx query n) n)"
proof -
  let ?r = "res_push res (node_dist idx query n) n"
  have r: "entries_of idx query (insert n V) ?r"
    using assms by (intro entries_of_add [of ?r "(node_dist idx query n, n)" res]) (auto simp: entry_def)
  have "?r \<noteq> []" by (metis length_res_push list.size(3) nat.distinct(1))
  then have "entries_of idx query (insert n V) (snd (res_pop ?r))"
    using r mset_res_pop [of ?r] entries_of_remove by blast
  with r assms(1) show ?thesis
    by (auto simp: res_step_def Let_def intro: entries_of_mono)
qed

lemma res_step_length:
  assumes "int (length res) \<le> ef" and "res \<noteq> []"
  shows "int (length (res_step ef res d n)) \<le> ef \<and> res_step ef res d n \<noteq> []"
proof -
  have "length res > 0" using assms(2) by simp
  with assms(1) show ?thesis
    by (auto simp: res_step_def Let_def simp flip: length_greater_0_conv)
qed

text \<open>One neighbour: the scan does not leave its arrays and keeps the invariant.\<close>

lemma scan_visit:
  assumes inv: "ls_inv idx query ef layer ep tag (vis, cands, res)"
    and n: "n < element_count idx" "vis ! n \<noteq> tag" "\<not> n_deleted (nodes idx ! n)"
    and count: "element_count idx \<le> max_elements idx"
  shows "scan_neighbors idx query ef tag (n # ns) (vis, cands, res) =
    scan_neighbors idx query ef tag ns
      (vis[n := tag], cand_push cands (node_dist idx query n) n, res_step ef res (node_dist idx query n) n)"
proof -
  have len: "length vis = max_elements idx" "int (length res) \<le> ef" using inv by (auto simp: ls_inv_def)
  have "n \<notin> marked tag vis" "marked tag vis \<subseteq> {..<max_elements idx}"
    using n len by (auto simp: marked_def)
  then have "card (insert n (marked tag vis)) \<le> card {..<max_elements idx}"
    using n count by (intro card_mono) auto
  then have "card (marked tag vis) < max_elements idx" using \<open>n \<notin> marked tag vis\<close> by simp
  moreover have "length cands \<le> card (marked tag vis)"
    using inv by (auto simp: ls_inv_def intro: entries_of_length)
  ultimately have "length cands < max_elements idx" by simp
  then show ?thesis using n count len by (simp add: res_step_def Let_def)
qed

lemma ls_inv_visit:
  assumes inv: "ls_inv idx query ef layer ep tag (vis, cands, res)"
    and n: "n < element_count idx" "vis ! n \<noteq> tag" "\<not> n_deleted (nodes idx ! n)"
    and count: "element_count idx \<le> max_elements idx"
    and a: "(ep, a) \<in> (step idx layer)\<^sup>*" "n \<in> set (links idx ! layer ! a)"
  shows "ls_inv idx query ef layer ep tag
    (vis[n := tag], cand_push cands (node_dist idx query n) n, res_step ef res (node_dist idx query n) n)"
proof -
  have reach: "(ep, n) \<in> (step idx layer)\<^sup>*"
    using a n(3) by (auto simp: step_def intro: rtrancl_into_rtrancl)
  have len: "n < length vis" "n \<notin> marked tag vis" using inv n count by (auto simp: ls_inv_def marked_def)
  have "entries_of idx query (insert n (marked tag vis)) (cand_push cands (node_dist idx query n) n)"
    using inv len by (intro entries_of_add [where xs = cands]) (auto simp: ls_inv_def entry_def)
  moreover have "entries_of idx query (insert n (marked tag vis)) (res_step ef res (node_dist idx query n) n)"
    using inv len by (intro res_step_entries) (auto simp: ls_inv_def)
  moreover note res_step_length [of res ef "node_dist idx query n" n]
  moreover have "tag \<in> set vis" using inv by (auto simp: ls_inv_def marked_def)
  then have "\<forall>v\<in>set (vis[n := tag]). 0 \<le> v \<and> v \<le> tag"
    using inv set_update_subset_insert [of vis n tag] by (auto simp: ls_inv_def)
  ultimately show ?thesis using inv len reach n(1) by (simp add: ls_inv_def)
qed

text \<open>
  The result heap holds the nearest of the visited nodes: whatever is visited and not in it is at least as far as
  everything in it, and the heap is full. This needs distances that are not NaN.
\<close>

definition nearest_of :: "hnsw_index \<Rightarrow> vec \<Rightarrow> nat set \<Rightarrow> int \<Rightarrow> nat cand list \<Rightarrow> bool" where
  "nearest_of idx query V ef res \<longleftrightarrow>
     (\<forall>n\<in>V. entry idx query n \<in> set res \<or>
        int (length res) = ef \<and> (\<forall>c\<in>set res. f_key (fst c) \<le> f_key (node_dist idx query n)))"

definition no_nan :: "hnsw_index \<Rightarrow> vec \<Rightarrow> bool" where
  "no_nan idx query \<longleftrightarrow> (\<forall>n<element_count idx. \<not> f_nan (node_dist idx query n))"

definition ls_best :: "hnsw_index \<Rightarrow> vec \<Rightarrow> int \<Rightarrow> int \<Rightarrow> layer_state \<Rightarrow> bool" where
  "ls_best idx query ef tag st \<longleftrightarrow>
     (case st of (vis, cands, res) \<Rightarrow> maxh.is_heap res \<and> nearest_of idx query (marked tag vis) ef res)"

lemma entries_cand_ok:
  assumes "entries_of idx query V xs" and "V \<subseteq> {..<element_count idx}" and "no_nan idx query"
  shows "\<forall>c\<in>set xs. cand_ok c"
proof
  fix c assume "c \<in> set xs"
  then obtain n where "n \<in> V" "c = entry idx query n" using assms(1) unfolding entries_of_def by blast
  then show "cand_ok c" using assms(2,3) by (auto simp: cand_ok_def entry_def no_nan_def)
qed

lemma res_pop_best:
  assumes heap: "maxh.is_heap r" and "r \<noteq> []" and c: "c \<in> set (snd (res_pop r))"
  shows "f_key (fst c) \<le> f_key (fst (fst (res_pop r)))"
proof -
  have "c \<in> set r" using c set_mset_add [OF mset_res_pop [OF \<open>r \<noteq> []\<close>]] by simp
  then show ?thesis using res_peek_farthest [OF heap] by (simp add: res_pop_def res_peek_def)
qed

lemma res_step_best:
  assumes ent: "entries_of idx query V res" and sub: "insert n V \<subseteq> {..<element_count idx}" and nV: "n \<notin> V"
    and nan: "no_nan idx query" and ne: "res \<noteq> []" and len: "int (length res) \<le> ef"
    and heap: "maxh.is_heap res" and best: "nearest_of idx query V ef res"
  defines "d \<equiv> node_dist idx query n"
  shows "maxh.is_heap (res_step ef res d n) \<and> nearest_of idx query (insert n V) ef (res_step ef res d n)"
proof -
  have ok: "\<forall>c\<in>set res. cand_ok c" and dn: "\<not> f_nan d"
    using entries_cand_ok [OF ent] sub nan by (auto simp: no_nan_def d_def)
  have peek: "res_peek res \<in> set res" using ne by (simp add: res_peek_def)
  let ?r = "res_push res d n"
  have hr: "maxh.is_heap ?r" using heap ok dn by (rule res_push_heap)
  have sr: "set ?r = insert (d, n) (set res)" using set_mset_add [of ?r "(d, n)" res] by simp
  have okr: "\<forall>c\<in>set ?r. cand_ok c" using ok dn sr by (auto simp: cand_ok_def)
  have en: "entry idx query n = (d, n)" by (simp add: entry_def d_def)
  consider (room) "int (length res) < ef"
    | (swap) "int (length res) = ef" "f_less d (fst (res_peek res))"
    | (out) "int (length res) = ef" "\<not> f_less d (fst (res_peek res))"
    using len by linarith
  then show ?thesis
  proof cases
    case room
    then have "res_step ef res d n = ?r" by (simp add: res_step_def Let_def)
    moreover have "nearest_of idx query (insert n V) ef ?r"
      using room best sr en by (auto simp: nearest_of_def)
    ultimately show ?thesis using hr by simp
  next
    case swap
    have ner: "?r \<noteq> []" using sr by auto
    have st: "res_step ef res d n = snd (res_pop ?r)" using swap by (simp add: res_step_def Let_def)
    have pops: "set ?r = insert (fst (res_pop ?r)) (set (snd (res_pop ?r)))"
      by (rule set_mset_add [OF mset_res_pop [OF ner]])
    have lenr: "int (length (snd (res_pop ?r))) = ef" using swap by simp
    have far: "f_key (fst c) \<le> f_key (node_dist idx query m)"
      if m: "m \<in> insert n V" "entry idx query m \<notin> set (snd (res_pop ?r))" and c: "c \<in> set (snd (res_pop ?r))" for m c
    proof (cases "entry idx query m \<in> set ?r")
      case True
      then have "entry idx query m = fst (res_pop ?r)" using m(2) pops by simp
      then have "fst (fst (res_pop ?r)) = node_dist idx query m" by (metis entry_def fst_conv)
      then show ?thesis using res_pop_best [OF hr ner c] by simp
    next
      case False
      then have "m \<in> V" "entry idx query m \<notin> set res" using m(1) sr en by auto
      then have all: "\<forall>c\<in>set res. f_key (fst c) \<le> f_key (node_dist idx query m)" using best by (auto simp: nearest_of_def)
      have "c \<in> insert (d, n) (set res)" using c pops sr by blast
      moreover have "f_key d < f_key (fst (res_peek res))" using swap(2) by (rule f_less_key)
      ultimately show ?thesis using all peek by fastforce
    qed
    then have "nearest_of idx query (insert n V) ef (snd (res_pop ?r))"
      using lenr by (auto simp: nearest_of_def)
    then show ?thesis using st res_pop_heap [OF hr okr] by simp
  next
    case out
    then have st: "res_step ef res d n = res" by (simp add: res_step_def)
    have "f_key (fst (res_peek res)) \<le> f_key d" using out(2) dn ok peek by (auto simp: f_less_def cand_ok_def)
    then have "\<forall>c\<in>set res. f_key (fst c) \<le> f_key d" using res_peek_farthest [OF heap] by fastforce
    then have "nearest_of idx query (insert n V) ef res" using out(1) best by (auto simp: nearest_of_def d_def)
    then show ?thesis using st heap by simp
  qed
qed

lemma ls_best_visit:
  assumes "ls_inv idx query ef layer ep tag (vis, cands, res)" and "ls_best idx query ef tag (vis, cands, res)"
    and "n < element_count idx" "vis ! n \<noteq> tag" "element_count idx \<le> max_elements idx" and "no_nan idx query"
  shows "ls_best idx query ef tag (vis[n := tag], cands', res_step ef res (node_dist idx query n) n)"
proof -
  have "n \<notin> marked tag vis" "n < length vis" using assms by (auto simp: marked_def ls_inv_def)
  moreover have "insert n (marked tag vis) \<subseteq> {..<element_count idx}" using assms by (auto simp: ls_inv_def)
  ultimately show ?thesis
    using assms res_step_best [of idx query "marked tag vis" res n ef] by (simp add: ls_best_def ls_inv_def)
qed

text \<open>
  The scan of the neighbours of a node \<open>a\<close> that the search has reached: no array is left, all live
  neighbours are marked, and the newly marked ones are candidates.
\<close>

definition scan_post :: "hnsw_index \<Rightarrow> vec \<Rightarrow> int \<Rightarrow> nat \<Rightarrow> nat \<Rightarrow> int \<Rightarrow> nat list \<Rightarrow> layer_state \<Rightarrow> layer_state \<Rightarrow> bool" where
  "scan_post idx query ef layer ep tag ns st st' \<longleftrightarrow>
     ls_inv idx query ef layer ep tag st' \<and>
     (no_nan idx query \<longrightarrow> ls_best idx query ef tag st \<longrightarrow> ls_best idx query ef tag st') \<and>
     marked tag (fst st) \<subseteq> marked tag (fst st') \<and> set (fst (snd st)) \<subseteq> set (fst (snd st')) \<and>
     (\<forall>m\<in>marked tag (fst st'). m \<in> marked tag (fst st) \<or> entry idx query m \<in> set (fst (snd st'))) \<and>
     (\<forall>n\<in>set ns. n_deleted (nodes idx ! n) \<or> n \<in> marked tag (fst st'))"

lemma scan_post_trans:
  "scan_post idx query ef layer ep tag ns st1 st2 \<Longrightarrow> scan_post idx query ef layer ep tag ms st2 st3 \<Longrightarrow>
     scan_post idx query ef layer ep tag (ns @ ms) st1 st3"
  unfolding scan_post_def by (simp add: ball_Un) blast

lemma scan_neighbors_ok:
  assumes "ls_inv idx query ef layer ep tag st" and "element_count idx \<le> max_elements idx"
    and "(ep, a) \<in> (step idx layer)\<^sup>*" and "set ns \<subseteq> set (links idx ! layer ! a)"
    and "\<forall>n\<in>set ns. n < element_count idx"
  shows "\<exists>st'. scan_neighbors idx query ef tag ns st = Some st' \<and> scan_post idx query ef layer ep tag ns st st'"
  using assms
proof (induction ns arbitrary: st)
  case Nil
  then show ?case by (auto simp: scan_post_def)
next
  case (Cons n ns)
  obtain vis cands res where st: "st = (vis, cands, res)" by (cases st)
  have n: "n < element_count idx" "n < length vis" using Cons.prems by (auto simp: st ls_inv_def)
  show ?case
  proof (cases "vis ! n = tag \<or> n_deleted (nodes idx ! n)")
    case True
    then have "scan_neighbors idx query ef tag (n # ns) st = scan_neighbors idx query ef tag ns st"
      using n by (auto simp: st)
    moreover have "scan_post idx query ef layer ep tag [n] st st"
      using True n Cons.prems(1) by (auto simp: scan_post_def st marked_def)
    moreover obtain st' where "scan_neighbors idx query ef tag ns st = Some st'"
      "scan_post idx query ef layer ep tag ns st st'" using Cons.IH [of st] Cons.prems by auto
    ultimately show ?thesis using scan_post_trans [of idx query ef layer ep tag "[n]" st st ns st'] by simp
  next
    case False
    define st1 where "st1 = (vis[n := tag], cand_push cands (node_dist idx query n) n, res_step ef res (node_dist idx query n) n)"
    have inv1: "ls_inv idx query ef layer ep tag st1"
      using ls_inv_visit [of idx query ef layer ep tag vis cands res n a] False n Cons.prems by (simp add: st st1_def)
    have eq: "scan_neighbors idx query ef tag (n # ns) st = scan_neighbors idx query ef tag ns st1"
      using scan_visit [of idx query ef layer ep tag vis cands res n ns] False n Cons.prems by (simp add: st st1_def)
    have "set (cand_push cands (node_dist idx query n) n) = insert (node_dist idx query n, n) (set cands)"
      by (rule set_mset_add) simp
    then have post1: "scan_post idx query ef layer ep tag [n] st st1"
      using inv1 n ls_best_visit [of idx query ef layer ep tag vis cands res n] False Cons.prems
      by (auto simp: scan_post_def st st1_def entry_def)
    obtain st' where "scan_neighbors idx query ef tag ns st1 = Some st'"
      "scan_post idx query ef layer ep tag ns st1 st'" using Cons.IH [OF inv1] Cons.prems by auto
    with eq post1 show ?thesis using scan_post_trans [of idx query ef layer ep tag "[n]" st st1 ns st'] by simp
  qed
qed

text \<open>A layer of the graph that the search can walk: every node in use has a row of nodes in use.\<close>

definition layer_ok :: "hnsw_index \<Rightarrow> nat \<Rightarrow> bool" where
  "layer_ok idx l \<longleftrightarrow>
     length (links idx ! l) = max_elements idx \<and>
     (\<forall>i<max_elements idx. length (links idx ! l ! i) \<le> max_keep idx l \<and>
        (\<forall>n\<in>set (links idx ! l ! i). n < element_count idx) \<and>
        (element_count idx \<le> i \<longrightarrow> links idx ! l ! i = []))"

text \<open>A marked node is still a candidate, or all its live neighbours are marked.\<close>

definition ls_expanded :: "hnsw_index \<Rightarrow> vec \<Rightarrow> nat \<Rightarrow> int \<Rightarrow> layer_state \<Rightarrow> bool" where
  "ls_expanded idx query layer tag st \<longleftrightarrow>
     (\<forall>m\<in>marked tag (fst st). entry idx query m \<in> set (fst (snd st)) \<or>
        (\<forall>b. (m, b) \<in> step idx layer \<longrightarrow> b \<in> marked tag (fst st)))"

lemma ls_expanded_all:
  assumes "ls_inv idx query ef layer ep tag (vis, [], res)" and "ls_expanded idx query layer tag (vis, [], res)"
  shows "marked tag vis = (step idx layer)\<^sup>* `` {ep}"
proof -
  have "n \<in> marked tag vis" if "(ep, n) \<in> (step idx layer)\<^sup>*" for n
    using that
  proof (induction rule: rtrancl_induct)
    case base
    then show ?case using assms(1) by (simp add: ls_inv_def)
  next
    case (step y z)
    then show ?case using assms(2) by (auto simp: ls_expanded_def)
  qed
  then show ?thesis using assms(1) by (auto simp: ls_inv_def)
qed

lemma ls_inv_pop:
  assumes "ls_inv idx query ef layer ep tag (vis, cands, res)" and "cands \<noteq> []"
  obtains a where "fst (cand_pop cands) = entry idx query a" "a \<in> marked tag vis"
    "ls_inv idx query ef layer ep tag (vis, snd (cand_pop cands), res)"
    "set cands = insert (entry idx query a) (set (snd (cand_pop cands)))"
proof -
  have ent: "entries_of idx query (marked tag vis) cands" using assms(1) by (simp add: ls_inv_def)
  have sets: "set cands = insert (fst (cand_pop cands)) (set (snd (cand_pop cands)))"
    by (rule set_mset_add [OF mset_cand_pop [OF assms(2)]])
  then obtain a where a: "fst (cand_pop cands) = entry idx query a" "a \<in> marked tag vis"
    using ent by (auto simp: entries_of_def)
  moreover have "entries_of idx query (marked tag vis) (snd (cand_pop cands))"
    using ent mset_cand_pop [OF assms(2)] entries_of_remove by blast
  ultimately show thesis using that [of a] sets assms(1) by (simp add: ls_inv_def)
qed

lemma ls_expanded_step:
  assumes post: "scan_post idx query ef layer ep tag (links idx ! layer ! a) (vis, cands', res) st'"
    and exp: "ls_expanded idx query layer tag (vis, cands, res)"
    and cands: "set cands = insert (entry idx query a) (set cands')"
  shows "ls_expanded idx query layer tag st'"
proof -
  have "entry idx query m \<in> set (fst (snd st')) \<or> (\<forall>b. (m, b) \<in> step idx layer \<longrightarrow> b \<in> marked tag (fst st'))"
    if m: "m \<in> marked tag (fst st')" for m
  proof (cases "m = a")
    case True
    then show ?thesis using post by (auto simp: scan_post_def step_def)
  next
    case False
    show ?thesis
    proof (cases "m \<in> marked tag vis")
      case True
      then have "entry idx query m \<in> set cands' \<or> (\<forall>b. (m, b) \<in> step idx layer \<longrightarrow> b \<in> marked tag vis)"
        using exp cands False by (auto simp: ls_expanded_def)
      then show ?thesis using post by (auto simp: scan_post_def)
    next
      case False
      then show ?thesis using post m by (auto simp: scan_post_def)
    qed
  qed
  then show ?thesis by (simp add: ls_expanded_def)
qed

definition finite_dists :: "hnsw_index \<Rightarrow> vec \<Rightarrow> bool" where
  "finite_dists idx query \<longleftrightarrow> (\<forall>n<element_count idx. f_finite (node_dist idx query n))"

lemma finite_dists_no_nan: "finite_dists idx query \<Longrightarrow> no_nan idx query"
  by (simp add: finite_dists_def no_nan_def)

text \<open>
  The search of a layer as a whole: it ends, its results are the nearest of the marked nodes, and it has marked everything
  that can be reached unless the result heap is full.
\<close>

definition loop_post :: "hnsw_index \<Rightarrow> vec \<Rightarrow> int \<Rightarrow> nat \<Rightarrow> nat \<Rightarrow> int \<Rightarrow> layer_state \<Rightarrow> layer_state \<Rightarrow> bool" where
  "loop_post idx query ef layer ep tag st st' \<longleftrightarrow>
     ls_inv idx query ef layer ep tag st' \<and>
     (no_nan idx query \<longrightarrow> ls_best idx query ef tag st \<longrightarrow> ls_best idx query ef tag st') \<and>
     (finite_dists idx query \<longrightarrow> ls_expanded idx query layer tag st \<longrightarrow>
        marked tag (fst st') = (step idx layer)\<^sup>* `` {ep} \<or> int (length (snd (snd st'))) = ef)"

lemma search_loop_ok:
  assumes "ls_inv idx query ef layer ep tag st" and count: "element_count idx \<le> max_elements idx"
    and layer: "layer < length (links idx)" "layer_ok idx layer"
  shows "\<exists>st'. search_loop idx query ef layer tag st = Some st' \<and> loop_post idx query ef layer ep tag st st'"
  using assms(1)
proof (induction "unvisited tag (fst st) + length (fst (snd st))" arbitrary: st rule: less_induct)
  case less
  obtain vis cands res where st: "st = (vis, cands, res)" by (cases st)
  note inv = less.prems [unfolded st]
  show ?case
  proof (cases "cands = []")
    case True
    then have "search_loop idx query ef layer tag st = Some st" by (simp add: st search_loop.simps)
    moreover have "loop_post idx query ef layer ep tag st st"
      using True less.prems ls_expanded_all [of idx query ef layer ep tag vis res] by (auto simp: loop_post_def st)
    ultimately show ?thesis by blast
  next
    case ne: False
    obtain a where a: "fst (cand_pop cands) = entry idx query a" "a \<in> marked tag vis"
      "ls_inv idx query ef layer ep tag (vis, snd (cand_pop cands), res)"
      "set cands = insert (entry idx query a) (set (snd (cand_pop cands)))"
      by (rule ls_inv_pop [OF inv ne])
    define cands' where "cands' = snd (cand_pop cands)"
    have pop: "cand_pop cands = (entry idx query a, cands')" using a(1) by (simp add: cands'_def prod_eq_iff)
    define worst where "worst = (if int (length res) < ef then FLT_MAX else fst (res_peek res))"
    have an: "a < element_count idx" "(ep, a) \<in> (step idx layer)\<^sup>*" using a(2) inv by (auto simp: ls_inv_def)
    show ?thesis
    proof (cases "f_less worst (fst (entry idx query a))")
      case True
      then have "search_loop idx query ef layer tag st = Some (vis, cands', res)"
        using ne pop by (simp add: st search_loop.simps worst_def [symmetric])
      moreover have "int (length res) = ef" if "finite_dists idx query"
        using True that an f_finite_not_above inv by (auto simp: worst_def entry_def finite_dists_def ls_inv_def split: if_splits)
      then have "loop_post idx query ef layer ep tag st (vis, cands', res)"
        using a(3) by (simp add: loop_post_def st ls_best_def cands'_def)
      ultimately show ?thesis by blast
    next
      case False
      let ?row = "links idx ! layer ! a"
      have row: "a < length (links idx ! layer)" "\<forall>n\<in>set ?row. n < element_count idx"
        using layer(2) less_le_trans [OF an(1) count] by (simp_all add: layer_ok_def)
      obtain st1 where st1: "scan_neighbors idx query ef tag ?row (vis, cands', res) = Some st1"
        "scan_post idx query ef layer ep tag ?row (vis, cands', res) st1"
        using scan_neighbors_ok [OF _ count an(2), of query ef tag "(vis, cands', res)" ?row] a(3) row
        by (auto simp: cands'_def)
      obtain vis1 cands1 res1 where st1c: "st1 = (vis1, cands1, res1)" by (cases st1)
      have "unvisited tag vis1 + length cands1 = unvisited tag vis + length cands'"
        using st1(1) scan_neighbors_measure by (simp add: st1c)
      moreover have "length cands' < length cands" using ne by (simp add: cands'_def)
      ultimately obtain st2 where st2: "search_loop idx query ef layer tag st1 = Some st2"
        "loop_post idx query ef layer ep tag st1 st2"
        using less.hyps [of st1] st1(2) by (auto simp: st1c st scan_post_def)
      have "search_loop idx query ef layer tag st = Some st2"
        using False ne pop layer(1) row(1) st1(1) st2(1) an
        by (simp add: st search_loop.simps [of idx query ef layer tag vis cands res] worst_def [symmetric])
      moreover have "ls_expanded idx query layer tag st1" if "ls_expanded idx query layer tag st"
        using ls_expanded_step [OF st1(2), of cands] that a(4) by (simp add: st cands'_def)
      then have "loop_post idx query ef layer ep tag st st2"
        using st1(2) st2(2) by (auto simp: loop_post_def scan_post_def st ls_best_def)
      ultimately show ?thesis by blast
    qed
  qed
qed

section \<open>The sorted results\<close>

abbreviation by_key :: "'n cand list \<Rightarrow> bool" where
  "by_key xs \<equiv> sorted (map (f_key \<circ> fst) xs)"

lemma mset_ins_back [simp]: "mset (ins_back x ys) = add_mset x (mset ys)"
  by (induction ys) auto

lemma set_ins_back [simp]: "set (ins_back x ys) = insert x (set ys)"
  by (rule set_mset_add) simp

lemma ins_back_sorted:
  "sorted_wrt (\<lambda>a b. f_key (fst b) \<le> f_key (fst a)) ys \<Longrightarrow> \<forall>c\<in>insert x (set ys). cand_ok c \<Longrightarrow>
     sorted_wrt (\<lambda>a b. f_key (fst b) \<le> f_key (fst a)) (ins_back x ys)"
proof (induction ys)
  case (Cons y ys)
  then show ?case by (auto simp: f_less_def cand_ok_def dest: order_trans)
qed simp

lemma fold_ins_back:
  "sorted_wrt (\<lambda>a b. f_key (fst b) \<le> f_key (fst a)) acc \<Longrightarrow> \<forall>c\<in>set xs \<union> set acc. cand_ok c \<Longrightarrow>
     sorted_wrt (\<lambda>a b. f_key (fst b) \<le> f_key (fst a)) (fold ins_back xs acc)"
proof (induction xs arbitrary: acc)
  case (Cons x xs)
  then show ?case using ins_back_sorted [of acc x] by simp
qed simp

lemma mset_fold_ins_back: "mset (fold ins_back xs acc) = mset xs + mset acc"
  by (induction xs arbitrary: acc) auto

lemma mset_insertion_sort [simp]: "mset (insertion_sort xs) = mset xs"
  by (simp add: insertion_sort_def mset_fold_ins_back)

lemma insertion_sort_sorted: "\<forall>c\<in>set xs. cand_ok c \<Longrightarrow> by_key (insertion_sort xs)"
  using fold_ins_back [of "[]" xs]
  by (simp add: insertion_sort_def sorted_wrt_rev sorted_wrt_map rev_map [symmetric] del: rev_map)

text \<open>What a caller of \<^verbatim>\<open>hnsw_search_layer\<close> knows of the results.\<close>

definition layer_found :: "hnsw_index \<Rightarrow> vec \<Rightarrow> int \<Rightarrow> nat \<Rightarrow> nat \<Rightarrow> nat set \<Rightarrow> nat cand list \<Rightarrow> bool" where
  "layer_found idx query ef layer ep V found \<longleftrightarrow>
     ep \<in> V \<and> V \<subseteq> {n. n < element_count idx \<and> (ep, n) \<in> (step idx layer)\<^sup>*} \<and>
     entries_of idx query V found \<and> found \<noteq> [] \<and> int (length found) \<le> ef \<and>
     (no_nan idx query \<longrightarrow> by_key found \<and> nearest_of idx query V ef found) \<and>
     (finite_dists idx query \<longrightarrow> V = (step idx layer)\<^sup>* `` {ep} \<or> int (length found) = ef)"

definition visited_ok :: "hnsw_index \<Rightarrow> bool" where
  "visited_ok idx \<longleftrightarrow> length (visited idx) = max_elements idx \<and> 0 \<le> visit_tag idx \<and> visit_tag idx \<le> 2147483647 \<and>
     (\<forall>v\<in>set (visited idx). 0 \<le> v \<and> v \<le> visit_tag idx)"

lemma next_tag_fresh:
  assumes "visited_ok idx"
  shows "visited_ok (next_tag idx)" "1 \<le> visit_tag (next_tag idx)" "\<forall>v\<in>set (visited (next_tag idx)). v < visit_tag (next_tag idx)"
  using assms by (auto simp: visited_ok_def next_tag_def Let_def)

lemma next_tag_same:
  "\<exists>vis t. next_tag idx = idx\<lparr>visited := vis, visit_tag := t\<rparr>"
proof (cases "visit_tag idx + 1 \<le> 0 \<or> visit_tag idx = 2147483647")
  case True
  then have "next_tag idx = idx\<lparr>visited := replicate (max_elements idx) 0, visit_tag := 1\<rparr>"
    by (auto simp: next_tag_def Let_def)
  then show ?thesis by blast
next
  case False
  then have "next_tag idx = idx\<lparr>visited := visited idx, visit_tag := visit_tag idx + 1\<rparr>"
    by (simp add: next_tag_def Let_def)
  then show ?thesis by blast
qed

text \<open>The fields that a search changes are invisible to everything else.\<close>

definition same_graph :: "hnsw_index \<Rightarrow> hnsw_index \<Rightarrow> bool" where
  "same_graph idx idx' \<longleftrightarrow> (\<exists>vis t. idx' = idx\<lparr>visited := vis, visit_tag := t\<rparr>)"

lemma same_graph_fields:
  assumes "same_graph idx idx'"
  shows "nodes idx' = nodes idx" "vector_pool idx' = vector_pool idx" "links idx' = links idx"
    "max_elements idx' = max_elements idx" "h_dist_func idx' = h_dist_func idx" "max_level idx' = max_level idx"
    "enterpoint_idx idx' = enterpoint_idx idx" "h_M idx' = h_M idx" "M_max idx' = M_max idx" "M_max0 idx' = M_max0 idx"
    "h_dim idx' = h_dim idx" "h_ef_construction idx' = h_ef_construction idx" "h_ef_search idx' = h_ef_search idx"
    "max_keep idx' = max_keep idx" "step idx' = step idx" "entry idx' = entry idx" "layer_ok idx' = layer_ok idx"
    "no_nan idx' = no_nan idx" "finite_dists idx' = finite_dists idx"
  using assms by (auto simp: same_graph_def max_keep_def step_def entry_def layer_ok_def no_nan_def finite_dists_def fun_eq_iff)

lemma same_graph_visited: "same_graph idx idx' \<Longrightarrow> same_graph idx (idx'\<lparr>visited := vis\<rparr>)"
proof -
  assume "same_graph idx idx'"
  then obtain v t where "idx' = idx\<lparr>visited := v, visit_tag := t\<rparr>" by (auto simp: same_graph_def)
  then have "idx'\<lparr>visited := vis\<rparr> = idx\<lparr>visited := vis, visit_tag := t\<rparr>" by simp
  then show ?thesis unfolding same_graph_def by blast
qed

lemma same_graph_specs:
  assumes "same_graph idx idx'"
  shows "entries_of idx' = entries_of idx" "nearest_of idx' = nearest_of idx" "layer_found idx' = layer_found idx"
  using same_graph_fields [OF assms]
  by (simp_all add: fun_eq_iff entries_of_def nearest_of_def layer_found_def)

lemma entries_of_mset: "mset xs = mset ys \<Longrightarrow> entries_of idx query V xs = entries_of idx query V ys"
  using mset_eq_setD [of xs ys] mset_eq_imp_distinct_iff [of xs ys] by (simp add: entries_of_def)

lemma nearest_of_mset: "mset xs = mset ys \<Longrightarrow> nearest_of idx query V ef xs = nearest_of idx query V ef ys"
  using mset_eq_setD [of xs ys] mset_eq_length [of xs ys] by (simp add: nearest_of_def)

lemma ls_inv_start:
  fixes query :: vec
  assumes vis: "visited_ok idx" "\<forall>v\<in>set (visited idx). v < visit_tag idx"
    and ep: "ep < element_count idx" "element_count idx \<le> max_elements idx" and ef: "1 \<le> ef"
  defines "st \<equiv> ((visited idx)[ep := visit_tag idx], cand_push [] (node_dist idx query ep) ep,
    res_push [] (node_dist idx query ep) ep)"
  shows "ls_inv idx query ef layer ep (visit_tag idx) st"
    and "no_nan idx query \<Longrightarrow> ls_best idx query ef (visit_tag idx) st"
    and "ls_expanded idx query layer (visit_tag idx) st"
proof -
  have epl: "ep < length (visited idx)" using vis ep by (simp add: visited_ok_def)
  have "marked (visit_tag idx) (visited idx) = {}" using vis(2) by (force simp: marked_def dest: nth_mem)
  then have m: "marked (visit_tag idx) ((visited idx)[ep := visit_tag idx]) = {ep}" using epl by simp
  have one: "cand_push [] (node_dist idx query ep) ep = [entry idx query ep]"
    "res_push [] (node_dist idx query ep) ep = [entry idx query ep]"
    by (simp_all add: cand_push_def res_push_def sift_up.simps entry_def)
  have "\<forall>v\<in>set ((visited idx)[ep := visit_tag idx]). 0 \<le> v \<and> v \<le> visit_tag idx"
    using vis set_update_subset_insert [of "visited idx" ep "visit_tag idx"] by (auto simp: visited_ok_def)
  then show "ls_inv idx query ef layer ep (visit_tag idx) st"
    using vis ep ef by (simp add: st_def ls_inv_def one entries_of_def visited_ok_def m del: marked_update)
  show "ls_expanded idx query layer (visit_tag idx) st"
    by (simp add: st_def ls_expanded_def m one del: marked_update)
  show "ls_best idx query ef (visit_tag idx) st" if "no_nan idx query"
    by (simp add: st_def ls_best_def m one nearest_of_def maxh.heap_from_def maxh.edge_def del: marked_update)
qed

lemma hnsw_search_layer_ok:
  assumes vis: "visited_ok idx" and ep: "ep < element_count idx" "element_count idx \<le> max_elements idx" and ef: "1 \<le> ef"
    and layer: "layer < length (links idx)" "layer_ok idx layer"
  shows "\<exists>idx' V found. hnsw_search_layer idx ep query ef layer = Some (idx', found) \<and>
    same_graph idx idx' \<and> visited_ok idx' \<and> layer_found idx query ef layer ep V found"
proof -
  define idx1 where "idx1 = next_tag idx"
  have sg: "same_graph idx idx1" using next_tag_same [of idx] by (simp add: same_graph_def idx1_def)
  note same = same_graph_fields [OF sg] same_graph_specs [OF sg]
  have v1: "visited_ok idx1" "\<forall>v\<in>set (visited idx1). v < visit_tag idx1" "1 \<le> visit_tag idx1"
    using next_tag_fresh [OF vis] by (simp_all add: idx1_def)
  define st where "st = ((visited idx1)[ep := visit_tag idx1], cand_push [] (node_dist idx1 query ep) ep,
    res_push [] (node_dist idx1 query ep) ep)"
  have start: "ls_inv idx1 query ef layer ep (visit_tag idx1) st"
    "no_nan idx1 query \<Longrightarrow> ls_best idx1 query ef (visit_tag idx1) st"
    "ls_expanded idx1 query layer (visit_tag idx1) st"
    using ls_inv_start [OF v1(1,2), of ep ef query] ep ef same by (simp_all add: st_def)
  obtain st' where st': "search_loop idx1 query ef layer (visit_tag idx1) st = Some st'"
    "loop_post idx1 query ef layer ep (visit_tag idx1) st st'"
    using search_loop_ok [OF start(1)] ep layer same by auto
  obtain vis' cands res where st'c: "st' = (vis', cands, res)" by (cases st')
  let ?V = "marked (visit_tag idx1) vis'"
  let ?idx' = "idx1\<lparr>visited := vis'\<rparr>"
  have inv: "ls_inv idx1 query ef layer ep (visit_tag idx1) (vis', cands, res)"
    using st'(2) by (simp add: loop_post_def st'c)
  have "hnsw_search_layer idx ep query ef layer = Some (?idx', insertion_sort res)"
  proof -
    have "nat (if int (length res) < ef then int (length res) else ef) = length res" using inv by (auto simp: ls_inv_def)
    then show ?thesis using st'(1) ep ef v1(1)
      by (simp add: hnsw_search_layer_def idx1_def [symmetric] st_def st'c Let_def visited_ok_def same)
  qed
  moreover have "visited_ok ?idx'" using v1(1) inv by (simp add: visited_ok_def ls_inv_def)
  moreover have "same_graph idx ?idx'" using sg by (rule same_graph_visited)
  moreover have "layer_found idx1 query ef layer ep ?V (insertion_sort res)"
  proof -
    have sub: "?V \<subseteq> {..<element_count idx1}" and ent: "entries_of idx1 query ?V res"
      using inv by (auto simp: ls_inv_def)
    have "by_key (insertion_sort res)" if "no_nan idx1 query"
      using insertion_sort_sorted entries_cand_ok [OF ent sub that] by blast
    moreover have "nearest_of idx1 query ?V ef (insertion_sort res)" if "no_nan idx1 query"
      using st'(2) start(2) that nearest_of_mset [of "insertion_sort res" res]
      by (simp add: loop_post_def ls_best_def st'c)
    moreover have "length (insertion_sort res) = length res" by (metis mset_insertion_sort size_mset)
    moreover have "insertion_sort res \<noteq> []" using inv calculation(3) by (auto simp: ls_inv_def)
    moreover have "entries_of idx1 query ?V (insertion_sort res)" using ent entries_of_mset [of "insertion_sort res" res] by simp
    ultimately show ?thesis
      using inv st'(2) start(3) by (simp add: layer_found_def ls_inv_def loop_post_def st'c)
  qed
  ultimately show ?thesis unfolding same_graph_specs(3) [OF sg] by blast
qed

section \<open>Greedy search\<close>

lemma greedy_scan_ok:
  "\<forall>n\<in>set ns. n < element_count idx \<Longrightarrow> \<exists>b' d' c'. greedy_scan idx query ns (b, d, c) = Some (b', d', c') \<and>
     (b' = b \<and> d' = d \<or> b' \<in> set ns \<and> \<not> n_deleted (nodes idx ! b') \<and> d' = node_dist idx query b') \<and>
     (\<not> c' \<longrightarrow> \<not> c \<and> b' = b \<and> (\<forall>n\<in>set ns. \<not> n_deleted (nodes idx ! n) \<longrightarrow> \<not> f_less (node_dist idx query n) d))"
proof (induction ns arbitrary: b d c)
  case (Cons n ns)
  show ?case
  proof (cases "\<not> n_deleted (nodes idx ! n) \<and> f_less (node_dist idx query n) d")
    case True
    obtain b' d' c' where "greedy_scan idx query ns (n, node_dist idx query n, True) = Some (b', d', c')"
      "b' = n \<and> d' = node_dist idx query n \<or> b' \<in> set ns \<and> \<not> n_deleted (nodes idx ! b') \<and> d' = node_dist idx query b'" "c'"
      using Cons.IH [of n "node_dist idx query n" True] Cons.prems by auto
    then show ?thesis using True Cons.prems by (auto simp: Let_def)
  next
    case False
    obtain b' d' c' where "greedy_scan idx query ns (b, d, c) = Some (b', d', c')"
      "b' = b \<and> d' = d \<or> b' \<in> set ns \<and> \<not> n_deleted (nodes idx ! b') \<and> d' = node_dist idx query b'"
      "\<not> c' \<longrightarrow> \<not> c \<and> b' = b \<and> (\<forall>n\<in>set ns. \<not> n_deleted (nodes idx ! n) \<longrightarrow> \<not> f_less (node_dist idx query n) d)"
      using Cons.IH [of b d c] Cons.prems by auto
    then show ?thesis using False Cons.prems by (auto simp: Let_def)
  qed
qed simp

definition local_best :: "hnsw_index \<Rightarrow> vec \<Rightarrow> nat \<Rightarrow> nat \<Rightarrow> nat \<Rightarrow> bool" where
  "local_best idx query layer ep b \<longleftrightarrow> b < element_count idx \<and> (ep, b) \<in> (step idx layer)\<^sup>* \<and>
     f_key (node_dist idx query b) \<le> f_key (node_dist idx query ep) \<and>
     (\<forall>n. (b, n) \<in> step idx layer \<longrightarrow> \<not> f_less (node_dist idx query n) (node_dist idx query b))"

lemma greedy_loop_ok:
  assumes layer: "layer < length (links idx)" "layer_ok idx layer" and count: "element_count idx \<le> max_elements idx"
    and b: "b < element_count idx" "(ep, b) \<in> (step idx layer)\<^sup>*"
      "f_key (node_dist idx query b) \<le> f_key (node_dist idx query ep)"
  shows "\<exists>r. greedy_loop idx query layer b (node_dist idx query b) = Some r \<and> local_best idx query layer ep r"
  using b
proof (induction "nat (f_key (node_dist idx query b) + 2147483648)" arbitrary: b rule: less_induct)
  case less
  let ?row = "links idx ! layer ! b"
  have row: "b < length (links idx ! layer)" "\<forall>n\<in>set ?row. n < element_count idx"
    using layer(2) less_le_trans [OF less.prems(1) count] by (simp_all add: layer_ok_def)
  obtain b' d' c' where scan: "greedy_scan idx query ?row (b, node_dist idx query b, False) = Some (b', d', c')"
    and res: "b' = b \<and> d' = node_dist idx query b \<or> b' \<in> set ?row \<and> \<not> n_deleted (nodes idx ! b') \<and> d' = node_dist idx query b'"
    and stop: "\<not> c' \<longrightarrow> b' = b \<and> (\<forall>n\<in>set ?row. \<not> n_deleted (nodes idx ! n) \<longrightarrow> \<not> f_less (node_dist idx query n) (node_dist idx query b))"
    using greedy_scan_ok [OF row(2), of query b "node_dist idx query b" False] by blast
  have dec: "f_key d' \<le> f_key (node_dist idx query b)" "c' \<longrightarrow> f_key d' < f_key (node_dist idx query b)"
    using greedy_scan_decreases [OF scan] by auto
  have eq: "greedy_loop idx query layer b (node_dist idx query b) =
    (if c' then greedy_loop idx query layer b' d' else Some b')"
    using layer(1) row(1) scan by (subst greedy_loop.simps) simp
  show ?case
  proof (cases c')
    case False
    then show ?thesis using eq stop less.prems by (auto simp: local_best_def step_def)
  next
    case True
    then have b': "b' \<in> set ?row" "\<not> n_deleted (nodes idx ! b')" "d' = node_dist idx query b'" using res dec by auto
    have "(ep, b') \<in> (step idx layer)\<^sup>*"
      using less.prems(2) b' by (auto simp: step_def intro: rtrancl_into_rtrancl)
    moreover have "nat (f_key (node_dist idx query b') + 2147483648) < nat (f_key (node_dist idx query b) + 2147483648)"
      using True dec(2) b'(3) f_key_lower [of "node_dist idx query b'"] by simp
    ultimately show ?thesis using less.hyps [of b'] True eq b' row(2) dec(1) less.prems(3) by auto
  qed
qed

lemma hnsw_greedy_search_ok:
  assumes "layer < length (links idx)" "layer_ok idx layer" "element_count idx \<le> max_elements idx" "ep < element_count idx"
  shows "\<exists>r. hnsw_greedy_search idx ep query layer = Some r \<and> local_best idx query layer ep r"
  using greedy_loop_ok [of layer idx ep ep query] assms by (simp add: hnsw_greedy_search_def)

lemma step_live: "(ep, n) \<in> (step idx layer)\<^sup>* \<Longrightarrow> n = ep \<or> \<not> n_deleted (nodes idx ! n)"
  by (erule rtranclE) (auto simp: step_def)

text \<open>The descent stays on live nodes if it starts on one.\<close>

lemma descend_layers_ok:
  assumes "\<forall>l\<in>set lcs. l < length (links idx) \<and> layer_ok idx l" and "element_count idx \<le> max_elements idx"
    and "ep < element_count idx" "\<not> n_deleted (nodes idx ! ep)"
  shows "\<exists>r. descend_layers idx query lcs ep = Some r \<and> r < element_count idx \<and> \<not> n_deleted (nodes idx ! r)"
  using assms
proof (induction lcs arbitrary: ep)
  case (Cons l lcs)
  obtain r where r: "hnsw_greedy_search idx ep query l = Some r" "local_best idx query l ep r"
    using hnsw_greedy_search_ok [of l idx ep query] Cons.prems by auto
  then have "r < element_count idx" "\<not> n_deleted (nodes idx ! r)"
    using step_live [of ep r idx l] Cons.prems by (auto simp: local_best_def)
  with r Cons show ?case by simp
qed simp

end
