(* ===== verification/Hnsw_Graph.thy ===== *)
theory Hnsw_Graph
  imports Hnsw_Correct
begin

text \<open>
  Proofs about the operations of \<open>Hnsw\<close>: links, insertion, the invariant of the graph under all operations, the behaviour of
  the index as a map from ids to vectors, the results of a search, and the isolation of nodes that are inserted above
  layer 0.
\<close>

section \<open>Links\<close>

text \<open>The invariant of the index.\<close>

definition slots_of :: "hnsw_index \<Rightarrow> slot list" where
  "slots_of idx = map (\<lambda>n. (n_id n, n_deleted n)) (nodes idx)"

fun entry_ok :: "nat option \<Rightarrow> hnsw_node list \<Rightarrow> nat list list list \<Rightarrow> bool" where
  "entry_ok None ns ls \<longleftrightarrow> (\<forall>n\<in>set ns. n_deleted n)"
| "entry_ok (Some e) ns ls \<longleftrightarrow> e < length ns \<and> \<not> n_deleted (ns ! e) \<and> ls \<noteq> []"

definition hnsw_inv :: "hnsw_index \<Rightarrow> bool" where
  "hnsw_inv idx \<longleftrightarrow>
     0 < h_M idx \<and> M_max idx = h_M idx \<and> M_max0 idx = 2 * h_M idx \<and> 0 < max_elements idx \<and>
     length (vector_pool idx) = element_count idx \<and> element_count idx \<le> max_elements idx \<and> visited_ok idx \<and>
     int (length (links idx)) = max_level idx + 1 \<and> (\<forall>l<length (links idx). layer_ok idx l) \<and>
     unique_slots (slots_of idx) \<and>
     entry_ok (enterpoint_idx idx) (nodes idx) (links idx)"

lemma layer_okD:
  assumes "layer_ok idx l"
  shows "length (links idx ! l) = max_elements idx"
    and "i < max_elements idx \<Longrightarrow> length (links idx ! l ! i) \<le> max_keep idx l"
    and "i < max_elements idx \<Longrightarrow> n \<in> set (links idx ! l ! i) \<Longrightarrow> n < element_count idx"
    and "i < max_elements idx \<Longrightarrow> element_count idx \<le> i \<Longrightarrow> links idx ! l ! i = []"
  using assms by (simp_all add: layer_ok_def)

lemma set_row_fields [simp]:
  "nodes (set_row idx l i row) = nodes idx" "vector_pool (set_row idx l i row) = vector_pool idx"
  "max_elements (set_row idx l i row) = max_elements idx" "h_dist_func (set_row idx l i row) = h_dist_func idx"
  "length (links (set_row idx l i row)) = length (links idx)" "max_keep (set_row idx l i row) = max_keep idx"
  by (simp_all add: set_row_def max_keep_def fun_eq_iff)

lemma links_set_row:
  "l < length (links idx) \<Longrightarrow> links (set_row idx l i row) ! l' = (if l' = l then (links idx ! l)[i := row] else links idx ! l')"
  by (auto simp: set_row_def nth_list_update)

lemma layer_ok_set_row:
  assumes "layer_ok idx l'" and "l < length (links idx)" and "i < element_count idx" "element_count idx \<le> max_elements idx"
    and "l' = l \<Longrightarrow> length row \<le> max_keep idx l \<and> (\<forall>n\<in>set row. n < element_count idx)"
  shows "layer_ok (set_row idx l i row) l'"
  using assms by (auto simp: layer_ok_def links_set_row nth_list_update split: if_splits)

text \<open>Everything but the rows of one layer stays as it is.\<close>

definition only_rows :: "nat \<Rightarrow> hnsw_index \<Rightarrow> hnsw_index \<Rightarrow> bool" where
  "only_rows l idx idx' \<longleftrightarrow> (\<exists>ls. idx' = idx\<lparr>links := ls\<rparr> \<and> length ls = length (links idx) \<and> (\<forall>l'. l' \<noteq> l \<longrightarrow> ls ! l' = links idx ! l'))"

lemma only_rows_refl [simp]: "only_rows l idx idx"
  unfolding only_rows_def by (intro exI [of _ "links idx"]) simp

lemma only_rows_trans: "only_rows l idx idx1 \<Longrightarrow> only_rows l idx1 idx2 \<Longrightarrow> only_rows l idx idx2"
  unfolding only_rows_def by (elim exE conjE, rule_tac x = lsa in exI) simp

lemma only_rows_set_row [simp]: "l < length (links idx) \<Longrightarrow> only_rows l idx (set_row idx l i row)"
  unfolding only_rows_def set_row_def
  by (intro exI [of _ "(links idx)[l := (links idx ! l)[i := row]]"]) auto

text \<open>Sorting keeps the elements, so that pruning keeps a part of the old neighbours and the new one.\<close>

lemma mset_bubble_pass [simp]: "mset (bubble_pass gt n xs) = mset xs"
  by (induction gt n xs rule: bubble_pass.induct) auto

lemma mset_bubble_passes [simp]: "mset (bubble_passes gt m xs) = mset xs"
  by (induction m arbitrary: xs) auto

lemma mset_bubble_sort [simp]: "mset (bubble_sort gt xs) = mset xs"
  by (simp add: bubble_sort_def)

lemma set_bubble_sort [simp]: "set (bubble_sort gt xs) = set xs"
  by (metis mset_bubble_sort set_mset_mset)

lemma add_link_ok:
  assumes l: "l < length (links idx)" "layer_ok idx l" and n: "src < element_count idx" "dst < element_count idx"
    and count: "element_count idx \<le> max_elements idx" and room: "length (links idx ! l ! src) < max_keep idx l"
  shows "\<exists>idx'. hnsw_add_bidirectional_link idx src dst l = Some idx' \<and> only_rows l idx idx' \<and> layer_ok idx' l \<and>
    (src \<noteq> dst \<longrightarrow> links idx' ! l ! src = links idx ! l ! src @ [dst]) \<and>
    (\<forall>i. i \<noteq> src \<and> i \<noteq> dst \<longrightarrow> links idx' ! l ! i = links idx ! l ! i)"
proof -
  define idx1 where "idx1 = set_row idx l src (links idx ! l ! src @ [dst])"
  have len: "src < length (links idx ! l)" "dst < length (links idx ! l)" using l n count by (auto simp: layer_ok_def)
  have ok1: "layer_ok idx1 l" unfolding idx1_def
    using l n room layer_okD(3) [OF l(2), of src] count by (intro layer_ok_set_row) auto
  have l1: "l < length (links idx1)" using l(1) by (simp add: idx1_def)
  let ?row = "links idx1 ! l ! dst"
  have row: "length ?row \<le> max_keep idx l" "\<forall>n\<in>set ?row. n < element_count idx"
    using layer_okD(2,3) [OF ok1, of dst] n count by (auto simp: idx1_def)
  define kept where "kept = (if length ?row < max_keep idx l then ?row @ [src]
    else map snd (take (max_keep idx l) (bubble_sort far
      (map (\<lambda>n. (node_dist idx1 (vector_pool idx1 ! dst) n, n)) (?row @ [src])))))"
  have kept: "length kept \<le> max_keep idx l" "\<forall>n\<in>set kept. n < element_count idx"
    using row n by (auto simp: kept_def dest!: in_set_takeD)
  have add: "hnsw_add_bidirectional_link idx src dst l = Some (set_row idx1 l dst kept)"
    using l len room row unfolding hnsw_add_bidirectional_link_def idx1_def [symmetric] Let_def kept_def
    by (auto simp: not_le)
  have "layer_ok (set_row idx1 l dst kept) l"
    using ok1 l1 n kept count by (intro layer_ok_set_row) (auto simp: idx1_def)
  moreover have "only_rows l idx (set_row idx1 l dst kept)"
    using l(1) l1 only_rows_trans only_rows_set_row unfolding idx1_def by blast
  moreover have "links (set_row idx1 l dst kept) ! l ! src = links idx ! l ! src @ [dst]" if "src \<noteq> dst"
    using that l(1) len l1 by (simp add: links_set_row idx1_def)
  moreover have "links (set_row idx1 l dst kept) ! l ! i = links idx ! l ! i" if "i \<noteq> src" "i \<noteq> dst" for i
    using that l(1) l1 by (simp add: links_set_row idx1_def)
  ultimately show ?thesis using add by blast
qed

lemma only_rows_fields:
  assumes "only_rows l idx idx'"
  shows "nodes idx' = nodes idx" "vector_pool idx' = vector_pool idx" "max_elements idx' = max_elements idx"
    "h_dist_func idx' = h_dist_func idx" "length (links idx') = length (links idx)" "max_keep idx' = max_keep idx"
    "visited_ok idx' = visited_ok idx" "h_ef_construction idx' = h_ef_construction idx"
    "l' \<noteq> l \<Longrightarrow> links idx' ! l' = links idx ! l'"
  using assms by (auto simp: only_rows_def max_keep_def visited_ok_def fun_eq_iff)

lemma only_rows_layer_ok: "only_rows l idx idx' \<Longrightarrow> l' \<noteq> l \<Longrightarrow> layer_ok idx' l' = layer_ok idx l'"
  by (simp add: layer_ok_def only_rows_fields)

lemma link_all_ok:
  assumes "l < length (links idx)" "layer_ok idx l" "slot < element_count idx" "\<forall>n\<in>set ns. n < element_count idx"
    and "element_count idx \<le> max_elements idx" and "slot \<notin> set ns \<or> ns = [slot]"
    and "length (links idx ! l ! slot) + length ns \<le> max_keep idx l"
  shows "\<exists>idx'. link_all idx slot l ns = Some idx' \<and> only_rows l idx idx' \<and> layer_ok idx' l"
  using assms
proof (induction ns arbitrary: idx)
  case (Cons n ns)
  obtain idx1 where idx1: "hnsw_add_bidirectional_link idx slot n l = Some idx1" "only_rows l idx idx1" "layer_ok idx1 l"
    "slot \<noteq> n \<longrightarrow> links idx1 ! l ! slot = links idx ! l ! slot @ [n]"
    using add_link_ok [of l idx slot n] Cons.prems by auto
  note f = only_rows_fields [OF idx1(2)]
  have "\<exists>idx'. link_all idx1 slot l ns = Some idx' \<and> only_rows l idx1 idx' \<and> layer_ok idx' l"
  proof (cases "n = slot")
    case True
    then have "ns = []" using Cons.prems(6) by auto
    with idx1(3) show ?thesis by simp
  next
    case False
    with Cons.prems idx1 show ?thesis by (intro Cons.IH) (auto simp: f)
  qed
  with idx1 only_rows_trans show ?case by (auto intro: only_rows_trans)
qed simp

text \<open>A new node that is linked to itself.\<close>

lemma link_self:
  assumes "l < length (links idx)" "slot < length (links idx ! l)" "links idx ! l ! slot = []" "2 \<le> max_keep idx l"
  shows "link_all idx slot l [slot] = Some (set_row idx l slot [slot, slot])"
  using assms by (simp add: hnsw_add_bidirectional_link_def Let_def links_set_row) (simp add: set_row_def)

section \<open>Insertion\<close>

text \<open>Everything but the links and the fields of the search stays as it is.\<close>

definition only_graph :: "hnsw_index \<Rightarrow> hnsw_index \<Rightarrow> bool" where
  "only_graph idx idx' \<longleftrightarrow>
     (\<exists>ls vis t. idx' = idx\<lparr>links := ls, visited := vis, visit_tag := t\<rparr> \<and> length ls = length (links idx))"

lemma only_graph_fields:
  assumes "only_graph idx idx'"
  shows "nodes idx' = nodes idx" "vector_pool idx' = vector_pool idx" "max_elements idx' = max_elements idx"
    "h_dist_func idx' = h_dist_func idx" "length (links idx') = length (links idx)" "max_keep idx' = max_keep idx"
    "max_level idx' = max_level idx" "enterpoint_idx idx' = enterpoint_idx idx" "h_ef_construction idx' = h_ef_construction idx"
    "h_M idx' = h_M idx" "M_max idx' = M_max idx" "M_max0 idx' = M_max0 idx" "h_dim idx' = h_dim idx"
    "h_ef_search idx' = h_ef_search idx"
  using assms by (auto simp: only_graph_def max_keep_def fun_eq_iff)

lemma only_graph_refl [simp]: "only_graph idx idx"
  unfolding only_graph_def by (intro exI [of _ "links idx"] exI [of _ "visited idx"] exI [of _ "visit_tag idx"]) simp

lemma only_graph_search:
  assumes "same_graph idx idx1" and "only_rows l idx1 idx2"
  shows "only_graph idx idx2"
proof -
  obtain vis t where "idx1 = idx\<lparr>visited := vis, visit_tag := t\<rparr>" using assms(1) by (auto simp: same_graph_def)
  moreover obtain ls where "idx2 = idx1\<lparr>links := ls\<rparr>" "length ls = length (links idx1)"
    using assms(2) by (auto simp: only_rows_def)
  ultimately show ?thesis unfolding only_graph_def by (intro exI [of _ ls] exI [of _ vis] exI [of _ t]) simp
qed

lemma only_graph_trans: "only_graph idx idx1 \<Longrightarrow> only_graph idx1 idx2 \<Longrightarrow> only_graph idx idx2"
  unfolding only_graph_def by (elim exE conjE) auto

text \<open>A node that nothing points to and that points nowhere in a layer: the slot of a new node.\<close>

definition fresh_in :: "hnsw_index \<Rightarrow> nat \<Rightarrow> nat \<Rightarrow> bool" where
  "fresh_in idx slot l \<longleftrightarrow> links idx ! l ! slot = [] \<and> (\<forall>i<max_elements idx. slot \<notin> set (links idx ! l ! i))"

lemma reach_fresh:
  assumes "(ep, n) \<in> (step idx l)\<^sup>*" and "fresh_in idx slot l" and "element_count idx \<le> max_elements idx"
    and "layer_ok idx l" and "ep < element_count idx"
  shows "if ep = slot then n = slot else n \<noteq> slot \<and> n < element_count idx"
  using assms(1)
proof (induction rule: rtrancl_induct)
  case (step y z)
  show ?case
  proof (cases "ep = slot")
    case True
    with step show ?thesis using assms(2) by (auto simp: fresh_in_def step_def)
  next
    case False
    then have "y < max_elements idx" using step assms(3) by auto
    then show ?thesis using False step assms(2) layer_okD(3) [OF assms(4)] by (auto simp: fresh_in_def step_def)
  qed
qed (use assms in auto)

lemma fresh_step:
  assumes og: "same_graph idx idx1" "only_rows l idx1 idx2" and "l' \<noteq> l"
  shows "links idx2 ! l' = links idx ! l'" "layer_ok idx2 l' = layer_ok idx l'" "fresh_in idx2 slot l' = fresh_in idx slot l'"
  using only_rows_fields [OF og(2)] same_graph_fields [OF og(1)] only_rows_layer_ok [OF og(2) assms(3)] assms(3)
  by (simp_all add: fresh_in_def)

text \<open>The search that starts at a fresh node finds this node and nothing else.\<close>

lemma found_fresh:
  assumes found: "layer_found idx query ef l slot V found" and l: "layer_ok idx l" "fresh_in idx slot l"
    and n: "slot < element_count idx" "element_count idx \<le> max_elements idx"
  shows "found = [entry idx query slot]"
proof -
  have "n = slot" if "n \<in> V" for n
    using that found reach_fresh [OF _ l(2) n(2) l(1) n(1), of n] unfolding layer_found_def by fastforce
  then have "V \<subseteq> {slot}" by blast
  then have "set found \<subseteq> {entry idx query slot}" "distinct found" "found \<noteq> []"
    using found unfolding layer_found_def entries_of_def by auto
  then show ?thesis by (cases found; cases "tl found") auto
qed

text \<open>One layer of the insertion.\<close>

lemma connect_layer:
  assumes l: "l < length (links idx)" "layer_ok idx l" "fresh_in idx slot l"
    and n: "slot < element_count idx" "ep < element_count idx" "element_count idx \<le> max_elements idx"
    and vis: "visited_ok idx" and ef: "1 \<le> h_ef_construction idx"
  shows "\<exists>idx1 V found idx2. hnsw_search_layer idx ep vector (h_ef_construction idx) l = Some (idx1, found) \<and>
    same_graph idx idx1 \<and> layer_found idx vector (h_ef_construction idx) l ep V found \<and>
    link_all idx1 slot l (map snd (take (if length found < max_keep idx1 l then length found else max_keep idx1 l) found)) =
      Some idx2 \<and> only_rows l idx1 idx2 \<and> layer_ok idx2 l \<and> visited_ok idx2"
proof -
  obtain idx1 V found where s: "hnsw_search_layer idx ep vector (h_ef_construction idx) l = Some (idx1, found)"
    "same_graph idx idx1" "visited_ok idx1" "layer_found idx vector (h_ef_construction idx) l ep V found"
    using hnsw_search_layer_ok [OF vis n(2,3) ef l(1,2)] by blast
  note f = same_graph_fields [OF s(2)]
  let ?ns = "map snd (take (if length found < max_keep idx1 l then length found else max_keep idx1 l) found)"
  have V: "V \<subseteq> {n. n < element_count idx \<and> (ep, n) \<in> (step idx l)\<^sup>*}"
    and ent: "entries_of idx vector V found" "found \<noteq> []" using s(4) by (auto simp: layer_found_def)
  have "?ns \<noteq> [slot] \<longrightarrow> slot \<notin> set ?ns"
  proof (cases "ep = slot")
    case True
    then have "found = [entry idx vector slot]" using found_fresh [OF s(4)] l n by simp
    then show ?thesis by (simp add: take_Cons')
  next
    case False
    have "slot \<notin> V"
    proof
      assume "slot \<in> V"
      then have "(ep, slot) \<in> (step idx l)\<^sup>*" using V by blast
      from reach_fresh [OF this l(3) n(3) l(2) n(2)] show False using False by simp
    qed
    then have "slot \<notin> snd ` set found" using entries_snd [OF ent(1)] by blast
    then show ?thesis using set_take_subset [of _ found] by fastforce
  qed
  moreover have "set ?ns \<subseteq> V" using entries_snd [OF ent(1)] set_take_subset [of _ found] by (simp add: image_subset_iff) blast
  then have "\<forall>n\<in>set ?ns. n < element_count idx1" using V unfolding f by blast
  moreover have "length (links idx1 ! l ! slot) + length ?ns \<le> max_keep idx1 l"
    using l(3) by (auto simp: f fresh_in_def)
  ultimately obtain idx2 where idx2: "link_all idx1 slot l ?ns = Some idx2" "only_rows l idx1 idx2" "layer_ok idx2 l"
    using link_all_ok [of l idx1 slot ?ns] l n by (auto simp: f)
  moreover have "visited_ok idx2" using s(3) only_rows_fields(7) [OF idx2(2)] by simp
  ultimately show ?thesis using s(1,2,4) by blast
qed

text \<open>All layers of the insertion. From the second layer on the search starts at the new node.\<close>

lemma connect_ok:
  assumes "\<forall>l<length (links idx). layer_ok idx l" and "\<forall>l\<in>set lcs. l < length (links idx) \<and> fresh_in idx slot l"
    and "distinct lcs" and "slot < element_count idx" "ep < element_count idx" "element_count idx \<le> max_elements idx"
    and "visited_ok idx" and "1 \<le> h_ef_construction idx"
  shows "\<exists>idx'. connect idx slot vector lcs ep = Some idx' \<and> only_graph idx idx' \<and> visited_ok idx' \<and>
    (\<forall>l<length (links idx). layer_ok idx' l) \<and> (\<forall>l. l \<notin> set lcs \<longrightarrow> links idx' ! l = links idx ! l)"
  using assms
proof (induction lcs arbitrary: idx ep)
  case (Cons l lcs)
  have l: "l < length (links idx)" "layer_ok idx l" "fresh_in idx slot l" using Cons.prems by auto
  obtain idx1 V found idx2 where s: "hnsw_search_layer idx ep vector (h_ef_construction idx) l = Some (idx1, found)"
    "same_graph idx idx1"
    "link_all idx1 slot l (map snd (take (if length found < max_keep idx1 l then length found else max_keep idx1 l) found)) = Some idx2"
    "only_rows l idx1 idx2" "layer_ok idx2 l" "visited_ok idx2"
    using connect_layer [OF l Cons.prems(4-8), of vector] by blast
  have og: "only_graph idx idx2" by (rule only_graph_search [OF s(2,4)])
  note f = only_graph_fields [OF og]
  have rest: "links idx2 ! l' = links idx ! l'" "layer_ok idx2 l' = layer_ok idx l'" "fresh_in idx2 slot l' = fresh_in idx slot l'"
    if "l' \<noteq> l" for l' using fresh_step [OF s(2,4) that] by simp_all
  have ok2: "layer_ok idx2 l'" if "l' < length (links idx2)" for l'
    using that s(5) rest(2) [of l'] Cons.prems(1) f by (cases "l' = l") auto
  have fresh2: "l' < length (links idx2) \<and> fresh_in idx2 slot l'" if "l' \<in> set lcs" for l'
    using that rest(3) [of l'] Cons.prems(2,3) f by (cases "l' = l") auto
  obtain idx' where idx': "connect idx2 slot vector lcs slot = Some idx'" "only_graph idx2 idx'" "visited_ok idx'"
    "\<forall>l<length (links idx2). layer_ok idx' l" "\<forall>l. l \<notin> set lcs \<longrightarrow> links idx' ! l = links idx2 ! l"
    using Cons.IH [of idx2 slot] ok2 fresh2 Cons.prems(3-8) s(6) f by auto
  have "connect idx slot vector (l # lcs) ep = Some idx'" using s(1,3) idx'(1) by (simp add: Let_def)
  moreover have "links idx' ! l' = links idx ! l'" if "l' \<notin> set (l # lcs)" for l'
    using that idx'(5) rest(1) [of l'] by simp
  ultimately show ?case using only_graph_trans [OF og idx'(2)] idx'(3,4) f(5) by auto
qed simp

text \<open>A layer that is searched from the new node itself: the node is linked with itself, twice, and with nothing else.\<close>

lemma connect_isolates:
  assumes "\<forall>l<length (links idx). layer_ok idx l" and "\<forall>l\<in>set lcs. l < length (links idx) \<and> fresh_in idx slot l"
    and "distinct lcs" and "slot < element_count idx" "element_count idx \<le> max_elements idx"
    and "visited_ok idx" and "1 \<le> h_ef_construction idx" and "l0 \<in> set lcs" and "2 \<le> max_keep idx l0"
    and "connect idx slot vector lcs slot = Some idx'"
  shows "links idx' ! l0 = (links idx ! l0)[slot := [slot, slot]]"
  using assms
proof (induction lcs arbitrary: idx)
  case (Cons l lcs)
  have l: "l < length (links idx)" "layer_ok idx l" "fresh_in idx slot l" using Cons.prems by auto
  obtain idx1 V found idx2 where s: "hnsw_search_layer idx slot vector (h_ef_construction idx) l = Some (idx1, found)"
    "same_graph idx idx1" "layer_found idx vector (h_ef_construction idx) l slot V found"
    "link_all idx1 slot l (map snd (take (if length found < max_keep idx1 l then length found else max_keep idx1 l) found)) = Some idx2"
    "only_rows l idx1 idx2" "layer_ok idx2 l" "visited_ok idx2"
    using connect_layer [OF l Cons.prems(4,4-7), of vector] by blast
  have og: "only_graph idx idx2" by (rule only_graph_search [OF s(2,5)])
  note f = only_graph_fields [OF og]
  have rest: "links idx2 ! l' = links idx ! l'" "layer_ok idx2 l' = layer_ok idx l'" "fresh_in idx2 slot l' = fresh_in idx slot l'"
    if "l' \<noteq> l" for l' using fresh_step [OF s(2,5) that] by simp_all
  have ok2: "layer_ok idx2 l'" if "l' < length (links idx2)" for l'
    using that s(6) rest(2) [of l'] Cons.prems(1) f by (cases "l' = l") auto
  have fresh2: "l' < length (links idx2) \<and> fresh_in idx2 slot l'" if "l' \<in> set lcs" for l'
    using that rest(3) [of l'] Cons.prems(2,3) f by (cases "l' = l") auto
  have c: "connect idx2 slot vector lcs slot = Some idx'" using Cons.prems(10) s(1,4) by (simp add: Let_def)
  show ?case
  proof (cases "l0 = l")
    case True
    note g = same_graph_fields [OF s(2)]
    have "found = [entry idx vector slot]" using found_fresh [OF s(3) l(2,3) Cons.prems(4,5)] .
    then have "link_all idx1 slot l [slot] = Some idx2" using s(4) Cons.prems(9) True by (simp add: g take_Cons')
    moreover have "link_all idx1 slot l [slot] = Some (set_row idx1 l slot [slot, slot])"
      using l Cons.prems(4,5,9) True by (intro link_self) (auto simp: g fresh_in_def layer_ok_def)
    ultimately have "links idx2 ! l = (links idx ! l)[slot := [slot, slot]]" using l(1) by (auto simp: links_set_row g)
    moreover have "links idx' ! l = links idx2 ! l"
      using connect_ok [of idx2 lcs slot slot vector] ok2 fresh2 Cons.prems(3-7) s(7) f c by auto
    ultimately show ?thesis using True by simp
  next
    case False
    then have "links idx' ! l0 = (links idx2 ! l0)[slot := [slot, slot]]"
      using Cons.IH [of idx2] ok2 fresh2 Cons.prems(3-9) s(7) f c by auto
    then show ?thesis using rest(1) [OF False] by simp
  qed
qed simp

lemma connect_isolates_rest:
  assumes "\<forall>l<length (links idx). layer_ok idx l" and "\<forall>l'\<in>set (l # lcs). l' < length (links idx) \<and> fresh_in idx slot l'"
    and "distinct (l # lcs)" and "slot < element_count idx" "ep < element_count idx" "element_count idx \<le> max_elements idx"
    and "visited_ok idx" and "1 \<le> h_ef_construction idx" and "l0 \<in> set lcs" and "2 \<le> max_keep idx l0"
    and "connect idx slot vector (l # lcs) ep = Some idx'"
  shows "links idx' ! l0 = (links idx ! l0)[slot := [slot, slot]]"
proof -
  have l: "l < length (links idx)" "layer_ok idx l" "fresh_in idx slot l" using assms by auto
  obtain idx1 V found idx2 where s: "hnsw_search_layer idx ep vector (h_ef_construction idx) l = Some (idx1, found)"
    "same_graph idx idx1"
    "link_all idx1 slot l (map snd (take (if length found < max_keep idx1 l then length found else max_keep idx1 l) found)) = Some idx2"
    "only_rows l idx1 idx2" "layer_ok idx2 l" "visited_ok idx2"
    using connect_layer [OF l assms(4-8), of vector] by blast
  note f = only_graph_fields [OF only_graph_search [OF s(2,4)]]
  have rest: "links idx2 ! l' = links idx ! l'" "layer_ok idx2 l' = layer_ok idx l'" "fresh_in idx2 slot l' = fresh_in idx slot l'"
    if "l' \<noteq> l" for l' using fresh_step [OF s(2,4) that] by simp_all
  have ok2: "layer_ok idx2 l'" if "l' < length (links idx2)" for l'
    using that s(5) rest(2) [of l'] assms(1) f by (cases "l' = l") auto
  have fresh2: "l' < length (links idx2) \<and> fresh_in idx2 slot l'" if "l' \<in> set lcs" for l'
    using that rest(3) [of l'] assms(2,3) f by (cases "l' = l") auto
  have c: "connect idx2 slot vector lcs slot = Some idx'" using assms(11) s(1,3) by (simp add: Let_def)
  have "links idx' ! l0 = (links idx2 ! l0)[slot := [slot, slot]]"
    using connect_isolates [OF _ _ _ _ _ _ _ assms(9) _ c] ok2 fresh2 assms(3-10) s(6) f by auto
  moreover have "l0 \<noteq> l" using assms(3,9) by auto
  ultimately show ?thesis using rest(1) [of l0] by simp
qed

section \<open>The operations\<close>

lemma find_live: "find_idx (live_id i) (nodes idx) = find_idx (slot_is i) (slots_of idx)"
  by (simp add: slots_of_def find_idx_map comp_def slot_is_def live_id_def [abs_def])

lemma hnsw_get_map: "hnsw_get idx = slot_map (slots_of idx) (vector_pool idx)"
  by (simp add: hnsw_get_def slot_map_def find_live fun_eq_iff)

lemma hnsw_create_inv: "hnsw_create d m ef_c ef_s n dist = Inr idx \<Longrightarrow> hnsw_inv idx \<and> hnsw_get idx = Map.empty"
  by (auto simp: hnsw_create_def hnsw_inv_def visited_ok_def slots_of_def unique_slots_def live_slots_def hnsw_get_def
      fun_eq_iff split: if_splits)

text \<open>The new node in its slot, with new layers if its level needs them.\<close>

definition with_node :: "hnsw_index \<Rightarrow> u64 \<Rightarrow> nat \<Rightarrow> vec \<Rightarrow> hnsw_index" where
  "with_node idx i lv v =
     idx\<lparr>vector_pool := vector_pool idx @ [take (h_dim idx) v],
         nodes := nodes idx @ [\<lparr>n_id = i, n_level = lv, n_deleted = False\<rparr>]\<rparr>"

lemma with_node_fields [simp]:
  "nodes (with_node idx i lv v) = nodes idx @ [\<lparr>n_id = i, n_level = lv, n_deleted = False\<rparr>]"
  "vector_pool (with_node idx i lv v) = vector_pool idx @ [take (h_dim idx) v]"
  "links (with_node idx i lv v) = links idx" "max_elements (with_node idx i lv v) = max_elements idx"
  "max_keep (with_node idx i lv v) = max_keep idx" "visited_ok (with_node idx i lv v) = visited_ok idx"
  "max_level (with_node idx i lv v) = max_level idx" "h_ef_construction (with_node idx i lv v) = h_ef_construction idx"
  "M_max (with_node idx i lv v) = M_max idx" "M_max0 (with_node idx i lv v) = M_max0 idx" "h_M (with_node idx i lv v) = h_M idx"
  "slots_of (with_node idx i lv v) = slots_of idx @ [(i, False)]" "enterpoint_idx (with_node idx i lv v) = enterpoint_idx idx"
  "h_dim (with_node idx i lv v) = h_dim idx"
  by (simp_all add: with_node_def max_keep_def visited_ok_def slots_of_def fun_eq_iff)

lemma with_node_layers:
  assumes "layer_ok idx l" and "element_count idx < max_elements idx"
  shows "layer_ok (with_node idx i lv v) l \<and> fresh_in (with_node idx i lv v) (element_count idx) l"
proof -
  have "element_count idx \<notin> set (links idx ! l ! j)" if "j < max_elements idx" for j
    using layer_okD(3) [OF assms(1) that] by blast
  then show ?thesis using assms layer_okD [OF assms(1)]
    by (auto simp: layer_ok_def fresh_in_def less_Suc_eq)
qed

lemma ensure_layers_fields [simp]:
  "nodes (hnsw_ensure_layers idx t) = nodes idx" "vector_pool (hnsw_ensure_layers idx t) = vector_pool idx"
  "max_elements (hnsw_ensure_layers idx t) = max_elements idx" "h_M (hnsw_ensure_layers idx t) = h_M idx"
  "M_max (hnsw_ensure_layers idx t) = M_max idx" "M_max0 (hnsw_ensure_layers idx t) = M_max0 idx"
  "max_keep (hnsw_ensure_layers idx t) = max_keep idx" "visited_ok (hnsw_ensure_layers idx t) = visited_ok idx"
  "h_ef_construction (hnsw_ensure_layers idx t) = h_ef_construction idx" "enterpoint_idx (hnsw_ensure_layers idx t) = enterpoint_idx idx"
  "max_level (hnsw_ensure_layers idx t) = max (max_level idx) t" "slots_of (hnsw_ensure_layers idx t) = slots_of idx"
  "h_dim (hnsw_ensure_layers idx t) = h_dim idx" "h_dist_func (hnsw_ensure_layers idx t) = h_dist_func idx"
  by (simp_all add: hnsw_ensure_layers_def max_keep_def visited_ok_def slots_of_def fun_eq_iff)

lemma ensure_layers_ok:
  fixes t :: int
  assumes "\<forall>l<length (links idx). layer_ok idx l \<and> fresh_in idx slot l" and "int (length (links idx)) = max_level idx + 1"
    and "slot < max_elements idx"
  defines "idx' \<equiv> hnsw_ensure_layers idx t"
  shows "int (length (links idx')) = max_level idx' + 1" and "\<forall>l<length (links idx'). layer_ok idx' l \<and> fresh_in idx' slot l"
    and "l < length (links idx) \<Longrightarrow> links idx' ! l = links idx ! l"
proof -
  show "int (length (links idx')) = max_level idx' + 1" using assms(2) by (simp add: idx'_def hnsw_ensure_layers_def)
  have old: "links idx' ! l = links idx ! l" if "l < length (links idx)" for l
    using that by (simp add: idx'_def hnsw_ensure_layers_def nth_append)
  have new: "links idx' ! l = replicate (max_elements idx) []" if "\<not> l < length (links idx)" "l < length (links idx')" for l
    using that by (auto simp: idx'_def hnsw_ensure_layers_def nth_append split: if_splits)
  have "layer_ok idx' l \<and> fresh_in idx' slot l" if "l < length (links idx')" for l
  proof (cases "l < length (links idx)")
    case True
    with assms(1) old [OF True] show ?thesis by (simp add: layer_ok_def fresh_in_def idx'_def)
  next
    case False
    with new [OF False that] assms(3) show ?thesis by (simp add: layer_ok_def fresh_in_def idx'_def)
  qed
  then show "\<forall>l<length (links idx'). layer_ok idx' l \<and> fresh_in idx' slot l" by blast
  show "l < length (links idx) \<Longrightarrow> links idx' ! l = links idx ! l" by (rule old)
qed

text \<open>The state in which the insertion starts to connect the new node.\<close>

lemma with_node_start:
  fixes i :: u64 and lv :: nat and v :: vec and t :: int
  assumes inv: "hnsw_inv idx" and room: "element_count idx < max_elements idx"
  defines "idx2 \<equiv> hnsw_ensure_layers (with_node idx i lv v) t" and "slot \<equiv> element_count idx"
  shows "int (length (links idx2)) = max_level idx2 + 1" "\<forall>l<length (links idx2). layer_ok idx2 l \<and> fresh_in idx2 slot l"
    "element_count idx2 = Suc slot" "element_count idx2 \<le> max_elements idx2" "visited_ok idx2" "max_level idx2 = max (max_level idx) t"
    "h_ef_construction idx2 = h_ef_construction idx" "vector_pool idx2 = vector_pool idx @ [take (h_dim idx) v]"
    "nodes idx2 = nodes idx @ [\<lparr>n_id = i, n_level = lv, n_deleted = False\<rparr>]" "max_keep idx2 = max_keep idx"
    "max_elements idx2 = max_elements idx" "M_max idx2 = M_max idx" "M_max0 idx2 = M_max0 idx" "h_M idx2 = h_M idx"
    "slots_of idx2 = slots_of idx @ [(i, False)]" "enterpoint_idx idx2 = enterpoint_idx idx"
proof -
  have "\<forall>l<length (links (with_node idx i lv v)). layer_ok (with_node idx i lv v) l \<and> fresh_in (with_node idx i lv v) slot l"
    using inv room with_node_layers unfolding slot_def by (auto simp: hnsw_inv_def)
  moreover have "int (length (links (with_node idx i lv v))) = max_level (with_node idx i lv v) + 1"
    using inv by (simp add: hnsw_inv_def)
  ultimately show "int (length (links idx2)) = max_level idx2 + 1" "\<forall>l<length (links idx2). layer_ok idx2 l \<and> fresh_in idx2 slot l"
    unfolding idx2_def using room ensure_layers_ok [where idx = "with_node idx i lv v" and slot = slot and t = t] by (auto simp: slot_def)
qed (use assms in \<open>simp_all add: hnsw_inv_def\<close>)

lemma layers_above_bound: "int n = hi + 1 \<Longrightarrow> l \<in> set (layers_above hi lo) \<Longrightarrow> l < n"
  by (auto simp: layers_above_def)

lemma layers_down_bound: "l \<in> set (layers_down hi) \<longleftrightarrow> int l \<le> hi"
  by (auto simp: layers_down_def)

text \<open>Insertion of an id that the index does not hold: the three outcomes.\<close>

lemma hnsw_insert_new:
  fixes lv :: nat and v :: vec
  assumes inv: "hnsw_inv idx" and ef: "1 \<le> h_ef_construction idx" and new: "find_idx (live_id i) (nodes idx) = None"
    and room: "element_count idx < max_elements idx" and ep: "enterpoint_idx idx = Some ep"
  defines "idx2 \<equiv> hnsw_ensure_layers (with_node idx i lv v) (max (int lv) (max_level idx))"
  shows "\<exists>curr_ep idx3. curr_ep < element_count idx2 \<and>
    connect idx2 (element_count idx) v (layers_down (int lv)) curr_ep = Some idx3 \<and> only_graph idx2 idx3 \<and>
    visited_ok idx3 \<and> (\<forall>l<length (links idx2). layer_ok idx3 l) \<and> hnsw_insert lv idx i v = Some (idx3, KANBUDB_VEC_OK)"
proof -
  let ?slot = "element_count idx"
  note st = with_node_start [OF inv room, of i lv v "max (int lv) (max_level idx)", folded idx2_def]
  have epn: "ep < ?slot" "\<not> n_deleted (nodes idx ! ep)" using inv ep by (auto simp: hnsw_inv_def)
  have "\<exists>r. descend_layers idx2 v (layers_above (max_level idx2) lv) ep = Some r \<and> r < element_count idx2 \<and> \<not> n_deleted (nodes idx2 ! r)"
    using st(2,3,4) epn layers_above_bound [OF st(1)]
    by (intro descend_layers_ok) (auto simp: st(9) nth_append)
  then obtain r where r: "descend_layers idx2 v (layers_above (max_level idx2) lv) ep = Some r" "r < element_count idx2" by blast
  have layers: "\<forall>l\<in>set (layers_down (int lv)). l < length (links idx2) \<and> fresh_in idx2 ?slot l"
    using st(1,2,6) by (auto simp: layers_down_bound)
  obtain idx3 where idx3: "connect idx2 ?slot v (layers_down (int lv)) r = Some idx3" "only_graph idx2 idx3" "visited_ok idx3"
    "\<forall>l<length (links idx2). layer_ok idx3 l"
    using connect_ok [OF _ layers, of r v] st(2,3,4,5,7) r(2) ef by (auto simp: layers_down_def)
  have level: "max_level idx3 = max_level idx2" using idx3(2) by (rule only_graph_fields)
  have "hnsw_insert lv idx i v = Some (idx3, KANBUDB_VEC_OK)"
  proof -
    have needed: "(if int lv > max_level idx then int lv else max_level idx) = max (int lv) (max_level idx)" by simp
    have top: "(if int lv < max_level idx2 then int lv else max_level idx2) = int lv" using st(6) by simp
    show ?thesis
      using new room ep r(1) idx3(1) st(6) level
      unfolding hnsw_insert_def with_node_def [symmetric] needed Let_def
      by (simp add: idx2_def [symmetric] top [unfolded st(6)] st(6))
  qed
  with r(2) idx3 show ?thesis by blast
qed

lemma layer_ok_upd [simp]:
  "layer_ok (idx\<lparr>vector_pool := p\<rparr>) l = layer_ok idx l" "layer_ok (idx\<lparr>enterpoint_idx := e\<rparr>) l = layer_ok idx l"
  "visited_ok (idx\<lparr>vector_pool := p\<rparr>) = visited_ok idx" "visited_ok (idx\<lparr>enterpoint_idx := e\<rparr>) = visited_ok idx"
  "visited_ok (idx\<lparr>nodes := ns\<rparr>) = visited_ok idx"
  "slots_of (idx\<lparr>vector_pool := p\<rparr>) = slots_of idx" "slots_of (idx\<lparr>enterpoint_idx := e\<rparr>) = slots_of idx"
  by (simp_all add: layer_ok_def visited_ok_def max_keep_def slots_of_def)

lemma hnsw_inv_live: "hnsw_inv idx \<Longrightarrow> enterpoint_idx idx = Some e \<Longrightarrow> e < element_count idx \<and> \<not> n_deleted (nodes idx ! e)"
  by (simp add: hnsw_inv_def)

lemma hnsw_insert_first:
  fixes lv :: nat and v :: vec
  assumes inv: "hnsw_inv idx" and "find_idx (live_id i) (nodes idx) = None"
    and room: "element_count idx < max_elements idx" and "enterpoint_idx idx = None"
  defines "idx' \<equiv> (hnsw_ensure_layers (with_node idx i lv v) (int lv))\<lparr>enterpoint_idx := Some (element_count idx)\<rparr>"
  shows "hnsw_insert lv idx i v = Some (idx', KANBUDB_VEC_OK) \<and> hnsw_inv idx'"
proof
  show "hnsw_insert lv idx i v = Some (idx', KANBUDB_VEC_OK)"
    using assms by (simp add: hnsw_insert_def with_node_def [symmetric] Let_def)
  note st = with_node_start [OF inv room, of i lv v "int lv"]
  have "unique_slots (slots_of idx @ [(i, False)])"
    using assms unique_slots_append by (simp add: find_live hnsw_inv_def)
  then show "hnsw_inv idx'"
    using inv st by (auto simp: hnsw_inv_def idx'_def simp flip: length_greater_0_conv)
qed

lemma hnsw_inv_connected:
  assumes inv: "hnsw_inv idx" and new: "find_idx (live_id i) (nodes idx) = None"
    and room: "element_count idx < max_elements idx" and ep: "enterpoint_idx idx = Some ep"
    and og: "only_graph (hnsw_ensure_layers (with_node idx i lv v) t) idx3" and vis: "visited_ok idx3"
    and ok: "\<forall>l<length (links (hnsw_ensure_layers (with_node idx i lv v) t)). layer_ok idx3 l"
  shows "hnsw_inv idx3"
proof -
  note st = with_node_start [OF inv room, of i lv v t]
  note f = only_graph_fields [OF og]
  have "slots_of idx3 = slots_of idx @ [(i, False)]" using st(15) by (simp add: slots_of_def f)
  moreover have "unique_slots (slots_of idx @ [(i, False)])"
    using inv new unique_slots_append by (simp add: find_live hnsw_inv_def)
  moreover have "links idx3 \<noteq> []"
  proof -
    have "length (links idx) \<le> length (links (hnsw_ensure_layers (with_node idx i lv v) t))"
      by (simp add: hnsw_ensure_layers_def)
    moreover have "links idx \<noteq> []" using inv ep by (simp add: hnsw_inv_def)
    ultimately show ?thesis using f(5) by (metis length_0_conv le_zero_eq)
  qed
  ultimately show ?thesis
    using inv st vis ok ep unfolding hnsw_inv_def f by (simp add: nth_append)
qed

lemma hnsw_insert_correct_aux:
  assumes inv: "hnsw_inv idx" and ef: "1 \<le> h_ef_construction idx"
    and room: "hnsw_get idx i \<noteq> None \<or> element_count idx < max_elements idx"
  shows "\<exists>idx'. hnsw_insert lv idx i v = Some (idx', KANBUDB_VEC_OK) \<and> hnsw_inv idx' \<and>
    hnsw_get idx' = (hnsw_get idx)(i \<mapsto> take (h_dim idx) v) \<and> h_ef_construction idx' = h_ef_construction idx \<and>
    h_dim idx' = h_dim idx \<and> max_elements idx' = max_elements idx"
proof (cases "find_idx (live_id i) (nodes idx)")
  case (Some j)
  let ?idx' = "idx\<lparr>vector_pool := (vector_pool idx)[j := take (h_dim idx) v]\<rparr>"
  have len: "length (vector_pool idx) = length (slots_of idx)" using inv by (simp add: hnsw_inv_def slots_of_def)
  have "hnsw_insert lv idx i v = Some (?idx', KANBUDB_VEC_OK)" using Some by (simp add: hnsw_insert_def)
  moreover have "hnsw_inv ?idx'" using inv by (cases "enterpoint_idx idx") (simp_all add: hnsw_inv_def)
  moreover have "hnsw_get ?idx' = (hnsw_get idx)(i \<mapsto> take (h_dim idx) v)"
    using slot_map_update [OF Some [unfolded find_live] len] by (simp add: hnsw_get_map)
  moreover have "h_ef_construction ?idx' = h_ef_construction idx" "h_dim ?idx' = h_dim idx" "max_elements ?idx' = max_elements idx"
    by simp_all
  ultimately show ?thesis by blast
next
  case None
  then have room': "element_count idx < max_elements idx" using room by (simp add: hnsw_get_def)
  have len: "length (vector_pool idx) = length (slots_of idx)" using inv by (simp add: hnsw_inv_def slots_of_def)
  have get: "slot_map (slots_of idx @ [(i, False)]) (vector_pool idx @ [take (h_dim idx) v]) =
      (hnsw_get idx)(i \<mapsto> take (h_dim idx) v)"
    using slot_map_append [OF None [unfolded find_live] len] by (simp add: hnsw_get_map)
  show ?thesis
  proof (cases "enterpoint_idx idx")
    case None
    with hnsw_insert_first [OF inv \<open>find_idx (live_id i) (nodes idx) = None\<close> room' None, of lv v] get
    show ?thesis by (auto simp: hnsw_get_map)
  next
    case (Some ep)
    let ?t = "max (int lv) (max_level idx)"
    obtain idx3 where idx3: "only_graph (hnsw_ensure_layers (with_node idx i lv v) ?t) idx3" "visited_ok idx3"
      "\<forall>l<length (links (hnsw_ensure_layers (with_node idx i lv v) ?t)). layer_ok idx3 l"
      "hnsw_insert lv idx i v = Some (idx3, KANBUDB_VEC_OK)"
      using hnsw_insert_new [OF inv ef None room' Some, of lv v] by blast
    note f = only_graph_fields [OF idx3(1)]
    have "hnsw_inv idx3" by (rule hnsw_inv_connected [OF inv None room' Some idx3(1-3)])
    moreover have "hnsw_get idx3 = (hnsw_get idx)(i \<mapsto> take (h_dim idx) v)"
      using get by (simp add: hnsw_get_map slots_of_def f)
    moreover have "h_ef_construction idx3 = h_ef_construction idx" "h_dim idx3 = h_dim idx" "max_elements idx3 = max_elements idx"
      by (simp_all add: f)
    ultimately show ?thesis using idx3(4) by blast
  qed
qed

lemma entry_ok_find: "ls \<noteq> [] \<Longrightarrow> entry_ok (find_idx (\<lambda>n. \<not> n_deleted n) ns) ns ls"
proof (cases "find_idx (\<lambda>n. \<not> n_deleted n) ns")
  case None
  then have "\<forall>n\<in>set ns. n_deleted n" by (simp add: find_idx_None)
  with None show ?thesis by simp
next
  case (Some m)
  moreover assume "ls \<noteq> []"
  moreover have "m < length ns" "\<not> n_deleted (ns ! m)" using Some by (simp_all add: find_idx_Some)
  ultimately show ?thesis by simp
qed

lemma hnsw_delete_correct_aux:
  assumes inv: "hnsw_inv idx" and j: "find_idx (live_id i) (nodes idx) = Some j"
  defines "idx' \<equiv> fst (hnsw_delete idx i)"
  shows "hnsw_inv idx' \<and> hnsw_get idx' = (hnsw_get idx)(i := None)"
proof -
  define ns where "ns = (nodes idx)[j := (nodes idx ! j)\<lparr>n_deleted := True\<rparr>]"
  define e where "e = (if enterpoint_idx idx = Some j then find_idx (\<lambda>n. \<not> n_deleted n) ns else enterpoint_idx idx)"
  have idx': "idx' = idx\<lparr>nodes := ns, enterpoint_idx := e\<rparr>"
    using j by (simp add: idx'_def hnsw_delete_def ns_def e_def Let_def)
  have jl: "j < element_count idx" "n_id (nodes idx ! j) = i" using j by (auto simp: find_idx_Some live_id_def)
  have len: "length ns = element_count idx" by (simp add: ns_def)
  have slots: "slots_of idx' = (slots_of idx)[j := (i, True)]"
    using jl(2) by (simp add: slots_of_def idx' ns_def map_update)
  have js: "find_idx (slot_is i) (slots_of idx) = Some j" "j < length (slots_of idx)"
    using j jl by (simp_all add: find_live slots_of_def)
  have u: "unique_slots (slots_of idx)" using inv by (simp add: hnsw_inv_def)
  have ep: "entry_ok e ns (links idx)"
  proof (cases "enterpoint_idx idx = Some j")
    case True
    then have "links idx \<noteq> []" using inv by (simp add: hnsw_inv_def)
    then show ?thesis using True entry_ok_find by (simp add: e_def)
  next
    case False
    show ?thesis
    proof (cases "enterpoint_idx idx")
      case None
      then have "\<forall>n\<in>set (nodes idx). n_deleted n" using inv by (simp add: hnsw_inv_def)
      then have "n_deleted n" if "n \<in> set ns" for n
        using that set_update_subset_insert [of "nodes idx" j] unfolding ns_def by force
      then show ?thesis using None False by (simp add: e_def)
    next
      case (Some m)
      then show ?thesis using inv False by (auto simp: e_def hnsw_inv_def len) (simp add: ns_def)
    qed
  qed
  have "layer_ok idx' l = layer_ok idx l" for l by (simp add: layer_ok_def idx' len max_keep_def)
  moreover have "visited_ok idx' = visited_ok idx" by (simp add: visited_ok_def idx')
  moreover have "unique_slots (slots_of idx')" unfolding slots by (rule unique_slots_delete [OF js(2) u])
  ultimately have "hnsw_inv idx'" using inv ep unfolding hnsw_inv_def by (simp add: idx' len)
  moreover have "hnsw_get idx' = (hnsw_get idx)(i := None)"
    unfolding hnsw_get_map slots using slot_map_delete [OF js(1) u] by (simp add: idx')
  ultimately show ?thesis by simp
qed

lemma same_graph_refl: "same_graph idx idx"
  unfolding same_graph_def by (intro exI [of _ "visited idx"] exI [of _ "visit_tag idx"]) simp

lemma same_graph_inv: "hnsw_inv idx \<Longrightarrow> same_graph idx idx' \<Longrightarrow> visited_ok idx' \<Longrightarrow> hnsw_inv idx'"
  using same_graph_fields [of idx idx'] by (simp add: hnsw_inv_def slots_of_def)

section \<open>Results of a search\<close>

definition result_of :: "hnsw_index \<Rightarrow> vec \<Rightarrow> nat \<Rightarrow> vec_result" where
  "result_of idx query n = \<lparr>r_id = n_id (nodes idx ! n), r_distance = node_dist idx query n\<rparr>"

definition live :: "hnsw_index \<Rightarrow> nat set" where
  "live idx = {n. n < element_count idx \<and> \<not> n_deleted (nodes idx ! n)}"

text \<open>
  \<open>ns\<close> are \<open>k\<close> nearest nodes of \<open>V\<close>, in order of distance, or all of \<open>V\<close> if it has fewer.
\<close>

definition knn :: "hnsw_index \<Rightarrow> vec \<Rightarrow> nat set \<Rightarrow> nat \<Rightarrow> nat list \<Rightarrow> bool" where
  "knn idx query V k ns \<longleftrightarrow>
     distinct ns \<and> set ns \<subseteq> V \<and> length ns = min k (card V) \<and> sorted (map (\<lambda>n. f_key (node_dist idx query n)) ns) \<and>
     (\<forall>n\<in>set ns. \<forall>m\<in>V - set ns. f_key (node_dist idx query n) \<le> f_key (node_dist idx query m))"

lemma entries_map:
  assumes "entries_of idx query V found"
  shows "found = map (entry idx query) (map snd found)" "distinct (map snd found)" "set (map snd found) \<subseteq> V"
proof -
  have each: "c = entry idx query (snd c)" if "c \<in> set found" for c
  proof -
    obtain n where "c = entry idx query n" using \<open>c \<in> set found\<close> assms unfolding entries_of_def by blast
    then show ?thesis by simp
  qed
  then show m: "found = map (entry idx query) (map snd found)" by (simp add: map_idI)
  have "distinct (map (entry idx query) (map snd found))" using assms m unfolding entries_of_def by metis
  then show "distinct (map snd found)" by (simp only: distinct_map)
  show "set (map snd found) \<subseteq> V" using entries_snd [OF assms] by simp
qed

lemma layer_found_knn:
  assumes found: "layer_found idx query ef layer ep V found" and nan: "no_nan idx query" and k: "int k \<le> ef" and "finite V"
  shows "knn idx query V k (map snd (take k found))"
proof -
  let ?d = "\<lambda>n. f_key (node_dist idx query n)"
  define ms where "ms = map snd found"
  have ent: "entries_of idx query V found" and near: "nearest_of idx query V ef found" and srt: "by_key found"
    using found nan by (auto simp: layer_found_def)
  note ms = entries_map [OF ent, folded ms_def]
  have keys: "map (f_key \<circ> fst) found = map ?d ms" by (subst ms(1)) (simp add: entry_def)
  have sorted: "sorted (map ?d ms)" using srt keys by simp
  have out: "?d n \<le> ?d m \<and> int (length ms) = ef" if "m \<in> V" "m \<notin> set ms" "n \<in> set ms" for m n
  proof -
    have "entry idx query m \<notin> set found"
    proof
      assume "entry idx query m \<in> set found"
      then have "snd (entry idx query m) \<in> set ms" unfolding ms_def by (metis image_eqI list.set_map)
      with that(2) show False by simp
    qed
    moreover have "entry idx query n \<in> set found" using that(3) by (subst ms(1)) simp
    ultimately show ?thesis using near that(1) by (force simp: nearest_of_def entry_def ms_def)
  qed
  have ns: "map snd (take k found) = take k ms" by (simp add: ms_def take_map)
  have len: "length (take k ms) = min k (card V)"
  proof (cases "V \<subseteq> set ms")
    case True
    then have "card V = length ms" using ms(2,3) distinct_card by (metis subset_antisym)
    then show ?thesis by (simp add: min.commute)
  next
    case False
    then obtain m where "m \<in> V" "m \<notin> set ms" by blast
    moreover have "ms \<noteq> []" using found by (auto simp: layer_found_def ms_def)
    ultimately have "int (length ms) = ef" using out by (metis list.set_sel(1))
    moreover have "length ms \<le> card V" using ms(2,3) assms(4) by (metis card_mono distinct_card)
    ultimately show ?thesis using k by simp
  qed
  have "?d n \<le> ?d m" if n: "n \<in> set (take k ms)" and m: "m \<in> V" "m \<notin> set (take k ms)" for n m
  proof (cases "m \<in> set ms")
    case True
    then have "m \<in> set (drop k ms)" using m(2) by (metis UnE append_take_drop_id set_append)
    moreover have "sorted (map ?d (take k ms) @ map ?d (drop k ms))"
      using sorted by (metis append_take_drop_id map_append)
    ultimately show ?thesis using n by (simp add: sorted_append)
  next
    case False
    then show ?thesis using out m(1) n by (meson in_set_takeD)
  qed
  then show ?thesis unfolding knn_def ns using ms(2,3) sorted len set_take_subset [of k ms]
    by (auto simp: take_map [symmetric] sorted_wrt_take)
qed

lemma finite_reach: "layer_found idx query ef l ep V found \<Longrightarrow> finite V \<and> card V \<le> element_count idx"
  unfolding layer_found_def
  by (metis (no_types, lifting) card_lessThan card_mono finite_lessThan finite_subset lessThan_iff mem_Collect_eq subset_iff)

text \<open>A heap that has room for all nodes lets the search see everything it can reach.\<close>

lemma layer_found_all:
  assumes found: "layer_found idx query ef l ep V found" and fin: "finite_dists idx query" and ef: "int (element_count idx) \<le> ef"
    and reach: "(step idx l)\<^sup>* `` {ep} \<subseteq> {..<element_count idx}"
  shows "V = (step idx l)\<^sup>* `` {ep}"
proof (rule ccontr)
  let ?R = "(step idx l)\<^sup>* `` {ep}"
  assume ne: "V \<noteq> ?R"
  then have "int (length found) = ef" and sub: "V \<subseteq> ?R" and ent: "entries_of idx query V found"
    using found fin by (auto simp: layer_found_def)
  moreover have "length found \<le> card V" using finite_reach [OF found] entries_of_length [OF ent] by simp
  moreover have "card ?R \<le> element_count idx" using card_mono [OF _ reach] by simp
  moreover have "finite ?R" using reach finite_subset by blast
  ultimately have "V = ?R" using ef card_seteq [of ?R V] by auto
  with ne show False ..
qed

lemma hnsw_search_some:
  assumes inv: "hnsw_inv idx" and k: "1 \<le> k" and ep: "enterpoint_idx idx = Some ep"
  defines "ef \<equiv> max k (h_ef_search idx)"
  shows "\<exists>idx' r V found. hnsw_search idx query k = Some (idx', map (result_of idx query) (map snd (take (nat k) found))) \<and>
    hnsw_inv idx' \<and> same_graph idx idx' \<and> r \<in> live idx \<and> layer_found idx query ef 0 r V found"
proof -
  have ok: "\<forall>l<length (links idx). layer_ok idx l" "element_count idx \<le> max_elements idx" "links idx \<noteq> []"
    "int (length (links idx)) = max_level idx + 1" "visited_ok idx" using inv ep by (auto simp: hnsw_inv_def)
  obtain r where r: "descend_layers idx query (layers_above (max_level idx) 0) ep = Some r" "r < element_count idx"
    "\<not> n_deleted (nodes idx ! r)"
    using descend_layers_ok [of "layers_above (max_level idx) 0" idx ep query] layers_above_bound [OF ok(4)] ok hnsw_inv_live [OF inv ep]
    by blast
  have "1 \<le> ef" using k by (simp add: ef_def)
  then obtain idx' V found where s: "hnsw_search_layer idx r query ef 0 = Some (idx', found)" "same_graph idx idx'"
    "visited_ok idx'" "layer_found idx query ef 0 r V found"
    using hnsw_search_layer_ok [OF ok(5) r(2) ok(2) _ _ , of ef 0 query] ok(1,3) by auto
  have nodes: "nodes idx' = nodes idx" using same_graph_fields [OF s(2)] by simp
  have found: "found = map (entry idx query) (map snd found)" using s(4) entries_map by (auto simp: layer_found_def)
  have res: "map (\<lambda>(d, n). \<lparr>r_id = n_id (nodes idx' ! n), r_distance = d\<rparr>) (take m found) =
    map (result_of idx query) (map snd (take m found))" for m
    by (subst (1) found) (simp add: take_map nodes result_of_def entry_def)
  have tk: "take (if int (length found) < k then length found else nat k) found = take (nat k) found" by auto
  have "(if h_ef_search idx < k then k else h_ef_search idx) = ef" by (simp add: ef_def)
  then have "hnsw_search idx query k = Some (idx', map (result_of idx query) (map snd (take (nat k) found)))"
    using k ep r(1) s(1) res [of "if int (length found) < k then length found else nat k"] unfolding tk
    by (simp add: hnsw_search_def Let_def)
  moreover have "hnsw_inv idx'" by (rule same_graph_inv [OF inv s(2,3)])
  ultimately show ?thesis using s(2,4) r(2,3) by (auto simp: live_def)
qed

section \<open>Properties\<close>

text \<open>A concrete index for the witnesses: one-dimensional vectors, with the difference of the patterns as distance.\<close>

definition ex_dist :: dist_fn where
  "ex_dist a b = (case (a, b) of (x # _, y # _) \<Rightarrow> if x \<le> y then y - x else x - y | _ \<Rightarrow> 0)"

definition ex_insert :: "nat \<Rightarrow> u64 \<Rightarrow> f32 \<Rightarrow> hnsw_index \<Rightarrow> hnsw_index" where
  "ex_insert lv i x idx = fst (the (hnsw_insert lv idx i [x]))"

definition ex_empty :: hnsw_index where
  "ex_empty = projr (hnsw_create 1 2 10 10 8 ex_dist)"

definition ex_index :: hnsw_index where
  "ex_index = ex_insert 0 7 40 (ex_insert 0 5 20 ex_empty)"

text \<open>The runs of an index, with the map from ids to vectors that they should produce.\<close>

inductive hnsw_run :: "hnsw_index \<Rightarrow> (u64 \<rightharpoonup> vec) \<Rightarrow> bool" where
  create: "hnsw_create d m ef_c ef_s n dist = Inr idx \<Longrightarrow> 1 \<le> ef_c \<Longrightarrow> hnsw_run idx Map.empty"
| insert: "hnsw_run idx m \<Longrightarrow> hnsw_insert lv idx i v = Some (idx', KANBUDB_VEC_OK) \<Longrightarrow>
     hnsw_run idx' (m(i \<mapsto> take (h_dim idx) v))"
| full: "hnsw_run idx m \<Longrightarrow> hnsw_insert lv idx i v = Some (idx', KANBUDB_VEC_ERR_OOM) \<Longrightarrow> hnsw_run idx' m"
| delete: "hnsw_run idx m \<Longrightarrow> hnsw_delete idx i = (idx', rc) \<Longrightarrow> hnsw_run idx' (m(i := None))"
| search: "hnsw_run idx m \<Longrightarrow> hnsw_search idx query k = Some (idx', rs) \<Longrightarrow> hnsw_run idx' m"

lemma hnsw_insert_full:
  "hnsw_insert lv idx i v = Some (idx', KANBUDB_VEC_ERR_OOM) \<Longrightarrow> hnsw_get idx i = None \<and> element_count idx \<ge> max_elements idx \<and> idx' = idx"
  by (auto simp: hnsw_insert_def hnsw_get_def Let_def split: option.splits if_splits)

lemma hnsw_search_none: "k \<le> 0 \<or> enterpoint_idx idx = None \<Longrightarrow> hnsw_search idx query k = Some (idx, [])"
  by (auto simp: hnsw_search_def)

lemma hnsw_search_same:
  assumes "hnsw_inv idx" and "hnsw_search idx query k = Some (idx', rs)"
  shows "hnsw_inv idx' \<and> same_graph idx idx'"
proof (cases "k \<le> 0 \<or> enterpoint_idx idx = None")
  case True
  then have "idx' = idx" using assms(2) hnsw_search_none [of k idx query] by simp
  then show ?thesis using assms(1) unfolding same_graph_def
    by (intro conjI exI [of _ "visited idx"] exI [of _ "visit_tag idx"]) simp_all
next
  case False
  then obtain ep where "enterpoint_idx idx = Some ep" "1 \<le> k" by auto
  then show ?thesis using hnsw_search_some [OF assms(1), of k ep query] assms(2) by auto
qed

lemma hnsw_run_inv: "hnsw_run idx m \<Longrightarrow> hnsw_inv idx \<and> 1 \<le> h_ef_construction idx \<and> hnsw_get idx = m"
proof (induction rule: hnsw_run.induct)
  case (create d m ef_c ef_s n dist idx)
  then show ?case using hnsw_create_inv [OF create(1)] by (auto simp: hnsw_create_def split: if_splits)
next
  case (insert idx m lv i v idx')
  have "hnsw_get idx i \<noteq> None \<or> element_count idx < max_elements idx"
    using insert.hyps(2) by (auto simp: hnsw_insert_def hnsw_get_def split: option.splits if_splits)
  then show ?case using hnsw_insert_correct_aux [of idx i lv v] insert by auto
next
  case (full idx m lv i v idx')
  then show ?case using hnsw_insert_full by blast
next
  case (delete idx m i idx' rc)
  show ?case
  proof (cases "find_idx (live_id i) (nodes idx)")
    case None
    then have "idx' = idx" "hnsw_get idx i = None" using delete.hyps by (auto simp: hnsw_delete_def hnsw_get_def)
    then show ?thesis using delete.IH by (auto simp: fun_upd_idem)
  next
    case (Some j)
    moreover have "h_ef_construction idx' = h_ef_construction idx"
      using delete.hyps Some by (auto simp: hnsw_delete_def Let_def)
    ultimately show ?thesis using hnsw_delete_correct_aux [of idx i j] delete by auto
  qed
next
  case (search idx m query k idx' rs)
  then have s: "hnsw_inv idx'" "same_graph idx idx'" using hnsw_search_same by blast+
  then show ?case using search same_graph_fields [OF s(2)] by (simp add: hnsw_get_map slots_of_def)
qed

lemma ex_insert_run:
  assumes "hnsw_run idx m" and "element_count idx < max_elements idx"
  shows "hnsw_run (ex_insert lv i x idx) (m(i \<mapsto> take (h_dim idx) [x]))"
  using hnsw_run.insert [OF assms(1)] hnsw_insert_correct_aux [of idx i lv "[x]"] hnsw_run_inv [OF assms(1)] assms(2)
  by (auto simp: ex_insert_def)

lemma ex_index_run: "hnsw_run ex_index ([5 \<mapsto> [20], 7 \<mapsto> [40]])"
proof -
  have "hnsw_create 1 2 10 10 8 ex_dist = Inr ex_empty" by (simp add: ex_empty_def hnsw_create_def)
  then have "hnsw_run ex_empty Map.empty" by (rule hnsw_run.create) simp
  moreover have "element_count ex_empty < max_elements ex_empty" "h_dim ex_empty = 1" by code_simp+
  ultimately have "hnsw_run (ex_insert 0 5 20 ex_empty) [5 \<mapsto> [20]]" using ex_insert_run by fastforce
  moreover have "element_count (ex_insert 0 5 20 ex_empty) < max_elements (ex_insert 0 5 20 ex_empty)"
    "h_dim (ex_insert 0 5 20 ex_empty) = 1" by code_simp+
  ultimately show ?thesis unfolding ex_index_def using ex_insert_run by fastforce
qed

lemmas ex_index_inv = conjunct1 [OF hnsw_run_inv [OF ex_index_run]]
  conjunct1 [OF conjunct2 [OF hnsw_run_inv [OF ex_index_run]]]

text \<open>
  C20. The HNSW index is a map from ids to vectors: after any sequence of insertions, deletions and searches
  \<^verbatim>\<open>hnsw_get\<close> returns for every id the vector that was inserted last and not deleted since, and
  \<^verbatim>\<open>hnsw_count\<close> is the number of ids.
\<close>

theorem hnsw_refines_map:
  assumes "hnsw_run idx m"
  shows "hnsw_get idx = m \<and> hnsw_count idx = card (dom m)"
proof -
  have inv: "hnsw_inv idx" "hnsw_get idx = m" using hnsw_run_inv [OF assms] by auto
  have "hnsw_count idx = length (live_slots (slots_of idx))"
    by (simp add: hnsw_count_def live_slots_def slots_of_def filter_map comp_def)
  also have "\<dots> = card (dom m)"
    using card_slot_map [of "slots_of idx" "vector_pool idx"] inv by (simp add: hnsw_inv_def hnsw_get_map)
  finally show ?thesis using inv by simp
qed

theorem hnsw_refines_map_witness:
  "hnsw_run ex_index ([5 \<mapsto> [20], 7 \<mapsto> [40]]) \<and> hnsw_count ex_index = card (dom [5 \<mapsto> [20 :: f32], (7 :: u64) \<mapsto> [40]])"
  using ex_index_run hnsw_refines_map [OF ex_index_run] by simp

text \<open>
  C19. An insertion never leaves the arrays of the index and keeps its invariant: links stay below the element count, no row
  outgrows its capacity, the entry point is a live node. It fails only when the index is full and the id is new, and then
  changes nothing; otherwise the id is bound to the first \<^verbatim>\<open>dim\<close> components of the vector.
\<close>

theorem hnsw_insert_safe:
  assumes "hnsw_inv idx" and "1 \<le> h_ef_construction idx"
  shows "\<exists>idx' rc. hnsw_insert lv idx i v = Some (idx', rc) \<and> hnsw_inv idx' \<and>
    (if hnsw_get idx i = None \<and> element_count idx = max_elements idx then rc = KANBUDB_VEC_ERR_OOM \<and> idx' = idx
     else rc = KANBUDB_VEC_OK \<and> hnsw_get idx' = (hnsw_get idx)(i \<mapsto> take (h_dim idx) v))"
proof (cases "hnsw_get idx i = None \<and> element_count idx = max_elements idx")
  case True
  then have "hnsw_insert lv idx i v = Some (idx, KANBUDB_VEC_ERR_OOM)"
    by (auto simp: hnsw_insert_def hnsw_get_def)
  with True assms(1) show ?thesis by auto
next
  case False
  have "element_count idx \<le> max_elements idx" using assms(1) by (simp add: hnsw_inv_def)
  with False have "hnsw_get idx i \<noteq> None \<or> element_count idx < max_elements idx" by auto
  from hnsw_insert_correct_aux [OF assms this, of lv v] False show ?thesis by auto
qed

theorem hnsw_insert_safe_witness:
  "\<exists>idx' rc. hnsw_insert 2 ex_index 9 [30] = Some (idx', rc) \<and> hnsw_inv idx' \<and> rc = KANBUDB_VEC_OK \<and>
     hnsw_get idx' = (hnsw_get ex_index)(9 \<mapsto> [30])"
proof -
  have "element_count ex_index = 2" "max_elements ex_index = 8" "h_dim ex_index = 1" by code_simp+
  with hnsw_insert_safe [OF ex_index_inv, of 2 9 "[30]"] show ?thesis by auto
qed

lemma reach_live:
  assumes inv: "hnsw_inv idx" and ep: "enterpoint_idx idx \<noteq> None" and r: "r \<in> live idx"
  shows "(step idx 0)\<^sup>* `` {r} \<subseteq> live idx"
proof
  fix n assume "n \<in> (step idx 0)\<^sup>* `` {r}"
  then have rn: "(r, n) \<in> (step idx 0)\<^sup>*" by simp
  have lok: "layer_ok idx 0" "element_count idx \<le> max_elements idx" using inv ep by (auto simp: hnsw_inv_def)
  have "n < element_count idx"
    using rn
  proof (induction rule: rtrancl_induct)
    case base
    then show ?case using r by (simp add: live_def)
  next
    case (step y z)
    then show ?case using layer_okD(3) [OF lok(1), of y z] lok(2) by (simp add: step_def)
  qed
  then show "n \<in> live idx" using step_live [OF rn] r by (auto simp: live_def)
qed

lemma found_nodes:
  assumes "layer_found idx query ef 0 r V found"
  shows "distinct (map snd (take k found)) \<and> set (map snd (take k found)) \<subseteq> V"
  using entries_map(2,3) [of idx query V found] assms set_take_subset [of k "map snd found"]
  by (simp only: layer_found_def take_map [symmetric] distinct_take) blast

text \<open>The part of a search's result that other components rely on.\<close>

lemma hnsw_search_live:
  assumes inv: "hnsw_inv idx" and k: "1 \<le> k"
  shows "\<exists>idx' ns. hnsw_search idx query k = Some (idx', map (result_of idx query) ns) \<and> hnsw_inv idx' \<and> same_graph idx idx' \<and>
    distinct ns \<and> set ns \<subseteq> live idx"
proof (cases "enterpoint_idx idx")
  case None
  then show ?thesis using inv hnsw_search_none [of k idx query] by (intro exI [of _ idx] exI [of _ "[]"]) (simp add: same_graph_refl)
next
  case (Some e)
  obtain idx' r V found where s: "hnsw_search idx query k = Some (idx', map (result_of idx query) (map snd (take (nat k) found)))"
    "hnsw_inv idx'" "same_graph idx idx'" "r \<in> live idx" "layer_found idx query (max k (h_ef_search idx)) 0 r V found"
    using hnsw_search_some [OF inv k Some, of query] by blast
  have "V \<subseteq> live idx" using s(5) reach_live [OF inv _ s(4)] Some by (auto simp: layer_found_def)
  then show ?thesis using s(1-3) found_nodes [OF s(5), of "nat k"] by blast
qed



text \<open>
  A node that is inserted with a level above 0 is not connected in layer 0: below its top layer the search starts at the
  new node, which has no links yet, finds only this node and links it with itself, twice. No other
  node can reach it in layer 0, where every search ends.
\<close>

theorem hnsw_upper_node_isolated:
  assumes inv: "hnsw_inv idx" and ef: "1 \<le> h_ef_construction idx" and new: "hnsw_get idx i = None"
    and room: "element_count idx < max_elements idx" and ep: "enterpoint_idx idx = Some ep" and lv: "1 \<le> lv"
  shows "\<exists>idx'. hnsw_insert lv idx i v = Some (idx', KANBUDB_VEC_OK) \<and>
    links idx' ! 0 ! element_count idx = [element_count idx, element_count idx] \<and>
    (\<forall>n<element_count idx. (n, element_count idx) \<notin> (step idx' 0)\<^sup>*)"
proof -
  define slot where "slot = element_count idx"
  have none: "find_idx (live_id i) (nodes idx) = None" using new by (simp add: hnsw_get_def)
  let ?t = "max (int lv) (max_level idx)"
  define idx2 where "idx2 = hnsw_ensure_layers (with_node idx i lv v) ?t"
  note st = with_node_start [OF inv room, of i lv v ?t, folded idx2_def slot_def]
  obtain r idx3 where c: "r < element_count idx2" "connect idx2 slot v (layers_down (int lv)) r = Some idx3"
    "only_graph idx2 idx3" "hnsw_insert lv idx i v = Some (idx3, KANBUDB_VEC_OK)"
    using hnsw_insert_new [OF inv ef none room ep, of lv v, folded idx2_def slot_def] by blast
  have down: "layers_down (int lv) = lv # layers_down (int lv - 1)"
    using lv by (simp add: layers_down_def nat_add_distrib)
  have zero: "0 \<in> set (layers_down (int lv - 1))" using lv by (simp add: layers_down_bound)
  have dist: "distinct (layers_down (int lv))" by (simp add: layers_down_def)
  have all: "l < length (links idx2) \<and> fresh_in idx2 slot l" if "l \<in> set (layers_down (int lv))" for l
    using that st(1,2,6) by (auto simp: layers_down_bound)
  have mk: "2 \<le> max_keep idx2 0" using inv st(10) by (auto simp: max_keep_def hnsw_inv_def)
  have row: "links idx3 ! 0 = (links idx2 ! 0)[slot := [slot, slot]]"
    using connect_isolates_rest [of idx2 lv "layers_down (int lv - 1)" slot r 0 v idx3] st(2,3,4,5,7) ef all dist zero mk c(1,2)
    unfolding down [symmetric] by simp
  have lok: "layer_ok idx2 0" "fresh_in idx2 slot 0" using st(2) all [of 0] lv by (auto simp: layers_down_bound)
  have len: "slot < length (links idx2 ! 0)" using lok(1) st(3,4) by (simp add: layer_ok_def)
  have "(n, slot) \<notin> (step idx3 0)\<^sup>*" if "n < slot" for n
  proof
    assume "(n, slot) \<in> (step idx3 0)\<^sup>*"
    then show False using that
    proof (induction rule: converse_rtrancl_induct)
      case (step y z)
      have "z \<in> set (links idx2 ! 0 ! y)" using step.hyps(1) step.prems row by (simp add: step_def)
      moreover have "y < max_elements idx2" using step.prems st(3,4) by simp
      ultimately have "z < Suc slot" "z \<noteq> slot" using layer_okD(3) [OF lok(1)] lok(2) st(3) by (auto simp: fresh_in_def)
      with step.IH show False by simp
    qed simp
  qed
  with c(4) row len show ?thesis by (auto simp: slot_def)
qed

theorem hnsw_upper_node_isolated_witness:
  "\<exists>idx'. hnsw_insert 1 ex_index 9 [30] = Some (idx', KANBUDB_VEC_OK) \<and> links idx' ! 0 ! 2 = [2, 2] \<and>
    (\<forall>n<2. (n, 2) \<notin> (step idx' 0)\<^sup>*)"
proof -
  have "element_count ex_index = 2" "max_elements ex_index = 8" "enterpoint_idx ex_index = Some 0" "hnsw_get ex_index 9 = None"
    by code_simp+
  with hnsw_upper_node_isolated [OF ex_index_inv, of 9 0 1 "[30]"] show ?thesis by simp
qed

text \<open>
  C40. The greedy search of a layer ends, whatever the distances are, NaN included: every round that goes on has moved to a
  strictly smaller distance. It ends in a node, reached through live nodes, that none of its live neighbours improves on.
\<close>

theorem hnsw_greedy_search_terminates:
  assumes "hnsw_inv idx" and "layer < length (links idx)" and "ep < element_count idx"
  shows "\<exists>b. hnsw_greedy_search idx ep query layer = Some b \<and> b < element_count idx \<and> (ep, b) \<in> (step idx layer)\<^sup>* \<and>
    (\<forall>n. (b, n) \<in> step idx layer \<longrightarrow> \<not> f_less (node_dist idx query n) (node_dist idx query b))"
  using hnsw_greedy_search_ok [of layer idx ep query] assms by (auto simp: hnsw_inv_def local_best_def)

theorem hnsw_greedy_search_terminates_witness:
  "\<exists>b. hnsw_greedy_search ex_index 0 [45] 0 = Some b \<and> b < element_count ex_index \<and>
    (\<forall>n. (b, n) \<in> step ex_index 0 \<longrightarrow> \<not> f_less (node_dist ex_index [45] n) (node_dist ex_index [45] b))"
proof -
  have "0 < length (links ex_index)" "0 < element_count ex_index" by code_simp+
  with hnsw_greedy_search_terminates [OF ex_index_inv(1), of 0 0 "[45]"] show ?thesis by blast
qed

end
