(* ===== verification/Vec_Correct.thy ===== *)
theory Vec_Correct
  imports Vec_Index Hnsw_Graph
begin

text \<open>
  Proofs about the vector index of \<open>Vec_Index\<close>: both kinds of index are maps from ids to vectors under insertion, deletion,
  search and checkpoint, whatever the environment does; what the searches of a flat index return; and the files:
  an index that has been flushed once is recovered from its files at any later moment.
\<close>

section \<open>The index as a map\<close>

definition vec_inv :: "vec_index \<Rightarrow> bool" where
  "vec_inv idx \<longleftrightarrow> 0 < dimension idx \<and>
     length (flat_vectors idx) = flat_count idx \<and> length (flat_deleted idx) = flat_count idx \<and> unique_slots (flat_slots idx) \<and>
     (\<forall>h. algo_data idx = Some h \<longrightarrow> hnsw_inv h \<and> 1 \<le> h_ef_construction h \<and> h_dim h = dimension idx)"

text \<open>The log and the checkpoints change nothing that the data operations look at.\<close>

definition same_core :: "vec_index \<Rightarrow> vec_index \<Rightarrow> bool" where
  "same_core idx idx' \<longleftrightarrow> v_params idx' = v_params idx \<and> v_dist_func idx' = v_dist_func idx \<and> v_path idx' = v_path idx \<and>
     algo_data idx' = algo_data idx \<and> flat_vectors idx' = flat_vectors idx \<and> flat_ids idx' = flat_ids idx \<and>
     flat_deleted idx' = flat_deleted idx \<and> flat_capacity idx' = flat_capacity idx"

lemma same_core_refl [simp]: "same_core idx idx"
  by (simp add: same_core_def)

lemma same_core_trans: "same_core a b \<Longrightarrow> same_core b c \<Longrightarrow> same_core a c"
  by (simp add: same_core_def)

lemma same_core_upd [simp]:
  "same_core idx (idx'\<lparr>wal_fp := x\<rparr>) = same_core idx idx'" "same_core idx (idx'\<lparr>wal_bytes := n\<rparr>) = same_core idx idx'"
  "same_core idx (idx'\<lparr>v_dirty := b\<rparr>) = same_core idx idx'"
  by (simp_all add: same_core_def)

lemma same_core_inv: "same_core idx idx' \<Longrightarrow> vec_inv idx' = vec_inv idx \<and> kanbudb_vec_get idx' = kanbudb_vec_get idx"
  by (simp add: same_core_def vec_inv_def dimension_def flat_slots_def kanbudb_vec_get_def vec_find_idx_def fun_eq_iff
      split: option.splits)

lemma vec_inv_path [simp]:
  "vec_inv (idx\<lparr>v_path := p\<rparr>) = vec_inv idx" "kanbudb_vec_get (idx\<lparr>v_path := p\<rparr>) = kanbudb_vec_get idx"
  by (cases "algo_data idx"; simp add: vec_inv_def dimension_def flat_slots_def kanbudb_vec_get_def vec_find_idx_def fun_eq_iff)+

lemma wal_write_core [simp]: "same_core (snd s) (snd (fst (wal_write_record env cs s)))"
  by (auto simp: wal_write_record_def split: prod.splits option.splits if_splits)

lemma log_insert_core [simp]: "same_core (snd s) (snd (fst (log_insert env i v s)))"
  by (simp add: log_insert_def vec_wal_append_insert_def)

lemma vec_wal_close_core [simp]: "same_core (snd s) (snd (vec_wal_close s))"
  by (auto simp: vec_wal_close_def split: prod.splits option.splits)

lemma vec_checkpoint_core [simp]: "same_core (snd s) (snd (fst (vec_checkpoint env s)))"
proof (cases s)
  case (Pair fs idx)
  have "same_core idx (snd (vec_wal_close (fs1, idx)))" for fs1 using vec_wal_close_core [of "(fs1, idx)"] by simp
  then show ?thesis by (auto simp: Pair vec_checkpoint_def split: prod.splits option.splits)
      (metis snd_conv)+
qed

lemma auto_checkpoint_core [simp]: "same_core (snd (fst r)) (snd (fst (auto_checkpoint env r)))"
  by (cases r) (simp add: auto_checkpoint_def)

lemma auto_checkpoint_rc [simp]: "snd (auto_checkpoint env r) = snd r"
  by (cases r) (simp add: auto_checkpoint_def)

lemma logged_core: "same_core (snd s) (snd (fst (auto_checkpoint env (fst (log_insert env i v s), rc))))"
  by (rule same_core_trans [OF log_insert_core])
    (use auto_checkpoint_core [of "(fst (log_insert env i v s), rc)" env] in simp)

lemma flat_get: "algo_data idx = None \<Longrightarrow> kanbudb_vec_get idx = slot_map (flat_slots idx) (flat_vectors idx)"
  by (simp add: fun_eq_iff kanbudb_vec_get_def slot_map_def vec_find_idx_def)

lemma flat_slots_len: "vec_inv idx \<Longrightarrow> length (flat_slots idx) = flat_count idx \<and> length (flat_vectors idx) = length (flat_slots idx)"
  by (simp add: vec_inv_def flat_slots_def)

lemma flat_update_ok:
  assumes inv: "vec_inv idx" and flat: "algo_data idx = None" and j: "vec_find_idx idx i = Some j"
  shows "vec_inv (flat_update idx j v) \<and> kanbudb_vec_get (flat_update idx j v) = (kanbudb_vec_get idx)(i \<mapsto> take (dimension idx) v)"
proof -
  have jl: "j < length (flat_slots idx)" "slot_is i (flat_slots idx ! j)"
    using j by (simp_all add: vec_find_idx_def find_idx_Some)
  then have "(flat_deleted idx)[j := False] = flat_deleted idx"
    by (auto simp: flat_slots_def slot_is_def intro: list_update_same_conv [THEN iffD2])
  then have slots: "flat_slots (flat_update idx j v) = flat_slots idx" by (simp add: flat_slots_def flat_update_def)
  have "vec_inv (flat_update idx j v)" using inv slots flat by (simp add: vec_inv_def flat_update_def dimension_def)
  moreover have "kanbudb_vec_get (flat_update idx j v) = (kanbudb_vec_get idx)(i \<mapsto> take (dimension idx) v)"
    using slot_map_update [of i "flat_slots idx" j "flat_vectors idx"] j flat flat_slots_len [OF inv] slots
    by (simp add: flat_get vec_find_idx_def) (simp add: flat_update_def flat_get)
  ultimately show ?thesis by simp
qed

lemma flat_append_ok:
  assumes inv: "vec_inv idx" and flat: "algo_data idx = None" and "vec_find_idx idx i = None"
  shows "vec_inv (flat_append idx i v) \<and> kanbudb_vec_get (flat_append idx i v) = (kanbudb_vec_get idx)(i \<mapsto> take (dimension idx) v)"
proof -
  have slots: "flat_slots (flat_append idx i v) = flat_slots idx @ [(i, False)]"
    using inv by (simp add: flat_slots_def flat_append_def vec_inv_def)
  have none: "find_idx (slot_is i) (flat_slots idx) = None" using assms(3) by (simp add: vec_find_idx_def)
  have "vec_inv (flat_append idx i v)"
    using inv flat unique_slots_append [OF none] slots by (simp add: vec_inv_def dimension_def flat_append_def)
  moreover have "kanbudb_vec_get (flat_append idx i v) = (kanbudb_vec_get idx)(i \<mapsto> take (dimension idx) v)"
    using slot_map_append [OF none] flat_slots_len [OF inv] flat slots by (simp add: flat_get flat_append_def)
  ultimately show ?thesis by simp
qed

lemma flat_delete_ok:
  assumes inv: "vec_inv idx" and flat: "algo_data idx = None" and j: "vec_find_idx idx i = Some j"
  shows "vec_inv (flat_mark_deleted idx j) \<and> kanbudb_vec_get (flat_mark_deleted idx j) = (kanbudb_vec_get idx)(i := None)"
proof -
  have jl: "j < length (flat_slots idx)" "slot_is i (flat_slots idx ! j)" "find_idx (slot_is i) (flat_slots idx) = Some j"
    using j by (simp_all add: vec_find_idx_def find_idx_Some)
  then have "flat_ids idx ! j = i" by (simp add: slot_is_def flat_slots_def)
  then have "(flat_ids idx)[j := i] = flat_ids idx" using list_update_id [of "flat_ids idx" j] by simp
  then have slots: "flat_slots (flat_mark_deleted idx j) = (flat_slots idx)[j := (i, True)]"
    using jl(1) by (simp add: flat_slots_def flat_mark_deleted_def zip_update [symmetric])
  have u: "unique_slots (flat_slots idx)" using inv by (simp add: vec_inv_def)
  have "vec_inv (flat_mark_deleted idx j)"
    using inv flat slots unique_slots_delete [OF jl(1) u] by (simp add: vec_inv_def flat_mark_deleted_def dimension_def)
  moreover have "kanbudb_vec_get (flat_mark_deleted idx j) = (kanbudb_vec_get idx)(i := None)"
    using slot_map_delete [OF jl(3) u] flat slots by (simp add: flat_get) (simp add: flat_get flat_mark_deleted_def)
  ultimately show ?thesis by simp
qed

lemma grow_cases:
  assumes "0 < dimension idx"
  shows "\<exists>c rc. (if flat_count idx \<ge> flat_capacity idx then vec_grow idx else Some (idx, KANBUDB_VEC_OK)) =
    Some (idx\<lparr>flat_capacity := c\<rparr>, rc) \<and> rc \<in> {KANBUDB_VEC_OK, KANBUDB_VEC_ERR_OOM}"
proof (cases "flat_count idx \<ge> flat_capacity idx \<and> \<not> flat_capacity idx \<ge> ((2 ^ 64 - 1) div 4) div dimension idx")
  case True
  then show ?thesis using assms
    by (intro exI [of _ "if flat_capacity idx \<noteq> 0 then flat_capacity idx * 2 else 1024"] exI [of _ KANBUDB_VEC_OK])
      (simp add: vec_grow_def Let_def)
next
  case False
  then have "(if flat_count idx \<ge> flat_capacity idx then vec_grow idx else Some (idx, KANBUDB_VEC_OK)) =
    Some (idx\<lparr>flat_capacity := flat_capacity idx\<rparr>, if flat_count idx \<ge> flat_capacity idx then KANBUDB_VEC_ERR_OOM else KANBUDB_VEC_OK)"
    using assms by (auto simp: vec_grow_def Let_def)
  then show ?thesis
    by (intro exI [of _ "flat_capacity idx"] exI [of _ "if flat_count idx \<ge> flat_capacity idx then KANBUDB_VEC_ERR_OOM else KANBUDB_VEC_OK"]) simp
qed

text \<open>An insertion, whatever the environment does to the log.\<close>

lemma vec_insert_flat:
  assumes inv: "vec_inv idx" and flat: "algo_data idx = None"
  shows "\<exists>s' rc. kanbudb_vec_insert env (fs, idx) i v = Some (s', rc) \<and> vec_inv (snd s') \<and>
    kanbudb_vec_get (snd s') = (if rc = KANBUDB_VEC_ERR_OOM then kanbudb_vec_get idx else (kanbudb_vec_get idx)(i \<mapsto> take (dimension idx) v))"
proof (cases "vec_find_idx idx i")
  case (Some j)
  define s1 where "s1 = (fs, (flat_update idx j v)\<lparr>v_dirty := True\<rparr>)"
  define s2 where "s2 = fst (auto_checkpoint env (fst (log_insert env i v s1), KANBUDB_VEC_OK))"
  have "same_core (flat_update idx j v) (snd s1)" by (simp add: s1_def)
  moreover have "same_core (snd s1) (snd s2)"
    using logged_core by (simp add: s2_def)
  ultimately have core: "same_core (flat_update idx j v) (snd s2)" by (rule same_core_trans)
  have "kanbudb_vec_insert env (fs, idx) i v = Some (s2, KANBUDB_VEC_OK)"
    using flat Some by (simp add: kanbudb_vec_insert_def s1_def [symmetric]) (simp add: s2_def prod_eq_iff)
  then show ?thesis using same_core_inv [OF core] flat_update_ok [OF inv flat Some, of v] by auto
next
  case None
  define g where "g = (if flat_count idx \<ge> flat_capacity idx then vec_grow idx else Some (idx, KANBUDB_VEC_OK))"
  obtain c rc where gc: "g = Some (idx\<lparr>flat_capacity := c\<rparr>, rc)" "rc \<in> {KANBUDB_VEC_OK, KANBUDB_VEC_ERR_OOM}"
    using grow_cases [of idx] inv by (auto simp: g_def vec_inv_def)
  define idx1 where c: "idx1 = idx\<lparr>flat_capacity := c\<rparr>"
  note g = gc [folded c]
  have same: "vec_inv idx1 = vec_inv idx" "kanbudb_vec_get idx1 = kanbudb_vec_get idx" "vec_find_idx idx1 i = None"
    "algo_data idx1 = None" "dimension idx1 = dimension idx"
    using None flat by (simp_all add: c vec_inv_def dimension_def flat_slots_def kanbudb_vec_get_def vec_find_idx_def fun_eq_iff)
  show ?thesis
  proof (cases "rc = KANBUDB_VEC_OK")
    case False
    then have "kanbudb_vec_insert env (fs, idx) i v = Some ((fs, idx1), KANBUDB_VEC_ERR_OOM)"
      using flat None g by (simp add: kanbudb_vec_insert_def g_def [symmetric])
    then show ?thesis using same inv by auto
  next
    case True
    define s1 where "s1 = (fs, (flat_append idx1 i v)\<lparr>v_dirty := True\<rparr>)"
    define r where "r = auto_checkpoint env (log_insert env i v s1)"
    have "same_core (flat_append idx1 i v) (snd s1)" by (simp add: s1_def)
    moreover have "same_core (snd s1) (snd (fst r))"
      using logged_core [of s1 env i v "snd (log_insert env i v s1)"] by (simp add: r_def)
    ultimately have core: "same_core (flat_append idx1 i v) (snd (fst r))" by (rule same_core_trans)
    have "kanbudb_vec_insert env (fs, idx) i v = Some (fst r, snd r)"
      using flat None g True by (simp add: kanbudb_vec_insert_def g_def [symmetric]) (simp add: r_def s1_def)
    moreover have "snd r \<noteq> KANBUDB_VEC_ERR_OOM"
      by (auto simp: r_def log_insert_def vec_wal_append_insert_def wal_write_record_def split: prod.splits option.splits)
    ultimately show ?thesis using same_core_inv [OF core] flat_append_ok [of idx1 i v] same inv
      by (intro exI [of _ "fst r"] exI [of _ "snd r"]) simp
  qed
qed

lemma vec_inv_hnsw:
  assumes "vec_inv idx" and "hnsw_inv h" "1 \<le> h_ef_construction h" "h_dim h = dimension idx"
  shows "vec_inv (idx\<lparr>algo_data := Some h\<rparr>)" "kanbudb_vec_get (idx\<lparr>algo_data := Some h\<rparr>) = hnsw_get h"
  using assms by (simp_all add: vec_inv_def dimension_def flat_slots_def kanbudb_vec_get_def fun_eq_iff)

lemma vec_insert_ok:
  assumes inv: "vec_inv (snd s)"
  shows "\<exists>s' rc. kanbudb_vec_insert env s i v = Some (s', rc) \<and> vec_inv (snd s') \<and>
    kanbudb_vec_get (snd s') = (if rc = KANBUDB_VEC_ERR_OOM then kanbudb_vec_get (snd s)
      else (kanbudb_vec_get (snd s))(i \<mapsto> take (dimension (snd s)) v))"
proof (cases "algo_data (snd s)")
  case None
  then show ?thesis using vec_insert_flat [OF inv None, of env "fst s" i v] by simp
next
  case (Some h)
  obtain fs idx where s: "s = (fs, idx)" by (cases s)
  have h: "hnsw_inv h" "1 \<le> h_ef_construction h" "h_dim h = dimension idx" using inv Some by (auto simp: vec_inv_def s)
  have get: "kanbudb_vec_get idx = hnsw_get h" using Some by (simp add: s kanbudb_vec_get_def fun_eq_iff)
  show ?thesis
  proof (cases "hnsw_get h i \<noteq> None \<or> element_count h < max_elements h")
    case True
    then obtain h' where h': "hnsw_insert (v_level env 0) h i v = Some (h', KANBUDB_VEC_OK)" "hnsw_inv h'"
      "hnsw_get h' = (hnsw_get h)(i \<mapsto> take (h_dim h) v)" "h_ef_construction h' = h_ef_construction h" "h_dim h' = h_dim h"
      using hnsw_insert_correct_aux [OF h(1,2), of i "v_level env 0" v] by blast
    define s1 where "s1 = (fs, idx\<lparr>algo_data := Some h', v_dirty := True\<rparr>)"
    define r where "r = auto_checkpoint env (fst (log_insert env i v s1), KANBUDB_VEC_OK)"
    have "same_core (idx\<lparr>algo_data := Some h'\<rparr>) (snd s1)" by (simp add: s1_def)
    then have core: "same_core (idx\<lparr>algo_data := Some h'\<rparr>) (snd (fst r))"
      using same_core_trans logged_core [of s1 env i v KANBUDB_VEC_OK] unfolding r_def by blast
    have "vec_inv (idx\<lparr>algo_data := Some h'\<rparr>)" "kanbudb_vec_get (idx\<lparr>algo_data := Some h'\<rparr>) = hnsw_get h'"
      using vec_inv_hnsw [of idx h'] inv h h' by (simp_all add: s)
    moreover have "kanbudb_vec_insert env s i v = Some (fst r, KANBUDB_VEC_OK)"
      using Some h'(1) by (simp add: s kanbudb_vec_insert_def s1_def [symmetric]) (simp add: r_def prod_eq_iff)
    ultimately show ?thesis using same_core_inv [OF core] h' h get by (simp add: s)
  next
    case False
    then have full: "hnsw_insert (v_level env 0) h i v = Some (h, KANBUDB_VEC_ERR_OOM)"
      by (simp add: hnsw_insert_def hnsw_get_def)
    have "idx\<lparr>algo_data := Some h\<rparr> = idx" using Some by (simp add: s)
    then have "kanbudb_vec_insert env s i v = Some (s, KANBUDB_VEC_ERR_OOM)"
      using Some full by (simp add: s kanbudb_vec_insert_def auto_checkpoint_def)
    then show ?thesis using inv by auto
  qed
qed

lemma vec_delete_ok:
  assumes inv: "vec_inv (snd s)"
  shows "vec_inv (snd (fst (kanbudb_vec_delete env s i))) \<and>
    kanbudb_vec_get (snd (fst (kanbudb_vec_delete env s i))) = (kanbudb_vec_get (snd s))(i := None) \<and>
    snd (kanbudb_vec_delete env s i) = (if kanbudb_vec_get (snd s) i = None then KANBUDB_VEC_ERR_NOTFOUND else KANBUDB_VEC_OK)"
proof -
  obtain fs idx where s: "s = (fs, idx)" by (cases s)
  define lg where "lg = (\<lambda>s1. if wal_fp (snd s1) \<noteq> None then fst (vec_wal_append_delete env i s1) else s1)"
  have lg: "same_core (snd s1) (snd (lg s1))" for s1 by (simp add: lg_def vec_wal_append_delete_def)
  show ?thesis
  proof (cases "algo_data idx")
    case None
    show ?thesis
    proof (cases "vec_find_idx idx i")
      case None
      then show ?thesis using inv \<open>algo_data idx = None\<close> by (simp add: s kanbudb_vec_delete_def kanbudb_vec_get_def fun_upd_idem)
    next
      case (Some j)
      have "same_core (flat_mark_deleted idx j) (snd (lg (fs, (flat_mark_deleted idx j)\<lparr>v_dirty := True\<rparr>)))"
        using lg [of "(fs, (flat_mark_deleted idx j)\<lparr>v_dirty := True\<rparr>)"] by (simp add: same_core_def)
      note core = same_core_inv [OF this]
      have "kanbudb_vec_get idx i \<noteq> None" using None Some by (simp add: kanbudb_vec_get_def)
      moreover have "kanbudb_vec_delete env s i = (lg (fs, (flat_mark_deleted idx j)\<lparr>v_dirty := True\<rparr>), KANBUDB_VEC_OK)"
        using None Some by (simp add: s kanbudb_vec_delete_def lg_def Let_def)
      ultimately show ?thesis using core flat_delete_ok [OF _ None Some] inv by (simp add: s)
    qed
  next
    case (Some h)
    have h: "hnsw_inv h" "1 \<le> h_ef_construction h" "h_dim h = dimension idx" using inv Some by (auto simp: vec_inv_def s)
    have get: "kanbudb_vec_get idx = hnsw_get h" using Some by (simp add: kanbudb_vec_get_def fun_eq_iff)
    show ?thesis
    proof (cases "find_idx (live_id i) (nodes h)")
      case None
      have "hnsw_get h i = None" using None by (simp add: hnsw_get_def)
      then show ?thesis using inv Some None get vec_inv_hnsw [of idx h] h
        by (simp add: s kanbudb_vec_delete_def hnsw_delete_def fun_upd_idem)
    next
      case (Some j)
      define h' where "h' = fst (hnsw_delete h i)"
      have h': "hnsw_inv h'" "hnsw_get h' = (hnsw_get h)(i := None)" using hnsw_delete_correct_aux [OF h(1) Some] by (simp_all add: h'_def)
      have del: "hnsw_delete h i = (h', KANBUDB_VEC_OK)" "h_ef_construction h' = h_ef_construction h" "h_dim h' = h_dim h"
        using Some by (simp_all add: h'_def hnsw_delete_def Let_def)
      have "same_core (idx\<lparr>algo_data := Some h'\<rparr>) (snd (lg (fs, idx\<lparr>algo_data := Some h', v_dirty := True\<rparr>)))"
        using lg [of "(fs, idx\<lparr>algo_data := Some h', v_dirty := True\<rparr>)"] by (simp add: same_core_def)
      note core = same_core_inv [OF this]
      have "vec_inv (idx\<lparr>algo_data := Some h'\<rparr>)" "kanbudb_vec_get (idx\<lparr>algo_data := Some h'\<rparr>) = hnsw_get h'"
        using vec_inv_hnsw [of idx h'] inv h h' del by (simp_all add: s)
      moreover have "kanbudb_vec_delete env s i = (lg (fs, idx\<lparr>algo_data := Some h', v_dirty := True\<rparr>), KANBUDB_VEC_OK)"
        using \<open>algo_data idx = Some h\<close> del by (simp add: s kanbudb_vec_delete_def lg_def Let_def)
      moreover have "kanbudb_vec_get idx i \<noteq> None" using get Some by (simp add: hnsw_get_def)
      ultimately show ?thesis using core h' get by (simp add: s)
    qed
  qed
qed

text \<open>
  The runs of an index on files, with the map that they should produce. Every step has its own environment. An insertion that
  reports an error of the log has happened in memory all the same.
\<close>

inductive vec_run :: "file_system \<times> vec_index \<Rightarrow> (u64 \<rightharpoonup> vec) \<Rightarrow> bool" where
  create: "kanbudb_vec_create env ks fs p ps = (fs', Inr idx) \<Longrightarrow>
     p_algo ps = KANBUDB_VEC_ALGO_HNSW \<longrightarrow> 1 \<le> sint (p_ef_construction ps) \<Longrightarrow> vec_run (fs', idx) Map.empty"
| insert: "vec_run s m \<Longrightarrow> kanbudb_vec_insert env s i v = Some (s', rc) \<Longrightarrow> rc \<noteq> KANBUDB_VEC_ERR_OOM \<Longrightarrow>
     vec_run s' (m(i \<mapsto> take (dimension (snd s)) v))"
| full: "vec_run s m \<Longrightarrow> kanbudb_vec_insert env s i v = Some (s', KANBUDB_VEC_ERR_OOM) \<Longrightarrow> vec_run s' m"
| delete: "vec_run s m \<Longrightarrow> kanbudb_vec_delete env s i = (s', rc) \<Longrightarrow> vec_run s' (m(i := None))"
| search: "vec_run (fs, idx) m \<Longrightarrow> kanbudb_vec_search qsort idx query k = Some (idx', rs) \<Longrightarrow> vec_run (fs, idx') m"
| flush: "vec_run s m \<Longrightarrow> kanbudb_vec_flush env s = (s', rc) \<Longrightarrow> vec_run s' m"

lemma vec_wal_open_core [simp]: "same_core (snd s) (snd (fst (vec_wal_open env s)))"
  by (auto simp: vec_wal_open_def Let_def split: prod.splits option.splits)

lemma nat_sint_pos:
  fixes w :: u32
  assumes "0 < sint w"
  shows "nat (sint w) = unat w"
proof -
  have "sint w < 2 ^ 31" using sint_lt [of w] by simp
  then have "take_bit 32 (sint w) = sint w" using assms by (simp add: take_bit_int_eq_self)
  then have "uint w = sint w" by (simp add: uint_sint)
  then show ?thesis by (simp flip: nat_uint_eq)
qed

lemma vec_alloc_ok:
  assumes "vec_alloc ks ps = Inr idx" and "p_dimension ps \<noteq> 0"
    and "p_algo ps = KANBUDB_VEC_ALGO_HNSW \<longrightarrow> 1 \<le> sint (p_ef_construction ps)"
  shows "vec_inv idx \<and> kanbudb_vec_get idx = Map.empty"
proof (cases "p_algo ps = KANBUDB_VEC_ALGO_HNSW")
  case True
  then obtain h where h: "hnsw_create (sint (p_dimension ps)) (sint (p_M ps)) (sint (p_ef_construction ps)) (sint (p_ef_search ps))
      (if p_initial_capacity ps > 0 then sint (p_initial_capacity ps) else 4096 * 1024) (vec_get_dist_func ks (p_metric ps)) = Inr h"
    "idx = (empty_index ps (vec_get_dist_func ks (p_metric ps)) None)\<lparr>algo_data := Some h\<rparr>"
    using assms(1) by (auto simp: vec_alloc_def Let_def split: sum.splits)
  have "hnsw_inv h" "hnsw_get h = Map.empty" using hnsw_create_inv [OF h(1)] by auto
  moreover have "h_dim h = unat (p_dimension ps)" "h_ef_construction h = sint (p_ef_construction ps)"
    using h(1) nat_sint_pos [of "p_dimension ps"] by (auto simp: hnsw_create_def split: if_splits)
  ultimately show ?thesis using assms(2,3) True h(2)
    by (auto simp: vec_inv_def empty_index_def dimension_def flat_slots_def unique_slots_def live_slots_def
        kanbudb_vec_get_def fun_eq_iff unat_gt_0)
next
  case False
  then show ?thesis using assms
    by (auto simp: vec_alloc_def Let_def vec_inv_def empty_index_def dimension_def flat_slots_def unique_slots_def live_slots_def
        kanbudb_vec_get_def fun_eq_iff vec_find_idx_def unat_gt_0 split: if_splits)
qed

lemma vec_create_ok:
  assumes "kanbudb_vec_create env ks fs p ps = (fs', Inr idx)" and "p_algo ps = KANBUDB_VEC_ALGO_HNSW \<longrightarrow> 1 \<le> sint (p_ef_construction ps)"
  shows "vec_inv idx \<and> kanbudb_vec_get idx = Map.empty"
proof -
  obtain idx0 where a: "p_dimension ps \<noteq> 0" "vec_alloc ks ps = Inr idx0"
    using assms(1) by (auto simp: kanbudb_vec_create_def split: if_splits sum.splits)
  note ok = vec_alloc_ok [OF a(2,1) assms(2)]
  show ?thesis
  proof (cases "p \<noteq> None \<and> p_enable_persistence ps")
    case True
    then obtain d where d: "p = Some d" by blast
    have "snd (fst (vec_wal_open env (fs, idx0\<lparr>v_path := Some d\<rparr>))) = idx"
      using assms(1) a True d by (auto simp: kanbudb_vec_create_def split: prod.splits if_splits)
    then have "same_core (idx0\<lparr>v_path := Some d\<rparr>) idx" using vec_wal_open_core [of "(fs, idx0\<lparr>v_path := Some d\<rparr>)" env] by simp
    from same_core_inv [OF this] ok show ?thesis by simp
  next
    case False
    then have "idx = idx0" using assms(1) a by (auto simp: kanbudb_vec_create_def split: option.splits if_splits)
    then show ?thesis using ok by simp
  qed
qed

lemma vec_run_map:
  assumes "vec_run s m"
  shows "vec_inv (snd s) \<and> kanbudb_vec_get (snd s) = m"
  using assms
proof (induction rule: vec_run.induct)
  case (create env ks fs p ps fs' idx)
  then show ?case using vec_create_ok by auto
next
  case (insert s m env i v s' rc)
  then show ?case using vec_insert_ok [of s env i v] by auto
next
  case (full s m env i v s')
  then show ?case using vec_insert_ok [of s env i v] by auto
next
  case (delete s m env i s' rc)
  then show ?case using vec_delete_ok [of s env i] by auto
next
  case (search fs idx m qsort query k idx' rs)
  show ?case
  proof (cases "algo_data idx")
    case None
    then show ?thesis using search by (auto simp: kanbudb_vec_search_def split: if_splits)
  next
    case (Some h)
    show ?thesis
    proof (cases "k = 0")
      case False
      then obtain h' rs' where h': "hnsw_search h query (sint k) = Some (h', rs')" "idx' = idx\<lparr>algo_data := Some h'\<rparr>"
        using search.hyps Some by (auto simp: kanbudb_vec_search_def split: option.splits)
      have h: "hnsw_inv h" "1 \<le> h_ef_construction h" "h_dim h = dimension idx" using search.IH Some by (auto simp: vec_inv_def)
      have g: "hnsw_inv h'" "same_graph h h'" using hnsw_search_same [OF h(1) h'(1)] by auto
      note f = same_graph_fields [OF g(2)]
      have "hnsw_get h' = hnsw_get h" by (simp add: hnsw_get_map slots_of_def f)
      moreover have "kanbudb_vec_get idx = hnsw_get h" using Some by (simp add: kanbudb_vec_get_def fun_eq_iff)
      ultimately show ?thesis using vec_inv_hnsw [of idx h'] search.IH g h f h'(2) by simp
    qed (use search in \<open>simp add: kanbudb_vec_search_def\<close>)
  qed
next
  case (flush s m env s' rc)
  have "same_core (snd s) (snd (fst (kanbudb_vec_flush env s)))" by (simp add: kanbudb_vec_flush_def)
  then have "same_core (snd s) (snd s')" using flush.hyps(2) by simp
  from same_core_inv [OF this] flush.IH show ?case by simp
qed

text \<open>An example: vectors of one number, and the stored number as its distance from every query.\<close>


definition ex_env :: vec_env where
  "ex_env = \<lparr>v_fopen = (\<lambda>p. True), v_fwrite = length, v_time = 7, v_level = (\<lambda>n. 0), v_thread = True\<rparr>"

definition ex_kernels :: dist_kernels where
  "ex_kernels = \<lparr>k_l2 = (\<lambda>a b. hd (b @ [0])), k_cosine = (\<lambda>a b. 0), k_ip = (\<lambda>a b. 0)\<rparr>"

definition ex_params :: vec_params where
  "ex_params = \<lparr>p_algo = KANBUDB_VEC_ALGO_FLAT, p_metric = 0, p_dimension = 1, p_initial_capacity = 4, p_enable_persistence = True,
     p_M = 0, p_ef_construction = 0, p_ef_search = 0\<rparr>"

definition ex_flat :: vec_index where
  "ex_flat = (empty_index ex_params (k_l2 ex_kernels) None)\<lparr>flat_vectors := [[0], [50], [10]], flat_ids := [1, 2, 3],
     flat_deleted := [False, False, False], flat_capacity := 4\<rparr>"


section \<open>The searches of a flat index\<close>

abbreviation ckey :: "'n cand \<Rightarrow> int" where
  "ckey c \<equiv> f_key (fst c)"

definition nonneg :: "'n cand \<Rightarrow> bool" where
  "nonneg c \<longleftrightarrow> \<not> f_nan (fst c) \<and> 0 \<le> ckey c"

lemma nonneg_ok [simp]: "nonneg c \<Longrightarrow> cand_ok c"
  by (simp add: nonneg_def cand_ok_def)

lemma f_zero_le: "f_le f_zero d \<longleftrightarrow> \<not> f_nan d \<and> 0 \<le> f_key d"
  by (simp add: f_le_def f_zero_def f_nan_def f_key_def f_abs_def)

text \<open>After a scan of \<open>P\<close> the array holds a part of it, and an entry as near as any of \<open>P\<close>.\<close>

definition topk_inv :: "nat \<Rightarrow> 'n cand list \<Rightarrow> 'n cand list \<Rightarrow> bool" where
  "topk_inv k P h \<longleftrightarrow> length h = min k (length P) \<and> mset h \<subseteq># mset P \<and> (length h = k \<longrightarrow> minh.is_heap h) \<and>
     (\<forall>c\<in>set P. \<exists>e\<in>set h. ckey e \<le> ckey c)"

lemma build_heap_full:
  assumes "\<forall>c\<in>set h. cand_ok c"
  shows "minh.is_heap (build_heap near h (length h div 2))"
  using minh.build_heap_heap [OF minh.heap_from_half _ assms] by simp

lemma heap_push_replaces:
  assumes "minh.is_heap h" and "h \<noteq> []" and "\<forall>c\<in>set h. nonneg c" and "nonneg e" and "ckey e < ckey (h ! 0)"
  shows "minh.is_heap (heap_push h (fst e) (snd e)) \<and> mset (heap_push h (fst e) (snd e)) = mset h - {#h ! 0#} + {#e#}"
proof -
  have "\<not> f_le (fst (h ! 0)) (fst e)" using assms(5) by (simp add: f_le_def)
  then have push: "heap_push h (fst e) (snd e) = sift_down near (h[0 := e]) 0" by (simp add: heap_push_def)
  have "\<forall>c\<in>set (h[0 := e]). cand_ok c" using assms(3,4) set_update_subset_insert [of h 0 e] nonneg_ok by blast
  then have "minh.is_heap (sift_down near (h[0 := e]) 0)"
    using minh.sift_down_heap minh.heap_but_replace_root [OF assms(1,2)] by blast
  moreover have "mset (h[0 := e]) = mset h - {#h ! 0#} + {#e#}" using assms(2) by (simp add: mset_update)
  ultimately show ?thesis by (simp add: push)
qed

lemma heap_push_keeps:
  assumes "nonneg (h ! 0)" and "nonneg e" and "ckey (h ! 0) \<le> ckey e"
  shows "heap_push h (fst e) (snd e) = h"
proof -
  have "f_le f_zero (fst (h ! 0))" using assms(1) by (simp add: f_zero_le nonneg_def)
  moreover have "f_le (fst (h ! 0)) (fst e)" using assms by (simp add: f_le_def nonneg_def)
  ultimately show ?thesis by (simp add: heap_push_def)
qed

lemma topk_step:
  assumes inv: "topk_inv k P h" and k: "0 < k" and nn: "\<forall>c\<in>set (P @ [e]). nonneg c"
  shows "topk_inv k (P @ [e]) (top_k_step k e h)"
proof (cases "length h < k")
  case True
  then have len: "length h = length P" using inv by (auto simp: topk_inv_def)
  define h' where "h' = top_k_step k e h"
  have m: "mset h' = add_mset e (mset h)" using True by (simp add: h'_def top_k_step_def Let_def)
  have sub: "mset h' \<subseteq># mset (P @ [e])" using inv by (simp add: m topk_inv_def)
  have "minh.is_heap h'" if "length h' = k"
  proof -
    have l: "length (h @ [e]) = k" using that mset_eq_length [of h' "h @ [e]"] m by simp
    have "\<forall>c\<in>set (h @ [e]). cand_ok c" using inv nn set_mset_mono [of "mset h" "mset P"] by (auto simp: topk_inv_def)
    from build_heap_full [OF this] show ?thesis using l True by (simp add: h'_def top_k_step_def Let_def)
  qed
  moreover have "length h' = min k (length (P @ [e]))" using True len mset_eq_length [of h' "h @ [e]"] m by simp
  moreover have "\<exists>x\<in>set h'. ckey x \<le> ckey c" if "c \<in> set (P @ [e])" for c
    using that inv set_mset_add [OF m] by (auto simp: topk_inv_def)
  ultimately show ?thesis using sub by (simp add: topk_inv_def h'_def)
next
  case False
  then have full: "length h = k" "k \<le> length P" and heap: "minh.is_heap h" using inv by (auto simp: topk_inv_def)
  have ne: "h \<noteq> []" using full k by auto
  have hn: "\<forall>c\<in>set h. nonneg c" using inv nn set_mset_mono [of "mset h" "mset P"] by (auto simp: topk_inv_def)
  have step: "top_k_step k e h = heap_push h (fst e) (snd e)" using False by (simp add: top_k_step_def)
  have root: "h ! 0 \<in> set h" "\<And>x. x \<in> set h \<Longrightarrow> ckey (h ! 0) \<le> ckey x"
    using ne by simp (metis in_set_conv_nth minh.root_least [OF heap])
  show ?thesis
  proof (cases "ckey e < ckey (h ! 0)")
    case True
    note push = heap_push_replaces [OF heap ne hn _ True]
    have m: "mset (top_k_step k e h) = mset h - {#h ! 0#} + {#e#}" and hp: "minh.is_heap (top_k_step k e h)"
      using push nn by (simp_all add: step)
    have "mset h - {#h ! 0#} \<subseteq># mset P" using inv by (meson diff_subset_eq_self subset_mset.order_trans topk_inv_def)
    then have sub: "mset (top_k_step k e h) \<subseteq># mset (P @ [e])" by (simp add: m)
    have len: "length (top_k_step k e h) = k"
      using m full root(1) by (metis add_mset_add_single insert_DiffM size_add_mset size_mset in_multiset_in_set)
    have e: "e \<in> set (top_k_step k e h)" using m by (metis add_mset_add_single set_mset_mset union_single_eq_member)
    have "\<exists>x\<in>set (top_k_step k e h). ckey x \<le> ckey c" if c: "c \<in> set (P @ [e])" for c
    proof (cases "c = e")
      case False
      then obtain x where "x \<in> set h" "ckey x \<le> ckey c" using c inv by (auto simp: topk_inv_def)
      then have "ckey e \<le> ckey c" using root(2) [of x] True by simp
      then show ?thesis using e by blast
    qed (use e in blast)
    then show ?thesis using sub len hp full by (simp add: topk_inv_def)
  next
    case False
    then have "top_k_step k e h = h" using heap_push_keeps [of h e] hn root(1) nn by (simp add: step)
    moreover have "mset h \<subseteq># mset (P @ [e])"
      using inv subset_mset.order_trans [of "mset h" "mset P" "mset (P @ [e])"] by (simp add: topk_inv_def)
    moreover have "\<exists>x\<in>set h. ckey x \<le> ckey c" if "c \<in> set (P @ [e])" for c
      using that False root(1) inv by (auto simp: topk_inv_def not_less)
    ultimately show ?thesis using full heap by (simp add: topk_inv_def)
  qed
qed

lemma topk_fold:
  assumes "0 < k"
  shows "\<forall>c\<in>set cs. nonneg c \<Longrightarrow> topk_inv k cs (fold (top_k_step k) cs [])"
proof (induction cs rule: rev_induct)
  case Nil
  then show ?case using assms by (simp add: topk_inv_def)
next
  case (snoc c cs)
  then show ?case using topk_step [OF _ assms, of cs "fold (top_k_step k) cs []" c] by simp
qed

lemma topk_first:
  assumes k: "0 < k" and ok: "\<forall>c\<in>set (c0 # cs). nonneg c" and least: "\<forall>c\<in>set cs. ckey c0 \<le> ckey c"
  shows "mset (fold (top_k_step k) (c0 # cs) []) = mset (take k (c0 # cs))"
  using ok least
proof (induction cs rule: rev_induct)
  case Nil
  then show ?case using k by (cases k) (simp_all add: top_k_step_def Let_def)
next
  case (snoc c cs)
  define h where "h = fold (top_k_step k) (c0 # cs) []"
  have m: "mset h = mset (take k (c0 # cs))" unfolding h_def using snoc by simp
  then have len: "length h = min k (Suc (length cs))" using mset_eq_length [OF m] by simp
  have inv: "topk_inv k (c0 # cs) h" unfolding h_def using topk_fold [OF k, of "c0 # cs"] snoc.prems by simp
  have step: "fold (top_k_step k) (c0 # cs @ [c]) [] = top_k_step k c h" by (simp add: h_def)
  show ?case
  proof (cases "length h < k")
    case True
    then have "mset (top_k_step k c h) = add_mset c (mset h)" by (simp add: top_k_step_def Let_def)
    then show ?thesis using True len m step by (simp add: min_def split: if_splits)
  next
    case False
    then have full: "length h = k" "k \<le> Suc (length cs)" using len by auto
    have c0: "c0 \<in> set h" using mset_eq_setD [OF m] k by (cases k) simp_all
    then have hp: "minh.is_heap h" "0 < length h" using inv full by (auto simp: topk_inv_def)
    have "h ! 0 \<in> set h" using hp(2) by simp
    then have nn: "nonneg (h ! 0)" using snoc.prems(1) mset_eq_setD [OF m] set_take_subset [of k "c0 # cs"] by auto
    have "ckey (h ! 0) \<le> ckey c0" using c0 minh.root_least [OF hp(1)] by (metis in_set_conv_nth)
    then have "ckey (h ! 0) \<le> ckey c" using snoc.prems(2) by force
    then have "heap_push h (fst c) (snd c) = h" using heap_push_keeps [OF nn, of c] snoc.prems(1) by simp
    then have "top_k_step k c h = h" using False by (simp add: top_k_step_def)
    moreover have "take k (c0 # cs @ [c]) = take k (c0 # cs)" using take_append [of k "c0 # cs" "[c]"] full(2) by simp
    ultimately show ?thesis using m step by (simp add: step)
  qed
qed

text \<open>The results that a scan can report, and their order.\<close>

abbreviation dists_ok :: "vec_index \<Rightarrow> vec \<Rightarrow> bool" where
  "dists_ok idx query \<equiv> \<forall>c\<in>set (flat_cands idx query). nonneg c"

lemma ex_flat_cands: "flat_cands ex_flat [9] = [(0, 1), (50, 2), (10, 3)]"
  by code_simp

lemma ex_flat_ok: "algo_data ex_flat = None" "flat_count ex_flat < 2 ^ 31" "dists_ok ex_flat [9]" "vec_inv ex_flat"
proof -
  show "algo_data ex_flat = None" "flat_count ex_flat < 2 ^ 31" by (simp_all add: ex_flat_def empty_index_def)
  have "list_all (\<lambda>c. \<not> f_nan (fst c) \<and> 0 \<le> ckey c) (flat_cands ex_flat [9])" by code_simp
  then show "dists_ok ex_flat [9]" by (simp add: nonneg_def list_all_iff)
  have "dimension ex_flat = 1 \<and> map fst (live_slots (flat_slots ex_flat)) = [1, 2, 3]" by code_simp
  then show "vec_inv ex_flat" by (auto simp: vec_inv_def unique_slots_def) (simp_all add: ex_flat_def empty_index_def)
qed

definition ascending :: "vec_result list \<Rightarrow> bool" where
  "ascending rs \<longleftrightarrow> sorted_wrt (\<lambda>a b. \<not> f_less (r_distance b) (r_distance a)) rs"

lemma cmp_result_le: "cmp_result a b \<le> 0 \<longleftrightarrow> \<not> f_less (r_distance b) (r_distance a)"
  by (auto simp: cmp_result_def f_less_def)

lemma qsort_ascending:
  assumes "qsort_spec qsort" and "\<forall>r\<in>set rs. \<not> f_nan (r_distance r)"
  shows "ascending (qsort cmp_result rs)"
proof -
  have "preorder_on_list cmp_result rs" using assms(2) by (auto simp: preorder_on_list_def cmp_result_le f_less_def)
  from qsort_spec.qsort_sorted [OF assms(1) this] show ?thesis by (simp add: ascending_def cmp_result_le)
qed

lemma flat_cands_length: "length (flat_cands idx query) \<le> flat_count idx"
  using length_filter_le [of "\<lambda>(s, v). \<not> snd s" "zip (flat_slots idx) (flat_vectors idx)"]
  by (simp add: flat_cands_def flat_slots_def)

lemma unat_pos: "(k :: u32) \<noteq> 0 \<Longrightarrow> 0 < unat k"
  by (simp add: unat_gt_0)

lemma flat_search_fold:
  assumes "flat_count idx < 2 ^ 32" and "k \<noteq> 0" and "algo_data idx = None"
  shows "kanbudb_vec_search qsort idx query k = Some (idx, Inr (qsort cmp_result (map result_of_cand
    (fold (top_k_step (min (unat k) (length (flat_cands idx query)))) (flat_cands idx query) []))))"
proof -
  have "length (flat_cands idx query) mod 2 ^ 32 = length (flat_cands idx query)"
    using flat_cands_length [of idx query] assms(1) by simp
  then show ?thesis using assms by (auto simp: kanbudb_vec_search_def flat_search_def Let_def min_def)
qed

text \<open>
  What the search of a flat index gets right: with distances that are numbers and not negative it returns \<open>k\<close>
  different live slots, or all if there are fewer, with their ids and distances in ascending order, and the first result is a
  nearest vector.
\<close>

lemma vec_search_nearest_first:
  assumes "algo_data idx = None" and "flat_count idx < 2 ^ 31" and "k \<noteq> 0" and "qsort_spec qsort" and "dists_ok idx query"
  shows "\<exists>rs. kanbudb_vec_search qsort idx query k = Some (idx, Inr rs) \<and>
    length rs = min (unat k) (length (flat_cands idx query)) \<and> mset rs \<subseteq># mset (map result_of_cand (flat_cands idx query)) \<and>
    ascending rs \<and> (\<forall>c\<in>set (flat_cands idx query). f_le (r_distance (hd rs)) (fst c))"
proof -
  let ?cs = "flat_cands idx query"
  let ?k = "min (unat k) (length ?cs)"
  let ?h = "fold (top_k_step ?k) ?cs []"
  let ?rs = "qsort cmp_result (map result_of_cand ?h)"
  note q = qsort_spec.qsort_mset [OF assms(4)] qsort_spec.qsort_set [OF assms(4)] qsort_spec.qsort_length [OF assms(4)]
  have inv: "topk_inv ?k ?cs ?h"
  proof (cases "?cs = []")
    case False
    then show ?thesis using topk_fold [of ?k ?cs] unat_pos [OF assms(3)] assms(5) by simp
  qed (simp add: topk_inv_def minh.heap_from_def minh.edge_def)
  then have sub: "mset ?h \<subseteq># mset ?cs" and len: "length ?h = ?k" by (simp_all add: topk_inv_def)
  have nn: "\<forall>c\<in>set ?h. nonneg c" using set_mset_mono [OF sub] assms(5) by auto
  then have asc: "ascending ?rs" by (intro qsort_ascending [OF assms(4)]) (auto simp: result_of_cand_def nonneg_def)
  have "f_le (r_distance (hd ?rs)) (fst c)" if c: "c \<in> set ?cs" for c
  proof -
    obtain e where e: "e \<in> set ?h" "ckey e \<le> ckey c" using inv c by (auto simp: topk_inv_def)
    then have er: "result_of_cand e \<in> set ?rs" by (simp add: q)
    then obtain r rs where rs: "?rs = r # rs" by (cases ?rs) auto
    have "r \<in> result_of_cand ` set ?h" using rs q(2) [of cmp_result "map result_of_cand ?h"] by auto
    then obtain e0 where e0: "e0 \<in> set ?h" "r = result_of_cand e0" by blast
    have "\<not> f_less (fst e) (fst e0)" using asc er rs e0(2) by (auto simp: ascending_def result_of_cand_def)
    then have "ckey e0 \<le> ckey e" using nn e(1) e0(1) by (auto simp: f_less_def nonneg_def)
    then show ?thesis using e(2) rs e0 nn c assms(5) by (auto simp: f_le_def result_of_cand_def nonneg_def)
  qed
  moreover have "mset ?rs \<subseteq># mset (map result_of_cand ?cs)" using image_mset_subseteq_mono [OF sub, of result_of_cand] by (simp add: q)
  ultimately show ?thesis using flat_search_fold [OF _ assms(3,1), of qsort query] assms(2) asc len by (simp add: q)
qed

lemma vec_search_nearest_first_witness:
  "\<exists>rs. kanbudb_vec_search sort_by ex_flat [9] 2 = Some (ex_flat, Inr rs) \<and> length rs = 2 \<and> r_distance (hd rs) = 0"
proof -
  obtain rs where rs: "kanbudb_vec_search sort_by ex_flat [9] 2 = Some (ex_flat, Inr rs)" "length rs = min (unat (2 :: u32)) 3"
    "f_le (r_distance (hd rs)) 0" "mset rs \<subseteq># mset (map result_of_cand (flat_cands ex_flat [9]))"
    using vec_search_nearest_first [OF ex_flat_ok(1,2) _ sb.qsort_spec_axioms ex_flat_ok(3), of 2] by (auto simp: ex_flat_cands)
  then have "hd rs \<in> set rs" by (intro hd_in_set) auto
  then have "hd rs \<in> set (map result_of_cand (flat_cands ex_flat [9]))" using set_mset_mono [OF rs(4)] by auto
  moreover have "\<not> f_le 50 0" "\<not> f_le 10 0" by code_simp+
  ultimately have "r_distance (hd rs) = 0" using rs(3) by (auto simp: ex_flat_cands result_of_cand_def)
  then show ?thesis using rs(1,2) by simp
qed

text \<open>
  What it gets wrong: the heap for the results has the nearest entry at its root, and this is the one that new entries are
  compared with and replace. If the first live slot is at least as near as all others, the results are just the first \<open>k\<close> live slots,
  whatever the distances of the rest.
\<close>

theorem vec_search_keeps_first:
  assumes "algo_data idx = None" and "flat_count idx < 2 ^ 31" and "k \<noteq> 0" and "qsort_spec qsort" and "dists_ok idx query"
    and "flat_cands idx query = c0 # cs" and "\<forall>c\<in>set cs. f_le (fst c0) (fst c)"
  shows "\<exists>rs. kanbudb_vec_search qsort idx query k = Some (idx, Inr rs) \<and>
    mset rs = mset (map result_of_cand (take (unat k) (flat_cands idx query)))"
proof -
  let ?k = "min (unat k) (Suc (length cs))"
  have "mset (fold (top_k_step ?k) (c0 # cs) []) = mset (take ?k (c0 # cs))"
    using topk_first [of ?k c0 cs] unat_pos [OF assms(3)] assms(5-7) by (simp add: f_le_def)
  also have "take ?k (c0 # cs) = take (unat k) (c0 # cs)" by (simp add: min_def)
  finally have "mset (map result_of_cand (fold (top_k_step ?k) (c0 # cs) [])) = mset (map result_of_cand (take (unat k) (c0 # cs)))"
    unfolding mset_map by (rule arg_cong)
  then show ?thesis using flat_search_fold [OF _ assms(3,1), of qsort query] assms(2,6) qsort_spec.qsort_mset [OF assms(4)] by simp
qed

theorem vec_search_keeps_first_witness:
  "\<exists>rs. kanbudb_vec_search sort_by ex_flat [9] 2 = Some (ex_flat, Inr rs) \<and> 2 \<in> r_id ` set rs \<and> 3 \<notin> r_id ` set rs \<and>
    v_dist_func ex_flat [9] [10] < v_dist_func ex_flat [9] [50]"
proof -
  have "\<forall>c\<in>set [(50, 2), (10, 3)]. f_le (fst (0, 1 :: u64)) (fst (c :: u64 cand))" by code_simp
  from vec_search_keeps_first [OF ex_flat_ok(1,2) _ sb.qsort_spec_axioms ex_flat_ok(3) ex_flat_cands this, of 2]
  obtain rs where rs: "kanbudb_vec_search sort_by ex_flat [9] 2 = Some (ex_flat, Inr rs)"
    "mset rs = mset (map result_of_cand (take (unat (2 :: u32)) (flat_cands ex_flat [9])))" by auto
  have "set rs = {result_of_cand (0, 1), result_of_cand (50, 2)}" using mset_eq_setD [OF rs(2)] by (simp add: ex_flat_cands)
  moreover have "v_dist_func ex_flat [9] [10] < v_dist_func ex_flat [9] [50]" by code_simp
  ultimately show ?thesis using rs(1) by (simp add: result_of_cand_def)
qed

lemma radius_scan_filter:
  "length found \<le> n \<Longrightarrow> radius_scan radius n es found =
     found @ take (n - length found) (map result_of_cand (filter (\<lambda>e. f_le (fst e) radius) es))"
proof (induction es arbitrary: found)
  case (Cons e es)
  show ?case
  proof (cases "length found < n")
    case True
    then have "n - length found = Suc (n - Suc (length found))" by simp
    with Cons True show ?thesis by simp
  qed (use Cons in simp)
qed simp

text \<open>
  The radius search of a flat index returns the slots within the radius in ascending order: all of them, or if there are more
  than \<^verbatim>\<open>max_results\<close>, the first ones by position, not the nearest.
\<close>

theorem vec_search_radius_exact:
  assumes "algo_data idx = None" and "qsort_spec qsort"
  shows "\<exists>rs. kanbudb_vec_search_radius qsort idx query radius max_results = Some (idx, rs) \<and> ascending rs \<and>
    mset rs = mset (map result_of_cand (take (unat max_results) (filter (\<lambda>c. f_le (fst c) radius) (flat_cands idx query))))"
proof -
  let ?found = "map result_of_cand (take (unat max_results) (filter (\<lambda>c. f_le (fst c) radius) (flat_cands idx query)))"
  have "radius_scan radius (unat max_results) (flat_cands idx query) [] = ?found" by (simp add: radius_scan_filter take_map)
  moreover have "ascending (qsort cmp_result ?found)"
    using set_take_subset [of "unat max_results" "filter (\<lambda>c. f_le (fst c) radius) (flat_cands idx query)"]
    by (intro qsort_ascending [OF assms(2)]) (auto simp: result_of_cand_def f_le_def)
  ultimately show ?thesis using assms(1) qsort_spec.qsort_mset [OF assms(2)] by (simp add: kanbudb_vec_search_radius_def)
qed

theorem vec_search_radius_exact_witness:
  "\<exists>rs. kanbudb_vec_search_radius sort_by ex_flat [9] 20 5 = Some (ex_flat, rs) \<and> set rs = {result_of_cand (0, 1), result_of_cand (10, 3)}"
proof -
  obtain rs where rs: "kanbudb_vec_search_radius sort_by ex_flat [9] 20 5 = Some (ex_flat, rs)"
    "mset rs = mset (map result_of_cand (take (unat (5 :: u32)) (filter (\<lambda>c. f_le (fst c) 20) (flat_cands ex_flat [9]))))"
    using vec_search_radius_exact [OF ex_flat_ok(1) sb.qsort_spec_axioms, of "[9]" 20 5] by blast
  have "filter (\<lambda>c. f_le (fst c) 20) (flat_cands ex_flat [9]) = [(0, 1), (10, 3)]" by code_simp
  then show ?thesis using rs(1) mset_eq_setD [OF rs(2)] by simp
qed

text \<open>Every entry of a scan is a stored vector with its distance.\<close>

lemma flat_cands_stored:
  assumes inv: "vec_inv idx" and flat: "algo_data idx = None" and c: "c \<in> set (flat_cands idx query)"
  shows "\<exists>v. kanbudb_vec_get idx (snd c) = Some v \<and> fst c = v_dist_func idx query v"
proof -
  obtain s v where sv: "(s, v) \<in> set (zip (flat_slots idx) (flat_vectors idx))" "\<not> snd s" "c = (v_dist_func idx query v, fst s)"
    using c by (auto simp: flat_cands_def)
  then obtain j where j: "j < length (flat_slots idx)" "flat_slots idx ! j = s" "flat_vectors idx ! j = v"
    by (auto simp: in_set_zip)
  then have sl: "slot_is (fst s) (flat_slots idx ! j)" using sv(2) by (simp add: slot_is_def)
  have "find_idx (slot_is (fst s)) (flat_slots idx) \<noteq> None" using sl nth_mem [OF j(1)] unfolding find_idx_None by blast
  then obtain m where m: "find_idx (slot_is (fst s)) (flat_slots idx) = Some m" by blast
  have "unique_slots (flat_slots idx)" using inv by (simp add: vec_inv_def)
  then have "m = j" using unique_slots_nth [of _ "fst s" m j] m sl j(1) by (simp add: find_idx_Some)
  then have "kanbudb_vec_get idx (fst s) = Some v" using m flat j(3) by (simp add: flat_get slot_map_def)
  then show ?thesis using sv(3) by simp
qed

lemma flat_cands_get:
  assumes inv: "vec_inv idx" and flat: "algo_data idx = None"
  shows "set (flat_cands idx query) = {(v_dist_func idx query v, i) |i v. kanbudb_vec_get idx i = Some v}"
proof (intro equalityI subsetI)
  fix c assume "c \<in> set (flat_cands idx query)"
  from flat_cands_stored [OF inv flat this] show "c \<in> {(v_dist_func idx query v, i) |i v. kanbudb_vec_get idx i = Some v}" by (cases c) auto
next
  fix c assume "c \<in> {(v_dist_func idx query v, i) |i v. kanbudb_vec_get idx i = Some v}"
  then obtain i v where c: "c = (v_dist_func idx query v, i)" "kanbudb_vec_get idx i = Some v" by blast
  then obtain j where j: "find_idx (slot_is i) (flat_slots idx) = Some j" "flat_vectors idx ! j = v" using flat by (auto simp: flat_get slot_map_def)
  then have s: "j < length (flat_slots idx)" "flat_slots idx ! j = (i, False)" by (auto simp: find_idx_Some slot_is_def prod_eq_iff)
  then have "((i, False), v) \<in> set (zip (flat_slots idx) (flat_vectors idx))" using flat_slots_len [OF inv] j(2) by (force simp: in_set_zip)
  then show "c \<in> set (flat_cands idx query)" unfolding flat_cands_def c(1) by force
qed

lemma flat_cands_ids: "vec_inv idx \<Longrightarrow> distinct (map snd (flat_cands idx query))"
proof -
  assume inv: "vec_inv idx"
  have "map fst (filter (\<lambda>(s, v). \<not> snd s) (zip ss vs)) = live_slots ss" if "length vs = length ss" for ss and vs :: "vec list"
    using that by (induction vs ss rule: list_induct2) (auto simp: live_slots_def)
  from this [of "flat_vectors idx" "flat_slots idx"] flat_slots_len [OF inv]
  have "map fst (live_slots (flat_slots idx)) = map fst (map fst (filter (\<lambda>(s, v). \<not> snd s) (zip (flat_slots idx) (flat_vectors idx))))"
    by simp
  also have "\<dots> = map snd (flat_cands idx query)" by (simp add: flat_cands_def split_beta)
  finally show ?thesis using inv by (simp add: vec_inv_def unique_slots_def)
qed

lemma flat_cands_card: "vec_inv idx \<Longrightarrow> algo_data idx = None \<Longrightarrow> length (flat_cands idx query) = card (dom (kanbudb_vec_get idx))"
proof -
  assume a: "vec_inv idx" "algo_data idx = None"
  have "snd ` set (flat_cands idx query) = dom (kanbudb_vec_get idx)" by (auto simp: flat_cands_get [OF a] image_iff)
  then show ?thesis using distinct_card [OF flat_cands_ids [OF a(1), of query]] by simp
qed

lemma topk_part:
  assumes "0 < k"
  shows "length (fold (top_k_step k) cs []) = min k (length cs) \<and> mset (fold (top_k_step k) cs []) \<subseteq># mset cs"
proof (induction cs rule: rev_induct)
  case (snoc c cs)
  define h where "h = fold (top_k_step k) cs []"
  have h: "length h = min k (length cs)" "mset h \<subseteq># mset cs" using snoc by (simp_all add: h_def)
  then have sub: "mset h \<subseteq># mset (cs @ [c])" using subset_mset.order_trans [of "mset h" "mset cs" "mset (cs @ [c])"] by simp
  have "length (top_k_step k c h) = min k (length (cs @ [c])) \<and> mset (top_k_step k c h) \<subseteq># mset (cs @ [c])"
  proof (cases "length h < k")
    case True
    then have m: "mset (top_k_step k c h) = add_mset c (mset h)" by (simp add: top_k_step_def Let_def)
    then show ?thesis using True h mset_eq_length [of "top_k_step k c h" "h @ [c]"] by auto
  next
    case False
    then have ne: "h \<noteq> []" using assms by auto
    have "mset (h[0 := c]) = mset h - {#h ! 0#} + {#c#}" using ne by (simp add: mset_update)
    moreover have "mset h - {#h ! 0#} \<subseteq># mset cs" using h(2) by (meson diff_subset_eq_self subset_mset.order_trans)
    ultimately have "mset (h[0 := c]) \<subseteq># mset (cs @ [c])" by simp
    then show ?thesis using False h sub by (simp add: top_k_step_def heap_push_def)
  qed
  then show ?case by (simp add: h_def)
qed simp

text \<open>The distance function of an index, which its graph has a copy of, and results that are stored vectors.\<close>

definition index_dist :: "vec_index \<Rightarrow> dist_fn" where
  "index_dist idx = (case algo_data idx of Some h \<Rightarrow> h_dist_func h | None \<Rightarrow> v_dist_func idx)"

definition stored_results :: "vec_index \<Rightarrow> vec \<Rightarrow> (u64 \<Rightarrow> bool) \<Rightarrow> vec_result list \<Rightarrow> bool" where
  "stored_results idx query ok rs \<longleftrightarrow> distinct (map r_id rs) \<and>
     (\<forall>r\<in>set rs. ok (r_id r) \<and> (\<exists>v. kanbudb_vec_get idx (r_id r) = Some v \<and> r_distance r = index_dist idx query v))"

lemma distinct_submset: "mset xs \<subseteq># mset ys \<Longrightarrow> distinct ys \<Longrightarrow> distinct xs"
  by (metis distinct_append mset_append mset_subset_eq_exists_conv ex_mset mset_eq_imp_distinct_iff)

lemma flat_filtered_stored:
  assumes inv: "vec_inv idx" and flat: "algo_data idx = None" and qs: "qsort_spec qsort"
    and h: "mset h \<subseteq># mset (filter (\<lambda>e. ok (snd e)) (flat_cands idx query))"
  shows "stored_results idx query ok (qsort cmp_result (map result_of_cand h))"
proof -
  note q = qsort_spec.qsort_mset [OF qs] qsort_spec.qsort_set [OF qs]
  have sub: "c \<in> set (flat_cands idx query) \<and> ok (snd c)" if "c \<in> set h" for c using set_mset_mono [OF h] that by auto
  have d: "distinct (map snd (filter (\<lambda>e. ok (snd e)) (flat_cands idx query)))"
    using flat_cands_ids [OF inv] by (simp add: distinct_map_filter)
  have "mset (map snd h) \<subseteq># mset (map snd (filter (\<lambda>e. ok (snd e)) (flat_cands idx query)))"
    using image_mset_subseteq_mono [OF h, of snd] by simp
  from distinct_submset [OF this d] have "distinct (map snd h)" .
  moreover have "map r_id (map result_of_cand h) = map snd h" by (simp add: result_of_cand_def)
  moreover have "mset (map r_id (qsort cmp_result (map result_of_cand h))) = mset (map r_id (map result_of_cand h))"
    unfolding mset_map q ..
  ultimately have "distinct (map r_id (qsort cmp_result (map result_of_cand h)))" by (metis mset_eq_imp_distinct_iff)
  moreover have "ok (r_id r) \<and> (\<exists>v. kanbudb_vec_get idx (r_id r) = Some v \<and> r_distance r = index_dist idx query v)"
    if "r \<in> set (qsort cmp_result (map result_of_cand h))" for r
  proof -
    have "r \<in> result_of_cand ` set h" using that by (simp add: q)
    then obtain c where c: "c \<in> set h" "r = result_of_cand c" by blast
    then show ?thesis using sub [OF c(1)] flat_cands_stored [OF inv flat, of c query] flat
      by (simp add: result_of_cand_def index_dist_def)
  qed
  ultimately show ?thesis by (simp add: stored_results_def)
qed

lemma live_stored:
  assumes inv: "hnsw_inv h" and n: "n \<in> live h"
  shows "hnsw_get h (n_id (nodes h ! n)) = Some (vector_pool h ! n)"
    and "m \<in> live h \<Longrightarrow> n_id (nodes h ! m) = n_id (nodes h ! n) \<Longrightarrow> m = n"
proof -
  let ?i = "n_id (nodes h ! n)"
  have u: "unique_slots (slots_of h)" using inv by (simp add: hnsw_inv_def)
  have lv: "m < length (slots_of h) \<and> slot_is (n_id (nodes h ! m)) (slots_of h ! m)" if "m \<in> live h" for m
    using that by (simp add: live_def slots_of_def slot_is_def)
  have "find_idx (slot_is ?i) (slots_of h) \<noteq> None" using lv [OF n] nth_mem unfolding find_idx_None by blast
  then obtain j where j: "find_idx (slot_is ?i) (slots_of h) = Some j" by blast
  then have "j = n" using unique_slots_nth [OF u, of ?i j n] lv [OF n] by (simp add: find_idx_Some)
  with j show "hnsw_get h ?i = Some (vector_pool h ! n)" by (simp add: hnsw_get_map slot_map_def)
  show "m \<in> live h \<Longrightarrow> n_id (nodes h ! m) = ?i \<Longrightarrow> m = n" using unique_slots_nth [OF u, of ?i m n] lv [OF n] lv [of m] by simp
qed

lemma hnsw_results_stored:
  assumes "vec_inv idx" and "algo_data idx = Some h" and "distinct ns" and "set ns \<subseteq> live h"
  shows "stored_results idx query ok (take k (filter (\<lambda>r. ok (r_id r)) (map (result_of h query) ns)))"
proof -
  have inv: "hnsw_inv h" using assms(1,2) by (simp add: vec_inv_def)
  have get: "kanbudb_vec_get idx = hnsw_get h" using assms(2) by (simp add: kanbudb_vec_get_def fun_eq_iff)
  have "inj_on (\<lambda>n. n_id (nodes h ! n)) (set ns)"
    using live_stored(2) [OF inv] assms(4) by (intro inj_onI) (metis subsetD)
  then have "distinct (map r_id (map (result_of h query) ns))" using assms(3) by (simp add: distinct_map result_of_def comp_def)
  from distinct_take [OF distinct_map_filter [OF this, of "\<lambda>r. ok (r_id r)"], of k]
  have "distinct (map r_id (take k (filter (\<lambda>r. ok (r_id r)) (map (result_of h query) ns))))" by (simp only: take_map)
  moreover have "ok (r_id r) \<and> (\<exists>v. kanbudb_vec_get idx (r_id r) = Some v \<and> r_distance r = index_dist idx query v)"
    if r: "r \<in> set (take k (filter (\<lambda>r. ok (r_id r)) (map (result_of h query) ns)))" for r
  proof -
    obtain n where n: "n \<in> live h" "r = result_of h query n" "ok (r_id r)" using in_set_takeD [OF r] assms(4) by auto
    then show ?thesis using live_stored(1) [OF inv n(1)] get assms(2) by (simp add: result_of_def index_dist_def)
  qed
  ultimately show ?thesis unfolding stored_results_def by blast
qed

lemma nat_sint_le: "nat (sint (k :: u32)) \<le> unat k"
  using nat_sint_pos [of k] by (cases "0 < sint k") simp_all

text \<open>
  C30. A filtered search of either kind returns at most \<open>k\<close> results. They have different ids, which the filter accepts, and
  each is the id of a stored vector with the distance of this vector from the query. The stored vectors do not change.
\<close>

theorem vec_search_filtered_sound:
  assumes inv: "vec_inv idx" and n: "flat_count idx < 2 ^ 31" and k: "k \<noteq> 0" and qs: "qsort_spec qsort"
    and ef: "\<forall>h. algo_data idx = Some h \<longrightarrow> 1 \<le> h_ef_search h"
  shows "\<exists>idx' rs. kanbudb_vec_search_filtered qsort idx query k flt = Some (idx', Inr rs) \<and>
    vec_inv idx' \<and> kanbudb_vec_get idx' = kanbudb_vec_get idx \<and> length rs \<le> unat k \<and> stored_results idx query (passes flt) rs"
proof (cases "algo_data idx")
  case None
  let ?cs = "flat_cands idx query"
  define k' where "k' = (if length ?cs = 0 \<or> unat k > length ?cs then length ?cs else unat k)"
  let ?h = "fold (top_k_step k') (filter (\<lambda>e. passes flt (snd e)) ?cs) []"
  have r: "kanbudb_vec_search_filtered qsort idx query k flt = Some (idx, Inr (if k' = 0 then [] else qsort cmp_result (map result_of_cand ?h)))"
    using None k n flat_cands_length [of idx query]
    by (simp add: kanbudb_vec_search_filtered_def flat_search_filtered_def Let_def k'_def)
  show ?thesis
  proof (cases "k' = 0")
    case True
    then show ?thesis using r inv by (simp add: stored_results_def)
  next
    case False
    have "k' \<le> unat k" by (simp add: k'_def)
    then show ?thesis using r False inv topk_part [of k' "filter (\<lambda>e. passes flt (snd e)) ?cs"] flat_filtered_stored [OF inv None qs, of ?h "passes flt" query]
      by (simp add: qsort_spec.qsort_length [OF qs])
  qed
next
  case (Some h)
  have h: "hnsw_inv h" "1 \<le> h_ef_construction h" "h_dim h = dimension idx" "1 \<le> h_ef_search h" using inv ef Some by (auto simp: vec_inv_def)
  have get: "kanbudb_vec_get idx = hnsw_get h" using Some by (simp add: kanbudb_vec_get_def fun_eq_iff)
  define e where "e = (let ef0 = sint (k * 4); ef1 = (if ef0 < h_ef_search h then h_ef_search h else ef0)
    in if ef1 > int (element_count h) then int (element_count h) else ef1)"
  have emin: "e = min (max (sint (k * 4)) (h_ef_search h)) (int (element_count h))" by (simp add: e_def min_def max_def Let_def)
  have r: "kanbudb_vec_search_filtered qsort idx query k flt =
    map_option (\<lambda>(h', rs). (idx\<lparr>algo_data := Some h'\<rparr>, Inr rs)) (if e = 0 then Some (h, [])
         else map_option (\<lambda>(h', rs). (h', take (nat (sint k)) (filter (\<lambda>r. passes flt (r_id r)) rs))) (hnsw_search h query e))"
    using Some k by (simp add: kanbudb_vec_search_filtered_def hnsw_search_filtered_def e_def Let_def)
  show ?thesis
  proof (cases "e = 0")
    case True
    then show ?thesis using r inv vec_inv_hnsw [of idx h] h get by (simp add: stored_results_def)
  next
    case False
    then have "1 \<le> e" using h(4) emin by linarith
    then obtain h' ns where s: "hnsw_search h query e = Some (h', map (result_of h query) ns)" "hnsw_inv h'" "same_graph h h'"
      "distinct ns" "set ns \<subseteq> live h"
      using hnsw_search_live [OF h(1), of e query] by blast
    note f = same_graph_fields [OF s(3)]
    have g: "hnsw_get h' = hnsw_get h" by (simp add: hnsw_get_map slots_of_def f)
    let ?rs = "take (nat (sint k)) (filter (\<lambda>r. passes flt (r_id r)) (map (result_of h query) ns))"
    have "stored_results idx query (passes flt) ?rs" by (rule hnsw_results_stored [OF inv Some s(4,5)])
    moreover have "length ?rs \<le> unat k" using nat_sint_le [of k] by simp
    moreover have "vec_inv (idx\<lparr>algo_data := Some h'\<rparr>)" "kanbudb_vec_get (idx\<lparr>algo_data := Some h'\<rparr>) = hnsw_get h'"
      using vec_inv_hnsw [of idx h'] inv h s f by simp_all
    ultimately show ?thesis using r False s g get by simp
  qed
qed

theorem vec_search_filtered_sound_witness:
  "\<exists>idx' rs. kanbudb_vec_search_filtered sort_by ex_flat [9] 2 (Some (\<lambda>i. i \<noteq> 2)) = Some (idx', Inr rs) \<and>
     length rs \<le> 2 \<and> 2 \<notin> r_id ` set rs"
  using vec_search_filtered_sound [OF ex_flat_ok(4,2) _ sb.qsort_spec_axioms, of 2 "[9]" "Some (\<lambda>i. i \<noteq> 2)"] ex_flat_ok(1)
  by (auto simp: stored_results_def passes_def)

end
