(* ===== verification/Vec_Recovery.thy ===== *)
theory Vec_Recovery
  imports Vec_Correct
begin

text \<open>
  The files of a flat vector index. The log of an index is never truncated (\<^verbatim>\<open>vec_checkpoint\<close> opens it again in append
  mode), so opening replays the whole history of the index onto the state of some earlier checkpoint. The theory shows that
  this gives the current state: the data files decode to the rows that were written, a log decodes to its records, and a history
  replayed onto the state after one of its own prefixes ends in the same map.
\<close>

section \<open>Decoding\<close>

definition vec_works :: "vec_env \<Rightarrow> bool" where
  "vec_works env \<longleftrightarrow> (\<forall>p. v_fopen env p) \<and> (\<forall>bs. length bs \<le> v_fwrite env bs)"

lemma length_vec_bytes [simp]: "length (vec_bytes v) = 4 * length v"
  by (induction v) (simp_all add: vec_bytes_def)

lemma vec_bytes_simps [simp]: "vec_bytes [] = []" "vec_bytes (x # v) = put_u32 x @ vec_bytes v"
  by (simp_all add: vec_bytes_def)

lemma get_vec_bytes [simp]: "get_vec (length v) (vec_bytes v @ rest) = v"
  by (induction v) simp_all

lemma get_rows_bytes: "\<forall>v\<in>set vs. length v = d \<Longrightarrow> get_rows (length vs) d (concat (map vec_bytes vs) @ rest) = vs"
  by (induction vs) auto

lemma get_ids_bytes: "get_ids (length ids) (concat (map put_u64 ids) @ rest) = ids"
  by (induction ids) simp_all

lemma length_rows: "\<forall>v\<in>set vs. length v = d \<Longrightarrow> length (concat (map vec_bytes vs)) = length vs * d * 4"
  by (induction vs) (simp_all add: algebra_simps)

lemma length_ids: "length (concat (map put_u64 ids)) = length ids * 8"
  by (induction ids) simp_all

text \<open>The records of the log, with the time of an insertion.\<close>

datatype log_rec = L_Insert u64 vec u64 | L_Delete u64

fun rec_bytes :: "log_rec \<Rightarrow> bytes" where
  "rec_bytes (L_Insert i v t) = put_u32 WAL_OP_INSERT @ put_u64 i @ put_u32 (word_of_nat (length v)) @ vec_bytes v @ put_u64 t"
| "rec_bytes (L_Delete i) = put_u32 WAL_OP_DELETE @ put_u64 i"

fun rec_ok :: "nat \<Rightarrow> log_rec \<Rightarrow> bool" where
  "rec_ok d (L_Insert i v t) \<longleftrightarrow> length v = d"
| "rec_ok d (L_Delete i) \<longleftrightarrow> True"

fun rec_apply :: "log_rec \<Rightarrow> (u64 \<rightharpoonup> vec) \<Rightarrow> (u64 \<rightharpoonup> vec)" where
  "rec_apply (L_Insert i v t) m = m(i \<mapsto> v)"
| "rec_apply (L_Delete i) m = m(i := None)"

lemma read_rec_Nil: "read_rec [] = Rec_End"
  by (simp add: read_rec_def fread_def)

lemma read_rec_insert:
  assumes "length v < 2 ^ 32"
  shows "read_rec (rec_bytes (L_Insert i v t) @ rest) = Rec_Insert i v rest"
proof -
  have "unat (word_of_nat (length v) :: u32) = length v" using assms by (simp add: unat_of_nat)
  then show ?thesis by (simp add: read_rec_def read_insert_def get_vec_bytes [of v "[]", simplified])
qed

lemma read_rec_delete: "read_rec (rec_bytes (L_Delete i) @ rest) = Rec_Delete i rest"
  by (simp add: read_rec_def vec_consts)

text \<open>A history replayed onto the state after one of its prefixes: every id has the value of its last record.\<close>

fun rec_id :: "log_rec \<Rightarrow> u64" where
  "rec_id (L_Insert i v t) = i"
| "rec_id (L_Delete i) = i"

lemma apply_other: "rec_id r \<noteq> i \<Longrightarrow> rec_apply r m i = m i"
  by (cases r) auto

lemma apply_same: "rec_id r = i \<Longrightarrow> rec_apply r m i = rec_apply r m' i"
  by (cases r) auto

lemma fold_untouched: "i \<notin> rec_id ` set rs \<Longrightarrow> fold rec_apply rs m i = m i"
  by (induction rs arbitrary: m) (auto simp: apply_other)

lemma fold_touched: "i \<in> rec_id ` set rs \<Longrightarrow> fold rec_apply rs m i = fold rec_apply rs m' i"
proof (induction rs rule: rev_induct)
  case (snoc r rs)
  show ?case
  proof (cases "rec_id r = i")
    case True
    then show ?thesis using apply_same [of r i] by simp
  next
    case False
    then show ?thesis using snoc by (auto simp: apply_other)
  qed
qed simp

lemma replay_idempotent: "fold rec_apply rs (fold rec_apply (take n rs) m) = fold rec_apply rs m"
proof
  fix i
  show "fold rec_apply rs (fold rec_apply (take n rs) m) i = fold rec_apply rs m i"
  proof (cases "i \<in> rec_id ` set rs")
    case False
    then have "i \<notin> rec_id ` set (take n rs)" using set_take_subset [of n rs] by blast
    with False show ?thesis by (simp add: fold_untouched)
  qed (rule fold_touched)
qed

section \<open>Replay\<close>

lemma grow_same:
  "vec_inv (idx\<lparr>flat_capacity := c\<rparr>) = vec_inv idx" "kanbudb_vec_get (idx\<lparr>flat_capacity := c\<rparr>) = kanbudb_vec_get idx"
  "vec_find_idx (idx\<lparr>flat_capacity := c\<rparr>) i = vec_find_idx idx i" "dimension (idx\<lparr>flat_capacity := c\<rparr>) = dimension idx"
  by (cases "algo_data idx"; simp add: vec_inv_def dimension_def flat_slots_def kanbudb_vec_get_def vec_find_idx_def fun_eq_iff)+

lemma replay_insert_ok:
  assumes "vec_inv idx" and "algo_data idx = None" and "length v = dimension idx"
  shows "\<exists>idx'. replay_insert lv idx i v = Some idx' \<and> vec_inv idx' \<and> algo_data idx' = None \<and> dimension idx' = dimension idx \<and>
    kanbudb_vec_get idx' = (kanbudb_vec_get idx)(i \<mapsto> v)"
proof (cases "vec_find_idx idx i")
  case (Some j)
  then show ?thesis using assms flat_update_ok [OF assms(1,2) Some, of v]
    by (simp add: replay_insert_def) (simp add: flat_update_def dimension_def)
next
  case None
  define c where "c = (if flat_count idx \<ge> flat_capacity idx
    then (if flat_capacity idx \<noteq> 0 then flat_capacity idx * 2 else 1024) else flat_capacity idx)"
  have "replay_insert lv idx i v = Some (flat_append (idx\<lparr>flat_capacity := c\<rparr>) i v)"
    using assms None by (simp add: replay_insert_def c_def)
  moreover have "algo_data (flat_append (idx\<lparr>flat_capacity := c\<rparr>) i v) = None"
    "dimension (flat_append (idx\<lparr>flat_capacity := c\<rparr>) i v) = dimension idx"
    using assms(2) by (simp_all add: flat_append_def dimension_def)
  ultimately show ?thesis using flat_append_ok [of "idx\<lparr>flat_capacity := c\<rparr>" i v] assms None by (simp add: grow_same)
qed

lemma replay_delete_ok:
  assumes "vec_inv idx" and "algo_data idx = None"
  shows "vec_inv (replay_delete idx i) \<and> algo_data (replay_delete idx i) = None \<and> dimension (replay_delete idx i) = dimension idx \<and>
    kanbudb_vec_get (replay_delete idx i) = (kanbudb_vec_get idx)(i := None)"
proof (cases "vec_find_idx idx i")
  case None
  then have "kanbudb_vec_get idx i = None" using assms(2) by (simp add: kanbudb_vec_get_def)
  then show ?thesis using None assms by (simp add: replay_delete_def fun_upd_idem)
next
  case (Some j)
  then show ?thesis using assms flat_delete_ok [OF assms(1,2) Some]
    by (simp add: replay_delete_def) (simp add: flat_mark_deleted_def dimension_def)
qed

lemma replay_loop_ok:
  assumes "vec_inv idx" and "algo_data idx = None" and "list_all (rec_ok (dimension idx)) rs" and "dimension idx < 2 ^ 32"
  shows "\<exists>idx'. replay_loop lvs c (concat (map rec_bytes rs)) idx = Some idx' \<and> vec_inv idx' \<and>
    kanbudb_vec_get idx' = fold rec_apply rs (kanbudb_vec_get idx)"
  using assms
proof (induction rs arbitrary: idx c)
  case Nil
  then show ?case by (simp add: replay_loop.simps read_rec_Nil)
next
  case (Cons r rs)
  show ?case
  proof (cases r)
    case (L_Insert i v t)
    then have v: "length v = dimension idx" using Cons.prems by simp
    obtain idx1 where idx1: "replay_insert (lvs c) idx i v = Some idx1" "vec_inv idx1" "algo_data idx1 = None"
      "dimension idx1 = dimension idx" "kanbudb_vec_get idx1 = (kanbudb_vec_get idx)(i \<mapsto> v)"
      using replay_insert_ok [OF Cons.prems(1,2) v] by blast
    have "read_rec (concat (map rec_bytes (r # rs))) = Rec_Insert i v (concat (map rec_bytes rs))"
      using read_rec_insert [of v i t] Cons.prems(4) v L_Insert by simp
    then have "replay_loop lvs c (concat (map rec_bytes (r # rs))) idx = replay_loop lvs (Suc c) (concat (map rec_bytes rs)) idx1"
      using idx1(1) by (simp only: replay_loop.simps [of lvs c "concat (map rec_bytes (r # rs))"] vec_rec.case option.case)
    moreover have "\<exists>idx'. replay_loop lvs (Suc c) (concat (map rec_bytes rs)) idx1 = Some idx' \<and> vec_inv idx' \<and>
      kanbudb_vec_get idx' = fold rec_apply rs (kanbudb_vec_get idx1)"
      using Cons.IH [of idx1 "Suc c"] Cons.prems idx1(2-4) by simp
    moreover have "fold rec_apply (r # rs) (kanbudb_vec_get idx) = fold rec_apply rs (kanbudb_vec_get idx1)"
      using idx1(5) L_Insert by simp
    ultimately show ?thesis by (simp only:)
  next
    case (L_Delete i)
    have "read_rec (concat (map rec_bytes (r # rs))) = Rec_Delete i (concat (map rec_bytes rs))"
      using read_rec_delete [of i] L_Delete by simp
    then have "replay_loop lvs c (concat (map rec_bytes (r # rs))) idx = replay_loop lvs c (concat (map rec_bytes rs)) (replay_delete idx i)"
      by (simp only: replay_loop.simps [of lvs c "concat (map rec_bytes (r # rs))"] vec_rec.case)
    moreover have "\<exists>idx'. replay_loop lvs c (concat (map rec_bytes rs)) (replay_delete idx i) = Some idx' \<and> vec_inv idx' \<and>
      kanbudb_vec_get idx' = fold rec_apply rs (kanbudb_vec_get (replay_delete idx i))"
      by (rule Cons.IH) (use Cons.prems replay_delete_ok [OF Cons.prems(1,2), of i] in simp_all)
    moreover have "fold rec_apply (r # rs) (kanbudb_vec_get idx) = fold rec_apply rs (kanbudb_vec_get (replay_delete idx i))"
      using replay_delete_ok [OF Cons.prems(1,2), of i] L_Delete by simp
    ultimately show ?thesis by (simp only:)
  qed
qed

section \<open>A checkpoint and its files\<close>

definition live_rows :: "vec_index \<Rightarrow> (slot \<times> vec) list" where
  "live_rows idx = filter (\<lambda>(s, v). \<not> snd s) (zip (flat_slots idx) (flat_vectors idx))"

lemma find_live_rows:
  "map_option ((!) (map snd rows)) (find_idx (slot_is i) (map (\<lambda>r. (fst (fst r), False)) rows)) =
   map_option ((!) vs) (find_idx (slot_is i) ss)"
  if "length vs = length ss" "rows = filter (\<lambda>(s, v). \<not> snd s) (zip ss vs)" for rows :: "(slot \<times> vec) list"
  using that
proof (induction vs ss arbitrary: rows rule: list_induct2)
  case (Cons v vs s ss)
  define rows' where "rows' = filter (\<lambda>(s, v). \<not> snd s) (zip ss vs)"
  note IH = Cons.IH [OF rows'_def]
  have nth: "map_option ((!) (x # xs)) (map_option Suc n) = map_option ((!) xs) n" for x :: vec and xs n by (cases n) simp_all
  show ?case
  proof (cases "snd s")
    case True
    then have "rows = rows'" "\<not> slot_is i s" using Cons.prems by (simp_all add: rows'_def slot_is_def)
    then show ?thesis using IH by (simp add: nth)
  next
    case False
    then have rows: "rows = (s, v) # rows'" using Cons.prems by (simp add: rows'_def)
    show ?thesis
    proof (cases "fst s = i")
      case True
      then show ?thesis using False rows by (simp add: slot_is_def)
    next
      case ne: False
      then have "\<not> slot_is i s" "\<not> slot_is i (fst s, False)" by (simp_all add: slot_is_def)
      then show ?thesis using rows IH by (simp add: nth)
    qed
  qed
qed simp

lemma vec_file_eq [simp]:
  assumes "length p \<le> 1000" and "length a \<le> 10" and "length b \<le> 10"
  shows "vec_file p a = vec_file p b \<longleftrightarrow> a = b"
  using assms by (simp add: vec_file_def)

lemma fs_append_read [simp]:
  "fs_read (fs_append fs p bs) q = (if q = p then Some ((case fs_read fs p of None \<Rightarrow> [] | Some old \<Rightarrow> old) @ bs) else fs_read fs q)"
  by (simp add: fs_append_def)

definition snapshot :: "file_system \<Rightarrow> path \<Rightarrow> vec_params \<Rightarrow> u64 list \<Rightarrow> vec list \<Rightarrow> bool" where
  "snapshot fs p ps ids vs \<longleftrightarrow>
     fs_read fs (vec_file p ''meta'') =
       Some (vec_file_header (p_dimension ps) (p_metric ps) (word_of_nat (length ids)) KANBUDB_VEC_ALGO_FLAT 0 0 0) \<and>
     fs_read fs (vec_file p ''vectors'') = Some (concat (map vec_bytes vs)) \<and>
     fs_read fs (vec_file p ''ids'') = Some (concat (map put_u64 ids)) \<and>
     length vs = length ids \<and> distinct ids \<and> (\<forall>v\<in>set vs. length v = unat (p_dimension ps))"

definition loaded :: "u64 list \<Rightarrow> vec list \<Rightarrow> u64 \<rightharpoonup> vec" where
  "loaded ids vs = slot_map (map (\<lambda>i. (i, False)) ids) vs"

text \<open>
  An index with its files after the history \<open>rs\<close>: the log holds the history, and once there was a checkpoint (\<open>ck\<close>), the other
  files hold the state after some part of it.
\<close>

definition has_snapshot :: "path \<Rightarrow> file_system \<Rightarrow> vec_params \<Rightarrow> nat \<Rightarrow> log_rec list \<Rightarrow> bool" where
  "has_snapshot p fs ps c rs \<longleftrightarrow> (\<exists>n ids vs. n \<le> length rs \<and> length ids \<le> c \<and> snapshot fs p ps ids vs \<and>
     loaded ids vs = fold rec_apply (take n rs) Map.empty)"

definition disk_inv :: "path \<Rightarrow> bool \<Rightarrow> file_system \<times> vec_index \<Rightarrow> log_rec list \<Rightarrow> bool" where
  "disk_inv p ck s rs \<longleftrightarrow>
     vec_inv (snd s) \<and> algo_data (snd s) = None \<and> v_path (snd s) = Some p \<and> wal_fp (snd s) = Some [] \<and>
     (\<forall>v\<in>set (flat_vectors (snd s)). length v = dimension (snd s)) \<and>
     fs_read (fst s) (vec_file p ''wal'') = Some (concat (map rec_bytes rs)) \<and> list_all (rec_ok (dimension (snd s))) rs \<and>
     kanbudb_vec_get (snd s) = fold rec_apply rs Map.empty \<and>
     (ck \<longrightarrow> has_snapshot p (fst s) (v_params (snd s)) (flat_count (snd s)) rs)"

lemma disk_inv_weaken: "disk_inv p True s rs \<Longrightarrow> disk_inv p ck s rs"
  by (simp add: disk_inv_def)

lemma write_file_works: "vec_works env \<Longrightarrow> write_file env fs p bs = (fs_write fs p bs, True)"
  by (simp add: write_file_def vec_works_def)

lemma live_rows_ids:
  assumes "vec_inv idx"
  shows "distinct (map (fst \<circ> fst) (live_rows idx)) \<and> length (live_rows idx) \<le> flat_count idx"
  using flat_cands_ids [OF assms, of "[]"] flat_cands_length [of idx "[]"]
  by (simp add: flat_cands_def live_rows_def comp_def split_beta)

lemma live_rows_loaded:
  assumes "vec_inv idx" and "algo_data idx = None"
  shows "loaded (map (fst \<circ> fst) (live_rows idx)) (map snd (live_rows idx)) = kanbudb_vec_get idx"
  using find_live_rows [OF _ live_rows_def] flat_slots_len [OF assms(1)] assms(2)
  by (simp add: loaded_def flat_get slot_map_def fun_eq_iff comp_def)

lemma persist_write_snapshot:
  assumes inv: "vec_inv idx" and flat: "algo_data idx = None" and env: "vec_works env" and p: "length p \<le> 1000"
    and rows: "\<forall>v\<in>set (flat_vectors idx). length v = dimension idx"
  shows "\<exists>fs'. vec_persist_write env fs p idx = (fs', KANBUDB_VEC_OK) \<and>
    snapshot fs' p (v_params idx) (map (fst \<circ> fst) (live_rows idx)) (map snd (live_rows idx)) \<and>
    fs_read fs' (vec_file p ''wal'') = fs_read fs (vec_file p ''wal'')"
proof -
  have "\<forall>v\<in>set (map snd (live_rows idx)). length v = unat (p_dimension (v_params idx))"
    using rows by (auto simp: live_rows_def dimension_def dest!: set_zip_rightD)
  then show ?thesis using live_rows_ids [OF inv] flat p
    by (simp add: vec_persist_write_def persist_write_flat_def write_meta_vectors_ids_def write_file_works [OF env] snapshot_def
        live_rows_def [symmetric] Let_def)
qed

lemma checkpoint_keeps:
  assumes inv: "disk_inv p ck s rs" and env: "vec_works env" and p: "length p \<le> 1000"
  shows "disk_inv p True (fst (vec_checkpoint env s)) rs \<and> snd (vec_checkpoint env s) = KANBUDB_VEC_OK"
proof -
  obtain fs idx where s: "s = (fs, idx)" by (cases s)
  have i: "vec_inv idx" "algo_data idx = None" "v_path idx = Some p" "wal_fp idx = Some []" "\<forall>v\<in>set (flat_vectors idx). length v = dimension idx"
    "fs_read fs (vec_file p ''wal'') = Some (concat (map rec_bytes rs))" "kanbudb_vec_get idx = fold rec_apply rs Map.empty"
    using inv by (simp_all add: disk_inv_def s)
  obtain fs1 where fs1: "vec_persist_write env fs p idx = (fs1, KANBUDB_VEC_OK)"
    "snapshot fs1 p (v_params idx) (map (fst \<circ> fst) (live_rows idx)) (map snd (live_rows idx))"
    "fs_read fs1 (vec_file p ''wal'') = fs_read fs (vec_file p ''wal'')"
    using persist_write_snapshot [OF i(1,2) env p i(5), of fs] by blast
  define fs2 where "fs2 = fs_append (fs_append fs1 (vec_file p ''wal'') []) (vec_file p ''wal'') []"
  define idx2 where "idx2 = idx\<lparr>wal_bytes := 0, wal_fp := Some [], v_dirty := False\<rparr>"
  have ck: "vec_checkpoint env s = ((fs2, idx2), KANBUDB_VEC_OK)"
    using i fs1(1) env by (simp add: s vec_checkpoint_def vec_wal_close_def vec_works_def fs2_def idx2_def)
  have core: "same_core idx idx2" by (simp add: idx2_def same_core_def)
  have "has_snapshot p fs2 (v_params idx) (flat_count idx) rs"
    unfolding has_snapshot_def
    by (intro exI [of _ "length rs"] exI [of _ "map (fst \<circ> fst) (live_rows idx)"] exI [of _ "map snd (live_rows idx)"])
      (use fs1(2) p live_rows_ids [OF i(1)] live_rows_loaded [OF i(1,2)] i(7) in \<open>simp add: snapshot_def fs2_def\<close>)
  then show ?thesis using inv same_core_inv [OF core] ck fs1(3) i(6)
    by (simp add: disk_inv_def s) (simp add: idx2_def fs2_def dimension_def)
qed

lemma auto_checkpoint_keeps:
  assumes "disk_inv p ck s rs" and "vec_works env" and "length p \<le> 1000"
  shows "disk_inv p ck (fst (auto_checkpoint env (s, rc))) rs"
  using assms checkpoint_keeps [OF assms] disk_inv_weaken by (simp add: auto_checkpoint_def)

section \<open>The operations on the files\<close>

lemma fwrite_all_works: "vec_works env \<Longrightarrow> wal_fwrite_all env cs pending = (pending @ concat cs, True)"
  by (induction cs arbitrary: pending) (simp_all add: vec_works_def)

lemma wal_write_works:
  assumes "vec_works env" and "wal_fp idx = Some []" and "v_path idx = Some p"
  shows "wal_write_record env cs (fs, idx) = ((fs_append fs (vec_file p ''wal'') (concat cs),
    idx\<lparr>wal_fp := Some [], wal_bytes := wal_bytes idx + length (concat cs)\<rparr>), KANBUDB_VEC_OK)"
  using assms by (simp add: wal_write_record_def fwrite_all_works)

text \<open>A change of the slots together with its log record.\<close>

lemma logged_keeps:
  assumes inv: "disk_inv p ck (fs, idx) rs" and p: "length p \<le> 1000" and r: "rec_ok (dimension idx) r"
    and idx1: "vec_inv idx1" "kanbudb_vec_get idx1 = rec_apply r (kanbudb_vec_get idx)" "flat_count idx \<le> flat_count idx1"
      "\<forall>v\<in>set (flat_vectors idx1). length v = dimension idx" "v_params idx1 = v_params idx" "v_path idx1 = v_path idx"
      "algo_data idx1 = None"
    and idx2: "same_core idx1 idx2" "wal_fp idx2 = Some []"
  shows "disk_inv p ck (fs_append fs (vec_file p ''wal'') (rec_bytes r), idx2) (rs @ [r])"
proof -
  have c: "v_params idx2 = v_params idx" "v_path idx2 = v_path idx" "algo_data idx2 = None" "flat_vectors idx2 = flat_vectors idx1"
    "flat_ids idx2 = flat_ids idx1" using idx2(1) idx1 by (simp_all add: same_core_def)
  have d: "dimension idx2 = dimension idx" by (simp add: dimension_def c)
  have "has_snapshot p (fs_append fs (vec_file p ''wal'') (rec_bytes r)) (v_params idx) (flat_count idx1) (rs @ [r])"
    if h: "has_snapshot p fs (v_params idx) (flat_count idx) rs"
  proof -
    obtain n ids vs where sn: "n \<le> length rs" "length ids \<le> flat_count idx" "snapshot fs p (v_params idx) ids vs"
      "loaded ids vs = fold rec_apply (take n rs) Map.empty" using h by (auto simp: has_snapshot_def)
    show ?thesis unfolding has_snapshot_def
      by (intro exI [of _ n] exI [of _ ids] exI [of _ vs]) (use sn p idx1(3) in \<open>simp add: snapshot_def\<close>)
  qed
  then show ?thesis using inv same_core_inv [OF idx2(1)] idx1 idx2(2) c d r by (simp add: disk_inv_def)
qed

lemma take_dimension: "dimension idx \<le> length v \<Longrightarrow> word_of_nat (length (take (dimension idx) v)) = p_dimension (v_params idx)"
  by (simp add: dimension_def)

lemma log_insert_works:
  assumes "vec_works env" and "wal_fp idx = Some []" and "v_path idx = Some p" and "dimension idx \<le> length v"
  shows "\<exists>n. log_insert env i v (fs, idx) = ((fs_append fs (vec_file p ''wal'') (rec_bytes (L_Insert i (take (dimension idx) v) (v_time env))),
    idx\<lparr>wal_fp := Some [], wal_bytes := n\<rparr>), KANBUDB_VEC_OK)"
  using take_dimension [OF assms(4)] assms(4)
  by (intro exI [of _ "wal_bytes idx + (24 + 4 * length (take (dimension idx) v))"])
    (simp add: log_insert_def vec_wal_append_insert_def wal_write_works [OF assms(1-3)] assms(2) del: length_take)

lemma insert_keeps:
  assumes inv: "disk_inv p ck s rs" and env: "vec_works env" and p: "length p \<le> 1000" and v: "dimension (snd s) \<le> length v"
    and r: "kanbudb_vec_insert env s i v = Some (s', rc)"
  shows "\<exists>rs'. disk_inv p ck s' rs'"
proof -
  obtain fs idx where s: "s = (fs, idx)" by (cases s)
  have i: "vec_inv idx" "algo_data idx = None" "v_path idx = Some p" "wal_fp idx = Some []" "\<forall>v\<in>set (flat_vectors idx). length v = dimension idx"
    using inv by (simp_all add: disk_inv_def s)
  let ?v = "take (dimension idx) v" and ?r = "L_Insert i (take (dimension idx) v) (v_time env)"
  have ok: "rec_ok (dimension idx) ?r" using v by (simp add: s)
  have fin: "\<exists>rs'. disk_inv p ck (fst (auto_checkpoint env (fst (log_insert env i v (fs, idx1\<lparr>v_dirty := True\<rparr>)), rc'))) rs'"
    if idx1: "vec_inv idx1" "kanbudb_vec_get idx1 = (kanbudb_vec_get idx)(i \<mapsto> ?v)" "flat_count idx \<le> flat_count idx1"
      "\<forall>v\<in>set (flat_vectors idx1). length v = dimension idx" "v_params idx1 = v_params idx" "v_path idx1 = v_path idx"
      "algo_data idx1 = None" "wal_fp idx1 = wal_fp idx" for idx1 rc'
  proof -
    have "dimension idx1 = dimension idx" by (simp add: dimension_def idx1)
    then obtain n where l: "log_insert env i v (fs, idx1\<lparr>v_dirty := True\<rparr>) =
      ((fs_append fs (vec_file p ''wal'') (rec_bytes ?r), idx1\<lparr>v_dirty := True, wal_fp := Some [], wal_bytes := n\<rparr>), KANBUDB_VEC_OK)"
      using log_insert_works [OF env, of "idx1\<lparr>v_dirty := True\<rparr>" p v i fs] i idx1 v by (auto simp: dimension_def s)
    have g: "kanbudb_vec_get idx1 = rec_apply ?r (kanbudb_vec_get idx)" using idx1(2) by simp
    have "disk_inv p ck (fst (log_insert env i v (fs, idx1\<lparr>v_dirty := True\<rparr>))) (rs @ [?r])"
      unfolding l fst_conv by (rule logged_keeps [OF inv [unfolded s] p ok idx1(1) g idx1(3-7)]) simp_all
    from auto_checkpoint_keeps [OF this env p] show ?thesis by blast
  qed
  show ?thesis
  proof (cases "vec_find_idx idx i")
    case (Some j)
    have "s' = fst (auto_checkpoint env (fst (log_insert env i v (fs, (flat_update idx j v)\<lparr>v_dirty := True\<rparr>)), KANBUDB_VEC_OK))"
      using r i(2) Some by (simp add: s kanbudb_vec_insert_def prod_eq_iff)
    moreover have "\<forall>u\<in>set (flat_vectors (flat_update idx j v)). length u = dimension idx"
      using i(5) v set_update_subset_insert [of "flat_vectors idx" j ?v] by (auto simp: flat_update_def s)
    moreover have "v_params (flat_update idx j v) = v_params idx" "v_path (flat_update idx j v) = v_path idx"
      "algo_data (flat_update idx j v) = None" "wal_fp (flat_update idx j v) = wal_fp idx" "flat_ids (flat_update idx j v) = flat_ids idx"
      using i(2) by (simp_all add: flat_update_def)
    ultimately show ?thesis using fin [of "flat_update idx j v" KANBUDB_VEC_OK] flat_update_ok [OF i(1,2) Some, of v] by simp
  next
    case None
    obtain c rc1 where g: "(if flat_count idx \<ge> flat_capacity idx then vec_grow idx else Some (idx, KANBUDB_VEC_OK)) =
      Some (idx\<lparr>flat_capacity := c\<rparr>, rc1)" using grow_cases [of idx] i(1) by (auto simp: vec_inv_def)
    let ?idx1 = "flat_append (idx\<lparr>flat_capacity := c\<rparr>) i v"
    show ?thesis
    proof (cases "rc1 = KANBUDB_VEC_OK")
      case True
      have "kanbudb_vec_insert env s i v = Some (auto_checkpoint env (log_insert env i v (fs, ?idx1\<lparr>v_dirty := True\<rparr>)))"
        using i(2) None g True by (simp add: s kanbudb_vec_insert_def)
      then have "auto_checkpoint env (log_insert env i v (fs, ?idx1\<lparr>v_dirty := True\<rparr>)) = (s', rc)" using r by simp
      then obtain rc2 where "s' = fst (auto_checkpoint env (fst (log_insert env i v (fs, ?idx1\<lparr>v_dirty := True\<rparr>)), rc2))"
        by (metis prod.collapse fst_conv)
      moreover have "vec_inv ?idx1" "kanbudb_vec_get ?idx1 = (kanbudb_vec_get idx)(i \<mapsto> ?v)"
        using flat_append_ok [of "idx\<lparr>flat_capacity := c\<rparr>" i v] i None by (simp_all add: grow_same)
      moreover have "\<forall>u\<in>set (flat_vectors ?idx1). length u = dimension idx"
        using i(5) v by (auto simp: flat_append_def s grow_same)
      moreover have "v_params ?idx1 = v_params idx" "v_path ?idx1 = v_path idx" "algo_data ?idx1 = None" "wal_fp ?idx1 = wal_fp idx"
        "flat_count idx \<le> flat_count ?idx1" using i(2) by (simp_all add: flat_append_def)
      ultimately show ?thesis using fin [of ?idx1 rc2] by simp
    next
      case False
      then have "s' = (fs, idx\<lparr>flat_capacity := c\<rparr>)" using r i(2) None g by (simp add: s kanbudb_vec_insert_def)
      moreover have "disk_inv p ck (fs, idx\<lparr>flat_capacity := c\<rparr>) rs" using inv by (simp add: disk_inv_def s grow_same)
      ultimately show ?thesis by blast
    qed
  qed
qed

lemma delete_keeps:
  assumes inv: "disk_inv p ck s rs" and env: "vec_works env" and p: "length p \<le> 1000"
  shows "\<exists>rs'. disk_inv p ck (fst (kanbudb_vec_delete env s i)) rs'"
proof -
  obtain fs idx where s: "s = (fs, idx)" by (cases s)
  have i: "vec_inv idx" "algo_data idx = None" "v_path idx = Some p" "wal_fp idx = Some []" "\<forall>v\<in>set (flat_vectors idx). length v = dimension idx"
    using inv by (simp_all add: disk_inv_def s)
  show ?thesis
  proof (cases "vec_find_idx idx i")
    case None
    then show ?thesis using inv i by (auto simp: s kanbudb_vec_delete_def Let_def)
  next
    case (Some j)
    let ?idx1 = "flat_mark_deleted idx j"
    obtain n where d: "fst (kanbudb_vec_delete env s i) = (fs_append fs (vec_file p ''wal'') (rec_bytes (L_Delete i)),
      ?idx1\<lparr>v_dirty := True, wal_fp := Some [], wal_bytes := n\<rparr>)"
      using i Some wal_write_works [OF env, of "?idx1\<lparr>v_dirty := True\<rparr>" p "[put_u32 WAL_OP_DELETE, put_u64 i]" fs]
      by (simp add: s kanbudb_vec_delete_def Let_def vec_wal_append_delete_def flat_mark_deleted_def)
    have g: "vec_inv ?idx1" "kanbudb_vec_get ?idx1 = rec_apply (L_Delete i) (kanbudb_vec_get idx)"
      using flat_delete_ok [OF i(1,2) Some] by simp_all
    have "disk_inv p ck (fst (kanbudb_vec_delete env s i)) (rs @ [L_Delete i])"
      unfolding d by (rule logged_keeps [OF inv [unfolded s] p _ g]) (use i in \<open>simp_all add: flat_mark_deleted_def\<close>)
    then show ?thesis by blast
  qed
qed

section \<open>Opening\<close>

lemma read_meta_header:
  "read_meta (vec_file_header dim metric n algo m ec es) =
     Some \<lparr>m_dim = dim, m_metric = metric, m_count = n, m_algo = algo, m_M = m, m_ef_construction = ec, m_ef_search = es\<rparr>"
  by (simp add: read_meta_def vec_file_header_def vec_consts)

definition load_cap :: "nat \<Rightarrow> nat" where
  "load_cap n = (if (if n > 0 then (n + n div 2) mod 2 ^ 64 else 1024) < 1024 then 1024 else if n > 0 then (n + n div 2) mod 2 ^ 64 else 1024)"

lemma capacity_fits:
  assumes "n < 2 ^ 28" and "d < 2 ^ 32"
  shows "(load_cap n * d) mod 2 ^ 64 * 4 \<le> alloc_max" "load_cap n * 8 \<le> alloc_max" "n \<le> load_cap n" "load_cap n * d < 2 ^ 64"
proof -
  have c0: "(n + n div 2) mod 2 ^ 64 = n + n div 2" using assms(1) by simp
  have c: "n \<le> load_cap n" "load_cap n \<le> 2 ^ 29 - 1" unfolding load_cap_def c0 using assms(1) by auto
  have "load_cap n * d \<le> (2 ^ 29 - 1) * (2 ^ 32 - 1)" using c(2) assms(2) by (intro mult_mono) auto
  then show "(load_cap n * d) mod 2 ^ 64 * 4 \<le> alloc_max" "load_cap n * 8 \<le> alloc_max" "n \<le> load_cap n" "load_cap n * d < 2 ^ 64"
    using c by (simp_all add: alloc_max_def)
qed

lemma load_flat_snapshot:
  assumes sn: "snapshot fs p ps ids vs" and env: "vec_works env" and n: "length ids < 2 ^ 28" and d: "0 < unat (p_dimension ps)"
    and idx0: "algo_data idx0 = None" "dimension idx0 = unat (p_dimension ps)" "flat_vectors idx0 = []" "flat_ids idx0 = []" "flat_deleted idx0 = []"
    and meta: "m_count meta = word_of_nat (length ids)" "m_dim meta = p_dimension ps"
  shows "\<exists>idx. load_flat env fs p meta idx0 = Some (Inr idx) \<and> vec_inv idx \<and> algo_data idx = None \<and> kanbudb_vec_get idx = loaded ids vs \<and>
    v_params idx = v_params idx0 \<and> v_path idx = v_path idx0"
proof -
  define c where "c = load_cap (length ids)"
  have dl: "unat (p_dimension ps) < 2 ^ 32" using unsigned_less [of "p_dimension ps", where 'a = nat] by simp
  note c = capacity_fits [OF n dl, folded c_def]
  have u: "unat (m_count meta) = length ids" using n by (simp add: meta unat_of_nat)
  have vl: "length vs = length ids" "\<forall>v\<in>set vs. length v = unat (p_dimension ps)" "distinct ids" using sn by (simp_all add: snapshot_def)
  define idx where "idx = idx0\<lparr>flat_capacity := c, flat_vectors := vs, flat_ids := ids, flat_deleted := replicate (length ids) False\<rparr>"
  have slots: "flat_slots idx = map (\<lambda>i. (i, False)) ids"
    by (simp add: flat_slots_def idx_def zip_replicate2)
  have "read_file env fs (vec_file p ''vectors'') (length ids * unat (p_dimension ps) * 4) = Inr (concat (map vec_bytes vs))"
    "read_file env fs (vec_file p ''ids'') (length ids * 8) = Inr (concat (map put_u64 ids))"
    using sn env length_rows [OF vl(2)] length_ids [of ids] vl(1) by (simp_all add: read_file_def snapshot_def vec_works_def)
  moreover have "get_rows (length ids) (unat (p_dimension ps)) (concat (map vec_bytes vs)) = vs" "get_ids (length ids) (concat (map put_u64 ids)) = ids"
    using get_rows_bytes [OF vl(2), of "[]"] get_ids_bytes [of ids "[]"] vl(1) by simp_all
  moreover have "length ids = 0 \<Longrightarrow> idx = idx0\<lparr>flat_capacity := c\<rparr>" using vl(1) idx0 by (simp add: idx_def)
  ultimately have "load_flat env fs p meta idx0 = Some (Inr idx)"
    unfolding load_flat_def Let_def u meta(2) load_cap_def [symmetric] c_def [symmetric] using c by (auto simp: idx_def not_less)
  moreover have "unique_slots (flat_slots idx)" using vl(3) by (simp add: slots unique_slots_def live_slots_def filter_map comp_def)
  then have "vec_inv idx" using d idx0 vl(1) by (simp add: vec_inv_def) (simp add: idx_def dimension_def)
  moreover have "kanbudb_vec_get idx = loaded ids vs" using idx0(1) slots by (simp add: flat_get loaded_def idx_def)
  ultimately show ?thesis using idx0(1) by (intro exI [of _ idx]) (simp add: idx_def)
qed

lemma open_recovers:
  assumes inv: "disk_inv p True (fs, idx) rs" and env: "vec_works env" and p: "length p \<le> 1000" and n: "flat_count idx < 2 ^ 28"
  shows "\<exists>fs' idx'. kanbudb_vec_open env ks fs p = Some (fs', Some idx', KANBUDB_VEC_OK) \<and> vec_inv idx' \<and>
    kanbudb_vec_get idx' = kanbudb_vec_get idx"
proof -
  let ?ps = "v_params idx"
  have d: "dimension idx = unat (p_dimension ?ps)" by (simp add: dimension_def)
  have i: "vec_inv idx" "fs_read fs (vec_file p ''wal'') = Some (concat (map rec_bytes rs))" "list_all (rec_ok (dimension idx)) rs"
    "kanbudb_vec_get idx = fold rec_apply rs Map.empty" using inv by (simp_all add: disk_inv_def)
  obtain k ids vs where sn: "length ids \<le> flat_count idx" "snapshot fs p ?ps ids vs" "loaded ids vs = fold rec_apply (take k rs) Map.empty"
    using inv by (auto simp: disk_inv_def has_snapshot_def)
  define meta where "meta = \<lparr>m_dim = p_dimension ?ps, m_metric = p_metric ?ps, m_count = word_of_nat (length ids),
    m_algo = KANBUDB_VEC_ALGO_FLAT, m_M = 0, m_ef_construction = 0, m_ef_search = 0\<rparr>"
  define ps where "ps = \<lparr>p_algo = m_algo meta, p_metric = m_metric meta, p_dimension = m_dim meta,
    p_initial_capacity = (if m_count meta > 0 then ucast (m_count meta) else 1024), p_enable_persistence = True, p_M = m_M meta,
    p_ef_construction = m_ef_construction meta, p_ef_search = m_ef_search meta\<rparr>"
  define idx0 where "idx0 = empty_index ps (vec_get_dist_func ks (m_metric meta)) (Some p)"
  have meta: "fs_read fs (vec_file p ''meta'') = Some (vec_file_header (p_dimension ?ps) (p_metric ?ps) (word_of_nat (length ids)) KANBUDB_VEC_ALGO_FLAT 0 0 0)"
    "read_meta (vec_file_header (p_dimension ?ps) (p_metric ?ps) (word_of_nat (length ids)) KANBUDB_VEC_ALGO_FLAT 0 0 0) = Some meta"
    using sn(2) by (simp_all add: snapshot_def read_meta_header meta_def)
  have "0 < unat (p_dimension ?ps)" using i(1) by (simp add: vec_inv_def d)
  then obtain idx1 where idx1: "load_flat env fs p meta idx0 = Some (Inr idx1)" "vec_inv idx1" "algo_data idx1 = None"
    "kanbudb_vec_get idx1 = loaded ids vs" "v_params idx1 = ps" "v_path idx1 = Some p"
    using load_flat_snapshot [OF sn(2) env, of idx0 meta] sn(1) n
    by (auto simp: idx0_def empty_index_def dimension_def ps_def meta_def)
  define fs2 where "fs2 = fs_append fs (vec_file p ''wal'') []"
  obtain idx2 where idx2: "vec_wal_open env (fs, idx1) = ((fs2, idx2), KANBUDB_VEC_OK)" "same_core idx1 idx2"
    using idx1(6) env vec_wal_open_core [of "(fs, idx1)" env] by (simp add: vec_wal_open_def vec_works_def Let_def fs2_def)
  have c2: "vec_inv idx2" "algo_data idx2 = None" "kanbudb_vec_get idx2 = loaded ids vs" "v_path idx2 = Some p" "dimension idx2 = dimension idx"
    using same_core_inv [OF idx2(2)] idx1 idx2(2) by (simp_all add: same_core_def dimension_def ps_def meta_def)
  have "dimension idx < 2 ^ 32" using unsigned_less [of "p_dimension (v_params idx)", where 'a = nat] by (simp add: d)
  then obtain idx3 where idx3: "replay_loop (v_level env) (unat (m_count meta)) (concat (map rec_bytes rs)) idx2 = Some idx3" "vec_inv idx3"
    "kanbudb_vec_get idx3 = fold rec_apply rs (loaded ids vs)"
    using replay_loop_ok [OF c2(1,2), of rs "v_level env" "unat (m_count meta)"] i(3) c2(3,5) by auto
  have rep: "vec_wal_replay env (unat (m_count meta)) fs2 idx2 = Some (idx3, KANBUDB_VEC_OK)"
    using c2(4) i(2) idx3(1) env by (simp add: vec_wal_replay_def fs2_def vec_works_def)
  have "m_algo meta \<noteq> KANBUDB_VEC_ALGO_HNSW" "v_fopen env q" for q using env by (simp_all add: meta_def vec_consts vec_works_def)
  then have "kanbudb_vec_open env ks fs p = Some (fs2, Some (idx3\<lparr>v_dirty := False\<rparr>), KANBUDB_VEC_OK)"
    unfolding kanbudb_vec_open_def vec_persist_read_def
    using meta idx1(1) idx2(1) rep by (simp add: Let_def ps_def [symmetric] idx0_def [symmetric])
  moreover have "vec_inv (idx3\<lparr>v_dirty := False\<rparr>) = vec_inv idx3 \<and> kanbudb_vec_get (idx3\<lparr>v_dirty := False\<rparr>) = kanbudb_vec_get idx3"
    by (rule same_core_inv) simp
  ultimately show ?thesis using idx3 sn(3) i(4) replay_idempotent [of rs k Map.empty] by simp
qed

section \<open>Recovery\<close>

text \<open>
  The runs of a flat index at a path without an old log, with files that work. The flag says whether there was a flush.
  The caller passes vectors of at least \<^verbatim>\<open>dimension\<close> floats.
\<close>

inductive disk_run :: "path \<Rightarrow> bool \<Rightarrow> file_system \<times> vec_index \<Rightarrow> bool" for p where
  create: "kanbudb_vec_create env ks fs (Some p) ps = (fs', Inr idx) \<Longrightarrow> vec_works env \<Longrightarrow> p_algo ps \<noteq> KANBUDB_VEC_ALGO_HNSW \<Longrightarrow>
     p_enable_persistence ps \<Longrightarrow> fs_read fs (vec_file p ''wal'') = None \<Longrightarrow> disk_run p False (fs', idx)"
| insert: "disk_run p ck s \<Longrightarrow> vec_works env \<Longrightarrow> dimension (snd s) \<le> length v \<Longrightarrow>
     kanbudb_vec_insert env s i v = Some (s', rc) \<Longrightarrow> disk_run p ck s'"
| delete: "disk_run p ck s \<Longrightarrow> vec_works env \<Longrightarrow> kanbudb_vec_delete env s i = (s', rc) \<Longrightarrow> disk_run p ck s'"
| flush: "disk_run p ck s \<Longrightarrow> vec_works env \<Longrightarrow> kanbudb_vec_flush env s = (s', rc) \<Longrightarrow> disk_run p True s'"

lemma create_disk:
  assumes c: "kanbudb_vec_create env ks fs (Some p) ps = (fs', Inr idx)" and env: "vec_works env" and a: "p_algo ps \<noteq> KANBUDB_VEC_ALGO_HNSW"
    and "p_enable_persistence ps" and w: "fs_read fs (vec_file p ''wal'') = None"
  shows "disk_inv p False (fs', idx) []"
proof -
  have ok: "vec_inv idx" "kanbudb_vec_get idx = Map.empty" using vec_create_ok [OF c] a by simp_all
  obtain idx0 where idx0: "vec_alloc ks ps = Inr idx0" using c by (auto simp: kanbudb_vec_create_def split: if_splits sum.splits)
  then have f: "algo_data idx0 = None" "flat_vectors idx0 = []"
    using a by (auto simp: vec_alloc_def Let_def empty_index_def split: if_splits)
  have op: "vec_wal_open env (fs, idx0\<lparr>v_path := Some p\<rparr>) = ((fs', idx), KANBUDB_VEC_OK)"
    using c idx0 assms(4) by (auto simp: kanbudb_vec_create_def split: if_splits prod.splits)
  have core: "same_core (idx0\<lparr>v_path := Some p\<rparr>) idx" using vec_wal_open_core [of "(fs, idx0\<lparr>v_path := Some p\<rparr>)" env] op by simp
  have "fs_read fs' (vec_file p ''wal'') = Some []" "wal_fp idx = Some []"
    using op env w by (auto simp: vec_wal_open_def vec_works_def Let_def)
  then show ?thesis using ok f core by (simp add: disk_inv_def same_core_def)
qed

lemma disk_run_inv:
  assumes "length p \<le> 1000"
  shows "disk_run p ck s \<Longrightarrow> \<exists>rs. disk_inv p ck s rs"
proof (induction rule: disk_run.induct)
  case (create env ks fs ps fs' idx)
  then show ?case using create_disk by blast
next
  case (insert ck s env v i s' rc)
  then show ?case using insert_keeps assms by blast
next
  case (delete ck s env i s' rc)
  then show ?case using delete_keeps [of p ck s _ env i] assms by auto
next
  case (flush ck s env s' rc)
  then obtain rs where rs: "disk_inv p ck s rs" by blast
  then have "v_path (snd s) = Some p" by (simp add: disk_inv_def)
  then have "s' = fst (vec_checkpoint env s)" using flush.hyps by (simp add: kanbudb_vec_flush_def)
  then show ?case using checkpoint_keeps [OF rs flush.hyps(2) assms] by blast
qed



end
