(* ===== verification/Float_Arith.thy ===== *)
theory Float_Arith
  imports Vec_Heap
begin

text \<open>
  IEEE 754 arithmetic with round-to-nearest, ties-to-even, on bit patterns, for both formats that the sources use. A format is
  given by the widths of fraction and exponent. A finite number is an integer multiple of the smallest subnormal number, and every
  operation rounds its exact result once. Operations that produce a NaN produce the default one.

  The theorems that the distance, quantization and ranking proofs rest on: rounding is exact on numbers of the format, it is
  monotone, and the order of patterns is the order of values.
\<close>

section \<open>Rounding\<close>

text \<open>The integer nearest to a fraction, the even one if there are two.\<close>

definition half_even :: "int \<Rightarrow> int \<Rightarrow> int" where
  "half_even n d = (let q = n div d; r = n mod d in if 2 * r < d \<or> 2 * r = d \<and> even q then q else q + 1)"

function bitlen :: "int \<Rightarrow> nat" where
  "bitlen n = (if n \<le> 0 then 0 else Suc (bitlen (n div 2)))"
  by auto
termination
  by (relation "measure nat") auto

declare bitlen.simps [simp del]

text \<open>
  The pattern, without sign, of the number nearest to a non-negative fraction of the smallest subnormal number. \<open>k\<close> is the number of bits
  that do not fit into the significand of \<open>Suc m\<close> bits; a carry out of the significand raises the exponent by itself.
\<close>

definition fp_pattern :: "nat \<Rightarrow> int \<Rightarrow> int \<Rightarrow> int" where
  "fp_pattern m n d = (let k = bitlen (n div d) - Suc m in int k * 2 ^ m + half_even n (d * 2 ^ k))"

definition fp_scaled :: "nat \<Rightarrow> int \<Rightarrow> int" where
  "fp_scaled m w = (let e = nat (w div 2 ^ m); f = w mod 2 ^ m in if e = 0 then f else (2 ^ m + f) * 2 ^ (e - 1))"

lemma half_even_cases: "half_even n d = n div d \<or> half_even n d = n div d + 1"
  by (simp add: half_even_def Let_def)

lemma half_even_exact [simp]: "0 < d \<Longrightarrow> half_even (n * d) d = n"
  by (simp add: half_even_def)

lemma half_even_scale:
  assumes "0 < c" and "0 < d"
  shows "half_even (n * c) (d * c) = half_even n d"
proof -
  have "(n * c) div (d * c) = n div d" "(n * c) mod (d * c) = (n mod d) * c" using assms by simp_all
  moreover have "2 * (n mod d * c) < d * c \<longleftrightarrow> 2 * (n mod d) < d" "2 * (n mod d * c) = d * c \<longleftrightarrow> 2 * (n mod d) = d"
    using assms mult_less_cancel_right_pos [of c "2 * (n mod d)" d] mult_cancel_right [of "2 * (n mod d)" c d] by (simp_all add: mult.assoc)
  ultimately show ?thesis unfolding half_even_def Let_def by (simp only:)
qed

lemma half_even_mono:
  assumes "n \<le> n'" and "0 < d"
  shows "half_even n d \<le> half_even n' d"
proof (cases "n div d < n' div d")
  case True
  then show ?thesis using half_even_cases [of n d] half_even_cases [of n' d] by auto
next
  case False
  moreover have "n div d \<le> n' div d" using assms by (simp add: zdiv_mono1)
  ultimately have q: "n div d = n' div d" by simp
  then have "n mod d \<le> n' mod d" using assms(1) div_mult_mod_eq [of n d] div_mult_mod_eq [of n' d] by (metis add_le_cancel_left)
  then show ?thesis using q by (auto simp: half_even_def Let_def)
qed

lemma bitlen_bounds:
  assumes "0 < n"
  shows "2 ^ (bitlen n - 1) \<le> n \<and> n < 2 ^ bitlen n"
  using assms
proof (induction n rule: bitlen.induct)
  case (1 n)
  show ?case
  proof (cases "n = 1")
    case True
    then show ?thesis by (simp add: bitlen.simps)
  next
    case False
    then have h: "0 < n div 2" "0 < n" using 1 by auto
    then have "2 ^ (bitlen (n div 2) - 1) \<le> n div 2" "n div 2 < 2 ^ bitlen (n div 2)" using 1 by simp_all
    then have "2 * 2 ^ (bitlen (n div 2) - 1) \<le> n" "n < 2 * 2 ^ bitlen (n div 2)" by linarith+
    moreover have "bitlen n = Suc (bitlen (n div 2))" "bitlen (n div 2) = Suc (bitlen (n div 2) - 1)"
      using h by (simp_all add: bitlen.simps [of n] bitlen.simps [of "n div 2"])
    ultimately show ?thesis by (metis diff_Suc_1 power_Suc)
  qed
qed

lemma bitlen_nonpos [simp]: "n \<le> 0 \<Longrightarrow> bitlen n = 0"
  by (simp add: bitlen.simps)

lemma bitlen_le: "n < 2 ^ k \<Longrightarrow> bitlen n \<le> k"
proof (rule ccontr)
  assume n: "n < 2 ^ k" and "\<not> bitlen n \<le> k"
  then have k: "k \<le> bitlen n - 1" "0 < n" by (auto intro: ccontr)
  then have "(2 :: int) ^ k \<le> 2 ^ (bitlen n - 1)" by simp
  then show False using bitlen_bounds [OF k(2)] n by linarith
qed

lemma bitlen_ge: "2 ^ k \<le> n \<Longrightarrow> k < bitlen n"
proof (rule ccontr)
  assume n: "2 ^ k \<le> n" and "\<not> k < bitlen n"
  then have "(2 :: int) ^ bitlen n \<le> 2 ^ k" by simp
  moreover have "0 < n" using n by (meson less_le_trans zero_less_numeral zero_less_power)
  ultimately show False using bitlen_bounds [of n] n by linarith
qed

lemma bitlen_mono: "n \<le> n' \<Longrightarrow> bitlen n \<le> bitlen n'"
proof (cases "0 < n")
  case True
  assume "n \<le> n'"
  then have "n < 2 ^ bitlen n'" using bitlen_bounds [of n'] True by simp
  then show ?thesis by (rule bitlen_le)
qed simp

lemma int_le_div_iff:
  assumes "0 < d"
  shows "c \<le> n div d \<longleftrightarrow> c * d \<le> (n :: int)"
proof
  assume "c \<le> n div d"
  then have "c * d \<le> n div d * d" using assms by (simp add: mult_right_mono)
  also have "\<dots> \<le> n" using assms div_mult_mod_eq [of n d] pos_mod_sign [of d n] by linarith
  finally show "c * d \<le> n" .
next
  assume "c * d \<le> n"
  from zdiv_mono1 [OF this assms] show "c \<le> n div d" using assms by simp
qed

lemma int_div_less_iff: "0 < d \<Longrightarrow> n div d < c \<longleftrightarrow> n < c * (d :: int)"
  by (metis int_le_div_iff linorder_not_less)

lemma fp_pattern_scale: "0 < c \<Longrightarrow> 0 < d \<Longrightarrow> fp_pattern m (n * c) (d * c) = fp_pattern m n d"
proof -
  assume c: "0 < c" "0 < d"
  have "half_even (n * c) (d * c * 2 ^ k) = half_even n (d * 2 ^ k)" for k
    using half_even_scale [of c "d * 2 ^ k" n] c by (simp add: mult.assoc mult.commute [of c])
  then show ?thesis using c by (simp add: fp_pattern_def Let_def)
qed

text \<open>Bounds of the pattern by the number of bits that are cut off.\<close>

lemma fp_pattern_bounds:
  fixes m :: nat
  assumes "0 \<le> n" and "0 < d"
  defines "k \<equiv> bitlen (n div d) - Suc m"
  shows "fp_pattern m n d \<le> int k * 2 ^ m + 2 ^ Suc m" and "0 < k \<Longrightarrow> int k * 2 ^ m + 2 ^ m \<le> fp_pattern m n d" and "0 \<le> fp_pattern m n d"
proof -
  have q: "0 \<le> n div d" using assms by (simp add: pos_imp_zdiv_nonneg_iff)
  have dk: "n div (d * 2 ^ k) = n div d div 2 ^ k" using assms(2) by (simp add: zdiv_zmult2_eq)
  have "n div d < 2 ^ (Suc m + k)"
  proof (cases "0 < n div d")
    case True
    have "bitlen (n div d) \<le> Suc m + k" by (simp add: k_def)
    then have "(2 :: int) ^ bitlen (n div d) \<le> 2 ^ (Suc m + k)" by (simp del: power_Suc add: power_increasing)
    then show ?thesis using bitlen_bounds [OF True] by linarith
  next
    case False
    then show ?thesis using q by (simp del: power_Suc)
  qed
  then have "n div (d * 2 ^ k) < 2 ^ Suc m" unfolding dk by (simp add: power_add div_int_pos_iff int_div_less_iff mult.commute)
  then show "fp_pattern m n d \<le> int k * 2 ^ m + 2 ^ Suc m"
    using half_even_cases [of n "d * 2 ^ k"] by (auto simp: fp_pattern_def k_def [symmetric] Let_def simp del: power_Suc)
  show "int k * 2 ^ m + 2 ^ m \<le> fp_pattern m n d" if "0 < k"
  proof -
    have "0 < n div d" using that by (auto simp: k_def intro: ccontr)
    moreover have "bitlen (n div d) - 1 = m + k" using that by (simp add: k_def)
    ultimately have "2 ^ (m + k) \<le> n div d" using bitlen_bounds by metis
    then have "2 ^ m \<le> n div (d * 2 ^ k)" unfolding dk by (simp add: power_add int_le_div_iff)
    then show ?thesis using half_even_cases [of n "d * 2 ^ k"] by (auto simp: fp_pattern_def k_def [symmetric] Let_def)
  qed
  have "0 \<le> n div (d * 2 ^ k)" using q by (simp add: dk pos_imp_zdiv_nonneg_iff)
  then show "0 \<le> fp_pattern m n d"
    using half_even_cases [of n "d * 2 ^ k"] by (auto simp: fp_pattern_def k_def [symmetric] Let_def)
qed

lemma fp_pattern_mono_same:
  assumes "0 \<le> n" and "n \<le> n'" and "0 < d"
  shows "fp_pattern m n d \<le> fp_pattern m n' d"
proof -
  let ?k = "bitlen (n div d) - Suc m" and ?k' = "bitlen (n' div d) - Suc m"
  have le: "?k \<le> ?k'" using bitlen_mono [OF zdiv_mono1 [OF assms(2,3)]] by simp
  show ?thesis
  proof (cases "?k = ?k'")
    case True
    then show ?thesis using half_even_mono [OF assms(2), of "d * 2 ^ ?k"] assms(3) by (simp add: fp_pattern_def Let_def)
  next
    case False
    then have "?k + 1 \<le> ?k'" "0 < ?k'" using le by auto
    then have "(int ?k + 1) * 2 ^ m \<le> int ?k' * 2 ^ m" by (intro mult_right_mono) auto
    moreover have "fp_pattern m n d \<le> int ?k * 2 ^ m + 2 ^ Suc m" by (rule fp_pattern_bounds(1)) (use assms in auto)
    moreover have "int ?k' * 2 ^ m + 2 ^ m \<le> fp_pattern m n' d" by (rule fp_pattern_bounds(2)) (use assms \<open>0 < ?k'\<close> in auto)
    ultimately show ?thesis by (simp add: algebra_simps)
  qed
qed

text \<open>Rounding is monotone.\<close>

lemma fp_pattern_mono:
  assumes "0 \<le> n" and "n * d' \<le> n' * d" and "0 < d" and "0 < d'"
  shows "fp_pattern m n d \<le> fp_pattern m n' d'"
proof -
  have "fp_pattern m n d = fp_pattern m (n * d') (d * d')" using assms by (simp add: fp_pattern_scale)
  also have "\<dots> \<le> fp_pattern m (n' * d) (d * d')" using assms by (intro fp_pattern_mono_same) auto
  also have "\<dots> = fp_pattern m n' d'" using assms fp_pattern_scale [of d d' m n'] by (simp add: mult.commute)
  finally show ?thesis .
qed

lemma fp_scaled_low:
  assumes "0 \<le> w" and "w < 2 ^ Suc m"
  shows "fp_scaled m w = w"
proof (cases "w < 2 ^ m")
  case True
  then show ?thesis using assms by (simp add: fp_scaled_def Let_def div_pos_pos_trivial)
next
  case False
  then have "w div 2 ^ m = 1" using assms by (simp add: int_div_pos_eq [of w "2 ^ m" 1 "w - 2 ^ m"])
  moreover have "w mod 2 ^ m = w - 2 ^ m" using calculation div_mult_mod_eq [of w "2 ^ m"] by simp
  ultimately show ?thesis by (simp add: fp_scaled_def)
qed

lemma fp_scaled_high:
  assumes "2 ^ Suc m \<le> w"
  obtains k f where "0 < k" "0 \<le> f" "f < 2 ^ m" "w = int k * 2 ^ m + (2 ^ m + f)" "fp_scaled m w = (2 ^ m + f) * 2 ^ k"
proof -
  define e where "e = w div 2 ^ m"
  have e: "2 \<le> e" using assms by (simp add: e_def int_le_div_iff)
  let ?k = "nat e - 1" and ?f = "w mod 2 ^ m"
  have "w = e * 2 ^ m + ?f" using div_mult_mod_eq [of w "2 ^ m"] by (simp only: e_def)
  then have "w = int ?k * 2 ^ m + (2 ^ m + ?f)" using e by (simp add: of_nat_diff algebra_simps)
  moreover have "fp_scaled m w = (2 ^ m + ?f) * 2 ^ ?k" using e by (simp add: fp_scaled_def e_def [symmetric] Let_def)
  ultimately show thesis using that [of ?k ?f] e by simp
qed

lemma fp_scaled_nonneg: "0 \<le> w \<Longrightarrow> 0 \<le> fp_scaled m w"
  by (simp add: fp_scaled_def Let_def)

text \<open>A number of the format is rounded to itself.\<close>

lemma fp_pattern_exact:
  assumes "0 \<le> w" and "0 < d"
  shows "fp_pattern m (fp_scaled m w * d) d = w"
proof (cases "w < 2 ^ Suc m")
  case True
  then have s: "fp_scaled m w = w" using assms by (intro fp_scaled_low)
  have "bitlen w - Suc m = 0" using bitlen_le [OF True] by simp
  then show ?thesis using assms by (simp add: fp_pattern_def s)
next
  case False
  then have "2 ^ Suc m \<le> w" by simp
  then obtain k f where k: "0 < k" "0 \<le> f" "f < 2 ^ m" "w = int k * 2 ^ m + (2 ^ m + f)" "fp_scaled m w = (2 ^ m + f) * 2 ^ k"
    by (rule fp_scaled_high)
  have "(2 ^ m + f) * 2 ^ k < (2 * 2 ^ m) * 2 ^ k" "2 ^ m * 2 ^ k \<le> (2 ^ m + f) * 2 ^ k" using k(2,3) by simp_all
  then have "(2 ^ m + f) * 2 ^ k < 2 ^ (Suc m + k)" "2 ^ (m + k) \<le> (2 ^ m + f) * 2 ^ k" by (simp_all add: power_add)
  then have "bitlen ((2 ^ m + f) * 2 ^ k) = Suc m + k" using bitlen_le bitlen_ge by (metis Suc_leI add_Suc le_antisym)
  moreover have "half_even ((2 ^ m + f) * 2 ^ k * d) (d * 2 ^ k) = 2 ^ m + f"
    using half_even_exact [of "d * 2 ^ k" "2 ^ m + f"] assms(2) by (simp add: mult.assoc mult.commute [of d])
  ultimately have "fp_pattern m ((2 ^ m + f) * 2 ^ k * d) d = int k * 2 ^ m + (2 ^ m + f)"
    using assms(2) by (simp add: fp_pattern_def Let_def)
  then show ?thesis using k(4,5) by metis
qed

text \<open>The order of patterns is the order of values.\<close>

lemma fp_scaled_le:
  assumes "0 \<le> a" and "0 \<le> b"
  shows "fp_scaled m a \<le> fp_scaled m b \<longleftrightarrow> a \<le> b"
proof -
  have mono: "x \<le> y" if "fp_scaled m x \<le> fp_scaled m y" "0 \<le> x" "0 \<le> y" for x y
    using fp_pattern_mono_same [of "fp_scaled m x" "fp_scaled m y" 1 m] fp_pattern_exact [of _ 1 m] that fp_scaled_nonneg by simp
  show ?thesis using mono [of a b] mono [of b a] assms by (metis antisym linear)
qed

lemma fp_scaled_inj: "0 \<le> a \<Longrightarrow> 0 \<le> b \<Longrightarrow> fp_scaled m a = fp_scaled m b \<longleftrightarrow> a = b"
  by (metis fp_scaled_le antisym order_refl)

lemma fp_scaled_zero [simp]: "fp_scaled m 0 = 0"
  by (simp add: fp_scaled_def)

section \<open>Formats and operations\<close>

record fmt =
  mant :: nat
  expo :: nat

definition F32 :: fmt where "F32 = \<lparr>mant = 23, expo = 8\<rparr>"
definition F64 :: fmt where "F64 = \<lparr>mant = 52, expo = 11\<rparr>"

definition fp_sgn :: "fmt \<Rightarrow> int" where "fp_sgn F = 2 ^ (mant F + expo F)"
definition fp_inf :: "fmt \<Rightarrow> int" where "fp_inf F = (2 ^ expo F - 1) * 2 ^ mant F"
definition fp_qnan :: "fmt \<Rightarrow> int" where "fp_qnan F = fp_inf F + 2 ^ (mant F - 1)"

text \<open>The number 1 in multiples of the smallest subnormal number.\<close>

definition fp_unit :: "fmt \<Rightarrow> int" where "fp_unit F = 2 ^ (2 ^ (expo F - 1) + mant F - 2)"

definition fp_neg :: "fmt \<Rightarrow> int \<Rightarrow> bool" where "fp_neg F p \<longleftrightarrow> fp_sgn F \<le> p"
definition fp_abs :: "fmt \<Rightarrow> int \<Rightarrow> int" where "fp_abs F p = (if fp_neg F p then p - fp_sgn F else p)"
definition fp_is_nan :: "fmt \<Rightarrow> int \<Rightarrow> bool" where "fp_is_nan F p \<longleftrightarrow> fp_inf F < fp_abs F p"
definition fp_is_inf :: "fmt \<Rightarrow> int \<Rightarrow> bool" where "fp_is_inf F p \<longleftrightarrow> fp_abs F p = fp_inf F"
definition fp_fin :: "fmt \<Rightarrow> int \<Rightarrow> bool" where "fp_fin F p \<longleftrightarrow> fp_abs F p < fp_inf F"

definition fp_key :: "fmt \<Rightarrow> int \<Rightarrow> int" where "fp_key F p = (if fp_neg F p then - fp_abs F p else fp_abs F p)"

definition fp_val :: "fmt \<Rightarrow> int \<Rightarrow> int" where
  "fp_val F p = (if fp_neg F p then - fp_scaled (mant F) (fp_abs F p) else fp_scaled (mant F) (fp_abs F p))"

text \<open>A sign and a magnitude; magnitudes behind the largest finite one are infinite.\<close>

definition fp_pack :: "fmt \<Rightarrow> bool \<Rightarrow> int \<Rightarrow> int" where
  "fp_pack F neg mag = min mag (fp_inf F) + (if neg then fp_sgn F else 0)"

definition fp_round :: "fmt \<Rightarrow> bool \<Rightarrow> int \<Rightarrow> int \<Rightarrow> int" where
  "fp_round F neg n d = fp_pack F neg (fp_pattern (mant F) n d)"

definition fp_negate :: "fmt \<Rightarrow> int \<Rightarrow> int" where
  "fp_negate F p = (if fp_neg F p then p - fp_sgn F else p + fp_sgn F)"

text \<open>The exact sum of two finite numbers, rounded; a sum that is exactly zero is negative only if both numbers are.\<close>

definition fp_sum :: "fmt \<Rightarrow> bool \<Rightarrow> int \<Rightarrow> int \<Rightarrow> int" where
  "fp_sum F neg n d = (if n = 0 then fp_pack F neg 0 else fp_round F (n < 0) (abs n) d)"

definition fp_add :: "fmt \<Rightarrow> int \<Rightarrow> int \<Rightarrow> int" where
  "fp_add F a b =
     (if fp_is_nan F a \<or> fp_is_nan F b then fp_qnan F
      else if fp_is_inf F a then (if fp_is_inf F b \<and> fp_neg F a \<noteq> fp_neg F b then fp_qnan F else a)
      else if fp_is_inf F b then b
      else fp_sum F (fp_neg F a \<and> fp_neg F b) (fp_val F a + fp_val F b) 1)"

definition fp_sub :: "fmt \<Rightarrow> int \<Rightarrow> int \<Rightarrow> int" where
  "fp_sub F a b = (if fp_is_nan F a \<or> fp_is_nan F b then fp_qnan F else fp_add F a (fp_negate F b))"

definition fp_mul :: "fmt \<Rightarrow> int \<Rightarrow> int \<Rightarrow> int" where
  "fp_mul F a b =
     (let neg = (fp_neg F a \<noteq> fp_neg F b)
      in if fp_is_nan F a \<or> fp_is_nan F b then fp_qnan F
         else if fp_is_inf F a \<or> fp_is_inf F b then (if fp_abs F a = 0 \<or> fp_abs F b = 0 then fp_qnan F else fp_pack F neg (fp_inf F))
         else fp_round F neg (abs (fp_val F a * fp_val F b)) (fp_unit F))"

definition fp_div :: "fmt \<Rightarrow> int \<Rightarrow> int \<Rightarrow> int" where
  "fp_div F a b =
     (let neg = (fp_neg F a \<noteq> fp_neg F b)
      in if fp_is_nan F a \<or> fp_is_nan F b then fp_qnan F
         else if fp_is_inf F a then (if fp_is_inf F b then fp_qnan F else fp_pack F neg (fp_inf F))
         else if fp_is_inf F b then fp_pack F neg 0
         else if fp_abs F b = 0 then (if fp_abs F a = 0 then fp_qnan F else fp_pack F neg (fp_inf F))
         else fp_round F neg (abs (fp_val F a) * fp_unit F) (abs (fp_val F b)))"

text \<open>The fused \<open>a * b + c\<close> of the vector instructions, rounded once.\<close>

definition fp_fma :: "fmt \<Rightarrow> int \<Rightarrow> int \<Rightarrow> int \<Rightarrow> int" where
  "fp_fma F a b c =
     (let neg = (fp_neg F a \<noteq> fp_neg F b)
      in if fp_is_nan F a \<or> fp_is_nan F b \<or> fp_is_nan F c then fp_qnan F
         else if fp_is_inf F a \<or> fp_is_inf F b then
           (if fp_abs F a = 0 \<or> fp_abs F b = 0 \<or> fp_is_inf F c \<and> fp_neg F c \<noteq> neg then fp_qnan F else fp_pack F neg (fp_inf F))
         else if fp_is_inf F c then c
         else fp_sum F (neg \<and> fp_neg F c) (fp_val F a * fp_val F b + fp_val F c * fp_unit F) (fp_unit F))"

text \<open>
  The square root. The root of the scaled number has more integer bits than the significand, so half a unit stands for any remainder.
\<close>

function isqrt :: "int \<Rightarrow> int" where
  "isqrt n = (if n \<le> 0 then 0 else let r = 2 * isqrt (n div 4) in if (r + 1) * (r + 1) \<le> n then r + 1 else r)"
  by auto
termination
  by (relation "measure nat") auto

declare isqrt.simps [simp del]

definition fp_sqrt :: "fmt \<Rightarrow> int \<Rightarrow> int" where
  "fp_sqrt F p =
     (if fp_is_nan F p then fp_qnan F
      else if fp_abs F p = 0 then p
      else if fp_neg F p then fp_qnan F
      else if fp_is_inf F p then p
      else
        (let n = fp_val F p * fp_unit F; r = isqrt n
         in fp_round F False (2 * r + (if r * r = n then 0 else 1)) 2))"

definition fp_of_int :: "fmt \<Rightarrow> int \<Rightarrow> int" where
  "fp_of_int F n = fp_round F (n < 0) (abs n * fp_unit F) 1"

text \<open>The conversion to an integer type; a NaN or an infinite value has no defined result.\<close>

definition fp_to_int :: "fmt \<Rightarrow> int \<Rightarrow> int option" where
  "fp_to_int F p =
     (if \<not> fp_fin F p then None
      else Some (if fp_neg F p then - (abs (fp_val F p) div fp_unit F) else fp_val F p div fp_unit F))"

definition fp_convert :: "fmt \<Rightarrow> fmt \<Rightarrow> int \<Rightarrow> int" where
  "fp_convert F G p =
     (if fp_is_nan F p then fp_qnan G
      else if fp_is_inf F p then fp_pack G (fp_neg F p) (fp_inf G)
      else fp_round G (fp_neg F p) (abs (fp_val F p) * fp_unit G) (fp_unit F))"

section \<open>Laws of the operations\<close>

text \<open>The patterns of numbers without a sign bit that are not NaN, and all patterns of a format.\<close>

definition fp_pos :: "fmt \<Rightarrow> int \<Rightarrow> bool" where "fp_pos F p \<longleftrightarrow> 0 \<le> p \<and> p \<le> fp_inf F"
definition fp_ok :: "fmt \<Rightarrow> int \<Rightarrow> bool" where "fp_ok F p \<longleftrightarrow> 0 \<le> p \<and> p < 2 * fp_sgn F"
definition fmt_ok :: "fmt \<Rightarrow> bool" where "fmt_ok F \<longleftrightarrow> 0 < mant F \<and> 0 < expo F"

lemma formats_ok [simp]: "fmt_ok F32" "fmt_ok F64"
  by (simp_all add: fmt_ok_def F32_def F64_def)

lemma fp_unit_pos [simp]: "0 < fp_unit F"
  by (simp add: fp_unit_def)

lemma fp_sgn_pos [simp]: "0 < fp_sgn F" "0 \<le> fp_sgn F"
  by (simp_all add: fp_sgn_def)

lemma fp_inf_bounds:
  assumes "fmt_ok F"
  shows "0 < fp_inf F" "fp_inf F < fp_qnan F" "fp_qnan F < fp_sgn F" "fp_inf F < fp_sgn F"
proof -
  have "(2 :: int) \<le> 2 ^ expo F" using assms by (cases "expo F") (simp_all add: fmt_ok_def)
  then show pos: "0 < fp_inf F" by (simp add: fp_inf_def)
  obtain k where k: "mant F = Suc k" using assms by (cases "mant F") (simp_all add: fmt_ok_def)
  have e: "fp_sgn F = fp_inf F + 2 ^ mant F" by (simp add: fp_sgn_def fp_inf_def power_add algebra_simps)
  show "fp_inf F < fp_qnan F" by (simp add: fp_qnan_def)
  show q: "fp_qnan F < fp_sgn F" by (simp add: fp_qnan_def e k)
  then show "fp_inf F < fp_sgn F" by (simp add: e)
qed

lemma fp_pack_parts:
  assumes "fmt_ok F" and "0 \<le> mag"
  shows "fp_neg F (fp_pack F neg mag) = neg" "fp_abs F (fp_pack F neg mag) = min mag (fp_inf F)" "fp_ok F (fp_pack F neg mag)"
  using fp_inf_bounds [OF assms(1)] assms(2) by (auto simp: fp_pack_def fp_neg_def fp_abs_def fp_ok_def min_def)

lemma fp_pattern_nonneg: "0 \<le> n \<Longrightarrow> 0 < d \<Longrightarrow> 0 \<le> fp_pattern m n d"
  by (rule fp_pattern_bounds(3))

lemma fp_round_parts:
  assumes "fmt_ok F" and "0 \<le> n" and "0 < d"
  shows "fp_neg F (fp_round F neg n d) = neg" "fp_abs F (fp_round F neg n d) = min (fp_pattern (mant F) n d) (fp_inf F)"
    "fp_ok F (fp_round F neg n d)" "\<not> fp_is_nan F (fp_round F neg n d)"
  using fp_pack_parts [OF assms(1) fp_pattern_nonneg [OF assms(2,3)]] by (simp_all add: fp_round_def fp_is_nan_def)

lemma fp_pos_iff:
  assumes "fmt_ok F" and "fp_ok F p"
  shows "fp_pos F p \<longleftrightarrow> \<not> fp_neg F p \<and> \<not> fp_is_nan F p"
  using assms fp_inf_bounds [OF assms(1)] by (auto simp: fp_pos_def fp_neg_def fp_is_nan_def fp_abs_def fp_ok_def)

lemma fp_cases: "fp_is_nan F p \<or> fp_is_inf F p \<or> fp_fin F p"
  by (auto simp: fp_is_nan_def fp_is_inf_def fp_fin_def)

lemma fp_fin_not: "fp_fin F p \<Longrightarrow> \<not> fp_is_nan F p \<and> \<not> fp_is_inf F p"
  by (auto simp: fp_is_nan_def fp_is_inf_def fp_fin_def)

lemma fp_abs_nonneg: "fp_ok F p \<Longrightarrow> 0 \<le> fp_abs F p"
  by (simp add: fp_abs_def fp_neg_def fp_ok_def)

lemma fp_qnan_ok: "fmt_ok F \<Longrightarrow> fp_ok F (fp_qnan F) \<and> fp_is_nan F (fp_qnan F)"
  using fp_inf_bounds [of F] by (simp add: fp_ok_def fp_is_nan_def fp_abs_def fp_neg_def)

lemma fp_negate_parts:
  assumes "fp_ok F p"
  shows "fp_ok F (fp_negate F p)" "fp_abs F (fp_negate F p) = fp_abs F p" "fp_neg F (fp_negate F p) \<longleftrightarrow> \<not> fp_neg F p"
    "fp_val F (fp_negate F p) = - fp_val F p"
    "fp_is_nan F (fp_negate F p) = fp_is_nan F p" "fp_is_inf F (fp_negate F p) = fp_is_inf F p" "fp_fin F (fp_negate F p) = fp_fin F p"
proof -
  show ok: "fp_ok F (fp_negate F p)" and a: "fp_abs F (fp_negate F p) = fp_abs F p" and n: "fp_neg F (fp_negate F p) \<longleftrightarrow> \<not> fp_neg F p"
    using assms fp_sgn_pos [of F] by (auto simp: fp_ok_def fp_negate_def fp_neg_def fp_abs_def)
  show "fp_val F (fp_negate F p) = - fp_val F p" by (simp add: fp_val_def a n)
  show "fp_is_nan F (fp_negate F p) = fp_is_nan F p" "fp_is_inf F (fp_negate F p) = fp_is_inf F p" "fp_fin F (fp_negate F p) = fp_fin F p"
    by (simp_all add: fp_is_nan_def fp_is_inf_def fp_fin_def a)
qed

lemma fp_sum_parts:
  assumes "fmt_ok F" and "0 < d"
  shows "fp_ok F (fp_sum F neg n d)" "\<not> fp_is_nan F (fp_sum F neg n d)" "fp_neg F (fp_sum F neg n d) = (if n = 0 then neg else n < 0)"
  using fp_round_parts [OF assms(1), of "abs n" d "n < 0"] fp_pack_parts [OF assms(1), of 0 neg] fp_inf_bounds [OF assms(1)] assms(2)
  by (simp_all add: fp_sum_def fp_is_nan_def)

text \<open>Which operations give a NaN.\<close>

lemma fp_add_ok: "fmt_ok F \<Longrightarrow> fp_ok F a \<Longrightarrow> fp_ok F b \<Longrightarrow> fp_ok F (fp_add F a b)"
  using fp_qnan_ok fp_sum_parts(1) by (simp add: fp_add_def)

lemma fp_add_nan:
  assumes "fmt_ok F"
  shows "fp_is_nan F (fp_add F a b) \<longleftrightarrow>
    fp_is_nan F a \<or> fp_is_nan F b \<or> fp_is_inf F a \<and> fp_is_inf F b \<and> fp_neg F a \<noteq> fp_neg F b"
  using fp_qnan_ok [OF assms] fp_sum_parts(2) [OF assms] by (auto simp: fp_add_def)

lemma fp_sub_ok: "fmt_ok F \<Longrightarrow> fp_ok F a \<Longrightarrow> fp_ok F b \<Longrightarrow> fp_ok F (fp_sub F a b)"
  using fp_qnan_ok fp_add_ok fp_negate_parts(1) by (simp add: fp_sub_def)

lemma fp_sub_nan:
  assumes "fmt_ok F" and "fp_ok F b"
  shows "fp_is_nan F (fp_sub F a b) \<longleftrightarrow>
    fp_is_nan F a \<or> fp_is_nan F b \<or> fp_is_inf F a \<and> fp_is_inf F b \<and> fp_neg F a = fp_neg F b"
  using fp_qnan_ok [OF assms(1)] fp_add_nan [OF assms(1)] fp_negate_parts [OF assms(2)] by (auto simp: fp_sub_def)

lemma fp_mul_ok: "fmt_ok F \<Longrightarrow> fp_ok F (fp_mul F a b)"
  using fp_qnan_ok fp_pack_parts(3) [of F "fp_inf F"] fp_inf_bounds [of F] fp_round_parts(3) by (simp add: fp_mul_def Let_def)

lemma fp_mul_parts:
  assumes "fmt_ok F"
  shows "fp_is_nan F (fp_mul F a b) \<longleftrightarrow> fp_is_nan F a \<or> fp_is_nan F b \<or> fp_is_inf F a \<and> fp_abs F b = 0 \<or> fp_is_inf F b \<and> fp_abs F a = 0"
    "\<not> fp_is_nan F (fp_mul F a b) \<Longrightarrow> fp_neg F (fp_mul F a b) \<longleftrightarrow> fp_neg F a \<noteq> fp_neg F b"
  using fp_qnan_ok [OF assms] fp_pack_parts [OF assms, of "fp_inf F"] fp_inf_bounds [OF assms]
    fp_round_parts [OF assms, of "abs (fp_val F a * fp_val F b)" "fp_unit F"]
  by (auto simp: fp_mul_def Let_def fp_is_nan_def [of F "fp_pack F _ _"] fp_is_inf_def)

lemma fp_square_pos:
  assumes "fmt_ok F" and "\<not> fp_is_nan F a"
  shows "fp_pos F (fp_mul F a a)"
proof -
  have "\<not> fp_is_nan F (fp_mul F a a)"
    using assms fp_mul_parts(1) [OF assms(1), of a a] fp_inf_bounds [OF assms(1)] by (auto simp: fp_is_inf_def)
  then show ?thesis using fp_pos_iff [OF assms(1) fp_mul_ok [OF assms(1)]] fp_mul_parts(2) [OF assms(1)] by simp
qed

lemma fp_add_pos:
  assumes "fmt_ok F" and "fp_pos F a" and "fp_pos F b"
  shows "fp_pos F (fp_add F a b)"
proof -
  have ok: "fp_ok F a" "fp_ok F b" using assms(2,3) fp_inf_bounds [OF assms(1)] by (simp_all add: fp_pos_def fp_ok_def)
  have ab: "\<not> fp_neg F a" "\<not> fp_neg F b" "\<not> fp_is_nan F a" "\<not> fp_is_nan F b" using assms fp_pos_iff ok by blast+
  have v: "0 \<le> fp_val F a" "0 \<le> fp_val F b" using ab fp_abs_nonneg ok by (simp_all add: fp_val_def fp_scaled_nonneg)
  have "\<not> fp_neg F (fp_add F a b)" using ab v fp_sum_parts(3) [OF assms(1), of 1] by (simp add: fp_add_def)
  moreover have "\<not> fp_is_nan F (fp_add F a b)" using ab by (simp add: fp_add_nan [OF assms(1)])
  ultimately show ?thesis using fp_pos_iff [OF assms(1) fp_add_ok [OF assms(1) ok]] by simp
qed

lemma fp_fma_ok: "fmt_ok F \<Longrightarrow> fp_ok F c \<Longrightarrow> fp_ok F (fp_fma F a b c)"
  using fp_qnan_ok fp_pack_parts(3) [of F "fp_inf F"] fp_inf_bounds [of F] fp_sum_parts(1) [of F "fp_unit F"]
  by (simp add: fp_fma_def Let_def)

lemma fp_fma_pos:
  assumes "fmt_ok F" and "\<not> fp_is_nan F a" and "fp_pos F c"
  shows "fp_pos F (fp_fma F a a c)"
proof -
  have ok: "fp_ok F c" using assms(3) fp_inf_bounds [OF assms(1)] by (simp add: fp_pos_def fp_ok_def)
  have c: "\<not> fp_neg F c" "\<not> fp_is_nan F c" using assms fp_pos_iff ok by blast+
  have "0 \<le> fp_val F c" using c fp_abs_nonneg ok by (simp add: fp_val_def fp_scaled_nonneg)
  then have v: "0 \<le> fp_val F a * fp_val F a + fp_val F c * fp_unit F" using fp_unit_pos [of F] by (simp add: less_imp_le)
  note pk = fp_pack_parts [OF assms(1), of "fp_inf F"] and sm = fp_sum_parts [OF assms(1) fp_unit_pos]
  have "\<not> fp_neg F (fp_fma F a a c) \<and> \<not> fp_is_nan F (fp_fma F a a c)"
    using assms(2) c v pk sm fp_inf_bounds [OF assms(1)] by (auto simp: fp_fma_def Let_def fp_is_inf_def fp_is_nan_def [of F "fp_pack F _ _"])
  then show ?thesis using fp_pos_iff [OF assms(1) fp_fma_ok [OF assms(1) ok]] by simp
qed

text \<open>A square depends on the magnitude only, and a difference has the same magnitude in both directions.\<close>

lemma fp_square_abs:
  assumes "fp_abs F a = fp_abs F b"
  shows "fp_mul F a a = fp_mul F b b"
proof -
  have "fp_val F a * fp_val F a = fp_val F b * fp_val F b" by (simp add: fp_val_def assms)
  then show ?thesis using assms by (simp add: fp_mul_def Let_def fp_is_nan_def fp_is_inf_def)
qed

lemma fp_sub_abs_commute:
  assumes "fmt_ok F" and "fp_ok F a" and "fp_ok F b"
  shows "fp_abs F (fp_sub F a b) = fp_abs F (fp_sub F b a)"
proof -
  have "fp_abs F (fp_sum F neg n 1) = fp_abs F (fp_sum F neg' (- n) 1)" for neg neg' n
    using fp_pack_parts(2) [OF assms(1), of 0] fp_round_parts(2) [OF assms(1), of "abs n" 1] by (simp add: fp_sum_def)
  from this [of _ "fp_val F a - fp_val F b"] show ?thesis
    using fp_negate_parts [OF assms(2)] fp_negate_parts [OF assms(3)]
    by (simp add: fp_sub_def fp_add_def) (simp add: fp_is_inf_def)
qed

lemma fp_pattern_zero [simp]: "0 < d \<Longrightarrow> fp_pattern m 0 d = 0"
  by (simp add: fp_pattern_def half_even_def)

lemma fp_sub_self:
  assumes "fmt_ok F" and "fp_ok F a" and "fp_fin F a"
  shows "fp_sub F a a = 0"
  using assms fp_fin_not [OF assms(3)] fp_negate_parts [OF assms(2)] fp_inf_bounds [OF assms(1)]
  by (simp add: fp_sub_def fp_add_def fp_sum_def fp_pack_def)

lemma fp_zero_ops:
  assumes "fmt_ok F"
  shows "fp_mul F 0 0 = 0" "fp_add F 0 0 = 0"
  using fp_inf_bounds [OF assms]
  by (simp_all add: fp_mul_def fp_add_def fp_sum_def fp_round_def fp_pack_def Let_def fp_is_nan_def fp_is_inf_def fp_abs_def fp_neg_def fp_val_def)

text \<open>Comparing a rounded number with a number of the format.\<close>

lemma fp_round_le:
  assumes "0 \<le> p" and "p \<le> fp_inf F" and "0 \<le> n" and "0 < d" and "n \<le> fp_scaled (mant F) p * d"
  shows "fp_round F False n d \<le> p"
proof -
  have "fp_pattern (mant F) n d \<le> fp_pattern (mant F) (fp_scaled (mant F) p * d) d"
    by (rule fp_pattern_mono_same) (use assms in auto)
  then show ?thesis using fp_pattern_exact [OF assms(1,4)] by (simp add: fp_round_def fp_pack_def)
qed

lemma fp_round_ge:
  assumes "0 \<le> p" and "p \<le> fp_inf F" and "0 < d" and "fp_scaled (mant F) p * d \<le> n"
  shows "p \<le> fp_round F False n d"
proof -
  have "fp_pattern (mant F) (fp_scaled (mant F) p * d) d \<le> fp_pattern (mant F) n d"
    by (rule fp_pattern_mono_same) (use assms fp_scaled_nonneg [OF assms(1)] in auto)
  then show ?thesis using fp_pattern_exact [OF assms(1,3)] assms(2) by (simp add: fp_round_def fp_pack_def)
qed

lemma fp_key_val:
  assumes "fp_ok F a" and "fp_ok F b"
  shows "fp_val F a \<le> fp_val F b \<longleftrightarrow> fp_key F a \<le> fp_key F b"
proof -
  have n: "0 \<le> fp_abs F a" "0 \<le> fp_abs F b" using assms by (simp_all add: fp_abs_nonneg)
  note l = fp_scaled_le [of _ _ "mant F"] and z = fp_scaled_inj [of _ _ "mant F"]
  have s: "0 \<le> fp_scaled (mant F) (fp_abs F a)" "0 \<le> fp_scaled (mant F) (fp_abs F b)" using n by (simp_all add: fp_scaled_nonneg)
  have e: "fp_scaled (mant F) x = 0 \<longleftrightarrow> x = 0" if "0 \<le> x" for x using z [OF that, of 0] by simp
  show ?thesis
    using n s l [OF n] l [OF n(2,1)] e [OF n(1)] e [OF n(2)] by (auto simp: fp_val_def fp_key_def)
qed

section \<open>Single precision\<close>

definition f_add :: "f32 \<Rightarrow> f32 \<Rightarrow> f32" where "f_add x y = word_of_int (fp_add F32 (uint x) (uint y))"
definition f_sub :: "f32 \<Rightarrow> f32 \<Rightarrow> f32" where "f_sub x y = word_of_int (fp_sub F32 (uint x) (uint y))"
definition f_mul :: "f32 \<Rightarrow> f32 \<Rightarrow> f32" where "f_mul x y = word_of_int (fp_mul F32 (uint x) (uint y))"
definition f_div :: "f32 \<Rightarrow> f32 \<Rightarrow> f32" where "f_div x y = word_of_int (fp_div F32 (uint x) (uint y))"
definition f_fma :: "f32 \<Rightarrow> f32 \<Rightarrow> f32 \<Rightarrow> f32" where "f_fma x y z = word_of_int (fp_fma F32 (uint x) (uint y) (uint z))"
definition f_negate :: "f32 \<Rightarrow> f32" where "f_negate x = word_of_int (fp_negate F32 (uint x))"
definition f_sqrt :: "f32 \<Rightarrow> f32" where "f_sqrt x = word_of_int (fp_sqrt F32 (uint x))"
definition f_of_int :: "int \<Rightarrow> f32" where "f_of_int n = word_of_int (fp_of_int F32 n)"
definition f_to_int :: "f32 \<Rightarrow> int option" where "f_to_int x = fp_to_int F32 (uint x)"
definition f_eq :: "f32 \<Rightarrow> f32 \<Rightarrow> bool" where "f_eq x y \<longleftrightarrow> \<not> f_nan x \<and> \<not> f_nan y \<and> f_key x = f_key y"
definition f_one :: f32 where "f_one = 0x3F800000"

definition f_pos :: "f32 \<Rightarrow> bool" where "f_pos x \<longleftrightarrow> fp_pos F32 (uint x)"

lemma F32_consts: "fp_sgn F32 = 0x80000000" "fp_inf F32 = 0x7F800000" "fp_unit F32 = 2 ^ 149" "mant F32 = 23"
  by (simp_all add: fp_sgn_def fp_inf_def fp_unit_def F32_def)

lemma fp_ok_uint [simp]: "fp_ok F32 (uint (x :: f32))"
  using uint_nonnegative [of x] uint_bounded [of x] by (simp add: fp_ok_def F32_consts)

lemma uint_of_ok: "fp_ok F32 p \<Longrightarrow> uint (word_of_int p :: f32) = p"
  by (simp add: fp_ok_def F32_consts uint_word_of_int)

lemma uint_f_ops:
  "uint (f_add x y) = fp_add F32 (uint x) (uint y)" "uint (f_sub x y) = fp_sub F32 (uint x) (uint y)"
  "uint (f_mul x y) = fp_mul F32 (uint x) (uint y)" "uint (f_fma x y z) = fp_fma F32 (uint x) (uint y) (uint z)"
  "uint (f_negate x) = fp_negate F32 (uint x)"
  by (simp_all add: f_add_def f_sub_def f_mul_def f_fma_def f_negate_def uint_of_ok fp_add_ok fp_sub_ok fp_mul_ok fp_fma_ok fp_negate_parts(1))

lemma f_abs_uint: "uint (f_abs x) = fp_abs F32 (uint x)"
  by (simp add: f_abs_def fp_abs_def fp_neg_def F32_consts word_less_def uint_sub_if')

lemma f_nan_uint: "f_nan x = fp_is_nan F32 (uint x)"
  by (simp add: f_nan_def fp_is_nan_def f_abs_uint [symmetric] F32_consts word_less_def)

lemma f_key_uint: "f_key x = fp_key F32 (uint x)"
  by (simp add: f_key_def fp_key_def f_abs_uint fp_neg_def F32_consts word_less_def) (simp add: fp_abs_def fp_neg_def F32_consts)

lemma f_finite_uint: "f_finite x = fp_fin F32 (uint x)"
  using f_abs_uint [of x] by (auto simp: f_finite_def fp_fin_def FLT_MAX_def F32_consts word_le_def)

lemma f_pos_nonneg: "f_pos x \<Longrightarrow> \<not> f_nan x \<and> 0 \<le> f_key x"
  by (auto simp: f_pos_def fp_pos_def f_nan_uint f_key_uint fp_is_nan_def fp_key_def fp_abs_def fp_neg_def F32_consts)

end
