(* ===== verification/Distance.thy ===== *)
theory Distance
  imports Float_Arith
begin

text \<open>
  The distance kernels of \<^verbatim>\<open>src/src/vector/distance.c\<close> in IEEE single precision: the portable ones and those for AVX2 with their eight
  lanes, fused multiply-adds and horizontal sums. The callers pass arrays of at least \<^verbatim>\<open>dim\<close> floats; products and sums written in C are rounded
  separately (a compiler that contracts them into fused instructions, where the target has any, computes something else). The NEON kernels are not modelled: the order of the
  additions in \<^verbatim>\<open>vaddvq_f32\<close> is up to the processor.
\<close>

section \<open>Portable kernels\<close>

definition vec_pairs :: "vec \<Rightarrow> vec \<Rightarrow> nat \<Rightarrow> (f32 \<times> f32) list" where
  "vec_pairs a b dim = zip (take dim a) (take dim b)"

definition l2_step :: "f32 \<times> f32 \<Rightarrow> f32 \<Rightarrow> f32" where
  "l2_step p s = (let diff = f_sub (fst p) (snd p) in f_add s (f_mul diff diff))"

definition dot_step :: "f32 \<times> f32 \<Rightarrow> f32 \<Rightarrow> f32" where
  "dot_step p s = f_add s (f_mul (fst p) (snd p))"

definition fst_step :: "f32 \<times> f32 \<Rightarrow> f32 \<Rightarrow> f32" where
  "fst_step p s = f_add s (f_mul (fst p) (fst p))"

definition snd_step :: "f32 \<times> f32 \<Rightarrow> f32 \<Rightarrow> f32" where
  "snd_step p s = f_add s (f_mul (snd p) (snd p))"

definition vec_l2_distance :: "vec \<Rightarrow> vec \<Rightarrow> nat \<Rightarrow> f32" where
  "vec_l2_distance a b dim = fold l2_step (vec_pairs a b dim) f_zero"

text \<open>The end of both cosine kernels.\<close>

definition cosine_of :: "f32 \<Rightarrow> f32 \<Rightarrow> f32 \<Rightarrow> f32" where
  "cosine_of dot noma nomb =
     (let denom = f_mul noma nomb in if f_eq denom f_zero then f_one else f_sub f_one (f_div dot (f_sqrt denom)))"

definition vec_cosine_distance :: "vec \<Rightarrow> vec \<Rightarrow> nat \<Rightarrow> f32" where
  "vec_cosine_distance a b dim =
     (let ps = vec_pairs a b dim
      in cosine_of (fold dot_step ps f_zero) (fold fst_step ps f_zero) (fold snd_step ps f_zero))"

definition vec_ip_distance :: "vec \<Rightarrow> vec \<Rightarrow> nat \<Rightarrow> f32" where
  "vec_ip_distance a b dim = f_negate (fold dot_step (vec_pairs a b dim) f_zero)"

section \<open>AVX2 kernels\<close>

text \<open>A register is the list of its lanes. The loop takes \<open>w\<close> elements at a time and leaves the rest to the scalar code.\<close>

function simd_loop :: "nat \<Rightarrow> (f32 \<times> f32 \<Rightarrow> f32 \<Rightarrow> f32) \<Rightarrow> f32 list \<Rightarrow> (f32 \<times> f32) list \<Rightarrow> f32 list \<times> (f32 \<times> f32) list" where
  "simd_loop w step lanes ps =
     (if 0 < w \<and> w \<le> length ps then simd_loop w step (map2 step (take w ps) lanes) (drop w ps) else (lanes, ps))"
  by auto
termination
  by (relation "measure (\<lambda>(w, step, lanes, ps). length ps)") auto

declare simd_loop.simps [simp del]

text \<open>\<^verbatim>\<open>_mm_hadd_ps(s, s)\<close> twice, first lane; before it the sum of the upper and the lower half of a register of eight lanes.\<close>

definition hsum4 :: "f32 list \<Rightarrow> f32" where
  "hsum4 s = f_add (f_add (s ! 0) (s ! 1)) (f_add (s ! 2) (s ! 3))"

definition hsum8 :: "f32 list \<Rightarrow> f32" where
  "hsum8 l = hsum4 (map2 f_add (take 4 l) (take 4 (drop 4 l)))"

definition l2_fma :: "f32 \<times> f32 \<Rightarrow> f32 \<Rightarrow> f32" where
  "l2_fma p s = (let diff = f_sub (fst p) (snd p) in f_fma diff diff s)"

definition dot_fma :: "f32 \<times> f32 \<Rightarrow> f32 \<Rightarrow> f32" where "dot_fma p s = f_fma (fst p) (snd p) s"
definition fst_fma :: "f32 \<times> f32 \<Rightarrow> f32 \<Rightarrow> f32" where "fst_fma p s = f_fma (fst p) (fst p) s"
definition snd_fma :: "f32 \<times> f32 \<Rightarrow> f32 \<Rightarrow> f32" where "snd_fma p s = f_fma (snd p) (snd p) s"

definition avx2_sum :: "(f32 \<times> f32 \<Rightarrow> f32 \<Rightarrow> f32) \<Rightarrow> (f32 \<times> f32 \<Rightarrow> f32 \<Rightarrow> f32) \<Rightarrow> (f32 \<times> f32) list \<Rightarrow> f32" where
  "avx2_sum lane_step tail_step ps =
     (case simd_loop 8 lane_step (replicate 8 f_zero) ps of (lanes, rest) \<Rightarrow> fold tail_step rest (hsum8 lanes))"

definition vec_l2_distance_avx2 :: "vec \<Rightarrow> vec \<Rightarrow> nat \<Rightarrow> f32" where
  "vec_l2_distance_avx2 a b dim = avx2_sum l2_fma l2_step (vec_pairs a b dim)"

definition vec_cosine_distance_avx2 :: "vec \<Rightarrow> vec \<Rightarrow> nat \<Rightarrow> f32" where
  "vec_cosine_distance_avx2 a b dim =
     (let ps = vec_pairs a b dim
      in cosine_of (avx2_sum dot_fma dot_step ps) (avx2_sum fst_fma fst_step ps) (avx2_sum snd_fma snd_step ps))"

definition vec_ip_distance_avx2 :: "vec \<Rightarrow> vec \<Rightarrow> nat \<Rightarrow> f32" where
  "vec_ip_distance_avx2 a b dim = f_negate (avx2_sum dot_fma dot_step (vec_pairs a b dim))"

section \<open>Euclidean distances are numbers\<close>

definition finite_vec :: "vec \<Rightarrow> bool" where
  "finite_vec v \<longleftrightarrow> (\<forall>x\<in>set v. f_finite x)"

lemma f_zero_pos [simp]: "f_pos f_zero"
  by (simp add: f_pos_def fp_pos_def f_zero_def F32_consts)

lemma f_add_pos: "f_pos x \<Longrightarrow> f_pos y \<Longrightarrow> f_pos (f_add x y)"
  by (simp add: f_pos_def uint_f_ops fp_add_pos)

lemma f_diff_number:
  assumes "f_finite x" and "f_finite y"
  shows "\<not> fp_is_nan F32 (uint (f_sub x y))"
  using assms fp_fin_not by (simp add: uint_f_ops fp_sub_nan f_finite_uint)

lemma pairs_finite: "finite_vec a \<Longrightarrow> finite_vec b \<Longrightarrow> \<forall>p\<in>set (vec_pairs a b dim). f_finite (fst p) \<and> f_finite (snd p)"
  unfolding vec_pairs_def finite_vec_def by (metis in_set_takeD prod.collapse set_zip_leftD set_zip_rightD)

lemma l2_step_pos: "f_finite (fst p) \<Longrightarrow> f_finite (snd p) \<Longrightarrow> f_pos s \<Longrightarrow> f_pos (l2_step p s)"
  using fp_square_pos [OF formats_ok(1) f_diff_number, of "fst p" "snd p"]
  by (simp add: l2_step_def f_add_pos f_pos_def [of "f_mul _ _"] uint_f_ops Let_def)

lemma l2_fma_pos: "f_finite (fst p) \<Longrightarrow> f_finite (snd p) \<Longrightarrow> f_pos s \<Longrightarrow> f_pos (l2_fma p s)"
  using fp_fma_pos [OF formats_ok(1) f_diff_number, of "fst p" "snd p" "uint s"] by (simp add: l2_fma_def f_pos_def uint_f_ops Let_def)

lemma fold_pos: "\<forall>p\<in>set ps. \<forall>s. f_pos s \<longrightarrow> f_pos (step p s) \<Longrightarrow> f_pos s \<Longrightarrow> f_pos (fold step ps s)"
  by (induction ps arbitrary: s) simp_all

lemma simd_loop_pos:
  assumes "\<forall>p\<in>set ps. \<forall>s. f_pos s \<longrightarrow> f_pos (step p s)" and "\<forall>s\<in>set lanes. f_pos s" and "length lanes = w"
  shows "(\<forall>s\<in>set (fst (simd_loop w step lanes ps)). f_pos s) \<and> length (fst (simd_loop w step lanes ps)) = w \<and>
    set (snd (simd_loop w step lanes ps)) \<subseteq> set ps"
  using assms
proof (induction w step lanes ps rule: simd_loop.induct)
  case (1 w step lanes ps)
  show ?case
  proof (cases "0 < w \<and> w \<le> length ps")
    case True
    let ?lanes = "map2 step (take w ps) lanes"
    have "f_pos s" if "s \<in> set ?lanes" for s
    proof -
      obtain p l where "(p, l) \<in> set (zip (take w ps) lanes)" "s = step p l" using \<open>s \<in> _\<close> by auto
      then show ?thesis using 1(2,3) by (metis in_set_takeD set_zip_leftD set_zip_rightD)
    qed
    moreover have "\<forall>p\<in>set (drop w ps). \<forall>s. f_pos s \<longrightarrow> f_pos (step p s)" using 1(2) in_set_dropD by metis
    moreover have "length ?lanes = w" using 1(4) True by simp
    ultimately have "(\<forall>s\<in>set (fst (simd_loop w step ?lanes (drop w ps))). f_pos s) \<and>
      length (fst (simd_loop w step ?lanes (drop w ps))) = w \<and> set (snd (simd_loop w step ?lanes (drop w ps))) \<subseteq> set (drop w ps)"
      by (intro 1(1) [OF True]) blast+
    moreover have "simd_loop w step lanes ps = simd_loop w step ?lanes (drop w ps)"
      using True by (subst simd_loop.simps) simp
    ultimately show ?thesis using subset_trans [OF _ set_drop_subset [of w ps]] by simp
  next
    case False
    then have "simd_loop w step lanes ps = (lanes, ps)" by (subst simd_loop.simps) (simp only: if_False)
    then show ?thesis using 1(3,4) by simp
  qed
qed

lemma hsum8_pos:
  assumes "\<forall>s\<in>set l. f_pos s" and "length l = 8"
  shows "f_pos (hsum8 l)"
proof -
  have "f_pos (l ! i)" if "i < 8" for i using assms that by simp
  then show ?thesis using assms(2) by (auto simp: hsum8_def hsum4_def intro!: f_add_pos)
qed

lemma l2_distance_pos:
  assumes "finite_vec a" and "finite_vec b"
  shows "f_pos (vec_l2_distance a b dim)" "f_pos (vec_l2_distance_avx2 a b dim)"
proof -
  let ?ps = "vec_pairs a b dim"
  note fin = pairs_finite [OF assms, of dim]
  have step: "\<forall>p\<in>set ?ps. \<forall>s. f_pos s \<longrightarrow> f_pos (l2_step p s)" and fma: "\<forall>p\<in>set ?ps. \<forall>s. f_pos s \<longrightarrow> f_pos (l2_fma p s)"
    using fin l2_step_pos l2_fma_pos by blast+
  show "f_pos (vec_l2_distance a b dim)" unfolding vec_l2_distance_def by (rule fold_pos [OF step]) simp
  obtain lanes rest where l: "simd_loop 8 l2_fma (replicate 8 f_zero) ?ps = (lanes, rest)" by fastforce
  have "\<forall>s\<in>set lanes. f_pos s" "length lanes = 8" "set rest \<subseteq> set ?ps"
    using simd_loop_pos [OF fma, of "replicate 8 f_zero" 8] l by simp_all
  then show "f_pos (vec_l2_distance_avx2 a b dim)"
    unfolding vec_l2_distance_avx2_def avx2_sum_def l prod.case using step by (intro fold_pos hsum8_pos) blast+
qed

lemma l2_step_swap: "l2_step (x, y) s = l2_step (y, x) s"
proof -
  have "uint (f_mul (f_sub x y) (f_sub x y)) = uint (f_mul (f_sub y x) (f_sub y x))"
    using fp_square_abs [OF fp_sub_abs_commute, of F32 "uint x" "uint y"] by (simp add: uint_f_ops)
  then have "f_mul (f_sub x y) (f_sub x y) = f_mul (f_sub y x) (f_sub y x)" by (simp add: word_uint_eq_iff)
  then show ?thesis by (simp add: l2_step_def Let_def)
qed

lemma fold_l2_swap: "fold l2_step (zip xs ys) s = fold l2_step (zip ys xs) s"
proof (induction xs arbitrary: ys s)
  case (Cons x xs)
  then show ?case by (cases ys) (simp_all add: l2_step_swap)
qed simp

lemma l2_step_same:
  assumes "f_finite x"
  shows "l2_step (x, x) f_zero = f_zero"
proof -
  have "uint (f_sub x x) = 0" using assms by (simp add: uint_f_ops fp_sub_self f_finite_uint)
  then have "f_sub x x = f_zero" by (simp add: word_uint_eq_iff f_zero_def)
  moreover have "f_mul f_zero f_zero = f_zero" "f_add f_zero f_zero = f_zero"
    by (simp_all add: word_uint_eq_iff uint_f_ops) (simp_all add: f_zero_def fp_zero_ops)
  ultimately show ?thesis by (simp add: l2_step_def)
qed

lemma fold_l2_same: "\<forall>x\<in>set xs. f_finite x \<Longrightarrow> fold l2_step (zip xs xs) f_zero = f_zero"
  by (induction xs) (simp_all add: l2_step_same)

text \<open>
  The Euclidean kernels, portable and AVX2, never return a NaN or a negative number for finite vectors, whatever is rounded or
  overflows on the way; the portable one is symmetric and gives exactly zero for a vector and itself.
\<close>

theorem vec_l2_distance_metric:
  assumes "finite_vec a" and "finite_vec b"
  shows "f_le f_zero (vec_l2_distance a b dim) \<and> f_le f_zero (vec_l2_distance_avx2 a b dim) \<and>
    vec_l2_distance a b dim = vec_l2_distance b a dim \<and> vec_l2_distance a a dim = f_zero"
proof -
  have le: "f_le f_zero d" if "f_pos d" for d
    using f_pos_nonneg [OF that] by (simp add: f_le_def f_zero_def f_nan_def f_key_def f_abs_def)
  have "\<forall>x\<in>set (take dim a). f_finite x" using assms(1) by (auto simp: finite_vec_def dest: in_set_takeD)
  then show ?thesis using le l2_distance_pos [OF assms] fold_l2_same fold_l2_swap
    by (simp add: vec_l2_distance_def [of a b] vec_l2_distance_def [of b a] vec_l2_distance_def [of a a] vec_pairs_def)
qed

theorem vec_l2_distance_metric_witness:
  "f_le f_zero (vec_l2_distance [f_one] [0x40000000] 1) \<and> vec_l2_distance [f_one] [0x40000000] 1 = f_one"
proof -
  have "finite_vec [f_one]" "finite_vec [0x40000000]" by code_simp+
  from vec_l2_distance_metric [OF this, of 1] have "f_le f_zero (vec_l2_distance [f_one] [0x40000000] 1)" by blast
  moreover have "vec_l2_distance [f_one] [0x40000000] 1 = f_one" by code_simp
  ultimately show ?thesis by blast
qed

end
