(* ===== verification/Quantize.thy ===== *)
theory Quantize
  imports Distance
begin

text \<open>
  Vector quantization (\<^verbatim>\<open>src/src/vector/quantize.c\<close>): scalar quantization to bytes (SQ8) and product quantization (PQ) with k-means
  codebooks, in IEEE single precision. A codebook is the list of its 256 rows. Training sets are lists of rows, and they and the codebooks have fewer than
  \<open>2 ^ 32\<close> floats, so that the index computations in 32 bits do not wrap; memory is available. \<open>None\<close> is a conversion or an access
  that C leaves undefined. Which distance routine runs depends on the processor, whose features are arguments.
\<close>

section \<open>State\<close>

definition KANBUDB_QUANT_SQ8 :: u32 where "KANBUDB_QUANT_SQ8 = 1"
definition KANBUDB_QUANT_PQ :: u32 where "KANBUDB_QUANT_PQ = 2"

record quant_params =
  qp_type :: u32
  qp_dimension :: u32
  qp_subspaces :: u32

record quantizer =
  qz_params :: quant_params
  sq_min :: "f32 list option"
  sq_range :: "f32 list option"
  sq_trained :: bool
  pq_codebooks :: "vec list list option"
  pq_sub_dim :: nat
  pq_trained :: bool

abbreviation qdim :: "quantizer \<Rightarrow> nat" where "qdim q \<equiv> unat (qp_dimension (qz_params q))"
abbreviation qsub :: "quantizer \<Rightarrow> nat" where "qsub q \<equiv> unat (qp_subspaces (qz_params q))"

section \<open>SQ8\<close>

definition f_255 :: f32 where "f_255 = 0x437F0000"
definition f_half :: f32 where "f_half = 0x3F000000"

text \<open>The smallest and the largest value of one dimension.\<close>

definition minmax_step :: "f32 \<Rightarrow> f32 \<times> f32 \<Rightarrow> f32 \<times> f32" where
  "minmax_step v r = (if f_less v (fst r) then v else fst r, if f_less (snd r) v then v else snd r)"

definition column :: "nat \<Rightarrow> vec list \<Rightarrow> f32 list" where
  "column d rows = map (\<lambda>r. r ! d) rows"

definition sq_minmax :: "f32 list \<Rightarrow> f32 \<times> f32" where
  "sq_minmax vs = fold minmax_step (tl vs) (hd vs, hd vs)"

definition sq_span :: "f32 \<times> f32 \<Rightarrow> f32" where
  "sq_span r = (if f_less (fst r) (snd r) then f_sub (snd r) (fst r) else f_one)"

definition sq8_train :: "quantizer \<Rightarrow> vec list \<Rightarrow> quantizer" where
  "sq8_train q rows =
     (let mms = map (\<lambda>d. sq_minmax (column d rows)) [0..<qdim q]
      in q\<lparr>sq_min := Some (map fst mms), sq_range := Some (map sq_span mms), sq_trained := True\<rparr>)"

definition sq8_encode1 :: "f32 \<Rightarrow> f32 \<Rightarrow> f32 \<Rightarrow> 8 word option" where
  "sq8_encode1 v mn rg =
     (let n0 = f_div (f_sub v mn) rg;
          n1 = (if f_less n0 f_zero then f_zero else n0);
          n2 = (if f_less f_one n1 then f_one else n1)
      in case f_to_int (f_add (f_mul n2 f_255) f_half) of
           None \<Rightarrow> None
         | Some i \<Rightarrow> if 0 \<le> i \<and> i < 256 then Some (word_of_int i) else None)"

definition sq8_encode :: "quantizer \<Rightarrow> vec \<Rightarrow> bytes option" where
  "sq8_encode q vector =
     (case (sq_min q, sq_range q) of
        (Some mns, Some rgs) \<Rightarrow> those (map (\<lambda>d. sq8_encode1 (vector ! d) (mns ! d) (rgs ! d)) [0..<qdim q])
      | _ \<Rightarrow> None)"

definition sq8_decode1 :: "8 word \<Rightarrow> f32 \<Rightarrow> f32 \<Rightarrow> f32" where
  "sq8_decode1 c mn rg = f_add mn (f_mul (f_div (f_of_int (uint c)) f_255) rg)"

definition sq8_decode :: "quantizer \<Rightarrow> bytes \<Rightarrow> vec option" where
  "sq8_decode q code =
     (case (sq_min q, sq_range q) of
        (Some mns, Some rgs) \<Rightarrow> Some (map (\<lambda>d. sq8_decode1 (code ! d) (mns ! d) (rgs ! d)) [0..<qdim q])
      | _ \<Rightarrow> None)"

definition sq8_distance :: "quantizer \<Rightarrow> bytes \<Rightarrow> bytes \<Rightarrow> f32 option" where
  "sq8_distance q a b =
     (case (sq8_decode q a, sq8_decode q b) of
        (Some da, Some db) \<Rightarrow> Some (fold l2_step (zip da db) f_zero)
      | _ \<Rightarrow> None)"

section \<open>PQ\<close>

text \<open>The scan for the nearest row, which k-means and the encoder share; rows at \<^verbatim>\<open>FLT_MAX\<close> or more are not considered.\<close>

fun nearest_scan :: "nat \<Rightarrow> vec \<Rightarrow> vec list \<Rightarrow> nat \<Rightarrow> f32 \<Rightarrow> nat \<Rightarrow> nat" where
  "nearest_scan dim v [] c best_dist best = best"
| "nearest_scan dim v (w # ws) c best_dist best =
     (let dist = vec_l2_distance v w dim
      in if f_less dist best_dist then nearest_scan dim v ws (Suc c) dist c else nearest_scan dim v ws (Suc c) best_dist best)"

definition nearest :: "nat \<Rightarrow> vec \<Rightarrow> vec list \<Rightarrow> nat" where
  "nearest dim v cb = nearest_scan dim v cb 0 FLT_MAX 0"

definition init_idx :: "nat \<Rightarrow> nat \<Rightarrow> nat \<Rightarrow> nat option" where
  "init_idx n k c =
     (case f_to_int (f_mul (f_div (f_of_int (int c)) (f_of_int (int k))) (f_of_int (int n))) of
        None \<Rightarrow> None
      | Some i \<Rightarrow> if i < 0 \<or> 2 ^ 32 \<le> i then None else Some (if nat i \<ge> n then n - 1 else nat i))"

definition members :: "nat \<Rightarrow> nat list \<Rightarrow> vec list \<Rightarrow> vec list" where
  "members c assignments rows = map snd (filter (\<lambda>p. fst p = c) (zip assignments rows))"

definition centroid :: "nat \<Rightarrow> vec list \<Rightarrow> vec" where
  "centroid dim rows =
     map (\<lambda>s. f_div s (f_of_int (int (length rows)))) (fold (\<lambda>r acc. map2 f_add acc r) rows (replicate dim f_zero))"

definition kmeans_iter :: "nat \<Rightarrow> vec list \<Rightarrow> vec list \<Rightarrow> vec list" where
  "kmeans_iter dim rows codebook =
     (let assignments = map (\<lambda>r. nearest dim r codebook) rows
      in map (\<lambda>c. let ms = members c assignments rows in if ms = [] then codebook ! c else centroid dim ms) [0..<length codebook])"

definition pq_kmeans :: "vec list \<Rightarrow> nat \<Rightarrow> nat \<Rightarrow> nat \<Rightarrow> vec list option" where
  "pq_kmeans rows dim k max_iter =
     (case those (map (init_idx (length rows) k) [0..<k]) of
        None \<Rightarrow> None
      | Some idxs \<Rightarrow> Some ((kmeans_iter dim rows ^^ max_iter) (map ((!) rows) idxs)))"

definition subvec :: "nat \<Rightarrow> nat \<Rightarrow> vec \<Rightarrow> vec" where
  "subvec sub_dim s v = take sub_dim (drop (s * sub_dim) v)"

definition pq_train :: "quantizer \<Rightarrow> vec list \<Rightarrow> (quantizer \<times> int) option" where
  "pq_train q rows =
     (if qsub q = 0 then None
      else
        (let sub_dim = qdim q div qsub q
         in if sub_dim = 0 then Some (q, - 1)
            else case those (map (\<lambda>s. pq_kmeans (map (subvec sub_dim s) rows) sub_dim 256 20) [0..<qsub q]) of
              None \<Rightarrow> None
            | Some cbs \<Rightarrow> Some (q\<lparr>pq_sub_dim := sub_dim, pq_codebooks := Some cbs, pq_trained := True\<rparr>, 0)))"

definition pq_encode :: "quantizer \<Rightarrow> vec \<Rightarrow> bytes option" where
  "pq_encode q vector =
     map_option (\<lambda>cbs. map (\<lambda>s. word_of_nat (nearest (pq_sub_dim q) (subvec (pq_sub_dim q) s vector) (cbs ! s))) [0..<qsub q])
       (pq_codebooks q)"

definition codeword :: "vec list list \<Rightarrow> bytes \<Rightarrow> nat \<Rightarrow> vec" where
  "codeword cbs code s = cbs ! s ! unat (code ! s)"

text \<open>Floats of \<^verbatim>\<open>out\<close> behind the last subspace are left as they are.\<close>

definition pq_decode :: "quantizer \<Rightarrow> bytes \<Rightarrow> vec \<Rightarrow> vec option" where
  "pq_decode q code out =
     map_option (\<lambda>cbs. concat (map (codeword cbs code) [0..<qsub q]) @ drop (qsub q * pq_sub_dim q) out) (pq_codebooks q)"

definition code_pairs :: "vec list list \<Rightarrow> nat \<Rightarrow> bytes \<Rightarrow> bytes \<Rightarrow> nat \<Rightarrow> (f32 \<times> f32) list" where
  "code_pairs cbs dim a b s = vec_pairs (codeword cbs a s) (codeword cbs b s) dim"

definition pq_distance_scalar :: "vec list list \<Rightarrow> nat \<Rightarrow> nat \<Rightarrow> bytes \<Rightarrow> bytes \<Rightarrow> f32" where
  "pq_distance_scalar cbs nsub dim a b = fold (\<lambda>s sum. fold l2_step (code_pairs cbs dim a b s) sum) [0..<nsub] f_zero"

text \<open>The loop of both vector routines: the full registers of every subspace go into the lanes, the others into the tail.\<close>

definition simd_sub :: "nat \<Rightarrow> (f32 \<times> f32) list \<Rightarrow> f32 list \<times> f32 \<Rightarrow> f32 list \<times> f32" where
  "simd_sub w ps st =
     (let tail_start = length ps div w * w
      in (fst (simd_loop w l2_fma (fst st) (take tail_start ps)), fold l2_step (drop tail_start ps) (snd st)))"

definition pq_distance_simd :: "nat \<Rightarrow> vec list list \<Rightarrow> nat \<Rightarrow> nat \<Rightarrow> bytes \<Rightarrow> bytes \<Rightarrow> f32" where
  "pq_distance_simd w cbs nsub dim a b =
     (case fold (\<lambda>s. simd_sub w (code_pairs cbs dim a b s)) [0..<nsub] (replicate w f_zero, f_zero) of
        (lanes, rest) \<Rightarrow> f_add (hsum8 lanes) rest)"

definition pq_distance_avx2 :: "vec list list \<Rightarrow> nat \<Rightarrow> nat \<Rightarrow> bytes \<Rightarrow> bytes \<Rightarrow> f32" where
  "pq_distance_avx2 = pq_distance_simd 8"

text \<open>
  \<^verbatim>\<open>_mm512_castps512_ps128\<close> and \<^verbatim>\<open>_mm512_extractf32x4_ps(sum, 1)\<close> take the first eight of the sixteen lanes.
\<close>

definition pq_distance_avx512 :: "vec list list \<Rightarrow> nat \<Rightarrow> nat \<Rightarrow> bytes \<Rightarrow> bytes \<Rightarrow> f32" where
  "pq_distance_avx512 = pq_distance_simd 16"

record cpu =
  use_avx512 :: bool
  use_avx2 :: bool

definition pq_distance :: "cpu \<Rightarrow> quantizer \<Rightarrow> bytes \<Rightarrow> bytes \<Rightarrow> f32 option" where
  "pq_distance c q a b =
     map_option (\<lambda>cbs. (if use_avx512 c then pq_distance_avx512 else if use_avx2 c then pq_distance_avx2 else pq_distance_scalar)
         cbs (qsub q) (pq_sub_dim q) a b) (pq_codebooks q)"

section \<open>Interface\<close>

definition kanbudb_quant_create :: "quant_params \<Rightarrow> quantizer option" where
  "kanbudb_quant_create ps =
     (if qp_dimension ps = 0 then None
      else if qp_type ps = KANBUDB_QUANT_PQ \<and> qp_subspaces ps = 0 then None
      else Some \<lparr>qz_params = ps, sq_min = None, sq_range = None, sq_trained = False, pq_codebooks = None, pq_sub_dim = 0, pq_trained = False\<rparr>)"

definition kanbudb_quant_train :: "quantizer \<Rightarrow> vec list \<Rightarrow> (quantizer \<times> int) option" where
  "kanbudb_quant_train q rows =
     (if rows = [] then Some (q, - 1)
      else if qp_type (qz_params q) = KANBUDB_QUANT_SQ8 then Some (sq8_train q rows, 0)
      else if qp_type (qz_params q) = KANBUDB_QUANT_PQ then pq_train q rows
      else Some (q, - 1))"

text \<open>\<open>Some None\<close> is the result -1, with the code not written.\<close>

definition kanbudb_quant_encode :: "quantizer \<Rightarrow> vec \<Rightarrow> bytes option option" where
  "kanbudb_quant_encode q vector =
     (if qp_type (qz_params q) = KANBUDB_QUANT_SQ8 then (if \<not> sq_trained q then Some None else map_option Some (sq8_encode q vector))
      else if qp_type (qz_params q) = KANBUDB_QUANT_PQ then (if \<not> pq_trained q then Some None else map_option Some (pq_encode q vector))
      else Some None)"

definition kanbudb_quant_decode :: "quantizer \<Rightarrow> bytes \<Rightarrow> vec \<Rightarrow> vec option option" where
  "kanbudb_quant_decode q code out =
     (if qp_type (qz_params q) = KANBUDB_QUANT_SQ8 then map_option Some (sq8_decode q code)
      else if qp_type (qz_params q) = KANBUDB_QUANT_PQ then map_option Some (pq_decode q code out)
      else Some None)"

definition kanbudb_quant_distance :: "cpu \<Rightarrow> quantizer \<Rightarrow> bytes \<Rightarrow> bytes \<Rightarrow> f32 option" where
  "kanbudb_quant_distance c q a b =
     (if qp_type (qz_params q) = KANBUDB_QUANT_SQ8 then sq8_distance q a b
      else if qp_type (qz_params q) = KANBUDB_QUANT_PQ then pq_distance c q a b
      else Some FLT_MAX)"

definition kanbudb_quant_code_size :: "quantizer \<Rightarrow> nat" where
  "kanbudb_quant_code_size q =
     (if qp_type (qz_params q) = KANBUDB_QUANT_SQ8 then qdim q
      else if qp_type (qz_params q) = KANBUDB_QUANT_PQ then qsub q else 0)"

end
