(* ===== verification/Quantize_Correct.thy ===== *)
theory Quantize_Correct
  imports Quantize
begin

text \<open>
  Proofs about quantization: which conversions are defined, how far a decoded value can be from the trained interval, that
  the PQ encoder picks a nearest row, that training gives complete codebooks, and what the routine for AVX-512 leaves out.
\<close>

section \<open>Bounds of rounded results\<close>

lemma fp_unit_nonneg [simp]: "0 \<le> fp_unit F" "0 \<le> abs n * fp_unit F"
  using fp_unit_pos [of F] by (simp_all add: less_imp_le)

lemma pos_parts:
  assumes "0 \<le> p" and "p \<le> fp_inf F32"
  shows "\<not> fp_neg F32 p" "fp_abs F32 p = p" "\<not> fp_is_nan F32 p" "fp_val F32 p = fp_scaled 23 p" "fp_key F32 p = p" "fp_fin F32 p \<longleftrightarrow> p < fp_inf F32"
    "fp_is_inf F32 p \<longleftrightarrow> p = fp_inf F32" "fp_ok F32 p"
  using assms by (auto simp: fp_neg_def fp_abs_def fp_is_nan_def fp_val_def fp_key_def fp_fin_def fp_is_inf_def fp_ok_def F32_consts)

lemma fp_mul_nonneg:
  assumes "0 \<le> x" "x < fp_inf F32" "0 \<le> y" "y < fp_inf F32"
  shows "fp_mul F32 x y = fp_round F32 False (fp_scaled 23 x * fp_scaled 23 y) (fp_unit F32)"
  using pos_parts [OF assms(1) less_imp_le [OF assms(2)]] pos_parts [OF assms(3) less_imp_le [OF assms(4)]] assms
  by (simp add: fp_mul_def Let_def fp_scaled_nonneg)

lemma fp_add_nonneg:
  assumes "0 \<le> x" "x < fp_inf F32" "0 \<le> y" "y < fp_inf F32"
  shows "fp_add F32 x y = fp_round F32 False (fp_scaled 23 x + fp_scaled 23 y) 1"
proof -
  have "fp_pack F32 False 0 = 0" "fp_round F32 False 0 1 = 0" by (simp_all add: fp_round_def fp_pack_def F32_consts)
  then show ?thesis
    using pos_parts [OF assms(1) less_imp_le [OF assms(2)]] pos_parts [OF assms(3) less_imp_le [OF assms(4)]]
      fp_scaled_nonneg [OF assms(1), of 23] fp_scaled_nonneg [OF assms(3), of 23] assms
    by (simp add: fp_add_def fp_sum_def)
qed

lemma fp_round_mono: "0 \<le> n \<Longrightarrow> n \<le> n' \<Longrightarrow> 0 < d \<Longrightarrow> fp_round F False n d \<le> fp_round F False n' d"
  using fp_pattern_mono_same [of n n' d "mant F"] by (auto simp: fp_round_def fp_pack_def)

lemma fp_mul_mono:
  assumes "0 \<le> x" "x \<le> x'" "x' < fp_inf F32" "0 \<le> y" "y < fp_inf F32"
  shows "fp_mul F32 x y \<le> fp_mul F32 x' y"
proof -
  have "fp_scaled 23 x \<le> fp_scaled 23 x'" using assms fp_scaled_le [of x x' 23] by simp
  then show ?thesis using assms fp_mul_nonneg [of x y] fp_mul_nonneg [of x' y]
    by (simp add: fp_round_mono mult_right_mono fp_scaled_nonneg)
qed

lemma fp_add_mono:
  assumes "0 \<le> x" "x \<le> x'" "x' < fp_inf F32" "0 \<le> y" "y < fp_inf F32"
  shows "fp_add F32 x y \<le> fp_add F32 x' y"
proof -
  have "fp_scaled 23 x \<le> fp_scaled 23 x'" using assms fp_scaled_le [of x x' 23] by simp
  then show ?thesis using assms fp_add_nonneg [of x y] fp_add_nonneg [of x' y]
    by (simp add: fp_round_mono fp_scaled_nonneg)
qed

lemma fp_mul_le:
  assumes "0 \<le> x" "x \<le> X" "X < fp_inf F32" "0 \<le> y" "y \<le> Y" "Y < fp_inf F32" "0 \<le> Z" "Z \<le> fp_inf F32"
    and "fp_scaled 23 X * fp_scaled 23 Y \<le> fp_scaled 23 Z * fp_unit F32"
  shows "0 \<le> fp_mul F32 x y" "fp_mul F32 x y \<le> Z"
proof -
  have x: "x < fp_inf F32" and y: "y < fp_inf F32" using assms by simp_all
  have v: "0 \<le> fp_scaled 23 x" "0 \<le> fp_scaled 23 y" using assms by (simp_all add: fp_scaled_nonneg)
  have "fp_scaled 23 x \<le> fp_scaled 23 X" "fp_scaled 23 y \<le> fp_scaled 23 Y" using assms by (simp_all add: fp_scaled_le)
  then have le: "fp_scaled 23 x * fp_scaled 23 y \<le> fp_scaled 23 Z * fp_unit F32" using assms(9) v by (meson mult_mono order.trans)
  note m = fp_mul_nonneg [OF assms(1) x assms(4) y]
  show "0 \<le> fp_mul F32 x y" unfolding m
    by (rule fp_round_ge) (use v fp_inf_bounds(1) [OF formats_ok(1)] in \<open>simp_all add: F32_consts(4)\<close>)
  show "fp_mul F32 x y \<le> Z" unfolding m by (rule fp_round_le) (use assms v le in \<open>simp_all add: F32_consts(4)\<close>)
qed

lemma fp_div_le:
  assumes "0 \<le> x" "x \<le> X" "X < fp_inf F32" "0 < y" "y < fp_inf F32" "0 \<le> Z" "Z \<le> fp_inf F32"
    and "fp_scaled 23 X * fp_unit F32 \<le> fp_scaled 23 Z * fp_scaled 23 y"
  shows "0 \<le> fp_div F32 x y" "fp_div F32 x y \<le> Z"
proof -
  have x: "x < fp_inf F32" using assms by simp
  note px = pos_parts [OF assms(1) less_imp_le [OF x]] and py = pos_parts [OF less_imp_le [OF assms(4)] less_imp_le [OF assms(5)]]
  have v: "0 \<le> fp_scaled 23 x" using assms by (simp add: fp_scaled_nonneg)
  have y: "0 < fp_scaled 23 y" using assms(4) fp_scaled_le [of y 0 23] by (simp add: linorder_not_le [symmetric])
  have "fp_scaled 23 x \<le> fp_scaled 23 X" using assms by (simp add: fp_scaled_le)
  then have le: "fp_scaled 23 x * fp_unit F32 \<le> fp_scaled 23 Z * fp_scaled 23 y"
    using assms(8) by (meson fp_unit_pos less_imp_le mult_right_mono order.trans)
  have m: "fp_div F32 x y = fp_round F32 False (fp_scaled 23 x * fp_unit F32) (fp_scaled 23 y)"
    using px py x v y assms(4,5) by (simp add: fp_div_def Let_def)
  show "0 \<le> fp_div F32 x y" unfolding m
    by (rule fp_round_ge) (use v y fp_inf_bounds(1) [OF formats_ok(1)] in \<open>simp_all add: F32_consts(4)\<close>)
  show "fp_div F32 x y \<le> Z" unfolding m by (rule fp_round_le) (use assms v y le in \<open>simp_all add: F32_consts(4)\<close>)
qed

lemma fp_add_le:
  assumes "0 \<le> x" "x \<le> X" "X < fp_inf F32" "0 \<le> y" "y \<le> Y" "Y < fp_inf F32" "0 \<le> Z" "Z \<le> fp_inf F32"
    and "fp_scaled 23 X + fp_scaled 23 Y \<le> fp_scaled 23 Z"
  shows "0 \<le> fp_add F32 x y" "fp_add F32 x y \<le> Z"
proof -
  have x: "x < fp_inf F32" and y: "y < fp_inf F32" using assms by simp_all
  have v: "0 \<le> fp_scaled 23 x" "0 \<le> fp_scaled 23 y" using assms by (simp_all add: fp_scaled_nonneg)
  have "fp_scaled 23 x \<le> fp_scaled 23 X" "fp_scaled 23 y \<le> fp_scaled 23 Y" using assms by (simp_all add: fp_scaled_le)
  then have le: "fp_scaled 23 x + fp_scaled 23 y \<le> fp_scaled 23 Z" using assms(9) by linarith
  note m = fp_add_nonneg [OF assms(1) x assms(4) y]
  show "0 \<le> fp_add F32 x y" unfolding m
    by (rule fp_round_ge) (use v fp_inf_bounds(1) [OF formats_ok(1)] in \<open>simp_all add: F32_consts(4)\<close>)
  show "fp_add F32 x y \<le> Z" unfolding m by (rule fp_round_le) (use assms v le in \<open>simp_all add: F32_consts(4)\<close>)
qed

lemma uint_f_div:
  assumes "fp_ok F32 (fp_div F32 (uint x) (uint y))"
  shows "uint (f_div x y) = fp_div F32 (uint x) (uint y)"
  using assms by (simp add: f_div_def uint_of_ok)

lemma fp_div_ok: "fmt_ok F \<Longrightarrow> fp_ok F b \<Longrightarrow> fp_ok F (fp_div F a b)"
proof -
  assume F: "fmt_ok F" and b: "fp_ok F b"
  have "0 < abs (fp_val F b)" if "fp_abs F b \<noteq> 0"
    using that fp_abs_nonneg [OF b] fp_scaled_inj [of "fp_abs F b" 0 "mant F"] by (simp add: fp_val_def)
  then show ?thesis
    using fp_qnan_ok [OF F] fp_pack_parts(3) [OF F, of "fp_inf F"] fp_pack_parts(3) [OF F, of 0] fp_inf_bounds [OF F] fp_round_parts(3) [OF F]
    by (simp add: fp_div_def Let_def)
qed

lemma fp_div_nan:
  assumes F: "fmt_ok F" and b: "fp_ok F b" and "\<not> fp_is_nan F a" "\<not> fp_is_nan F b" "\<not> fp_is_inf F b" "fp_abs F b \<noteq> 0"
  shows "\<not> fp_is_nan F (fp_div F a b)"
proof -
  have "0 < abs (fp_val F b)"
    using assms(6) fp_abs_nonneg [OF b] fp_scaled_inj [of "fp_abs F b" 0 "mant F"] by (simp add: fp_val_def)
  then show ?thesis
    using assms(3-6) fp_pack_parts(2) [OF F, of "fp_inf F"] fp_inf_bounds [OF F] fp_round_parts(4) [OF F]
    by (simp add: fp_div_def Let_def) (simp add: fp_is_nan_def)
qed

section \<open>SQ8\<close>

lemma scaled_consts:
  "fp_scaled 23 0x3F800000 = 2 ^ 149" "fp_scaled 23 0x437F0000 = 255 * 2 ^ 149" "fp_scaled 23 0x3F000000 = 2 ^ 148"
  "fp_scaled 23 0x437F8000 = 511 * 2 ^ 148" "fp_scaled 23 0x3F7F0000 = 255 * 2 ^ 141" "fp_scaled 23 0x4F800000 = 2 ^ 181"
  "fp_scaled 23 0x43800000 = 2 ^ 157" "fp_scaled 23 0x4F7F0000 = 255 * 2 ^ 173"
  by (simp_all add: fp_scaled_def)

lemma f_key_zero [simp]: "f_key f_zero = 0" "\<not> f_nan f_zero"
  by code_simp+

abbreviation code_value :: "f32 \<Rightarrow> int option" where
  "code_value n \<equiv> f_to_int (f_add (f_mul n f_255) f_half)"

lemma code_value_unit:
  assumes "uint x \<le> 0x3F800000"
  shows "0 \<le> fp_add F32 (fp_mul F32 (uint x) 0x437F0000) 0x3F000000" "fp_add F32 (fp_mul F32 (uint x) 0x437F0000) 0x3F000000 \<le> 0x437F8000"
    "code_value x = Some (fp_scaled 23 (fp_add F32 (fp_mul F32 (uint x) 0x437F0000) 0x3F000000) div 2 ^ 149)"
proof -
  have m: "0 \<le> fp_mul F32 (uint x) 0x437F0000" "fp_mul F32 (uint x) 0x437F0000 \<le> 0x437F0000"
    using fp_mul_le [of "uint x" "0x3F800000" "0x437F0000" "0x437F0000" "0x437F0000"] assms by (simp_all add: F32_consts scaled_consts)
  show a: "0 \<le> fp_add F32 (fp_mul F32 (uint x) 0x437F0000) 0x3F000000" "fp_add F32 (fp_mul F32 (uint x) 0x437F0000) 0x3F000000 \<le> 0x437F8000"
    using fp_add_le [of "fp_mul F32 (uint x) 0x437F0000" "0x437F0000" "0x3F000000" "0x3F000000" "0x437F8000"] m
    by (simp_all add: F32_consts scaled_consts)
  have "uint (f_add (f_mul x f_255) f_half) = fp_add F32 (fp_mul F32 (uint x) 0x437F0000) 0x3F000000"
    by (simp add: uint_f_ops) (simp add: f_255_def f_half_def)
  then show "code_value x = Some (fp_scaled 23 (fp_add F32 (fp_mul F32 (uint x) 0x437F0000) 0x3F000000) div 2 ^ 149)"
    using a pos_parts [OF a(1)] by (simp add: f_to_int_def fp_to_int_def F32_consts)
qed

lemma clipped_cases:
  assumes "\<not> f_nan n" and "0 \<le> f_key n" and "f_key n \<le> f_key f_one"
  shows "n = 0x80000000 \<and> f_key n = 0 \<or> f_key n = uint n \<and> uint n \<le> 0x3F800000"
proof (cases "fp_neg F32 (uint n)")
  case True
  then have z: "uint (f_abs n) = 0" using assms(2) f_abs_uint [of n] uint_nonnegative [of "f_abs n"] by (simp add: f_key_uint fp_key_def)
  then have "uint n = 0x80000000" using True f_abs_uint [of n] by (simp add: fp_abs_def F32_consts)
  then have "n = 0x80000000" by (simp add: word_uint_eq_iff)
  moreover have "f_key 0x80000000 = 0" by code_simp
  ultimately show ?thesis by simp
next
  case False
  have "f_key f_one = 0x3F800000" by (simp add: f_one_def f_key_def)
  then show ?thesis using False assms(3) by (simp add: f_key_uint fp_key_def fp_abs_def)
qed

lemma encode_clipped:
  assumes "\<not> f_nan n" and "0 \<le> f_key n" and "f_key n \<le> f_key f_one"
  shows "\<exists>i. code_value n = Some i \<and> 0 \<le> i \<and> i < 256"
  using clipped_cases [OF assms]
proof (elim disjE conjE)
  assume "n = 0x80000000"
  moreover have "code_value 0x80000000 = Some 0" by code_simp
  ultimately show ?thesis by simp
next
  assume "uint n \<le> 0x3F800000"
  note v = code_value_unit [OF this]
  have "fp_scaled 23 (fp_add F32 (fp_mul F32 (uint n) 0x437F0000) 0x3F000000) \<le> fp_scaled 23 0x437F8000" using v(1,2) by (simp add: fp_scaled_le)
  then show ?thesis using v(1,3) zdiv_mono1 [of _ "fp_scaled 23 0x437F8000" "2 ^ 149"]
    by (simp add: scaled_consts pos_imp_zdiv_nonneg_iff fp_scaled_nonneg)
qed

text \<open>The number that the encoder scales to a byte.\<close>

definition clip :: "f32 \<Rightarrow> f32" where
  "clip n = (let n1 = (if f_less n f_zero then f_zero else n) in if f_less f_one n1 then f_one else n1)"

lemma clip_parts:
  assumes "\<not> f_nan n"
  shows "\<not> f_nan (clip n)" "f_key (clip n) = max 0 (min (f_key n) (f_key f_one))"
proof -
  have "\<not> f_nan f_one" "0 < f_key f_one" by code_simp+
  then show "\<not> f_nan (clip n)" "f_key (clip n) = max 0 (min (f_key n) (f_key f_one))" using assms by (auto simp: clip_def f_less_def)
qed

lemma encode1_clip: "sq8_encode1 v mn rg =
    (case code_value (clip (f_div (f_sub v mn) rg)) of None \<Rightarrow> None | Some i \<Rightarrow> if 0 \<le> i \<and> i < 256 then Some (word_of_int i) else None)"
  by (simp add: sq8_encode1_def clip_def Let_def)

lemma f_ratio_number:
  assumes "f_finite v" and "f_finite mn" and "f_finite rg" and "f_less f_zero rg"
  shows "\<not> f_nan (f_div (f_sub v mn) rg)"
proof -
  have "fp_abs F32 (uint rg) \<noteq> 0"
    using assms(4) by (auto simp: f_less_def f_key_uint fp_key_def f_zero_def fp_abs_def fp_neg_def F32_consts)
  moreover have "\<not> fp_is_nan F32 (uint (f_sub v mn))" by (rule f_diff_number [OF assms(1,2)])
  ultimately have "\<not> fp_is_nan F32 (fp_div F32 (uint (f_sub v mn)) (uint rg))"
    using assms(3) fp_fin_not by (intro fp_div_nan) (simp_all add: f_finite_uint)
  then show ?thesis using uint_f_div [of "f_sub v mn" rg] fp_div_ok [of F32 "uint rg" "uint (f_sub v mn)"] by (simp add: f_nan_uint)
qed

lemma clip_code:
  assumes "\<not> f_nan n"
  shows "\<exists>i. code_value (clip n) = Some i \<and> 0 \<le> i \<and> i < 256"
proof -
  have "0 < f_key f_one" by code_simp
  then show ?thesis using clip_parts [OF assms] by (intro encode_clipped) auto
qed

lemma sq8_encode1_defined:
  assumes "f_finite v" and "f_finite mn" and "f_finite rg" and "f_less f_zero rg"
  shows "\<exists>i. code_value (clip (f_div (f_sub v mn) rg)) = Some i \<and> 0 \<le> i \<and> i < 256 \<and> sq8_encode1 v mn rg = Some (word_of_int i)"
  using clip_code [OF f_ratio_number [OF assms]] by (auto simp: encode1_clip)

text \<open>Addition is monotone, and adding zero changes nothing.\<close>

lemma fp_pack_key: "fmt_ok F \<Longrightarrow> 0 \<le> mag \<Longrightarrow> fp_key F (fp_pack F neg mag) = (if neg then - min mag (fp_inf F) else min mag (fp_inf F))"
  using fp_pack_parts by (simp add: fp_key_def)

lemma fp_round_key: "fmt_ok F \<Longrightarrow> 0 \<le> n \<Longrightarrow> 0 < d \<Longrightarrow> fp_key F (fp_round F neg n d) =
    (if neg then - min (fp_pattern (mant F) n d) (fp_inf F) else min (fp_pattern (mant F) n d) (fp_inf F))"
  using fp_round_parts by (simp add: fp_key_def)

lemma fp_sum_key:
  assumes F: "fmt_ok F" and d: "0 < d"
  shows "fp_key F (fp_sum F s m d) =
    (if m < 0 then - min (fp_pattern (mant F) (- m) d) (fp_inf F) else min (fp_pattern (mant F) m d) (fp_inf F))"
proof (cases "m = 0")
  case True
  have "fp_abs F (fp_pack F s' 0) = 0" for s' using fp_pack_parts(2) [OF F, of 0 s'] fp_inf_bounds(1) [OF F] by simp
  then show ?thesis using True fp_inf_bounds(1) [OF F] d by (simp add: fp_sum_def fp_key_def)
next
  case False
  then show ?thesis using fp_round_key [OF F, of "abs m" d "m < 0"] d by (simp add: fp_sum_def)
qed

lemma fp_sum_mono:
  assumes F: "fmt_ok F" and "n \<le> n'" and d: "0 < d"
  shows "fp_key F (fp_sum F neg n d) \<le> fp_key F (fp_sum F neg' n' d)"
proof -
  have pos: "0 \<le> min (fp_pattern (mant F) m d) (fp_inf F)" if "0 \<le> m" for m
    using fp_pattern_nonneg [OF that d] fp_inf_bounds(1) [OF F] by simp
  consider "n' < 0" | "n < 0" "0 \<le> n'" | "0 \<le> n" by linarith
  then show ?thesis
  proof cases
    case 1
    then have "fp_pattern (mant F) (- n') d \<le> fp_pattern (mant F) (- n) d" using assms by (intro fp_pattern_mono_same) auto
    then show ?thesis using 1 assms(2) by (simp add: fp_sum_key [OF F d])
  next
    case 2
    then have "fp_key F (fp_sum F neg n d) \<le> 0" "0 \<le> fp_key F (fp_sum F neg' n' d)"
      using pos [of "- n"] pos [of n'] by (simp_all only: fp_sum_key [OF F d]) simp_all
    then show ?thesis by (rule order.trans)
  next
    case 3
    then have "fp_pattern (mant F) n d \<le> fp_pattern (mant F) n' d" using assms by (intro fp_pattern_mono_same) auto
    then show ?thesis using 3 assms(2) by (simp add: fp_sum_key [OF F d])
  qed
qed

lemma fp_sum_val:
  assumes F: "fmt_ok F" and a: "fp_ok F a" "fp_fin F a"
  shows "fp_key F (fp_sum F neg (fp_val F a) 1) = fp_key F a"
proof -
  have n: "0 \<le> fp_abs F a" by (rule fp_abs_nonneg [OF a(1)])
  have p: "fp_pattern (mant F) (fp_scaled (mant F) (fp_abs F a)) 1 = fp_abs F a" using fp_pattern_exact [OF n, of 1 "mant F"] by simp
  have m: "min (fp_abs F a) (fp_inf F) = fp_abs F a" using a(2) by (simp add: fp_fin_def)
  have z: "fp_scaled (mant F) (fp_abs F a) = 0 \<longleftrightarrow> fp_abs F a = 0" using fp_scaled_inj [OF n, of 0 "mant F"] by simp
  have s: "0 \<le> fp_scaled (mant F) (fp_abs F a)" by (rule fp_scaled_nonneg [OF n])
  show ?thesis
  proof (cases "fp_abs F a = 0")
    case True
    then have "fp_val F a = 0" "fp_key F a = 0" by (simp_all add: fp_val_def fp_key_def)
    then show ?thesis using fp_inf_bounds(1) [OF F] by (simp add: fp_sum_key [OF F])
  next
    case False
    then have "0 < fp_scaled (mant F) (fp_abs F a)" using s z by linarith
    then show ?thesis using p m unfolding fp_sum_key [OF F zero_less_one] by (simp add: fp_val_def fp_key_def)
  qed
qed

lemma sq8_decode1_bounds:
  assumes "f_finite mn" and "f_finite rg" and "f_less f_zero rg"
  shows "f_le mn (sq8_decode1 c mn rg)" "f_le (sq8_decode1 c mn rg) (f_add mn rg)"
proof -
  have rg: "0 < uint rg" "uint rg < fp_inf F32" "fp_val F32 (uint rg) = fp_scaled 23 (uint rg)" "\<not> fp_neg F32 (uint rg)"
    using assms(2,3) pos_parts [of "uint rg"] uint_nonnegative [of rg]
    by (auto simp: f_less_def f_key_uint fp_key_def f_zero_def fp_abs_def fp_neg_def F32_consts f_finite_uint fp_fin_def split: if_splits)
  have c: "uint c < 256" using uint_bounded [of c] by simp
  have ci: "0 \<le> fp_of_int F32 (uint c)" "fp_of_int F32 (uint c) \<le> 0x437F0000"
  proof -
    have r: "fp_of_int F32 (uint c) = fp_round F32 False (uint c * fp_unit F32) 1" by (simp add: fp_of_int_def)
    show "0 \<le> fp_of_int F32 (uint c)" unfolding r by (rule fp_round_ge) (simp_all add: F32_consts)
    show "fp_of_int F32 (uint c) \<le> 0x437F0000" unfolding r by (rule fp_round_le) (use c in \<open>simp_all add: F32_consts scaled_consts\<close>)
  qed
  then have ui: "uint (f_of_int (uint c)) = fp_of_int F32 (uint c)" by (simp add: f_of_int_def uint_of_ok fp_ok_def F32_consts)
  define q where "q = f_div (f_of_int (uint c)) f_255"
  have q: "0 \<le> uint q" "uint q \<le> 0x3F800000"
    using fp_div_le [of "fp_of_int F32 (uint c)" "0x437F0000" "0x437F0000" "0x3F800000"] ci
      uint_f_div [of "f_of_int (uint c)" f_255] fp_div_ok [of F32 "uint f_255" "uint (f_of_int (uint c))"]
    by (simp_all add: q_def F32_consts scaled_consts ui) (simp_all add: f_255_def)
  define t where "t = f_mul q rg"
  have t: "0 \<le> uint t" "uint t \<le> uint rg"
    using fp_mul_le [of "uint q" "0x3F800000" "uint rg" "uint rg" "uint rg"] q rg(1,2)
    by (simp_all add: t_def uint_f_ops scaled_consts) (simp_all add: F32_consts mult.commute)
  have tp: "\<not> fp_is_nan F32 (uint t)" "\<not> fp_is_inf F32 (uint t)" "fp_val F32 (uint t) = fp_scaled 23 (uint t)" "fp_fin F32 (uint t)"
    using pos_parts [OF t(1)] t(2) rg(2) by simp_all
  have mn: "\<not> fp_is_nan F32 (uint mn)" "\<not> fp_is_inf F32 (uint mn)" "fp_fin F32 (uint mn)" using assms(1) fp_fin_not by (simp_all add: f_finite_uint)
  have rgp: "\<not> fp_is_nan F32 (uint rg)" "\<not> fp_is_inf F32 (uint rg)" using assms(2) fp_fin_not by (simp_all add: f_finite_uint)
  have tv: "0 \<le> fp_scaled 23 (uint t)" "fp_scaled 23 (uint t) \<le> fp_scaled 23 (uint rg)"
    using t by (simp_all add: fp_scaled_nonneg fp_scaled_le)
  have dec: "sq8_decode1 c mn rg = f_add mn t" by (simp add: sq8_decode1_def t_def q_def)
  have nan: "\<not> f_nan (f_add mn t)" "\<not> f_nan (f_add mn rg)" "\<not> f_nan mn"
    using mn tp rgp by (simp_all add: f_nan_uint uint_f_ops fp_add_nan)
  have "f_key mn \<le> f_key (f_add mn t)"
    using fp_sum_mono [of F32 "fp_val F32 (uint mn)" "fp_val F32 (uint mn) + fp_scaled 23 (uint t)" 1 False "fp_neg F32 (uint mn) \<and> fp_neg F32 (uint t)"]
      fp_sum_val [of F32 "uint mn" False] mn tp tv
    by (simp add: f_key_uint uint_f_ops fp_add_def)
  then show "f_le mn (sq8_decode1 c mn rg)" using nan by (simp add: dec f_le_def)
  have "f_key (f_add mn t) \<le> f_key (f_add mn rg)"
    using fp_sum_mono [of F32 "fp_val F32 (uint mn) + fp_scaled 23 (uint t)" "fp_val F32 (uint mn) + fp_scaled 23 (uint rg)" 1
        "fp_neg F32 (uint mn) \<and> fp_neg F32 (uint t)" "fp_neg F32 (uint mn) \<and> fp_neg F32 (uint rg)"] mn tp rgp rg tv
    by (simp add: f_key_uint uint_f_ops fp_add_def)
  then show "f_le (sq8_decode1 c mn rg) (f_add mn rg)" using nan by (simp add: dec f_le_def)
qed

text \<open>Training finds the least and the greatest value of a dimension.\<close>

lemma minmax_fold:
  assumes "\<forall>x\<in>set vs. f_finite x" and "f_finite (fst r)" and "f_finite (snd r)"
  shows "fst (fold minmax_step vs r) \<in> insert (fst r) (set vs) \<and> snd (fold minmax_step vs r) \<in> insert (snd r) (set vs) \<and>
    (\<forall>x\<in>insert (fst r) (set vs). f_le (fst (fold minmax_step vs r)) x) \<and> (\<forall>x\<in>insert (snd r) (set vs). f_le x (snd (fold minmax_step vs r)))"
  using assms
proof (induction vs arbitrary: r)
  case Nil
  then show ?case by (simp add: f_le_def)
next
  case (Cons v vs)
  let ?r = "minmax_step v r"
  have r: "f_finite (fst ?r)" "f_finite (snd ?r)" "f_le (fst ?r) v" "f_le (fst ?r) (fst r)" "f_le v (snd ?r)" "f_le (snd r) (snd ?r)"
    "fst ?r \<in> {v, fst r}" "snd ?r \<in> {v, snd r}"
    using Cons.prems by (auto simp: minmax_step_def f_le_def f_less_def)
  have t: "f_le x y \<Longrightarrow> f_le y z \<Longrightarrow> f_le x z" for x y z by (auto simp: f_le_def)
  show ?case using Cons.IH [of ?r] Cons.prems r by (auto intro: t)
qed

lemma sq_minmax_spec:
  assumes "vs \<noteq> []" and "\<forall>x\<in>set vs. f_finite x"
  shows "fst (sq_minmax vs) \<in> set vs" "snd (sq_minmax vs) \<in> set vs" "\<forall>x\<in>set vs. f_le (fst (sq_minmax vs)) x \<and> f_le x (snd (sq_minmax vs))"
  using minmax_fold [of "tl vs" "(hd vs, hd vs)"] assms by (cases vs; auto simp: sq_minmax_def)+

lemma f_sub_key:
  assumes "f_finite x" and "f_finite y"
  shows "f_key (f_sub x y) = fp_key F32 (fp_sum F32 False (fp_val F32 (uint x) - fp_val F32 (uint y)) 1)"
proof -
  have "fp_fin F32 (uint x)" "fp_fin F32 (uint y)" using assms by (simp_all add: f_finite_uint)
  then show ?thesis using fp_fin_not fp_negate_parts [OF fp_ok_uint, of y]
    by (simp add: f_key_uint uint_f_ops fp_sub_def fp_add_def fp_sum_key)
qed

lemma f_sub_positive:
  assumes "f_finite x" and "f_finite y" and "f_less y x"
  shows "f_less f_zero (f_sub x y)"
proof -
  have "1 \<le> fp_val F32 (uint x) - fp_val F32 (uint y)"
    using assms(3) fp_key_val [of F32 "uint x" "uint y"] by (simp add: f_less_def f_key_uint)
  from fp_sum_mono [OF formats_ok(1) this zero_less_one, of False False]
  have "fp_key F32 (fp_sum F32 False 1 1) \<le> f_key (f_sub x y)" by (simp add: f_sub_key [OF assms(1,2)])
  moreover have "fp_key F32 (fp_sum F32 False 1 1) = 1" by code_simp
  moreover have "\<not> f_nan (f_sub x y)" using f_diff_number [OF assms(1,2)] by (simp add: f_nan_uint)
  ultimately show ?thesis by (simp add: f_less_def)
qed

lemma sq_span_pos:
  assumes "vs \<noteq> []" and "\<forall>x\<in>set vs. f_finite x" and "\<forall>x\<in>set vs. \<forall>y\<in>set vs. f_finite (f_sub x y)"
  shows "f_finite (sq_span (sq_minmax vs))" "f_less f_zero (sq_span (sq_minmax vs))"
proof -
  have "f_finite f_one" "f_less f_zero f_one" by code_simp+
  then show "f_finite (sq_span (sq_minmax vs))" "f_less f_zero (sq_span (sq_minmax vs))"
    using sq_minmax_spec [OF assms(1,2)] assms(2,3) f_sub_positive by (simp_all add: sq_span_def)
qed

lemma those_map_defined: "\<forall>x\<in>set xs. f x \<noteq> None \<Longrightarrow> those (map f xs) = Some (map (\<lambda>x. the (f x)) xs)"
  by (induction xs) auto

text \<open>The encoder keeps the order of the values.\<close>

lemma f_div_key:
  assumes "\<not> f_nan x" and "f_finite rg" and "f_less f_zero rg"
  shows "f_key (f_div x rg) =
    (if fp_neg F32 (uint x) then - 1 else 1) * (if fp_is_inf F32 (uint x) then fp_inf F32
      else min (fp_pattern 23 (fp_scaled 23 (fp_abs F32 (uint x)) * fp_unit F32) (fp_scaled 23 (uint rg))) (fp_inf F32))"
proof -
  have rg: "\<not> fp_neg F32 (uint rg)" "fp_abs F32 (uint rg) = uint rg" "0 < uint rg" "fp_val F32 (uint rg) = fp_scaled 23 (uint rg)"
    using assms(3) uint_nonnegative [of rg]
    by (auto simp: f_less_def f_key_uint fp_key_def f_zero_def fp_abs_def fp_neg_def fp_val_def F32_consts split: if_splits)
  have r: "0 < fp_scaled 23 (uint rg)" using rg(3) fp_scaled_le [of "uint rg" 0 23] by (simp add: linorder_not_le [symmetric])
  have n: "0 \<le> fp_abs F32 (uint x)" by (simp add: fp_abs_nonneg)
  have a: "abs (fp_val F32 (uint x)) = fp_scaled 23 (fp_abs F32 (uint x))" using fp_scaled_nonneg [OF n, of 23] by (simp add: fp_val_def F32_consts)
  have fin: "\<not> fp_is_nan F32 (uint rg)" "\<not> fp_is_inf F32 (uint rg)" "\<not> fp_is_nan F32 (uint x)"
    using assms fp_fin_not by (simp_all add: f_finite_uint f_nan_uint)
  have u: "uint (f_div x rg) = fp_div F32 (uint x) (uint rg)" by (rule uint_f_div) (simp add: fp_div_ok)
  show ?thesis
    using rg r n a fin fp_inf_bounds(1) [OF formats_ok(1)] fp_scaled_nonneg [OF n, of 23] F32_consts(4)
    by (simp add: f_key_uint u fp_div_def Let_def fp_pack_key fp_round_key)
qed

lemma f_div_mono:
  assumes "\<not> f_nan x" and "\<not> f_nan y" and "f_key x \<le> f_key y" and "f_finite rg" and "f_less f_zero rg"
  shows "f_key (f_div x rg) \<le> f_key (f_div y rg)"
proof -
  define h where "h m = (if m = fp_inf F32 then fp_inf F32
    else min (fp_pattern 23 (fp_scaled 23 m * fp_unit F32) (fp_scaled 23 (uint rg))) (fp_inf F32))" for m
  have "0 < uint rg" using assms(5) uint_nonnegative [of rg]
    by (auto simp: f_less_def f_key_uint fp_key_def f_zero_def fp_abs_def fp_neg_def F32_consts split: if_splits)
  then have r: "0 < fp_scaled 23 (uint rg)" using fp_scaled_le [of "uint rg" 0 23] by (simp add: linorder_not_le [symmetric])
  have pos: "0 \<le> h m" if "0 \<le> m" for m
    using fp_pattern_nonneg [of "fp_scaled 23 m * fp_unit F32" "fp_scaled 23 (uint rg)" 23] r fp_scaled_nonneg [OF that, of 23] fp_inf_bounds(1) [OF formats_ok(1)]
    by (simp add: h_def)
  have mono: "h m \<le> h m'" if "0 \<le> m" "m \<le> m'" "m' \<le> fp_inf F32" for m m'
  proof (cases "m' = fp_inf F32")
    case False
    have "fp_scaled 23 m \<le> fp_scaled 23 m'" using that fp_scaled_le [of m m' 23] by simp
    then have "fp_pattern 23 (fp_scaled 23 m * fp_unit F32) (fp_scaled 23 (uint rg)) \<le> fp_pattern 23 (fp_scaled 23 m' * fp_unit F32) (fp_scaled 23 (uint rg))"
      using that r by (intro fp_pattern_mono_same mult_right_mono) (simp_all add: fp_scaled_nonneg)
    then show ?thesis using False that by (auto simp: h_def)
  qed (simp add: h_def)
  have key: "f_key (f_div z rg) = (if fp_neg F32 (uint z) then - h (fp_abs F32 (uint z)) else h (fp_abs F32 (uint z)))" if "\<not> f_nan z" for z
    unfolding f_div_key [OF that assms(4,5)] h_def fp_is_inf_def by simp
  have ab: "0 \<le> fp_abs F32 (uint z)" "\<not> f_nan z \<Longrightarrow> fp_abs F32 (uint z) \<le> fp_inf F32" for z
    by (simp_all add: fp_abs_nonneg f_nan_uint fp_is_nan_def)
  have zero: "h 0 = 0" using r fp_inf_bounds(1) [OF formats_ok(1)] by (simp add: h_def)
  let ?x = "fp_abs F32 (uint x)" and ?y = "fp_abs F32 (uint y)"
  have k: "(if fp_neg F32 (uint x) then - ?x else ?x) \<le> (if fp_neg F32 (uint y) then - ?y else ?y)"
    using assms(3) by (simp add: f_key_uint fp_key_def)
  have hp: "0 \<le> h ?x" "0 \<le> h ?y" using pos ab(1) by simp_all
  consider "fp_neg F32 (uint x)" "fp_neg F32 (uint y)" | "fp_neg F32 (uint x)" "\<not> fp_neg F32 (uint y)" |
    "\<not> fp_neg F32 (uint x)" "fp_neg F32 (uint y)" | "\<not> fp_neg F32 (uint x)" "\<not> fp_neg F32 (uint y)" by blast
  then show ?thesis
  proof cases
    case 1
    then show ?thesis using k mono [of ?y ?x] ab(1) [of y] ab(2) [OF assms(1)] by (simp add: key assms(1,2))
  next
    case 2
    then show ?thesis using hp by (simp add: key assms(1,2))
  next
    case 3
    then have "?x = 0" "?y = 0" using k ab(1) [of x] ab(1) [of y] by simp_all
    then show ?thesis using zero by (simp add: key assms(1,2))
  next
    case 4
    then show ?thesis using k mono [of ?x ?y] ab(1) [of x] ab(2) [OF assms(2)] by (simp add: key assms(1,2))
  qed
qed

lemma code_value_mono:
  assumes "uint x \<le> uint y" and "uint y \<le> 0x3F800000" and "code_value x = Some i" and "code_value y = Some j"
  shows "i \<le> j"
proof -
  have x: "uint x \<le> 0x3F800000" using assms by simp
  have "fp_mul F32 (uint x) 0x437F0000 \<le> fp_mul F32 (uint y) 0x437F0000" using fp_mul_mono [of "uint x" "uint y" "0x437F0000"] assms(1,2) by (simp add: F32_consts)
  moreover have "0 \<le> fp_mul F32 (uint x) 0x437F0000" "fp_mul F32 (uint y) 0x437F0000 \<le> 0x437F0000"
    using fp_mul_le [of _ "0x3F800000" "0x437F0000" "0x437F0000" "0x437F0000"] assms(2) x by (simp_all add: F32_consts scaled_consts)
  ultimately have "fp_add F32 (fp_mul F32 (uint x) 0x437F0000) 0x3F000000 \<le> fp_add F32 (fp_mul F32 (uint y) 0x437F0000) 0x3F000000"
    using fp_add_mono [of "fp_mul F32 (uint x) 0x437F0000" "fp_mul F32 (uint y) 0x437F0000" "0x3F000000"] by (simp add: F32_consts)
  then have "fp_scaled 23 (fp_add F32 (fp_mul F32 (uint x) 0x437F0000) 0x3F000000) \<le> fp_scaled 23 (fp_add F32 (fp_mul F32 (uint y) 0x437F0000) 0x3F000000)"
    using code_value_unit(1) [OF x] code_value_unit(1) [OF assms(2)] by (simp add: fp_scaled_le)
  then show ?thesis using assms(3,4) code_value_unit(3) [OF x] code_value_unit(3) [OF assms(2)] by (auto simp: zdiv_mono1)
qed

lemma code_value_key_mono:
  assumes "\<not> f_nan n" "\<not> f_nan n'" "0 \<le> f_key n" "f_key n \<le> f_key n'" "f_key n' \<le> f_key f_one" "code_value n = Some i" "code_value n' = Some j"
  shows "i \<le> j"
proof -
  have z: "code_value 0x80000000 = Some 0" by code_simp
  have j: "0 \<le> j" using encode_clipped [OF assms(2) _ assms(5)] assms(3,4,7) by auto
  consider "n = 0x80000000" | "n' = 0x80000000" "f_key n' = 0" "uint n = 0" "f_key n = uint n" | "uint n \<le> uint n'" "uint n' \<le> 0x3F800000"
    using clipped_cases [OF assms(1,3)] clipped_cases [OF assms(2) _ assms(5)] assms(3-5) by force
  then show ?thesis
  proof cases
    case 1
    then show ?thesis using z j assms(6) by simp
  next
    case 2
    then have "n = f_zero" by (simp add: f_zero_def word_uint_eq_iff)
    moreover have "code_value f_zero = Some 0" by code_simp
    ultimately show ?thesis using j assms(6) by simp
  next
    case 3
    then show ?thesis using code_value_mono assms(6,7) by blast
  qed
qed

lemma f_sub_mono:
  assumes "f_finite v" and "f_finite w" and "f_finite mn" and "f_le v w"
  shows "f_key (f_sub v mn) \<le> f_key (f_sub w mn)"
proof -
  have "fp_val F32 (uint v) \<le> fp_val F32 (uint w)" using assms(4) by (simp add: f_le_def f_key_uint fp_key_val)
  then show ?thesis using assms by (simp add: f_sub_key fp_sum_mono)
qed

lemma sq8_encode1_mono:
  assumes "f_finite v" "f_finite w" "f_finite mn" "f_finite rg" "f_less f_zero rg" "f_le v w"
    and "sq8_encode1 v mn rg = Some c" and "sq8_encode1 w mn rg = Some c'"
  shows "c \<le> c'"
proof -
  let ?n = "f_div (f_sub v mn) rg" and ?n' = "f_div (f_sub w mn) rg"
  have nn: "\<not> f_nan ?n" "\<not> f_nan ?n'" using assms(1-5) by (simp_all add: f_ratio_number)
  have "\<not> f_nan (f_sub v mn)" "\<not> f_nan (f_sub w mn)" using assms(1-3) f_diff_number by (simp_all add: f_nan_uint)
  then have le: "f_key ?n \<le> f_key ?n'" using f_sub_mono assms(1-6) by (intro f_div_mono)
  obtain i j where i: "code_value (clip ?n) = Some i" "0 \<le> i" "i < 256" "c = word_of_int i"
    and j: "code_value (clip ?n') = Some j" "0 \<le> j" "j < 256" "c' = word_of_int j"
    using sq8_encode1_defined [OF assms(1,3-5)] sq8_encode1_defined [OF assms(2-5)] assms(7,8) by auto
  have "0 < f_key f_one" by code_simp
  then have "i \<le> j" using clip_parts [OF nn(1)] clip_parts [OF nn(2)] le by (intro code_value_key_mono [OF _ _ _ _ _ i(1) j(1)]) auto
  then show ?thesis using i j by (simp add: word_le_def uint_word_of_int)
qed

text \<open>Values outside the trained interval get the first and the last code.\<close>

lemma sq8_encode1_low:
  assumes "f_finite v" "f_finite mn" "f_finite rg" "f_less f_zero rg" "f_le v mn"
  shows "sq8_encode1 v mn rg = Some 0"
proof -
  have "f_sub mn mn = f_zero" using assms(2) by (simp add: word_uint_eq_iff uint_f_ops fp_sub_self f_finite_uint) (simp add: f_zero_def)
  then have "f_key (f_sub v mn) \<le> f_key f_zero" using f_sub_mono [OF assms(1,2,2,5)] by simp
  moreover have "\<not> f_nan (f_sub v mn)" using f_diff_number [OF assms(1,2)] by (simp add: f_nan_uint)
  ultimately have "f_key (f_div (f_sub v mn) rg) \<le> f_key (f_div f_zero rg)" using assms(3,4) by (intro f_div_mono) simp_all
  moreover have "f_key (f_div f_zero rg) = 0"
    using f_div_key [of f_zero rg] assms(3,4) fp_inf_bounds(1) [OF formats_ok(1)] fp_scaled_le [of "uint rg" 0 23]
    by (auto simp: f_zero_def fp_abs_def fp_neg_def fp_is_inf_def F32_consts f_less_def f_key_uint fp_key_def split: if_splits)
  ultimately have k: "f_key (clip (f_div (f_sub v mn) rg)) = 0" and nn: "\<not> f_nan (clip (f_div (f_sub v mn) rg))"
    using clip_parts [OF f_ratio_number [OF assms(1-4)]] by simp_all
  have "0 < f_key f_one" by code_simp
  then have "clip (f_div (f_sub v mn) rg) \<in> {0x80000000, f_zero}"
    using clipped_cases [OF nn] k by (auto simp: f_zero_def word_uint_eq_iff)
  moreover have "code_value f_zero = Some 0" "code_value 0x80000000 = Some 0" by code_simp+
  ultimately show ?thesis by (auto simp: encode1_clip)
qed

lemma sq8_encode1_high:
  assumes "f_finite v" "f_finite mn" "f_finite mx" "f_finite (f_sub mx mn)" "f_less mn mx" "f_le mx v"
  shows "sq8_encode1 v mn (f_sub mx mn) = Some 255"
proof -
  let ?rg = "f_sub mx mn"
  have pos: "f_less f_zero ?rg" by (rule f_sub_positive [OF assms(3,2,5)])
  have "f_key (f_div ?rg ?rg) \<le> f_key (f_div (f_sub v mn) ?rg)"
    using f_sub_mono [OF assms(3,1,2,6)] f_diff_number [OF assms(1,2)] assms(4) pos by (intro f_div_mono) (simp_all add: f_nan_uint f_finite_not_nan [unfolded f_nan_uint])
  moreover have "f_key (f_div ?rg ?rg) = f_key f_one"
  proof -
    have "0 < uint ?rg" "fp_abs F32 (uint ?rg) = uint ?rg" "\<not> fp_neg F32 (uint ?rg)" using pos uint_nonnegative [of ?rg]
      by (auto simp: f_less_def f_key_uint fp_key_def f_zero_def fp_abs_def fp_neg_def F32_consts split: if_splits)
    moreover from this have "0 < fp_scaled 23 (uint ?rg)" using fp_scaled_le [of "uint ?rg" 0 23] by (simp add: linorder_not_le [symmetric])
    then have "fp_pattern 23 (fp_scaled 23 (uint ?rg) * fp_unit F32) (fp_scaled 23 (uint ?rg)) = fp_pattern 23 (fp_scaled 23 0x3F800000 * 1) 1"
      using fp_pattern_scale [of "fp_scaled 23 (uint ?rg)" 1 23 "fp_unit F32"] by (simp add: mult.commute scaled_consts F32_consts)
    moreover have "f_key f_one = 0x3F800000" by (simp add: f_one_def f_key_def)
    ultimately show ?thesis using f_div_key [of ?rg ?rg] assms(4) pos fp_fin_not [of F32 "uint ?rg"] fp_pattern_exact [of "0x3F800000" 1 23]
      by (simp add: f_finite_uint) (simp add: F32_consts)
  qed
  moreover have "0 < f_key f_one" by code_simp
  ultimately have k: "f_key (clip (f_div (f_sub v mn) ?rg)) = f_key f_one" and nn: "\<not> f_nan (clip (f_div (f_sub v mn) ?rg))"
    using clip_parts [OF f_ratio_number [OF assms(1,2,4) pos]] by simp_all
  have one: "f_key f_one = 0x3F800000" by (simp add: f_one_def f_key_def)
  then have "clip (f_div (f_sub v mn) ?rg) = f_one" using clipped_cases [OF nn] k by (auto simp: f_one_def word_uint_eq_iff)
  moreover have "code_value f_one = Some 255" by code_simp
  ultimately show ?thesis by (simp add: encode1_clip)
qed

text \<open>What a trained quantizer holds for one dimension.\<close>

definition sq8_fit :: "f32 list \<Rightarrow> f32 \<Rightarrow> f32 \<Rightarrow> bool" where
  "sq8_fit vs lo hi \<longleftrightarrow> lo \<in> set vs \<and> hi \<in> set vs \<and> (\<forall>x\<in>set vs. f_le lo x \<and> f_le x hi)"

definition trainable :: "nat \<Rightarrow> vec list \<Rightarrow> bool" where
  "trainable dim rows \<longleftrightarrow> rows \<noteq> [] \<and> length rows * dim < 2 ^ 32 \<and> (\<forall>r\<in>set rows. finite_vec r \<and> length r = dim) \<and>
     (\<forall>r\<in>set rows. \<forall>r'\<in>set rows. \<forall>d<dim. f_finite (f_sub (r ! d) (r' ! d)))"

lemma column_fit:
  assumes "trainable dim rows" and "d < dim"
  shows "sq8_fit (column d rows) (fst (sq_minmax (column d rows))) (snd (sq_minmax (column d rows)))"
    "f_finite (fst (sq_minmax (column d rows)))" "f_finite (snd (sq_minmax (column d rows)))"
    "f_finite (sq_span (sq_minmax (column d rows)))" "f_less f_zero (sq_span (sq_minmax (column d rows)))"
proof -
  have c: "column d rows \<noteq> []" "\<forall>x\<in>set (column d rows). f_finite x" "\<forall>x\<in>set (column d rows). \<forall>y\<in>set (column d rows). f_finite (f_sub x y)"
    using assms by (auto simp: trainable_def column_def finite_vec_def)
  note m = sq_minmax_spec [OF c(1,2)]
  show "sq8_fit (column d rows) (fst (sq_minmax (column d rows))) (snd (sq_minmax (column d rows)))" using m by (simp add: sq8_fit_def)
  show "f_finite (fst (sq_minmax (column d rows)))" "f_finite (snd (sq_minmax (column d rows)))" using m c(2) by simp_all
  show "f_finite (sq_span (sq_minmax (column d rows)))" "f_less f_zero (sq_span (sq_minmax (column d rows)))" by (rule sq_span_pos [OF c])+
qed

lemma sq8_encode_trained:
  assumes "trainable (qdim q) rows" and "finite_vec v" and "length v = qdim q"
  shows "\<exists>code. sq8_encode (sq8_train q rows) v = Some code \<and> length code = qdim q \<and>
    (\<forall>d<qdim q. sq8_encode1 (v ! d) (fst (sq_minmax (column d rows))) (sq_span (sq_minmax (column d rows))) = Some (code ! d))"
proof -
  let ?e = "\<lambda>d. sq8_encode1 (v ! d) (fst (sq_minmax (column d rows))) (sq_span (sq_minmax (column d rows)))"
  have v: "f_finite (v ! d)" if "d < qdim q" for d using assms(2,3) that by (simp add: finite_vec_def)
  have e: "?e d \<noteq> None" if "d < qdim q" for d
    using sq8_encode1_defined [OF v [OF that] column_fit(2) [OF assms(1) that] column_fit(4,5) [OF assms(1) that]] by auto
  have "sq8_encode (sq8_train q rows) v = those (map ?e [0..<qdim q])"
    by (simp add: sq8_encode_def sq8_train_def Let_def) (intro arg_cong [of _ _ those] map_cong; simp)
  also have "\<dots> = Some (map (\<lambda>d. the (?e d)) [0..<qdim q])" using e by (intro those_map_defined) simp
  finally show ?thesis using e by (intro exI [of _ "map (\<lambda>d. the (?e d)) [0..<qdim q]"]) auto
qed

text \<open>
  C24. An SQ8 quantizer that is trained on a non-empty set of finite rows, whose values in each dimension have finite differences, encodes
  every finite vector: no conversion to a byte is undefined. The code keeps the order of the values in each dimension, gives 0 at or below the least trained
  value and 255 at or above the greatest, and decodes to a vector that lies, in each dimension, between the least trained value and that value plus
  the trained range.
\<close>

theorem sq8_quantize:
  assumes "kanbudb_quant_create ps = Some q0" and "qp_type ps = KANBUDB_QUANT_SQ8" and "trainable (unat (qp_dimension ps)) rows"
    and "finite_vec v" and "length v = unat (qp_dimension ps)" and "finite_vec w" and "length w = unat (qp_dimension ps)"
  shows "\<exists>q cv cw out. kanbudb_quant_train q0 rows = Some (q, 0) \<and> kanbudb_quant_encode q v = Some (Some cv) \<and>
    kanbudb_quant_encode q w = Some (Some cw) \<and> kanbudb_quant_decode q cv buf = Some (Some out) \<and>
    length cv = kanbudb_quant_code_size q \<and> length out = unat (qp_dimension ps) \<and>
    (\<forall>d<unat (qp_dimension ps). (f_le (v ! d) (w ! d) \<longrightarrow> cv ! d \<le> cw ! d) \<and>
      (\<exists>lo hi. sq8_fit (column d rows) lo hi \<and> (f_le (v ! d) lo \<longrightarrow> cv ! d = 0) \<and> (f_less lo hi \<and> f_le hi (v ! d) \<longrightarrow> cv ! d = 255) \<and>
        f_le lo (out ! d) \<and> f_le (out ! d) (f_add lo (sq_span (lo, hi)))))"
proof -
  let ?dim = "unat (qp_dimension ps)" and ?q = "sq8_train q0 rows"
  have q0: "qz_params q0 = ps" using assms(1) by (auto simp: kanbudb_quant_create_def split: if_splits)
  have q: "qz_params ?q = ps" "sq_trained ?q" using q0 by (simp_all add: sq8_train_def Let_def)
  have train: "kanbudb_quant_train q0 rows = Some (?q, 0)" using assms(2,3) q0 by (simp add: kanbudb_quant_train_def trainable_def)
  let ?mn = "\<lambda>d. fst (sq_minmax (column d rows))" and ?mx = "\<lambda>d. snd (sq_minmax (column d rows))" and ?rg = "\<lambda>d. sq_span (sq_minmax (column d rows))"
  obtain cv where cv: "sq8_encode ?q v = Some cv" "length cv = ?dim" "\<And>d. d < ?dim \<Longrightarrow> sq8_encode1 (v ! d) (?mn d) (?rg d) = Some (cv ! d)"
    using sq8_encode_trained [of q0 rows v] assms(3-5) q0 by auto
  obtain cw where cw: "sq8_encode ?q w = Some cw" "\<And>d. d < ?dim \<Longrightarrow> sq8_encode1 (w ! d) (?mn d) (?rg d) = Some (cw ! d)"
    using sq8_encode_trained [of q0 rows w] assms(3,6,7) q0 by auto
  define out where "out = map (\<lambda>d. sq8_decode1 (cv ! d) (?mn d) (?rg d)) [0..<?dim]"
  have dec: "sq8_decode ?q cv = Some out" using q0 by (simp add: sq8_decode_def sq8_train_def Let_def out_def cong: map_cong)
  have api: "kanbudb_quant_encode ?q v = Some (Some cv)" "kanbudb_quant_encode ?q w = Some (Some cw)" "kanbudb_quant_decode ?q cv buf = Some (Some out)"
    "kanbudb_quant_code_size ?q = ?dim"
    using q cv(1) cw(1) dec assms(2) by (simp_all add: kanbudb_quant_encode_def kanbudb_quant_decode_def kanbudb_quant_code_size_def)
  have per: "(f_le (v ! d) (w ! d) \<longrightarrow> cv ! d \<le> cw ! d) \<and>
      (\<exists>lo hi. sq8_fit (column d rows) lo hi \<and> (f_le (v ! d) lo \<longrightarrow> cv ! d = 0) \<and> (f_less lo hi \<and> f_le hi (v ! d) \<longrightarrow> cv ! d = 255) \<and>
        f_le lo (out ! d) \<and> f_le (out ! d) (f_add lo (sq_span (lo, hi))))" if d: "d < ?dim" for d
  proof -
    note fit = column_fit [OF assms(3) d]
    have fin: "f_finite (v ! d)" "f_finite (w ! d)" using assms(4-7) d by (simp_all add: finite_vec_def)
    have "cv ! d \<le> cw ! d" if "f_le (v ! d) (w ! d)" by (rule sq8_encode1_mono [OF fin fit(2,4,5) that cv(3) [OF d] cw(2) [OF d]])
    moreover have "cv ! d = 0" if "f_le (v ! d) (?mn d)" using sq8_encode1_low [OF fin(1) fit(2,4,5) that] cv(3) [OF d] by simp
    moreover have "cv ! d = 255" if l: "f_less (?mn d) (?mx d)" and h: "f_le (?mx d) (v ! d)"
    proof -
      have rg: "?rg d = f_sub (?mx d) (?mn d)" using l by (simp add: sq_span_def)
      show ?thesis using sq8_encode1_high [OF fin(1) fit(2,3) _ l h] fit(4) cv(3) [OF d] by (simp add: rg)
    qed
    ultimately show ?thesis using fit(1) sq8_decode1_bounds [OF fit(2,4,5), of "cv ! d"] d by (intro conjI exI [of _ "?mn d"] exI [of _ "?mx d"]) (auto simp: out_def)
  qed
  have len: "length out = ?dim" by (simp add: out_def)
  show ?thesis by (rule exI [of _ ?q], rule exI [of _ cv], rule exI [of _ cw], rule exI [of _ out]) (simp add: train api cv(2) per len)
qed

theorem sq8_quantize_witness:
  "\<exists>q cv cw out. kanbudb_quant_train \<lparr>qz_params = \<lparr>qp_type = 1, qp_dimension = 1, qp_subspaces = 0\<rparr>, sq_min = None, sq_range = None,
      sq_trained = False, pq_codebooks = None, pq_sub_dim = 0, pq_trained = False\<rparr> [[f_zero], [f_one]] = Some (q, 0) \<and>
    kanbudb_quant_encode q [f_half] = Some (Some cv) \<and> kanbudb_quant_encode q [f_one] = Some (Some cw) \<and> cv ! 0 \<le> cw ! 0 \<and>
    kanbudb_quant_decode q cv [] = Some (Some out) \<and> length out = 1"
proof -
  let ?ps = "\<lparr>qp_type = 1, qp_dimension = 1, qp_subspaces = 0\<rparr>"
  have c: "kanbudb_quant_create ?ps = Some \<lparr>qz_params = ?ps, sq_min = None, sq_range = None, sq_trained = False, pq_codebooks = None,
      pq_sub_dim = 0, pq_trained = False\<rparr>" "qp_type ?ps = KANBUDB_QUANT_SQ8"
    by (simp_all add: kanbudb_quant_create_def KANBUDB_QUANT_PQ_def KANBUDB_QUANT_SQ8_def)
  have f: "f_finite f_zero" "f_finite f_one" "f_finite (f_sub f_zero f_zero)" "f_finite (f_sub f_zero f_one)" "f_finite (f_sub f_one f_zero)"
    "f_finite (f_sub f_one f_one)" "f_finite f_half" "f_le f_half f_one" by code_simp+
  then have t: "trainable (unat (qp_dimension ?ps)) [[f_zero], [f_one]]" "finite_vec [f_half]" "finite_vec [f_one]"
    by (simp_all add: trainable_def finite_vec_def)
  show ?thesis using sq8_quantize [OF c t(1,2) _ t(3), of "[]"] f(8) by fastforce
qed

section \<open>PQ\<close>

text \<open>The scan keeps the first of the nearest rows.\<close>

lemma nearest_scan_spec:
  assumes "d = (\<lambda>w. vec_l2_distance v w dim)"
  shows "nearest_scan dim v ws c bd best = best \<and> (\<forall>w\<in>set ws. \<not> f_less (d w) bd) \<or>
    (\<exists>j<length ws. nearest_scan dim v ws c bd best = c + j \<and> f_less (d (ws ! j)) bd \<and> (\<forall>w\<in>set ws. \<not> f_less (d w) (d (ws ! j))) \<and>
      (\<forall>i<j. \<not> f_le (d (ws ! i)) (d (ws ! j))))"
proof (induction ws arbitrary: c bd best)
  case (Cons w ws)
  show ?case
  proof (cases "f_less (d w) bd")
    case True
    then have r: "nearest_scan dim v (w # ws) c bd best = nearest_scan dim v ws (Suc c) (d w) c" by (simp add: assms Let_def)
    from Cons.IH [of "Suc c" "d w" c] show ?thesis
    proof (elim disjE exE conjE)
      assume "nearest_scan dim v ws (Suc c) (d w) c = c" "\<forall>w'\<in>set ws. \<not> f_less (d w') (d w)"
      then show ?thesis using True r by (intro disjI2 exI [of _ 0]) simp
    next
      fix j
      assume j: "j < length ws" "nearest_scan dim v ws (Suc c) (d w) c = Suc c + j" "f_less (d (ws ! j)) (d w)"
        "\<forall>w\<in>set ws. \<not> f_less (d w) (d (ws ! j))" "\<forall>i<j. \<not> f_le (d (ws ! i)) (d (ws ! j))"
      have "f_less (d (ws ! j)) bd" "\<not> f_less (d w) (d (ws ! j))" "\<not> f_le (d w) (d (ws ! j))" using j(3) True by (auto simp: f_less_def f_le_def)
      then show ?thesis using j r by (intro disjI2 exI [of _ "Suc j"]) (auto simp: less_Suc_eq_0_disj)
    qed
  next
    case False
    then have r: "nearest_scan dim v (w # ws) c bd best = nearest_scan dim v ws (Suc c) bd best" by (simp add: assms Let_def)
    from Cons.IH [of "Suc c" bd best] show ?thesis
    proof (elim disjE exE conjE)
      assume "nearest_scan dim v ws (Suc c) bd best = best" "\<forall>w\<in>set ws. \<not> f_less (d w) bd"
      then show ?thesis using False r by simp
    next
      fix j
      assume j: "j < length ws" "nearest_scan dim v ws (Suc c) bd best = Suc c + j" "f_less (d (ws ! j)) bd"
        "\<forall>w\<in>set ws. \<not> f_less (d w) (d (ws ! j))" "\<forall>i<j. \<not> f_le (d (ws ! i)) (d (ws ! j))"
      have "\<not> f_less (d w) (d (ws ! j))" "\<not> f_le (d w) (d (ws ! j))" using j(3) False by (auto simp: f_less_def f_le_def)
      then show ?thesis using j r by (intro disjI2 exI [of _ "Suc j"]) (auto simp: less_Suc_eq_0_disj)
    qed
  qed
qed simp

text \<open>The first row at the least distance, if any row is nearer than \<^verbatim>\<open>FLT_MAX\<close>.\<close>

definition first_nearest :: "nat \<Rightarrow> vec \<Rightarrow> vec list \<Rightarrow> nat \<Rightarrow> bool" where
  "first_nearest dim v ws i \<longleftrightarrow> i < length ws \<and> (\<forall>w\<in>set ws. \<not> f_less (vec_l2_distance v w dim) (vec_l2_distance v (ws ! i) dim)) \<and>
     (\<forall>j<i. \<not> f_le (vec_l2_distance v (ws ! j) dim) (vec_l2_distance v (ws ! i) dim))"

lemma nearest_first:
  "w \<in> set ws \<Longrightarrow> f_less (vec_l2_distance v w dim) FLT_MAX \<Longrightarrow> first_nearest dim v ws (nearest dim v ws)"
  using nearest_scan_spec [OF refl, of dim v ws 0 FLT_MAX 0] by (auto simp: nearest_def first_nearest_def)

lemma nearest_less: "ws \<noteq> [] \<Longrightarrow> nearest dim v ws < length ws"
  using nearest_scan_spec [OF refl, of dim v ws 0 FLT_MAX 0] by (auto simp: nearest_def)

text \<open>The initial rows exist: the scaled index is at most \<open>255 / 256 * 2 ^ 32\<close>.\<close>

lemma of_int_pos:
  assumes "0 \<le> n" and "n * fp_unit F32 \<le> fp_scaled 23 P" and "0 \<le> P" and "P < fp_inf F32"
  shows "0 \<le> uint (f_of_int n)" "uint (f_of_int n) \<le> P"
proof -
  have r: "fp_of_int F32 n = fp_round F32 False (n * fp_unit F32) 1" using assms(1) by (simp add: fp_of_int_def)
  have "fp_ok F32 (fp_of_int F32 n)" using assms(1) by (simp add: r fp_round_parts(3))
  then have u: "uint (f_of_int n) = fp_of_int F32 n" by (simp add: f_of_int_def uint_of_ok)
  show "0 \<le> uint (f_of_int n)" by simp
  show "uint (f_of_int n) \<le> P" unfolding u r by (rule fp_round_le) (use assms in \<open>simp_all add: F32_consts(4)\<close>)
qed

lemma init_idx_defined:
  assumes "c < 256" and "0 < n" and "n < 2 ^ 32"
  shows "\<exists>i<n. init_idx n 256 c = Some i"
proof -
  have k: "f_of_int 256 = 0x43800000" by code_simp
  let ?c = "f_of_int (int c)" and ?n = "f_of_int (int n)"
  have c: "uint ?c \<le> 0x437F0000" using assms(1) by (intro of_int_pos(2)) (simp_all add: F32_consts scaled_consts)
  have n: "uint ?n \<le> 0x4F800000" using assms(3) by (intro of_int_pos(2)) (simp_all add: F32_consts scaled_consts)
  have q: "uint (f_div ?c 0x43800000) \<le> 0x3F7F0000"
    using fp_div_le [of "uint ?c" "0x437F0000" "0x43800000" "0x3F7F0000"] c uint_f_div [of ?c "0x43800000"] fp_div_ok [of F32 "0x43800000" "uint ?c"]
    by (simp add: F32_consts scaled_consts fp_ok_def)
  have m: "uint (f_mul (f_div ?c 0x43800000) ?n) \<le> 0x4F7F0000"
    using fp_mul_le [of "uint (f_div ?c 0x43800000)" "0x3F7F0000" "uint ?n" "0x4F800000" "0x4F7F0000"] q n
    by (simp add: uint_f_ops F32_consts scaled_consts)
  let ?m = "uint (f_mul (f_div ?c 0x43800000) ?n)"
  have "f_to_int (f_mul (f_div ?c 0x43800000) ?n) = Some (fp_scaled 23 ?m div 2 ^ 149)"
    using pos_parts [of ?m] m by (simp add: f_to_int_def fp_to_int_def F32_consts)
  moreover have "fp_scaled 23 ?m \<le> 255 * 2 ^ 173" using m fp_scaled_le [of ?m "0x4F7F0000" 23] by (simp add: scaled_consts)
  then have "fp_scaled 23 ?m div 2 ^ 149 \<le> 255 * 2 ^ 173 div 2 ^ 149" by (rule zdiv_mono1) simp
  moreover have "0 \<le> fp_scaled 23 ?m div 2 ^ 149" using fp_scaled_nonneg [of ?m 23] by (simp add: pos_imp_zdiv_nonneg_iff)
  ultimately show ?thesis using assms(2) by (auto simp: init_idx_def k)
qed

lemma concat_length: "\<forall>w\<in>set ws. length w = m \<Longrightarrow> length (concat ws) = length ws * m"
  by (induction ws) simp_all

lemma concat_block:
  assumes "\<forall>w\<in>set ws. length w = m" and "s < length ws"
  shows "take m (drop (s * m) (concat ws @ rest)) = ws ! s"
  using assms
proof (induction ws arbitrary: s)
  case (Cons w ws)
  then show ?case by (cases s) simp_all
qed simp

text \<open>Every iteration keeps the number of rows and their length.\<close>

definition codebook_ok :: "nat \<Rightarrow> nat \<Rightarrow> vec list \<Rightarrow> bool" where
  "codebook_ok dim k cb \<longleftrightarrow> length cb = k \<and> (\<forall>w\<in>set cb. length w = dim)"

lemma centroid_length:
  assumes "\<forall>r\<in>set ms. length r = dim"
  shows "length (centroid dim ms) = dim"
proof -
  have "length (fold (\<lambda>r acc. map2 f_add acc r) ms acc) = dim" if "length acc = dim" for acc
    using assms that by (induction ms arbitrary: acc) simp_all
  then show ?thesis by (simp add: centroid_def)
qed

lemma kmeans_iter_ok:
  assumes "codebook_ok dim k cb" and "\<forall>r\<in>set rows. length r = dim"
  shows "codebook_ok dim k (kmeans_iter dim rows cb)"
proof -
  have "\<forall>r\<in>set (members c as rows). length r = dim" for c as
    using assms(2) by (auto simp: members_def dest: set_zip_rightD)
  then have "length (centroid dim (members c as rows)) = dim" for c as by (rule centroid_length)
  then show ?thesis using assms(1) by (auto simp: codebook_ok_def kmeans_iter_def Let_def)
qed

lemma pq_kmeans_ok:
  assumes "rows \<noteq> []" and "length rows < 2 ^ 32" and "\<forall>r\<in>set rows. length r = dim"
  shows "\<exists>cb. pq_kmeans rows dim 256 max_iter = Some cb \<and> codebook_ok dim 256 cb"
proof -
  let ?n = "length rows"
  have i: "init_idx ?n 256 c \<noteq> None \<and> the (init_idx ?n 256 c) < ?n" if "c < 256" for c
    using init_idx_defined [OF that, of ?n] assms(1,2) by auto
  have iter: "codebook_ok dim 256 ((kmeans_iter dim rows ^^ m) cb)" if "codebook_ok dim 256 cb" for m cb
    by (induction m) (simp_all add: that kmeans_iter_ok assms(3))
  have "codebook_ok dim 256 (map ((!) rows) (map (\<lambda>c. the (init_idx ?n 256 c)) [0..<256]))"
    using i assms(3) by (auto simp: codebook_ok_def)
  from iter [OF this, of max_iter] show ?thesis using i by (simp add: pq_kmeans_def those_map_defined)
qed

lemma pq_train_ok:
  assumes "rows \<noteq> []" and "length rows < 2 ^ 32" and "\<forall>r\<in>set rows. length r = qdim q" and "0 < qsub q" and "qsub q \<le> qdim q"
  shows "\<exists>cbs. pq_train q rows = Some (q\<lparr>pq_sub_dim := qdim q div qsub q, pq_codebooks := Some cbs, pq_trained := True\<rparr>, 0) \<and>
    length cbs = qsub q \<and> (\<forall>cb\<in>set cbs. codebook_ok (qdim q div qsub q) 256 cb)"
proof -
  let ?m = "qdim q div qsub q"
  let ?f = "\<lambda>s. pq_kmeans (map (subvec ?m s) rows) ?m 256 20"
  have m: "?m \<noteq> 0" using assms(4,5) by (simp add: div_eq_0_iff)
  have f: "\<exists>cb. ?f s = Some cb \<and> codebook_ok ?m 256 cb" if "s < qsub q" for s
  proof (rule pq_kmeans_ok)
    have "(s + 1) * ?m \<le> qsub q * ?m" using that by (intro mult_right_mono) auto
    also have "\<dots> \<le> qdim q" by (simp add: mult.commute)
    finally show "\<forall>r\<in>set (map (subvec ?m s) rows). length r = ?m" using assms(3) by (auto simp: subvec_def)
  qed (use assms(1,2) in simp_all)
  then have "\<forall>s\<in>set [0..<qsub q]. ?f s \<noteq> None" by fastforce
  then have "those (map ?f [0..<qsub q]) = Some (map (\<lambda>s. the (?f s)) [0..<qsub q])" by (rule those_map_defined)
  then have "pq_train q rows = Some (q\<lparr>pq_sub_dim := ?m, pq_codebooks := Some (map (\<lambda>s. the (?f s)) [0..<qsub q]), pq_trained := True\<rparr>, 0)"
    using m assms(4) by (simp add: pq_train_def Let_def)
  moreover have "\<forall>cb\<in>set (map (\<lambda>s. the (?f s)) [0..<qsub q]). codebook_ok ?m 256 cb" using f by fastforce
  ultimately show ?thesis by (intro exI [of _ "map (\<lambda>s. the (?f s)) [0..<qsub q]"]) simp
qed

text \<open>
  C25. Training a PQ quantizer succeeds on every non-empty set of rows, with no undefined conversion: each subspace gets a codebook of 256
  complete rows. The encoder then gives a byte for each subspace, the index of the first row nearest to that part of the vector (whenever some
  row is nearer than \<^verbatim>\<open>FLT_MAX\<close>), and the decoder writes the chosen rows one after the other and leaves the rest of the buffer as it is.
\<close>

theorem pq_quantize:
  assumes "kanbudb_quant_create ps = Some q0" and "qp_type ps = KANBUDB_QUANT_PQ" and "qp_subspaces ps \<le> qp_dimension ps"
    and "rows \<noteq> []" and "length rows * unat (qp_dimension ps) < 2 ^ 32" and "256 * unat (qp_dimension ps) < 2 ^ 32"
    and "\<forall>r\<in>set rows. length r = unat (qp_dimension ps)" and "length buf = unat (qp_dimension ps)"
  shows "\<exists>q cbs code out. kanbudb_quant_train q0 rows = Some (q, 0) \<and> pq_codebooks q = Some cbs \<and> kanbudb_quant_encode q v = Some (Some code) \<and>
    kanbudb_quant_decode q code buf = Some (Some out) \<and> length code = kanbudb_quant_code_size q \<and> length out = unat (qp_dimension ps) \<and>
    (\<forall>s<unat (qp_subspaces ps). codebook_ok (pq_sub_dim q) 256 (cbs ! s) \<and> subvec (pq_sub_dim q) s out = codeword cbs code s \<and>
      (\<forall>w\<in>set (cbs ! s). f_less (vec_l2_distance (subvec (pq_sub_dim q) s v) w (pq_sub_dim q)) FLT_MAX \<longrightarrow>
         first_nearest (pq_sub_dim q) (subvec (pq_sub_dim q) s v) (cbs ! s) (unat (code ! s))))"
proof -
  let ?dim = "unat (qp_dimension ps)" and ?nsub = "unat (qp_subspaces ps)"
  let ?m = "?dim div ?nsub"
  have q0: "qz_params q0 = ps" "0 < ?nsub" "?nsub \<le> ?dim"
    using assms(1-3) by (auto simp: kanbudb_quant_create_def word_le_nat_alt unat_gt_0 split: if_splits)
  have "length rows \<le> length rows * ?dim" using q0 by simp
  then have n: "length rows < 2 ^ 32" using assms(5) by linarith
  obtain cbs where cbs: "pq_train q0 rows = Some (q0\<lparr>pq_sub_dim := ?m, pq_codebooks := Some cbs, pq_trained := True\<rparr>, 0)"
    "length cbs = ?nsub" "\<forall>cb\<in>set cbs. codebook_ok ?m 256 cb"
    using pq_train_ok [OF assms(4) n, of q0] assms(7) q0 by auto
  define q where "q = q0\<lparr>pq_sub_dim := ?m, pq_codebooks := Some cbs, pq_trained := True\<rparr>"
  define code :: bytes where "code = map (\<lambda>s. word_of_nat (nearest ?m (subvec ?m s v) (cbs ! s))) [0..<?nsub]"
  define ws where "ws = map (codeword cbs code) [0..<?nsub]"
  have train: "kanbudb_quant_train q0 rows = Some (q, 0)" using cbs(1) assms(2,4) q0
    by (simp add: kanbudb_quant_train_def q_def KANBUDB_QUANT_SQ8_def KANBUDB_QUANT_PQ_def)
  have enc: "kanbudb_quant_encode q v = Some (Some code)" and dec: "kanbudb_quant_decode q code buf = Some (Some (concat ws @ drop (?nsub * ?m) buf))"
    and len: "kanbudb_quant_code_size q = ?nsub" "length code = ?nsub"
    using assms(2) q0 by (simp_all add: kanbudb_quant_encode_def kanbudb_quant_decode_def kanbudb_quant_code_size_def pq_encode_def pq_decode_def q_def
        code_def ws_def KANBUDB_QUANT_SQ8_def KANBUDB_QUANT_PQ_def)
  have cb: "codebook_ok ?m 256 (cbs ! s)" if "s < ?nsub" for s using cbs(2,3) that by simp
  have idx: "unat (code ! s) = nearest ?m (subvec ?m s v) (cbs ! s)" "unat (code ! s) < 256" if "s < ?nsub" for s
  proof -
    have "length (cbs ! s) = 256" "cbs ! s \<noteq> []" using cb [OF that] by (auto simp: codebook_ok_def)
    then have "nearest ?m (subvec ?m s v) (cbs ! s) < 256" using nearest_less [of "cbs ! s" ?m "subvec ?m s v"] by simp
    then show "unat (code ! s) = nearest ?m (subvec ?m s v) (cbs ! s)" "unat (code ! s) < 256" using that by (simp_all add: code_def unat_of_nat)
  qed
  have ws: "\<forall>w\<in>set ws. length w = ?m" using cb idx(2) by (auto simp: ws_def codeword_def codebook_ok_def)
  have lc: "length (concat ws) = ?nsub * ?m" using concat_length [OF ws] by (simp add: ws_def)
  have out: "length (concat ws @ drop (?nsub * ?m) buf) = ?dim" using lc assms(8) by (simp add: mult.commute)
  have block: "subvec ?m s (concat ws @ drop (?nsub * ?m) buf) = codeword cbs code s" if "s < ?nsub" for s
  proof -
    have "subvec ?m s (concat ws @ drop (?nsub * ?m) buf) = ws ! s" unfolding subvec_def by (rule concat_block [OF ws]) (simp add: ws_def that)
    then show ?thesis using that by (simp add: ws_def)
  qed
  have first: "first_nearest ?m (subvec ?m s v) (cbs ! s) (unat (code ! s))"
    if "s < ?nsub" "w \<in> set (cbs ! s)" "f_less (vec_l2_distance (subvec ?m s v) w ?m) FLT_MAX" for s w
    using nearest_first [OF that(2,3)] idx(1) [OF that(1)] by simp
  have fields: "pq_codebooks q = Some cbs" "pq_sub_dim q = ?m" by (simp_all add: q_def)
  show ?thesis
    by (rule exI [of _ q], rule exI [of _ cbs], rule exI [of _ code], rule exI [of _ "concat ws @ drop (?nsub * ?m) buf"])
      (simp add: train enc dec len out [simplified] cb block first fields)
qed

theorem pq_quantize_witness:
  "\<exists>q code out. kanbudb_quant_train \<lparr>qz_params = \<lparr>qp_type = 2, qp_dimension = 2, qp_subspaces = 2\<rparr>, sq_min = None, sq_range = None,
      sq_trained = False, pq_codebooks = None, pq_sub_dim = 0, pq_trained = False\<rparr> [[f_zero, f_one]] = Some (q, 0) \<and>
    kanbudb_quant_encode q [f_one, f_one] = Some (Some code) \<and> kanbudb_quant_decode q code [f_zero, f_zero] = Some (Some out) \<and> length out = 2"
proof -
  let ?ps = "\<lparr>qp_type = 2, qp_dimension = 2, qp_subspaces = 2\<rparr>"
  have c: "kanbudb_quant_create ?ps = Some \<lparr>qz_params = ?ps, sq_min = None, sq_range = None, sq_trained = False, pq_codebooks = None,
      pq_sub_dim = 0, pq_trained = False\<rparr>" "qp_type ?ps = KANBUDB_QUANT_PQ" "qp_subspaces ?ps \<le> qp_dimension ?ps"
    by (simp_all add: kanbudb_quant_create_def KANBUDB_QUANT_PQ_def)
  have "[[f_zero, f_one]] \<noteq> []" "length [[f_zero, f_one]] * unat (qp_dimension ?ps) < 2 ^ 32" "256 * unat (qp_dimension ?ps) < 2 ^ 32" "\<forall>r\<in>set [[f_zero, f_one]]. length r = unat (qp_dimension ?ps)"
    "length [f_zero, f_zero] = unat (qp_dimension ?ps)" by simp_all
  from pq_quantize [OF c this, of "[f_one, f_one]"] show ?thesis by fastforce
qed

text \<open>The routine for AVX-512 adds up the first eight lanes only.\<close>

lemma f_fma_zero: "f_fma f_zero f_zero f_zero = f_zero"
  by code_simp

lemma l2_fma_same: "f_finite x \<Longrightarrow> l2_fma (x, x) f_zero = f_zero"
proof -
  assume "f_finite x"
  then have "f_sub x x = f_zero" by (simp add: word_uint_eq_iff uint_f_ops fp_sub_self f_finite_uint) (simp add: f_zero_def)
  then show ?thesis by (simp add: l2_fma_def f_fma_zero)
qed

lemma simd_sub_16:
  assumes "length ps = 16" and "length lanes = 16" and "\<forall>i<8. lanes ! i = f_zero" and "\<forall>i<8. fst (ps ! i) = snd (ps ! i) \<and> f_finite (fst (ps ! i))"
  shows "length (fst (simd_sub 16 ps (lanes, rest))) = 16 \<and> (\<forall>i<8. fst (simd_sub 16 ps (lanes, rest)) ! i = f_zero) \<and>
    snd (simd_sub 16 ps (lanes, rest)) = rest"
proof -
  have "simd_loop 16 l2_fma lanes ps = (map2 l2_fma ps lanes, [])"
    using assms(1) by (subst simd_loop.simps) (simp add: simd_loop.simps [of _ _ _ "[]"])
  then have e: "simd_sub 16 ps (lanes, rest) = (map2 l2_fma ps lanes, rest)" using assms(1) by (simp add: simd_sub_def)
  have "map2 l2_fma ps lanes ! i = f_zero" if i: "i < 8" for i
  proof -
    obtain x where "ps ! i = (x, x)" "f_finite x" using assms(4) i by (cases "ps ! i") auto
    then show ?thesis using l2_fma_same [of x] assms(1-3) i by simp
  qed
  then show ?thesis using assms(1,2) by (simp add: e)
qed

lemma hsum8_zero:
  assumes "8 \<le> length l" and "\<forall>i<8. l ! i = f_zero"
  shows "hsum8 l = f_zero"
proof -
  have "take 8 l = replicate 8 f_zero" using assms by (intro nth_equalityI) simp_all
  moreover have "hsum8 l = hsum8 (take 8 l)" by (simp add: hsum8_def drop_take)
  moreover have "hsum8 (replicate 8 f_zero) = f_zero" by code_simp
  ultimately show ?thesis by simp
qed

text \<open>
  With sixteen floats to a subspace, the distance routine for AVX-512 returns zero for every two codes whose rows agree in the first eight
  floats, whatever the other eight are: half of the register is never added to the result.
\<close>

theorem pq_distance_avx512_half:
  assumes "\<forall>s<nsub. length (codeword cbs a s) = 16 \<and> length (codeword cbs b s) = 16 \<and> take 8 (codeword cbs a s) = take 8 (codeword cbs b s) \<and>
      finite_vec (take 8 (codeword cbs a s))"
  shows "pq_distance_avx512 cbs nsub 16 a b = f_zero"
proof -
  have ps: "length (code_pairs cbs 16 a b s) = 16 \<and> (\<forall>i<8. fst (code_pairs cbs 16 a b s ! i) = snd (code_pairs cbs 16 a b s ! i) \<and>
      f_finite (fst (code_pairs cbs 16 a b s ! i)))" if "s < nsub" for s
  proof -
    note h = assms [rule_format, OF that]
    have "codeword cbs a s ! i = codeword cbs b s ! i" "f_finite (codeword cbs a s ! i)" if i: "i < 8" for i
    proof -
      have "take 8 (codeword cbs a s) ! i = take 8 (codeword cbs b s) ! i" using h by simp
      then show "codeword cbs a s ! i = codeword cbs b s ! i" using i by simp
      have "i < length (take 8 (codeword cbs a s))" using h i by simp
      from nth_mem [OF this] have "f_finite (take 8 (codeword cbs a s) ! i)" using h unfolding finite_vec_def by blast
      then show "f_finite (codeword cbs a s ! i)" using i by simp
    qed
    then show ?thesis using h by (simp add: code_pairs_def vec_pairs_def)
  qed
  have "n \<le> nsub \<Longrightarrow> \<exists>lanes. fold (\<lambda>s. simd_sub 16 (code_pairs cbs 16 a b s)) [0..<n] (replicate 16 f_zero, f_zero) = (lanes, f_zero) \<and>
      length lanes = 16 \<and> (\<forall>i<8. lanes ! i = f_zero)" for n
  proof (induction n)
    case (Suc n)
    then obtain lanes where l: "fold (\<lambda>s. simd_sub 16 (code_pairs cbs 16 a b s)) [0..<n] (replicate 16 f_zero, f_zero) = (lanes, f_zero)"
      "length lanes = 16" "\<forall>i<8. lanes ! i = f_zero" by auto
    have "n < nsub" using Suc.prems by simp
    note p = ps [OF this]
    from simd_sub_16 [OF conjunct1 [OF p] l(2,3) conjunct2 [OF p], of f_zero]
    show ?case using l(1) by (cases "simd_sub 16 (code_pairs cbs 16 a b n) (lanes, f_zero)") auto
  qed simp
  from this [of nsub] obtain lanes where "fold (\<lambda>s. simd_sub 16 (code_pairs cbs 16 a b s)) [0..<nsub] (replicate 16 f_zero, f_zero) = (lanes, f_zero)"
    "length lanes = 16" "\<forall>i<8. lanes ! i = f_zero" by auto
  then have "pq_distance_avx512 cbs nsub 16 a b = f_add f_zero f_zero" by (simp add: pq_distance_avx512_def pq_distance_simd_def hsum8_zero)
  also have "\<dots> = f_zero" by code_simp
  finally show ?thesis .
qed

theorem pq_distance_avx512_half_witness:
  "pq_distance_avx512 [[replicate 16 f_zero, replicate 8 f_zero @ replicate 8 f_one]] 1 16 [0] [1] = f_zero \<and>
    pq_distance_scalar [[replicate 16 f_zero, replicate 8 f_zero @ replicate 8 f_one]] 1 16 [0] [1] = 0x41000000"
proof -
  have "f_finite f_zero" by code_simp
  then have "\<forall>s<1. length (codeword [[replicate 16 f_zero, replicate 8 f_zero @ replicate 8 f_one]] [0] s) = 16 \<and>
      length (codeword [[replicate 16 f_zero, replicate 8 f_zero @ replicate 8 f_one]] [1] s) = 16 \<and>
      take 8 (codeword [[replicate 16 f_zero, replicate 8 f_zero @ replicate 8 f_one]] [0] s) =
        take 8 (codeword [[replicate 16 f_zero, replicate 8 f_zero @ replicate 8 f_one]] [1] s) \<and>
      finite_vec (take 8 (codeword [[replicate 16 f_zero, replicate 8 f_zero @ replicate 8 f_one]] [0] s))"
    by (simp add: codeword_def finite_vec_def)
  note half = pq_distance_avx512_half [OF this]
  have "pq_distance_scalar [[replicate 16 f_zero, replicate 8 f_zero @ replicate 8 f_one]] 1 16 [0] [1] = 0x41000000" by code_simp
  then show ?thesis using half by simp
qed

end
