(* ===== verification/Embedding.thy ===== *)
theory Embedding
  imports Distance
begin

unbundle bit_operations_syntax

text \<open>
  The built-in embedding of texts (\<^verbatim>\<open>src/src/vector/embedding.c\<close>): decoding of UTF-8, segmentation by the longest match in a
  dictionary, and hashing of n-grams into rows of a pseudo-random projection matrix, in IEEE single precision.

  The dictionary is in a file that \<^verbatim>\<open>tools/gen_dict_header.py\<close> generates; it is an argument here, the list of its words in the order of
  their offsets. The generator sorts the words as \<^verbatim>\<open>strcmp\<close> does. Memory is available. \<open>None\<close> as the result of an embedding is a division by
  zero or a read of matrix entries that were never written.
\<close>

section \<open>UTF-8\<close>

definition fnv1a_hash :: "bytes \<Rightarrow> u32" where
  "fnv1a_hash data = fold (\<lambda>b h. (h XOR ucast b) * 16777619) data 2166136261"

text \<open>The code point and the number of bytes.\<close>

definition utf8_decode_cp :: "bytes \<Rightarrow> (u32 \<times> nat) option" where
  "utf8_decode_cp src =
     (if src = [] then None
      else
        (let b0 = src ! 0; lo = (\<lambda>i. ucast (src ! i) AND 0x3F :: u32)
         in if b0 < 0x80 then Some (ucast b0, 1)
            else if b0 AND 0xE0 = 0xC0 \<and> length src \<ge> 2 then Some (push_bit 6 (ucast (b0 AND 0x1F)) OR lo 1, 2)
            else if b0 AND 0xF0 = 0xE0 \<and> length src \<ge> 3 then
              Some (push_bit 12 (ucast (b0 AND 0x0F)) OR push_bit 6 (lo 1) OR lo 2, 3)
            else if b0 AND 0xF8 = 0xF0 \<and> length src \<ge> 4 then
              Some (push_bit 18 (ucast (b0 AND 0x07)) OR push_bit 12 (lo 1) OR push_bit 6 (lo 2) OR lo 3, 4)
            else None))"

definition cp_to_utf8 :: "u32 \<Rightarrow> bytes" where
  "cp_to_utf8 cp =
     (if cp < 0x80 then [ucast cp]
      else if cp < 0x800 then [ucast (0xC0 OR drop_bit 6 cp), ucast (0x80 OR (cp AND 0x3F))]
      else if cp < 0x10000 then
        [ucast (0xE0 OR drop_bit 12 cp), ucast (0x80 OR (drop_bit 6 cp AND 0x3F)), ucast (0x80 OR (cp AND 0x3F))]
      else
        [ucast (0xF0 OR drop_bit 18 cp), ucast (0x80 OR (drop_bit 12 cp AND 0x3F)), ucast (0x80 OR (drop_bit 6 cp AND 0x3F)),
         ucast (0x80 OR (cp AND 0x3F))])"

lemma utf8_decode_step: "utf8_decode_cp src = Some (c, k) \<Longrightarrow> 0 < k \<and> src \<noteq> []"
  by (auto simp: utf8_decode_cp_def Let_def split: if_splits)

text \<open>The decoding loop of \<^verbatim>\<open>kanbudb_embed_text\<close>: bytes that begin no character are skipped.\<close>

function decode_cps :: "bytes \<Rightarrow> nat \<Rightarrow> u32 list" where
  "decode_cps ustr room =
     (if ustr = [] \<or> room = 0 then []
      else case utf8_decode_cp ustr of
        None \<Rightarrow> decode_cps (tl ustr) room
      | Some (cp, consumed) \<Rightarrow> cp # decode_cps (drop consumed ustr) (room - 1))"
  by auto
termination
  by (relation "measure (\<lambda>(ustr, room). length ustr)") (auto dest: utf8_decode_step)

declare decode_cps.simps [simp del]

section \<open>Dictionary\<close>

text \<open>\<^verbatim>\<open>strcmp\<close> compares up to the terminating zeros; only the sign of its result is fixed.\<close>

definition cstr :: "bytes \<Rightarrow> bytes" where
  "cstr s = takeWhile (\<lambda>c. c \<noteq> 0) s"

definition strcmp :: "bytes \<Rightarrow> bytes \<Rightarrow> int" where
  "strcmp a b = key_cmp (cstr a) (cstr b)"

function dict_loop :: "bytes list \<Rightarrow> bytes \<Rightarrow> int \<Rightarrow> int \<Rightarrow> bool" where
  "dict_loop dict word lo hi =
     (if lo \<le> hi then
        (let mid = lo + (hi - lo) div 2; cmp = strcmp word (dict ! nat mid)
         in if cmp = 0 then True else if cmp < 0 then dict_loop dict word lo (mid - 1) else dict_loop dict word (mid + 1) hi)
      else False)"
  by auto
termination
  by (relation "measure (\<lambda>(dict, word, lo, hi). nat (hi - lo + 1))") (auto simp: nat_less_iff)

declare dict_loop.simps [simp del]

definition dict_lookup :: "bytes list \<Rightarrow> bytes \<Rightarrow> bool" where
  "dict_lookup dict word = dict_loop dict word 0 (int (length dict) - 1)"

section \<open>Segmentation\<close>

definition DICT_MAX_WORD_LEN :: nat where "DICT_MAX_WORD_LEN = 8"

primrec match_len :: "bytes list \<Rightarrow> u32 list \<Rightarrow> nat \<Rightarrow> nat" where
  "match_len dict cps 0 = 0"
| "match_len dict cps (Suc n) =
     (if dict_lookup dict (concat (map cp_to_utf8 (take (Suc n) cps))) then Suc n else match_len dict cps n)"

definition found_len :: "bytes list \<Rightarrow> u32 list \<Rightarrow> nat" where
  "found_len dict cps = (let l = match_len dict cps (min (length cps) DICT_MAX_WORD_LEN) in if l = 0 then 1 else l)"

definition put_word :: "nat \<Rightarrow> u32 list \<Rightarrow> u32 list \<Rightarrow> u32 list" where
  "put_word seg_cap w seg =
     (let out = seg @ take (seg_cap - 1 - length seg) w in if length out < seg_cap - 1 then out @ [0x20] else out)"

function segment_loop :: "bytes list \<Rightarrow> nat \<Rightarrow> u32 list \<Rightarrow> u32 list \<Rightarrow> u32 list" where
  "segment_loop dict seg_cap cps seg =
     (if cps \<noteq> [] \<and> length seg < seg_cap - 8 then
        segment_loop dict seg_cap (drop (found_len dict cps) cps) (put_word seg_cap (take (found_len dict cps) cps) seg)
      else seg)"
  by auto
termination
  by (relation "measure (\<lambda>(dict, seg_cap, cps, seg). length cps)") (auto simp: found_len_def Let_def)

declare segment_loop.simps [simp del]

definition segment_codepoints :: "bytes list \<Rightarrow> u32 list \<Rightarrow> nat \<Rightarrow> u32 list" where
  "segment_codepoints dict cps seg_cap = segment_loop dict seg_cap cps []"

section \<open>Embedding\<close>

record embed =
  e_dimensions :: u32
  ngram_size :: u32
  proj_matrix :: "f32 list"
  hash_buckets :: u32

definition f_16384 :: f32 where "f_16384 = 0x46800000"
definition f_1e_30 :: f32 where "f_1e_30 = 0x0DA24260"

definition rand_float :: "u32 \<Rightarrow> f32" where
  "rand_float st = f_sub (f_div (f_of_int (uint (drop_bit 16 st AND 0x7FFF))) f_16384) f_one"

primrec seeded_srand :: "u32 \<Rightarrow> nat \<Rightarrow> f32 list" where
  "seeded_srand st 0 = []"
| "seeded_srand st (Suc n) = (let st' = st * 1103515245 + 12345 in rand_float st' # seeded_srand st' n)"

text \<open>The number of floats that are initialised is computed in 32 bits.\<close>

definition kanbudb_embed_create :: "u32 \<Rightarrow> u32 \<Rightarrow> embed option" where
  "kanbudb_embed_create dimensions ngram =
     (if dimensions = 0 then None
      else
        (let buckets = dimensions * 256
         in Some \<lparr>e_dimensions = dimensions, ngram_size = (if ngram = 0 then 3 else ngram),
                  proj_matrix = seeded_srand 42 (unat (buckets * dimensions)), hash_buckets = buckets\<rparr>))"

definition proj_row :: "embed \<Rightarrow> u32 \<Rightarrow> vec option" where
  "proj_row e h =
     (let dim = unat (e_dimensions e)
      in if hash_buckets e = 0 then None
         else
           (let row = take dim (drop (unat (h mod hash_buckets e) * dim) (proj_matrix e))
            in if length row = dim then Some row else None))"

definition ngrams :: "nat \<Rightarrow> u32 list \<Rightarrow> u32 list list" where
  "ngrams ng seg = (if length seg < ng then [seg] else map (\<lambda>i. take ng (drop i seg)) [0..<length seg - ng + 1])"

definition gram_row :: "embed \<Rightarrow> u32 list \<Rightarrow> vec option" where
  "gram_row e g = proj_row e (fnv1a_hash (concat (map put_u32 g)))"

definition sum_rows :: "nat \<Rightarrow> vec list \<Rightarrow> vec" where
  "sum_rows dim rows = fold (\<lambda>r out. map2 f_add out r) rows (replicate dim f_zero)"

definition normalize :: "vec \<Rightarrow> vec" where
  "normalize v =
     (let norm = fold (\<lambda>x s. f_add s (f_mul x x)) v f_zero
      in if f_less f_1e_30 norm then (let scale = f_div f_one (f_sqrt norm) in map (\<lambda>x. f_mul x scale) v) else v)"

definition kanbudb_embed_text :: "bytes list \<Rightarrow> embed \<Rightarrow> bytes \<Rightarrow> vec option" where
  "kanbudb_embed_text dict e txt' =
     (let dim = unat (e_dimensions e); cps = decode_cps txt' 2048
      in if cps = [] then Some (replicate dim f_zero)
         else
           (let seg = segment_codepoints dict cps 4096
            in if seg = [] then Some (replicate dim f_zero)
               else map_option (\<lambda>rows. normalize (sum_rows dim rows)) (those (map (gram_row e) (ngrams (unat (ngram_size e)) seg)))))"

text \<open>\<open>Some None\<close> is the result -1.\<close>

definition kanbudb_embed_batch :: "bytes list \<Rightarrow> embed \<Rightarrow> bytes list \<Rightarrow> vec list option option" where
  "kanbudb_embed_batch dict e texts =
     (if texts = [] then Some None else map_option Some (those (map (kanbudb_embed_text dict e) texts)))"

definition kanbudb_embed_dimensions :: "embed option \<Rightarrow> u32" where
  "kanbudb_embed_dimensions e = (case e of Some e \<Rightarrow> e_dimensions e | None \<Rightarrow> 0)"

end
