(* ===== verification/Embedding_Correct.thy ===== *)
theory Embedding_Correct
  imports Embedding Quantize_Correct
begin

unbundle bit_operations_syntax

text \<open>
  Proofs about the embedding: the UTF-8 coder round trip, the binary search in the dictionary, what the segmentation writes, and that
  the embedding of every text is a finite vector.
\<close>

section \<open>UTF-8\<close>

lemma high_bits:
  assumes "unat cp < 2 ^ k" and "k \<le> n"
  shows "\<not> bit (cp :: 'a :: len word) n"
proof
  assume b: "bit cp n"
  then have "bit (unat cp) n" by (simp add: bit_unsigned_iff)
  then have "bit (take_bit k (unat cp)) n" using assms(1) by (simp add: take_bit_nat_eq_self)
  then show False using assms(2) by (simp add: bit_take_bit_iff)
qed

lemma bit_seven: "bit (7 :: int) m \<longleftrightarrow> m < 3"
  using bit_mask_iff [of 3 m, where 'a = int] by (simp add: mask_eq_exp_minus_1)

lemma byte_eqI:
  assumes "bit x 0 = bit y 0" "bit x 1 = bit y 1" "bit x 2 = bit y 2" "bit x 3 = bit y 3" "bit x 4 = bit y 4" "bit x 5 = bit y 5"
    "bit x 6 = bit y 6" "bit x 7 = bit y 7"
  shows "x = (y :: byte)"
proof (rule bit_word_eqI)
  fix n assume "n < LENGTH(8)"
  then consider "n = 0" | "n = 1" | "n = 2" | "n = 3" | "n = 4" | "n = 5" | "n = 6" | "n = 7" by fastforce
  then show "bit x n = bit y n" using assms by cases simp_all
qed

lemma byte_high: "bit b 7 \<Longrightarrow> \<not> (b :: byte) < 0x80"
  using high_bits [of b 7 7] by (auto simp: word_less_nat_alt)

lemma word21_eqI:
  fixes x y :: u32
  assumes "\<forall>n\<in>set [0, 1, 2, 3, 4, 5, 6, 7, 8, 9, 10, 11, 12, 13, 14, 15, 16, 17, 18, 19, 20]. bit x n = bit y n" and "\<And>n. 21 \<le> n \<Longrightarrow> bit x n = bit y n"
  shows "x = y"
proof (rule bit_word_eqI)
  fix n
  have "[0, 1, 2, 3, 4, 5, 6, 7, 8, 9, 10, 11, 12, 13, 14, 15, 16, 17, 18, 19, 20] = [0..<21]" by code_simp
  then have "\<forall>n\<in>set [0..<21]. bit x n = bit y n" using assms(1) by (simp only:)
  then show "bit x n = bit y n" using assms(2) by (cases "n < 21") auto
qed

lemmas word_bits = bit_simps bit_ucast_iff bit_numeral_word_iff

lemma utf8_two:
  assumes "cp < 0x800" and "\<not> cp < 0x80"
  shows "utf8_decode_cp (cp_to_utf8 cp @ rest) = Some (cp, 2)"
proof -
  have h: "\<And>n. 11 \<le> n \<Longrightarrow> \<not> bit cp n" using high_bits [of cp 11] assms(1) by (simp add: word_less_nat_alt)
  let ?a = "ucast (0xC0 OR drop_bit 6 cp) :: byte" and ?b = "ucast (0x80 OR (cp AND 0x3F)) :: byte"
  have "\<not> ?a < 0x80" by (rule byte_high) (simp add: word_bits)
  moreover have "?a AND 0xE0 = 0xC0" by (rule byte_eqI) (simp_all add: word_bits h)
  moreover have "push_bit 6 (ucast (?a AND 0x1F)) OR (ucast ?b AND 0x3F) = cp"
    by (rule word21_eqI) (auto simp: word_bits h)
  ultimately show ?thesis using assms by (simp add: cp_to_utf8_def utf8_decode_cp_def Let_def)
qed

lemma utf8_three:
  assumes "cp < 0x10000" and "\<not> cp < 0x800"
  shows "utf8_decode_cp (cp_to_utf8 cp @ rest) = Some (cp, 3)"
proof -
  have h: "\<And>n. 16 \<le> n \<Longrightarrow> \<not> bit cp n" using high_bits [of cp 16] assms(1) by (simp add: word_less_nat_alt)
  let ?a = "ucast (0xE0 OR drop_bit 12 cp) :: byte" and ?b = "ucast (0x80 OR (drop_bit 6 cp AND 0x3F)) :: byte"
    and ?c = "ucast (0x80 OR (cp AND 0x3F)) :: byte"
  have "\<not> ?a < 0x80" by (rule byte_high) (simp add: word_bits)
  moreover have "bit ?a 5" by (simp add: word_bits)
  then have "?a AND 0xE0 \<noteq> 0xC0" by (auto simp: bit_eq_iff word_bits intro!: exI [of _ 5])
  moreover have "?a AND 0xF0 = 0xE0" by (rule byte_eqI) (simp_all add: word_bits h)
  moreover have "push_bit 12 (ucast (?a AND 0x0F)) OR push_bit 6 (ucast ?b AND 0x3F) OR (ucast ?c AND 0x3F) = cp"
    by (rule word21_eqI) (auto simp: word_bits h)
  ultimately show ?thesis using assms by (simp add: cp_to_utf8_def utf8_decode_cp_def Let_def word_less_nat_alt)
qed

lemma utf8_four:
  assumes "cp < 0x200000" and "\<not> cp < 0x10000"
  shows "utf8_decode_cp (cp_to_utf8 cp @ rest) = Some (cp, 4)"
proof -
  have h: "\<And>n. 21 \<le> n \<Longrightarrow> \<not> bit cp n" using high_bits [of cp 21] assms(1) by (simp add: word_less_nat_alt)
  let ?a = "ucast (0xF0 OR drop_bit 18 cp) :: byte" and ?b = "ucast (0x80 OR (drop_bit 12 cp AND 0x3F)) :: byte"
    and ?c = "ucast (0x80 OR (drop_bit 6 cp AND 0x3F)) :: byte" and ?d = "ucast (0x80 OR (cp AND 0x3F)) :: byte"
  have "\<not> ?a < 0x80" by (rule byte_high) (simp add: word_bits)
  moreover have "?a AND 0xE0 \<noteq> 0xC0" by (auto simp: bit_eq_iff word_bits intro!: exI [of _ 5])
  moreover have "?a AND 0xF0 \<noteq> 0xE0" by (auto simp: bit_eq_iff word_bits intro!: exI [of _ 4])
  moreover have "?a AND 0xF8 = 0xF0" by (rule byte_eqI) (simp_all add: word_bits h)
  moreover have "push_bit 18 (ucast (?a AND 0x07)) OR push_bit 12 (ucast ?b AND 0x3F) OR push_bit 6 (ucast ?c AND 0x3F) OR (ucast ?d AND 0x3F) = cp"
    by (rule word21_eqI) (auto simp: word_bits h bit_seven)
  ultimately show ?thesis using assms by (simp add: cp_to_utf8_def utf8_decode_cp_def Let_def word_less_nat_alt)
qed

lemma utf8_roundtrip:
  assumes "cp < 0x200000"
  shows "utf8_decode_cp (cp_to_utf8 cp @ rest) = Some (cp, length (cp_to_utf8 cp))"
proof -
  consider "cp < 0x80" | "\<not> cp < 0x80" "cp < 0x800" | "\<not> cp < 0x800" "cp < 0x10000" | "\<not> cp < 0x10000" by blast
  then show ?thesis
  proof cases
    case 1
    then have "unat cp < 128" by (simp add: word_less_nat_alt)
    then have "(ucast cp :: byte) < 0x80" by (simp add: word_less_nat_alt unsigned_ucast_eq take_bit_eq_mod)
    moreover have "ucast (ucast cp :: byte) = cp"
    proof (rule bit_word_eqI)
      fix n
      have "\<not> bit cp n" if "8 \<le> n" using high_bits [of cp 7 n] \<open>unat cp < 128\<close> that by simp
      then show "bit (ucast (ucast cp :: byte) :: u32) n = bit cp n" by (cases "n < 8") (auto simp: bit_ucast_iff)
    qed
    ultimately show ?thesis using 1 by (simp add: cp_to_utf8_def utf8_decode_cp_def Let_def)
  next
    case 2
    then show ?thesis using utf8_two [of cp] by (simp add: cp_to_utf8_def)
  next
    case 3
    then have "\<not> cp < 0x80" by (simp add: word_less_nat_alt)
    then show ?thesis using utf8_three [of cp] 3 by (simp add: cp_to_utf8_def)
  next
    case 4
    then have "\<not> cp < 0x80" "\<not> cp < 0x800" by (simp_all add: word_less_nat_alt)
    then show ?thesis using utf8_four [of cp] 4 assms by (simp add: cp_to_utf8_def)
  qed
qed

lemma decode_encoded:
  assumes "\<forall>cp\<in>set cps. cp < 0x200000" and "length cps \<le> room"
  shows "decode_cps (concat (map cp_to_utf8 cps)) room = cps"
  using assms
proof (induction cps arbitrary: room)
  case Nil
  then show ?case by (simp add: decode_cps.simps)
next
  case (Cons cp cps)
  have "cp_to_utf8 cp \<noteq> []" by (simp add: cp_to_utf8_def)
  then show ?case using Cons utf8_roundtrip [of cp "concat (map cp_to_utf8 cps)"] by (subst decode_cps.simps) simp
qed

section \<open>Dictionary\<close>

text \<open>A dictionary as the generator writes it: strictly ascending words without zero bytes.\<close>

definition dict_ok :: "bytes list \<Rightarrow> bool" where
  "dict_ok dict \<longleftrightarrow> sorted_wrt (<) dict \<and> (\<forall>w\<in>set dict. 0 \<notin> set w)"

lemma cstr_id [simp]: "0 \<notin> set w \<Longrightarrow> cstr w = w"
  by (auto simp: cstr_def takeWhile_eq_all_conv)

lemma sorted_index:
  fixes xs :: "bytes list"
  assumes "sorted_wrt (<) xs" and "i < length xs" and "j < length xs"
  shows "xs ! i < xs ! j \<longleftrightarrow> i < j"
  using sorted_wrt_nth_less [OF assms(1), of i j] sorted_wrt_nth_less [OF assms(1), of j i] assms(2,3)
  by (cases i j rule: linorder_cases) auto

lemma dict_loop_correct:
  assumes "dict_ok dict" and "0 \<le> lo" and "hi < int (length dict)"
    and "\<forall>j<length dict. dict ! j = cstr word \<longrightarrow> lo \<le> int j \<and> int j \<le> hi"
  shows "dict_loop dict word lo hi \<longleftrightarrow> cstr word \<in> set dict"
  using assms
proof (induction dict word lo hi rule: dict_loop.induct)
  case (1 dict word lo hi)
  show ?case
  proof (cases "lo \<le> hi")
    case False
    then show ?thesis using 1(6) by (subst dict_loop.simps) (auto simp: in_set_conv_nth)
  next
    case True
    define mid where "mid = lo + (hi - lo) div 2"
    have mid: "lo \<le> mid" "mid \<le> hi" "nat mid < length dict" "0 \<le> mid" using True 1(4,5) by (auto simp: mid_def)
    have srt: "sorted_wrt (<) dict" and "cstr (dict ! nat mid) = dict ! nat mid" using 1(3) mid(3) by (simp_all add: dict_ok_def)
    then have cmp: "strcmp word (dict ! nat mid) = (if cstr word < dict ! nat mid then - 1 else if dict ! nat mid < cstr word then 1 else 0)"
      by (simp add: strcmp_def key_cmp_spec)
    have unf: "dict_loop dict word lo hi = (if strcmp word (dict ! nat mid) = 0 then True
        else if strcmp word (dict ! nat mid) < 0 then dict_loop dict word lo (mid - 1) else dict_loop dict word (mid + 1) hi)"
      using True by (subst dict_loop.simps) (simp add: mid_def Let_def)
    note ix = sorted_index [OF srt]
    consider "cstr word < dict ! nat mid" | "dict ! nat mid < cstr word" | "cstr word = dict ! nat mid" using less_linear by blast
    then show ?thesis
    proof cases
      case 1
      have "\<forall>j<length dict. dict ! j = cstr word \<longrightarrow> lo \<le> int j \<and> int j \<le> mid - 1"
        using \<open>\<forall>j<length dict. _\<close> ix [OF _ mid(3)] 1 mid by force
      then have "dict_loop dict word lo (mid - 1) \<longleftrightarrow> cstr word \<in> set dict"
        using "1.IH"(1) [OF True mid_def refl] 1 cmp \<open>dict_ok dict\<close> \<open>0 \<le> lo\<close> mid \<open>hi < int (length dict)\<close> by auto
      then show ?thesis using 1 cmp unf by simp
    next
      case 2
      have "\<forall>j<length dict. dict ! j = cstr word \<longrightarrow> mid + 1 \<le> int j \<and> int j \<le> hi"
        using \<open>\<forall>j<length dict. _\<close> ix [OF mid(3)] 2 mid by force
      then have "dict_loop dict word (mid + 1) hi \<longleftrightarrow> cstr word \<in> set dict"
        using "1.IH"(2) [OF True mid_def refl] 2 cmp \<open>dict_ok dict\<close> mid \<open>hi < int (length dict)\<close> by auto
      then show ?thesis using 2 cmp unf by auto
    next
      case 3
      then show ?thesis using cmp unf mid(3) by simp
    qed
  qed
qed

lemma dict_lookup_correct: "dict_ok dict \<Longrightarrow> dict_lookup dict word \<longleftrightarrow> cstr word \<in> set dict"
  unfolding dict_lookup_def by (rule dict_loop_correct) auto

section \<open>Segmentation\<close>

abbreviation utf8 :: "u32 list \<Rightarrow> bytes" where
  "utf8 cps \<equiv> concat (map cp_to_utf8 cps)"

lemma cp_to_utf8_no_zero: "cp \<noteq> 0 \<Longrightarrow> 0 \<notin> set (cp_to_utf8 cp)"
proof -
  assume cp: "cp \<noteq> 0"
  have hi: "b \<noteq> 0" if "bit b 7" for b :: byte using that by auto
  have lead: "(ucast (0xC0 OR x :: u32) :: byte) \<noteq> 0" "(ucast (0xE0 OR x :: u32) :: byte) \<noteq> 0" "(ucast (0xF0 OR x :: u32) :: byte) \<noteq> 0"
    "(ucast (0x80 OR x :: u32) :: byte) \<noteq> 0" for x by (rule hi; simp add: word_bits)+
  have "(ucast cp :: byte) \<noteq> 0" if "cp < 0x80"
  proof
    assume "(ucast cp :: byte) = 0"
    then have "\<not> bit cp n" if "n < 8" for n using that by (auto simp: bit_eq_iff bit_ucast_iff)
    moreover have "\<not> bit cp n" if "7 \<le> n" for n using high_bits [of cp 7] \<open>cp < 0x80\<close> that by (simp add: word_less_nat_alt)
    ultimately have "\<not> bit cp n" for n by (cases "n < 8") auto
    then show False using cp by (simp add: bit_eq_iff)
  qed
  then show ?thesis using lead by (auto simp: cp_to_utf8_def)
qed

lemma utf8_no_zero: "0 \<notin> set cps \<Longrightarrow> 0 \<notin> set (utf8 cps)"
  using cp_to_utf8_no_zero by (induction cps) auto

text \<open>A greedy segmentation: every word is the longest dictionary word at its place, or one code point if there is none.\<close>

fun greedy :: "bytes list \<Rightarrow> u32 list list \<Rightarrow> bool" where
  "greedy dict [] = True"
| "greedy dict (w # ws) =
     (w \<noteq> [] \<and> length w \<le> DICT_MAX_WORD_LEN \<and> (length w = 1 \<or> utf8 w \<in> set dict) \<and>
      (\<forall>l\<in>{length w<..min DICT_MAX_WORD_LEN (length (concat (w # ws)))}. utf8 (take l (concat (w # ws))) \<notin> set dict) \<and> greedy dict ws)"

lemma match_len_spec:
  "match_len dict cps n \<le> n \<and> (0 < match_len dict cps n \<longrightarrow> dict_lookup dict (utf8 (take (match_len dict cps n) cps))) \<and>
   (\<forall>l. match_len dict cps n < l \<and> l \<le> n \<longrightarrow> \<not> dict_lookup dict (utf8 (take l cps)))"
  by (induction n) (auto simp: le_Suc_eq)

lemma found_len_bounds: "cps \<noteq> [] \<Longrightarrow> 0 < found_len dict cps \<and> found_len dict cps \<le> length cps \<and> found_len dict cps \<le> DICT_MAX_WORD_LEN"
  using match_len_spec [of dict cps "min (length cps) DICT_MAX_WORD_LEN"]
  by (auto simp: found_len_def Let_def DICT_MAX_WORD_LEN_def Suc_le_eq)

lemma found_len_greedy:
  assumes "dict_ok dict" and "0 \<notin> set cps" and "cps \<noteq> []"
  shows "(found_len dict cps = 1 \<or> utf8 (take (found_len dict cps) cps) \<in> set dict) \<and>
    (\<forall>l. found_len dict cps < l \<and> l \<le> DICT_MAX_WORD_LEN \<and> l \<le> length cps \<longrightarrow> utf8 (take l cps) \<notin> set dict)"
proof -
  have "0 \<notin> set (utf8 (take l cps))" for l using utf8_no_zero [of "take l cps"] assms(2) in_set_takeD by metis
  then have look: "dict_lookup dict (utf8 (take l cps)) \<longleftrightarrow> utf8 (take l cps) \<in> set dict" for l
    by (simp add: dict_lookup_correct [OF assms(1)])
  show ?thesis using match_len_spec [of dict cps "min (length cps) DICT_MAX_WORD_LEN"] unfolding look
    by (auto simp: found_len_def Let_def split: if_splits)
qed

lemma segment_loop_words:
  assumes "dict_ok dict" and "0 \<notin> set cps" and "length seg + 2 * length cps \<le> seg_cap - 8"
  shows "\<exists>ws. segment_loop dict seg_cap cps seg = seg @ concat (map (\<lambda>w. w @ [0x20]) ws) \<and> concat ws = cps \<and> greedy dict ws"
  using assms
proof (induction dict seg_cap cps seg rule: segment_loop.induct)
  case (1 dict seg_cap cps seg)
  show ?case
  proof (cases "cps = []")
    case True
    then show ?thesis by (subst segment_loop.simps) (auto intro: exI [of _ "[]"])
  next
    case False
    let ?l = "found_len dict cps"
    note l = found_len_bounds [OF False, of dict]
    have guard: "cps \<noteq> [] \<and> length seg < seg_cap - 8" using False 1(4) by (cases cps) auto
    have put: "put_word seg_cap (take ?l cps) seg = seg @ take ?l cps @ [0x20]"
    proof -
      have "0 < length cps" using False by simp
      then have "length seg + ?l < seg_cap - 1" using l 1(4) by linarith
      then show ?thesis using l by (simp add: put_word_def)
    qed
    have "0 \<notin> set (drop ?l cps)" using 1(3) in_set_dropD by metis
    moreover have "length (put_word seg_cap (take ?l cps) seg) + 2 * length (drop ?l cps) \<le> seg_cap - 8"
      using l 1(4) unfolding put by (simp add: min_def) linarith
    ultimately obtain ws where ws: "segment_loop dict seg_cap (drop ?l cps) (put_word seg_cap (take ?l cps) seg) =
        put_word seg_cap (take ?l cps) seg @ concat (map (\<lambda>w. w @ [0x20]) ws)" "concat ws = drop ?l cps" "greedy dict ws"
      using 1(1) [OF guard 1(2)] by blast
    have "segment_loop dict seg_cap cps seg = seg @ concat (map (\<lambda>w. w @ [0x20]) (take ?l cps # ws))"
      using guard ws(1) put by (subst segment_loop.simps) simp
    moreover have "greedy dict (take ?l cps # ws)" using l found_len_greedy [OF 1(2,3) False] ws(2,3) False by (auto simp: min_def)
    moreover have "concat (take ?l cps # ws) = cps" using ws(2) by simp
    ultimately show ?thesis by blast
  qed
qed

text \<open>
  C27. A text in UTF-8 of at most 2044 code points, none of them zero, is decoded exactly and cut into words from left to right, a space
  after each: no code point is lost or changed, and every word is the longest word of the dictionary at its place, or a single code point where
  the dictionary has none.
\<close>

theorem text_segmentation:
  assumes "dict_ok dict" and "length cps \<le> 2044" and "0 \<notin> set cps" and "\<forall>cp\<in>set cps. cp < 0x200000"
  shows "\<exists>ws. segment_codepoints dict (decode_cps (concat (map cp_to_utf8 cps)) 2048) 4096 = concat (map (\<lambda>w. w @ [0x20]) ws) \<and>
    concat ws = cps \<and> greedy dict ws"
proof -
  have "decode_cps (utf8 cps) 2048 = cps" using assms by (intro decode_encoded) simp_all
  then show ?thesis using segment_loop_words [OF assms(1,3), of "[]" 4096] assms(2) by (simp add: segment_codepoints_def)
qed

theorem text_segmentation_witness:
  "\<exists>ws. segment_codepoints [[0x61, 0x62], [0x63]] (decode_cps (concat (map cp_to_utf8 [0x61, 0x62, 0x4E2D, 0x63])) 2048) 4096 =
    concat (map (\<lambda>w. w @ [0x20]) ws) \<and> concat ws = [0x61, 0x62, 0x4E2D, 0x63] \<and> greedy [[0x61, 0x62], [0x63]] ws"
proof -
  have "dict_ok [[0x61, 0x62], [0x63]]" by (simp add: dict_ok_def)
  then show ?thesis by (rule text_segmentation) simp_all
qed

section \<open>Magnitudes\<close>

definition mag_le :: "f32 \<Rightarrow> int \<Rightarrow> bool" where
  "mag_le x P \<longleftrightarrow> fp_abs F32 (uint x) \<le> P"

lemma mag_finite: "mag_le x P \<Longrightarrow> P < fp_inf F32 \<Longrightarrow> f_finite x"
  by (simp add: mag_le_def f_finite_uint fp_fin_def)

lemma mag_val:
  assumes "mag_le x P"
  shows "abs (fp_val F32 (uint x)) \<le> fp_scaled 23 P"
proof -
  have n: "0 \<le> fp_abs F32 (uint x)" by (simp add: fp_abs_nonneg)
  then have "fp_scaled 23 (fp_abs F32 (uint x)) \<le> fp_scaled 23 P" using assms fp_scaled_le [of _ P 23] by (simp add: mag_le_def)
  then show ?thesis using fp_scaled_nonneg [OF n, of 23] by (simp add: fp_val_def F32_consts)
qed

lemma fp_abs_key: "fp_ok F p \<Longrightarrow> fp_abs F p = abs (fp_key F p)"
  using fp_abs_nonneg [of F p] by (simp add: fp_key_def)

lemma pattern_le:
  assumes "0 \<le> n" and "0 < d" and "n \<le> fp_scaled m P * d" and "0 \<le> P"
  shows "fp_pattern m n d \<le> P"
  using fp_pattern_mono_same [OF assms(1,3,2), of m] fp_pattern_exact [OF assms(4,2), of m] by simp

lemma f_add_mag:
  assumes "mag_le x A" "mag_le y B" "A < fp_inf F32" "B < fp_inf F32" "0 \<le> P" "fp_scaled 23 A + fp_scaled 23 B \<le> fp_scaled 23 P"
  shows "mag_le (f_add x y) P"
proof -
  have "fp_fin F32 (uint x)" "fp_fin F32 (uint y)" using mag_finite assms(1-4) by (simp_all add: f_finite_uint [symmetric])
  then have e: "uint (f_add x y) = fp_sum F32 (fp_neg F32 (uint x) \<and> fp_neg F32 (uint y)) (fp_val F32 (uint x) + fp_val F32 (uint y)) 1"
    using fp_fin_not by (simp add: uint_f_ops fp_add_def)
  let ?n = "fp_val F32 (uint x) + fp_val F32 (uint y)"
  have "abs ?n \<le> fp_scaled 23 P * 1" using mag_val [OF assms(1)] mag_val [OF assms(2)] assms(6) by linarith
  then have p: "fp_pattern 23 (abs ?n) 1 \<le> P" using assms(5) by (intro pattern_le) simp_all
  have nn: "0 \<le> fp_pattern 23 (abs ?n) 1" by (simp add: fp_pattern_nonneg)
  have "fp_abs F32 (uint (f_add x y)) = abs (fp_key F32 (uint (f_add x y)))" by (simp add: fp_abs_key)
  also have "\<dots> = min (fp_pattern 23 (abs ?n) 1) (fp_inf F32)"
    using nn fp_inf_bounds(1) [OF formats_ok(1)] unfolding e fp_sum_key [OF formats_ok(1) zero_less_one] F32_consts(4) by (auto simp: min_def)
  finally show ?thesis using p by (simp add: mag_le_def)
qed

lemma f_mul_mag:
  assumes "mag_le x A" "mag_le y B" "A < fp_inf F32" "B < fp_inf F32" "0 \<le> P" "fp_scaled 23 A * fp_scaled 23 B \<le> fp_scaled 23 P * fp_unit F32"
  shows "mag_le (f_mul x y) P"
proof -
  have "fp_fin F32 (uint x)" "fp_fin F32 (uint y)" using mag_finite assms(1-4) by (simp_all add: f_finite_uint [symmetric])
  then have e: "uint (f_mul x y) = fp_round F32 (fp_neg F32 (uint x) \<noteq> fp_neg F32 (uint y)) (abs (fp_val F32 (uint x) * fp_val F32 (uint y))) (fp_unit F32)"
    using fp_fin_not by (simp add: uint_f_ops fp_mul_def Let_def)
  let ?n = "abs (fp_val F32 (uint x) * fp_val F32 (uint y))"
  have "?n \<le> fp_scaled 23 A * fp_scaled 23 B"
    unfolding abs_mult using mag_val [OF assms(1)] mag_val [OF assms(2)] by (intro mult_mono) linarith+
  then have p: "fp_pattern 23 ?n (fp_unit F32) \<le> P" using assms(5,6) by (intro pattern_le) simp_all
  have "fp_abs F32 (uint (f_mul x y)) = min (fp_pattern 23 ?n (fp_unit F32)) (fp_inf F32)"
    unfolding e by (simp add: fp_round_parts(2) F32_consts(4))
  then show ?thesis using p by (simp add: mag_le_def)
qed

text \<open>Integers below \<open>2 ^ 24\<close> are numbers of the format.\<close>

lemma int_pattern:
  assumes "k < 2 ^ 24"
  shows "\<exists>P. 0 \<le> P \<and> P < fp_inf F32 \<and> fp_scaled 23 P = int k * 2 ^ 149"
proof (cases "k = 0")
  case True
  then show ?thesis by (intro exI [of _ 0]) (simp add: F32_consts)
next
  case False
  define e where "e = bitlen (int k) - 1"
  have b: "2 ^ e \<le> int k" "int k < 2 ^ bitlen (int k)" using bitlen_bounds [of "int k"] False by (simp_all add: e_def)
  have "bitlen (int k) \<noteq> 0" using b(2) False by (cases "bitlen (int k)") simp_all
  then have se: "bitlen (int k) = Suc e" by (simp add: e_def)
  have e: "e \<le> 23" using bitlen_le [of "int k" 24] assms se by simp
  define f where "f = (int k - 2 ^ e) * 2 ^ (23 - e)"
  have pw: "2 ^ e * 2 ^ (23 - e) = (2 ^ 23 :: int)" using e by (simp add: power_add [symmetric])
  have f: "0 \<le> f" "f < 2 ^ 23" "2 ^ 23 + f = int k * 2 ^ (23 - e)"
  proof -
    show "0 \<le> f" using b(1) by (simp add: f_def)
    have "(int k - 2 ^ e) * 2 ^ (23 - e) < 2 ^ e * 2 ^ (23 - e)" using b(2) se by (intro mult_strict_right_mono) simp_all
    then show "f < 2 ^ 23" by (simp only: f_def pw)
    show "2 ^ 23 + f = int k * 2 ^ (23 - e)" by (simp only: f_def pw [symmetric]) (simp add: algebra_simps)
  qed
  let ?P = "int (e + 127) * 2 ^ 23 + f"
  have "?P div 2 ^ 23 = int (e + 127)" "?P mod 2 ^ 23 = f" using f(1,2) div_mult_self3 [of "2 ^ 23" "int (e + 127)" f] mod_mult_self3 [of "int (e + 127)" "2 ^ 23" f]
    by (simp_all add: div_pos_pos_trivial mod_pos_pos_trivial del: of_nat_add)
  then have "fp_scaled 23 ?P = (2 ^ 23 + f) * 2 ^ (e + 126)" by (simp add: fp_scaled_def Let_def del: of_nat_add)
  also have "\<dots> = int k * (2 ^ (23 - e) * 2 ^ (e + 126))" by (simp only: f(3) mult.assoc)
  also have "2 ^ (23 - e) * 2 ^ (e + 126) = (2 ^ 149 :: int)" using e by (simp add: power_add [symmetric])
  finally have "fp_scaled 23 ?P = int k * 2 ^ 149" .
  moreover have "?P < fp_inf F32" using f(2) e by (simp add: F32_consts)
  ultimately show ?thesis using f(1) by (intro exI [of _ ?P]) simp
qed

lemma isqrt_spec: "0 \<le> n \<Longrightarrow> 0 \<le> isqrt n \<and> isqrt n * isqrt n \<le> n \<and> n < (isqrt n + 1) * (isqrt n + 1)"
proof (induction n rule: isqrt.induct)
  case (1 n)
  show ?case
  proof (cases "n = 0")
    case True
    then show ?thesis by (simp add: isqrt.simps)
  next
    case False
    then have n: "\<not> n \<le> 0" using 1(2) by simp
    define q where "q = isqrt (n div 4)"
    have q: "0 \<le> q" "q * q \<le> n div 4" "n div 4 < (q + 1) * (q + 1)" using 1(1) [OF n] n by (simp_all add: q_def)
    then have "4 * (q * q) \<le> n" "n < 4 * ((q + 1) * (q + 1))" by linarith+
    then have b: "(2 * q) * (2 * q) \<le> n" "n < (2 * q + 2) * (2 * q + 2)" by (simp_all add: algebra_simps)
    have "isqrt n = (if (2 * q + 1) * (2 * q + 1) \<le> n then 2 * q + 1 else 2 * q)"
      using n by (subst isqrt.simps) (simp add: q_def Let_def)
    then show ?thesis using b q(1) by (auto simp: add.commute add.left_commute)
  qed
qed

lemma isqrt_ge:
  assumes "0 \<le> c" and "c * c \<le> n"
  shows "c \<le> isqrt n"
proof (rule ccontr)
  assume "\<not> c \<le> isqrt n"
  have "0 \<le> n" using assms(2) zero_le_square [of c] by linarith
  note s = isqrt_spec [OF this]
  have "isqrt n + 1 \<le> c" using \<open>\<not> c \<le> isqrt n\<close> by simp
  then have "(isqrt n + 1) * (isqrt n + 1) \<le> c * c" using s by (intro mult_mono) auto
  then show False using s assms(2) by linarith
qed

section \<open>Finite vectors\<close>

lemma embed_consts:
  "fp_scaled 23 0x46800000 = 2 ^ 163" "fp_scaled 23 0x40000000 = 2 ^ 150" "fp_scaled 23 0x47000000 = 2 ^ 164" "fp_scaled 23 0x26800000 = 2 ^ 99"
  "fp_scaled 23 0x58800000 = 2 ^ 199" "fp_scaled 23 0x45800000 = 2 ^ 161" "fp_scaled 23 0x5E800000 = 2 ^ 211"
  by (simp_all add: fp_scaled_def)

lemma rand_float_mag: "mag_le (rand_float st) 0x3F800000"
proof -
  define r where "r = uint (drop_bit 16 st AND 0x7FFF)"
  have "drop_bit 16 st AND 0x7FFF \<le> 0x7FFF" by (rule word_and_le1)
  then have r: "0 \<le> r" "r \<le> 0x7FFF" by (simp_all add: r_def word_le_def)
  have i: "uint (f_of_int r) \<le> 0x47000000" by (rule of_int_pos(2)) (use r in \<open>simp_all add: F32_consts embed_consts\<close>)
  define q where "q = f_div (f_of_int r) f_16384"
  have q: "uint q \<le> 0x40000000"
    using fp_div_le [of "uint (f_of_int r)" "0x47000000" "0x46800000" "0x40000000"] i uint_f_div [of "f_of_int r" f_16384]
      fp_div_ok [of F32 "uint f_16384" "uint (f_of_int r)"]
    by (simp add: q_def F32_consts embed_consts f_16384_def fp_ok_def)
  have qp: "fp_fin F32 (uint q)" "fp_val F32 (uint q) = fp_scaled 23 (uint q)" using pos_parts [of "uint q"] q by (simp_all add: F32_consts)
  have v: "0 \<le> fp_scaled 23 (uint q)" "fp_scaled 23 (uint q) \<le> 2 ^ 150"
    using q fp_scaled_le [of "uint q" "0x40000000" 23] by (simp_all add: fp_scaled_nonneg embed_consts)
  have one: "fp_val F32 (uint f_one) = 2 ^ 149" "f_finite f_one" by code_simp+
  have k: "f_key (rand_float st) = fp_key F32 (fp_sum F32 False (fp_scaled 23 (uint q) - 2 ^ 149) 1)"
    unfolding rand_float_def r_def [symmetric] q_def [symmetric] using f_sub_key [of q f_one] one qp by (simp add: f_finite_uint)
  let ?n = "fp_scaled 23 (uint q) - 2 ^ 149"
  have "abs ?n \<le> fp_scaled 23 0x3F800000 * 1" using v by (simp add: scaled_consts)
  then have p: "fp_pattern 23 (abs ?n) 1 \<le> 0x3F800000" by (intro pattern_le) simp_all
  have "fp_abs F32 (uint (rand_float st)) = abs (f_key (rand_float st))" by (simp add: fp_abs_key f_key_uint)
  also have "\<dots> = min (fp_pattern 23 (abs ?n) 1) (fp_inf F32)"
    using fp_pattern_nonneg [of "abs ?n" 1 23] fp_inf_bounds(1) [OF formats_ok(1)]
    unfolding k fp_sum_key [OF formats_ok(1) zero_less_one] F32_consts(4) by (auto simp: min_def)
  finally show ?thesis using p by (simp add: mag_le_def)
qed

lemma seeded_length [simp]: "length (seeded_srand st n) = n"
  by (induction n arbitrary: st) (simp_all add: Let_def)

lemma seeded_mag: "x \<in> set (seeded_srand st n) \<Longrightarrow> mag_le x 0x3F800000"
  by (induction n arbitrary: st) (auto simp: Let_def rand_float_mag)

text \<open>The sum of \<open>k\<close> rows is at most \<open>k\<close> in magnitude, because every partial bound is a number of the format.\<close>

definition int_mag :: "nat \<Rightarrow> f32 \<Rightarrow> bool" where
  "int_mag k x \<longleftrightarrow> (\<exists>P. P < fp_inf F32 \<and> fp_scaled 23 P = int k * 2 ^ 149 \<and> 0 \<le> P \<and> mag_le x P)"

lemma int_mag_add:
  assumes "int_mag k x" and "mag_le y 0x3F800000" and "Suc k < 2 ^ 24"
  shows "int_mag (Suc k) (f_add x y)"
proof -
  obtain P where P: "P < fp_inf F32" "fp_scaled 23 P = int k * 2 ^ 149" "mag_le x P" using assms(1) by (auto simp: int_mag_def)
  obtain Q where Q: "0 \<le> Q" "Q < fp_inf F32" "fp_scaled 23 Q = int (Suc k) * 2 ^ 149" using int_pattern [OF assms(3)] by blast
  have "mag_le (f_add x y) Q"
    by (rule f_add_mag [OF P(3) assms(2) P(1) _ Q(1)]) (use P(2) Q(3) in \<open>simp_all add: F32_consts scaled_consts algebra_simps\<close>)
  then show ?thesis using Q by (auto simp: int_mag_def)
qed

lemma sum_rows_mag:
  assumes "\<forall>r\<in>set rows. length r = dim \<and> (\<forall>x\<in>set r. mag_le x 0x3F800000)" and "length acc = dim" and "\<forall>x\<in>set acc. int_mag k x"
    and "k + length rows < 2 ^ 24"
  shows "length (fold (\<lambda>r out. map2 f_add out r) rows acc) = dim \<and>
    (\<forall>x\<in>set (fold (\<lambda>r out. map2 f_add out r) rows acc). int_mag (k + length rows) x)"
  using assms
proof (induction rows arbitrary: acc k)
  case (Cons r rows)
  have "int_mag (Suc k) x" if x: "x \<in> set (map2 f_add acc r)" for x
  proof -
    obtain a b where "(a, b) \<in> set (zip acc r)" "x = f_add a b" using x by auto
    then show ?thesis using Cons.prems int_mag_add [of k a b] by (auto dest: set_zip_leftD set_zip_rightD)
  qed
  then show ?case using Cons.IH [of "map2 f_add acc r" "Suc k"] Cons.prems by simp
qed simp

lemma int_mag_4096:
  assumes "int_mag k x" and "k \<le> 4096"
  shows "mag_le x 0x45800000"
proof -
  obtain P where P: "fp_scaled 23 P = int k * 2 ^ 149" "0 \<le> P" "mag_le x P" using assms(1) by (auto simp: int_mag_def)
  have "int k * 2 ^ 149 \<le> 4096 * 2 ^ 149" using assms(2) by (intro mult_right_mono) simp_all
  then have "fp_scaled 23 P \<le> fp_scaled 23 0x45800000" unfolding P(1) by (simp add: embed_consts)
  then have "P \<le> 0x45800000" using P(2) fp_scaled_le [of P "0x45800000" 23] by simp
  then show ?thesis using P(3) by (simp add: mag_le_def)
qed

text \<open>Normalizing: the root of a number above \<open>1e-30\<close> is at least \<open>2 ^ -50\<close>, so the factor is at most \<open>2 ^ 50\<close>.\<close>

lemma f_sqrt_bounds:
  assumes "f_less f_1e_30 n" and "f_pos n"
  shows "0x26800000 \<le> uint (f_sqrt n)" "uint (f_sqrt n) \<le> fp_inf F32"
proof -
  have n: "0 \<le> uint n" "uint n \<le> fp_inf F32" using assms(2) by (simp_all add: f_pos_def fp_pos_def)
  note p = pos_parts [OF n]
  have "f_key f_1e_30 = 0x0DA24260" by code_simp
  then have lt: "0x0DA24260 < uint n" using assms(1) p by (simp add: f_less_def f_key_uint)
  have "fp_sqrt F32 (uint n) = fp_inf F32 \<or> 0x26800000 \<le> fp_sqrt F32 (uint n) \<and> fp_sqrt F32 (uint n) \<le> fp_inf F32"
  proof (cases "uint n = fp_inf F32")
    case True
    then show ?thesis using p fp_inf_bounds(1) [OF formats_ok(1)] by (simp add: fp_sqrt_def)
  next
    case False
    define m where "m = fp_val F32 (uint n) * fp_unit F32"
    define r where "r = isqrt m"
    have "fp_scaled 23 0x0DA24260 \<le> fp_scaled 23 (uint n)" using lt fp_scaled_le [of "0x0DA24260" "uint n" 23] by simp
    moreover have "2 ^ 99 * 2 ^ 99 \<le> fp_scaled 23 0x0DA24260 * (2 ^ 149 :: int)" by code_simp
    ultimately have "2 ^ 99 * 2 ^ 99 \<le> m" using p(4) by (simp add: m_def F32_consts)
    then have r: "2 ^ 99 \<le> r" unfolding r_def by (intro isqrt_ge) simp_all
    let ?k = "2 * r + (if r * r = m then 0 else 1)"
    have "fp_sqrt F32 (uint n) = fp_round F32 False ?k 2"
      using p False lt by (simp add: fp_sqrt_def m_def r_def Let_def)
    moreover have "0x26800000 \<le> fp_round F32 False ?k 2"
      by (rule fp_round_ge) (use r in \<open>simp_all add: F32_consts embed_consts\<close>)
    moreover have "fp_round F32 False ?k 2 \<le> fp_inf F32" by (simp add: fp_round_def fp_pack_def)
    ultimately show ?thesis by simp
  qed
  then have "fp_ok F32 (fp_sqrt F32 (uint n))" "0x26800000 \<le> fp_sqrt F32 (uint n)" "fp_sqrt F32 (uint n) \<le> fp_inf F32"
    by (auto simp: fp_ok_def F32_consts)
  then show "0x26800000 \<le> uint (f_sqrt n)" "uint (f_sqrt n) \<le> fp_inf F32" by (simp_all add: f_sqrt_def uint_of_ok)
qed

lemma scale_mag:
  assumes "0x26800000 \<le> uint x" and "uint x \<le> fp_inf F32"
  shows "mag_le (f_div f_one x) 0x58800000"
proof -
  have u: "uint (f_div f_one x) = fp_div F32 0x3F800000 (uint x)"
    using uint_f_div [of f_one x] fp_div_ok [of F32 "uint x" "uint f_one"] by (simp add: f_one_def)
  have "0 \<le> fp_div F32 0x3F800000 (uint x) \<and> fp_div F32 0x3F800000 (uint x) \<le> 0x58800000"
  proof (cases "uint x = fp_inf F32")
    case True
    have "fp_div F32 0x3F800000 (fp_inf F32) = 0" by code_simp
    then show ?thesis using True by simp
  next
    case False
    have "fp_scaled 23 0x26800000 \<le> fp_scaled 23 (uint x)" using assms(1) fp_scaled_le [of "0x26800000" "uint x" 23] by simp
    then have "fp_scaled 23 0x3F800000 * fp_unit F32 \<le> fp_scaled 23 0x58800000 * fp_scaled 23 (uint x)"
      by (simp add: embed_consts scaled_consts F32_consts)
    then show ?thesis using fp_div_le [of "0x3F800000" "0x3F800000" "uint x" "0x58800000"] assms False by (simp add: F32_consts)
  qed
  then show ?thesis using pos_parts [of "uint (f_div f_one x)"] by (simp add: mag_le_def u F32_consts)
qed

lemma square_sum_pos:
  assumes "\<forall>x\<in>set v. f_finite x" and "f_pos s"
  shows "f_pos (fold (\<lambda>x s. f_add s (f_mul x x)) v s)"
  using assms
proof (induction v arbitrary: s)
  case (Cons x v)
  have "f_pos (f_mul x x)" using Cons.prems(1) fp_square_pos [OF formats_ok(1), of "uint x"] fp_fin_not by (simp add: f_pos_def uint_f_ops f_finite_uint)
  then show ?case using Cons by (simp add: f_add_pos)
qed simp

lemma normalize_finite:
  assumes "\<forall>x\<in>set v. mag_le x 0x45800000"
  shows "length (normalize v) = length v \<and> finite_vec (normalize v)"
proof -
  have fin: "\<forall>x\<in>set v. f_finite x" using assms mag_finite by (auto simp: F32_consts)
  define n where "n = fold (\<lambda>x s. f_add s (f_mul x x)) v f_zero"
  have pos: "f_pos n" unfolding n_def by (rule square_sum_pos [OF fin]) simp
  show ?thesis
  proof (cases "f_less f_1e_30 n")
    case True
    let ?s = "f_div f_one (f_sqrt n)"
    have s: "mag_le ?s 0x58800000" by (rule scale_mag [OF f_sqrt_bounds [OF True pos]])
    have "mag_le (f_mul x ?s) 0x5E800000" if "x \<in> set v" for x
      by (rule f_mul_mag [of _ "0x45800000" _ "0x58800000"]) (use assms that s in \<open>simp_all add: embed_consts F32_consts\<close>)
    then have "\<forall>x\<in>set v. f_finite (f_mul x ?s)" using mag_finite [of _ "0x5E800000"] by (simp add: F32_consts)
    then show ?thesis using True by (auto simp: normalize_def n_def [symmetric] Let_def finite_vec_def)
  next
    case False
    then show ?thesis using fin by (simp add: normalize_def n_def [symmetric] finite_vec_def)
  qed
qed

lemma put_word_length: "length seg \<le> seg_cap \<Longrightarrow> length (put_word seg_cap w seg) \<le> seg_cap"
  by (auto simp: put_word_def Let_def)

lemma segment_length: "length seg \<le> seg_cap \<Longrightarrow> length (segment_loop dict seg_cap cps seg) \<le> seg_cap"
proof (induction dict seg_cap cps seg rule: segment_loop.induct)
  case (1 dict seg_cap cps seg)
  then show ?case using put_word_length by (subst segment_loop.simps) simp
qed

text \<open>An embedding whose matrix was initialised completely.\<close>

definition embed_ok :: "embed \<Rightarrow> bool" where
  "embed_ok e \<longleftrightarrow> 0 < unat (hash_buckets e) \<and> length (proj_matrix e) = unat (hash_buckets e) * unat (e_dimensions e) \<and>
     0 < unat (ngram_size e) \<and> (\<forall>x\<in>set (proj_matrix e). mag_le x 0x3F800000)"

lemma embed_create_ok:
  assumes "kanbudb_embed_create dims ng = Some e" and "256 * unat dims * unat dims < 2 ^ 32"
  shows "embed_ok e \<and> e_dimensions e = dims"
proof -
  have d: "dims \<noteq> 0" and e: "e = \<lparr>e_dimensions = dims, ngram_size = (if ng = 0 then 3 else ng),
      proj_matrix = seeded_srand 42 (unat (dims * 256 * dims)), hash_buckets = dims * 256\<rparr>"
    using assms(1) by (auto simp: kanbudb_embed_create_def Let_def split: if_splits)
  have p: "0 < unat dims" using d by (simp add: unat_gt_0)
  have "256 * unat dims * 1 \<le> 256 * unat dims * unat dims" using p by (intro mult_left_mono) simp_all
  then have "unat dims * 256 < 2 ^ 32" using assms(2) by linarith
  then have m: "unat (dims * 256) = unat dims * 256" by (subst unat_mult_lem [THEN iffD1]) simp_all
  then have "unat (dims * 256 * dims) = unat dims * 256 * unat dims" using assms(2) by (subst unat_mult_lem [THEN iffD1]) (simp_all add: mult.commute mult.left_commute)
  then show ?thesis using m p seeded_mag by (auto simp: embed_ok_def e unat_gt_0)
qed

lemma proj_row_ok:
  assumes "embed_ok e"
  shows "\<exists>r. proj_row e h = Some r \<and> length r = unat (e_dimensions e) \<and> (\<forall>x\<in>set r. mag_le x 0x3F800000)"
proof -
  let ?d = "unat (e_dimensions e)" and ?b = "unat (h mod hash_buckets e)"
  have hb: "0 < unat (hash_buckets e)" using assms by (simp add: embed_ok_def)
  then have "?b < unat (hash_buckets e)" by (simp add: unat_mod)
  then have "(?b + 1) * ?d \<le> unat (hash_buckets e) * ?d" by (intro mult_right_mono) simp_all
  then have "length (take ?d (drop (?b * ?d) (proj_matrix e))) = ?d" using assms by (simp add: embed_ok_def)
  moreover have "hash_buckets e \<noteq> 0" using hb by auto
  moreover have "\<forall>x\<in>set (take ?d (drop (?b * ?d) (proj_matrix e))). mag_le x 0x3F800000"
    using assms by (auto simp: embed_ok_def dest!: in_set_takeD in_set_dropD)
  ultimately show ?thesis by (simp add: proj_row_def Let_def)
qed

lemma zero_int_mag: "int_mag 0 f_zero"
  by (auto simp: int_mag_def mag_le_def f_zero_def fp_abs_def fp_neg_def F32_consts intro!: exI [of _ 0])

lemma embed_text_ok:
  assumes "embed_ok e"
  shows "\<exists>v. kanbudb_embed_text dict e str = Some v \<and> length v = unat (e_dimensions e) \<and> finite_vec v"
proof -
  let ?d = "unat (e_dimensions e)" and ?cps = "decode_cps str 2048"
  have zero: "finite_vec (replicate ?d f_zero)"
    using mag_finite [OF int_mag_4096 [OF zero_int_mag]] by (simp add: finite_vec_def F32_consts)
  show ?thesis
  proof (cases "?cps = [] \<or> segment_codepoints dict ?cps 4096 = []")
    case True
    then show ?thesis using zero by (auto simp: kanbudb_embed_text_def Let_def)
  next
    case False
    let ?gs = "ngrams (unat (ngram_size e)) (segment_codepoints dict ?cps 4096)"
    have "length (segment_codepoints dict ?cps 4096) \<le> 4096" unfolding segment_codepoints_def by (rule segment_length) simp
    then have g: "length ?gs \<le> 4096" using assms by (auto simp: ngrams_def embed_ok_def)
    have row: "\<exists>r. gram_row e w = Some r \<and> length r = ?d \<and> (\<forall>x\<in>set r. mag_le x 0x3F800000)" for w
      unfolding gram_row_def by (rule proj_row_ok [OF assms])
    then have def: "those (map (gram_row e) ?gs) = Some (map (\<lambda>w. the (gram_row e w)) ?gs)" by (intro those_map_defined) fastforce
    let ?rows = "map (\<lambda>w. the (gram_row e w)) ?gs"
    have rows: "\<forall>r\<in>set ?rows. length r = ?d \<and> (\<forall>x\<in>set r. mag_le x 0x3F800000)"
    proof
      fix r assume "r \<in> set ?rows"
      then obtain w where "r = the (gram_row e w)" by auto
      then show "length r = ?d \<and> (\<forall>x\<in>set r. mag_le x 0x3F800000)" using row [of w] by auto
    qed
    have "length (sum_rows ?d ?rows) = ?d \<and> (\<forall>x\<in>set (sum_rows ?d ?rows). int_mag (0 + length ?rows) x)"
      unfolding sum_rows_def by (rule sum_rows_mag [OF rows]) (use g zero_int_mag in auto)
    then have "length (sum_rows ?d ?rows) = ?d" "\<forall>x\<in>set (sum_rows ?d ?rows). mag_le x 0x45800000" using int_mag_4096 g by auto
    with normalize_finite [OF this(2)] show ?thesis using False def by (auto simp: kanbudb_embed_text_def Let_def)
  qed
qed

text \<open>
  C28. The embedding of every text is defined and is a finite vector of the given dimension, whatever the bytes of the text and the words of the dictionary
  are: with \<open>256 * dim * dim\<close> below \<open>2 ^ 32\<close> no hash leaves the initialised part of the matrix, no sum overflows, and the division by the norm
  neither overflows nor gives a NaN.
\<close>

theorem embed_text_finite:
  assumes "kanbudb_embed_create dims ng = Some e" and "256 * unat dims * unat dims < 2 ^ 32"
  shows "\<exists>v. kanbudb_embed_text dict e str = Some v \<and> length v = unat (kanbudb_embed_dimensions (Some e)) \<and> finite_vec v"
  using embed_text_ok [of e] embed_create_ok [OF assms] by (simp add: kanbudb_embed_dimensions_def)

theorem embed_text_finite_witness:
  "\<exists>e v. kanbudb_embed_create 2 0 = Some e \<and> kanbudb_embed_text [] e [0x68, 0x69] = Some v \<and> length v = 2 \<and> finite_vec v"
proof -
  obtain e where e: "kanbudb_embed_create 2 0 = Some e" by (simp add: kanbudb_embed_create_def Let_def)
  have "256 * unat (2 :: u32) * unat (2 :: u32) < 2 ^ 32" by simp
  from embed_text_finite [OF e this, of "[]" "[0x68, 0x69]"] embed_create_ok [OF e this] e show ?thesis
    by (auto simp: kanbudb_embed_dimensions_def)
qed

end
