(* ===== verification/Top_K.thy ===== *)
theory Top_K
  imports Prelude
begin

text \<open>
  The selection sort that two entry points of \<^verbatim>\<open>src/src/core/db.c\<close> write out for their results, for any comparison: \<^verbatim>\<open>db_hybrid_search\<close> sorts
  completely, \<^verbatim>\<open>db_vec_quant_search\<close> stops after the first \<open>k\<close> positions. The comparisons are those of floating-point numbers, so the
  interface asks for the laws of an order only on a set of values, the numbers that are not NaN.
\<close>

definition select_best :: "('a \<Rightarrow> 'a \<Rightarrow> bool) \<Rightarrow> 'a list \<Rightarrow> nat" where
  "select_best before xs = fold (\<lambda>j best. if before (xs ! j) (xs ! best) then j else best) [1..<length xs] 0"

definition swap_first :: "nat \<Rightarrow> 'a list \<Rightarrow> 'a list" where
  "swap_first b xs = xs[0 := xs ! b, b := xs ! 0]"

fun select_sort :: "('a \<Rightarrow> 'a \<Rightarrow> bool) \<Rightarrow> nat \<Rightarrow> 'a list \<Rightarrow> 'a list" where
  "select_sort before 0 xs = xs"
| "select_sort before (Suc k) [] = []"
| "select_sort before (Suc k) (x # xs) =
     (case swap_first (select_best before (x # xs)) (x # xs) of
        [] \<Rightarrow> []
      | y # ys \<Rightarrow> y # select_sort before k ys)"

lemma select_best_less:
  assumes "xs \<noteq> []"
  shows "select_best before xs < length xs"
proof -
  have "fold (\<lambda>j best. if before (xs ! j) (xs ! best) then j else best) js b < length xs"
    if "\<forall>j\<in>set js. j < length xs" "b < length xs" for js b
    using that by (induction js arbitrary: b) simp_all
  then show ?thesis using assms by (auto simp: select_best_def)
qed

lemma swap_first_mset: "b < length xs \<Longrightarrow> mset (swap_first b xs) = mset xs"
  using mset_swap [of b xs 0] by (cases xs) (simp_all add: swap_first_def)

lemma swap_first_length [simp]: "length (swap_first b xs) = length xs"
  by (simp add: swap_first_def)

lemma swap_first_hd: "b < length xs \<Longrightarrow> swap_first b xs ! 0 = xs ! b"
  by (cases xs) (simp_all add: swap_first_def nth_list_update split: nat.split)

lemma select_sort_mset: "mset (select_sort before k xs) = mset xs"
proof (induction before k xs rule: select_sort.induct)
  case (3 before k x xs)
  let ?ys = "swap_first (select_best before (x # xs)) (x # xs)"
  have m: "mset ?ys = mset (x # xs)" by (rule swap_first_mset) (use select_best_less [of "x # xs" before] in simp)
  obtain y ys where y: "?ys = y # ys" by (cases ?ys) (use swap_first_length [of "select_best before (x # xs)" "x # xs"] in auto)
  show ?case using 3 y m by simp
qed simp_all

lemma select_sort_length [simp]: "length (select_sort before k xs) = length xs"
  using select_sort_mset [of before k xs] by (rule mset_eq_length)

lemma select_sort_set: "set (select_sort before k xs) = set xs"
  using select_sort_mset [of before k xs] by (rule mset_eq_setD)

text \<open>What the comparisons promise on the values that are ordered.\<close>

locale score_order =
  fixes before :: "'a \<Rightarrow> 'a \<Rightarrow> bool" and ordered :: "'a \<Rightarrow> bool"
  assumes asym: "ordered x \<Longrightarrow> ordered y \<Longrightarrow> before x y \<Longrightarrow> \<not> before y x"
    and negtrans: "ordered x \<Longrightarrow> ordered y \<Longrightarrow> ordered z \<Longrightarrow> \<not> before y x \<Longrightarrow> \<not> before z y \<Longrightarrow> \<not> before z x"
begin

lemma select_best_first:
  assumes "\<forall>x\<in>set xs. ordered x" and "xs \<noteq> []"
  shows "\<forall>x\<in>set xs. \<not> before x (xs ! select_best before xs)"
proof -
  let ?step = "\<lambda>j best. if before (xs ! j) (xs ! best) then j else best"
  have ord: "ordered (xs ! j)" if "j < length xs" for j using assms(1) that by simp
  have "n \<le> length xs \<Longrightarrow> fold ?step [1..<n] 0 < length xs \<and> (\<forall>j<max 1 n. \<not> before (xs ! j) (xs ! fold ?step [1..<n] 0))" for n
  proof (induction n)
    case 0
    then show ?case using assms(2) asym [OF ord ord, of 0 0] by auto
  next
    case (Suc n)
    show ?case
    proof (cases "n = 0")
      case True
      then show ?thesis using Suc.prems assms(2) asym [OF ord ord, of 0 0] by auto
    next
      case False
      let ?b = "fold ?step [1..<n] 0"
      have b: "?b < length xs" "\<forall>j<n. \<not> before (xs ! j) (xs ! ?b)" "n < length xs" using Suc False by auto
      have u: "fold ?step [1..<Suc n] 0 = (if before (xs ! n) (xs ! ?b) then n else ?b)" using False by simp
      have "\<not> before (xs ! j) (xs ! n)" if "j < Suc n" "before (xs ! n) (xs ! ?b)" for j
      proof (cases "j = n")
        case True
        then show ?thesis using asym [OF ord ord, of n n] b(3) by auto
      next
        case False
        then have j: "j < n" using that(1) by simp
        then have o: "ordered (xs ! j)" "ordered (xs ! ?b)" "ordered (xs ! n)" using ord b by simp_all
        show ?thesis using negtrans [OF o(3,2,1)] asym [OF o(3,2) that(2)] b(2) j by blast
      qed
      then show ?thesis using u b by (auto simp: less_Suc_eq)
    qed
  qed
  from this [of "length xs"] show ?thesis using assms(2) by (auto simp: select_best_def in_set_conv_nth)
qed

text \<open>The first \<open>k\<close> positions are in order, and nothing behind them comes before them.\<close>

lemma select_sort_sorted:
  assumes "\<forall>x\<in>set xs. ordered x"
  shows "sorted_wrt (\<lambda>a b. \<not> before b a) (take k (select_sort before k xs)) \<and>
    (\<forall>a\<in>set (take k (select_sort before k xs)). \<forall>b\<in>set (drop k (select_sort before k xs)). \<not> before b a)"
  using assms
proof (induction k arbitrary: xs)
  case (Suc k)
  show ?case
  proof (cases xs)
    case (Cons x xs')
    let ?b = "select_best before xs"
    have b: "?b < length xs" by (rule select_best_less) (simp add: Cons)
    obtain y ys where y: "swap_first ?b xs = y # ys" using Cons by (cases "swap_first ?b xs") (auto dest: arg_cong [of _ _ length])
    have "set (y # ys) = set xs" using mset_eq_setD [OF swap_first_mset [OF b]] y by simp
    moreover have "y = xs ! ?b" using swap_first_hd [OF b] y by simp
    ultimately have least: "\<forall>z\<in>set ys. \<not> before z y" and ord: "\<forall>z\<in>set ys. ordered z"
      using select_best_first [of xs] Suc.prems Cons by auto
    have st: "select_sort before (Suc k) xs = y # select_sort before k ys" using y Cons by simp
    have "set (take k (select_sort before k ys)) \<subseteq> set ys" "set (drop k (select_sort before k ys)) \<subseteq> set ys"
      using set_take_subset [of k "select_sort before k ys"] set_drop_subset [of k "select_sort before k ys"] by (simp_all add: select_sort_set)
    then show ?thesis using Suc.IH [OF ord] least by (auto simp: st)
  qed simp
qed simp

end

end
