(* ===== verification/Db_Vector.thy ===== *)
theory Db_Vector
  imports Vec_Recovery Quantize_Correct Embedding_Correct Top_K
begin

text \<open>
  The vector side of the database object (\<^verbatim>\<open>src/src/core/db.c\<close>, from \<^verbatim>\<open>db_vec_create_index\<close> on): an index, an embedding for texts and a
  quantizer with its own store of vectors. The record has the fields of \<^verbatim>\<open>struct kanbudb_db\<close> that these entry points use; the rest of
  the structure is in \<open>Db_Core\<close>. Results are C integers, because the entry points pass on the error codes of the vector library, which are not
  those of \<^verbatim>\<open>util/macros.h\<close>. Caller's vectors have at least as many floats as the index or the quantizer reads; \<open>None\<close> is an access
  to memory that is not there.
\<close>

section \<open>State\<close>

definition rc_code :: "rc \<Rightarrow> int" where
  "rc_code r = (case r of KANBUDB_OK \<Rightarrow> 0 | KANBUDB_ERR_OOM \<Rightarrow> - 1 | KANBUDB_ERR_NOTFOUND \<Rightarrow> - 2 | KANBUDB_ERR_EXISTS \<Rightarrow> - 3
     | KANBUDB_ERR_CORRUPT \<Rightarrow> - 4 | KANBUDB_ERR_IO \<Rightarrow> - 5 | KANBUDB_ERR_INVAL \<Rightarrow> - 6 | KANBUDB_ERR_BUSY \<Rightarrow> - 7)"

definition vec_code :: "vec_rc \<Rightarrow> int" where
  "vec_code r = (case r of KANBUDB_VEC_OK \<Rightarrow> 0 | KANBUDB_VEC_ERR_OOM \<Rightarrow> - 1 | KANBUDB_VEC_ERR_NOTFOUND \<Rightarrow> - 2
     | KANBUDB_VEC_ERR_CORRUPT \<Rightarrow> - 3 | KANBUDB_VEC_ERR_IO \<Rightarrow> - 4 | KANBUDB_VEC_ERR_INVAL \<Rightarrow> - 5)"

record db_vec_options =
  vo_dimension :: u32
  vo_ngram_size :: u32
  vo_enable_hnsw :: bool
  vo_hnsw_m :: u32
  vo_hnsw_ef :: u32

record db_vec =
  dv_path :: path
  dv_last_error :: int
  dv_index :: "vec_index option"
  dv_embed :: "embed option"
  dv_quantizer :: "quantizer option"
  quant_vectors :: "vec list"
  quant_ids :: "u64 list"
  quant_capacity :: nat

type_synonym vstate = "file_system \<times> db_vec"

text \<open>The kernels that \<^verbatim>\<open>vec_get_dist_func\<close> has in a build without and with AVX2; the index passes its dimension.\<close>

definition dist_table :: "bool \<Rightarrow> nat \<Rightarrow> dist_kernels" where
  "dist_table avx2 dim =
     (if avx2
      then \<lparr>k_l2 = (\<lambda>a b. vec_l2_distance_avx2 a b dim), k_cosine = (\<lambda>a b. vec_cosine_distance_avx2 a b dim),
             k_ip = (\<lambda>a b. vec_ip_distance_avx2 a b dim)\<rparr>
      else \<lparr>k_l2 = (\<lambda>a b. vec_l2_distance a b dim), k_cosine = (\<lambda>a b. vec_cosine_distance a b dim),
             k_ip = (\<lambda>a b. vec_ip_distance a b dim)\<rparr>)"

section \<open>Index\<close>

definition KANBUDB_VEC_PARAMS_DEFAULT :: vec_params where
  "KANBUDB_VEC_PARAMS_DEFAULT =
     \<lparr>p_algo = KANBUDB_VEC_ALGO_FLAT, p_metric = 0, p_dimension = 0, p_initial_capacity = 0, p_enable_persistence = False,
      p_M = 16, p_ef_construction = 200, p_ef_search = 50\<rparr>"

definition close_index :: "vec_env \<Rightarrow> vstate \<Rightarrow> vstate" where
  "close_index env s =
     (case s of (fs, db) \<Rightarrow>
       (case dv_index db of None \<Rightarrow> fs | Some idx \<Rightarrow> kanbudb_vec_close env (fs, idx), db\<lparr>dv_index := None, dv_embed := None\<rparr>))"

definition vec_db_path :: "db_vec \<Rightarrow> path" where
  "vec_db_path db = take 511 (dv_path db @ ''.vec'')"

definition index_params :: "db_vec_options \<Rightarrow> vec_params" where
  "index_params opts =
     (let ps = KANBUDB_VEC_PARAMS_DEFAULT\<lparr>p_dimension := vo_dimension opts\<rparr>
      in if vo_enable_hnsw opts
         then ps\<lparr>p_algo := KANBUDB_VEC_ALGO_HNSW, p_M := vo_hnsw_m opts, p_ef_construction := vo_hnsw_ef opts\<rparr>
         else ps)"

definition db_vec_create_index :: "vec_env \<Rightarrow> bool \<Rightarrow> db_vec_options \<Rightarrow> vstate \<Rightarrow> vstate \<times> int" where
  "db_vec_create_index env avx2 opts s =
     (if vo_dimension opts = 0 then (s, rc_code KANBUDB_ERR_INVAL)
      else
        (case close_index env s of (fs, db) \<Rightarrow>
          (case kanbudb_vec_create env (dist_table avx2 (unat (vo_dimension opts))) fs (Some (vec_db_path db)) (index_params opts) of
             (fs', Inl e) \<Rightarrow> ((fs', db), vec_code e)
           | (fs', Inr idx) \<Rightarrow>
               (let e = kanbudb_embed_create (vo_dimension opts) (if vo_ngram_size opts \<noteq> 0 then vo_ngram_size opts else 3)
                in ((fs', db\<lparr>dv_index := Some idx, dv_embed := e, dv_last_error := 0\<rparr>), if e = None then - 1 else 0)))))"

definition db_vec_destroy_index :: "vec_env \<Rightarrow> vstate \<Rightarrow> vstate \<times> int" where
  "db_vec_destroy_index env s = (case close_index env s of (fs, db) \<Rightarrow> ((fs, db\<lparr>dv_last_error := 0\<rparr>), rc_code KANBUDB_OK))"

text \<open>A vector for the index must have as many floats as the index reads.\<close>

definition vec_insert :: "vec_env \<Rightarrow> vstate \<Rightarrow> vec_index \<Rightarrow> u64 \<Rightarrow> vec \<Rightarrow> (vstate \<times> int) option" where
  "vec_insert env s idx i v =
     (if length v < dimension idx then None
      else map_option (\<lambda>((fs', idx'), rc). ((fs', (snd s)\<lparr>dv_index := Some idx'\<rparr>), vec_code rc)) (kanbudb_vec_insert env (fst s, idx) i v))"

definition db_vec_insert_text :: "vec_env \<Rightarrow> bytes list \<Rightarrow> u64 \<Rightarrow> bytes \<Rightarrow> vstate \<Rightarrow> (vstate \<times> int) option" where
  "db_vec_insert_text env dict i str s =
     (case (dv_index (snd s), dv_embed (snd s)) of
        (Some idx, Some e) \<Rightarrow>
          (case kanbudb_embed_text dict e str of None \<Rightarrow> None | Some v \<Rightarrow> vec_insert env s idx i v)
      | _ \<Rightarrow> Some (s, rc_code KANBUDB_ERR_INVAL))"

definition db_vec_insert_batch :: "vec_env \<Rightarrow> bytes list \<Rightarrow> (u64 \<times> bytes) list \<Rightarrow> vstate \<Rightarrow> (vstate \<times> int) option" where
  "db_vec_insert_batch env dict items s =
     (if items = [] then Some (s, rc_code KANBUDB_ERR_INVAL)
      else case (dv_index (snd s), dv_embed (snd s)) of
        (Some idx, Some e) \<Rightarrow>
          (case kanbudb_embed_batch dict e (map snd items) of
             None \<Rightarrow> None
           | Some None \<Rightarrow> Some (s, - 1)
           | Some (Some vs) \<Rightarrow>
               if unat (e_dimensions e) < dimension idx then None
               else map_option (\<lambda>((fs', idx'), rc). ((fs', (snd s)\<lparr>dv_index := Some idx'\<rparr>), vec_code rc))
                      (kanbudb_vec_insert_batch env (fst s, idx) (zip (map fst items) vs)))
      | _ \<Rightarrow> Some (s, rc_code KANBUDB_ERR_INVAL))"

definition db_vec_insert_vector :: "vec_env \<Rightarrow> u64 \<Rightarrow> vec \<Rightarrow> vstate \<Rightarrow> (vstate \<times> int) option" where
  "db_vec_insert_vector env i v s =
     (case dv_index (snd s) of Some idx \<Rightarrow> vec_insert env s idx i v | None \<Rightarrow> Some (s, rc_code KANBUDB_ERR_INVAL))"

text \<open>Searches return an error code or the results, whose number is the C result.\<close>

definition run_search ::
  "vstate \<Rightarrow> vec_index \<Rightarrow> vec \<Rightarrow> (vec_index \<times> (vec_rc + vec_result list)) option \<Rightarrow> (vstate \<times> (int + vec_result list)) option" where
  "run_search s idx query r =
     (if length query < dimension idx then None
      else map_option (\<lambda>(idx', res). ((fst s, (snd s)\<lparr>dv_index := Some idx'\<rparr>), case res of Inl e \<Rightarrow> Inl (vec_code e) | Inr rs \<Rightarrow> Inr rs)) r)"

definition db_vec_search :: "qsort_fn \<Rightarrow> vec \<Rightarrow> u32 \<Rightarrow> vstate \<Rightarrow> (vstate \<times> (int + vec_result list)) option" where
  "db_vec_search qsort query k s =
     (if k = 0 then Some (s, Inl (rc_code KANBUDB_ERR_INVAL))
      else case dv_index (snd s) of
        Some idx \<Rightarrow> run_search s idx query (kanbudb_vec_search qsort idx query k)
      | None \<Rightarrow> Some (s, Inl (rc_code KANBUDB_ERR_INVAL)))"

definition db_vec_search_text :: "qsort_fn \<Rightarrow> bytes list \<Rightarrow> bytes \<Rightarrow> u32 \<Rightarrow> vstate \<Rightarrow> (vstate \<times> (int + vec_result list)) option" where
  "db_vec_search_text qsort dict str k s =
     (if k = 0 then Some (s, Inl (rc_code KANBUDB_ERR_INVAL))
      else case (dv_index (snd s), dv_embed (snd s)) of
        (Some idx, Some e) \<Rightarrow>
          (case kanbudb_embed_text dict e str of
             None \<Rightarrow> None
           | Some q \<Rightarrow> run_search s idx q (kanbudb_vec_search qsort idx q k))
      | _ \<Rightarrow> Some (s, Inl (rc_code KANBUDB_ERR_INVAL)))"

definition db_vec_search_filtered ::
  "qsort_fn \<Rightarrow> vec \<Rightarrow> u32 \<Rightarrow> (u64 \<Rightarrow> bool) option \<Rightarrow> vstate \<Rightarrow> (vstate \<times> (int + vec_result list)) option" where
  "db_vec_search_filtered qsort query k flt s =
     (if k = 0 then Some (s, Inl (rc_code KANBUDB_ERR_INVAL))
      else case dv_index (snd s) of
        Some idx \<Rightarrow> run_search s idx query (kanbudb_vec_search_filtered qsort idx query k flt)
      | None \<Rightarrow> Some (s, Inl (rc_code KANBUDB_ERR_INVAL)))"

definition db_vec_search_text_filtered ::
  "qsort_fn \<Rightarrow> bytes list \<Rightarrow> bytes \<Rightarrow> u32 \<Rightarrow> (u64 \<Rightarrow> bool) option \<Rightarrow> vstate \<Rightarrow> (vstate \<times> (int + vec_result list)) option" where
  "db_vec_search_text_filtered qsort dict str k flt s =
     (if k = 0 then Some (s, Inl (rc_code KANBUDB_ERR_INVAL))
      else case (dv_index (snd s), dv_embed (snd s)) of
        (Some idx, Some e) \<Rightarrow>
          (case kanbudb_embed_text dict e str of
             None \<Rightarrow> None
           | Some q \<Rightarrow> run_search s idx q (kanbudb_vec_search_filtered qsort idx q k flt))
      | _ \<Rightarrow> Some (s, Inl (rc_code KANBUDB_ERR_INVAL)))"

definition db_vec_delete :: "vec_env \<Rightarrow> u64 \<Rightarrow> vstate \<Rightarrow> vstate \<times> int" where
  "db_vec_delete env i s =
     (case dv_index (snd s) of
        None \<Rightarrow> (s, rc_code KANBUDB_ERR_INVAL)
      | Some idx \<Rightarrow>
          (case kanbudb_vec_delete env (fst s, idx) i of ((fs', idx'), rc) \<Rightarrow> ((fs', (snd s)\<lparr>dv_index := Some idx'\<rparr>), vec_code rc)))"

definition db_vec_count :: "vstate \<Rightarrow> nat" where
  "db_vec_count s = (case dv_index (snd s) of Some idx \<Rightarrow> kanbudb_vec_count idx | None \<Rightarrow> 0)"

definition db_vec_flush :: "vec_env \<Rightarrow> vstate \<Rightarrow> vstate \<times> int" where
  "db_vec_flush env s =
     (case dv_index (snd s) of
        None \<Rightarrow> (s, rc_code KANBUDB_ERR_INVAL)
      | Some idx \<Rightarrow>
          (case kanbudb_vec_flush env (fst s, idx) of ((fs', idx'), rc) \<Rightarrow> ((fs', (snd s)\<lparr>dv_index := Some idx'\<rparr>), vec_code rc)))"

definition db_vec_set_embed :: "embed \<Rightarrow> vstate \<Rightarrow> vstate \<times> int" where
  "db_vec_set_embed e s = ((fst s, (snd s)\<lparr>dv_embed := Some e, dv_last_error := 0\<rparr>), rc_code KANBUDB_OK)"

section \<open>Quantized vectors\<close>

definition db_vec_quant_create :: "quant_params \<Rightarrow> vstate \<Rightarrow> vstate \<times> int" where
  "db_vec_quant_create ps s =
     (case s of (fs, db) \<Rightarrow>
       (let qps = (case dv_index db of
                     Some idx \<Rightarrow> if qp_dimension ps = 0 then ps\<lparr>qp_dimension := word_of_int (kanbudb_vec_dimension idx)\<rparr> else ps
                   | None \<Rightarrow> ps)
        in case kanbudb_quant_create qps of
             None \<Rightarrow> ((fs, db\<lparr>dv_quantizer := None\<rparr>), rc_code KANBUDB_ERR_OOM)
           | Some q \<Rightarrow>
               ((fs, db\<lparr>dv_quantizer := Some q, quant_vectors := [], quant_ids := [], quant_capacity := 4096, dv_last_error := 0\<rparr>),
                rc_code KANBUDB_OK)))"

definition db_vec_quant_destroy :: "vstate \<Rightarrow> vstate" where
  "db_vec_quant_destroy s = (fst s, (snd s)\<lparr>dv_quantizer := None, quant_vectors := [], quant_ids := [], quant_capacity := 0\<rparr>)"

definition db_vec_quant_train :: "vec list \<Rightarrow> vstate \<Rightarrow> (vstate \<times> int) option" where
  "db_vec_quant_train rows s =
     (if rows = [] then Some (s, rc_code KANBUDB_ERR_INVAL)
      else case dv_quantizer (snd s) of
        None \<Rightarrow> Some (s, rc_code KANBUDB_ERR_INVAL)
      | Some q \<Rightarrow>
          map_option (\<lambda>(q', rc). ((fst s, (snd s)\<lparr>dv_quantizer := Some q'\<rparr>), if rc = 0 then rc_code KANBUDB_OK else rc_code KANBUDB_ERR_IO))
            (kanbudb_quant_train q rows))"

text \<open>The vector also goes into the index, if there is one; the result of that is ignored.\<close>

definition db_vec_quant_insert :: "vec_env \<Rightarrow> u64 \<Rightarrow> vec \<Rightarrow> vstate \<Rightarrow> (vstate \<times> int) option" where
  "db_vec_quant_insert env i v s =
     (case s of (fs, db) \<Rightarrow>
       (case dv_quantizer db of
          None \<Rightarrow> Some (s, rc_code KANBUDB_ERR_INVAL)
        | Some q \<Rightarrow>
            (let cap = (if quant_capacity db \<le> length (quant_ids db) then quant_capacity db * 2 else quant_capacity db);
                 db1 = db\<lparr>quant_vectors := quant_vectors db @ [take (qdim q) v], quant_ids := quant_ids db @ [i], quant_capacity := cap\<rparr>
             in if length v < qdim q then None
                else case dv_index db of
                  None \<Rightarrow> Some ((fs, db1), rc_code KANBUDB_OK)
                | Some idx \<Rightarrow> map_option (\<lambda>r. (fst r, rc_code KANBUDB_OK)) (vec_insert env (fs, db1) idx i v))))"

text \<open>
  A code that the encoder did not write is whatever \<^verbatim>\<open>malloc\<close> returned. It is read only for a quantizer of no known type, whose distances
  do not depend on it.
\<close>

definition written_code :: "bytes option \<Rightarrow> bytes" where
  "written_code oc = (case oc of Some c \<Rightarrow> c | None \<Rightarrow> [])"

definition quant_distance_to :: "cpu \<Rightarrow> quantizer \<Rightarrow> bytes \<Rightarrow> u64 \<times> vec \<Rightarrow> vec_result option" where
  "quant_distance_to c q qcode e =
     (case kanbudb_quant_encode q (snd e) of
        None \<Rightarrow> None
      | Some vcode \<Rightarrow>
          map_option (\<lambda>d. \<lparr>r_id = fst e, r_distance = d\<rparr>) (kanbudb_quant_distance c q qcode (written_code vcode)))"

definition nearer :: "vec_result \<Rightarrow> vec_result \<Rightarrow> bool" where
  "nearer a b \<longleftrightarrow> f_less (r_distance a) (r_distance b)"

definition db_vec_quant_search :: "cpu \<Rightarrow> vec \<Rightarrow> u32 \<Rightarrow> vstate \<Rightarrow> (int + vec_result list) option" where
  "db_vec_quant_search c query k s =
     (if k = 0 then Some (Inl (rc_code KANBUDB_ERR_INVAL))
      else case dv_quantizer (snd s) of
        None \<Rightarrow> Some (Inl (rc_code KANBUDB_ERR_INVAL))
      | Some q \<Rightarrow>
          (case kanbudb_quant_encode q query of
             None \<Rightarrow> None
           | Some qcode \<Rightarrow>
               (let es = zip (quant_ids (snd s)) (quant_vectors (snd s)); k' = min (unat k) (length es)
                in map_option (\<lambda>tmp. Inr (take k' (select_sort nearer k' tmp)))
                     (those (map (quant_distance_to c q (written_code qcode)) es)))))"

definition db_vec_quant_decode :: "u64 \<Rightarrow> vec \<Rightarrow> vstate \<Rightarrow> (int \<times> vec) option" where
  "db_vec_quant_decode i out s =
     (case dv_quantizer (snd s) of
        None \<Rightarrow> Some (rc_code KANBUDB_ERR_INVAL, out)
      | Some q \<Rightarrow>
          (case find_idx (\<lambda>j. j = i) (quant_ids (snd s)) of
             None \<Rightarrow> Some (rc_code KANBUDB_ERR_NOTFOUND, out)
           | Some j \<Rightarrow>
               (case kanbudb_quant_encode q (quant_vectors (snd s) ! j) of
                  None \<Rightarrow> None
                | Some code \<Rightarrow>
                    map_option (\<lambda>r. (rc_code KANBUDB_OK, case r of Some v \<Rightarrow> v | None \<Rightarrow> out))
                      (kanbudb_quant_decode q (written_code code) out))))"

end
