(* ===== verification/Hybrid.thy ===== *)
theory Hybrid
  imports Db_Vector Fts
begin

text \<open>
  Ranking: the BM25 formula (\<^verbatim>\<open>src/src/fts/ranker.c\<close>), the fusion of vector and full-text results (\<^verbatim>\<open>src/src/hybrid/hybrid.c\<close>) and the
  hybrid search of the database (\<^verbatim>\<open>db_hybrid_search\<close> in \<^verbatim>\<open>src/src/core/db.c\<close>), which has a fusion of its own, in IEEE double precision.
  \<^verbatim>\<open>log\<close> is the function of the mathematical library, whose rounding C leaves open; it is an argument. \<^verbatim>\<open>qsort\<close> is an argument with
  the law of \<open>qsort_spec\<close>. Memory is available.
\<close>

section \<open>Doubles\<close>

type_synonym f64 = u64

definition d_add :: "f64 \<Rightarrow> f64 \<Rightarrow> f64" where "d_add x y = word_of_int (fp_add F64 (uint x) (uint y))"
definition d_sub :: "f64 \<Rightarrow> f64 \<Rightarrow> f64" where "d_sub x y = word_of_int (fp_sub F64 (uint x) (uint y))"
definition d_mul :: "f64 \<Rightarrow> f64 \<Rightarrow> f64" where "d_mul x y = word_of_int (fp_mul F64 (uint x) (uint y))"
definition d_div :: "f64 \<Rightarrow> f64 \<Rightarrow> f64" where "d_div x y = word_of_int (fp_div F64 (uint x) (uint y))"
definition d_of_int :: "int \<Rightarrow> f64" where "d_of_int n = word_of_int (fp_of_int F64 n)"
definition d_of_float :: "f32 \<Rightarrow> f64" where "d_of_float x = word_of_int (fp_convert F32 F64 (uint x))"
definition d_nan :: "f64 \<Rightarrow> bool" where "d_nan x \<longleftrightarrow> fp_is_nan F64 (uint x)"
definition d_less :: "f64 \<Rightarrow> f64 \<Rightarrow> bool" where "d_less x y \<longleftrightarrow> \<not> d_nan x \<and> \<not> d_nan y \<and> fp_key F64 (uint x) < fp_key F64 (uint y)"
definition d_le :: "f64 \<Rightarrow> f64 \<Rightarrow> bool" where "d_le x y \<longleftrightarrow> \<not> d_nan x \<and> \<not> d_nan y \<and> fp_key F64 (uint x) \<le> fp_key F64 (uint y)"

definition d_zero :: f64 where "d_zero = 0"
definition d_half :: f64 where "d_half = 0x3FE0000000000000"
definition d_3_4 :: f64 where "d_3_4 = 0x3FE8000000000000"
definition d_one :: f64 where "d_one = 0x3FF0000000000000"
definition d_1_2 :: f64 where "d_1_2 = 0x3FF3333333333333"
definition d_ten :: f64 where "d_ten = 0x4024000000000000"
definition d_sixty :: f64 where "d_sixty = 0x404E000000000000"

section \<open>BM25\<close>

definition bm25_score :: "(f64 \<Rightarrow> f64) \<Rightarrow> f64 \<Rightarrow> f64 \<Rightarrow> f64 \<Rightarrow> f64 \<Rightarrow> f64 \<Rightarrow> f64 \<Rightarrow> f64 \<Rightarrow> f64" where
  "bm25_score log term_freq doc_len avg_dl num_docs doc_freq k1 b =
     (if d_le doc_freq d_zero \<or> d_le num_docs d_zero then d_zero
      else
        (let idf = log (d_add d_one (d_div (d_add (d_sub num_docs doc_freq) d_half) (d_add doc_freq d_half)));
             tf = d_div (d_mul term_freq (d_add k1 d_one))
                    (d_add term_freq (d_mul k1 (d_add (d_sub d_one b) (d_div (d_mul b doc_len) avg_dl))))
         in d_mul idf tf))"

section \<open>Fusion\<close>

definition KANBUDB_HYBRID_RRF :: u32 where "KANBUDB_HYBRID_RRF = 0"

record hybrid_params =
  hp_mode :: u32
  vec_weight :: f64
  fts_weight :: f64
  hp_k :: u32

record hybrid_result =
  hr_id :: u64
  hr_score :: f64
  hr_vec_distance :: f64
  hr_fts_score :: f64

record hybrid_accum =
  ha_id :: u64
  ha_vec_distance :: f64
  ha_fts_score :: f64
  ha_combined :: f64
  has_vec :: bool
  has_fts :: bool
  vec_rank :: int
  fts_rank :: int

text \<open>The search for an id in the list so far; the entry is changed in its place, or appended.\<close>

definition upsert :: "('a \<Rightarrow> u64) \<Rightarrow> u64 \<Rightarrow> ('a \<Rightarrow> 'a) \<Rightarrow> 'a \<Rightarrow> 'a list \<Rightarrow> 'a list" where
  "upsert key i upd new xs = (case find_idx (\<lambda>x. key x = i) xs of Some j \<Rightarrow> xs[j := upd (xs ! j)] | None \<Rightarrow> xs @ [new])"

definition blank_accum :: "u64 \<Rightarrow> hybrid_accum" where
  "blank_accum i = \<lparr>ha_id = i, ha_vec_distance = d_zero, ha_fts_score = d_zero, ha_combined = d_zero, has_vec = False, has_fts = False,
     vec_rank = 0, fts_rank = 0\<rparr>"

definition set_vec :: "nat \<Rightarrow> vec_result \<Rightarrow> hybrid_accum \<Rightarrow> hybrid_accum" where
  "set_vec n r a = a\<lparr>ha_vec_distance := d_of_float (r_distance r), vec_rank := int n + 1, has_vec := True\<rparr>"

definition set_fts :: "nat \<Rightarrow> f64 \<Rightarrow> hybrid_accum \<Rightarrow> hybrid_accum" where
  "set_fts n score a = a\<lparr>ha_fts_score := score, fts_rank := int n + 1, has_fts := True\<rparr>"

definition accum_vec :: "nat \<times> vec_result \<Rightarrow> hybrid_accum list \<Rightarrow> hybrid_accum list" where
  "accum_vec e = upsert ha_id (r_id (snd e)) (set_vec (fst e) (snd e)) (set_vec (fst e) (snd e) (blank_accum (r_id (snd e))))"

definition accum_fts :: "nat \<times> u64 \<times> f64 \<Rightarrow> hybrid_accum list \<Rightarrow> hybrid_accum list" where
  "accum_fts e = upsert ha_id (fst (snd e)) (set_fts (fst e) (snd (snd e))) (set_fts (fst e) (snd (snd e)) (blank_accum (fst (snd e))))"

definition rank_score :: "f64 \<Rightarrow> int \<Rightarrow> f64" where
  "rank_score w rank = d_mul w (d_div d_one (d_add d_sixty (d_of_int rank)))"

definition combine :: "hybrid_params \<Rightarrow> hybrid_accum \<Rightarrow> hybrid_accum" where
  "combine ps a =
     (let s0 = d_zero;
          s1 = (if has_vec a
                then d_add s0 (if hp_mode ps = KANBUDB_HYBRID_RRF then rank_score (vec_weight ps) (vec_rank a)
                               else d_mul (vec_weight ps) (d_sub d_one (if d_less d_one (ha_vec_distance a) then d_one else ha_vec_distance a)))
                else s0);
          s2 = (if has_fts a
                then d_add s1 (if hp_mode ps = KANBUDB_HYBRID_RRF then rank_score (fts_weight ps) (fts_rank a)
                               else d_mul (fts_weight ps) (ha_fts_score a))
                else s1)
      in a\<lparr>ha_combined := s2\<rparr>)"

definition cmp_accum_by_score :: "hybrid_accum \<Rightarrow> hybrid_accum \<Rightarrow> int" where
  "cmp_accum_by_score a b =
     (let sa = ha_combined b; sb = ha_combined a in (if d_less sb sa then 1 else 0) - (if d_less sa sb then 1 else 0))"

definition result_of_accum :: "hybrid_accum \<Rightarrow> hybrid_result" where
  "result_of_accum a = \<lparr>hr_id = ha_id a, hr_score = ha_combined a, hr_vec_distance = ha_vec_distance a, hr_fts_score = ha_fts_score a\<rparr>"

type_synonym accum_sort = "(hybrid_accum \<Rightarrow> hybrid_accum \<Rightarrow> int) \<Rightarrow> hybrid_accum list \<Rightarrow> hybrid_accum list"

definition kanbudb_hybrid_search ::
  "accum_sort \<Rightarrow> vec_result list \<Rightarrow> (u64 \<times> f64) list \<Rightarrow> hybrid_params \<Rightarrow> int \<Rightarrow> hybrid_result list" where
  "kanbudb_hybrid_search qsort vec_results fts ps max_results =
     (if max_results \<le> 0 \<or> vec_results = [] \<and> fts = [] then []
      else
        (let acc1 = fold accum_vec (enumerate 0 vec_results) [];
             acc2 = fold accum_fts (enumerate 0 fts) acc1;
             acc3 = qsort cmp_accum_by_score (map (combine ps) acc2)
         in map result_of_accum (take (nat max_results) acc3)))"

section \<open>Hybrid search of the database\<close>

definition merge_vec :: "hybrid_params \<Rightarrow> nat \<times> vec_result \<Rightarrow> hybrid_result" where
  "merge_vec ps e = \<lparr>hr_id = r_id (snd e), hr_score = rank_score (vec_weight ps) (int (fst e) + 1),
     hr_vec_distance = d_of_float (r_distance (snd e)), hr_fts_score = d_zero\<rparr>"

definition merge_fts :: "hybrid_params \<Rightarrow> nat \<times> u64 \<times> f64 \<Rightarrow> hybrid_result list \<Rightarrow> hybrid_result list" where
  "merge_fts ps e =
     (let score = rank_score (fts_weight ps) (int (fst e) + 1)
      in upsert hr_id (fst (snd e)) (\<lambda>r. r\<lparr>hr_fts_score := snd (snd e), hr_score := d_add (hr_score r) score\<rparr>)
           \<lparr>hr_id = fst (snd e), hr_score = score, hr_vec_distance = d_zero, hr_fts_score = snd (snd e)\<rparr>)"

definition better :: "hybrid_result \<Rightarrow> hybrid_result \<Rightarrow> bool" where
  "better a b \<longleftrightarrow> d_less (hr_score b) (hr_score a)"

definition fuse :: "hybrid_params \<Rightarrow> vec_result list \<Rightarrow> (u64 \<times> f64) list \<Rightarrow> int \<Rightarrow> hybrid_result list" where
  "fuse ps vec_results fts max_results =
     (let merged = fold (merge_fts ps) (enumerate 0 fts) (map (merge_vec ps) (enumerate 0 vec_results))
      in take (nat max_results) (select_sort better (length merged - 1) merged))"

text \<open>All documents get the same score, from the number of documents; the buffers hold 1024 of them.\<close>

definition fts_hits :: "(f64 \<Rightarrow> f64) \<Rightarrow> (bytes \<Rightarrow> f64) \<Rightarrow> kanbudb_fts_index \<Rightarrow> bytes \<Rightarrow> (u64 \<times> f64) list" where
  "fts_hits log atof idx query =
     map (\<lambda>doc. (doc, bm25_score log d_one d_ten d_ten (d_of_int (total_docs idx)) d_one d_1_2 d_3_4))
       (foldl add_results [] (map (node_results idx) (fts_query_parse atof d_one query 64)))"

definition db_hybrid_search ::
  "(f64 \<Rightarrow> f64) \<Rightarrow> (bytes \<Rightarrow> f64) \<Rightarrow> qsort_fn \<Rightarrow> kanbudb_fts_index option \<Rightarrow> bytes \<Rightarrow> vec \<Rightarrow> hybrid_params \<Rightarrow> int \<Rightarrow>
     vstate \<Rightarrow> (vstate \<times> (int + hybrid_result list)) option" where
  "db_hybrid_search log atof qsort fts_index fts_query vec_query ps max_results s =
     (if max_results \<le> 0 then Some (s, Inl (rc_code KANBUDB_ERR_INVAL))
      else case (dv_index (snd s), fts_index) of
        (Some idx, Some fidx) \<Rightarrow>
          (let vec_k = (if hp_k ps > 0 then hp_k ps else 10)
           in map_option (\<lambda>(s', r). (s', Inr (fuse ps (case r of Inl e \<Rightarrow> [] | Inr vs \<Rightarrow> vs) (fts_hits log atof fidx fts_query) max_results)))
                (run_search s idx vec_query (kanbudb_vec_search qsort idx vec_query vec_k)))
      | _ \<Rightarrow> Some (s, Inl (rc_code KANBUDB_ERR_INVAL)))"

end
