(* ===== verification/Db_Vector_Correct.thy ===== *)
theory Db_Vector_Correct
  imports Db_Vector
begin

text \<open>
  Proofs about the vector side of the database object: a search over texts finds what was inserted under the distance of the
  embedded texts, an index made by the database is never written to disk, and the search over quantized vectors returns the nearest codes.
\<close>

section \<open>Search with the Euclidean kernel\<close>

lemma l2_dists_ok:
  assumes "vec_inv idx" and "algo_data idx = None" and "v_dist_func idx = (\<lambda>a b. vec_l2_distance a b (dimension idx))"
    and "\<forall>v\<in>ran (kanbudb_vec_get idx). finite_vec v" and "finite_vec query"
  shows "dists_ok idx query"
proof
  fix c assume "c \<in> set (flat_cands idx query)"
  then obtain i v where v: "kanbudb_vec_get idx i = Some v" "fst c = vec_l2_distance query v (dimension idx)"
    using flat_cands_get [OF assms(1,2), of query] assms(3) by auto
  from ranI [of "kanbudb_vec_get idx", OF v(1)] v(2)
  have "f_pos (fst c)" using l2_distance_pos(1) [OF assms(5)] assms(4) by simp
  then show "nonneg c" using f_pos_nonneg by (simp add: nonneg_def)
qed

lemma flat_l2_results:
  assumes "vec_run s m" and "algo_data (snd s) = None" and "v_dist_func (snd s) = (\<lambda>a b. vec_l2_distance a b (dimension (snd s)))"
    and "flat_count (snd s) < 2 ^ 31" and "\<forall>v\<in>ran m. finite_vec v" and "finite_vec query" and "k \<noteq> 0" and "qsort_spec qsort"
  shows "\<exists>rs. kanbudb_vec_search qsort (snd s) query k = Some (snd s, Inr rs) \<and>
    length rs = min (unat k) (card (dom m)) \<and> distinct (map r_id rs) \<and> ascending rs \<and>
    (\<forall>r\<in>set rs. \<exists>v. m (r_id r) = Some v \<and> r_distance r = vec_l2_distance query v (dimension (snd s))) \<and>
    (\<forall>v\<in>ran m. f_le (r_distance (hd rs)) (vec_l2_distance query v (dimension (snd s))))"
proof -
  let ?idx = "snd s" and ?cs = "flat_cands (snd s) query"
  have inv: "vec_inv ?idx" and get: "kanbudb_vec_get ?idx = m" using vec_run_map [OF assms(1)] by simp_all
  have "dists_ok ?idx query" using l2_dists_ok [OF inv assms(2,3) _ assms(6)] assms(5) get by simp
  from vec_search_nearest_first [OF assms(2,4,7,8) this]
  obtain rs where rs: "kanbudb_vec_search qsort ?idx query k = Some (?idx, Inr rs)" "length rs = min (unat k) (length ?cs)"
    "mset rs \<subseteq># mset (map result_of_cand ?cs)" "ascending rs" "\<forall>c\<in>set ?cs. f_le (r_distance (hd rs)) (fst c)" by blast
  have cs: "set ?cs = {(vec_l2_distance query v (dimension ?idx), i) |i v. m i = Some v}"
    using flat_cands_get [OF inv assms(2), of query] get assms(3) by simp
  have "mset (map r_id rs) \<subseteq># mset (map r_id (map result_of_cand ?cs))"
    using image_mset_subseteq_mono [OF rs(3), of r_id] unfolding mset_map .
  also have "map r_id (map result_of_cand ?cs) = map snd ?cs" by (simp add: result_of_cand_def)
  finally have "distinct (map r_id rs)" using distinct_submset flat_cands_ids [OF inv] by blast
  moreover have "\<exists>v. m (r_id r) = Some v \<and> r_distance r = vec_l2_distance query v (dimension ?idx)" if "r \<in> set rs" for r
    using set_mset_mono [OF rs(3)] that cs by (auto simp: result_of_cand_def)
  moreover have "f_le (r_distance (hd rs)) (vec_l2_distance query v (dimension ?idx))" if "v \<in> ran m" for v
    using rs(5) that cs by (auto simp: ran_def)
  ultimately show ?thesis using rs(1,2,4) flat_cands_card [OF inv assms(2), of query] get by auto
qed

section \<open>Texts\<close>

text \<open>The indexes that \<^verbatim>\<open>db_vec_create_index\<close> makes without a graph: in memory only, because the options never ask for persistence.\<close>

definition mem_flat :: "vec_index \<Rightarrow> bool" where
  "mem_flat idx \<longleftrightarrow> algo_data idx = None \<and> v_path idx = None \<and> wal_fp idx = None"

definition same_kind :: "vec_index \<Rightarrow> vec_index \<Rightarrow> bool" where
  "same_kind idx idx' \<longleftrightarrow> mem_flat idx' \<and> v_params idx' = v_params idx \<and> v_dist_func idx' = v_dist_func idx"

lemma mem_insert:
  assumes "mem_flat idx" and "vec_inv idx" and "kanbudb_vec_insert env (fs, idx) i v = Some ((fs', idx'), rc)"
  shows "same_kind idx idx' \<and> rc \<in> {KANBUDB_VEC_OK, KANBUDB_VEC_ERR_OOM}"
proof -
  have m: "algo_data idx = None" "v_path idx = None" "wal_fp idx = None" using assms(1) by (simp_all add: mem_flat_def)
  show ?thesis
  proof (cases "vec_find_idx idx i")
    case (Some j)
    then show ?thesis using assms(3) m
      by (auto simp: kanbudb_vec_insert_def log_insert_def auto_checkpoint_def flat_update_def same_kind_def mem_flat_def)
  next
    case None
    obtain c rc' where g: "(if flat_count idx \<ge> flat_capacity idx then vec_grow idx else Some (idx, KANBUDB_VEC_OK)) = Some (idx\<lparr>flat_capacity := c\<rparr>, rc')"
      "rc' \<in> {KANBUDB_VEC_OK, KANBUDB_VEC_ERR_OOM}" using grow_cases [of idx] assms(2) by (auto simp: vec_inv_def)
    define idx1 where "idx1 = idx\<lparr>flat_capacity := c\<rparr>"
    have "kanbudb_vec_insert env (fs, idx) i v = (if rc' \<noteq> KANBUDB_VEC_OK then Some ((fs, idx1), rc')
        else Some (auto_checkpoint env (log_insert env i v (fs, (flat_append idx1 i v)\<lparr>v_dirty := True\<rparr>))))"
      unfolding kanbudb_vec_insert_def prod.case m(1) option.case None g(1) by (simp add: idx1_def)
    then show ?thesis using assms(3) m g(2)
      by (auto simp: log_insert_def auto_checkpoint_def flat_append_def same_kind_def mem_flat_def idx1_def split: if_splits)
  qed
qed

lemma mem_delete:
  assumes "mem_flat idx" and "kanbudb_vec_delete env (fs, idx) i = ((fs', idx'), rc)"
  shows "same_kind idx idx'"
  using assms by (auto simp: kanbudb_vec_delete_def flat_mark_deleted_def same_kind_def mem_flat_def split: option.splits)

text \<open>The runs of a database with a flat text index, and the texts that are in it.\<close>

inductive text_run :: "bytes list \<Rightarrow> vstate \<Rightarrow> (u64 \<rightharpoonup> bytes) \<Rightarrow> bool" for dict :: "bytes list" where
  create: "db_vec_create_index env False opts s = (s', 0) \<Longrightarrow> \<not> vo_enable_hnsw opts \<Longrightarrow>
     256 * unat (vo_dimension opts) * unat (vo_dimension opts) < 2 ^ 32 \<Longrightarrow> text_run dict s' Map.empty"
| insert: "text_run dict s m \<Longrightarrow> db_vec_insert_text env dict i str s = Some (s', 0) \<Longrightarrow> text_run dict s' (m(i \<mapsto> str))"
| full: "text_run dict s m \<Longrightarrow> db_vec_insert_text env dict i str s = Some (s', rc) \<Longrightarrow> rc \<noteq> 0 \<Longrightarrow> text_run dict s' m"
| delete: "text_run dict s m \<Longrightarrow> db_vec_delete env i s = (s', rc) \<Longrightarrow> text_run dict s' (m(i := None))"
| search: "text_run dict s m \<Longrightarrow> db_vec_search_text qsort dict str k s = Some (s', r) \<Longrightarrow> text_run dict s' m"
| flush: "text_run dict s m \<Longrightarrow> db_vec_flush env s = (s', rc) \<Longrightarrow> text_run dict s' m"

definition embedded :: "bytes list \<Rightarrow> embed \<Rightarrow> bytes \<Rightarrow> vec" where
  "embedded dict e str = the (kanbudb_embed_text dict e str)"

lemma embedded_ok:
  assumes "embed_ok e"
  shows "kanbudb_embed_text dict e str = Some (embedded dict e str)" "length (embedded dict e str) = unat (e_dimensions e)" "finite_vec (embedded dict e str)"
  using embed_text_ok [OF assms, of dict str] by (auto simp: embedded_def)

definition text_index :: "bytes list \<Rightarrow> vstate \<Rightarrow> (u64 \<rightharpoonup> bytes) \<Rightarrow> vec_index \<Rightarrow> embed \<Rightarrow> bool" where
  "text_index dict s m idx e \<longleftrightarrow> dv_index (snd s) = Some idx \<and> dv_embed (snd s) = Some e \<and> embed_ok e \<and> mem_flat idx \<and>
     dimension idx = unat (e_dimensions e) \<and> v_dist_func idx = (\<lambda>a b. vec_l2_distance a b (dimension idx)) \<and>
     vec_run (fst s, idx) (\<lambda>i. map_option (embedded dict e) (m i))"

lemma same_kind_fields: "same_kind idx idx' \<Longrightarrow> mem_flat idx' \<and> dimension idx' = dimension idx \<and> v_dist_func idx' = v_dist_func idx"
  by (simp add: same_kind_def dimension_def)

lemma text_insert:
  assumes "text_index dict s m idx e" and "db_vec_insert_text env dict i str s = Some (s', rc)"
  shows "\<exists>idx'. text_index dict s' (if rc = 0 then m(i \<mapsto> str) else m) idx' e"
proof -
  note t = assms(1) [unfolded text_index_def]
  have inv: "vec_inv idx" using vec_run_map t by fastforce
  let ?v = "embedded dict e str"
  have v: "kanbudb_embed_text dict e str = Some ?v" "length ?v = dimension idx" using embedded_ok [of e dict str] t by simp_all
  then obtain fs' idx' rc' where k: "kanbudb_vec_insert env (fst s, idx) i ?v = Some ((fs', idx'), rc')"
    "s' = (fs', (snd s)\<lparr>dv_index := Some idx'\<rparr>)" "rc = vec_code rc'"
    using assms(2) t by (auto simp: db_vec_insert_text_def vec_insert_def)
  have same: "same_kind idx idx'" "rc' \<in> {KANBUDB_VEC_OK, KANBUDB_VEC_ERR_OOM}" using mem_insert [OF _ inv k(1)] t by auto
  have "vec_run (fs', idx') (\<lambda>j. map_option (embedded dict e) ((if rc = 0 then m(i \<mapsto> str) else m) j))"
  proof (cases "rc' = KANBUDB_VEC_OK")
    case True
    have "vec_run (fs', idx') ((\<lambda>j. map_option (embedded dict e) (m j))(i \<mapsto> take (dimension (snd (fst s, idx))) ?v))"
      by (rule vec_run.insert [OF _ k(1)]) (use t True in simp_all)
    moreover have "(\<lambda>j. map_option (embedded dict e) (m j))(i \<mapsto> take (dimension idx) ?v) = (\<lambda>j. map_option (embedded dict e) ((m(i \<mapsto> str)) j))"
      using v(2) by (auto simp: fun_eq_iff)
    ultimately show ?thesis using True k(3) by (simp add: vec_code_def)
  next
    case False
    then have "rc' = KANBUDB_VEC_ERR_OOM" using same(2) by simp
    then show ?thesis using vec_run.full [of "(fst s, idx)" _ env i ?v "(fs', idx')"] t k by (simp add: vec_code_def)
  qed
  then show ?thesis using t k(2) same_kind_fields [OF same(1)] by (intro exI [of _ idx']) (simp add: text_index_def)
qed

lemma text_delete:
  assumes "text_index dict s m idx e" and "db_vec_delete env i s = (s', rc)"
  shows "\<exists>idx'. text_index dict s' (m(i := None)) idx' e"
proof -
  note t = assms(1) [unfolded text_index_def]
  obtain fs' idx' rc' where k: "kanbudb_vec_delete env (fst s, idx) i = ((fs', idx'), rc')" "s' = (fs', (snd s)\<lparr>dv_index := Some idx'\<rparr>)"
    using assms(2) t by (auto simp: db_vec_delete_def split: prod.splits)
  have "vec_run (fs', idx') ((\<lambda>j. map_option (embedded dict e) (m j))(i := None))" by (rule vec_run.delete [OF _ k(1)]) (use t in simp)
  moreover have "(\<lambda>j. map_option (embedded dict e) (m j))(i := None) = (\<lambda>j. map_option (embedded dict e) ((m(i := None)) j))" by (auto simp: fun_eq_iff)
  ultimately show ?thesis using t k(2) same_kind_fields [OF mem_delete [OF _ k(1)]]
    by (intro exI [of _ idx']) (simp add: text_index_def)
qed

lemma text_create:
  assumes "db_vec_create_index env False opts s = (s', 0)" and "\<not> vo_enable_hnsw opts"
    and "256 * unat (vo_dimension opts) * unat (vo_dimension opts) < 2 ^ 32"
  shows "\<exists>idx e. text_index dict s' Map.empty idx e"
proof -
  have d: "vo_dimension opts \<noteq> 0" using assms(1) by (auto simp: db_vec_create_index_def rc_code_def split: if_splits)
  obtain fs db where cl: "close_index env s = (fs, db)" by fastforce
  let ?ks = "dist_table False (unat (vo_dimension opts))"
  define ng where "ng = (if vo_ngram_size opts \<noteq> 0 then vo_ngram_size opts else 3)"
  obtain e where e: "kanbudb_embed_create (vo_dimension opts) ng = Some e" using d by (simp add: kanbudb_embed_create_def Let_def)
  define idx where "idx = empty_index (index_params opts) (\<lambda>a b. vec_l2_distance a b (unat (vo_dimension opts))) None"
  have "kanbudb_vec_create env ?ks fs (Some (vec_db_path db)) (index_params opts) = (fs, Inr idx)"
    using d assms(2) by (simp add: kanbudb_vec_create_def vec_alloc_def Let_def index_params_def KANBUDB_VEC_PARAMS_DEFAULT_def vec_consts
        vec_get_dist_func_def dist_table_def idx_def empty_index_def)
  note c = this
  have "vec_run (fs, idx) Map.empty" by (rule vec_run.create [OF c]) (use assms(2) in \<open>simp add: index_params_def KANBUDB_VEC_PARAMS_DEFAULT_def vec_consts\<close>)
  moreover have "s' = (fs, db\<lparr>dv_index := Some idx, dv_embed := Some e, dv_last_error := 0\<rparr>)"
    using assms(1) d cl c e by (simp add: db_vec_create_index_def ng_def)
  moreover have "mem_flat idx" "dimension idx = unat (vo_dimension opts)"
    using assms(2) by (simp_all add: idx_def empty_index_def mem_flat_def dimension_def index_params_def KANBUDB_VEC_PARAMS_DEFAULT_def)
  moreover have "v_dist_func idx = (\<lambda>a b. vec_l2_distance a b (dimension idx))" using calculation(4) by (simp add: idx_def empty_index_def)
  ultimately show ?thesis using embed_create_ok [OF e assms(3)] by (intro exI [of _ idx] exI [of _ e]) (simp add: text_index_def)
qed

lemma same_index: "dv_index (snd s) = Some idx \<Longrightarrow> (fst s, (snd s)\<lparr>dv_index := Some idx\<rparr>) = s"
  by (cases s; cases "snd s") simp

lemma text_search_same:
  assumes "text_index dict s m idx e" and "db_vec_search_text qsort dict str k s = Some (s', r)"
  shows "s' = s"
proof -
  note t = assms(1) [unfolded text_index_def]
  show ?thesis using assms(2) t same_index [of s idx]
    by (auto simp: db_vec_search_text_def run_search_def kanbudb_vec_search_def mem_flat_def split: if_splits option.splits)
qed

lemma text_flush_same:
  assumes "text_index dict s m idx e" and "db_vec_flush env s = (s', rc)"
  shows "s' = s \<and> rc = vec_code KANBUDB_VEC_ERR_INVAL"
proof -
  note t = assms(1) [unfolded text_index_def]
  show ?thesis using assms(2) t same_index [of s idx] by (auto simp: db_vec_flush_def kanbudb_vec_flush_def mem_flat_def)
qed

lemma text_run_index:
  assumes "text_run dict s m"
  shows "\<exists>idx e. text_index dict s m idx e"
  using assms
proof (induction rule: text_run.induct)
  case (create env opts s s')
  then show ?case using text_create by blast
next
  case (insert s m env i str s')
  then obtain idx e where "text_index dict s m idx e" by blast
  from text_insert [OF this insert.hyps(2)] have "\<exists>idx'. text_index dict s' (m(i \<mapsto> str)) idx' e" by (simp only: simp_thms if_True)
  then show ?case by blast
next
  case (full s m env i str s' rc)
  then obtain idx e where "text_index dict s m idx e" by blast
  from text_insert [OF this full.hyps(2)] show ?case using full.hyps(3) by auto
next
  case (delete s m env i s' rc)
  then show ?case using text_delete by blast
next
  case (search s m qsort str k s' r)
  then show ?case using text_search_same by metis
next
  case (flush s m env s' rc)
  then show ?case using text_flush_same by metis
qed

lemma text_index_search:
  assumes "text_index dict s m idx e" and "qsort_spec qsort" and "k \<noteq> 0" and "db_vec_count s < 2 ^ 31" and q: "finite_vec q"
  shows "\<exists>rs. kanbudb_vec_search qsort idx q k = Some (idx, Inr rs) \<and> length rs = min (unat k) (card (dom m)) \<and> distinct (map r_id rs) \<and>
    ascending rs \<and> (\<forall>r\<in>set rs. \<exists>t. m (r_id r) = Some t \<and> r_distance r = vec_l2_distance q (embedded dict e t) (unat (e_dimensions e))) \<and>
    (\<forall>t\<in>ran m. f_le (r_distance (hd rs)) (vec_l2_distance q (embedded dict e t) (unat (e_dimensions e))))"
proof -
  note t = assms(1) [unfolded text_index_def]
  have flat: "algo_data idx = None" using t by (simp add: mem_flat_def)
  have e: "embed_ok e" using t by blast
  let ?vm = "\<lambda>i. map_option (embedded dict e) (m i)"
  have cnt: "flat_count (snd (fst s, idx)) < 2 ^ 31" using assms(4) t flat by (simp add: db_vec_count_def kanbudb_vec_count_def)
  have fin: "\<forall>v\<in>ran ?vm. finite_vec v" using embedded_ok(3) [OF e] by (auto simp: ran_def)
  have fl: "algo_data (snd (fst s, idx)) = None" "v_dist_func (snd (fst s, idx)) = (\<lambda>a b. vec_l2_distance a b (dimension (snd (fst s, idx))))"
    using t flat by simp_all
  have run: "vec_run (fst s, idx) ?vm" using t by blast
  obtain rs where rs: "kanbudb_vec_search qsort idx q k = Some (idx, Inr rs)" "length rs = min (unat k) (card (dom ?vm))"
    "distinct (map r_id rs)" "ascending rs" "\<forall>r\<in>set rs. \<exists>v. ?vm (r_id r) = Some v \<and> r_distance r = vec_l2_distance q v (dimension idx)"
    "\<forall>v\<in>ran ?vm. f_le (r_distance (hd rs)) (vec_l2_distance q v (dimension idx))"
    using flat_l2_results [OF run fl cnt fin q assms(3,2)] unfolding snd_conv by blast
  have dim: "dimension idx = unat (e_dimensions e)" using t by blast
  have "dom ?vm = dom m" by auto
  moreover have "\<exists>t. m (r_id r) = Some t \<and> r_distance r = vec_l2_distance q (embedded dict e t) (unat (e_dimensions e))" if "r \<in> set rs" for r
    using rs(5) that dim by fastforce
  moreover have "f_le (r_distance (hd rs)) (vec_l2_distance q (embedded dict e t) (unat (e_dimensions e)))" if "t \<in> ran m" for t
  proof -
    have "embedded dict e t \<in> ran ?vm" using that by (auto simp: ran_def)
    then show ?thesis using rs(6) dim by auto
  qed
  ultimately show ?thesis using rs(1-4) by (intro exI [of _ rs]) simp
qed


definition ex_opts :: db_vec_options where
  "ex_opts = \<lparr>vo_dimension = 2, vo_ngram_size = 0, vo_enable_hnsw = False, vo_hnsw_m = 0, vo_hnsw_ef = 0\<rparr>"

definition ex_db :: db_vec where
  "ex_db = \<lparr>dv_path = ''db'', dv_last_error = 0, dv_index = None, dv_embed = None, dv_quantizer = None, quant_vectors = [], quant_ids = [],
     quant_capacity = 0\<rparr>"

lemma ex_text_run: "\<exists>s. text_run [] s [7 \<mapsto> [0x68, 0x69]] \<and> db_vec_count s < 2 ^ 31"
proof -
  define idx where "idx = empty_index (index_params ex_opts) (\<lambda>a b. vec_l2_distance a b 2) None"
  obtain e where e: "kanbudb_embed_create 2 3 = Some e" by (simp add: kanbudb_embed_create_def Let_def)
  let ?s = "([], ex_db\<lparr>dv_index := Some idx, dv_embed := Some e, dv_last_error := 0\<rparr>)"
  have c: "db_vec_create_index ex_env False ex_opts ([], ex_db) = (?s, 0)"
    using e by (simp add: db_vec_create_index_def ex_opts_def ex_db_def close_index_def kanbudb_vec_create_def vec_alloc_def Let_def index_params_def
        KANBUDB_VEC_PARAMS_DEFAULT_def vec_consts empty_index_def idx_def vec_get_dist_func_def dist_table_def)
  have r: "text_run [] ?s Map.empty" by (rule text_run.create [OF c]) (simp_all add: ex_opts_def)
  have ok: "embed_ok e" "unat (e_dimensions e) = 2" using embed_create_ok [OF e] by simp_all
  define v where "v = embedded [] e [0x68, 0x69]"
  have v: "kanbudb_embed_text [] e [0x68, 0x69] = Some v" "length v = 2" using embedded_ok(1,2) [OF ok(1)] ok(2) by (simp_all add: v_def)
  have d: "dimension idx = 2" by (simp add: idx_def empty_index_def dimension_def index_params_def ex_opts_def KANBUDB_VEC_PARAMS_DEFAULT_def)
  let ?idx = "(flat_append (idx\<lparr>flat_capacity := 1024\<rparr>) 7 v)\<lparr>v_dirty := True\<rparr>"
  have g: "vec_grow idx = Some (idx\<lparr>flat_capacity := 1024\<rparr>, KANBUDB_VEC_OK)" using d
    by (simp add: vec_grow_def Let_def) (simp add: idx_def empty_index_def alloc_max_def)
  have f: "algo_data idx = None" "vec_find_idx idx 7 = None" "wal_fp idx = None" "v_path idx = None" "flat_capacity idx \<le> flat_count idx"
    by (simp_all add: idx_def empty_index_def vec_find_idx_def flat_slots_def)
  have "kanbudb_vec_insert ex_env ([], idx) 7 v = Some (([], ?idx), KANBUDB_VEC_OK)"
    using f g by (simp add: kanbudb_vec_insert_def log_insert_def auto_checkpoint_def flat_append_def)
  then have "db_vec_insert_text ex_env [] 7 [0x68, 0x69] ?s = Some (([], ex_db\<lparr>dv_index := Some ?idx, dv_embed := Some e, dv_last_error := 0\<rparr>), 0)"
    using v d by (simp add: db_vec_insert_text_def vec_insert_def vec_code_def ex_db_def)
  from text_run.insert [OF r this] have "text_run [] ([], ex_db\<lparr>dv_index := Some ?idx, dv_embed := Some e, dv_last_error := 0\<rparr>) [7 \<mapsto> [0x68, 0x69]]" .
  moreover have "db_vec_count ([], ex_db\<lparr>dv_index := Some ?idx, dv_embed := Some e, dv_last_error := 0\<rparr>) < 2 ^ 31"
    by (simp add: db_vec_count_def kanbudb_vec_count_def flat_append_def idx_def empty_index_def)
  ultimately show ?thesis by blast
qed


text \<open>
  An index made by \<^verbatim>\<open>db_vec_create_index\<close> cannot be saved: \<^verbatim>\<open>db_vec_flush\<close> changes nothing and returns -5 in every state that a run reaches,
  the code of an invalid argument in the vector library and of an I/O error in the database.
\<close>

theorem db_vec_flush_never:
  assumes "text_run dict s m"
  shows "db_vec_flush env s = (s, rc_code KANBUDB_ERR_IO)"
proof -
  obtain idx e where "text_index dict s m idx e" using text_run_index [OF assms] by blast
  from text_flush_same [OF this] show ?thesis by (cases "db_vec_flush env s") (auto simp: vec_code_def rc_code_def)
qed

theorem db_vec_flush_never_witness: "\<exists>s. text_run [] s [7 \<mapsto> [0x68, 0x69]] \<and> db_vec_flush ex_env s = (s, - 5)"
proof -
  obtain s where s: "text_run [] s [7 \<mapsto> [0x68, 0x69]]" using ex_text_run by blast
  moreover have "db_vec_flush ex_env s = (s, - 5)" using db_vec_flush_never [OF s, of ex_env] by (simp add: rc_code_def)
  ultimately show ?thesis by blast
qed

section \<open>Quantized search\<close>

interpretation near: score_order nearer "\<lambda>r. \<not> f_nan (r_distance r)"
  by unfold_locales (auto simp: nearer_def f_less_def)

lemma f_between_finite:
  assumes "f_finite a" and "f_finite b" and "f_le a x" and "f_le x b"
  shows "f_finite x"
proof -
  have ab: "fp_abs F32 (uint a) < fp_inf F32" "fp_abs F32 (uint b) < fp_inf F32" using assms(1,2) by (simp_all add: f_finite_uint fp_fin_def)
  have n: "0 \<le> fp_abs F32 (uint y)" for y :: f32 by (simp add: fp_abs_nonneg)
  have k: "fp_key F32 (uint a) \<le> fp_key F32 (uint x)" "fp_key F32 (uint x) \<le> fp_key F32 (uint b)" using assms(3,4) by (simp_all add: f_le_def f_key_uint)
  have "fp_abs F32 (uint x) < fp_inf F32" using ab k n [of a] n [of b] n [of x] by (auto simp: fp_key_def split: if_splits)
  then show ?thesis by (simp add: f_finite_uint fp_fin_def)
qed

text \<open>A trained quantizer whose intervals do not overflow decodes every code to a finite vector.\<close>

definition spans_finite :: "nat \<Rightarrow> vec list \<Rightarrow> bool" where
  "spans_finite dim rows \<longleftrightarrow> (\<forall>d<dim. f_finite (f_add (fst (sq_minmax (column d rows))) (sq_span (sq_minmax (column d rows)))))"

lemma sq8_decode_finite:
  assumes "trainable (qdim q) rows" and "spans_finite (qdim q) rows"
  shows "\<exists>v. sq8_decode (sq8_train q rows) code = Some v \<and> finite_vec v"
proof -
  let ?mn = "\<lambda>d. fst (sq_minmax (column d rows))" and ?rg = "\<lambda>d. sq_span (sq_minmax (column d rows))"
  have "f_finite (sq8_decode1 c (?mn d) (?rg d))" if "d < qdim q" for c d
    using f_between_finite [OF _ _ sq8_decode1_bounds [of "?mn d" "?rg d" c]] column_fit [OF assms(1) that] assms(2) that by (simp add: spans_finite_def)
  moreover have "sq8_decode (sq8_train q rows) code = Some (map (\<lambda>d. sq8_decode1 (code ! d) (?mn d) (?rg d)) [0..<qdim q])"
    by (simp add: sq8_decode_def sq8_train_def Let_def)
  ultimately show ?thesis by (auto simp: finite_vec_def)
qed

lemma sq8_distance_number:
  assumes "trainable (qdim q) rows" and "spans_finite (qdim q) rows"
  shows "\<exists>d. sq8_distance (sq8_train q rows) a b = Some d \<and> f_pos d"
proof -
  obtain va vb where v: "sq8_decode (sq8_train q rows) a = Some va" "finite_vec va" "sq8_decode (sq8_train q rows) b = Some vb" "finite_vec vb"
    using sq8_decode_finite [OF assms] by metis
  have "\<forall>p\<in>set (zip va vb). f_finite (fst p) \<and> f_finite (snd p)"
    using v(2,4) unfolding finite_vec_def by (metis prod.collapse set_zip_leftD set_zip_rightD)
  then have "\<forall>p\<in>set (zip va vb). \<forall>s. f_pos s \<longrightarrow> f_pos (l2_step p s)" using l2_step_pos by blast
  then have "f_pos (fold l2_step (zip va vb) f_zero)" by (rule fold_pos) simp
  then show ?thesis using v by (simp add: sq8_distance_def)
qed

text \<open>
  C26. The search over a quantizer that was trained for SQ8 computes the distance of the codes for every stored vector and returns the \<open>k\<close> smallest
  of them, or all if there are fewer, in ascending order: no vector that is left out is nearer than one that is returned.
\<close>

theorem db_quant_search_nearest:
  assumes "dv_quantizer (snd s) = Some (sq8_train q rows)" and "qp_type (qz_params q) = KANBUDB_QUANT_SQ8"
    and "trainable (qdim q) rows" and "spans_finite (qdim q) rows"
    and "length (quant_ids (snd s)) = length (quant_vectors (snd s))" and "\<forall>v\<in>set (query # quant_vectors (snd s)). finite_vec v \<and> length v = qdim q"
    and "k \<noteq> 0"
  shows "\<exists>ds rs. db_vec_quant_search c query k s = Some (Inr rs) \<and> map r_id ds = quant_ids (snd s) \<and>
    (\<forall>j<length ds. \<exists>cq cv. sq8_encode (sq8_train q rows) query = Some cq \<and> sq8_encode (sq8_train q rows) (quant_vectors (snd s) ! j) = Some cv \<and>
       sq8_distance (sq8_train q rows) cq cv = Some (r_distance (ds ! j))) \<and>
    length rs = min (unat k) (length ds) \<and> mset rs \<subseteq># mset ds \<and> ascending rs \<and> (\<forall>a\<in>set rs. \<forall>b\<in>#mset ds - mset rs. \<not> nearer b a)"
proof -
  let ?q = "sq8_train q rows" and ?vs = "quant_vectors (snd s)" and ?ids = "quant_ids (snd s)"
  have qz: "qz_params ?q = qz_params q" "sq_trained ?q" by (simp_all add: sq8_train_def Let_def)
  have enc: "\<exists>code. sq8_encode ?q v = Some code" if "v \<in> set (query # ?vs)" for v
    using sq8_encode_trained [OF assms(3), of v] assms(6) that by blast
  then obtain cq where cq: "sq8_encode ?q query = Some cq" by fastforce
  define code where "code v = the (sq8_encode ?q v)" for v
  define dist where "dist v = the (sq8_distance ?q cq (code v))" for v
  have code: "sq8_encode ?q v = Some (code v)" if "v \<in> set ?vs" for v using enc [of v] that by (auto simp: code_def)
  have dist: "sq8_distance ?q cq (code v) = Some (dist v)" "\<not> f_nan (dist v)" for v
    using sq8_distance_number [OF assms(3,4), of cq "code v"] f_pos_nonneg by (auto simp: dist_def)
  define ds where "ds = map (\<lambda>e. \<lparr>r_id = fst e, r_distance = dist (snd e)\<rparr>) (zip ?ids ?vs)"
  have api: "kanbudb_quant_encode ?q v = map_option Some (sq8_encode ?q v)" "kanbudb_quant_distance c ?q a b = sq8_distance ?q a b" for v a b
    using qz assms(2) by (simp_all add: kanbudb_quant_encode_def kanbudb_quant_distance_def)
  have to: "quant_distance_to c ?q cq e = Some \<lparr>r_id = fst e, r_distance = dist (snd e)\<rparr>" if "e \<in> set (zip ?ids ?vs)" for e
    using code [of "snd e"] dist(1) [of "snd e"] that by (cases e) (auto simp: quant_distance_to_def api written_code_def dest: set_zip_rightD)
  have "those (map (quant_distance_to c ?q cq) (zip ?ids ?vs)) = Some (map (\<lambda>e. the (quant_distance_to c ?q cq e)) (zip ?ids ?vs))"
    using to by (intro those_map_defined) simp
  also have "map (\<lambda>e. the (quant_distance_to c ?q cq e)) (zip ?ids ?vs) = ds" using to unfolding ds_def by (intro map_cong) simp_all
  finally have th: "those (map (quant_distance_to c ?q cq) (zip ?ids ?vs)) = Some ds" .
  let ?k = "min (unat k) (length ds)" and ?srt = "select_sort nearer (min (unat k) (length ds)) ds"
  have len: "length (zip ?ids ?vs) = length ds" by (simp add: ds_def)
  have res: "db_vec_quant_search c query k s = Some (Inr (take ?k ?srt))"
    using assms(1,7) cq th len by (simp add: db_vec_quant_search_def api written_code_def Let_def del: length_zip)
  have ord: "\<forall>r\<in>set ds. \<not> f_nan (r_distance r)" using dist(2) by (auto simp: ds_def)
  note sel = near.select_sort_sorted [OF ord, of ?k]
  have ms: "mset ds = mset (take ?k ?srt) + mset (drop ?k ?srt)" using select_sort_mset [of nearer ?k ds] by (metis append_take_drop_id mset_append)
  have "ascending (take ?k ?srt)" using conjunct1 [OF sel] by (simp add: ascending_def nearer_def)
  moreover have "\<forall>a\<in>set (take ?k ?srt). \<forall>b\<in>#mset ds - mset (take ?k ?srt). \<not> nearer b a" using conjunct2 [OF sel] unfolding ms by simp
  moreover have "map r_id ds = ?ids" using assms(5) by (simp add: ds_def comp_def)
  moreover have "\<exists>cq' cv. sq8_encode ?q query = Some cq' \<and> sq8_encode ?q (?vs ! j) = Some cv \<and> sq8_distance ?q cq' cv = Some (r_distance (ds ! j))"
    if "j < length ds" for j using that cq code [of "?vs ! j"] dist(1) [of "?vs ! j"] by (auto simp: ds_def)
  ultimately show ?thesis using res ms by (intro exI [of _ ds] exI [of _ "take ?k ?srt"]) auto
qed

theorem db_quant_search_nearest_witness:
  "\<exists>rs. db_vec_quant_search \<lparr>use_avx512 = False, use_avx2 = False\<rparr> [f_one] 1
      ([], ex_db\<lparr>dv_quantizer := Some (sq8_train \<lparr>qz_params = \<lparr>qp_type = 1, qp_dimension = 1, qp_subspaces = 0\<rparr>, sq_min = None, sq_range = None,
         sq_trained = False, pq_codebooks = None, pq_sub_dim = 0, pq_trained = False\<rparr> [[f_zero], [f_one]]),
        quant_vectors := [[f_zero], [f_one]], quant_ids := [4, 5]\<rparr>) = Some (Inr rs) \<and> length rs = 1"
proof -
  let ?q = "\<lparr>qz_params = \<lparr>qp_type = 1, qp_dimension = 1, qp_subspaces = 0\<rparr>, sq_min = None, sq_range = None, sq_trained = False,
    pq_codebooks = None, pq_sub_dim = 0, pq_trained = False\<rparr>"
  let ?s = "([] :: file_system, ex_db\<lparr>dv_quantizer := Some (sq8_train ?q [[f_zero], [f_one]]), quant_vectors := [[f_zero], [f_one]], quant_ids := [4, 5]\<rparr>)"
  have f: "f_finite f_zero" "f_finite f_one" "f_finite (f_sub f_zero f_zero)" "f_finite (f_sub f_zero f_one)" "f_finite (f_sub f_one f_zero)"
    "f_finite (f_sub f_one f_one)" "f_finite (f_add (fst (sq_minmax [f_zero, f_one])) (sq_span (sq_minmax [f_zero, f_one])))" by code_simp+
  then have t: "trainable (qdim ?q) [[f_zero], [f_one]]" "spans_finite (qdim ?q) [[f_zero], [f_one]]"
    by (simp_all add: trainable_def finite_vec_def spans_finite_def column_def)
  have h: "dv_quantizer (snd ?s) = Some (sq8_train ?q [[f_zero], [f_one]])" "qp_type (qz_params ?q) = KANBUDB_QUANT_SQ8"
    "length (quant_ids (snd ?s)) = length (quant_vectors (snd ?s))" "\<forall>v\<in>set ([f_one] # quant_vectors (snd ?s)). finite_vec v \<and> length v = qdim ?q"
    using f(1,2) by (simp_all add: KANBUDB_QUANT_SQ8_def finite_vec_def)
  from db_quant_search_nearest [OF h(1,2) t h(3,4) one_neq_zero, of "\<lparr>use_avx512 = False, use_avx2 = False\<rparr>"]
  obtain ds rs where r: "db_vec_quant_search \<lparr>use_avx512 = False, use_avx2 = False\<rparr> [f_one] 1 ?s = Some (Inr rs)"
    "map r_id (ds :: vec_result list) = quant_ids (snd ?s)" "length rs = min (unat (1 :: u32)) (length ds)" by blast
  have "length ds = 2" using arg_cong [OF r(2), of length] by simp
  then have "length rs = 1" using r(3) by simp
  then show ?thesis using r(1) by blast
qed

end
