(* ===== verification/Hybrid_Correct.thy ===== *)
theory Hybrid_Correct
  imports Hybrid Db_Vector_Correct
begin

text \<open>
  Proofs about the fusion of search results: what each id scores under reciprocal rank fusion, that the results are the best ones in order,
  and that the fusion in \<^verbatim>\<open>db.c\<close> and the one in \<^verbatim>\<open>hybrid.c\<close> agree.
\<close>

section \<open>Lists with an id in each entry\<close>

abbreviation lookup :: "('a \<Rightarrow> u64) \<Rightarrow> 'a list \<Rightarrow> u64 \<rightharpoonup> 'a" where
  "lookup key xs \<equiv> map_of (map (\<lambda>x. (key x, x)) xs)"

lemma lookup_keys: "distinct (map key xs) \<Longrightarrow> map f xs = map (\<lambda>i. f (the (lookup key xs i))) (map key xs)"
proof -
  assume d: "distinct (map key xs)"
  have "lookup key xs (key x) = Some x" if "x \<in> set xs" for x
    using d that by (intro map_of_is_SomeI) (auto simp: comp_def)
  then show ?thesis by simp
qed

lemma upsert_simps [simp]:
  "upsert key i upd new [] = [new]"
  "upsert key i upd new (x # xs) = (if key x = i then upd x # xs else x # upsert key i upd new xs)"
  by (auto simp: upsert_def split: option.splits)

lemma upsert_keys:
  assumes "\<And>x. key (upd x) = key x" and "key new = i"
  shows "map key (upsert key i upd new xs) = (if i \<in> set (map key xs) then map key xs else map key xs @ [i])"
  using assms by (induction xs) auto

lemma upsert_lookup:
  assumes "\<And>x. key (upd x) = key x" and "key new = i"
  shows "lookup key (upsert key i upd new xs) j = (if j = i then Some (case lookup key xs i of Some x \<Rightarrow> upd x | None \<Rightarrow> new) else lookup key xs j)"
  using assms by (induction xs) auto

text \<open>A loop of such steps over items with different ids.\<close>

lemma upsert_fold:
  fixes items :: "'b list" and ikey :: "'b \<Rightarrow> u64"
  assumes k: "\<And>e x. key (upd e x) = key x" "\<And>e. key (new e) = ikey e" and d: "distinct (map ikey items)" "distinct (map key xs)"
  defines "ys \<equiv> fold (\<lambda>e. upsert key (ikey e) (upd e) (new e)) items xs"
  shows "distinct (map key ys) \<and> map key ys = map key xs @ filter (\<lambda>i. i \<notin> set (map key xs)) (map ikey items) \<and>
    (\<forall>j. j \<notin> set (map ikey items) \<longrightarrow> lookup key ys j = lookup key xs j) \<and>
    (\<forall>e\<in>set items. lookup key ys (ikey e) = Some (case lookup key xs (ikey e) of Some x \<Rightarrow> upd e x | None \<Rightarrow> new e))"
  unfolding ys_def using d
proof (induction items rule: rev_induct)
  case (snoc e items)
  let ?ys = "fold (\<lambda>e. upsert key (ikey e) (upd e) (new e)) items xs"
  have ih: "distinct (map key ?ys)" "map key ?ys = map key xs @ filter (\<lambda>i. i \<notin> set (map key xs)) (map ikey items)"
    "\<forall>j. j \<notin> set (map ikey items) \<longrightarrow> lookup key ?ys j = lookup key xs j"
    "\<forall>e\<in>set items. lookup key ?ys (ikey e) = Some (case lookup key xs (ikey e) of Some x \<Rightarrow> upd e x | None \<Rightarrow> new e)"
    using snoc by auto
  have ne: "ikey e \<notin> set (map ikey items)" using snoc.prems(1) by simp
  let ?zs = "upsert key (ikey e) (upd e) (new e) ?ys"
  note kz = upsert_keys [of key "upd e" "new e" "ikey e" ?ys, OF k(1,2)]
  note lz = upsert_lookup [of key "upd e" "new e" "ikey e" ?ys, OF k(1,2)]
  have "ikey e \<in> set (map key ?ys) \<longleftrightarrow> ikey e \<in> set (map key xs)" using ne unfolding ih(2) by auto
  then have "map key ?zs = map key xs @ filter (\<lambda>i. i \<notin> set (map key xs)) (map ikey (items @ [e]))" "distinct (map key ?zs)"
    using kz ih(1,2) by auto
  moreover have "lookup key ?zs j = lookup key xs j" if "j \<notin> set (map ikey (items @ [e]))" for j using lz ih(3) that by auto
  moreover have "lookup key ?zs (ikey f) = Some (case lookup key xs (ikey f) of Some x \<Rightarrow> upd f x | None \<Rightarrow> new f)" if "f \<in> set (items @ [e])" for f
  proof (cases "f = e")
    case True
    then show ?thesis unfolding True using lz ih(3) ne by simp
  next
    case False
    then have f: "f \<in> set items" using that by simp
    then have "ikey f \<in> set (map ikey items)" by simp
    then have "ikey f \<noteq> ikey e" using ne by metis
    then show ?thesis using lz ih(4) f by simp
  qed
  ultimately show ?case by simp
qed auto

section \<open>Scores\<close>

lemma pos_parts_gen:
  assumes "fmt_ok F" and "0 \<le> p" and "p \<le> fp_inf F"
  shows "\<not> fp_neg F p" "fp_abs F p = p" "\<not> fp_is_nan F p" "fp_val F p = fp_scaled (mant F) p" "fp_key F p = p" "fp_fin F p \<longleftrightarrow> p < fp_inf F"
    "fp_is_inf F p \<longleftrightarrow> p = fp_inf F" "fp_ok F p"
  using assms(2,3) fp_inf_bounds [OF assms(1)] by (auto simp: fp_neg_def fp_abs_def fp_is_nan_def fp_val_def fp_key_def fp_fin_def fp_is_inf_def fp_ok_def)

lemma fp_add_pos_round:
  assumes F: "fmt_ok F" and a: "0 \<le> a" "a < fp_inf F" and b: "0 \<le> b" "b < fp_inf F"
  shows "fp_add F a b = fp_round F False (fp_scaled (mant F) a + fp_scaled (mant F) b) 1"
proof -
  have z: "fp_pack F False 0 = fp_round F False 0 1" by (simp add: fp_round_def)
  show ?thesis using pos_parts_gen [OF F a(1)] pos_parts_gen [OF F b(1)] a b fp_scaled_nonneg [OF a(1), of "mant F"] fp_scaled_nonneg [OF b(1), of "mant F"] z
    by (simp add: fp_add_def fp_sum_def)
qed

lemma fp_add_zero:
  assumes F: "fmt_ok F" and x: "fp_pos F x"
  shows "fp_add F 0 x = x"
proof (cases "x = fp_inf F")
  case True
  then show ?thesis using pos_parts_gen [OF F, of x] pos_parts_gen [OF F, of 0] fp_inf_bounds(1) [OF F] by (simp add: fp_add_def)
next
  case False
  then have b: "0 \<le> x" "x < fp_inf F" using x by (auto simp: fp_pos_def)
  have "fp_pattern (mant F) (fp_scaled (mant F) x) 1 = x" using fp_pattern_exact [OF b(1), of 1 "mant F"] by simp
  then show ?thesis using fp_add_pos_round [OF F _ _ b, of 0] fp_inf_bounds(1) [OF F] b by (simp add: fp_round_def fp_pack_def)
qed

lemma fp_round_pos: "fmt_ok F \<Longrightarrow> 0 \<le> n \<Longrightarrow> 0 < d \<Longrightarrow> 0 \<le> fp_round F False n d \<and> fp_round F False n d \<le> fp_inf F"
  using fp_pattern_nonneg [of n d "mant F"] fp_inf_bounds(1) [of F] by (simp add: fp_round_def fp_pack_def)

lemma rank_pattern:
  assumes F: "fmt_ok F" and c: "0 \<le> c" "c < fp_inf F" "fp_unit F \<le> fp_scaled (mant F) c" and one: "0 \<le> one" "one < fp_inf F" "fp_scaled (mant F) one = fp_unit F"
    and r: "fp_pos F r" and w: "fp_pos F w" "fp_fin F w"
  shows "fp_pos F (fp_mul F w (fp_div F one (fp_add F c r)))"
proof -
  let ?x = "fp_add F c r"
  have x: "c \<le> ?x" "?x \<le> fp_inf F"
  proof -
    have "c \<le> ?x \<and> ?x \<le> fp_inf F"
    proof (cases "r = fp_inf F")
      case True
      then have "?x = fp_inf F" using pos_parts_gen [OF F c(1)] pos_parts_gen [OF F, of r] fp_inf_bounds(1) [OF F] c(2) by (simp add: fp_add_def)
      then show ?thesis using c(2) by simp
    next
      case False
      then have b: "0 \<le> r" "r < fp_inf F" using r by (auto simp: fp_pos_def)
      have n: "0 \<le> fp_scaled (mant F) c + fp_scaled (mant F) r" "fp_scaled (mant F) c \<le> fp_scaled (mant F) c + fp_scaled (mant F) r"
        using fp_scaled_nonneg [OF b(1), of "mant F"] fp_scaled_nonneg [OF c(1), of "mant F"] by simp_all
      have "c \<le> fp_round F False (fp_scaled (mant F) c + fp_scaled (mant F) r) 1"
        by (rule fp_round_ge) (use c n in simp_all)
      then show ?thesis using fp_add_pos_round [OF F c(1,2) b] fp_round_pos [OF F n(1) zero_less_one] by simp
    qed
    then show "c \<le> ?x" "?x \<le> fp_inf F" by simp_all
  qed
  then have x0: "0 \<le> ?x" using c(1) by simp
  let ?q = "fp_div F one ?x"
  have sx: "fp_unit F \<le> fp_scaled (mant F) ?x" using c(3) x(1) fp_scaled_le [OF c(1) x0, of "mant F"] by simp
  have q: "0 \<le> ?q \<and> ?q \<le> one"
  proof (cases "?x = fp_inf F")
    case True
    have "fp_pack F False 0 = 0" using fp_inf_bounds(1) [OF F] by (simp add: fp_pack_def)
    then show ?thesis using True pos_parts_gen [OF F one(1)] pos_parts_gen [OF F x0 x(2)] one by (simp add: fp_div_def Let_def)
  next
    case False
    have p: "0 < fp_scaled (mant F) ?x" using sx fp_unit_pos [of F] by linarith
    then have "?x \<noteq> 0" by auto
    then have d: "?q = fp_round F False (fp_unit F * fp_unit F) (fp_scaled (mant F) ?x)"
      using False pos_parts_gen [OF F one(1)] pos_parts_gen [OF F x0 x(2)] one p by (simp add: fp_div_def Let_def)
    have "fp_unit F * fp_unit F \<le> fp_scaled (mant F) one * fp_scaled (mant F) ?x" using sx one(3) by (simp add: mult_left_mono)
    then have "?q \<le> one" unfolding d by (intro fp_round_le) (use one p in simp_all)
    then show ?thesis using fp_round_pos [OF F, of "fp_unit F * fp_unit F" "fp_scaled (mant F) ?x"] p d by simp
  qed
  have wq: "0 \<le> w" "w < fp_inf F" "0 \<le> ?q" "?q < fp_inf F" using w q one(2) pos_parts_gen(6) [OF F, of w] by (simp_all add: fp_pos_def)
  note pw = pos_parts_gen [OF F wq(1)] and pq = pos_parts_gen [OF F wq(3)]
  have "fp_mul F w ?q = fp_round F False (fp_scaled (mant F) w * fp_scaled (mant F) ?q) (fp_unit F)"
    using pw pq wq by (simp add: fp_mul_def Let_def fp_scaled_nonneg)
  then show ?thesis using fp_round_pos [OF F, of "fp_scaled (mant F) w * fp_scaled (mant F) ?q" "fp_unit F"] wq by (simp add: fp_pos_def fp_scaled_nonneg)
qed

lemma F64_consts: "fp_sgn F64 = 2 ^ 63" "fp_inf F64 = 0x7FF0000000000000" "mant F64 = 52"
  by (simp_all add: fp_sgn_def fp_inf_def F64_def)

lemma d_ok [simp]: "fp_ok F64 (uint (x :: f64))"
  using uint_nonnegative [of x] uint_bounded [of x] by (simp add: fp_ok_def F64_consts)

lemma d_uint: "fp_ok F64 p \<Longrightarrow> uint (word_of_int p :: f64) = p"
  by (simp add: fp_ok_def F64_consts uint_word_of_int)

definition d_pos :: "f64 \<Rightarrow> bool" where "d_pos x \<longleftrightarrow> fp_pos F64 (uint x)"

text \<open>A weight: finite and not negative.\<close>

definition d_weight :: "f64 \<Rightarrow> bool" where "d_weight w \<longleftrightarrow> d_pos w \<and> fp_fin F64 (uint w)"

lemma pos_ok: "fp_pos F64 p \<Longrightarrow> fp_ok F64 p"
  using pos_parts_gen(8) [of F64 p] by (simp add: fp_pos_def)

lemma d_pos_number: "d_pos x \<Longrightarrow> \<not> d_nan x"
  using pos_parts_gen(3) [of F64 "uint x"] by (simp add: d_pos_def d_nan_def fp_pos_def)

lemma d_add_pos: "d_pos x \<Longrightarrow> d_pos y \<Longrightarrow> d_pos (d_add x y)"
  using fp_add_pos [of F64 "uint x" "uint y"] by (simp add: d_pos_def d_add_def d_uint pos_ok)

lemma d_add_zero: "d_pos x \<Longrightarrow> d_add d_zero x = x"
  using fp_add_zero [of F64 "uint x"] by (simp add: d_pos_def d_add_def d_zero_def)

lemma F64_unit: "fp_unit F64 = 2 ^ 1074"
  by (simp only: fp_unit_def F64_def fmt.select_convs) simp

lemma fp_scaled_one: "fp_scaled 52 (uint d_one) = 2 ^ 52 * 2 ^ 1022"
proof -
  have "uint d_one div 2 ^ 52 = 1023" "uint d_one mod 2 ^ 52 = 0" by (simp_all add: d_one_def)
  moreover have "nat 1023 = 1023" "(1023 :: nat) - 1 = 1022" "(1023 :: nat) \<noteq> 0" by simp_all
  ultimately show ?thesis by (simp only: fp_scaled_def Let_def if_False add_0_right)
qed

lemma rank_score_pos:
  assumes "d_weight w" and "0 < n"
  shows "d_pos (rank_score w n)"
proof -
  have n: "fp_pos F64 (fp_of_int F64 n)" using assms(2) fp_round_pos [of F64 "n * fp_unit F64" 1] by (simp add: fp_of_int_def fp_pos_def)
  have "fp_scaled (mant F64) (uint d_one) = 2 ^ 52 * 2 ^ 1022" by (simp only: F64_consts fp_scaled_one)
  also have "\<dots> = fp_unit F64" by (simp only: F64_unit power_add [symmetric]) simp
  finally have o: "0 \<le> uint d_one" "uint d_one < fp_inf F64" "fp_scaled (mant F64) (uint d_one) = fp_unit F64"
    by (simp_all add: d_one_def F64_consts)
  have c: "0 \<le> uint d_sixty" "uint d_sixty < fp_inf F64" "fp_unit F64 \<le> fp_scaled (mant F64) (uint d_sixty)"
    using fp_scaled_le [of "uint d_one" "uint d_sixty" "mant F64"] unfolding o(3) [symmetric] by (simp_all add: d_sixty_def d_one_def F64_consts)
  have p: "fp_pos F64 (fp_mul F64 (uint w) (fp_div F64 (uint d_one) (fp_add F64 (uint d_sixty) (fp_of_int F64 n))))"
    by (rule rank_pattern) (use assms(1) n c o in \<open>simp_all add: d_weight_def d_pos_def\<close>)
  have a: "uint (d_of_int n) = fp_of_int F64 n" using n by (simp add: d_of_int_def d_uint pos_ok)
  have b: "uint (d_add d_sixty (d_of_int n)) = fp_add F64 (uint d_sixty) (fp_of_int F64 n)" using fp_add_ok [of F64 "uint d_sixty" "uint (d_of_int n)"] a pos_ok [OF n] by (simp add: d_add_def d_uint)
  have ok: "fp_ok F64 (fp_add F64 (uint d_sixty) (fp_of_int F64 n))" by (subst b [symmetric]) (rule d_ok)
  have d: "uint (d_div d_one (d_add d_sixty (d_of_int n))) = fp_div F64 (uint d_one) (fp_add F64 (uint d_sixty) (fp_of_int F64 n))"
    using fp_div_ok [of F64 "uint (d_add d_sixty (d_of_int n))" "uint d_one"] b ok by (simp add: d_div_def d_uint)
  show ?thesis using p d by (simp add: rank_score_def d_pos_def d_mul_def d_uint pos_ok)
qed

text \<open>The score of an id under reciprocal rank fusion, from its places in the two lists.\<close>

definition rrf_score :: "hybrid_params \<Rightarrow> u64 list \<Rightarrow> u64 list \<Rightarrow> u64 \<Rightarrow> f64" where
  "rrf_score ps vids fids i =
     (case (find_idx (\<lambda>j. j = i) vids, find_idx (\<lambda>j. j = i) fids) of
        (Some a, Some b) \<Rightarrow> d_add (rank_score (vec_weight ps) (int a + 1)) (rank_score (fts_weight ps) (int b + 1))
      | (Some a, None) \<Rightarrow> rank_score (vec_weight ps) (int a + 1)
      | (None, Some b) \<Rightarrow> rank_score (fts_weight ps) (int b + 1)
      | (None, None) \<Rightarrow> d_zero)"

lemma rrf_score_pos: "d_weight (vec_weight ps) \<Longrightarrow> d_weight (fts_weight ps) \<Longrightarrow> d_pos (rrf_score ps vids fids i)"
  by (auto simp: rrf_score_def intro!: d_add_pos rank_score_pos split: option.split) (simp add: d_pos_def d_zero_def fp_pos_def F64_consts)

lemma enumerate_id:
  assumes "distinct (map f xs)" and "(n, x) \<in> set (enumerate 0 xs)"
  shows "find_idx (\<lambda>j. j = f x) (map f xs) = Some n"
proof -
  have n: "n < length xs" "xs ! n = x" using assms(2) by (auto simp: in_set_enumerate_eq)
  then have "\<forall>m<n. map f xs ! m \<noteq> f x" using assms(1) nth_eq_iff_index_eq [OF assms(1), of _ n] by auto
  then show ?thesis using n by (simp add: find_idx_Some)
qed

lemma not_found: "i \<notin> set ids \<Longrightarrow> find_idx (\<lambda>j. j = i) ids = None"
  by (auto simp: find_idx_None)

lemma enumerate_keys: "map (\<lambda>e. f (snd e)) (enumerate 0 xs) = map f xs"
  by (metis (no_types, lifting) map_eq_conv map_map map_snd_enumerate comp_apply)

lemma member_enumerate:
  assumes "i \<in> f ` set xs"
  obtains n x where "(n, x) \<in> set (enumerate 0 xs)" "f x = i"
proof -
  obtain n where "n < length xs" "f (xs ! n) = i" using assms by (auto simp: in_set_conv_nth)
  then show thesis using that [of n "xs ! n"] by (simp add: in_set_enumerate_eq)
qed

section \<open>The list to be sorted\<close>

lemma enumerate_lookup:
  assumes "distinct (map f xs)" and "(n, x) \<in> set (enumerate 0 xs)" and "\<And>e. key (g e) = f (snd e)"
  shows "lookup key (map g (enumerate 0 xs)) (f x) = Some (g (n, x))"
proof -
  have "map fst (map (\<lambda>y. (key y, y)) (map g (enumerate 0 xs))) = map f xs" using enumerate_keys [of f xs] assms(3) by (simp add: comp_def)
  moreover have "(f x, g (n, x)) \<in> set (map (\<lambda>y. (key y, y)) (map g (enumerate 0 xs)))" using assms(2) assms(3) [of "(n, x)"] by (auto intro!: image_eqI)
  ultimately show ?thesis using assms(1) by (intro map_of_is_SomeI) simp_all
qed

lemma no_lookup: "i \<notin> set (map key xs) \<Longrightarrow> lookup key xs i = None"
  by (induction xs) auto

lemma lookup_member: "distinct (map key xs) \<Longrightarrow> x \<in> set xs \<Longrightarrow> lookup key xs (key x) = Some x"
  by (intro map_of_is_SomeI) (auto simp: comp_def)

text \<open>Every entry of the list comes from the places of its id in the two lists.\<close>

lemma fused_entries:
  fixes key :: "'a \<Rightarrow> u64" and fts :: "(u64 \<times> f64) list" and vs :: "vec_result list"
  assumes d: "distinct (map r_id vs)" "distinct (map fst fts)"
    and k: "\<And>e. key (g e) = r_id (snd e)" "\<And>e x. key (upd e x) = key x" "\<And>e. key (new e) = fst (snd e)"
  defines "ys \<equiv> fold (\<lambda>e. upsert key (fst (snd e)) (upd e) (new e)) (enumerate 0 fts) (map g (enumerate 0 vs))"
  shows "map key ys = map r_id vs @ filter (\<lambda>i. i \<notin> set (map r_id vs)) (map fst fts)"
    and "y \<in> set ys \<Longrightarrow>
      (case (find_idx (\<lambda>j. j = key y) (map r_id vs), find_idx (\<lambda>j. j = key y) (map fst fts)) of
         (Some a, Some b) \<Rightarrow> \<exists>v x. y = upd (b, x) (g (a, v))
       | (Some a, None) \<Rightarrow> \<exists>v. y = g (a, v)
       | (None, Some b) \<Rightarrow> \<exists>x. y = new (b, x)
       | (None, None) \<Rightarrow> False)"
proof -
  let ?xs = "map g (enumerate 0 vs)" and ?items = "enumerate 0 fts"
  have kx: "map key ?xs = map r_id vs" using enumerate_keys [of r_id vs] by (simp add: k(1) comp_def)
  have ki: "map (\<lambda>e. fst (snd e)) ?items = map fst fts" by (rule enumerate_keys)
  have dd: "distinct (map (\<lambda>e. fst (snd e)) ?items)" "distinct (map key ?xs)" unfolding kx ki by fact+
  note f = upsert_fold [of key upd new "\<lambda>e. fst (snd e)" ?items ?xs, OF k(2,3) dd, folded ys_def, unfolded kx ki]
  from f show m: "map key ys = map r_id vs @ filter (\<lambda>i. i \<notin> set (map r_id vs)) (map fst fts)" by blast
  have out: "\<And>j. j \<notin> set (map fst fts) \<Longrightarrow> lookup key ys j = lookup key ?xs j"
    and ins: "\<And>e. e \<in> set ?items \<Longrightarrow> lookup key ys (fst (snd e)) = Some (case lookup key ?xs (fst (snd e)) of Some x \<Rightarrow> upd e x | None \<Rightarrow> new e)"
    using f by blast+
  have lx: "lookup key ?xs (r_id v) = Some (g (n, v))" if "(n, v) \<in> set (enumerate 0 vs)" for n v
    by (rule enumerate_lookup [of r_id vs n v key g, OF d(1) that k(1)])
  assume y: "y \<in> set ys"
  have dy: "distinct (map key ys)" using f by blast
  have l: "lookup key ys (key y) = Some y" by (rule lookup_member [OF dy y])
  have mem: "key y \<in> r_id ` set vs \<or> key y \<in> fst ` set fts" using y arg_cong [OF m, of set] by auto
  have nv: "find_idx (\<lambda>j. j = key y) (map r_id vs) = None \<and> lookup key ?xs (key y) = None" if "key y \<notin> r_id ` set vs"
    using not_found [of "key y" "map r_id vs"] no_lookup [of "key y" key ?xs, unfolded kx] that by simp
  show "case (find_idx (\<lambda>j. j = key y) (map r_id vs), find_idx (\<lambda>j. j = key y) (map fst fts)) of
         (Some a, Some b) \<Rightarrow> \<exists>v x. y = upd (b, x) (g (a, v))
       | (Some a, None) \<Rightarrow> \<exists>v. y = g (a, v)
       | (None, Some b) \<Rightarrow> \<exists>x. y = new (b, x)
       | (None, None) \<Rightarrow> False"
  proof (cases "key y \<in> fst ` set fts")
    case True
    then obtain n x where x: "(n, x) \<in> set ?items" "fst x = key y" by (rule member_enumerate)
    have fx: "find_idx (\<lambda>j. j = key y) (map fst fts) = Some n" using enumerate_id [OF d(2) x(1)] x(2) by simp
    have e: "y = (case lookup key ?xs (key y) of Some z \<Rightarrow> upd (n, x) z | None \<Rightarrow> new (n, x))" using ins [OF x(1)] l x(2) by simp
    show ?thesis
    proof (cases "key y \<in> r_id ` set vs")
      case True
      then obtain a v where v: "(a, v) \<in> set (enumerate 0 vs)" "r_id v = key y" by (rule member_enumerate)
      have "y = upd (n, x) (g (a, v))" using e lx [OF v(1)] v(2) by simp
      moreover have "find_idx (\<lambda>j. j = key y) (map r_id vs) = Some a" using enumerate_id [OF d(1) v(1)] v(2) by simp
      ultimately show ?thesis unfolding fx by (simp only: prod.case option.case) blast
    next
      case False
      then have "y = new (n, x)" using e nv by simp
      then show ?thesis unfolding fx nv [OF False, THEN conjunct1] by (simp only: prod.case option.case) blast
    qed
  next
    case False
    then obtain a v where v: "(a, v) \<in> set (enumerate 0 vs)" "r_id v = key y" using mem member_enumerate by metis
    have "y = g (a, v)" using l out [of "key y"] False lx [OF v(1)] v(2) by simp
    then show ?thesis using enumerate_id [OF d(1) v(1)] v(2) not_found [of "key y" "map fst fts"] False by auto
  qed
qed

abbreviation merged_of :: "hybrid_params \<Rightarrow> vec_result list \<Rightarrow> (u64 \<times> f64) list \<Rightarrow> hybrid_result list" where
  "merged_of ps vs fts \<equiv> fold (merge_fts ps) (enumerate 0 fts) (map (merge_vec ps) (enumerate 0 vs))"

lemma merged_of:
  assumes "distinct (map r_id vs)" and "distinct (map fst fts)"
  shows "map hr_id (merged_of ps vs fts) = map r_id vs @ filter (\<lambda>i. i \<notin> set (map r_id vs)) (map fst fts)"
    and "\<forall>r\<in>set (merged_of ps vs fts). hr_score r = rrf_score ps (map r_id vs) (map fst fts) (hr_id r)"
proof -
  let ?score = "\<lambda>e. rank_score (fts_weight ps) (int (fst e) + 1)"
  let ?upd = "\<lambda>e r. r\<lparr>hr_fts_score := snd (snd e), hr_score := d_add (hr_score r) (?score e)\<rparr>"
  let ?new = "\<lambda>e. \<lparr>hr_id = fst (snd e), hr_score = ?score e, hr_vec_distance = d_zero, hr_fts_score = snd (snd e)\<rparr>"
  have st: "merge_fts ps = (\<lambda>e. upsert hr_id (fst (snd e)) (?upd e) (?new e))" by (rule ext) (simp add: merge_fts_def Let_def)
  have k: "\<And>e. hr_id (merge_vec ps e) = r_id (snd e)" "\<And>e x. hr_id (?upd e x) = hr_id x" "\<And>e. hr_id (?new e) = fst (snd e)"
    by (simp_all add: merge_vec_def)
  note f = fused_entries [of vs fts hr_id "merge_vec ps" ?upd ?new, OF assms k, folded st]
  from f(1) show "map hr_id (merged_of ps vs fts) = map r_id vs @ filter (\<lambda>i. i \<notin> set (map r_id vs)) (map fst fts)" .
  show "\<forall>r\<in>set (merged_of ps vs fts). hr_score r = rrf_score ps (map r_id vs) (map fst fts) (hr_id r)"
  proof
    fix r assume "r \<in> set (merged_of ps vs fts)"
    from f(2) [OF this] show "hr_score r = rrf_score ps (map r_id vs) (map fst fts) (hr_id r)"
      by (auto simp: rrf_score_def merge_vec_def split: option.splits)
  qed
qed

lemma upsert_new: "i \<notin> set (map key xs) \<Longrightarrow> upsert key i upd new xs = xs @ [new]"
  by (induction xs) auto

lemma upsert_fresh:
  assumes "\<And>e. key (new e) = ikey e" and "distinct (map key xs @ map ikey es)"
  shows "fold (\<lambda>e. upsert key (ikey e) (upd e) (new e)) es xs = xs @ map new es"
  using assms(2)
proof (induction es arbitrary: xs)
  case (Cons e es)
  have "upsert key (ikey e) (upd e) (new e) xs = xs @ [new e]" by (rule upsert_new) (use Cons.prems in auto)
  then show ?case using Cons.IH [of "xs @ [new e]"] Cons.prems assms(1) by auto
qed simp

abbreviation accum_of :: "vec_result list \<Rightarrow> (u64 \<times> f64) list \<Rightarrow> hybrid_accum list" where
  "accum_of vs fts \<equiv> fold accum_fts (enumerate 0 fts) (fold accum_vec (enumerate 0 vs) [])"

lemma accum_of:
  assumes d: "distinct (map r_id vs)" "distinct (map fst fts)"
    and ps: "hp_mode ps = KANBUDB_HYBRID_RRF" "d_weight (vec_weight ps)" "d_weight (fts_weight ps)"
  shows "map ha_id (accum_of vs fts) = map r_id vs @ filter (\<lambda>i. i \<notin> set (map r_id vs)) (map fst fts)"
    and "\<forall>a\<in>set (accum_of vs fts). ha_combined (combine ps a) = rrf_score ps (map r_id vs) (map fst fts) (ha_id a)"
proof -
  let ?g = "\<lambda>e. set_vec (fst e) (snd e) (blank_accum (r_id (snd e)))"
  let ?upd = "\<lambda>e. set_fts (fst e) (snd (snd e))" and ?new = "\<lambda>e. set_fts (fst e) (snd (snd e)) (blank_accum (fst (snd e)))"
  have acc: "fold accum_vec (enumerate 0 vs) [] = map ?g (enumerate 0 vs)"
    using upsert_fresh [of ha_id ?g "\<lambda>e. r_id (snd e)" "[]" "enumerate 0 vs" "\<lambda>e. set_vec (fst e) (snd e)"] d(1) enumerate_keys [of r_id vs]
    by (simp add: accum_vec_def [abs_def] set_vec_def blank_accum_def)
  have k: "\<And>e. ha_id (?g e) = r_id (snd e)" "\<And>e x. ha_id (?upd e x) = ha_id x" "\<And>e. ha_id (?new e) = fst (snd e)"
    by (simp_all add: set_vec_def set_fts_def blank_accum_def)
  note f = fused_entries [of vs fts ha_id ?g ?upd ?new, OF d k, folded accum_fts_def acc]
  from f(1) show "map ha_id (accum_of vs fts) = map r_id vs @ filter (\<lambda>i. i \<notin> set (map r_id vs)) (map fst fts)" .
  show "\<forall>a\<in>set (accum_of vs fts). ha_combined (combine ps a) = rrf_score ps (map r_id vs) (map fst fts) (ha_id a)"
  proof
    fix a assume "a \<in> set (accum_of vs fts)"
    from f(2) [OF this] show "ha_combined (combine ps a) = rrf_score ps (map r_id vs) (map fst fts) (ha_id a)"
      using ps rank_score_pos d_add_zero
      by (auto simp: rrf_score_def combine_def Let_def set_vec_def set_fts_def blank_accum_def split: option.splits)
  qed
qed

section \<open>The best results\<close>

interpretation best: score_order better "\<lambda>r. \<not> d_nan (hr_score r)"
  by unfold_locales (auto simp: better_def d_less_def)

text \<open>What a fusion of two lists of ids promises: the best ids under reciprocal rank fusion, in descending order.\<close>

definition fused :: "hybrid_params \<Rightarrow> u64 list \<Rightarrow> u64 list \<Rightarrow> int \<Rightarrow> hybrid_result list \<Rightarrow> bool" where
  "fused ps vids fids max_results rs \<longleftrightarrow>
     distinct (map hr_id rs) \<and> length rs = min (nat max_results) (card (set vids \<union> set fids)) \<and>
     (\<forall>r\<in>set rs. hr_id r \<in> set vids \<union> set fids \<and> hr_score r = rrf_score ps vids fids (hr_id r)) \<and>
     sorted_wrt (\<lambda>a b. d_le (hr_score b) (hr_score a)) rs \<and>
     (\<forall>r\<in>set rs. \<forall>i\<in>set vids \<union> set fids. i \<notin> set (map hr_id rs) \<longrightarrow> d_le (rrf_score ps vids fids i) (hr_score r))"

lemma d_not_less: "\<not> d_nan x \<Longrightarrow> \<not> d_nan y \<Longrightarrow> \<not> d_less x y \<longleftrightarrow> d_le y x"
  by (auto simp: d_less_def d_le_def)

lemma short_sorted: "length xs \<le> 1 \<Longrightarrow> sorted_wrt P xs"
  by (cases xs rule: remdups_adj.cases) simp_all

lemma best_sorted:
  assumes "\<forall>r\<in>set ms. \<not> d_nan (hr_score r)"
  shows "sorted_wrt (\<lambda>a b. d_le (hr_score b) (hr_score a)) (select_sort better (length ms - 1) ms)"
proof -
  let ?k = "length ms - 1" and ?P = "\<lambda>a b. \<not> better b a"
  let ?ss = "select_sort better ?k ms"
  have "length (drop ?k ?ss) = length ms - ?k" by simp
  then have "length (drop ?k ?ss) \<le> 1" by linarith
  then have "sorted_wrt ?P (drop ?k ?ss)" by (rule short_sorted)
  then have "sorted_wrt ?P (take ?k ?ss @ drop ?k ?ss)" using best.select_sort_sorted [OF assms, of ?k] by (simp only: sorted_wrt_append) blast
  then have s: "sorted_wrt ?P ?ss" by simp
  show ?thesis by (rule sorted_wrt_mono_rel [OF _ s]) (use assms in \<open>simp add: select_sort_set better_def d_not_less\<close>)
qed

text \<open>Two lists of results with the same scores, one entry per id: any descending order of them gives the best results.\<close>

lemma fused_take:
  assumes ids: "distinct (map hr_id ss)" "set (map hr_id ss) = set vids \<union> set fids" and sc: "\<forall>r\<in>set ss. hr_score r = rrf_score ps vids fids (hr_id r)"
    and so: "sorted_wrt (\<lambda>a b. d_le (hr_score b) (hr_score a)) ss"
  shows "fused ps vids fids max_results (take (nat max_results) ss)"
proof -
  let ?n = "nat max_results" and ?U = "set vids \<union> set fids" and ?rrf = "rrf_score ps vids fids" and ?P = "\<lambda>a b. d_le (hr_score b) (hr_score a)"
  have "sorted_wrt ?P (take ?n ss @ drop ?n ss)" using so by simp
  then have so: "sorted_wrt ?P (take ?n ss)" "\<forall>a\<in>set (take ?n ss). \<forall>b\<in>set (drop ?n ss). ?P a b" unfolding sorted_wrt_append by blast+
  have ln: "length ss = card ?U" using distinct_card [OF ids(1)] ids(2) by simp
  have rest: "d_le (?rrf i) (hr_score r)" if r: "r \<in> set (take ?n ss)" and i: "i \<in> ?U" "i \<notin> set (map hr_id (take ?n ss))" for r i
  proof -
    have "set (map hr_id (take ?n ss)) \<union> set (map hr_id (drop ?n ss)) = set (map hr_id (take ?n ss @ drop ?n ss))" by (simp only: map_append set_append)
    then have "i \<in> set (map hr_id (drop ?n ss))" using i ids(2) by auto
    then obtain b where b: "b \<in> set (drop ?n ss)" "hr_id b = i" by auto
    then have "hr_score b = ?rrf i" using sc in_set_dropD [OF b(1)] by simp
    then show ?thesis using so(2) [rule_format, OF r b(1)] by simp
  qed
  have mem: "hr_id r \<in> ?U \<and> hr_score r = ?rrf (hr_id r)" if "r \<in> set (take ?n ss)" for r
    using in_set_takeD [OF that] sc ids(2) by auto
  have "distinct (map hr_id (take ?n ss))" using ids(1) by (simp add: take_map [symmetric] distinct_take)
  then show ?thesis unfolding fused_def using so(1) rest mem ln by auto
qed

lemma union_ids:
  assumes "distinct xs" and "distinct ys" and "mset zs = mset (xs @ filter (\<lambda>i. i \<notin> set xs) ys)"
  shows "distinct zs" "set zs = set xs \<union> set ys"
proof -
  have "distinct (xs @ filter (\<lambda>i. i \<notin> set xs) ys)" using assms(1,2) by auto
  then show "distinct zs" using mset_eq_imp_distinct_iff [OF assms(3)] by simp
  show "set zs = set xs \<union> set ys" using mset_eq_setD [OF assms(3)] by auto
qed

definition sorted_merge :: "hybrid_params \<Rightarrow> vec_result list \<Rightarrow> (u64 \<times> f64) list \<Rightarrow> hybrid_result list" where
  "sorted_merge ps vs fts = select_sort better (length (merged_of ps vs fts) - 1) (merged_of ps vs fts)"

lemma sorted_merge:
  assumes v: "distinct (map r_id vs)" and f: "distinct (map fst fts)" and w: "d_weight (vec_weight ps)" "d_weight (fts_weight ps)"
  shows "mset (sorted_merge ps vs fts) = mset (merged_of ps vs fts)"
    "\<forall>r\<in>set (sorted_merge ps vs fts). hr_score r = rrf_score ps (map r_id vs) (map fst fts) (hr_id r)"
    "sorted_wrt (\<lambda>a b. d_le (hr_score b) (hr_score a)) (sorted_merge ps vs fts)"
proof -
  show m: "mset (sorted_merge ps vs fts) = mset (merged_of ps vs fts)" unfolding sorted_merge_def by (rule select_sort_mset)
  show "\<forall>r\<in>set (sorted_merge ps vs fts). hr_score r = rrf_score ps (map r_id vs) (map fst fts) (hr_id r)"
    using merged_of(2) [OF v f, of ps] mset_eq_setD [OF m] by simp
  have "\<forall>r\<in>set (merged_of ps vs fts). \<not> d_nan (hr_score r)"
    using merged_of(2) [OF v f, of ps] rrf_score_pos [OF w] d_pos_number by simp
  from best_sorted [OF this] show "sorted_wrt (\<lambda>a b. d_le (hr_score b) (hr_score a)) (sorted_merge ps vs fts)" unfolding sorted_merge_def .
qed

lemma fuse_best:
  assumes v: "distinct (map r_id vs)" and f: "distinct (map fst fts)" and w: "d_weight (vec_weight ps)" "d_weight (fts_weight ps)"
  shows "fused ps (map r_id vs) (map fst fts) max_results (fuse ps vs fts max_results)"
proof -
  note s = sorted_merge [OF assms]
  have "mset (map hr_id (sorted_merge ps vs fts)) = mset (map r_id vs @ filter (\<lambda>i. i \<notin> set (map r_id vs)) (map fst fts))"
    unfolding merged_of(1) [OF v f, of ps, symmetric] mset_map s(1) ..
  from union_ids [OF v f this] have ids: "distinct (map hr_id (sorted_merge ps vs fts))"
    "set (map hr_id (sorted_merge ps vs fts)) = set (map r_id vs) \<union> set (map fst fts)" .
  have "fuse ps vs fts max_results = take (nat max_results) (sorted_merge ps vs fts)" by (simp add: fuse_def sorted_merge_def Let_def)
  then show ?thesis using fused_take [OF ids s(2,3)] by simp
qed

lemma add_results_distinct: "distinct docs \<Longrightarrow> distinct (add_results docs rs)"
  by (induction docs rs rule: add_results.induct) auto

lemma fts_hits_distinct: "distinct (map fst (fts_hits log atof idx query))"
proof -
  have "distinct docs \<Longrightarrow> distinct (foldl add_results docs rss)" for docs rss
    by (induction rss arbitrary: docs) (simp_all add: add_results_distinct)
  then show ?thesis by (simp add: fts_hits_def comp_def)
qed

text \<open>Positive numbers are ordered as their bit patterns, so a descending list is determined by its elements.\<close>

lemma d_le_pos: "d_pos x \<Longrightarrow> d_pos y \<Longrightarrow> d_le x y \<longleftrightarrow> x \<le> y"
  using pos_parts_gen(3,5) [of F64 "uint x"] pos_parts_gen(3,5) [of F64 "uint y"] by (simp add: d_pos_def d_le_def d_nan_def fp_pos_def word_le_def)

lemma descending_unique:
  assumes "mset xs = mset ys" and pos: "\<forall>x\<in>set xs. d_pos x" and "sorted_wrt (\<lambda>a b. d_le b a) xs" and "sorted_wrt (\<lambda>a b. d_le b a) ys"
  shows "xs = ys"
proof -
  have "\<forall>y\<in>set ys. d_pos y" using mset_eq_setD [OF assms(1)] pos by simp
  then have "sorted_wrt (\<lambda>a b. b \<le> a) xs" "sorted_wrt (\<lambda>a b. b \<le> a) ys"
    using pos by (auto intro: sorted_wrt_mono_rel [OF _ assms(3)] sorted_wrt_mono_rel [OF _ assms(4)] simp: d_le_pos)
  then have "sorted (rev xs)" "sorted (rev ys)" by (simp_all add: sorted_wrt_rev)
  then have "rev xs = rev ys" using properties_for_sort [of "rev ys" "rev xs"] properties_for_sort [of "rev xs" "rev xs"] assms(1) by simp
  then show ?thesis by simp
qed

lemma cmp_accum_le: "d_pos (ha_combined a) \<Longrightarrow> d_pos (ha_combined b) \<Longrightarrow> cmp_accum_by_score a b \<le> 0 \<longleftrightarrow> d_le (ha_combined b) (ha_combined a)"
  using d_pos_number d_not_less [of "ha_combined a" "ha_combined b"] by (auto simp: cmp_accum_by_score_def Let_def d_less_def)

text \<open>
  C29. The fusion of \<^verbatim>\<open>hybrid.c\<close> in its rank mode and the one written out in \<^verbatim>\<open>db_hybrid_search\<close> agree, although one adds up positions in a
  table and calls \<^verbatim>\<open>qsort\<close> and the other adds scores and sorts by selection: both return the best ids under reciprocal rank fusion, and the same
  list of scores, bit by bit. Ids with the same score may change places.
\<close>

theorem hybrid_fusions_agree:
  assumes "distinct (map r_id vs)" and "distinct (map fst fts)" and "hp_mode ps = KANBUDB_HYBRID_RRF"
    and "d_weight (vec_weight ps)" and "d_weight (fts_weight ps)" and "qsort_spec qsort" and "0 < max_results"
  shows "fused ps (map r_id vs) (map fst fts) max_results (kanbudb_hybrid_search qsort vs fts ps max_results) \<and>
    map hr_score (kanbudb_hybrid_search qsort vs fts ps max_results) = map hr_score (fuse ps vs fts max_results)"
proof -
  let ?rrf = "rrf_score ps (map r_id vs) (map fst fts)" and ?acc = "map (combine ps) (accum_of vs fts)"
  let ?ss = "map result_of_accum (qsort cmp_accum_by_score ?acc)" and ?n = "nat max_results"
  note ac = accum_of [OF assms(1-5)] and pos = rrf_score_pos [OF assms(4,5), of "map r_id vs" "map fst fts"]
  have ci: "ha_id (combine ps a) = ha_id a" for a by (simp add: combine_def Let_def)
  have sa: "\<forall>a\<in>set ?acc. ha_combined a = ?rrf (ha_id a)" using ac(2) ci by simp
  have "preorder_on_list cmp_accum_by_score ?acc"
    using sa pos by (auto simp: preorder_on_list_def cmp_accum_le d_le_pos)
  moreover have mono: "d_le (ha_combined b) (ha_combined a)" if "a \<in> set ?acc" "b \<in> set ?acc" "cmp_accum_by_score a b \<le> 0" for a b
    using cmp_accum_le [of a b] sa [rule_format, OF that(1)] sa [rule_format, OF that(2)] pos that(3) by simp
  ultimately have "sorted_wrt (\<lambda>a b. cmp_accum_by_score a b \<le> 0) (qsort cmp_accum_by_score ?acc)" using qsort_spec.qsort_sorted [OF assms(6)] by blast
  then have "sorted_wrt (\<lambda>a b. d_le (ha_combined b) (ha_combined a)) (qsort cmp_accum_by_score ?acc)"
    by (rule sorted_wrt_mono_rel [rotated]) (use mono qsort_spec.qsort_set [OF assms(6)] in blast)
  then have so: "sorted_wrt (\<lambda>a b. d_le (hr_score b) (hr_score a)) ?ss" by (simp add: sorted_wrt_map result_of_accum_def)
  have ms: "mset (map f (qsort cmp_accum_by_score ?acc)) = mset (map f ?acc)" for f :: "hybrid_accum \<Rightarrow> 'x"
    unfolding mset_map qsort_spec.qsort_mset [OF assms(6)] ..
  have sc: "\<forall>r\<in>set ?ss. hr_score r = ?rrf (hr_id r)" using sa by (auto simp: qsort_spec.qsort_set [OF assms(6)] result_of_accum_def)
  have "map hr_id ?ss = map ha_id (qsort cmp_accum_by_score ?acc)" by (simp add: result_of_accum_def)
  moreover have "map ha_id ?acc = map ha_id (accum_of vs fts)" by (simp add: ci)
  ultimately have ids: "mset (map hr_id ?ss) = mset (map r_id vs @ filter (\<lambda>i. i \<notin> set (map r_id vs)) (map fst fts))"
    using ms [of ha_id] ac(1) by (simp only:)
  have k: "kanbudb_hybrid_search qsort vs fts ps max_results = take ?n ?ss"
  proof (cases "vs = [] \<and> fts = []")
    case True
    then have "?ss = []" using ids by simp
    then show ?thesis using True by (simp add: kanbudb_hybrid_search_def)
  next
    case False
    then show ?thesis using assms(7) by (auto simp: kanbudb_hybrid_search_def Let_def take_map)
  qed
  note sm = sorted_merge [OF assms(1,2,4,5)]
  have "map hr_score ?ss = map ?rrf (map hr_id ?ss)" using sc by simp
  then have "mset (map hr_score ?ss) = image_mset ?rrf (mset (map hr_id ?ss))" by (simp only: mset_map)
  also have "\<dots> = image_mset ?rrf (mset (map hr_id (merged_of ps vs fts)))" unfolding ids merged_of(1) [OF assms(1,2)] ..
  also have "\<dots> = mset (map hr_score (sorted_merge ps vs fts))"
    unfolding mset_map sm(1) [symmetric] image_mset.compositionality by (rule image_mset_cong) (use sm(2) in simp)
  finally have "map hr_score ?ss = map hr_score (sorted_merge ps vs fts)"
    by (rule descending_unique) (use sc pos so sm(3) in \<open>simp_all add: sorted_wrt_map\<close>)
  then have "map hr_score (take ?n ?ss) = map hr_score (take ?n (sorted_merge ps vs fts))" by (metis take_map)
  then show ?thesis unfolding k using fused_take [OF union_ids [OF assms(1,2) ids] sc so] by (simp add: fuse_def sorted_merge_def Let_def)
qed

lemma d_weight_one: "d_weight d_one"
  by (simp add: d_weight_def d_pos_def fp_pos_def fp_fin_def fp_abs_def fp_neg_def F64_consts d_one_def)

definition ex_hybrid :: hybrid_params where
  "ex_hybrid = \<lparr>hp_mode = KANBUDB_HYBRID_RRF, vec_weight = d_one, fts_weight = d_one, hp_k = 0\<rparr>"

theorem hybrid_fusions_agree_witness:
  "\<exists>rs. kanbudb_hybrid_search sort_by [\<lparr>r_id = 1, r_distance = 0\<rparr>, \<lparr>r_id = 2, r_distance = 0\<rparr>] [(2, d_one)] ex_hybrid 5 = rs \<and> set (map hr_id rs) = {1, 2} \<and>
     map hr_score rs = map hr_score (fuse ex_hybrid [\<lparr>r_id = 1, r_distance = 0\<rparr>, \<lparr>r_id = 2, r_distance = 0\<rparr>] [(2, d_one)] 5)"
proof -
  let ?vs = "[\<lparr>r_id = 1, r_distance = 0\<rparr>, \<lparr>r_id = 2, r_distance = 0\<rparr>]"
  let ?rs = "kanbudb_hybrid_search sort_by ?vs [(2, d_one)] ex_hybrid 5"
  have a: "fused ex_hybrid (map r_id ?vs) (map fst [(2, d_one)]) 5 ?rs \<and> map hr_score ?rs = map hr_score (fuse ex_hybrid ?vs [(2, d_one)] 5)"
    by (rule hybrid_fusions_agree [OF _ _ _ _ _ sb.qsort_spec_axioms]) (simp_all add: ex_hybrid_def d_weight_one)
  have u: "set (map r_id ?vs) \<union> set (map fst [(2, d_one)]) = {1, 2 :: u64}" by auto
  have c: "card {1, 2 :: u64} = 2" by simp
  have f: "distinct (map hr_id ?rs)" "length ?rs = min (nat 5) (card {1, 2 :: u64})" "set (map hr_id ?rs) \<subseteq> {1, 2}"
    using a unfolding fused_def u by auto
  then have "card (set (map hr_id ?rs)) = 2" using distinct_card [OF f(1)] c by simp
  then have "set (map hr_id ?rs) = {1, 2}" using card_subset_eq [OF _ f(3)] c by simp
  then show ?thesis using a by blast
qed



end
