(* ===== verification/Page_Cache.thy ===== *)
theory Page_Cache
  imports Prelude
begin

text \<open>
  The page cache of \<^verbatim>\<open>src/src/util/page_cache.c\<close>. Pages live in a heap; a slot's \<^verbatim>\<open>hash_next\<close> chain is the
  list of its addresses, the circular LRU list behind the sentinel \<^verbatim>\<open>lru_head\<close> is a list whose head
  is the most recently used page. Following a pointer to a freed page makes an operation return
  \<open>None\<close>. Pages not marked dirty are never written, freed pages not at all.
\<close>

section \<open>State\<close>

type_synonym page_addr = nat

definition KANBUDB_PAGE_SIZE :: nat where "KANBUDB_PAGE_SIZE = 4096"

record kanbudb_page =
  pg_id :: u64
  pg_data :: bytes
  pg_refcount :: int
  pg_dirty :: bool

record kanbudb_page_cache =
  pages :: "page_addr \<Rightarrow> kanbudb_page option"
  slots :: "page_addr list list"
  capacity :: u64
  pcount :: nat
  lru :: "page_addr list"
  hits :: u64
  misses :: u64
  next_page :: page_addr

definition page_cache_init :: "u64 \<Rightarrow> kanbudb_page_cache option" where
  "page_cache_init max_pages =
     (if max_pages = 0 then None
      else Some \<lparr>pages = Map.empty, slots = replicate (unat max_pages) [], capacity = max_pages, pcount = 0, lru = [],
                 hits = 0, misses = 0, next_page = 0\<rparr>)"

section \<open>Operations\<close>

text \<open>\<^verbatim>\<open>lru_remove\<close> followed by \<^verbatim>\<open>lru_push_front\<close>.\<close>

definition lru_remove :: "kanbudb_page_cache \<Rightarrow> page_addr \<Rightarrow> kanbudb_page_cache" where
  "lru_remove pc a = pc\<lparr>lru := remove1 a (lru pc)\<rparr>"

definition lru_push_front :: "kanbudb_page_cache \<Rightarrow> page_addr \<Rightarrow> kanbudb_page_cache" where
  "lru_push_front pc a = pc\<lparr>lru := a # lru pc\<rparr>"

fun find_page :: "(page_addr \<Rightarrow> kanbudb_page option) \<Rightarrow> page_addr list \<Rightarrow> u64 \<Rightarrow> (page_addr \<times> kanbudb_page) option option" where
  "find_page h [] pid = Some None"
| "find_page h (a # as) pid =
     (case h a of
        None \<Rightarrow> None
      | Some p \<Rightarrow> if pg_id p = pid then Some (Some (a, p)) else find_page h as pid)"

definition slot_of :: "kanbudb_page_cache \<Rightarrow> u64 \<Rightarrow> nat" where
  "slot_of pc pid = unat (pid mod capacity pc)"

text \<open>A hit: the page moves to the front and gains a reference.\<close>

definition touch :: "kanbudb_page_cache \<Rightarrow> page_addr \<Rightarrow> kanbudb_page \<Rightarrow> kanbudb_page_cache" where
  "touch pc a p =
     (lru_push_front (lru_remove pc a) a)\<lparr>pages := (pages pc)(a \<mapsto> p\<lparr>pg_refcount := pg_refcount p + 1\<rparr>)\<rparr>"

definition page_cache_get :: "kanbudb_page_cache \<Rightarrow> u64 \<Rightarrow> (kanbudb_page_cache \<times> page_addr option) option" where
  "page_cache_get pc page_id =
     (case find_page (pages pc) (slots pc ! slot_of pc page_id) page_id of
        None \<Rightarrow> None
      | Some None \<Rightarrow> Some (pc\<lparr>misses := misses pc + 1\<rparr>, None)
      | Some (Some (a, p)) \<Rightarrow> Some ((touch pc a p)\<lparr>hits := hits pc + 1\<rparr>, Some a))"

text \<open>The search for a page to evict, from the least recently used one on.\<close>

fun find_victim :: "(page_addr \<Rightarrow> kanbudb_page option) \<Rightarrow> page_addr list \<Rightarrow> (page_addr \<times> kanbudb_page) option option" where
  "find_victim h [] = Some None"
| "find_victim h (a # as) =
     (case h a of
        None \<Rightarrow> None
      | Some p \<Rightarrow> if pg_refcount p > 1 then find_victim h as else Some (Some (a, p)))"

definition evict_page :: "kanbudb_page_cache \<Rightarrow> page_addr \<Rightarrow> kanbudb_page \<Rightarrow> kanbudb_page_cache" where
  "evict_page pc a p =
     (let i = slot_of pc (pg_id p)
      in (lru_remove pc a)\<lparr>slots := (slots pc)[i := remove1 a (slots pc ! i)], pages := (pages pc)(a := None),
           pcount := pcount pc - 1\<rparr>)"

definition add_page :: "kanbudb_page_cache \<Rightarrow> u64 \<Rightarrow> kanbudb_page_cache \<times> page_addr" where
  "add_page pc page_id =
     (let a = next_page pc; i = slot_of pc page_id;
          p = \<lparr>pg_id = page_id, pg_data = replicate KANBUDB_PAGE_SIZE 0, pg_refcount = 1, pg_dirty = False\<rparr>
      in ((lru_push_front pc a)\<lparr>slots := (slots pc)[i := a # slots pc ! i], pages := (pages pc)(a \<mapsto> p),
            pcount := pcount pc + 1, next_page := Suc a\<rparr>, a))"

definition page_cache_alloc :: "kanbudb_page_cache \<Rightarrow> u64 \<Rightarrow> (kanbudb_page_cache \<times> page_addr option) option" where
  "page_cache_alloc pc page_id =
     (case find_page (pages pc) (slots pc ! slot_of pc page_id) page_id of
        None \<Rightarrow> None
      | Some (Some (a, p)) \<Rightarrow> Some (touch pc a p, Some a)
      | Some None \<Rightarrow>
          if pcount pc \<ge> unat (capacity pc) then
            (case find_victim (pages pc) (rev (lru pc)) of
               None \<Rightarrow> None
             | Some None \<Rightarrow> Some (pc, None)
             | Some (Some (a, p)) \<Rightarrow> (case add_page (evict_page pc a p) page_id of (pc', b) \<Rightarrow> Some (pc', Some b)))
          else (case add_page pc page_id of (pc', b) \<Rightarrow> Some (pc', Some b)))"

definition page_cache_release :: "kanbudb_page_cache \<Rightarrow> page_addr \<Rightarrow> kanbudb_page_cache option" where
  "page_cache_release pc a =
     map_option (\<lambda>p. pc\<lparr>pages := (pages pc)(a \<mapsto> p\<lparr>pg_refcount := pg_refcount p - 1\<rparr>)\<rparr>) (pages pc a)"

definition page_cache_mark_dirty :: "kanbudb_page_cache \<Rightarrow> page_addr \<Rightarrow> kanbudb_page_cache option" where
  "page_cache_mark_dirty pc a = map_option (\<lambda>p. pc\<lparr>pages := (pages pc)(a \<mapsto> p\<lparr>pg_dirty := True\<rparr>)\<rparr>) (pages pc a)"

text \<open>\<^verbatim>\<open>page_cache_flush\<close> with the callback \<^verbatim>\<open>write_fn\<close>.\<close>

fun flush_pages ::
  "(u64 \<Rightarrow> bytes \<Rightarrow> 'c \<Rightarrow> 'c) \<Rightarrow> page_addr list \<Rightarrow> (page_addr \<Rightarrow> kanbudb_page option) \<Rightarrow> 'c \<Rightarrow>
   ((page_addr \<Rightarrow> kanbudb_page option) \<times> 'c) option" where
  "flush_pages write_fn [] h ctx = Some (h, ctx)"
| "flush_pages write_fn (a # as) h ctx =
     (case h a of
        None \<Rightarrow> None
      | Some p \<Rightarrow>
          if pg_dirty p then flush_pages write_fn as (h(a \<mapsto> p\<lparr>pg_dirty := False\<rparr>)) (write_fn (pg_id p) (pg_data p) ctx)
          else flush_pages write_fn as h ctx)"

definition page_cache_flush ::
  "(u64 \<Rightarrow> bytes \<Rightarrow> 'c \<Rightarrow> 'c) \<Rightarrow> kanbudb_page_cache \<Rightarrow> 'c \<Rightarrow> (kanbudb_page_cache \<times> 'c) option" where
  "page_cache_flush write_fn pc ctx =
     map_option (\<lambda>(h, c). (pc\<lparr>pages := h\<rparr>, c)) (flush_pages write_fn (concat (slots pc)) (pages pc) ctx)"

section \<open>The invariant\<close>

definition unique_ids :: "(page_addr \<Rightarrow> kanbudb_page option) \<Rightarrow> bool" where
  "unique_ids h \<longleftrightarrow> (\<forall>a b p q. h a = Some p \<longrightarrow> h b = Some q \<longrightarrow> pg_id p = pg_id q \<longrightarrow> a = b)"

definition pc_inv :: "kanbudb_page_cache \<Rightarrow> bool" where
  "pc_inv pc \<longleftrightarrow>
     0 < unat (capacity pc) \<and> length (slots pc) = unat (capacity pc) \<and>
     distinct (lru pc) \<and> set (lru pc) = dom (pages pc) \<and> pcount pc = length (lru pc) \<and> pcount pc \<le> unat (capacity pc) \<and>
     (\<forall>i < length (slots pc). distinct (slots pc ! i) \<and>
        set (slots pc ! i) = {a. \<exists>p. pages pc a = Some p \<and> slot_of pc (pg_id p) = i}) \<and>
     unique_ids (pages pc) \<and> (\<forall>a\<in>dom (pages pc). a < next_page pc)"

lemma slot_less: "0 < unat (capacity pc) \<Longrightarrow> slot_of pc pid < unat (capacity pc)"
  by (simp add: slot_of_def unat_mod)

lemma slot_of_fields [simp]:
  "slot_of (pc\<lparr>pages := h\<rparr>) = slot_of pc" "slot_of (pc\<lparr>slots := s\<rparr>) = slot_of pc" "slot_of (pc\<lparr>lru := l\<rparr>) = slot_of pc"
  "slot_of (pc\<lparr>pcount := n\<rparr>) = slot_of pc" "slot_of (pc\<lparr>hits := x\<rparr>) = slot_of pc" "slot_of (pc\<lparr>misses := x\<rparr>) = slot_of pc"
  "slot_of (pc\<lparr>next_page := m\<rparr>) = slot_of pc"
  by (simp_all add: slot_of_def fun_eq_iff)

text \<open>In a well-formed cache the chain of the page's slot decides whether the page is there.\<close>

lemma find_page_found:
  assumes "\<forall>a\<in>set as. \<exists>p. h a = Some p" and "unique_ids h"
  shows "\<exists>r. find_page h as pid = Some r \<and>
    (\<forall>a p. r = Some (a, p) \<longleftrightarrow> a \<in> set as \<and> h a = Some p \<and> pg_id p = pid)"
  using assms(1)
proof (induction as)
  case (Cons x as)
  obtain q where q: "h x = Some q" using Cons.prems by auto
  show ?case
  proof (cases "pg_id q = pid")
    case True
    then show ?thesis using q assms(2) unfolding unique_ids_def by auto (metis option.inject)+
  next
    case False
    then show ?thesis using Cons q by auto
  qed
qed simp

lemma find_page_ok:
  assumes "pc_inv pc"
  shows "\<exists>r. find_page (pages pc) (slots pc ! slot_of pc pid) pid = Some r \<and>
    (\<forall>a p. r = Some (a, p) \<longleftrightarrow> pages pc a = Some p \<and> pg_id p = pid)"
proof -
  have i: "slot_of pc pid < length (slots pc)" and u: "unique_ids (pages pc)"
    using assms slot_less [of pc pid] by (simp_all add: pc_inv_def)
  then have s: "set (slots pc ! slot_of pc pid) = {a. \<exists>p. pages pc a = Some p \<and> slot_of pc (pg_id p) = slot_of pc pid}"
    using assms by (simp add: pc_inv_def)
  have d: "\<forall>a\<in>set (slots pc ! slot_of pc pid). \<exists>p. pages pc a = Some p" using s by auto
  obtain r where r: "find_page (pages pc) (slots pc ! slot_of pc pid) pid = Some r"
    "\<forall>a p. r = Some (a, p) \<longleftrightarrow> a \<in> set (slots pc ! slot_of pc pid) \<and> pages pc a = Some p \<and> pg_id p = pid"
    using find_page_found [OF d u, of pid] by blast
  then show ?thesis using s by auto
qed

lemma find_victim_ok:
  assumes "\<forall>a\<in>set as. \<exists>p. h a = Some p"
  shows "find_victim h as = Some (case dropWhile (\<lambda>a. pg_refcount (the (h a)) > 1) as of [] \<Rightarrow> None | a # _ \<Rightarrow> Some (a, the (h a)))"
  using assms by (induction as) auto

section \<open>Every operation keeps the invariant\<close>

lemma pc_inv_page:
  assumes "pc_inv pc" and "pages pc a = Some p" and "pg_id p' = pg_id p"
  shows "pc_inv (pc\<lparr>pages := (pages pc)(a \<mapsto> p')\<rparr>)"
proof -
  have "{b. \<exists>q. ((pages pc)(a \<mapsto> p')) b = Some q \<and> slot_of pc (pg_id q) = i} =
      {b. \<exists>q. pages pc b = Some q \<and> slot_of pc (pg_id q) = i}" for i
    using assms(2,3) by auto
  moreover have "dom ((pages pc)(a \<mapsto> p')) = dom (pages pc)" using assms(2) by auto
  moreover have "unique_ids ((pages pc)(a \<mapsto> p'))"
    using assms unfolding pc_inv_def unique_ids_def by (metis fun_upd_apply option.inject)
  ultimately show ?thesis using assms(1) unfolding pc_inv_def by simp
qed

lemma pc_inv_lru:
  assumes "pc_inv pc" and "distinct l" and "set l = set (lru pc)"
  shows "pc_inv (pc\<lparr>lru := l\<rparr>)"
proof -
  have "length l = length (lru pc)" using assms distinct_card [of l] distinct_card [of "lru pc"] by (simp add: pc_inv_def)
  then show ?thesis using assms unfolding pc_inv_def by simp
qed

lemma touch_inv:
  assumes "pc_inv pc" and "pages pc a = Some p"
  shows "pc_inv (touch pc a p)"
proof -
  have a: "a \<in> set (lru pc)" and d: "distinct (lru pc)" using assms by (auto simp: pc_inv_def)
  have "pc_inv (pc\<lparr>lru := a # remove1 a (lru pc)\<rparr>)"
    by (rule pc_inv_lru [OF assms(1)]) (use a d in \<open>auto simp: set_remove1_eq\<close>)
  from pc_inv_page [OF this, of a p "p\<lparr>pg_refcount := pg_refcount p + 1\<rparr>"] assms(2)
  show ?thesis by (simp add: touch_def lru_push_front_def lru_remove_def)
qed

lemma pc_inv_counters:
  "pc_inv (pc\<lparr>hits := x\<rparr>) = pc_inv pc" "pc_inv (pc\<lparr>misses := x\<rparr>) = pc_inv pc"
  by (simp_all add: pc_inv_def)

lemma evict_inv:
  assumes inv: "pc_inv pc" and a: "pages pc a = Some p"
  shows "pc_inv (evict_page pc a p) \<and> pcount (evict_page pc a p) < unat (capacity pc)"
proof -
  let ?i = "slot_of pc (pg_id p)" and ?h = "(pages pc)(a := None)"
  have al: "a \<in> set (lru pc)" "distinct (lru pc)" and n: "pcount pc = length (lru pc)" "pcount pc \<le> unat (capacity pc)"
    and cap: "0 < unat (capacity pc)" "length (slots pc) = unat (capacity pc)"
    using assms by (auto simp: pc_inv_def)
  have i: "?i < length (slots pc)" using slot_less cap by simp
  have ch: "distinct (slots pc ! j)" "set (slots pc ! j) = {b. \<exists>q. pages pc b = Some q \<and> slot_of pc (pg_id q) = j}"
    if "j < length (slots pc)" for j
    using inv that unfolding pc_inv_def by blast+
  have "distinct ((slots pc)[?i := remove1 a (slots pc ! ?i)] ! j) \<and>
      set ((slots pc)[?i := remove1 a (slots pc ! ?i)] ! j) = {b. \<exists>q. ?h b = Some q \<and> slot_of pc (pg_id q) = j}"
    if j: "j < length (slots pc)" for j
    using ch [OF j] a i by (cases "j = ?i") (auto simp: nth_list_update set_remove1_eq distinct_remove1)
  moreover have "length (remove1 a (lru pc)) = pcount pc - 1" using al n by (simp add: length_remove1)
  moreover have "set (remove1 a (lru pc)) = dom ?h" using al inv by (auto simp: set_remove1_eq pc_inv_def)
  moreover have "0 < pcount pc" using al n by (cases "lru pc") auto
  then have lt: "pcount pc - 1 < unat (capacity pc)" using n(2) by linarith
  moreover have "unique_ids ?h" "\<forall>b\<in>dom ?h. b < next_page pc"
    using inv unfolding pc_inv_def unique_ids_def by (metis fun_upd_apply option.distinct(1), simp)
  ultimately show ?thesis
    using al n cap lt by (simp add: pc_inv_def evict_page_def lru_remove_def Let_def distinct_remove1)
qed

lemma add_inv:
  assumes inv: "pc_inv pc" and room: "pcount pc < unat (capacity pc)" and new: "\<forall>a p. pages pc a = Some p \<longrightarrow> pg_id p \<noteq> pid"
    and add: "add_page pc pid = (pc', b)"
  shows "pc_inv pc' \<and> (\<exists>p. pages pc' b = Some p \<and> pg_id p = pid \<and> pg_data p = replicate 4096 0) \<and> b \<notin> dom (pages pc)"
proof -
  let ?i = "slot_of pc pid" and ?a = "next_page pc"
  let ?p = "\<lparr>pg_id = pid, pg_data = replicate KANBUDB_PAGE_SIZE 0, pg_refcount = 1, pg_dirty = False\<rparr>"
  let ?h = "(pages pc)(?a \<mapsto> ?p)"
  have fresh: "pages pc ?a = None" using inv unfolding pc_inv_def by (meson domIff less_irrefl)
  have cap: "0 < unat (capacity pc)" "length (slots pc) = unat (capacity pc)" and d: "distinct (lru pc)" "set (lru pc) = dom (pages pc)"
    and n: "pcount pc = length (lru pc)"
    using inv by (auto simp: pc_inv_def)
  have i: "?i < length (slots pc)" using slot_less cap by simp
  have ch: "distinct (slots pc ! j)" "set (slots pc ! j) = {b. \<exists>q. pages pc b = Some q \<and> slot_of pc (pg_id q) = j}"
    if "j < length (slots pc)" for j
    using inv that unfolding pc_inv_def by blast+
  have "distinct ((slots pc)[?i := ?a # slots pc ! ?i] ! j) \<and>
      set ((slots pc)[?i := ?a # slots pc ! ?i] ! j) = {b. \<exists>q. ?h b = Some q \<and> slot_of pc (pg_id q) = j}"
    if j: "j < length (slots pc)" for j
    using ch [OF j] fresh i by (cases "j = ?i") (auto simp: nth_list_update)
  moreover have "?a \<notin> set (lru pc)" using d(2) fresh by (simp add: domIff)
  moreover have "unique_ids ?h"
    using inv new unfolding pc_inv_def unique_ids_def by (auto; metis)
  moreover have "\<forall>b\<in>dom ?h. b < Suc ?a" using inv unfolding pc_inv_def by (simp add: less_SucI)
  ultimately have "pc_inv pc'"
    using add room d n cap by (auto simp: pc_inv_def add_page_def lru_push_front_def Let_def)
  then show ?thesis using add fresh by (auto simp: add_page_def lru_push_front_def Let_def KANBUDB_PAGE_SIZE_def)
qed

lemma get_ok:
  assumes "pc_inv pc"
  obtains pc' r where "page_cache_get pc pid = Some (pc', r)" and "pc_inv pc'"
    and "\<And>a. r = Some a \<longleftrightarrow> (\<exists>p. pages pc a = Some p \<and> pg_id p = pid)"
proof -
  obtain x where x: "find_page (pages pc) (slots pc ! slot_of pc pid) pid = Some x"
    "\<forall>a p. x = Some (a, p) \<longleftrightarrow> pages pc a = Some p \<and> pg_id p = pid"
    using find_page_ok [OF assms, of pid] by blast
  show thesis
  proof (cases x)
    case None
    then show ?thesis
      using that [of "pc\<lparr>misses := misses pc + 1\<rparr>" None] x assms by (simp add: page_cache_get_def pc_inv_counters)
  next
    case (Some ap)
    obtain a p where ap: "ap = (a, p)" by (cases ap)
    have p: "pages pc a = Some p" "pg_id p = pid" using x(2) [rule_format, of a p] Some ap by simp_all
    have "\<And>b. a = b \<longleftrightarrow> (\<exists>q. pages pc b = Some q \<and> pg_id q = pid)" using x(2) Some ap p by auto
    then show ?thesis
      using that [of "(touch pc a p)\<lparr>hits := hits pc + 1\<rparr>" "Some a"] x(1) Some ap touch_inv [OF assms p(1)]
      by (simp add: page_cache_get_def pc_inv_counters)
  qed
qed

lemma alloc_ok:
  assumes inv: "pc_inv pc"
  obtains pc' r where "page_cache_alloc pc pid = Some (pc', r)" and "pc_inv pc'"
    and "\<And>a. r = Some a \<Longrightarrow> \<exists>p. pages pc' a = Some p \<and> pg_id p = pid"
    and "r = None \<Longrightarrow> pc' = pc \<and> pcount pc = unat (capacity pc) \<and> (\<forall>a p. pages pc a = Some p \<longrightarrow> pg_refcount p > 1)"
proof -
  obtain x where x: "find_page (pages pc) (slots pc ! slot_of pc pid) pid = Some x"
    "\<forall>a p. x = Some (a, p) \<longleftrightarrow> pages pc a = Some p \<and> pg_id p = pid"
    using find_page_ok [OF inv, of pid] by blast
  show thesis
  proof (cases x)
    case (Some ap)
    obtain a p where ap: "ap = (a, p)" by (cases ap)
    have p: "pages pc a = Some p" "pg_id p = pid" using x(2) [rule_format, of a p] Some ap by simp_all
    show ?thesis
      using that [of "touch pc a p" "Some a"] x(1) Some ap touch_inv [OF inv p(1)] p
      by (simp add: page_cache_alloc_def touch_def)
  next
    case None
    then have new: "\<forall>a p. pages pc a = Some p \<longrightarrow> pg_id p \<noteq> pid" using x(2) by auto
    show ?thesis
    proof (cases "pcount pc \<ge> unat (capacity pc)")
      case False
      obtain pc' b where a: "add_page pc pid = (pc', b)" by (cases "add_page pc pid")
      then show ?thesis
        using that [of pc' "Some b"] add_inv [OF inv _ new a] False x(1) None by (auto simp: page_cache_alloc_def)
    next
      case True
      have lru: "\<forall>a\<in>set (rev (lru pc)). \<exists>p. pages pc a = Some p" and dom: "set (lru pc) = dom (pages pc)"
        and n: "pcount pc = unat (capacity pc)"
        using inv True by (auto simp: pc_inv_def)
      note v = find_victim_ok [OF lru]
      show ?thesis
      proof (cases "dropWhile (\<lambda>a. pg_refcount (the (pages pc a)) > 1) (rev (lru pc))")
        case Nil
        then have "\<forall>a p. pages pc a = Some p \<longrightarrow> pg_refcount p > 1"
          using dom by (auto simp: dropWhile_eq_Nil_conv) (metis domI option.sel)
        then show ?thesis using that [of pc None] v Nil x(1) None True n inv by (simp add: page_cache_alloc_def)
      next
        case (Cons a as)
        then have "a \<in> set (rev (lru pc))" by (metis list.set_intros(1) set_dropWhileD)
        then obtain p where p: "pages pc a = Some p" using lru by blast
        note ev = evict_inv [OF inv p]
        obtain pc' b where ad: "add_page (evict_page pc a p) pid = (pc', b)" by (cases "add_page (evict_page pc a p) pid")
        have ev2: "capacity (evict_page pc a p) = capacity pc" "\<forall>b q. pages (evict_page pc a p) b = Some q \<longrightarrow> pg_id q \<noteq> pid"
          using new by (auto simp: evict_page_def lru_remove_def Let_def)
        have "pc_inv pc' \<and> (\<exists>q. pages pc' b = Some q \<and> pg_id q = pid)"
          using add_inv [OF _ _ ev2(2) ad] ev ev2(1) by auto
        then show ?thesis
          using that [of pc' "Some b"] v Cons x(1) None True p ad by (simp add: page_cache_alloc_def)
      qed
    qed
  qed
qed

lemma flush_pages_ok:
  assumes "\<forall>a\<in>set as. h a \<noteq> None" and "distinct as"
  shows "flush_pages w as h ctx =
    Some (\<lambda>a. if a \<in> set as then map_option (\<lambda>p. p\<lparr>pg_dirty := False\<rparr>) (h a) else h a,
          fold (\<lambda>a c. w (pg_id (the (h a))) (pg_data (the (h a))) c) (filter (\<lambda>a. pg_dirty (the (h a))) as) ctx)"
  using assms
proof (induction as arbitrary: h ctx)
  case (Cons a as)
  then obtain p where p: "h a = Some p" by auto
  show ?case
  proof (cases "pg_dirty p")
    case True
    let ?h = "h(a \<mapsto> p\<lparr>pg_dirty := False\<rparr>)"
    have "filter (\<lambda>b. pg_dirty (the (?h b))) as = filter (\<lambda>b. pg_dirty (the (h b))) as"
      using Cons.prems(2) by (intro filter_cong) auto
    moreover have "fold (\<lambda>b c. w (pg_id (the (?h b))) (pg_data (the (?h b))) c) xs c =
        fold (\<lambda>b c. w (pg_id (the (h b))) (pg_data (the (h b))) c) xs c" if "a \<notin> set xs" for xs c
      using that by (intro fold_cong) auto
    moreover have "\<forall>b\<in>set as. ?h b \<noteq> None" using Cons.prems by auto
    then have "flush_pages w as ?h (w (pg_id p) (pg_data p) ctx) =
      Some (\<lambda>b. if b \<in> set as then map_option (\<lambda>p. p\<lparr>pg_dirty := False\<rparr>) (?h b) else ?h b,
        fold (\<lambda>b c. w (pg_id (the (?h b))) (pg_data (the (?h b))) c) (filter (\<lambda>b. pg_dirty (the (?h b))) as) (w (pg_id p) (pg_data p) ctx))"
      using Cons.prems(2) by (intro Cons.IH) simp_all
    moreover have "(\<lambda>b. if b \<in> set as then map_option (\<lambda>p. p\<lparr>pg_dirty := False\<rparr>) (?h b) else ?h b) =
      (\<lambda>b. if b \<in> set (a # as) then map_option (\<lambda>p. p\<lparr>pg_dirty := False\<rparr>) (h b) else h b)"
      using p Cons.prems(2) by (auto simp: fun_eq_iff)
    moreover have "a \<notin> set (filter (\<lambda>b. pg_dirty (the (h b))) as)" using Cons.prems(2) by simp
    ultimately show ?thesis using p True by (simp del: fun_upd_apply)
  next
    case False
    have "p\<lparr>pg_dirty := False\<rparr> = p" using False by simp
    then show ?thesis using Cons.IH [of h ctx] Cons.prems p False by (auto simp: fun_eq_iff)
  qed
qed auto

lemma distinct_concat_nth:
  assumes "\<And>i. i < length xss \<Longrightarrow> distinct (xss ! i)"
    and "\<And>i j. i < j \<Longrightarrow> j < length xss \<Longrightarrow> set (xss ! i) \<inter> set (xss ! j) = {}"
  shows "distinct (concat xss)"
  using assms
proof (induction xss)
  case (Cons xs xss)
  have "distinct (concat xss)"
    using Cons.prems(1) [of "Suc _"] Cons.prems(2) [of "Suc _" "Suc _"] by (intro Cons.IH) auto
  moreover have "set xs \<inter> set ys = {}" if "ys \<in> set xss" for ys
    using that Cons.prems(2) [of 0 "Suc _"] by (auto simp: in_set_conv_nth)
  ultimately show ?case using Cons.prems(1) [of 0] by auto
qed simp

lemma chains_dom:
  assumes "pc_inv pc"
  shows "\<forall>a\<in>set (concat (slots pc)). pages pc a \<noteq> None" and "distinct (concat (slots pc))"
proof -
  have ch: "distinct (slots pc ! j)" "set (slots pc ! j) = {b. \<exists>q. pages pc b = Some q \<and> slot_of pc (pg_id q) = j}"
    if "j < length (slots pc)" for j
    using assms that unfolding pc_inv_def by blast+
  show "\<forall>a\<in>set (concat (slots pc)). pages pc a \<noteq> None" using ch(2) by (fastforce simp: in_set_conv_nth)
  show "distinct (concat (slots pc))"
  proof (rule distinct_concat_nth)
    fix i j
    assume "i < j" "j < length (slots pc)"
    then show "set (slots pc ! i) \<inter> set (slots pc ! j) = {}" using ch(2) [of i] ch(2) [of j] by auto
  qed (rule ch(1))
qed

lemma flush_inv:
  assumes inv: "pc_inv pc" and "page_cache_flush w pc ctx = Some (pc', c)"
  shows "pc_inv pc'"
proof -
  let ?h = "\<lambda>a. if a \<in> set (concat (slots pc)) then map_option (\<lambda>p. p\<lparr>pg_dirty := False\<rparr>) (pages pc a) else pages pc a"
  have pc': "pc' = pc\<lparr>pages := ?h\<rparr>"
    using assms(2) flush_pages_ok [OF chains_dom [OF inv], of w ctx] by (simp add: page_cache_flush_def)
  have ids: "map_option pg_id (?h a) = map_option pg_id (pages pc a)" for a by (auto simp: option.map_comp comp_def)
  have some: "(\<exists>q. ?h a = Some q \<and> P (pg_id q)) \<longleftrightarrow> (\<exists>q. pages pc a = Some q \<and> P (pg_id q))" for a P
    using ids [of a] by (cases "pages pc a"; cases "?h a") auto
  have "unique_ids ?h"
    unfolding unique_ids_def
  proof (intro allI impI)
    fix a b p q
    assume "?h a = Some p" "?h b = Some q" "pg_id p = pg_id q"
    then obtain p' q' where "pages pc a = Some p'" "pages pc b = Some q'" "pg_id p' = pg_id q'"
      using some [of a "\<lambda>x. x = pg_id p"] some [of b "\<lambda>x. x = pg_id p"] by auto
    then show "a = b" using inv unfolding pc_inv_def unique_ids_def by blast
  qed
  moreover have "dom ?h = dom (pages pc)" by (auto simp: dom_def)
  moreover have "{a. \<exists>q. ?h a = Some q \<and> slot_of pc (pg_id q) = i} = {a. \<exists>q. pages pc a = Some q \<and> slot_of pc (pg_id q) = i}" for i
    using some [of _ "\<lambda>x. slot_of pc x = i"] by blast
  ultimately show ?thesis using inv unfolding pc' pc_inv_def by simp
qed

inductive pc_reach :: "kanbudb_page_cache \<Rightarrow> bool" where
  "page_cache_init n = Some pc \<Longrightarrow> pc_reach pc"
| "pc_reach pc \<Longrightarrow> page_cache_get pc pid = Some (pc', r) \<Longrightarrow> pc_reach pc'"
| "pc_reach pc \<Longrightarrow> page_cache_alloc pc pid = Some (pc', r) \<Longrightarrow> pc_reach pc'"
| "pc_reach pc \<Longrightarrow> page_cache_release pc a = Some pc' \<Longrightarrow> pc_reach pc'"
| "pc_reach pc \<Longrightarrow> page_cache_mark_dirty pc a = Some pc' \<Longrightarrow> pc_reach pc'"
| "pc_reach pc \<Longrightarrow> page_cache_flush w pc (ctx :: (u64 \<times> bytes) list) = Some (pc', c) \<Longrightarrow> pc_reach pc'"

lemma init_inv: "page_cache_init n = Some pc \<Longrightarrow> pc_inv pc"
  by (auto simp: page_cache_init_def pc_inv_def unique_ids_def word_neq_0_conv word_less_nat_alt split: if_splits)

lemma reach_inv: "pc_reach pc \<Longrightarrow> pc_inv pc"
proof (induction rule: pc_reach.induct)
  case (2 pc pid pc' r)
  then show ?case using get_ok [of pc pid] by (metis option.inject prod.inject)
next
  case (3 pc pid pc' r)
  then show ?case using alloc_ok [of pc pid] by (metis option.inject prod.inject)
qed (auto simp: page_cache_release_def page_cache_mark_dirty_def intro: init_inv pc_inv_page dest: flush_inv)

section \<open>Properties\<close>

text \<open>
  C38. The cache never holds more pages than its capacity, never two pages with one identifier, and
  its chains, its LRU list and its counter always describe the same set of pages. So no
  lookup or allocation follows a dangling pointer, and \<^verbatim>\<open>page_cache_get\<close> finds a page exactly
  when it is cached.
\<close>

theorem page_cache_invariant:
  assumes "pc_reach pc"
  shows "pcount pc = card (dom (pages pc)) \<and> pcount pc \<le> unat (capacity pc) \<and> unique_ids (pages pc) \<and>
    (\<exists>pc' r. page_cache_get pc pid = Some (pc', r) \<and> (\<forall>a. r = Some a \<longleftrightarrow> (\<exists>p. pages pc a = Some p \<and> pg_id p = pid))) \<and>
    (\<exists>pc' r. page_cache_alloc pc pid = Some (pc', r) \<and>
       (case r of Some a \<Rightarrow> \<exists>p. pages pc' a = Some p \<and> pg_id p = pid
        | None \<Rightarrow> pc' = pc \<and> (\<forall>a p. pages pc a = Some p \<longrightarrow> pg_refcount p > 1)))"
proof -
  have inv: "pc_inv pc" by (rule reach_inv [OF assms])
  then have "pcount pc = card (dom (pages pc))" "pcount pc \<le> unat (capacity pc)" "unique_ids (pages pc)"
    using distinct_card [of "lru pc"] by (auto simp: pc_inv_def)
  moreover obtain pc' r where "page_cache_get pc pid = Some (pc', r)" "\<forall>a. r = Some a \<longleftrightarrow> (\<exists>p. pages pc a = Some p \<and> pg_id p = pid)"
    using get_ok [OF inv, of pid] by metis
  moreover have "\<exists>pc' r. page_cache_alloc pc pid = Some (pc', r) \<and>
      (case r of Some a \<Rightarrow> \<exists>p. pages pc' a = Some p \<and> pg_id p = pid
       | None \<Rightarrow> pc' = pc \<and> (\<forall>a p. pages pc a = Some p \<longrightarrow> pg_refcount p > 1))"
  proof (rule alloc_ok [OF inv, of pid])
    fix pc' r
    assume "page_cache_alloc pc pid = Some (pc', r)" "\<And>a. r = Some a \<Longrightarrow> \<exists>p. pages pc' a = Some p \<and> pg_id p = pid"
      "r = None \<Longrightarrow> pc' = pc \<and> pcount pc = unat (capacity pc) \<and> (\<forall>a p. pages pc a = Some p \<longrightarrow> pg_refcount p > 1)"
    then show ?thesis by (cases r) auto
  qed
  ultimately show ?thesis by blast
qed

theorem page_cache_invariant_witness:
  "\<exists>pc. pc_reach pc \<and> page_cache_init 2 = Some pc \<and> pcount pc = card (dom (pages pc)) \<and> pcount pc \<le> unat (capacity pc)"
proof -
  obtain pc where "page_cache_init 2 = Some pc" by (auto simp: page_cache_init_def)
  then show ?thesis using page_cache_invariant [OF pc_reach.intros(1)] pc_reach.intros(1) by blast
qed

text \<open>
  Eviction takes pages that are still in use: when the cache is full, the least recently used
  page with at most one reference is freed for a new one, although one reference is what a
  page has while its first user holds it, and even if it is dirty. The user's later release
  is an access to freed memory.
\<close>

theorem page_cache_evicts_held_page:
  assumes "pc_inv pc" and "pcount pc = unat (capacity pc)" and "lru pc = xs @ [a]" and "pages pc a = Some p"
    and "pg_refcount p \<le> 1" and "\<forall>b q. pages pc b = Some q \<longrightarrow> pg_id q \<noteq> pid"
  shows "\<exists>pc' b. page_cache_alloc pc pid = Some (pc', Some b) \<and> pages pc' a = None \<and> page_cache_release pc' a = None"
proof -
  obtain x where x: "find_page (pages pc) (slots pc ! slot_of pc pid) pid = Some x"
    "\<forall>a p. x = Some (a, p) \<longleftrightarrow> pages pc a = Some p \<and> pg_id p = pid"
    using find_page_ok [OF assms(1)] by blast
  then have n: "x = None" using assms(6) by (cases x) auto
  have v: "find_victim (pages pc) (rev (lru pc)) = Some (Some (a, p))" using assms(3-5) by simp
  obtain pc' b where ad: "add_page (evict_page pc a p) pid = (pc', b)" by (cases "add_page (evict_page pc a p) pid")
  have "a < next_page pc" using assms(1,4) by (auto simp: pc_inv_def)
  then have "pages pc' a = None" using ad by (auto simp: add_page_def evict_page_def lru_push_front_def lru_remove_def Let_def)
  moreover have "page_cache_alloc pc pid = Some (pc', Some b)" using x(1) n v ad assms(2) by (simp add: page_cache_alloc_def)
  ultimately show ?thesis by (auto simp: page_cache_release_def)
qed

theorem page_cache_evicts_held_page_witness:
  "\<exists>pc pc' b. pc_inv pc \<and> map_option pg_dirty (pages pc 0) = Some True \<and> map_option pg_refcount (pages pc 0) = Some 1 \<and>
     page_cache_alloc pc 9 = Some (pc', Some b) \<and> page_cache_release pc' 0 = None"
proof -
  let ?p = "\<lparr>pg_id = 5, pg_data = replicate 4096 0, pg_refcount = 1, pg_dirty = True\<rparr>"
  let ?pc = "\<lparr>pages = [0 \<mapsto> ?p], slots = [[0]], capacity = 1, pcount = 1, lru = [0], hits = 0, misses = 0, next_page = 1\<rparr>"
  have inv: "pc_inv ?pc" by (auto simp: pc_inv_def unique_ids_def slot_of_def split: if_splits)
  have "\<forall>b q. pages ?pc b = Some q \<longrightarrow> pg_id q \<noteq> 9" by (auto split: if_splits)
  from page_cache_evicts_held_page [OF inv _ _ _ _ this, of "[]" 0 ?p]
  obtain pc' b where "page_cache_alloc ?pc 9 = Some (pc', Some b)" "page_cache_release pc' 0 = None" by auto
  then show ?thesis using inv by (intro exI [of _ ?pc] exI [of _ pc'] exI [of _ b]) simp
qed

end
