(* ===== verification/Arena.thy ===== *)
theory Arena
  imports Prelude
begin

unbundle bit_operations_syntax

text \<open>
  The arena allocator of \<^verbatim>\<open>src/src/util/arena.c\<close>. The chain from \<^verbatim>\<open>head\<close> is a list of blocks,
  \<^verbatim>\<open>current\<close> an index into it, and a pointer into the arena is the identity of a block with an
  offset into its data. The system allocator is a parameter: for a block number and a size it
  either fails or returns the contents of the new memory. Sizes are 64-bit words and wrap as in
  the code.
\<close>

section \<open>State\<close>

type_synonym allocator = "nat \<Rightarrow> u64 \<Rightarrow> (nat \<Rightarrow> byte) option"
type_synonym arena_ptr = "nat \<times> nat"

record block =
  blk_id :: nat
  blk_capacity :: u64
  blk_offset :: u64
  blk_data :: "nat \<Rightarrow> byte"

record arena =
  ar_blocks :: "block list"
  ar_current :: nat
  ar_block_size :: u64
  ar_used :: u64
  ar_next_id :: nat

definition KANBUDB_ALIGN :: "u64 \<Rightarrow> u64" where
  "KANBUDB_ALIGN sz = (sz + 8 - 1) AND NOT (8 - 1)"

section \<open>Operations\<close>

text \<open>The block header is 24 bytes, the arena itself 32.\<close>

definition block_create :: "allocator \<Rightarrow> nat \<Rightarrow> u64 \<Rightarrow> block option" where
  "block_create malloc i cap =
     map_option (\<lambda>d. \<lparr>blk_id = i, blk_capacity = cap, blk_offset = 0, blk_data = d\<rparr>) (malloc i (24 + cap))"

definition arena_create :: "allocator \<Rightarrow> u64 \<Rightarrow> arena option" where
  "arena_create malloc block_size =
     (case malloc 0 32 of
        None \<Rightarrow> None
      | Some _ \<Rightarrow>
          (let actual_block = (if block_size > 0 then block_size else 8192)
           in case block_create malloc 1 actual_block of
                None \<Rightarrow> None
              | Some b \<Rightarrow> Some \<lparr>ar_blocks = [b], ar_current = 0, ar_block_size = actual_block, ar_used = 0, ar_next_id = 2\<rparr>))"

text \<open>
  The overflow case of \<^verbatim>\<open>arena_alloc\<close>: \<^verbatim>\<open>b->next = newb\<close> cuts off what followed the current block.
\<close>

definition next_block :: "allocator \<Rightarrow> arena \<Rightarrow> u64 \<Rightarrow> arena option" where
  "next_block malloc a sz =
     map_option
       (\<lambda>newb. a\<lparr>ar_blocks := take (Suc (ar_current a)) (ar_blocks a) @ [newb], ar_current := Suc (ar_current a),
                 ar_next_id := Suc (ar_next_id a)\<rparr>)
       (block_create malloc (ar_next_id a) (if ar_block_size a > sz then ar_block_size a else sz))"

definition bump :: "arena \<Rightarrow> u64 \<Rightarrow> arena \<times> arena_ptr" where
  "bump a sz =
     (let b = ar_blocks a ! ar_current a
      in (a\<lparr>ar_blocks := (ar_blocks a)[ar_current a := b\<lparr>blk_offset := blk_offset b + sz\<rparr>], ar_used := ar_used a + sz\<rparr>,
          (blk_id b, unat (blk_offset b))))"

definition arena_alloc :: "allocator \<Rightarrow> arena \<Rightarrow> u64 \<Rightarrow> arena \<times> arena_ptr option" where
  "arena_alloc malloc a req =
     (if req = 0 then (a, None)
      else
        (let sz = KANBUDB_ALIGN req; b = ar_blocks a ! ar_current a
         in case (if blk_offset b + sz > blk_capacity b then next_block malloc a sz else Some a) of
              None \<Rightarrow> (a, None)
            | Some a' \<Rightarrow> (case bump a' sz of (a'', p) \<Rightarrow> (a'', Some p))))"

definition zero_bytes :: "arena_ptr \<Rightarrow> nat \<Rightarrow> block \<Rightarrow> block" where
  "zero_bytes p n b =
     (if blk_id b = fst p then b\<lparr>blk_data := (\<lambda>i. if snd p \<le> i \<and> i < snd p + n then 0 else blk_data b i)\<rparr> else b)"

definition arena_alloc_zero :: "allocator \<Rightarrow> arena \<Rightarrow> u64 \<Rightarrow> arena \<times> arena_ptr option" where
  "arena_alloc_zero malloc a req =
     (case arena_alloc malloc a req of
        (a', None) \<Rightarrow> (a', None)
      | (a', Some p) \<Rightarrow> (a'\<lparr>ar_blocks := map (zero_bytes p (unat req)) (ar_blocks a')\<rparr>, Some p))"

definition arena_reset :: "arena \<Rightarrow> arena" where
  "arena_reset a = a\<lparr>ar_blocks := map (\<lambda>b. b\<lparr>blk_offset := 0\<rparr>) (ar_blocks a), ar_current := 0, ar_used := 0\<rparr>"

definition arena_used :: "arena \<Rightarrow> u64" where
  "arena_used a = ar_used a"

section \<open>Alignment\<close>

lemma align_drop: "KANBUDB_ALIGN w = push_bit 3 (drop_bit 3 (w + 7))"
proof -
  have m: "(7 :: u64) = mask 3" by (simp add: mask_eq_exp_minus_1)
  show ?thesis unfolding KANBUDB_ALIGN_def
    by (rule bit_word_eqI) (auto simp: m bit_and_iff bit_not_iff bit_mask_iff bit_push_bit_iff bit_drop_bit_eq add.commute)
qed

text \<open>Away from the end of the address space the macro rounds up to a multiple of eight.\<close>

lemma align_unat:
  assumes "unat w + 7 < 2 ^ 64"
  shows "unat (KANBUDB_ALIGN w) = 8 * ((unat w + 7) div 8)"
proof -
  have "unat (w + 7) = unat w + 7" using assms by (subst unat_add_lem [THEN iffD1]) simp_all
  then have d: "unat (drop_bit 3 (w + 7)) = (unat w + 7) div 8" by (simp only: unat_drop_bit_eq) (simp add: drop_bit_eq_div)
  have "unat (push_bit 3 (drop_bit 3 (w + 7))) = take_bit 64 (8 * ((unat w + 7) div 8))"
    by (simp only: unsigned_push_bit_eq d) (simp add: push_bit_eq_mult mult.commute)
  also have "\<dots> = 8 * ((unat w + 7) div 8)" using assms by (intro take_bit_nat_eq_self) (simp add: less_mult_imp_div_less)
  finally show ?thesis by (simp add: align_drop)
qed

lemma align_bounds:
  assumes "unat w \<le> 2 ^ 62"
  shows "unat w \<le> unat (KANBUDB_ALIGN w)" "unat (KANBUDB_ALIGN w) \<le> 2 ^ 62" "8 dvd unat (KANBUDB_ALIGN w)"
  using align_unat [of w] assms by auto

section \<open>Live allocations\<close>

text \<open>
  The allocations since the creation or the last reset, newest first, each with the number of bytes
  asked for. Requests are below \<open>2 ^ 62\<close> bytes.
\<close>

inductive arena_run :: "allocator \<Rightarrow> arena \<Rightarrow> (arena_ptr \<times> nat) list \<Rightarrow> bool" for malloc :: allocator where
  run_create: "unat bs \<le> 2 ^ 62 \<Longrightarrow> arena_create malloc bs = Some a \<Longrightarrow> arena_run malloc a []"
| run_alloc: "arena_run malloc a live \<Longrightarrow> unat n \<le> 2 ^ 62 \<Longrightarrow> arena_alloc malloc a n = (a', Some p) \<Longrightarrow>
    arena_run malloc a' ((p, unat n) # live)"
| run_zero: "arena_run malloc a live \<Longrightarrow> unat n \<le> 2 ^ 62 \<Longrightarrow> arena_alloc_zero malloc a n = (a', Some p) \<Longrightarrow>
    arena_run malloc a' ((p, unat n) # live)"
| run_reset: "arena_run malloc a live \<Longrightarrow> arena_run malloc (arena_reset a) []"

fun disjoint_allocs :: "arena_ptr \<times> nat \<Rightarrow> arena_ptr \<times> nat \<Rightarrow> bool" where
  "disjoint_allocs ((i, x), m) ((j, y), n) \<longleftrightarrow> i \<noteq> j \<or> x + m \<le> y \<or> y + n \<le> x"

definition block_ok :: "arena \<Rightarrow> block \<Rightarrow> bool" where
  "block_ok a b \<longleftrightarrow> blk_id b < ar_next_id a \<and> blk_offset b \<le> blk_capacity b \<and> unat (blk_capacity b) \<le> 2 ^ 62 \<and>
     8 dvd unat (blk_offset b)"

definition in_use :: "arena \<Rightarrow> arena_ptr \<times> nat \<Rightarrow> bool" where
  "in_use a l \<longleftrightarrow> 8 dvd snd (fst l) \<and>
     (\<exists>b\<in>set (take (Suc (ar_current a)) (ar_blocks a)). blk_id b = fst (fst l) \<and> snd (fst l) + snd l \<le> unat (blk_offset b))"

definition arena_ok :: "arena \<Rightarrow> (arena_ptr \<times> nat) list \<Rightarrow> bool" where
  "arena_ok a live \<longleftrightarrow>
     ar_current a < length (ar_blocks a) \<and> unat (ar_block_size a) \<le> 2 ^ 62 \<and> distinct (map blk_id (ar_blocks a)) \<and>
     (\<forall>b\<in>set (ar_blocks a). block_ok a b) \<and> (\<forall>l\<in>set live. in_use a l) \<and> sorted_wrt disjoint_allocs live"

lemma create_arena_ok:
  assumes "arena_create malloc bs = Some a" and "unat bs \<le> 2 ^ 62"
  shows "arena_ok a []"
  using assms by (auto simp: arena_create_def block_create_def arena_ok_def block_ok_def Let_def split: option.splits if_splits)

lemma reset_arena_ok: "arena_ok a live \<Longrightarrow> arena_ok (arena_reset a) []"
  by (auto simp: arena_ok_def arena_reset_def block_ok_def comp_def)

text \<open>The block an overflow adds is empty and has room; only blocks without live allocations are cut off.\<close>

lemma next_block_ok:
  assumes "arena_ok a live" and "next_block malloc a sz = Some a'" and "unat sz \<le> 2 ^ 62"
  shows "arena_ok a' live \<and> blk_offset (ar_blocks a' ! ar_current a') = 0 \<and> sz \<le> blk_capacity (ar_blocks a' ! ar_current a')"
proof -
  have c: "ar_current a < length (ar_blocks a)" using assms(1) by (simp add: arena_ok_def)
  obtain b where b: "block_create malloc (ar_next_id a) (if ar_block_size a > sz then ar_block_size a else sz) = Some b"
    and a': "a' = a\<lparr>ar_blocks := take (Suc (ar_current a)) (ar_blocks a) @ [b], ar_current := Suc (ar_current a),
      ar_next_id := Suc (ar_next_id a)\<rparr>"
    using assms(2) by (auto simp: next_block_def)
  have bf: "blk_id b = ar_next_id a" "blk_offset b = 0" "blk_capacity b = (if ar_block_size a > sz then ar_block_size a else sz)"
    using b by (auto simp: block_create_def)
  have d: "distinct (map blk_id (take (Suc (ar_current a)) (ar_blocks a)))"
    using assms(1) by (auto simp: arena_ok_def take_map [symmetric] intro: distinct_take)
  have t: "x \<in> set (take (Suc (ar_current a)) (ar_blocks a)) \<Longrightarrow> x \<in> set (ar_blocks a)" for x by (rule in_set_takeD)
  have "\<forall>x\<in>set (ar_blocks a'). block_ok a' x"
    using assms(1,3) t bf by (fastforce simp: a' arena_ok_def block_ok_def)
  moreover have "distinct (map blk_id (ar_blocks a'))"
    using d assms(1) t bf(1) by (fastforce simp: a' arena_ok_def block_ok_def)
  moreover have "\<forall>l\<in>set live. in_use a' l"
    using assms(1) c by (auto simp: a' arena_ok_def in_use_def)
  ultimately show ?thesis
    using assms(1) c bf by (auto simp: a' arena_ok_def nth_append)
qed

lemma bump_ok:
  assumes ok: "arena_ok a live" and room: "unat (blk_offset (ar_blocks a ! ar_current a)) + unat sz \<le> unat (blk_capacity (ar_blocks a ! ar_current a))"
    and sz: "8 dvd unat sz" "n \<le> unat sz" and bp: "bump a sz = (a', p)"
  shows "arena_ok a' ((p, n) # live)"
proof -
  let ?b = "ar_blocks a ! ar_current a"
  let ?b' = "?b\<lparr>blk_offset := blk_offset ?b + sz\<rparr>"
  have c: "ar_current a < length (ar_blocks a)" and dst: "distinct (map blk_id (ar_blocks a))"
    and bok: "block_ok a ?b" using ok by (auto simp: arena_ok_def)
  have a': "a' = a\<lparr>ar_blocks := (ar_blocks a)[ar_current a := ?b'], ar_used := ar_used a + sz\<rparr>" and p: "p = (blk_id ?b, unat (blk_offset ?b))"
    using bp by (auto simp: bump_def Let_def)
  have off: "unat (blk_offset ?b + sz) = unat (blk_offset ?b) + unat sz"
    using room unat_bounds(3) [of "blk_capacity ?b"] by (intro unat_add_lem [THEN iffD1]) simp
  have b'ok: "block_ok a' ?b'" using bok room off sz by (auto simp: block_ok_def a' word_le_nat_alt)
  have m: "map blk_id ((ar_blocks a)[ar_current a := ?b']) = map blk_id (ar_blocks a)"
    using c list_update_id [of "map blk_id (ar_blocks a)" "ar_current a"] by (simp add: map_update)
  have cur: "?b' \<in> set (take (Suc (ar_current a)) (ar_blocks a'))" using c by (auto simp: a' in_set_conv_nth intro: exI [of _ "ar_current a"])
  have old: "in_use a' l \<and> disjoint_allocs (p, n) l" if u: "in_use a l" for l
  proof -
    obtain j where j: "j < Suc (ar_current a)" "blk_id (ar_blocks a ! j) = fst (fst l)" "snd (fst l) + snd l \<le> unat (blk_offset (ar_blocks a ! j))"
      and al: "8 dvd snd (fst l)"
      using u c by (auto simp: in_use_def in_set_conv_nth)
    show ?thesis
    proof (cases "j = ar_current a")
      case True
      then have "in_use a' l" using j al cur off unfolding in_use_def by (intro conjI bexI [of _ ?b']) (auto simp: a')
      then show ?thesis using j True by (cases l) (auto simp: p)
    next
      case False
      then have "blk_id (ar_blocks a ! j) \<noteq> blk_id ?b"
        using dst c j(1) nth_eq_iff_index_eq [OF dst, of j "ar_current a"] by simp
      moreover have "ar_blocks a ! j \<in> set (take (Suc (ar_current a)) (ar_blocks a'))"
        using False j(1) c by (auto simp: a' in_set_conv_nth intro: exI [of _ j])
      ultimately show ?thesis using j al by (cases l) (auto simp: p in_use_def a')
    qed
  qed
  have "in_use a' (p, n)" using cur off sz bok unfolding in_use_def by (intro conjI bexI [of _ ?b']) (auto simp: p a' block_ok_def)
  moreover have "\<forall>x\<in>set (ar_blocks a'). block_ok a' x"
    using ok b'ok set_update_subset_insert [of "ar_blocks a" "ar_current a" ?b'] by (auto simp: a' arena_ok_def block_ok_def)
  ultimately show ?thesis using ok old m c by (auto simp: arena_ok_def a')
qed

lemma alloc_arena_ok:
  assumes ok: "arena_ok a live" and n: "unat n \<le> 2 ^ 62" and al: "arena_alloc malloc a n = (a', Some p)"
  shows "arena_ok a' ((p, unat n) # live)"
proof -
  let ?b = "ar_blocks a ! ar_current a" and ?sz = "KANBUDB_ALIGN n"
  have bok: "block_ok a ?b" using ok by (auto simp: arena_ok_def)
  obtain a1 where a1: "(if blk_offset ?b + ?sz > blk_capacity ?b then next_block malloc a ?sz else Some a) = Some a1" and bp: "bump a1 ?sz = (a', p)"
    using al by (auto simp: arena_alloc_def Let_def split: if_splits option.splits prod.splits)
  have "unat (blk_offset ?b) \<le> 2 ^ 62" using bok by (simp add: block_ok_def word_le_nat_alt)
  then have off: "unat (blk_offset ?b + ?sz) = unat (blk_offset ?b) + unat ?sz"
    using align_bounds(2) [OF n] by (intro unat_add_lem [THEN iffD1]) simp
  have "arena_ok a1 live \<and> unat (blk_offset (ar_blocks a1 ! ar_current a1)) + unat ?sz \<le> unat (blk_capacity (ar_blocks a1 ! ar_current a1))"
  proof (cases "blk_offset ?b + ?sz > blk_capacity ?b")
    case True
    then show ?thesis using next_block_ok [OF ok _ align_bounds(2) [OF n]] a1 by (simp add: word_le_nat_alt)
  next
    case False
    then show ?thesis using a1 ok off by (simp add: word_less_nat_alt)
  qed
  then show ?thesis using bump_ok [OF _ _ align_bounds(3,1) [OF n] bp] by blast
qed

lemma zero_arena_ok:
  assumes "arena_ok a live"
  shows "arena_ok (a\<lparr>ar_blocks := map (zero_bytes p n) (ar_blocks a)\<rparr>) live"
proof -
  have z [simp]: "blk_id (zero_bytes p n b) = blk_id b" "blk_offset (zero_bytes p n b) = blk_offset b"
    "blk_capacity (zero_bytes p n b) = blk_capacity b" for b
    by (simp_all add: zero_bytes_def)
  show ?thesis using assms by (auto simp: arena_ok_def block_ok_def in_use_def comp_def take_map)
qed

lemma arena_run_ok: "arena_run malloc a live \<Longrightarrow> arena_ok a live"
proof (induction rule: arena_run.induct)
  case (run_zero a live n a' p)
  then show ?case
    by (auto simp: arena_alloc_zero_def split: prod.splits option.splits intro!: zero_arena_ok alloc_arena_ok)
qed (auto intro: create_arena_ok alloc_arena_ok reset_arena_ok)

section \<open>Properties\<close>

text \<open>
  Every allocation since the last reset lies inside a block of the chain, starts at a multiple of
  eight and overlaps no other, whatever blocks were added or cut off in between; and a further
  allocation fails only for zero bytes or when the current block is full and the system allocator
  fails. Requests and block size are at most \<open>2 ^ 62\<close> bytes.
\<close>

theorem arena_allocs_disjoint:
  assumes "arena_run malloc a live"
  shows "sorted_wrt disjoint_allocs live \<and>
    (\<forall>(p, n)\<in>set live. 8 dvd snd p \<and> (\<exists>b\<in>set (ar_blocks a). blk_id b = fst p \<and> snd p + n \<le> unat (blk_capacity b))) \<and>
    (snd (arena_alloc malloc a n) = None \<longrightarrow>
       n = 0 \<or> (blk_offset (ar_blocks a ! ar_current a) + KANBUDB_ALIGN n > blk_capacity (ar_blocks a ! ar_current a) \<and>
         next_block malloc a (KANBUDB_ALIGN n) = None \<and> fst (arena_alloc malloc a n) = a)) \<and>
    (\<forall>a' p. arena_alloc_zero malloc a n = (a', Some p) \<longrightarrow>
       (\<forall>b\<in>set (ar_blocks a'). blk_id b = fst p \<longrightarrow> (\<forall>i<unat n. blk_data b (snd p + i) = 0)))"
proof -
  have ok: "arena_ok a live" by (rule arena_run_ok [OF assms])
  have "8 dvd snd p \<and> (\<exists>b\<in>set (ar_blocks a). blk_id b = fst p \<and> snd p + k \<le> unat (blk_capacity b))" if "(p, k) \<in> set live" for p k
  proof -
    have "in_use a (p, k)" using ok that by (simp add: arena_ok_def)
    then obtain b where b: "b \<in> set (ar_blocks a)" "blk_id b = fst p" "snd p + k \<le> unat (blk_offset b)" "8 dvd snd p"
      by (auto simp: in_use_def dest: in_set_takeD)
    moreover have "blk_offset b \<le> blk_capacity b" using ok b(1) by (auto simp: arena_ok_def block_ok_def)
    ultimately show ?thesis by (intro conjI bexI [of _ b]) (auto simp: word_le_nat_alt)
  qed
  moreover have "snd (arena_alloc malloc a n) = None \<Longrightarrow> n \<noteq> 0 \<Longrightarrow>
      blk_offset (ar_blocks a ! ar_current a) + KANBUDB_ALIGN n > blk_capacity (ar_blocks a ! ar_current a) \<and>
      next_block malloc a (KANBUDB_ALIGN n) = None \<and> fst (arena_alloc malloc a n) = a"
    by (auto simp: arena_alloc_def Let_def split: if_splits option.splits prod.splits)
  moreover have "arena_alloc_zero malloc a n = (a', Some p) \<Longrightarrow> b \<in> set (ar_blocks a') \<Longrightarrow> blk_id b = fst p \<Longrightarrow> i < unat n \<Longrightarrow>
      blk_data b (snd p + i) = 0" for a' p b i
    by (auto simp: arena_alloc_zero_def zero_bytes_def split: prod.splits option.splits if_splits)
  ultimately show ?thesis using ok by (auto simp: arena_ok_def)
qed

theorem arena_allocs_disjoint_witness:
  "\<exists>a live. arena_run (\<lambda>_ _. Some (\<lambda>_. 0)) a live \<and> live = [((2, 0), 100), ((1, 8), 9), ((1, 0), 5)] \<and>
     sorted_wrt disjoint_allocs live"
proof -
  let ?m = "\<lambda>_ _. Some (\<lambda>_. 0) :: (nat \<Rightarrow> byte) option"
  let ?blk = "\<lambda>i c x. \<lparr>blk_id = i, blk_capacity = c, blk_offset = x, blk_data = \<lambda>_. 0\<rparr>"
  let ?a = "\<lambda>bs c u i. \<lparr>ar_blocks = bs, ar_current = c, ar_block_size = 64, ar_used = u, ar_next_id = i\<rparr>"
  have al: "KANBUDB_ALIGN 5 = 8" "KANBUDB_ALIGN 9 = 16" "KANBUDB_ALIGN 100 = 104" by code_simp+
  note defs = arena_alloc_def al bump_def next_block_def block_create_def
  have a0: "arena_create ?m 64 = Some (?a [?blk 1 64 0] 0 0 2)" by (simp add: arena_create_def block_create_def)
  have a1: "arena_alloc ?m (?a [?blk 1 64 0] 0 0 2) 5 = (?a [?blk 1 64 8] 0 8 2, Some (1, 0))" by (simp add: defs)
  have a2: "arena_alloc ?m (?a [?blk 1 64 8] 0 8 2) 9 = (?a [?blk 1 64 24] 0 24 2, Some (1, 8))" by (simp add: defs)
  have a3: "arena_alloc ?m (?a [?blk 1 64 24] 0 24 2) 100 = (?a [?blk 1 64 24, ?blk 2 104 104] 1 128 3, Some (2, 0))"
    by (simp add: defs)
  have r0: "arena_run ?m (?a [?blk 1 64 0] 0 0 2) []" by (rule run_create [OF _ a0]) simp
  have r1: "arena_run ?m (?a [?blk 1 64 8] 0 8 2) [((1, 0), 5)]" using run_alloc [OF r0 _ a1] by simp
  have r2: "arena_run ?m (?a [?blk 1 64 24] 0 24 2) [((1, 8), 9), ((1, 0), 5)]" using run_alloc [OF r1 _ a2] by simp
  have r3: "arena_run ?m (?a [?blk 1 64 24, ?blk 2 104 104] 1 128 3) [((2, 0), 100), ((1, 8), 9), ((1, 0), 5)]"
    using run_alloc [OF r2 _ a3] by simp
  show ?thesis using arena_allocs_disjoint [OF r3] r3 by blast
qed

text \<open>
  For requests within seven bytes of the end of the address space the rounding wraps to zero: the
  request succeeds with no memory at all, and the pointer is handed out again.
\<close>

lemma arena_huge_request:
  assumes "arena_ok a live" and "unat n + 7 \<ge> 2 ^ 64"
  shows "\<exists>a' p. arena_alloc malloc a n = (a', Some p) \<and> ar_blocks a' = ar_blocks a \<and> p = (blk_id (ar_blocks a ! ar_current a), unat (blk_offset (ar_blocks a ! ar_current a)))"
proof -
  let ?b = "ar_blocks a ! ar_current a"
  have "unat (n + 7) = unat n + 7 - 2 ^ 64" using assms(2) unat_bounds(3) [of n] by (simp add: unat_word_ariths le_mod_geq)
  then have "unat (n + 7) < 8" using unat_bounds(3) [of n] by simp
  then have "unat (drop_bit 3 (n + 7)) = 0" by (simp only: unat_drop_bit_eq) (simp add: drop_bit_eq_div)
  then have "drop_bit 3 (n + 7) = 0" by (simp only: unat_eq_0)
  then have z: "KANBUDB_ALIGN n = 0" by (simp add: align_drop)
  have "block_ok a ?b" using assms(1) by (auto simp: arena_ok_def)
  then have "\<not> blk_offset ?b > blk_capacity ?b" by (simp add: block_ok_def not_less)
  moreover have "n \<noteq> 0" using assms(2) by auto
  ultimately show ?thesis by (auto simp: arena_alloc_def z bump_def Let_def)
qed

end
