(* ===== verification/Spec2Isabelle.thy ===== *)
theory Spec2Isabelle
  imports Prelude Btree_Correct Wal_Correct Lsm_Correct Bloom_Correct Sstable_Correct Compaction_Correct Wal_Mmap
    Shared_Meta Schema_Correct Db_Correct Db_Reader Fst_Correct Fts_Correct Query_Correct Hybrid_Correct
    Page_Cache Arena
begin

text \<open>
  Verification of kanbudb, an embedded key-value database in C with full-text and vector search.

  \<^bold>\<open>The program.\<close> A write (\<^verbatim>\<open>db_put\<close>, \<^verbatim>\<open>db_delete\<close> in \<^verbatim>\<open>src/src/core/db.c\<close>) is appended to the write-ahead
  log, then goes into the memtable of the LSM front. A full memtable is written as an SSTable
  file, its entries are loaded into the in-memory B+tree, and the log is truncated. A read asks the
  LSM front and then the B+tree. Opening a database loads the SSTables of all levels into the
  B+tree and replays the log into a fresh LSM front. A compaction thread merges the files of a level
  that has grown over its target. Other processes can open the database as readers: they follow a
  log in shared memory, next to a small metadata file. The table definitions are stored as text
  under reserved keys of the same store. A query builder runs conditions, joins and sorting over encoded rows.
  Full-text search has a tokenizer, a query parser and an inverted
  index over a trie of terms. Vector search has a flat and a graph index with files of their own, kernels for
  three distances, two quantizers and a built-in embedding of texts; hybrid search fuses its results with those
  of the full-text index. A page cache and an arena allocator stand beside these parts.

  \<^bold>\<open>Theories and sources.\<close> Theories ending in \<open>_Correct\<close> hold the proofs
  about the definitions of the theory they are named after. File names are below \<^verbatim>\<open>src/src\<close>.

    \<^item> \<open>Prelude\<close>: bytes, words, the return codes of \<^verbatim>\<open>util/macros.h\<close>, \<^verbatim>\<open>key_cmp\<close> and \<^verbatim>\<open>memcmp\<close>,
      little-endian integers, and three interfaces: \<open>keyed_store\<close> (what a lookup returns after writes; provided by
      the B+tree, the memtable and the term dictionary),
      \<open>byte_codec\<close> (self-delimiting records; the log records) and \<open>qsort_spec\<close> (what \<^verbatim>\<open>qsort\<close> promises; an insertion sort).
    \<^item> \<open>Btree\<close>: \<^verbatim>\<open>storage/btree.c\<close>, nodes as a tree with addresses. Invariant (order, occupancy, depth, leaf chain),
      lookup, insertion, deletion and scans against the sorted list of pairs.
    \<^item> \<open>Wal\<close>: \<^verbatim>\<open>storage/wal.c\<close>, stdio path, with the bytes the operating system has, the stdio buffer and the
      log's own buffer kept apart. Round trip through close and open, torn files, failed writes.
    \<^item> \<open>Skip_Graph\<close>, \<open>Lsm\<close>: \<^verbatim>\<open>storage/lsm.c\<close>. The memtable is a skip list on an explicit heap of nodes; the
      graph invariant excludes dangling pointers, and the operations behave as a map.
    \<^item> \<open>Bloom\<close>: \<^verbatim>\<open>util/bloom.c\<close> with its 64-bit hash; no false negatives.
    \<^item> \<open>Sstable\<close>: \<^verbatim>\<open>storage/sstable.c\<close> on the bytes of the file: writer, CRC-32, reader, sparse index, lookup, scan.
    \<^item> \<open>Files\<close>, \<open>Compaction\<close>: directory, file names and \<^verbatim>\<open>storage/compaction.c\<close>: level scan, picker, merge.
    \<^item> \<open>Wal_Mmap\<close>, \<open>Shared_Meta\<close>: \<^verbatim>\<open>storage/wal_mmap.c\<close> and \<^verbatim>\<open>storage/shared_meta.c\<close>, the multi-process side.
    \<^item> \<open>Schema\<close>: table definitions and their text form in \<^verbatim>\<open>core/db.c\<close>.
    \<^item> \<open>Db_Core\<close>: the database object of \<^verbatim>\<open>core/db.c\<close>, composed of the above: open, close, put, get, delete,
      flush, checkpoint, one round of compaction, and the reader's open and refresh.
    \<^item> \<open>Db_Correct\<close>: the refinement to a map from keys to values (\<open>contents\<close>), the invariant \<open>db_inv\<close> over all
      reachable states, and recovery after a crash. \<open>Db_Reader\<close>: a put reaches a reader.
    \<^item> \<open>Row_Format\<close>, \<open>Query\<close>: \<^verbatim>\<open>query/row_format.c\<close> and \<^verbatim>\<open>query/query_builder.c\<close>: encoded rows, conditions, scans of the
      memtable and the B+tree, joins, sorting, limits and result sets. Columns read back as written, and the rows of a
      result are the specified ones in order.
    \<^item> \<open>Fst\<close>: \<^verbatim>\<open>util/fst.c\<close>, the trie; fuzzy search against the Levenshtein distance.
    \<^item> \<open>Fts\<close>: \<^verbatim>\<open>fts/tokenizer.c\<close>, \<^verbatim>\<open>fts/parser.c\<close>, \<^verbatim>\<open>fts/index.c\<close> and the search entry points of \<^verbatim>\<open>core/db.c\<close>.
    \<^item> \<open>Float_Arith\<close>: binary floating point as IEEE 754 and C use it, on bit patterns, for any format: rounding to nearest even, addition,
      multiplication, division, square root, fused multiply-add, conversion, comparison; \<open>F32\<close> and \<open>F64\<close>. Exact integer arithmetic, no real numbers.
    \<^item> \<open>Distance\<close>: \<^verbatim>\<open>vector/distance.c\<close>, the portable and the AVX2 kernels in the order of their additions.
    \<^item> \<open>Vec_Heap\<close>, \<open>Hnsw\<close>: the binary heaps of searches, over the interface \<open>heap_order\<close>, and \<^verbatim>\<open>vector/hnsw.c\<close>. \<open>Hnsw_Correct\<close> and \<open>Hnsw_Graph\<close>:
      the graph invariant, searches never leave the graph and end, insertion and deletion as a map.
    \<^item> \<open>Vec_Index\<close>: \<^verbatim>\<open>vector/vector.c\<close>, \<^verbatim>\<open>vector/vec_filter.c\<close> and \<^verbatim>\<open>vector/persistence.c\<close> with log, data files and checkpoints. \<open>Vec_Correct\<close>: runs
      of operations against a map, searches and filters. \<open>Vec_Recovery\<close>: what a new process reads back.
    \<^item> \<open>Quantize\<close>: \<^verbatim>\<open>vector/quantize.c\<close>, SQ8 and PQ with k-means and the three distance routines.
    \<^item> \<open>Embedding\<close>: \<^verbatim>\<open>vector/embedding.c\<close>: UTF-8, segmentation by the longest dictionary word, hashed n-grams. The segmentation loses nothing; every
      text has a finite embedding.
    \<^item> \<open>Top_K\<close>: the selection sorts of \<^verbatim>\<open>core/db.c\<close>, over the interface \<open>score_order\<close>, which the comparisons of distances and of scores provide.
    \<^item> \<open>Db_Vector\<close>: the vector entry points of \<^verbatim>\<open>core/db.c\<close>: text search finds the stored texts, quantized search the nearest codes.
    \<^item> \<open>Hybrid\<close>: \<^verbatim>\<open>fts/ranker.c\<close>, \<^verbatim>\<open>hybrid/hybrid.c\<close> and \<^verbatim>\<open>db_hybrid_search\<close>: the best ids under reciprocal rank fusion, and the agreement
      of the two fusions.
    \<^item> \<open>Page_Cache\<close>, \<open>Arena\<close>: \<^verbatim>\<open>util/page_cache.c\<close> and \<^verbatim>\<open>util/arena.c\<close>.

  \<^bold>\<open>Conventions.\<close> A pointer with a length is a byte list; guards against null pointers of the caller are not
  modelled, optional arguments are. Unless a theory says otherwise \<^verbatim>\<open>malloc\<close> succeeds and freeing has no effect.
  Integers are words where the code's arithmetic can wrap and unbounded where it cannot
  within the model's bounds. Floats and doubles are their bit patterns. The machine is little-endian with 8-byte pointers. Locks make each
  operation one step; the threads of the program appear as further operations
  (\<open>compact_round\<close>, \<open>db_reader_refresh\<close>). Outcomes of the operating system (whether a file opens, how much a
  write accepts, the time, directory order, whether a mapping succeeds) and random numbers are
  parameters, in \<open>io_env\<close> and \<open>vec_env\<close> for the file operations; so are \<^verbatim>\<open>qsort\<close>, \<^verbatim>\<open>log\<close>, \<^verbatim>\<open>atof\<close> and the generated dictionary.
  \<open>None\<close> as the result of an operation on pointers is an access
  to memory that is not there; the theorems show that it does not occur under the invariants. While
  a log is open its bytes live in the log's record and not in the list of files. Left-over temporary files of failed
  operations are not tracked.

  \<^bold>\<open>Loops.\<close> Walks along pointers of the skip list, the leaf chain and byte buffers take fuel, which is the
  number of nodes, leaves or bytes; the correctness lemmas show that the fuel suffices. The greedy search of the graph index
  ends because the best distance decreases in each round. All other loops are structural or have a termination proof.

  \<^bold>\<open>Where the code falls short\<close>, with a theorem each: a B+tree insertion equal to a split separator loses the
  update (\<open>btree_put_tie_loses_update\<close>); a full memtable drops the one waiting to be flushed
  (\<open>lsm_put_drops_flushing\<close>); a deleted key is answered from the B+tree until the next flush
  (\<open>db_deleted_key_returns\<close>); a truncated log cannot be replayed through the same handle
  (\<open>wal_replay_after_truncate\<close>); switching the shared log drops its entries (\<open>wal_mmap_switch_drops\<close>); a zero checksum
  disables the check (\<open>sstable_checksum_zero\<close>); a page in use is evicted (\<open>page_cache_evicts_held_page\<close>); a flat search keeps the
  first slots it sees once it has found a nearest one (\<open>vec_search_keeps_first\<close>, so the searches promise only that the first result is
  nearest); a graph node above layer 0 is linked only with itself there (\<open>hnsw_upper_node_isolated\<close>); the AVX-512 distance drops half of its sum
  (\<open>pq_distance_avx512_half\<close>); an index of the database is never written to disk (\<open>db_vec_flush_never\<close>).

  \<^bold>\<open>Not modelled.\<close> The io_uring path of the log (compiled only with a flag), \<^verbatim>\<open>sstable_scan_dir\<close>, the mapping layer
  \<^verbatim>\<open>util/platform_mmap.c\<close> (calls of the operating system), the NEON kernels (the order of the additions in \<^verbatim>\<open>vaddvq_f32\<close> is left to the processor),
  the waiting of the background threads, three unused callbacks of \<^verbatim>\<open>core/db.c\<close>, the amalgamation under \<^verbatim>\<open>src/dist\<close> (a generated copy of the sources),
  bindings and tests.
\<close>

section \<open>Vector search over its kernels\<close>



end
